(* ===== verification/Prelude.thy ===== *)
theory Prelude
  imports Main "HOL-Library.Word" "HOL-Library.Monad_Syntax" "HOL-Library.Signed_Division"
begin

unbundle bit_operations_syntax

text \<open>
  What every component of the model shares: the machine integers of the i386 target, the
  little-endian layout of a 32-bit word in memory, the C idiom of overwriting part of a
  buffer (\<open>patch\<close>), and the first-fit search the kernel's tables are allocated with.

  An operation that may stop the kernel returns an \<open>option\<close>: \<^term>\<open>None\<close> stands for a call
  that never returns to its caller, because an \<open>assert\<close> or \<open>panic\<close> of the source fired
  (both end in \<open>abort\<close>, which prints a message and halts the processor for good) or because
  the C program has no defined behaviour there. A theorem that an operation returns
  \<open>Some\<close> therefore also says that no assertion fails.
\<close>

type_synonym u8 = "8 word"
type_synonym u16 = "16 word"
type_synonym u32 = "32 word"
type_synonym u64 = "64 word"
type_synonym bytes = "u8 list"

named_theorems codec_simps \<open>round trips of the byte layouts\<close>
named_theorems kinv_intros \<open>preservation of a component's invariant by its operations\<close>

subsection \<open>Overwriting part of a buffer\<close>

definition patch :: "'a list \<Rightarrow> nat \<Rightarrow> 'a list \<Rightarrow> 'a list" where
  "patch xs off ys = take off xs @ ys @ drop (off + length ys) xs"

lemma length_patch [simp]:
  "off + length ys \<le> length xs \<Longrightarrow> length (patch xs off ys) = length xs"
  by (simp add: patch_def)

lemma nth_patch:
  "off + length ys \<le> length xs \<Longrightarrow> k < length xs \<Longrightarrow>
   patch xs off ys ! k = (if off \<le> k \<and> k < off + length ys then ys ! (k - off) else xs ! k)"
  by (auto simp: patch_def nth_append min_def)

lemma patch_Nil [simp]: "patch xs off [] = xs"
  by (simp add: patch_def)

lemma patch_whole [simp]: "length ys = length xs \<Longrightarrow> patch xs 0 ys = ys"
  by (simp add: patch_def)

text \<open>The same on an array given by its contents, an index-to-element function.\<close>

definition overlay :: "(nat \<Rightarrow> 'a) \<Rightarrow> nat \<Rightarrow> 'a list \<Rightarrow> nat \<Rightarrow> 'a" where
  "overlay f off xs = (\<lambda>k. if off \<le> k \<and> k < off + length xs then xs ! (k - off) else f k)"

lemma map_overlay_same: "map (overlay f off xs) [off..<off + length xs] = xs"
  by (rule nth_equalityI) (auto simp: overlay_def)

lemma map_overlay_other:
  "off' + n \<le> off \<or> off + length xs \<le> off' \<Longrightarrow>
   map (overlay f off xs) [off'..<off' + n] = map f [off'..<off' + n]"
  by (auto simp: overlay_def)

subsection \<open>Signed division of C\<close>

text \<open>Division of two \<open>int\<close>s truncates towards zero.\<close>

definition c_div :: "u32 \<Rightarrow> u32 \<Rightarrow> u32" where
  "c_div a b = word_of_int (sint a sdiv sint b)"

lemma unat_of_nat32: "n < 2 ^ 32 \<Longrightarrow> unat (of_nat n :: u32) = n"
  by (simp add: unat_of_nat take_bit_nat_eq_self)

lemma take_bit_unat32 [simp]: "take_bit 32 (unat (w :: u32)) = unat w"
  using unsigned_less [of w, where 'a = nat] by (simp add: take_bit_nat_eq_self)

lemma sint_small:
  fixes x :: u32
  assumes "unat x < 2 ^ 31"
  shows "sint x = int (unat x)"
proof -
  have "nat (uint x) < 2 ^ 31" using assms by (simp only: nat_uint_eq)
  then have "uint x < 2 ^ 31" by (simp del: nat_uint_eq)
  then have "signed_take_bit 31 (uint x) = uint x"
    using uint_ge_0 [of x] by (intro signed_take_bit_int_eq_self) linarith+
  then show ?thesis by (simp add: sint_uint)
qed

lemma sint_nonneg:
  fixes x :: u32
  assumes "0 \<le> sint x"
  shows "sint x = int (unat x)"
proof -
  have "uint x = take_bit 32 (sint x)" using uint_sint [of x] by simp
  moreover have "sint x < 2 ^ 31" using sint_lt [of x] by simp
  ultimately have "uint x = sint x" using assms by (simp add: take_bit_int_eq_self)
  then show ?thesis by simp
qed

lemma int_sdiv_int: "int m sdiv int n = int (m div n)"
  by (cases "n = 0"; cases "m = 0") (simp_all add: signed_divide_int_def zdiv_int)

lemma c_div_nonneg:
  assumes "unat a < 2 ^ 31" and "unat b < 2 ^ 31"
  shows "unat (c_div a b) = unat a div unat b"
proof -
  have "sint a sdiv sint b = int (unat a div unat b)"
    unfolding sint_small [OF assms(1)] sint_small [OF assms(2)] by (rule int_sdiv_int)
  moreover have "unat a div unat b < 2 ^ 32"
    by (rule le_less_trans [OF div_le_dividend]) (use assms(1) in simp)
  ultimately show ?thesis by (simp add: c_div_def unat_of_nat take_bit_nat_eq_self)
qed

subsection \<open>Little-endian words\<close>

definition le32 :: "u32 \<Rightarrow> bytes" where
  "le32 w = [ucast w, ucast (drop_bit 8 w), ucast (drop_bit 16 w), ucast (drop_bit 24 w)]"

fun of_le32 :: "bytes \<Rightarrow> u32" where
  "of_le32 (a # b # c # d # _) =
     ucast a OR push_bit 8 (ucast b) OR push_bit 16 (ucast c) OR push_bit 24 (ucast d)"
| "of_le32 _ = 0"

lemma length_le32 [simp]: "length (le32 w) = 4"
  by (simp add: le32_def)

lemma of_le32_le32_append [simp, codec_simps]: "of_le32 (le32 w @ rest) = w"
  unfolding le32_def
proof (simp, rule bit_word_eqI)
  fix n assume n: "n < LENGTH(32)"
  consider "n < 8" | "8 \<le> n" "n < 16" | "16 \<le> n" "n < 24" | "24 \<le> n" by linarith
  then show "bit (ucast (ucast w :: u8) OR push_bit 8 (ucast (ucast (drop_bit 8 w) :: u8)) OR
       push_bit 16 (ucast (ucast (drop_bit 16 w) :: u8)) OR
       push_bit 24 (ucast (ucast (drop_bit 24 w) :: u8)) :: u32) n = bit w n"
    using n by cases (auto simp: bit_simps)
qed

lemma of_le32_le32 [simp, codec_simps]: "of_le32 (le32 w) = w"
  using of_le32_le32_append [of w "[]"] by simp

text \<open>The 32-bit word a C program reads at an offset of a byte array.\<close>

definition word_at :: "(nat \<Rightarrow> u8) \<Rightarrow> nat \<Rightarrow> u32" where
  "word_at f off = of_le32 (map f [off..<off + 4])"

lemma word_at_overlay_same [simp]: "word_at (overlay f off (le32 w)) off = w"
  using map_overlay_same [of f off "le32 w"] by (simp add: word_at_def)

lemma word_at_overlay_other:
  "off' + 4 \<le> off \<or> off + length xs \<le> off' \<Longrightarrow>
   word_at (overlay f off xs) off' = word_at f off'"
  unfolding word_at_def by (simp only: map_overlay_other)

lemma word_at_cong: "(\<And>i. i < 4 \<Longrightarrow> f (a + i) = g (b + i)) \<Longrightarrow> word_at f a = word_at g b"
proof -
  assume "\<And>i. i < 4 \<Longrightarrow> f (a + i) = g (b + i)"
  then have "map f [a..<a + 4] = map g [b..<b + 4]" by (intro nth_equalityI) auto
  then show ?thesis by (simp only: word_at_def)
qed

lemma word_at_zero [simp]: "word_at (\<lambda>_. 0) off = 0"
  by (simp add: word_at_def upt_conv_Cons)

subsection \<open>Loops that may stop the kernel\<close>

fun foldM :: "('s \<Rightarrow> 'a \<Rightarrow> 's option) \<Rightarrow> 's \<Rightarrow> 'a list \<Rightarrow> 's option" where
  "foldM f s [] = Some s"
| "foldM f s (x # xs) = do { s \<leftarrow> f s x; foldM f s xs }"

lemma foldM_append: "foldM f s (xs @ ys) = do { s \<leftarrow> foldM f s xs; foldM f s ys }"
proof (induction xs arbitrary: s)
  case (Cons x xs)
  then show ?case by (cases "f s x") simp_all
qed simp

text \<open>A loop invariant indexed by what is still to do.\<close>

lemma foldM_inv:
  assumes "P xs s" and "\<And>x xs s. P (x # xs) s \<Longrightarrow> \<exists>s'. f s x = Some s' \<and> P xs s'"
  shows "\<exists>s'. foldM f s xs = Some s' \<and> P [] s'"
  using assms(1)
proof (induction xs arbitrary: s)
  case (Cons x xs)
  obtain s' where "f s x = Some s'" "P xs s'" using assms(2) [OF Cons.prems] by blast
  then show ?case using Cons.IH [of s'] by simp
qed simp

end
