(* ===== verification/Disk.thy ===== *)
theory Disk
  imports Prelude
begin

text \<open>
  The block layer, \<open>kernel/src/disk.c\<close>: sector transfers to and from the ATA disk, and the
  write-through cache of sixteen 4 KiB blocks behind \<open>bread\<close>, \<open>bwrite\<close> and \<open>bzero\<close>.

  The disk is the only part that is not code of the repository: a byte array addressed by
  the 28-bit LBA the driver programs into ports 0x1f3 to 0x1f6. Arrays of bytes (the disk, a
  block buffer) are functions from an offset to a byte. \<open>bcontent\<close> is what a client may
  think of, the bytes of each block on the disk; the interface \<open>block_store\<close> states the
  three operations over it and is interpreted on the cache at the end.
\<close>

subsection \<open>Sectors\<close>

abbreviation (input) SECTSIZE :: nat where "SECTSIZE \<equiv> 512"
abbreviation (input) BLK_SIZE :: nat where "BLK_SIZE \<equiv> 4096"
abbreviation (input) BLK_NUM :: nat where "BLK_NUM \<equiv> 32768"

type_synonym disk = "nat \<Rightarrow> u8"
type_synonym buffer = "nat \<Rightarrow> u8"

text \<open>
  The four \<open>outb\<close>s that select the sector. The device reads LBA bits 0-7, 8-15, 16-23 from
  the first three ports and bits 24-27 from the low half of the fourth, whose high half
  (\<open>0xE0\<close>) selects LBA mode on the first drive.
\<close>

definition device_lba :: "u8 \<Rightarrow> u8 \<Rightarrow> u8 \<Rightarrow> u8 \<Rightarrow> nat" where
  "device_lba p3 p4 p5 p6 =
     unat p3 + 2 ^ 8 * unat p4 + 2 ^ 16 * unat p5 + 2 ^ 24 * (unat p6 mod 16)"

definition ata_select :: "u32 \<Rightarrow> nat" where
  "ata_select sect =
     device_lba (ucast sect) (ucast (drop_bit 8 sect)) (ucast (drop_bit 16 sect))
       (ucast (drop_bit 24 sect OR 0xE0))"

definition read_disk :: "disk \<Rightarrow> u32 \<Rightarrow> buffer" where
  "read_disk d sect = (\<lambda>k. d (SECTSIZE * ata_select sect + k))"

definition write_disk :: "disk \<Rightarrow> buffer \<Rightarrow> u32 \<Rightarrow> disk" where
  "write_disk d buf sect =
     (\<lambda>a. if SECTSIZE * ata_select sect \<le> a \<and> a < SECTSIZE * ata_select sect + SECTSIZE
          then buf (a - SECTSIZE * ata_select sect) else d a)"

text \<open>
  The two copy loops. \<open>cur\<close> and \<open>ed\<close> are the distances of the C pointers from \<open>buf\<close>.
\<close>

function copy_from_loop :: "disk \<Rightarrow> nat \<Rightarrow> nat \<Rightarrow> u32 \<Rightarrow> buffer \<Rightarrow> buffer" where
  "copy_from_loop d cur ed sect buf =
     (if cur < ed then
        copy_from_loop d (cur + SECTSIZE) ed (sect + 1)
          (\<lambda>k. if cur \<le> k \<and> k < cur + SECTSIZE then read_disk d sect (k - cur) else buf k)
      else buf)"
  by pat_completeness auto
termination by (relation "measure (\<lambda>(d, cur, ed, sect, buf). ed - cur)") auto

function copy_to_loop :: "buffer \<Rightarrow> nat \<Rightarrow> nat \<Rightarrow> u32 \<Rightarrow> disk \<Rightarrow> disk" where
  "copy_to_loop buf cur ed sect d =
     (if cur < ed then
        copy_to_loop buf (cur + SECTSIZE) ed (sect + 1)
          (write_disk d (\<lambda>k. buf (cur + k)) sect)
      else d)"
  by pat_completeness auto
termination by (relation "measure (\<lambda>(buf, cur, ed, sect, d). ed - cur)") auto

declare copy_from_loop.simps [simp del] copy_to_loop.simps [simp del]

definition copy_from_disk :: "disk \<Rightarrow> buffer \<Rightarrow> nat \<Rightarrow> u32 \<Rightarrow> buffer" where
  "copy_from_disk d buf nbytes disk_offset =
     copy_from_loop d 0 nbytes (c_div disk_offset 512) buf"

definition copy_to_disk :: "disk \<Rightarrow> buffer \<Rightarrow> nat \<Rightarrow> u32 \<Rightarrow> disk" where
  "copy_to_disk d buf nbytes disk_offset =
     copy_to_loop buf 0 nbytes (c_div disk_offset 512) d"

subsection \<open>The block cache\<close>

abbreviation (input) BCACHE_NUM :: nat where "BCACHE_NUM \<equiv> 16"

record bcache =
  bc_valid :: bool
  bc_no :: u32
  bc_buf :: buffer

record bdev =
  dsk :: disk
  blk_cache :: "nat \<Rightarrow> bcache"

text \<open>The disk image holds \<open>BLK_NUM\<close> blocks; a transfer beyond it has no defined result.\<close>

definition on_disk :: "u32 \<Rightarrow> bool" where
  "on_disk no \<longleftrightarrow> unat no < BLK_NUM"

text \<open>\<open>bgetcache\<close> leaves block \<open>no\<close> in line \<open>no % BCACHE_NUM\<close>, the pointer it returns.\<close>

definition bgetcache :: "bdev \<Rightarrow> u32 \<Rightarrow> bdev option" where
  "bgetcache b no =
     (let i = unat no mod BCACHE_NUM; bc = blk_cache b i in
      if \<not> bc_valid bc \<or> bc_no bc \<noteq> no then
        (if on_disk no then
           Some (b\<lparr>blk_cache := (blk_cache b)(i :=
             \<lparr>bc_valid = True, bc_no = no,
              bc_buf = copy_from_disk (dsk b) (bc_buf bc) BLK_SIZE (no * 4096)\<rparr>)\<rparr>)
         else None)
      else Some b)"

definition bread :: "bdev \<Rightarrow> nat \<Rightarrow> u32 \<Rightarrow> nat \<Rightarrow> (bytes \<times> bdev) option" where
  "bread b sz no off =
     (if sz + off \<le> BLK_SIZE then do {
        b' \<leftarrow> bgetcache b no;
        Some (map (bc_buf (blk_cache b' (unat no mod BCACHE_NUM))) [off..<off + sz], b')
      } else None)"

text \<open>\<open>bflush\<close> is the tail \<open>bwrite\<close> and \<open>bzero\<close> share: the new buffer goes to the line, then to disk.\<close>

definition bflush :: "bdev \<Rightarrow> u32 \<Rightarrow> buffer \<Rightarrow> bdev" where
  "bflush b no buf =
     b\<lparr>blk_cache := (blk_cache b)(unat no mod BCACHE_NUM :=
          (blk_cache b (unat no mod BCACHE_NUM))\<lparr>bc_buf := buf\<rparr>),
       dsk := copy_to_disk (dsk b) buf BLK_SIZE (no * 4096)\<rparr>"

definition bwrite :: "bdev \<Rightarrow> bytes \<Rightarrow> u32 \<Rightarrow> nat \<Rightarrow> bdev option" where
  "bwrite b src no off =
     (if length src + off \<le> BLK_SIZE then do {
        b' \<leftarrow> bgetcache b no;
        Some (bflush b' no (overlay (bc_buf (blk_cache b' (unat no mod BCACHE_NUM))) off src))
      } else None)"

definition bzero :: "bdev \<Rightarrow> u32 \<Rightarrow> bdev option" where
  "bzero b no = do {
     b' \<leftarrow> bgetcache b no;
     Some (bflush b' no
       (\<lambda>k. if k < BLK_SIZE then 0 else bc_buf (blk_cache b' (unat no mod BCACHE_NUM)) k))
   }"

subsection \<open>Sector arithmetic\<close>

lemma device_lba_bytes:
  fixes n :: nat
  shows "n mod 256 + 2 ^ 8 * (n div 2 ^ 8 mod 256) + 2 ^ 16 * (n div 2 ^ 16 mod 256) +
    2 ^ 24 * (n div 2 ^ 24) = n"
proof -
  define a where "a = n div 256"
  define b where "b = a div 256"
  define c where "c = b div 256"
  have "n div 2 ^ 16 = b" "n div 2 ^ 24 = c"
    by (simp_all add: a_def b_def c_def div_mult2_eq [symmetric])
  moreover have "256 * a + n mod 256 = n" "256 * b + a mod 256 = a" "256 * c + b mod 256 = b"
    by (simp_all add: a_def b_def c_def)
  ultimately show ?thesis by (simp add: a_def [symmetric])
qed

lemma ata_select_eq:
  assumes "unat sect < 2 ^ 28"
  shows "ata_select sect = unat sect"
proof -
  let ?n = "unat sect"
  have "unat (ucast (drop_bit 24 sect OR 0xE0) :: u8) = take_bit 8 (drop_bit 24 ?n OR 0xE0)"
    by (simp only: unsigned_ucast_eq unsigned_or_eq unsigned_drop_bit_eq) simp
  then have "unat (ucast (drop_bit 24 sect OR 0xE0) :: u8) mod 16 = take_bit 4 (drop_bit 24 ?n)"
    by (simp add: take_bit_eq_mod [of 4, symmetric, simplified] take_bit_or)
  then have hi: "unat (ucast (drop_bit 24 sect OR 0xE0) :: u8) mod 16 = ?n div 2 ^ 24"
    using assms by (simp add: take_bit_eq_mod drop_bit_eq_div)
  show ?thesis
    unfolding ata_select_def device_lba_def hi
    using device_lba_bytes [of ?n]
    by (simp add: unsigned_ucast_eq unsigned_drop_bit_eq take_bit_eq_mod drop_bit_eq_div unat_div)
qed

subsection \<open>The copy loops move a run of sectors\<close>

lemma unat_Suc_sector:
  "unat (sect :: u32) + Suc m \<le> 2 ^ 28 \<Longrightarrow> unat (sect + 1) = unat sect + 1"
  by (simp add: unat_word_ariths)

lemma copy_from_loop_sectors:
  "unat sect + m \<le> 2 ^ 28 \<Longrightarrow>
   copy_from_loop d cur (cur + SECTSIZE * m) sect buf =
     (\<lambda>k. if cur \<le> k \<and> k < cur + SECTSIZE * m then d (SECTSIZE * unat sect + (k - cur))
          else buf k)"
proof (induction m arbitrary: cur sect buf)
  case 0
  then show ?case by (subst copy_from_loop.simps) (auto simp: fun_eq_iff)
next
  case (Suc m)
  have sect: "unat (sect + 1) = unat sect + 1"
    using Suc.prems by (rule unat_Suc_sector)
  have lba: "ata_select sect = unat sect"
    using Suc.prems by (intro ata_select_eq) simp
  have "copy_from_loop d cur (cur + SECTSIZE * Suc m) sect buf =
      copy_from_loop d (cur + SECTSIZE) (cur + SECTSIZE + SECTSIZE * m) (sect + 1)
        (\<lambda>k. if cur \<le> k \<and> k < cur + SECTSIZE then read_disk d sect (k - cur) else buf k)"
    by (subst copy_from_loop.simps) (simp add: add.assoc)
  also note Suc.IH
  finally show ?case
    using Suc.prems by (auto simp: sect lba read_disk_def fun_eq_iff)
qed

lemma copy_to_loop_sectors:
  "unat sect + m \<le> 2 ^ 28 \<Longrightarrow>
   copy_to_loop buf cur (cur + SECTSIZE * m) sect d =
     (\<lambda>a. if SECTSIZE * unat sect \<le> a \<and> a < SECTSIZE * (unat sect + m)
          then buf (cur + (a - SECTSIZE * unat sect)) else d a)"
proof (induction m arbitrary: cur sect d)
  case 0
  then show ?case by (subst copy_to_loop.simps) (auto simp: fun_eq_iff)
next
  case (Suc m)
  have sect: "unat (sect + 1) = unat sect + 1"
    using Suc.prems by (rule unat_Suc_sector)
  have lba: "ata_select sect = unat sect"
    using Suc.prems by (intro ata_select_eq) simp
  have "copy_to_loop buf cur (cur + SECTSIZE * Suc m) sect d =
      copy_to_loop buf (cur + SECTSIZE) (cur + SECTSIZE + SECTSIZE * m) (sect + 1)
        (write_disk d (\<lambda>k. buf (cur + k)) sect)"
    by (subst copy_to_loop.simps) (simp add: add.assoc)
  also note Suc.IH
  finally show ?case
    using Suc.prems by (auto simp: sect lba write_disk_def fun_eq_iff)
qed

lemma blk_sector:
  assumes "on_disk no"
  shows "unat (c_div (no * 4096) 512) = 8 * unat no"
proof -
  have "unat (no * 4096) = unat no * 4096"
    using assms by (simp add: on_disk_def unat_word_ariths)
  then show ?thesis
    using assms by (subst c_div_nonneg) (simp_all add: on_disk_def)
qed

lemma copy_from_disk_block:
  assumes "on_disk no"
  shows "copy_from_disk d buf BLK_SIZE (no * 4096) =
    (\<lambda>k. if k < BLK_SIZE then d (BLK_SIZE * unat no + k) else buf k)"
  using copy_from_loop_sectors [of "c_div (no * 4096) 512" 8 d 0 buf] assms
  by (simp add: copy_from_disk_def blk_sector on_disk_def [of no] fun_eq_iff)

lemma copy_to_disk_block:
  assumes "on_disk no"
  shows "copy_to_disk d buf BLK_SIZE (no * 4096) =
    (\<lambda>a. if BLK_SIZE * unat no \<le> a \<and> a < BLK_SIZE * (unat no + 1)
         then buf (a - BLK_SIZE * unat no) else d a)"
  using copy_to_loop_sectors [of "c_div (no * 4096) 512" 8 buf 0 d] assms
  by (simp add: copy_to_disk_def blk_sector on_disk_def [of no] fun_eq_iff)

subsection \<open>The cache is transparent\<close>

text \<open>
  The bytes of a block as a client sees them, and the invariant of the cache: a valid line
  holds a block that maps to it, with the bytes the disk has.
\<close>

definition bcontent :: "bdev \<Rightarrow> u32 \<Rightarrow> nat \<Rightarrow> u8" where
  "bcontent b no k = (if on_disk no \<and> k < BLK_SIZE then dsk b (BLK_SIZE * unat no + k) else 0)"

definition bdev_ok :: "bdev \<Rightarrow> bool" where
  "bdev_ok b \<longleftrightarrow>
     (\<forall>i < BCACHE_NUM. bc_valid (blk_cache b i) \<longrightarrow>
        (let no = bc_no (blk_cache b i) in
         on_disk no \<and> unat no mod BCACHE_NUM = i \<and>
         (\<forall>k < BLK_SIZE. bc_buf (blk_cache b i) k = dsk b (BLK_SIZE * unat no + k))))"

lemma bgetcache_ok:
  assumes "bdev_ok b" and "on_disk no"
  obtains b' where "bgetcache b no = Some b'" and "bdev_ok b'" and "dsk b' = dsk b"
    and "bc_valid (blk_cache b' (unat no mod BCACHE_NUM))"
    and "bc_no (blk_cache b' (unat no mod BCACHE_NUM)) = no"
proof (cases "\<not> bc_valid (blk_cache b (unat no mod BCACHE_NUM)) \<or>
    bc_no (blk_cache b (unat no mod BCACHE_NUM)) \<noteq> no")
  case True
  let ?b = "b\<lparr>blk_cache := (blk_cache b)(unat no mod BCACHE_NUM :=
      \<lparr>bc_valid = True, bc_no = no,
       bc_buf = copy_from_disk (dsk b) (bc_buf (blk_cache b (unat no mod BCACHE_NUM)))
         BLK_SIZE (no * 4096)\<rparr>)\<rparr>"
  have "bgetcache b no = Some ?b"
    using True assms(2) by (auto simp: bgetcache_def Let_def)
  moreover have "bdev_ok ?b"
    using assms by (simp add: bdev_ok_def Let_def copy_from_disk_block)
  ultimately show ?thesis
    by (rule that) simp_all
next
  case False
  then show ?thesis
    using assms by (intro that) (auto simp: bgetcache_def Let_def)
qed

lemma bdev_ok_line:
  assumes "bdev_ok b" and "bc_valid (blk_cache b (unat no mod BCACHE_NUM))"
    and "bc_no (blk_cache b (unat no mod BCACHE_NUM)) = no" and "k < BLK_SIZE"
  shows "bc_buf (blk_cache b (unat no mod BCACHE_NUM)) k = bcontent b no k"
  using assms(1) [unfolded bdev_ok_def Let_def, rule_format, of "unat no mod BCACHE_NUM"] assms(2-4)
  by (simp add: bcontent_def)

lemma bread_ok:
  assumes "bdev_ok b" and "on_disk no" and "off + n \<le> BLK_SIZE"
  shows "\<exists>b'. bread b n no off = Some (map (bcontent b no) [off..<off + n], b') \<and>
    bdev_ok b' \<and> bcontent b' = bcontent b"
proof -
  obtain b' where b': "bgetcache b no = Some b'" "bdev_ok b'" "dsk b' = dsk b"
    "bc_valid (blk_cache b' (unat no mod BCACHE_NUM))"
    "bc_no (blk_cache b' (unat no mod BCACHE_NUM)) = no"
    using assms(1,2) by (rule bgetcache_ok)
  have "bcontent b' = bcontent b"
    by (simp add: fun_eq_iff bcontent_def b'(3))
  moreover have "map (bc_buf (blk_cache b' (unat no mod BCACHE_NUM))) [off..<off + n] =
      map (bcontent b' no) [off..<off + n]"
    using assms(3) bdev_ok_line [OF b'(2,4,5)] by auto
  ultimately show ?thesis
    using assms(3) b'(1,2) by (simp add: bread_def add.commute)
qed

lemma block_addr_unique:
  fixes a m n :: nat
  assumes "BLK_SIZE * m \<le> a" "a < BLK_SIZE * (m + 1)" and "a = BLK_SIZE * n + k" "k < BLK_SIZE"
  shows "n = m"
proof -
  have "a div BLK_SIZE = n" using assms(3,4) by simp
  moreover have "a div BLK_SIZE = m"
    using assms(1,2) by (intro div_nat_eqI) (simp_all add: algebra_simps)
  ultimately show ?thesis by simp
qed

lemma bflush_ok:
  assumes "bdev_ok b" and "on_disk no"
    and "bc_valid (blk_cache b (unat no mod BCACHE_NUM))"
    and "bc_no (blk_cache b (unat no mod BCACHE_NUM)) = no"
  shows "bdev_ok (bflush b no buf)"
    and "bcontent (bflush b no buf) =
      (bcontent b)(no := (\<lambda>k. if k < BLK_SIZE then buf k else 0))"
proof -
  have dsk': "dsk (bflush b no buf) (BLK_SIZE * unat n + k) =
      (if n = no then buf k else dsk b (BLK_SIZE * unat n + k))"
    if "k < BLK_SIZE" for n k
    using that block_addr_unique [of "unat no" "BLK_SIZE * unat n + k" "unat n" k]
    by (auto simp: bflush_def copy_to_disk_block assms(2) word_unat_eq_iff [symmetric])
  then show "bcontent (bflush b no buf) =
      (bcontent b)(no := (\<lambda>k. if k < BLK_SIZE then buf k else 0))"
    using assms(2) by (auto simp: fun_eq_iff bcontent_def)
  show "bdev_ok (bflush b no buf)"
    unfolding bdev_ok_def Let_def
  proof (intro allI impI)
    fix i assume i: "i < BCACHE_NUM" "bc_valid (blk_cache (bflush b no buf) i)"
    let ?n = "bc_no (blk_cache (bflush b no buf) i)"
    show "on_disk ?n \<and> unat ?n mod BCACHE_NUM = i \<and>
      (\<forall>k < BLK_SIZE. bc_buf (blk_cache (bflush b no buf) i) k =
         dsk (bflush b no buf) (BLK_SIZE * unat ?n + k))"
    proof (cases "i = unat no mod BCACHE_NUM")
      case True
      then have "?n = no" using assms(4) by (simp add: bflush_def)
      with True show ?thesis
        using assms(2) by (simp add: dsk') (simp add: bflush_def)
    next
      case False
      then have line: "blk_cache (bflush b no buf) i = blk_cache b i"
        by (simp add: bflush_def)
      with i assms(1) have n: "on_disk ?n" "unat ?n mod BCACHE_NUM = i"
        "\<forall>k < BLK_SIZE. bc_buf (blk_cache b i) k = dsk b (BLK_SIZE * unat ?n + k)"
        unfolding bdev_ok_def Let_def by auto
      with False have "?n \<noteq> no" by auto
      with n show ?thesis by (simp add: dsk' line)
    qed
  qed
qed

lemma bwrite_ok:
  assumes "bdev_ok b" and "on_disk no" and "off + length src \<le> BLK_SIZE"
  shows "\<exists>b'. bwrite b src no off = Some b' \<and> bdev_ok b' \<and>
    bcontent b' = (bcontent b)(no := overlay (bcontent b no) off src)"
proof -
  obtain b' where b': "bgetcache b no = Some b'" "bdev_ok b'" "dsk b' = dsk b"
    "bc_valid (blk_cache b' (unat no mod BCACHE_NUM))"
    "bc_no (blk_cache b' (unat no mod BCACHE_NUM)) = no"
    using assms(1,2) by (rule bgetcache_ok)
  have same: "bcontent b' = bcontent b"
    by (simp add: fun_eq_iff bcontent_def b'(3))
  have "(\<lambda>k. if k < BLK_SIZE then
        overlay (bc_buf (blk_cache b' (unat no mod BCACHE_NUM))) off src k else 0) =
      overlay (bcontent b no) off src"
    using assms(3) bdev_ok_line [OF b'(2,4,5)]
    by (auto simp: fun_eq_iff overlay_def same) (simp add: bcontent_def)
  then show ?thesis
    using assms(3) b'(1) bflush_ok [OF b'(2) assms(2) b'(4,5)]
    by (simp add: bwrite_def add.commute same)
qed

lemma bzero_ok:
  assumes "bdev_ok b" and "on_disk no"
  shows "\<exists>b'. bzero b no = Some b' \<and> bdev_ok b' \<and> bcontent b' = (bcontent b)(no := (\<lambda>_. 0))"
proof -
  obtain b' where b': "bgetcache b no = Some b'" "bdev_ok b'" "dsk b' = dsk b"
    "bc_valid (blk_cache b' (unat no mod BCACHE_NUM))"
    "bc_no (blk_cache b' (unat no mod BCACHE_NUM)) = no"
    using assms by (rule bgetcache_ok)
  have same: "bcontent b' = bcontent b"
    by (simp add: fun_eq_iff bcontent_def b'(3))
  show ?thesis
    using b'(1) bflush_ok [OF b'(2) assms(2) b'(4,5)]
    by (simp add: bzero_def same) (rule arg_cong2 [where f = "\<lambda>f. fun_upd f no"], auto simp: fun_eq_iff)
qed

subsection \<open>The interface of the block layer\<close>

text \<open>
  What the file system relies on: three operations over a store of fixed-size blocks whose
  contents are \<open>content b no off\<close>. Reads change nothing a client can see, a write changes
  exactly the bytes written.
\<close>

locale block_store =
  fixes rd :: "'b \<Rightarrow> nat \<Rightarrow> u32 \<Rightarrow> nat \<Rightarrow> (bytes \<times> 'b) option"
    and wr :: "'b \<Rightarrow> bytes \<Rightarrow> u32 \<Rightarrow> nat \<Rightarrow> 'b option"
    and zr :: "'b \<Rightarrow> u32 \<Rightarrow> 'b option"
    and content :: "'b \<Rightarrow> u32 \<Rightarrow> nat \<Rightarrow> u8"
    and inv :: "'b \<Rightarrow> bool"
    and valid :: "u32 \<Rightarrow> bool"
  assumes rd_law: "inv b \<Longrightarrow> valid no \<Longrightarrow> off + n \<le> BLK_SIZE \<Longrightarrow>
      \<exists>b'. rd b n no off = Some (map (content b no) [off..<off + n], b') \<and>
        inv b' \<and> content b' = content b"
    and wr_law: "inv b \<Longrightarrow> valid no \<Longrightarrow> off + length src \<le> BLK_SIZE \<Longrightarrow>
      \<exists>b'. wr b src no off = Some b' \<and> inv b' \<and>
        content b' = (content b)(no := overlay (content b no) off src)"
    and zr_law: "inv b \<Longrightarrow> valid no \<Longrightarrow>
      \<exists>b'. zr b no = Some b' \<and> inv b' \<and> content b' = (content b)(no := (\<lambda>_. 0))"
begin

lemma rd_after_wr:
  assumes "inv b" and "valid no" and "off + length src \<le> BLK_SIZE"
  shows "\<exists>b1 b2. wr b src no off = Some b1 \<and> rd b1 (length src) no off = Some (src, b2) \<and>
    inv b2 \<and> content b2 = (content b)(no := overlay (content b no) off src)"
proof -
  obtain b1 where b1: "wr b src no off = Some b1" "inv b1"
    "content b1 = (content b)(no := overlay (content b no) off src)"
    using wr_law [OF assms] by blast
  obtain b2 where "rd b1 (length src) no off = Some (map (content b1 no) [off..<off + length src], b2)"
    "inv b2" "content b2 = content b1"
    using rd_law [OF b1(2) assms(2,3)] by blast
  then show ?thesis using b1 by (simp add: map_overlay_same)
qed

lemma rd_after_wr_other:
  assumes "inv b" and "valid no" and "off + length src \<le> BLK_SIZE"
    and "valid no'" and "off' + n \<le> BLK_SIZE"
    and "no' \<noteq> no \<or> off' + n \<le> off \<or> off + length src \<le> off'"
    and "wr b src no off = Some b1"
  shows "\<exists>b2 b3. rd b n no' off' = Some (map (content b no') [off'..<off' + n], b2) \<and>
    rd b1 n no' off' = Some (map (content b no') [off'..<off' + n], b3)"
proof -
  have b1: "inv b1" "content b1 = (content b)(no := overlay (content b no) off src)"
    using wr_law [OF assms(1-3)] assms(7) by auto
  have same: "map (content b1 no') [off'..<off' + n] = map (content b no') [off'..<off' + n]"
    using assms(6) map_overlay_other [of off' n off src "content b no"] by (auto simp: b1(2))
  show ?thesis
    using rd_law [OF assms(1,4,5)] rd_law [OF b1(1) assms(4,5)] unfolding same by blast
qed

lemma rd_zero:
  assumes "inv b" and "valid no" and "off + n \<le> BLK_SIZE" and "zr b no = Some b1"
  shows "\<exists>b2. rd b1 n no off = Some (replicate n 0, b2)"
proof -
  have b1: "inv b1" "content b1 = (content b)(no := (\<lambda>_. 0))"
    using zr_law [OF assms(1,2)] assms(4) by auto
  have "map (content b1 no) [off..<off + n] = replicate n 0"
    by (simp add: b1(2) map_replicate_const)
  then show ?thesis using rd_law [OF b1(1) assms(2,3)] by metis
qed

end

interpretation bs: block_store bread bwrite bzero bcontent bdev_ok on_disk
  by unfold_locales (fact bread_ok bwrite_ok bzero_ok)+

end
