(* ===== verification/FsInode.thy ===== *)
theory FsInode
  imports Disk
begin

text \<open>
  The lower half of the file system, \<open>kernel/src/fs.c\<close> from \<open>init_fs\<close> to \<open>idevid\<close> (the
  block-and-inode build, \<open>EASY_FS\<close> not defined): the on-disk inodes, the block bitmap, the
  table of active inodes and the block-by-block \<open>iread\<close>, \<open>iwrite\<close> and \<open>itrunc\<close>.

  A pointer into \<open>inodes[]\<close> is the index of the slot. A buffer the C code is handed with a
  length is a list of that many bytes; \<open>iread\<close> returns the bytes it stored there.
\<close>

subsection \<open>Types and layout\<close>

abbreviation (input) NDIRECT :: nat where "NDIRECT \<equiv> 12"
abbreviation (input) NINDIRECT :: nat where "NINDIRECT \<equiv> 1024"
abbreviation (input) INODE_NUM :: nat where "INODE_NUM \<equiv> 128"
abbreviation (input) DINODE_SIZE :: nat where "DINODE_SIZE \<equiv> 64"
abbreviation (input) SUPER_BLOCK :: u32 where "SUPER_BLOCK \<equiv> 32"

abbreviation (input) TYPE_NONE :: u32 where "TYPE_NONE \<equiv> 0"
abbreviation (input) TYPE_FILE :: u32 where "TYPE_FILE \<equiv> 1"
abbreviation (input) TYPE_DIR :: u32 where "TYPE_DIR \<equiv> 2"
abbreviation (input) TYPE_DEV :: u32 where "TYPE_DEV \<equiv> 3"

record sb_t =
  sb_bitmap :: u32
  sb_istart :: u32
  sb_inum :: u32
  sb_root :: u32

record dinode =
  di_type :: u32
  di_device :: u32
  di_size :: u32
  di_addrs :: "u32 list"

record inode =
  i_no :: u32
  i_ref :: int
  i_del :: bool
  i_di :: dinode

record fs =
  dev :: bdev
  sb :: sb_t
  inodes :: "nat \<Rightarrow> inode"

text \<open>The structs as they lie in a block: consecutive little-endian words.\<close>

definition dinode_bytes :: "dinode \<Rightarrow> bytes" where
  "dinode_bytes di =
     le32 (di_type di) @ le32 (di_device di) @ le32 (di_size di) @ concat (map le32 (di_addrs di))"

definition dinode_of :: "bytes \<Rightarrow> dinode" where
  "dinode_of bs =
     \<lparr>di_type = of_le32 bs, di_device = of_le32 (drop 4 bs), di_size = of_le32 (drop 8 bs),
      di_addrs = map (\<lambda>i. of_le32 (drop (12 + 4 * i) bs)) [0..<NDIRECT + 1]\<rparr>"

definition sb_of :: "bytes \<Rightarrow> sb_t" where
  "sb_of bs = \<lparr>sb_bitmap = of_le32 bs, sb_istart = of_le32 (drop 4 bs),
     sb_inum = of_le32 (drop 8 bs), sb_root = of_le32 (drop 12 bs)\<rparr>"

text \<open>The block layer's operations on the file system's state.\<close>

definition fs_bread :: "fs \<Rightarrow> nat \<Rightarrow> u32 \<Rightarrow> nat \<Rightarrow> (bytes \<times> fs) option" where
  "fs_bread f n no off = do { (bs, d) \<leftarrow> bread (dev f) n no off; Some (bs, f\<lparr>dev := d\<rparr>) }"

definition fs_bwrite :: "fs \<Rightarrow> bytes \<Rightarrow> u32 \<Rightarrow> nat \<Rightarrow> fs option" where
  "fs_bwrite f src no off = do { d \<leftarrow> bwrite (dev f) src no off; Some (f\<lparr>dev := d\<rparr>) }"

definition dev_zero :: "fs \<Rightarrow> u32 \<Rightarrow> fs option" where
  "dev_zero f no = do { d \<leftarrow> bzero (dev f) no; Some (f\<lparr>dev := d\<rparr>) }"

definition init_fs :: "fs \<Rightarrow> fs option" where
  "init_fs f = do { (bs, f) \<leftarrow> fs_bread f 16 SUPER_BLOCK 0; Some (f\<lparr>sb := sb_of bs\<rparr>) }"

subsection \<open>On-disk inodes\<close>

definition I2BLKNO :: "fs \<Rightarrow> u32 \<Rightarrow> u32" where
  "I2BLKNO f no = sb_istart (sb f) + no div 64"

definition I2BLKOFF :: "u32 \<Rightarrow> nat" where
  "I2BLKOFF no = unat (no mod 64) * DINODE_SIZE"

definition diread :: "fs \<Rightarrow> u32 \<Rightarrow> (dinode \<times> fs) option" where
  "diread f no = do {
     (bs, f) \<leftarrow> fs_bread f DINODE_SIZE (I2BLKNO f no) (I2BLKOFF no);
     Some (dinode_of bs, f) }"

definition diwrite :: "fs \<Rightarrow> dinode \<Rightarrow> u32 \<Rightarrow> fs option" where
  "diwrite f di no = fs_bwrite f (dinode_bytes di) (I2BLKNO f no) (I2BLKOFF no)"

definition zero_dinode :: "u32 \<Rightarrow> dinode" where
  "zero_dinode ty = \<lparr>di_type = ty, di_device = 0, di_size = 0, di_addrs = replicate (NDIRECT + 1) 0\<rparr>"

text \<open>The scan of \<open>dialloc\<close>; the end of the list is the \<open>assert(0)\<close> after the loop.\<close>

fun dialloc_scan :: "fs \<Rightarrow> u32 \<Rightarrow> nat list \<Rightarrow> (u32 \<times> fs) option" where
  "dialloc_scan f ty [] = None"
| "dialloc_scan f ty (i # is) = do {
     (di, f) \<leftarrow> diread f (of_nat i);
     if di_type di = TYPE_NONE then do {
       f \<leftarrow> diwrite f (zero_dinode ty) (of_nat i);
       Some (of_nat i, f)
     } else dialloc_scan f ty is }"

definition dialloc :: "fs \<Rightarrow> u32 \<Rightarrow> (u32 \<times> fs) option" where
  "dialloc f ty = dialloc_scan f ty [1..<unat (sb_inum (sb f))]"

definition difree :: "fs \<Rightarrow> u32 \<Rightarrow> fs option" where
  "difree f no = diwrite f (zero_dinode 0) no"

subsection \<open>The block bitmap\<close>

text \<open>\<open>balloc\<close>: the outer loop over the 1024 words, the inner one over the bits of a word.\<close>

fun balloc_scan :: "fs \<Rightarrow> nat list \<Rightarrow> (u32 \<times> fs) option" where
  "balloc_scan f [] = None"
| "balloc_scan f (i # is) = do {
     (bs, f) \<leftarrow> fs_bread f 4 (sb_bitmap (sb f)) (i * 4);
     let byte = of_le32 bs;
     if byte \<noteq> 0xffffffff then
       (case find (\<lambda>j. byte AND push_bit j 1 = 0) [0..<32] of
          Some j \<Rightarrow> do {
            f \<leftarrow> dev_zero f (of_nat (32 * i + j));
            f \<leftarrow> fs_bwrite f (le32 (byte OR push_bit j 1)) (sb_bitmap (sb f)) (i * 4);
            Some (of_nat (32 * i + j), f) }
        | None \<Rightarrow> balloc_scan f is)
     else balloc_scan f is }"

definition balloc :: "fs \<Rightarrow> (u32 \<times> fs) option" where
  "balloc f = balloc_scan f [0..<BLK_NUM div 32]"

definition bfree :: "fs \<Rightarrow> u32 \<Rightarrow> fs option" where
  "bfree f blkno =
     (if unat blkno \<ge> 64 then do {
        (bs, f) \<leftarrow> fs_bread f 1 (sb_bitmap (sb f)) (unat blkno div 8);
        let byte = hd bs AND NOT (push_bit (unat blkno mod 8) 1);
        fs_bwrite f [byte] (sb_bitmap (sb f)) (unat blkno div 8)
      } else None)"

subsection \<open>Active inodes\<close>

definition upd_inode :: "fs \<Rightarrow> nat \<Rightarrow> (inode \<Rightarrow> inode) \<Rightarrow> fs" where
  "upd_inode f p g = f\<lparr>inodes := (inodes f)(p := g (inodes f p))\<rparr>"

definition set_addr :: "fs \<Rightarrow> nat \<Rightarrow> nat \<Rightarrow> u32 \<Rightarrow> fs" where
  "set_addr f p i a =
     upd_inode f p (\<lambda>ip. ip\<lparr>i_di := (i_di ip)\<lparr>di_addrs := (di_addrs (i_di ip))[i := a]\<rparr>\<rparr>)"

definition set_size :: "fs \<Rightarrow> nat \<Rightarrow> u32 \<Rightarrow> fs" where
  "set_size f p s = upd_inode f p (\<lambda>ip. ip\<lparr>i_di := (i_di ip)\<lparr>di_size := s\<rparr>\<rparr>)"

definition iget :: "fs \<Rightarrow> u32 \<Rightarrow> (nat \<times> fs) option" where
  "iget f no =
     (case find (\<lambda>i. i_ref (inodes f i) > 0 \<and> i_no (inodes f i) = no) [0..<INODE_NUM] of
        Some i \<Rightarrow> Some (i, upd_inode f i (\<lambda>ip. ip\<lparr>i_ref := i_ref ip + 1\<rparr>))
      | None \<Rightarrow>
          (case find (\<lambda>i. i_ref (inodes f i) = 0) [0..<INODE_NUM] of
             Some i \<Rightarrow> do {
               let f = upd_inode f i (\<lambda>ip. ip\<lparr>i_ref := 1, i_no := no, i_del := False\<rparr>);
               (di, f) \<leftarrow> diread f no;
               Some (i, upd_inode f i (\<lambda>ip. ip\<lparr>i_di := di\<rparr>)) }
           | None \<Rightarrow> None))"

definition iupdate :: "fs \<Rightarrow> nat \<Rightarrow> fs option" where
  "iupdate f p = diwrite f (i_di (inodes f p)) (i_no (inodes f p))"

text \<open>
  \<open>iwalk\<close>: the number of the block that holds the file's block \<open>no\<close>, allocated when there is
  none. The last branch is the \<open>assert(0)\<close> on a file too big.
\<close>

definition alloc_addr :: "fs \<Rightarrow> nat \<Rightarrow> nat \<Rightarrow> (u32 \<times> fs) option" where
  "alloc_addr f p i = do {
     (a, f) \<leftarrow> balloc f;
     f \<leftarrow> iupdate (set_addr f p i a) p;
     Some (a, f) }"

definition iwalk :: "fs \<Rightarrow> nat \<Rightarrow> nat \<Rightarrow> (u32 \<times> fs) option" where
  "iwalk f p no =
     (let addrs = di_addrs (i_di (inodes f p)) in
      if no < NDIRECT then
        (if addrs ! no = 0 then alloc_addr f p no else Some (addrs ! no, f))
      else if no - NDIRECT < NINDIRECT then do {
        (indirect_blk, f) \<leftarrow>
          (if addrs ! NDIRECT = 0 then alloc_addr f p NDIRECT else Some (addrs ! NDIRECT, f));
        (bs, f) \<leftarrow> fs_bread f 4 indirect_blk ((no - NDIRECT) * 4);
        let blk = of_le32 bs;
        if blk = 0 then do {
          (blk, f) \<leftarrow> balloc f;
          f \<leftarrow> fs_bwrite f (le32 blk) indirect_blk ((no - NDIRECT) * 4);
          Some (blk, f)
        } else Some (blk, f)
      } else None)"

partial_function (option) iread_loop ::
    "fs \<Rightarrow> nat \<Rightarrow> nat \<Rightarrow> nat \<Rightarrow> nat \<Rightarrow> bytes \<Rightarrow> (bytes \<times> fs) option" where
  "iread_loop f p no blkoff len buf =
     (if len > 0 then do {
        (blkno, f) \<leftarrow> iwalk f p no;
        let read_size = min (BLK_SIZE - blkoff) len;
        (bs, f) \<leftarrow> fs_bread f read_size blkno blkoff;
        iread_loop f p (no + 1) 0 (len - read_size) (buf @ bs)
      } else Some (buf, f))"

definition iread :: "fs \<Rightarrow> nat \<Rightarrow> u32 \<Rightarrow> u32 \<Rightarrow> (int \<times> bytes \<times> fs) option" where
  "iread f p off len =
     (let fsize = di_size (i_di (inodes f p)) in
      if off > fsize then Some (-1, [], f)
      else do {
        let len = (if off + len > fsize then fsize - off else len);
        (bs, f) \<leftarrow> iread_loop f p (unat off div BLK_SIZE) (unat off mod BLK_SIZE) (unat len) [];
        Some (int (length bs), bs, f) })"

partial_function (option) iwrite_loop ::
    "fs \<Rightarrow> nat \<Rightarrow> nat \<Rightarrow> nat \<Rightarrow> bytes \<Rightarrow> int \<Rightarrow> (int \<times> fs) option" where
  "iwrite_loop f p no blkoff buf total_write =
     (if length buf > 0 then do {
        (blkno, f) \<leftarrow> iwalk f p no;
        let write_size = min (BLK_SIZE - blkoff) (length buf);
        f \<leftarrow> fs_bwrite f (take write_size buf) blkno blkoff;
        iwrite_loop f p (no + 1) 0 (drop write_size buf) (total_write + int write_size)
      } else Some (total_write, f))"

definition iwrite :: "fs \<Rightarrow> nat \<Rightarrow> u32 \<Rightarrow> bytes \<Rightarrow> (int \<times> fs) option" where
  "iwrite f p off buf =
     (let fsize = di_size (i_di (inodes f p)); len = of_nat (length buf) in
      if off > fsize then Some (-1, f)
      else do {
        f \<leftarrow> (if off + len > fsize then iupdate (set_size f p (off + len)) p else Some f);
        iwrite_loop f p (unat off div BLK_SIZE) (unat off mod BLK_SIZE) buf 0 })"

text \<open>\<open>itrunc\<close>: the loop over the direct addresses, then the one over the indirect block.\<close>

fun itrunc_direct :: "fs \<Rightarrow> nat \<Rightarrow> nat list \<Rightarrow> fs option" where
  "itrunc_direct f p [] = Some f"
| "itrunc_direct f p (i # is) = do {
     let a = di_addrs (i_di (inodes f p)) ! i;
     f \<leftarrow> (if a \<noteq> 0 then do { f \<leftarrow> bfree f a; Some (set_addr f p i 0) } else Some f);
     itrunc_direct f p is }"

fun itrunc_indirect :: "fs \<Rightarrow> u32 \<Rightarrow> nat list \<Rightarrow> fs option" where
  "itrunc_indirect f ind [] = Some f"
| "itrunc_indirect f ind (i # is) = do {
     (bs, f) \<leftarrow> fs_bread f 4 ind (i * 4);
     f \<leftarrow> (if of_le32 bs \<noteq> 0 then bfree f (of_le32 bs) else Some f);
     itrunc_indirect f ind is }"

definition itrunc :: "fs \<Rightarrow> nat \<Rightarrow> fs option" where
  "itrunc f p = do {
     f \<leftarrow> itrunc_direct f p [0..<NDIRECT];
     let ind = di_addrs (i_di (inodes f p)) ! NDIRECT;
     f \<leftarrow> (if ind \<noteq> 0 then do {
              f \<leftarrow> itrunc_indirect f ind [0..<NINDIRECT];
              f \<leftarrow> bfree f ind;
              Some (set_addr f p NDIRECT 0) }
            else Some f);
     iupdate (set_size f p 0) p }"

definition idup :: "fs \<Rightarrow> nat \<Rightarrow> fs" where
  "idup f p = upd_inode f p (\<lambda>ip. ip\<lparr>i_ref := i_ref ip + 1\<rparr>)"

definition iclose :: "fs \<Rightarrow> nat \<Rightarrow> fs option" where
  "iclose f p = do {
     f \<leftarrow> (if i_ref (inodes f p) = 1 \<and> i_del (inodes f p) then do {
              f \<leftarrow> itrunc f p;
              difree f (i_no (inodes f p)) }
            else Some f);
     Some (upd_inode f p (\<lambda>ip. ip\<lparr>i_ref := i_ref ip - 1\<rparr>)) }"

definition isize :: "fs \<Rightarrow> nat \<Rightarrow> u32" where
  "isize f p = di_size (i_di (inodes f p))"

definition itype :: "fs \<Rightarrow> nat \<Rightarrow> u32" where
  "itype f p = di_type (i_di (inodes f p))"

definition ino :: "fs \<Rightarrow> nat \<Rightarrow> u32" where
  "ino f p = i_no (inodes f p)"

definition idevid :: "fs \<Rightarrow> nat \<Rightarrow> u32" where
  "idevid f p = (if itype f p = TYPE_DEV then di_device (i_di (inodes f p)) else - 1)"

end
