(* ===== verification/FsInodeProofs.thy ===== *)
theory FsInodeProofs
  imports FsInode
begin

text \<open>
  What the lower half of the file system guarantees. The states are read through \<open>fc\<close> (the
  bytes of every block) and \<open>used\<close> (the bitmap); the block numbers a file holds are read
  through \<open>ptr\<close>, which runs over the thirteen addresses of its inode and, behind them, the
  entries of its indirect block.
\<close>

subsection \<open>Round trips of the on-disk layout\<close>

lemma length_concat_le32 [simp]: "length (concat (map le32 ws)) = 4 * length ws"
  by (induction ws) simp_all

lemma drop_concat_le32:
  "i \<le> length ws \<Longrightarrow> drop (4 * i) (concat (map le32 ws)) = concat (map le32 (drop i ws))"
proof (induction ws arbitrary: i)
  case Nil
  then show ?case by simp
next
  case (Cons w ws)
  then show ?case by (cases i) simp_all
qed

lemma of_le32_nth:
  assumes "i < length ws" and "n = 4 * i"
  shows "of_le32 (drop n (concat (map le32 ws))) = ws ! i"
proof -
  have "drop i ws = ws ! i # drop (Suc i) ws"
    using assms by (simp add: Cons_nth_drop_Suc)
  then show ?thesis
    using assms by (simp add: drop_concat_le32)
qed

lemma dinode_bytes_words:
  "dinode_bytes di = concat (map le32 (di_type di # di_device di # di_size di # di_addrs di))"
  by (simp add: dinode_bytes_def)

lemma length_dinode_bytes: "length (dinode_bytes di) = 12 + 4 * length (di_addrs di)"
  by (simp add: dinode_bytes_def)

lemma dinode_roundtrip:
  assumes "length (di_addrs di) = NDIRECT + 1"
  shows "dinode_of (dinode_bytes di) = di"
proof -
  let ?ws = "di_type di # di_device di # di_size di # di_addrs di"
  have word: "of_le32 (drop (4 * i) (dinode_bytes di)) = ?ws ! i" if "i < 16" for i
    unfolding dinode_bytes_words using that assms by (intro of_le32_nth) simp_all
  have "map (\<lambda>i. of_le32 (drop (12 + 4 * i) (dinode_bytes di))) [0..<NDIRECT + 1] = di_addrs di"
  proof (rule nth_equalityI)
    fix i assume "i < length (map (\<lambda>i. of_le32 (drop (12 + 4 * i) (dinode_bytes di))) [0..<NDIRECT + 1])"
    then have i: "i < 13" by simp
    with word [of "i + 3"] have "of_le32 (drop (12 + 4 * i) (dinode_bytes di)) = di_addrs di ! i"
      by (simp add: add.commute)
    with i show "map (\<lambda>i. of_le32 (drop (12 + 4 * i) (dinode_bytes di))) [0..<NDIRECT + 1] ! i =
        di_addrs di ! i"
      by (simp del: upt_Suc)
  qed (simp add: assms)
  then show ?thesis
    using word [of 0] word [of 1] word [of 2] by (simp add: dinode_of_def del: upt_Suc)
qed

lemma sb_roundtrip:
  "sb_of (le32 a @ le32 b @ le32 c @ le32 d) =
     \<lparr>sb_bitmap = a, sb_istart = b, sb_inum = c, sb_root = d\<rparr>"
  by (simp add: sb_of_def)

subsection \<open>Bits of words and of their bytes\<close>

lemma bit_of_le32:
  assumes "k < 4" and "r < 8"
  shows "bit (of_le32 [a, b, c, d]) (8 * k + r) \<longleftrightarrow> bit ([a, b, c, d] ! k) r"
proof -
  consider "k = 0" | "k = 1" | "k = 2" | "k = 3" using assms(1) by linarith
  then show ?thesis
    using assms(2) by cases (auto simp: bit_simps dest: bit_imp_le_length)
qed

lemma word_at_bytes: "word_at g off = of_le32 [g off, g (off + 1), g (off + 2), g (off + 3)]"
  by (simp add: word_at_def upt_conv_Cons numeral_3_eq_3)

lemma bit_word_at:
  assumes "j < 32"
  shows "bit (word_at g off) j \<longleftrightarrow> bit (g (off + j div 8)) (j mod 8)"
proof -
  have "j div 8 < 4" using assms by simp
  then consider "j div 8 = 0" | "j div 8 = 1" | "j div 8 = 2" | "j div 8 = 3" by linarith
  then have "[g off, g (off + 1), g (off + 2), g (off + 3)] ! (j div 8) = g (off + j div 8)"
    by cases simp_all
  then show ?thesis
    using assms bit_of_le32 [of "j div 8" "j mod 8"] by (simp add: word_at_bytes)
qed

lemma bit_le32:
  assumes "k < 4" and "r < 8"
  shows "bit (le32 w ! k) r \<longleftrightarrow> bit w (8 * k + r)"
  using word_at_overlay_same [of "\<lambda>_. 0" 0 w] bit_word_at [of "8 * k + r" "overlay (\<lambda>_. 0) 0 (le32 w)" 0]
    assms
  by (simp add: overlay_def)

subsection \<open>The block layer under the file system\<close>

definition fc :: "fs \<Rightarrow> u32 \<Rightarrow> nat \<Rightarrow> u8" where
  "fc f = bcontent (dev f)"

definition used :: "fs \<Rightarrow> nat \<Rightarrow> bool" where
  "used f k = bit (fc f (sb_bitmap (sb f)) (k div 8)) (k mod 8)"

text \<open>The super block \<open>utils/mkfs.c\<close> writes, and what holds of every mounted disk.\<close>

definition mkfs_sb :: sb_t where
  "mkfs_sb = \<lparr>sb_bitmap = 33, sb_istart = 34, sb_inum = 1920, sb_root = 1\<rparr>"

definition fs_ok :: "fs \<Rightarrow> bool" where
  "fs_ok f \<longleftrightarrow> bdev_ok (dev f) \<and> sb f = mkfs_sb \<and> (\<forall>k < 64. used f k)"

text \<open>\<open>same f f'\<close>: from \<open>f\<close> to \<open>f'\<close> only the cache may have changed.\<close>

definition same :: "fs \<Rightarrow> fs \<Rightarrow> bool" where
  "same f f' \<longleftrightarrow> inodes f' = inodes f \<and> sb f' = sb f \<and> bdev_ok (dev f') \<and> fc f' = fc f"

lemma same_simps:
  assumes "same f f'"
  shows "inodes f' = inodes f" "sb f' = sb f" "fc f' = fc f" "bdev_ok (dev f')"
  using assms by (simp_all add: same_def)

lemma same_used: "same f f' \<Longrightarrow> used f' = used f"
  by (simp add: same_def used_def fun_eq_iff)

lemma same_fs_ok: "same f f' \<Longrightarrow> fs_ok f \<Longrightarrow> fs_ok f'"
  by (simp add: fs_ok_def same_used) (simp add: same_def)

lemma same_trans [trans]: "same f g \<Longrightarrow> same g h \<Longrightarrow> same f h"
  by (simp add: same_def)

lemma same_refl: "bdev_ok (dev f) \<Longrightarrow> same f f"
  by (simp add: same_def)

lemma fs_bread_ok:
  assumes "bdev_ok (dev f)" and "on_disk no" and "off + n \<le> BLK_SIZE"
  obtains f' where "fs_bread f n no off = Some (map (fc f no) [off..<off + n], f')" and "same f f'"
proof -
  obtain d where "bread (dev f) n no off = Some (map (fc f no) [off..<off + n], d)"
    "bdev_ok d" "bcontent d = fc f"
    using bs.rd_law [OF assms] by (auto simp: fc_def)
  then show ?thesis
    by (intro that [of "f\<lparr>dev := d\<rparr>"]) (simp_all add: fs_bread_def same_def fc_def)
qed

lemma fs_bread_word:
  assumes "bdev_ok (dev f)" and "on_disk no" and "off + 4 \<le> BLK_SIZE"
  obtains bs f' where "fs_bread f 4 no off = Some (bs, f')" and "same f f'"
    and "of_le32 bs = word_at (fc f no) off"
  using fs_bread_ok [OF assms] by (metis word_at_def)

text \<open>\<open>wrote f f' no g\<close>: the block \<open>no\<close> now holds \<open>g\<close>, nothing else changed.\<close>

definition wrote :: "fs \<Rightarrow> fs \<Rightarrow> u32 \<Rightarrow> (nat \<Rightarrow> u8) \<Rightarrow> bool" where
  "wrote f f' no g \<longleftrightarrow>
     inodes f' = inodes f \<and> sb f' = sb f \<and> bdev_ok (dev f') \<and> fc f' = (fc f)(no := g)"

lemma wrote_simps:
  assumes "wrote f f' no g"
  shows "inodes f' = inodes f" "sb f' = sb f" "fc f' = (fc f)(no := g)" "bdev_ok (dev f')"
  using assms by (simp_all add: wrote_def)

lemma fs_bwrite_ok:
  assumes "bdev_ok (dev f)" and "on_disk no" and "off + length src \<le> BLK_SIZE"
  obtains f' where "fs_bwrite f src no off = Some f'" and "wrote f f' no (overlay (fc f no) off src)"
proof -
  obtain d where "bwrite (dev f) src no off = Some d" "bdev_ok d"
    "bcontent d = (fc f)(no := overlay (fc f no) off src)"
    using bs.wr_law [OF assms] by (auto simp: fc_def)
  then show ?thesis
    by (intro that [of "f\<lparr>dev := d\<rparr>"]) (simp_all add: fs_bwrite_def wrote_def fc_def)
qed

lemma dev_zero_ok:
  assumes "bdev_ok (dev f)" and "on_disk no"
  obtains f' where "dev_zero f no = Some f'" and "wrote f f' no (\<lambda>_. 0)"
proof -
  obtain d where "bzero (dev f) no = Some d" "bdev_ok d" "bcontent d = (fc f)(no := (\<lambda>_. 0))"
    using bs.zr_law [OF assms] by (auto simp: fc_def)
  then show ?thesis
    by (intro that [of "f\<lparr>dev := d\<rparr>"]) (simp_all add: dev_zero_def wrote_def fc_def)
qed

lemma mkfs_sb_simps [simp]:
  "sb_bitmap mkfs_sb = 33" "sb_istart mkfs_sb = 34" "sb_inum mkfs_sb = 1920" "sb_root mkfs_sb = 1"
  by (simp_all add: mkfs_sb_def)

lemma fs_ok_simps:
  assumes "fs_ok f"
  shows "bdev_ok (dev f)" "sb f = mkfs_sb"
  using assms by (simp_all add: fs_ok_def)

lemma on_disk_simps: "on_disk 33" "k < BLK_NUM \<Longrightarrow> on_disk (of_nat k)"
  by (simp_all add: on_disk_def unat_of_nat take_bit_nat_eq_self)

subsection \<open>Allocating a block\<close>

lemma and_push_bit_1: "j < 32 \<Longrightarrow> (w :: u32) AND push_bit j 1 = 0 \<longleftrightarrow> \<not> bit w j"
  by (simp add: push_bit_of_1 and_exp_eq_0_iff_not_bit)

lemma not_full_word: "(w :: u32) \<noteq> 0xffffffff \<longleftrightarrow> (\<exists>j < 32. \<not> bit w j)"
proof -
  have full: "(0xffffffff :: u32) = - 1" by simp
  have "w = - 1" if "\<forall>j < 32. bit w j"
    by (rule bit_word_eqI) (use that in \<open>simp add: bit_minus_1_iff\<close>)
  moreover have "bit w j" if "w = - 1" "j < 32" for j
    using that by (simp add: bit_minus_1_iff)
  ultimately show ?thesis unfolding full by blast
qed

lemma used_word:
  "j < 32 \<Longrightarrow> used f (32 * i + j) \<longleftrightarrow> bit (word_at (fc f (sb_bitmap (sb f))) (i * 4)) j"
proof -
  assume j: "j < 32"
  have "32 * i + j = j + i * 4 * 8" by simp
  then have byte: "(32 * i + j) div 8 = i * 4 + j div 8" "(32 * i + j) mod 8 = j mod 8"
    by (simp_all only: div_mult_self1 mod_mult_self1)
  show ?thesis unfolding used_def byte using j by (simp only: bit_word_at)
qed

text \<open>The effect of allocating block \<open>a\<close>: it was free, it is zeroed, its bit and no other is set.\<close>

definition allocs :: "fs \<Rightarrow> fs \<Rightarrow> nat \<Rightarrow> bool" where
  "allocs f f' a \<longleftrightarrow>
     a < BLK_NUM \<and> \<not> used f a \<and> fs_ok f' \<and> inodes f' = inodes f \<and> sb f' = sb f \<and>
     (\<forall>b. b \<noteq> 33 \<longrightarrow> fc f' b = (if b = of_nat a then (\<lambda>_. 0) else fc f b)) \<and>
     (\<forall>k < BLK_NUM. used f' k \<longleftrightarrow> used f k \<or> k = a)"

lemma balloc_word_ok:
  assumes f: "fs_ok f" and i: "i < 1024" and j: "j < 32" "\<not> used f (32 * i + j)"
    and w: "w = word_at (fc f 33) (i * 4)"
  obtains f1 f2 where "dev_zero f (of_nat (32 * i + j)) = Some f1"
    and "fs_bwrite f1 (le32 (w OR push_bit j 1)) (sb_bitmap (sb f1)) (i * 4) = Some f2"
    and "allocs f f2 (32 * i + j)"
proof -
  define a where "a = 32 * i + j"
  let ?a = a
  have a: "?a < BLK_NUM" using i j(1) by (simp add: a_def)
  have a64: "64 \<le> ?a" using f j(2) unfolding fs_ok_def a_def by (meson not_le)
  have na: "of_nat ?a \<noteq> (33 :: u32)"
    using a a64 by (simp add: word_unat_eq_iff unat_of_nat32)
  obtain f1 where f1: "dev_zero f (of_nat ?a) = Some f1" "wrote f f1 (of_nat ?a) (\<lambda>_. 0)"
    using fs_ok_simps(1) [OF f] on_disk_simps(2) [OF a] by (rule dev_zero_ok)
  note f1s = wrote_simps [OF f1(2)]
  obtain f2 where f2: "fs_bwrite f1 (le32 (w OR push_bit j 1)) 33 (i * 4) = Some f2"
    "wrote f1 f2 33 (overlay (fc f1 33) (i * 4) (le32 (w OR push_bit j 1)))"
    using f1s(4) on_disk_simps(1) i by (auto elim: fs_bwrite_ok [of f1 33 "i * 4" "le32 (w OR push_bit j 1)"])
  note f2s = wrote_simps [OF f2(2)]
  have bm: "fc f1 33 = fc f 33" using na by (simp add: f1s)
  have used': "used f2 k \<longleftrightarrow> used f k \<or> k = ?a" for k
  proof -
    let ?i = "k div 32" and ?j = "k mod 32"
    have k: "k = 32 * ?i + ?j" by simp
    have ka: "k = a \<longleftrightarrow> ?i = i \<and> ?j = j"
      using j(1) k by (metis a_def add.commute add_diff_cancel_left' div_mult_self4 mod_less
          mod_mult_self2 div_less add_0 mult.commute zero_neq_numeral)
    have apart: "?i * 4 + 4 \<le> i * 4 \<or> i * 4 + 4 \<le> ?i * 4" if "?i \<noteq> i"
      using that by linarith
    have "word_at (fc f2 33) (?i * 4) =
        (if ?i = i then w OR push_bit j 1 else word_at (fc f 33) (?i * 4))"
    proof (cases "?i = i")
      case True
      then show ?thesis by (simp add: f2s bm)
    next
      case False
      then show ?thesis
        using word_at_overlay_other [of "?i * 4" "i * 4" "le32 (w OR push_bit j 1)" "fc f 33"] apart
        by (simp add: f2s bm)
    qed
    then have "used f2 k \<longleftrightarrow> (if ?i = i then bit w ?j \<or> ?j = j else used f k)"
      using used_word [of ?j f2 ?i] used_word [of ?j f ?i] k j(1) fs_ok_simps [OF f]
      by (auto simp: f2s f1s bit_simps a_def)
    then show ?thesis
      using used_word [of ?j f ?i] k w ka fs_ok_simps [OF f] by auto
  qed
  have "fs_ok f2"
    using f by (simp add: fs_ok_def used' f2s) (simp add: f1s)
  then have "allocs f f2 ?a"
    using a j(2) na by (auto simp: allocs_def used' f2s f1s a_def [symmetric])
  moreover have "sb_bitmap (sb f1) = 33" by (simp add: f1s fs_ok_simps [OF f])
  ultimately show ?thesis using that f1(1) f2(1) by (simp add: a_def)
qed

lemma allocs_same: "same f g \<Longrightarrow> allocs g h a \<Longrightarrow> allocs f h a"
  by (simp add: allocs_def same_used) (simp add: same_def)

lemma balloc_scan_ok:
  assumes "fs_ok f" and "32 * i \<le> k" and "k < BLK_NUM" and "\<not> used f k"
  shows "\<exists>a f'. balloc_scan f [i..<1024] = Some (of_nat a, f') \<and> allocs f f' a \<and>
    32 * i \<le> a \<and> (\<forall>l. 32 * i \<le> l \<and> l < a \<longrightarrow> used f l)"
  using assms
proof (induction "1024 - i" arbitrary: i f)
  case 0
  then show ?case by simp
next
  case (Suc d)
  then have i: "i < 1024" by simp
  note f = \<open>fs_ok f\<close>
  obtain bs f1 where f1: "fs_bread f 4 33 (i * 4) = Some (bs, f1)" "same f f1"
    and w: "of_le32 bs = word_at (fc f 33) (i * 4)"
    using i fs_ok_simps(1) [OF f] on_disk_simps(1) by (auto elim: fs_bread_word [of f 33 "i * 4"])
  let ?w = "word_at (fc f 33) (i * 4)"
  have split: "[i..<1024] = i # [Suc i..<1024]" using i by (rule upt_conv_Cons)
  have f1ok: "fs_ok f1" using f1(2) f by (rule same_fs_ok)
  have word: "bit ?w j \<longleftrightarrow> used f (32 * i + j)" if "j < 32" for j
    using used_word [OF that, of f i] fs_ok_simps [OF f] by simp
  show ?case
  proof (cases "?w = 0xffffffff")
    case True
    then have full: "used f l" if "32 * i \<le> l" "l < 32 * Suc i" for l
      using not_full_word [of ?w] word [of "l - 32 * i"] that by auto
    then have "32 * Suc i \<le> k" using Suc.prems(2,4) by (metis not_less)
    then obtain a f' where a: "balloc_scan f1 [Suc i..<1024] = Some (of_nat a, f')"
      "allocs f1 f' a" "32 * Suc i \<le> a" "\<forall>l. 32 * Suc i \<le> l \<and> l < a \<longrightarrow> used f1 l"
      using Suc.hyps(1) [OF _ f1ok, of "Suc i"] Suc.hyps(2) Suc.prems(3,4) same_used [OF f1(2)]
      by (metis Suc_diff_Suc diff_Suc_Suc i nat.inject)
    have "\<forall>l. 32 * i \<le> l \<and> l < a \<longrightarrow> used f l"
      using a(4) full same_used [OF f1(2)] by (metis not_less)
    then show ?thesis
      using a(1,3) allocs_same [OF f1(2) a(2)] True
      by (auto simp: split f1(1) fs_ok_simps [OF f] w)
  next
    case False
    define j where "j = (LEAST j. j < 32 \<and> \<not> bit ?w j)"
    obtain j0 where j0: "j0 < 32" "\<not> bit ?w j0"
      using False not_full_word by blast
    then have j: "j < 32" "\<not> bit ?w j"
      unfolding j_def by (metis (mono_tags, lifting) LeastI)+
    have min: "bit ?w l" if "l < j" for l
      using not_less_Least [of l "\<lambda>j. j < 32 \<and> \<not> bit ?w j"] that j(1) unfolding j_def by auto
    have find: "find (\<lambda>j. ?w AND push_bit j 1 = 0) [0..<32] = Some j"
      unfolding find_Some_iff using j min by (auto simp: and_exp_eq_0_iff_not_bit intro!: exI [of _ j])
    have free: "\<not> used f1 (32 * i + j)" using j word same_used [OF f1(2)] by simp
    obtain f2 f3 where f3: "dev_zero f1 (of_nat (32 * i + j)) = Some f2"
      "fs_bwrite f2 (le32 (?w OR push_bit j 1)) (sb_bitmap (sb f2)) (i * 4) = Some f3"
      "allocs f1 f3 (32 * i + j)"
      using balloc_word_ok [OF f1ok i j(1) free, of ?w] same_simps(3) [OF f1(2)] by auto
    have "\<forall>l. 32 * i \<le> l \<and> l < 32 * i + j \<longrightarrow> used f l"
      using min word j(1) by (metis add_diff_inverse_nat less_trans nat_add_left_cancel_less not_less)
    then show ?thesis
      using allocs_same [OF f1(2) f3(3)] False f3(1,2)
      by (intro exI [of _ "32 * i + j"] exI [of _ f3])
        (simp add: split f1(1) fs_ok_simps [OF f] w find Let_def del: of_nat_add of_nat_mult push_bit_of_1)
  qed
qed

text \<open>\<open>balloc\<close> returns the lowest free block; there is no result only when no block is free.\<close>

lemma balloc_ok:
  assumes "fs_ok f" and "k < BLK_NUM" and "\<not> used f k"
  obtains a f' where "balloc f = Some (of_nat a, f')" and "allocs f f' a"
    and "\<forall>l < a. used f l"
  using balloc_scan_ok [of f 0 k] assms by (auto simp: balloc_def)

end
