(* ===== verification/FsFile.thy ===== *)
theory FsFile
  imports FsInodeProofs
begin

text \<open>
  A file as an array of bytes. \<open>fbyte f p pos\<close> is the byte at position \<open>pos\<close> of the file open
  in slot \<open>p\<close>; \<open>iwalk\<close> extends the array by zeroed blocks and changes no byte of it, \<open>iread\<close>
  reads a segment and \<open>iwrite\<close> replaces one. \<open>kept\<close> is the frame: a block that was in use
  and belongs to nobody but others keeps its contents.
\<close>

subsection \<open>The blocks of a file\<close>

abbreviation (input) NPTR :: nat where "NPTR \<equiv> 1037"
abbreviation (input) FILE_BLKS :: nat where "FILE_BLKS \<equiv> 1036"
abbreviation (input) FILE_MAX :: nat where "FILE_MAX \<equiv> 4243456"

abbreviation di_of :: "fs \<Rightarrow> nat \<Rightarrow> dinode" where
  "di_of f p \<equiv> i_di (inodes f p)"

definition ptr :: "fs \<Rightarrow> nat \<Rightarrow> nat \<Rightarrow> u32" where
  "ptr f p q =
     (let addrs = di_addrs (di_of f p) in
      if q < 13 then addrs ! q
      else if addrs ! 12 = 0 then 0
      else word_at (fc f (addrs ! 12)) ((q - 13) * 4))"

definition dq :: "nat \<Rightarrow> nat" where
  "dq i = (if i < NDIRECT then i else i + 1)"

definition own :: "fs \<Rightarrow> nat \<Rightarrow> u32 set" where
  "own f p = ptr f p ` {..<NPTR} - {0}"

definition fbyte :: "fs \<Rightarrow> nat \<Rightarrow> nat \<Rightarrow> u8" where
  "fbyte f p pos =
     (let b = ptr f p (dq (pos div BLK_SIZE)) in if b = 0 then 0 else fc f b (pos mod BLK_SIZE))"

definition iblk :: "fs \<Rightarrow> nat \<Rightarrow> u32" where
  "iblk f p = I2BLKNO f (i_no (inodes f p))"

definition in_slot :: "u32 \<Rightarrow> nat \<Rightarrow> bool" where
  "in_slot no k \<longleftrightarrow> I2BLKOFF no \<le> k \<and> k < I2BLKOFF no + DINODE_SIZE"

definition disk_dinode :: "fs \<Rightarrow> u32 \<Rightarrow> dinode" where
  "disk_dinode f no =
     dinode_of (map (fc f (I2BLKNO f no)) [I2BLKOFF no..<I2BLKOFF no + DINODE_SIZE])"

text \<open>Well-formedness of an open file: its inode is written back, its blocks are allocated
  data blocks, and no block number occurs twice.\<close>

definition fwf :: "fs \<Rightarrow> nat \<Rightarrow> bool" where
  "fwf f p \<longleftrightarrow>
     fs_ok f \<and> unat (i_no (inodes f p)) < 1920 \<and> length (di_addrs (di_of f p)) = 13 \<and>
     disk_dinode f (i_no (inodes f p)) = di_of f p \<and>
     (\<forall>q < NPTR. ptr f p q \<noteq> 0 \<longrightarrow>
        64 \<le> unat (ptr f p q) \<and> unat (ptr f p q) < BLK_NUM \<and> used f (unat (ptr f p q))) \<and>
     inj_on (ptr f p) {q. q < NPTR \<and> ptr f p q \<noteq> 0}"

definition meta_same :: "fs \<Rightarrow> fs \<Rightarrow> nat \<Rightarrow> bool" where
  "meta_same f f' p \<longleftrightarrow>
     (\<forall>p'. p' \<noteq> p \<longrightarrow> inodes f' p' = inodes f p') \<and> i_no (inodes f' p) = i_no (inodes f p) \<and>
     i_ref (inodes f' p) = i_ref (inodes f p) \<and> i_del (inodes f' p) = i_del (inodes f p) \<and>
     di_type (di_of f' p) = di_type (di_of f p) \<and> di_device (di_of f' p) = di_device (di_of f p)"

definition kept :: "fs \<Rightarrow> fs \<Rightarrow> nat \<Rightarrow> bool" where
  "kept f f' p \<longleftrightarrow>
     meta_same f f' p \<and> (\<forall>k < BLK_NUM. used f k \<longrightarrow> used f' k) \<and>
     (\<forall>b k. unat b < BLK_NUM \<and> used f (unat b) \<and> b \<noteq> 33 \<and> b \<notin> own f p \<and>
        \<not> (b = iblk f p \<and> in_slot (i_no (inodes f p)) k) \<longrightarrow> fc f' b k = fc f b k) \<and>
     own f' p \<subseteq> own f p \<union> {b. unat b < BLK_NUM \<and> \<not> used f (unat b)}"

lemma meta_same_refl [simp]: "meta_same f f p"
  by (simp add: meta_same_def)

lemma meta_same_trans: "meta_same f g p \<Longrightarrow> meta_same g h p \<Longrightarrow> meta_same f h p"
  by (simp add: meta_same_def)

lemma fwf_fs_ok: "fwf f p \<Longrightarrow> fs_ok f"
  by (simp add: fwf_def)

lemma fwf_ptr:
  assumes "fwf f p" and "q < NPTR" and "ptr f p q \<noteq> 0"
  shows "64 \<le> unat (ptr f p q)" "unat (ptr f p q) < BLK_NUM" "used f (unat (ptr f p q))"
  using assms by (auto simp: fwf_def)

lemma fwf_inj:
  "fwf f p \<Longrightarrow> q < NPTR \<Longrightarrow> r < NPTR \<Longrightarrow> ptr f p q \<noteq> 0 \<Longrightarrow> ptr f p q = ptr f p r \<Longrightarrow> q = r"
  unfolding fwf_def inj_on_def by auto

lemma iblk_range:
  assumes "sb f = mkfs_sb" and "unat (i_no (inodes f p)) < 1920"
  shows "unat (iblk f p) = 34 + unat (i_no (inodes f p)) div 64"
    and "34 \<le> unat (iblk f p)" "unat (iblk f p) < 64"
proof -
  have "unat (i_no (inodes f p) div 64) = unat (i_no (inodes f p)) div 64"
    by (simp add: unat_div)
  moreover have "unat (i_no (inodes f p)) div 64 < 30" using assms(2) by simp
  ultimately show "unat (iblk f p) = 34 + unat (i_no (inodes f p)) div 64"
    using assms(1) by (simp add: iblk_def I2BLKNO_def unat_word_ariths)
  then show "34 \<le> unat (iblk f p)" "unat (iblk f p) < 64"
    using assms(2) by simp_all
qed

lemma I2BLKOFF_bound: "I2BLKOFF no + DINODE_SIZE \<le> BLK_SIZE"
proof -
  have "unat (no mod 64) < 64" by (simp add: unat_mod)
  then show ?thesis by (simp add: I2BLKOFF_def)
qed

lemma same_ptr: "same f f' \<Longrightarrow> ptr f' p = ptr f p"
  by (rule ext) (simp add: ptr_def same_def Let_def)

lemma same_fbyte: "same f f' \<Longrightarrow> fbyte f' p = fbyte f p"
  by (rule ext) (simp add: fbyte_def same_ptr Let_def, simp add: same_def)

lemma same_fwf:
  assumes "same f f'" and "fwf f p"
  shows "fwf f' p"
proof -
  have "disk_dinode f' no = disk_dinode f no" for no
    using assms(1) by (simp add: disk_dinode_def I2BLKNO_def same_def)
  then show ?thesis
    using assms same_fs_ok [OF assms(1)]
    by (simp add: fwf_def same_ptr same_used) (simp add: same_def)
qed

lemma same_kept: "same f f' \<Longrightarrow> kept f f' p"
  by (simp add: kept_def own_def same_ptr same_used meta_same_def) (simp add: same_def)

lemma kept_trans:
  assumes fg: "kept f g p" and gh: "kept g h p" and sb: "sb g = sb f"
  shows "kept f h p"
proof -
  have meta: "meta_same f g p" "meta_same g h p" using fg gh by (simp_all add: kept_def)
  then have ib: "iblk g p = iblk f p" "i_no (inodes g p) = i_no (inodes f p)"
    using sb by (simp_all add: iblk_def I2BLKNO_def meta_same_def)
  have "fc h b k = fc f b k"
    if "unat b < BLK_NUM" "used f (unat b)" "b \<noteq> 33" "b \<notin> own f p"
      "\<not> (b = iblk f p \<and> in_slot (i_no (inodes f p)) k)" for b k
  proof -
    have "b \<notin> own g p" "used g (unat b)" using fg that unfolding kept_def by auto
    then have "fc h b k = fc g b k"
      using gh that unfolding kept_def ib by blast
    also have "\<dots> = fc f b k" using fg that unfolding kept_def by blast
    finally show ?thesis .
  qed
  moreover have "own h p \<subseteq> own f p \<union> {b. unat b < BLK_NUM \<and> \<not> used f (unat b)}"
  proof -
    have "own h p \<subseteq> own g p \<union> {b. unat b < BLK_NUM \<and> \<not> used g (unat b)}"
      "own g p \<subseteq> own f p \<union> {b. unat b < BLK_NUM \<and> \<not> used f (unat b)}"
      using fg gh by (simp_all add: kept_def)
    moreover have "\<not> used g (unat b) \<Longrightarrow> unat b < BLK_NUM \<Longrightarrow> \<not> used f (unat b)" for b :: u32
      using fg by (auto simp: kept_def)
    ultimately show ?thesis by blast
  qed
  moreover have "\<forall>k < BLK_NUM. used f k \<longrightarrow> used h k"
    using fg gh by (simp add: kept_def)
  ultimately show ?thesis
    using meta_same_trans [OF meta] unfolding kept_def by blast
qed

subsection \<open>One more block\<close>

text \<open>\<open>grew f f' p q\<close>: pointer \<open>q\<close> of the file was empty and is now a fresh zeroed block.\<close>

definition grew :: "fs \<Rightarrow> fs \<Rightarrow> nat \<Rightarrow> nat \<Rightarrow> bool" where
  "grew f f' p q \<longleftrightarrow>
     fwf f' p \<and> kept f f' p \<and> di_size (di_of f' p) = di_size (di_of f p) \<and>
     (\<forall>r < NPTR. r \<noteq> q \<longrightarrow> ptr f' p r = ptr f p r) \<and> ptr f' p q \<noteq> 0 \<and>
     fc f' (ptr f' p q) = (\<lambda>_. 0) \<and>
     (\<forall>r < NPTR. r \<noteq> 12 \<and> ptr f p r \<noteq> 0 \<longrightarrow> fc f' (ptr f p r) = fc f (ptr f p r))"

lemma grewI:
  assumes wf: "fwf f p" and q: "q < NPTR" "ptr f p q = 0"
    and a: "a < BLK_NUM" "\<not> used f a"
    and ok': "fs_ok f'" and used': "\<forall>k < BLK_NUM. used f' k \<longleftrightarrow> used f k \<or> k = a"
    and ptr': "\<forall>r < NPTR. ptr f' p r = (if r = q then of_nat a else ptr f p r)"
    and fc': "\<forall>b. b \<noteq> 33 \<and> b \<noteq> iblk f p \<and> (b \<noteq> ptr f p 12 \<or> b = 0) \<longrightarrow>
      fc f' b = (if b = of_nat a then (\<lambda>_. 0) else fc f b)"
    and fci: "\<forall>k. \<not> in_slot (i_no (inodes f p)) k \<longrightarrow> fc f' (iblk f p) k = fc f (iblk f p) k"
    and meta: "meta_same f f' p" "di_size (di_of f' p) = di_size (di_of f p)"
      "length (di_addrs (di_of f' p)) = 13"
    and sync: "disk_dinode f' (i_no (inodes f' p)) = di_of f' p"
  shows "grew f f' p q"
proof -
  have ok: "fs_ok f" using wf by (rule fwf_fs_ok)
  have ino: "unat (i_no (inodes f p)) < 1920" using wf by (simp add: fwf_def)
  have a64: "64 \<le> a" using ok a(2) unfolding fs_ok_def by (meson not_le)
  let ?a = "of_nat a :: u32"
  have ua: "unat ?a = a" using a(1) by (simp add: unat_of_nat32)
  have a0: "?a \<noteq> 0" "?a \<noteq> 33" "?a \<noteq> iblk f p"
    using a64 ua iblk_range(3) [OF _ ino] fs_ok_simps(2) [OF ok] by force+
  have new: "ptr f p r \<noteq> ?a" if "r < NPTR" for r
    using fwf_ptr(3) [OF wf that] a(2) ua a0(1) by metis
  have old: "ptr f p r \<noteq> 33" "ptr f p r \<noteq> iblk f p" if "r < NPTR" "ptr f p r \<noteq> 0" for r
    using fwf_ptr(1) [OF wf that] iblk_range(3) [OF _ ino] fs_ok_simps(2) [OF ok] by force+
  have fwf': "fwf f' p"
    unfolding fwf_def
  proof (intro conjI allI impI)
    show "inj_on (ptr f' p) {q. q < NPTR \<and> ptr f' p q \<noteq> 0}"
      using fwf_inj [OF wf] new ptr' q by (auto simp: inj_on_def split: if_splits) metis+
  next
    fix r assume r: "r < NPTR" "ptr f' p r \<noteq> 0"
    then show "64 \<le> unat (ptr f' p r)" "unat (ptr f' p r) < BLK_NUM" "used f' (unat (ptr f' p r))"
      using ptr' fwf_ptr [OF wf r(1)] used' a64 a(1) ua by (auto split: if_splits)
  qed (use ok' ino meta sync in \<open>simp_all add: meta_same_def\<close>)
  have "own f' p \<subseteq> insert ?a (own f p)"
    using ptr' by (auto simp: own_def split: if_splits)
  then have own': "own f' p \<subseteq> own f p \<union> {b. unat b < BLK_NUM \<and> \<not> used f (unat b)}"
    using a ua by auto
  have "fc f' b k = fc f b k"
    if "used f (unat b)" "b \<noteq> 33" "b \<notin> own f p" "\<not> (b = iblk f p \<and> in_slot (i_no (inodes f p)) k)"
    for b k
  proof (cases "b = iblk f p")
    case True
    then show ?thesis using fci that(4) by blast
  next
    case False
    moreover have "b \<noteq> ?a" using that(1) a(2) ua by auto
    moreover have "b \<noteq> ptr f p 12 \<or> ptr f p 12 = 0" using that(3) by (auto simp: own_def)
    ultimately show ?thesis
      using fc' that(2) by auto
  qed
  then have "kept f f' p"
    using meta(1) used' own' unfolding kept_def by blast
  moreover have "fc f' (ptr f' p q) = (\<lambda>_. 0)"
    using fc' ptr' q(1) a0 new [of 12] by auto
  moreover have "fc f' (ptr f p r) = fc f (ptr f p r)"
    if "r < NPTR" "r \<noteq> 12" "ptr f p r \<noteq> 0" for r
    using fc' old [OF that(1,3)] new [OF that(1)] fwf_inj [OF wf that(1) _ that(3), of 12] that(2)
    by auto
  ultimately show ?thesis
    using fwf' meta(2) ptr' q(1) a0(1) unfolding grew_def by auto
qed

definition nfree :: "fs \<Rightarrow> nat" where
  "nfree f = card {k. k < BLK_NUM \<and> \<not> used f k}"

lemma nfree_pos: "0 < nfree f \<Longrightarrow> \<exists>k < BLK_NUM. \<not> used f k"
  unfolding nfree_def by (metis (mono_tags, lifting) Collect_empty_eq card.empty less_irrefl)

lemma nfree_alloc:
  assumes "\<forall>k < BLK_NUM. used f' k \<longleftrightarrow> used f k \<or> k = a" and "a < BLK_NUM" and "\<not> used f a"
  shows "nfree f' = nfree f - 1"
proof -
  have "{k. k < BLK_NUM \<and> \<not> used f' k} = {k. k < BLK_NUM \<and> \<not> used f k} - {a}"
    using assms(1) by auto
  then show ?thesis
    using assms(2,3) by (simp add: nfree_def)
qed

lemma upd_inode_simps [simp]:
  "dev (upd_inode f p g) = dev f" "sb (upd_inode f p g) = sb f"
  "inodes (upd_inode f p g) = (inodes f)(p := g (inodes f p))"
  "fc (upd_inode f p g) = fc f" "used (upd_inode f p g) = used f"
  by (simp_all add: upd_inode_def fc_def used_def fun_eq_iff)

lemma diwrite_ok:
  assumes "bdev_ok (dev f)" and "sb f = mkfs_sb" and "unat no < 1920"
    and "length (di_addrs di) = 13"
  obtains f' where "diwrite f di no = Some f'"
    and "wrote f f' (I2BLKNO f no) (overlay (fc f (I2BLKNO f no)) (I2BLKOFF no) (dinode_bytes di))"
    and "disk_dinode f' no = di"
proof -
  let ?b = "I2BLKNO f no"
  have "unat (no div 64) = unat no div 64" by (simp add: unat_div)
  then have "unat ?b < 64"
    using assms(2,3) by (simp add: I2BLKNO_def unat_word_ariths)
  then have b: "on_disk ?b" by (simp add: on_disk_def)
  have len: "length (dinode_bytes di) = DINODE_SIZE"
    using assms(4) by (simp add: length_dinode_bytes)
  obtain f' where f': "fs_bwrite f (dinode_bytes di) ?b (I2BLKOFF no) = Some f'"
    "wrote f f' ?b (overlay (fc f ?b) (I2BLKOFF no) (dinode_bytes di))"
    using fs_bwrite_ok [of f ?b "I2BLKOFF no" "dinode_bytes di"] assms(1) b I2BLKOFF_bound [of no] len
    by auto
  have "map (fc f' ?b) [I2BLKOFF no..<I2BLKOFF no + DINODE_SIZE] = dinode_bytes di"
    using map_overlay_same [of "fc f ?b" "I2BLKOFF no" "dinode_bytes di"]
    by (simp add: wrote_simps [OF f'(2)] len)
  then have "disk_dinode f' no = di"
    using dinode_roundtrip assms(4) wrote_simps(2) [OF f'(2)]
    by (simp add: disk_dinode_def I2BLKNO_def)
  then show ?thesis
    using that f' by (simp add: diwrite_def)
qed

lemma iblk_not_bitmap:
  assumes "fwf f p"
  shows "iblk f p \<noteq> 33"
  using iblk_range(2) [of f p] assms fs_ok_simps(2) [of f] by (force simp: fwf_def)

lemma alloc_addr_ok:
  assumes wf: "fwf f p" and q: "q < 13" "ptr f p q = 0" and free: "0 < nfree f"
  obtains f' where "alloc_addr f p q = Some (ptr f' p q, f')" and "grew f f' p q"
    and "nfree f' = nfree f - 1"
proof -
  have ok: "fs_ok f" using wf by (rule fwf_fs_ok)
  have len: "length (di_addrs (di_of f p)) = 13" and ino: "unat (i_no (inodes f p)) < 1920"
    using wf by (simp_all add: fwf_def)
  obtain a f1 where f1: "balloc f = Some (of_nat a, f1)" "allocs f f1 a"
    using nfree_pos [OF free] balloc_ok [OF ok] by metis
  have a: "a < BLK_NUM" "\<not> used f a" and used1: "\<forall>k < BLK_NUM. used f1 k \<longleftrightarrow> used f k \<or> k = a"
    and f1s: "fs_ok f1" "inodes f1 = inodes f" "sb f1 = sb f"
    and fc1: "\<forall>b. b \<noteq> 33 \<longrightarrow> fc f1 b = (if b = of_nat a then (\<lambda>_. 0) else fc f b)"
    using f1(2) by (simp_all add: allocs_def)
  define f2 where "f2 = set_addr f1 p q (of_nat a)"
  have f2s: "dev f2 = dev f1" "sb f2 = sb f1" "fc f2 = fc f1" "used f2 = used f1"
    "i_no (inodes f2 p) = i_no (inodes f p)"
    "di_addrs (di_of f2 p) = (di_addrs (di_of f p))[q := of_nat a]"
    by (simp_all add: f2_def set_addr_def f1s)
  have meta2: "meta_same f f2 p" "di_size (di_of f2 p) = di_size (di_of f p)"
    by (simp_all add: f2_def set_addr_def f1s meta_same_def)
  have ib: "I2BLKNO f2 (i_no (inodes f p)) = iblk f p"
    by (simp add: iblk_def I2BLKNO_def f2s f1s)
  obtain f3 where f3: "iupdate f2 p = Some f3"
    "wrote f2 f3 (iblk f p)
       (overlay (fc f2 (iblk f p)) (I2BLKOFF (i_no (inodes f p))) (dinode_bytes (di_of f2 p)))"
    "disk_dinode f3 (i_no (inodes f p)) = di_of f2 p"
    using diwrite_ok [of f2 "i_no (inodes f p)" "di_of f2 p"] f1s fs_ok_simps [OF f1s(1)] len ino
    by (auto simp: iupdate_def f2s ib)
  note f3s = wrote_simps [OF f3(2)]
  have nb: "iblk f p \<noteq> 33" using wf by (rule iblk_not_bitmap)
  have a64: "64 \<le> a" using ok a(2) unfolding fs_ok_def by (meson not_le)
  have ua: "unat (of_nat a :: u32) = a" using a(1) by (simp add: unat_of_nat32)
  have ai: "of_nat a \<noteq> iblk f p"
    using a64 ua iblk_range(3) [OF _ ino] fs_ok_simps(2) [OF ok] by force
  have "of_nat a \<noteq> (33 :: u32)" using a64 ua by force
  then have ab: "of_nat a \<noteq> (33 :: u32)" "fc f1 (of_nat a) = (\<lambda>_. 0)" using fc1 by simp_all
  have used3: "used f3 = used f1"
    using nb by (simp add: used_def fun_eq_iff f3s f2s f1s fs_ok_simps [OF ok])
  have fc3: "fc f3 b = (if b = of_nat a then (\<lambda>_. 0) else fc f b)" if "b \<noteq> 33" "b \<noteq> iblk f p" for b
    using that fc1 by (simp add: f3s f2s)
  have ptr3: "ptr f3 p r = (if r = q then of_nat a else ptr f p r)" if "r < NPTR" for r
  proof (cases "r < 13 \<or> q = 12 \<or> ptr f p 12 = 0")
    case True
    then show ?thesis
      using q len ab ai a64 ua
      by (auto simp: ptr_def Let_def f3s f2s nth_list_update f1s)
  next
    case False
    then have "ptr f p 12 \<noteq> 33" "ptr f p 12 \<noteq> iblk f p" "ptr f p 12 \<noteq> of_nat a"
      using fwf_ptr [OF wf, of 12] a(2) ua iblk_range(3) [OF _ ino] fs_ok_simps(2) [OF ok] by force+
    then show ?thesis
      using False q len fc3 [of "ptr f p 12"]
      by (auto simp: ptr_def Let_def f3s f2s nth_list_update f1s)
  qed
  have "grew f f3 p q"
  proof (rule grewI [OF wf _ q(2) a])
    show "fs_ok f3" using f1s by (simp add: fs_ok_def used3) (simp add: f3s f2s)
    show "\<forall>k. \<not> in_slot (i_no (inodes f p)) k \<longrightarrow> fc f3 (iblk f p) k = fc f (iblk f p) k"
      using fc1 nb ai len
      by (auto simp: f3s f2s overlay_def in_slot_def length_dinode_bytes)
    show "meta_same f f3 p" "di_size (di_of f3 p) = di_size (di_of f p)"
      using meta2 by (simp_all add: meta_same_def f3s)
  qed (use q used1 ptr3 fc3 f3(3) len in \<open>simp_all add: used3 f3s f2s f1s\<close>)
  moreover have "alloc_addr f p q = Some (ptr f3 p q, f3)"
    using f1(1) f3(1) ptr3 [of q] q(1) by (simp add: alloc_addr_def f2_def)
  moreover have "nfree f3 = nfree f - 1"
    using used1 a by (intro nfree_alloc) (simp_all add: used3)
  ultimately show ?thesis using that by blast
qed

text \<open>A fresh entry of the indirect block: the second half of \<open>iwalk\<close>'s indirect branch.\<close>

lemma alloc_entry_ok:
  assumes wf: "fwf f p" and j: "j < NINDIRECT" and ind: "ptr f p 12 \<noteq> 0"
    and q: "ptr f p (13 + j) = 0" and free: "0 < nfree f"
  obtains a f1 f' where "balloc f = Some (a, f1)"
    and "fs_bwrite f1 (le32 a) (ptr f p 12) (j * 4) = Some f'"
    and "a = ptr f' p (13 + j)" and "grew f f' p (13 + j)" and "nfree f' = nfree f - 1"
proof -
  let ?ind = "ptr f p 12"
  have ok: "fs_ok f" using wf by (rule fwf_fs_ok)
  have ino: "unat (i_no (inodes f p)) < 1920" using wf by (simp add: fwf_def)
  obtain a f1 where f1: "balloc f = Some (of_nat a, f1)" "allocs f f1 a"
    using nfree_pos [OF free] balloc_ok [OF ok] by metis
  have a: "a < BLK_NUM" "\<not> used f a" and used1: "\<forall>k < BLK_NUM. used f1 k \<longleftrightarrow> used f k \<or> k = a"
    and f1s: "fs_ok f1" "inodes f1 = inodes f" "sb f1 = sb f"
    and fc1: "\<forall>b. b \<noteq> 33 \<longrightarrow> fc f1 b = (if b = of_nat a then (\<lambda>_. 0) else fc f b)"
    using f1(2) by (simp_all add: allocs_def)
  have a64: "64 \<le> a" using ok a(2) unfolding fs_ok_def by (meson not_le)
  have ua: "unat (of_nat a :: u32) = a" using a(1) by (simp add: unat_of_nat32)
  have ind_ne: "?ind \<noteq> 33" "?ind \<noteq> iblk f p" "?ind \<noteq> of_nat a"
    using fwf_ptr [OF wf _ ind] a(2) ua iblk_range(3) [OF _ ino] fs_ok_simps(2) [OF ok] by force+
  have ai: "of_nat a \<noteq> iblk f p"
    using a64 ua iblk_range(3) [OF _ ino] fs_ok_simps(2) [OF ok] by force
  have nb: "iblk f p \<noteq> 33" using wf by (rule iblk_not_bitmap)
  have "on_disk ?ind" using fwf_ptr(2) [OF wf _ ind] by (simp add: on_disk_def)
  then obtain f2 where f2: "fs_bwrite f1 (le32 (of_nat a)) ?ind (j * 4) = Some f2"
    "wrote f1 f2 ?ind (overlay (fc f1 ?ind) (j * 4) (le32 (of_nat a)))"
    using fs_bwrite_ok [of f1 ?ind "j * 4" "le32 (of_nat a)"] j fs_ok_simps(1) [OF f1s(1)] by auto
  note f2s = wrote_simps [OF f2(2)]
  have addr: "di_addrs (di_of f p) ! 12 = ?ind" by (simp add: ptr_def)
  have fi: "fc f1 ?ind = fc f ?ind" using fc1 ind_ne by simp
  have used2: "used f2 = used f1"
    using ind_ne(1) by (simp add: used_def fun_eq_iff f2s f1s fs_ok_simps [OF ok])
  have fc2: "fc f2 b = (if b = of_nat a then (\<lambda>_. 0) else fc f b)" if "b \<noteq> 33" "b \<noteq> ?ind" for b
    using that fc1 by (simp add: f2s)
  have ptr2: "ptr f2 p r = (if r = 13 + j then of_nat a else ptr f p r)" if "r < NPTR" for r
  proof (cases "r < 13 \<or> r = 13 + j")
    case True
    then show ?thesis using ind by (auto simp: ptr_def [of f2] ptr_def [of f p r] Let_def f2s f1s addr)
  next
    case False
    then have "(r - 13) * 4 + 4 \<le> j * 4 \<or> j * 4 + 4 \<le> (r - 13) * 4" by auto
    then show ?thesis
      using False ind word_at_overlay_other [of "(r - 13) * 4" "j * 4" "le32 (of_nat a)" "fc f ?ind"]
      by (simp add: ptr_def [of f2] ptr_def [of f p r] Let_def f2s f1s addr fi)
  qed
  have "grew f f2 p (13 + j)"
  proof (rule grewI [OF wf _ q a])
    show "fs_ok f2" using f1s by (simp add: fs_ok_def used2) (simp add: f2s)
    show "\<forall>b. b \<noteq> 33 \<and> b \<noteq> iblk f p \<and> (b \<noteq> ?ind \<or> b = 0) \<longrightarrow>
        fc f2 b = (if b = of_nat a then \<lambda>_. 0 else fc f b)"
      using fc2 ind by auto
    show "disk_dinode f2 (i_no (inodes f2 p)) = di_of f2 p"
      using wf fc2 [of "iblk f p"] nb ind_ne(2) ai
      by (simp add: fwf_def disk_dinode_def f2s f1s iblk_def I2BLKNO_def)
    show "\<forall>k < BLK_NUM. used f2 k \<longleftrightarrow> used f k \<or> k = a" using used1 by (simp add: used2)
    show "\<forall>r < NPTR. ptr f2 p r = (if r = 13 + j then of_nat a else ptr f p r)"
      using ptr2 by blast
    show "\<forall>k. \<not> in_slot (i_no (inodes f p)) k \<longrightarrow> fc f2 (iblk f p) k = fc f (iblk f p) k"
      using fc2 [of "iblk f p"] nb ind_ne(2) ai by auto
    show "meta_same f f2 p" "di_size (di_of f2 p) = di_size (di_of f p)"
      by (simp_all add: meta_same_def f2s f1s)
    show "length (di_addrs (di_of f2 p)) = 13" using wf by (simp add: fwf_def f2s f1s)
  qed (use j in simp)
  moreover have "nfree f2 = nfree f - 1"
    using used1 a by (intro nfree_alloc) (simp_all add: used2)
  moreover have "ptr f2 p (13 + j) = of_nat a" using ptr2 [of "13 + j"] j by simp
  ultimately show ?thesis
    using that [OF f1(1) f2(1)] by presburger
qed

subsection \<open>Walking to a block\<close>

text \<open>\<open>extends f f' p\<close>: the file may have more blocks, and is byte for byte the same.\<close>

definition extends :: "fs \<Rightarrow> fs \<Rightarrow> nat \<Rightarrow> bool" where
  "extends f f' p \<longleftrightarrow>
     fwf f' p \<and> sb f' = sb f \<and> kept f f' p \<and> di_size (di_of f' p) = di_size (di_of f p) \<and>
     (\<forall>q < NPTR. ptr f p q \<noteq> 0 \<longrightarrow> ptr f' p q = ptr f p q) \<and>
     (\<forall>pos < FILE_MAX. fbyte f' p pos = fbyte f p pos)"

lemma dq_bounds: "i < FILE_BLKS \<Longrightarrow> dq i < NPTR" "dq i \<noteq> 12"
  by (simp_all add: dq_def)

lemma dq_inj: "dq i = dq j \<longleftrightarrow> i = j"
  by (auto simp: dq_def)

lemma fwf_sb: "fwf f p \<Longrightarrow> sb f = mkfs_sb"
  by (simp add: fwf_def fs_ok_def)

lemma same_extends: "fwf f p \<Longrightarrow> same f f' \<Longrightarrow> extends f f' p"
  by (simp add: extends_def same_fwf same_kept same_ptr same_fbyte) (simp add: same_def)

lemma extends_trans:
  assumes "extends f g p" and "extends g h p"
  shows "extends f h p"
  using assms kept_trans [of f g p h] by (simp add: extends_def)

lemma grew_extends:
  assumes wf: "fwf f p" and g: "grew f f' p q" and q: "q < NPTR" "ptr f p q = 0"
  shows "extends f f' p"
proof -
  have ptr': "ptr f' p r = ptr f p r" if "r < NPTR" "r \<noteq> q" for r
    using g that by (simp add: grew_def)
  have "fbyte f' p pos = fbyte f p pos" if pos: "pos < FILE_MAX" for pos
  proof -
    let ?r = "dq (pos div BLK_SIZE)"
    have "pos div BLK_SIZE < FILE_BLKS" using pos by simp
    then have r: "?r < NPTR" "?r \<noteq> 12" by (simp_all add: dq_bounds)
    show ?thesis
    proof (cases "?r = q")
      case True
      then show ?thesis using g q by (simp add: fbyte_def grew_def)
    next
      case False
      then show ?thesis using g r ptr' [OF r(1)] by (auto simp: fbyte_def grew_def Let_def)
    qed
  qed
  then show ?thesis
    using g q ptr' fwf_sb [OF wf] fwf_sb [of f' p]
    unfolding extends_def grew_def by metis
qed

end
