(* ===== verification/FsRw.thy ===== *)
theory FsRw
  imports FsFile
begin

text \<open>
  \<open>iwalk\<close>, \<open>iread\<close> and \<open>iwrite\<close> of \<open>kernel/src/fs.c\<close> as operations on the byte array of a
  file: none of them fails on a well-formed file as long as the disk has room, a read returns
  the segment that is there, a write replaces one and nothing else.
\<close>

subsection \<open>Walking to a block\<close>

lemma ptr_12: "ptr f p 12 = di_addrs (di_of f p) ! 12"
  by (simp add: ptr_def)

lemma iwalk_too_big:
  assumes "FILE_BLKS \<le> i"
  shows "iwalk f p i = None"
proof -
  have "\<not> i < NDIRECT" "\<not> i - NDIRECT < NINDIRECT" using assms by simp_all
  then show ?thesis by (simp add: iwalk_def del: less_diff_conv2)
qed

lemma fwf_refl_extends: "fwf f p \<Longrightarrow> extends f f p"
  using fs_ok_simps(1) [OF fwf_fs_ok] by (blast intro: same_extends same_refl)

lemma iwalk_direct:
  assumes wf: "fwf f p" and i: "i < NDIRECT" and free: "0 < nfree f"
  obtains f' where "iwalk f p i = Some (ptr f' p i, f')" and "extends f f' p"
    and "ptr f' p i \<noteq> 0" and "nfree f \<le> nfree f' + 1"
proof (cases "ptr f p i = 0")
  case True
  obtain f' where f': "alloc_addr f p i = Some (ptr f' p i, f')" "grew f f' p i"
    "nfree f' = nfree f - 1"
    using alloc_addr_ok [OF wf _ True free] i by auto
  have "extends f f' p" using grew_extends [OF wf f'(2) _ True] i by simp
  moreover have "iwalk f p i = Some (ptr f' p i, f')"
    using f'(1) True i by (simp add: iwalk_def ptr_def [of f])
  moreover have "ptr f' p i \<noteq> 0" using f'(2) by (simp add: grew_def)
  ultimately show ?thesis using that f'(3) by simp
next
  case False
  have "iwalk f p i = Some (ptr f p i, f)"
    using False i by (simp add: iwalk_def ptr_def)
  moreover note fwf_refl_extends [OF wf]
  ultimately show ?thesis using that False by simp
qed

text \<open>The indirect block is there, or is allocated first.\<close>

lemma iwalk_indirect_block:
  assumes wf: "fwf f p" and free: "0 < nfree f"
  obtains f' where
    "(if di_addrs (di_of f p) ! 12 = 0 then alloc_addr f p 12
      else Some (di_addrs (di_of f p) ! 12, f)) = Some (ptr f' p 12, f')"
    and "extends f f' p" and "ptr f' p 12 \<noteq> 0" and "nfree f \<le> nfree f' + 1"
proof (cases "ptr f p 12 = 0")
  case True
  obtain f' where f': "alloc_addr f p 12 = Some (ptr f' p 12, f')" "grew f f' p 12"
    "nfree f' = nfree f - 1"
    using alloc_addr_ok [OF wf _ True free] by auto
  have "extends f f' p" using grew_extends [OF wf f'(2) _ True] by simp
  moreover have "ptr f' p 12 \<noteq> 0" using f'(2) by (simp add: grew_def)
  ultimately show ?thesis using that [of f'] f'(1,3) True by (simp add: ptr_12 [symmetric])
next
  case False
  moreover note fwf_refl_extends [OF wf]
  ultimately show ?thesis using that [of f] by (simp add: ptr_12 [symmetric])
qed

lemma iwalk_ok:
  assumes wf: "fwf f p" and i: "i < FILE_BLKS" and free: "2 \<le> nfree f"
  obtains f' where "iwalk f p i = Some (ptr f' p (dq i), f')" and "extends f f' p"
    and "ptr f' p (dq i) \<noteq> 0" and "nfree f \<le> nfree f' + 2"
proof (cases "i < NDIRECT")
  case True
  have "0 < nfree f" using free by simp
  then obtain f' where "iwalk f p i = Some (ptr f' p i, f')" "extends f f' p"
    "ptr f' p i \<noteq> 0" "nfree f \<le> nfree f' + 1"
    by (rule iwalk_direct [OF wf True])
  moreover have "dq i = i" using True by (simp add: dq_def)
  ultimately show ?thesis using that [of f'] by simp
next
  case False
  let ?j = "i - NDIRECT"
  have dq: "dq i = 13 + ?j" "?j < NINDIRECT" using False i by (simp_all add: dq_def)
  obtain f1 where f1: "(if di_addrs (di_of f p) ! 12 = 0 then alloc_addr f p 12
      else Some (di_addrs (di_of f p) ! 12, f)) = Some (ptr f1 p 12, f1)"
    "extends f f1 p" "ptr f1 p 12 \<noteq> 0" "nfree f \<le> nfree f1 + 1"
    using iwalk_indirect_block [OF wf] free by auto
  have wf1: "fwf f1 p" using f1(2) by (simp add: extends_def)
  have "on_disk (ptr f1 p 12)" using fwf_ptr(2) [OF wf1 _ f1(3)] by (simp add: on_disk_def)
  then obtain bs f2 where f2: "fs_bread f1 4 (ptr f1 p 12) (?j * 4) = Some (bs, f2)"
    "same f1 f2" "of_le32 bs = ptr f1 p (dq i)"
    using fs_bread_word [of f1 "ptr f1 p 12" "?j * 4"] dq fs_ok_simps(1) [OF fwf_fs_ok [OF wf1]] f1(3)
    by (auto simp: ptr_def [of f1 p "13 + _"] ptr_12 Let_def)
  note e2 = same_extends [OF wf1 f2(2)]
  have wf2: "fwf f2 p" using e2 by (simp add: extends_def)
  have p2: "ptr f2 p = ptr f1 p" using same_ptr [OF f2(2)] .
  have n2: "nfree f2 = nfree f1" by (simp add: nfree_def same_used [OF f2(2)])
  show ?thesis
  proof (cases "ptr f1 p (dq i) = 0")
    case True
    obtain a f3 f4 where f4: "balloc f2 = Some (a, f3)"
      "fs_bwrite f3 (le32 a) (ptr f2 p 12) (?j * 4) = Some f4"
      "a = ptr f4 p (dq i)" "grew f2 f4 p (dq i)" "nfree f4 = nfree f2 - 1"
      using alloc_entry_ok [OF wf2 dq(2)] f1(3,4) free True p2 n2 dq(1) by auto
    have "extends f2 f4 p"
      using grew_extends [OF wf2 f4(4)] dq_bounds(1) [OF i] True p2 by simp
    then have "extends f f4 p"
      using f1(2) e2 by (blast intro: extends_trans)
    moreover have "iwalk f p i = Some (ptr f4 p (dq i), f4)"
      using f1(1) f2(1,3) f4(1-3) p2 True False dq by (simp add: iwalk_def Let_def)
    moreover have "ptr f4 p (dq i) \<noteq> 0" using f4(4) by (simp add: grew_def)
    moreover have "nfree f \<le> nfree f4 + 2" using f1(4) f4(5) n2 by simp
    ultimately show ?thesis using that by blast
  next
    case nz: False
    have "iwalk f p i = Some (ptr f2 p (dq i), f2)"
      using f1(1) f2(1,3) p2 nz False dq by (simp add: iwalk_def Let_def)
    moreover have "extends f f2 p" using f1(2) e2 by (rule extends_trans)
    ultimately show ?thesis using that nz p2 n2 f1(4) by simp
  qed
qed

text \<open>A block that is there is found without touching anything.\<close>

lemma iwalk_present:
  assumes wf: "fwf f p" and i: "i < FILE_BLKS" and nz: "ptr f p (dq i) \<noteq> 0"
  obtains f' where "iwalk f p i = Some (ptr f p (dq i), f')" and "same f f'"
proof (cases "i < NDIRECT")
  case True
  have "same f f" using fs_ok_simps(1) [OF fwf_fs_ok [OF wf]] by (rule same_refl)
  then show ?thesis
    using that [of f] True nz by (simp add: iwalk_def ptr_def Let_def dq_def)
next
  case False
  let ?j = "i - NDIRECT"
  have dq: "dq i = 13 + ?j" "?j < NINDIRECT" using False i by (simp_all add: dq_def)
  have ind: "ptr f p 12 \<noteq> 0" using nz dq by (auto simp: ptr_def Let_def split: if_splits)
  have "on_disk (ptr f p 12)" using fwf_ptr(2) [OF wf _ ind] by (simp add: on_disk_def)
  then obtain bs f2 where f2: "fs_bread f 4 (ptr f p 12) (?j * 4) = Some (bs, f2)"
    "same f f2" "of_le32 bs = ptr f p (dq i)"
    using fs_bread_word [of f "ptr f p 12" "?j * 4"] dq fs_ok_simps(1) [OF fwf_fs_ok [OF wf]] ind
    by (auto simp: ptr_def [of f p "13 + _"] ptr_12 Let_def)
  then show ?thesis
    using that [of f2] False nz dq ind by (simp add: iwalk_def Let_def ptr_12)
qed

subsection \<open>Storing bytes\<close>

text \<open>\<open>stored f f' p base src\<close>: the bytes from \<open>base\<close> on are \<open>src\<close> now, the others as before.\<close>

definition stored :: "fs \<Rightarrow> fs \<Rightarrow> nat \<Rightarrow> nat \<Rightarrow> bytes \<Rightarrow> bool" where
  "stored f f' p base src \<longleftrightarrow>
     fwf f' p \<and> sb f' = sb f \<and> kept f f' p \<and> di_size (di_of f' p) = di_size (di_of f p) \<and>
     (\<forall>q < NPTR. ptr f p q \<noteq> 0 \<longrightarrow> ptr f' p q = ptr f p q) \<and>
     (\<forall>pos < FILE_MAX. fbyte f' p pos = overlay (fbyte f p) base src pos) \<and>
     (\<forall>pos. base \<le> pos \<and> pos < base + length src \<longrightarrow> ptr f' p (dq (pos div BLK_SIZE)) \<noteq> 0)"

lemma overlay_Nil [simp]: "overlay g base [] = g"
  by (rule ext) (auto simp: overlay_def)

lemma extends_stored: "extends f f' p \<Longrightarrow> stored f f' p base []"
  unfolding extends_def stored_def by auto

lemma overlay_append:
  "overlay (overlay g base xs) (base + length xs) ys = overlay g base (xs @ ys)"
  by (auto simp: overlay_def fun_eq_iff nth_append)

lemma div_blk_bound: "pos < FILE_MAX \<Longrightarrow> dq (pos div BLK_SIZE) < NPTR"
  by (rule dq_bounds(1)) simp

lemma stored_trans:
  assumes f: "stored f g p base xs" and g: "stored g h p (base + length xs) ys"
    and le: "base + length xs + length ys \<le> FILE_MAX"
  shows "stored f h p base (xs @ ys)"
proof -
  have "fbyte h p pos = overlay (fbyte f p) base (xs @ ys) pos" if "pos < FILE_MAX" for pos
  proof -
    have "fbyte h p pos = overlay (fbyte g p) (base + length xs) ys pos"
      using g that by (simp add: stored_def)
    also have "\<dots> = overlay (overlay (fbyte f p) base xs) (base + length xs) ys pos"
      using f that by (simp add: stored_def overlay_def)
    finally show ?thesis by (simp only: overlay_append)
  qed
  moreover have "ptr h p (dq (pos div BLK_SIZE)) \<noteq> 0"
    if "base \<le> pos" "pos < base + length xs + length ys" for pos
  proof (cases "pos < base + length xs")
    case True
    have "dq (pos div BLK_SIZE) < NPTR" using that le by (intro div_blk_bound) simp
    then show ?thesis using f g True that(1) by (simp add: stored_def)
  next
    case False
    then show ?thesis using g that(2) by (simp add: stored_def)
  qed
  ultimately show ?thesis
    using f g kept_trans [of f g p h] by (simp add: stored_def)
qed

text \<open>Writing into a data block of the file.\<close>

lemma data_stored:
  assumes wf: "fwf f p" and i: "i < FILE_BLKS" and nz: "ptr f p (dq i) \<noteq> 0"
    and len: "off + length src \<le> BLK_SIZE"
    and w: "wrote f f' (ptr f p (dq i)) (overlay (fc f (ptr f p (dq i))) off src)"
  shows "stored f f' p (i * BLK_SIZE + off) src" and "used f' = used f"
proof -
  let ?b = "ptr f p (dq i)"
  have ok: "fs_ok f" using wf by (rule fwf_fs_ok)
  note q = dq_bounds(1) [OF i] dq_bounds(2) [of i]
  note b = fwf_ptr [OF wf q(1) nz]
  have ino: "unat (i_no (inodes f p)) < 1920" using wf by (simp add: fwf_def)
  note s = wrote_simps [OF w]
  have ne: "?b \<noteq> 33" "?b \<noteq> iblk f p"
    using b(1) iblk_range(3) [OF _ ino] fs_ok_simps(2) [OF ok] by force+
  have ne12: "ptr f p 12 \<noteq> ?b"
    using fwf_inj [OF wf q(1) _ nz, of 12] q(2) by auto
  show used': "used f' = used f"
    using ne(1) by (simp add: used_def fun_eq_iff s fs_ok_simps [OF ok])
  have ptr': "ptr f' p = ptr f p"
  proof
    fix r show "ptr f' p r = ptr f p r"
      using ne12 by (simp add: ptr_def [of f'] ptr_def [of f p r] Let_def s ptr_12 [symmetric])
  qed
  have dd: "disk_dinode f' (i_no (inodes f p)) = di_of f p"
    using wf ne(2) by (simp add: fwf_def disk_dinode_def I2BLKNO_def s iblk_def)
  have ok': "fs_ok f'" using ok s by (simp add: fs_ok_def used')
  have wf': "fwf f' p"
    using wf ok' dd by (simp add: fwf_def ptr' used' s)
  have own_b: "?b \<in> own f p" using q nz by (auto simp: own_def)
  have own': "own f' p = own f p" by (simp add: own_def ptr')
  have "kept f f' p"
    using own_b by (auto simp: kept_def own' used' s meta_same_def)
  moreover have "fbyte f' p pos = overlay (fbyte f p) (i * BLK_SIZE + off) src pos"
    if pos: "pos < FILE_MAX" for pos
  proof (cases "pos div BLK_SIZE = i")
    case True
    have "pos = i * BLK_SIZE + pos mod BLK_SIZE" using True by (metis div_mult_mod_eq)
    then obtain k where k: "pos = i * BLK_SIZE + k" "k < BLK_SIZE" by (metis mod_less_divisor zero_less_numeral)
    then show ?thesis using nz by (auto simp: fbyte_def ptr' s overlay_def Let_def)
  next
    case False
    let ?c = "ptr f p (dq (pos div BLK_SIZE))"
    have "?c \<noteq> ?b"
      using fwf_inj [OF wf q(1) div_blk_bound [OF pos] nz] False by (metis dq_inj)
    moreover have "\<not> (i * BLK_SIZE + off \<le> pos \<and> pos < i * BLK_SIZE + off + length src)"
    proof
      assume "i * BLK_SIZE + off \<le> pos \<and> pos < i * BLK_SIZE + off + length src"
      then have "i * BLK_SIZE \<le> pos" "pos < Suc i * BLK_SIZE" using len by simp_all
      then show False using False by (metis div_nat_eqI mult.commute)
    qed
    ultimately show ?thesis by (auto simp: fbyte_def ptr' s overlay_def Let_def)
  qed
  moreover have "ptr f' p (dq (pos div BLK_SIZE)) \<noteq> 0"
    if "i * BLK_SIZE + off \<le> pos" "pos < i * BLK_SIZE + off + length src" for pos
  proof -
    have "i * BLK_SIZE \<le> pos" "pos < Suc i * BLK_SIZE" using that len by simp_all
    then have "pos div BLK_SIZE = i" by (metis div_nat_eqI mult.commute)
    then show ?thesis using nz ptr' by simp
  qed
  ultimately show "stored f f' p (i * BLK_SIZE + off) src"
    using wf' by (simp add: stored_def ptr' s)
qed

lemma write_data_ok:
  assumes wf: "fwf f p" and i: "i < FILE_BLKS" and nz: "ptr f p (dq i) \<noteq> 0"
    and len: "off + length src \<le> BLK_SIZE"
  obtains f' where "fs_bwrite f src (ptr f p (dq i)) off = Some f'"
    and "stored f f' p (i * BLK_SIZE + off) src" and "nfree f' = nfree f"
proof -
  have "on_disk (ptr f p (dq i))"
    using fwf_ptr(2) [OF wf dq_bounds(1) [OF i] nz] by (simp add: on_disk_def)
  then obtain f' where f': "fs_bwrite f src (ptr f p (dq i)) off = Some f'"
    "wrote f f' (ptr f p (dq i)) (overlay (fc f (ptr f p (dq i))) off src)"
    using fs_bwrite_ok [of f _ off src] fs_ok_simps(1) [OF fwf_fs_ok [OF wf]] len by metis
  then show ?thesis
    using that data_stored [OF wf i nz len f'(2)] by (simp add: nfree_def)
qed


subsection \<open>The two loops\<close>

text \<open>The piece a loop handles in one round: up to the end of the block or of the request.\<close>

lemma piece:
  assumes "blkoff < BLK_SIZE" and "0 < len"
  shows "0 < min (BLK_SIZE - blkoff) len" "min (BLK_SIZE - blkoff) len \<le> len"
    and "blkoff + min (BLK_SIZE - blkoff) len \<le> BLK_SIZE"
  using assms by (auto simp: min_def)

lemma piece_next:
  "blkoff < BLK_SIZE \<Longrightarrow> len - min (BLK_SIZE - blkoff) len \<noteq> 0 \<Longrightarrow>
   (no + 1) * BLK_SIZE + 0 = no * BLK_SIZE + blkoff + min (BLK_SIZE - blkoff) len"
  by (auto simp: min_def split: if_splits)

lemma fbyte_block:
  assumes "ptr f p (dq no) \<noteq> 0" and "blkoff + n \<le> BLK_SIZE"
  shows "map (fc f (ptr f p (dq no))) [blkoff..<blkoff + n] =
    map (fbyte f p) [no * BLK_SIZE + blkoff..<no * BLK_SIZE + blkoff + n]"
proof (rule nth_equalityI)
  fix k assume "k < length (map (fc f (ptr f p (dq no))) [blkoff..<blkoff + n])"
  then have "blkoff + k < BLK_SIZE" "k < n" using assms(2) by simp_all
  then show "map (fc f (ptr f p (dq no))) [blkoff..<blkoff + n] ! k =
      map (fbyte f p) [no * BLK_SIZE + blkoff..<no * BLK_SIZE + blkoff + n] ! k"
    using assms(1) by (simp add: fbyte_def add.assoc)
qed simp

definition mapped :: "fs \<Rightarrow> nat \<Rightarrow> nat \<Rightarrow> nat \<Rightarrow> bool" where
  "mapped f p lo hi \<longleftrightarrow> (\<forall>pos. lo \<le> pos \<and> pos < hi \<longrightarrow> ptr f p (dq (pos div BLK_SIZE)) \<noteq> 0)"

lemma same_mapped: "same f f' \<Longrightarrow> mapped f' p lo hi = mapped f p lo hi"
  by (simp add: mapped_def same_ptr)

lemma mapped_mono: "mapped f p lo hi \<Longrightarrow> lo \<le> lo' \<Longrightarrow> hi' \<le> hi \<Longrightarrow> mapped f p lo' hi'"
  by (simp add: mapped_def)

lemma upt_split: "i \<le> j \<Longrightarrow> j \<le> k \<Longrightarrow> [i..<j] @ [j..<k] = [i..<(k::nat)]"
  by (metis le_Suc_ex upt_add_eq_append)

lemma iread_loop_ok:
  assumes "fwf f p" and "blkoff < BLK_SIZE" and "no * BLK_SIZE + blkoff + len \<le> FILE_MAX"
    and "mapped f p (no * BLK_SIZE + blkoff) (no * BLK_SIZE + blkoff + len)"
  shows "\<exists>f'. iread_loop f p no blkoff len buf =
    Some (buf @ map (fbyte f p) [no * BLK_SIZE + blkoff..<no * BLK_SIZE + blkoff + len], f') \<and>
    same f f'"
  using assms
proof (induction len arbitrary: f no blkoff buf rule: less_induct)
  case (less len)
  note wf = less.prems(1)
  show ?case
  proof (cases "len = 0")
    case True
    then show ?thesis
      using same_refl [OF fs_ok_simps(1) [OF fwf_fs_ok [OF wf]]]
      by (subst iread_loop.simps) simp
  next
    case False
    define base where "base = no * BLK_SIZE + blkoff"
    define n where "n = min (BLK_SIZE - blkoff) len"
    note pc = piece [OF less.prems(2), of len, folded n_def]
    have no: "no < FILE_BLKS" using less.prems(2,3) False by simp
    have "base div BLK_SIZE = no" using less.prems(2) by (simp add: base_def)
    then have nz: "ptr f p (dq no) \<noteq> 0"
      using less.prems(4) False unfolding mapped_def base_def [symmetric] by auto
    obtain f1 where f1: "iwalk f p no = Some (ptr f p (dq no), f1)" "same f f1"
      using iwalk_present [OF wf no nz] .
    have wf1: "fwf f1 p" using f1(2) wf by (rule same_fwf)
    have "on_disk (ptr f p (dq no))"
      using fwf_ptr(2) [OF wf dq_bounds(1) [OF no] nz] by (simp add: on_disk_def)
    then obtain f2 where f2: "fs_bread f1 n (ptr f p (dq no)) blkoff =
        Some (map (fbyte f p) [base..<base + n], f2)" "same f1 f2"
      using fs_bread_ok [of f1 "ptr f p (dq no)" blkoff n] pc(3) False fs_ok_simps(1) [OF fwf_fs_ok [OF wf1]]
        fbyte_block [OF nz, of blkoff n] same_simps(3) [OF f1(2)] by (auto simp: base_def)
    note sm = same_trans [OF f1(2) f2(2)]
    have wf2: "fwf f2 p" using sm wf by (rule same_fwf)
    let ?buf = "buf @ map (fbyte f p) [base..<base + n]"
    have unroll: "iread_loop f p no blkoff len buf = iread_loop f2 p (no + 1) 0 (len - n) ?buf"
      using False by (subst iread_loop.simps) (simp add: f1(1) f2(1) n_def [symmetric] Let_def)
    show ?thesis
    proof (cases "len - n = 0")
      case True
      then have "len = n" using pc(2) False by simp
      then show ?thesis
        using unroll sm by (subst (asm) iread_loop.simps) (simp add: base_def [symmetric])
    next
      case more: False
      then have nb: "(no + 1) * BLK_SIZE + 0 = base + n"
        using piece_next [OF less.prems(2)] by (simp only: base_def n_def)
      have sum: "base + n + (len - n) = base + len" using pc(2) False by simp
      have "mapped f2 p (base + n) (base + len)"
        using less.prems(4) same_mapped [OF sm] mapped_mono by (simp add: base_def mapped_def)
      then have "\<exists>f'. iread_loop f2 p (no + 1) 0 (len - n) ?buf =
          Some (?buf @ map (fbyte f2 p) [base + n..<base + len], f') \<and> same f2 f'"
        using less.IH [of "len - n" f2 0 "no + 1" ?buf] pc(1) False wf2 less.prems(3)
        unfolding nb sum by (simp add: base_def [symmetric])
      then show ?thesis
        using unroll same_trans [OF sm] same_fbyte [OF sm] pc(2) False
          upt_split [of base "base + n" "base + len"]
        by (auto simp: base_def [symmetric] map_append [symmetric] simp del: map_append)
    qed
  qed
qed

text \<open>The blocks a write touches; each of them may need two fresh blocks.\<close>

definition blocks :: "nat \<Rightarrow> nat \<Rightarrow> nat" where
  "blocks blkoff len = (blkoff + len + (BLK_SIZE - 1)) div BLK_SIZE"

lemma blocks_pos: "0 < len \<Longrightarrow> 1 \<le> blocks blkoff len"
  by (simp add: blocks_def)

lemma blocks_next:
  assumes "blkoff < BLK_SIZE" and "len - min (BLK_SIZE - blkoff) len \<noteq> 0"
  shows "blocks 0 (len - min (BLK_SIZE - blkoff) len) + 1 = blocks blkoff len"
proof -
  have "min (BLK_SIZE - blkoff) len = BLK_SIZE - blkoff"
    using assms(2) by (auto simp: min_def split: if_splits)
  moreover have "blkoff + len + 4095 = (len - (4096 - blkoff) + 4095) + 4096"
    using assms calculation by simp
  ultimately show ?thesis by (simp add: blocks_def)
qed

lemma iwrite_loop_ok:
  assumes "fwf f p" and "blkoff < BLK_SIZE" and "no * BLK_SIZE + blkoff + length src \<le> FILE_MAX"
    and "2 * blocks blkoff (length src) \<le> nfree f"
  shows "\<exists>f'. iwrite_loop f p no blkoff src t = Some (t + int (length src), f') \<and>
    stored f f' p (no * BLK_SIZE + blkoff) src"
  using assms
proof (induction "length src" arbitrary: f no blkoff src t rule: less_induct)
  case less
  note wf = less.prems(1)
  show ?case
  proof (cases "length src = 0")
    case True
    then show ?thesis
      using extends_stored [OF fwf_refl_extends [OF wf]]
      by (subst iwrite_loop.simps) simp
  next
    case False
    define base where "base = no * BLK_SIZE + blkoff"
    define n where "n = min (BLK_SIZE - blkoff) (length src)"
    note pc = piece [OF less.prems(2), of "length src", folded n_def]
    have "0 < length src" using False by simp
    then have no: "no < FILE_BLKS" using less.prems(2,3) by linarith
    have "1 \<le> blocks blkoff (length src)" using False by (intro blocks_pos) simp
    then have "2 \<le> nfree f" using less.prems(4) by linarith
    then obtain f1 where f1: "iwalk f p no = Some (ptr f1 p (dq no), f1)" "extends f f1 p"
      "ptr f1 p (dq no) \<noteq> 0" "nfree f \<le> nfree f1 + 2"
      using iwalk_ok [OF wf no] by metis
    have wf1: "fwf f1 p" using f1(2) by (simp add: extends_def)
    obtain f2 where f2: "fs_bwrite f1 (take n src) (ptr f1 p (dq no)) blkoff = Some f2"
      "stored f1 f2 p base (take n src)" "nfree f2 = nfree f1"
      using write_data_ok [OF wf1 no f1(3), of blkoff "take n src"] pc False
      by (auto simp: base_def min_absorb2)
    have wf2: "fwf f2 p" using f2(2) by (simp add: stored_def)
    have len: "length (take n src) = n" using pc(2) False by simp
    have st: "stored f f2 p base (take n src)"
      using stored_trans [OF extends_stored [OF f1(2), of base], of f2 "take n src"] f2(2) less.prems(3) len pc(2) False
      by (simp add: base_def)
    have unroll: "iwrite_loop f p no blkoff src t =
        iwrite_loop f2 p (no + 1) 0 (drop n src) (t + int n)"
      using False by (subst iwrite_loop.simps) (simp add: f1(1) f2(1) n_def [symmetric] Let_def)
    show ?thesis
    proof (cases "length src - n = 0")
      case True
      then have "n = length src" using pc(2) False by simp
      then show ?thesis
        using unroll st by (subst (asm) iwrite_loop.simps) (simp add: base_def [symmetric])
    next
      case more: False
      then have nb: "(no + 1) * BLK_SIZE + 0 = base + n"
        using piece_next [OF less.prems(2)] by (simp only: base_def n_def)
      have "blocks 0 (length src - n) + 1 = blocks blkoff (length src)"
        using blocks_next [OF less.prems(2)] more by (simp only: n_def)
      then have room: "2 * blocks 0 (length (drop n src)) \<le> nfree f2"
        using less.prems(4) f1(4) f2(3) by simp
      have "\<exists>f'. iwrite_loop f2 p (no + 1) 0 (drop n src) (t + int n) =
          Some (t + int n + int (length (drop n src)), f') \<and> stored f2 f' p (base + n) (drop n src)"
        using less.hyps [of "drop n src" f2 0 "no + 1" "t + int n"] pc(1,2) False wf2 less.prems(3) room
        unfolding nb by (simp add: base_def [symmetric])
      then obtain f' where f': "iwrite_loop f2 p (no + 1) 0 (drop n src) (t + int n) =
          Some (t + int n + int (length (drop n src)), f')" "stored f2 f' p (base + n) (drop n src)"
        by blast
      have "stored f f' p base (take n src @ drop n src)"
        using stored_trans [OF st, of f' "drop n src"] f'(2) len less.prems(3) pc(2) False
        by (simp add: base_def)
      moreover have "int n + int (length (drop n src)) = int (length src)"
        using pc(2) False by simp
      ultimately show ?thesis
        using unroll f'(1) by (simp add: base_def [symmetric] add.assoc del: length_drop)
    qed
  qed
qed

subsection \<open>Reading and writing a file\<close>

text \<open>Every position below the size lies in an allocated block: the files have no holes.\<close>

definition dense :: "fs \<Rightarrow> nat \<Rightarrow> bool" where
  "dense f p \<longleftrightarrow> unat (isize f p) \<le> FILE_MAX \<and> mapped f p 0 (unat (isize f p))"

definition contents :: "fs \<Rightarrow> nat \<Rightarrow> bytes" where
  "contents f p = map (fbyte f p) [0..<unat (isize f p)]"

lemma length_contents [simp]: "length (contents f p) = unat (isize f p)"
  by (simp add: contents_def)

lemma contents_seg: "a + n \<le> unat (isize f p) \<Longrightarrow> map (fbyte f p) [a..<a + n] = take n (drop a (contents f p))"
  by (simp add: contents_def drop_map take_map)

text \<open>A read that starts inside the file returns what is there, up to the end of the file.\<close>

lemma iread_segment:
  assumes wf: "fwf f p" and d: "dense f p" and off: "off \<le> isize f p"
    and no_wrap: "unat off + unat len < 2 ^ 32"
  shows "\<exists>f'. iread f p off len =
    Some (int (min (unat len) (unat (isize f p) - unat off)),
          take (unat len) (drop (unat off) (contents f p)), f') \<and> same f f'"
proof -
  let ?n = "min (unat len) (unat (isize f p) - unat off)"
  let ?len = "if off + len > isize f p then isize f p - off else len"
  have off': "unat off \<le> unat (isize f p)" using off by (simp add: word_le_nat_alt)
  have sum: "unat (off + len) = unat off + unat len" using no_wrap by (simp add: unat_word_ariths)
  have n: "unat ?len = ?n"
    using off' sum by (auto simp: word_less_nat_alt unat_sub_if' min_def word_le_nat_alt)
  have "unat (isize f p) \<le> FILE_MAX" "mapped f p 0 (unat (isize f p))"
    using d by (simp_all add: dense_def)
  moreover have pos: "unat off div BLK_SIZE * BLK_SIZE + unat off mod BLK_SIZE = unat off" by simp
  moreover have "unat off + ?n \<le> unat (isize f p)" using off' by simp
  ultimately obtain f' where f': "iread_loop f p (unat off div BLK_SIZE) (unat off mod BLK_SIZE) ?n [] =
      Some (map (fbyte f p) [unat off..<unat off + ?n], f')" "same f f'"
    using iread_loop_ok [OF wf, of "unat off mod BLK_SIZE" "unat off div BLK_SIZE" ?n "[]"]
      mapped_mono [of f p 0 "unat (isize f p)" "unat off" "unat off + ?n"]
    unfolding pos by auto
  have "map (fbyte f p) [unat off..<unat off + ?n] = take ?n (drop (unat off) (contents f p))"
    using off' by (intro contents_seg) simp
  also have "\<dots> = take (unat len) (drop (unat off) (contents f p))"
    by (simp add: min_def)
  finally show ?thesis
    using f' off n by (simp add: iread_def isize_def [symmetric] not_less [symmetric] Let_def)
qed

text \<open>\<open>slot_set f f' p\<close>: the inode's own slot on the disk, and nothing else, was written, and the
  block addresses in it are the old ones.\<close>

definition slot_set :: "fs \<Rightarrow> fs \<Rightarrow> nat \<Rightarrow> bool" where
  "slot_set f f' p \<longleftrightarrow>
     sb f' = sb f \<and> bdev_ok (dev f') \<and> (\<forall>p'. p' \<noteq> p \<longrightarrow> inodes f' p' = inodes f p') \<and>
     i_no (inodes f' p) = i_no (inodes f p) \<and> di_addrs (di_of f' p) = di_addrs (di_of f p) \<and>
     disk_dinode f' (i_no (inodes f p)) = di_of f' p \<and>
     (\<forall>b k. \<not> (b = iblk f p \<and> in_slot (i_no (inodes f p)) k) \<longrightarrow> fc f' b k = fc f b k)"

lemma in_slot_disjoint:
  assumes "I2BLKNO f no = I2BLKNO f no'" and "no \<noteq> no'" and "in_slot no' k"
  shows "\<not> in_slot no k"
proof
  assume "in_slot no k"
  then have "unat (no mod 64) = unat (no' mod 64)"
    using assms(3) by (auto simp: in_slot_def I2BLKOFF_def)
  then have "no mod 64 = no' mod 64" by (simp only: word_unat_eq_iff)
  moreover have "no div 64 = no' div 64" using assms(1) by (simp add: I2BLKNO_def)
  ultimately show False using assms(2) by (metis word_mod_div_equality)
qed

lemma slot_set_used:
  assumes s: "slot_set f f' p" and wf: "fwf f p"
  shows "used f' = used f" and "fs_ok f'"
proof -
  have "iblk f p \<noteq> 33" using wf by (rule iblk_not_bitmap)
  then have "fc f' 33 k = fc f 33 k" for k using s by (auto simp: slot_set_def)
  then show u: "used f' = used f"
    using s fwf_sb [OF wf] by (simp add: used_def fun_eq_iff slot_set_def)
  then show "fs_ok f'" using fwf_fs_ok [OF wf] s by (simp add: fs_ok_def slot_set_def)
qed

lemma slot_set_data:
  assumes s: "slot_set f f' p" and wf: "fwf f p" and b: "64 \<le> unat b"
  shows "fc f' b = fc f b"
proof -
  have "b \<noteq> iblk f p" using b iblk_range(3) [of f p] fwf_sb [OF wf] wf by (force simp: fwf_def)
  then show ?thesis using s by (auto simp: slot_set_def)
qed

lemma slot_set_ptr:
  assumes s: "slot_set f f' p" and wf: "fwf f p" "fwf f p'"
  shows "ptr f' p' = ptr f p'"
proof
  fix r
  have "di_addrs (di_of f' p') = di_addrs (di_of f p')" using s by (cases "p' = p") (auto simp: slot_set_def)
  moreover have "fc f' (di_addrs (di_of f p') ! 12) = fc f (di_addrs (di_of f p') ! 12)"
    if "di_addrs (di_of f p') ! 12 \<noteq> 0"
    using fwf_ptr(1) [OF wf(2), of 12] that by (intro slot_set_data [OF s wf(1)]) (simp add: ptr_def)
  ultimately show "ptr f' p' r = ptr f p' r" by (simp add: ptr_def Let_def)
qed

lemma slot_set_fbyte:
  assumes s: "slot_set f f' p" and wf: "fwf f p" "fwf f p'" and pos: "pos < FILE_MAX"
  shows "fbyte f' p' pos = fbyte f p' pos"
  using slot_set_data [OF s wf(1)] fwf_ptr(1) [OF wf(2) div_blk_bound [OF pos]]
  by (simp add: fbyte_def slot_set_ptr [OF s wf] Let_def)

lemma slot_set_fwf:
  assumes s: "slot_set f f' p" and wf: "fwf f p" "fwf f p'" and no: "p' = p \<or> ino f p' \<noteq> ino f p"
  shows "fwf f' p'"
proof -
  have "disk_dinode f' (i_no (inodes f' p')) = di_of f' p'"
  proof (cases "p' = p")
    case True
    then show ?thesis using s by (simp add: slot_set_def)
  next
    case False
    then have i: "inodes f' p' = inodes f p'" and sb: "sb f' = sb f" using s by (auto simp: slot_set_def)
    have "fc f' (iblk f p') k = fc f (iblk f p') k" if "in_slot (i_no (inodes f p')) k" for k
    proof -
      have "\<not> (iblk f p' = iblk f p \<and> in_slot (i_no (inodes f p)) k)"
        using in_slot_disjoint [of f "i_no (inodes f p)" "i_no (inodes f p')" k] no False that
        by (auto simp: iblk_def ino_def)
      then show ?thesis using s unfolding slot_set_def by blast
    qed
    then have "disk_dinode f' (i_no (inodes f p')) = disk_dinode f (i_no (inodes f p'))"
      unfolding disk_dinode_def by (intro arg_cong [where f = dinode_of] map_cong)
        (simp_all add: I2BLKNO_def sb iblk_def in_slot_def)
    then show ?thesis using wf(2) by (simp add: i fwf_def)
  qed
  moreover have "i_no (inodes f' p') = i_no (inodes f p')" "di_addrs (di_of f' p') = di_addrs (di_of f p')"
    using s by (cases "p' = p"; auto simp: slot_set_def)+
  ultimately show ?thesis
    using wf(2) slot_set_used [OF s wf(1)] slot_set_ptr [OF s wf] by (simp add: fwf_def)
qed

text \<open>\<open>iupdate\<close> after changing the size.\<close>

lemma resize_ok:
  assumes wf: "fwf f p"
  obtains f' where "iupdate (set_size f p s) p = Some f'" and "fwf f' p" and "kept f f' p"
    and "isize f' p = s" and "ptr f' p = ptr f p" and "\<forall>pos < FILE_MAX. fbyte f' p pos = fbyte f p pos"
    and "nfree f' = nfree f" and "sb f' = sb f"
proof -
  let ?g = "set_size f p s" and ?no = "i_no (inodes f p)"
  have ino: "unat ?no < 1920" and len: "length (di_addrs (di_of f p)) = 13"
    using wf by (simp_all add: fwf_def)
  have gs: "dev ?g = dev f" "sb ?g = sb f" "fc ?g = fc f" "i_no (inodes ?g p) = ?no"
    "di_addrs (di_of ?g p) = di_addrs (di_of f p)" "di_size (di_of ?g p) = s"
    by (simp_all add: set_size_def)
  have ib: "I2BLKNO ?g ?no = iblk f p" by (simp add: iblk_def I2BLKNO_def gs)
  obtain f' where f': "iupdate ?g p = Some f'"
    "wrote ?g f' (iblk f p) (overlay (fc ?g (iblk f p)) (I2BLKOFF ?no) (dinode_bytes (di_of ?g p)))"
    "disk_dinode f' ?no = di_of ?g p"
    using diwrite_ok [of ?g ?no "di_of ?g p"] fs_ok_simps [OF fwf_fs_ok [OF wf]] len ino
    by (auto simp: iupdate_def gs ib)
  note s' = wrote_simps [OF f'(2)]
  have ss: "slot_set f f' p"
    using f'(3) len by (auto simp: slot_set_def s' set_size_def overlay_def in_slot_def length_dinode_bytes)
  note u = slot_set_used [OF ss wf] and ptr' = slot_set_ptr [OF ss wf wf]
  have "meta_same f f' p" by (simp add: meta_same_def s' set_size_def)
  then have "kept f f' p"
    using ss by (auto simp: kept_def own_def ptr' u slot_set_def)
  moreover have "isize f' p = s" by (simp add: isize_def s' gs)
  moreover have "nfree f' = nfree f" by (simp add: nfree_def u)
  ultimately show ?thesis
    using that f'(1) slot_set_fwf [OF ss wf wf] ptr' slot_set_fbyte [OF ss wf wf] s' gs by auto
qed

lemma contents_eqI:
  assumes "unat (isize f p) = length bs" and "\<And>pos. pos < length bs \<Longrightarrow> fbyte f p pos = bs ! pos"
  shows "contents f p = bs"
  using assms by (intro nth_equalityI) (simp_all add: contents_def)

lemma length_patch_gen:
  "off \<le> length xs \<Longrightarrow> length (patch xs off ys) = max (length xs) (off + length ys)"
  by (auto simp: patch_def)

lemma nth_patch_gen:
  "off \<le> length xs \<Longrightarrow> k < max (length xs) (off + length ys) \<Longrightarrow>
   patch xs off ys ! k = (if off \<le> k \<and> k < off + length ys then ys ! (k - off) else xs ! k)"
  by (auto simp: patch_def nth_append min_def)

text \<open>A write that starts inside the file, or at its end, replaces that segment.\<close>

lemma iwrite_segment:
  assumes wf: "fwf f p" and d: "dense f p" and off: "off \<le> isize f p"
    and fits: "unat off + length buf \<le> FILE_MAX"
    and room: "2 * blocks (unat off mod BLK_SIZE) (length buf) \<le> nfree f"
  shows "\<exists>f'. iwrite f p off buf = Some (int (length buf), f') \<and>
    fwf f' p \<and> dense f' p \<and> kept f f' p \<and>
    contents f' p = patch (contents f p) (unat off) buf"
proof -
  let ?len = "of_nat (length buf) :: u32" and ?o = "unat off"
  let ?stop = "max (unat (isize f p)) (?o + length buf)"
  have off': "?o \<le> unat (isize f p)" using off by (simp add: word_le_nat_alt)
  have "unat ?len = length buf" using fits by (intro unat_of_nat32) simp
  then have sum: "unat (off + ?len) = ?o + length buf"
    using fits by (simp add: unat_word_ariths)
  have sz: "unat (isize f p) \<le> FILE_MAX" "mapped f p 0 (unat (isize f p))"
    using d by (simp_all add: dense_def)
  obtain f1 where f1: "(if off + ?len > isize f p then iupdate (set_size f p (off + ?len)) p
      else Some f) = Some f1" and wf1: "fwf f1 p" and k1: "kept f f1 p" and sb1: "sb f1 = sb f"
    and is1: "unat (isize f1 p) = ?stop"
    and p1: "ptr f1 p = ptr f p" and b1: "\<forall>pos < FILE_MAX. fbyte f1 p pos = fbyte f p pos"
    and n1: "nfree f1 = nfree f"
  proof (cases "off + ?len > isize f p")
    case True
    obtain g where g: "iupdate (set_size f p (off + ?len)) p = Some g" "fwf g p" "kept f g p"
      "isize g p = off + ?len" "ptr g p = ptr f p" "\<forall>pos < FILE_MAX. fbyte g p pos = fbyte f p pos"
      "nfree g = nfree f" "sb g = sb f"
      by (rule resize_ok [OF wf])
    have "unat (isize g p) = ?stop"
      using True sum by (simp add: g(4) word_less_nat_alt)
    then show ?thesis using that [of g] g True by simp
  next
    case False
    then have "unat (isize f p) = ?stop" using sum by (simp add: word_less_nat_alt)
    moreover have "kept f f p"
      using same_kept [OF same_refl [OF fs_ok_simps(1) [OF fwf_fs_ok [OF wf]]]] .
    ultimately show ?thesis using that [of f] wf False by simp
  qed
  have pos: "?o div BLK_SIZE * BLK_SIZE + ?o mod BLK_SIZE = ?o" by simp
  obtain f2 where f2: "iwrite_loop f1 p (?o div BLK_SIZE) (?o mod BLK_SIZE) buf 0 =
      Some (int (length buf), f2)" "stored f1 f2 p ?o buf"
    using iwrite_loop_ok [OF wf1, of "?o mod BLK_SIZE" "?o div BLK_SIZE" buf 0] fits room
    unfolding pos n1 by auto
  have st: "fwf f2 p" "kept f1 f2 p" "isize f2 p = isize f1 p"
    "\<forall>q < NPTR. ptr f1 p q \<noteq> 0 \<longrightarrow> ptr f2 p q = ptr f1 p q"
    "\<forall>pos < FILE_MAX. fbyte f2 p pos = overlay (fbyte f1 p) ?o buf pos"
    "\<forall>pos. ?o \<le> pos \<and> pos < ?o + length buf \<longrightarrow> ptr f2 p (dq (pos div BLK_SIZE)) \<noteq> 0"
    using f2(2) by (simp_all add: stored_def isize_def)
  have endb: "?stop \<le> FILE_MAX" using fits sz(1) by simp
  have "ptr f2 p (dq (pos div BLK_SIZE)) \<noteq> 0" if "pos < ?stop" for pos
  proof (cases "pos < unat (isize f p)")
    case True
    then have "dq (pos div BLK_SIZE) < NPTR" "ptr f p (dq (pos div BLK_SIZE)) \<noteq> 0"
      using sz by (auto intro: div_blk_bound simp: mapped_def)
    then show ?thesis using st(4) p1 by simp
  next
    case False
    then show ?thesis using st(6) off' that by simp
  qed
  then have "dense f2 p"
    using endb by (simp add: dense_def mapped_def st(3) is1)
  moreover have "contents f2 p = patch (contents f p) ?o buf"
  proof (rule contents_eqI)
    show "unat (isize f2 p) = length (patch (contents f p) ?o buf)"
      using off' by (simp add: length_patch_gen st(3) is1)
    fix k assume "k < length (patch (contents f p) ?o buf)"
    then have "k < ?stop" using off' by (simp add: length_patch_gen)
    then show "fbyte f2 p k = patch (contents f p) ?o buf ! k"
      using off' endb st(5) b1 by (auto simp: nth_patch_gen overlay_def contents_def)
  qed
  moreover have "kept f f2 p" using kept_trans [OF k1 st(2) sb1] .
  moreover have "iwrite f p off buf = Some (int (length buf), f2)"
    using off f1 f2(1) by (simp add: iwrite_def isize_def [symmetric] Let_def not_less [symmetric])
  ultimately show ?thesis using st(1) by blast
qed

text \<open>The other files: their blocks and their inode's slot are not among what changed.\<close>

lemma kept_other:
  assumes k: "kept f f' p" and ok': "fs_ok f'" and wf: "fwf f p" and wf': "fwf f p'" and ne: "p' \<noteq> p"
    and no: "i_no (inodes f p') \<noteq> i_no (inodes f p)" and dj: "own f p \<inter> own f p' = {}"
  shows "fwf f' p'" and "dense f p' \<Longrightarrow> contents f' p' = contents f p'" and "own f' p \<inter> own f' p' = {}"
    and "\<forall>r < NPTR. ptr f' p' r = ptr f p' r"
proof -
  have ok: "fs_ok f" using wf by (rule fwf_fs_ok)
  have same_ino: "inodes f' p' = inodes f p'" using k ne by (simp add: kept_def meta_same_def)
  have ino: "unat (i_no (inodes f p')) < 1920" using wf' by (simp add: fwf_def)
  have keep: "fc f' b = fc f b" if "b \<in> own f p'" for b
  proof
    fix l
    obtain r where r: "r < NPTR" "b = ptr f p' r" "b \<noteq> 0" using \<open>b \<in> own f p'\<close> by (auto simp: own_def)
    then have "64 \<le> unat b" "unat b < BLK_NUM" "used f (unat b)"
      using fwf_ptr [OF wf' r(1)] by simp_all
    moreover have "b \<noteq> 33" "b \<noteq> iblk f p"
      using \<open>64 \<le> unat b\<close> iblk_range(3) [OF fs_ok_simps(2) [OF ok], of p] wf
      by (force simp: fwf_def)+
    moreover have "b \<notin> own f p" using dj that by auto
    ultimately show "fc f' b l = fc f b l"
      using k unfolding kept_def by blast
  qed
  have own_ptr: "ptr f p' r \<in> own f p'" if "r < NPTR" "ptr f p' r \<noteq> 0" for r
    using that by (simp add: own_def)
  have ptr': "ptr f' p' r = ptr f p' r" if "r < NPTR" for r
    using keep [OF own_ptr, of 12] that by (simp add: ptr_def [of f'] ptr_def [of f p'] Let_def same_ino ptr_12)
  have ib: "iblk f p' \<noteq> 33" "64 > unat (iblk f p')"
    using iblk_not_bitmap [OF wf'] iblk_range(3) [OF fs_ok_simps(2) [OF ok] ino] by simp_all
  have slot: "fc f' (iblk f p') l = fc f (iblk f p') l" if "in_slot (i_no (inodes f p')) l" for l
  proof -
    have "iblk f p' \<notin> own f p"
      using ib(2) fwf_ptr(1) [OF wf] by (force simp: own_def)
    moreover have "\<not> (iblk f p' = iblk f p \<and> in_slot (i_no (inodes f p)) l)"
      using in_slot_disjoint [of f "i_no (inodes f p)" "i_no (inodes f p')"] no that
      by (auto simp: iblk_def)
    moreover have "used f (unat (iblk f p'))" using ok ib(2) by (simp add: fs_ok_def)
    moreover have "unat (iblk f p') < BLK_NUM" using ib(2) by simp
    ultimately show ?thesis using k ib(1) unfolding kept_def by blast
  qed
  have "I2BLKNO f' (i_no (inodes f p')) = iblk f p'"
    using fs_ok_simps(2) [OF ok] fs_ok_simps(2) [OF ok'] by (simp add: iblk_def I2BLKNO_def)
  moreover have "map (fc f' (iblk f p')) [I2BLKOFF (i_no (inodes f p'))..<I2BLKOFF (i_no (inodes f p')) + DINODE_SIZE] =
      map (fc f (iblk f p')) [I2BLKOFF (i_no (inodes f p'))..<I2BLKOFF (i_no (inodes f p')) + DINODE_SIZE]"
    using slot by (intro map_cong refl) (simp add: in_slot_def)
  ultimately have "disk_dinode f' (i_no (inodes f p')) = disk_dinode f (i_no (inodes f p'))"
    by (simp only: disk_dinode_def iblk_def)
  moreover have "\<forall>k < BLK_NUM. used f k \<longrightarrow> used f' k" using k by (simp add: kept_def)
  moreover have "{q. q < NPTR \<and> ptr f' p' q \<noteq> 0} = {q. q < NPTR \<and> ptr f p' q \<noteq> 0}"
    using ptr' by auto
  ultimately show "fwf f' p'"
    using wf' ok' ptr' unfolding fwf_def by (auto simp: same_ino inj_on_def)
  show "contents f' p' = contents f p'" if "dense f p'"
  proof -
    have "fbyte f' p' pos = fbyte f p' pos" if "pos < FILE_MAX" for pos
      using keep [OF own_ptr] ptr' div_blk_bound [OF that] by (simp add: fbyte_def Let_def)
    then show ?thesis
      using that by (simp add: contents_def isize_def same_ino dense_def)
  qed
  have "own f' p' = own f p'" using ptr' by (auto simp: own_def)
  moreover have "own f' p \<subseteq> own f p \<union> {b. unat b < BLK_NUM \<and> \<not> used f (unat b)}"
    using k by (simp add: kept_def)
  moreover have "used f (unat b)" if "b \<in> own f p'" for b
    using fwf_ptr(3) [OF wf'] that by (auto simp: own_def)
  ultimately show "own f' p \<inter> own f' p' = {}"
    using dj by blast
  show "\<forall>r < NPTR. ptr f' p' r = ptr f p' r" using ptr' by blast
qed

end
