(* ===== verification/FsProps.thy ===== *)
theory FsProps
  imports FsRw
begin

text \<open>
  The properties of file reading and writing (\<open>iread\<close>, \<open>iwrite\<close> of \<open>kernel/src/fs.c\<close>), each
  with a witness on a small disk image: inode 2 is the file \<open>hello\<close> in block 64, inode 3 an
  empty file, inode 4 a directory in block 65 with one entry, named \<open>a\<close>, for inode 2; everything
  else is free.
\<close>

subsection \<open>A small disk\<close>

definition hello_di :: dinode where
  "hello_di = \<lparr>di_type = 1, di_device = 0, di_size = 5, di_addrs = 64 # replicate 12 0\<rparr>"

definition dir_di :: dinode where
  "dir_di = \<lparr>di_type = 2, di_device = 0, di_size = 32, di_addrs = 65 # replicate 12 0\<rparr>"

definition demo_img :: disk where
  "demo_img = overlay (overlay (overlay (overlay (overlay (overlay (\<lambda>_. 0)
     (4096 * 33) (replicate 8 255 @ [3]))
     (4096 * 34 + 128) (dinode_bytes hello_di))
     (4096 * 34 + 192) [1])
     (4096 * 34 + 256) (dinode_bytes dir_di))
     (4096 * 64) [104, 101, 108, 108, 111])
     (4096 * 65) [2, 0, 0, 0, 97]"

definition demo_fs :: fs where
  "demo_fs = \<lparr>dev = \<lparr>dsk = demo_img, blk_cache = (\<lambda>_. \<lparr>bc_valid = False, bc_no = 0, bc_buf = (\<lambda>_. 0)\<rparr>)\<rparr>,
     sb = mkfs_sb,
     inodes = (\<lambda>p. if p = 0 then \<lparr>i_no = 2, i_ref = 1, i_del = False, i_di = hello_di\<rparr>
       else if p = 2 then \<lparr>i_no = 4, i_ref = 1, i_del = False, i_di = dir_di\<rparr>
       else \<lparr>i_no = 3, i_ref = (if p = 1 then 1 else 0), i_del = False, i_di = zero_dinode 1\<rparr>)\<rparr>"

lemma demo_sel:
  "dsk (dev demo_fs) = demo_img" "sb demo_fs = mkfs_sb"
  "inodes demo_fs 0 = \<lparr>i_no = 2, i_ref = 1, i_del = False, i_di = hello_di\<rparr>"
  "inodes demo_fs (Suc 0) = \<lparr>i_no = 3, i_ref = 1, i_del = False, i_di = zero_dinode 1\<rparr>"
  "inodes demo_fs 2 = \<lparr>i_no = 4, i_ref = 1, i_del = False, i_di = dir_di\<rparr>"
  by (simp_all add: demo_fs_def)

lemma demo_fc: "k < 4096 \<Longrightarrow> on_disk b \<Longrightarrow> fc demo_fs b k = demo_img (4096 * unat b + k)"
  by (simp add: fc_def bcontent_def demo_sel)

lemma demo_used: "k < 32768 \<Longrightarrow> used demo_fs k \<longleftrightarrow> k < 66"
proof -
  assume k: "k < 32768"
  have "used demo_fs k \<longleftrightarrow> bit (demo_img (4096 * 33 + k div 8)) (k mod 8)"
    using k by (simp add: used_def demo_fc demo_sel on_disk_def)
  moreover have "bit (255 :: u8) (k mod 8)"
  proof -
    have "(255 :: u8) = - 1" by simp
    then show ?thesis by (simp only: bit_minus_1_iff) simp
  qed
  moreover have "bit (3 :: u8) (k mod 8) \<longleftrightarrow> k mod 8 < 2"
  proof -
    have "(3 :: u8) = mask 2" by (simp add: mask_eq_exp_minus_1)
    then show ?thesis by (simp only: bit_mask_iff) auto
  qed
  moreover have "demo_img (4096 * 33 + k div 8) =
      (if k div 8 < 8 then 255 else if k div 8 = 8 then 3 else 0)"
  proof -
    have "k div 8 < 4096" using k by simp
    then show ?thesis
      by (auto simp: demo_img_def overlay_def length_dinode_bytes hello_di_def dir_di_def nth_append)
  qed
  moreover have "k div 8 = 8 \<Longrightarrow> k mod 8 < 2 \<longleftrightarrow> k < 66" "k div 8 < 8 \<longleftrightarrow> k < 64"
    using div_mult_mod_eq [of k 8] by auto
  ultimately show ?thesis by (auto split: if_splits)
qed

lemma demo_fs_ok: "fs_ok demo_fs"
  by (simp add: fs_ok_def demo_used demo_sel) (simp add: demo_fs_def bdev_ok_def)

lemma demo_nfree: "100 \<le> nfree demo_fs"
proof -
  have "card {100..<200::nat} \<le> card {k. k < BLK_NUM \<and> \<not> used demo_fs k}"
    by (rule card_mono) (auto simp: demo_used)
  then show ?thesis by (simp add: nfree_def)
qed

lemma map_upt_eqI:
  "length xs = n \<Longrightarrow> (\<And>k. k < n \<Longrightarrow> g (a + k) = xs ! k) \<Longrightarrow> map g [a..<a + n] = xs"
  by (intro nth_equalityI) (simp_all del: upt_rec_numeral)

lemma demo_len: "length (dinode_bytes hello_di) = 64" "length (dinode_bytes dir_di) = 64"
  by (simp_all add: length_dinode_bytes hello_di_def dir_di_def)

lemma demo_dinodes:
  "disk_dinode demo_fs 2 = hello_di" "disk_dinode demo_fs 3 = zero_dinode 1"
  "disk_dinode demo_fs 4 = dir_di"
proof -
  have z: "dinode_bytes (zero_dinode 1) = 1 # replicate 63 0" by code_simp
  have len: "length (dinode_bytes hello_di) = 64" "length (dinode_bytes dir_di) = 64"
    by (simp_all add: length_dinode_bytes hello_di_def dir_di_def)
  have "map (fc demo_fs 34) [128..<128 + 64] = dinode_bytes hello_di"
    by (rule map_upt_eqI) (auto simp: demo_fc on_disk_def demo_img_def overlay_def len)
  then show "disk_dinode demo_fs 2 = hello_di"
    by (simp add: disk_dinode_def I2BLKNO_def I2BLKOFF_def demo_sel dinode_roundtrip hello_di_def del: upt_rec_numeral)
  have Z: "map (fc demo_fs 34) [192..<192 + 64] = dinode_bytes (zero_dinode 1)"
    unfolding z by (rule map_upt_eqI)
      (auto simp: demo_fc on_disk_def demo_img_def overlay_def len nth_Cons')
  have "map (fc demo_fs 34) [256..<256 + 64] = dinode_bytes dir_di"
    by (rule map_upt_eqI) (auto simp: demo_fc on_disk_def demo_img_def overlay_def len)
  then show "disk_dinode demo_fs 4 = dir_di"
    by (simp add: disk_dinode_def I2BLKNO_def I2BLKOFF_def demo_sel dinode_roundtrip dir_di_def del: upt_rec_numeral)
  from Z show "disk_dinode demo_fs 3 = zero_dinode 1"
    by (simp add: disk_dinode_def I2BLKNO_def I2BLKOFF_def demo_sel dinode_roundtrip zero_dinode_def del: upt_rec_numeral)
qed

lemma demo_ptr:
  "q < NPTR \<Longrightarrow> ptr demo_fs 0 q = (if q = 0 then 64 else 0)" "q < NPTR \<Longrightarrow> ptr demo_fs (Suc 0) q = 0"
  "q < NPTR \<Longrightarrow> ptr demo_fs 2 q = (if q = 0 then 65 else 0)"
  by (auto simp: ptr_def demo_sel hello_di_def dir_di_def zero_dinode_def nth_Cons' Let_def)

lemma demo_fwf: "fwf demo_fs 0" "fwf demo_fs (Suc 0)" "fwf demo_fs 2"
  by (auto simp: fwf_def demo_fs_ok demo_sel demo_dinodes demo_ptr demo_used hello_di_def
      dir_di_def zero_dinode_def inj_on_def)

lemma demo_dense: "dense demo_fs 0" "dense demo_fs (Suc 0)" "dense demo_fs 2"
  by (simp_all add: dense_def mapped_def isize_def demo_sel demo_ptr dq_def hello_di_def dir_di_def
      zero_dinode_def)

lemma demo_contents: "contents demo_fs 0 = [104, 101, 108, 108, 111]" "contents demo_fs (Suc 0) = []"
  "contents demo_fs 2 = [2, 0, 0, 0, 97] @ replicate 27 0"
proof -
  show "contents demo_fs 2 = [2, 0, 0, 0, 97] @ replicate 27 0"
  proof (rule contents_eqI)
    fix pos assume "pos < length ([2, 0, 0, 0, 97] @ replicate 27 (0 :: u8))"
    then show "fbyte demo_fs 2 pos = ([2, 0, 0, 0, 97] @ replicate 27 0) ! pos"
      by (auto simp: fbyte_def dq_def demo_ptr demo_fc on_disk_def demo_img_def overlay_def nth_append nth_Cons' demo_len)
  qed (simp add: isize_def demo_sel dir_di_def)
  show "contents demo_fs 0 = [104, 101, 108, 108, 111]"
    by (simp add: contents_def isize_def demo_sel hello_di_def upt_rec [of _ "5"] fbyte_def dq_def demo_ptr
        demo_fc on_disk_def demo_img_def overlay_def)
  show "contents demo_fs (Suc 0) = []"
    by (simp add: contents_def isize_def demo_sel zero_dinode_def)
qed

subsection \<open>Reading and writing\<close>

text \<open>A read of a well-formed file that starts inside it returns exactly the bytes of the file
  from there on, at most \<open>len\<close> of them and at most up to the end of the file, with their number
  as the result, and it changes nothing but the block cache; in particular no assertion of
  \<open>iwalk\<close>, \<open>bread\<close> or \<open>balloc\<close> fails on the way.\<close>

lemma iread_returns_contents:
  assumes "fwf f p" and "dense f p" and "off \<le> isize f p" and "unat off + unat len < 2 ^ 32"
  shows "\<exists>f'. iread f p off len =
    Some (int (min (unat len) (unat (isize f p) - unat off)),
          take (unat len) (drop (unat off) (contents f p)), f') \<and> same f f'"
  using assms by (rule iread_segment)

text \<open>A write that starts inside a well-formed file or at its end, of a size the file may
  have and with enough free blocks, returns the number of bytes given; the file then holds
  the old bytes with that segment replaced (and is longer when the segment reaches over its
  end), and it is well-formed and has no holes again.\<close>

lemma iwrite_replaces_segment:
  assumes "fwf f p" and "dense f p" and "off \<le> isize f p"
    and "unat off + length buf \<le> FILE_MAX"
    and "2 * blocks (unat off mod BLK_SIZE) (length buf) \<le> nfree f"
  shows "\<exists>f'. iwrite f p off buf = Some (int (length buf), f') \<and>
    fwf f' p \<and> dense f' p \<and> contents f' p = patch (contents f p) (unat off) buf"
  using iwrite_segment [OF assms] by blast

text \<open>C8: What a write puts into a file is what a read at the same offset gets back.\<close>

theorem iread_after_iwrite:
  assumes "fwf f p" and "dense f p" and "off \<le> isize f p"
    and "unat off + length buf \<le> FILE_MAX"
    and "2 * blocks (unat off mod BLK_SIZE) (length buf) \<le> nfree f"
  shows "\<exists>f' f''. iwrite f p off buf = Some (int (length buf), f') \<and>
    iread f' p off (of_nat (length buf)) = Some (int (length buf), buf, f'') \<and> same f' f''"
proof -
  obtain f' where f': "iwrite f p off buf = Some (int (length buf), f')" "fwf f' p" "dense f' p"
    "contents f' p = patch (contents f p) (unat off) buf"
    using iwrite_segment [OF assms] by blast
  have off: "unat off \<le> unat (isize f p)" using assms(3) by (simp add: word_le_nat_alt)
  have "unat (isize f' p) = max (unat (isize f p)) (unat off + length buf)"
    using arg_cong [OF f'(4), of length] off by (simp add: length_patch_gen)
  moreover have "take (length buf) (drop (unat off) (contents f' p)) = buf"
    using off by (simp add: f'(4) patch_def)
  moreover have "unat (of_nat (length buf) :: u32) = length buf"
    using assms(4) by (intro unat_of_nat32) simp
  ultimately show ?thesis
    using iread_segment [OF f'(2,3), of off "of_nat (length buf)"] f'(1) assms(4)
    by (auto simp: word_le_nat_alt)
qed

theorem iread_after_iwrite_witness:
  "\<exists>f' f''. iwrite demo_fs 1 0 [1, 2, 3] = Some (3, f') \<and>
    iread f' 1 0 3 = Some (3, [1, 2, 3], f'') \<and> same f' f''"
  using iread_after_iwrite [OF demo_fwf(2) demo_dense(2), of 0 "[1, 2, 3]"] demo_nfree
  by (simp add: blocks_def)

text \<open>C11: A write to one file leaves every other open file as it was, byte for byte: a file of
  another inode whose blocks are not among those of the first keeps its contents, stays
  well-formed, and the two still share no block.\<close>

theorem iwrite_other_file:
  assumes "fwf f p" and "dense f p" and "off \<le> isize f p"
    and "unat off + length buf \<le> FILE_MAX"
    and "2 * blocks (unat off mod BLK_SIZE) (length buf) \<le> nfree f"
    and "fwf f p'" and "dense f p'" and "p' \<noteq> p" and "ino f p' \<noteq> ino f p" and "own f p \<inter> own f p' = {}"
  shows "\<exists>f'. iwrite f p off buf = Some (int (length buf), f') \<and> fwf f' p' \<and>
    contents f' p' = contents f p' \<and> own f' p \<inter> own f' p' = {}"
proof -
  obtain f' where f': "iwrite f p off buf = Some (int (length buf), f')" "fwf f' p" "kept f f' p"
    using iwrite_segment [OF assms(1-5)] by blast
  note other = kept_other [OF f'(3) fwf_fs_ok [OF f'(2)] assms(1,6,8) _ assms(10)]
  show ?thesis
    using f'(1) other assms(7,9) by (auto simp: ino_def)
qed

theorem iwrite_other_file_witness:
  "\<exists>f'. iwrite demo_fs 1 0 [1, 2, 3] = Some (3, f') \<and> fwf f' 0 \<and>
    contents f' 0 = [104, 101, 108, 108, 111] \<and> own f' 1 \<inter> own f' 0 = {}"
proof -
  have "own demo_fs (Suc 0) = {}" by (auto simp: own_def demo_ptr)
  then show ?thesis
    using iwrite_other_file [OF demo_fwf(2) demo_dense(2) _ _ _ demo_fwf(1) demo_dense(1), of 0 "[1, 2, 3]"]
      demo_nfree by (simp add: blocks_def ino_def demo_sel demo_contents)
qed

subsection \<open>The length check that wraps\<close>

lemma iread_loop_too_far:
  assumes "0 < len" and "blkoff < BLK_SIZE" and "FILE_MAX < no * BLK_SIZE + blkoff + len"
  shows "iread_loop f p no blkoff len buf = None"
  using assms
proof (induction len arbitrary: f no blkoff buf rule: less_induct)
  case (less len)
  define n where "n = min (BLK_SIZE - blkoff) len"
  note pc = piece [OF less.prems(2,1), folded n_def]
  have unroll: "iread_loop f p no blkoff len buf = do {
      (blkno, f) \<leftarrow> iwalk f p no;
      (bs, f) \<leftarrow> fs_bread f n blkno blkoff;
      iread_loop f p (no + 1) 0 (len - n) (buf @ bs) }"
    using less.prems(1) by (subst iread_loop.simps) (simp add: n_def [symmetric] Let_def)
  show ?case
  proof (cases "FILE_BLKS \<le> no")
    case True
    then show ?thesis using unroll iwalk_too_big by simp
  next
    case False
    have more: "len - n \<noteq> 0"
    proof
      assume "len - n = 0"
      then have "blkoff + len \<le> BLK_SIZE" using pc by simp
      then show False using False less.prems(3) by simp
    qed
    have next_base: "(no + 1) * BLK_SIZE + 0 = no * BLK_SIZE + blkoff + n"
      using piece_next [OF less.prems(2), of len no] more unfolding n_def by blast
    have "iread_loop f' p (no + 1) 0 (len - n) buf' = None" for f' buf'
      using less.IH [of "len - n" 0 "no + 1" f' buf'] pc(1,2) more less.prems(3)
      unfolding next_base by simp
    then show ?thesis unfolding unroll by (simp split: bind_splits)
  qed
qed

text \<open>C39: When \<open>off + len\<close> wraps around in 32 bits the check that would shorten the read does not
  fire: a read from inside a file (not at offset 0) of a length close to \<open>2^32\<close>, which \<open>fread\<close>
  passes on from a user's \<open>read\<close>, runs on past the end of the file until \<open>iwalk\<close> asserts. The
  call never returns: a user program can stop the kernel with it.\<close>

theorem iread_wrap_stops_kernel:
  assumes "off \<le> isize f p" and "2 ^ 32 \<le> unat off + unat len"
  shows "iread f p off len = None"
proof -
  have lt: "off + len < off"
    using assms(2) unsigned_less [of off, where 'a = nat] unsigned_less [of len, where 'a = nat]
    by (simp add: word_less_nat_alt unat_word_ariths le_mod_geq)
  then have "\<not> off + len > isize f p" using assms(1) by auto
  moreover have "0 < unat len"
    using assms(2) unsigned_less [of off, where 'a = nat] by (auto simp del: unsigned_less)
  moreover have "unat off div BLK_SIZE * BLK_SIZE + unat off mod BLK_SIZE = unat off" by simp
  then have "FILE_MAX < unat off div BLK_SIZE * BLK_SIZE + unat off mod BLK_SIZE + unat len"
    using assms(2) by simp
  ultimately show ?thesis
    using assms(1) by (simp add: iread_def isize_def [symmetric] not_less [symmetric] Let_def iread_loop_too_far)
qed

theorem iread_wrap_stops_kernel_witness: "iread demo_fs 0 1 0xffffffff = None"
proof -
  have "isize demo_fs 0 = 5" by (simp add: isize_def demo_sel hello_di_def)
  then show ?thesis by (intro iread_wrap_stops_kernel) (simp_all add: word_le_nat_alt)
qed

end
