(* ===== verification/CString.thy ===== *)
theory CString
  imports Prelude
begin

text \<open>
  The string library, \<open>lib/src/string/\<close>. A pointer that is only read from is the list of bytes
  from there to the end of its object, a destination is the list of the bytes that may be
  written. \<^term>\<open>None\<close> is an access beyond the object; a returned pointer is an offset from the
  argument, the inner \<open>None\<close> of such a result is \<open>NULL\<close>. \<open>cstr s xs\<close> says that the C string at
  \<open>s\<close> is \<open>xs\<close>.
\<close>

subsection \<open>Reading\<close>

fun strlen :: "bytes \<Rightarrow> nat option" where
  "strlen [] = None"
| "strlen (c # s) = (if c = 0 then Some 0 else map_option Suc (strlen s))"

fun strnlen :: "bytes \<Rightarrow> nat \<Rightarrow> nat option" where
  "strnlen s 0 = Some 0"
| "strnlen [] (Suc n) = None"
| "strnlen (c # s) (Suc n) = (if c = 0 then Some 0 else map_option Suc (strnlen s n))"

fun strchr :: "bytes \<Rightarrow> u8 \<Rightarrow> nat option option" where
  "strchr [] c = None"
| "strchr (x # s) c =
     (if x \<noteq> 0 \<and> x \<noteq> c then map_option (map_option Suc) (strchr s c)
      else Some (if x = c then Some 0 else None))"

text \<open>\<open>strrchr\<close> calls \<open>strchr\<close> again behind each hit.\<close>

function strrchr_from :: "bytes \<Rightarrow> u8 \<Rightarrow> nat \<Rightarrow> nat option \<Rightarrow> nat option option" where
  "strrchr_from s c pos prev =
     (case strchr s c of
        None \<Rightarrow> None
      | Some None \<Rightarrow> Some prev
      | Some (Some k) \<Rightarrow>
          if k < length s then strrchr_from (drop (Suc k) s) c (pos + k + 1) (Some (pos + k)) else None)"
  by pat_completeness auto
termination by (relation "measure (\<lambda>(s, _). length s)") auto

declare strrchr_from.simps [simp del]

definition strrchr :: "bytes \<Rightarrow> u8 \<Rightarrow> nat option option" where
  "strrchr s c = (if c \<noteq> 0 then strrchr_from s c 0 None else strchr s c)"

fun strcmp :: "bytes \<Rightarrow> bytes \<Rightarrow> int option" where
  "strcmp (a # s) (b # t) = (if a \<noteq> 0 \<and> a = b then strcmp s t else Some (uint a - uint b))"
| "strcmp _ _ = None"

fun strncmp :: "bytes \<Rightarrow> bytes \<Rightarrow> nat \<Rightarrow> int option" where
  "strncmp s t 0 = Some 0"
| "strncmp (a # s) (b # t) (Suc n) =
     (if a = b \<and> n \<noteq> 0 \<and> a \<noteq> 0 then strncmp s t n else Some (uint a - uint b))"
| "strncmp _ _ (Suc n) = None"

fun memcmp :: "bytes \<Rightarrow> bytes \<Rightarrow> nat \<Rightarrow> int option" where
  "memcmp s t 0 = Some 0"
| "memcmp (a # s) (b # t) (Suc n) = (if a \<noteq> b then Some (uint a - uint b) else memcmp s t n)"
| "memcmp _ _ (Suc n) = None"

fun memchr :: "bytes \<Rightarrow> u8 \<Rightarrow> nat \<Rightarrow> nat option option" where
  "memchr s c 0 = Some None"
| "memchr (x # s) c (Suc n) = (if x = c then Some (Some 0) else map_option (map_option Suc) (memchr s c n))"
| "memchr [] c (Suc n) = None"

fun memrchr :: "bytes \<Rightarrow> u8 \<Rightarrow> nat \<Rightarrow> nat option option" where
  "memrchr s c 0 = Some None"
| "memrchr s c (Suc n) =
     (if n < length s then if s ! n = c then Some (Some n) else memrchr s c n else None)"

text \<open>The inner loop \<open>for (c = s2; *c; c++) if (*s1 == *c) break;\<close>: the character \<open>c\<close> stops at.\<close>

fun scan_set :: "u8 \<Rightarrow> bytes \<Rightarrow> u8 option" where
  "scan_set x [] = None"
| "scan_set x (c # cs) = (if c = 0 \<or> x = c then Some c else scan_set x cs)"

fun strspn :: "bytes \<Rightarrow> bytes \<Rightarrow> nat option" where
  "strspn [] t = None"
| "strspn (x # s) t =
     (if x = 0 then Some 0
      else do { c \<leftarrow> scan_set x t; if c = 0 then Some 0 else map_option Suc (strspn s t) })"

fun strcspn :: "bytes \<Rightarrow> bytes \<Rightarrow> nat option" where
  "strcspn [] t = None"
| "strcspn (x # s) t =
     (if x = 0 then Some 0
      else do { c \<leftarrow> scan_set x t; if c \<noteq> 0 then Some 0 else map_option Suc (strcspn s t) })"

text \<open>\<open>c\<close> of \<open>strpbrk\<close> keeps the value the last inner loop left it with.\<close>

fun strpbrk_loop :: "bytes \<Rightarrow> bytes \<Rightarrow> u8 \<Rightarrow> nat option option" where
  "strpbrk_loop [] t c = None"
| "strpbrk_loop (x # s) t c =
     (if x = 0 then Some (if c = 0 then None else Some 0)
      else do {
        c \<leftarrow> scan_set x t;
        if c \<noteq> 0 then Some (Some 0) else map_option (map_option Suc) (strpbrk_loop s t c) })"

definition strpbrk :: "bytes \<Rightarrow> bytes \<Rightarrow> nat option option" where
  "strpbrk s t =
     (case s of
        [] \<Rightarrow> None
      | x # _ \<Rightarrow> if x = 0 then Some None else (case t of [] \<Rightarrow> None | c # _ \<Rightarrow> strpbrk_loop s t c))"

text \<open>\<open>strstr\<close>: \<open>match_here\<close> is the inner loop from \<open>i = 1\<close>, and says whether \<open>ne[i]\<close> ended as 0.\<close>

fun match_here :: "bytes \<Rightarrow> bytes \<Rightarrow> bool option" where
  "match_here h [] = None"
| "match_here h (n # ne) =
     (if n = 0 then Some True
      else case h of [] \<Rightarrow> None | x # h \<Rightarrow> if x \<noteq> n then Some False else match_here h ne)"

fun strstr_loop :: "bytes \<Rightarrow> bytes \<Rightarrow> nat option option" where
  "strstr_loop [] ne = None"
| "strstr_loop (x # hs) ne =
     (if x = 0 then Some None
      else if x \<noteq> hd ne then map_option (map_option Suc) (strstr_loop hs ne)
      else do {
        m \<leftarrow> match_here hs (tl ne);
        if m then Some (Some 0) else map_option (map_option Suc) (strstr_loop hs ne) })"

definition strstr :: "bytes \<Rightarrow> bytes \<Rightarrow> nat option option" where
  "strstr hs ne =
     (case ne of [] \<Rightarrow> None | c # _ \<Rightarrow> if c = 0 then Some (Some 0) else strstr_loop hs ne)"

text \<open>\<open>memmem\<close>: \<open>k\<close> counts the positions up to \<open>end\<close>; the inner loop compares backwards from the
  last byte down to index 1 and tells whether it got to 0.\<close>

fun cmp_back :: "bytes \<Rightarrow> bytes \<Rightarrow> nat \<Rightarrow> bool option" where
  "cmp_back hs ne 0 = Some True"
| "cmp_back hs ne (Suc i) =
     (if Suc i < length hs \<and> Suc i < length ne then
        if hs ! Suc i \<noteq> ne ! Suc i then Some False else cmp_back hs ne i
      else None)"

fun memmem_loop :: "bytes \<Rightarrow> bytes \<Rightarrow> nat \<Rightarrow> nat \<Rightarrow> nat option option" where
  "memmem_loop hs ne ne_len 0 = Some None"
| "memmem_loop [] ne ne_len (Suc k) = None"
| "memmem_loop (x # hs) ne ne_len (Suc k) =
     (if x \<noteq> hd ne then map_option (map_option Suc) (memmem_loop hs ne ne_len k)
      else do {
        m \<leftarrow> cmp_back (x # hs) ne (ne_len - 1);
        if m then Some (Some 0) else map_option (map_option Suc) (memmem_loop hs ne ne_len k) })"

definition memmem :: "bytes \<Rightarrow> nat \<Rightarrow> bytes \<Rightarrow> nat \<Rightarrow> nat option option" where
  "memmem hs hs_len ne ne_len =
     (if ne_len = 0 then Some (Some 0)
      else if ne = [] then None
      else memmem_loop hs ne ne_len (hs_len + 1 - ne_len))"

definition strnstr :: "bytes \<Rightarrow> bytes \<Rightarrow> nat \<Rightarrow> nat option option" where
  "strnstr hs ne hs_len = do {
     ne_len \<leftarrow> strnlen ne hs_len;
     ok \<leftarrow> (if ne_len < hs_len then Some True
            else if ne_len < length ne then Some (ne ! ne_len = 0) else None);
     if ok then do {
       x \<leftarrow> memmem hs hs_len ne ne_len;
       (case x of
          None \<Rightarrow> Some None
        | Some k \<Rightarrow> do { z \<leftarrow> memchr hs 0 k; Some (if z = None then Some k else None) })
     } else Some None }"

subsection \<open>Writing\<close>

fun memset :: "bytes \<Rightarrow> u8 \<Rightarrow> nat \<Rightarrow> bytes option" where
  "memset d c 0 = Some d"
| "memset (x # d) c (Suc n) = map_option ((#) c) (memset d c n)"
| "memset [] c (Suc n) = None"

fun memcpy :: "bytes \<Rightarrow> bytes \<Rightarrow> nat \<Rightarrow> bytes option" where
  "memcpy d s 0 = Some d"
| "memcpy (x # d) (c # s) (Suc n) = map_option ((#) c) (memcpy d s n)"
| "memcpy _ _ (Suc n) = None"

text \<open>The pointer \<open>memccpy\<close> returns is the offset just behind the copied end character.\<close>

fun memccpy :: "bytes \<Rightarrow> bytes \<Rightarrow> u8 \<Rightarrow> nat \<Rightarrow> (nat option \<times> bytes) option" where
  "memccpy d s e 0 = Some (None, d)"
| "memccpy (x # d) (c # s) e (Suc n) =
     (if c = e then Some (Some 1, c # d)
      else map_option (\<lambda>(p, d). (map_option Suc p, c # d)) (memccpy d s e n))"
| "memccpy _ _ e (Suc n) = None"

text \<open>\<open>memmove\<close> works in one object \<open>m\<close>, from offset \<open>src\<close> to offset \<open>dst\<close>.\<close>

fun move_back :: "bytes \<Rightarrow> nat \<Rightarrow> nat \<Rightarrow> nat \<Rightarrow> bytes option" where
  "move_back m dst src 0 = Some m"
| "move_back m dst src (Suc n) =
     (if src + n < length m \<and> dst + n < length m then move_back (m[dst + n := m ! (src + n)]) dst src n
      else None)"

fun move_forw :: "bytes \<Rightarrow> nat \<Rightarrow> nat \<Rightarrow> nat \<Rightarrow> bytes option" where
  "move_forw m dst src 0 = Some m"
| "move_forw m dst src (Suc n) =
     (if src < length m \<and> dst < length m then move_forw (m[dst := m ! src]) (dst + 1) (src + 1) n
      else None)"

definition memmove :: "bytes \<Rightarrow> nat \<Rightarrow> nat \<Rightarrow> nat \<Rightarrow> bytes option" where
  "memmove m dst src n =
     (if src < dst \<and> dst < src + n then move_back m dst src n else move_forw m dst src n)"

fun strcpy :: "bytes \<Rightarrow> bytes \<Rightarrow> bytes option" where
  "strcpy (x # d) (c # s) = (if c = 0 then Some (c # d) else map_option ((#) c) (strcpy d s))"
| "strcpy _ _ = None"

fun strcat :: "bytes \<Rightarrow> bytes \<Rightarrow> bytes option" where
  "strcat [] s = None"
| "strcat (x # d) s = (if x = 0 then strcpy (x # d) s else map_option ((#) x) (strcat d s))"

text \<open>The second loop of \<open>strncat\<close>, at the terminator of the first string.\<close>

fun ncat_loop :: "bytes \<Rightarrow> bytes \<Rightarrow> nat \<Rightarrow> bytes option" where
  "ncat_loop d s 0 = Some d"
| "ncat_loop (x # d) (c # s) (Suc n) =
     (if c = 0 then Some (c # d)
      else if n = 0 then (case d of [] \<Rightarrow> None | _ # d \<Rightarrow> Some (c # 0 # d))
      else map_option ((#) c) (ncat_loop d s n))"
| "ncat_loop _ _ (Suc n) = None"

fun strncat :: "bytes \<Rightarrow> bytes \<Rightarrow> nat \<Rightarrow> bytes option" where
  "strncat [] s n = None"
| "strncat (x # d) s n = (if x = 0 then ncat_loop (x # d) s n else map_option ((#) x) (strncat d s n))"

fun strncpy :: "bytes \<Rightarrow> bytes \<Rightarrow> nat \<Rightarrow> bytes option" where
  "strncpy d s 0 = Some d"
| "strncpy (x # d) (c # s) (Suc n) =
     (if c = 0 then map_option ((#) c) (memset d 0 n) else map_option ((#) c) (strncpy d s n))"
| "strncpy _ _ (Suc n) = None"

text \<open>
  \<open>strtok\<close> on the buffer \<open>buf\<close>; \<open>lasts\<close> is its static pointer, an offset into the same buffer.
  The result is the token's offset, the new \<open>lasts\<close>, and the buffer.
\<close>

function tok_skip :: "bytes \<Rightarrow> bytes \<Rightarrow> nat \<Rightarrow> (u8 \<times> nat) option" where
  "tok_skip buf delim i =
     (if i < length buf then do {
        sc \<leftarrow> scan_set (buf ! i) delim;
        if sc \<noteq> 0 then tok_skip buf delim (i + 1) else Some (buf ! i, i)
      } else None)"
  by pat_completeness auto
termination by (relation "measure (\<lambda>(buf, _, i). length buf - i)") auto

fun scan_eq :: "u8 \<Rightarrow> bytes \<Rightarrow> bool option" where
  "scan_eq c [] = None"
| "scan_eq c (sc # t) = (if sc = c then Some True else if sc \<noteq> 0 then scan_eq c t else Some False)"

function tok_end :: "bytes \<Rightarrow> bytes \<Rightarrow> nat \<Rightarrow> nat option" where
  "tok_end buf delim i =
     (if i < length buf then do {
        hit \<leftarrow> scan_eq (buf ! i) delim;
        if hit then Some i else tok_end buf delim (i + 1)
      } else None)"
  by pat_completeness auto
termination by (relation "measure (\<lambda>(buf, _, i). length buf - i)") auto

declare tok_skip.simps [simp del] tok_end.simps [simp del]

definition strtok :: "bytes \<Rightarrow> nat option \<Rightarrow> nat option \<Rightarrow> bytes \<Rightarrow> (nat option \<times> nat option \<times> bytes) option" where
  "strtok buf lasts s delim =
     (case (case s of None \<Rightarrow> lasts | Some p \<Rightarrow> Some p) of
        None \<Rightarrow> Some (None, lasts, buf)
      | Some p \<Rightarrow> do {
          (c, tok) \<leftarrow> tok_skip buf delim p;
          if c = 0 then Some (None, None, buf)
          else do {
            e \<leftarrow> tok_end buf delim (tok + 1);
            (if buf ! e = 0 then Some (Some tok, None, buf)
             else Some (Some tok, Some (e + 1), buf[e := 0])) } })"

subsection \<open>What they compute\<close>

definition cstr :: "bytes \<Rightarrow> bytes \<Rightarrow> bool" where
  "cstr s xs \<longleftrightarrow> 0 \<notin> set xs \<and> (\<exists>rest. s = xs @ 0 # rest)"

lemma cstr_Nil: "cstr (c # s) [] \<longleftrightarrow> c = 0"
  by (auto simp: cstr_def)

lemma cstr_Cons: "cstr (c # s) (x # xs) \<longleftrightarrow> c = x \<and> x \<noteq> 0 \<and> cstr s xs"
  by (auto simp: cstr_def)

lemma cstrE:
  assumes "cstr s xs"
  obtains rest where "s = xs @ 0 # rest" and "0 \<notin> set xs"
  using assms by (auto simp: cstr_def)

lemma strchr_found: "c \<notin> set l \<Longrightarrow> 0 \<notin> set l \<Longrightarrow> strchr (l @ c # rest) c = Some (Some (length l))"
  by (induction l) auto

lemma strchr_none: "c \<notin> set l \<Longrightarrow> 0 \<notin> set l \<Longrightarrow> c \<noteq> 0 \<Longrightarrow> strchr (l @ 0 # rest) c = Some None"
  by (induction l) auto

lemma strlen_ok: "cstr s xs \<Longrightarrow> strlen s = Some (length xs)"
proof (elim cstrE)
  fix rest assume "s = xs @ 0 # rest" "0 \<notin> set xs"
  then show ?thesis by (induction xs arbitrary: s) auto
qed

text \<open>The sign of \<open>strcmp\<close> is the lexicographic order of the two strings, byte by byte.\<close>

fun lex_less :: "bytes \<Rightarrow> bytes \<Rightarrow> bool" where
  "lex_less _ [] = False"
| "lex_less [] (y # ys) = True"
| "lex_less (x # xs) (y # ys) = (x < y \<or> x = y \<and> lex_less xs ys)"

lemma strcmp_ok:
  assumes "cstr s xs" and "cstr t ys"
  shows "\<exists>r. strcmp s t = Some r \<and> (r = 0 \<longleftrightarrow> xs = ys) \<and> (r < 0 \<longleftrightarrow> lex_less xs ys)"
  using assms
proof (induction xs arbitrary: s t ys)
  case Nil
  then obtain s' where s: "s = 0 # s'" by (auto elim: cstrE)
  show ?case
  proof (cases ys)
    case Nil
    then obtain t' where "t = 0 # t'" using \<open>cstr t ys\<close> by (auto elim: cstrE)
    then show ?thesis using s Nil by simp
  next
    case (Cons y ys')
    then obtain t' where t: "t = y # t'" "y \<noteq> 0" using \<open>cstr t ys\<close> by (auto elim: cstrE)
    have "uint y \<noteq> 0" using t(2) unsigned_eq_0_iff [of y, where 'a = int] by blast
    then have "0 < uint y" using uint_ge_0 [of y] by linarith
    then show ?thesis using s t Cons by simp
  qed
next
  case (Cons x xs)
  then obtain s' where s: "s = x # s'" "x \<noteq> 0" "cstr s' xs" by (cases s) (auto simp: cstr_Cons cstr_def)
  show ?case
  proof (cases ys)
    case Nil
    then obtain t' where "t = 0 # t'" using \<open>cstr t ys\<close> by (auto elim: cstrE)
    moreover have "uint x \<noteq> 0" using s(2) unsigned_eq_0_iff [of x, where 'a = int] by blast
    ultimately show ?thesis using s Nil by (auto simp: not_less)
  next
    case (Cons y ys')
    then obtain t' where t: "t = y # t'" "cstr t' ys'"
      using \<open>cstr t ys\<close> by (cases t) (auto simp: cstr_Cons cstr_def)
    show ?thesis
      using Cons.IH [OF s(3) t(2)] s t \<open>ys = y # ys'\<close> word_uint_eq_iff [of x y] by (auto simp: word_less_def)
  qed
qed

text \<open>\<open>memmove\<close> is right for overlapping areas too.\<close>

lemma nth_moved:
  assumes "src + n \<le> length m" and "dst + n \<le> length m" and "k < length m"
  shows "patch m dst (take n (drop src m)) ! k =
    (if dst \<le> k \<and> k < dst + n then m ! (src + (k - dst)) else m ! k)"
  using assms by (auto simp: nth_patch)

lemma move_back_ok:
  "src \<le> dst \<Longrightarrow> dst + n \<le> length m \<Longrightarrow>
   move_back m dst src n = Some (patch m dst (take n (drop src m)))"
proof (induction n arbitrary: m)
  case (Suc n)
  let ?m = "m[dst + n := m ! (src + n)]"
  have "move_back m dst src (Suc n) = Some (patch ?m dst (take n (drop src ?m)))"
    using Suc by simp
  also have "patch ?m dst (take n (drop src ?m)) = patch m dst (take (Suc n) (drop src m))"
  proof (rule nth_equalityI)
    fix k assume "k < length (patch ?m dst (take n (drop src ?m)))"
    then have k: "k < length m" using Suc.prems by simp
    have "src + (k - dst) \<noteq> dst + n" if "dst \<le> k" "k < dst + n" using Suc.prems that by simp
    then show "patch ?m dst (take n (drop src ?m)) ! k = patch m dst (take (Suc n) (drop src m)) ! k"
      using nth_moved [of src n ?m dst k] nth_moved [of src "Suc n" m dst k] Suc.prems k
      by (auto simp: nth_list_update less_Suc_eq)
  qed (use Suc.prems in simp)
  finally show ?case .
qed simp

lemma move_forw_ok:
  "dst \<le> src \<or> src + n \<le> dst \<Longrightarrow> dst + n \<le> length m \<Longrightarrow> src + n \<le> length m \<Longrightarrow>
   move_forw m dst src n = Some (patch m dst (take n (drop src m)))"
proof (induction n arbitrary: m dst src)
  case (Suc n)
  let ?m = "m[dst := m ! src]"
  have "move_forw m dst src (Suc n) = Some (patch ?m (dst + 1) (take n (drop (src + 1) ?m)))"
    using Suc.IH [of "dst + 1" "src + 1" ?m] Suc.prems by auto
  also have "patch ?m (dst + 1) (take n (drop (src + 1) ?m)) = patch m dst (take (Suc n) (drop src m))"
  proof (rule nth_equalityI)
    fix k assume "k < length (patch ?m (dst + 1) (take n (drop (src + 1) ?m)))"
    then have k: "k < length m" using Suc.prems by simp
    have "src + 1 + (k - (dst + 1)) = src + (k - dst)" "src + (k - dst) \<noteq> dst" if "dst + 1 \<le> k" "k < dst + 1 + n"
      using Suc.prems that by auto
    moreover have "dst \<le> k \<and> k < dst + Suc n \<longleftrightarrow> k = dst \<or> dst + 1 \<le> k \<and> k < dst + 1 + n" by auto
    ultimately show "patch ?m (dst + 1) (take n (drop (src + 1) ?m)) ! k =
        patch m dst (take (Suc n) (drop src m)) ! k"
      using nth_moved [of "src + 1" n ?m "dst + 1" k] nth_moved [of src "Suc n" m dst k] Suc.prems k
      by (simp add: nth_list_update) auto
  qed (use Suc.prems in simp)
  finally show ?case .
qed simp

lemma memmove_ok:
  "src + n \<le> length m \<Longrightarrow> dst + n \<le> length m \<Longrightarrow>
   memmove m dst src n = Some (patch m dst (take n (drop src m)))"
  by (auto simp: memmove_def move_back_ok move_forw_ok)

lemma strcpy_ok:
  "0 \<notin> set xs \<Longrightarrow> length xs < length d \<Longrightarrow> strcpy d (xs @ 0 # rest) = Some (patch d 0 (xs @ [0]))"
proof (induction xs arbitrary: d)
  case Nil
  then show ?case by (cases d) (auto simp: patch_def)
next
  case (Cons x xs)
  then show ?case by (cases d) (auto simp: patch_def)
qed

lemma memset_ok: "n \<le> length d \<Longrightarrow> memset d c n = Some (patch d 0 (replicate n c))"
proof (induction n arbitrary: d)
  case (Suc n)
  then show ?case by (cases d) (auto simp: patch_def)
qed simp

lemma memcpy_ok: "n \<le> length d \<Longrightarrow> n \<le> length s \<Longrightarrow> memcpy d s n = Some (patch d 0 (take n s))"
proof (induction n arbitrary: d s)
  case (Suc n)
  then show ?case by (cases d; cases s) (auto simp: patch_def)
qed simp

text \<open>\<open>strncpy\<close> writes exactly \<open>n\<close> bytes: a prefix of the string, or all of it and zeros.\<close>

lemma strncpy_ok:
  assumes "0 \<notin> set xs" and "n \<le> length d"
  shows "strncpy d (xs @ 0 # rest) n = Some (patch d 0 (take n (xs @ replicate n 0)))"
  using assms
proof (induction n arbitrary: d xs)
  case (Suc n)
  obtain y d' where d: "d = y # d'" using Suc.prems by (cases d) auto
  show ?case
  proof (cases xs)
    case Nil
    then show ?thesis using Suc.prems d by (simp add: memset_ok) (simp add: patch_def)
  next
    case (Cons x xs')
    have "take n (xs' @ replicate (Suc n) 0) = take n (xs' @ replicate n (0 :: u8))"
      by (cases "n - length xs'") (auto simp: min_def)
    then show ?thesis using Suc d Cons by (simp add: patch_def)
  qed
qed simp

subsubsection \<open>Searching\<close>

lemma match_here_ok:
  "0 \<notin> set ne \<Longrightarrow> \<exists>ys. h = xs @ 0 # ys \<Longrightarrow> 0 \<notin> set xs \<Longrightarrow>
   match_here h (ne @ 0 # rest) = Some (take (length ne) xs = ne)"
proof (induction ne arbitrary: h xs)
  case (Cons n ne)
  show ?case
  proof (cases xs)
    case Nil
    then show ?thesis using Cons.prems by auto
  next
    case (Cons x xs')
    then show ?thesis using Cons.IH [of "tl h" xs'] Cons.prems by auto
  qed
qed simp

definition occurs_at :: "bytes \<Rightarrow> bytes \<Rightarrow> nat \<Rightarrow> bool" where
  "occurs_at xs ne k \<longleftrightarrow> k + length ne \<le> length xs \<and> take (length ne) (drop k xs) = ne"

fun first_occ :: "bytes \<Rightarrow> bytes \<Rightarrow> nat option" where
  "first_occ [] ne = None"
| "first_occ (x # xs) ne = (if take (length ne) (x # xs) = ne then Some 0 else map_option Suc (first_occ xs ne))"

lemma first_occ_None: "ne \<noteq> [] \<Longrightarrow> first_occ xs ne = None \<longleftrightarrow> (\<forall>k. \<not> occurs_at xs ne k)"
proof (induction xs)
  case Nil
  then show ?case by (auto simp: occurs_at_def)
next
  case (Cons x xs)
  have "(\<forall>k. \<not> occurs_at (x # xs) ne k) \<longleftrightarrow> \<not> occurs_at (x # xs) ne 0 \<and> (\<forall>k. \<not> occurs_at xs ne k)"
    by (metis (no_types, lifting) add_Suc drop_Suc_Cons length_Cons not0_implies_Suc not_less_eq_eq occurs_at_def
        Suc_le_mono)
  moreover have "occurs_at (x # xs) ne 0 \<longleftrightarrow> take (length ne) (x # xs) = ne"
    by (auto simp: occurs_at_def dest: arg_cong [of _ _ length])
  ultimately show ?case using Cons by auto
qed

lemma first_occ_Some:
  "first_occ xs ne = Some k \<Longrightarrow> occurs_at xs ne k \<and> (\<forall>j < k. \<not> occurs_at xs ne j)"
proof (induction xs arbitrary: k)
  case (Cons x xs)
  show ?case
  proof (cases "take (length ne) (x # xs) = ne")
    case True
    then show ?thesis using Cons.prems by (auto simp: occurs_at_def dest: arg_cong [of _ _ length])
  next
    case False
    then obtain j where j: "k = Suc j" "first_occ xs ne = Some j" using Cons.prems by auto
    have "\<not> occurs_at (x # xs) ne i" if "i < k" for i
      using Cons.IH [OF j(2)] False that j(1) by (cases i) (auto simp: occurs_at_def)
    then show ?thesis using Cons.IH [OF j(2)] j(1) by (auto simp: occurs_at_def)
  qed
qed simp

lemma strstr_loop_ok:
  assumes "0 \<notin> set xs" and "0 \<notin> set (n # ne)"
  shows "strstr_loop (xs @ 0 # r) (n # ne @ 0 # r') = Some (first_occ xs (n # ne))"
  using assms(1)
proof (induction xs)
  case (Cons x xs)
  then have "match_here (xs @ 0 # r) (ne @ 0 # r') = Some (take (length ne) xs = ne)"
    using assms(2) by (intro match_here_ok) auto
  then show ?case using Cons by auto
qed simp

lemma strstr_ok:
  assumes "cstr hs xs" and "cstr ns ne"
  shows "strstr hs ns = Some (if ne = [] then Some 0 else first_occ xs ne)"
proof -
  obtain r r' where r: "hs = xs @ 0 # r" "0 \<notin> set xs" "ns = ne @ 0 # r'" "0 \<notin> set ne"
    using assms by (auto elim!: cstrE)
  show ?thesis
  proof (cases ne)
    case (Cons n ne')
    then show ?thesis using r strstr_loop_ok [of xs n ne' r r'] by (auto simp: strstr_def)
  qed (use r in \<open>simp add: strstr_def\<close>)
qed

subsubsection \<open>Tokens\<close>

lemma scan_set_ok: "0 \<notin> set ds \<Longrightarrow> scan_set x (ds @ 0 # r) = Some (if x \<in> set ds then x else 0)"
  by (induction ds) auto

lemma scan_eq_ok: "0 \<notin> set ds \<Longrightarrow> scan_eq c (ds @ 0 # r) = Some (c = 0 \<or> c \<in> set ds)"
  by (induction ds) auto

lemma tok_skip_ok:
  assumes "0 \<notin> set ds" and "set sp \<subseteq> set ds" and "x \<notin> set ds"
  shows "tok_skip (pre @ sp @ x # post) (ds @ 0 # r) (length pre) = Some (x, length pre + length sp)"
  using assms(2)
proof (induction sp arbitrary: pre)
  case Nil
  then show ?case using assms(1,3) by (subst tok_skip.simps) (simp add: scan_set_ok)
next
  case (Cons s sp)
  have "s \<noteq> 0" using Cons.prems assms(1) by auto
  then show ?case
    using Cons.IH [of "pre @ [s]"] Cons.prems assms(1)
    by (subst tok_skip.simps) (simp add: scan_set_ok)
qed

lemma tok_end_ok:
  assumes "0 \<notin> set ds" and "set tk \<inter> set (0 # ds) = {}" and "x \<in> set (0 # ds)"
  shows "tok_end (pre @ tk @ x # post) (ds @ 0 # r) (length pre) = Some (length pre + length tk)"
  using assms(2)
proof (induction tk arbitrary: pre)
  case Nil
  then show ?case using assms(1,3) by (subst tok_end.simps) (auto simp: scan_eq_ok)
next
  case (Cons s tk)
  then show ?case
    using Cons.IH [of "pre @ [s]"] assms(1)
    by (subst tok_end.simps) (auto simp: scan_eq_ok)
qed

text \<open>The next token: leading delimiters are skipped, the delimiter behind it becomes its terminator.\<close>

lemma strtok_token:
  assumes ds: "0 \<notin> set ds" and sp: "set sp \<subseteq> set ds" and tk: "set (t # tk) \<inter> set (0 # ds) = {}"
    and x: "x \<in> set (0 # ds)" and buf: "buf = pre @ sp @ (t # tk) @ x # post"
  shows "strtok buf lasts (Some (length pre)) (ds @ 0 # r) =
    Some (Some (length pre + length sp),
      if x = 0 then None else Some (length pre + length sp + length (t # tk) + 1),
      pre @ sp @ (t # tk) @ 0 # post)"
proof -
  have skip: "tok_skip buf (ds @ 0 # r) (length pre) = Some (t, length pre + length sp)"
    using tok_skip_ok [OF ds sp, of t pre "tk @ x # post" r] tk buf by auto
  have e: "tok_end buf (ds @ 0 # r) (length pre + length sp + 1) = Some (length pre + length sp + length (t # tk))"
    using tok_end_ok [OF ds _ x, of tk "pre @ sp @ [t]" post r] tk buf by auto
  have at: "buf ! (length pre + length sp + length (t # tk)) = x"
    using nth_append_length [of "pre @ sp @ t # tk" x post] buf by (simp add: add.assoc)
  have upd: "buf[length pre + length sp + length (t # tk) := 0] = pre @ sp @ (t # tk) @ 0 # post"
    using list_update_length [of "pre @ sp @ t # tk" x post 0] buf by (simp add: add.assoc)
  have "t \<noteq> 0" using tk by auto
  then show ?thesis using skip e at upd buf by (auto simp: strtok_def)
qed

lemma strtok_end:
  assumes ds: "0 \<notin> set ds" and sp: "set sp \<subseteq> set ds" and buf: "buf = pre @ sp @ 0 # post"
  shows "strtok buf lasts (Some (length pre)) (ds @ 0 # r) = Some (None, None, buf)"
  using tok_skip_ok [OF ds sp, of 0 pre post r] ds buf by (simp add: strtok_def)

subsection \<open>The properties\<close>

text \<open>\<open>strcmp\<close> on two C strings returns 0 exactly when they are equal and a negative number
  exactly when the first is smaller in the lexicographic order of unsigned bytes; it reads no
  byte behind either terminator.\<close>

lemma strcmp_lexicographic:
  assumes "cstr s xs" and "cstr t ys"
  shows "\<exists>r. strcmp s t = Some r \<and> (r = 0 \<longleftrightarrow> xs = ys) \<and> (r < 0 \<longleftrightarrow> lex_less xs ys)"
  using assms by (rule strcmp_ok)

text \<open>\<open>memmove\<close> of \<open>n\<close> bytes within one object stores the bytes the source area held before the
  call, also when the two areas overlap in either direction, and changes no other byte.\<close>

lemma memmove_overlap:
  assumes "src + n \<le> length m" and "dst + n \<le> length m"
  shows "memmove m dst src n = Some (patch m dst (take n (drop src m)))"
  using assms by (rule memmove_ok)

text \<open>\<open>strstr\<close> returns the first position at which the needle occurs in the haystack, \<open>NULL\<close> when
  it occurs nowhere, and the start of the haystack for the empty needle.\<close>

lemma strstr_first_occurrence:
  assumes "cstr hs xs" and "cstr ns ne"
  shows "\<exists>r. strstr hs ns = Some r \<and>
    (case r of None \<Rightarrow> \<forall>k. \<not> occurs_at xs ne k
     | Some k \<Rightarrow> occurs_at xs ne k \<and> (\<forall>j < k. \<not> occurs_at xs ne j))"
proof (cases "ne = []")
  case True
  then show ?thesis using strstr_ok [OF assms] by (simp add: occurs_at_def)
next
  case False
  show ?thesis
    using strstr_ok [OF assms] first_occ_Some [of xs ne] first_occ_None [OF False, of xs] False
    by (cases "first_occ xs ne") auto
qed

text \<open>One call of \<open>strtok\<close>: leading delimiters are skipped, the longest run of other characters
  behind them is the token, its closing delimiter is overwritten by a terminator and scanning will
  go on behind it; at the end of the string the next call will find nothing.\<close>

lemma strtok_next_token:
  assumes "0 \<notin> set ds" and "set sp \<subseteq> set ds" and "set (t # tk) \<inter> set (0 # ds) = {}" and "x \<in> set (0 # ds)"
  shows "strtok (pre @ sp @ (t # tk) @ x # post) lasts (Some (length pre)) (ds @ 0 # r) =
    Some (Some (length pre + length sp),
      if x = 0 then None else Some (length pre + length sp + length (t # tk) + 1),
      pre @ sp @ (t # tk) @ 0 # post)"
  using strtok_token [OF assms refl] .

end
