(* ===== verification/FsDir.thy ===== *)
theory FsDir
  imports FsProps CString
begin

text \<open>
  Directories and paths, the upper half of \<open>kernel/src/fs.c\<close>: \<open>skipelem\<close>, \<open>ilookup\<close>,
  \<open>iopen_parent\<close>, \<open>iopen\<close>, \<open>iadddev\<close>, \<open>idirempty\<close> and \<open>iremove\<close>. A path or name is the list of
  the characters before its terminator. \<open>cwd\<close> is \<open>proc_curr()->cwd\<close>, and \<open>junk\<close> the 32 bytes an
  uninitialised \<open>dirent_t\<close> on the kernel stack holds: \<open>strcpy\<close> into its name field leaves the
  bytes behind the terminator as they were, and they are written to the disk.
\<close>

subsection \<open>Path elements\<close>

abbreviation (input) SLASH :: u8 where "SLASH \<equiv> 47"
abbreviation (input) DOT :: u8 where "DOT \<equiv> 46"
abbreviation (input) MAX_NAME :: nat where "MAX_NAME \<equiv> 27"
abbreviation (input) DIRENT_SIZE :: nat where "DIRENT_SIZE \<equiv> 32"

text \<open>\<open>skipelem\<close>: the rest of the path and the (truncated) name of its first element.\<close>

definition skipelem :: "bytes \<Rightarrow> (bytes \<times> bytes) option" where
  "skipelem path =
     (let path = dropWhile (\<lambda>c. c = SLASH) path in
      if path = [] then None
      else
        let s = takeWhile (\<lambda>c. c \<noteq> SLASH) path;
            path = dropWhile (\<lambda>c. c \<noteq> SLASH) path;
            name = (if length s \<ge> MAX_NAME then take MAX_NAME s else s)
        in Some (dropWhile (\<lambda>c. c = SLASH) path, name))"

lemma skipelem_shorter: "skipelem path = Some (rest, name) \<Longrightarrow> length rest < length path"
proof -
  assume a: "skipelem path = Some (rest, name)"
  let ?p = "dropWhile (\<lambda>c. c = SLASH) path"
  have ne: "?p \<noteq> []" and rest: "rest = dropWhile (\<lambda>c. c = SLASH) (dropWhile (\<lambda>c. c \<noteq> SLASH) ?p)"
    using a by (auto simp: skipelem_def Let_def split: if_splits)
  obtain x xs where x: "?p = x # xs" using ne by (cases ?p) auto
  then have "x \<noteq> SLASH" using hd_dropWhile [OF ne] by simp
  then have "length (dropWhile (\<lambda>c. c \<noteq> SLASH) ?p) < length ?p"
    using x by (simp add: length_dropWhile_le le_imp_less_Suc)
  then show ?thesis
    unfolding rest using length_dropWhile_le [of _ path] length_dropWhile_le
    by (meson le_less_trans less_le_trans)
qed

subsection \<open>Directory entries\<close>

record dirent =
  d_inode :: u32
  d_name :: bytes

definition dirent_bytes :: "dirent \<Rightarrow> bytes" where
  "dirent_bytes d = le32 (d_inode d) @ d_name d"

definition dirent_of :: "bytes \<Rightarrow> dirent" where
  "dirent_of bs = \<lparr>d_inode = of_le32 bs, d_name = take (DIRENT_SIZE - 4) (drop 4 bs)\<rparr>"

text \<open>\<open>dirent.inode = no; strcpy(dirent.name, name)\<close> on a variable that holds \<open>d\<close>.\<close>

definition set_dirent :: "dirent \<Rightarrow> u32 \<Rightarrow> bytes \<Rightarrow> dirent option" where
  "set_dirent d no name = do {
     nm \<leftarrow> strcpy (d_name d) (name @ [0]);
     Some \<lparr>d_inode = no, d_name = nm\<rparr> }"

definition idirinit :: "fs \<Rightarrow> nat \<Rightarrow> nat \<Rightarrow> bytes \<Rightarrow> fs option" where
  "idirinit f p parent junk =
     (if itype f p = TYPE_DIR \<and> itype f parent = TYPE_DIR \<and> isize f p = 0 then do {
        d \<leftarrow> set_dirent (dirent_of junk) (ino f p) [DOT];
        (_, f) \<leftarrow> iwrite f p 0 (dirent_bytes d);
        d \<leftarrow> set_dirent d (ino f parent) [DOT, DOT];
        (_, f) \<leftarrow> iwrite f p 32 (dirent_bytes d);
        Some f
      } else None)"

text \<open>The loop of \<open>ilookup\<close>: it ends with the offset of the entry found, or with the first free one
  (\<open>empty\<close>, here \<open>spare\<close>) and what is left in \<open>dirent\<close>.\<close>

partial_function (option) ilookup_loop ::
    "fs \<Rightarrow> nat \<Rightarrow> bytes \<Rightarrow> u32 \<Rightarrow> u32 \<Rightarrow> u32 \<Rightarrow> bytes \<Rightarrow> ((u32 \<times> u32) option \<times> u32 \<times> bytes \<times> fs) option" where
  "ilookup_loop f parent name sz i spare de =
     (if i < sz then do {
        (_, bs, f) \<leftarrow> iread f parent i 32;
        let de = patch de 0 bs;
        if d_inode (dirent_of de) = 0 then
          ilookup_loop f parent name sz (i + 32) (if spare = sz then i else spare) de
        else do {
          r \<leftarrow> strcmp (d_name (dirent_of de)) (name @ [0]);
          if r = 0 then Some (Some (i, d_inode (dirent_of de)), spare, de, f)
          else ilookup_loop f parent name sz (i + 32) spare de }
      } else Some (None, spare, de, f))"

text \<open>The result of \<open>ilookup\<close>: the inode or \<open>NULL\<close>, and the offset stored through \<open>off\<close>.\<close>

definition ilookup :: "fs \<Rightarrow> nat \<Rightarrow> bytes \<Rightarrow> u32 \<Rightarrow> bytes \<Rightarrow> ((nat option \<times> u32 option) \<times> fs) option" where
  "ilookup f parent name ty junk =
     (if itype f parent = TYPE_DIR then do {
        (hit, spare, de, f) \<leftarrow> ilookup_loop f parent name (isize f parent) 0 (isize f parent) junk;
        (case hit of
           Some (i, no) \<Rightarrow> do { (ip, f) \<leftarrow> iget f no; Some ((Some ip, Some i), f) }
         | None \<Rightarrow>
             if ty = TYPE_NONE then Some ((None, None), f)
             else do {
               (no, f) \<leftarrow> dialloc f ty;
               d \<leftarrow> set_dirent (dirent_of de) no name;
               (_, f) \<leftarrow> iwrite f parent spare (dirent_bytes d);
               (ip, f) \<leftarrow> iget f no;
               f \<leftarrow> (if ty = TYPE_DIR then idirinit f ip parent junk else Some f);
               Some ((Some ip, Some spare), f) })
      } else None)"

subsection \<open>Paths\<close>

text \<open>The loop of \<open>iopen_parent\<close>: the parent directory and the last name, or \<open>NULL\<close>.\<close>

function iopen_parent_loop :: "fs \<Rightarrow> nat \<Rightarrow> bytes \<Rightarrow> bytes \<Rightarrow> ((nat \<times> bytes) option \<times> fs) option" where
  "iopen_parent_loop f ip path junk =
     (case skipelem path of
        None \<Rightarrow> do { f \<leftarrow> iclose f ip; Some (None, f) }
      | Some (path', name) \<Rightarrow>
          if itype f ip \<noteq> TYPE_DIR then do { f \<leftarrow> iclose f ip; Some (None, f) }
          else if path' = [] then Some (Some (ip, name), f)
          else (case ilookup f ip name TYPE_NONE junk of
              None \<Rightarrow> None
            | Some ((None, _), f) \<Rightarrow> do { f \<leftarrow> iclose f ip; Some (None, f) }
            | Some ((Some nxt, _), f) \<Rightarrow>
                (case iclose f ip of None \<Rightarrow> None | Some f \<Rightarrow> iopen_parent_loop f nxt path' junk)))"
  by pat_completeness auto
termination
  by (relation "measure (\<lambda>(_, _, path, _). length path)") (auto dest: skipelem_shorter)

declare iopen_parent_loop.simps [simp del]

definition iopen_parent :: "fs \<Rightarrow> nat option \<Rightarrow> bytes \<Rightarrow> bytes \<Rightarrow> ((nat \<times> bytes) option \<times> fs) option" where
  "iopen_parent f cwd path junk = do {
     (ip, f) \<leftarrow> (if path \<noteq> [] \<and> hd path = SLASH then iget f (sb_root (sb f))
                 else case cwd of None \<Rightarrow> None | Some p \<Rightarrow> Some (p, idup f p));
     iopen_parent_loop f ip path junk }"

definition iopen :: "fs \<Rightarrow> nat option \<Rightarrow> bytes \<Rightarrow> u32 \<Rightarrow> bytes \<Rightarrow> (nat option \<times> fs) option" where
  "iopen f cwd path ty junk =
     (if skipelem path = None then
        (if path \<noteq> [] \<and> hd path = SLASH then do { (ip, f) \<leftarrow> iget f (sb_root (sb f)); Some (Some ip, f) }
         else Some (None, f))
      else do {
        (par, f) \<leftarrow> iopen_parent f cwd path junk;
        (case par of
           None \<Rightarrow> Some (None, f)
         | Some (parent, name) \<Rightarrow> do {
             ((ip, _), f) \<leftarrow> ilookup f parent name ty junk;
             f \<leftarrow> iclose f parent;
             Some (ip, f) }) })"

definition set_device :: "fs \<Rightarrow> nat \<Rightarrow> u32 \<Rightarrow> fs" where
  "set_device f p d = upd_inode f p (\<lambda>ip. ip\<lparr>i_di := (i_di ip)\<lparr>di_device := d\<rparr>\<rparr>)"

definition iadddev :: "fs \<Rightarrow> nat option \<Rightarrow> bytes \<Rightarrow> u32 \<Rightarrow> bytes \<Rightarrow> fs option" where
  "iadddev f cwd name d junk = do {
     (ip, f) \<leftarrow> iopen f cwd name TYPE_DEV junk;
     (case ip of
        None \<Rightarrow> None
      | Some p \<Rightarrow> do { f \<leftarrow> iupdate (set_device f p d) p; iclose f p }) }"

partial_function (option) idirempty_loop :: "fs \<Rightarrow> nat \<Rightarrow> u32 \<Rightarrow> bytes \<Rightarrow> (bool \<times> fs) option" where
  "idirempty_loop f p i de =
     (if i < isize f p then do {
        (_, bs, f) \<leftarrow> iread f p i 32;
        let de = patch de 0 bs;
        if d_inode (dirent_of de) \<noteq> 0 then Some (False, f) else idirempty_loop f p (i + 32) de
      } else Some (True, f))"

definition idirempty :: "fs \<Rightarrow> nat \<Rightarrow> bytes \<Rightarrow> (bool \<times> fs) option" where
  "idirempty f p junk = (if itype f p = TYPE_DIR then idirempty_loop f p 64 junk else None)"

definition iremove :: "fs \<Rightarrow> nat option \<Rightarrow> bytes \<Rightarrow> bytes \<Rightarrow> (int \<times> fs) option" where
  "iremove f cwd path junk = do {
     (par, f) \<leftarrow> iopen_parent f cwd path junk;
     (case par of
        None \<Rightarrow> Some (-1, f)
      | Some (parent, name) \<Rightarrow>
          if name = [DOT] \<or> name = [DOT, DOT] then do { f \<leftarrow> iclose f parent; Some (-1, f) }
          else do {
            ((ip, off), f) \<leftarrow> ilookup f parent name TYPE_NONE junk;
            (case (ip, off) of
               (Some p, Some off) \<Rightarrow> do {
                 (busy, f) \<leftarrow> (if itype f p = TYPE_DIR
                               then do { (e, f) \<leftarrow> idirempty f p junk; Some (\<not> e, f) }
                               else Some (False, f));
                 (if busy then do { f \<leftarrow> iclose f p; f \<leftarrow> iclose f parent; Some (-1, f) }
                  else do {
                    let f = upd_inode f p (\<lambda>ip. ip\<lparr>i_del := True\<rparr>);
                    (_, f) \<leftarrow> iwrite f parent off (replicate 32 0);
                    f \<leftarrow> iclose f p;
                    f \<leftarrow> iclose f parent;
                    Some (0, f) }) }
             | _ \<Rightarrow> do { f \<leftarrow> iclose f parent; Some (-1, f) }) }) }"

subsection \<open>Looking a name up\<close>

text \<open>\<open>dir_at f p es\<close>: slot \<open>p\<close> holds a directory whose contents are the entries \<open>es\<close>.\<close>

definition dname :: "dirent \<Rightarrow> bytes" where
  "dname d = takeWhile (\<lambda>c. c \<noteq> 0) (d_name d)"

definition entry_ok :: "dirent \<Rightarrow> bool" where
  "entry_ok d \<longleftrightarrow> length (d_name d) = 28 \<and> 0 \<in> set (d_name d)"

definition dir_at :: "fs \<Rightarrow> nat \<Rightarrow> dirent list \<Rightarrow> bool" where
  "dir_at f p es \<longleftrightarrow> fwf f p \<and> dense f p \<and> itype f p = TYPE_DIR \<and>
     contents f p = concat (map dirent_bytes es) \<and> (\<forall>d \<in> set es. entry_ok d)"

definition matches :: "bytes \<Rightarrow> dirent \<Rightarrow> bool" where
  "matches name d \<longleftrightarrow> d_inode d \<noteq> 0 \<and> dname d = name"

lemma length_dirent: "entry_ok d \<Longrightarrow> length (dirent_bytes d) = 32"
  by (simp add: entry_ok_def dirent_bytes_def)

lemma dirent_roundtrip [codec_simps]: "entry_ok d \<Longrightarrow> dirent_of (dirent_bytes d) = d"
  by (cases d) (simp add: entry_ok_def dirent_bytes_def dirent_of_def)

lemma cstr_dname: "entry_ok d \<Longrightarrow> cstr (d_name d) (dname d)"
proof -
  assume "entry_ok d"
  then have ne: "dropWhile (\<lambda>c. c \<noteq> 0) (d_name d) \<noteq> []" by (auto simp: entry_ok_def)
  then obtain r where "dropWhile (\<lambda>c. c \<noteq> 0) (d_name d) = 0 # r"
    using hd_dropWhile [OF ne] by (cases "dropWhile (\<lambda>c. c \<noteq> 0) (d_name d)") auto
  then have "d_name d = dname d @ 0 # r" unfolding dname_def by (metis takeWhile_dropWhile_id)
  moreover have "0 \<notin> set (dname d)" unfolding dname_def by (auto dest: set_takeWhileD)
  ultimately show ?thesis by (auto simp: cstr_def)
qed

lemma drop_entries:
  "\<forall>d \<in> set es. entry_ok d \<Longrightarrow> drop (32 * k) (concat (map dirent_bytes es)) = concat (map dirent_bytes (drop k es))"
proof (induction es arbitrary: k)
  case (Cons d es)
  then show ?case by (cases k) (simp_all add: length_dirent)
qed simp

lemma length_entries: "\<forall>d \<in> set es. entry_ok d \<Longrightarrow> length (concat (map dirent_bytes es)) = 32 * length es"
  by (induction es) (simp_all add: length_dirent)

lemma same_dir:
  assumes "dir_at f p es" and s: "same f f'"
  shows "dir_at f' p es" "isize f' p = isize f p"
proof -
  have "inodes f' = inodes f" using s by (simp add: same_def)
  then have i: "isize f' p = isize f p" "itype f' p = itype f p" by (simp_all add: isize_def itype_def)
  then show "isize f' p = isize f p" "dir_at f' p es"
    using assms same_fwf [OF s] same_mapped [OF s] same_fbyte [OF s]
    by (simp_all add: dir_at_def dense_def contents_def)
qed

lemma read_entry:
  assumes d: "dir_at f p es" and k: "k < length es"
  obtains f' where "iread f p (of_nat (32 * k)) 32 = Some (32, dirent_bytes (es ! k), f')" and "same f f'"
    and "of_nat (32 * k) < isize f p" and "unat (of_nat (32 * k) :: u32) = 32 * k"
proof -
  have c: "contents f p = concat (map dirent_bytes es)" "\<forall>d \<in> set es. entry_ok d" "fwf f p" "dense f p"
    using d by (simp_all add: dir_at_def)
  have sz: "unat (isize f p) = 32 * length es"
    using arg_cong [OF c(1), of length] length_entries [OF c(2)] by simp
  have "unat (isize f p) \<le> FILE_MAX" using c(4) by (simp add: dense_def)
  then have o: "unat (of_nat (32 * k) :: u32) = 32 * k" using sz k by (intro unat_of_nat32) simp
  have lt: "of_nat (32 * k) < isize f p" using o sz k by (simp add: word_less_nat_alt)
  have "take 32 (drop (32 * k) (contents f p)) = dirent_bytes (es ! k)"
    using k c(2) by (simp add: c(1) drop_entries Cons_nth_drop_Suc [symmetric] length_dirent)
  moreover have "min 32 (unat (isize f p) - 32 * k) = 32" using sz k by simp
  ultimately show ?thesis
    using iread_segment [OF c(3,4) less_imp_le [OF lt], of 32] that lt o k sz
      \<open>unat (isize f p) \<le> FILE_MAX\<close> by auto
qed

text \<open>The first entry from number \<open>k\<close> on that matches.\<close>

definition first_match :: "dirent list \<Rightarrow> bytes \<Rightarrow> nat \<Rightarrow> nat option" where
  "first_match es name k = find (\<lambda>j. matches name (es ! j)) [k..<length es]"

lemma first_match_step:
  "k < length es \<Longrightarrow> first_match es name k = (if matches name (es ! k) then Some k else first_match es name (Suc k))"
  by (simp add: first_match_def upt_conv_Cons)

lemma ilookup_loop_ok:
  assumes "dir_at f p es" and "0 \<notin> set name" and "k \<le> length es" and "length de = 32"
  shows "\<exists>f' de' spare'. same f f' \<and> length de' = 32 \<and>
    ilookup_loop f p name (isize f p) (of_nat (32 * k)) spare de =
      Some (map_option (\<lambda>j. (of_nat (32 * j), d_inode (es ! j))) (first_match es name k), spare', de', f')"
  using assms
proof (induction "length es - k" arbitrary: k f spare de)
  case 0
  have es: "\<forall>d \<in> set es. entry_ok d" "contents f p = concat (map dirent_bytes es)" "fwf f p" "dense f p"
    using 0 by (simp_all add: dir_at_def)
  have sz: "unat (isize f p) = 32 * length es"
    using arg_cong [OF es(2), of length] length_entries [OF es(1)] by simp
  have "unat (isize f p) \<le> FILE_MAX" using es(4) by (simp add: dense_def)
  then have "unat (of_nat (32 * k) :: u32) = 32 * k" using sz 0 by (intro unat_of_nat32) simp
  then have "\<not> of_nat (32 * k) < isize f p" using sz 0 by (simp add: word_less_nat_alt)
  moreover have "first_match es name k = None" using 0 by (simp add: first_match_def)
  ultimately show ?case
    using same_refl [OF fs_ok_simps(1) [OF fwf_fs_ok [OF es(3)]]] 0
    by (subst ilookup_loop.simps) auto
next
  case (Suc n)
  then have k: "k < length es" by simp
  have ek: "entry_ok (es ! k)" using Suc.prems(1) k by (simp add: dir_at_def)
  obtain f1 where f1: "iread f p (of_nat (32 * k)) 32 = Some (32, dirent_bytes (es ! k), f1)" "same f f1"
    "of_nat (32 * k) < isize f p"
    using read_entry [OF Suc.prems(1) k] by blast
  note d1 = same_dir [OF Suc.prems(1) f1(2)]
  have pt: "patch de 0 (dirent_bytes (es ! k)) = dirent_bytes (es ! k)"
    using Suc.prems(4) length_dirent [OF ek] by simp
  have nxt: "of_nat (32 * k) + 32 = (of_nat (32 * Suc k) :: u32)" by simp
  have IH: "\<exists>f' de' spare'. same f f' \<and> length de' = 32 \<and>
      ilookup_loop f1 p name (isize f p) (of_nat (32 * k) + 32) sp (dirent_bytes (es ! k)) =
        Some (map_option (\<lambda>j. (of_nat (32 * j), d_inode (es ! j))) (first_match es name (Suc k)), spare', de', f')"
    for sp
  proof -
    have "n = length es - Suc k" "Suc k \<le> length es" using Suc.hyps(2) k by simp_all
    from Suc.hyps(1) [OF this(1) d1(1) Suc.prems(2) this(2) length_dirent [OF ek], of sp]
    show ?thesis unfolding nxt d1(2) using same_trans [OF f1(2)] by blast
  qed
  show ?case
  proof (cases "d_inode (es ! k) = 0")
    case True
    then have "\<not> matches name (es ! k)" by (simp add: matches_def)
    then show ?thesis
      using True IH [of "if spare = isize f p then of_nat (32 * k) else spare"] f1(1,3)
      by (subst ilookup_loop.simps) (simp add: pt dirent_roundtrip [OF ek] first_match_step [OF k])
  next
    case False
    obtain r where r: "strcmp (d_name (es ! k)) (name @ [0]) = Some r" "r = 0 \<longleftrightarrow> dname (es ! k) = name"
      using strcmp_ok [OF cstr_dname [OF ek], of "name @ [0]" name] Suc.prems(2) by (auto simp: cstr_def)
    then show ?thesis
      using False IH [of spare] f1 length_dirent [OF ek]
      by (subst ilookup_loop.simps)
        (auto simp: pt dirent_roundtrip [OF ek] first_match_step [OF k] matches_def)
  qed
qed

text \<open>Looking a name up in a directory (without creating it) reads the entries in order: the
  result is the inode of the first entry in use with exactly that name, together with the entry's
  offset, or \<open>NULL\<close> when there is none; nothing on the disk changes.\<close>

lemma ilookup_finds:
  assumes "dir_at f p es" and "0 \<notin> set name" and "length junk = 32"
  shows "\<exists>f'. same f f' \<and> ilookup f p name TYPE_NONE junk =
    (case first_match es name 0 of
       None \<Rightarrow> Some ((None, None), f')
     | Some j \<Rightarrow> do { (ip, f'') \<leftarrow> iget f' (d_inode (es ! j)); Some ((Some ip, Some (of_nat (32 * j))), f'') })"
proof -
  have "itype f p = TYPE_DIR" using assms(1) by (simp add: dir_at_def)
  moreover obtain f' de' spare' where "same f f'"
    "ilookup_loop f p name (isize f p) 0 (isize f p) junk =
      Some (map_option (\<lambda>j. (of_nat (32 * j), d_inode (es ! j))) (first_match es name 0), spare', de', f')"
    using ilookup_loop_ok [OF assms(1,2) _ assms(3), of 0 "isize f p"] by auto
  ultimately show ?thesis
    by (cases "first_match es name 0") (auto simp: ilookup_def intro!: exI [of _ f'])
qed

text \<open>\<open>skipelem\<close> on slashes, an element and the rest of the path: it returns the rest without
  its leading slashes and the element, cut to 27 characters; a path of slashes only has no element.\<close>

lemma skipelem_element:
  assumes "set sl \<subseteq> {SLASH}" and "s \<noteq> []" and "SLASH \<notin> set s" and "r = [] \<or> hd r = SLASH"
  shows "skipelem (sl @ s @ r) = Some (dropWhile (\<lambda>c. c = SLASH) r, take MAX_NAME s) \<and> skipelem sl = None"
proof -
  obtain x xs where s: "s = x # xs" "x \<noteq> SLASH" using assms(2,3) by (cases s) auto
  have d: "dropWhile (\<lambda>c. c = SLASH) (sl @ ys) = dropWhile (\<lambda>c. c = SLASH) ys" for ys
    using assms(1) by (subst dropWhile_append2) auto
  have ns: "\<forall>c \<in> set s. c \<noteq> SLASH" using assms(3) by auto
  have "takeWhile (\<lambda>c. c \<noteq> SLASH) (s @ r) = s @ takeWhile (\<lambda>c. c \<noteq> SLASH) r"
    using ns by (intro takeWhile_append2) blast
  moreover have "dropWhile (\<lambda>c. c \<noteq> SLASH) (s @ r) = dropWhile (\<lambda>c. c \<noteq> SLASH) r"
    using ns by (intro dropWhile_append2) blast
  moreover have "takeWhile (\<lambda>c. c \<noteq> SLASH) r = []" "dropWhile (\<lambda>c. c \<noteq> SLASH) r = r"
    using assms(4) by (cases r; simp)+
  moreover have "dropWhile (\<lambda>c. c = SLASH) (s @ r) = s @ r" using s by simp
  ultimately show ?thesis using assms(2) d [of "[]"] by (simp add: skipelem_def d Let_def)
qed

end
