(* ===== verification/ListPool.thy ===== *)
theory ListPool
  imports Prelude
begin

text \<open>
  The kernel's wait lists, \<open>kernel/klib/list.c\<close>: circular doubly linked lists whose entries come
  from one static array \<open>list_buf\<close>, threaded on \<open>free_list\<close> while they are not in use. A pointer
  to a \<open>list_t\<close> is a \<open>node\<close>: the head of the free list, an entry of \<open>list_buf\<close>, or the head
  embedded in a semaphore (numbered by its owner). The payload \<open>ptr\<close> is a process, by its
  number in \<open>pcb\<close>. The interface \<open>fifo\<close> says what the semaphores rely on.
\<close>

subsection \<open>The operations\<close>

datatype node = FreeList | Buf nat | Head nat

record pool =
  nxt :: "node \<Rightarrow> node"
  prv :: "node \<Rightarrow> node"
  item :: "node \<Rightarrow> nat"
  inited :: bool

abbreviation (input) LIST_NUM :: nat where "LIST_NUM \<equiv> 256"

definition list_add_next :: "pool \<Rightarrow> node \<Rightarrow> node \<Rightarrow> pool" where
  "list_add_next s l p =
     (let s = s\<lparr>prv := (prv s)(p := l)\<rparr>;
          s = s\<lparr>nxt := (nxt s)(p := nxt s l)\<rparr>;
          s = s\<lparr>nxt := (nxt s)(prv s p := p)\<rparr>
      in s\<lparr>prv := (prv s)(nxt s p := p)\<rparr>)"

definition list_empty :: "pool \<Rightarrow> node \<Rightarrow> bool" where
  "list_empty s l \<longleftrightarrow> l = nxt s l"

definition list_unlink :: "pool \<Rightarrow> node \<Rightarrow> pool" where
  "list_unlink s p =
     (let s = s\<lparr>nxt := (nxt s)(prv s p := nxt s p)\<rparr>
      in s\<lparr>prv := (prv s)(nxt s p := prv s p)\<rparr>)"

definition list_remove_prev :: "pool \<Rightarrow> node \<Rightarrow> (node \<times> pool) option" where
  "list_remove_prev s l =
     (if list_empty s l then None else let p = prv s l in Some (p, list_unlink s p))"

definition self_loop :: "pool \<Rightarrow> node \<Rightarrow> pool" where
  "self_loop s l = s\<lparr>nxt := (nxt s)(l := l), prv := (prv s)(l := l)\<rparr>"

definition init_list :: "pool \<Rightarrow> pool" where
  "init_list s = foldl (\<lambda>s i. list_add_next s FreeList (Buf i)) (self_loop s FreeList) [0..<LIST_NUM]"

definition list_init :: "pool \<Rightarrow> node \<Rightarrow> pool" where
  "list_init s l =
     (let s = (if \<not> inited s then init_list (s\<lparr>inited := True\<rparr>) else s) in self_loop s l)"

definition list_enqueue :: "pool \<Rightarrow> node \<Rightarrow> nat \<Rightarrow> pool option" where
  "list_enqueue s l x = do {
     (p, s) \<leftarrow> list_remove_prev s FreeList;
     Some (list_add_next (s\<lparr>item := (item s)(p := x)\<rparr>) l p) }"

definition list_dequeue :: "pool \<Rightarrow> node \<Rightarrow> (nat option \<times> pool) option" where
  "list_dequeue s l =
     (if list_empty s l then Some (None, s)
      else do {
        (p, s) \<leftarrow> list_remove_prev s l;
        Some (Some (item s p), list_add_next s FreeList p) })"

definition list_remove :: "pool \<Rightarrow> node \<Rightarrow> pool" where
  "list_remove s p =
     (let s = s\<lparr>prv := (prv s)(nxt s p := prv s p)\<rparr>;
          s = s\<lparr>nxt := (nxt s)(prv s p := nxt s p)\<rparr>
      in list_add_next s FreeList p)"

subsection \<open>Rings\<close>

fun dlist :: "pool \<Rightarrow> node \<Rightarrow> node list \<Rightarrow> node \<Rightarrow> bool" where
  "dlist s a [] b \<longleftrightarrow> nxt s a = b \<and> prv s b = a"
| "dlist s a (x # xs) b \<longleftrightarrow> nxt s a = x \<and> prv s x = a \<and> dlist s x xs b"

definition ring :: "pool \<Rightarrow> node \<Rightarrow> node list \<Rightarrow> bool" where
  "ring s h xs \<longleftrightarrow> dlist s h xs h \<and> distinct (h # xs)"

lemma dlist_cong:
  "(\<And>n. n \<in> set (a # xs) \<Longrightarrow> nxt s' n = nxt s n) \<Longrightarrow>
   (\<And>n. n \<in> set (xs @ [b]) \<Longrightarrow> prv s' n = prv s n) \<Longrightarrow> dlist s' a xs b = dlist s a xs b"
  by (induction xs arbitrary: a) simp_all

lemma dlist_append:
  "dlist s a (xs @ y # ys) b \<longleftrightarrow> dlist s a xs y \<and> dlist s y ys b"
  by (induction xs arbitrary: a) auto

lemma dlist_ends: "dlist s a xs b \<Longrightarrow> nxt s a = hd (xs @ [b]) \<and> prv s b = last (a # xs)"
  by (induction xs arbitrary: a) auto

lemma ring_empty: "ring s h xs \<Longrightarrow> list_empty s h \<longleftrightarrow> xs = []"
  by (cases xs) (auto simp: ring_def list_empty_def)

lemma ring_cong:
  assumes "\<And>n. n \<in> set (h # xs) \<Longrightarrow> nxt s' n = nxt s n \<and> prv s' n = prv s n"
  shows "ring s' h xs = ring s h xs"
  using assms dlist_cong [of h xs s' s h] by (simp add: ring_def)

lemma self_loop_ring [simp]: "ring (self_loop s h) h []"
  by (simp add: ring_def self_loop_def)

lemma self_loop_other:
  "h \<notin> set (g # xs) \<Longrightarrow> ring (self_loop s h) g xs = ring s g xs"
  by (rule ring_cong) (auto simp: self_loop_def)

lemma add_next_ring:
  assumes r: "ring s h xs" and p: "p \<notin> set (h # xs)"
  shows "ring (list_add_next s h p) h (p # xs)"
proof (cases xs)
  case Nil
  then show ?thesis using assms by (auto simp: ring_def list_add_next_def Let_def)
next
  case (Cons y ys)
  have y: "nxt s h = y" "prv s y = h" "y \<noteq> h" "y \<noteq> p"
    and rest: "dlist s y ys h" and d: "distinct (h # y # ys)"
    using r p Cons by (auto simp: ring_def)
  let ?s = "list_add_next s h p"
  have "dlist ?s y ys h = dlist s y ys h"
    using d p Cons y by (intro dlist_cong) (auto simp: list_add_next_def Let_def)
  then show ?thesis
    using rest y d p Cons by (auto simp: ring_def list_add_next_def Let_def)
qed

lemma add_next_other:
  assumes r: "ring s h xs" and g: "ring s g ys" and dj: "set (h # xs) \<inter> set (g # ys) = {}"
    and p: "p \<notin> set (g # ys)"
  shows "ring (list_add_next s h p) g ys"
proof -
  have "nxt s h \<in> set (h # xs)"
    using r by (cases xs) (simp_all add: ring_def)
  then show ?thesis
    using g dj p by (subst ring_cong [of g ys _ s]) (auto simp: list_add_next_def Let_def)
qed

lemma remove_prev_ring:
  assumes r: "ring s h (xs @ [l])"
  shows "\<exists>s'. list_remove_prev s h = Some (l, s') \<and> ring s' h xs \<and> item s' = item s \<and>
    inited s' = inited s \<and>
    (\<forall>g ys. ring s g ys \<and> set (h # xs @ [l]) \<inter> set (g # ys) = {} \<longrightarrow> ring s' g ys)"
proof -
  have dl: "dlist s h xs l \<and> nxt s l = h \<and> prv s h = l" and d: "distinct (h # xs @ [l])"
    using r by (simp_all add: ring_def dlist_append)
  then have d: "dlist s h xs l" "nxt s l = h" "prv s l = last (h # xs)" "distinct (h # xs @ [l])"
    using dlist_ends [of s h xs l] by simp_all
  have l: "prv s h = l" "l \<noteq> h" using dl d(4) by auto
  let ?s = "list_unlink s l"
  have ne: "\<not> list_empty s h" using ring_empty [OF r] by simp
  have ring': "ring ?s h xs"
  proof (cases xs rule: rev_cases)
    case Nil
    then show ?thesis using d l by (auto simp: ring_def list_unlink_def Let_def)
  next
    case (snoc zs z)
    have z: "prv s l = z" "nxt s z = l" "z \<noteq> h" "z \<noteq> l" and dz: "dlist s h zs z"
      using d snoc by (auto simp: dlist_append)
    have "dlist ?s h zs z = dlist s h zs z"
      using d l z snoc by (intro dlist_cong) (auto simp: list_unlink_def Let_def)
    then show ?thesis
      using d l z dz snoc by (auto simp: ring_def dlist_append list_unlink_def Let_def)
  qed
  have pl: "prv s l \<in> set (h # xs)" using d(3) last_in_set [of "h # xs"] by simp
  have "ring ?s g ys" if "ring s g ys" "set (h # xs @ [l]) \<inter> set (g # ys) = {}" for g ys
  proof (subst ring_cong [of g ys _ s])
    fix n assume "n \<in> set (g # ys)"
    then have "n \<noteq> prv s l" "n \<noteq> h" using that(2) pl by auto
    then show "nxt ?s n = nxt s n \<and> prv ?s n = prv s n"
      using d(2) pl by (auto simp: list_unlink_def Let_def)
  qed (rule that(1))
  then show ?thesis
    using ne l ring' by (auto simp: list_remove_prev_def Let_def list_unlink_def)
qed

subsection \<open>The lists as queues\<close>

text \<open>
  \<open>pool_abs s n q\<close>: the pool is initialised and has \<open>n\<close> free entries, and \<open>q\<close> gives, for the
  heads that are initialised, the payloads queued there in the order they will be dequeued.
\<close>

definition pool_abs :: "pool \<Rightarrow> nat \<Rightarrow> (nat \<rightharpoonup> nat list) \<Rightarrow> bool" where
  "pool_abs s n q \<longleftrightarrow>
     inited s \<and> (\<exists>fr w. ring s FreeList fr \<and> length fr = n \<and> set fr \<subseteq> range Buf \<and>
       (\<forall>h \<in> dom q. ring s (Head h) (w h) \<and> set (w h) \<subseteq> range Buf \<and> set fr \<inter> set (w h) = {} \<and>
          q h = Some (map (item s) (rev (w h)))) \<and>
       (\<forall>h \<in> dom q. \<forall>h' \<in> dom q. h \<noteq> h' \<longrightarrow> set (w h) \<inter> set (w h') = {}))"

lemma pool_absE:
  assumes "pool_abs s n q"
  obtains fr w where "inited s" and "ring s FreeList fr" and "length fr = n" and "set fr \<subseteq> range Buf"
    and "\<And>h. h \<in> dom q \<Longrightarrow> ring s (Head h) (w h) \<and> set (w h) \<subseteq> range Buf \<and>
      set fr \<inter> set (w h) = {} \<and> q h = Some (map (item s) (rev (w h)))"
    and "\<And>h h'. h \<in> dom q \<Longrightarrow> h' \<in> dom q \<Longrightarrow> h \<noteq> h' \<Longrightarrow> set (w h) \<inter> set (w h') = {}"
proof -
  from assms obtain fr w where F: "inited s" "ring s FreeList fr" "length fr = n" "set fr \<subseteq> range Buf"
    and A: "\<forall>h \<in> dom q. ring s (Head h) (w h) \<and> set (w h) \<subseteq> range Buf \<and> set fr \<inter> set (w h) = {} \<and>
      q h = Some (map (item s) (rev (w h)))"
    and B: "\<forall>h \<in> dom q. \<forall>h' \<in> dom q. h \<noteq> h' \<longrightarrow> set (w h) \<inter> set (w h') = {}"
    unfolding pool_abs_def by (elim conjE exE) (rule that)
  show ?thesis by (rule that [OF F]) (use A B in blast)+
qed

lemma pool_absI:
  assumes "inited s" and "ring s FreeList fr" and "length fr = n" and "set fr \<subseteq> range Buf"
    and "\<And>h. h \<in> dom q \<Longrightarrow> ring s (Head h) (w h)"
    and "\<And>h. h \<in> dom q \<Longrightarrow> set (w h) \<subseteq> range Buf \<and> set fr \<inter> set (w h) = {}"
    and "\<And>h. h \<in> dom q \<Longrightarrow> q h = Some (map (item s) (rev (w h)))"
    and "\<And>h h'. h \<in> dom q \<Longrightarrow> h' \<in> dom q \<Longrightarrow> h \<noteq> h' \<Longrightarrow> set (w h) \<inter> set (w h') = {}"
  shows "pool_abs s n q"
  unfolding pool_abs_def
  by (intro conjI exI [of _ fr] exI [of _ w] ballI impI) (simp_all add: assms)

lemma not_Buf [simp]: "xs \<subseteq> range Buf \<Longrightarrow> Head h \<notin> xs" "xs \<subseteq> range Buf \<Longrightarrow> FreeList \<notin> xs"
  by auto

lemma ring_inited [simp]: "ring (s\<lparr>inited := b\<rparr>) h xs = ring s h xs"
  by (rule ring_cong) simp

lemma ring_item [simp]: "ring (s\<lparr>item := g\<rparr>) h xs = ring s h xs"
  by (rule ring_cong) simp

lemma list_add_next_sel [simp]:
  "item (list_add_next s h p) = item s" "inited (list_add_next s h p) = inited s"
  by (simp_all add: list_add_next_def Let_def)

lemma self_loop_sel [simp]: "item (self_loop s h) = item s" "inited (self_loop s h) = inited s"
  by (simp_all add: self_loop_def)

lemma init_list_ring:
  "ring (init_list s) FreeList (rev (map Buf [0..<LIST_NUM]))"
  "inited (init_list s) = inited s"
proof -
  have "ring (foldl (\<lambda>s i. list_add_next s FreeList (Buf i)) (self_loop s FreeList) [0..<k])
      FreeList (rev (map Buf [0..<k])) \<and>
    inited (foldl (\<lambda>s i. list_add_next s FreeList (Buf i)) (self_loop s FreeList) [0..<k]) = inited s"
    for k
  proof (induction k)
    case (Suc k)
    then show ?case
      using add_next_ring [of "foldl (\<lambda>s i. list_add_next s FreeList (Buf i)) (self_loop s FreeList) [0..<k]"
          FreeList "rev (map Buf [0..<k])" "Buf k"] by (auto simp: image_iff)
  qed simp
  from this [of LIST_NUM] show "ring (init_list s) FreeList (rev (map Buf [0..<LIST_NUM]))"
    "inited (init_list s) = inited s"
    by (simp_all only: init_list_def)
qed

lemma list_init_first:
  "\<not> inited s \<Longrightarrow> pool_abs (list_init s (Head h)) 256 [h \<mapsto> []]"
proof (rule pool_absI [of _ "rev (map Buf [0..<LIST_NUM])" _ _ "\<lambda>_. []"])
  assume s: "\<not> inited s"
  let ?s = "init_list (s\<lparr>inited := True\<rparr>)"
  have eq: "list_init s (Head h) = self_loop ?s (Head h)"
    using s by (simp add: list_init_def)
  show "inited (list_init s (Head h))" unfolding eq by (simp add: init_list_ring(2))
  have "Head h \<notin> set (FreeList # rev (map Buf [0..<LIST_NUM]))" by (auto simp del: upt_rec_numeral)
  then show "ring (list_init s (Head h)) FreeList (rev (map Buf [0..<LIST_NUM]))"
    unfolding eq using init_list_ring(1) [of "s\<lparr>inited := True\<rparr>"] self_loop_other by blast
  show "set (rev (map Buf [0..<LIST_NUM])) \<subseteq> range Buf" by (auto simp del: upt_rec_numeral)
qed (simp_all add: list_init_def Let_def del: upt_rec_numeral split: if_splits)

lemma list_init_again:
  assumes "pool_abs s n q"
  shows "pool_abs (list_init s (Head h)) n (q(h \<mapsto> []))"
  using assms
proof (cases rule: pool_absE)
  case (1 fr w)
  have "ring (self_loop s (Head h)) (Head g) (w g)" if "g \<in> dom q" "g \<noteq> h" for g
    using 1(5) [OF that(1)] that(2) by (subst self_loop_other) auto
  moreover have "ring (self_loop s (Head h)) FreeList fr"
    using 1(2,4) by (subst self_loop_other) auto
  moreover have "list_init s (Head h) = self_loop s (Head h)" using 1(1) by (simp add: list_init_def)
  ultimately show ?thesis
  proof (intro pool_absI [of _ fr _ _ "w(h := [])"], goal_cases)
    case (6 g)
    then show ?case using 1(5) [of g] by (cases "g = h") auto
  next
    case (8 g g')
    then show ?case using 1(6) [of g g'] by (cases "g = h"; cases "g' = h") auto
  qed (use 1(1,3,4,5) in \<open>auto split: if_splits\<close>)
qed

lemma list_enqueue_ok:
  assumes "pool_abs s (Suc n) q" and q: "q h = Some xs"
  shows "\<exists>s'. list_enqueue s (Head h) x = Some s' \<and> pool_abs s' n (q(h \<mapsto> xs @ [x]))"
  using assms(1)
proof (cases rule: pool_absE)
  case (1 fr w)
  obtain fr' p where fr: "fr = fr' @ [p]" using 1(3) by (cases fr rule: rev_cases) auto
  obtain s1 where s1: "list_remove_prev s FreeList = Some (p, s1)" "ring s1 FreeList fr'"
    "item s1 = item s" "inited s1 = inited s"
    "\<And>g ys. ring s g ys \<Longrightarrow> set (FreeList # fr' @ [p]) \<inter> set (g # ys) = {} \<Longrightarrow> ring s1 g ys"
    using remove_prev_ring [of s FreeList fr' p] 1(2) fr by blast
  have p: "p \<notin> set fr'" "p \<in> range Buf" using 1(2,4) fr by (auto simp: ring_def)
  have wr: "ring s1 (Head g) (w g)" "p \<notin> set (Head g # w g)" "Head g \<notin> set fr'" "FreeList \<notin> set (w g)"
    if "g \<in> dom q" for g
    using 1(5) [OF that] s1(5) [of "Head g" "w g"] 1(4) fr by auto
  let ?s2 = "s1\<lparr>item := (item s1)(p := x)\<rparr>"
  let ?s3 = "list_add_next ?s2 (Head h) p"
  have h: "h \<in> dom q" using q by auto
  have r2: "ring ?s2 (Head h) (w h)" using wr(1) [OF h] by simp
  have "ring ?s3 (Head h) (p # w h)"
    by (rule add_next_ring [OF r2 wr(2) [OF h]])
  moreover have "ring ?s3 (Head g) (w g)" if "g \<in> dom q" "g \<noteq> h" for g
    using add_next_other [OF r2 _ _ wr(2) [OF that(1)]] wr [OF that(1)] wr [OF h] that
      1(6) [OF h that(1)] 1(5) [OF that(1)] 1(5) [OF h] by auto
  moreover have "ring ?s3 FreeList fr'"
    using add_next_other [OF r2, of FreeList fr' p] s1(2) p wr [OF h] 1(5) [OF h] fr by auto
  moreover have "map (item ?s3) (rev (w g)) = map (item s) (rev (w g))" if "g \<in> dom q" for g
    using wr(2) [OF that] by (auto simp: s1(3))
  moreover have "xs = map (item s) (rev (w h))" using 1(5) [OF h] q by simp
  ultimately have "pool_abs ?s3 n (q(h \<mapsto> xs @ [x]))"
  proof (intro pool_absI [of _ fr' _ _ "w(h := p # w h)"], goal_cases)
    case (6 g)
    then show ?case using 1(5) [of g] 1(4) 1(5) [OF h] fr p wr [OF h] by (cases "g = h") auto
  next
    case (7 g)
    then show ?case using 1(5) [of g] h by (cases "g = h") (auto simp del: map_eq_conv)
  next
    case (8 g g')
    have "p \<notin> set (w g)" if "g \<in> dom q" for g using wr(2) [OF that] by simp
    then show ?case using 8 h 1(6) [of g g'] by (cases "g = h"; cases "g' = h") auto
  qed (use s1(4) 1(1,3,4) fr in \<open>auto split: if_splits\<close>)
  then show ?thesis using s1(1) by (simp add: list_enqueue_def)
qed

lemma list_dequeue_empty:
  assumes "pool_abs s n q" and "q h = Some []"
  shows "list_dequeue s (Head h) = Some (None, s)"
  using assms(1)
proof (cases rule: pool_absE)
  case (1 fr w)
  have "h \<in> dom q" using assms(2) by auto
  then show ?thesis
    using 1(5) [of h] assms(2) ring_empty [of s "Head h" "w h"] by (auto simp: list_dequeue_def)
qed

lemma list_dequeue_ok:
  assumes "pool_abs s n q" and q: "q h = Some (x # xs)"
  shows "\<exists>s'. list_dequeue s (Head h) = Some (Some x, s') \<and> pool_abs s' (Suc n) (q(h \<mapsto> xs))"
  using assms(1)
proof (cases rule: pool_absE)
  case (1 fr w)
  have h: "h \<in> dom q" using q by auto
  obtain ws p where w: "w h = ws @ [p]" "item s p = x" "xs = map (item s) (rev ws)"
    using 1(5) [OF h] q by (cases "w h" rule: rev_cases) auto
  obtain s1 where s1: "list_remove_prev s (Head h) = Some (p, s1)" "ring s1 (Head h) ws"
    "item s1 = item s" "inited s1 = inited s"
    "\<And>g ys. ring s g ys \<Longrightarrow> set (Head h # ws @ [p]) \<inter> set (g # ys) = {} \<Longrightarrow> ring s1 g ys"
    using remove_prev_ring [of s "Head h" ws p] 1(5) [OF h] w(1) by auto
  have p: "p \<notin> set ws" "p \<in> range Buf" "p \<notin> set fr" "Head h \<notin> set fr"
    using 1(4) 1(5) [OF h] w(1) by (auto simp: ring_def)
  have fr1: "ring s1 FreeList fr"
    using s1(5) [OF 1(2)] 1(4) 1(5) [OF h] w(1) by auto
  let ?s2 = "list_add_next s1 FreeList p"
  have "ring ?s2 FreeList (p # fr)"
    using add_next_ring [OF fr1, of p] p by auto
  moreover have "ring ?s2 (Head h) ws"
    using add_next_other [OF fr1 s1(2), of p] p 1(4) 1(5) [OF h] w(1) by auto
  moreover have "ring ?s2 (Head g) (w g)" if "g \<in> dom q" "g \<noteq> h" for g
  proof -
    have "ring s1 (Head g) (w g)"
      using s1(5) [of "Head g" "w g"] 1(5) [OF that(1)] 1(6) [OF h that(1)] 1(5) [OF h] w(1) that p(2) by auto
    then show ?thesis
      using add_next_other [OF fr1, of "Head g" "w g" p] 1(4) 1(5) [OF that(1)] 1(6) [OF h that(1)] w(1) that p
      by auto
  qed
  ultimately have "pool_abs ?s2 (Suc n) (q(h \<mapsto> xs))"
  proof (intro pool_absI [of _ "p # fr" _ _ "w(h := ws)"], goal_cases)
    case (6 g)
    then show ?case using 1(5) [of g] 1(4) 1(5) [OF h] 1(6) [OF h, of g] p w(1) by (cases "g = h") auto
  next
    case (8 g g')
    then show ?case using h 1(6) [of g g'] w(1) by (cases "g = h"; cases "g' = h") auto
  qed (use s1(3,4) 1(1,3,4,5) p w(3) in \<open>auto split: if_splits\<close>)
  moreover have "\<not> list_empty s (Head h)"
    using 1(5) [OF h] ring_empty [of s "Head h" "w h"] w(1) by auto
  ultimately show ?thesis using w(2) s1(1,3) by (simp add: list_dequeue_def)
qed

subsection \<open>The interface\<close>

locale fifo =
  fixes init :: "'s \<Rightarrow> node \<Rightarrow> 's"
    and enq :: "'s \<Rightarrow> node \<Rightarrow> nat \<Rightarrow> 's option"
    and deq :: "'s \<Rightarrow> node \<Rightarrow> (nat option \<times> 's) option"
    and queues :: "'s \<Rightarrow> nat \<Rightarrow> (nat \<rightharpoonup> nat list) \<Rightarrow> bool"
  assumes init_law: "queues s n q \<Longrightarrow> queues (init s (Head h)) n (q(h \<mapsto> []))"
    and enq_law: "queues s (Suc n) q \<Longrightarrow> q h = Some xs \<Longrightarrow>
      \<exists>s'. enq s (Head h) x = Some s' \<and> queues s' n (q(h \<mapsto> xs @ [x]))"
    and deq_none: "queues s n q \<Longrightarrow> q h = Some [] \<Longrightarrow> deq s (Head h) = Some (None, s)"
    and deq_some: "queues s n q \<Longrightarrow> q h = Some (x # xs) \<Longrightarrow>
      \<exists>s'. deq s (Head h) = Some (Some x, s') \<and> queues s' (Suc n) (q(h \<mapsto> xs))"
begin

fun enq_all :: "'s \<Rightarrow> nat \<Rightarrow> nat list \<Rightarrow> 's option" where
  "enq_all s h [] = Some s"
| "enq_all s h (x # xs) = do { s \<leftarrow> enq s (Head h) x; enq_all s h xs }"

fun deq_all :: "nat \<Rightarrow> 's \<Rightarrow> nat \<Rightarrow> (nat option list \<times> 's) option" where
  "deq_all 0 s h = Some ([], s)"
| "deq_all (Suc k) s h = do {
     (x, s) \<leftarrow> deq s (Head h); (xs, s) \<leftarrow> deq_all k s h; Some (x # xs, s) }"

lemma enq_all_ok:
  "queues s (length xs + n) q \<Longrightarrow> q h = Some ys \<Longrightarrow>
   \<exists>s'. enq_all s h xs = Some s' \<and> queues s' n (q(h \<mapsto> ys @ xs))"
proof (induction xs arbitrary: s q ys)
  case Nil
  then show ?case by (simp add: map_upd_triv)
next
  case (Cons x xs)
  obtain s1 where s1: "enq s (Head h) x = Some s1"
    "queues s1 (length xs + n) (q(h \<mapsto> ys @ [x]))"
    using enq_law [of s "length xs + n" q h ys x] Cons.prems by auto
  then show ?case using Cons.IH [OF s1(2), of "ys @ [x]"] by (simp add: fun_upd_same del: fun_upd_apply)
qed

lemma deq_all_ok:
  "queues s n q \<Longrightarrow> q h = Some (xs @ ys) \<Longrightarrow>
   \<exists>s'. deq_all (length xs) s h = Some (map Some xs, s') \<and> queues s' (n + length xs) (q(h \<mapsto> ys))"
proof (induction xs arbitrary: s n q)
  case Nil
  then show ?case by (simp add: map_upd_triv)
next
  case (Cons x xs)
  obtain s1 where s1: "deq s (Head h) = Some (Some x, s1)" "queues s1 (Suc n) (q(h \<mapsto> xs @ ys))"
    using deq_some [of s n q h x "xs @ ys"] Cons.prems by auto
  then show ?case using Cons.IH [OF s1(2)] by (auto simp del: fun_upd_apply simp: fun_upd_same)
qed

text \<open>First come, first served.\<close>

lemma fifo_order:
  assumes "queues s (length xs + n) q" and "q h = Some []"
  shows "\<exists>s1 s2. enq_all s h xs = Some s1 \<and> deq_all (length xs) s1 h = Some (map Some xs, s2) \<and>
    queues s2 (length xs + n) q"
proof -
  obtain s1 where s1: "enq_all s h xs = Some s1" "queues s1 n (q(h \<mapsto> xs))"
    using enq_all_ok [OF assms] by auto
  then show ?thesis
    using deq_all_ok [OF s1(2), of h xs "[]"] assms(2) by (auto simp: add.commute map_upd_triv)
qed

end

interpretation wq: fifo list_init list_enqueue list_dequeue pool_abs
  by unfold_locales (simp_all add: list_init_again list_enqueue_ok list_dequeue_empty list_dequeue_ok)

end
