(* ===== verification/Vme.thy ===== *)
theory Vme
  imports Prelude
begin

text \<open>
  Paging, \<open>kernel/src/vme.c\<close> (with the macros of \<open>kernel/include/x86/memory.h\<close>): the kernel heap of
  physical pages, threaded through their first words, and the two-level page tables that live
  in such pages. Physical memory is a byte array; the kernel runs on the identity mapping
  below \<open>PHY_MEM\<close>, so a kernel pointer is the physical address it holds, and page 0 is unmapped.
  The addresses of the static \<open>kpd\<close> and \<open>kpt\<close> are fields, they come from the linker.
\<close>

subsection \<open>Addresses and entries\<close>

abbreviation (input) KER_MEM :: u32 where "KER_MEM \<equiv> 0x00200000"
abbreviation (input) PHY_MEM :: u32 where "PHY_MEM \<equiv> 0x08000000"
abbreviation (input) USR_MEM :: u32 where "USR_MEM \<equiv> 0xc0000000"
abbreviation (input) PGSIZE :: nat where "PGSIZE \<equiv> 4096"
abbreviation (input) NR_PDE :: nat where "NR_PDE \<equiv> 1024"
abbreviation (input) NR_PTE :: nat where "NR_PTE \<equiv> 1024"
abbreviation (input) KPT_NUM :: nat where "KPT_NUM \<equiv> 32"

definition PAGE_DOWN :: "u32 \<Rightarrow> u32" where
  "PAGE_DOWN a = a AND 0xfffff000"

definition PAGE_UP :: "u32 \<Rightarrow> u32" where
  "PAGE_UP a = (a + 0xfff) AND 0xfffff000"

definition ADDR2DIR :: "u32 \<Rightarrow> u32" where
  "ADDR2DIR a = drop_bit 22 (a AND 0xffc00000)"

definition ADDR2TBL :: "u32 \<Rightarrow> u32" where
  "ADDR2TBL a = drop_bit 12 (a AND 0x003ff000)"

definition ADDR2OFF :: "u32 \<Rightarrow> u32" where
  "ADDR2OFF a = a AND 0x00000fff"

definition MAKE_PDE :: "u32 \<Rightarrow> u32 \<Rightarrow> u32" where
  "MAKE_PDE a prot = PAGE_DOWN a OR prot OR 1"

definition MAKE_PTE :: "u32 \<Rightarrow> u32 \<Rightarrow> u32" where
  "MAKE_PTE a prot = PAGE_DOWN a OR prot OR 1"

definition present :: "u32 \<Rightarrow> bool" where
  "present e \<longleftrightarrow> bit e 0"

text \<open>\<open>PDE2PT\<close> and \<open>PTE2PG\<close>: the page frame an entry names.\<close>

definition PTE2PG :: "u32 \<Rightarrow> u32" where
  "PTE2PG e = push_bit 12 (drop_bit 12 e)"

subsection \<open>The machine's memory\<close>

record vm =
  pmem :: "nat \<Rightarrow> u8"
  free_page_list :: u32
  cr3 :: u32
  kpd :: u32
  kpt :: u32
  tss_ss0 :: u32
  tss_esp0 :: u32

definition ld :: "vm \<Rightarrow> u32 \<Rightarrow> u32" where
  "ld s a = word_at (pmem s) (unat a)"

definition st :: "vm \<Rightarrow> u32 \<Rightarrow> u32 \<Rightarrow> vm" where
  "st s a w = s\<lparr>pmem := overlay (pmem s) (unat a) (le32 w)\<rparr>"

definition fill :: "vm \<Rightarrow> u32 \<Rightarrow> bytes \<Rightarrow> vm" where
  "fill s a bs = s\<lparr>pmem := overlay (pmem s) (unat a) bs\<rparr>"

text \<open>The addresses of entry \<open>i\<close> of a directory or table.\<close>

definition entry :: "u32 \<Rightarrow> nat \<Rightarrow> u32" where
  "entry t i = t + of_nat (4 * i)"

text \<open>The page addresses from \<open>a\<close> up to \<open>b\<close>, both page aligned.\<close>

definition pages :: "u32 \<Rightarrow> u32 \<Rightarrow> u32 list" where
  "pages a b = map (\<lambda>k. a + of_nat (PGSIZE * k)) [0..<(unat b - unat a) div PGSIZE]"

definition set_tss :: "vm \<Rightarrow> u32 \<Rightarrow> u32 \<Rightarrow> vm" where
  "set_tss s ss0 esp0 = s\<lparr>tss_ss0 := ss0, tss_esp0 := esp0\<rparr>"

definition set_cr3 :: "vm \<Rightarrow> u32 \<Rightarrow> vm" where
  "set_cr3 s pd = s\<lparr>cr3 := pd\<rparr>"

definition vm_curr :: "vm \<Rightarrow> u32" where
  "vm_curr s = PAGE_DOWN (cr3 s)"

subsection \<open>The heap of pages\<close>

definition init_kpt :: "vm \<Rightarrow> vm" where
  "init_kpt s =
     fold (\<lambda>i s.
       let s = st s (entry (kpd s) i) (MAKE_PDE (kpt s + of_nat (PGSIZE * i)) 3) in
       fold (\<lambda>j s. st s (entry (kpt s + of_nat (PGSIZE * i)) j)
           (MAKE_PTE (push_bit 22 (of_nat i) OR push_bit 12 (of_nat j)) 3)) [0..<NR_PTE] s)
       [0..<KPT_NUM] s"

definition init_heap :: "vm \<Rightarrow> vm" where
  "init_heap s =
     (let s = fold (\<lambda>p s. st s p (PAGE_DOWN (p + 4096))) (pages (PAGE_DOWN KER_MEM) (PHY_MEM - 4096)) s;
          s = st s (PHY_MEM - 4096) 0
      in s\<lparr>free_page_list := PAGE_DOWN KER_MEM\<rparr>)"

definition init_page :: "vm \<Rightarrow> vm" where
  "init_page s =
     (let s = init_kpt s; s = st s (kpt s) 0; s = set_cr3 s (kpd s) in init_heap s)"

definition kalloc :: "vm \<Rightarrow> (u32 \<times> vm) option" where
  "kalloc s =
     (if free_page_list s = 0 then None
      else let p = free_page_list s;
               s = s\<lparr>free_page_list := ld s p\<rparr>
           in Some (p, fill s p (replicate PGSIZE 0)))"

definition kfree :: "vm \<Rightarrow> u32 \<Rightarrow> vm option" where
  "kfree s ptr =
     (if ptr < KER_MEM \<or> ptr \<ge> PHY_MEM then None
      else if \<not> (PAGE_DOWN (free_page_list s) \<ge> KER_MEM \<and> PAGE_DOWN (free_page_list s) < PHY_MEM) then None
      else if \<not> (PAGE_DOWN ptr \<ge> KER_MEM \<and> PAGE_DOWN ptr < PHY_MEM) then None
      else let p = PAGE_DOWN ptr;
               s = fill s p (replicate PGSIZE 0);
               s = st s p (free_page_list s)
           in Some (s\<lparr>free_page_list := p\<rparr>))"

subsection \<open>Page directories\<close>

definition vm_alloc :: "vm \<Rightarrow> (u32 \<times> vm) option" where
  "vm_alloc s = do {
     (pgdir, s) \<leftarrow> kalloc s;
     let s = fold (\<lambda>i s. st s (entry pgdir i) (MAKE_PDE (kpt s + of_nat (PGSIZE * i)) 3)) [0..<KPT_NUM] s;
     let s = fold (\<lambda>i s. st s (entry pgdir i) 0) [KPT_NUM..<NR_PDE] s;
     Some (pgdir, s) }"

definition vm_teardown :: "vm \<Rightarrow> u32 \<Rightarrow> vm option" where
  "vm_teardown s pgdir = do {
     s \<leftarrow> foldM (\<lambda>s i.
        if present (ld s (entry pgdir i)) then do {
          let pt = PTE2PG (ld s (entry pgdir i));
          s \<leftarrow> foldM (\<lambda>s j.
             if present (ld s (entry pt j)) then kfree s (PTE2PG (ld s (entry pt j))) else Some s)
             s [0..<NR_PTE];
          kfree s pt
        } else Some s) s [KPT_NUM..<NR_PDE];
     kfree s pgdir }"

text \<open>A pointer to an entry is its address; \<open>None\<close> inside the pair is the \<open>NULL\<close> result.\<close>

definition vm_walkpte :: "vm \<Rightarrow> u32 \<Rightarrow> u32 \<Rightarrow> u32 \<Rightarrow> (u32 option \<times> vm) option" where
  "vm_walkpte s pgdir va prot =
     (let pde = entry pgdir (unat (ADDR2DIR va)) in
      if \<not> present (ld s pde) \<and> bit prot 0 then do {
        (pt, s) \<leftarrow> kalloc s;
        let s = st s pde (MAKE_PDE pt prot);
        (if prot AND NOT 7 = 0 then Some (Some (entry pt (unat (ADDR2TBL va))), s) else None)
      } else if \<not> present (ld s pde) then Some (None, s)
      else
        let s = (if prot \<noteq> 0 then st s pde (ld s pde OR prot) else s);
            pt = PTE2PG (ld s pde)
        in (if prot AND NOT 7 = 0 then Some (Some (entry pt (unat (ADDR2TBL va))), s) else None))"

text \<open>\<open>vm_walk\<close>: a fault on a protection violation, on an address below \<open>PHY_MEM\<close> and on a missing
  page table (the \<open>NULL\<close> entry is dereferenced); the result \<open>0\<close> is \<open>NULL\<close>.\<close>

definition vm_walk :: "vm \<Rightarrow> u32 \<Rightarrow> u32 \<Rightarrow> u32 \<Rightarrow> (u32 \<times> vm) option" where
  "vm_walk s pgdir va prot = do {
     (pte, s) \<leftarrow> vm_walkpte s pgdir va prot;
     (if va \<ge> PHY_MEM then
        case pte of
          None \<Rightarrow> None
        | Some a \<Rightarrow>
            if bit prot 0 \<and> ld s a AND prot AND 7 \<noteq> prot then None
            else if PTE2PG (ld s a) = 0 \<and> \<not> bit prot 0 then Some (0, s)
            else Some (PTE2PG (ld s a) OR ADDR2OFF va, s)
      else None) }"

definition map_page :: "u32 \<Rightarrow> u32 \<Rightarrow> vm \<Rightarrow> u32 \<Rightarrow> vm option" where
  "map_page pgdir prot s va = do {
     (pte, s) \<leftarrow> vm_walkpte s pgdir va prot;
     (case pte of
        None \<Rightarrow> None
      | Some a \<Rightarrow>
          if ld s a AND 1 = 0 then do {
            (page, s) \<leftarrow> kalloc s;
            Some (st s a (MAKE_PTE page prot))
          } else Some (st s a (ld s a OR prot))) }"

definition vm_map :: "vm \<Rightarrow> u32 \<Rightarrow> u32 \<Rightarrow> u32 \<Rightarrow> u32 \<Rightarrow> vm option" where
  "vm_map s pgdir va len prot =
     (let a = PAGE_DOWN va; b = PAGE_UP (va + len) in
      if bit prot 0 \<and> prot AND NOT 7 = 0 \<and> a \<ge> PHY_MEM \<and> b \<ge> a
      then foldM (map_page pgdir prot) s (pages a b)
      else None)"

definition unmap_page :: "u32 \<Rightarrow> vm \<Rightarrow> u32 \<Rightarrow> vm option" where
  "unmap_page pgdir s va = do {
     (pte, s) \<leftarrow> vm_walkpte s pgdir va 0;
     (case pte of
        None \<Rightarrow> Some s
      | Some a \<Rightarrow>
          if ld s a AND 1 \<noteq> 0 then do {
            s \<leftarrow> kfree s (PTE2PG (ld s a));
            Some (st s a (ld s a AND NOT 1))
          } else Some s) }"

definition vm_unmap :: "vm \<Rightarrow> u32 \<Rightarrow> u32 \<Rightarrow> u32 \<Rightarrow> vm option" where
  "vm_unmap s pgdir va len =
     (if ADDR2OFF va = 0 \<and> ADDR2OFF len = 0 then do {
        s \<leftarrow> foldM (unmap_page pgdir) s (pages (PAGE_DOWN va) (PAGE_UP (va + len)));
        Some (if pgdir = vm_curr s then set_cr3 s (vm_curr s) else s)
      } else None)"

text \<open>One round of \<open>vm_copycurr\<close>; \<open>memcpy\<close> through a \<open>NULL\<close> pointer faults on the unmapped page 0.\<close>

definition copy_page :: "u32 \<Rightarrow> vm \<Rightarrow> u32 \<Rightarrow> vm option" where
  "copy_page pgdir s va = do {
     (pte, s) \<leftarrow> vm_walkpte s (vm_curr s) va 0;
     (case pte of
        None \<Rightarrow> Some s
      | Some a \<Rightarrow>
          if ld s a AND 1 \<noteq> 0 then do {
            s \<leftarrow> vm_map s pgdir va 4096 (ld s a AND 7);
            (pa, s) \<leftarrow> vm_walk s (vm_curr s) va 0;
            (new_pa, s) \<leftarrow> vm_walk s pgdir va 0;
            (if pa = 0 \<or> new_pa = 0 then None
             else Some (fill s new_pa (map (pmem s) [unat pa..<unat pa + PGSIZE])))
          } else Some s) }"

definition vm_copycurr :: "vm \<Rightarrow> u32 \<Rightarrow> vm option" where
  "vm_copycurr s pgdir = foldM (copy_page pgdir) s (pages (PAGE_DOWN PHY_MEM) USR_MEM)"

end
