(* ===== verification/VmeHeap.thy ===== *)
theory VmeHeap
  imports Vme
begin

text \<open>
  The kernel heap of \<open>vme.c\<close> as a stack of free pages: \<open>heap s xs\<close> says that the linked list in
  memory holds the pages \<open>xs\<close>. The interface \<open>page_heap\<close> is what the paging code relies on,
  \<open>kalloc\<close> and \<open>kfree\<close> provide it.
\<close>

subsection \<open>Pages and their words\<close>

definition heap_page :: "u32 \<Rightarrow> bool" where
  "heap_page p \<longleftrightarrow> KER_MEM \<le> p \<and> p < PHY_MEM \<and> 4096 dvd unat p"

definition in_page :: "u32 \<Rightarrow> nat \<Rightarrow> bool" where
  "in_page p a \<longleftrightarrow> unat p \<le> a \<and> a < unat p + PGSIZE"

definition pw :: "vm \<Rightarrow> u32 \<Rightarrow> nat \<Rightarrow> u32" where
  "pw s p i = ld s (entry p i)"

lemma heap_page_bounds:
  "heap_page p \<Longrightarrow> 0x200000 \<le> unat p \<and> unat p + 4096 \<le> 0x8000000 \<and> unat p mod 4096 = 0"
  by (auto simp: heap_page_def word_le_nat_alt word_less_nat_alt dvd_def)

lemma heap_page_not_0 [simp]: "\<not> heap_page 0"
  by (simp add: heap_page_def word_le_nat_alt)

lemma unat_entry: "heap_page p \<Longrightarrow> i < 1024 \<Longrightarrow> unat (entry p i) = unat p + 4 * i"
proof -
  assume p: "heap_page p" and i: "i < 1024"
  have "unat (of_nat (4 * i) :: u32) = 4 * i" using i by (intro unat_of_nat32) simp
  then show ?thesis using heap_page_bounds [OF p] i by (simp add: entry_def unat_word_ariths)
qed

lemma pages_apart:
  assumes "heap_page p" and "heap_page q" and "p \<noteq> q"
  shows "unat p + 4096 \<le> unat q \<or> unat q + 4096 \<le> unat p"
proof -
  obtain a b where "unat p = 4096 * a" "unat q = 4096 * b"
    using assms(1,2) by (auto simp: heap_page_def dvd_def)
  moreover have "unat p \<noteq> unat q" using assms(3) word_unat_eq_iff [of p q] by blast
  ultimately show ?thesis by (cases "a < b") auto
qed

lemma in_page_unique: "heap_page p \<Longrightarrow> heap_page q \<Longrightarrow> in_page p a \<Longrightarrow> in_page q a \<Longrightarrow> p = q"
  using pages_apart [of p q] by (auto simp: in_page_def)

lemma pw_st [simp]:
  assumes "heap_page p" and "heap_page q" and "i < 1024" and "j < 1024"
  shows "pw (st s (entry p i) w) q j = (if q = p \<and> j = i then w else pw s q j)"
proof (cases "q = p \<and> j = i")
  case False
  have "4 * j + 4 \<le> 4 * i \<or> 4 * i + 4 \<le> 4 * j" if "i \<noteq> j" using that by auto
  then have "unat (entry q j) + 4 \<le> unat (entry p i) \<or> unat (entry p i) + 4 \<le> unat (entry q j)"
    using False pages_apart [OF assms(1,2)] assms by (cases "p = q") (auto simp: unat_entry)
  then show ?thesis
    using False word_at_overlay_other [of "unat (entry q j)" "unat (entry p i)" "le32 w" "pmem s"]
    by (simp add: pw_def ld_def st_def) auto
qed (simp add: pw_def ld_def st_def)

lemma pw_fill:
  assumes "heap_page p" and "heap_page q" and "j < 1024" and "length bs = 4096" and "q \<noteq> p"
  shows "pw (fill s p bs) q j = pw s q j"
proof -
  have "unat (entry q j) + 4 \<le> unat p \<or> unat p + 4096 \<le> unat (entry q j)"
    using pages_apart [OF assms(1,2)] assms by (auto simp: unat_entry)
  then show ?thesis
    using word_at_overlay_other [of "unat (entry q j)" "unat p" bs "pmem s"] assms(4)
    by (simp add: pw_def ld_def fill_def)
qed

lemma pw_zero:
  assumes "heap_page p" and "j < 1024"
  shows "pw (fill s p (replicate PGSIZE 0)) p j = 0"
proof -
  have "map (overlay (pmem s) (unat p) (replicate PGSIZE 0)) [unat (entry p j)..<unat (entry p j) + 4] =
      map (\<lambda>_. 0) [unat (entry p j)..<unat (entry p j) + 4]"
    using assms by (intro map_cong refl) (auto simp: overlay_def unat_entry)
  then have "word_at (overlay (pmem s) (unat p) (replicate PGSIZE 0)) (unat (entry p j)) = 0"
    using word_at_zero [of "unat (entry p j)"] by (simp only: word_at_def)
  then show ?thesis by (simp add: pw_def ld_def fill_def)
qed

lemma pmem_st: "heap_page p \<Longrightarrow> i < 1024 \<Longrightarrow> \<not> in_page p a \<Longrightarrow> pmem (st s (entry p i) w) a = pmem s a"
  by (auto simp: st_def overlay_def unat_entry in_page_def)

lemma pmem_fill: "length bs = PGSIZE \<Longrightarrow>
  pmem (fill s p bs) a = (if in_page p a then bs ! (a - unat p) else pmem s a)"
  by (auto simp: fill_def overlay_def in_page_def)

lemma st_sel [simp]:
  "free_page_list (st s a w) = free_page_list s" "cr3 (st s a w) = cr3 s" "kpt (st s a w) = kpt s"
  "kpd (st s a w) = kpd s"
  "free_page_list (fill s a bs) = free_page_list s" "cr3 (fill s a bs) = cr3 s" "kpt (fill s a bs) = kpt s"
  "kpd (fill s a bs) = kpd s"
  by (simp_all add: st_def fill_def)

lemma pw_upd [simp]:
  "pw (s\<lparr>free_page_list := x\<rparr>) p i = pw s p i" "pw (s\<lparr>cr3 := x\<rparr>) p i = pw s p i"
  by (simp_all add: pw_def ld_def)

lemma and_mask_page: "(a :: u32) AND 0xfffff000 = push_bit 12 (drop_bit 12 a)"
proof (rule bit_word_eqI)
  fix n assume n: "n < LENGTH(32)"
  have m: "(0xfffff000 :: u32) = push_bit 12 (mask 20)" by (simp add: mask_eq_exp_minus_1)
  have "bit (push_bit 12 (mask 20) :: u32) n \<longleftrightarrow> 12 \<le> n"
    using n by (auto simp: bit_simps)
  then have "bit (0xfffff000 :: u32) n \<longleftrightarrow> 12 \<le> n" by (simp only: m)
  then show "bit (a AND 0xfffff000) n = bit (push_bit 12 (drop_bit 12 a)) n"
    using n by (auto simp: bit_simps)
qed

lemma unat_page_of: "unat (push_bit 12 (drop_bit 12 (a :: u32))) = unat a div 4096 * 4096"
proof -
  have "unat a div 4096 * 4096 < 2 ^ 32"
    using unsigned_less [of a, where 'a = nat] by (simp add: le_less_trans [OF div_times_less_eq_dividend])
  then show ?thesis
    unfolding unsigned_push_bit_eq unsigned_drop_bit_eq
    by (simp add: push_bit_eq_mult drop_bit_eq_div take_bit_nat_eq_self)
qed

lemma PAGE_DOWN_aligned: "heap_page p \<Longrightarrow> PAGE_DOWN p = p"
  using unat_page_of [of p]
  by (simp add: PAGE_DOWN_def and_mask_page heap_page_def word_unat_eq_iff)

subsection \<open>The free list\<close>

fun flist :: "vm \<Rightarrow> u32 \<Rightarrow> u32 list \<Rightarrow> bool" where
  "flist s p [] \<longleftrightarrow> p = 0"
| "flist s p (x # xs) \<longleftrightarrow> p = x \<and> heap_page x \<and> flist s (pw s x 0) xs"

definition heap :: "vm \<Rightarrow> u32 list \<Rightarrow> bool" where
  "heap s xs \<longleftrightarrow> flist s (free_page_list s) xs \<and> distinct xs"

lemma flist_pages: "flist s p xs \<Longrightarrow> x \<in> set xs \<Longrightarrow> heap_page x"
  by (induction xs arbitrary: p) auto

lemma heap_pages: "heap s xs \<Longrightarrow> x \<in> set xs \<Longrightarrow> heap_page x"
  by (auto simp: heap_def intro: flist_pages)

lemma flist_cong: "(\<And>x. x \<in> set xs \<Longrightarrow> pw s' x 0 = pw s x 0) \<Longrightarrow> flist s' p xs = flist s p xs"
  by (induction xs arbitrary: p) auto

lemma heap_cong:
  "free_page_list s' = free_page_list s \<Longrightarrow> (\<And>x. x \<in> set xs \<Longrightarrow> pw s' x 0 = pw s x 0) \<Longrightarrow>
   heap s' xs = heap s xs"
  using flist_cong [of xs s' s] by (simp add: heap_def)

text \<open>\<open>outside s s' p\<close>: nothing but the free list and page \<open>p\<close> changed.\<close>

definition outside :: "vm \<Rightarrow> vm \<Rightarrow> u32 \<Rightarrow> bool" where
  "outside s s' p \<longleftrightarrow>
     (\<forall>a. \<not> in_page p a \<longrightarrow> pmem s' a = pmem s a) \<and>
     (\<forall>q. heap_page q \<longrightarrow> q \<noteq> p \<longrightarrow> (\<forall>j < 1024. pw s' q j = pw s q j)) \<and>
     cr3 s' = cr3 s \<and> kpt s' = kpt s \<and> kpd s' = kpd s"

lemma kalloc_ok:
  assumes h: "heap s (p # xs)"
  shows "\<exists>s'. kalloc s = Some (p, s') \<and> heap s' xs \<and> outside s s' p \<and>
    (\<forall>a. in_page p a \<longrightarrow> pmem s' a = 0) \<and> (\<forall>j < 1024. pw s' p j = 0)"
proof -
  have p: "free_page_list s = p" "heap_page p" "flist s (pw s p 0) xs" "p \<notin> set xs" "distinct xs"
    using h by (auto simp: heap_def)
  let ?s = "fill (s\<lparr>free_page_list := pw s p 0\<rparr>) p (replicate PGSIZE 0)"
  have "p \<noteq> 0" using p(2) by auto
  then have "kalloc s = Some (p, ?s)"
    using p(1) by (simp add: kalloc_def pw_def entry_def Let_def)
  moreover have "pw ?s q j = pw s q j" if "heap_page q" "q \<noteq> p" "j < 1024" for q j
    using pw_fill [OF p(2) that(1,3) _ that(2)] by simp
  moreover have "pw ?s x 0 = pw s x 0" if "x \<in> set xs" for x
    using calculation(2) [of x 0] flist_pages [OF p(3) that] that p(4) by (cases "x = p") simp_all
  then have "flist ?s (pw s p 0) xs"
    using p(3) by (subst flist_cong [of xs ?s s])
  moreover have "\<forall>j < 1024. pw ?s p j = 0" using pw_zero [OF p(2)] by blast
  ultimately show ?thesis
    using p(5) by (auto simp: heap_def outside_def pmem_fill in_page_def)
qed

lemma kalloc_empty: "heap s [] \<Longrightarrow> kalloc s = None"
  by (simp add: heap_def kalloc_def)

lemma kfree_ok:
  assumes h: "heap s (x # xs)" and p: "heap_page p" "p \<notin> set (x # xs)"
  shows "\<exists>s'. kfree s p = Some s' \<and> heap s' (p # x # xs) \<and> outside s s' p"
proof -
  have x: "free_page_list s = x" "heap_page x" using h by (auto simp: heap_def)
  let ?f = "fill s p (replicate PGSIZE 0)"
  let ?g = "st ?f (entry p 0) x"
  let ?s = "?g\<lparr>free_page_list := p\<rparr>"
  have kf: "kfree s p = Some ?s"
    using x p(1) PAGE_DOWN_aligned [OF p(1)] PAGE_DOWN_aligned [OF x(2)]
    by (simp add: kfree_def heap_page_def entry_def Let_def not_less not_le)
  have other: "pw ?s q j = pw s q j" if "heap_page q" "q \<noteq> p" "j < 1024" for q j
    using pw_fill [OF p(1) that(1,3) _ that(2), of "replicate PGSIZE 0"] that p(1) by simp
  have "pw ?s y 0 = pw s y 0" if "y \<in> set (x # xs)" for y
    using other [of y 0] heap_pages [OF h that] that p(2) by (cases "y = p") auto
  moreover have "flist s x (x # xs)" using h x(1) by (simp add: heap_def)
  ultimately have "flist ?s x (x # xs)"
    by (subst flist_cong [of "x # xs" ?s s])
  then have hp: "heap ?s (p # x # xs)"
    using h p x by (simp add: heap_def)
  moreover have "pmem ?s a = pmem s a" if "\<not> in_page p a" for a
    using that p(1) by (simp add: pmem_st pmem_fill)
  ultimately show ?thesis using other kf hp by (auto simp: outside_def)
qed

text \<open>With the last page handed out nothing can be given back.\<close>

lemma kfree_empty: "heap s [] \<Longrightarrow> kfree s p = None"
proof -
  have "\<not> KER_MEM \<le> PAGE_DOWN 0" by (simp add: PAGE_DOWN_def word_le_nat_alt)
  then show "heap s [] \<Longrightarrow> kfree s p = None" by (simp add: heap_def kfree_def)
qed

subsection \<open>The interface\<close>

locale page_heap =
  fixes alloc :: "'s \<Rightarrow> (u32 \<times> 's) option"
    and free :: "'s \<Rightarrow> u32 \<Rightarrow> 's option"
    and avail :: "'s \<Rightarrow> u32 list \<Rightarrow> bool"
    and word :: "'s \<Rightarrow> u32 \<Rightarrow> nat \<Rightarrow> u32"
  assumes alloc_law: "avail s (p # xs) \<Longrightarrow> \<exists>s'. alloc s = Some (p, s') \<and> avail s' xs \<and>
      (\<forall>j < 1024. word s' p j = 0) \<and>
      (\<forall>q j. heap_page q \<longrightarrow> q \<noteq> p \<longrightarrow> j < 1024 \<longrightarrow> word s' q j = word s q j)"
    and alloc_none: "avail s [] \<Longrightarrow> alloc s = None"
    and free_law: "avail s (x # xs) \<Longrightarrow> heap_page p \<Longrightarrow> p \<notin> set (x # xs) \<Longrightarrow>
      \<exists>s'. free s p = Some s' \<and> avail s' (p # x # xs) \<and>
        (\<forall>q j. heap_page q \<longrightarrow> q \<noteq> p \<longrightarrow> j < 1024 \<longrightarrow> word s' q j = word s q j)"
    and avail_pages: "avail s xs \<Longrightarrow> x \<in> set xs \<Longrightarrow> heap_page x"
    and avail_distinct: "avail s xs \<Longrightarrow> distinct xs"
begin

fun alloc_n :: "nat \<Rightarrow> 's \<Rightarrow> (u32 list \<times> 's) option" where
  "alloc_n 0 s = Some ([], s)"
| "alloc_n (Suc n) s = do { (p, s) \<leftarrow> alloc s; (ps, s) \<leftarrow> alloc_n n s; Some (p # ps, s) }"

text \<open>The pages handed out are different heap pages; the heap runs dry exactly when it is empty.\<close>

lemma alloc_n_ok:
  "avail s (ps @ xs) \<Longrightarrow> \<exists>s'. alloc_n (length ps) s = Some (ps, s') \<and> avail s' xs \<and> distinct ps \<and>
     (\<forall>p \<in> set ps. heap_page p \<and> p \<notin> set xs)"
proof (induction ps arbitrary: s)
  case (Cons p ps)
  obtain s1 where s1: "alloc s = Some (p, s1)" "avail s1 (ps @ xs)"
    using alloc_law [of s p "ps @ xs"] Cons.prems by auto
  show ?case
    using Cons.IH [OF s1(2)] s1(1) avail_distinct [OF Cons.prems] avail_pages [OF Cons.prems] by auto
qed simp

lemma alloc_n_too_many: "avail s xs \<Longrightarrow> length xs < n \<Longrightarrow> alloc_n n s = None"
proof (induction n arbitrary: s xs)
  case (Suc n)
  show ?case
  proof (cases xs)
    case Nil
    then show ?thesis using alloc_none Suc.prems by simp
  next
    case (Cons p ys)
    obtain s1 where "alloc s = Some (p, s1)" "avail s1 ys" using alloc_law Suc.prems Cons by blast
    then show ?thesis using Suc.IH [of s1 ys] Suc.prems Cons by simp
  qed
qed simp

text \<open>A page given back is the next one handed out, cleared.\<close>

lemma free_then_alloc:
  assumes "avail s (x # xs)" and "heap_page p" and "p \<notin> set (x # xs)"
  shows "\<exists>s1 s2. free s p = Some s1 \<and> alloc s1 = Some (p, s2) \<and> avail s2 (x # xs) \<and>
    (\<forall>j < 1024. word s2 p j = 0)"
proof -
  obtain s1 where s1: "free s p = Some s1" "avail s1 (p # x # xs)" using free_law [OF assms] by blast
  then show ?thesis using alloc_law [OF s1(2)] by auto
qed

end

interpretation kheap: page_heap kalloc kfree heap pw
proof unfold_locales
  fix s :: vm and x p xs
  show "heap s (p # xs) \<Longrightarrow> \<exists>s'. kalloc s = Some (p, s') \<and> heap s' xs \<and> (\<forall>j < 1024. pw s' p j = 0) \<and>
      (\<forall>q j. heap_page q \<longrightarrow> q \<noteq> p \<longrightarrow> j < 1024 \<longrightarrow> pw s' q j = pw s q j)"
    using kalloc_ok [of s p xs] unfolding outside_def by blast
  show "heap s [] \<Longrightarrow> kalloc s = None" by (rule kalloc_empty)
  show "heap s (x # xs) \<Longrightarrow> heap_page p \<Longrightarrow> p \<notin> set (x # xs) \<Longrightarrow>
      \<exists>s'. kfree s p = Some s' \<and> heap s' (p # x # xs) \<and>
        (\<forall>q j. heap_page q \<longrightarrow> q \<noteq> p \<longrightarrow> j < 1024 \<longrightarrow> pw s' q j = pw s q j)"
    using kfree_ok [of s x xs p] unfolding outside_def by blast
  show "heap s xs \<Longrightarrow> x \<in> set xs \<Longrightarrow> heap_page x" by (rule heap_pages)
  show "heap s xs \<Longrightarrow> distinct xs" by (simp add: heap_def)
qed

end
