(* ===== verification/VmeSpace.thy ===== *)
theory VmeSpace
  imports VmeHeap
begin

text \<open>
  Address spaces: what a page directory built by \<open>vm_alloc\<close> and \<open>vm_map\<close> means. \<open>pteval s pd d t\<close>
  is the page-table entry for the page with directory index \<open>d\<close> and table index \<open>t\<close>;
  \<open>opage\<close> names every heap page the address space owns (the directory, its tables, the frames),
  and \<open>aspace\<close> says that no two of them are the same page and none of them is free.
\<close>

subsection \<open>Entries\<close>

lemma frame_simps:
  assumes "heap_page p" and "k < 8"
  shows "PTE2PG (p OR k) = p" "PTE2PG p = p"
proof -
  obtain a where a: "unat p = 4096 * a" using assms(1) by (auto simp: heap_page_def dvd_def)
  show 1: "PTE2PG p = p"
    using unat_page_of [of p] a by (simp add: PTE2PG_def word_unat_eq_iff)
  have "drop_bit 12 k = 0"
  proof -
    have "unat k < 2 ^ 12" using assms(2) by (simp add: word_less_nat_alt)
    then show ?thesis
      by (simp add: word_unat_eq_iff drop_bit_eq_div unat_div div_eq_0_iff del: nat_uint_eq)
  qed
  then show "PTE2PG (p OR k) = p" using 1 by (simp add: PTE2PG_def)
qed

lemma prot_small: "(prot :: u32) AND NOT 7 = 0 \<Longrightarrow> prot < 8"
proof -
  assume a: "prot AND NOT 7 = 0"
  have "prot = prot AND 7 OR prot AND NOT 7" by (rule bit_word_eqI) (auto simp: bit_simps)
  then have "prot = prot AND 7" using a by simp
  moreover have "prot AND 7 \<le> 7" by (rule word_and_le1)
  ultimately have "prot \<le> 7" by simp
  then show "prot < 8" by (rule le_less_trans) simp
qed

lemma bit_7: "bit (7 :: u32) n \<longleftrightarrow> n < 3"
proof -
  have "(7 :: u32) = mask 3" by (simp add: mask_eq_exp_minus_1)
  then show ?thesis by (simp only: bit_mask_iff) auto
qed

lemma prot_bits:
  assumes "(prot :: u32) AND NOT 7 = 0" and "bit prot n"
  shows "n < 3"
proof (rule ccontr)
  assume "\<not> n < 3"
  moreover have "n < 32" using assms(2) bit_imp_le_length [of prot n] by simp
  ultimately have "bit (prot AND NOT 7) n"
    using assms(2) by (simp only: bit_and_iff bit_not_iff bit_7) simp
  then show False unfolding assms(1) by simp
qed

lemma prot_or_1: "(prot :: u32) AND NOT 7 = 0 \<Longrightarrow> (prot OR 1) AND NOT 7 = 0"
proof (rule bit_word_eqI)
  fix n assume p: "prot AND NOT 7 = 0"
  have "bit (prot OR 1) n \<Longrightarrow> n < 3" using prot_bits [OF p] by (auto simp: bit_simps)
  then show "bit ((prot OR 1) AND NOT 7) n = bit (0 :: u32) n"
    by (simp only: bit_and_iff bit_not_iff bit_7) simp
qed

lemma MAKE_frame:
  assumes "heap_page p" and "prot AND NOT 7 = 0"
  shows "PTE2PG (MAKE_PTE p prot) = p" "present (MAKE_PTE p prot)" "MAKE_PDE p prot = MAKE_PTE p prot"
proof -
  have "prot OR 1 < 8"
    using assms(2) by (intro prot_small prot_or_1)
  then show "PTE2PG (MAKE_PTE p prot) = p"
    using frame_simps(1) [OF assms(1)] PAGE_DOWN_aligned [OF assms(1)] by (simp add: MAKE_PTE_def or.assoc)
qed (simp_all add: MAKE_PTE_def MAKE_PDE_def present_def bit_simps)

lemma or_prot_frame: "prot AND NOT 7 = 0 \<Longrightarrow> PTE2PG (e OR prot) = PTE2PG e"
proof -
  assume "prot AND NOT 7 = 0"
  then have p: "\<not> bit prot n" if "12 \<le> n" for n
    using that prot_bits [of prot n] by auto
  show ?thesis
    unfolding PTE2PG_def by (rule bit_word_eqI) (auto simp: bit_simps p)
qed

definition pteval :: "vm \<Rightarrow> u32 \<Rightarrow> nat \<Rightarrow> nat \<Rightarrow> u32" where
  "pteval s pd d t = (if present (pw s pd d) then pw s (PTE2PG (pw s pd d)) t else 0)"

datatype owner = ODir | OTab nat | OFrame nat nat

fun opage :: "vm \<Rightarrow> u32 \<Rightarrow> owner \<Rightarrow> u32 option" where
  "opage s pd ODir = Some pd"
| "opage s pd (OTab d) =
     (if KPT_NUM \<le> d \<and> d < NR_PDE \<and> present (pw s pd d) then Some (PTE2PG (pw s pd d)) else None)"
| "opage s pd (OFrame d t) =
     (if KPT_NUM \<le> d \<and> d < NR_PDE \<and> t < NR_PTE \<and> present (pteval s pd d t)
      then Some (PTE2PG (pteval s pd d t)) else None)"

definition aspace :: "vm \<Rightarrow> u32 \<Rightarrow> u32 list \<Rightarrow> bool" where
  "aspace s pd fr \<longleftrightarrow>
     (\<forall>w p. opage s pd w = Some p \<longrightarrow> heap_page p \<and> p \<notin> set fr) \<and>
     (\<forall>w w' p. opage s pd w = Some p \<and> opage s pd w' = Some p \<longrightarrow> w = w')"

definition space_pages :: "vm \<Rightarrow> u32 \<Rightarrow> u32 set" where
  "space_pages s pd = {p. \<exists>w. opage s pd w = Some p}"

definition struct_pages :: "vm \<Rightarrow> u32 \<Rightarrow> u32 set" where
  "struct_pages s pd = {p. opage s pd ODir = Some p \<or> (\<exists>d. opage s pd (OTab d) = Some p)}"

lemma struct_sub: "struct_pages s pd \<subseteq> space_pages s pd"
  unfolding struct_pages_def space_pages_def by blast

lemma present_0 [simp]: "\<not> present 0"
  by (simp add: present_def)

lemma ptevalD:
  "present (pteval s pd d t) \<Longrightarrow> present (pw s pd d) \<and> pteval s pd d t = pw s (PTE2PG (pw s pd d)) t"
  by (auto simp: pteval_def split: if_splits)

lemma aspace_page: "aspace s pd fr \<Longrightarrow> opage s pd w = Some p \<Longrightarrow> heap_page p \<and> p \<notin> set fr"
  by (auto simp: aspace_def)

lemma aspace_inj: "aspace s pd fr \<Longrightarrow> opage s pd w = Some p \<Longrightarrow> opage s pd w' = Some p \<Longrightarrow> w = w'"
  by (auto simp: aspace_def)

lemma aspace_dir: "aspace s pd fr \<Longrightarrow> heap_page pd \<and> pd \<notin> set fr"
  using aspace_page [of s pd fr ODir pd] by simp

lemma aspace_tab:
  assumes "aspace s pd fr" and "KPT_NUM \<le> d" and "d < NR_PDE" and "present (pw s pd d)"
  shows "heap_page (PTE2PG (pw s pd d))" "PTE2PG (pw s pd d) \<notin> set fr" "PTE2PG (pw s pd d) \<noteq> pd"
  using aspace_page [of s pd fr "OTab d"] aspace_inj [of s pd fr "OTab d" pd ODir] assms by auto

lemma aspace_tab_inj:
  assumes "aspace s pd fr" and "KPT_NUM \<le> d" "d < NR_PDE" "present (pw s pd d)"
    and "KPT_NUM \<le> d'" "d' < NR_PDE" "present (pw s pd d')" and "PTE2PG (pw s pd d) = PTE2PG (pw s pd d')"
  shows "d = d'"
  using aspace_inj [of s pd fr "OTab d" "PTE2PG (pw s pd d)" "OTab d'"] assms by simp

text \<open>The pages of an address space in terms of its directory and table words.\<close>

lemma opage_cong:
  assumes "\<And>d. KPT_NUM \<le> d \<Longrightarrow> d < NR_PDE \<Longrightarrow> pw s' pd d = pw s pd d"
    and "\<And>d t. KPT_NUM \<le> d \<Longrightarrow> d < NR_PDE \<Longrightarrow> t < NR_PTE \<Longrightarrow> pteval s' pd d t = pteval s pd d t"
  shows "opage s' pd w = opage s pd w"
  by (cases w) (simp_all add: assms cong: conj_cong)

lemma space_untouched:
  assumes as: "aspace s pd fr"
    and same: "\<And>q j. q \<in> struct_pages s pd \<Longrightarrow> j < 1024 \<Longrightarrow> pw s' q j = pw s q j"
  shows "opage s' pd = opage s pd" "KPT_NUM \<le> d \<Longrightarrow> d < NR_PDE \<Longrightarrow> t < NR_PTE \<Longrightarrow> pteval s' pd d t = pteval s pd d t"
proof -
  have "opage s pd ODir = Some pd" by simp
  then have "pd \<in> struct_pages s pd" unfolding struct_pages_def by blast
  then have dir: "pw s' pd d = pw s pd d" if "d < NR_PDE" for d
    using that same by simp
  have pv: "pteval s' pd d t = pteval s pd d t" if "KPT_NUM \<le> d" "d < NR_PDE" "t < NR_PTE" for d t
  proof (cases "present (pw s pd d)")
    case True
    then have "opage s pd (OTab d) = Some (PTE2PG (pw s pd d))" using that by simp
    then have "PTE2PG (pw s pd d) \<in> struct_pages s pd" unfolding struct_pages_def by blast
    then show ?thesis using same that by (simp add: pteval_def dir)
  qed (simp add: pteval_def dir that)
  show "opage s' pd = opage s pd" using opage_cong [of s' pd s] dir pv by blast
  show "KPT_NUM \<le> d \<Longrightarrow> d < NR_PDE \<Longrightarrow> t < NR_PTE \<Longrightarrow> pteval s' pd d t = pteval s pd d t" by (rule pv)
qed

lemma pw_pmem:
  assumes "heap_page q" and "j < 1024" and "\<And>a. in_page q a \<Longrightarrow> pmem s' a = pmem s a"
  shows "pw s' q j = pw s q j"
proof -
  have "map (pmem s') [unat (entry q j)..<unat (entry q j) + 4] =
      map (pmem s) [unat (entry q j)..<unat (entry q j) + 4]"
    using assms unat_entry [OF assms(1,2)] by (intro map_cong refl assms(3)) (simp add: in_page_def)
  then show ?thesis by (simp only: pw_def ld_def word_at_def)
qed

subsection \<open>Growing an address space\<close>

lemma opage_cong2:
  assumes "\<And>d. KPT_NUM \<le> d \<Longrightarrow> d < NR_PDE \<Longrightarrow> present (pw s' pd d) = present (pw s pd d) \<and>
      (present (pw s pd d) \<longrightarrow> PTE2PG (pw s' pd d) = PTE2PG (pw s pd d))"
    and "\<And>d t. KPT_NUM \<le> d \<Longrightarrow> d < NR_PDE \<Longrightarrow> t < NR_PTE \<Longrightarrow>
      present (pteval s' pd d t) = present (pteval s pd d t) \<and>
      (present (pteval s pd d t) \<longrightarrow> PTE2PG (pteval s' pd d t) = PTE2PG (pteval s pd d t))"
  shows "opage s' pd = opage s pd"
proof
  fix w show "opage s' pd w = opage s pd w"
  proof (cases w)
    case (OTab d)
    then show ?thesis using assms(1) [of d] by (cases "KPT_NUM \<le> d \<and> d < NR_PDE") auto
  next
    case (OFrame d t)
    then show ?thesis
      using assms(2) [of d t] by (cases "KPT_NUM \<le> d \<and> d < NR_PDE \<and> t < NR_PTE") auto
  qed simp
qed

lemma aspace_same: "aspace s pd fr \<Longrightarrow> opage s' pd = opage s pd \<Longrightarrow> set fr' \<subseteq> set fr \<Longrightarrow> aspace s' pd fr'"
  unfolding aspace_def by auto

lemma aspace_ext:
  assumes "aspace s pd fr" and "opage s' pd = (opage s pd)(w := Some p)"
    and "p \<in> set fr" "p \<notin> set fr'" "heap_page p" "set fr' \<subseteq> set fr"
  shows "aspace s' pd fr'"
  using assms unfolding aspace_def by (auto split: if_splits)

lemma ADDR_bounds:
  "unat (ADDR2DIR va) = unat va div 2 ^ 22" "unat (ADDR2TBL va) = unat va div 4096 mod 1024"
  "unat (ADDR2DIR va) < 1024" "unat (ADDR2TBL va) < 1024"
proof -
  have d: "ADDR2DIR va = drop_bit 22 va"
  proof (rule bit_word_eqI)
    fix n assume n: "n < LENGTH(32)"
    have m: "(0xffc00000 :: u32) = push_bit 22 (mask 10)" by (simp add: mask_eq_exp_minus_1)
    have "bit (push_bit 22 (mask 10) :: u32) k \<longleftrightarrow> 22 \<le> k \<and> k < 32" for k
      by (auto simp: bit_simps)
    then have k: "bit (0xffc00000 :: u32) k \<longleftrightarrow> 22 \<le> k \<and> k < 32" for k by (simp only: m)
    have "bit va (22 + n) \<Longrightarrow> 22 + n < 32" using bit_imp_le_length [of va "22 + n"] by simp
    then show "bit (ADDR2DIR va) n = bit (drop_bit 22 va) n"
      unfolding ADDR2DIR_def bit_drop_bit_eq bit_and_iff o_def k by auto
  qed
  show "unat (ADDR2DIR va) = unat va div 2 ^ 22"
    unfolding d by (simp add: drop_bit_eq_div unat_div)
  have t: "ADDR2TBL va = take_bit 10 (drop_bit 12 va)"
  proof (rule bit_word_eqI)
    fix n assume n: "n < LENGTH(32)"
    have m: "(0x003ff000 :: u32) = push_bit 12 (mask 10)" by (simp add: mask_eq_exp_minus_1)
    have "bit (push_bit 12 (mask 10) :: u32) k \<longleftrightarrow> 12 \<le> k \<and> k < 22" for k
      by (auto simp: bit_simps)
    then have k: "bit (0x003ff000 :: u32) k \<longleftrightarrow> 12 \<le> k \<and> k < 22" for k by (simp only: m)
    then show "bit (ADDR2TBL va) n = bit (take_bit 10 (drop_bit 12 va)) n"
      unfolding ADDR2TBL_def bit_take_bit_iff bit_drop_bit_eq bit_and_iff o_def k by auto
  qed
  show "unat (ADDR2TBL va) = unat va div 4096 mod 1024"
    unfolding t by (simp add: take_bit_eq_mod drop_bit_eq_div unat_div unat_mod)
  then show "unat (ADDR2TBL va) < 1024" by simp
  show "unat (ADDR2DIR va) < 1024"
    using unsigned_less [of va, where 'a = nat] \<open>unat (ADDR2DIR va) = unat va div 2 ^ 22\<close>
    by (simp add: div_less_iff_less_mult)
qed

text \<open>\<open>kept_out s s' P\<close>: only the pages of \<open>P\<close> may have changed.\<close>

definition kept_out :: "vm \<Rightarrow> vm \<Rightarrow> u32 set \<Rightarrow> bool" where
  "kept_out s s' P \<longleftrightarrow> (\<forall>a. (\<forall>q \<in> P. \<not> in_page q a) \<longrightarrow> pmem s' a = pmem s a) \<and>
     cr3 s' = cr3 s \<and> kpt s' = kpt s \<and> kpd s' = kpd s"

lemma kept_out_refl [simp]: "kept_out s s P"
  by (simp add: kept_out_def)

lemma kept_out_trans: "kept_out s s' P \<Longrightarrow> kept_out s' s'' Q \<Longrightarrow> P \<subseteq> R \<Longrightarrow> Q \<subseteq> R \<Longrightarrow> kept_out s s'' R"
  unfolding kept_out_def by (metis subsetD)

lemma kept_out_st: "heap_page p \<Longrightarrow> i < 1024 \<Longrightarrow> p \<in> P \<Longrightarrow> kept_out s (st s (entry p i) w) P"
  by (auto simp: kept_out_def pmem_st)

lemma outside_kept: "outside s s' p \<Longrightarrow> p \<in> P \<Longrightarrow> kept_out s s' P"
  by (auto simp: kept_out_def outside_def)

text \<open>\<open>vm_walkpte\<close> for a user address: it ends at the entry, and made the table when there was none.\<close>

lemma walk_ok:
  assumes h: "heap s fr" and as: "aspace s pd fr" and prot: "bit prot 0" "prot AND NOT 7 = 0"
    and d: "d = unat (ADDR2DIR va)" "KPT_NUM \<le> d" and t: "t = unat (ADDR2TBL va)" and room: "fr \<noteq> []"
  shows "\<exists>T s' fr'. vm_walkpte s pd va prot = Some (Some (entry T t), s') \<and> heap s' fr' \<and>
    aspace s' pd fr' \<and> opage s' pd = (opage s pd)(OTab d := Some T) \<and>
    present (pw s' pd d) \<and> T = PTE2PG (pw s' pd d) \<and>
    (\<forall>d' t'. KPT_NUM \<le> d' \<and> d' < NR_PDE \<and> t' < NR_PTE \<longrightarrow> pteval s' pd d' t' = pteval s pd d' t') \<and>
    (fr' = fr \<or> fr' = tl fr) \<and> kept_out s s' (insert pd (set fr)) \<and> T \<in> struct_pages s pd \<union> set fr"
proof -
  have b: "d < 1024" "t < 1024" using ADDR_bounds d(1) t by simp_all
  have pd: "heap_page pd" "pd \<notin> set fr" using aspace_dir [OF as] by simp_all
  have prot0: "prot \<noteq> 0" using prot(1) by auto
  show ?thesis
  proof (cases "present (pw s pd d)")
    case True
    let ?T = "PTE2PG (pw s pd d)" and ?s = "st s (entry pd d) (pw s pd d OR prot)"
    note T = aspace_tab [OF as d(2) b(1) True]
    have w: "pw ?s q j = (if q = pd \<and> j = d then pw s pd d OR prot else pw s q j)"
      if "heap_page q" "j < 1024" for q j using that pd(1) b(1) by simp
    have pr: "present (pw s pd d OR prot)" using True by (simp add: present_def bit_simps)
    have pv: "pteval ?s pd d' t' = pteval s pd d' t'"
      if "KPT_NUM \<le> d'" "d' < NR_PDE" "t' < NR_PTE" for d' t'
      using aspace_tab [OF as that(1,2)] w [OF pd(1) that(2)] T True pr that
        or_prot_frame [OF prot(2), of "pw s pd d"] w
      by (cases "d' = d") (auto simp: pteval_def)
    have op: "opage ?s pd = opage s pd"
      using w [OF pd(1)] True pr or_prot_frame [OF prot(2)] pv by (intro opage_cong2) auto
    have "vm_walkpte s pd va prot = Some (Some (entry ?T t), ?s)"
      using True prot prot0 w [OF pd(1) b(1)] or_prot_frame [OF prot(2), of "pw s pd d"]
      by (simp add: vm_walkpte_def d(1) [symmetric] t [symmetric] pw_def [symmetric] Let_def)
    moreover have "heap ?s fr"
      using h heap_pages [OF h] w pd(2) by (subst heap_cong [of ?s s]) auto
    moreover have "aspace ?s pd fr" using aspace_same [OF as op] by simp
    moreover have "opage ?s pd = (opage s pd)(OTab d := Some ?T)"
      unfolding op using True d(2) b(1) by auto
    moreover have "kept_out s ?s (insert pd (set fr))" by (rule kept_out_st) (use pd b in simp_all)
    moreover have "opage s pd (OTab d) = Some ?T" using True d(2) b(1) by simp
    then have "?T \<in> struct_pages s pd" unfolding struct_pages_def by blast
    ultimately show ?thesis
      using pr w [OF pd(1) b(1)] or_prot_frame [OF prot(2), of "pw s pd d"] pv
      by (intro exI [of _ ?T] exI [of _ ?s] exI [of _ fr]) simp
  next
    case False
    obtain T xs where fr: "fr = T # xs" using room by (cases fr) auto
    obtain s1 where s1: "kalloc s = Some (T, s1)" "heap s1 xs" "outside s s1 T"
      "\<forall>j < 1024. pw s1 T j = 0"
      using kalloc_ok [of s T xs] h fr by blast
    have T: "heap_page T" "T \<noteq> pd" "T \<notin> set xs"
      using heap_pages [OF h] pd h fr by (auto simp: heap_def)
    have w1: "pw s1 q j = pw s q j" if "heap_page q" "q \<noteq> T" "j < 1024" for q j
      using s1(3) that unfolding outside_def by blast
    let ?s = "st s1 (entry pd d) (MAKE_PDE T prot)"
    note mk = MAKE_frame [OF T(1) prot(2)]
    have w: "pw ?s q j = (if q = pd \<and> j = d then MAKE_PTE T prot else pw s1 q j)"
      if "heap_page q" "j < 1024" for q j using that pd(1) b(1) mk(3) by simp
    have wd: "pw ?s pd d' = (if d' = d then MAKE_PTE T prot else pw s pd d')" if "d' < 1024" for d'
      using w [OF pd(1) that] w1 [OF pd(1) _ that] T(2) by auto
    have pv: "pteval ?s pd d' t' = pteval s pd d' t'"
      if "KPT_NUM \<le> d'" "d' < NR_PDE" "t' < NR_PTE" for d' t'
    proof (cases "d' = d")
      case True
      then show ?thesis
        using False wd [OF b(1)] mk w [OF T(1) that(3)] T(2) s1(4) that(3) by (simp add: pteval_def)
    next
      case ne: False
      have "PTE2PG (pw s pd d') \<noteq> T" "PTE2PG (pw s pd d') \<noteq> pd" "heap_page (PTE2PG (pw s pd d'))"
        if "present (pw s pd d')"
        using aspace_tab [OF as \<open>KPT_NUM \<le> d'\<close> \<open>d' < NR_PDE\<close> that] fr by auto
      then show ?thesis
        using ne wd [OF that(2)] w w1 that(3) by (auto simp: pteval_def)
    qed
    have op: "opage ?s pd = (opage s pd)(OTab d := Some T)"
    proof
      fix o' show "opage ?s pd o' = ((opage s pd)(OTab d := Some T)) o'"
      proof (cases o')
        case (OTab d')
        then show ?thesis using wd mk d(2) b(1) by (cases "d' < 1024") auto
      next
        case (OFrame d' t')
        then show ?thesis using pv [of d' t'] by (cases "KPT_NUM \<le> d' \<and> d' < NR_PDE \<and> t' < NR_PTE") auto
      qed simp
    qed
    have "vm_walkpte s pd va prot = Some (Some (entry T t), ?s)"
      using False prot s1(1)
      by (simp add: vm_walkpte_def d(1) [symmetric] t [symmetric] pw_def [symmetric] Let_def)
    moreover have "heap ?s xs"
      using s1(2) heap_pages [OF s1(2)] w pd(2) fr by (subst heap_cong [of ?s s1]) auto
    moreover have "aspace ?s pd xs"
      by (rule aspace_ext [OF as op]) (use T fr in auto)
    moreover have "kept_out s ?s (insert pd (set fr))"
      by (rule kept_out_trans [OF outside_kept [OF s1(3), of "set fr"] kept_out_st [of pd d "{pd}"]])
        (use pd b fr in auto)
    ultimately show ?thesis
      using mk wd [OF b(1)] pv op fr
      by (intro exI [of _ T] exI [of _ ?s] exI [of _ xs]) simp
  qed
qed

text \<open>Setting the entry the walk ended at.\<close>

lemma set_pte_ok:
  assumes h: "heap s fr" and as: "aspace s pd fr" and d: "KPT_NUM \<le> d" "d < NR_PDE" and t: "t < NR_PTE"
    and pr: "present (pw s pd d)" and T: "T = PTE2PG (pw s pd d)" and x: "x = st s (entry T t) e"
  shows "pteval x pd d t = e"
    and "KPT_NUM \<le> d' \<Longrightarrow> d' < NR_PDE \<Longrightarrow> t' < NR_PTE \<Longrightarrow> (d', t') \<noteq> (d, t) \<Longrightarrow> pteval x pd d' t' = pteval s pd d' t'"
    and "d' < NR_PDE \<Longrightarrow> pw x pd d' = pw s pd d'"
    and "heap x fr" and "kept_out s x {T}"
proof -
  note Tp = aspace_tab [OF as d pr, folded T]
  have pd: "heap_page pd" using aspace_dir [OF as] by simp
  have w: "pw x q j = (if q = T \<and> j = t then e else pw s q j)" if "heap_page q" "j < 1024" for q j
    using that Tp(1) t by (simp add: x)
  show dirw: "pw x pd d' = pw s pd d'" if "d' < NR_PDE" for d' using w [OF pd that] Tp(3) by simp
  show "pteval x pd d t = e" using pr dirw [OF d(2)] w [OF Tp(1) t] by (simp add: pteval_def T [symmetric])
  show "pteval x pd d' t' = pteval s pd d' t'"
    if "KPT_NUM \<le> d'" "d' < NR_PDE" "t' < NR_PTE" "(d', t') \<noteq> (d, t)"
  proof (cases "present (pw s pd d')")
    case True
    note T' = aspace_tab [OF as that(1,2) True]
    show ?thesis
      using True that w [OF T'(1) that(3)] dirw [OF that(2)] aspace_tab_inj [OF as d pr that(1,2) True] T
      by (auto simp: pteval_def)
  qed (simp add: pteval_def dirw that)
  show "heap x fr"
    using h heap_pages [OF h] w Tp(2) by (subst heap_cong [of x s]) (auto simp: x)
  show "kept_out s x {T}" unfolding x by (rule kept_out_st) (use Tp t in simp_all)
qed

definition idx :: "u32 \<Rightarrow> nat \<times> nat" where
  "idx va = (unat (ADDR2DIR va), unat (ADDR2TBL va))"

text \<open>What became of the entry at \<open>(d, t)\<close>: widened when it was there, else a fresh zeroed page.\<close>

definition entry_mapped :: "vm \<Rightarrow> vm \<Rightarrow> u32 \<Rightarrow> u32 list \<Rightarrow> u32 \<Rightarrow> nat \<times> nat \<Rightarrow> bool" where
  "entry_mapped s s' pd fr prot i =
     (case i of (d, t) \<Rightarrow>
       if present (pteval s pd d t) then pteval s' pd d t = pteval s pd d t OR prot
       else \<exists>p \<in> set fr. pteval s' pd d t = MAKE_PTE p prot \<and> heap_page p \<and> (\<forall>a. in_page p a \<longrightarrow> pmem s' a = 0))"

definition user_idx :: "nat \<times> nat \<Rightarrow> bool" where
  "user_idx i \<longleftrightarrow> KPT_NUM \<le> fst i \<and> fst i < NR_PDE \<and> snd i < NR_PTE"

abbreviation pte_at :: "vm \<Rightarrow> u32 \<Rightarrow> nat \<times> nat \<Rightarrow> u32" where
  "pte_at s pd i \<equiv> pteval s pd (fst i) (snd i)"

lemma pteval_opage:
  assumes "\<And>d'. KPT_NUM \<le> d' \<Longrightarrow> d' < NR_PDE \<Longrightarrow> pw s' pd d' = pw s pd d'"
    and "\<And>d' t'. KPT_NUM \<le> d' \<Longrightarrow> d' < NR_PDE \<Longrightarrow> t' < NR_PTE \<Longrightarrow> (d', t') \<noteq> (d, t) \<Longrightarrow> pteval s' pd d' t' = pteval s pd d' t'"
    and "user_idx (d, t)" and "present (pteval s' pd d t)" and "PTE2PG (pteval s' pd d t) = p"
  shows "opage s' pd = (opage s pd)(OFrame d t := Some p)"
proof
  fix w show "opage s' pd w = ((opage s pd)(OFrame d t := Some p)) w"
  proof (cases w)
    case (OTab d')
    then show ?thesis using assms(1) [of d'] by (cases "KPT_NUM \<le> d' \<and> d' < NR_PDE") auto
  next
    case (OFrame d' t')
    then show ?thesis
      using assms(2) [of d' t'] assms(3-5)
      by (cases "KPT_NUM \<le> d' \<and> d' < NR_PDE \<and> t' < NR_PTE"; cases "(d', t') = (d, t)")
        (auto simp: user_idx_def)
  qed simp
qed

lemma struct_pages_upd:
  "opage s' pd = (opage s pd)(OTab d := Some T) \<Longrightarrow> struct_pages s' pd \<subseteq> insert T (struct_pages s pd)"
  by (auto simp: struct_pages_def split: if_splits)

lemma present_and_1: "e AND 1 = 0 \<longleftrightarrow> \<not> present (e :: u32)"
  by (simp add: present_def and_one_eq bit_0 odd_iff_mod_2_eq_one even_iff_mod_2_eq_zero)

lemma map_page_ok:
  assumes h: "heap s fr" and as: "aspace s pd fr" and prot: "bit prot 0" "prot AND NOT 7 = 0"
    and u: "user_idx (idx va)" and room: "2 \<le> length fr"
  shows "\<exists>s' fr'. map_page pd prot s va = Some s' \<and> heap s' fr' \<and> aspace s' pd fr' \<and>
    (\<exists>k \<le> 2. fr' = drop k fr) \<and>
    (\<forall>i. user_idx i \<and> i \<noteq> idx va \<longrightarrow> pte_at s' pd i = pte_at s pd i) \<and>
    entry_mapped s s' pd fr prot (idx va) \<and>
    kept_out s s' (struct_pages s pd \<union> set fr) \<and> struct_pages s' pd \<subseteq> struct_pages s pd \<union> set fr"
proof -
  define d where "d = unat (ADDR2DIR va)"
  define t where "t = unat (ADDR2TBL va)"
  have i: "idx va = (d, t)" by (simp add: idx_def d_def t_def)
  have b: "KPT_NUM \<le> d" "d < NR_PDE" "t < NR_PTE" using u by (simp_all add: i user_idx_def)
  obtain T s1 fr1 where s1: "vm_walkpte s pd va prot = Some (Some (entry T t), s1)" "heap s1 fr1"
    "aspace s1 pd fr1" "opage s1 pd = (opage s pd)(OTab d := Some T)"
    "present (pw s1 pd d)" "T = PTE2PG (pw s1 pd d)"
    and pv1: "\<forall>d' t'. KPT_NUM \<le> d' \<and> d' < NR_PDE \<and> t' < NR_PTE \<longrightarrow> pteval s1 pd d' t' = pteval s pd d' t'"
    and fr1: "fr1 = fr \<or> fr1 = tl fr" and k1: "kept_out s s1 (insert pd (set fr))"
    and TP: "T \<in> struct_pages s pd \<union> set fr"
    using walk_ok [OF h as prot d_def b(1) t_def] room by fastforce
  have T: "heap_page T" "T \<notin> set fr1" using aspace_tab [OF s1(3) b(1,2) s1(5)] s1(6) by simp_all
  have fr1s: "set fr1 \<subseteq> set fr" "fr1 \<noteq> []" using fr1 room by (cases fr; auto)+
  have PD: "pd \<in> struct_pages s pd" by (simp add: struct_pages_def)
  have st1: "struct_pages s1 pd \<subseteq> struct_pages s pd \<union> set fr"
    using struct_pages_upd [OF s1(4)] TP by auto
  have e1: "ld s1 (entry T t) = pteval s pd d t"
  proof -
    have "pteval s1 pd d t = ld s1 (entry T t)" using s1(5,6) by (simp add: pteval_def pw_def [symmetric])
    then show ?thesis using pv1 b by simp
  qed
  show ?thesis
  proof (cases "present (pteval s pd d t)")
    case True
    define x where "x = st s1 (entry T t) (pteval s pd d t OR prot)"
    note x = set_pte_ok [OF s1(2,3) b s1(5,6) x_def]
    have m: "map_page pd prot s va = Some x"
      using s1(1) True by (simp add: map_page_def e1 present_and_1 x_def)
    have pr: "present (pteval s pd d t OR prot)" using True by (simp add: present_def bit_simps)
    have "opage x pd = (opage s1 pd)(OFrame d t := Some (PTE2PG (pteval s pd d t)))"
      using u i x(1-3) pr or_prot_frame [OF prot(2), of "pteval s pd d t"]
      by (intro pteval_opage) auto
    moreover have "opage s1 pd (OFrame d t) = Some (PTE2PG (pteval s pd d t))"
      using s1(4) True b by simp
    ultimately have op: "opage x pd = opage s1 pd" by (simp add: fun_upd_idem)
    have "aspace x pd fr1" using aspace_same [OF s1(3) op] by simp
    moreover have "\<exists>k \<le> 2. fr1 = drop k fr"
      using fr1 by (metis drop_0 drop_Suc one_le_numeral zero_le One_nat_def)
    moreover have "\<forall>j. user_idx j \<and> j \<noteq> idx va \<longrightarrow> pte_at x pd j = pte_at s pd j"
      using x(2) pv1 by (auto simp: user_idx_def i)
    moreover have "entry_mapped s x pd fr prot (idx va)"
      using True x(1) by (simp add: entry_mapped_def i)
    moreover have "kept_out s x (struct_pages s pd \<union> set fr)"
      using kept_out_trans [OF k1 x(5)] TP PD by auto
    moreover have "struct_pages x pd = struct_pages s1 pd" by (simp add: struct_pages_def op)
    ultimately show ?thesis using m x(4) st1 by blast
  next
    case False
    obtain F fr2 where f2: "fr1 = F # fr2" using fr1s(2) by (cases fr1) auto
    obtain s2 where s2: "kalloc s1 = Some (F, s2)" "heap s2 fr2" "outside s1 s2 F"
      "\<forall>a. in_page F a \<longrightarrow> pmem s2 a = 0"
      using kalloc_ok [of s1 F fr2] s1(2) f2 by blast
    have F: "heap_page F" "F \<noteq> T" "F \<notin> set fr2" "F \<in> set fr"
      using heap_pages [OF s1(2)] T(2) s1(2) f2 fr1s(1) by (auto simp: heap_def)
    have un: "opage s2 pd = opage s1 pd"
      "\<And>d' t'. KPT_NUM \<le> d' \<Longrightarrow> d' < NR_PDE \<Longrightarrow> t' < NR_PTE \<Longrightarrow> pteval s2 pd d' t' = pteval s1 pd d' t'"
      "\<And>d'. d' < NR_PDE \<Longrightarrow> pw s2 pd d' = pw s1 pd d'"
    proof -
      have *: "pw s2 q j = pw s1 q j" if "q \<in> struct_pages s1 pd" "j < 1024" for q j
      proof -
        have "heap_page q \<and> q \<noteq> F"
          using that(1) aspace_page [OF s1(3)] f2 unfolding struct_pages_def by fastforce
        then show ?thesis using s2(3) that(2) by (auto simp: outside_def)
      qed
      show "opage s2 pd = opage s1 pd"
        "\<And>d' t'. KPT_NUM \<le> d' \<Longrightarrow> d' < NR_PDE \<Longrightarrow> t' < NR_PTE \<Longrightarrow> pteval s2 pd d' t' = pteval s1 pd d' t'"
        using space_untouched [OF s1(3) *] by blast+
      have "opage s1 pd ODir = Some pd" by simp
      then have "pd \<in> struct_pages s1 pd" unfolding struct_pages_def by blast
      then show "\<And>d'. d' < NR_PDE \<Longrightarrow> pw s2 pd d' = pw s1 pd d'" using * by simp
    qed
    have as2: "aspace s2 pd fr2" using aspace_same [OF s1(3) un(1)] f2 by auto
    define x where "x = st s2 (entry T t) (MAKE_PTE F prot)"
    have pr2: "present (pw s2 pd d)" "T = PTE2PG (pw s2 pd d)" using un(3) b(2) s1(5,6) by simp_all
    note x = set_pte_ok [OF s2(2) as2 b pr2 x_def]
    note mk = MAKE_frame [OF F(1) prot(2)]
    have m: "map_page pd prot s va = Some x"
      using s1(1) False s2(1) by (simp add: map_page_def e1 present_and_1 x_def)
    have op: "opage x pd = (opage s1 pd)(OFrame d t := Some F)"
      unfolding un(1) [symmetric] using u i x(1-3) mk by (intro pteval_opage) auto
    have "aspace x pd fr2" by (rule aspace_ext [OF s1(3) op]) (use F f2 in auto)
    moreover have "\<exists>k \<le> 2. fr2 = drop k fr"
    proof -
      have "fr2 = tl fr \<or> fr2 = tl (tl fr)" using fr1 arg_cong [OF f2, of tl] by auto
      then show ?thesis
        by (metis drop_0 drop_Suc one_le_numeral order_refl One_nat_def numeral_2_eq_2 tl_drop)
    qed
    moreover have "\<forall>j. user_idx j \<and> j \<noteq> idx va \<longrightarrow> pte_at x pd j = pte_at s pd j"
      using x(2) un(2) pv1 by (auto simp: user_idx_def i)
    moreover have "pmem x a = 0" if "in_page F a" for a
    proof -
      have "\<not> in_page T a" using in_page_unique [OF F(1) T(1) that] F(2) by blast
      then show ?thesis using s2(4) that pmem_st [OF T(1) b(3)] by (simp add: x_def)
    qed
    then have "entry_mapped s x pd fr prot (idx va)"
      using False x(1) F by (auto simp: entry_mapped_def i)
    moreover have "kept_out s x (struct_pages s pd \<union> set fr)"
      using kept_out_trans [OF k1 kept_out_trans [OF outside_kept [OF s2(3), of "{F}"] x(5), of "{F, T}"]]
        TP PD F(4) by auto
    moreover have "struct_pages x pd = struct_pages s1 pd" by (simp add: struct_pages_def op)
    ultimately show ?thesis using m x(4) st1 by blast
  qed
qed

subsection \<open>Mapping a range\<close>

lemma entry_mapped_later:
  assumes m: "entry_mapped s s1 pd fr prot i" and u: "user_idx i"
    and e: "pte_at s2 pd i = pte_at s1 pd i" and as: "aspace s1 pd fr1" and h1: "heap s1 fr1"
    and k: "kept_out s1 s2 (struct_pages s1 pd \<union> set fr1)" and prot: "prot AND NOT 7 = 0"
  shows "entry_mapped s s2 pd fr prot i"
proof (cases "present (pte_at s pd i)")
  case True
  then show ?thesis using m e by (simp add: entry_mapped_def split: prod.splits)
next
  case False
  obtain d t where i: "i = (d, t)" by (cases i)
  obtain p where p: "p \<in> set fr" "pteval s1 pd d t = MAKE_PTE p prot" "heap_page p"
    "\<forall>a. in_page p a \<longrightarrow> pmem s1 a = 0"
    using m False by (auto simp: entry_mapped_def i)
  have o: "opage s1 pd (OFrame d t) = Some p"
    using u p(2) MAKE_frame [OF p(3) prot] by (simp add: i user_idx_def)
  have "pmem s2 a = pmem s1 a" if a: "in_page p a" for a
  proof -
    have "\<not> in_page q a" if q: "q \<in> struct_pages s1 pd \<union> set fr1" for q
    proof
      assume "in_page q a"
      show False
      proof (cases "q \<in> struct_pages s1 pd")
        case True
        then obtain w where w: "opage s1 pd w = Some q" "w \<noteq> OFrame d t"
          unfolding struct_pages_def by blast
        then have "q = p"
          using in_page_unique [OF _ p(3) \<open>in_page q a\<close> a] aspace_page [OF as w(1)] by simp
        then show False using aspace_inj [OF as w(1)] o w(2) by simp
      next
        case False
        then have "q \<in> set fr1" using q by simp
        moreover have "p \<notin> set fr1" using aspace_page [OF as o] by simp
        ultimately show False
          using in_page_unique [OF heap_pages [OF h1] p(3) \<open>in_page q a\<close> a] by blast
      qed
    qed
    then show ?thesis using k unfolding kept_out_def by blast
  qed
  then show ?thesis using False p e by (auto simp: entry_mapped_def i)
qed

lemma entry_mapped_from:
  assumes "entry_mapped s1 s2 pd fr1 prot i" and "pte_at s1 pd i = pte_at s pd i" and "set fr1 \<subseteq> set fr"
  shows "entry_mapped s s2 pd fr prot i"
proof -
  obtain d t where i: "i = (d, t)" by (cases i)
  show ?thesis using assms unfolding entry_mapped_def i by (cases "present (pteval s pd d t)") (simp, auto)
qed

lemma map_pages_ok:
  assumes "heap s fr" and "aspace s pd fr" and prot: "bit prot 0" "prot AND NOT 7 = 0"
    and "distinct (map idx vas)" and "\<forall>va \<in> set vas. user_idx (idx va)" and "2 * length vas \<le> length fr"
  shows "\<exists>s' fr'. foldM (map_page pd prot) s vas = Some s' \<and> heap s' fr' \<and> aspace s' pd fr' \<and>
    (\<exists>k \<le> 2 * length vas. fr' = drop k fr) \<and>
    (\<forall>i. user_idx i \<and> i \<notin> idx ` set vas \<longrightarrow> pte_at s' pd i = pte_at s pd i) \<and>
    (\<forall>va \<in> set vas. entry_mapped s s' pd fr prot (idx va)) \<and>
    kept_out s s' (struct_pages s pd \<union> set fr) \<and> struct_pages s' pd \<subseteq> struct_pages s pd \<union> set fr"
  using assms(1,2,5-)
proof (induction vas arbitrary: s fr)
  case Nil
  then show ?case by auto
next
  case (Cons va vas)
  have u: "user_idx (idx va)" and room: "2 \<le> length fr" using Cons.prems by simp_all
  obtain s1 fr1 where s1: "map_page pd prot s va = Some s1" "heap s1 fr1" "aspace s1 pd fr1"
    and fr1: "\<exists>k \<le> 2. fr1 = drop k fr"
    and e1: "\<forall>i. user_idx i \<and> i \<noteq> idx va \<longrightarrow> pte_at s1 pd i = pte_at s pd i"
    and m1: "entry_mapped s s1 pd fr prot (idx va)"
    and k1: "kept_out s s1 (struct_pages s pd \<union> set fr)"
    and st1: "struct_pages s1 pd \<subseteq> struct_pages s pd \<union> set fr"
    using map_page_ok [OF Cons.prems(1,2) prot u room] by metis
  have fr1s: "set fr1 \<subseteq> set fr" using fr1 set_drop_subset by fastforce
  have room1: "2 * length vas \<le> length fr1" using fr1 Cons.prems(5) by auto
  obtain s2 fr2 where s2: "foldM (map_page pd prot) s1 vas = Some s2" "heap s2 fr2" "aspace s2 pd fr2"
    and fr2: "\<exists>k \<le> 2 * length vas. fr2 = drop k fr1"
    and e2: "\<forall>i. user_idx i \<and> i \<notin> idx ` set vas \<longrightarrow> pte_at s2 pd i = pte_at s1 pd i"
    and m2: "\<forall>va \<in> set vas. entry_mapped s1 s2 pd fr1 prot (idx va)"
    and k2: "kept_out s1 s2 (struct_pages s1 pd \<union> set fr1)"
    and st2: "struct_pages s2 pd \<subseteq> struct_pages s1 pd \<union> set fr1"
    using Cons.IH [OF s1(2,3) _ _ room1] Cons.prems(3,4) by auto
  have va: "idx va \<notin> idx ` set vas" using Cons.prems(3) by auto
  have "entry_mapped s s2 pd fr prot (idx va)"
    using entry_mapped_later [OF m1 u _ s1(3,2) k2 prot(2)] e2 u va by blast
  moreover have "entry_mapped s s2 pd fr prot (idx v)" if "v \<in> set vas" for v
  proof -
    have "idx v \<in> idx ` set vas" using that by (rule imageI)
    then have "idx v \<noteq> idx va" using va by metis
    moreover have "user_idx (idx v)" using that Cons.prems(4) by simp
    ultimately have "pte_at s1 pd (idx v) = pte_at s pd (idx v)" using e1 by blast
    then show ?thesis using entry_mapped_from [OF _ _ fr1s] m2 that by blast
  qed
  moreover have "\<exists>k \<le> 2 * length (va # vas). fr2 = drop k fr"
  proof -
    obtain k l where "k \<le> 2" "fr1 = drop k fr" "l \<le> 2 * length vas" "fr2 = drop l fr1"
      using fr1 fr2 by blast
    then show ?thesis by (intro exI [of _ "l + k"]) simp
  qed
  moreover have "kept_out s s2 (struct_pages s pd \<union> set fr)"
    using kept_out_trans [OF k1 k2] st1 fr1s by blast
  moreover have "pte_at s2 pd i = pte_at s pd i" if "user_idx i" "i \<notin> idx ` set (va # vas)" for i
    using that e1 e2 by simp
  moreover have "struct_pages s2 pd \<subseteq> struct_pages s pd \<union> set fr" using st1 st2 fr1s by blast
  ultimately show ?case using s1(1) s2 by auto
qed

text \<open>The pages of a range have different entries.\<close>

lemma idx_page: "idx va = (unat va div 4096 div 1024, unat va div 4096 mod 1024)"
  by (simp add: idx_def ADDR_bounds div_mult2_eq [symmetric])

lemma idx_inj: "idx va = idx vb \<longleftrightarrow> unat va div 4096 = unat vb div 4096"
proof -
  have "n = 1024 * (n div 1024) + n mod 1024" for n :: nat by simp
  then show ?thesis unfolding idx_page by (metis prod.inject)
qed

lemma pages_unat:
  fixes a b :: u32
  assumes "k < (unat b - unat a) div PGSIZE"
  shows "unat (a + of_nat (PGSIZE * k)) = unat a + PGSIZE * k"
proof -
  have "PGSIZE * k < unat b - unat a" using assms by linarith
  then have "unat a + PGSIZE * k < 2 ^ 32"
    using unsigned_less [of b, where 'a = nat] by (simp del: unsigned_less)
  then show ?thesis by (simp add: unat_word_ariths unat_of_nat32)
qed

lemma pages_idx_distinct: "distinct (map idx (pages a b))"
proof -
  have "inj_on (\<lambda>k. idx (a + of_nat (PGSIZE * k))) {0..<(unat b - unat a) div PGSIZE}"
    by (rule inj_onI) (simp add: idx_inj pages_unat del: of_nat_mult)
  then show ?thesis by (simp add: pages_def distinct_map comp_inj_on o_def)
qed

lemma pages_user: "PHY_MEM \<le> a \<Longrightarrow> va \<in> set (pages a b) \<Longrightarrow> user_idx (idx va)"
proof -
  assume a: "PHY_MEM \<le> a" and "va \<in> set (pages a b)"
  then obtain k where k: "va = a + of_nat (PGSIZE * k)" "k < (unat b - unat a) div PGSIZE"
    by (auto simp: pages_def)
  have "unat PHY_MEM \<le> unat a" using a by (simp add: word_le_nat_alt)
  then have "0x8000000 \<le> unat va" using pages_unat [OF k(2)] k(1) by simp
  then have "0x8000000 div 2 ^ 22 \<le> unat va div 2 ^ 22" by (rule div_le_mono)
  then show ?thesis using ADDR_bounds [of va] by (simp add: user_idx_def idx_def)
qed

end
