(* ===== verification/VmeCopy.thy ===== *)
theory VmeCopy
  imports VmeSpace
begin

text \<open>
  \<open>vm_map\<close> on a range, \<open>vm_alloc\<close>, and \<open>vm_copycurr\<close>, the copy of an address space behind
  \<open>fork\<close>: the new address space maps what the current one maps, with the same rights, to pages
  of its own that hold the same bytes, and the current one is unchanged.
\<close>

subsection \<open>Single pages\<close>

definition page_aligned :: "u32 \<Rightarrow> bool" where
  "page_aligned a \<longleftrightarrow> 4096 dvd unat a"

lemma aligned_PAGE_DOWN: "page_aligned a \<Longrightarrow> PAGE_DOWN a = a"
  using unat_page_of [of a] by (simp add: PAGE_DOWN_def and_mask_page page_aligned_def word_unat_eq_iff)

lemma aligned_ADDR2OFF: "page_aligned a \<Longrightarrow> ADDR2OFF a = 0"
proof -
  assume "page_aligned a"
  moreover have m: "(0xfff :: u32) = mask 12" by (simp add: mask_eq_exp_minus_1)
  have "ADDR2OFF a = take_bit 12 a" by (simp only: ADDR2OFF_def m take_bit_eq_mask)
  then have "unat (ADDR2OFF a) = unat a mod 4096" by (simp add: take_bit_eq_mod unat_mod)
  ultimately show "ADDR2OFF a = 0" by (simp add: page_aligned_def word_unat_eq_iff)
qed

lemma one_page:
  assumes a: "page_aligned va" and b: "unat va + 8192 \<le> 2 ^ 32"
  shows "pages (PAGE_DOWN va) (PAGE_UP (va + 4096)) = [va]" "PAGE_DOWN va \<le> PAGE_UP (va + 4096)"
proof -
  obtain k where k: "unat va = 4096 * k" using a by (auto simp: page_aligned_def dvd_def)
  have "unat (va + 4096 + 0xfff) = unat va + 8191"
    using b by (simp add: unat_word_ariths)
  then have "unat (PAGE_UP (va + 4096)) = (unat va + 8191) div 4096 * 4096"
    by (simp add: PAGE_UP_def and_mask_page unat_page_of)
  also have "\<dots> = unat va + 4096" using k by simp
  finally have up: "unat (PAGE_UP (va + 4096)) = unat va + 4096" .
  show "pages (PAGE_DOWN va) (PAGE_UP (va + 4096)) = [va]"
    using up by (simp add: pages_def aligned_PAGE_DOWN [OF a])
  show "PAGE_DOWN va \<le> PAGE_UP (va + 4096)"
    using up by (simp add: aligned_PAGE_DOWN [OF a] word_le_nat_alt)
qed

lemma pages_member:
  assumes "va \<in> set (pages a b)" and "page_aligned a"
  shows "page_aligned va" "unat a \<le> unat va" "unat va + 4096 \<le> unat b"
proof -
  obtain k where k: "va = a + of_nat (PGSIZE * k)" "k < (unat b - unat a) div PGSIZE"
    using assms(1) by (auto simp: pages_def)
  have u: "unat va = unat a + PGSIZE * k" using pages_unat [OF k(2)] k(1) by simp
  then show "page_aligned va" "unat a \<le> unat va" using assms(2) by (simp_all add: page_aligned_def)
  have "Suc k \<le> (unat b - unat a) div PGSIZE" using k(2) by simp
  then have "PGSIZE * Suc k \<le> unat b - unat a" by (simp add: less_eq_div_iff_mult_less_eq mult.commute)
  then show "unat va + 4096 \<le> unat b" using u by simp
qed

subsection \<open>Looking up without changing anything\<close>

lemma walkpte_0:
  assumes "unat (ADDR2DIR va) = d" and "unat (ADDR2TBL va) = t"
  shows "vm_walkpte s pd va 0 =
    Some (if present (pw s pd d) then Some (entry (PTE2PG (pw s pd d)) t) else None, s)"
  using assms by (simp add: vm_walkpte_def pw_def [symmetric] Let_def)

lemma walk_0:
  assumes as: "aspace s pd fr" and u: "user_idx (idx va)" and va: "page_aligned va" "PHY_MEM \<le> va"
    and pr: "present (pte_at s pd (idx va))"
  shows "vm_walk s pd va 0 = Some (PTE2PG (pte_at s pd (idx va)), s)"
proof -
  obtain d t where i: "idx va = (d, t)" "unat (ADDR2DIR va) = d" "unat (ADDR2TBL va) = t"
    by (auto simp: idx_def)
  have p: "present (pw s pd d)" "pteval s pd d t = pw s (PTE2PG (pw s pd d)) t"
    using ptevalD [of s pd d t] pr by (simp_all add: i)
  have "opage s pd (OFrame d t) = Some (PTE2PG (pteval s pd d t))"
    using u pr by (simp add: user_idx_def i)
  then have "heap_page (PTE2PG (pteval s pd d t))" using aspace_page [OF as] by blast
  then have "PTE2PG (pteval s pd d t) \<noteq> 0" by auto
  then show ?thesis
    using p va by (simp add: vm_walk_def walkpte_0 [OF i(2,3)] i pw_def [symmetric] aligned_ADDR2OFF)
qed

subsection \<open>Copying one page\<close>

definition spaces_apart :: "vm \<Rightarrow> u32 \<Rightarrow> u32 \<Rightarrow> bool" where
  "spaces_apart s a b \<longleftrightarrow> space_pages s a \<inter> space_pages s b = {}"

text \<open>The entry \<open>i\<close> of \<open>new\<close> after the copy: a page of its own with the bytes of the page of \<open>cur\<close>.\<close>

definition entry_copied :: "vm \<Rightarrow> vm \<Rightarrow> u32 \<Rightarrow> u32 \<Rightarrow> nat \<times> nat \<Rightarrow> bool" where
  "entry_copied s s' cur new i \<longleftrightarrow>
     (\<exists>p. pte_at s' new i = MAKE_PTE p (pte_at s cur i AND 7) \<and> heap_page p \<and> p \<noteq> PTE2PG (pte_at s cur i) \<and>
       (\<forall>k < PGSIZE. pmem s' (unat p + k) = pmem s (unat (PTE2PG (pte_at s cur i)) + k)))"

lemma kept_out_page:
  assumes "kept_out s s' P" and "heap_page p" and "p \<notin> P" and "\<And>q. q \<in> P \<Longrightarrow> heap_page q" and "in_page p a"
  shows "pmem s' a = pmem s a"
proof -
  have "\<not> in_page q a" if "q \<in> P" for q
    using in_page_unique [OF assms(4) [OF that] assms(2) _ assms(5)] that assms(3) by blast
  then show ?thesis using assms(1) unfolding kept_out_def by blast
qed

lemma kept_out_space:
  assumes k: "kept_out s s' P" and as: "aspace s pd fr" and dj: "space_pages s pd \<inter> P = {}"
    and hp: "\<forall>q \<in> P. heap_page q"
  shows "opage s' pd = opage s pd"
    and "user_idx i \<Longrightarrow> pte_at s' pd i = pte_at s pd i"
    and "q \<in> space_pages s pd \<Longrightarrow> in_page q a \<Longrightarrow> pmem s' a = pmem s a"
proof -
  have mem: "pmem s' a = pmem s a" if "q \<in> space_pages s pd" "in_page q a" for q a
  proof -
    have "heap_page q" "q \<notin> P" using that(1) as dj by (auto simp: space_pages_def dest: aspace_page)
    then show ?thesis using kept_out_page [OF k _ _ _ that(2)] hp by blast
  qed
  then show "q \<in> space_pages s pd \<Longrightarrow> in_page q a \<Longrightarrow> pmem s' a = pmem s a" .
  have w: "pw s' q j = pw s q j" if "q \<in> space_pages s pd" "j < 1024" for q j
  proof -
    have "heap_page q" using that(1) as by (auto simp: space_pages_def dest: aspace_page)
    then show ?thesis using pw_pmem [OF _ that(2)] mem [OF that(1)] by blast
  qed
  then have w: "pw s' q j = pw s q j" if "q \<in> struct_pages s pd" "j < 1024" for q j
    using that struct_sub by blast
  show "opage s' pd = opage s pd" using space_untouched(1) [OF as w] .
  show "user_idx i \<Longrightarrow> pte_at s' pd i = pte_at s pd i"
    using space_untouched(2) [OF as w] by (simp add: user_idx_def)
qed

lemma space_pages_heap: "aspace s pd fr \<Longrightarrow> q \<in> space_pages s pd \<Longrightarrow> heap_page q \<and> q \<notin> set fr"
  by (auto simp: space_pages_def dest: aspace_page)

lemma and_7_prot: "present e \<Longrightarrow> bit (e AND 7) 0" "((e :: u32) AND 7) AND NOT 7 = 0"
proof -
  show "present e \<Longrightarrow> bit (e AND 7) 0" by (simp add: present_def bit_and_iff bit_7)
  show "(e AND 7) AND NOT 7 = 0"
    by (rule bit_word_eqI) (simp only: bit_and_iff bit_not_iff, simp)
qed

lemma copy_page_ok:
  assumes h: "heap s fr" and ac: "aspace s cur fr" and an: "aspace s new fr" and ap: "spaces_apart s cur new"
    and cur: "vm_curr s = cur" and va: "page_aligned va" "PHY_MEM \<le> va" "unat va + 8192 \<le> 2 ^ 32"
    and u: "user_idx (idx va)" and pr: "present (pte_at s cur (idx va))"
    and fresh: "\<not> present (pte_at s new (idx va))" and room: "2 \<le> length fr"
  shows "\<exists>s' fr'. copy_page new s va = Some s' \<and> heap s' fr' \<and> aspace s' new fr' \<and>
    (\<exists>k \<le> 2. fr' = drop k fr) \<and> entry_copied s s' cur new (idx va) \<and>
    (\<forall>j. user_idx j \<and> j \<noteq> idx va \<longrightarrow> pte_at s' new j = pte_at s new j) \<and>
    kept_out s s' (struct_pages s new \<union> set fr) \<and> space_pages s' new \<subseteq> space_pages s new \<union> set fr \<and>
    struct_pages s' new \<subseteq> struct_pages s new \<union> set fr"
proof -
  let ?e = "pte_at s cur (idx va)" and ?i = "idx va"
  let ?P = "struct_pages s new \<union> set fr"
  define prot where "prot = ?e AND 7"
  note prot = and_7_prot(1) [OF pr, folded prot_def] and_7_prot(2) [of ?e, folded prot_def]
  obtain d t where i: "?i = (d, t)" "unat (ADDR2DIR va) = d" "unat (ADDR2TBL va) = t"
    by (auto simp: idx_def)
  have hp: "\<forall>q \<in> ?P. heap_page q"
    using heap_pages [OF h] space_pages_heap [OF an] struct_sub by blast
  have dj: "space_pages s cur \<inter> ?P = {}"
    using ap space_pages_heap [OF ac] struct_sub [of s new] unfolding spaces_apart_def by blast
  obtain s1 fr1 where s1: "map_page new prot s va = Some s1" "heap s1 fr1" "aspace s1 new fr1"
    and fr1: "\<exists>k \<le> 2. fr1 = drop k fr"
    and e1: "\<forall>j. user_idx j \<and> j \<noteq> ?i \<longrightarrow> pte_at s1 new j = pte_at s new j"
    and m1: "entry_mapped s s1 new fr prot ?i"
    and k1: "kept_out s s1 ?P" and st1: "struct_pages s1 new \<subseteq> ?P"
    using map_page_ok [OF h an prot u room] by blast
  note curs = kept_out_space [OF k1 ac dj hp]
  have fr1s: "set fr1 \<subseteq> set fr" using fr1 by (metis set_drop_subset)
  have ac1: "aspace s1 cur fr1" using aspace_same [OF ac curs(1) fr1s] .
  obtain F where F: "pteval s1 new d t = MAKE_PTE F prot" "heap_page F" "F \<in> set fr"
    using m1 fresh by (auto simp: entry_mapped_def i)
  note mk = MAKE_frame [OF F(2) prot(2)]
  have eF: "pte_at s1 new ?i = MAKE_PTE F prot" using F(1) by (simp add: i)
  have map: "vm_map s new va 4096 prot = Some s1"
    using one_page [OF va(1,3)] prot s1(1) va(1,2)
    by (simp add: vm_map_def aligned_PAGE_DOWN Let_def)
  have cur1: "vm_curr s1 = cur" using k1 cur by (simp add: kept_out_def vm_curr_def)
  let ?c = "PTE2PG ?e"
  have w1: "vm_walk s1 cur va 0 = Some (?c, s1)"
    using walk_0 [OF ac1 u va(1,2)] curs(2) [OF u] pr by simp
  have w2: "vm_walk s1 new va 0 = Some (F, s1)"
    using walk_0 [OF s1(3) u va(1,2)] eF mk by simp
  have oc: "opage s cur (OFrame d t) = Some ?c" using u pr by (simp add: i user_idx_def)
  then have c: "heap_page ?c" "?c \<in> space_pages s cur" "?c \<notin> set fr"
    using aspace_page [OF ac] unfolding space_pages_def by blast+
  have cF: "?c \<noteq> F" "?c \<noteq> 0" "F \<noteq> 0" using c F by auto
  let ?bs = "map (pmem s1) [unat ?c..<unat ?c + PGSIZE]"
  define x where "x = fill s1 F ?bs"
  have le: "length ?bs = PGSIZE" by simp
  have a1: "ld s a AND 1 \<noteq> 0" if "a = entry (PTE2PG (pw s cur d)) t" for a
    using ptevalD [of s cur d t] pr that present_and_1 [of ?e] by (simp add: i pw_def [symmetric])
  have pc: "present (pw s cur d)" "pteval s cur d t = pw s (PTE2PG (pw s cur d)) t"
    using ptevalD [of s cur d t] pr by (simp_all add: i)
  have copy: "copy_page new s va = Some x"
    using a1 [OF refl] pc map w1 w2 cF cur cur1
    by (simp add: copy_page_def walkpte_0 [OF i(2,3)] x_def i prot_def pw_def [symmetric])
  have oF: "opage s1 new (OFrame d t) = Some F"
    using u F(1) mk by (simp add: i user_idx_def)
  have Fn: "F \<notin> struct_pages s1 new" "F \<notin> set fr1"
    using aspace_inj [OF s1(3) oF] aspace_page [OF s1(3) oF] unfolding struct_pages_def by blast+
  have wx: "pw x q j = pw s1 q j" if "heap_page q" "q \<noteq> F" "j < 1024" for q j
    using pw_fill [OF F(2) that(1,3) le that(2)] by (simp add: x_def)
  have "pw x q j = pw s1 q j" if "q \<in> struct_pages s1 new" "j < 1024" for q j
    using wx that Fn(1) hp st1 by blast
  then have un: "opage x new = opage s1 new"
    "\<And>d t. KPT_NUM \<le> d \<Longrightarrow> d < NR_PDE \<Longrightarrow> t < NR_PTE \<Longrightarrow> pteval x new d t = pteval s1 new d t"
    using space_untouched [OF s1(3), of x] by blast+
  have "heap x fr1"
  proof -
    have "pw x q 0 = pw s1 q 0" if "q \<in> set fr1" for q
      using wx [of q 0] heap_pages [OF s1(2) that] that Fn(2) by auto
    then show ?thesis using s1(2) by (subst heap_cong [of x s1]) (simp_all add: x_def)
  qed
  moreover have "aspace x new fr1" using aspace_same [OF s1(3) un(1)] by simp
  moreover have "entry_copied s x cur new ?i"
  proof -
    have "pmem x (unat F + k) = pmem s (unat ?c + k)" if "k < PGSIZE" for k
    proof -
      have "pmem x (unat F + k) = pmem s1 (unat ?c + k)"
        using that by (simp add: x_def pmem_fill [OF le] in_page_def del: upt_rec_numeral)
      also have "\<dots> = pmem s (unat ?c + k)"
        by (rule curs(3) [OF c(2)]) (use that in \<open>simp add: in_page_def\<close>)
      finally show ?thesis .
    qed
    moreover have "pte_at x new ?i = MAKE_PTE F (?e AND 7)"
      using un(2) [of d t] u F(1) by (simp add: i user_idx_def prot_def)
    ultimately show ?thesis unfolding entry_copied_def using F(2) cF(1) by blast
  qed
  moreover have "pte_at x new j = pte_at s new j" if "user_idx j" "j \<noteq> ?i" for j
    using un(2) [of "fst j" "snd j"] e1 that by (simp add: user_idx_def)
  moreover have kx: "kept_out s1 x {F}" by (auto simp: kept_out_def x_def pmem_fill [OF le])
  then have "kept_out s x ?P" using kept_out_trans [OF k1 kx, of ?P] F(3) by blast
  moreover have "space_pages x new \<subseteq> space_pages s new \<union> set fr"
  proof
    fix q assume "q \<in> space_pages x new"
    then obtain w where w: "opage s1 new w = Some q" by (auto simp: space_pages_def un(1))
    show "q \<in> space_pages s new \<union> set fr"
    proof (cases w)
      case (OFrame d' t')
      show ?thesis
      proof (cases "(d', t') = ?i")
        case True
        then show ?thesis using w OFrame oF F(3) by (simp add: i)
      next
        case False
        have "user_idx (d', t')" using w OFrame by (auto simp: user_idx_def split: if_splits)
        then have "pteval s1 new d' t' = pteval s new d' t'" using e1 False by fastforce
        then have "opage s new w = Some q" using w OFrame by (auto split: if_splits)
        then show ?thesis unfolding space_pages_def by blast
      qed
    qed (use w st1 struct_sub [of s new] in \<open>unfold struct_pages_def, blast\<close>)+
  qed
  moreover have "struct_pages x new = struct_pages s1 new" by (simp only: struct_pages_def un(1))
  ultimately show ?thesis using copy fr1 st1 by blast
qed

lemma frame_kept:
  assumes as: "aspace s pd fr" and h: "heap s fr" and k: "kept_out s s' (struct_pages s pd \<union> set fr)"
    and o': "opage s pd (OFrame d t) = Some p" and a: "in_page p a"
  shows "pmem s' a = pmem s a"
proof (rule kept_out_page [OF k _ _ _ a])
  show "heap_page p" using aspace_page [OF as o'] by simp
  show "p \<notin> struct_pages s pd \<union> set fr"
    using aspace_inj [OF as o'] aspace_page [OF as o'] unfolding struct_pages_def by blast
  show "heap_page q" if "q \<in> struct_pages s pd \<union> set fr" for q
    using that heap_pages [OF h] space_pages_heap [OF as] struct_sub by blast
qed

lemma copy_page_absent:
  assumes "vm_curr s = cur" and "\<not> present (pte_at s cur (idx va))"
  shows "copy_page new s va = Some s"
proof -
  obtain d t where i: "idx va = (d, t)" "unat (ADDR2DIR va) = d" "unat (ADDR2TBL va) = t"
    by (auto simp: idx_def)
  show ?thesis
    using assms present_and_1 [of "pteval s cur d t"]
    by (auto simp: copy_page_def walkpte_0 [OF i(2,3)] i pteval_def pw_def [symmetric])
qed

definition cur_pages :: "vm \<Rightarrow> u32 \<Rightarrow> u32 list \<Rightarrow> nat" where
  "cur_pages s cur vas = length (filter (\<lambda>va. present (pte_at s cur (idx va))) vas)"

definition copied :: "vm \<Rightarrow> vm \<Rightarrow> u32 \<Rightarrow> u32 \<Rightarrow> nat \<times> nat \<Rightarrow> bool" where
  "copied s s' cur new i \<longleftrightarrow>
     (if present (pte_at s cur i) then entry_copied s s' cur new i else \<not> present (pte_at s' new i))"

lemma entry_copied_later:
  assumes c: "entry_copied s s1 cur new i" and u: "user_idx i" and pr: "present (pte_at s cur i)"
    and e: "pte_at s2 new i = pte_at s1 new i" and as: "aspace s1 new fr1" and h: "heap s1 fr1"
    and k: "kept_out s1 s2 (struct_pages s1 new \<union> set fr1)"
  shows "entry_copied s s2 cur new i"
proof -
  obtain p where p: "pte_at s1 new i = MAKE_PTE p (pte_at s cur i AND 7)" "heap_page p"
    "p \<noteq> PTE2PG (pte_at s cur i)"
    "\<forall>k < PGSIZE. pmem s1 (unat p + k) = pmem s (unat (PTE2PG (pte_at s cur i)) + k)"
    using c unfolding entry_copied_def by blast
  have "opage s1 new (OFrame (fst i) (snd i)) = Some p"
    using u p(1) MAKE_frame [OF p(2) and_7_prot(2)] by (simp add: user_idx_def)
  then have "pmem s2 (unat p + k) = pmem s1 (unat p + k)" if "k < PGSIZE" for k
    by (rule frame_kept [OF as h k]) (use that in \<open>simp add: in_page_def\<close>)
  then show ?thesis using p e unfolding entry_copied_def by auto
qed

lemma copy_pages_ok:
  assumes "heap s fr" and "aspace s cur fr" and "aspace s new fr" and "spaces_apart s cur new"
    and "vm_curr s = cur" and "distinct (map idx vas)"
    and "\<forall>va \<in> set vas. page_aligned va \<and> PHY_MEM \<le> va \<and> unat va + 8192 \<le> 2 ^ 32 \<and> user_idx (idx va)"
    and "\<forall>va \<in> set vas. \<not> present (pte_at s new (idx va))"
    and "2 * cur_pages s cur vas \<le> length fr"
  shows "\<exists>s' fr'. foldM (copy_page new) s vas = Some s' \<and> heap s' fr' \<and> aspace s' new fr' \<and>
    set fr' \<subseteq> set fr \<and> (\<forall>va \<in> set vas. copied s s' cur new (idx va)) \<and>
    (\<forall>i. user_idx i \<and> i \<notin> idx ` set vas \<longrightarrow> pte_at s' new i = pte_at s new i) \<and>
    kept_out s s' (struct_pages s new \<union> set fr) \<and> space_pages s' new \<subseteq> space_pages s new \<union> set fr"
  using assms
proof (induction vas arbitrary: s fr)
  case Nil
  then show ?case by auto
next
  case (Cons va vas)
  let ?i = "idx va"
  have va: "page_aligned va" "PHY_MEM \<le> va" "unat va + 8192 \<le> 2 ^ 32" "user_idx ?i"
    "\<not> present (pte_at s new ?i)" using Cons.prems(7,8) by simp_all
  have ni: "?i \<notin> idx ` set vas" using Cons.prems(6) by auto
  show ?case
  proof (cases "present (pte_at s cur ?i)")
    case False
    note same = copy_page_absent [OF Cons.prems(5) False, of new]
    have "2 * cur_pages s cur vas \<le> length fr" using Cons.prems(9) False by (simp add: cur_pages_def)
    then obtain s' fr' where s': "foldM (copy_page new) s vas = Some s'" "heap s' fr'" "aspace s' new fr'"
      "set fr' \<subseteq> set fr" "\<forall>va \<in> set vas. copied s s' cur new (idx va)"
      and e: "\<forall>i. user_idx i \<and> i \<notin> idx ` set vas \<longrightarrow> pte_at s' new i = pte_at s new i"
      and k: "kept_out s s' (struct_pages s new \<union> set fr)" "space_pages s' new \<subseteq> space_pages s new \<union> set fr"
      using Cons.IH [of s fr] Cons.prems by auto
    have "copied s s' cur new ?i" using False e va(4,5) ni by (simp add: copied_def)
    then show ?thesis using same s' e k by auto
  next
    case True
    have room: "2 \<le> length fr" "2 * cur_pages s cur vas + 2 \<le> length fr"
      using Cons.prems(9) True by (simp_all add: cur_pages_def)
    obtain s1 fr1 where s1: "copy_page new s va = Some s1" "heap s1 fr1" "aspace s1 new fr1"
      and fr1: "\<exists>k \<le> 2. fr1 = drop k fr" and c1: "entry_copied s s1 cur new ?i"
      and e1: "\<forall>j. user_idx j \<and> j \<noteq> ?i \<longrightarrow> pte_at s1 new j = pte_at s new j"
      and k1: "kept_out s s1 (struct_pages s new \<union> set fr)"
      and sp1: "space_pages s1 new \<subseteq> space_pages s new \<union> set fr"
      and st1: "struct_pages s1 new \<subseteq> struct_pages s new \<union> set fr"
      using copy_page_ok [OF Cons.prems(1-5) va(1-4) True va(5) room(1)] by blast
    have fr1s: "set fr1 \<subseteq> set fr" "length fr \<le> length fr1 + 2" using fr1 by (auto dest: in_set_dropD)
    have dj: "space_pages s cur \<inter> (struct_pages s new \<union> set fr) = {}"
      using Cons.prems(4) space_pages_heap [OF Cons.prems(2)] struct_sub [of s new]
      unfolding spaces_apart_def by blast
    have hp: "\<forall>q \<in> struct_pages s new \<union> set fr. heap_page q"
      using heap_pages [OF Cons.prems(1)] space_pages_heap [OF Cons.prems(3)] struct_sub by blast
    note curs = kept_out_space [OF k1 Cons.prems(2) dj hp]
    have ac1: "aspace s1 cur fr1" using aspace_same [OF Cons.prems(2) curs(1) fr1s(1)] .
    have ap1: "spaces_apart s1 cur new"
      using Cons.prems(4) sp1 space_pages_heap [OF Cons.prems(2)]
      unfolding spaces_apart_def space_pages_def [of s1 cur] curs(1) space_pages_def [of s cur, symmetric]
      by blast
    have cur1: "vm_curr s1 = cur" using k1 Cons.prems(5) by (simp add: kept_out_def vm_curr_def)
    have cp1: "cur_pages s1 cur vas = cur_pages s cur vas"
      unfolding cur_pages_def using curs(2) Cons.prems(7) by (intro arg_cong [where f = length] filter_cong) auto
    have nv: "idx v \<noteq> ?i" "user_idx (idx v)" if "v \<in> set vas" for v
      using that ni Cons.prems(7) by (metis imageI, simp)
    have abs1: "\<forall>v \<in> set vas. \<not> present (pte_at s1 new (idx v))"
      using e1 nv Cons.prems(8) by simp
    obtain s2 fr2 where s2: "foldM (copy_page new) s1 vas = Some s2" "heap s2 fr2" "aspace s2 new fr2"
      "set fr2 \<subseteq> set fr1" and c2: "\<forall>v \<in> set vas. copied s1 s2 cur new (idx v)"
      and e2: "\<forall>i. user_idx i \<and> i \<notin> idx ` set vas \<longrightarrow> pte_at s2 new i = pte_at s1 new i"
      and k2: "kept_out s1 s2 (struct_pages s1 new \<union> set fr1)"
      and sp2: "space_pages s2 new \<subseteq> space_pages s1 new \<union> set fr1"
      using Cons.IH [OF s1(2) ac1 s1(3) ap1 cur1 _ _ abs1] Cons.prems(6,7) cp1 room(2) fr1s(2) by auto
    have "copied s s2 cur new ?i"
      using entry_copied_later [OF c1 va(4) True _ s1(3,2) k2] e2 va(4) ni True by (simp add: copied_def)
    moreover have "copied s s2 cur new (idx v)" if v: "v \<in> set vas" for v
    proof -
      have e: "pte_at s1 cur (idx v) = pte_at s cur (idx v)" using curs(2) nv(2) [OF v] by simp
      have "pmem s1 (unat (PTE2PG (pte_at s cur (idx v))) + k) = pmem s (unat (PTE2PG (pte_at s cur (idx v))) + k)"
        if pr: "present (pte_at s cur (idx v))" and "k < PGSIZE" for k
      proof (rule curs(3))
        have "opage s cur (OFrame (fst (idx v)) (snd (idx v))) = Some (PTE2PG (pte_at s cur (idx v)))"
          using nv(2) [OF v] pr by (simp add: user_idx_def)
        then show "PTE2PG (pte_at s cur (idx v)) \<in> space_pages s cur" unfolding space_pages_def by blast
      qed (use \<open>k < PGSIZE\<close> in \<open>simp add: in_page_def\<close>)
      then show ?thesis using c2 v e by (auto simp: copied_def entry_copied_def)
    qed
    moreover have "kept_out s s2 (struct_pages s new \<union> set fr)"
      using kept_out_trans [OF k1 k2] st1 fr1s by blast
    moreover have "pte_at s2 new i = pte_at s new i" if "user_idx i" "i \<notin> idx ` set (va # vas)" for i
      using that e1 e2 by simp
    moreover have "space_pages s2 new \<subseteq> space_pages s new \<union> set fr" using sp1 sp2 fr1s by blast
    moreover have "set fr2 \<subseteq> set fr" using s2(4) fr1s(1) by simp
    ultimately show ?thesis using s1(1) s2(1-3) by (intro exI [of _ s2] exI [of _ fr2]) auto
  qed
qed

subsection \<open>The whole range, and a new directory\<close>

lemma copycurr_pages:
  assumes "va \<in> set (pages (PAGE_DOWN PHY_MEM) USR_MEM)"
  shows "page_aligned va" "PHY_MEM \<le> va" "unat va + 8192 \<le> 2 ^ 32" "user_idx (idx va)"
proof -
  have al: "page_aligned PHY_MEM" by (simp add: page_aligned_def dvd_def)
  note m = pages_member [OF assms [unfolded aligned_PAGE_DOWN [OF al]] al]
  show "page_aligned va" using m(1) .
  show "PHY_MEM \<le> va" using m(2) by (simp add: word_le_nat_alt)
  show "unat va + 8192 \<le> 2 ^ 32" using m(3) by simp
  show "user_idx (idx va)"
    using pages_user [OF _ assms] by (simp add: aligned_PAGE_DOWN [OF al])
qed

lemma vm_copycurr_ok:
  assumes "heap s fr" and "aspace s cur fr" and "aspace s new fr" and "spaces_apart s cur new"
    and "vm_curr s = cur" and "\<forall>i. user_idx i \<longrightarrow> \<not> present (pte_at s new i)"
    and "2 * cur_pages s cur (pages (PAGE_DOWN PHY_MEM) USR_MEM) \<le> length fr"
  shows "\<exists>s' fr'. vm_copycurr s new = Some s' \<and> heap s' fr' \<and> aspace s' cur fr' \<and> aspace s' new fr' \<and>
    spaces_apart s' cur new \<and>
    (\<forall>va \<in> set (pages (PAGE_DOWN PHY_MEM) USR_MEM). copied s s' cur new (idx va)) \<and>
    (\<forall>i. user_idx i \<longrightarrow> pte_at s' cur i = pte_at s cur i) \<and>
    (\<forall>q a. q \<in> space_pages s cur \<and> in_page q a \<longrightarrow> pmem s' a = pmem s a) \<and>
    kept_out s s' (struct_pages s new \<union> set fr) \<and> space_pages s' new \<subseteq> space_pages s new \<union> set fr \<and> set fr' \<subseteq> set fr"
proof -
  let ?vas = "pages (PAGE_DOWN PHY_MEM) USR_MEM" and ?P = "struct_pages s new \<union> set fr"
  have v: "\<forall>va \<in> set ?vas. page_aligned va \<and> PHY_MEM \<le> va \<and> unat va + 8192 \<le> 2 ^ 32 \<and> user_idx (idx va)"
    using copycurr_pages by blast
  then obtain s' fr' where s': "foldM (copy_page new) s ?vas = Some s'" "heap s' fr'" "aspace s' new fr'"
    "set fr' \<subseteq> set fr" "\<forall>va \<in> set ?vas. copied s s' cur new (idx va)"
    "kept_out s s' ?P" "space_pages s' new \<subseteq> space_pages s new \<union> set fr"
    using copy_pages_ok [OF assms(1-5) pages_idx_distinct v _ assms(7)] assms(6) by blast
  have dj: "space_pages s cur \<inter> ?P = {}"
    using assms(4) space_pages_heap [OF assms(2)] struct_sub [of s new] unfolding spaces_apart_def by blast
  have hp: "\<forall>q \<in> ?P. heap_page q"
    using heap_pages [OF assms(1)] space_pages_heap [OF assms(3)] struct_sub by blast
  note curs = kept_out_space [OF s'(6) assms(2) dj hp]
  have "space_pages s' cur = space_pages s cur" by (simp only: space_pages_def curs(1))
  then have "spaces_apart s' cur new"
    using assms(4) s'(7) space_pages_heap [OF assms(2)] unfolding spaces_apart_def by blast
  moreover have "aspace s' cur fr'" using aspace_same [OF assms(2) curs(1) s'(4)] .
  ultimately show ?thesis using s' curs unfolding vm_copycurr_def by blast
qed

text \<open>A new directory: the kernel's tables below \<open>PHY_MEM\<close>, nothing above.\<close>

lemma fold_entries:
  assumes p: "heap_page p" and q: "heap_page q" "j < 1024"
    and g: "\<And>s i j w. g (st s (entry p i) w) j = g s j"
    and n: "\<forall>i \<in> set is. i < 1024" "distinct is"
  shows "pw (fold (\<lambda>i s. st s (entry p i) (g s i)) is s) q j =
    (if q = p \<and> j \<in> set is then g s j else pw s q j)"
  using n
proof (induction "is" arbitrary: s)
  case (Cons i "is")
  show ?case using Cons.IH [of "st s (entry p i) (g s i)"] Cons.prems p q by (auto simp: g)
qed simp

lemma fold_entries_out:
  assumes p: "heap_page p" and n: "\<forall>i \<in> set is. i < 1024"
  shows "kept_out s (fold (\<lambda>i s. st s (entry p i) (g s i)) is s) {p} \<and>
    free_page_list (fold (\<lambda>i s. st s (entry p i) (g s i)) is s) = free_page_list s"
  using n
proof (induction "is" arbitrary: s)
  case (Cons i "is")
  have "kept_out s (st s (entry p i) (g s i)) {p}" by (rule kept_out_st) (use Cons.prems p in simp_all)
  then show ?case
    using Cons.IH [of "st s (entry p i) (g s i)"] Cons.prems
    by (auto intro: kept_out_trans [of s _ "{p}" _ "{p}" "{p}"])
qed simp

lemma vm_alloc_ok:
  assumes h: "heap s (p # xs)"
  shows "\<exists>s'. vm_alloc s = Some (p, s') \<and> heap s' xs \<and> aspace s' p xs \<and> kept_out s s' {p} \<and>
    (\<forall>i < KPT_NUM. pw s' p i = MAKE_PDE (kpt s + of_nat (PGSIZE * i)) 3) \<and>
    (\<forall>i. user_idx i \<longrightarrow> pte_at s' p i = 0) \<and> space_pages s' p = {p}"
proof -
  obtain s1 where s1: "kalloc s = Some (p, s1)" "heap s1 xs" "outside s s1 p" using kalloc_ok [OF h] by blast
  have p: "heap_page p" "p \<notin> set xs" using heap_pages [OF h] h by (auto simp: heap_def)
  define g :: "vm \<Rightarrow> nat \<Rightarrow> u32" where "g s i = MAKE_PDE (kpt s + of_nat (PGSIZE * i)) 3" for s i
  define s2 where "s2 = fold (\<lambda>i s. st s (entry p i) (g s i)) [0..<KPT_NUM] s1"
  define s3 where "s3 = fold (\<lambda>i s. st s (entry p i) ((\<lambda>_ _. 0) s i)) [KPT_NUM..<NR_PDE] s2"
  have run: "vm_alloc s = Some (p, s3)"
    by (simp add: vm_alloc_def s1(1) s2_def s3_def g_def del: upt_rec_numeral)
  have w2: "pw s2 q j = (if q = p \<and> j < KPT_NUM then g s1 j else pw s1 q j)"
    if "heap_page q" "j < 1024" for q j
    using fold_entries [OF p(1) that, of g "[0..<KPT_NUM]" s1] by (simp add: s2_def g_def del: upt_rec_numeral)
  have w3: "pw s3 q j = (if q = p \<and> KPT_NUM \<le> j then 0 else pw s2 q j)"
    if "heap_page q" "j < 1024" for q j
    using fold_entries [OF p(1) that, of "\<lambda>_ _. 0" "[KPT_NUM..<NR_PDE]" s2] that
    by (simp add: s3_def del: upt_rec_numeral)
  have k2: "kept_out s1 s2 {p}" and f2: "free_page_list s2 = free_page_list s1"
    using fold_entries_out [OF p(1), of "[0..<KPT_NUM]" s1 g] by (simp_all add: s2_def del: upt_rec_numeral)
  have k3: "kept_out s2 s3 {p}" and f3: "free_page_list s3 = free_page_list s2"
    using fold_entries_out [OF p(1), of "[KPT_NUM..<NR_PDE]" s2 "\<lambda>_ _. 0"]
    by (simp_all add: s3_def del: upt_rec_numeral)
  have k1: "kept_out s s1 {p}" using outside_kept [OF s1(3)] by simp
  have k: "kept_out s s3 {p}"
    using kept_out_trans [OF kept_out_trans [OF k1 k2, of "{p}"] k3, of "{p}"] by simp
  have fl: "free_page_list s3 = free_page_list s1" using f2 f3 by simp
  have "pw s3 x 0 = pw s1 x 0" if "x \<in> set xs" for x
    using w2 [of x 0] w3 [of x 0] heap_pages [OF s1(2) that] that p(2) by auto
  then have hp: "heap s3 xs" using s1(2) fl by (subst heap_cong [of s3 s1]) simp_all
  have user: "pw s3 p d = 0" if "KPT_NUM \<le> d" "d < NR_PDE" for d using w3 [OF p(1)] that by simp
  then have pv: "pteval s3 p d t = 0" if "KPT_NUM \<le> d" "d < NR_PDE" for d t using that by (simp add: pteval_def)
  have op: "opage s3 p w = (if w = ODir then Some p else None)" for w
    using user pv by (cases w) auto
  have "aspace s3 p xs" using p op by (auto simp: aspace_def split: if_splits)
  moreover have "space_pages s3 p = {p}" by (auto simp: space_pages_def op)
  moreover have "kpt s1 = kpt s" using s1(3) by (simp add: outside_def)
  then have "\<forall>i < KPT_NUM. pw s3 p i = MAKE_PDE (kpt s + of_nat (PGSIZE * i)) 3"
    using w3 [OF p(1)] w2 [OF p(1)] by (simp add: g_def)
  ultimately show ?thesis using run hp k pv by (auto simp: user_idx_def)
qed

text \<open>Mapping a range of user addresses.\<close>

lemma vm_map_ok:
  assumes "heap s fr" and "aspace s pd fr" and "bit prot 0" "prot AND NOT 7 = 0"
    and "PHY_MEM \<le> PAGE_DOWN va" and "PAGE_DOWN va \<le> PAGE_UP (va + len)"
    and "2 * length (pages (PAGE_DOWN va) (PAGE_UP (va + len))) \<le> length fr"
  shows "\<exists>s' fr'. vm_map s pd va len prot = Some s' \<and> heap s' fr' \<and> aspace s' pd fr' \<and>
    (\<exists>k \<le> 2 * length (pages (PAGE_DOWN va) (PAGE_UP (va + len))). fr' = drop k fr) \<and>
    (\<forall>a \<in> set (pages (PAGE_DOWN va) (PAGE_UP (va + len))). entry_mapped s s' pd fr prot (idx a)) \<and>
    (\<forall>i. user_idx i \<and> i \<notin> idx ` set (pages (PAGE_DOWN va) (PAGE_UP (va + len))) \<longrightarrow>
       pte_at s' pd i = pte_at s pd i) \<and>
    kept_out s s' (struct_pages s pd \<union> set fr)"
proof -
  let ?vas = "pages (PAGE_DOWN va) (PAGE_UP (va + len))"
  have u: "\<forall>a \<in> set ?vas. user_idx (idx a)" using pages_user [OF assms(5)] by blast
  obtain s' fr' where "foldM (map_page pd prot) s ?vas = Some s'" "heap s' fr'" "aspace s' pd fr'"
    "\<exists>k \<le> 2 * length ?vas. fr' = drop k fr"
    "\<forall>i. user_idx i \<and> i \<notin> idx ` set ?vas \<longrightarrow> pte_at s' pd i = pte_at s pd i"
    "\<forall>a \<in> set ?vas. entry_mapped s s' pd fr prot (idx a)"
    "kept_out s s' (struct_pages s pd \<union> set fr)"
    using map_pages_ok [OF assms(1-4) pages_idx_distinct u assms(7)] by blast
  moreover have "vm_map s pd va len prot = foldM (map_page pd prot) s ?vas"
    using assms(3-6) by (simp add: vm_map_def Let_def)
  ultimately show ?thesis by metis
qed

lemma set_cr3_keeps:
  "heap (set_cr3 s x) fr = heap s fr" "opage (set_cr3 s x) pd = opage s pd"
  "aspace (set_cr3 s x) pd fr = aspace s pd fr" "pteval (set_cr3 s x) pd d t = pteval s pd d t"
  "pmem (set_cr3 s x) = pmem s" "vm_curr (set_cr3 s x) = PAGE_DOWN x"
proof -
  have w: "pw (set_cr3 s x) q j = pw s q j" for q j by (simp add: set_cr3_def)
  show "pteval (set_cr3 s x) pd d t = pteval s pd d t" for pd d t by (simp add: pteval_def w)
  then show op: "opage (set_cr3 s x) pd = opage s pd" for pd by (intro opage_cong2) (simp_all add: w)
  show "heap (set_cr3 s x) fr = heap s fr" by (rule heap_cong) (simp_all add: w, simp add: set_cr3_def)
  show "aspace (set_cr3 s x) pd fr = aspace s pd fr" by (simp add: aspace_def op)
  show "pmem (set_cr3 s x) = pmem s" "vm_curr (set_cr3 s x) = PAGE_DOWN x"
    by (simp_all add: set_cr3_def vm_curr_def)
qed

end
