(* ===== verification/Proc.thy ===== *)
theory Proc
  imports FsDir ListPool VmeCopy
begin

text \<open>
  The kernel's state and its processes: \<open>kernel/src/proc.c\<close> and \<open>kernel/src/sem.c\<close>. A \<open>proc_t *\<close> is
  the index of the slot in \<open>pcb\<close>, a \<open>usem_t *\<close> and a \<open>file_t *\<close> likewise; the semaphores embedded
  in other structures are named by \<open>sem_id\<close>. User contexts are in memory, at the top of each
  process's kernel stack page.

  What the kernel code of a process still has to do when it gives the processor away is on its
  kernel stack in C; here it is the \<open>kcont\<close> in its slot. \<open>InUser\<close> is a process whose \<open>ctx\<close> is the
  user context at the top of its stack.
\<close>

subsection \<open>State\<close>

abbreviation (input) PROC_NUM :: nat where "PROC_NUM \<equiv> 64"
abbreviation (input) MAX_USEM :: nat where "MAX_USEM \<equiv> 32"
abbreviation (input) MAX_UFILE :: nat where "MAX_UFILE \<equiv> 32"
abbreviation (input) USER_SEM_NUM :: nat where "USER_SEM_NUM \<equiv> 128"
abbreviation (input) TOTAL_FILE :: nat where "TOTAL_FILE \<equiv> 128"

datatype status = UNUSED | UNINIT | RUNNING | READY | ZOMBIE | BLOCKED

datatype sem_id = SerialSem | UserSem nat | ZombieSem nat

datatype kcont = InUser | KYield | KTimer | KSleep u32 u32 | KSemP | KWait u32 | KSerial u32 u32 u32 | KExit

record proc =
  pid :: u32
  status :: status
  pgdir :: u32
  brk :: u32
  kstack :: u32
  cont :: kcont
  parent :: "nat option"
  child_num :: u32
  exit_code :: u32
  usems :: "nat option list"
  p_files :: "nat option list"
  cwd :: "nat option"

record file_t =
  f_type :: u32
  f_ref :: int
  readable :: bool
  writable :: bool
  f_inode :: nat
  f_offset :: u32
  dev_op :: "nat option"

record kern =
  pcb :: "nat \<Rightarrow> proc"
  next_pid :: u32
  curr :: nat
  sems :: "sem_id \<Rightarrow> int"
  usem_ref :: "nat \<Rightarrow> int"
  lists :: pool
  kvm :: vm
  kfs :: fs
  files :: "nat \<Rightarrow> file_t"
  s_buffer :: "nat \<Rightarrow> u8"
  s_head :: nat
  s_tail :: nat
  s_clap :: nat
  s_out :: bytes
  tick :: u32
  junk :: bytes
  eax_junk :: u32

abbreviation cur :: "kern \<Rightarrow> proc" where
  "cur k \<equiv> pcb k (curr k)"

definition upd_proc :: "kern \<Rightarrow> nat \<Rightarrow> (proc \<Rightarrow> proc) \<Rightarrow> kern" where
  "upd_proc k p g = k\<lparr>pcb := (pcb k)(p := g (pcb k p))\<rparr>"

definition set_status :: "kern \<Rightarrow> nat \<Rightarrow> status \<Rightarrow> kern" where
  "set_status k p s = upd_proc k p (\<lambda>pr. pr\<lparr>status := s\<rparr>)"

definition vm_op :: "kern \<Rightarrow> vm option \<Rightarrow> kern option" where
  "vm_op k r = map_option (\<lambda>v. k\<lparr>kvm := v\<rparr>) r"

definition fs_op :: "kern \<Rightarrow> fs option \<Rightarrow> kern option" where
  "fs_op k r = map_option (\<lambda>f. k\<lparr>kfs := f\<rparr>) r"

text \<open>The list head of a semaphore's \<open>wait_list\<close>: one number per semaphore.\<close>

fun sem_head :: "sem_id \<Rightarrow> node" where
  "sem_head SerialSem = Head 0"
| "sem_head (UserSem i) = Head (1 + 2 * i)"
| "sem_head (ZombieSem p) = Head (2 + 2 * p)"

subsection \<open>Semaphores\<close>

definition sem_init :: "kern \<Rightarrow> sem_id \<Rightarrow> int \<Rightarrow> kern" where
  "sem_init k s v = k\<lparr>sems := (sems k)(s := v), lists := list_init (lists k) (sem_head s)\<rparr>"

definition proc_addready :: "kern \<Rightarrow> nat \<Rightarrow> kern" where
  "proc_addready k p = set_status k p READY"

text \<open>The \<open>value\<close> is a C \<open>int\<close>: stepping out of its range is undefined.\<close>

definition set_value :: "kern \<Rightarrow> sem_id \<Rightarrow> int \<Rightarrow> kern option" where
  "set_value k s v =
     (if - (2 ^ 31) \<le> v \<and> v < 2 ^ 31 then Some (k\<lparr>sems := (sems k)(s := v)\<rparr>) else None)"

text \<open>\<open>sem_p\<close> tells whether the process was blocked, i.e. whether \<open>proc_block\<close> raised \<open>INT(0x81)\<close>.\<close>

definition sem_p :: "kern \<Rightarrow> sem_id \<Rightarrow> (bool \<times> kern) option" where
  "sem_p k s = do {
     k \<leftarrow> set_value k s (sems k s - 1);
     (if sems k s < 0 then do {
        l \<leftarrow> list_enqueue (lists k) (sem_head s) (curr k);
        Some (True, set_status (k\<lparr>lists := l\<rparr>) (curr k) BLOCKED)
      } else Some (False, k)) }"

text \<open>A \<open>NULL\<close> from the empty list would be dereferenced by \<open>proc_addready\<close>.\<close>

definition sem_v :: "kern \<Rightarrow> sem_id \<Rightarrow> kern option" where
  "sem_v k s = do {
     k \<leftarrow> set_value k s (sems k s + 1);
     (if sems k s \<le> 0 then do {
        (p, l) \<leftarrow> list_dequeue (lists k) (sem_head s);
        (case p of None \<Rightarrow> None | Some p \<Rightarrow> Some (proc_addready (k\<lparr>lists := l\<rparr>) p))
      } else Some k) }"

definition usem_alloc :: "kern \<Rightarrow> int \<Rightarrow> nat option \<times> kern" where
  "usem_alloc k v =
     (case find (\<lambda>i. usem_ref k i = 0) [0..<USER_SEM_NUM] of
        Some i \<Rightarrow> (Some i, (sem_init k (UserSem i) v)\<lparr>usem_ref := (usem_ref k)(i := 1)\<rparr>)
      | None \<Rightarrow> (None, k))"

definition usem_dup :: "kern \<Rightarrow> nat \<Rightarrow> kern" where
  "usem_dup k i = k\<lparr>usem_ref := (usem_ref k)(i := usem_ref k i + 1)\<rparr>"

definition usem_close :: "kern \<Rightarrow> nat \<Rightarrow> kern" where
  "usem_close k i = k\<lparr>usem_ref := (usem_ref k)(i := usem_ref k i - 1)\<rparr>"

subsection \<open>References to open files\<close>

definition upd_file :: "kern \<Rightarrow> nat \<Rightarrow> (file_t \<Rightarrow> file_t) \<Rightarrow> kern" where
  "upd_file k i g = k\<lparr>files := (files k)(i := g (files k i))\<rparr>"

definition fdup :: "kern \<Rightarrow> nat \<Rightarrow> kern" where
  "fdup k i = upd_file k i (\<lambda>f. f\<lparr>f_ref := f_ref f + 1\<rparr>)"

definition fclose :: "kern \<Rightarrow> nat \<Rightarrow> kern option" where
  "fclose k i =
     (let k = upd_file k i (\<lambda>f. f\<lparr>f_ref := f_ref f - 1\<rparr>) in
      if f_ref (files k i) = 0 \<and> f_type (files k i) = TYPE_FILE
      then fs_op k (iclose (kfs k) (f_inode (files k i))) else Some k)"

subsection \<open>User contexts in memory\<close>

text \<open>\<open>Context\<close>: fifteen words at the top of the kernel stack page; \<open>CTX f\<close> is the offset of a field.\<close>

abbreviation (input) CTX_SIZE :: nat where "CTX_SIZE \<equiv> 60"
abbreviation (input) ctx_edi :: nat where "ctx_edi \<equiv> 2"
abbreviation (input) ctx_esi :: nat where "ctx_esi \<equiv> 3"
abbreviation (input) ctx_edx :: nat where "ctx_edx \<equiv> 4"
abbreviation (input) ctx_ecx :: nat where "ctx_ecx \<equiv> 5"
abbreviation (input) ctx_ebx :: nat where "ctx_ebx \<equiv> 6"
abbreviation (input) ctx_eax :: nat where "ctx_eax \<equiv> 7"
abbreviation (input) ctx_eip :: nat where "ctx_eip \<equiv> 10"
abbreviation (input) ctx_cs :: nat where "ctx_cs \<equiv> 11"
abbreviation (input) ctx_eflags :: nat where "ctx_eflags \<equiv> 12"
abbreviation (input) ctx_esp :: nat where "ctx_esp \<equiv> 13"
abbreviation (input) ctx_ss :: nat where "ctx_ss \<equiv> 14"

definition ctx_at :: "u32 \<Rightarrow> u32" where
  "ctx_at ks = ks + of_nat (PGSIZE - CTX_SIZE)"

definition STACK_TOP :: "u32 \<Rightarrow> u32" where
  "STACK_TOP ks = ks + of_nat PGSIZE"

definition ctx_get :: "vm \<Rightarrow> u32 \<Rightarrow> nat \<Rightarrow> u32" where
  "ctx_get v c i = ld v (c + of_nat (4 * i))"

definition ctx_set :: "vm \<Rightarrow> u32 \<Rightarrow> nat \<Rightarrow> u32 \<Rightarrow> vm" where
  "ctx_set v c i w = st v (c + of_nat (4 * i)) w"

definition ctx_copy :: "vm \<Rightarrow> u32 \<Rightarrow> u32 \<Rightarrow> vm" where
  "ctx_copy v to frm = fill v to (map (pmem v) [unat frm..<unat frm + CTX_SIZE])"

subsection \<open>Processes\<close>

definition init_proc :: "kern \<Rightarrow> kern option" where
  "init_proc k = do {
     let k = upd_proc k 0 (\<lambda>pr. pr\<lparr>status := RUNNING, pgdir := vm_curr (kvm k), kstack := KER_MEM - of_nat PGSIZE\<rparr>);
     let k = sem_init k (ZombieSem 0) 0;
     (w, f) \<leftarrow> iopen (kfs k) (cwd (cur k)) [SLASH] TYPE_NONE (junk k);
     Some (upd_proc (k\<lparr>kfs := f\<rparr>) 0 (\<lambda>pr. pr\<lparr>cwd := w\<rparr>)) }"

definition proc_alloc :: "kern \<Rightarrow> (nat option \<times> kern) option" where
  "proc_alloc k =
     (case find (\<lambda>i. status (pcb k i) = UNUSED) [1..<PROC_NUM] of
        None \<Rightarrow> Some (None, k)
      | Some i \<Rightarrow> do {
          let k = upd_proc k i (\<lambda>pr. pr\<lparr>pid := next_pid k, status := UNINIT\<rparr>);
          let k = k\<lparr>next_pid := next_pid k + 1\<rparr>;
          (pd, v) \<leftarrow> vm_alloc (kvm k);
          (ks, v) \<leftarrow> kalloc v;
          let k = upd_proc (k\<lparr>kvm := v\<rparr>) i (\<lambda>pr. pr\<lparr>pgdir := pd, brk := 0, kstack := ks, cont := InUser,
            parent := None, child_num := 0\<rparr>);
          let k = sem_init k (ZombieSem i) 0;
          Some (Some i, upd_proc k i (\<lambda>pr. pr\<lparr>cwd := None,
            usems := replicate MAX_USEM None, p_files := replicate MAX_UFILE None\<rparr>)) })"

definition proc_free :: "kern \<Rightarrow> nat \<Rightarrow> kern option" where
  "proc_free k p =
     (if status (pcb k p) = RUNNING then Some k
      else do {
        k \<leftarrow> vm_op k (vm_teardown (kvm k) (pgdir (pcb k p)));
        k \<leftarrow> vm_op k (kfree (kvm k) (kstack (pcb k p)));
        Some (set_status k p UNUSED) })"

abbreviation (input) KSEL_KDATA :: u32 where "KSEL_KDATA \<equiv> 16"

text \<open>\<open>proc_run\<close> up to \<open>irq_iret(proc->ctx)\<close>: from there on the process goes on with its \<open>cont\<close>.\<close>

definition proc_run :: "kern \<Rightarrow> nat \<Rightarrow> kern" where
  "proc_run k p =
     (let k = (set_status k p RUNNING)\<lparr>curr := p\<rparr> in
      k\<lparr>kvm := set_tss (set_cr3 (kvm k) (pgdir (pcb k p))) KSEL_KDATA (STACK_TOP (kstack (pcb k p)))\<rparr>)"

text \<open>\<open>proc_yield\<close> and \<open>proc_block\<close> before their \<open>INT(0x81)\<close>.\<close>

definition proc_yield :: "kern \<Rightarrow> kern" where
  "proc_yield k = set_status k (curr k) READY"

definition dup_usems :: "kern \<Rightarrow> nat \<Rightarrow> nat \<Rightarrow> kern" where
  "dup_usems k p i =
     (case usems (cur k) ! i of
        None \<Rightarrow> k
      | Some u \<Rightarrow> upd_proc (usem_dup k u) p (\<lambda>pr. pr\<lparr>usems := (usems pr)[i := Some u]\<rparr>))"

definition dup_files :: "kern \<Rightarrow> nat \<Rightarrow> nat \<Rightarrow> kern" where
  "dup_files k p i =
     (case p_files (cur k) ! i of
        None \<Rightarrow> k
      | Some f \<Rightarrow> upd_proc (fdup k f) p (\<lambda>pr. pr\<lparr>p_files := (p_files pr)[i := Some f]\<rparr>))"

definition proc_copycurr :: "kern \<Rightarrow> nat \<Rightarrow> kern option" where
  "proc_copycurr k p = do {
     k \<leftarrow> vm_op k (vm_copycurr (kvm k) (pgdir (pcb k p)));
     let k = k\<lparr>kvm := ctx_copy (kvm k) (ctx_at (kstack (pcb k p))) (ctx_at (kstack (cur k)))\<rparr>;
     let k = k\<lparr>kvm := ctx_set (kvm k) (ctx_at (kstack (pcb k p))) ctx_eax 0\<rparr>;
     let k = upd_proc k p (\<lambda>pr. pr\<lparr>parent := Some (curr k)\<rparr>);
     let k = upd_proc k (curr k) (\<lambda>pr. pr\<lparr>child_num := child_num pr + 1\<rparr>);
     let k = fold (\<lambda>i k. dup_usems k p i) [0..<MAX_USEM] k;
     let k = fold (\<lambda>i k. dup_files k p i) [0..<MAX_UFILE] k;
     (case cwd (cur k) of
        None \<Rightarrow> None
      | Some w \<Rightarrow> Some (upd_proc (k\<lparr>kfs := idup (kfs k) w\<rparr>) p (\<lambda>pr. pr\<lparr>cwd := Some w\<rparr>))) }"

definition orphan :: "nat \<Rightarrow> proc \<Rightarrow> proc" where
  "orphan p pr = (if parent pr = Some p then pr\<lparr>parent := None\<rparr> else pr)"

definition proc_makezombie :: "kern \<Rightarrow> nat \<Rightarrow> u32 \<Rightarrow> kern option" where
  "proc_makezombie k p code = do {
     let k = upd_proc k p (\<lambda>pr. pr\<lparr>status := ZOMBIE, exit_code := code\<rparr>);
     k \<leftarrow> (case parent (pcb k p) of None \<Rightarrow> Some k | Some q \<Rightarrow> sem_v k (ZombieSem q));
     let k = fold (\<lambda>i k. upd_proc k i (orphan p)) [0..<PROC_NUM] k;
     let k = fold (\<lambda>i k. case usems (pcb k p) ! i of None \<Rightarrow> k | Some u \<Rightarrow> usem_close k u) [0..<MAX_USEM] k;
     k \<leftarrow> foldM (\<lambda>k i. case p_files (pcb k p) ! i of None \<Rightarrow> Some k | Some f \<Rightarrow> fclose k f) k [0..<MAX_UFILE];
     (case cwd (pcb k p) of None \<Rightarrow> Some k | Some w \<Rightarrow> fs_op k (iclose (kfs k) w)) }"

definition proc_findzombie :: "kern \<Rightarrow> nat \<Rightarrow> nat option" where
  "proc_findzombie k p = find (\<lambda>i. parent (pcb k i) = Some p \<and> status (pcb k i) = ZOMBIE) [0..<PROC_NUM]"

text \<open>The tables of a process: the lowest free index, and the entry at an index (a signed \<open>int\<close>).\<close>

definition free_slot :: "nat option list \<Rightarrow> nat \<Rightarrow> u32" where
  "free_slot xs n = (case find (\<lambda>i. xs ! i = None) [0..<n] of Some i \<Rightarrow> of_nat i | None \<Rightarrow> - 1)"

definition get_slot :: "nat option list \<Rightarrow> nat \<Rightarrow> u32 \<Rightarrow> nat option" where
  "get_slot xs n i = (if sint i < 0 \<or> sint i \<ge> int n then None else xs ! unat i)"

definition proc_allocusem :: "kern \<Rightarrow> nat \<Rightarrow> u32" where
  "proc_allocusem k p = free_slot (usems (pcb k p)) MAX_USEM"

definition proc_getusem :: "kern \<Rightarrow> nat \<Rightarrow> u32 \<Rightarrow> nat option" where
  "proc_getusem k p i = get_slot (usems (pcb k p)) MAX_USEM i"

definition proc_allocfile :: "kern \<Rightarrow> nat \<Rightarrow> u32" where
  "proc_allocfile k p = free_slot (p_files (pcb k p)) MAX_UFILE"

definition proc_getfile :: "kern \<Rightarrow> nat \<Rightarrow> u32 \<Rightarrow> nat option" where
  "proc_getfile k p i = get_slot (p_files (pcb k p)) MAX_UFILE i"

text \<open>The search of \<open>schedule\<close>, round and round through the table; it may never end.\<close>

partial_function (option) sched_loop :: "kern \<Rightarrow> nat \<Rightarrow> nat option" where
  "sched_loop k p =
     (let p = (if p = PROC_NUM - 1 then 0 else p + 1) in
      if status (pcb k p) = READY then Some p else sched_loop k p)"

definition schedule :: "kern \<Rightarrow> kcont \<Rightarrow> kern option" where
  "schedule k c = do {
     let k = upd_proc k (curr k) (\<lambda>pr. pr\<lparr>cont := c\<rparr>);
     p \<leftarrow> sched_loop k (curr k);
     Some (proc_run k p) }"

end
