(* ===== verification/Serial.thy ===== *)
theory Serial
  imports Proc
begin

text \<open>
  The serial console, \<open>kernel/src/serial.c\<close> and the output half of \<open>kernel/klib/printf.c\<close>, and the
  kernel's access to the memory of the running user process. The characters sent to the port
  are appended to \<open>s_out\<close>; \<open>serial_handle\<close> takes the characters the port has ready as a list.
\<close>

subsection \<open>User memory\<close>

text \<open>
  A kernel access to a virtual address goes through the page tables at \<open>cr3\<close>; the processor does
  not check the user and write bits for the kernel (\<open>CR0.WP\<close> is clear). A missing page is a page
  fault in the kernel, which panics in \<open>vm_pgfault\<close>. A store through a pointer of the user, which no
  system call checks, changes the physical memory of \<open>kvm\<close>: page tables and the saved context, which
  are in it, but not the kernel's variables, which are fields of \<open>kern\<close>.
\<close>

definition translate :: "vm \<Rightarrow> u32 \<Rightarrow> u32 option" where
  "translate v va =
     (let pde = ld v (entry (PTE2PG (cr3 v)) (unat (ADDR2DIR va))) in
      if \<not> present pde then None
      else let pte = ld v (entry (PTE2PG pde) (unat (ADDR2TBL va))) in
        if present pte then Some (PTE2PG pte OR ADDR2OFF va) else None)"

definition getb :: "vm \<Rightarrow> u32 \<Rightarrow> u8 option" where
  "getb v va = map_option (\<lambda>a. pmem v (unat a)) (translate v va)"

definition putb :: "vm \<Rightarrow> u32 \<Rightarrow> u8 \<Rightarrow> vm option" where
  "putb v va b = map_option (\<lambda>a. v\<lparr>pmem := (pmem v)(unat a := b)\<rparr>) (translate v va)"

fun getbs :: "vm \<Rightarrow> u32 \<Rightarrow> nat \<Rightarrow> bytes option" where
  "getbs v va 0 = Some []"
| "getbs v va (Suc n) = do { b \<leftarrow> getb v va; bs \<leftarrow> getbs v (va + 1) n; Some (b # bs) }"

fun putbs :: "vm \<Rightarrow> u32 \<Rightarrow> bytes \<Rightarrow> vm option" where
  "putbs v va [] = Some v"
| "putbs v va (b # bs) = do { v \<leftarrow> putb v va b; putbs v (va + 1) bs }"

definition getw :: "vm \<Rightarrow> u32 \<Rightarrow> u32 option" where
  "getw v va = map_option of_le32 (getbs v va 4)"

definition putw :: "vm \<Rightarrow> u32 \<Rightarrow> u32 \<Rightarrow> vm option" where
  "putw v va w = putbs v va (le32 w)"

partial_function (option) getstr :: "vm \<Rightarrow> u32 \<Rightarrow> bytes option" where
  "getstr v va = Option.bind (getb v va)
     (\<lambda>b. if b = 0 then Some [] else Option.bind (getstr v (va + 1)) (\<lambda>bs. Some (b # bs)))"

subsection \<open>Output\<close>

abbreviation (input) NEWLINE :: u8 where "NEWLINE \<equiv> 10"

definition putchar :: "kern \<Rightarrow> u8 \<Rightarrow> kern" where
  "putchar k ch = k\<lparr>s_out := s_out k @ [ch]\<rparr>"

definition putstrn :: "kern \<Rightarrow> bytes \<Rightarrow> kern" where
  "putstrn k str = fold (\<lambda>ch k. putchar k ch) str k"

definition init_serial :: "kern \<Rightarrow> kern" where
  "init_serial k = sem_init (putchar k NEWLINE) SerialSem 0"

definition serial_write :: "kern \<Rightarrow> bytes \<Rightarrow> u32 \<times> kern" where
  "serial_write k buf = (of_nat (length buf), putstrn k buf)"

subsection \<open>The input buffer\<close>

abbreviation (input) BUFFER_SIZE :: nat where "BUFFER_SIZE \<equiv> 256"

text \<open>\<open>head\<close>, \<open>tail\<close> and \<open>clapboard\<close> are C \<open>int\<close>s that only grow: overflow is undefined.\<close>

definition push_back :: "kern \<Rightarrow> u8 \<Rightarrow> kern option" where
  "push_back k ch =
     (if s_tail k + 1 \<ge> 2 ^ 31 then None
      else do {
        let k = k\<lparr>s_buffer := (s_buffer k)(s_tail k mod BUFFER_SIZE := ch), s_tail := s_tail k + 1\<rparr>;
        (if ch = NEWLINE then do {
           k \<leftarrow> foldM (\<lambda>k i. sem_v k SerialSem) k [0..<s_tail k - s_clap k];
           Some (k\<lparr>s_clap := s_tail k\<rparr>)
         } else Some k) })"

definition pop_back :: "kern \<Rightarrow> u8 \<times> kern" where
  "pop_back k =
     (if s_tail k > s_clap k
      then (s_buffer k ((s_tail k - 1) mod BUFFER_SIZE), k\<lparr>s_tail := s_tail k - 1\<rparr>)
      else (0, k))"

definition pop_front :: "kern \<Rightarrow> u8 \<times> kern" where
  "pop_front k =
     (if s_clap k > s_head k
      then (s_buffer k (s_head k mod BUFFER_SIZE), k\<lparr>s_head := s_head k + 1\<rparr>)
      else (0, k))"

text \<open>
  \<open>serial_handle\<close> on the characters that are ready: ESC swallows the rest, backspace and DEL take
  a character of the unfinished line back, carriage return becomes newline, and only newline and
  printable characters are echoed and stored.
\<close>

fun serial_handle :: "kern \<Rightarrow> bytes \<Rightarrow> kern option" where
  "serial_handle k [] = Some k"
| "serial_handle k (ch # input) =
     (if ch = 0 then serial_handle k input
      else if ch = 0x1b then Some k
      else if ch = 8 \<or> ch = 0x7f then
        (let (c, k) = pop_back k in
         serial_handle (if c \<noteq> 0 then putchar (putchar (putchar k 8) 32) 8 else k) input)
      else
        let ch = (if ch = 13 then NEWLINE else ch) in
        if ch = NEWLINE \<or> 32 \<le> ch \<and> ch < 127
        then do { k \<leftarrow> push_back (putchar k ch) ch; serial_handle k input }
        else serial_handle k input)"

text \<open>
  \<open>getchar\<close> is \<open>sem_p(&serial_sem)\<close> followed by this; \<open>serial_read\<close> can block in it in every round.
  \<open>serial_loop\<close> is its loop from a test of the condition on, with \<open>ch\<close> the last character;
  \<open>serial_resume\<close> is the rest of a round whose \<open>sem_p\<close> has returned. The result is the number of
  characters read, or \<open>None\<close> with the blocked state, whose \<open>i\<close> is part of the pending \<open>KSerial\<close>.
\<close>

definition getchar_tail :: "kern \<Rightarrow> (u8 \<times> kern) option" where
  "getchar_tail k = (let (ch, k) = pop_front k in if ch \<noteq> 0 then Some (ch, k) else None)"

datatype 'a step = Done 'a | Block kcont

partial_function (option) serial_loop ::
    "kern \<Rightarrow> u32 \<Rightarrow> u32 \<Rightarrow> u32 \<Rightarrow> u8 \<Rightarrow> (u32 step \<times> kern) option" where
  "serial_loop k buf count i ch =
     (if i < count \<and> ch \<noteq> NEWLINE then
        Option.bind (sem_p k SerialSem) (\<lambda>(blocked, k).
        if blocked then Some (Block (KSerial buf count i), k)
        else Option.bind (getchar_tail k) (\<lambda>(ch, k).
             Option.bind (putb (kvm k) (buf + i) ch) (\<lambda>v.
             serial_loop (k\<lparr>kvm := v\<rparr>) buf count (i + 1) ch)))
      else Some (Done i, k))"

definition serial_resume :: "kern \<Rightarrow> u32 \<Rightarrow> u32 \<Rightarrow> u32 \<Rightarrow> (u32 step \<times> kern) option" where
  "serial_resume k buf count i = do {
     (ch, k) \<leftarrow> getchar_tail k;
     v \<leftarrow> putb (kvm k) (buf + i) ch;
     serial_loop (k\<lparr>kvm := v\<rparr>) buf count (i + 1) ch }"

definition serial_read :: "kern \<Rightarrow> u32 \<Rightarrow> u32 \<Rightarrow> (u32 step \<times> kern) option" where
  "serial_read k buf count = serial_loop k buf count 0 0"

end
