(* ===== verification/File.thy ===== *)
theory File
  imports Serial
begin

text \<open>
  Open files, \<open>kernel/src/file.c\<close>, and the device table, \<open>kernel/src/dev.c\<close>. A \<open>dev_t *\<close> is the
  number of the entry of \<open>dev_table\<close>.
\<close>

subsection \<open>Devices\<close>

abbreviation (input) DEV_NUM :: nat where "DEV_NUM \<equiv> 2"

text \<open>The names \<open>/dev\<close>, \<open>/dev/serial\<close> and \<open>/dev/null\<close>.\<close>

definition dev_dir :: bytes where
  "dev_dir = [47, 100, 101, 118]"

definition dev_name :: "nat \<Rightarrow> bytes" where
  "dev_name i = dev_dir @ (if i = 0 then [47, 115, 101, 114, 105, 97, 108] else [47, 110, 117, 108, 108])"

definition dirent_junk :: "kern \<Rightarrow> bytes" where
  "dirent_junk k = take 32 (junk k)"

definition kopen :: "kern \<Rightarrow> bytes \<Rightarrow> u32 \<Rightarrow> (nat option \<times> kern) option" where
  "kopen k path ty = do {
     (ip, f) \<leftarrow> iopen (kfs k) (cwd (cur k)) path ty (dirent_junk k);
     Some (ip, k\<lparr>kfs := f\<rparr>) }"

definition init_dev :: "kern \<Rightarrow> kern option" where
  "init_dev k = do {
     (ip, k) \<leftarrow> kopen k dev_dir TYPE_DIR;
     k \<leftarrow> (case ip of None \<Rightarrow> None | Some p \<Rightarrow> fs_op k (iclose (kfs k) p));
     foldM (\<lambda>k i. fs_op k (iadddev (kfs k) (cwd (cur k)) (dev_name i) (of_nat i) (dirent_junk k)))
       k [0..<DEV_NUM] }"

text \<open>\<open>id >= DEV_NUM\<close> compares unsigned, so a negative id is out of range too.\<close>

definition dev_get :: "u32 \<Rightarrow> nat option" where
  "dev_get d = (if unat d \<ge> DEV_NUM then None else Some (unat d))"

definition dev_read :: "kern \<Rightarrow> nat \<Rightarrow> u32 \<Rightarrow> u32 \<Rightarrow> (u32 step \<times> kern) option" where
  "dev_read k d buf count = (if d = 0 then serial_read k buf count else Some (Done (- 1), k))"

definition dev_write :: "kern \<Rightarrow> nat \<Rightarrow> u32 \<Rightarrow> u32 \<Rightarrow> (u32 \<times> kern) option" where
  "dev_write k d buf count =
     (if d = 0 then do { bs \<leftarrow> getbs (kvm k) buf (unat count); Some (serial_write k bs) }
      else Some (count, k))"

subsection \<open>Opening\<close>

abbreviation (input) O_WRONLY :: u32 where "O_WRONLY \<equiv> 0x001"
abbreviation (input) O_RDWR :: u32 where "O_RDWR \<equiv> 0x002"
abbreviation (input) O_CREATE :: u32 where "O_CREATE \<equiv> 0x200"
abbreviation (input) O_TRUNC :: u32 where "O_TRUNC \<equiv> 0x400"
abbreviation (input) O_DIR :: u32 where "O_DIR \<equiv> 0x800"

definition flag :: "u32 \<Rightarrow> u32 \<Rightarrow> bool" where
  "flag mode f \<longleftrightarrow> mode AND f \<noteq> 0"

definition falloc :: "kern \<Rightarrow> nat option \<times> kern" where
  "falloc k =
     (case find (\<lambda>i. f_ref (files k i) = 0) [0..<TOTAL_FILE] of
        Some i \<Rightarrow> (Some i, upd_file k i (\<lambda>f. f\<lparr>f_ref := 1, f_type := TYPE_NONE\<rparr>))
      | None \<Rightarrow> (None, k))"

definition open_type :: "u32 \<Rightarrow> u32" where
  "open_type mode = (if flag mode O_CREATE then if flag mode O_DIR then TYPE_DIR else TYPE_FILE else TYPE_NONE)"

text \<open>The code at the label \<open>bad\<close>, with \<open>fp\<close> allocated.\<close>

definition fopen_bad :: "kern \<Rightarrow> nat \<Rightarrow> nat option \<Rightarrow> (nat option \<times> kern) option" where
  "fopen_bad k fp ip = do {
     k \<leftarrow> fclose k fp;
     (case ip of None \<Rightarrow> Some (None, k) | Some p \<Rightarrow> do { k \<leftarrow> fs_op k (iclose (kfs k) p); Some (None, k) }) }"

text \<open>\<open>path\<close> is a user pointer; its string is read when a \<open>file_t\<close> has been found.\<close>

definition fopen :: "kern \<Rightarrow> u32 \<Rightarrow> u32 \<Rightarrow> (nat option \<times> kern) option" where
  "fopen k path mode =
     (case falloc k of
        (None, k) \<Rightarrow> Some (None, k)
      | (Some fp, k) \<Rightarrow> do {
          name \<leftarrow> getstr (kvm k) path;
          (ip, k) \<leftarrow> kopen k name (open_type mode);
          (case ip of
             None \<Rightarrow> fopen_bad k fp None
           | Some p \<Rightarrow>
               let ty = itype (kfs k) p;
                   rw = (\<lambda>f. f\<lparr>readable := \<not> flag mode O_WRONLY,
                               writable := flag mode O_WRONLY \<or> flag mode O_RDWR\<rparr>)
               in
               if ty = TYPE_FILE \<or> ty = TYPE_DIR then
                 if ty \<noteq> TYPE_DIR \<and> flag mode O_DIR then fopen_bad k fp (Some p)
                 else if ty = TYPE_DIR \<and> (flag mode O_WRONLY \<or> flag mode O_RDWR \<or> flag mode O_TRUNC)
                 then fopen_bad k fp (Some p)
                 else do {
                   k \<leftarrow> (if ty = TYPE_FILE \<and> flag mode O_TRUNC then fs_op k (itrunc (kfs k) p) else Some k);
                   Some (Some fp, upd_file k fp
                     (\<lambda>f. rw (f\<lparr>f_type := TYPE_FILE, f_inode := p, f_offset := 0\<rparr>))) }
               else if ty = TYPE_DEV then do {
                 let k = upd_file k fp (\<lambda>f. f\<lparr>f_type := TYPE_DEV, dev_op := dev_get (idevid (kfs k) p)\<rparr>);
                 k \<leftarrow> fs_op k (iclose (kfs k) p);
                 Some (Some fp, upd_file k fp rw) }
               else None) })"

subsection \<open>Reading, writing and seeking\<close>

text \<open>
  The buffer is in user memory. A device without operations (\<open>dev_op\<close> \<open>NULL\<close>) faults; so does a
  write whose source is not mapped, but \<open>iwrite\<close> looks at no byte of it when the offset is
  beyond the file's end.
\<close>

definition fread :: "kern \<Rightarrow> nat \<Rightarrow> u32 \<Rightarrow> u32 \<Rightarrow> (u32 step \<times> kern) option" where
  "fread k fp buf n =
     (let f = files k fp in
      if \<not> readable f then Some (Done (- 1), k)
      else if f_type f = TYPE_FILE then do {
        (r, bs, fsys) \<leftarrow> iread (kfs k) (f_inode f) (f_offset f) n;
        v \<leftarrow> putbs (kvm k) buf bs;
        let k = k\<lparr>kfs := fsys, kvm := v\<rparr>;
        (if r \<ge> 0
         then Some (Done (of_int r), upd_file k fp (\<lambda>f. f\<lparr>f_offset := f_offset f + of_int r\<rparr>))
         else Some (Done (- 1), k))
      } else if f_type f = TYPE_DEV then (case dev_op f of None \<Rightarrow> None | Some d \<Rightarrow> dev_read k d buf n)
      else Some (Done (- 1), k))"

definition fwrite :: "kern \<Rightarrow> nat \<Rightarrow> u32 \<Rightarrow> u32 \<Rightarrow> (u32 \<times> kern) option" where
  "fwrite k fp buf n =
     (let f = files k fp in
      if \<not> writable f then Some (- 1, k)
      else if f_type f = TYPE_FILE then
        if f_offset f > isize (kfs k) (f_inode f) then Some (- 1, k)
        else do {
          bs \<leftarrow> getbs (kvm k) buf (unat n);
          (r, fsys) \<leftarrow> iwrite (kfs k) (f_inode f) (f_offset f) bs;
          let k = k\<lparr>kfs := fsys\<rparr>;
          (if r \<ge> 0 then Some (of_int r, upd_file k fp (\<lambda>f. f\<lparr>f_offset := f_offset f + of_int r\<rparr>))
           else Some (- 1, k)) }
      else if f_type f = TYPE_DEV then (case dev_op f of None \<Rightarrow> None | Some d \<Rightarrow> dev_write k d buf n)
      else Some (- 1, k))"

abbreviation (input) SEEK_SET :: u32 where "SEEK_SET \<equiv> 0"
abbreviation (input) SEEK_CUR :: u32 where "SEEK_CUR \<equiv> 1"
abbreviation (input) SEEK_END :: u32 where "SEEK_END \<equiv> 2"

definition fseek :: "kern \<Rightarrow> nat \<Rightarrow> u32 \<Rightarrow> u32 \<Rightarrow> (u32 \<times> kern) option" where
  "fseek k fp off whence =
     (let f = files k fp; set = (\<lambda>o'. Some (o', upd_file k fp (\<lambda>f. f\<lparr>f_offset := o'\<rparr>))) in
      if f_type f = TYPE_FILE then
        if whence = SEEK_SET then set off
        else if whence = SEEK_CUR then set (f_offset f + off)
        else if whence = SEEK_END then set (isize (kfs k) (f_inode f) + off)
        else None
      else Some (- 1, k))"

end
