(* ===== verification/Loader.thy ===== *)
theory Loader
  imports File
begin

text \<open>
  The program loader, \<open>kernel/src/loader.c\<close>: an ELF file's segments go to the pages of a new address
  space, the argument vector to the top of its stack page. A \<open>Context\<close> is the list of its fifteen
  words. A variable the kernel reads into without checking the count starts with the bytes \<open>junk\<close>.
\<close>

subsection \<open>Segments\<close>

abbreviation (input) EHDR_SIZE :: nat where "EHDR_SIZE \<equiv> 52"
abbreviation (input) PHDR_SIZE :: nat where "PHDR_SIZE \<equiv> 32"
abbreviation (input) ELF_MAGIC :: u32 where "ELF_MAGIC \<equiv> 0x464c457f"
abbreviation (input) PT_LOAD :: u32 where "PT_LOAD \<equiv> 1"

definition field :: "bytes \<Rightarrow> nat \<Rightarrow> u32" where
  "field bs off = of_le32 (drop off bs)"

definition e_phnum :: "bytes \<Rightarrow> nat" where
  "e_phnum elf = unat (elf ! 44) + 256 * unat (elf ! 45)"

definition load_segment :: "u32 \<Rightarrow> nat \<Rightarrow> u32 \<Rightarrow> bytes \<times> kern \<Rightarrow> nat \<Rightarrow> (bytes \<times> kern) option" where
  "load_segment pd ip phoff s i = (case s of (ph, k) \<Rightarrow> do {
     (_, bs, f) \<leftarrow> iread (kfs k) ip (phoff + of_nat (PHDR_SIZE * i)) (of_nat PHDR_SIZE);
     let k = k\<lparr>kfs := f\<rparr>;
     let ph = patch ph 0 bs;
     (if field ph 0 = PT_LOAD then do {
        let p_offset = field ph 4;
        let p_vaddr = field ph 8;
        let p_filesz = field ph 16;
        let p_memsz = field ph 20;
        let prot = (if field ph 24 AND 2 \<noteq> 0 then 7 else 5);
        k \<leftarrow> vm_op k (vm_map (kvm k) pd p_vaddr p_memsz prot);
        let k = k\<lparr>kvm := set_cr3 (kvm k) pd\<rparr>;
        (_, bs, f) \<leftarrow> iread (kfs k) ip p_offset p_filesz;
        v \<leftarrow> putbs (kvm k) p_vaddr bs;
        v \<leftarrow> putbs v (p_vaddr + p_filesz) (replicate (unat (p_memsz - p_filesz)) 0);
        Some (ph, k\<lparr>kfs := f, kvm := v\<rparr>)
      } else Some (ph, k)) })"

definition load_elf :: "kern \<Rightarrow> u32 \<Rightarrow> bytes \<Rightarrow> (u32 \<times> kern) option" where
  "load_elf k pd name = do {
     (inode, k) \<leftarrow> kopen k name TYPE_NONE;
     (case inode of
        None \<Rightarrow> Some (- 1, k)
      | Some ip \<Rightarrow> do {
          (_, bs, f) \<leftarrow> iread (kfs k) ip 0 (of_nat EHDR_SIZE);
          let k = k\<lparr>kfs := f\<rparr>;
          let elf = patch (take EHDR_SIZE (junk k)) 0 bs;
          (if field elf 0 \<noteq> ELF_MAGIC then do { k \<leftarrow> fs_op k (iclose (kfs k) ip); Some (- 1, k) }
           else do {
             let pd_curr = vm_curr (kvm k);
             (_, k) \<leftarrow> foldM (load_segment pd ip (field elf 28)) (take PHDR_SIZE (junk k), k) [0..<e_phnum elf];
             let k = k\<lparr>kvm := set_cr3 (kvm k) pd_curr\<rparr>;
             k \<leftarrow> vm_op k (vm_map (kvm k) pd (USR_MEM - of_nat PGSIZE) (of_nat PGSIZE) 7);
             k \<leftarrow> fs_op k (iclose (kfs k) ip);
             Some (field elf 24, k) }) }) }"

subsection \<open>The argument vector\<close>

text \<open>
  A kernel store through the identity mapping; page 0 is not mapped. \<open>push_args\<close> is the first
  loop of \<open>load_arg\<close> from argument \<open>i\<close> on, with room for \<open>n\<close> more before its assertion fails; it
  returns the user addresses of the strings.
\<close>

definition kstore :: "vm \<Rightarrow> u32 \<Rightarrow> bytes \<Rightarrow> vm option" where
  "kstore v a bs =
     (if PGSIZE \<le> unat a \<and> unat a + length bs \<le> unat PHY_MEM then Some (fill v a bs) else None)"

definition stack_va :: "u32 \<Rightarrow> u32" where
  "stack_va sp = USR_MEM - of_nat PGSIZE + ADDR2OFF sp"

fun push_args :: "vm \<Rightarrow> u32 \<Rightarrow> nat \<Rightarrow> nat \<Rightarrow> u32 \<Rightarrow> (u32 list \<times> u32 \<times> vm) option" where
  "push_args v argv i 0 sp =
     Option.bind (getw v (argv + of_nat (4 * i))) (\<lambda>p. if p = 0 then Some ([], sp, v) else None)"
| "push_args v argv i (Suc n) sp =
     Option.bind (getw v (argv + of_nat (4 * i))) (\<lambda>p.
     if p = 0 then Some ([], sp, v)
     else do {
       str \<leftarrow> getstr v p;
       let sp = sp - of_nat (length str + 1);
       v \<leftarrow> kstore v sp (str @ [0]);
       (vas, sp', v) \<leftarrow> push_args v argv (i + 1) n sp;
       Some (stack_va sp # vas, sp', v) })"

definition push_word :: "u32 \<times> vm \<Rightarrow> u32 \<Rightarrow> (u32 \<times> vm) option" where
  "push_word s w = (case s of (sp, v) \<Rightarrow> do { v \<leftarrow> kstore v (sp - 4) (le32 w); Some (sp - 4, v) })"

abbreviation (input) MAX_ARGS_NUM :: nat where "MAX_ARGS_NUM \<equiv> 31"

definition load_arg :: "vm \<Rightarrow> u32 \<Rightarrow> u32 \<Rightarrow> (u32 \<times> vm) option" where
  "load_arg v pd argv = do {
     (pa, v) \<leftarrow> vm_walk v pd (USR_MEM - of_nat PGSIZE) 7;
     (vas, sp, v) \<leftarrow> push_args v argv 0 MAX_ARGS_NUM (pa + of_nat PGSIZE);
     let sp = sp - ADDR2OFF sp mod 4;
     (sp, v) \<leftarrow> foldM push_word (sp, v) (rev (vas @ [0]));
     (sp, v) \<leftarrow> push_word (sp, v) (stack_va sp);
     (sp, v) \<leftarrow> push_word (sp, v) (of_nat (length vas));
     Some (stack_va (sp - 4), v) }"

subsection \<open>The initial context\<close>

definition user_ctx :: "u32 \<Rightarrow> u32 \<Rightarrow> u32 list \<Rightarrow> u32 list" where
  "user_ctx eip esp ctx =
     ctx[ctx_cs := 0x1b, 0 := 0x23, ctx_eip := eip, ctx_ss := 0x23, ctx_esp := esp, ctx_eflags := 0x202]"

definition load_user :: "kern \<Rightarrow> u32 \<Rightarrow> u32 list \<Rightarrow> bytes \<Rightarrow> u32 \<Rightarrow> (u32 \<times> u32 list \<times> kern) option" where
  "load_user k pd ctx name argv = do {
     (eip, k) \<leftarrow> load_elf k pd name;
     (if eip = - 1 then Some (- 1, ctx, k)
      else do {
        (esp, v) \<leftarrow> load_arg (kvm k) pd argv;
        Some (0, user_ctx eip esp ctx, k\<lparr>kvm := v\<rparr>) }) }"

end
