(* ===== verification/Syscall.thy ===== *)
theory Syscall
  imports Loader
begin

text \<open>
  System calls and interrupts, \<open>kernel/src/syscall.c\<close>, \<open>timer.c\<close>, \<open>irq_handle\<close> of \<open>cte.c\<close>, and the
  start of the system, \<open>main.c\<close>. A handler ends in an \<open>outcome\<close>: \<open>Ret r\<close> it returned \<open>r\<close> (for a
  \<open>void\<close> handler, whatever the register held); \<open>Switch c\<close> it raised \<open>INT(0x81)\<close> and has \<open>c\<close> to do
  when the process runs again; \<open>Enter ctx\<close> it went to user mode with \<open>irq_iret(&ctx)\<close>.
\<close>

datatype outcome = Ret u32 | Switch kcont | Enter "u32 list" | Iret

subsection \<open>Files\<close>

definition fd_file :: "kern \<Rightarrow> u32 \<Rightarrow> nat option" where
  "fd_file k fd = proc_getfile k (curr k) fd"

definition set_fd :: "kern \<Rightarrow> u32 \<Rightarrow> nat option \<Rightarrow> kern" where
  "set_fd k fd f = upd_proc k (curr k) (\<lambda>pr. pr\<lparr>p_files := (p_files pr)[unat fd := f]\<rparr>)"

definition of_step :: "u32 step \<Rightarrow> outcome" where
  "of_step s = (case s of Done r \<Rightarrow> Ret r | Block c \<Rightarrow> Switch c)"

definition sys_write :: "kern \<Rightarrow> u32 \<Rightarrow> u32 \<Rightarrow> u32 \<Rightarrow> (outcome \<times> kern) option" where
  "sys_write k fd buf count =
     (case fd_file k fd of
        None \<Rightarrow> Some (Ret (- 1), k)
      | Some f \<Rightarrow> do { (r, k) \<leftarrow> fwrite k f buf count; Some (Ret r, k) })"

definition sys_read :: "kern \<Rightarrow> u32 \<Rightarrow> u32 \<Rightarrow> u32 \<Rightarrow> (outcome \<times> kern) option" where
  "sys_read k fd buf count =
     (case fd_file k fd of
        None \<Rightarrow> Some (Ret (- 1), k)
      | Some f \<Rightarrow> do { (s, k) \<leftarrow> fread k f buf count; Some (of_step s, k) })"

definition sys_open :: "kern \<Rightarrow> u32 \<Rightarrow> u32 \<Rightarrow> (outcome \<times> kern) option" where
  "sys_open k path mode =
     (let fd = proc_allocfile k (curr k) in
      if fd = - 1 then Some (Ret (- 1), k)
      else do {
        (f, k) \<leftarrow> fopen k path mode;
        (case f of None \<Rightarrow> Some (Ret (- 1), k) | Some f \<Rightarrow> Some (Ret fd, set_fd k fd (Some f))) })"

definition sys_close :: "kern \<Rightarrow> u32 \<Rightarrow> (outcome \<times> kern) option" where
  "sys_close k fd =
     (case fd_file k fd of
        None \<Rightarrow> Some (Ret (- 1), k)
      | Some f \<Rightarrow> do { k \<leftarrow> fclose k f; Some (Ret 0, set_fd k fd None) })"

definition sys_dup :: "kern \<Rightarrow> u32 \<Rightarrow> (outcome \<times> kern) option" where
  "sys_dup k fd =
     (let new_fd = proc_allocfile k (curr k) in
      if new_fd = - 1 then Some (Ret (- 1), k)
      else (case fd_file k fd of
          None \<Rightarrow> Some (Ret (- 1), k)
        | Some f \<Rightarrow> Some (Ret new_fd, set_fd (fdup k f) new_fd (Some f))))"

definition sys_lseek :: "kern \<Rightarrow> u32 \<Rightarrow> u32 \<Rightarrow> u32 \<Rightarrow> (outcome \<times> kern) option" where
  "sys_lseek k fd off whence =
     (case fd_file k fd of
        None \<Rightarrow> Some (Ret (- 1), k)
      | Some f \<Rightarrow> do { (r, k) \<leftarrow> fseek k f off whence; Some (Ret r, k) })"

definition put_stat :: "kern \<Rightarrow> u32 \<Rightarrow> u32 \<Rightarrow> u32 \<Rightarrow> u32 \<Rightarrow> kern option" where
  "put_stat k a ty sz no = do {
     v \<leftarrow> putw (kvm k) a ty;
     v \<leftarrow> putw v (a + 4) sz;
     v \<leftarrow> putw v (a + 8) no;
     Some (k\<lparr>kvm := v\<rparr>) }"

definition sys_fstat :: "kern \<Rightarrow> u32 \<Rightarrow> u32 \<Rightarrow> (outcome \<times> kern) option" where
  "sys_fstat k fd a =
     (case fd_file k fd of
        None \<Rightarrow> Some (Ret (- 1), k)
      | Some f \<Rightarrow> do {
          let p = f_inode (files k f);
          k \<leftarrow> (if f_type (files k f) = TYPE_FILE then put_stat k a (itype (kfs k) p) (isize (kfs k) p) (ino (kfs k) p)
                else if f_type (files k f) = TYPE_DEV then put_stat k a TYPE_DEV 0 0
                else Some k);
          Some (Ret 0, k) })"

definition sys_chdir :: "kern \<Rightarrow> u32 \<Rightarrow> (outcome \<times> kern) option" where
  "sys_chdir k path = do {
     name \<leftarrow> getstr (kvm k) path;
     (ip, k) \<leftarrow> kopen k name TYPE_NONE;
     (case ip of
        None \<Rightarrow> Some (Ret (- 1), k)
      | Some p \<Rightarrow>
          if itype (kfs k) p \<noteq> TYPE_DIR then do { k \<leftarrow> fs_op k (iclose (kfs k) p); Some (Ret (- 1), k) }
          else (case cwd (cur k) of
              None \<Rightarrow> None
            | Some w \<Rightarrow> do {
                k \<leftarrow> fs_op k (iclose (kfs k) w);
                Some (Ret 0, upd_proc k (curr k) (\<lambda>pr. pr\<lparr>cwd := Some p\<rparr>)) })) }"

definition sys_unlink :: "kern \<Rightarrow> u32 \<Rightarrow> (outcome \<times> kern) option" where
  "sys_unlink k path = do {
     name \<leftarrow> getstr (kvm k) path;
     (r, f) \<leftarrow> iremove (kfs k) (cwd (cur k)) name (dirent_junk k);
     Some (Ret (of_int r), k\<lparr>kfs := f\<rparr>) }"

subsection \<open>Memory and programs\<close>

definition sys_brk :: "kern \<Rightarrow> u32 \<Rightarrow> (outcome \<times> kern) option" where
  "sys_brk k addr = do {
     let brk0 = brk (cur k);
     let new_brk = PAGE_UP addr;
     k \<leftarrow> (if brk0 = 0 then Some k
           else if new_brk > brk0 then vm_op k (vm_map (kvm k) (vm_curr (kvm k)) brk0 (new_brk - brk0) 7)
           else if new_brk < brk0 then vm_op k (vm_unmap (kvm k) (vm_curr (kvm k)) new_brk (brk0 - new_brk))
           else Some k);
     Some (Ret 0, upd_proc k (curr k) (\<lambda>pr. pr\<lparr>brk := new_brk\<rparr>)) }"

definition ctx_words :: "bytes \<Rightarrow> u32 list" where
  "ctx_words bs = map (\<lambda>i. of_le32 (drop (4 * i) bs)) [0..<15]"

definition sys_exec :: "kern \<Rightarrow> u32 \<Rightarrow> u32 \<Rightarrow> (outcome \<times> kern) option" where
  "sys_exec k path argv = do {
     (pd, v) \<leftarrow> vm_alloc (kvm k);
     let k = upd_proc (k\<lparr>kvm := v\<rparr>) (curr k) (\<lambda>pr. pr\<lparr>pgdir := pd\<rparr>);
     name \<leftarrow> getstr (kvm k) path;
     (r, ctx, k) \<leftarrow> load_user k pd (ctx_words (junk k)) name argv;
     (if r \<noteq> 0 then do { k \<leftarrow> vm_op k (kfree (kvm k) pd); Some (Ret (- 1), k) }
      else do {
        let pd_curr = vm_curr (kvm k);
        let k = k\<lparr>kvm := set_cr3 (kvm k) pd\<rparr>;
        k \<leftarrow> vm_op k (kfree (kvm k) pd_curr);
        Some (Enter ctx, k) }) }"

subsection \<open>Processes\<close>

definition get_tick :: "kern \<Rightarrow> u32" where
  "get_tick k = tick k"

definition sleep_loop :: "kern \<Rightarrow> u32 \<Rightarrow> u32 \<Rightarrow> outcome \<times> kern" where
  "sleep_loop k since ticks =
     (if get_tick k - since < ticks then (Switch (KSleep since ticks), proc_yield k) else (Ret (eax_junk k), k))"

definition sys_sleep :: "kern \<Rightarrow> u32 \<Rightarrow> outcome \<times> kern" where
  "sys_sleep k ticks = sleep_loop k (get_tick k) ticks"

definition sys_getpid :: "kern \<Rightarrow> outcome \<times> kern" where
  "sys_getpid k = (Ret (pid (cur k)), k)"

definition sys_yield :: "kern \<Rightarrow> outcome \<times> kern" where
  "sys_yield k = (Switch KYield, proc_yield k)"

definition sys_fork :: "kern \<Rightarrow> (outcome \<times> kern) option" where
  "sys_fork k = do {
     (child, k) \<leftarrow> proc_alloc k;
     (case child of
        None \<Rightarrow> Some (Ret (- 1), k)
      | Some c \<Rightarrow> do {
          k \<leftarrow> proc_copycurr k c;
          let k = proc_addready k c;
          Some (Ret (pid (pcb k c)), k) }) }"

definition sys_exit :: "kern \<Rightarrow> u32 \<Rightarrow> (outcome \<times> kern) option" where
  "sys_exit k code = do { k \<leftarrow> proc_makezombie k (curr k) code; Some (Switch KExit, k) }"

text \<open>\<open>sys_wait\<close> after its \<open>sem_p\<close>; the missing zombie is the failed assertion.\<close>

definition wait_tail :: "kern \<Rightarrow> u32 \<Rightarrow> (outcome \<times> kern) option" where
  "wait_tail k a =
     (case proc_findzombie k (curr k) of
        None \<Rightarrow> None
      | Some z \<Rightarrow> do {
          v \<leftarrow> (if a \<noteq> 0 then putw (kvm k) a (exit_code (pcb k z)) else Some (kvm k));
          let k = k\<lparr>kvm := v\<rparr>;
          let zpid = pid (pcb k z);
          k \<leftarrow> proc_free k z;
          Some (Ret zpid, upd_proc k (curr k) (\<lambda>pr. pr\<lparr>child_num := child_num pr - 1\<rparr>)) })"

definition sys_wait :: "kern \<Rightarrow> u32 \<Rightarrow> (outcome \<times> kern) option" where
  "sys_wait k a =
     (if child_num (cur k) = 0 then Some (Ret (- 1), k)
      else do {
        (blocked, k) \<leftarrow> sem_p k (ZombieSem (curr k));
        (if blocked then Some (Switch (KWait a), k) else wait_tail k a) })"

subsection \<open>User semaphores\<close>

definition set_usem :: "kern \<Rightarrow> u32 \<Rightarrow> nat option \<Rightarrow> kern" where
  "set_usem k i u = upd_proc k (curr k) (\<lambda>pr. pr\<lparr>usems := (usems pr)[unat i := u]\<rparr>)"

definition sys_sem_open :: "kern \<Rightarrow> u32 \<Rightarrow> outcome \<times> kern" where
  "sys_sem_open k v =
     (let i = proc_allocusem k (curr k) in
      if i = - 1 then (Ret (- 1), k)
      else (case usem_alloc k (sint v) of
          (None, k) \<Rightarrow> (Ret (- 1), k)
        | (Some u, k) \<Rightarrow> (Ret i, set_usem k i (Some u))))"

definition sys_sem_p :: "kern \<Rightarrow> u32 \<Rightarrow> (outcome \<times> kern) option" where
  "sys_sem_p k i =
     (case proc_getusem k (curr k) i of
        None \<Rightarrow> Some (Ret (- 1), k)
      | Some u \<Rightarrow> do { (blocked, k) \<leftarrow> sem_p k (UserSem u); Some (if blocked then Switch KSemP else Ret 0, k) })"

definition sys_sem_v :: "kern \<Rightarrow> u32 \<Rightarrow> (outcome \<times> kern) option" where
  "sys_sem_v k i =
     (case proc_getusem k (curr k) i of
        None \<Rightarrow> Some (Ret (- 1), k)
      | Some u \<Rightarrow> do { k \<leftarrow> sem_v k (UserSem u); Some (Ret 0, k) })"

definition sys_sem_close :: "kern \<Rightarrow> u32 \<Rightarrow> outcome \<times> kern" where
  "sys_sem_close k i =
     (case proc_getusem k (curr k) i of
        None \<Rightarrow> (Ret (- 1), k)
      | Some u \<Rightarrow> (Ret 0, set_usem (usem_close k u) i None))"

subsection \<open>Dispatch\<close>

abbreviation (input) NR_SYS :: int where "NR_SYS \<equiv> 33"

text \<open>The table; the calls from 21 on are \<open>TODO()\<close>, a panic.\<close>

definition syscall_handle :: "nat \<Rightarrow> kern \<Rightarrow> u32 \<Rightarrow> u32 \<Rightarrow> u32 \<Rightarrow> (outcome \<times> kern) option" where
  "syscall_handle n k a1 a2 a3 =
     (if n = 0 then sys_write k a1 a2 a3
      else if n = 1 then sys_read k a1 a2 a3
      else if n = 2 then sys_brk k a1
      else if n = 3 then Some (sys_sleep k a1)
      else if n = 4 then sys_exec k a1 a2
      else if n = 5 then Some (sys_getpid k)
      else if n = 6 then Some (sys_yield k)
      else if n = 7 then sys_fork k
      else if n = 8 then sys_exit k a1
      else if n = 9 then sys_wait k a1
      else if n = 10 then Some (sys_sem_open k a1)
      else if n = 11 then sys_sem_p k a1
      else if n = 12 then sys_sem_v k a1
      else if n = 13 then Some (sys_sem_close k a1)
      else if n = 14 then sys_open k a1 a2
      else if n = 15 then sys_close k a1
      else if n = 16 then sys_dup k a1
      else if n = 17 then sys_lseek k a1 a2 a3
      else if n = 18 then sys_fstat k a1 a2
      else if n = 19 then sys_chdir k a1
      else if n = 20 then sys_unlink k a1
      else None)"

definition user_ctx_of :: "kern \<Rightarrow> u32" where
  "user_ctx_of k = ctx_at (kstack (cur k))"

text \<open>\<open>do_syscall\<close> up to the return of the handler; the store to \<open>ctx->eax\<close> is in \<open>to_user\<close>.\<close>

definition do_syscall :: "kern \<Rightarrow> (outcome \<times> kern) option" where
  "do_syscall k =
     (let reg = ctx_get (kvm k) (user_ctx_of k); n = sint (reg ctx_eax) in
      if n < 0 \<or> n \<ge> NR_SYS then Some (Ret (- 1), k)
      else syscall_handle (nat n) k (reg ctx_ebx) (reg ctx_ecx) (reg ctx_edx))"

definition ctx_write :: "vm \<Rightarrow> u32 \<Rightarrow> u32 list \<Rightarrow> vm" where
  "ctx_write v c ctx = fill v c (concat (map le32 ctx))"

text \<open>
  The way back to user mode: the context at the top of the kernel stack is what the process goes
  on with. (\<open>sys_exec\<close> leaves from a context elsewhere on the stack, with the same effect: the
  next trap overwrites the top of the stack.)
\<close>

definition to_user :: "kern \<Rightarrow> outcome \<Rightarrow> kern" where
  "to_user k out = (case out of
       Ret r \<Rightarrow> k\<lparr>kvm := ctx_set (kvm k) (user_ctx_of k) ctx_eax r\<rparr>
     | Enter ctx \<Rightarrow> k\<lparr>kvm := ctx_write (kvm k) (user_ctx_of k) ctx\<rparr>
     | _ \<Rightarrow> k)"

text \<open>What a process does when \<open>proc_run\<close> has chosen it again.\<close>

definition resume :: "kern \<Rightarrow> (outcome \<times> kern) option" where
  "resume k = (case cont (cur k) of
       InUser \<Rightarrow> Some (Iret, k)
     | KYield \<Rightarrow> Some (Ret (eax_junk k), k)
     | KTimer \<Rightarrow> Some (Iret, k)
     | KSleep since ticks \<Rightarrow> Some (sleep_loop k since ticks)
     | KSemP \<Rightarrow> Some (Ret 0, k)
     | KWait a \<Rightarrow> wait_tail k a
     | KSerial buf count i \<Rightarrow> do { (s, k) \<leftarrow> serial_resume k buf count i; Some (of_step s, k) }
     | KExit \<Rightarrow> None)"

subsection \<open>Interrupts\<close>

definition timer_handle :: "kern \<Rightarrow> outcome \<times> kern" where
  "timer_handle k = (let k = k\<lparr>tick := tick k + 1\<rparr> in (Switch KTimer, proc_yield k))"

abbreviation (input) EX_PF :: u32 where "EX_PF \<equiv> 14"
abbreviation (input) EX_SYSCALL :: u32 where "EX_SYSCALL \<equiv> 0x80"
abbreviation (input) T_IRQ0 :: u32 where "T_IRQ0 \<equiv> 32"

abbreviation (input) INT_SWITCH :: u32 where "INT_SWITCH \<equiv> 0x81"

text \<open>
  \<open>irq_handle\<close> for a trap from user mode. Vector \<open>0x81\<close> from there would suspend the program as it is, to go on at its next
  instruction when it is scheduled again; the kernel's own \<open>INT(0x81)\<close> is the outcome \<open>Switch\<close> of a handler.
\<close>

definition irq_handle :: "kern \<Rightarrow> u32 \<Rightarrow> bytes \<Rightarrow> (outcome \<times> kern) option" where
  "irq_handle k irq input =
     (if irq = EX_PF then None
      else if irq = EX_SYSCALL then do_syscall k
      else if irq = INT_SWITCH then Some (Switch InUser, k)
      else if irq = T_IRQ0 + 4 then do { k \<leftarrow> serial_handle k input; Some (Iret, k) }
      else if irq = T_IRQ0 then Some (timer_handle k)
      else if irq \<ge> T_IRQ0 \<and> irq < T_IRQ0 + 16 then Some (Iret, k)
      else None)"

subsection \<open>The start of the system\<close>

text \<open>\<open>argv\<close> is the address of the array \<open>{"sh", NULL}\<close>, which lies on the kernel's stack.\<close>

definition init_user_and_go :: "kern \<Rightarrow> u32 \<Rightarrow> kern option" where
  "init_user_and_go k argv = do {
     (p, k) \<leftarrow> proc_alloc k;
     (case p of
        None \<Rightarrow> None
      | Some p \<Rightarrow> do {
          (w, k) \<leftarrow> kopen k [SLASH] TYPE_NONE;
          let k = upd_proc k p (\<lambda>pr. pr\<lparr>cwd := w\<rparr>);
          let c = ctx_at (kstack (pcb k p));
          (r, ctx, k) \<leftarrow> load_user k (pgdir (pcb k p)) (map (ctx_get (kvm k) c) [0..<15]) [115, 104] argv;
          (if r = 0 then Some (proc_addready (k\<lparr>kvm := ctx_write (kvm k) c ctx\<rparr>) p) else None) }) }"

definition hello :: bytes where
  "hello = [72, 101, 108, 108, 111, 32, 102, 114, 111, 109, 32, 79, 83, 33, 10]"

definition kernel_main :: "kern \<Rightarrow> u32 \<Rightarrow> kern option" where
  "kernel_main k argv = do {
     let k = init_serial k;
     k \<leftarrow> fs_op k (init_fs (kfs k));
     let k = k\<lparr>kvm := init_page (kvm k)\<rparr>;
     k \<leftarrow> init_proc k;
     k \<leftarrow> init_dev k;
     init_user_and_go (putstrn k hello) argv }"

end
