(* ===== verification/Quiet.thy ===== *)
theory Quiet
  imports Syscall
begin

text \<open>
  Which parts of the kernel leave its processes alone: everything about files, directories, memory
  and the loader. \<open>quiet\<close> is the frame, an observation \<open>obs\<close> of the kernel's state that none of the
  variables those parts write shows in, and of a process only what they do not change (\<open>same_core\<close>).
  It is interpreted on \<open>sched_state\<close>, what the scheduler works on, and on \<open>core_state\<close>, which adds
  who is whose child and who holds which semaphore.
\<close>

subsection \<open>The frame\<close>

definition same_core :: "proc \<Rightarrow> proc \<Rightarrow> bool" where
  "same_core pr pr' \<longleftrightarrow> status pr = status pr' \<and> cont pr = cont pr' \<and> parent pr = parent pr' \<and>
     child_num pr = child_num pr' \<and> usems pr = usems pr' \<and> length (p_files pr) = length (p_files pr')"

lemma same_core_refl [simp]: "same_core pr pr"
  by (simp add: same_core_def)

lemma same_core_upd [simp]:
  "same_core (pr\<lparr>pgdir := d\<rparr>) pr" "same_core (pr\<lparr>brk := b\<rparr>) pr" "same_core (pr\<lparr>cwd := w\<rparr>) pr"
  "same_core (pr\<lparr>p_files := (p_files pr)[i := f]\<rparr>) pr"
  by (simp_all add: same_core_def)

lemmas quiet_splits = if_splits option.splits prod.splits

locale quiet =
  fixes obs :: "kern \<Rightarrow> 'a"
  assumes obs_kvm [simp]: "obs (k\<lparr>kvm := v\<rparr>) = obs k"
    and obs_kfs [simp]: "obs (k\<lparr>kfs := f\<rparr>) = obs k"
    and obs_files [simp]: "obs (k\<lparr>files := fl\<rparr>) = obs k"
    and obs_out [simp]: "obs (k\<lparr>s_out := out\<rparr>) = obs k"
    and obs_proc [simp]: "(\<And>pr. same_core (g pr) pr) \<Longrightarrow> obs (upd_proc k p g) = obs k"
begin

lemma obs_file [simp]: "obs (upd_file k i g) = obs k"
  by (simp add: upd_file_def)

lemma vm_op_quiet: "vm_op k r = Some k' \<Longrightarrow> obs k' = obs k"
  by (auto simp: vm_op_def)

lemma fs_op_quiet: "fs_op k r = Some k' \<Longrightarrow> obs k' = obs k"
  by (auto simp: fs_op_def)

lemma fold_quiet:
  "(\<And>i k. obs (g i k) = obs k) \<Longrightarrow> obs (fold g xs k) = obs k"
  by (induction xs arbitrary: k) simp_all

lemma foldM_quiet:
  "foldM f s xs = Some s' \<Longrightarrow> (\<And>s x s'. f s x = Some s' \<Longrightarrow> obs (h s') = obs (h s)) \<Longrightarrow>
   obs (h s') = obs (h s)"
  by (induction xs arbitrary: s) (fastforce simp: bind_eq_Some_conv)+

lemma putstrn_quiet [simp]: "obs (putstrn k s) = obs k"
  unfolding putstrn_def by (rule fold_quiet) (simp add: putchar_def)

lemma kopen_quiet: "kopen k path ty = Some (ip, k') \<Longrightarrow> obs k' = obs k"
  by (auto simp: kopen_def bind_eq_Some_conv)

lemma fclose_quiet: "fclose k i = Some k' \<Longrightarrow> obs k' = obs k"
  by (auto simp: fclose_def Let_def split: if_splits dest: fs_op_quiet)

lemma fopen_bad_quiet: "fopen_bad k fp ip = Some (r, k') \<Longrightarrow> obs k' = obs k"
  by (auto simp: fopen_bad_def bind_eq_Some_conv split: option.splits dest!: fclose_quiet fs_op_quiet)

lemma falloc_quiet: "falloc k = (r, k') \<Longrightarrow> obs k' = obs k"
  by (auto simp: falloc_def split: option.splits)

lemma fopen_quiet: "fopen k path mode = Some (r, k') \<Longrightarrow> obs k' = obs k"
  by (auto simp: fopen_def bind_eq_Some_conv Let_def split: quiet_splits
      dest!: falloc_quiet kopen_quiet fopen_bad_quiet fs_op_quiet)

lemma dev_write_quiet: "dev_write k d buf n = Some (r, k') \<Longrightarrow> obs k' = obs k"
  by (auto simp: dev_write_def bind_eq_Some_conv serial_write_def split: if_splits)

lemma fwrite_quiet: "fwrite k fp buf n = Some (r, k') \<Longrightarrow> obs k' = obs k"
  by (auto simp: fwrite_def bind_eq_Some_conv Let_def split: quiet_splits dest!: dev_write_quiet)

lemma fseek_quiet: "fseek k fp off whence = Some (r, k') \<Longrightarrow> obs k' = obs k"
  by (auto simp: fseek_def Let_def split: if_splits)

lemma load_segment_quiet:
  assumes "load_segment pd ip phoff s i = Some s'"
  shows "obs (snd s') = obs (snd s)"
proof -
  obtain ph k where s: "s = (ph, k)" by (cases s)
  obtain a bs f where "iread (kfs k) ip (phoff + of_nat (PHDR_SIZE * i)) (of_nat PHDR_SIZE) = Some (a, bs, f)"
    using assms s by (auto simp: load_segment_def Let_def bind_eq_Some_conv split del: if_split)
  then show ?thesis using assms s
    by (cases "field (patch ph 0 bs) 0 = PT_LOAD")
      (auto simp: load_segment_def Let_def bind_eq_Some_conv split del: if_split dest!: vm_op_quiet)
qed

lemma load_elf_quiet: "load_elf k pd name = Some (r, k') \<Longrightarrow> obs k' = obs k"
  using foldM_quiet [of "load_segment pd ip phoff" for ip phoff, where h = snd, OF _ load_segment_quiet]
  by (fastforce simp: load_elf_def bind_eq_Some_conv Let_def split: quiet_splits dest!: kopen_quiet vm_op_quiet fs_op_quiet)

lemma load_user_quiet: "load_user k pd ctx name argv = Some (r, c, k') \<Longrightarrow> obs k' = obs k"
  by (auto simp: load_user_def bind_eq_Some_conv split: if_splits dest!: load_elf_quiet)

lemma set_fd_quiet [simp]: "obs (set_fd k fd f) = obs k"
  by (simp add: set_fd_def)

lemma sys_write_quiet: "sys_write k fd buf n = Some (out, k') \<Longrightarrow> obs k' = obs k"
  by (auto simp: sys_write_def bind_eq_Some_conv split: option.splits dest!: fwrite_quiet)

lemma sys_open_quiet: "sys_open k path mode = Some (out, k') \<Longrightarrow> obs k' = obs k"
  by (auto simp: sys_open_def bind_eq_Some_conv Let_def split: quiet_splits dest!: fopen_quiet)

lemma sys_close_quiet: "sys_close k fd = Some (out, k') \<Longrightarrow> obs k' = obs k"
  by (auto simp: sys_close_def bind_eq_Some_conv split: option.splits dest!: fclose_quiet)

lemma sys_dup_quiet: "sys_dup k fd = Some (out, k') \<Longrightarrow> obs k' = obs k"
  by (auto simp: sys_dup_def fdup_def Let_def split: quiet_splits)

lemma sys_lseek_quiet: "sys_lseek k fd off w = Some (out, k') \<Longrightarrow> obs k' = obs k"
  by (auto simp: sys_lseek_def bind_eq_Some_conv split: option.splits dest!: fseek_quiet)

lemma put_stat_quiet: "put_stat k a t n i = Some k' \<Longrightarrow> obs k' = obs k"
  by (auto simp: put_stat_def bind_eq_Some_conv)

lemma sys_fstat_quiet: "sys_fstat k fd a = Some (out, k') \<Longrightarrow> obs k' = obs k"
  by (auto simp: sys_fstat_def bind_eq_Some_conv Let_def split: option.splits if_splits dest!: put_stat_quiet)

lemma sys_chdir_quiet: "sys_chdir k path = Some (out, k') \<Longrightarrow> obs k' = obs k"
  unfolding sys_chdir_def bind_eq_Some_conv
  by (elim exE conjE, auto simp: bind_eq_Some_conv split: option.split_asm if_split_asm dest!: kopen_quiet fs_op_quiet)

lemma sys_unlink_quiet: "sys_unlink k path = Some (out, k') \<Longrightarrow> obs k' = obs k"
  by (auto simp: sys_unlink_def bind_eq_Some_conv)

lemma sys_brk_quiet: "sys_brk k a = Some (out, k') \<Longrightarrow> obs k' = obs k"
  by (auto simp: sys_brk_def bind_eq_Some_conv Let_def split: if_splits dest!: vm_op_quiet)

lemma sys_exec_quiet: "sys_exec k path argv = Some (out, k') \<Longrightarrow> obs k' = obs k"
  by (auto simp: sys_exec_def bind_eq_Some_conv Let_def split: if_splits dest!: vm_op_quiet load_user_quiet)

lemma init_dev_quiet:
  assumes "init_dev k = Some k'"
  shows "obs k' = obs k"
proof -
  obtain ip k1 k2 where k: "kopen k dev_dir TYPE_DIR = Some (ip, k1)"
    "(case ip of None \<Rightarrow> None | Some p \<Rightarrow> fs_op k1 (iclose (kfs k1) p)) = Some k2"
    "foldM (\<lambda>k i. fs_op k (iadddev (kfs k) (cwd (cur k)) (dev_name i) (of_nat i) (dirent_junk k))) k2 [0..<DEV_NUM] =
      Some k'"
    using assms by (auto simp: init_dev_def bind_eq_Some_conv)
  have "obs k' = obs k2"
    using foldM_quiet [OF k(3), of "\<lambda>k. k"] fs_op_quiet by blast
  also have "\<dots> = obs k" using k(1,2) by (auto split: option.splits dest!: kopen_quiet fs_op_quiet)
  finally show ?thesis .
qed

end

subsection \<open>What the scheduler works on\<close>

definition sched_state :: "kern \<Rightarrow> nat \<times> (nat \<Rightarrow> status) \<times> (nat \<Rightarrow> kcont) \<times> (sem_id \<Rightarrow> int) \<times> pool" where
  "sched_state k = (curr k, (\<lambda>p. status (pcb k p)), (\<lambda>p. cont (pcb k p)), sems k, kern.lists k)"

lemma sched_state_eq:
  "sched_state k' = sched_state k \<longleftrightarrow> curr k' = curr k \<and>
    (\<forall>p. status (pcb k' p) = status (pcb k p) \<and> cont (pcb k' p) = cont (pcb k p)) \<and> sems k' = sems k \<and> kern.lists k' = kern.lists k"
  by (auto simp: sched_state_def fun_eq_iff)

lemma sched_state_upd [simp]:
  "sched_state (k\<lparr>usem_ref := u\<rparr>) = sched_state k"
  "sched_state (k\<lparr>next_pid := n\<rparr>) = sched_state k"
  "sched_state (k\<lparr>s_head := a\<rparr>) = sched_state k" "sched_state (k\<lparr>s_tail := a\<rparr>) = sched_state k"
  "sched_state (k\<lparr>s_clap := a\<rparr>) = sched_state k" "sched_state (k\<lparr>s_buffer := b\<rparr>) = sched_state k"
  "sched_state (k\<lparr>tick := t\<rparr>) = sched_state k" "sched_state (k\<lparr>junk := j\<rparr>) = sched_state k"
  "sched_state (k\<lparr>eax_junk := e\<rparr>) = sched_state k"
  by (simp_all add: sched_state_def)

lemma sched_state_proc [simp]:
  "(\<And>pr. status (g pr) = status pr \<and> cont (g pr) = cont pr) \<Longrightarrow> sched_state (upd_proc k p g) = sched_state k"
  by (auto simp: sched_state_eq upd_proc_def)

interpretation sq: quiet sched_state
  by unfold_locales (simp_all add: sched_state_def upd_proc_def same_core_def fun_eq_iff)

lemma set_usem_quiet [simp]: "sched_state (set_usem k i u) = sched_state k"
  by (simp add: set_usem_def)

lemma dup_usems_quiet [simp]: "sched_state (dup_usems k p i) = sched_state k"
  by (simp add: dup_usems_def usem_dup_def split: option.splits)

lemma dup_files_quiet [simp]: "sched_state (dup_files k p i) = sched_state k"
  by (simp add: dup_files_def fdup_def split: option.splits)

lemma proc_copycurr_quiet: "proc_copycurr k p = Some k' \<Longrightarrow> sched_state k' = sched_state k"
  by (auto simp: proc_copycurr_def bind_eq_Some_conv Let_def sq.fold_quiet split: option.splits dest!: sq.vm_op_quiet)

end
