(* ===== verification/VmeProps.thy ===== *)
theory VmeProps
  imports VmeCopy
begin

text \<open>
  The properties of the page heap and of the page tables. The witnesses run on the machine as
  \<open>init_page\<close> leaves it: all 32256 pages from \<open>KER_MEM\<close> to \<open>PHY_MEM\<close> are on the free list.
\<close>

subsection \<open>Boot\<close>

definition pg :: "nat \<Rightarrow> u32" where
  "pg k = KER_MEM + of_nat (PGSIZE * k)"

lemma unat_pg: "k < 32256 \<Longrightarrow> unat (pg k) = 0x200000 + 4096 * k"
  using pages_unat [of k PHY_MEM KER_MEM] by (simp add: pg_def)

lemma pg_heap: "k < 32256 \<Longrightarrow> heap_page (pg k)"
proof -
  assume k: "k < 32256"
  have "0x200000 + 4096 * k = 4096 * (512 + k)" by simp
  then have "4096 dvd unat (pg k)" unfolding unat_pg [OF k] by (metis dvd_triv_left)
  then show ?thesis using unat_pg [OF k] k by (simp add: heap_page_def word_le_nat_alt word_less_nat_alt)
qed

lemma pg_inj: "k < 32256 \<Longrightarrow> l < 32256 \<Longrightarrow> pg k = pg l \<longleftrightarrow> k = l"
  by (auto dest: arg_cong [of _ _ unat] simp: unat_pg)

lemma pg_Suc: "pg k + 4096 = pg (Suc k)"
  by (simp add: pg_def)

lemma pages_pg: "n \<le> 32256 \<Longrightarrow> pages KER_MEM (KER_MEM + of_nat (PGSIZE * n)) = map pg [0..<n]"
proof -
  assume n: "n \<le> 32256"
  have "unat (of_nat (PGSIZE * n) :: u32) = PGSIZE * n" using n by (intro unat_of_nat32) simp
  then have "unat (KER_MEM + of_nat (PGSIZE * n)) = 0x200000 + PGSIZE * n"
    using n by (simp add: unat_word_ariths)
  then show ?thesis by (simp add: pages_def pg_def fun_eq_iff)
qed

lemma flist_pg:
  assumes "\<And>k. k < 32256 \<Longrightarrow> pw s (pg k) 0 = (if Suc k < 32256 then pg (Suc k) else 0)"
  shows "k \<le> 32256 \<Longrightarrow> flist s (if k < 32256 then pg k else 0) (map pg [k..<32256])"
proof (induction "32256 - k" arbitrary: k)
  case (Suc n)
  then have k: "k < 32256" by simp
  then have "[k..<32256] = k # [Suc k..<32256]" by (rule upt_conv_Cons)
  then show ?case using Suc.hyps(1) [of "Suc k"] Suc.hyps(2) k assms [OF k] pg_heap [OF k] by auto
qed simp

text \<open>The pages from number \<open>k\<close> on; the whole heap is \<open>heap_from 0\<close>.\<close>

definition heap_from :: "nat \<Rightarrow> u32 list" where
  "heap_from k = map pg [k..<32256]"

lemma heap_from_Cons: "k < 32256 \<Longrightarrow> heap_from k = pg k # heap_from (Suc k)"
  by (simp add: heap_from_def upt_conv_Cons)

lemma set_heap_from: "set (heap_from k) = pg ` {k..<32256}"
  by (simp add: heap_from_def)

lemma length_heap_from: "length (heap_from k) = 32256 - k"
  by (simp add: heap_from_def)

lemma distinct_heap_from: "distinct (heap_from k)"
  by (auto simp: heap_from_def distinct_map inj_on_def pg_inj simp del: upt_rec_numeral)

lemma fold_link:
  "n \<le> 32255 \<Longrightarrow> k < 32256 \<Longrightarrow>
   pw (fold (\<lambda>p s. st s p (PAGE_DOWN (p + 4096))) (map pg [0..<n]) s) (pg k) 0 =
     (if k < n then pg (Suc k) else pw s (pg k) 0)"
proof (induction n)
  case (Suc n)
  let ?t = "fold (\<lambda>p s. st s p (PAGE_DOWN (p + 4096))) (map pg [0..<n]) s"
  have "pw (st ?t (entry (pg n) 0) (pg (Suc n))) (pg k) 0 = (if pg k = pg n then pg (Suc n) else pw ?t (pg k) 0)"
    using Suc.prems pg_heap by simp
  moreover have "PAGE_DOWN (pg n + 4096) = pg (Suc n)" "entry (pg n) 0 = pg n"
    using PAGE_DOWN_aligned [OF pg_heap [of "Suc n"]] Suc.prems(1) by (simp_all add: pg_Suc entry_def)
  ultimately show ?case using Suc pg_inj [of k n] by auto
qed simp

lemma init_heap_ok: "heap (init_heap s) (heap_from 0)"
proof -
  have pd: "PAGE_DOWN KER_MEM = KER_MEM" by (simp add: PAGE_DOWN_def)
  have p0: "KER_MEM = pg 0" "PHY_MEM - 4096 = pg 32255" by (simp_all add: pg_def)
  have ps: "pages KER_MEM (PHY_MEM - 4096) = map pg [0..<32255]"
    using pages_pg [of 32255] by (simp del: upt_rec_numeral)
  let ?t = "fold (\<lambda>p s. st s p (PAGE_DOWN (p + 4096))) (map pg [0..<32255]) s"
  let ?s = "st ?t (entry (pg 32255) 0) 0"
  have e: "init_heap s = ?s\<lparr>free_page_list := pg 0\<rparr>"
    unfolding init_heap_def Let_def pd ps unfolding p0 by (simp add: entry_def del: upt_rec_numeral)
  have "pw (?s\<lparr>free_page_list := pg 0\<rparr>) (pg k) 0 = (if Suc k < 32256 then pg (Suc k) else 0)"
    if k: "k < 32256" for k
  proof -
    have "pw ?s (pg k) 0 = (if pg k = pg 32255 then 0 else pw ?t (pg k) 0)"
      using k pg_heap by (simp del: upt_rec_numeral)
    then show ?thesis
      using fold_link [of 32255 k s] k pg_inj [of k 32255] by (auto simp del: upt_rec_numeral)
  qed
  from flist_pg [OF this, of 0] have "flist (?s\<lparr>free_page_list := pg 0\<rparr>) (pg 0) (heap_from 0)"
    by (simp add: heap_from_def del: upt_rec_numeral)
  then show ?thesis
    unfolding e by (simp add: heap_def distinct_heap_from del: upt_rec_numeral)
qed

text \<open>After \<open>init_page\<close> the free list holds every page from \<open>KER_MEM\<close> to \<open>PHY_MEM\<close>, in
  ascending order and each of them once, whatever was in memory before.\<close>

lemma init_page_heap: "heap (init_page s) (heap_from 0)"
  by (simp add: init_page_def Let_def init_heap_ok)

definition boot_vm :: vm where
  "boot_vm = init_page \<lparr>pmem = (\<lambda>_. 0), free_page_list = 0, cr3 = 0, kpd = 0x100000, kpt = 0x101000,
     tss_ss0 = 0, tss_esp0 = 0\<rparr>"

lemma boot_heap: "heap boot_vm (heap_from 0)"
  unfolding boot_vm_def init_page_def Let_def by (rule init_heap_ok)

subsection \<open>The heap\<close>

text \<open>Any number of \<open>kalloc\<close>s in a row returns the first pages of the free list, all of them
  different and none of them still free; with more calls than there are free pages the kernel
  stops.\<close>

lemma kalloc_sequence:
  assumes "heap s (ps @ xs)"
  shows "\<exists>s'. kheap.alloc_n (length ps) s = Some (ps, s') \<and> heap s' xs \<and> distinct ps \<and>
      (\<forall>p \<in> set ps. heap_page p \<and> p \<notin> set xs) \<and> (\<forall>n > length (ps @ xs). kheap.alloc_n n s = None)"
  using kheap.alloc_n_ok [OF assms] kheap.alloc_n_too_many [OF assms] by blast

text \<open>Once the last free page has been handed out, \<open>kfree\<close> cannot take any page back: its
  assertion that the list head lies in the heap fails on the \<open>NULL\<close> of the empty list, and the
  kernel stops although the call was legitimate.\<close>

lemma kfree_after_exhaustion:
  assumes "heap s [p]"
  shows "\<exists>s'. kalloc s = Some (p, s') \<and> heap_page p \<and> kfree s' p = None"
proof -
  obtain s' where "kalloc s = Some (p, s')" "heap s' []" using kalloc_ok [OF assms] by blast
  then show ?thesis using kfree_empty heap_pages [OF assms] by auto
qed

text \<open>A page given to \<open>kfree\<close> while the heap is not empty is the one the next \<open>kalloc\<close> returns,
  every word of it zero, and no word of any other heap page has changed.\<close>

lemma kfree_kalloc:
  assumes "heap s (x # xs)" and "heap_page p" and "p \<notin> set (x # xs)"
  shows "\<exists>s1 s2. kfree s p = Some s1 \<and> kalloc s1 = Some (p, s2) \<and> heap s2 (x # xs) \<and>
    (\<forall>j < 1024. pw s2 p j = 0) \<and>
    (\<forall>q j. heap_page q \<longrightarrow> q \<noteq> p \<longrightarrow> j < 1024 \<longrightarrow> pw s2 q j = pw s q j)"
proof -
  obtain s1 where s1: "kfree s p = Some s1" "heap s1 (p # x # xs)" "outside s s1 p"
    using kfree_ok [OF assms] by blast
  obtain s2 where s2: "kalloc s1 = Some (p, s2)" "heap s2 (x # xs)" "outside s1 s2 p" "\<forall>j < 1024. pw s2 p j = 0"
    using kalloc_ok [OF s1(2)] by blast
  have "pw s2 q j = pw s q j" if "heap_page q" "q \<noteq> p" "j < 1024" for q j
    using s1(3) s2(3) that by (simp add: outside_def)
  then show ?thesis using s1(1) s2 by blast
qed

subsection \<open>Address spaces\<close>

text \<open>\<open>vm_alloc\<close> turns the first free page into a page directory that has the kernel's tables in
  its first 32 entries and maps no user page; it owns that one page only.\<close>

lemma vm_alloc_fresh:
  assumes "heap s (p # xs)"
  shows "\<exists>s'. vm_alloc s = Some (p, s') \<and> heap s' xs \<and> aspace s' p xs \<and> space_pages s' p = {p} \<and>
    (\<forall>i < KPT_NUM. pw s' p i = MAKE_PDE (kpt s + of_nat (PGSIZE * i)) 3) \<and>
    (\<forall>i. user_idx i \<longrightarrow> pte_at s' p i = 0)"
  using vm_alloc_ok [OF assms] by blast

text \<open>\<open>vm_map\<close> on a range of user addresses, with enough free pages: every page of the range is
  mapped afterwards - an entry that was present has the rights added, any other names a page
  taken from the free list, zeroed and with the rights given -, no other entry of the address
  space changes, its pages are still pairwise different, and no byte outside its tables and the
  pages taken has changed.\<close>

lemma vm_map_range:
  assumes "heap s fr" and "aspace s pd fr" and "bit prot 0" "prot AND NOT 7 = 0"
    and "PHY_MEM \<le> PAGE_DOWN va" and "PAGE_DOWN va \<le> PAGE_UP (va + len)"
    and "2 * length (pages (PAGE_DOWN va) (PAGE_UP (va + len))) \<le> length fr"
  shows "\<exists>s' fr'. vm_map s pd va len prot = Some s' \<and> heap s' fr' \<and> aspace s' pd fr' \<and>
    (\<exists>k \<le> 2 * length (pages (PAGE_DOWN va) (PAGE_UP (va + len))). fr' = drop k fr) \<and>
    (\<forall>a \<in> set (pages (PAGE_DOWN va) (PAGE_UP (va + len))). entry_mapped s s' pd fr prot (idx a)) \<and>
    (\<forall>i. user_idx i \<and> i \<notin> idx ` set (pages (PAGE_DOWN va) (PAGE_UP (va + len))) \<longrightarrow>
       pte_at s' pd i = pte_at s pd i) \<and>
    kept_out s s' (struct_pages s pd \<union> set fr)"
  using assms by (rule vm_map_ok)

definition text_va :: u32 where "text_va = 0x08048000"

lemma text_va_page:
  "page_aligned text_va" "unat text_va + 8192 \<le> 2 ^ 32" "PHY_MEM \<le> text_va" "user_idx (idx text_va)"
  by (simp_all add: text_va_def page_aligned_def dvd_def word_le_nat_alt user_idx_def idx_def ADDR_bounds)

lemma boot_map:
  "\<exists>s s' fr. vm_alloc boot_vm = Some (pg 0, s) \<and> vm_map s (pg 0) text_va 4096 7 = Some s' \<and>
    heap s' fr \<and> aspace s' (pg 0) fr \<and> 32000 \<le> length fr \<and> set fr \<subseteq> set (heap_from 1) \<and>
    entry_mapped s s' (pg 0) (heap_from 1) 7 (idx text_va) \<and>
    (\<forall>i. user_idx i \<and> i \<noteq> idx text_va \<longrightarrow> pte_at s' (pg 0) i = 0)"
proof -
  obtain s where s: "vm_alloc boot_vm = Some (pg 0, s)" "heap s (heap_from 1)" "aspace s (pg 0) (heap_from 1)"
    and z: "\<forall>i. user_idx i \<longrightarrow> pte_at s (pg 0) i = 0"
    using vm_alloc_ok [of boot_vm "pg 0" "heap_from 1"] boot_heap heap_from_Cons [of 0] by auto
  have pr: "bit (7 :: u32) 0" "(7 :: u32) AND NOT 7 = 0" by (simp_all add: bit_7)
  note one = one_page [OF text_va_page(1,2)]
  obtain s' fr k where s': "vm_map s (pg 0) text_va 4096 7 = Some s'" "heap s' fr" "aspace s' (pg 0) fr"
    "k \<le> 2" "fr = drop k (heap_from 1)" "entry_mapped s s' (pg 0) (heap_from 1) 7 (idx text_va)"
    and o: "\<forall>i. user_idx i \<and> i \<noteq> idx text_va \<longrightarrow> pte_at s' (pg 0) i = pte_at s (pg 0) i"
    using vm_map_ok [OF s(2,3) pr, of text_va 4096] text_va_page(1,3)
    unfolding one(1) by (auto simp: one(2) [unfolded aligned_PAGE_DOWN [OF text_va_page(1)]] aligned_PAGE_DOWN length_heap_from)
  have "32000 \<le> length fr" "set fr \<subseteq> set (heap_from 1)"
    using s'(4,5) by (auto simp: length_heap_from dest: in_set_dropD)
  then show ?thesis using s s' o z by auto
qed

text \<open>\<open>vm_copycurr\<close>, the copy \<open>fork\<close> makes: with enough free pages the new directory maps exactly
  the user pages the current one maps, with the same rights, each to a page of its own with the
  same 4096 bytes; the two address spaces share no page, and neither an entry nor a byte of the
  current one has changed.\<close>

lemma vm_copycurr_copies:
  assumes "heap s fr" and "aspace s cur fr" and "aspace s new fr" and "spaces_apart s cur new"
    and "vm_curr s = cur" and "\<forall>i. user_idx i \<longrightarrow> \<not> present (pte_at s new i)"
    and "2 * cur_pages s cur (pages (PAGE_DOWN PHY_MEM) USR_MEM) \<le> length fr"
  shows "\<exists>s' fr'. vm_copycurr s new = Some s' \<and> heap s' fr' \<and> aspace s' cur fr' \<and> aspace s' new fr' \<and>
    spaces_apart s' cur new \<and>
    (\<forall>va \<in> set (pages (PAGE_DOWN PHY_MEM) USR_MEM). copied s s' cur new (idx va)) \<and>
    (\<forall>i. user_idx i \<longrightarrow> pte_at s' cur i = pte_at s cur i) \<and>
    (\<forall>q a. q \<in> space_pages s cur \<and> in_page q a \<longrightarrow> pmem s' a = pmem s a)"
  using vm_copycurr_ok [OF assms] by blast

lemma cur_pages_one:
  assumes "\<And>va. va \<in> set vas \<Longrightarrow> idx va \<noteq> i \<Longrightarrow> \<not> present (pte_at s cur (idx va))" and "distinct (map idx vas)"
  shows "cur_pages s cur vas \<le> 1"
  using assms
proof (induction vas)
  case (Cons va vas)
  show ?case
  proof (cases "idx va = i")
    case True
    then have "\<not> present (pte_at s cur (idx v))" if "v \<in> set vas" for v
      using Cons.prems that by (metis distinct.simps(2) image_eqI list.set_intros(2) list.set_map list.simps(9))
    then have "filter (\<lambda>va. present (pte_at s cur (idx va))) vas = []" by (simp add: filter_empty_conv)
    then show ?thesis by (simp add: cur_pages_def)
  next
    case False
    then show ?thesis using Cons by (simp add: cur_pages_def)
  qed
qed (simp add: cur_pages_def)

end
