(* ===== verification/ProcProps.thy ===== *)
theory ProcProps
  imports Proc VmeProps
begin

text \<open>
  What the process and semaphore code guarantees: the scheduler's choice and its bounded
  waiting, and the agreement of a semaphore's counter with its wait list, over the queue laws
  of \<open>wq\<close>.
\<close>

subsection \<open>The scheduler\<close>

definition ready :: "kern \<Rightarrow> nat \<Rightarrow> bool" where
  "ready k p \<longleftrightarrow> status (pcb k p) = READY"

lemma sched_loop_step:
  "p < PROC_NUM \<Longrightarrow> sched_loop k p =
    (let p = (p + 1) mod PROC_NUM in if ready k p then Some p else sched_loop k p)"
  by (subst sched_loop.simps) (auto simp: Let_def ready_def)

lemma sched_loop_some: "sched_loop k p = Some y \<Longrightarrow> ready k y \<and> (p < PROC_NUM \<longrightarrow> y < PROC_NUM)"
proof (rule sched_loop.raw_induct [where P = "\<lambda>k p y. ready k y \<and> (p < PROC_NUM \<longrightarrow> y < PROC_NUM)"],
    goal_cases)
  case (1 loop k p y)
  then show ?case
    by (cases "p = PROC_NUM - 1"; cases "status (pcb k (if p = PROC_NUM - 1 then 0 else p + 1)) = READY")
      (auto simp: Let_def ready_def)
qed

definition nth_after :: "nat \<Rightarrow> nat \<Rightarrow> nat" where
  "nth_after p j = (p + 1 + j) mod PROC_NUM"

lemma nth_after_0: "nth_after p 0 = (p + 1) mod PROC_NUM"
  by (simp add: nth_after_def)

lemma nth_after_Suc: "nth_after p (Suc j) = nth_after ((p + 1) mod PROC_NUM) j"
  by (simp only: nth_after_def add.assoc mod_add_left_eq) simp

lemma sched_loop_find:
  "p < PROC_NUM \<Longrightarrow> find (\<lambda>j. ready k (nth_after p j)) [0..<n] = Some j \<Longrightarrow>
   sched_loop k p = Some (nth_after p j)"
proof (induction j arbitrary: p n)
  case 0
  then have "ready k (nth_after p 0)" by (auto simp: find_Some_iff)
  then show ?case using 0 by (simp add: sched_loop_step nth_after_0 Let_def)
next
  case (Suc j)
  let ?p = "(p + 1) mod PROC_NUM"
  from Suc.prems(2) have *: "Suc j < n" "ready k (nth_after p (Suc j))"
    "\<forall>i < Suc j. \<not> ready k (nth_after p i)"
    by (auto simp: find_Some_iff)
  then have "find (\<lambda>j. ready k (nth_after ?p j)) [0..<n] = Some j"
    unfolding find_Some_iff nth_after_Suc [symmetric] by (intro exI [of _ j]) auto
  then have "sched_loop k ?p = Some (nth_after ?p j)" by (intro Suc.IH) auto
  moreover have "\<not> ready k ?p" using *(3) unfolding nth_after_0 [symmetric] by simp
  ultimately show ?case using Suc.prems(1) by (simp add: sched_loop_step nth_after_Suc Let_def)
qed

lemma nth_after_hits:
  assumes "p < PROC_NUM" and "q < PROC_NUM"
  shows "\<exists>j < PROC_NUM. nth_after p j = q"
proof (cases "p < q")
  case True
  then show ?thesis using assms by (intro exI [of _ "q - p - 1"]) (auto simp: nth_after_def)
next
  case False
  then have "nth_after p (PROC_NUM - 1 - p + q) = (PROC_NUM + q) mod PROC_NUM"
    using assms unfolding nth_after_def by (intro arg_cong [of _ _ "\<lambda>x. x mod PROC_NUM"]) simp
  then show ?thesis using assms False by (intro exI [of _ "PROC_NUM - 1 - p + q"]) auto
qed

lemma sched_loop_next:
  "p < PROC_NUM \<Longrightarrow>
   sched_loop k p = map_option (nth_after p) (find (\<lambda>j. ready k (nth_after p j)) [0..<PROC_NUM])"
proof (cases "find (\<lambda>j. ready k (nth_after p j)) [0..<PROC_NUM]")
  case None
  assume p: "p < PROC_NUM"
  have "sched_loop k p = None"
  proof (rule ccontr)
    assume "sched_loop k p \<noteq> None"
    then obtain y where y: "ready k y" "y < PROC_NUM" using sched_loop_some p by blast
    then obtain j where "j < PROC_NUM" "nth_after p j = y" using nth_after_hits [OF p] by blast
    then show False using None y by (auto simp: find_None_iff)
  qed
  then show ?thesis using None by simp
qed (simp add: sched_loop_find)

text \<open>
  The scheduler takes the first ready process after the current one in cyclic order, the
  current one itself last; it searches for ever exactly when no process is ready.
\<close>

lemma schedule_picks_next_ready:
  "p < PROC_NUM \<Longrightarrow>
   sched_loop k p = map_option (nth_after p) (find (\<lambda>j. ready k (nth_after p j)) [0..<PROC_NUM])"
  by (rule sched_loop_next)

definition boot_proc :: proc where
  "boot_proc = \<lparr>pid = 0, status = UNUSED, pgdir = 0, brk = 0, kstack = 0, cont = InUser, parent = None,
     child_num = 0, exit_code = 0, usems = replicate MAX_USEM None, p_files = replicate MAX_UFILE None,
     cwd = None\<rparr>"

text \<open>A kernel on the formatted disk in which exactly the processes of \<open>R\<close> are ready, 3 is running.\<close>

definition demo_kern :: "nat set \<Rightarrow> kern" where
  "demo_kern R = \<lparr>
     pcb = (\<lambda>p. boot_proc\<lparr>status := if p = 3 then RUNNING else if p \<in> R then READY else UNUSED\<rparr>),
     next_pid = 1, curr = 3, sems = (\<lambda>_. 0), usem_ref = (\<lambda>_. 0),
     lists = list_init \<lparr>nxt = (\<lambda>_. FreeList), prv = (\<lambda>_. FreeList), item = (\<lambda>_. 0), inited = False\<rparr> (Head 0),
     kvm = boot_vm, kfs = demo_fs,
     files = (\<lambda>_. \<lparr>f_type = 0, f_ref = 0, readable = False, writable = False, f_inode = 0, f_offset = 0,
       dev_op = None\<rparr>),
     s_buffer = (\<lambda>_. 0), s_head = 0, s_tail = 0, s_clap = 0, s_out = [], tick = 0, junk = [], eax_junk = 0\<rparr>"

lemma ready_demo: "ready (demo_kern R) p \<longleftrightarrow> p \<noteq> 3 \<and> p \<in> R"
  by (simp add: ready_def demo_kern_def boot_proc_def)

text \<open>How many slots the scheduler has to go from \<open>p\<close> to reach \<open>q\<close>.\<close>

definition dist :: "nat \<Rightarrow> nat \<Rightarrow> nat" where
  "dist p q = (q + PROC_NUM - p) mod PROC_NUM"

lemma nth_after_closer:
  assumes "p < PROC_NUM" and "q < PROC_NUM" and "p \<noteq> q" and "nth_after p j \<noteq> q"
    and "\<forall>i < j. nth_after p i \<noteq> q" and "j < PROC_NUM"
  shows "dist (nth_after p j) q < dist p q"
proof -
  define d where "d = dist p q"
  have d: "0 < d" "d < PROC_NUM" "nth_after p (d - 1) = q"
  proof -
    have "d = (if p < q then q - p else q + PROC_NUM - p)"
      using assms(1-3) by (auto simp: d_def dist_def mod_if)
    then show "0 < d" "d < PROC_NUM" "nth_after p (d - 1) = q"
      using assms(1-3) by (auto simp: nth_after_def)
  qed
  have "j < d - 1" using assms(4,5) d by (metis linorder_neqE_nat)
  then have j: "j + 1 < d" by simp
  have "nth_after p j = (if p + 1 + j < PROC_NUM then p + 1 + j else p + 1 + j - PROC_NUM)"
    using assms(1,6) by (auto simp: nth_after_def mod_if)
  moreover have "d = (if p < q then q - p else q + PROC_NUM - p)"
    using assms(1-3) by (auto simp: d_def dist_def mod_if)
  ultimately have "dist (nth_after p j) q = d - 1 - j"
    using j assms(1,2,6) by (auto simp: dist_def mod_if split: if_splits)
  then show ?thesis using j unfolding d_def by linarith
qed

lemma dist_0: "p < PROC_NUM \<Longrightarrow> q < PROC_NUM \<Longrightarrow> dist p q = 0 \<Longrightarrow> p = q"
  by (auto simp: dist_def mod_if split: if_splits)

lemma sched_loop_closer:
  assumes "p < PROC_NUM" and "q < PROC_NUM" and "p \<noteq> q" and "ready k q"
    and "sched_loop k p = Some y" and "y \<noteq> q"
  shows "dist y q < dist p q"
proof -
  obtain j where j: "y = nth_after p j" "find (\<lambda>j. ready k (nth_after p j)) [0..<PROC_NUM] = Some j"
    using assms(1,5) sched_loop_next [of p k] by auto
  then have "j < PROC_NUM" "\<forall>i < j. \<not> ready k (nth_after p i)" by (auto simp: find_Some_iff)
  then show ?thesis using nth_after_closer [of p q j] assms j(1) by metis
qed

text \<open>
  C13: no starvation. In any run of the scheduler, a process that stays ready is chosen within
  64 rounds, whatever the other processes do between two rounds.
\<close>

theorem schedule_bounded_waiting:
  assumes "\<forall>i. ps i < PROC_NUM" and "q < PROC_NUM"
    and "\<forall>i < PROC_NUM. ready (ks i) q" and "\<forall>i < PROC_NUM. sched_loop (ks i) (ps i) = Some (ps (Suc i))"
  shows "\<exists>i < PROC_NUM. ps (Suc i) = q"
proof (rule ccontr)
  assume "\<not> ?thesis"
  then have never: "\<forall>i < PROC_NUM. ps (Suc i) \<noteq> q" by blast
  have le: "dist (ps (Suc i)) q + i < PROC_NUM" if "i < PROC_NUM" for i
    using that
  proof (induction i)
    case (Suc i)
    have "dist (ps (Suc (Suc i))) q < dist (ps (Suc i)) q"
      using sched_loop_closer [of "ps (Suc i)" q "ks (Suc i)" "ps (Suc (Suc i))"] assms never Suc.prems
      by auto
    then show ?case using Suc by simp
  qed (simp add: dist_def)
  have "dist (ps PROC_NUM) q = 0" using le [of "PROC_NUM - 1"] by simp
  then have "ps PROC_NUM = q" using assms(1,2) dist_0 by blast
  then show False using never [rule_format, of "PROC_NUM - 1"] by simp
qed

theorem schedule_bounded_waiting_witness:
  "\<exists>i < PROC_NUM. (if Suc i = 0 then 3 else 1 :: nat) = 1"
proof -
  have "sched_loop (demo_kern {1, 2}) 3 = Some 1"
    by (subst sched_loop_next) (simp_all add: ready_demo nth_after_def upt_rec)
  moreover have "sched_loop (demo_kern {1}) 1 = Some 1"
    by (subst sched_loop_next) (simp_all add: ready_demo nth_after_def upt_rec)
  ultimately show ?thesis
    by (intro schedule_bounded_waiting [of "\<lambda>i. if i = 0 then 3 else 1" 1
          "\<lambda>i. demo_kern (if i = 0 then {1, 2} else {1})"]) (auto simp: ready_demo)
qed

subsection \<open>Semaphores\<close>

fun head_no :: "sem_id \<Rightarrow> nat" where
  "head_no SerialSem = 0"
| "head_no (UserSem i) = 1 + 2 * i"
| "head_no (ZombieSem p) = 2 + 2 * p"

lemma sem_head_no: "sem_head s = Head (head_no s)"
  by (cases s) simp_all

lemma head_no_inj: "head_no s = head_no t \<Longrightarrow> s = t"
  by (cases s; cases t) (simp_all, presburger+)

text \<open>
  The invariant: of the semaphores that are set up, the one with counter \<open>v\<close> has \<open>- v\<close> waiting
  processes if \<open>v\<close> is negative and none otherwise; \<open>q\<close> is the abstract state of the wait lists and
  \<open>n\<close> the number of list nodes left in the pool.
\<close>

definition sems_ok :: "kern \<Rightarrow> nat \<Rightarrow> (nat \<rightharpoonup> nat list) \<Rightarrow> bool" where
  "sems_ok k n q \<longleftrightarrow> pool_abs (lists k) n q \<and>
     (\<forall>s xs. q (head_no s) = Some xs \<longrightarrow> int (length xs) = max 0 (- sems k s))"

lemma sems_ok_len:
  "sems_ok k n q \<Longrightarrow> q (head_no s) = Some xs \<Longrightarrow> int (length xs) = max 0 (- sems k s)"
  unfolding sems_ok_def by blast

lemma set_status_sel [simp]:
  "sems (set_status k p s) = sems k" "lists (set_status k p s) = lists k" "curr (set_status k p s) = curr k"
  "kfs (set_status k p s) = kfs k" "kvm (set_status k p s) = kvm k" "files (set_status k p s) = files k"
  "usem_ref (set_status k p s) = usem_ref k"
  by (simp_all add: set_status_def upd_proc_def)

lemma status_set_status [simp]: "status (pcb (set_status k p s) i) = (if i = p then s else status (pcb k i))"
  by (simp add: set_status_def upd_proc_def)

lemma sem_v_frame:
  "sem_v k s = Some k' \<Longrightarrow> k' = k\<lparr>sems := (sems k)(s := sems k s + 1), lists := kern.lists k', pcb := pcb k'\<rparr>"
  by (auto simp: sem_v_def set_value_def proc_addready_def set_status_def upd_proc_def bind_eq_Some_conv
      split: if_splits option.splits)

text \<open>
  \<open>sem_p\<close> takes a unit at once if there is one; otherwise it puts the calling process behind
  the processes already waiting and blocks it. Both keep the counters and the wait lists in
  agreement.
\<close>

lemma sem_p_takes_or_waits:
  assumes "sems_ok k (Suc n) q" and "q (head_no s) = Some xs" and "- (2 ^ 31) < sems k s"
    and "sems k s < 2 ^ 31"
  shows "if sems k s > 0
    then sem_p k s = Some (False, k\<lparr>sems := (sems k)(s := sems k s - 1)\<rparr>) \<and>
      sems_ok (k\<lparr>sems := (sems k)(s := sems k s - 1)\<rparr>) (Suc n) q
    else \<exists>k'. sem_p k s = Some (True, k') \<and> status (pcb k' (curr k)) = BLOCKED \<and>
      (\<forall>p. p \<noteq> curr k \<longrightarrow> pcb k' p = pcb k p) \<and> sems k' = (sems k)(s := sems k s - 1) \<and>
      sems_ok k' n (q(head_no s \<mapsto> xs @ [curr k]))"
proof (cases "sems k s > 0")
  case True
  then show ?thesis using assms
    by (auto simp: sem_p_def set_value_def sems_ok_def split: if_splits)
next
  case False
  obtain l where l: "list_enqueue (lists k) (Head (head_no s)) (curr k) = Some l"
    "pool_abs l n (q(head_no s \<mapsto> xs @ [curr k]))"
    using wq.enq_law [of "lists k" n q "head_no s" xs "curr k"] assms(1,2) by (auto simp: sems_ok_def)
  have len: "int (length xs) = - sems k s" using assms(1,2) False by (auto simp: sems_ok_def max_def)
  let ?k = "set_status (k\<lparr>sems := (sems k)(s := sems k s - 1), lists := l\<rparr>) (curr k) BLOCKED"
  have "sem_p k s = Some (True, ?k)"
    using False assms(3,4) l(1) by (simp add: sem_p_def set_value_def sem_head_no)
  moreover have "sems_ok ?k n (q(head_no s \<mapsto> xs @ [curr k]))"
    using l(2) assms(1) len by (auto simp: sems_ok_def dest: head_no_inj)
  moreover have "\<forall>p. p \<noteq> curr k \<longrightarrow> pcb ?k p = pcb k p" by (simp add: set_status_def upd_proc_def)
  ultimately show ?thesis using False by auto
qed

lemma sem_v_counts:
  assumes "0 \<le> sems k s" and "sems k s < 2 ^ 31 - 1"
  shows "sem_v k s = Some (k\<lparr>sems := (sems k)(s := sems k s + 1)\<rparr>)"
  using assms by (simp add: sem_v_def set_value_def)

lemma sem_v_empty:
  assumes "pool_abs (kern.lists k) n q" and "q (head_no s) = Some []" and "sems k s < 0" and "- (2 ^ 31) \<le> sems k s"
  shows "sem_v k s = None"
  using assms wq.deq_none [of "kern.lists k" n q "head_no s"] by (simp add: sem_v_def set_value_def sem_head_no)

lemma sem_v_wakes:
  assumes "pool_abs (kern.lists k) n q" and "q (head_no s) = Some (p # ys)" and "sems k s < 0" and "- (2 ^ 31) \<le> sems k s"
  shows "\<exists>k'. sem_v k s = Some k' \<and> status (pcb k' p) = READY \<and> (\<forall>i. i \<noteq> p \<longrightarrow> pcb k' i = pcb k i) \<and>
    sems k' = (sems k)(s := sems k s + 1) \<and> pool_abs (kern.lists k') (Suc n) (q(head_no s \<mapsto> ys))"
proof -
  obtain l where l: "list_dequeue (kern.lists k) (Head (head_no s)) = Some (Some p, l)"
    "pool_abs l (Suc n) (q(head_no s \<mapsto> ys))"
    using wq.deq_some [OF assms(1,2)] by blast
  let ?k = "set_status (k\<lparr>sems := (sems k)(s := sems k s + 1), lists := l\<rparr>) p READY"
  have "sem_v k s = Some ?k" using assms(3,4) l(1) by (simp add: sem_v_def set_value_def sem_head_no proc_addready_def)
  moreover have "\<forall>i. i \<noteq> p \<longrightarrow> pcb ?k i = pcb k i" by (simp add: set_status_def upd_proc_def)
  ultimately show ?thesis using l(2) by auto
qed

lemma sem_v_hands_over:
  assumes "sems_ok k n q" and "q (head_no s) = Some xs" and "sems k s < 2 ^ 31 - 1"
    and "- (2 ^ 31) \<le> sems k s"
  shows "case xs of
      [] \<Rightarrow> sem_v k s = Some (k\<lparr>sems := (sems k)(s := sems k s + 1)\<rparr>) \<and>
        sems_ok (k\<lparr>sems := (sems k)(s := sems k s + 1)\<rparr>) n q
    | p # ys \<Rightarrow> \<exists>k'. sem_v k s = Some k' \<and> status (pcb k' p) = READY \<and>
        (\<forall>i. i \<noteq> p \<longrightarrow> pcb k' i = pcb k i) \<and> sems k' = (sems k)(s := sems k s + 1) \<and>
        sems_ok k' (Suc n) (q(head_no s \<mapsto> ys))"
proof (cases xs)
  case Nil
  then have "0 \<le> sems k s" using sems_ok_len [OF assms(1,2)] by simp
  then show ?thesis using assms sem_v_counts [of k s] Nil by (auto simp: sems_ok_def dest: head_no_inj)
next
  case (Cons p ys)
  have len: "int (length ys) = - (sems k s + 1)" "sems k s < 0" using sems_ok_len [OF assms(1,2)] Cons by simp_all
  have "pool_abs (kern.lists k) n q" using assms(1) by (simp add: sems_ok_def)
  then obtain k' where k': "sem_v k s = Some k'" "status (pcb k' p) = READY" "\<forall>i. i \<noteq> p \<longrightarrow> pcb k' i = pcb k i"
      "sems k' = (sems k)(s := sems k s + 1)" "pool_abs (kern.lists k') (Suc n) (q(head_no s \<mapsto> ys))"
    using sem_v_wakes [of k n q s p ys] assms(2,4) Cons len(2) by auto
  have "sems_ok k' (Suc n) (q(head_no s \<mapsto> ys))" using k'(4,5) assms(1) len by (auto simp: sems_ok_def dest: head_no_inj)
  then show ?thesis using k' Cons by auto
qed

text \<open>
  C14: \<open>sem_v\<close> on the wait lists as they are, whatever the counter says of them (\<open>pool_abs\<close>: the lists are well linked, the list
  of \<open>s\<close> holds \<open>xs\<close>): a counter that is not negative only goes up; with a negative one the process that has waited longest
  gets the unit and becomes ready, no other process changes, and the others keep their order; a negative counter with nobody
  waiting stops the kernel. Where the length of the list agrees with the counter (\<open>sems_ok\<close>, which \<open>sem_init\<close> breaks for a
  negative value only), the kernel is never stopped and the two agree afterwards.
\<close>

theorem sem_v_wakes_longest_waiting:
  assumes "pool_abs (kern.lists k) n q" and "q (head_no s) = Some xs" and "sems k s < 2 ^ 31 - 1"
    and "- (2 ^ 31) \<le> sems k s"
  shows "(if sems k s \<ge> 0 then sem_v k s = Some (k\<lparr>sems := (sems k)(s := sems k s + 1)\<rparr>)
      else case xs of
          [] \<Rightarrow> sem_v k s = None
        | p # ys \<Rightarrow> \<exists>k'. sem_v k s = Some k' \<and> status (pcb k' p) = READY \<and>
            (\<forall>i. i \<noteq> p \<longrightarrow> pcb k' i = pcb k i) \<and> sems k' = (sems k)(s := sems k s + 1) \<and>
            pool_abs (kern.lists k') (Suc n) (q(head_no s \<mapsto> ys))) \<and>
    (sems_ok k n q \<longrightarrow>
      (\<exists>k'. sem_v k s = Some k' \<and>
        (if xs = [] then sems_ok k' n q else sems_ok k' (Suc n) (q(head_no s \<mapsto> tl xs)))))"
proof (intro conjI impI)
  show "if sems k s \<ge> 0 then sem_v k s = Some (k\<lparr>sems := (sems k)(s := sems k s + 1)\<rparr>)
      else case xs of
          [] \<Rightarrow> sem_v k s = None
        | p # ys \<Rightarrow> \<exists>k'. sem_v k s = Some k' \<and> status (pcb k' p) = READY \<and>
            (\<forall>i. i \<noteq> p \<longrightarrow> pcb k' i = pcb k i) \<and> sems k' = (sems k)(s := sems k s + 1) \<and>
            pool_abs (kern.lists k') (Suc n) (q(head_no s \<mapsto> ys))"
    using sem_v_counts [of k s] sem_v_empty [OF assms(1)] sem_v_wakes [OF assms(1)] assms(2-4)
    by (auto split: list.split)
next
  assume "sems_ok k n q"
  from sem_v_hands_over [OF this assms(2-4)]
  show "\<exists>k'. sem_v k s = Some k' \<and> (if xs = [] then sems_ok k' n q else sems_ok k' (Suc n) (q(head_no s \<mapsto> tl xs)))"
    by (auto split: list.splits)
qed

text \<open>A semaphore of the demonstration kernel, through both operations.\<close>

lemma demo_sems: "sems_ok (demo_kern R) 256 [0 \<mapsto> []]"
proof -
  have "s = SerialSem" if "head_no s = 0" for s using that by (cases s) simp_all
  then show ?thesis by (auto simp: sems_ok_def demo_kern_def list_init_first split: if_splits)
qed

theorem sem_v_wakes_longest_waiting_witness:
  "\<exists>k k'. sem_v k SerialSem = Some k' \<and> status (pcb k' 3) = READY \<and> sems_ok k' 256 [0 \<mapsto> []]"
proof -
  have c: "curr (demo_kern {}) = 3" "sems (demo_kern {}) SerialSem = 0" by (simp_all add: demo_kern_def)
  have "sems_ok (demo_kern {}) (Suc 255) [0 \<mapsto> []]" using demo_sems [of "{}"] by simp
  then obtain l where l: "list_enqueue (kern.lists (demo_kern {})) (Head 0) 3 = Some l"
    "pool_abs l 255 [0 \<mapsto> [3]]"
    using wq.enq_law [of "kern.lists (demo_kern {})" 255 "[0 \<mapsto> []]" 0 "[]" 3] by (auto simp: sems_ok_def)
  let ?k = "(demo_kern {})\<lparr>kern.lists := l, sems := (\<lambda>_. 0)(SerialSem := - 1)\<rparr>"
  have "s = SerialSem" if "head_no s = 0" for s using that by (cases s) simp_all
  then have "sems_ok ?k 255 [0 \<mapsto> [3]]" using l(2) by (auto simp: sems_ok_def split: if_splits)
  then obtain k' where k': "sem_v ?k SerialSem = Some k'" "status (pcb k' 3) = READY"
      "sems_ok k' (Suc 255) ([0 \<mapsto> [3]](head_no SerialSem \<mapsto> tl [3]))"
    using sem_v_wakes_longest_waiting [of ?k 255 "[0 \<mapsto> [3]]" SerialSem "[3]"] l(2) by auto
  have "[0 \<mapsto> [3]](head_no SerialSem \<mapsto> tl [3]) = ([0 \<mapsto> []] :: nat \<rightharpoonup> nat list)" by (simp add: fun_eq_iff)
  then show ?thesis using k' by auto
qed

subsection \<open>The tables of a process\<close>

text \<open>
  a new descriptor or semaphore number is the lowest free one, reading it back through the
  bounds check finds what is stored there, no other number changes, and \<open>- 1\<close> is returned
  exactly when the table is full.
\<close>

lemma slots_lowest_free:
  assumes "length xs = n" and "n < 2 ^ 31"
  shows "if None \<in> set xs
    then \<exists>i < n. free_slot xs n = of_nat i \<and> xs ! i = None \<and> (\<forall>j < i. xs ! j \<noteq> None) \<and>
      get_slot (xs[i := Some v]) n (of_nat i) = Some v \<and>
      (\<forall>m. m \<noteq> of_nat i \<longrightarrow> get_slot (xs[i := Some v]) n m = get_slot xs n m)
    else free_slot xs n = - 1"
proof (cases "find (\<lambda>i. xs ! i = None) [0..<n]")
  case None
  then have "None \<notin> set xs" using assms(1) by (auto simp: find_None_iff in_set_conv_nth)
  then show ?thesis using None by (simp add: free_slot_def)
next
  case (Some i)
  then have i: "i < n" "xs ! i = None" "\<forall>j < i. xs ! j \<noteq> None" by (auto simp: find_Some_iff)
  then have "None \<in> set xs" using assms(1) by (metis nth_mem)
  moreover have u: "unat (of_nat i :: u32) = i" using i(1) assms(2) by (simp add: unat_of_nat32)
  then have "sint (of_nat i :: u32) = int i" using i(1) assms(2) by (subst sint_small) simp_all
  moreover have "i \<noteq> unat m" if "m \<noteq> of_nat i" for m :: u32
    using that by auto
  ultimately show ?thesis using i Some u assms(1)
    by (auto simp: free_slot_def get_slot_def intro!: exI [of _ i])
qed

lemma slots_lowest_free_witness:
  "\<exists>i < 3. free_slot [Some 0, None, Some 5] 3 = of_nat i \<and> i = 1"
  using slots_lowest_free [of "[Some 0, None, Some 5]" 3 7]
  by (auto simp: less_Suc_eq numeral_3_eq_3)

end
