(* ===== verification/System.thy ===== *)
theory System
  imports Quiet ProcProps
begin

text \<open>
  The kernel as a whole: the processor runs a process until an interrupt, a handler runs, and at
  \<open>INT(0x81)\<close> the scheduler picks who goes on, all as a step relation. The first invariant is about
  process 0, \<open>main\<close> in its final \<open>while (1)\<close>, which the scheduler can always fall back on.
\<close>

subsection \<open>Steps\<close>

text \<open>
  A configuration is the kernel's state and how the handler that ran last ended. In user mode, and
  between interrupts in process 0, anything may happen to memory and registers, but the kernel's
  own variables stay; process 0 makes no system call. No device raises vector \<open>0x81\<close>, and the interrupt table lets no
  program raise it (\<open>Descr\<close>). \<open>junk\<close> and \<open>eax_junk\<close> are what the stack and
  the register hold by chance.
\<close>

definition user_effect :: "kern \<Rightarrow> kern \<Rightarrow> bool" where
  "user_effect k k' \<longleftrightarrow> (\<exists>v j e. k' = k\<lparr>kvm := v, junk := j, eax_junk := e\<rparr>)"

inductive step :: "kern \<times> outcome \<Rightarrow> kern \<times> outcome \<Rightarrow> bool" where
  trap: "step (k, out) (k2, out')"
    if "\<forall>c. out \<noteq> Switch c" and "user_effect (to_user k out) k1" and "curr k1 = 0 \<longrightarrow> irq \<noteq> EX_SYSCALL"
    and "irq \<noteq> INT_SWITCH" and "irq_handle k1 irq input = Some (out', k2)"
| switch: "step (k, Switch c) (k2, out')"
    if "schedule k c = Some k1" and "resume k1 = Some (out', k2)"

inductive_cases stepE: "step (k, out) s'"

inductive reachable :: "kern \<Rightarrow> kern \<times> outcome \<Rightarrow> bool" for k0 where
  start: "reachable k0 (k0, Iret)"
| step: "reachable k0 s'" if "reachable k0 s" and "step s s'"

inductive_simps reachable_switch: "reachable k0 (k, Switch c)"

subsection \<open>What an operation does to process 0\<close>

definition calm :: "kern \<Rightarrow> kern \<Rightarrow> bool" where
  "calm k k' \<longleftrightarrow> curr k' = curr k \<and> cont (pcb k' 0) = cont (pcb k 0) \<and>
     status (pcb k' 0) \<in> {status (pcb k 0), READY}"

lemma calm_refl [simp]: "calm k k"
  by (simp add: calm_def)

lemma calm_trans: "calm k1 k2 \<Longrightarrow> calm k2 k3 \<Longrightarrow> calm k1 k3"
  by (auto simp: calm_def)

lemma quiet_calm: "sched_state k' = sched_state k \<Longrightarrow> calm k k'"
  by (simp add: calm_def sched_state_eq)

lemma calm_cong: "sched_state k1 = sched_state k1' \<Longrightarrow> sched_state k2 = sched_state k2' \<Longrightarrow> calm k1 k2 \<longleftrightarrow> calm k1' k2'"
  by (simp add: calm_def sched_state_eq)

lemma calm_status [intro]: "p \<noteq> 0 \<or> s = READY \<Longrightarrow> calm k (set_status k p s)"
  by (auto simp: calm_def set_status_def upd_proc_def)

lemma sem_p_calm: "sem_p k s = Some (b, k') \<Longrightarrow> curr k \<noteq> 0 \<Longrightarrow> calm k k'"
  by (auto simp: sem_p_def set_value_def bind_eq_Some_conv set_status_def upd_proc_def calm_def split: if_splits)

lemma sem_v_calm: "sem_v k s = Some k' \<Longrightarrow> calm k k'"
  by (auto simp: sem_v_def set_value_def bind_eq_Some_conv proc_addready_def set_status_def upd_proc_def calm_def
      split: if_splits option.splits)

lemma sem_init_calm: "calm k (sem_init k s v)"
  by (simp add: sem_init_def calm_def)

lemma foldM_calm:
  "foldM f k xs = Some k' \<Longrightarrow> (\<And>k x k'. f k x = Some k' \<Longrightarrow> calm k k') \<Longrightarrow> calm k k'"
proof (induction xs arbitrary: k)
  case (Cons x xs)
  then obtain k1 where k1: "f k x = Some k1" "foldM f k1 xs = Some k'" by (auto simp: bind_eq_Some_conv)
  show ?case by (rule calm_trans [OF Cons.prems(2) [OF k1(1)] Cons.IH [OF k1(2) Cons.prems(2)]])
qed simp

lemma fold_calm: "(\<And>i k. calm k (g i k)) \<Longrightarrow> calm k (fold g xs k)"
  by (induction xs arbitrary: k) (auto intro: calm_trans)

lemma push_back_calm: "push_back k ch = Some k' \<Longrightarrow> calm k k'"
proof -
  assume a: "push_back k ch = Some k'"
  let ?k = "k\<lparr>s_buffer := (s_buffer k)(s_tail k mod BUFFER_SIZE := ch), s_tail := s_tail k + 1\<rparr>"
  show "calm k k'"
  proof (cases "ch = NEWLINE")
    case True
    then obtain k1 where "foldM (\<lambda>k i. sem_v k SerialSem) ?k [0..<s_tail ?k - s_clap ?k] = Some k1"
      "k' = k1\<lparr>s_clap := s_tail k1\<rparr>"
      using a by (auto simp: push_back_def Let_def bind_eq_Some_conv split: if_splits)
    then show ?thesis using foldM_calm [of "\<lambda>k i. sem_v k SerialSem" ?k _ k1] sem_v_calm by (auto simp: calm_def)
  next
    case False
    then show ?thesis using a by (auto simp: push_back_def Let_def calm_def split: if_splits)
  qed
qed

lemma serial_handle_calm: "serial_handle k input = Some k' \<Longrightarrow> calm k k'"
proof (induction k input rule: serial_handle.induct)
  case (2 k ch input)
  have putchar: "calm k' k'' \<Longrightarrow> calm k' (putchar k'' c)" for k' k'' c
    by (simp add: calm_def putchar_def)
  consider "ch = 0" | "ch = 0x1b" | "ch = 8 \<or> ch = 0x7f" | "ch \<notin> {0, 0x1b, 8, 0x7f}" by blast
  then show ?case
  proof cases
    case 3
    obtain c k1 where p: "pop_back k = (c, k1)" by (cases "pop_back k")
    then have "calm k k1" by (auto simp: pop_back_def calm_def split: if_splits)
    moreover have "calm (if c \<noteq> 0 then putchar (putchar (putchar k1 8) 32) 8 else k1) k'"
      using 2(2) [OF _ _ 3 p [symmetric] refl] 2(5) 3 p by auto
    ultimately show ?thesis by (auto simp: calm_def putchar_def split: if_splits)
  next
    case 4
    define c where "c = (if ch = 13 then NEWLINE else ch)"
    show ?thesis
    proof (cases "c = NEWLINE \<or> 32 \<le> c \<and> c < 127")
      case True
      then obtain k1 where "push_back (putchar k c) c = Some k1" "serial_handle k1 input = Some k'"
        using 2(5) 4 by (auto simp: bind_eq_Some_conv c_def Let_def)
      then show ?thesis using 2(3) [OF _ _ _ c_def True] 4 push_back_calm [of "putchar k c" c k1]
        by (auto simp: calm_def putchar_def)
    next
      case False
      then show ?thesis using 2(4) [OF _ _ _ c_def False] 2(5) 4 by (auto simp: c_def Let_def split: if_splits)
    qed
  qed (use 2 in auto)
qed simp

lemma getchar_tail_calm: "getchar_tail k = Some (ch, k') \<Longrightarrow> sched_state k' = sched_state k"
  by (auto simp: getchar_tail_def pop_front_def Let_def split: if_splits prod.splits)

lemma serial_loop_calm: "serial_loop k buf count i ch = Some y \<Longrightarrow> curr k \<noteq> 0 \<longrightarrow> calm k (snd y)"
proof (rule serial_loop.raw_induct [where P = "\<lambda>k buf count i ch y. curr k \<noteq> 0 \<longrightarrow> calm k (snd y)"], goal_cases)
  case (1 loop k buf count i ch y)
  show ?case
  proof (cases "i < count \<and> ch \<noteq> NEWLINE")
    case True
    then obtain b k1 where p: "sem_p k SerialSem = Some (b, k1)" using 1(3) by (cases "sem_p k SerialSem") auto
    show ?thesis
    proof (cases b)
      case True
      then show ?thesis using \<open>i < count \<and> _\<close> 1(3) p sem_p_calm by auto
    next
      case False
      obtain c k2 v where "getchar_tail k1 = Some (c, k2)" "loop (k2\<lparr>kvm := v\<rparr>) buf count (i + 1) c = Some y"
        using \<open>i < count \<and> _\<close> 1(3) p False by (auto simp: bind_eq_Some_conv)
      then show ?thesis using 1(2) [of "k2\<lparr>kvm := v\<rparr>" buf count "i + 1" c y] getchar_tail_calm [of k1 c k2] sem_p_calm [OF p]
        by (auto simp: calm_def sched_state_eq)
    qed
  next
    case False
    then show ?thesis using 1(3) by (simp split: if_splits) auto
  qed
qed

lemma dev_read_calm: "dev_read k d buf n = Some (r, k') \<Longrightarrow> curr k \<noteq> 0 \<Longrightarrow> calm k k'"
  using serial_loop_calm [of k buf n 0 0 "(r, k')"] by (auto simp: dev_read_def serial_read_def split: if_splits)

lemma fread_calm: "fread k fp buf n = Some (r, k') \<Longrightarrow> curr k \<noteq> 0 \<Longrightarrow> calm k k'"
  by (auto simp: fread_def bind_eq_Some_conv Let_def split: if_splits option.splits
      intro: quiet_calm dest: dev_read_calm)

lemma proc_alloc_calm: "proc_alloc k = Some (r, k') \<Longrightarrow> calm k k' \<and> r \<noteq> Some 0"
  by (auto simp: proc_alloc_def bind_eq_Some_conv Let_def find_Some_iff calm_def upd_proc_def sem_init_def
      split: option.splits)

lemma orphan_calm: "calm k (upd_proc k i (orphan p))"
  by (simp add: calm_def upd_proc_def orphan_def)

lemma proc_makezombie_calm:
  assumes "proc_makezombie k p code = Some k'" and "p \<noteq> 0"
  shows "calm k k'"
proof -
  let ?k1 = "upd_proc k p (\<lambda>pr. pr\<lparr>status := ZOMBIE, exit_code := code\<rparr>)"
  obtain k2 where k2: "(case parent (pcb ?k1 p) of None \<Rightarrow> Some ?k1 | Some q \<Rightarrow> sem_v ?k1 (ZombieSem q)) = Some k2"
    using assms(1) by (auto simp: proc_makezombie_def bind_eq_Some_conv Let_def)
  let ?k3 = "fold (\<lambda>i k. upd_proc k i (orphan p)) [0..<PROC_NUM] k2"
  let ?k4 = "fold (\<lambda>i k. case usems (pcb k p) ! i of None \<Rightarrow> k | Some u \<Rightarrow> usem_close k u) [0..<MAX_USEM] ?k3"
  obtain k5 where k5: "foldM (\<lambda>k i. case p_files (pcb k p) ! i of None \<Rightarrow> Some k | Some f \<Rightarrow> fclose k f) ?k4
      [0..<MAX_UFILE] = Some k5"
    "(case cwd (pcb k5 p) of None \<Rightarrow> Some k5 | Some w \<Rightarrow> fs_op k5 (iclose (kfs k5) w)) = Some k'"
    using assms(1) k2 by (auto simp: proc_makezombie_def bind_eq_Some_conv Let_def)
  have "calm k ?k1" using assms(2) by (simp add: calm_def upd_proc_def)
  moreover have "calm ?k1 k2" using k2 by (auto split: option.splits dest: sem_v_calm)
  moreover have "calm k2 ?k3" by (intro fold_calm orphan_calm)
  moreover have "calm ?k3 ?k4" by (intro fold_calm) (auto simp: calm_def usem_close_def split: option.splits)
  moreover have "calm ?k4 k5" using k5(1)
    by (rule foldM_calm) (auto split: option.splits intro: quiet_calm dest: sq.fclose_quiet)
  moreover have "calm k5 k'" using k5(2) by (auto split: option.splits intro: quiet_calm dest: sq.fs_op_quiet)
  ultimately show ?thesis by (meson calm_trans)
qed

text \<open>Process 0 runs or is ready; while another one runs, it stopped in a timer interrupt.\<close>

definition idle_ok :: "kern \<Rightarrow> bool" where
  "idle_ok k \<longleftrightarrow> curr k < PROC_NUM \<and> (if curr k = 0 then status (pcb k 0) \<in> {RUNNING, READY}
     else status (pcb k 0) = READY \<and> cont (pcb k 0) = KTimer)"

lemma proc_free_calm: "proc_free k p = Some k' \<Longrightarrow> p \<noteq> 0 \<Longrightarrow> calm k k'"
  by (auto simp: proc_free_def bind_eq_Some_conv calm_def sched_state_eq set_status_def upd_proc_def
      split: if_splits dest!: sq.vm_op_quiet)

lemma wait_tail_calm:
  assumes "wait_tail k a = Some (out, k')" and "status (pcb k 0) \<noteq> ZOMBIE"
  shows "calm k k'"
proof -
  obtain z v k2 where z: "proc_findzombie k (curr k) = Some z" "proc_free (k\<lparr>kvm := v\<rparr>) z = Some k2"
    "k' = upd_proc k2 (curr k2) (\<lambda>pr. pr\<lparr>child_num := child_num pr - 1\<rparr>)"
    using assms(1) by (auto simp: wait_tail_def bind_eq_Some_conv Let_def split: option.splits)
  have "status (pcb k z) = ZOMBIE" using z(1) by (auto simp: proc_findzombie_def find_Some_iff)
  then have "z \<noteq> 0" using assms(2) by metis
  then show ?thesis using proc_free_calm [OF z(2)] z(3) by (auto simp: calm_def upd_proc_def)
qed

lemma sys_wait_calm:
  assumes "sys_wait k a = Some (out, k')" and "curr k \<noteq> 0" and "status (pcb k 0) = READY"
  shows "calm k k'"
proof (cases "child_num (cur k) = 0")
  case False
  then obtain b k1 where p: "sem_p k (ZombieSem (curr k)) = Some (b, k1)"
    using assms(1) by (auto simp: sys_wait_def bind_eq_Some_conv)
  have c: "calm k k1" using sem_p_calm [OF p assms(2)] .
  show ?thesis
  proof (cases b)
    case False
    then have "calm k1 k'"
      using assms(1,3) p c \<open>child_num (cur k) \<noteq> 0\<close>
      by (intro wait_tail_calm) (auto simp: sys_wait_def calm_def)
    then show ?thesis using c by (rule calm_trans [rotated])
  qed (use assms(1) p c \<open>child_num (cur k) \<noteq> 0\<close> in \<open>auto simp: sys_wait_def\<close>)
qed (use assms(1) in \<open>simp add: sys_wait_def\<close>)

lemma sys_fork_calm:
  assumes "sys_fork k = Some (out, k')"
  shows "calm k k'"
proof -
  obtain c k1 where a: "proc_alloc k = Some (c, k1)" using assms by (auto simp: sys_fork_def bind_eq_Some_conv)
  note a1 = proc_alloc_calm [OF a]
  show ?thesis
  proof (cases c)
    case (Some p)
    then obtain k2 where k2: "proc_copycurr k1 p = Some k2" "k' = proc_addready k2 p"
      using assms a by (auto simp: sys_fork_def bind_eq_Some_conv Let_def)
    have "calm k1 k2" using k2(1) by (intro quiet_calm proc_copycurr_quiet)
    moreover have "calm k2 k'" unfolding k2(2) proc_addready_def by (rule calm_status) simp
    ultimately show ?thesis using a1 by (blast intro: calm_trans)
  qed (use assms a a1 in \<open>auto simp: sys_fork_def\<close>)
qed

lemma sys_sem_open_calm: "sys_sem_open k v = (out, k') \<Longrightarrow> calm k k'"
  by (auto simp: sys_sem_open_def usem_alloc_def sem_init_def Let_def calm_def set_usem_def upd_proc_def
      split: if_splits option.splits)

lemma yield_calm: "curr k \<noteq> 0 \<Longrightarrow> calm k (proc_yield k)"
  by (auto simp: proc_yield_def)

lemma syscall_calm:
  assumes "do_syscall k = Some (out, k')" and "curr k \<noteq> 0" and "status (pcb k 0) = READY"
  shows "calm k k'"
proof -
  have h: "syscall_handle n k a b c = Some (out, k') \<Longrightarrow> calm k k'" for n a b c
    unfolding syscall_handle_def using assms(2,3)
    by (auto split: if_split_asm option.split_asm
        simp: sys_getpid_def sys_yield_def sys_sleep_def sleep_loop_def yield_calm sys_exit_def sys_read_def
          sys_sem_p_def sys_sem_v_def sys_sem_close_def usem_close_def Let_def bind_eq_Some_conv
        intro: quiet_calm sys_wait_calm sys_fork_calm sys_sem_open_calm
        dest: sq.sys_write_quiet sq.sys_open_quiet sq.sys_close_quiet sq.sys_dup_quiet sq.sys_lseek_quiet sq.sys_fstat_quiet
          sq.sys_chdir_quiet sq.sys_unlink_quiet sq.sys_brk_quiet sq.sys_exec_quiet fread_calm proc_makezombie_calm
          sem_p_calm sem_v_calm)
  show ?thesis using assms(1) h by (auto simp: do_syscall_def Let_def split: if_splits)
qed

lemma resume_calm:
  assumes "resume k = Some (out, k')" and "curr k \<noteq> 0" and "status (pcb k 0) = READY"
  shows "calm k k'"
  using assms unfolding resume_def serial_resume_def
  by (auto split: kcont.splits simp: sleep_loop_def yield_calm bind_eq_Some_conv
      dest!: serial_loop_calm getchar_tail_calm split: if_splits intro: wait_tail_calm)
    (auto simp: calm_def sched_state_eq)

subsection \<open>The invariant\<close>

definition conf_ok :: "kern \<times> outcome \<Rightarrow> bool" where
  "conf_ok s = (case s of
       (k, Switch c) \<Rightarrow> curr k < PROC_NUM \<and> status (pcb k 0) = READY \<and>
         (if curr k = 0 then c else cont (pcb k 0)) = KTimer
     | (k, _) \<Rightarrow> idle_ok k)"

lemma idle_ok_calm: "idle_ok k \<Longrightarrow> calm k k' \<Longrightarrow> idle_ok k'"
  by (auto simp: idle_ok_def calm_def split: if_splits)

lemma conf_ok_calm: "idle_ok k \<Longrightarrow> calm k k' \<Longrightarrow> curr k \<noteq> 0 \<Longrightarrow> conf_ok (k', out)"
  by (auto simp: conf_ok_def idle_ok_def calm_def split: outcome.splits)

lemma irq_handle_cases:
  assumes "irq_handle k irq input = Some (out, k')" and "irq \<noteq> INT_SWITCH"
  obtains (syscall) "irq = EX_SYSCALL" "do_syscall k = Some (out, k')"
    | (serial) "serial_handle k input = Some k'" "out = Iret"
    | (timer) "timer_handle k = (out, k')" | (ignored) "k' = k" "out = Iret"
  using assms by (auto simp: irq_handle_def bind_eq_Some_conv split: if_splits)

lemma irq_handle_ok:
  assumes "irq_handle k irq input = Some (out, k')" and "idle_ok k" and "curr k = 0 \<longrightarrow> irq \<noteq> EX_SYSCALL"
    and "irq \<noteq> INT_SWITCH"
  shows "conf_ok (k', out)"
proof -
  have iret: "idle_ok k' \<Longrightarrow> conf_ok (k', Iret)" by (simp add: conf_ok_def)
  from assms(1,4) show ?thesis
  proof (cases rule: irq_handle_cases)
    case syscall
    then have "curr k \<noteq> 0" using assms(3) by blast
    then show ?thesis using syscall_calm [OF syscall(2)] conf_ok_calm [OF assms(2)] assms(2) by (auto simp: idle_ok_def)
  next
    case serial
    then show ?thesis using iret idle_ok_calm [OF assms(2)] serial_handle_calm by blast
  next
    case timer
    then show ?thesis using assms(2)
      by (auto simp: timer_handle_def conf_ok_def idle_ok_def proc_yield_def set_status_def upd_proc_def split: if_splits)
  qed (use assms(2) iret in auto)
qed

lemma to_user_quiet [simp]: "sched_state (to_user k out) = sched_state k"
  by (simp add: to_user_def split: outcome.splits)

lemma idle_ok_cong: "sched_state k' = sched_state k \<Longrightarrow> idle_ok k' = idle_ok k"
  by (simp add: idle_ok_def sched_state_eq)

lemma schedule_ok:
  assumes "schedule k c = Some k1" and "conf_ok (k, Switch c)"
  shows "idle_ok k1 \<and> cont (pcb k1 0) = KTimer \<and> curr k1 < PROC_NUM \<and> status (cur k1) = RUNNING"
proof -
  let ?k = "upd_proc k (curr k) (\<lambda>pr. pr\<lparr>cont := c\<rparr>)"
  obtain p where p: "sched_loop ?k (curr k) = Some p" "k1 = proc_run ?k p"
    using assms(1) by (auto simp: schedule_def bind_eq_Some_conv upd_proc_def Let_def)
  have "p < PROC_NUM" using sched_loop_some [OF p(1)] assms(2) by (simp add: conf_ok_def)
  then show ?thesis using p(2) assms(2)
    by (auto simp: conf_ok_def idle_ok_def proc_run_def set_status_def upd_proc_def Let_def split: if_splits)
qed

lemma step_ok:
  assumes "step s s'" and "conf_ok s"
  shows "conf_ok s'"
  using assms
proof cases
  case (trap out k k1 irq input out' k2)
  have "idle_ok k" using assms(2) trap(1,3) by (cases out) (auto simp: conf_ok_def)
  moreover have "sched_state k1 = sched_state k" using trap(4) by (auto simp: user_effect_def)
  ultimately have "idle_ok k1" using idle_ok_cong by blast
  then show ?thesis unfolding trap(2) by (rule irq_handle_ok [OF trap(7) _ trap(5,6)])
next
  case (switch k c k1 out' k2)
  note s = schedule_ok [OF switch(3)]
  show ?thesis
  proof (cases "curr k1 = 0")
    case True
    then show ?thesis using s assms(2) switch by (auto simp: resume_def conf_ok_def)
  next
    case False
    then show ?thesis using s assms(2) switch resume_calm conf_ok_calm [of k1 k2 out'] by (auto simp: idle_ok_def)
  qed
qed

lemma reachable_ok: "reachable k0 s \<Longrightarrow> idle_ok k0 \<Longrightarrow> conf_ok s"
  by (induction rule: reachable.induct) (simp add: conf_ok_def, blast intro: step_ok)

text \<open>\<open>main\<close> starts the system in a state of this kind.\<close>

lemma init_user_and_go_calm: "init_user_and_go k argv = Some k' \<Longrightarrow> calm k k'"
proof -
  assume a: "init_user_and_go k argv = Some k'"
  then obtain p k1 where p: "proc_alloc k = Some (Some p, k1)"
    by (auto simp: init_user_and_go_def bind_eq_Some_conv split: option.splits)
  then obtain k2 where "k' = proc_addready k2 p" "sched_state k2 = sched_state k1"
    using a by (auto simp: init_user_and_go_def bind_eq_Some_conv Let_def split: if_splits
        dest!: sq.kopen_quiet sq.load_user_quiet intro: that)
  moreover from this have "calm k1 k2" "calm k2 k'" by (auto intro: quiet_calm simp: proc_addready_def)
  ultimately show ?thesis using proc_alloc_calm [OF p] by (blast intro: calm_trans)
qed

lemma main_idle:
  assumes "curr k0 = 0" and "kernel_main k0 argv = Some k"
  shows "idle_ok k \<and> curr k = 0"
proof -
  obtain k1 k2 k3 where k: "fs_op (init_serial k0) (init_fs (kfs (init_serial k0))) = Some k1"
    "init_proc (k1\<lparr>kvm := init_page (kvm k1)\<rparr>) = Some k2" "init_dev k2 = Some k3"
    "init_user_and_go (putstrn k3 hello) argv = Some k"
    using assms(2) by (auto simp: kernel_main_def bind_eq_Some_conv Let_def)
  have "curr k1 = 0" using sq.fs_op_quiet [OF k(1)] assms(1)
    by (simp add: init_serial_def sem_init_def putchar_def sched_state_eq)
  then have "curr k2 = 0" "status (pcb k2 0) = RUNNING"
    using k(2) by (auto simp: init_proc_def bind_eq_Some_conv upd_proc_def sem_init_def Let_def)
  then have "idle_ok k2" "curr k2 = 0" by (simp_all add: idle_ok_def)
  moreover have "calm k2 k3" using k(3) by (intro quiet_calm sq.init_dev_quiet)
  moreover have "calm k3 (putstrn k3 hello)" by (intro quiet_calm) simp
  ultimately show ?thesis using init_user_and_go_calm [OF k(4)] by (auto intro: idle_ok_calm calm_trans simp: calm_def)
qed

text \<open>
  C6: the kernel never gets lost in the scheduler. From a state in which process 0 runs or is
  ready, as \<open>main\<close> leaves it (\<open>main_idle\<close>), whatever system calls, interrupts and program behaviour
  follow: when a process gives the processor away, \<open>schedule\<close> finds a ready process and runs it.
\<close>

theorem scheduler_always_finds:
  assumes "idle_ok k0" and "reachable k0 (k, Switch c)"
  shows "\<exists>k1. schedule k c = Some k1 \<and> status (pcb k (curr k1)) = READY \<and> status (cur k1) = RUNNING"
proof -
  let ?k = "upd_proc k (curr k) (\<lambda>pr. pr\<lparr>cont := c\<rparr>)"
  have ok: "conf_ok (k, Switch c)" using reachable_ok assms by blast
  have c: "curr k < PROC_NUM" "status (pcb k 0) = READY" using ok by (auto simp: conf_ok_def)
  have st: "status (pcb ?k p) = status (pcb k p)" for p by (simp add: upd_proc_def)
  obtain j where j: "j < PROC_NUM" "nth_after (curr k) j = 0" using nth_after_hits [OF c(1), of 0] by auto
  then have "ready ?k (nth_after (curr k) j)" unfolding ready_def st using c(2) by simp
  then have "find (\<lambda>j. ready ?k (nth_after (curr k) j)) [0..<PROC_NUM] \<noteq> None"
    using j(1) unfolding find_None_iff by (auto simp del: upt_rec_numeral)
  then obtain p where p: "sched_loop ?k (curr k) = Some p" using sched_loop_next [OF c(1), of ?k] by auto
  then have "schedule k c = Some (proc_run ?k p)" by (simp add: schedule_def upd_proc_def Let_def)
  moreover have "curr (proc_run ?k p) = p" "status (cur (proc_run ?k p)) = RUNNING"
    by (simp_all add: proc_run_def set_status_def upd_proc_def Let_def)
  moreover have "status (pcb k p) = READY" using sched_loop_some [OF p] st by (simp add: ready_def)
  ultimately show ?thesis by auto
qed

theorem scheduler_always_finds_witness:
  "let k = upd_proc (demo_kern {0}) 0 (\<lambda>pr. pr\<lparr>cont := KTimer\<rparr>); k = proc_yield (k\<lparr>tick := tick k + 1\<rparr>) in
   \<exists>k1. schedule k KTimer = Some k1 \<and> status (pcb k (curr k1)) = READY \<and> status (cur k1) = RUNNING"
proof -
  let ?k = "upd_proc (demo_kern {0}) 0 (\<lambda>pr. pr\<lparr>cont := KTimer\<rparr>)"
  have "idle_ok ?k" by (simp add: idle_ok_def upd_proc_def demo_kern_def boot_proc_def)
  moreover have "step (?k, Iret) (proc_yield (?k\<lparr>tick := tick ?k + 1\<rparr>), Switch KTimer)"
  proof (rule step.trap)
    show "user_effect (to_user ?k Iret) ?k"
      unfolding user_effect_def
      by (intro exI [of _ "kvm ?k"] exI [of _ "junk ?k"] exI [of _ "eax_junk ?k"]) (simp add: to_user_def)
    show "irq_handle ?k T_IRQ0 [] = Some (Switch KTimer, proc_yield (?k\<lparr>tick := tick ?k + 1\<rparr>))"
      by (simp add: irq_handle_def timer_handle_def)
  qed simp_all
  then have "reachable ?k (proc_yield (?k\<lparr>tick := tick ?k + 1\<rparr>), Switch KTimer)"
    by (rule reachable.step [OF reachable.start])
  ultimately show ?thesis unfolding Let_def by (rule scheduler_always_finds)
qed

end
