(* ===== verification/RefTable.thy ===== *)
theory RefTable
  imports File ProcProps "HOL-Library.Multiset"
begin

text \<open>
  The kernel's tables of shared objects count their users: \<open>user_sem[]\<close> (\<open>usem_alloc\<close>, \<open>usem_dup\<close>,
  \<open>usem_close\<close>) and \<open>files[]\<close> (\<open>falloc\<close>, \<open>fdup\<close>, \<open>fclose\<close>). Both are interpretations of one
  contract, under which an object somebody still holds is never handed out again.
\<close>

datatype ref_op = Alloc | Dup nat | Close nat

text \<open>
  A run of the operations by holders who only duplicate and close what they hold, with the
  multiset of the handles held.
\<close>

fun ref_step :: "('s \<Rightarrow> nat option \<times> 's) \<Rightarrow> ('s \<Rightarrow> nat \<Rightarrow> 's) \<Rightarrow> ('s \<Rightarrow> nat \<Rightarrow> 's option) \<Rightarrow>
    's \<times> nat multiset \<Rightarrow> ref_op \<Rightarrow> ('s \<times> nat multiset) option" where
  "ref_step alloc dup cls (s, M) Alloc =
     (case alloc s of (Some i, s) \<Rightarrow> Some (s, add_mset i M) | (None, s) \<Rightarrow> Some (s, M))"
| "ref_step alloc dup cls (s, M) (Dup i) = (if i \<in># M then Some (dup s i, add_mset i M) else None)"
| "ref_step alloc dup cls (s, M) (Close i) =
     (if i \<in># M then map_option (\<lambda>s. (s, M - {#i#})) (cls s i) else None)"

locale ref_table =
  fixes ref :: "'s \<Rightarrow> nat \<Rightarrow> int"
    and alloc :: "'s \<Rightarrow> nat option \<times> 's"
    and dup :: "'s \<Rightarrow> nat \<Rightarrow> 's"
    and cls :: "'s \<Rightarrow> nat \<Rightarrow> 's option"
  assumes alloc_some: "alloc s = (Some i, s') \<Longrightarrow> ref s i = 0 \<and> ref s' = (ref s)(i := 1)"
    and alloc_none: "alloc s = (None, s') \<Longrightarrow> s' = s"
    and dup_law: "ref (dup s i) = (ref s)(i := ref s i + 1)"
    and cls_law: "cls s i = Some s' \<Longrightarrow> ref s' = (ref s)(i := ref s i - 1)"
begin

definition balanced :: "'s \<Rightarrow> nat multiset \<Rightarrow> bool" where
  "balanced s M \<longleftrightarrow> (\<forall>i. ref s i = int (count M i))"

lemma step_balanced:
  assumes "balanced s M" and "ref_step alloc dup cls (s, M) x = Some (s', M')"
  shows "balanced s' M'"
proof (cases x)
  case Alloc
  then show ?thesis using assms alloc_some [of s _ s'] alloc_none [of s s']
    by (auto simp: balanced_def split: prod.splits option.splits)
next
  case (Dup i)
  then show ?thesis using assms dup_law [of s i] by (auto simp: balanced_def split: if_splits)
next
  case (Close i)
  then show ?thesis using assms cls_law [of s i s']
    by (auto simp: balanced_def not_in_iff split: if_splits)
qed

lemma run_balanced:
  "balanced s M \<Longrightarrow> foldM (ref_step alloc dup cls) (s, M) xs = Some (s', M') \<Longrightarrow> balanced s' M'"
proof (induction xs arbitrary: s M)
  case (Cons x xs)
  then obtain s1 M1 where "ref_step alloc dup cls (s, M) x = Some (s1, M1)"
    "foldM (ref_step alloc dup cls) (s1, M1) xs = Some (s', M')"
    by (auto simp: bind_eq_Some_conv)
  then show ?case using Cons.IH step_balanced [OF Cons.prems(1)] by blast
qed simp

lemma held_not_allocated:
  assumes "\<forall>i. ref s i = 0" and "foldM (ref_step alloc dup cls) (s, {#}) xs = Some (s', M)"
  shows "\<forall>i. ref s' i = int (count M i)" and "alloc s' = (Some i, s'') \<Longrightarrow> i \<notin># M"
proof -
  have "balanced s {#}" using assms(1) by (simp add: balanced_def)
  then have b: "balanced s' M" using assms(2) by (rule run_balanced)
  then show "\<forall>i. ref s' i = int (count M i)" by (simp add: balanced_def)
  show "i \<notin># M" if "alloc s' = (Some i, s'')"
    using alloc_some [OF that] b by (simp add: balanced_def not_in_iff)
qed

end

lemma upd_file_ref:
  "(\<lambda>j. f_ref (files (upd_file k i g) j)) = (\<lambda>j. f_ref (files k j))(i := f_ref (g (files k i)))"
  by (auto simp: upd_file_def)

lemma fs_op_files: "fs_op k r = Some k' \<Longrightarrow> files k' = files k"
  by (auto simp: fs_op_def)

interpretation usem_table: ref_table usem_ref "\<lambda>k. usem_alloc k v" usem_dup "\<lambda>k i. Some (usem_close k i)" for v
proof unfold_locales
  show "usem_alloc s v = (Some i, s') \<Longrightarrow> usem_ref s i = 0 \<and> usem_ref s' = (usem_ref s)(i := 1)" for s i s'
    by (auto simp: usem_alloc_def sem_init_def find_Some_iff split: option.splits)
qed (auto simp: usem_alloc_def usem_dup_def usem_close_def split: option.splits)

interpretation file_table: ref_table "\<lambda>k i. f_ref (files k i)" falloc fdup fclose
proof unfold_locales
  show "falloc s = (Some i, s') \<Longrightarrow> f_ref (files s i) = 0 \<and>
      (\<lambda>i. f_ref (files s' i)) = (\<lambda>i. f_ref (files s i))(i := 1)" for s i s'
    by (auto simp: falloc_def upd_file_ref find_Some_iff split: option.splits)
  show "fclose s i = Some s' \<Longrightarrow>
      (\<lambda>j. f_ref (files s' j)) = (\<lambda>j. f_ref (files s j))(i := f_ref (files s i) - 1)" for s i s'
    unfolding fclose_def Let_def
    by (auto simp: upd_file_ref dest!: fs_op_files split: if_splits)
qed (auto simp: falloc_def fdup_def upd_file_ref split: option.splits)

text \<open>
  Whatever sequence of allocations, duplications and closings the holders of open files
  perform, the reference count of every entry of \<open>files[]\<close> is the number of handles held on it,
  and \<open>falloc\<close> never returns an entry that is still held.
\<close>

lemma files_held_not_reallocated:
  assumes "\<forall>i. f_ref (files k i) = 0"
    and "foldM (ref_step falloc fdup fclose) (k, {#}) xs = Some (k', M)"
  shows "(\<forall>i. f_ref (files k' i) = int (count M i)) \<and> (\<forall>i k''. falloc k' = (Some i, k'') \<longrightarrow> i \<notin># M)"
  using file_table.held_not_allocated [OF assms] by blast

lemma falloc_first: "f_ref (files k 0) = 0 \<Longrightarrow>
    falloc k = (Some 0, upd_file k 0 (\<lambda>f. f\<lparr>f_ref := 1, f_type := TYPE_NONE\<rparr>))"
  by (simp add: falloc_def upt_conv_Cons)

text \<open>
  The same for the user semaphores: as long as some process holds a semaphore of
  \<open>user_sem[]\<close>, \<open>usem_alloc\<close> does not give it to another.
\<close>

lemma usems_held_not_reallocated:
  assumes "\<forall>i. usem_ref k i = 0"
    and "foldM (ref_step (\<lambda>k. usem_alloc k v) usem_dup (\<lambda>k i. Some (usem_close k i))) (k, {#}) xs = Some (k', M)"
  shows "(\<forall>i. usem_ref k' i = int (count M i)) \<and> (\<forall>i k''. usem_alloc k' v = (Some i, k'') \<longrightarrow> i \<notin># M)"
  using usem_table.held_not_allocated [OF assms] by blast

lemma usem_alloc_first: "usem_ref k 0 = 0 \<Longrightarrow>
    usem_alloc k v = (Some 0, (sem_init k (UserSem 0) v)\<lparr>usem_ref := (usem_ref k)(0 := 1)\<rparr>)"
  by (simp add: usem_alloc_def upt_conv_Cons)

end
