(* ===== verification/KInv.thy ===== *)
theory KInv
  imports System RefTable
begin

text \<open>
  The kernel's global invariant. It ties together what the components keep separately: the status of
  every process, the wait lists and counters of the semaphores, the family tree, the tables of user
  semaphores and the console's buffer. \<open>kinv\<close> is the invariant between interrupts, \<open>kinv_at\<close> the
  form it has inside a handler; the lemmas here are about the operations of \<open>Proc\<close>.
\<close>

subsection \<open>What the kernel can observe\<close>

definition core_state :: "kern \<Rightarrow> _" where
  "core_state k = (curr k,
     (\<lambda>p. let pr = pcb k p in (status pr, cont pr, parent pr, child_num pr, usems pr, length (p_files pr))),
     sems k, lists k, usem_ref k, (s_head k, s_clap k, s_tail k, s_buffer k))"

lemma core_state_eq:
  "core_state k' = core_state k \<longleftrightarrow> curr k' = curr k \<and> (\<forall>p. same_core (pcb k' p) (pcb k p)) \<and> sems k' = sems k \<and>
     kern.lists k' = kern.lists k \<and> usem_ref k' = usem_ref k \<and> s_head k' = s_head k \<and> s_clap k' = s_clap k \<and>
     s_tail k' = s_tail k \<and> s_buffer k' = s_buffer k"
  by (auto simp: core_state_def fun_eq_iff Let_def same_core_def)

interpretation kq: quiet core_state
  by unfold_locales (auto simp: core_state_eq upd_proc_def)

lemma core_state_upd [simp]:
  "core_state (k\<lparr>next_pid := n\<rparr>) = core_state k" "core_state (k\<lparr>tick := tk\<rparr>) = core_state k"
  "core_state (k\<lparr>junk := j\<rparr>) = core_state k" "core_state (k\<lparr>eax_junk := e\<rparr>) = core_state k"
  by (simp_all add: core_state_eq)

lemma core_state_upd_proc:
  assumes "core_state k1 = core_state k" and "\<And>a b. same_core a b \<Longrightarrow> same_core (g a) (g b)"
  shows "core_state (upd_proc k1 p g) = core_state (upd_proc k p g)"
  using assms unfolding core_state_eq by (simp add: upd_proc_def)

subsection \<open>Who waits for what\<close>

text \<open>The semaphore a process that gave the processor away with \<open>c\<close> to do takes its turn at.\<close>

definition waits_on :: "nat \<Rightarrow> kcont \<Rightarrow> sem_id option" where
  "waits_on p c = (case c of KSerial _ _ _ \<Rightarrow> Some SerialSem | KWait _ \<Rightarrow> Some (ZombieSem p) | _ \<Rightarrow> None)"

definition active :: "kern \<Rightarrow> nat \<Rightarrow> bool" where
  "active k p \<longleftrightarrow> status (pcb k p) \<notin> {UNUSED, ZOMBIE}"

definition blocked :: "kern \<Rightarrow> nat set" where
  "blocked k = {p. status (pcb k p) = BLOCKED}"

definition pending :: "kern \<Rightarrow> (nat \<Rightarrow> kcont) \<Rightarrow> sem_id \<Rightarrow> nat set" where
  "pending k t s = {p. status (pcb k p) \<in> {BLOCKED, READY} \<and> waits_on p (t p) = Some s}"

definition children :: "kern \<Rightarrow> nat \<Rightarrow> nat set" where
  "children k p = {c. status (pcb k c) \<noteq> UNUSED \<and> parent (pcb k c) = Some p}"

definition zombies :: "kern \<Rightarrow> nat \<Rightarrow> nat set" where
  "zombies k p = {c. status (pcb k c) = ZOMBIE \<and> parent (pcb k c) = Some p}"

text \<open>
  The semaphores whose counter is known: the console's counts the characters of finished lines, a
  process's \<open>zombie_sem\<close> its children that have ended.
\<close>

definition counted :: "kern \<Rightarrow> sem_id \<Rightarrow> bool" where
  "counted k s = (case s of SerialSem \<Rightarrow> True | ZombieSem p \<Rightarrow> active k p | UserSem _ \<Rightarrow> False)"

definition live :: "kern \<Rightarrow> sem_id \<Rightarrow> bool" where
  "live k s = (case s of SerialSem \<Rightarrow> True | ZombieSem p \<Rightarrow> active k p | UserSem u \<Rightarrow> 0 < usem_ref k u)"

definition avail :: "kern \<Rightarrow> sem_id \<Rightarrow> nat" where
  "avail k s = (case s of SerialSem \<Rightarrow> s_clap k - s_head k | ZombieSem p \<Rightarrow> card (zombies k p) | UserSem _ \<Rightarrow> 0)"

subsection \<open>The invariant\<close>

definition procs_ok :: "kern \<Rightarrow> bool" where
  "procs_ok k \<longleftrightarrow> curr k < PROC_NUM \<and> (\<forall>p. status (pcb k p) \<noteq> UNUSED \<longrightarrow> p < PROC_NUM) \<and>
     (\<forall>p. status (pcb k p) = RUNNING \<longrightarrow> p = curr k)"

text \<open>\<open>w\<close> says at which semaphore a blocked process stands in line, \<open>q\<close> the lines, \<open>n\<close> the free list nodes.\<close>

definition in_line :: "kern \<Rightarrow> (nat \<Rightarrow> sem_id) \<Rightarrow> sem_id \<Rightarrow> nat list \<Rightarrow> bool" where
  "in_line k w s xs \<longleftrightarrow> distinct xs \<and> set xs = {p \<in> blocked k. w p = s} \<and>
     int (length xs) \<le> max 0 (- sems k s) \<and> (counted k s \<longrightarrow> int (length xs) = max 0 (- sems k s))"

definition queues_ok :: "kern \<Rightarrow> nat \<Rightarrow> (nat \<rightharpoonup> nat list) \<Rightarrow> (nat \<Rightarrow> sem_id) \<Rightarrow> bool" where
  "queues_ok k n q w \<longleftrightarrow> pool_abs (lists k) n q \<and> n + card (blocked k) = LIST_NUM \<and>
     (\<forall>s. live k s \<longrightarrow> q (head_no s) \<noteq> None) \<and>
     (\<forall>s xs. q (head_no s) = Some xs \<longrightarrow> in_line k w s xs)"

definition stands_at :: "nat option list \<Rightarrow> nat \<Rightarrow> kcont \<Rightarrow> sem_id \<Rightarrow> bool" where
  "stands_at us p c s = (case s of UserSem u \<Rightarrow> c = KSemP \<and> Some u \<in> set us | _ \<Rightarrow> waits_on p c = Some s)"

definition waits_ok :: "kern \<Rightarrow> (nat \<Rightarrow> kcont) \<Rightarrow> (nat \<Rightarrow> sem_id) \<Rightarrow> bool" where
  "waits_ok k t w \<longleftrightarrow> (\<forall>p \<in> blocked k. stands_at (usems (pcb k p)) p (t p) (w p))"

text \<open>
  \<open>d s\<close> is a handler's debt: units it took from \<open>s\<close> without having taken yet what they stand for, or
  delivered without having raised the counter.
\<close>

definition counts_ok :: "kern \<Rightarrow> (nat \<Rightarrow> kcont) \<Rightarrow> (sem_id \<Rightarrow> int) \<Rightarrow> bool" where
  "counts_ok k t d \<longleftrightarrow>
     (\<forall>s. counted k s \<longrightarrow> sems k s = int (avail k s) - int (card (pending k t s)) - d s)"

definition tree_ok :: "kern \<Rightarrow> (nat \<Rightarrow> kcont) \<Rightarrow> bool" where
  "tree_ok k t \<longleftrightarrow> (\<forall>p. \<forall>c \<in> children k p. active k p \<and> c \<noteq> p) \<and>
     (\<forall>p. active k p \<longrightarrow> child_num (pcb k p) = of_nat (card (children k p))) \<and>
     (\<forall>p. p \<in> pending k t (ZombieSem p) \<longrightarrow> children k p \<noteq> {})"

definition holders :: "kern \<Rightarrow> nat \<Rightarrow> nat" where
  "holders k u = (\<Sum>p | active k p. count_list (usems (pcb k p)) (Some u))"

definition tables_ok :: "kern \<Rightarrow> bool" where
  "tables_ok k \<longleftrightarrow> (\<forall>p. active k p \<longrightarrow> length (usems (pcb k p)) = MAX_USEM \<and> length (p_files (pcb k p)) = MAX_UFILE \<and>
       (\<forall>u. Some u \<in> set (usems (pcb k p)) \<longrightarrow> u < USER_SEM_NUM)) \<and>
     (\<forall>u. usem_ref k u = int (holders k u))"

definition input_ok :: "kern \<Rightarrow> bool" where
  "input_ok k \<longleftrightarrow> s_head k \<le> s_clap k \<and> s_clap k \<le> s_tail k \<and>
     (\<forall>i. s_head k \<le> i \<and> i < s_tail k \<longrightarrow> s_buffer k (i mod BUFFER_SIZE) \<noteq> 0)"

definition sync_ok :: "kern \<Rightarrow> (nat \<Rightarrow> kcont) \<Rightarrow> (sem_id \<Rightarrow> int) \<Rightarrow> nat \<Rightarrow> (nat \<rightharpoonup> nat list) \<Rightarrow>
    (nat \<Rightarrow> sem_id) \<Rightarrow> bool" where
  "sync_ok k t d n q w \<longleftrightarrow> procs_ok k \<and> queues_ok k n q w \<and> waits_ok k t w \<and> counts_ok k t d"

definition kinv_at :: "kern \<Rightarrow> (nat \<Rightarrow> kcont) \<Rightarrow> (sem_id \<Rightarrow> int) \<Rightarrow> bool" where
  "kinv_at k t d \<longleftrightarrow> (\<exists>n q w. sync_ok k t d n q w) \<and> tree_ok k t \<and> tables_ok k \<and> input_ok k"

text \<open>What each process has to do next: for the current one that is in the outcome of its handler.\<close>

definition agenda :: "kern \<Rightarrow> outcome \<Rightarrow> nat \<Rightarrow> kcont" where
  "agenda k out = (case out of Switch c \<Rightarrow> (\<lambda>p. cont (pcb k p))(curr k := c) | _ \<Rightarrow> (\<lambda>p. cont (pcb k p)))"

definition kinv :: "kern \<times> outcome \<Rightarrow> bool" where
  "kinv s = (case s of (k, out) \<Rightarrow> kinv_at k (agenda k out) (\<lambda>_. 0) \<and>
     (status (cur k) = RUNNING \<longleftrightarrow> (\<forall>c. out \<noteq> Switch c)))"

lemmas sets_defs = active_def blocked_def pending_def children_def zombies_def counted_def live_def avail_def
lemmas parts_defs = procs_ok_def in_line_def queues_ok_def waits_ok_def counts_ok_def

subsection \<open>What it depends on\<close>

lemma seen_cong:
  assumes eq: "\<And>p. status (pcb k' p) = status (pcb k p)" "\<And>p. parent (pcb k' p) = parent (pcb k p)"
    "\<And>p. child_num (pcb k' p) = child_num (pcb k p)" "\<And>p. usems (pcb k' p) = usems (pcb k p)"
    "\<And>p. length (p_files (pcb k' p)) = length (p_files (pcb k p))"
    "curr k' = curr k" "sems k' = sems k" "lists k' = lists k" "usem_ref k' = usem_ref k"
    "s_head k' = s_head k" "s_clap k' = s_clap k" "s_tail k' = s_tail k" "s_buffer k' = s_buffer k"
  shows "sync_ok k' t d n q w = sync_ok k t d n q w" and "tree_ok k' t = tree_ok k t"
    and "tables_ok k' = tables_ok k" and "input_ok k' = input_ok k"
proof -
  have a: "active k' = active k" "blocked k' = blocked k" "pending k' = pending k" "children k' = children k"
    "zombies k' = zombies k" by (auto simp: sets_defs eq fun_eq_iff)
  have b: "counted k' = counted k" "live k' = live k" "avail k' = avail k" "holders k' = holders k"
    by (auto simp: counted_def live_def avail_def holders_def a eq fun_eq_iff split: sem_id.splits)
  show "sync_ok k' t d n q w = sync_ok k t d n q w" by (simp add: sync_ok_def parts_defs a b eq)
  show "tree_ok k' t = tree_ok k t" by (simp add: tree_ok_def a eq)
  show "tables_ok k' = tables_ok k" by (simp add: tables_ok_def a b eq)
  show "input_ok k' = input_ok k" by (simp add: input_ok_def eq)
qed

lemma core_state_cong:
  assumes "core_state k' = core_state k"
  shows "sync_ok k' t d n q w = sync_ok k t d n q w" and "tree_ok k' t = tree_ok k t"
    and "tables_ok k' = tables_ok k" and "input_ok k' = input_ok k"
  using assms by (intro seen_cong; simp add: core_state_eq same_core_def)+

lemma kinv_at_cont: "kinv_at (upd_proc k p (\<lambda>pr. pr\<lparr>cont := c\<rparr>)) t d = kinv_at k t d"
  using seen_cong [of "upd_proc k p (\<lambda>pr. pr\<lparr>cont := c\<rparr>)" k] by (simp add: kinv_at_def upd_proc_def)

lemma kinv_at_cong: "core_state k' = core_state k \<Longrightarrow> kinv_at k' t d = kinv_at k t d"
  using core_state_cong [of k' k] by (simp add: kinv_at_def)

lemma agenda_cong: "core_state k' = core_state k \<Longrightarrow> agenda k' out = agenda k out"
proof -
  assume "core_state k' = core_state k"
  then have "(\<lambda>p. cont (pcb k' p)) = (\<lambda>p. cont (pcb k p))" "curr k' = curr k"
    by (auto simp: core_state_eq same_core_def)
  then show ?thesis by (cases out) (simp_all add: agenda_def)
qed

text \<open>Only what the processes that are ready or blocked have to do matters, and the debt at counted semaphores.\<close>

lemma sync_ok_agenda:
  assumes "\<And>p. status (pcb k p) \<in> {BLOCKED, READY} \<Longrightarrow> t' p = t p"
  shows "sync_ok k t' d n q w = sync_ok k t d n q w" and "tree_ok k t' = tree_ok k t"
proof -
  have "pending k t' = pending k t" using assms by (auto simp: pending_def fun_eq_iff)
  moreover have "waits_ok k t' w = waits_ok k t w"
    unfolding waits_ok_def by (rule ball_cong) (use assms in \<open>auto simp: blocked_def\<close>)
  ultimately show "sync_ok k t' d n q w = sync_ok k t d n q w" "tree_ok k t' = tree_ok k t"
    by (simp_all add: sync_ok_def counts_ok_def tree_ok_def)
qed

lemma kinv_at_agenda:
  "(\<And>p. status (pcb k p) \<in> {BLOCKED, READY} \<Longrightarrow> t' p = t p) \<Longrightarrow> kinv_at k t' d = kinv_at k t d"
  using sync_ok_agenda [of k t' t] by (simp add: kinv_at_def)

lemma sync_ok_user [simp]: "sync_ok k t (d(UserSem u := x)) n q w = sync_ok k t d n q w"
proof -
  have "(d(UserSem u := x)) s = d s" if "counted k s" for s using that by (auto simp: counted_def)
  then show ?thesis by (simp add: sync_ok_def counts_ok_def)
qed

lemma kinv_at_user [simp]: "kinv_at k t (d(UserSem u := x)) = kinv_at k t d"
  by (simp add: kinv_at_def)

lemma finite_sets:
  assumes "procs_ok k"
  shows "finite {p. active k p}" "finite (blocked k)" "finite (pending k t s)" "finite (children k p)" "finite (zombies k p)"
  by (rule finite_subset [of _ "{..<PROC_NUM}"], use assms in \<open>force simp: procs_ok_def sets_defs\<close>, simp)+

lemma card_procs: "procs_ok k \<Longrightarrow> A \<subseteq> {p. status (pcb k p) \<noteq> UNUSED} \<Longrightarrow> card A \<le> PROC_NUM"
  using card_mono [of "{..<PROC_NUM}" A] by (auto simp: procs_ok_def)

lemma syncD:
  assumes "sync_ok k t d n q w"
  shows "procs_ok k" "queues_ok k n q w" "waits_ok k t w" "counts_ok k t d"
  using assms by (simp_all add: sync_ok_def)

lemma queueD:
  assumes "queues_ok k n q w" and "live k s"
  obtains xs where "q (head_no s) = Some xs" "in_line k w s xs"
  using assms by (auto simp: queues_ok_def)

text \<open>Whoever took a unit of a counted semaphore finds what it stands for.\<close>

lemma debt_covered:
  assumes "sync_ok k t d n q w" and "counted k s" and "0 < d s"
  shows "0 < avail k s"
proof -
  note s = syncD [OF assms(1)]
  have "live k s" using assms(2) by (auto simp: counted_def live_def split: sem_id.splits)
  then obtain xs where xs: "distinct xs" "set xs = {p \<in> blocked k. w p = s}" "int (length xs) = max 0 (- sems k s)"
    using queueD [OF s(2)] assms(2) unfolding in_line_def by metis
  have "set xs \<subseteq> pending k t s"
    using s(3) assms(2) xs(2) by (auto simp: waits_ok_def stands_at_def blocked_def pending_def counted_def split: sem_id.splits)
  then have "length xs \<le> card (pending k t s)"
    using card_mono [OF finite_sets(3) [OF s(1)]] distinct_card [OF xs(1)] by metis
  moreover have "sems k s = int (avail k s) - int (card (pending k t s)) - d s"
    using s(4) assms(2) by (simp add: counts_ok_def)
  ultimately show ?thesis using xs(3) assms(3) by (simp add: max_def split: if_splits)
qed

end
