(* ===== verification/KSync.thy ===== *)
theory KSync
  imports KInv
begin

text \<open>
  The semaphore operations keep the kernel's invariant, with the books on what they hand out: a \<open>sem_p\<close>
  that returns leaves a debt, a \<open>sem_v\<close> pays one.
\<close>

subsection \<open>The family and the tables do not see a change of counters and wait lists\<close>

lemma sets_sync [simp]:
  "active (k\<lparr>sems := c\<rparr>) = active k" "active (k\<lparr>lists := l\<rparr>) = active k"
  "blocked (k\<lparr>sems := c\<rparr>) = blocked k" "blocked (k\<lparr>lists := l\<rparr>) = blocked k"
  "pending (k\<lparr>sems := c\<rparr>) = pending k" "pending (k\<lparr>lists := l\<rparr>) = pending k"
  "children (k\<lparr>sems := c\<rparr>) = children k" "children (k\<lparr>lists := l\<rparr>) = children k"
  "zombies (k\<lparr>sems := c\<rparr>) = zombies k" "zombies (k\<lparr>lists := l\<rparr>) = zombies k"
  by (simp_all add: sets_defs fun_eq_iff)

lemma sets_sync2 [simp]:
  "counted (k\<lparr>sems := c\<rparr>) = counted k" "counted (k\<lparr>lists := l\<rparr>) = counted k"
  "live (k\<lparr>sems := c\<rparr>) = live k" "live (k\<lparr>lists := l\<rparr>) = live k"
  "avail (k\<lparr>sems := c\<rparr>) = avail k" "avail (k\<lparr>lists := l\<rparr>) = avail k"
  "holders (k\<lparr>sems := c\<rparr>) = holders k" "holders (k\<lparr>lists := l\<rparr>) = holders k"
  by (simp_all add: counted_def live_def avail_def holders_def fun_eq_iff split: sem_id.splits)

lemma rest_sync [simp]:
  "tree_ok (k\<lparr>sems := c\<rparr>) t = tree_ok k t" "tree_ok (k\<lparr>lists := l\<rparr>) t = tree_ok k t"
  "tables_ok (k\<lparr>sems := c\<rparr>) = tables_ok k" "tables_ok (k\<lparr>lists := l\<rparr>) = tables_ok k"
  "input_ok (k\<lparr>sems := c\<rparr>) = input_ok k" "input_ok (k\<lparr>lists := l\<rparr>) = input_ok k"
  by (simp_all add: tree_ok_def tables_ok_def input_ok_def)

text \<open>A change of status among the active ones.\<close>

lemma sets_status:
  assumes "active k p" and "x \<notin> {UNUSED, ZOMBIE}"
  shows "active (set_status k p x) = active k" "children (set_status k p x) = children k"
    "zombies (set_status k p x) = zombies k" "counted (set_status k p x) = counted k"
    "live (set_status k p x) = live k" "avail (set_status k p x) = avail k" "holders (set_status k p x) = holders k"
proof -
  have a: "status (pcb (set_status k p x) c) = UNUSED \<longleftrightarrow> status (pcb k c) = UNUSED"
    "status (pcb (set_status k p x) c) = ZOMBIE \<longleftrightarrow> status (pcb k c) = ZOMBIE"
    "parent (pcb (set_status k p x) c) = parent (pcb k c)" "usems (pcb (set_status k p x) c) = usems (pcb k c)" for c
    using assms by (auto simp: active_def set_status_def upd_proc_def)
  show b: "active (set_status k p x) = active k" "children (set_status k p x) = children k"
    "zombies (set_status k p x) = zombies k"
    by (simp_all add: active_def children_def zombies_def a fun_eq_iff del: status_set_status)
  have s: "s_clap (set_status k p x) = s_clap k" "s_head (set_status k p x) = s_head k"
    by (simp_all add: set_status_def upd_proc_def)
  show "counted (set_status k p x) = counted k"
    "live (set_status k p x) = live k" "avail (set_status k p x) = avail k" "holders (set_status k p x) = holders k"
    by (simp_all add: counted_def live_def avail_def holders_def a b s fun_eq_iff split: sem_id.splits)
qed

lemma rest_status:
  assumes "active k p" and "x \<notin> {UNUSED, ZOMBIE}"
  shows "tables_ok (set_status k p x) = tables_ok k" "input_ok (set_status k p x) = input_ok k"
proof -
  have a: "usems (pcb (set_status k p x) c) = usems (pcb k c)" "p_files (pcb (set_status k p x) c) = p_files (pcb k c)" for c
    by (simp_all add: set_status_def upd_proc_def)
  show "tables_ok (set_status k p x) = tables_ok k" by (simp add: tables_ok_def sets_status [OF assms] a)
  show "input_ok (set_status k p x) = input_ok k" by (simp add: input_ok_def set_status_def upd_proc_def)
qed

lemma tree_status:
  assumes "active k p" and "x \<notin> {UNUSED, ZOMBIE}" and "tree_ok k t"
    and "\<And>c. c \<in> pending (set_status k p x) t' (ZombieSem c) \<Longrightarrow> c \<in> pending k t (ZombieSem c) \<or> children k c \<noteq> {}"
  shows "tree_ok (set_status k p x) t'"
proof -
  have "child_num (pcb (set_status k p x) c) = child_num (pcb k c)" for c by (simp add: set_status_def upd_proc_def)
  then show ?thesis using assms(3,4) unfolding tree_ok_def sets_status [OF assms(1,2)] by metis
qed

lemma procs_sync [simp]:
  "procs_ok (k\<lparr>sems := c\<rparr>) = procs_ok k" "procs_ok (k\<lparr>lists := l\<rparr>) = procs_ok k"
  by (simp_all add: procs_ok_def)

lemma procs_status:
  "procs_ok k \<Longrightarrow> active k p \<Longrightarrow> x = RUNNING \<longrightarrow> p = curr k \<Longrightarrow> procs_ok (set_status k p x)"
  by (simp only: procs_ok_def active_def status_set_status set_status_sel split: if_splits) blast

subsection \<open>Taking a unit\<close>

lemma sem_p_takes:
  assumes "sync_ok k t d n q w" and "live k s" and "sem_p k s = Some (False, k')"
  shows "k' = k\<lparr>sems := (sems k)(s := sems k s - 1)\<rparr>" and "sync_ok k' t (d(s := d s + 1)) n q w"
proof -
  note s = syncD [OF assms(1)]
  show k': "k' = k\<lparr>sems := (sems k)(s := sems k s - 1)\<rparr>"
    using assms(3) by (auto simp: sem_p_def set_value_def bind_eq_Some_conv split: if_splits)
  have pos: "0 < sems k s"
    using assms(3) by (auto simp: sem_p_def set_value_def bind_eq_Some_conv split: if_splits)
  have "queues_ok k' n q w"
    unfolding queues_ok_def
  proof (intro conjI allI impI)
    fix s' xs assume "q (head_no s') = Some xs"
    then have "in_line k w s' xs" using s(2) by (simp add: queues_ok_def)
    then show "in_line k' w s' xs" using pos by (auto simp: k' in_line_def)
  qed (use s(2) in \<open>auto simp: k' queues_ok_def\<close>)
  moreover have "counts_ok k' t (d(s := d s + 1))" using s(4) by (simp add: k' counts_ok_def)
  moreover have "procs_ok k'" "waits_ok k' t w" using s(1,3) by (simp_all add: k' procs_ok_def waits_ok_def)
  ultimately show "sync_ok k' t (d(s := d s + 1)) n q w" by (simp add: sync_ok_def)
qed

lemma card_blocked:
  assumes "procs_ok k"
  shows "card (blocked k) \<le> PROC_NUM"
  by (rule card_procs [OF assms]) (auto simp: blocked_def)

lemma sem_p_blocks:
  assumes "sync_ok k t d n q w" and "live k s" and "status (cur k) = RUNNING" and "sem_p k s = Some (True, k')"
    and "stands_at (usems (cur k)) (curr k) c s"
  shows "\<exists>l n q. k' = set_status (k\<lparr>sems := (sems k)(s := sems k s - 1), lists := l\<rparr>) (curr k) BLOCKED \<and>
    sync_ok k' (t(curr k := c)) d n q (w(curr k := s))"
proof -
  note s = syncD [OF assms(1)]
  let ?p = "curr k"
  obtain xs where xs: "q (head_no s) = Some xs" "in_line k w s xs" using queueD [OF s(2) assms(2)] .
  have nb: "?p \<notin> blocked k" "\<And>s. ?p \<notin> pending k t s" using assms(3) by (auto simp: blocked_def pending_def)
  have n: "0 < n" using s(2) card_blocked [OF s(1)] by (simp add: queues_ok_def)
  then obtain l where l: "list_enqueue (lists k) (Head (head_no s)) ?p = Some l"
    "pool_abs l (n - 1) (q(head_no s \<mapsto> xs @ [?p]))"
    using wq.enq_law [of "lists k" "n - 1" q "head_no s" xs ?p] s(2) xs(1) by (auto simp: queues_ok_def)
  define k1 where "k1 = k\<lparr>sems := (sems k)(s := sems k s - 1), lists := l\<rparr>"
  have k': "k' = set_status k1 ?p BLOCKED" and v: "sems k s \<le> 0"
    using assms(4) l(1) by (auto simp: sem_p_def set_value_def bind_eq_Some_conv sem_head_no k1_def split: if_splits)
  have act: "active k1 ?p" using assms(3) by (simp add: active_def k1_def)
  note st = sets_status [OF act, of BLOCKED, simplified, folded k']
  have bl: "blocked k' = insert ?p (blocked k)" by (auto simp: k' k1_def blocked_def)
  have pen: "pending k' (t(?p := c)) s' = (if waits_on ?p c = Some s' then insert ?p (pending k t s') else pending k t s')" for s'
    using nb(2) assms(3) by (auto simp: k' k1_def pending_def)
  let ?w = "w(?p := s)" and ?q = "q(head_no s \<mapsto> xs @ [?p])"
  have se: "sems k' = (sems k)(s := sems k s - 1)" "lists k' = l" by (simp_all add: k' k1_def)
  have "queues_ok k' (n - 1) ?q ?w"
    unfolding queues_ok_def
  proof (intro conjI allI impI)
    show "pool_abs (lists k') (n - 1) ?q" using l(2) se by simp
    show "n - 1 + card (blocked k') = LIST_NUM"
      using s(2) nb(1) finite_sets(2) [OF s(1)] n by (simp add: queues_ok_def bl)
    show "?q (head_no s') \<noteq> None" if "live k' s'" for s'
      using s(2) that by (auto simp: queues_ok_def st k1_def)
  next
    fix s' ys assume y: "?q (head_no s') = Some ys"
    show "in_line k' ?w s' ys"
    proof (cases "s' = s")
      case True
      then show ?thesis using y xs nb v by (auto simp: in_line_def bl se st k1_def)
    next
      case False
      then have "in_line k w s' ys"
        using y head_no_inj [of s' s] s(2) by (auto simp: queues_ok_def split: if_splits)
      then show ?thesis using False nb by (auto simp: in_line_def bl se st k1_def)
    qed
  qed
  moreover have "waits_ok k' (t(?p := c)) ?w"
    using s(3) assms(5) nb(1) unfolding waits_ok_def bl
    by (auto simp: k' k1_def set_status_def upd_proc_def)
  moreover have "counts_ok k' (t(?p := c)) d"
    unfolding counts_ok_def
  proof (intro allI impI)
    fix s' assume c: "counted k' s'"
    then have "counted k s'" by (simp add: st k1_def)
    then have "sems k s' = int (avail k s') - int (card (pending k t s')) - d s'" using s(4) by (simp add: counts_ok_def)
    moreover have "waits_on ?p c = Some s' \<longleftrightarrow> s' = s"
      using assms(5) \<open>counted k s'\<close> by (auto simp: stands_at_def waits_on_def counted_def split: sem_id.splits)
    ultimately show "sems k' s' = int (avail k' s') - int (card (pending k' (t(?p := c)) s')) - d s'"
      using nb(2) [of s'] finite_sets(3) [OF s(1), of t s'] by (auto simp: se st k1_def pen)
  qed
  moreover have "procs_ok k'" using s(1) assms(3) using procs_status [OF _ act, of BLOCKED] by (simp add: k' k1_def)
  ultimately have "sync_ok k' (t(?p := c)) d (n - 1) ?q ?w" by (simp only: sync_ok_def)
  then show ?thesis unfolding k' k1_def by blast
qed

subsection \<open>Giving a unit\<close>

text \<open>What a \<open>sem_v\<close> changes: counters and wait lists, and at most one blocked process becomes ready.\<close>

definition woken :: "kern \<Rightarrow> kern \<Rightarrow> bool" where
  "woken k k' \<longleftrightarrow> (\<exists>c l. k' = k\<lparr>sems := c, lists := l\<rparr> \<or>
     (\<exists>p \<in> blocked k. k' = set_status (k\<lparr>sems := c, lists := l\<rparr>) p READY))"

lemma sem_v_gives:
  assumes "sync_ok k t d n q w" and "live k s" and "sem_v k s = Some k'"
  shows "woken k k' \<and> (\<exists>n q. sync_ok k' t (d(s := d s - 1)) n q w)"
proof -
  note s = syncD [OF assms(1)]
  define k1 where "k1 = k\<lparr>sems := (sems k)(s := sems k s + 1)\<rparr>"
  obtain xs where xs: "q (head_no s) = Some xs" "in_line k w s xs" using queueD [OF s(2) assms(2)] .
  have dom: "live k s' \<Longrightarrow> q (head_no s') \<noteq> None" for s' using s(2) by (simp add: queues_ok_def)
  have other: "in_line k w s' ys" if "q (head_no s') = Some ys" for s' ys
    using s(2) that by (simp add: queues_ok_def)
  have pa: "pool_abs (lists k) n q" "n + card (blocked k) = LIST_NUM" using s(2) by (simp_all add: queues_ok_def)
  have cnt: "counts_ok k1 t (d(s := d s - 1))" using s(4) by (simp add: k1_def counts_ok_def)
  show ?thesis
  proof (cases "sems k s + 1 \<le> 0")
    case False
    then have k': "k' = k1"
      using assms(3) by (auto simp: sem_v_def set_value_def bind_eq_Some_conv k1_def split: if_splits)
    have "in_line k1 w s' ys" if "q (head_no s') = Some ys" for s' ys
      using other [OF that] False by (auto simp: k1_def in_line_def)
    then have "queues_ok k1 n q w" using dom pa by (simp add: queues_ok_def k1_def)
    moreover have "procs_ok k1" "waits_ok k1 t w" using s(1,3) by (simp_all add: k1_def waits_ok_def)
    ultimately have "sync_ok k' t (d(s := d s - 1)) n q w" using cnt by (simp add: sync_ok_def k')
    moreover have "woken k k'" unfolding woken_def k' k1_def
      by (intro exI [of _ "(sems k)(s := sems k s + 1)"] exI [of _ "kern.lists k"] disjI1) simp
    ultimately show ?thesis by blast
  next
    case True
    obtain r l where r: "list_dequeue (lists k) (sem_head s) = Some (r, l)"
      "(case r of None \<Rightarrow> None | Some p \<Rightarrow> Some (proc_addready (k1\<lparr>lists := l\<rparr>) p)) = Some k'"
      using assms(3) True unfolding k1_def
      by (auto simp: sem_v_def set_value_def bind_eq_Some_conv split: if_splits)
    then obtain p ys where py: "xs = p # ys" using wq.deq_none [OF pa(1)] xs(1) by (cases xs) (auto simp: sem_head_no)
    then have l: "pool_abs l (Suc n) (q(head_no s \<mapsto> ys))" and k': "k' = set_status (k1\<lparr>lists := l\<rparr>) p READY"
      using wq.deq_some [OF pa(1), of "head_no s" p ys] xs(1) r
      by (auto simp: sem_head_no proc_addready_def split: option.splits)
    have p: "p \<in> blocked k" "w p = s" "p \<notin> set ys" using xs(2) py by (auto simp: in_line_def)
    have act: "active (k1\<lparr>lists := l\<rparr>) p" using p(1) by (simp add: k1_def active_def blocked_def)
    note st = sets_status [OF act, of READY, simplified, folded k']
    have bl: "blocked k' = blocked k - {p}" by (auto simp: k' k1_def blocked_def)
    have pen: "pending k' t s' = pending k t s'" for s'
      using p(1) by (auto simp: k' k1_def pending_def blocked_def)
    have se: "sems k' = (sems k)(s := sems k s + 1)" "lists k' = l" by (simp_all add: k' k1_def)
    have "queues_ok k' (Suc n) (q(head_no s \<mapsto> ys)) w"
      unfolding queues_ok_def
    proof (intro conjI allI impI)
      show "Suc n + card (blocked k') = LIST_NUM"
        using pa(2) p(1) finite_sets(2) [OF s(1)] card_Suc_Diff1 [of "blocked k" p] by (simp add: bl)
    next
      fix s' zs assume z: "(q(head_no s \<mapsto> ys)) (head_no s') = Some zs"
      show "in_line k' w s' zs"
      proof (cases "s' = s")
        case True
        then show ?thesis using z xs(2) p \<open>sems k s + 1 \<le> 0\<close> py by (auto simp: in_line_def bl se st k1_def)
      next
        case False
        then have "in_line k w s' zs" using z head_no_inj [of s' s] other by (auto split: if_splits)
        then show ?thesis using False p by (auto simp: in_line_def bl se st k1_def)
      qed
    qed (use l dom in \<open>auto simp: se st k1_def\<close>)
    moreover have "waits_ok k' t w" using s(3) unfolding waits_ok_def bl by (auto simp: k' k1_def set_status_def upd_proc_def)
    moreover have "counts_ok k' t (d(s := d s - 1))" using cnt by (simp add: counts_ok_def pen se st k1_def)
    moreover have "procs_ok k'" using procs_status [OF _ act, of READY] s(1) by (simp add: k' k1_def)
    ultimately have "sync_ok k' t (d(s := d s - 1)) (Suc n) (q(head_no s \<mapsto> ys)) w" by (simp only: sync_ok_def)
    moreover have "woken k k'" using p(1) unfolding woken_def k' k1_def by auto
    ultimately show ?thesis by blast
  qed
qed

lemma woken_rest:
  assumes "woken k k'"
  shows "active k' = active k" "children k' = children k" "zombies k' = zombies k" "counted k' = counted k"
    "live k' = live k" "avail k' = avail k" "tables_ok k' = tables_ok k" "input_ok k' = input_ok k"
    "tree_ok k t \<Longrightarrow> tree_ok k' t" "curr k' = curr k" "usem_ref k' = usem_ref k"
    "s_head k' = s_head k" "s_clap k' = s_clap k" "s_tail k' = s_tail k" "s_buffer k' = s_buffer k"
    "\<And>c. parent (pcb k' c) = parent (pcb k c)" "\<And>c. usems (pcb k' c) = usems (pcb k c)"
    "\<And>c. c \<notin> blocked k \<Longrightarrow> pcb k' c = pcb k c" "\<And>c. child_num (pcb k' c) = child_num (pcb k c)"
    "\<And>c. cont (pcb k' c) = cont (pcb k c)" "holders k' = holders k"
    "pending k' = pending k"
proof -
  obtain c l k1 where k1: "k1 = k\<lparr>sems := c, lists := l\<rparr>" "k' = k1 \<or> (\<exists>p \<in> blocked k. k' = set_status k1 p READY)"
    using assms unfolding woken_def by blast
  have p: "p \<in> blocked k \<Longrightarrow> active k1 p" for p by (simp add: k1 blocked_def active_def)
  have pe: "pending (set_status k1 p READY) t' s = pending k t' s" if "p \<in> blocked k" for p s t'
    using that by (auto simp: pending_def k1(1) blocked_def)
  show "active k' = active k" "children k' = children k" "zombies k' = zombies k" "counted k' = counted k"
    "live k' = live k" "avail k' = avail k" "tables_ok k' = tables_ok k" "input_ok k' = input_ok k" "holders k' = holders k"
    using k1(2) by (auto simp: sets_status [OF p] rest_status [OF p]) (simp_all add: k1(1))
  show "pending k' = pending k" using k1(2) pe by (auto simp: k1(1) fun_eq_iff)
  show "tree_ok k' t" if "tree_ok k t"
  proof -
    have t1: "tree_ok k1 t" using that by (simp add: k1(1))
    have "tree_ok (set_status k1 p READY) t" if "p \<in> blocked k" for p
      by (rule tree_status [OF p [OF that] _ t1]) (simp_all add: pe [OF that], simp add: k1(1))
    then show ?thesis using k1(2) t1 by blast
  qed
  show "curr k' = curr k" "usem_ref k' = usem_ref k"
    "s_head k' = s_head k" "s_clap k' = s_clap k" "s_tail k' = s_tail k" "s_buffer k' = s_buffer k"
    "\<And>c. parent (pcb k' c) = parent (pcb k c)" "\<And>c. usems (pcb k' c) = usems (pcb k c)"
    "\<And>c. c \<notin> blocked k \<Longrightarrow> pcb k' c = pcb k c" "\<And>c. child_num (pcb k' c) = child_num (pcb k c)"
    "\<And>c. cont (pcb k' c) = cont (pcb k c)"
    using k1(2) by (auto simp: k1(1) set_status_def upd_proc_def)
qed

end
