(* ===== verification/SerialProps.thy ===== *)
theory SerialProps
  imports Serial ProcProps
begin

text \<open>
  The console refines a line editor: the ring buffer and its three counters hold a queue of
  characters ready to be read and a line still being typed, and \<open>serial_handle\<close> edits the pair.
\<close>

subsection \<open>The abstract console\<close>

definition window :: "kern \<Rightarrow> nat \<Rightarrow> nat \<Rightarrow> bytes" where
  "window k a b = map (\<lambda>i. s_buffer k (i mod BUFFER_SIZE)) [a..<b]"

definition pend :: "kern \<Rightarrow> bytes" where
  "pend k = window k (s_head k) (s_clap k)"

definition line :: "kern \<Rightarrow> bytes" where
  "line k = window k (s_clap k) (s_tail k)"

text \<open>The semaphore never promises more characters than are ready.\<close>

definition serial_ok :: "kern \<Rightarrow> bool" where
  "serial_ok k \<longleftrightarrow> s_head k \<le> s_clap k \<and> s_clap k \<le> s_tail k \<and> s_tail k - s_head k \<le> BUFFER_SIZE \<and>
     0 \<notin> set (pend k) \<and> 0 \<notin> set (line k) \<and> sems k SerialSem + int (s_head k) \<le> int (s_clap k)"

text \<open>The specification: ready characters, line and screen after some input.\<close>

fun edit :: "bytes \<Rightarrow> bytes \<times> bytes \<times> bytes \<Rightarrow> bytes \<times> bytes \<times> bytes" where
  "edit [] s = s"
| "edit (c # cs) (p, l, out) =
     (if c = 0 then edit cs (p, l, out)
      else if c = 0x1b then (p, l, out)
      else if c = 8 \<or> c = 0x7f then
        edit cs (if l = [] then (p, l, out) else (p, butlast l, out @ [8, 32, 8]))
      else if c = 10 \<or> c = 13 then edit cs (p @ l @ [10], [], out @ [10])
      else if 32 \<le> c \<and> c < 127 then edit cs (p, l @ [c], out @ [c])
      else edit cs (p, l, out))"

lemma window_snoc: "a \<le> b \<Longrightarrow> window k a (Suc b) = window k a b @ [s_buffer k (b mod BUFFER_SIZE)]"
  by (simp add: window_def)

lemma window_cons: "a < b \<Longrightarrow> window k a b = s_buffer k (a mod BUFFER_SIZE) # window k (Suc a) b"
  by (simp add: window_def upt_conv_Cons)

lemma window_append: "a \<le> b \<Longrightarrow> b \<le> c \<Longrightarrow> window k a b @ window k b c = window k a c"
  by (simp add: window_def flip: map_append) (metis le_Suc_ex upt_add_eq_append)

lemma length_window [simp]: "length (window k a b) = b - a"
  by (simp add: window_def)

lemma window_cong: "s_buffer k' = s_buffer k \<Longrightarrow> window k' a b = window k a b"
  by (simp add: window_def)

lemma mod_distinct: "i < t \<Longrightarrow> t - i < BUFFER_SIZE \<Longrightarrow> i mod BUFFER_SIZE \<noteq> t mod BUFFER_SIZE"
  by (metis mod_less mod_if diff_is_0_eq less_imp_le_nat linorder_not_le mod_eq_dvd_iff_nat nat_dvd_not_less
      zero_less_diff)

lemma window_store:
  assumes "t - a < BUFFER_SIZE" and "b \<le> t"
    and "s_buffer k' = (s_buffer k)(t mod BUFFER_SIZE := c)"
  shows "window k' a b = window k a b"
  unfolding window_def
proof (rule map_cong [OF refl])
  fix i assume "i \<in> set [a..<b]"
  then have "i < t" "t - i < BUFFER_SIZE" using assms(1,2) by auto
  then show "s_buffer k' (i mod BUFFER_SIZE) = s_buffer k (i mod BUFFER_SIZE)"
    using mod_distinct assms(3) by simp
qed

subsection \<open>Waking the readers of a finished line\<close>

text \<open>What the semaphore operations leave alone.\<close>

definition apart_sem :: "kern \<Rightarrow> _" where
  "apart_sem k = ((s_buffer k, s_head k, s_tail k, s_clap k, s_out k), curr k, kvm k, kfs k, files k, usem_ref k)"

lemma sem_v_apart:
  assumes "sem_v k s = Some k'"
  shows "apart_sem k' = apart_sem k" and "sems k' = (sems k)(s := sems k s + 1)"
proof -
  note fr = sem_v_frame [OF assms]
  show "apart_sem k' = apart_sem k" using arg_cong [OF fr, of apart_sem] by (simp add: apart_sem_def)
  show "sems k' = (sems k)(s := sems k s + 1)" using arg_cong [OF fr, of sems] by simp
qed

lemma sem_v_many:
  assumes "sems_ok k n q" and "q 0 = Some xs" and "sems k SerialSem + int m < 2 ^ 31"
    and "- (2 ^ 31) \<le> sems k SerialSem" and "length is = m"
  shows "\<exists>k' n'. foldM (\<lambda>k i. sem_v k SerialSem) k is = Some k' \<and> sems_ok k' n' (q(0 \<mapsto> drop m xs)) \<and>
    apart_sem k' = apart_sem k \<and> sems k' = (sems k)(SerialSem := sems k SerialSem + int m)"
  using assms
proof (induction m arbitrary: k n q xs "is")
  case 0
  then show ?case by (auto simp: map_upd_triv intro: exI [of _ n])
next
  case (Suc m)
  obtain j js where js: "is = j # js" "length js = m" using Suc.prems(5) by (cases "is") auto
  have "\<exists>k1 n1. sem_v k SerialSem = Some k1 \<and> sems_ok k1 n1 (q(0 \<mapsto> drop 1 xs))"
    using sem_v_hands_over [of k n q SerialSem xs] Suc.prems(1-4)
    by (cases xs) (auto simp: map_upd_triv)
  then obtain k1 n1 where k1: "sem_v k SerialSem = Some k1" "sems_ok k1 n1 (q(0 \<mapsto> drop 1 xs))" by blast
  note ap = sem_v_apart [OF k1(1)]
  have "\<exists>k' n'. foldM (\<lambda>k i. sem_v k SerialSem) k1 js = Some k' \<and>
      sems_ok k' n' (q(0 \<mapsto> drop 1 xs, 0 \<mapsto> drop m (drop 1 xs))) \<and>
      apart_sem k' = apart_sem k1 \<and> sems k' = (sems k1)(SerialSem := sems k1 SerialSem + int m)"
    by (rule Suc.IH [OF k1(2)]) (use Suc.prems(3,4) js ap in auto)
  then show ?case
    using js k1(1) ap by (simp add: fun_upd_same fun_upd_upd add.assoc del: fun_upd_apply)
qed

subsection \<open>Adding to and taking from the buffer\<close>

lemma putchar_sel [simp]:
  "pend (putchar k c) = pend k" "line (putchar k c) = line k" "s_out (putchar k c) = s_out k @ [c]"
  "s_head (putchar k c) = s_head k" "s_tail (putchar k c) = s_tail k" "s_clap (putchar k c) = s_clap k"
  "serial_ok (putchar k c) = serial_ok k" "sems (putchar k c) = sems k"
  "sems_ok (putchar k c) n q = sems_ok k n q"
  by (simp_all add: putchar_def pend_def line_def window_def serial_ok_def sems_ok_def)

lemma length_pend_line: "length (pend k) = s_clap k - s_head k" "length (line k) = s_tail k - s_clap k"
  by (simp_all add: pend_def line_def)

definition stored_ch :: "kern \<Rightarrow> u8 \<Rightarrow> kern" where
  "stored_ch k ch = k\<lparr>s_buffer := (s_buffer k)(s_tail k mod BUFFER_SIZE := ch), s_tail := s_tail k + 1\<rparr>"

lemma stored_ch_window:
  assumes "serial_ok k" and "s_tail k - s_head k < BUFFER_SIZE"
  shows "pend (stored_ch k ch) = pend k" and "line (stored_ch k ch) = line k @ [ch]"
proof -
  let ?k = "stored_ch k ch"
  have b: "s_buffer ?k = (s_buffer k)(s_tail k mod BUFFER_SIZE := ch)" by (simp add: stored_ch_def)
  have le: "s_head k \<le> s_clap k" "s_clap k \<le> s_tail k" using assms(1) by (simp_all add: serial_ok_def)
  show "pend ?k = pend k"
    using window_store [of "s_tail k" "s_head k" "s_clap k" ?k k ch] assms(2) le b
    by (simp add: pend_def stored_ch_def)
  have "window ?k (s_clap k) (s_tail k) = window k (s_clap k) (s_tail k)"
    using window_store [of "s_tail k" "s_clap k" "s_tail k" ?k k ch] assms(2) le b by simp
  then show "line ?k = line k @ [ch]"
    using le window_snoc [of "s_clap k" "s_tail k" ?k] by (simp add: line_def stored_ch_def)
qed

lemma push_char:
  assumes "serial_ok k" and "s_tail k - s_head k < BUFFER_SIZE" and "s_tail k + 1 < 2 ^ 31"
    and "ch \<noteq> 0" and "ch \<noteq> NEWLINE" and "sems_ok k n q"
  shows "push_back k ch = Some (stored_ch k ch) \<and> serial_ok (stored_ch k ch) \<and> sems_ok (stored_ch k ch) n q \<and>
    s_out (stored_ch k ch) = s_out k"
proof -
  have "sems_ok (stored_ch k ch) n q" using assms(6) by (simp add: sems_ok_def stored_ch_def)
  moreover have "serial_ok (stored_ch k ch)"
    using assms(1,2,4) stored_ch_window [OF assms(1,2), of ch]
    by (auto simp: serial_ok_def) (auto simp: stored_ch_def)
  ultimately show ?thesis
    using assms(3,5) by (simp add: push_back_def stored_ch_def Let_def)
qed

lemma push_newline:
  assumes "serial_ok k" and "s_tail k - s_head k < BUFFER_SIZE" and "s_tail k + 1 < 2 ^ 31"
    and "sems_ok k n q" and "q 0 = Some xs" and "- (2 ^ 31) \<le> sems k SerialSem"
  shows "\<exists>k' n'. push_back k NEWLINE = Some k' \<and> serial_ok k' \<and>
    sems_ok k' n' (q(0 \<mapsto> drop (length (line k) + 1) xs)) \<and>
    pend k' = pend k @ line k @ [NEWLINE] \<and> line k' = [] \<and> s_out k' = s_out k \<and>
    s_tail k' = s_tail k + 1 \<and> s_head k' = s_head k \<and> sems k SerialSem \<le> sems k' SerialSem"
proof -
  let ?k = "stored_ch k NEWLINE" and ?m = "s_tail k + 1 - s_clap k"
  have le: "s_head k \<le> s_clap k" "s_clap k \<le> s_tail k" "sems k SerialSem + int (s_head k) \<le> int (s_clap k)"
    using assms(1) by (simp_all add: serial_ok_def)
  have k: "sems_ok ?k n q" "sems ?k = sems k" using assms(4) by (simp_all add: sems_ok_def stored_ch_def)
  have "\<exists>k1 n1. foldM (\<lambda>k i. sem_v k SerialSem) ?k [0..<?m] = Some k1 \<and>
      sems_ok k1 n1 (q(0 \<mapsto> drop ?m xs)) \<and> apart_sem k1 = apart_sem ?k \<and>
      sems k1 = (sems ?k)(SerialSem := sems ?k SerialSem + int ?m)"
    by (rule sem_v_many [OF k(1) assms(5)]) (use assms(2,3,6) le k(2) in auto)
  then obtain k1 n1 where k1: "foldM (\<lambda>k i. sem_v k SerialSem) ?k [0..<?m] = Some k1"
    "sems_ok k1 n1 (q(0 \<mapsto> drop ?m xs))" "apart_sem k1 = apart_sem ?k"
    "sems k1 = (sems k)(SerialSem := sems k SerialSem + int ?m)" unfolding k(2) by blast
  let ?k' = "k1\<lparr>s_clap := s_tail k1\<rparr>"
  have sel: "s_buffer k1 = s_buffer ?k" "s_head k1 = s_head k" "s_tail k1 = s_tail k + 1"
    "s_out k1 = s_out k" using k1(3) by (simp_all add: apart_sem_def stored_ch_def)
  have "push_back k NEWLINE = Some ?k'"
    using k1(1) assms(3) by (simp add: push_back_def stored_ch_def Let_def)
  moreover have pend: "pend ?k' = pend k @ line k @ [NEWLINE]"
  proof -
    have "pend ?k' = window ?k (s_head k) (s_tail k + 1)"
      using window_cong [of ?k' ?k] sel by (simp add: pend_def)
    also have "\<dots> = pend ?k @ line ?k"
      using window_append [of "s_head k" "s_clap k" "s_tail k + 1" ?k] le by (simp add: pend_def line_def stored_ch_def)
    finally show ?thesis using stored_ch_window [OF assms(1,2), of NEWLINE] by simp
  qed
  moreover have "line ?k' = []" by (simp add: line_def window_def)
  moreover have "sems_ok ?k' n1 (q(0 \<mapsto> drop (length (line k) + 1) xs))"
    using k1(2) le by (simp add: sems_ok_def length_pend_line Suc_diff_le)
  moreover have "serial_ok ?k'"
    using assms(1,2) pend le sel k1(4) by (auto simp: serial_ok_def line_def window_def)
  ultimately show ?thesis using sel k1(4) by (intro exI [of _ ?k'] exI [of _ n1]) simp
qed

lemma pop_back_ok:
  assumes "serial_ok k" and "pop_back k = (c, k')"
  shows "serial_ok k'" and "pend k' = pend k" and "line k' = butlast (line k)"
    and "c \<noteq> 0 \<longleftrightarrow> line k \<noteq> []" and "s_out k' = s_out k" and "s_tail k' \<le> s_tail k"
    and "sems_ok k' n q = sems_ok k n q" and "sems k' = sems k" and "s_head k' = s_head k"
proof -
  have *: "window k (s_clap k) (s_tail k) =
      window k (s_clap k) (s_tail k - 1) @ [s_buffer k ((s_tail k - 1) mod BUFFER_SIZE)]" if "s_tail k > s_clap k"
    using window_snoc [of "s_clap k" "s_tail k - 1" k] that by simp
  have "serial_ok k' \<and> pend k' = pend k \<and> line k' = butlast (line k) \<and> (c \<noteq> 0 \<longleftrightarrow> line k \<noteq> [])"
  proof (cases "s_tail k > s_clap k")
    case True
    let ?x = "s_buffer k ((s_tail k - 1) mod BUFFER_SIZE)"
    have k': "k' = k\<lparr>s_tail := s_tail k - 1\<rparr>" "c = ?x" using assms(2) True by (simp_all add: pop_back_def)
    have l: "line k = line k' @ [?x]" unfolding line_def * [OF True] by (simp add: k'(1) window_def)
    have p: "pend k' = pend k" by (simp add: k'(1) pend_def window_def)
    have "serial_ok k'"
      using assms(1) True p l unfolding serial_ok_def by (auto simp: k'(1))
    then show ?thesis using l p k'(2) assms(1) by (auto simp: serial_ok_def)
  next
    case False
    then show ?thesis using assms by (auto simp: pop_back_def line_def window_def)
  qed
  then show "serial_ok k'" "pend k' = pend k" "line k' = butlast (line k)" "c \<noteq> 0 \<longleftrightarrow> line k \<noteq> []"
    by blast+
  show "s_out k' = s_out k" "s_tail k' \<le> s_tail k" "sems_ok k' n q = sems_ok k n q" "sems k' = sems k"
    "s_head k' = s_head k"
    using assms(2) by (auto simp: pop_back_def sems_ok_def split: if_splits)
qed

subsection \<open>The input handler refines the editor\<close>

lemma pop_front_ok:
  assumes "serial_ok k" and "pend k = ch # cs"
  shows "pop_front k = (ch, k\<lparr>s_head := s_head k + 1\<rparr>)" and "ch \<noteq> 0"
    and "pend (k\<lparr>s_head := s_head k + 1\<rparr>) = cs" and "line (k\<lparr>s_head := s_head k + 1\<rparr>) = line k"
proof -
  have lt: "s_head k < s_clap k" using assms(2) length_pend_line(1) [of k] by simp
  have "ch = s_buffer k (s_head k mod BUFFER_SIZE)" "cs = window k (Suc (s_head k)) (s_clap k)"
    using assms(2) window_cons [OF lt, of k] by (simp_all add: pend_def)
  then show "pop_front k = (ch, k\<lparr>s_head := s_head k + 1\<rparr>)" "pend (k\<lparr>s_head := s_head k + 1\<rparr>) = cs"
    "line (k\<lparr>s_head := s_head k + 1\<rparr>) = line k"
    using lt by (simp_all add: pop_front_def pend_def line_def window_def)
  show "ch \<noteq> 0" using assms by (auto simp: serial_ok_def)
qed

definition console :: "kern \<Rightarrow> bytes \<times> bytes \<times> bytes" where
  "console k = (pend k, line k, s_out k)"

definition console_inv :: "nat \<Rightarrow> kern \<Rightarrow> (nat \<rightharpoonup> nat list) \<Rightarrow> nat list \<Rightarrow> bool" where
  "console_inv m k q xs \<longleftrightarrow> serial_ok k \<and> (\<exists>n. sems_ok k n (q(0 \<mapsto> xs))) \<and> - (2 ^ 31) \<le> sems k SerialSem \<and>
     s_tail k - s_head k + m \<le> BUFFER_SIZE \<and> s_tail k + m < 2 ^ 31"

lemma serial_handle_step:
  assumes "console_inv (Suc m) k q xs"
  shows "\<exists>k'. console_inv m k' q (drop (length (pend k') - length (pend k)) xs) \<and>
    length (pend k) \<le> length (pend k') \<and>
    console k' = edit [c] (console k) \<and>
    serial_handle k (c # input) = (if c = 0x1b then Some k' else serial_handle k' input)"
proof -
  obtain n where I: "serial_ok k" "sems_ok k n (q(0 \<mapsto> xs))" "- (2 ^ 31) \<le> sems k SerialSem"
    "s_tail k - s_head k + Suc m \<le> BUFFER_SIZE" "s_tail k + Suc m < 2 ^ 31"
    using assms by (auto simp: console_inv_def)
  have self: "console_inv m k q (drop 0 xs)" using I by (auto simp: console_inv_def)
  let ?ch = "if c = 13 then NEWLINE else c" and ?k = "putchar k (if c = 13 then NEWLINE else c)"
  consider (skip) "c = 0 \<or> c = 0x1b \<or>
        c \<noteq> 8 \<and> c \<noteq> 0x7f \<and> c \<noteq> 10 \<and> c \<noteq> 13 \<and> \<not> (32 \<le> c \<and> c < 127)"
    | (erase) "c = 8 \<or> c = 0x7f" | (newline) "c = 10 \<or> c = 13" | (char) "32 \<le> c" "c < 127"
    by blast
  then show ?thesis
  proof cases
    case skip
    then have "edit [c] (console k) = console k" by (elim disjE conjE) (auto simp: console_def)
    then show ?thesis using self skip by (intro exI [of _ k]) auto
  next
    case erase
    obtain d k1 where p: "pop_back k = (d, k1)" by (cases "pop_back k")
    note po = pop_back_ok [OF I(1) p]
    let ?k' = "if d \<noteq> 0 then putchar (putchar (putchar k1 8) 32) 8 else k1"
    have "console_inv m ?k' q xs" using I po by (auto simp: console_inv_def)
    then show ?thesis
      using erase p po by (intro exI [of _ ?k']) (auto simp: console_def)
  next
    case newline
    have P: "serial_ok ?k" "sems_ok ?k n (q(0 \<mapsto> xs))" "s_tail ?k - s_head ?k < BUFFER_SIZE" "s_tail ?k + 1 < 2 ^ 31"
      "- (2 ^ 31) \<le> sems ?k SerialSem" using I by simp_all
    obtain k' n' where k': "push_back ?k NEWLINE = Some k'" "serial_ok k'"
      "sems_ok k' n' (q(0 \<mapsto> xs, 0 \<mapsto> drop (length (line ?k) + 1) xs))"
      "pend k' = pend ?k @ line ?k @ [NEWLINE]" "line k' = []" "s_out k' = s_out ?k"
      "s_tail k' = s_tail ?k + 1" "s_head k' = s_head ?k" "sems ?k SerialSem \<le> sems k' SerialSem"
      using push_newline [OF P(1,3,4,2) _ P(5), of xs] by auto
    have "length (pend k') - length (pend k) = length (line k) + 1" using k'(4) by simp
    moreover have "console_inv m k' q (drop (length (line k) + 1) xs)"
      using k' I unfolding console_inv_def by (auto simp: fun_upd_upd simp del: fun_upd_apply)
    moreover have "serial_handle k (c # input) = serial_handle k' input" using newline k'(1) by auto
    ultimately show ?thesis using newline k'(4-6)
      by (intro exI [of _ k']) (auto simp: console_def)
  next
    case char
    have c: "c \<noteq> 0" "c \<noteq> 0x1b" "c \<noteq> 8" "c \<noteq> 0x7f" "c \<noteq> 13" "c \<noteq> 10" using char by auto
    let ?k = "putchar k c"
    have P: "serial_ok ?k" "s_tail ?k - s_head ?k < BUFFER_SIZE" "s_tail ?k + 1 < 2 ^ 31"
      "sems_ok ?k n (q(0 \<mapsto> xs))" using I by simp_all
    note pc = push_char [OF P(1-3) c(1,6) P(4)] and sw = stored_ch_window [OF P(1,2), of c]
    have "console_inv m (stored_ch ?k c) q xs"
      using pc I unfolding console_inv_def by (auto simp: stored_ch_def)
    moreover have "serial_handle k (c # input) = serial_handle (stored_ch ?k c) input"
      using c char pc by simp
    ultimately show ?thesis using c char pc sw
      by (intro exI [of _ "stored_ch ?k c"]) (auto simp: console_def)
  qed
qed

lemma edit_cons: "edit (c # cs) s = (if c = 0x1b then edit [c] s else edit cs (edit [c] s))"
  by (cases s) auto

lemma serial_handle_ok:
  "console_inv (length input) k q xs \<Longrightarrow>
   \<exists>k'. serial_handle k input = Some k' \<and> console k' = edit input (console k) \<and>
     console_inv 0 k' q (drop (length (pend k') - length (pend k)) xs) \<and> length (pend k) \<le> length (pend k')"
proof (induction input arbitrary: k xs)
  case Nil
  then show ?case by simp
next
  case (Cons c input)
  obtain k1 where k1: "console_inv (length input) k1 q (drop (length (pend k1) - length (pend k)) xs)"
    "length (pend k) \<le> length (pend k1)" "console k1 = edit [c] (console k)"
    "serial_handle k (c # input) = (if c = 0x1b then Some k1 else serial_handle k1 input)"
    using serial_handle_step [of "length input" k q xs c input] Cons.prems by auto
  show ?case
  proof (cases "c = 0x1b")
    case True
    moreover have "console_inv 0 k1 q (drop (length (pend k1) - length (pend k)) xs)"
      using k1(1) by (auto simp: console_inv_def)
    ultimately show ?thesis using k1(2-4) unfolding edit_cons [of c input] by auto
  next
    case False
    then show ?thesis using Cons.IH [OF k1(1)] k1(2-4)
      unfolding edit_cons [of c input] by auto
  qed
qed

text \<open>
  C15: for input that fits into the buffer, \<open>serial_handle\<close> is the line editor \<open>edit\<close>: what
  becomes ready to read, the unfinished line and the screen are those of the specification, and
  of the processes waiting for input exactly as many are woken, in order, as characters became
  ready.
\<close>

theorem serial_handle_edits_lines:
  assumes "serial_ok k" and "sems_ok k n q" and "q 0 = Some xs" and "- (2 ^ 31) \<le> sems k SerialSem"
    and "length (pend k) + length (line k) + length input \<le> BUFFER_SIZE"
    and "s_tail k + length input < 2 ^ 31"
  shows "\<exists>k' n'. serial_handle k input = Some k' \<and>
    (pend k', line k', s_out k') = edit input (pend k, line k, s_out k) \<and> serial_ok k' \<and>
    sems_ok k' n' (q(0 \<mapsto> drop (length (pend k') - length (pend k)) xs))"
proof -
  have "q(0 \<mapsto> xs) = q" using assms(3) by (auto simp: map_upd_triv)
  moreover have "s_tail k - s_head k = length (pend k) + length (line k)"
    using assms(1) by (auto simp: serial_ok_def length_pend_line)
  ultimately have "console_inv (length input) k q xs"
    using assms by (auto simp: console_inv_def)
  then show ?thesis
    using serial_handle_ok [of input k q xs] by (auto simp: console_def console_inv_def)
qed

text \<open>Typing \<open>lx\<close>, backspace, \<open>s\<close>, return.\<close>

theorem serial_handle_edits_lines_witness:
  "\<exists>k'. serial_handle (demo_kern {}) [108, 120, 8, 115, 13] = Some k' \<and>
     pend k' = [108, 115, 10] \<and> line k' = [] \<and> s_out k' = [108, 120, 8, 32, 8, 115, 10]"
proof -
  have z: "s_head (demo_kern {}) = 0" "s_tail (demo_kern {}) = 0" "s_clap (demo_kern {}) = 0"
    "s_out (demo_kern {}) = []" "sems (demo_kern {}) SerialSem = 0"
    by (simp_all add: demo_kern_def)
  have w: "pend (demo_kern {}) = []" "line (demo_kern {}) = []"
    by (simp_all add: pend_def line_def window_def z)
  then have "serial_ok (demo_kern {})" by (simp add: serial_ok_def z)
  then show ?thesis
    using serial_handle_edits_lines [OF _ demo_sems [of "{}"], of "[]" "[108, 120, 8, 115, 13]"] w z by auto
qed

text \<open>
  A read that finds a unit of \<open>serial_sem\<close> gets the oldest ready character; the assertion that
  the character is there cannot fail.
\<close>

lemma getchar_takes_oldest:
  assumes "serial_ok k" and "0 < sems k SerialSem" and "sems k SerialSem < 2 ^ 31"
  shows "\<exists>ch cs k1 k2. sem_p k SerialSem = Some (False, k1) \<and> getchar_tail k1 = Some (ch, k2) \<and>
    pend k = ch # cs \<and> pend k2 = cs \<and> line k2 = line k \<and> serial_ok k2 \<and> s_out k2 = s_out k"
proof -
  have "s_head k < s_clap k" using assms(1,2) by (auto simp: serial_ok_def)
  then obtain ch cs where c: "pend k = ch # cs" using length_pend_line(1) [of k] by (cases "pend k") auto
  let ?k1 = "k\<lparr>sems := (sems k)(SerialSem := sems k SerialSem - 1)\<rparr>"
  let ?k2 = "?k1\<lparr>s_head := s_head ?k1 + 1\<rparr>"
  have p: "sem_p k SerialSem = Some (False, ?k1)" using assms(2,3) by (simp add: sem_p_def set_value_def)
  have w: "pend ?k1 = ch # cs" "line ?k1 = line k" using c by (simp_all add: pend_def line_def window_def)
  then have ok: "serial_ok ?k1" using assms(1) c by (auto simp: serial_ok_def)
  note pf = pop_front_ok [OF ok w(1)]
  have "getchar_tail ?k1 = Some (ch, ?k2)" using pf(1,2) by (simp add: getchar_tail_def)
  moreover have "serial_ok ?k2"
    using assms(1) pf(3,4) w c \<open>s_head k < s_clap k\<close> by (auto simp: serial_ok_def)
  ultimately show ?thesis using p c pf(3,4) w(2)
    by (intro exI [of _ ch] exI [of _ cs] exI [of _ ?k1] exI [of _ ?k2]) simp
qed

lemma serial_printable:
  "32 \<le> c \<Longrightarrow> c < 127 \<Longrightarrow> s_tail k + 1 < 2 ^ 31 \<Longrightarrow>
   serial_handle k (c # cs) = serial_handle (stored_ch (putchar k c) c) cs"
  by (auto simp: push_back_def stored_ch_def Let_def putchar_def)

lemma serial_replicate:
  "32 \<le> c \<Longrightarrow> c < 127 \<Longrightarrow> s_tail k + n < 2 ^ 31 \<Longrightarrow>
   \<exists>k'. serial_handle k (replicate n c @ cs) = serial_handle k' cs \<and> s_tail k' = s_tail k + n \<and> s_head k' = s_head k"
proof (induction n arbitrary: k)
  case (Suc n)
  have "\<exists>k'. serial_handle (stored_ch (putchar k c) c) (replicate n c @ cs) = serial_handle k' cs \<and>
      s_tail k' = s_tail (stored_ch (putchar k c) c) + n \<and> s_head k' = s_head (stored_ch (putchar k c) c)"
    by (rule Suc.IH) (use Suc.prems in \<open>simp_all add: stored_ch_def\<close>)
  then show ?case using Suc.prems serial_printable [of c k "replicate n c @ cs"] by (auto simp: stored_ch_def)
qed auto

text \<open>
  The buffer has no check for its capacity. A line of 257 characters overwrites its own
  beginning: after the newline the first character read is the 257th typed.
\<close>

lemma serial_overflow_loses_input:
  "\<exists>k'. serial_handle (demo_kern {}) (replicate 256 65 @ [66]) = Some k' \<and>
     s_tail k' - s_head k' = 257 \<and> s_buffer k' (s_head k' mod BUFFER_SIZE) = 66"
proof -
  have z: "s_head (demo_kern {}) = 0" "s_tail (demo_kern {}) = 0" by (simp_all add: demo_kern_def)
  obtain k where k: "serial_handle (demo_kern {}) (replicate 256 65 @ [66]) = serial_handle k [66]"
    "s_tail k = 256" "s_head k = 0"
    using serial_replicate [of 65 "demo_kern {}" 256 "[66]"] z by auto
  have "serial_handle k [66] = Some (stored_ch (putchar k 66) 66)"
    by (subst serial_printable) (simp_all add: k(2))
  then show ?thesis using k
    by (intro exI [of _ "stored_ch (putchar k 66) 66"]) (simp del: serial_handle.simps, simp add: stored_ch_def)
qed

end
