(* ===== verification/KOps.thy ===== *)
theory KOps
  imports KSync SerialProps
begin

text \<open>
  The invariant under the operations on processes and tables: who runs, new processes, the end of a
  process and its burial, user semaphores, and the console's buffer.
\<close>

subsection \<open>Frames\<close>

text \<open>The synchronisation part when no status and no counter changes.\<close>

lemma sync_frame:
  assumes "sync_ok k t d n q w" and "\<And>p. status (pcb k' p) = status (pcb k p)"
    and "curr k' = curr k" "sems k' = sems k" "lists k' = lists k"
    and "\<And>p. p \<in> blocked k \<Longrightarrow> usems (pcb k' p) = usems (pcb k p)"
    and "\<And>u. 0 < usem_ref k' u \<Longrightarrow> q (head_no (UserSem u)) \<noteq> None"
    and "\<And>s. counted k s \<Longrightarrow> int (avail k' s) - d' s = int (avail k s) - d s"
  shows "sync_ok k' t d' n q w"
proof -
  note s = syncD [OF assms(1)]
  have eq: "active k' = active k" "blocked k' = blocked k" "pending k' = pending k"
    by (simp_all add: active_def blocked_def pending_def assms(2) fun_eq_iff)
  then have c: "counted k' = counted k" by (auto simp: counted_def fun_eq_iff split: sem_id.splits)
  have l: "q (head_no s') \<noteq> None" if "live k' s'" for s'
  proof (cases s')
    case (UserSem u)
    then show ?thesis using that assms(7) [of u] by (simp add: live_def)
  next
    case SerialSem
    then show ?thesis using s(2) by (auto simp: queues_ok_def live_def dest!: spec [of _ SerialSem])
  next
    case (ZombieSem p)
    then have "live k s'" using that eq(1) by (simp add: live_def)
    then show ?thesis using s(2) by (simp add: queues_ok_def)
  qed
  have "queues_ok k' n q w"
    using s(2) l unfolding queues_ok_def in_line_def assms(4,5) eq(2) c by blast
  moreover have "waits_ok k' t w" using s(3) assms(6) by (simp add: waits_ok_def eq)
  moreover have "counts_ok k' t d'" using s(4) assms(8) by (simp add: counts_ok_def c eq assms(4))
  moreover have "procs_ok k'" using s(1) by (simp add: procs_ok_def assms)
  ultimately show ?thesis by (simp add: sync_ok_def)
qed

lemma sync_live: "sync_ok k t d n q w \<Longrightarrow> 0 < usem_ref k u \<Longrightarrow> q (head_no (UserSem u)) \<noteq> None"
  by (auto simp: sync_ok_def queues_ok_def live_def dest!: spec [of _ "UserSem u"])

text \<open>A change of status that does not touch the wait lists.\<close>

lemma sync_status:
  assumes "sync_ok k t d n q w" and "active k p" and "p \<notin> blocked k" and "x \<notin> {UNUSED, ZOMBIE, BLOCKED}"
    and "x = RUNNING \<longrightarrow> p = curr k" and "\<And>c. c \<noteq> p \<Longrightarrow> t' c = t c"
    and "\<And>s. counted k s \<Longrightarrow> int (card (pending (set_status k p x) t' s)) + d' s = int (card (pending k t s)) + d s"
  shows "sync_ok (set_status k p x) t' d' n q w"
proof -
  note s = syncD [OF assms(1)]
  let ?k = "set_status k p x"
  have x: "x \<notin> {UNUSED, ZOMBIE}" using assms(4) by simp
  note st = sets_status [OF assms(2) x]
  have bl: "blocked ?k = blocked k" using assms(3,4) by (auto simp: blocked_def)
  have "queues_ok ?k n q w"
    using s(2) unfolding queues_ok_def in_line_def bl st by simp
  moreover have "waits_ok ?k t' w"
    using s(3) assms(3,6) unfolding waits_ok_def bl by (auto simp: set_status_def upd_proc_def)
  moreover have "counts_ok ?k t' d'"
    unfolding counts_ok_def st
  proof (intro allI impI)
    fix s' assume "counted k s'"
    then show "sems ?k s' = int (avail k s') - int (card (pending ?k t' s')) - d' s'"
      using s(4) assms(7) [of s'] by (simp add: counts_ok_def)
  qed
  moreover have "procs_ok ?k" by (rule procs_status [OF s(1) assms(2,5)])
  ultimately show ?thesis by (simp add: sync_ok_def)
qed

lemma sync_init:
  assumes "sync_ok k t d n q w" and "\<And>p. p \<in> blocked k \<Longrightarrow> w p \<noteq> s" and "\<not> counted k s"
  shows "sync_ok (sem_init k s v) t d n (q(head_no s \<mapsto> [])) w"
proof -
  note s = syncD [OF assms(1)]
  define l where "l = list_init (lists k) (sem_head s)"
  have k': "sem_init k s v = k\<lparr>sems := (sems k)(s := v), lists := l\<rparr>" by (simp add: sem_init_def l_def)
  have l: "pool_abs l n (q(head_no s \<mapsto> []))"
    unfolding l_def sem_head_no using s(2) by (intro wq.init_law) (simp add: queues_ok_def)
  have "queues_ok (sem_init k s v) n (q(head_no s \<mapsto> [])) w"
    unfolding queues_ok_def
  proof (intro conjI allI impI)
    fix s' xs assume a: "(q(head_no s \<mapsto> [])) (head_no s') = Some xs"
    show "in_line (sem_init k s v) w s' xs"
    proof (cases "s' = s")
      case True
      then show ?thesis using a assms(2,3) by (auto simp: in_line_def k')
    next
      case False
      then have "in_line k w s' xs"
        using a s(2) head_no_inj [of s' s] by (auto simp: queues_ok_def split: if_splits)
      then show ?thesis using False by (auto simp: in_line_def k')
    qed
  qed (use l s(2) in \<open>auto simp: k' queues_ok_def\<close>)
  moreover have "counts_ok (sem_init k s v) t d" using s(4) assms(3) by (auto simp: counts_ok_def k')
  moreover have "procs_ok (sem_init k s v)" "waits_ok (sem_init k s v) t w"
    using s(1,3) by (simp_all add: k' waits_ok_def)
  ultimately show ?thesis by (simp add: sync_ok_def)
qed

text \<open>The family tree when statuses stay.\<close>

lemma tree_frame:
  assumes "tree_ok k t" and "\<And>p. status (pcb k' p) = status (pcb k p)"
    and "\<And>p. parent (pcb k' p) = parent (pcb k p)" "\<And>p. child_num (pcb k' p) = child_num (pcb k p)"
  shows "tree_ok k' t"
proof -
  have "active k' = active k" "children k' = children k" "pending k' = pending k"
    by (simp_all add: active_def children_def pending_def assms(2,3) fun_eq_iff)
  then show ?thesis using assms(1) by (simp add: tree_ok_def assms(4))
qed

lemma input_frame:
  "s_head k' = s_head k \<Longrightarrow> s_clap k' = s_clap k \<Longrightarrow> s_tail k' = s_tail k \<Longrightarrow> s_buffer k' = s_buffer k \<Longrightarrow>
   input_ok k' = input_ok k"
  by (simp add: input_ok_def)

text \<open>Between interrupts, with a process running.\<close>

abbreviation settled :: "kern \<Rightarrow> bool" where
  "settled k \<equiv> kinv_at k (\<lambda>p. cont (pcb k p)) (\<lambda>_. 0) \<and> status (cur k) = RUNNING"

lemma kinv_settled: "\<forall>c. out \<noteq> Switch c \<Longrightarrow> kinv (k, out) = settled k"
  by (cases out) (auto simp: kinv_def agenda_def)

lemma kinv_switch:
  "kinv (k, Switch c) = (kinv_at k ((\<lambda>p. cont (pcb k p))(curr k := c)) (\<lambda>_. 0) \<and> status (cur k) \<noteq> RUNNING)"
  by (auto simp: kinv_def agenda_def)

lemma settled_cong: "core_state k' = core_state k \<Longrightarrow> settled k' = settled k"
  using kinv_at_cong [of k' k] agenda_cong [of k' k Iret] by (auto simp: agenda_def core_state_eq same_core_def)

subsection \<open>Who runs\<close>

lemma active_cur: "status (cur k) = RUNNING \<Longrightarrow> active k (curr k) \<and> curr k \<notin> blocked k \<and> curr k \<notin> pending k t s"
  by (simp add: active_def blocked_def pending_def)

lemma kinv_at_yield:
  assumes "kinv_at k t (\<lambda>_. 0)" and "status (cur k) = RUNNING" and "\<And>s. waits_on (curr k) c \<noteq> Some s"
  shows "kinv_at (proc_yield k) (t(curr k := c)) (\<lambda>_. 0)"
proof -
  note a = active_cur [OF assms(2)]
  obtain n q w where s: "sync_ok k t (\<lambda>_. 0) n q w" using assms(1) by (auto simp: kinv_at_def)
  have p: "pending (proc_yield k) (t(curr k := c)) s = pending k t s" for s
    using assms(2,3) by (auto simp: pending_def proc_yield_def)
  have "sync_ok (proc_yield k) (t(curr k := c)) (\<lambda>_. 0) n q w"
    unfolding proc_yield_def by (rule sync_status [OF s]) (use a p in \<open>simp_all add: proc_yield_def\<close>)
  moreover have "tree_ok (proc_yield k) (t(curr k := c))"
    using assms(1) a p unfolding proc_yield_def by (intro tree_status) (auto simp: kinv_at_def)
  moreover have "tables_ok (proc_yield k)" "input_ok (proc_yield k)"
    using assms(1) a by (simp_all add: kinv_at_def proc_yield_def rest_status)
  ultimately show ?thesis by (auto simp: kinv_at_def)
qed

lemma yield_kinv:
  assumes "settled k" and "\<And>s. waits_on (curr k) c \<noteq> Some s"
  shows "kinv (proc_yield k, Switch c)"
proof -
  have "cont (pcb (proc_yield k) p) = cont (pcb k p)" for p by (simp add: proc_yield_def set_status_def upd_proc_def)
  then show ?thesis using kinv_at_yield [OF _ _ assms(2)] assms(1)
    by (simp add: kinv_switch) (simp add: proc_yield_def)
qed

text \<open>The scheduler's choice takes what it waited for with it, as a debt.\<close>

lemma kinv_at_run:
  assumes "kinv_at k t (\<lambda>_. 0)" and "status (pcb k p) = READY" and "status (cur k) \<noteq> RUNNING" and "p < PROC_NUM"
  shows "kinv_at (proc_run k p) t (\<lambda>s. if waits_on p (t p) = Some s then 1 else 0)"
proof -
  obtain n q w where s: "sync_ok k t (\<lambda>_. 0) n q w" using assms(1) by (auto simp: kinv_at_def)
  let ?k = "set_status (k\<lparr>curr := p\<rparr>) p RUNNING" and ?d = "\<lambda>s. if waits_on p (t p) = Some s then 1 else 0 :: int"
  have nr: "status (pcb k c) \<noteq> RUNNING" for c using s assms(3) by (auto simp: sync_ok_def procs_ok_def)
  have sy: "active (k\<lparr>curr := p\<rparr>) = active k" "blocked (k\<lparr>curr := p\<rparr>) = blocked k" "pending (k\<lparr>curr := p\<rparr>) = pending k"
    "children (k\<lparr>curr := p\<rparr>) = children k" "avail (k\<lparr>curr := p\<rparr>) = avail k" "counted (k\<lparr>curr := p\<rparr>) = counted k"
    "live (k\<lparr>curr := p\<rparr>) = live k"
    by (auto simp: sets_defs fun_eq_iff split: sem_id.splits)
  have s1: "sync_ok (k\<lparr>curr := p\<rparr>) t (\<lambda>_. 0) n q w"
    using s nr assms(4) unfolding sync_ok_def queues_ok_def in_line_def waits_ok_def counts_ok_def procs_ok_def sy
    by simp
  have t1: "tree_ok (k\<lparr>curr := p\<rparr>) t" "tables_ok (k\<lparr>curr := p\<rparr>)" "input_ok (k\<lparr>curr := p\<rparr>)"
    using assms(1) by (simp_all add: kinv_at_def tree_ok_def tables_ok_def input_ok_def holders_def sy)
  have a: "active (k\<lparr>curr := p\<rparr>) p" "p \<notin> blocked (k\<lparr>curr := p\<rparr>)" using assms(2) by (simp_all add: active_def blocked_def)
  have pe: "pending ?k t s' = pending k t s' - {p}" for s' using assms(2) by (auto simp: pending_def)
  have pin: "p \<in> pending k t s' \<longleftrightarrow> waits_on p (t p) = Some s'" for s' using assms(2) by (simp add: pending_def)
  have fin: "finite (pending k t s')" for s' using finite_sets(3) s by (simp add: sync_ok_def)
  have "int (card (pending ?k t s')) + ?d s' = int (card (pending k t s'))" for s'
    using pin [of s'] card_Suc_Diff1 [OF fin [of s'], of p] by (auto simp: pe)
  then have "sync_ok ?k t ?d n q w"
    by (intro sync_status [OF s1 a]) (simp_all add: sy)
  moreover have "tree_ok ?k t" by (rule tree_status [OF a(1) _ t1(1)]) (auto simp: pe sy)
  moreover have "tables_ok ?k" "input_ok ?k" using a(1) t1 by (simp_all add: rest_status)
  ultimately have "kinv_at ?k t ?d" by (auto simp: kinv_at_def)
  moreover have "core_state (proc_run k p) = core_state ?k" by (simp add: core_state_eq proc_run_def Let_def set_status_def upd_proc_def)
  ultimately show ?thesis using kinv_at_cong by blast
qed

subsection \<open>The console\<close>

text \<open>Moving the counters of the buffer.\<close>

lemma kinv_at_buffer:
  assumes "kinv_at k t d" and "input_ok k'" and "k' = k\<lparr>s_head := h, s_clap := c, s_tail := z, s_buffer := b\<rparr>"
    and "int (c - h) - d' SerialSem = int (s_clap k - s_head k) - d SerialSem" and "\<And>p. d' (ZombieSem p) = d (ZombieSem p)"
  shows "kinv_at k' t d'"
proof -
  obtain n q w where s: "sync_ok k t d n q w" using assms(1) by (auto simp: kinv_at_def)
  have f: "pcb k' = pcb k" "curr k' = curr k" "sems k' = sems k" "lists k' = lists k" "usem_ref k' = usem_ref k"
    "s_clap k' = c" "s_head k' = h" by (simp_all add: assms(3))
  have z: "zombies k' = zombies k" by (simp add: f zombies_def fun_eq_iff)
  have "sync_ok k' t d' n q w"
  proof (rule sync_frame [OF s])
    show "int (avail k' s') - d' s' = int (avail k s') - d s'" if "counted k s'" for s'
      using that assms(4,5) by (cases s') (simp_all add: avail_def counted_def z f)
    show "q (head_no (UserSem u)) \<noteq> None" if "0 < usem_ref k' u" for u using sync_live [OF s] that f by metis
  qed (simp_all add: f)
  moreover have "tree_ok k' t" by (rule tree_frame [of k]) (use assms(1) in \<open>simp_all add: kinv_at_def f\<close>)
  moreover have "tables_ok k'" using assms(1) by (simp add: kinv_at_def tables_ok_def holders_def active_def f)
  ultimately show ?thesis using assms(2) by (auto simp: kinv_at_def)
qed

lemma buffer_same: "k\<lparr>s_head := s_head k\<rparr> = k" "k\<lparr>s_clap := s_clap k\<rparr> = k" "k\<lparr>s_tail := s_tail k\<rparr> = k"
  "k\<lparr>s_buffer := s_buffer k\<rparr> = k"
  by simp_all

text \<open>A character is there for whoever got past \<open>sem_p\<close>: the assertion of \<open>getchar\<close> never fails.\<close>

lemma getchar_tail_ok:
  assumes "kinv_at k t d" and "0 < d SerialSem"
  shows "\<exists>ch k'. getchar_tail k = Some (ch, k') \<and> k' = k\<lparr>s_head := s_head k + 1\<rparr> \<and>
    kinv_at k' t (d(SerialSem := d SerialSem - 1))"
proof -
  obtain n q w where s: "sync_ok k t d n q w" using assms(1) by (auto simp: kinv_at_def)
  have h: "s_head k < s_clap k" using debt_covered [OF s, of SerialSem] assms(2) by (simp add: counted_def avail_def)
  have i: "s_clap k \<le> s_tail k" "\<And>i. s_head k \<le> i \<Longrightarrow> i < s_tail k \<Longrightarrow> s_buffer k (i mod BUFFER_SIZE) \<noteq> 0"
    using assms(1) by (auto simp: kinv_at_def input_ok_def)
  let ?k = "k\<lparr>s_head := s_head k + 1\<rparr>"
  have "getchar_tail k = Some (s_buffer k (s_head k mod BUFFER_SIZE), ?k)"
    using h i(2) [of "s_head k"] i(1) by (simp add: getchar_tail_def pop_front_def)
  moreover have "kinv_at ?k t (d(SerialSem := d SerialSem - 1))"
  proof (rule kinv_at_buffer [OF assms(1)])
    show "?k = k\<lparr>s_head := s_head k + 1, s_clap := s_clap k, s_tail := s_tail k, s_buffer := s_buffer k\<rparr>" by simp
    show "input_ok ?k" using h i by (auto simp: input_ok_def)
  qed (use h in auto)
  ultimately show ?thesis by blast
qed

text \<open>What a handler keeps besides the invariant.\<close>

definition steady :: "kern \<Rightarrow> kern \<Rightarrow> bool" where
  "steady k k' \<longleftrightarrow> curr k' = curr k \<and> (\<forall>p. cont (pcb k' p) = cont (pcb k p)) \<and> pcb k' (curr k) = pcb k (curr k)"

lemma steady_refl [simp]: "steady k k"
  by (simp add: steady_def)

lemma steady_trans: "steady k1 k2 \<Longrightarrow> steady k2 k3 \<Longrightarrow> steady k1 k3"
  by (auto simp: steady_def)

lemma steady_settled:
  assumes "kinv_at k' (\<lambda>p. cont (pcb k p)) (\<lambda>_. 0)" and "steady k k'" and "status (cur k) = RUNNING"
  shows "settled k'"
proof -
  have "(\<lambda>p. cont (pcb k' p)) = (\<lambda>p. cont (pcb k p))" using assms(2) by (auto simp: steady_def)
  then show ?thesis using assms by (simp add: steady_def)
qed

lemma woken_steady: "woken k k' \<Longrightarrow> status (cur k) = RUNNING \<Longrightarrow> steady k k'"
  using woken_rest [of k k'] by (auto simp: steady_def blocked_def)

lemma sem_v_kinv_at:
  assumes "kinv_at k t d" and "live k s" and "sem_v k s = Some k'"
  shows "kinv_at k' t (d(s := d s - 1)) \<and> woken k k'"
proof -
  obtain n q w where s: "sync_ok k t d n q w" using assms(1) by (auto simp: kinv_at_def)
  then show ?thesis using sem_v_gives [OF s assms(2,3)] woken_rest [of k k'] assms(1) by (auto simp: kinv_at_def)
qed

lemma sem_v_many_kinv:
  "foldM (\<lambda>k i. sem_v k SerialSem) k is = Some k' \<Longrightarrow> kinv_at k t d \<Longrightarrow> status (cur k) = RUNNING \<Longrightarrow>
   kinv_at k' t (d(SerialSem := d SerialSem - int (length is))) \<and> steady k k' \<and>
   s_head k' = s_head k \<and> s_clap k' = s_clap k \<and> s_tail k' = s_tail k \<and> s_buffer k' = s_buffer k"
proof (induction "is" arbitrary: k d)
  case (Cons i "is")
  then obtain k1 where k1: "sem_v k SerialSem = Some k1" "foldM (\<lambda>k i. sem_v k SerialSem) k1 is = Some k'"
    by (auto simp: bind_eq_Some_conv)
  have g: "kinv_at k1 t (d(SerialSem := d SerialSem - 1))" "woken k k1"
    using sem_v_kinv_at [OF Cons.prems(2) _ k1(1)] by (simp_all add: live_def)
  have st: "steady k k1" using woken_steady [OF g(2) Cons.prems(3)] .
  then have "status (cur k1) = RUNNING" using Cons.prems(3) by (simp add: steady_def)
  note ih = Cons.IH [OF k1(2) g(1) this]
  have "(d(SerialSem := d SerialSem - 1)) (SerialSem := (d(SerialSem := d SerialSem - 1)) SerialSem - int (length is)) =
      d(SerialSem := d SerialSem - int (length (i # is)))" by auto
  then show ?case using ih steady_trans [OF st] woken_rest(12-15) [OF g(2)] by (simp del: fun_upd_apply)
qed simp

lemma push_back_kinv:
  assumes "push_back k ch = Some k'" and "kinv_at k t (\<lambda>_. 0)" and "status (cur k) = RUNNING" and "ch \<noteq> 0"
  shows "kinv_at k' t (\<lambda>_. 0) \<and> steady k k'"
proof -
  have i: "s_head k \<le> s_clap k" "s_clap k \<le> s_tail k"
    "\<And>i. s_head k \<le> i \<Longrightarrow> i < s_tail k \<Longrightarrow> s_buffer k (i mod BUFFER_SIZE) \<noteq> 0"
    using assms(2) by (auto simp: kinv_at_def input_ok_def)
  let ?k = "stored_ch k ch"
  have in1: "input_ok ?k"
    using i assms(4) by (auto simp: input_ok_def stored_ch_def less_Suc_eq)
  have k1: "kinv_at ?k t (\<lambda>_. 0)"
    by (rule kinv_at_buffer [OF assms(2) in1, where h = "s_head k" and c = "s_clap k" and z = "s_tail ?k" and b = "s_buffer ?k"])
      (auto simp: stored_ch_def)
  have st: "steady k ?k" "status (cur ?k) = RUNNING" using assms(3) by (auto simp: steady_def stored_ch_def)
  show ?thesis
  proof (cases "ch = NEWLINE")
    case True
    then obtain k2 where k2: "foldM (\<lambda>k i. sem_v k SerialSem) ?k [0..<s_tail ?k - s_clap ?k] = Some k2"
      "k' = k2\<lparr>s_clap := s_tail k2\<rparr>"
      using assms(1) by (auto simp: push_back_def stored_ch_def Let_def bind_eq_Some_conv split: if_splits)
    note m = sem_v_many_kinv [OF k2(1) k1 st(2)]
    have h: "s_head k2 = s_head k" "s_clap k2 = s_clap k" "s_tail k2 = s_tail k + 1" "s_buffer k2 = s_buffer ?k"
      using m by (simp_all add: stored_ch_def)
    have "kinv_at k' t (\<lambda>_. 0)"
    proof (rule kinv_at_buffer)
      show "kinv_at k2 t ((\<lambda>_. 0)(SerialSem := 0 - int (length [0..<s_tail ?k - s_clap ?k])))" using m by blast
      show "input_ok k'" using in1 i h by (auto simp: input_ok_def k2(2) stored_ch_def)
      show "k' = k2\<lparr>s_head := s_head k2, s_clap := s_tail k2, s_tail := s_tail k2, s_buffer := s_buffer k2\<rparr>"
        by (simp add: k2(2))
    qed (use i in \<open>simp_all add: h stored_ch_def\<close>)
    moreover have "steady k2 k'" by (simp add: steady_def k2(2))
    ultimately show ?thesis using m st(1) by (blast intro: steady_trans)
  next
    case False
    then have "k' = ?k" using assms(1) by (auto simp: push_back_def stored_ch_def Let_def split: if_splits)
    then show ?thesis using k1 st by simp
  qed
qed

lemma pop_back_kinv:
  assumes "pop_back k = (c, k')" and "kinv_at k t (\<lambda>_. 0)"
  shows "kinv_at k' t (\<lambda>_. 0) \<and> steady k k'"
proof (cases "s_tail k > s_clap k")
  case True
  then have k': "k' = k\<lparr>s_tail := s_tail k - 1\<rparr>" using assms(1) by (simp add: pop_back_def)
  have "input_ok k'" using assms(2) True by (auto simp: kinv_at_def input_ok_def k')
  then have "kinv_at k' t (\<lambda>_. 0)"
    by (rule kinv_at_buffer [OF assms(2), where h = "s_head k" and c = "s_clap k" and z = "s_tail k - 1" and b = "s_buffer k"])
      (simp_all add: k')
  then show ?thesis by (simp add: k' steady_def)
qed (use assms in \<open>simp add: pop_back_def\<close>)

lemma putchar_core [simp]: "core_state (putchar k c) = core_state k" "steady k (putchar k c)"
  by (simp_all add: putchar_def steady_def)

lemma serial_handle_kinv:
  "serial_handle k input = Some k' \<Longrightarrow> kinv_at k t (\<lambda>_. 0) \<Longrightarrow> status (cur k) = RUNNING \<Longrightarrow>
   kinv_at k' t (\<lambda>_. 0) \<and> steady k k'"
proof (induction k input rule: serial_handle.induct)
  case (2 k ch input)
  have pc: "kinv_at (putchar k c) t (\<lambda>_. 0) = kinv_at k t (\<lambda>_. 0)" for k c by (rule kinv_at_cong) simp
  have via: "kinv_at k' t (\<lambda>_. 0) \<and> steady k k'" if "kinv_at k1 t (\<lambda>_. 0)" "steady k k1"
    "kinv_at k1 t (\<lambda>_. 0) \<Longrightarrow> status (cur k1) = RUNNING \<Longrightarrow> kinv_at k' t (\<lambda>_. 0) \<and> steady k1 k'" for k1
    using that 2(7) by (auto intro: steady_trans simp: steady_def)
  consider "ch = 0" | "ch = 0x1b" | "ch = 8 \<or> ch = 0x7f" | "ch \<notin> {0, 0x1b, 8, 0x7f}" by blast
  then show ?case
  proof cases
    case 3
    obtain c k1 where p: "pop_back k = (c, k1)" by (cases "pop_back k")
    let ?k2 = "if c \<noteq> 0 then putchar (putchar (putchar k1 8) 32) 8 else k1"
    have "kinv_at ?k2 t (\<lambda>_. 0)" "steady k ?k2"
      using pop_back_kinv [OF p 2(6)] by (auto simp: pc) (auto simp: steady_def putchar_def)
    then show ?thesis by (rule via) (use 2(2) [OF _ _ 3 p [symmetric] refl] 2(5) 3 p in auto)
  next
    case 4
    define c where "c = (if ch = 13 then NEWLINE else ch)"
    show ?thesis
    proof (cases "c = NEWLINE \<or> 32 \<le> c \<and> c < 127")
      case True
      then obtain k1 where k1: "push_back (putchar k c) c = Some k1" "serial_handle k1 input = Some k'"
        using 2(5) 4 by (auto simp: bind_eq_Some_conv c_def Let_def)
      have "c \<noteq> 0" using 4 by (auto simp: c_def)
      then have "kinv_at k1 t (\<lambda>_. 0)" "steady k k1"
        using push_back_kinv [OF k1(1), of t] 2(6,7) by (auto simp: pc intro: steady_trans putchar_core(2)) (simp_all add: putchar_def steady_def)
      then show ?thesis by (rule via) (use 2(3) [OF _ _ _ c_def True k1(1) k1(2)] 4 in auto)
    next
      case False
      then show ?thesis using 2(4) [OF _ _ _ c_def False] 2(5-7) 4 by (auto simp: c_def Let_def split: if_splits)
    qed
  qed (use 2 in auto)
qed simp

end
