(* ===== verification/KTree.thy ===== *)
theory KTree
  imports KOps
begin

text \<open>
  The invariant under what changes the family and the tables: reaping a child, the user semaphores,
  \<open>fork\<close> and \<open>exit\<close>.
\<close>

subsection \<open>Reaping a child\<close>

text \<open>
  A process that got past \<open>sem_p\<close> on its \<open>zombie_sem\<close> finds a child that has ended: the assertion of
  \<open>sys_wait\<close> never fails.
\<close>

lemma zombie_found:
  assumes "kinv_at k t d" and "active k p" and "0 < d (ZombieSem p)"
  shows "\<exists>z. proc_findzombie k p = Some z"
proof -
  obtain n q w where s: "sync_ok k t d n q w" using assms(1) by (auto simp: kinv_at_def)
  have "0 < card (zombies k p)"
    using debt_covered [OF s, of "ZombieSem p"] assms(2,3) by (simp add: counted_def avail_def)
  then obtain z where "z \<in> zombies k p" by (auto simp: card_gt_0_iff)
  then have "z < PROC_NUM" "parent (pcb k z) = Some p \<and> status (pcb k z) = ZOMBIE"
    using s by (auto simp: zombies_def sync_ok_def procs_ok_def)
  then have "find (\<lambda>i. parent (pcb k i) = Some p \<and> status (pcb k i) = ZOMBIE) [0..<PROC_NUM] \<noteq> None"
    unfolding find_None_iff by (auto simp del: upt_rec_numeral)
  then show ?thesis by (auto simp: proc_findzombie_def)
qed

lemma kinv_at_reap:
  assumes "kinv_at k t d" and "d (ZombieSem (curr k)) = 1" and "status (cur k) = RUNNING" and "z \<in> zombies k (curr k)"
    and "k' = upd_proc (set_status k z UNUSED) (curr k) (\<lambda>pr. pr\<lparr>child_num := child_num pr - 1\<rparr>)"
  shows "kinv_at k' t (d(ZombieSem (curr k) := 0))"
proof -
  obtain n q w where s: "sync_ok k t d n q w" using assms(1) by (auto simp: kinv_at_def)
  let ?p = "curr k"
  have z: "status (pcb k z) = ZOMBIE" "parent (pcb k z) = Some ?p" "z \<noteq> ?p"
    using assms(3,4) by (auto simp: zombies_def)
  have f: "curr k' = curr k" "sems k' = sems k" "lists k' = lists k" "usem_ref k' = usem_ref k"
    "s_head k' = s_head k" "s_clap k' = s_clap k" "s_tail k' = s_tail k" "s_buffer k' = s_buffer k"
    "\<And>c. status (pcb k' c) = (if c = z then UNUSED else status (pcb k c))"
    "\<And>c. parent (pcb k' c) = parent (pcb k c)" "\<And>c. usems (pcb k' c) = usems (pcb k c)"
    "\<And>c. p_files (pcb k' c) = p_files (pcb k c)"
    "\<And>c. child_num (pcb k' c) = (if c = ?p then child_num (pcb k c) - 1 else child_num (pcb k c))"
    using z(3) by (auto simp: assms(5) upd_proc_def set_status_def)
  have a: "active k' = active k" "blocked k' = blocked k" "pending k' = pending k"
    using z(1) by (auto simp: active_def blocked_def pending_def f fun_eq_iff)
  then have h: "holders k' = holders k" by (simp add: holders_def f fun_eq_iff)
  have ch: "children k' c = children k c - {z}" "zombies k' c = zombies k c - {z}" for c
    by (auto simp: children_def zombies_def f)
  have zc: "z \<in> children k c \<longleftrightarrow> c = ?p" "z \<in> zombies k c \<longleftrightarrow> c = ?p" for c
    using z by (auto simp: children_def zombies_def)
  have c: "counted k' = counted k" "live k' = live k"
    by (auto simp: counted_def live_def a f fun_eq_iff split: sem_id.splits)
  note fin = finite_sets [OF syncD(1) [OF s]]
  note sd = syncD [OF s]
  have "counts_ok k' t (d(ZombieSem ?p := 0))"
    unfolding counts_ok_def c a
  proof (intro allI impI)
    fix s' assume "counted k s'"
    then have eq: "sems k s' = int (avail k s') - int (card (pending k t s')) - d s'"
      using sd(4) by (simp add: counts_ok_def)
    have "card (zombies k ?p) = Suc (card (zombies k ?p - {z}))"
      using card_Suc_Diff1 [OF fin(5), of z ?p] assms(4) by simp
    then have "int (avail k' s') - (d(ZombieSem ?p := 0)) s' = int (avail k s') - d s'"
      using assms(2) zc(2) by (cases s') (auto simp: avail_def f ch)
    then show "sems k' s' = int (avail k' s') - int (card (pending k t s')) - (d(ZombieSem ?p := 0)) s'"
      using eq f by simp
  qed
  moreover have "queues_ok k' n q w" using sd(2) unfolding queues_ok_def in_line_def a c f .
  moreover have "waits_ok k' t w" "procs_ok k'" using sd(1,3) by (auto simp: waits_ok_def procs_ok_def a f)
  ultimately have "sync_ok k' t (d(ZombieSem ?p := 0)) n q w" by (simp add: sync_ok_def)
  moreover have "tree_ok k' t"
    unfolding tree_ok_def
  proof (intro conjI allI impI ballI)
    have t: "tree_ok k t" using assms(1) by (simp add: kinv_at_def)
    show "active k' p" "c \<noteq> p" if "c \<in> children k' p" for p c
      using t that by (auto simp: tree_ok_def a ch)
    show "child_num (pcb k' p) = of_nat (card (children k' p))" if "active k' p" for p
    proof (cases "p = ?p")
      case True
      have "card (children k ?p) = Suc (card (children k ?p - {z}))"
        using card_Suc_Diff1 [OF fin(4), of z ?p] zc(1) by simp
      then show ?thesis using t that True by (simp add: tree_ok_def a f ch)
    next
      case False
      then show ?thesis using t that zc(1) [of p] by (simp add: tree_ok_def a f ch)
    qed
    show "children k' p \<noteq> {}" if "p \<in> pending k' t (ZombieSem p)" for p
    proof -
      have "p \<noteq> ?p" using that assms(3) by (auto simp: pending_def f split: if_splits)
      then have "children k' p = children k p" using zc(1) [of p] by (auto simp: ch)
      then show ?thesis using t that by (simp add: tree_ok_def a)
    qed
  qed
  moreover have "tables_ok k'" using assms(1) by (simp add: kinv_at_def tables_ok_def a f h)
  moreover have "input_ok k'" using assms(1) f by (simp add: kinv_at_def input_ok_def)
  ultimately show ?thesis by (auto simp: kinv_at_def)
qed

lemma wait_tail_kinv:
  assumes "wait_tail k a = Some (out, k')" and "kinv_at k (\<lambda>p. cont (pcb k p)) ((\<lambda>_. 0)(ZombieSem (curr k) := 1))"
    and "status (cur k) = RUNNING"
  shows "kinv (k', out)"
proof -
  obtain z v k2 where z: "proc_findzombie k (curr k) = Some z" "proc_free (k\<lparr>kvm := v\<rparr>) z = Some k2"
    "k' = upd_proc k2 (curr k2) (\<lambda>pr. pr\<lparr>child_num := child_num pr - 1\<rparr>)" "out = Ret (pid (pcb k z))"
    using assms(1) by (auto simp: wait_tail_def bind_eq_Some_conv Let_def split: option.splits)
  have zs: "z \<in> zombies k (curr k)" "z \<noteq> curr k"
    using z(1) assms(3) by (auto simp: proc_findzombie_def find_Some_iff zombies_def)
  obtain k1 where k1: "core_state k1 = core_state k" "k2 = set_status k1 z UNUSED"
    using z(2) zs by (auto simp: proc_free_def bind_eq_Some_conv zombies_def dest!: kq.vm_op_quiet)
  let ?k = "upd_proc (set_status k z UNUSED) (curr k) (\<lambda>pr. pr\<lparr>child_num := child_num pr - 1\<rparr>)"
  have "settled ?k"
  proof -
    have "(\<lambda>p. cont (pcb ?k p)) = (\<lambda>p. cont (pcb k p))" by (auto simp: upd_proc_def set_status_def)
    moreover have "status (cur ?k) = RUNNING" using assms(3) zs(2) by (simp add: upd_proc_def set_status_def)
    moreover have "kinv_at ?k (\<lambda>p. cont (pcb k p)) ((\<lambda>_. 0)(ZombieSem (curr k) := 1, ZombieSem (curr k) := 0))"
      by (rule kinv_at_reap [OF assms(2) _ assms(3) zs(1)]) auto
    moreover have "((\<lambda>_. 0)(ZombieSem (curr k) := 1, ZombieSem (curr k) := 0)) = (\<lambda>_. 0 :: int)" by auto
    ultimately show ?thesis by simp
  qed
  moreover have "core_state k' = core_state ?k"
  proof -
    have c: "curr k2 = curr k" using k1 by (simp add: core_state_eq)
    have d: "core_state k2 = core_state (set_status k z UNUSED)"
      unfolding k1(2) set_status_def by (rule core_state_upd_proc [OF k1(1)]) (simp add: same_core_def)
    show ?thesis unfolding z(3) c by (rule core_state_upd_proc [OF d]) (simp add: same_core_def)
  qed
  ultimately show ?thesis using settled_cong [of k' ?k] z(4) by (simp add: kinv_settled)
qed

subsection \<open>Holders of user semaphores\<close>

lemma count_list_update:
  "i < length xs \<Longrightarrow> count_list (xs[i := y]) z + (if xs ! i = z then 1 else 0) =
   count_list xs z + (if y = z then 1 else 0)"
proof (induction xs arbitrary: i)
  case (Cons x xs)
  show ?case
  proof (cases i)
    case (Suc j)
    then show ?thesis using Cons.IH [of j] Cons.prems by (simp split: if_splits)
  qed (use Cons.prems in simp)
qed simp

text \<open>One active process changes its table.\<close>

lemma holders_one:
  assumes "finite {p. active k p}" and "active k p" and "active k' = active k"
    and "\<And>c. c \<noteq> p \<Longrightarrow> usems (pcb k' c) = usems (pcb k c)"
  shows "holders k' u + count_list (usems (pcb k p)) (Some u) = holders k u + count_list (usems (pcb k' p)) (Some u)"
proof -
  have "holders k u = count_list (usems (pcb k p)) (Some u) + (\<Sum>c\<in>{p. active k p} - {p}. count_list (usems (pcb k c)) (Some u))"
    unfolding holders_def by (rule sum.remove) (use assms in auto)
  moreover have "holders k' u = count_list (usems (pcb k' p)) (Some u) + (\<Sum>c\<in>{p. active k p} - {p}. count_list (usems (pcb k' c)) (Some u))"
    unfolding holders_def assms(3) by (rule sum.remove) (use assms in auto)
  moreover have "(\<Sum>c\<in>{p. active k p} - {p}. count_list (usems (pcb k' c)) (Some u)) =
      (\<Sum>c\<in>{p. active k p} - {p}. count_list (usems (pcb k c)) (Some u))"
    by (rule sum.cong) (use assms(4) in auto)
  ultimately show ?thesis by simp
qed

lemma held_ref:
  assumes "tables_ok k" and "procs_ok k" and "active k p" and "Some u \<in> set (usems (pcb k p))"
  shows "0 < usem_ref k u"
proof -
  have "0 < count_list (usems (pcb k p)) (Some u)" using assms(4) count_list_0_iff by (metis gr0I)
  also have "\<dots> \<le> holders k u"
    unfolding holders_def by (rule member_le_sum) (use assms finite_sets(1) in auto)
  finally show ?thesis using assms(1) by (simp add: tables_ok_def)
qed

text \<open>No process stands in line at a semaphore that nobody holds.\<close>

lemma unheld_line_empty:
  assumes "sync_ok k t d n q w" and "tables_ok k" and "usem_ref k u = 0" and "p \<in> blocked k"
  shows "w p \<noteq> UserSem u"
proof
  assume "w p = UserSem u"
  then have "Some u \<in> set (usems (pcb k p))"
    using assms(1,4) by (force simp: sync_ok_def waits_ok_def stands_at_def)
  then show False using held_ref [OF assms(2) syncD(1) [OF assms(1)], of p u] assms(3,4)
    by (simp add: active_def blocked_def)
qed

subsection \<open>User semaphores\<close>

text \<open>The current process changes its table, and the count follows.\<close>

lemma kinv_at_table:
  assumes "kinv_at k t d" and "status (cur k) = RUNNING"
    and "pcb k' = (pcb k)(curr k := (cur k)\<lparr>usems := us\<rparr>)" and "usem_ref k' = ref"
    and "curr k' = curr k" "s_head k' = s_head k" "s_clap k' = s_clap k" "s_tail k' = s_tail k" "s_buffer k' = s_buffer k"
    and "length us = MAX_USEM" and "\<And>u. Some u \<in> set us \<Longrightarrow> u < USER_SEM_NUM"
    and "\<And>u. ref u = usem_ref k u + int (count_list us (Some u)) - int (count_list (usems (cur k)) (Some u))"
    and "sync_ok k' t d n q w"
  shows "kinv_at k' t d"
proof -
  note a = active_cur [OF assms(2)]
  obtain n1 q1 w1 where s: "sync_ok k t d n1 q1 w1" using assms(1) by (auto simp: kinv_at_def)
  have tb: "tables_ok k" "tree_ok k t" using assms(1) by (simp_all add: kinv_at_def)
  have f: "\<And>c. status (pcb k' c) = status (pcb k c)" "\<And>c. parent (pcb k' c) = parent (pcb k c)"
    "\<And>c. child_num (pcb k' c) = child_num (pcb k c)" "\<And>c. p_files (pcb k' c) = p_files (pcb k c)"
    "\<And>c. usems (pcb k' c) = (if c = curr k then us else usems (pcb k c))"
    by (simp_all add: assms(3))
  have ac: "active k' = active k" by (simp add: active_def f fun_eq_iff)
  have ho: "int (holders k' u) = ref u" for u
    using holders_one [OF finite_sets(1) [OF syncD(1) [OF s]] conjunct1 [OF a] ac, of u] f(5) assms(12) [of u] tb(1)
    by (simp add: tables_ok_def)
  have "tables_ok k'"
    using tb(1) assms(10,11) ho unfolding tables_ok_def ac assms(4) f by auto
  moreover have "tree_ok k' t" by (rule tree_frame [OF tb(2)]) (simp_all add: f)
  moreover have "input_ok k'" using assms(1) input_frame [of k' k] assms(6-9) by (simp add: kinv_at_def)
  ultimately show ?thesis using assms(13) by (auto simp: kinv_at_def)
qed

lemma table_settled:
  assumes "kinv_at k' (\<lambda>p. cont (pcb k p)) (\<lambda>_. 0)" and "status (cur k) = RUNNING" and "curr k' = curr k"
    and "pcb k' = (pcb k)(curr k := (cur k)\<lparr>usems := us\<rparr>)"
  shows "settled k'"
proof -
  have "(\<lambda>p. cont (pcb k' p)) = (\<lambda>p. cont (pcb k p))" by (auto simp: assms(4))
  then show ?thesis using assms by simp
qed

lemma free_slot_some:
  assumes "free_slot xs n \<noteq> - 1" and "n < 2 ^ 31"
  shows "unat (free_slot xs n) < n \<and> xs ! unat (free_slot xs n) = None"
proof (cases "find (\<lambda>i. xs ! i = None) [0..<n]")
  case (Some i)
  then have "i < n" "xs ! i = None" by (auto simp: find_Some_iff)
  then show ?thesis using assms(2) Some by (simp add: free_slot_def unat_of_nat32)
qed (use assms in \<open>simp add: free_slot_def\<close>)

lemma get_slot_some: "get_slot xs n i = Some u \<Longrightarrow> unat i < n \<and> xs ! unat i = Some u"
proof -
  assume a: "get_slot xs n i = Some u"
  then have "0 \<le> sint i" "sint i < int n" "xs ! unat i = Some u" by (auto simp: get_slot_def split: if_splits)
  moreover have "sint i = int (unat i)" by (rule sint_nonneg) fact
  ultimately show ?thesis by (metis of_nat_less_iff)
qed

lemma sys_sem_open_kinv:
  assumes "sys_sem_open k v = (out, k')" and "settled k"
  shows "kinv (k', out)"
proof -
  let ?i = "proc_allocusem k (curr k)"
  have run: "status (cur k) = RUNNING" and ki: "kinv_at k (\<lambda>p. cont (pcb k p)) (\<lambda>_. 0)" using assms(2) by simp_all
  note a = active_cur [OF run]
  obtain n q w where s: "sync_ok k (\<lambda>p. cont (pcb k p)) (\<lambda>_. 0) n q w" using ki by (auto simp: kinv_at_def)
  have tb: "tables_ok k" using ki by (simp add: kinv_at_def)
  show ?thesis
  proof (cases "?i = - 1 \<or> fst (usem_alloc k (sint v)) = None")
    case True
    then show ?thesis using assms
      by (auto simp: sys_sem_open_def usem_alloc_def kinv_settled Let_def split: option.splits if_splits)
  next
    case False
    then obtain u where u: "find (\<lambda>i. usem_ref k i = 0) [0..<USER_SEM_NUM] = Some u"
      by (auto simp: usem_alloc_def split: option.splits)
    then have u0: "usem_ref k u = 0" "u < USER_SEM_NUM" by (auto simp: find_Some_iff)
    let ?us = "(usems (cur k))[unat ?i := Some u]" and ?ref = "(usem_ref k)(u := 1)"
    let ?k1 = "sem_init k (UserSem u) (sint v)"
    have k': "k' = set_usem (?k1\<lparr>usem_ref := ?ref\<rparr>) ?i (Some u)" "out = Ret ?i"
      using assms(1) False u by (simp_all add: sys_sem_open_def usem_alloc_def Let_def)
    have len: "length (usems (cur k)) = MAX_USEM" and bound: "\<And>c. Some c \<in> set (usems (cur k)) \<Longrightarrow> c < USER_SEM_NUM"
      using tb a by (auto simp: tables_ok_def)
    have i: "unat ?i < MAX_USEM" "usems (cur k) ! unat ?i = None"
      using free_slot_some [of "usems (cur k)" MAX_USEM] False by (auto simp: proc_allocusem_def)
    have f: "pcb k' = (pcb k)(curr k := (cur k)\<lparr>usems := ?us\<rparr>)" "usem_ref k' = ?ref" "curr k' = curr k"
      "s_head k' = s_head k" "s_clap k' = s_clap k" "s_tail k' = s_tail k" "s_buffer k' = s_buffer k"
      "sems k' = sems ?k1" "lists k' = lists ?k1"
      by (auto simp: k' set_usem_def upd_proc_def sem_init_def)
    have st: "\<And>p. status (pcb k' p) = status (pcb k p)" "\<And>p. parent (pcb k' p) = parent (pcb k p)"
      by (simp_all add: f(1))
    have eq: "\<And>p. status (pcb ?k1 p) = status (pcb k p)" "\<And>p. usems (pcb ?k1 p) = usems (pcb k p)"
      "curr ?k1 = curr k" "\<And>p. parent (pcb ?k1 p) = parent (pcb k p)" "s_head ?k1 = s_head k" "s_clap ?k1 = s_clap k"
      by (simp_all add: sem_init_def)
    have av: "avail k' = avail ?k1" by (simp add: avail_def zombies_def st eq f(4,5) fun_eq_iff cong: sem_id.case_cong)
    have s1: "sync_ok ?k1 (\<lambda>p. cont (pcb k p)) (\<lambda>_. 0) n (q(head_no (UserSem u) \<mapsto> [])) w"
      by (rule sync_init [OF s]) (use unheld_line_empty [OF s tb u0(1)] in \<open>auto simp: counted_def\<close>)
    have s2: "sync_ok k' (\<lambda>p. cont (pcb k p)) (\<lambda>_. 0) n (q(head_no (UserSem u) \<mapsto> [])) w"
    proof (rule sync_frame [OF s1])
      fix c assume "0 < usem_ref k' c"
      then show "(q(head_no (UserSem u) \<mapsto> [])) (head_no (UserSem c)) \<noteq> None"
        using sync_live [OF s, of c] by (auto simp: f split: if_splits)
    next
      fix p assume "p \<in> blocked ?k1"
      then show "usems (pcb k' p) = usems (pcb ?k1 p)" using run by (auto simp: f eq blocked_def)
    qed (auto simp: f eq av)
    have cnt: "int (count_list ?us (Some c)) = int (count_list (usems (cur k)) (Some c)) + (if c = u then 1 else 0)" for c
      using count_list_update [of "unat ?i" "usems (cur k)" "Some u" "Some c"] i len by auto
    have none: "count_list (usems (cur k)) (Some u) = 0"
      using held_ref [OF tb syncD(1) [OF s] conjunct1 [OF a], of u] u0(1) by (auto simp: count_list_0_iff)
    have "kinv_at k' (\<lambda>p. cont (pcb k p)) (\<lambda>_. 0)"
    proof (rule kinv_at_table [OF ki run f(1-7)])
      show "c < USER_SEM_NUM" if "Some c \<in> set ?us" for c
        using that bound u0(2) set_update_subset_insert [of "usems (cur k)" "unat ?i" "Some u"] by auto
      show "?ref c = usem_ref k c + int (count_list ?us (Some c)) - int (count_list (usems (cur k)) (Some c))" for c
        using cnt [of c] u0(1) by simp
    qed (use len s2 in auto)
    then have "settled k'" by (rule table_settled [OF _ run f(3) f(1)])
    then show ?thesis by (simp add: kinv_settled k'(2))
  qed
qed

lemma sys_sem_close_kinv:
  assumes "sys_sem_close k i = (out, k')" and "settled k"
  shows "kinv (k', out)"
proof (cases "proc_getusem k (curr k) i")
  case None
  then show ?thesis using assms by (auto simp: sys_sem_close_def kinv_settled)
next
  case (Some u)
  have run: "status (cur k) = RUNNING" and ki: "kinv_at k (\<lambda>p. cont (pcb k p)) (\<lambda>_. 0)" using assms(2) by simp_all
  note a = active_cur [OF run]
  obtain n q w where s: "sync_ok k (\<lambda>p. cont (pcb k p)) (\<lambda>_. 0) n q w" using ki by (auto simp: kinv_at_def)
  have tb: "tables_ok k" using ki by (simp add: kinv_at_def)
  let ?us = "(usems (cur k))[unat i := None]" and ?ref = "(usem_ref k)(u := usem_ref k u - 1)"
  have k': "k' = set_usem (k\<lparr>usem_ref := ?ref\<rparr>) i None" "out = Ret 0"
    using assms(1) Some by (simp_all add: sys_sem_close_def usem_close_def)
  have len: "length (usems (cur k)) = MAX_USEM" and bound: "\<And>c. Some c \<in> set (usems (cur k)) \<Longrightarrow> c < USER_SEM_NUM"
      using tb a by (auto simp: tables_ok_def)
  have i: "unat i < MAX_USEM" "usems (cur k) ! unat i = Some u"
    using get_slot_some [of "usems (cur k)" MAX_USEM i u] Some by (auto simp: proc_getusem_def)
  have f: "pcb k' = (pcb k)(curr k := (cur k)\<lparr>usems := ?us\<rparr>)" "usem_ref k' = ?ref" "curr k' = curr k"
    "s_head k' = s_head k" "s_clap k' = s_clap k" "s_tail k' = s_tail k" "s_buffer k' = s_buffer k"
    "sems k' = sems k" "lists k' = lists k"
    by (auto simp: k' set_usem_def upd_proc_def)
  have st: "\<And>p. status (pcb k' p) = status (pcb k p)" "\<And>p. parent (pcb k' p) = parent (pcb k p)"
    by (simp_all add: f(1))
  have av: "avail k' = avail k" by (simp add: avail_def zombies_def st f(4,5) fun_eq_iff cong: sem_id.case_cong)
  have s2: "sync_ok k' (\<lambda>p. cont (pcb k p)) (\<lambda>_. 0) n q w"
  proof (rule sync_frame [OF s])
    fix c assume "0 < usem_ref k' c"
    then show "q (head_no (UserSem c)) \<noteq> None"
      using sync_live [OF s, of c] by (auto simp: f split: if_splits)
  next
    fix p assume "p \<in> blocked k"
    then show "usems (pcb k' p) = usems (pcb k p)" using run by (auto simp: f blocked_def)
  qed (auto simp: f av)
  have cnt: "int (count_list ?us (Some c)) = int (count_list (usems (cur k)) (Some c)) - (if c = u then 1 else 0)" for c
    using count_list_update [of "unat i" "usems (cur k)" "None" "Some c"] i len by (auto split: if_splits)
  have "kinv_at k' (\<lambda>p. cont (pcb k p)) (\<lambda>_. 0)"
  proof (rule kinv_at_table [OF ki run f(1-7)])
    show "c < USER_SEM_NUM" if "Some c \<in> set ?us" for c
      using that bound set_update_subset_insert [of "usems (cur k)" "unat i" None] by auto
    show "?ref c = usem_ref k c + int (count_list ?us (Some c)) - int (count_list (usems (cur k)) (Some c))" for c
      using cnt [of c] by simp
  qed (use len s2 in auto)
  then have "settled k'" by (rule table_settled [OF _ run f(3) f(1)])
  then show ?thesis by (simp add: kinv_settled k'(2))
qed

end
