(* ===== verification/KFork.thy ===== *)
theory KFork
  imports KTree
begin

text \<open>The invariant under \<open>fork\<close> and \<open>exit\<close>.\<close>

subsection \<open>A new process\<close>

abbreviation (input) blank :: "proc \<Rightarrow> proc" where
  "blank \<equiv> \<lambda>pr. pr\<lparr>status := UNINIT, cont := InUser, parent := None, child_num := 0,
     usems := replicate MAX_USEM None, p_files := replicate MAX_UFILE None\<rparr>"

lemma proc_alloc_core:
  assumes "proc_alloc k = Some (Some i, k1)"
  shows "status (pcb k i) = UNUSED" and "0 < i" and "i < PROC_NUM"
    and "core_state k1 = core_state (upd_proc (sem_init k (ZombieSem i) 0) i blank)"
proof -
  obtain n pd v ks where f: "find (\<lambda>i. status (pcb k i) = UNUSED) [1..<PROC_NUM] = Some i"
    and k1: "k1 = upd_proc (sem_init (upd_proc ((upd_proc k i (\<lambda>pr. pr\<lparr>pid := next_pid k, status := UNINIT\<rparr>))\<lparr>next_pid := n, kvm := v\<rparr>) i
      (\<lambda>pr. pr\<lparr>pgdir := pd, brk := 0, kstack := ks, cont := InUser, parent := None, child_num := 0\<rparr>)) (ZombieSem i) 0) i
      (\<lambda>pr. pr\<lparr>cwd := None, usems := replicate MAX_USEM None, p_files := replicate MAX_UFILE None\<rparr>)"
    using assms by (auto simp: proc_alloc_def bind_eq_Some_conv Let_def split: option.splits)
  show "status (pcb k i) = UNUSED" "0 < i" "i < PROC_NUM" using f by (auto simp: find_Some_iff nth_append)
  show "core_state k1 = core_state (upd_proc (sem_init k (ZombieSem i) 0) i blank)"
    unfolding k1 core_state_eq by (simp add: upd_proc_def sem_init_def same_core_def)
qed

lemma proc_alloc_none: "proc_alloc k = Some (None, k1) \<Longrightarrow> k1 = k"
  by (auto simp: proc_alloc_def bind_eq_Some_conv Let_def split: option.splits)

lemma kinv_at_alloc:
  assumes "kinv_at k t (\<lambda>_. 0)" and "status (pcb k i) = UNUSED" and "i < PROC_NUM" and "i \<noteq> curr k"
  shows "kinv_at (upd_proc (sem_init k (ZombieSem i) 0) i blank) t (\<lambda>_. 0)" (is "kinv_at ?k t _")
proof -
  obtain n q w where s: "sync_ok k t (\<lambda>_. 0) n q w" using assms(1) by (auto simp: kinv_at_def)
  have tb: "tables_ok k" "tree_ok k t" "input_ok k" using assms(1) by (simp_all add: kinv_at_def)
  let ?k1 = "sem_init k (ZombieSem i) 0" and ?q = "q(head_no (ZombieSem i) \<mapsto> [])"
  have nw: "w p \<noteq> ZombieSem i" if "p \<in> blocked k" for p
    using s that assms(2) by (force simp: sync_ok_def waits_ok_def stands_at_def waits_on_def blocked_def split: kcont.splits)
  have s1: "sync_ok ?k1 t (\<lambda>_. 0) n ?q w"
    by (rule sync_init [OF s]) (use nw assms(2) in \<open>auto simp: counted_def active_def\<close>)
  note d = syncD [OF s1] and fin = finite_sets [OF syncD(1) [OF s]]
  have f: "curr ?k = curr k" "usem_ref ?k = usem_ref k" "sems ?k = sems ?k1" "lists ?k = lists ?k1" "curr ?k1 = curr k"
    "s_head ?k = s_head k" "s_clap ?k = s_clap k" "s_tail ?k = s_tail k" "s_buffer ?k = s_buffer k"
    "pcb ?k1 = pcb k" "usem_ref ?k1 = usem_ref k" "s_head ?k1 = s_head k" "s_clap ?k1 = s_clap k"
    "sems ?k1 (ZombieSem i) = 0"
    "\<And>c. status (pcb ?k c) = (if c = i then UNINIT else status (pcb k c))"
    "\<And>c. parent (pcb ?k c) = (if c = i then None else parent (pcb k c))"
    "\<And>c. child_num (pcb ?k c) = (if c = i then 0 else child_num (pcb k c))"
    "\<And>c. usems (pcb ?k c) = (if c = i then replicate MAX_USEM None else usems (pcb k c))"
    "\<And>c. length (p_files (pcb ?k c)) = (if c = i then MAX_UFILE else length (p_files (pcb k c)))"
    by (simp_all add: upd_proc_def sem_init_def)
  have no: "parent (pcb k c) \<noteq> Some i" if "status (pcb k c) \<noteq> UNUSED" for c
    using tb(2) that assms(2) by (auto simp: tree_ok_def children_def active_def)
  have a: "blocked ?k = blocked k" "pending ?k = pending k" "children ?k = children k" "zombies ?k = zombies k"
    "\<And>c. active ?k c = (active k c \<or> c = i)" "\<not> active k i" "children k i = {}" "zombies k i = {}" "\<And>s. i \<notin> pending k t s"
    using assms(2) no by (auto simp: active_def blocked_def pending_def children_def zombies_def f fun_eq_iff)
  have a1: "blocked ?k1 = blocked k" "pending ?k1 = pending k" "zombies ?k1 = zombies k" "active ?k1 = active k"
    by (auto simp: active_def blocked_def pending_def zombies_def f fun_eq_iff)
  have pz: "pending k t (ZombieSem i) = {}"
    using a(9) [of "ZombieSem i"] by (auto simp: pending_def waits_on_def split: kcont.splits)
  have cnt: "counted ?k s' \<longleftrightarrow> counted ?k1 s' \<or> s' = ZombieSem i" for s'
    by (auto simp: counted_def a a1 split: sem_id.splits)
  have "queues_ok ?k n ?q w"
    unfolding queues_ok_def
  proof (intro conjI allI impI)
    show "?q (head_no s') \<noteq> None" if "live ?k s'" for s'
    proof (cases "s' = ZombieSem i")
      case False
      then have "live ?k1 s'" using that by (auto simp: live_def a a1 f split: sem_id.splits)
      then show ?thesis using d(2) unfolding queues_ok_def by blast
    qed simp
  next
    fix s' xs assume x: "?q (head_no s') = Some xs"
    then have "in_line ?k1 w s' xs" using d(2) by (simp add: queues_ok_def)
    then show "in_line ?k w s' xs"
      using x f(14) by (cases "s' = ZombieSem i") (auto simp: in_line_def f(3) a a1 cnt)
  qed (use d(2) in \<open>auto simp: queues_ok_def f a a1\<close>)
  moreover have "waits_ok ?k t w"
    using d(3) assms(2) by (auto simp: waits_ok_def a a1 f blocked_def)
  moreover have "counts_ok ?k t (\<lambda>_. 0)"
    unfolding counts_ok_def
  proof (intro allI impI)
    fix s' assume "counted ?k s'"
    then show "sems ?k s' = int (avail ?k s') - int (card (pending ?k t s')) - 0"
      using d(4) f(14) a(8) pz unfolding cnt
      by (auto simp: counts_ok_def f(3) a a1 avail_def f(6,7,12,13) split: sem_id.splits)
  qed
  moreover have "procs_ok ?k" using d(1) assms(3) unfolding procs_ok_def f by auto
  ultimately have "sync_ok ?k t (\<lambda>_. 0) n ?q w" by (simp add: sync_ok_def)
  moreover have "tree_ok ?k t"
    using tb(2) a(5,7) pz unfolding tree_ok_def a(2,3) f by (auto simp: pending_def)
  moreover have "tables_ok ?k"
  proof -
    have "holders ?k u = holders k u" for u
    proof -
      have "{p. active ?k p} = insert i {p. active k p}" using a(5) by auto
      then have "holders ?k u = count_list (usems (pcb ?k i)) (Some u) + (\<Sum>p | active k p. count_list (usems (pcb ?k p)) (Some u))"
        unfolding holders_def using fin(1) a(6) by simp
      also have "(\<Sum>p | active k p. count_list (usems (pcb ?k p)) (Some u)) = holders k u"
        unfolding holders_def by (rule sum.cong) (use a(6) f in auto)
      finally show ?thesis by (simp add: f count_list_0_iff)
    qed
    then show ?thesis using tb(1) unfolding tables_ok_def a(5) f by auto
  qed
  moreover have "input_ok ?k" using tb(3) by (simp add: input_ok_def f)
  ultimately show ?thesis by (auto simp: kinv_at_def)
qed

subsection \<open>The copy of the tables\<close>

lemma dup_usems_copy:
  assumes "p \<noteq> curr k" and "usems (pcb k p) = replicate MAX_USEM None" and "length (usems (cur k)) = MAX_USEM"
    and "m \<le> MAX_USEM"
  shows "fold (\<lambda>i k. dup_usems k p i) [0..<m] k =
    (upd_proc k p (\<lambda>pr. pr\<lparr>usems := take m (usems (cur k)) @ replicate (MAX_USEM - m) None\<rparr>))
      \<lparr>usem_ref := \<lambda>u. usem_ref k u + int (count_list (take m (usems (cur k))) (Some u))\<rparr>"
  using assms(4)
proof (induction m)
  case 0
  have "(pcb k p)\<lparr>usems := replicate MAX_USEM None\<rparr> = pcb k p" by (simp flip: assms(2))
  then show ?case by (simp add: upd_proc_def del: upt_rec_numeral)
next
  case (Suc m)
  let ?xs = "usems (cur k)"
  have m: "m < length ?xs" "MAX_USEM - m = Suc (MAX_USEM - Suc m)" using Suc.prems assms(3) by auto
  have t: "take (Suc m) ?xs = take m ?xs @ [?xs ! m]" using m(1) by (rule take_Suc_conv_app_nth)
  have u: "(take m ?xs @ replicate (MAX_USEM - m) None)[m := Some u] = take m ?xs @ Some u # replicate (MAX_USEM - Suc m) None" for u
    unfolding m(2) using m(1) by (simp add: list_update_append)
  have n: "take m ?xs @ replicate (MAX_USEM - m) None = take m ?xs @ None # replicate (MAX_USEM - Suc m) None"
    unfolding m(2) by simp
  note ih = Suc.IH [OF Suc_leD [OF Suc.prems]]
  show ?case
  proof (cases "?xs ! m")
    case None
    have "fold (\<lambda>i k. dup_usems k p i) [0..<Suc m] k = fold (\<lambda>i k. dup_usems k p i) [0..<m] k"
      using None assms(1) unfolding upt_Suc_append [OF le0] fold_append comp_apply ih
      by (simp add: dup_usems_def upd_proc_def)
    then show ?thesis unfolding ih t n using None by simp
  next
    case (Some u)
    then show ?thesis using assms(1) unfolding upt_Suc_append [OF le0] fold_append comp_apply ih t
      by (simp add: dup_usems_def usem_dup_def upd_proc_def u fun_eq_iff algebra_simps)
  qed
qed

text \<open>The child's tables, its parent and the new counts, in one change.\<close>

definition heir :: "kern \<Rightarrow> nat \<Rightarrow> kern" where
  "heir k p = (upd_proc (upd_proc k p (\<lambda>pr. pr\<lparr>parent := Some (curr k), usems := usems (cur k)\<rparr>)) (curr k)
     (\<lambda>pr. pr\<lparr>child_num := child_num pr + 1\<rparr>))
     \<lparr>usem_ref := \<lambda>u. usem_ref k u + int (count_list (usems (cur k)) (Some u))\<rparr>"

lemma dup_files_core: "core_state (dup_files k p i) = core_state k"
proof (cases "p_files (cur k) ! i")
  case (Some f)
  have "core_state (upd_proc (fdup k f) p (\<lambda>pr. pr\<lparr>p_files := (p_files pr)[i := Some f]\<rparr>)) = core_state (fdup k f)"
    by (rule kq.obs_proc) simp
  then show ?thesis using Some by (simp add: dup_files_def fdup_def)
qed (simp add: dup_files_def)

lemma upd_proc_curr: "curr (upd_proc k p g) = curr k"
  by (simp add: upd_proc_def)

lemma proc_copycurr_core:
  assumes "proc_copycurr k p = Some k'" and "p \<noteq> curr k" and "usems (pcb k p) = replicate MAX_USEM None"
    and "length (usems (cur k)) = MAX_USEM"
  shows "core_state k' = core_state (heir k p)"
proof -
  obtain v k3 w where k3: "k3 = fold (\<lambda>i k. dup_files k p i) [0..<MAX_UFILE] (fold (\<lambda>i k. dup_usems k p i) [0..<MAX_USEM]
      (upd_proc (upd_proc (k\<lparr>kvm := v\<rparr>) p (\<lambda>pr. pr\<lparr>parent := Some (curr k)\<rparr>)) (curr k)
        (\<lambda>pr. pr\<lparr>child_num := child_num pr + 1\<rparr>)))" (is "k3 = fold _ _ (fold _ _ ?k1)")
    and k': "k' = upd_proc (k3\<lparr>kfs := idup (kfs k3) w\<rparr>) p (\<lambda>pr. pr\<lparr>cwd := Some w\<rparr>)"
    using assms(1)
    by (auto simp: proc_copycurr_def bind_eq_Some_conv Let_def vm_op_def upd_proc_curr split: option.splits)
  define k1 where "k1 = ?k1"
  have c1: "curr k1 = curr k" "usems (pcb k1 (curr k)) = usems (cur k)"
    "usems (pcb k1 p) = usems (pcb k p)" "usem_ref k1 = usem_ref k"
    using assms(2) by (simp_all add: upd_proc_def k1_def)
  have "core_state k' = core_state k3" unfolding k' by simp
  also have "\<dots> = core_state (fold (\<lambda>i k. dup_usems k p i) [0..<MAX_USEM] k1)"
    unfolding k3 k1_def by (rule kq.fold_quiet) (rule dup_files_core)
  also have "fold (\<lambda>i k. dup_usems k p i) [0..<MAX_USEM] k1 =
      (upd_proc k1 p (\<lambda>pr. pr\<lparr>usems := usems (cur k)\<rparr>))
        \<lparr>usem_ref := \<lambda>u. usem_ref k u + int (count_list (usems (cur k)) (Some u))\<rparr>"
    using dup_usems_copy [of p k1 MAX_USEM] assms(2-4) unfolding c1 by (simp del: upt_rec_numeral)
  also have "core_state \<dots> = core_state (heir k p)"
    using assms(2) by (simp add: core_state_eq upd_proc_def same_core_def heir_def k1_def)
  finally show ?thesis .
qed

lemma kinv_at_heir:
  assumes "kinv_at k t (\<lambda>_. 0)" and "p \<noteq> curr k" and "status (pcb k p) = UNINIT" and "status (cur k) = RUNNING"
    and "usems (pcb k p) = replicate MAX_USEM None" and "parent (pcb k p) = None"
  shows "kinv_at (heir k p) t (\<lambda>_. 0)" (is "kinv_at ?k t _")
proof -
  obtain n q w where s: "sync_ok k t (\<lambda>_. 0) n q w" using assms(1) by (auto simp: kinv_at_def)
  have tb: "tables_ok k" "tree_ok k t" "input_ok k" using assms(1) by (simp_all add: kinv_at_def)
  have f: "curr ?k = curr k" "sems ?k = sems k" "lists ?k = lists k"
    "usem_ref ?k = (\<lambda>u. usem_ref k u + int (count_list (usems (cur k)) (Some u)))"
    "s_head ?k = s_head k" "s_clap ?k = s_clap k" "s_tail ?k = s_tail k" "s_buffer ?k = s_buffer k"
    "\<And>c. status (pcb ?k c) = status (pcb k c)"
    "\<And>c. parent (pcb ?k c) = (if c = p then Some (curr k) else parent (pcb k c))"
    "\<And>c. child_num (pcb ?k c) = (if c = curr k then child_num (pcb k c) + 1 else child_num (pcb k c))"
    "\<And>c. usems (pcb ?k c) = (if c = p then usems (cur k) else usems (pcb k c))"
    "\<And>c. p_files (pcb ?k c) = p_files (pcb k c)"
    using assms(2) by (simp_all add: upd_proc_def heir_def)
  have a: "active ?k = active k" "blocked ?k = blocked k" "pending ?k = pending k" "zombies ?k = zombies k"
    using assms(3) by (auto simp: active_def blocked_def pending_def zombies_def f fun_eq_iff)
  have ch: "children ?k c = (if c = curr k then insert p (children k c) else children k c)" for c
    using assms(3,6) by (auto simp: children_def f)
  have pn: "p \<notin> children k c" for c using assms(6) by (simp add: children_def)
  have ap: "active k p" "active k (curr k)" using assms(3,4) by (simp_all add: active_def)
  have held: "0 < usem_ref k u" if "Some u \<in> set (usems (cur k))" for u
    using held_ref [OF tb(1) syncD(1) [OF s] ap(2) that] .
  have "sync_ok ?k t (\<lambda>_. 0) n q w"
  proof (rule sync_frame [OF s])
    show "q (head_no (UserSem u)) \<noteq> None" if "0 < usem_ref ?k u" for u
    proof -
      have "0 < usem_ref k u" using that held [of u] count_list_0_iff [of "usems (cur k)" "Some u"] unfolding f
        by (cases "Some u \<in> set (usems (cur k))") auto
      then show ?thesis by (rule sync_live [OF s])
    qed
    show "usems (pcb ?k c) = usems (pcb k c)" if "c \<in> blocked k" for c
      using that assms(3) by (auto simp: f blocked_def)
    show "int (avail ?k s') - 0 = int (avail k s') - 0" for s' by (cases s') (simp_all add: avail_def a f)
  qed (simp_all add: f)
  moreover have "tree_ok ?k t"
    unfolding tree_ok_def a
  proof (intro conjI allI impI ballI)
    show "active k c" "b \<noteq> c" if "b \<in> children ?k c" for c b
      using that tb(2) ap assms(2) by (auto simp: tree_ok_def ch split: if_splits)
    show "child_num (pcb ?k c) = of_nat (card (children ?k c))" if "active k c" for c
      using tb(2) that pn [of c] finite_sets(4) [OF syncD(1) [OF s], of c]
      by (cases "c = curr k") (simp_all add: tree_ok_def f ch)
    show "children ?k c \<noteq> {}" if "c \<in> pending k t (ZombieSem c)" for c
      using tb(2) that by (auto simp: tree_ok_def ch)
  qed
  moreover have "tables_ok ?k"
  proof -
    have "int (holders ?k u) = usem_ref ?k u" for u
      using holders_one [OF finite_sets(1) [OF syncD(1) [OF s]] ap(1) a(1), of u] tb(1) assms(5) f(12)
        count_list_0_iff [of "replicate MAX_USEM None" "Some u"]
      by (simp add: tables_ok_def f(4))
    then show ?thesis using tb(1) ap unfolding tables_ok_def a f by auto
  qed
  moreover have "input_ok ?k" using tb(3) by (simp add: input_ok_def f)
  ultimately show ?thesis by (auto simp: kinv_at_def)
qed

text \<open>A process that was set up is made ready; it starts in user mode.\<close>

lemma kinv_at_addready:
  assumes "kinv_at k t (\<lambda>_. 0)" and "status (pcb k p) = UNINIT" and "t p = InUser"
  shows "kinv_at (proc_addready k p) t (\<lambda>_. 0)"
proof -
  obtain n q w where s: "sync_ok k t (\<lambda>_. 0) n q w" using assms(1) by (auto simp: kinv_at_def)
  have a: "active k p" "p \<notin> blocked k" using assms(2) by (simp_all add: active_def blocked_def)
  have pe: "pending (set_status k p READY) t s' = pending k t s'" for s'
    using assms(2,3) by (auto simp: pending_def waits_on_def)
  have "sync_ok (set_status k p READY) t (\<lambda>_. 0) n q w"
    by (rule sync_status [OF s a]) (simp_all add: pe)
  moreover have "tree_ok (set_status k p READY) t"
    by (rule tree_status [OF a(1)]) (use assms(1) pe in \<open>auto simp: kinv_at_def\<close>)
  moreover have "tables_ok (set_status k p READY)" "input_ok (set_status k p READY)"
    using assms(1) a(1) by (simp_all add: kinv_at_def rest_status)
  ultimately show ?thesis by (auto simp: kinv_at_def proc_addready_def)
qed

lemma sys_fork_kinv:
  assumes "sys_fork k = Some (out, k')" and "settled k"
  shows "kinv (k', out)"
proof -
  have run: "status (cur k) = RUNNING" and ki: "kinv_at k (\<lambda>p. cont (pcb k p)) (\<lambda>_. 0)" using assms(2) by simp_all
  obtain r k1 where r: "proc_alloc k = Some (r, k1)" using assms(1) by (auto simp: sys_fork_def bind_eq_Some_conv)
  show ?thesis
  proof (cases r)
    case None
    then show ?thesis using assms r proc_alloc_none [of k k1] by (auto simp: sys_fork_def kinv_settled)
  next
    case (Some p)
    then obtain k2 where k2: "proc_copycurr k1 p = Some k2" "k' = proc_addready k2 p" "\<forall>c. out \<noteq> Switch c"
      using assms(1) r by (auto simp: sys_fork_def bind_eq_Some_conv Let_def)
    let ?a = "upd_proc (sem_init k (ZombieSem p) 0) p blank" and ?t = "(\<lambda>c. cont (pcb k c))(p := InUser)"
    note al = proc_alloc_core [OF r [unfolded Some]]
    have p: "p \<noteq> curr k" using al(1) run by auto
    have k1: "curr k1 = curr k" "status (cur k1) = RUNNING" "status (pcb k1 p) = UNINIT" "parent (pcb k1 p) = None"
      "usems (pcb k1 p) = replicate MAX_USEM None" "usems (cur k1) = usems (cur k)" "(\<lambda>c. cont (pcb k1 c)) = ?t"
      using al(4) p run by (auto simp: core_state_eq same_core_def upd_proc_def sem_init_def fun_eq_iff)
    have "kinv_at k ?t (\<lambda>_. 0) = kinv_at k (\<lambda>c. cont (pcb k c)) (\<lambda>_. 0)"
      by (rule kinv_at_agenda) (use al(1) in auto)
    then have "kinv_at k ?t (\<lambda>_. 0)" using ki by blast
    then have "kinv_at ?a ?t (\<lambda>_. 0)" by (rule kinv_at_alloc) (use al p in auto)
    then have ki1: "kinv_at k1 ?t (\<lambda>_. 0)" using kinv_at_cong [OF al(4)] by blast
    have "active k (curr k)" using run by (simp add: active_def)
    then have len: "length (usems (cur k1)) = MAX_USEM" using ki k1(6) by (simp add: kinv_at_def tables_ok_def)
    note cp = proc_copycurr_core [OF k2(1) _ k1(5) len]
    have p1: "p \<noteq> curr k1" using p k1(1) by simp
    have h: "kinv_at (heir k1 p) ?t (\<lambda>_. 0)" by (rule kinv_at_heir [OF ki1 p1 k1(3,2,5,4)])
    then have ki2: "kinv_at k2 ?t (\<lambda>_. 0)" using kinv_at_cong [OF cp [OF p1]] by blast
    have st: "curr k2 = curr k" "status (cur k2) = RUNNING" "status (pcb k2 p) = UNINIT" "\<And>c. cont (pcb k2 c) = ?t c"
      using cp [OF p1] k1 p1 by (auto simp: core_state_eq same_core_def upd_proc_def fun_eq_iff heir_def)
    have "kinv_at k' ?t (\<lambda>_. 0)" unfolding k2(2) by (rule kinv_at_addready [OF ki2 st(3)]) simp
    moreover have "(\<lambda>c. cont (pcb k' c)) = ?t" "status (cur k') = RUNNING"
      using st p unfolding k2(2) by (auto simp: proc_addready_def set_status_def upd_proc_def)
    ultimately have "settled k'" by simp
    then show ?thesis using k2(3) by (simp add: kinv_settled)
  qed
qed

subsection \<open>The end of a process\<close>

lemma orphan_all:
  "fold (\<lambda>i k. upd_proc k i (orphan p)) [0..<m] k = k\<lparr>pcb := \<lambda>i. if i < m then orphan p (pcb k i) else pcb k i\<rparr>"
  by (induction m) (auto simp: upd_proc_def fun_eq_iff less_Suc_eq simp del: upt_rec_numeral)

lemma close_all:
  "m \<le> length (usems (pcb k p)) \<Longrightarrow>
   fold (\<lambda>i k. case usems (pcb k p) ! i of None \<Rightarrow> k | Some u \<Rightarrow> usem_close k u) [0..<m] k =
   k\<lparr>usem_ref := \<lambda>u. usem_ref k u - int (count_list (take m (usems (pcb k p))) (Some u))\<rparr>"
proof (induction m)
  case (Suc m)
  let ?xs = "usems (pcb k p)"
  have t: "take (Suc m) ?xs = take m ?xs @ [?xs ! m]" using Suc.prems by (simp add: take_Suc_conv_app_nth)
  show ?case
    using Suc.IH Suc.prems unfolding upt_Suc_append [OF le0] fold_append comp_apply t
    by (auto simp: usem_close_def fun_eq_iff split: option.splits)
qed simp

lemma sync_zombie:
  assumes "kinv_at k t (\<lambda>_. 0)" and "status (cur k) = RUNNING" and "core_state k1 = core_state (set_status k (curr k) ZOMBIE)"
    and "d = (\<lambda>s. if \<exists>q. parent (cur k) = Some q \<and> s = ZombieSem q then 1 else 0)" and "sync_ok k t (\<lambda>_. 0) n q w"
  shows "sync_ok k1 t d n q w" and "children k1 = children k" and "pending k1 = pending k"
    and "\<And>c. active k1 c \<longleftrightarrow> active k c \<and> c \<noteq> curr k" and "blocked k1 = blocked k"
proof -
  let ?p = "curr k" and ?k = "set_status k (curr k) ZOMBIE"
  have f: "\<And>c. parent (pcb ?k c) = parent (pcb k c)" "\<And>c. usems (pcb ?k c) = usems (pcb k c)"
    "s_head ?k = s_head k" "s_clap ?k = s_clap k"
    by (simp_all add: set_status_def upd_proc_def)
  have a: "children ?k = children k" "pending ?k = pending k" "blocked ?k = blocked k"
    "\<And>c. active ?k c \<longleftrightarrow> active k c \<and> c \<noteq> ?p" "\<And>c. zombies ?k c = zombies k c \<union> {b. b = ?p \<and> parent (cur k) = Some c}"
    using assms(2) by (auto simp: children_def pending_def blocked_def active_def zombies_def f fun_eq_iff)
  have b: "children k1 = children ?k" "pending k1 = pending ?k" "blocked k1 = blocked ?k" "active k1 = active ?k"
    using assms(3) by (auto simp: children_def pending_def blocked_def active_def core_state_eq same_core_def fun_eq_iff)
  then show "children k1 = children k" "pending k1 = pending k" "\<And>c. active k1 c \<longleftrightarrow> active k c \<and> c \<noteq> curr k"
    "blocked k1 = blocked k" using a by simp_all
  note s = syncD [OF assms(5)]
  have cz: "card (zombies ?k c) = card (zombies k c) + (if parent (cur k) = Some c then 1 else 0)" for c
  proof -
    have "?p \<notin> zombies k c" using assms(2) by (simp add: zombies_def)
    then show ?thesis using finite_sets(5) [OF s(1), of c] unfolding a by auto
  qed
  have cnt: "counted ?k s' \<Longrightarrow> counted k s'" "live ?k s' \<Longrightarrow> live k s'" for s'
    by (auto simp: counted_def live_def a split: sem_id.splits)
  have "queues_ok ?k n q w" using s(2) cnt unfolding queues_ok_def in_line_def a by simp
  moreover have "waits_ok ?k t w" using s(3) by (simp add: waits_ok_def a f)
  moreover have "counts_ok ?k t d"
    unfolding counts_ok_def
  proof (intro allI impI)
    fix s' assume "counted ?k s'"
    then have "sems k s' = int (avail k s') - int (card (pending k t s'))"
      using cnt(1) s(4) by (simp add: counts_ok_def)
    then show "sems ?k s' = int (avail ?k s') - int (card (pending ?k t s')) - d s'"
      by (cases s') (auto simp: avail_def a(2) f assms(4) cz)
  qed
  moreover have "procs_ok ?k"
    unfolding procs_ok_def
  proof (intro conjI allI impI)
    have po: "curr k < PROC_NUM" "\<And>c. status (pcb k c) \<noteq> UNUSED \<Longrightarrow> c < PROC_NUM"
      "\<And>c. status (pcb k c) = RUNNING \<Longrightarrow> c = ?p" using s(1) unfolding procs_ok_def by blast+
    show "curr ?k < PROC_NUM" using po(1) by simp
    show "c < PROC_NUM" if "status (pcb ?k c) \<noteq> UNUSED" for c
      using that po(1) po(2) [of c] by (cases "c = ?p") simp_all
    show "c = curr ?k" if "status (pcb ?k c) = RUNNING" for c
      using that po(3) [of c] by (cases "c = ?p") simp_all
  qed
  ultimately have "sync_ok ?k t d n q w" by (simp add: sync_ok_def)
  then show "sync_ok k1 t d n q w" using core_state_cong(1) [OF assms(3)] by simp
qed

lemma sys_exit_kinv:
  assumes "sys_exit k code = Some (out, k')" and "settled k"
  shows "kinv (k', out)"
proof -
  have run: "status (cur k) = RUNNING" and ki: "kinv_at k (\<lambda>p. cont (pcb k p)) (\<lambda>_. 0)" using assms(2) by simp_all
  let ?p = "curr k" and ?t = "\<lambda>p. cont (pcb k p)"
  let ?k1 = "upd_proc k ?p (\<lambda>pr. pr\<lparr>status := ZOMBIE, exit_code := code\<rparr>)"
  have mz: "proc_makezombie k ?p code = Some k'" and out: "out = Switch KExit"
    using assms(1) by (auto simp: sys_exit_def bind_eq_Some_conv)
  obtain k2 where k2': "(case parent (pcb ?k1 ?p) of None \<Rightarrow> Some ?k1 | Some q \<Rightarrow> sem_v ?k1 (ZombieSem q)) = Some k2"
    using mz by (auto simp: proc_makezombie_def bind_eq_Some_conv Let_def)
  define k3 where k3: "k3 = fold (\<lambda>i k. upd_proc k i (orphan ?p)) [0..<PROC_NUM] k2"
  define k4 where k4: "k4 = fold (\<lambda>i k. case usems (pcb k ?p) ! i of None \<Rightarrow> k | Some u \<Rightarrow> usem_close k u) [0..<MAX_USEM] k3"
  obtain k5 where k5: "foldM (\<lambda>k i. case p_files (pcb k ?p) ! i of None \<Rightarrow> Some k | Some f \<Rightarrow> fclose k f) k4 [0..<MAX_UFILE] = Some k5"
      "(case cwd (pcb k5 ?p) of None \<Rightarrow> Some k5 | Some w \<Rightarrow> fs_op k5 (iclose (kfs k5) w)) = Some k'"
    using mz k2' unfolding k3 k4 by (auto simp: proc_makezombie_def bind_eq_Some_conv Let_def)
  define k1 where "k1 = ?k1"
  note k2 = k2' [folded k1_def]
  obtain n q w where s: "sync_ok k ?t (\<lambda>_. 0) n q w" using ki by (auto simp: kinv_at_def)
  have tb: "tables_ok k" "tree_ok k ?t" "input_ok k" using ki by (simp_all add: kinv_at_def)
  have ap: "active k ?p" using run by (simp add: active_def)
  let ?d = "\<lambda>s. if \<exists>q. parent (cur k) = Some q \<and> s = ZombieSem q then 1 else 0 :: int"
  have c1: "core_state k1 = core_state (set_status k ?p ZOMBIE)"
    by (simp add: core_state_eq k1_def set_status_def upd_proc_def same_core_def)
  note z = sync_zombie [OF ki run c1 refl s]
  have f1: "curr k1 = ?p" "\<And>c. parent (pcb k1 c) = parent (pcb k c)" "\<And>c. usems (pcb k1 c) = usems (pcb k c)"
    "\<And>c. cont (pcb k1 c) = cont (pcb k c)" "\<And>c. child_num (pcb k1 c) = child_num (pcb k c)"
    "usem_ref k1 = usem_ref k" "input_ok k1 = input_ok k" "status (pcb k1 ?p) = ZOMBIE"
    "\<And>c. p_files (pcb k1 c) = p_files (pcb k c)"
    by (simp_all add: k1_def upd_proc_def input_ok_def)
  have "\<exists>n q. sync_ok k2 ?t (\<lambda>_. 0) n q w \<and> woken k1 k2"
  proof (cases "parent (cur k)")
    case None
    have "woken k1 k1" unfolding woken_def by (intro exI [of _ "sems k1"] exI [of _ "kern.lists k1"] disjI1) simp
    then show ?thesis using None z(1) k2 f1(2) by auto
  next
    case (Some c)
    then have "?p \<in> children k c" using run by (simp add: children_def)
    then have "active k c" "c \<noteq> ?p" using tb(2) by (auto simp: tree_ok_def)
    then have "live k1 (ZombieSem c)" using z(4) by (simp add: live_def)
    moreover have "?d(ZombieSem c := ?d (ZombieSem c) - 1) = (\<lambda>_. 0)" using Some by auto
    moreover have "sem_v k1 (ZombieSem c) = Some k2" using Some k2 f1(2) by simp
    ultimately show ?thesis using sem_v_gives [OF z(1), of "ZombieSem c" k2] by auto
  qed
  then obtain n2 q2 where s2: "sync_ok k2 ?t (\<lambda>_. 0) n2 q2 w" and wk: "woken k1 k2" by blast
  note wr = woken_rest [OF wk]
  have len: "length (usems (pcb k ?p)) = MAX_USEM" using tb(1) ap by (simp add: tables_ok_def)
  have k3': "k3 = k2\<lparr>pcb := \<lambda>i. if i < PROC_NUM then orphan ?p (pcb k2 i) else pcb k2 i\<rparr>"
    unfolding k3 by (rule orphan_all)
  have u3: "usems (pcb k3 c) = usems (pcb k c)" for c by (simp add: k3' orphan_def wr f1)
  have k4': "k4 = k3\<lparr>usem_ref := \<lambda>u. usem_ref k u - int (count_list (usems (cur k)) (Some u))\<rparr>"
    unfolding k4 by (subst close_all) (use len in \<open>simp_all add: u3 del: upt_rec_numeral\<close>, simp add: k3' wr f1)
  have c4: "core_state k' = core_state k4"
  proof -
    have "core_state k5 = core_state k4"
      by (rule kq.foldM_quiet [OF k5(1), where h = "\<lambda>k. k"]) (auto split: option.splits dest: kq.fclose_quiet)
    moreover have "core_state k' = core_state k5" using k5(2) by (auto split: option.splits dest: kq.fs_op_quiet)
    ultimately show ?thesis by simp
  qed
  have f4: "curr k4 = ?p" "sems k4 = sems k2" "lists k4 = lists k2" "input_ok k4 = input_ok k"
    "\<And>c. status (pcb k4 c) = status (pcb k2 c)" "\<And>c. usems (pcb k4 c) = usems (pcb k c)"
    "\<And>c. parent (pcb k4 c) = (if c < PROC_NUM \<and> parent (pcb k c) = Some ?p then None else parent (pcb k c))"
    "\<And>c. child_num (pcb k4 c) = child_num (pcb k c)" "\<And>c. cont (pcb k4 c) = cont (pcb k c)"
    "\<And>u. usem_ref k4 u = usem_ref k u - int (count_list (usems (cur k)) (Some u))" "s_head k4 = s_head k2" "s_clap k4 = s_clap k2"
    using wr(8,10,12-15) f1(7) by (auto simp: k4' k3' orphan_def wr f1 input_ok_def)
  have lt: "c < PROC_NUM" if "status (pcb k c) \<noteq> UNUSED" for c using s that by (simp add: sync_ok_def procs_ok_def)
  have stU: "status (pcb k2 c) = UNUSED \<longleftrightarrow> status (pcb k c) = UNUSED" for c
  proof -
    have "status (pcb k2 c) \<noteq> UNUSED" if "c \<in> blocked k1" using that wk unfolding woken_def by (auto simp: blocked_def split: if_splits)
    moreover have "status (pcb k2 c) = status (pcb k1 c)" if "c \<notin> blocked k1" using wr(18) [OF that] by simp
    ultimately show ?thesis using run by (cases "c \<in> blocked k1") (auto simp: k1_def upd_proc_def blocked_def split: if_splits)
  qed
  have a4: "active k4 = (\<lambda>c. active k c \<and> c \<noteq> ?p)" "pending k4 = pending k" "blocked k4 = blocked k2"
    using wr(1,22) z(3,4) by (auto simp: active_def pending_def blocked_def f4 fun_eq_iff)
  have ch4: "children k4 c = (if c = ?p then {} else children k c)" for c
    using lt by (auto simp: children_def f4 stU)
  have "sync_ok k4 ?t (\<lambda>_. 0) n2 q2 w"
  proof (rule sync_frame [OF s2])
    show "q2 (head_no (UserSem u)) \<noteq> None" if "0 < usem_ref k4 u" for u
      using sync_live [OF s2, of u] that by (simp add: f4 wr f1)
    show "int (avail k4 s') - 0 = int (avail k2 s') - 0" if "counted k2 s'" for s'
    proof -
      have "parent (pcb k4 b) = Some c \<longleftrightarrow> parent (pcb k2 b) = Some c" if "c \<noteq> ?p" for b c
        using that wr(16) [of b] f1(2) [of b] f4(7) [of b] by simp
      then have "zombies k4 c = zombies k2 c" if "c \<noteq> ?p" for c
        using that by (simp add: zombies_def f4(5))
      moreover have "s' \<noteq> ZombieSem ?p"
      proof
        assume "s' = ZombieSem ?p"
        then have "active k1 ?p" using that wr(1) by (simp add: counted_def)
        then show False using z(4) [of ?p] by simp
      qed
      ultimately show ?thesis by (cases s') (simp_all add: avail_def f4(11,12))
    qed
  qed (simp_all add: f4 wr f1)
  moreover have "tree_ok k4 ?t"
    using tb(2) ap unfolding tree_ok_def a4 f4 ch4 by (auto simp: pending_def run)
  moreover have "tables_ok k4"
  proof -
    have fin: "finite {c. active k c}" using finite_sets(1) s by (simp add: sync_ok_def)
    have "holders k4 u + count_list (usems (cur k)) (Some u) = holders k u" for u
    proof -
      have "{c. active k c \<and> c \<noteq> ?p} = {c. active k c} - {?p}" by auto
      then have "holders k4 u = (\<Sum>c\<in>{c. active k c} - {?p}. count_list (usems (pcb k c)) (Some u))"
        by (simp add: holders_def a4 f4)
      moreover have "holders k u = count_list (usems (cur k)) (Some u) +
          (\<Sum>c\<in>{c. active k c} - {?p}. count_list (usems (pcb k c)) (Some u))"
        unfolding holders_def by (rule sum.remove) (use fin ap in auto)
      ultimately show ?thesis by simp
    qed
    then have "int (holders k4 u) = usem_ref k4 u" for u
      using tb(1) by (simp add: tables_ok_def f4) (metis add_diff_cancel_right' of_nat_add)
    moreover have "length (p_files (pcb k4 c)) = length (p_files (pcb k c))" for c
      using wk by (auto simp: k4' k3' orphan_def woken_def f1 set_status_def upd_proc_def)
    ultimately show ?thesis using tb(1) by (auto simp: tables_ok_def a4 f4)
  qed
  moreover have "input_ok k4" using tb(3) f4(4) by simp
  ultimately have k4ok: "kinv_at k4 ?t (\<lambda>_. 0)" by (auto simp: kinv_at_def)
  have zo: "status (pcb k4 ?p) = ZOMBIE" using f4(5) wr(18) [of ?p] f1(8) z(5) run by (auto simp: blocked_def)
  have "kinv_at k4 (?t(?p := KExit)) (\<lambda>_. 0) = kinv_at k4 ?t (\<lambda>_. 0)"
    by (rule kinv_at_agenda) (use zo in auto)
  then have "kinv_at k4 (?t(?p := KExit)) (\<lambda>_. 0)" using k4ok by blast
  then have "kinv (k4, out)" unfolding out kinv_switch using zo f4(1,9) by simp
  moreover have "agenda k' out = agenda k4 out" "status (cur k') = status (cur k4)"
    using agenda_cong [OF c4] c4 by (auto simp: core_state_eq same_core_def)
  ultimately show ?thesis using kinv_at_cong [OF c4] by (simp add: kinv_def)
qed

end
