(* ===== verification/Fork.thy ===== *)
theory Fork
  imports KFork VmeProps
begin

text \<open>
  \<open>fork\<close> as a whole: the new slot, the new address space, the kernel stack with the context, and the tables that parent
  and child share.
\<close>

subsection \<open>The address space and the kernel stack\<close>

lemma vm_curr_kept: "kept_out s s' P \<Longrightarrow> vm_curr s' = vm_curr s"
  by (simp add: kept_out_def vm_curr_def)

lemma copied_kept:
  assumes c: "copied s s' pd nd i" and u: "user_idx i"
    and k0: "kept_out r s P" and a0: "aspace r pd fr0" "space_pages r pd \<inter> P = {}" "\<forall>q \<in> P. heap_page q"
    and k1: "kept_out s' s'' Q" and a1: "aspace s' nd fr1" "space_pages s' nd \<inter> Q = {}" "\<forall>q \<in> Q. heap_page q"
  shows "copied r s'' pd nd i"
proof -
  note c0 = kept_out_space [OF k0 a0] and c1 = kept_out_space [OF k1 a1]
  have e: "pte_at s pd i = pte_at r pd i" "pte_at s'' nd i = pte_at s' nd i" using c0(2) c1(2) u by blast+
  show ?thesis
  proof (cases "present (pte_at r pd i)")
    case False
    then show ?thesis using c e by (simp add: copied_def)
  next
    case True
    then obtain p where p: "pte_at s' nd i = MAKE_PTE p (pte_at r pd i AND 7)" "heap_page p" "p \<noteq> PTE2PG (pte_at r pd i)"
      "\<forall>k < PGSIZE. pmem s' (unat p + k) = pmem s (unat (PTE2PG (pte_at r pd i)) + k)"
      using c e by (auto simp: copied_def entry_copied_def)
    have "opage r pd (OFrame (fst i) (snd i)) = Some (PTE2PG (pte_at r pd i))" using u True by (simp add: user_idx_def)
    then have f0: "PTE2PG (pte_at r pd i) \<in> space_pages r pd" unfolding space_pages_def by blast
    have "opage s' nd (OFrame (fst i) (snd i)) = Some p"
      using u p(1) MAKE_frame [OF p(2) and_7_prot(2)] by (simp add: user_idx_def)
    then have f1: "p \<in> space_pages s' nd" unfolding space_pages_def by blast
    have "pmem s'' (unat p + k) = pmem r (unat (PTE2PG (pte_at r pd i)) + k)" if "k < PGSIZE" for k
      using c0(3) [OF f0, of "unat (PTE2PG (pte_at r pd i)) + k"] c1(3) [OF f1, of "unat p + k"] p(4) that by (simp add: in_page_def)
    then show ?thesis using True p(1-3) e(2) unfolding copied_def entry_copied_def by auto
  qed
qed

lemma fork_vm:
  assumes h: "heap s (np # cs # fr)" and a: "aspace s pd (np # cs # fr)" and c: "vm_curr s = pd"
    and room: "2 * cur_pages s pd (pages (PAGE_DOWN PHY_MEM) USR_MEM) \<le> length fr"
  shows "\<exists>s1 s2 s3 fr'. vm_alloc s = Some (np, s1) \<and> kalloc s1 = Some (cs, s2) \<and> vm_copycurr s2 np = Some s3 \<and>
    heap s3 fr' \<and> aspace s3 pd fr' \<and> aspace s3 np fr' \<and> spaces_apart s3 pd np \<and> set fr' \<subseteq> set fr \<and>
    cs \<notin> space_pages s3 pd \<and> cs \<notin> space_pages s3 np \<and> kept_out s s3 (set (np # cs # fr)) \<and>
    (\<forall>va \<in> set (pages (PAGE_DOWN PHY_MEM) USR_MEM). copied s s3 pd np (idx va))"
proof -
  let ?F = "set (np # cs # fr)"
  have hp: "\<forall>q \<in> ?F. heap_page q" using heap_pages [OF h] by blast
  have dist: "np \<noteq> cs" "np \<notin> set fr" "cs \<notin> set fr" using h by (auto simp: heap_def)
  have dj: "space_pages s pd \<inter> ?F = {}" using space_pages_heap [OF a] by blast
  obtain s1 where s1: "vm_alloc s = Some (np, s1)" "heap s1 (cs # fr)" "aspace s1 np (cs # fr)" "kept_out s s1 {np}"
    "\<forall>i. user_idx i \<longrightarrow> pte_at s1 np i = 0" "space_pages s1 np = {np}"
    using vm_alloc_ok [OF h] by blast
  obtain s2 where s2: "kalloc s1 = Some (cs, s2)" "heap s2 fr" "outside s1 s2 cs" using kalloc_ok [OF s1(2)] by blast
  have k2: "kept_out s1 s2 {cs}" by (rule outside_kept [OF s2(3)]) simp
  have k02: "kept_out s s2 {np, cs}" by (rule kept_out_trans [OF s1(4) k2]) auto
  have npj: "space_pages s1 np \<inter> {cs} = {}" "\<forall>q \<in> {cs}. heap_page q" "\<forall>q \<in> {np, cs}. heap_page q" "space_pages s pd \<inter> {np, cs} = {}"
    using s1(6) dist hp dj by auto
  note n2 = kept_out_space [OF k2 s1(3) npj(1,2)] and p2 = kept_out_space [OF k02 a npj(4,3)]
  have an: "aspace s2 np fr" using aspace_same [OF s1(3) n2(1)] by auto
  have ap: "aspace s2 pd fr" using aspace_same [OF a p2(1)] by auto
  have sp: "space_pages s2 np = {np}" "space_pages s2 pd = space_pages s pd"
    using s1(6) by (simp_all add: space_pages_def n2(1) p2(1))
  have apart: "spaces_apart s2 pd np" using dj by (simp add: spaces_apart_def sp)
  have absent: "\<forall>i. user_idx i \<longrightarrow> \<not> present (pte_at s2 np i)" using s1(5) n2(2) by simp
  have uv: "\<forall>va \<in> set (pages (PAGE_DOWN PHY_MEM) USR_MEM). user_idx (idx va)" using copycurr_pages(4) by blast
  have "cur_pages s2 pd (pages (PAGE_DOWN PHY_MEM) USR_MEM) = cur_pages s pd (pages (PAGE_DOWN PHY_MEM) USR_MEM)"
    unfolding cur_pages_def using uv p2(2) by (intro arg_cong [where f = length] filter_cong) auto
  then have "2 * cur_pages s2 pd (pages (PAGE_DOWN PHY_MEM) USR_MEM) \<le> length fr" using room by simp
  then obtain s3 fr' where s3: "vm_copycurr s2 np = Some s3" "heap s3 fr'" "aspace s3 pd fr'" "aspace s3 np fr'"
    "spaces_apart s3 pd np" "\<forall>va \<in> set (pages (PAGE_DOWN PHY_MEM) USR_MEM). copied s2 s3 pd np (idx va)"
    "kept_out s2 s3 (struct_pages s2 np \<union> set fr)" "space_pages s3 np \<subseteq> space_pages s2 np \<union> set fr" "set fr' \<subseteq> set fr"
    using vm_copycurr_ok [OF s2(2) ap an apart _ absent] c vm_curr_kept [OF k02] by blast
  have P: "struct_pages s2 np \<union> set fr \<subseteq> ?F" using struct_sub [of s2 np] sp(1) by auto
  have k03: "kept_out s s3 ?F" by (rule kept_out_trans [OF k02 s3(7) _ P]) auto
  note p3 = kept_out_space [OF k03 a dj hp]
  have "space_pages s3 pd = space_pages s pd" by (simp add: space_pages_def p3(1))
  then have cs: "cs \<notin> space_pages s3 pd" "cs \<notin> space_pages s3 np" using dj s3(8) sp(1) dist by auto
  have "copied s s3 pd np (idx va)" if "va \<in> set (pages (PAGE_DOWN PHY_MEM) USR_MEM)" for va
    using copied_kept [OF _ _ k02 a npj(4,3) kept_out_refl s3(4), of "idx va" "{}"] s3(6) uv that by auto
  then show ?thesis using s1(1) s2(1) s3 cs k03 by blast
qed

subsection \<open>The context\<close>

lemma ctx_at_page: "heap_page p \<Longrightarrow> unat (ctx_at p) = unat p + 4036"
  using heap_page_bounds [of p] by (simp add: ctx_at_def unat_word_ariths)

text \<open>The context of the child: the parent's, with \<open>eax\<close> cleared.\<close>

lemma copied_ctx:
  assumes p: "heap_page p" and q: "heap_page q" and ne: "p \<noteq> q"
    and v': "v' = ctx_set (ctx_copy v (ctx_at p) (ctx_at q)) (ctx_at p) ctx_eax 0"
  shows "kept_out v v' {p}" and "free_page_list v' = free_page_list v"
    and "i < 15 \<Longrightarrow> ctx_get v' (ctx_at p) i = (if i = ctx_eax then 0 else ctx_get v (ctx_at q) i)"
proof -
  let ?P = "unat p + 4036" and ?Q = "unat q + 4036"
  let ?m = "overlay (pmem v) ?P (map (pmem v) [?Q..<?Q + CTX_SIZE])"
  note b = heap_page_bounds [OF p] heap_page_bounds [OF q]
  have u: "unat (ctx_at r + of_nat (4 * j)) = unat r + 4036 + 4 * j" if "heap_page r" "j < 15" for r j
    using ctx_at_page [OF that(1)] heap_page_bounds [OF that(1)] that(2) by (simp add: unat_word_ariths unat_of_nat32)
  have m: "pmem v' = overlay ?m (?P + 28) (le32 0)"
    using u [OF p, of 7] ctx_at_page [OF p] ctx_at_page [OF q] by (simp add: v' ctx_set_def ctx_copy_def fill_def st_def)
  have other: "kpt v' = kpt v" "kpd v' = kpd v" "cr3 v' = cr3 v" "free_page_list v' = free_page_list v"
    by (simp_all add: v' ctx_set_def ctx_copy_def fill_def st_def)
  show k: "kept_out v v' {p}" unfolding kept_out_def m using other by (auto simp: overlay_def in_page_def)
  show "free_page_list v' = free_page_list v" by (rule other)
  show "ctx_get v' (ctx_at p) i = (if i = ctx_eax then 0 else ctx_get v (ctx_at q) i)" if i: "i < 15"
  proof (cases "i = ctx_eax")
    case True
    then show ?thesis using u [OF p, of 7] by (simp add: ctx_get_def ld_def m)
  next
    case False
    have "word_at (pmem v') (?P + 4 * i) = word_at ?m (?P + 4 * i)"
      unfolding m using False by (intro word_at_overlay_other) auto
    also have "\<dots> = word_at (pmem v) (?Q + 4 * i)"
      using i by (intro word_at_cong) (simp add: overlay_def add.assoc)
    finally show ?thesis using False u [OF p i] u [OF q i] by (simp add: ctx_get_def ld_def)
  qed
qed

subsection \<open>The tables\<close>

lemma dup_files_copy:
  assumes "p \<noteq> curr k" and "p_files (pcb k p) = replicate MAX_UFILE None" and "length (p_files (cur k)) = MAX_UFILE"
    and "m \<le> MAX_UFILE"
  shows "fold (\<lambda>i k. dup_files k p i) [0..<m] k =
    (upd_proc k p (\<lambda>pr. pr\<lparr>p_files := take m (p_files (cur k)) @ replicate (MAX_UFILE - m) None\<rparr>))
      \<lparr>files := \<lambda>f. (files k f)\<lparr>f_ref := f_ref (files k f) + int (count_list (take m (p_files (cur k))) (Some f))\<rparr>\<rparr>"
  using assms(4)
proof (induction m)
  case 0
  have "(pcb k p)\<lparr>p_files := replicate MAX_UFILE None\<rparr> = pcb k p" by (simp flip: assms(2))
  then show ?case by (simp add: upd_proc_def del: upt_rec_numeral)
next
  case (Suc m)
  let ?xs = "p_files (cur k)"
  have m: "m < length ?xs" "MAX_UFILE - m = Suc (MAX_UFILE - Suc m)" using Suc.prems assms(3) by auto
  have t: "take (Suc m) ?xs = take m ?xs @ [?xs ! m]" using m(1) by (rule take_Suc_conv_app_nth)
  have u: "(take m ?xs @ replicate (MAX_UFILE - m) None)[m := Some u] = take m ?xs @ Some u # replicate (MAX_UFILE - Suc m) None" for u
    unfolding m(2) using m(1) by (simp add: list_update_append)
  have n: "take m ?xs @ replicate (MAX_UFILE - m) None = take m ?xs @ None # replicate (MAX_UFILE - Suc m) None"
    unfolding m(2) by simp
  note ih = Suc.IH [OF Suc_leD [OF Suc.prems]]
  show ?case
  proof (cases "?xs ! m")
    case None
    have "fold (\<lambda>i k. dup_files k p i) [0..<Suc m] k = fold (\<lambda>i k. dup_files k p i) [0..<m] k"
      using None assms(1) unfolding upt_Suc_append [OF le0] fold_append comp_apply ih
      by (simp add: dup_files_def upd_proc_def)
    then show ?thesis unfolding ih t n using None by simp
  next
    case (Some u)
    then show ?thesis using assms(1) unfolding upt_Suc_append [OF le0] fold_append comp_apply ih t
      by (simp add: dup_files_def fdup_def upd_file_def upd_proc_def u fun_eq_iff algebra_simps)
  qed
qed

subsection \<open>The call\<close>

text \<open>The slot that \<open>proc_alloc\<close> fills, and the parent and the child at the end.\<close>

definition fresh_proc :: "kern \<Rightarrow> u32 \<Rightarrow> u32 \<Rightarrow> nat \<Rightarrow> proc" where
  "fresh_proc k np cs c = (pcb k c)\<lparr>pid := next_pid k, status := UNINIT, pgdir := np, brk := 0, kstack := cs, cont := InUser,
     parent := None, child_num := 0, cwd := None, usems := replicate MAX_USEM None, p_files := replicate MAX_UFILE None\<rparr>"

lemma proc_alloc_eq:
  assumes "find (\<lambda>i. status (pcb k i) = UNUSED) [1..<PROC_NUM] = Some c"
    and "vm_alloc (kvm k) = Some (np, s1)" and "kalloc s1 = Some (cs, s2)"
  shows "proc_alloc k = Some (Some c, k\<lparr>pcb := (pcb k)(c := fresh_proc k np cs c), next_pid := next_pid k + 1, kvm := s2,
    sems := (sems k)(ZombieSem c := 0), lists := list_init (lists k) (sem_head (ZombieSem c))\<rparr>)"
  using assms by (simp add: proc_alloc_def upd_proc_def sem_init_def fresh_proc_def Let_def)

lemma proc_copycurr_eq:
  assumes "p \<noteq> curr k" and "vm_copycurr (kvm k) (pgdir (pcb k p)) = Some v" and "cwd (cur k) = Some w"
    and "usems (pcb k p) = replicate MAX_USEM None" and "length (usems (cur k)) = MAX_USEM"
    and "p_files (pcb k p) = replicate MAX_UFILE None" and "length (p_files (cur k)) = MAX_UFILE"
  shows "\<exists>k'. proc_copycurr k p = Some k' \<and>
    kvm k' = ctx_set (ctx_copy v (ctx_at (kstack (pcb k p))) (ctx_at (kstack (cur k)))) (ctx_at (kstack (pcb k p))) ctx_eax 0 \<and>
    pcb k' = (pcb k)(curr k := (cur k)\<lparr>child_num := child_num (cur k) + 1\<rparr>,
      p := (pcb k p)\<lparr>parent := Some (curr k), usems := usems (cur k), p_files := p_files (cur k), cwd := Some w\<rparr>) \<and>
    (\<forall>u. usem_ref k' u = usem_ref k u + int (count_list (usems (cur k)) (Some u))) \<and>
    (\<forall>f. f_ref (files k' f) = f_ref (files k f) + int (count_list (p_files (cur k)) (Some f))) \<and>
    kfs k' = idup (kfs k) w \<and> curr k' = curr k"
proof -
  let ?v = "ctx_set (ctx_copy v (ctx_at (kstack (pcb k p))) (ctx_at (kstack (cur k)))) (ctx_at (kstack (pcb k p))) ctx_eax 0"
  define k1 where "k1 = upd_proc (upd_proc (k\<lparr>kvm := ?v\<rparr>) p (\<lambda>pr. pr\<lparr>parent := Some (curr k)\<rparr>)) (curr k)
    (\<lambda>pr. pr\<lparr>child_num := child_num pr + 1\<rparr>)"
  have a: "p \<noteq> curr k1" "usems (pcb k1 p) = replicate MAX_USEM None" "length (usems (cur k1)) = MAX_USEM"
    using assms(1,4,5) by (simp_all add: k1_def upd_proc_def)
  define k2 where "k2 = fold (\<lambda>i k. dup_usems k p i) [0..<MAX_USEM] k1"
  note e2 = dup_usems_copy [OF a order_refl, folded k2_def]
  have b: "p \<noteq> curr k2" "p_files (pcb k2 p) = replicate MAX_UFILE None" "length (p_files (cur k2)) = MAX_UFILE"
    using assms(1,6,7) unfolding e2 by (simp_all add: k1_def upd_proc_def)
  define k3 where "k3 = fold (\<lambda>i k. dup_files k p i) [0..<MAX_UFILE] k2"
  note e3 = dup_files_copy [OF b order_refl, folded k3_def]
  have w: "cwd (cur k3) = Some w" using assms(1,3) unfolding e3 e2 by (simp add: k1_def upd_proc_def)
  have "proc_copycurr k p = Some (upd_proc (k3\<lparr>kfs := idup (kfs k3) w\<rparr>) p (\<lambda>pr. pr\<lparr>cwd := Some w\<rparr>))"
    using assms(1,2) w by (simp add: proc_copycurr_def vm_op_def Let_def upd_proc_curr k3_def k2_def k1_def del: upt_rec_numeral)
  then show ?thesis using assms(1,5,7) unfolding e3 e2
    by (simp add: k1_def upd_proc_def fun_eq_iff)
qed

lemma stack_kept:
  assumes "kept_out v v' P" and "heap_page p" and "p \<notin> P" and "\<forall>q \<in> P. heap_page q" and "i < 15"
  shows "ctx_get v' (ctx_at p) i = ctx_get v (ctx_at p) i"
proof -
  have u: "unat (ctx_at p + of_nat (4 * i)) = unat p + 4036 + 4 * i"
    using ctx_at_page [OF assms(2)] heap_page_bounds [OF assms(2)] assms(5) by (simp add: unat_word_ariths unat_of_nat32)
  have "pmem v' (unat p + 4036 + 4 * i + j) = pmem v (unat p + 4036 + 4 * i + j)" if "j < 4" for j
    using kept_out_page [OF assms(1-3)] assms(4,5) that by (simp add: in_page_def)
  then show ?thesis unfolding ctx_get_def ld_def u by (rule word_at_cong)
qed

lemma find_slot: "find P [1..<n] = Some c \<Longrightarrow> P c \<and> c < n"
  by (auto simp: find_Some_iff)

text \<open>
  C12: \<open>fork\<close> (\<open>kernel/src/syscall.c\<close>, \<open>proc.c\<close>, \<open>vme.c\<close>) makes a copy of the process. With a free slot and enough free pages, the
  parent gets the process number of the child; the child is ready, its context is the parent's but for \<open>eax\<close>, which is
  0, it has the parent's semaphores, files (each counted once more) and directory, and a memory of its own in
  which every page the parent has mapped is mapped with the same rights and the same bytes. The memory of the
  parent has not changed.
\<close>

theorem fork_copies_process:
  assumes "heap (kvm k) (np # cs # fr)" and "aspace (kvm k) (pgdir (cur k)) (np # cs # fr)"
    and "vm_curr (kvm k) = pgdir (cur k)"
    and "heap_page (kstack (cur k))" and "kstack (cur k) \<notin> set (np # cs # fr)"
    and "2 * cur_pages (kvm k) (pgdir (cur k)) (pages (PAGE_DOWN PHY_MEM) USR_MEM) \<le> length fr"
    and "find (\<lambda>i. status (pcb k i) = UNUSED) [1..<PROC_NUM] = Some c" and "status (cur k) = RUNNING"
    and "cwd (cur k) = Some w" and "length (usems (cur k)) = MAX_USEM" and "length (p_files (cur k)) = MAX_UFILE"
  shows "\<exists>k'. sys_fork k = Some (Ret (next_pid k), k') \<and>
    (let child = pcb k' c in
       pid child = next_pid k \<and> status child = READY \<and> parent child = Some (curr k) \<and> cont child = InUser \<and>
       usems child = usems (cur k) \<and> p_files child = p_files (cur k) \<and> cwd child = cwd (cur k) \<and>
       (\<forall>i < 15. ctx_get (kvm k') (ctx_at (kstack child)) i = (if i = ctx_eax then 0 else ctx_get (kvm k) (user_ctx_of k) i)) \<and>
       spaces_apart (kvm k') (pgdir (cur k)) (pgdir child) \<and>
       (\<forall>va \<in> set (pages (PAGE_DOWN PHY_MEM) USR_MEM). copied (kvm k) (kvm k') (pgdir (cur k)) (pgdir child) (idx va))) \<and>
    pcb k' (curr k) = (cur k)\<lparr>child_num := child_num (cur k) + 1\<rparr> \<and>
    (\<forall>f. f_ref (files k' f) = f_ref (files k f) + int (count_list (p_files (cur k)) (Some f))) \<and>
    (\<forall>q a. q \<in> space_pages (kvm k) (pgdir (cur k)) \<and> in_page q a \<longrightarrow> pmem (kvm k') a = pmem (kvm k) a)"
proof -
  let ?s = "kvm k" and ?pd = "pgdir (cur k)" and ?ks = "kstack (cur k)"
  obtain s1 s2 s3 fr' where s: "vm_alloc ?s = Some (np, s1)" "kalloc s1 = Some (cs, s2)" "vm_copycurr s2 np = Some s3"
    "heap s3 fr'" "aspace s3 ?pd fr'" "aspace s3 np fr'" "spaces_apart s3 ?pd np" "cs \<notin> space_pages s3 ?pd"
    "cs \<notin> space_pages s3 np" "kept_out ?s s3 (set (np # cs # fr))"
    "\<forall>va \<in> set (pages (PAGE_DOWN PHY_MEM) USR_MEM). copied ?s s3 ?pd np (idx va)"
    using fork_vm [OF assms(1-3,6)] by blast
  have c: "status (pcb k c) = UNUSED" "c \<noteq> curr k" using find_slot [OF assms(7)] assms(8) by auto
  define k1 where "k1 = k\<lparr>pcb := (pcb k)(c := fresh_proc k np cs c), next_pid := next_pid k + 1, kvm := s2,
    sems := (sems k)(ZombieSem c := 0), lists := list_init (lists k) (sem_head (ZombieSem c))\<rparr>"
  have k1: "proc_alloc k = Some (Some c, k1)" unfolding k1_def by (rule proc_alloc_eq [OF assms(7) s(1,2)])
  have cur1: "curr k1 = curr k" "pcb k1 (curr k) = cur k" "pcb k1 c = fresh_proc k np cs c" "kvm k1 = s2" "files k1 = files k"
    using c(2) by (simp_all add: k1_def)
  obtain k2 where k2: "proc_copycurr k1 c = Some k2"
    "kvm k2 = ctx_set (ctx_copy s3 (ctx_at cs) (ctx_at ?ks)) (ctx_at cs) ctx_eax 0"
    "pcb k2 = (pcb k1)(curr k := (cur k)\<lparr>child_num := child_num (cur k) + 1\<rparr>,
      c := (fresh_proc k np cs c)\<lparr>parent := Some (curr k), usems := usems (cur k), p_files := p_files (cur k), cwd := Some w\<rparr>)"
    "\<forall>f. f_ref (files k2 f) = f_ref (files k f) + int (count_list (p_files (cur k)) (Some f))"
    using proc_copycurr_eq [of c k1 s3 w] c(2) assms(9-11) s(3) unfolding cur1 by (auto simp: fresh_proc_def)
  have cs: "heap_page cs" "cs \<noteq> ?ks" using heap_pages [OF assms(1)] assms(5) by auto
  have sep: "space_pages s3 np \<inter> {cs} = {}" "space_pages s3 ?pd \<inter> {cs} = {}" "\<forall>q \<in> {cs}. heap_page q"
    using s(8,9) cs(1) by auto
  note ctx = copied_ctx [OF cs(1) assms(4) cs(2) k2(2)]
  note n = kept_out_space [OF ctx(1) s(6) sep(1,3)] and p = kept_out_space [OF ctx(1) s(5) sep(2,3)]
  have hp: "\<forall>q \<in> set (np # cs # fr). heap_page q" using heap_pages [OF assms(1)] by blast
  have dj: "space_pages ?s ?pd \<inter> set (np # cs # fr) = {}" using space_pages_heap [OF assms(2)] by blast
  note o = kept_out_space [OF s(10) assms(2) dj hp]
  have uv: "user_idx (idx va)" if "va \<in> set (pages (PAGE_DOWN PHY_MEM) USR_MEM)" for va
    using copycurr_pages(4) that by blast
  have "copied ?s (kvm k2) ?pd np (idx va)" if "va \<in> set (pages (PAGE_DOWN PHY_MEM) USR_MEM)" for va
    using copied_kept [OF _ uv [OF that] kept_out_refl [of ?s "{}"] assms(2) _ _ ctx(1) s(6) sep(1,3)] s(11) that by auto
  moreover have "spaces_apart (kvm k2) ?pd np" using s(7) by (simp add: spaces_apart_def space_pages_def n(1) p(1))
  moreover have "ctx_get (kvm k2) (ctx_at cs) i = (if i = ctx_eax then 0 else ctx_get ?s (user_ctx_of k) i)" if "i < 15" for i
    using ctx(3) [OF that] stack_kept [OF s(10) assms(4,5) hp that] by (simp add: user_ctx_of_def)
  moreover have "\<forall>q a. q \<in> space_pages ?s ?pd \<and> in_page q a \<longrightarrow> pmem (kvm k2) a = pmem ?s a"
    using o(3) p(3) by (simp add: space_pages_def o(1)) blast
  moreover have "sys_fork k = Some (Ret (next_pid k), proc_addready k2 c)"
    using k1 k2(1,3) by (simp add: sys_fork_def proc_addready_def set_status_def upd_proc_def fresh_proc_def)
  moreover have "pcb (proc_addready k2 c) c = (fresh_proc k np cs c)\<lparr>status := READY, parent := Some (curr k), usems := usems (cur k),
      p_files := p_files (cur k), cwd := Some w\<rparr>"
    "pcb (proc_addready k2 c) (curr k) = (cur k)\<lparr>child_num := child_num (cur k) + 1\<rparr>"
    "kvm (proc_addready k2 c) = kvm k2" "files (proc_addready k2 c) = files k2"
    using k2(3) c(2) by (simp_all add: proc_addready_def set_status_def upd_proc_def)
  ultimately show ?thesis using k2(4) assms(9) by (simp add: Let_def fresh_proc_def)
qed

text \<open>
  C36: \<open>fork\<close> does not give the child the program break of its parent: in the child \<open>brk\<close> starts from 0, so that its first
  call only notes the address and maps nothing. A child whose parent had a heap gets from \<open>sbrk\<close> memory that is not
  there (\<open>proc_copycurr\<close>, \<open>kernel/src/proc.c\<close>; \<open>sys_brk\<close>, \<open>syscall.c\<close>).
\<close>

theorem child_heap_not_mapped:
  assumes "find (\<lambda>i. status (pcb k i) = UNUSED) [1..<PROC_NUM] = Some c" and "status (cur k) = RUNNING"
    and "cwd (cur k) = Some w" and "length (usems (cur k)) = MAX_USEM" and "length (p_files (cur k)) = MAX_UFILE"
    and "sys_fork k = Some (r, k')"
  shows "sys_brk (proc_run k' c) addr = Some (Ret 0, upd_proc (proc_run k' c) c (\<lambda>pr. pr\<lparr>brk := PAGE_UP addr\<rparr>))"
proof -
  obtain k1 where k1: "proc_alloc k = Some (Some c, k1)"
    using assms(1,6) by (auto simp: sys_fork_def proc_alloc_def Let_def split: Option.bind_splits prod.splits)
  obtain np s1 cs s2 where v: "vm_alloc (kvm k) = Some (np, s1)" "kalloc s1 = Some (cs, s2)"
    using k1 assms(1) by (auto simp: proc_alloc_def Let_def upd_proc_def bind_eq_Some_conv split: prod.splits)
  have c: "c \<noteq> curr k" using find_slot [OF assms(1)] assms(2) by auto
  have "pcb k1 = (pcb k)(c := fresh_proc k np cs c)" "curr k1 = curr k"
    using k1 proc_alloc_eq [OF assms(1) v] by auto
  then have e: "curr k1 = curr k" "pcb k1 (curr k) = cur k" "pcb k1 c = fresh_proc k np cs c" using c by simp_all
  obtain k2 where k2: "proc_copycurr k1 c = Some k2" "k' = proc_addready k2 c"
    using assms(6) k1 by (auto simp: sys_fork_def Let_def split: Option.bind_splits)
  then obtain x where "vm_copycurr (kvm k1) (pgdir (pcb k1 c)) = Some x" by (auto simp: proc_copycurr_def vm_op_def bind_eq_Some_conv)
  from proc_copycurr_eq [OF _ this, of w] have "pcb k2 c = (fresh_proc k np cs c)\<lparr>parent := Some (curr k), usems := usems (cur k),
      p_files := p_files (cur k), cwd := Some w\<rparr>"
    using k2(1) c assms(3-5) unfolding e by (auto simp: fresh_proc_def)
  then have "brk (pcb k' c) = 0" by (simp add: k2(2) proc_addready_def set_status_def upd_proc_def fresh_proc_def)
  then show ?thesis by (simp add: sys_brk_def proc_run_def set_status_def upd_proc_def Let_def)
qed

subsection \<open>An instance\<close>

text \<open>Process 3 with one page of text and a kernel stack from the heap.\<close>

definition demo_parent :: "vm \<Rightarrow> u32 \<Rightarrow> kern" where
  "demo_parent v ks = (demo_kern {})\<lparr>kvm := set_cr3 v (pg 0),
     pcb := (pcb (demo_kern {}))(3 := (pcb (demo_kern {}) 3)\<lparr>pgdir := pg 0, kstack := ks, cwd := Some 0\<rparr>)\<rparr>"

lemma demo_parent_sel: "cur (demo_parent v ks) = (pcb (demo_kern {}) 3)\<lparr>pgdir := pg 0, kstack := ks, cwd := Some 0\<rparr>"
  "kvm (demo_parent v ks) = set_cr3 v (pg 0)" "curr (demo_parent v ks) = 3" "next_pid (demo_parent v ks) = 1"
  "find (\<lambda>i. status (pcb (demo_parent v ks) i) = UNUSED) [1..<PROC_NUM] = Some 1"
proof -
  have "[1..<PROC_NUM] = 1 # [2..<PROC_NUM]" by (simp add: upt_conv_Cons)
  then show "find (\<lambda>i. status (pcb (demo_parent v ks) i) = UNUSED) [1..<PROC_NUM] = Some 1"
    by (simp add: demo_parent_def demo_kern_def boot_proc_def)
qed (simp_all add: demo_parent_def demo_kern_def)

lemma demo_parent_ok:
  "\<exists>v ks np cs fr. heap (set_cr3 v (pg 0)) (np # cs # fr) \<and> aspace (set_cr3 v (pg 0)) (pg 0) (np # cs # fr) \<and>
    vm_curr (set_cr3 v (pg 0)) = pg 0 \<and> heap_page ks \<and> ks \<notin> set (np # cs # fr) \<and>
    2 * cur_pages (set_cr3 v (pg 0)) (pg 0) (pages (PAGE_DOWN PHY_MEM) USR_MEM) \<le> length fr"
proof -
  obtain s2 fr where s2: "heap s2 fr" "aspace s2 (pg 0) fr" "32000 \<le> length fr"
    and z: "\<forall>i. user_idx i \<and> i \<noteq> idx text_va \<longrightarrow> pte_at s2 (pg 0) i = 0"
    using boot_map by blast
  obtain ks np cs fr' where fr: "fr = ks # np # cs # fr'" using s2(3) by (cases fr; cases "tl fr"; cases "tl (tl fr)") auto
  obtain s3 where s3: "kalloc s2 = Some (ks, s3)" "heap s3 (np # cs # fr')" "outside s2 s3 ks"
    using kalloc_ok s2(1) fr by blast
  have k: "kept_out s2 s3 {ks}" by (rule outside_kept [OF s3(3)]) simp
  have hk: "heap_page ks" "ks \<notin> set (np # cs # fr')" using heap_pages [OF s2(1)] s2(1) fr by (auto simp: heap_def)
  have dj: "space_pages s2 (pg 0) \<inter> {ks} = {}" using space_pages_heap [OF s2(2)] fr by auto
  note o = kept_out_space [OF k s2(2) dj]
  have a3: "aspace s3 (pg 0) (np # cs # fr')" by (rule aspace_same [OF s2(2) o(1)]) (use hk(1) fr in auto)
  have "\<not> present (pte_at (set_cr3 s3 (pg 0)) (pg 0) i)" if "user_idx i" "i \<noteq> idx text_va" for i
    using o(2) [of i] z that hk(1) by (simp add: set_cr3_keeps)
  then have "cur_pages (set_cr3 s3 (pg 0)) (pg 0) (pages (PAGE_DOWN PHY_MEM) USR_MEM) \<le> 1"
    using copycurr_pages(4) by (intro cur_pages_one [of _ "idx text_va"] pages_idx_distinct) auto
  moreover have "vm_curr (set_cr3 s3 (pg 0)) = pg 0"
    using PAGE_DOWN_aligned [OF pg_heap [of 0]] by (simp add: vm_curr_def set_cr3_def)
  ultimately show ?thesis using s3(2) a3 hk s2(3) fr
    by (intro exI [of _ s3] exI [of _ ks] exI [of _ np] exI [of _ cs] exI [of _ fr']) (simp add: set_cr3_keeps)
qed

lemma fork_copies_process_witness:
  "\<exists>v ks k'. sys_fork (demo_parent v ks) = Some (Ret 1, k') \<and> parent (pcb k' 1) = Some 3 \<and>
    ctx_get (kvm k') (ctx_at (kstack (pcb k' 1))) ctx_eax = 0"
proof -
  obtain v ks np cs fr where d: "heap (set_cr3 v (pg 0)) (np # cs # fr)" "aspace (set_cr3 v (pg 0)) (pg 0) (np # cs # fr)"
    "vm_curr (set_cr3 v (pg 0)) = pg 0" "heap_page ks" "ks \<notin> set (np # cs # fr)"
    "2 * cur_pages (set_cr3 v (pg 0)) (pg 0) (pages (PAGE_DOWN PHY_MEM) USR_MEM) \<le> length fr"
    using demo_parent_ok by blast
  have p: "status (cur (demo_parent v ks)) = RUNNING" "cwd (cur (demo_parent v ks)) = Some 0"
    "length (usems (cur (demo_parent v ks))) = MAX_USEM" "length (p_files (cur (demo_parent v ks))) = MAX_UFILE"
    by (simp_all add: demo_parent_def demo_kern_def boot_proc_def)
  have "\<exists>k'. sys_fork (demo_parent v ks) = Some (Ret (next_pid (demo_parent v ks)), k') \<and> parent (pcb k' 1) = Some (curr (demo_parent v ks)) \<and>
      ctx_get (kvm k') (ctx_at (kstack (pcb k' 1))) ctx_eax = 0"
    using fork_copies_process [of "demo_parent v ks" np cs fr 1 0] d p demo_parent_sel [of v ks] by (fastforce simp: Let_def)
  then show ?thesis by (auto simp: demo_parent_sel)
qed

lemma child_heap_not_mapped_witness:
  "\<exists>k' k2. sys_brk (proc_run k' 1) 0x08060001 = Some (Ret 0, k2) \<and> kvm k2 = kvm (proc_run k' 1) \<and> brk (pcb k2 1) = 0x08061000"
proof -
  obtain v ks np cs fr where d: "heap (set_cr3 v (pg 0)) (np # cs # fr)" "aspace (set_cr3 v (pg 0)) (pg 0) (np # cs # fr)"
    "vm_curr (set_cr3 v (pg 0)) = pg 0" "heap_page ks" "2 * cur_pages (set_cr3 v (pg 0)) (pg 0) (pages (PAGE_DOWN PHY_MEM) USR_MEM) \<le> length fr"
    using demo_parent_ok by blast
  let ?k = "demo_parent v ks"
  have p: "status (cur ?k) = RUNNING" "cwd (cur ?k) = Some 0" "length (usems (cur ?k)) = MAX_USEM" "length (p_files (cur ?k)) = MAX_UFILE"
    by (simp_all add: demo_parent_def demo_kern_def boot_proc_def)
  obtain s1 s2 s3 where s: "vm_alloc (kvm ?k) = Some (np, s1)" "kalloc s1 = Some (cs, s2)" "vm_copycurr s2 np = Some s3"
    using fork_vm [OF d(1,2,3,5)] by (auto simp: demo_parent_sel)
  let ?k1 = "?k\<lparr>pcb := (pcb ?k)(1 := fresh_proc ?k np cs 1), next_pid := next_pid ?k + 1, kvm := s2,
    sems := (sems ?k)(ZombieSem 1 := 0), lists := list_init (lists ?k) (sem_head (ZombieSem 1))\<rparr>"
  have k1: "proc_alloc ?k = Some (Some 1, ?k1)" by (rule proc_alloc_eq [OF demo_parent_sel(5) s(1,2)])
  have "\<exists>k2. proc_copycurr ?k1 1 = Some k2"
    using proc_copycurr_eq [of 1 ?k1 s3 0] p s(3) by (auto simp: fresh_proc_def demo_parent_sel(3))
  then obtain k' where "sys_fork ?k = Some (Ret (pid (pcb k' 1)), k')" using k1 by (auto simp: sys_fork_def Let_def)
  note b = child_heap_not_mapped [OF demo_parent_sel(5) p(1,2,3,4) this, of "0x08060001"]
  have "PAGE_UP 0x08060001 = 0x08061000" by (simp add: PAGE_UP_def)
  then show ?thesis using b by - (rule exI [where x = k'], simp add: upd_proc_def)
qed

end
