(* ===== verification/Stdlib.thy ===== *)
theory Stdlib
  imports Prelude
begin

text \<open>
  Numbers and text, \<open>lib/src/stdlib/\<close>: \<open>strtol\<close>, \<open>strtoul\<close>, \<open>atoi\<close>, \<open>utoa\<close>, \<open>itoa\<close>, \<open>rand\<close>. A string is
  the list of bytes from the pointer to the end of its object and \<^term>\<open>None\<close> an access beyond it,
  or C without a meaning. \<open>long\<close> has 32 bits. A returned end pointer is an offset.
\<close>

subsection \<open>Reading a number\<close>

definition rd :: "bytes \<Rightarrow> nat \<Rightarrow> u8 option" where
  "rd s i = (if i < length s then Some (s ! i) else None)"

definition isspace :: "u8 \<Rightarrow> bool" where
  "isspace c \<longleftrightarrow> c = 32 \<or> c = 9 \<or> c = 10"

text \<open>The characters \<open>c\<close> and the position of \<open>s\<close> after \<open>do c = *s++; while (isspace(c))\<close>.\<close>

function skip_space :: "bytes \<Rightarrow> nat \<Rightarrow> (u8 \<times> nat) option" where
  "skip_space s i =
     (case rd s i of None \<Rightarrow> None | Some c \<Rightarrow> if isspace c then skip_space s (i + 1) else Some (c, i + 1))"
  by pat_completeness auto
termination by (relation "measure (\<lambda>(s, i). length s - i)") (auto simp: rd_def split: if_splits)

declare skip_space.simps [simp del]

definition skip_sign :: "bytes \<Rightarrow> u8 \<Rightarrow> nat \<Rightarrow> (bool \<times> u8 \<times> nat) option" where
  "skip_sign s c i =
     (if c = 45 then map_option (\<lambda>c. (True, c, i + 1)) (rd s i)
      else if c = 43 then map_option (\<lambda>c. (False, c, i + 1)) (rd s i)
      else Some (False, c, i))"

text \<open>The prefix \<open>0x\<close> and the choice of the base; a base is a C \<open>int\<close>.\<close>

definition skip_prefix :: "bytes \<Rightarrow> int \<Rightarrow> u8 \<Rightarrow> nat \<Rightarrow> (int \<times> u8 \<times> nat) option" where
  "skip_prefix s base c i = do {
     hex \<leftarrow> (if (base = 0 \<or> base = 16) \<and> c = 48 then map_option (\<lambda>x. x = 120 \<or> x = 88) (rd s i) else Some False);
     (base, c, i) \<leftarrow> (if hex then map_option (\<lambda>c. (16, c, i + 2)) (rd s (i + 1)) else Some (base, c, i));
     Some (if base = 0 then (if c = 48 then 8 else 10) else base, c, i) }"

definition digit_value :: "u8 \<Rightarrow> int option" where
  "digit_value c =
     (if 48 \<le> c \<and> c \<le> 57 then Some (uint c - 48)
      else if 65 \<le> c \<and> c \<le> 90 then Some (uint c - 55)
      else if 97 \<le> c \<and> c \<le> 122 then Some (uint c - 87)
      else None)"

definition add_digit :: "int \<Rightarrow> u32 \<Rightarrow> int \<Rightarrow> int \<Rightarrow> u32 \<times> int \<Rightarrow> u32 \<times> int" where
  "add_digit base cutoff cutlim d s = (case s of (acc, any) \<Rightarrow>
     if any < 0 \<or> acc > cutoff \<or> acc = cutoff \<and> d > cutlim then (acc, -1)
     else (acc * word_of_int base + word_of_int d, 1))"

function digit_loop :: "bytes \<Rightarrow> int \<Rightarrow> u32 \<Rightarrow> int \<Rightarrow> u8 \<Rightarrow> nat \<Rightarrow> u32 \<times> int \<Rightarrow> ((u32 \<times> int) \<times> nat) option" where
  "digit_loop s base cutoff cutlim c i st =
     (case digit_value c of
        None \<Rightarrow> Some (st, i)
      | Some d \<Rightarrow>
          if d \<ge> base then Some (st, i)
          else (case rd s i of
              None \<Rightarrow> None
            | Some c' \<Rightarrow> digit_loop s base cutoff cutlim c' (i + 1) (add_digit base cutoff cutlim d st)))"
  by pat_completeness auto
termination
  by (relation "measure (\<lambda>(s, _, _, _, _, i, _). length s - i)") (auto simp: rd_def split: if_splits)

declare digit_loop.simps [simp del]

abbreviation (input) LONG_MAX :: u32 where "LONG_MAX \<equiv> 0x7fffffff"
abbreviation (input) LONG_MIN :: u32 where "LONG_MIN \<equiv> 0x80000000"
abbreviation (input) ULONG_MAX :: u32 where "ULONG_MAX \<equiv> 0xffffffff"

text \<open>The value and the offset stored through \<open>endptr\<close>, which an unsupported base leaves unset.\<close>

definition strtol :: "bytes \<Rightarrow> int \<Rightarrow> (u32 \<times> nat option) option" where
  "strtol s base =
     (if base < 0 \<or> base = 1 \<or> base > 36 then Some (0, None)
      else do {
        (c, i) \<leftarrow> skip_space s 0;
        (neg, c, i) \<leftarrow> skip_sign s c i;
        (base, c, i) \<leftarrow> skip_prefix s base c i;
        let limit = (if neg then LONG_MIN else LONG_MAX);
        let cutlim = uint limit mod base;
        let cutoff = word_of_int (uint limit div base);
        ((acc, any), i) \<leftarrow> digit_loop s base cutoff cutlim c i (0, 0);
        let acc = (if any < 0 then (if neg then LONG_MIN else LONG_MAX) else if neg then - acc else acc);
        Some (acc, Some (if any \<noteq> 0 then i - 1 else 0)) })"

text \<open>\<open>strtoul\<close> does not check the base: a negative one is converted to \<open>unsigned long\<close>.\<close>

definition strtoul :: "bytes \<Rightarrow> int \<Rightarrow> (u32 \<times> nat option) option" where
  "strtoul s base = do {
     (c, i) \<leftarrow> skip_space s 0;
     (neg, c, i) \<leftarrow> skip_sign s c i;
     (base, c, i) \<leftarrow> skip_prefix s base c i;
     let ubase = uint (word_of_int base :: u32);
     let cutoff = word_of_int (uint ULONG_MAX div ubase);
     let cutlim = sint (word_of_int (uint ULONG_MAX mod ubase) :: u32);
     ((acc, any), i) \<leftarrow> digit_loop s base cutoff cutlim c i (0, 0);
     let acc = (if any < 0 then ULONG_MAX else if neg then - acc else acc);
     Some (acc, Some (if any \<noteq> 0 then i - 1 else 0)) }"

definition atoi :: "bytes \<Rightarrow> u32 option" where
  "atoi s = map_option fst (strtol s 10)"

subsection \<open>Writing a number\<close>

definition digits :: bytes where
  "digits = [48, 49, 50, 51, 52, 53, 54, 55, 56, 57, 97, 98, 99, 100, 101, 102, 103, 104, 105, 106, 107, 108,
     109, 110, 111, 112, 113, 114, 115, 116, 117, 118, 119, 120, 121, 122]"

text \<open>The loop that stores the digits, lowest first; it is entered at least once.\<close>

function utoa_loop :: "nat \<Rightarrow> nat \<Rightarrow> bytes \<Rightarrow> bytes" where
  "utoa_loop v base str =
     (if base < 2 then str
      else let str = str @ [digits ! (v mod base)]; v = v div base
        in if v \<noteq> 0 then utoa_loop v base str else str)"
  by pat_completeness auto
termination
  by (relation "measure (\<lambda>(v, _). v)") (auto simp: div_greater_zero_iff intro!: div_less_dividend)

declare utoa_loop.simps [simp del]

text \<open>\<open>for (j = 0, i--; j < i; j++, i--)\<close> with \<open>i\<close> the index after the last character.\<close>

function reverse_loop :: "bytes \<Rightarrow> nat \<Rightarrow> nat \<Rightarrow> bytes" where
  "reverse_loop str j i =
     (if j < i then reverse_loop (str[j := str ! i, i := str ! j]) (j + 1) (i - 1) else str)"
  by pat_completeness auto
termination by (relation "measure (\<lambda>(_, j, i). i - j)") auto

declare reverse_loop.simps [simp del]

text \<open>The bytes written to \<open>str\<close> and whether \<open>str\<close> (not \<open>NULL\<close>) is returned.\<close>

definition utoa :: "u32 \<Rightarrow> int \<Rightarrow> bytes \<times> bool" where
  "utoa v base =
     (if base < 2 \<or> base > 36 then ([0], False)
      else let str = utoa_loop (unat v) (nat base) [] in (reverse_loop str 0 (length str - 1) @ [0], True))"

text \<open>\<open>(unsigned)-value\<close> negates the \<open>int\<close> first: without a meaning for the most negative one.\<close>

definition itoa :: "u32 \<Rightarrow> int \<Rightarrow> (bytes \<times> bool) option" where
  "itoa v base =
     (if base < 2 \<or> base > 36 then Some ([0], False)
      else if base = 10 \<and> sint v < 0 then
        (if v = LONG_MIN then None else Some ([45] @ fst (utoa (- v) base), True))
      else Some (fst (utoa v base), True))"

subsection \<open>Pseudo-random numbers\<close>

definition srand :: "u32 \<Rightarrow> u64" where
  "srand seed = ucast seed"

definition rand :: "u64 \<Rightarrow> u32 \<times> u64" where
  "rand seed =
     (let seed = seed * 6364136223846793005 + 1 in (ucast (drop_bit 32 seed AND 0x7fffffff), seed))"

subsection \<open>The value of a numeral\<close>

definition dval :: "u8 \<Rightarrow> int" where
  "dval c = (case digit_value c of None \<Rightarrow> 0 | Some d \<Rightarrow> d)"

definition is_digit :: "int \<Rightarrow> u8 \<Rightarrow> bool" where
  "is_digit base c \<longleftrightarrow> (case digit_value c of None \<Rightarrow> False | Some d \<Rightarrow> d < base)"

definition numeral_value :: "int \<Rightarrow> bytes \<Rightarrow> int" where
  "numeral_value base ds = foldl (\<lambda>a c. a * base + dval c) 0 ds"

lemma dval_range: "is_digit base c \<Longrightarrow> 0 \<le> dval c \<and> dval c < base \<and> digit_value c = Some (dval c)"
proof -
  assume a: "is_digit base c"
  have "\<forall>d. digit_value c = Some d \<longrightarrow> 0 \<le> d"
    by (auto simp: digit_value_def word_le_def split: if_splits)
  then show ?thesis using a by (auto simp: is_digit_def dval_def split: option.splits)
qed

lemma numeral_value_nonneg: "0 < base \<Longrightarrow> \<forall>c \<in> set ds. is_digit base c \<Longrightarrow> 0 \<le> numeral_value base ds"
proof (induction ds rule: rev_induct)
  case (snoc d ds)
  then show ?case using dval_range [of base d] by (simp add: numeral_value_def)
qed (simp add: numeral_value_def)

lemma digit_loop_run:
  assumes "\<forall>c \<in> set ds. is_digit base c" and "\<not> is_digit base e" and "s = pre @ ds @ e # rest"
  shows "digit_loop s base cutoff cutlim (hd (ds @ [e])) (length pre + 1) t =
    Some (foldl (\<lambda>t c. add_digit base cutoff cutlim (dval c) t) t ds, length pre + length ds + 1)"
  using assms
proof (induction ds arbitrary: pre t)
  case Nil
  then show ?case by (subst digit_loop.simps) (auto simp: is_digit_def split: option.splits)
next
  case (Cons d ds)
  have d: "digit_value d = Some (dval d)" "dval d < base" using dval_range Cons.prems(1) by auto
  have "rd s (length pre + 1) = Some (hd (ds @ [e]))"
    by (cases ds) (auto simp: rd_def Cons.prems(3) nth_append)
  then show ?case
    using Cons.IH [of "pre @ [d]" "add_digit base cutoff cutlim (dval d) t"] Cons.prems d
    by (subst digit_loop.simps) simp
qed

lemma over_limit:
  fixes n d b L :: int
  assumes "0 \<le> n" and "0 \<le> d" and "d < b" and "0 \<le> L"
  shows "n > L div b \<or> n = L div b \<and> d > L mod b \<longleftrightarrow> n * b + d > L"
proof -
  let ?q = "L div b" and ?r = "L mod b"
  have L: "L = ?q * b + ?r" "0 \<le> ?r" "?r < b" using assms by simp_all
  consider "n < ?q" | "n = ?q" | "n > ?q" by linarith
  then show ?thesis
  proof cases
    case 1
    then have "(n + 1) * b \<le> ?q * b" using assms by (intro mult_right_mono) auto
    then have "n * b + b \<le> ?q * b" by (simp add: algebra_simps)
    then show ?thesis using 1 L assms by linarith
  next
    case 2
    have "L - n * b = ?r" using L(1) unfolding 2 by linarith
    then have "?r < d \<longleftrightarrow> L < n * b + d" by (intro iffI) linarith+
    then show ?thesis using 2 by blast
  next
    case 3
    then have "(?q + 1) * b \<le> n * b" using assms by (intro mult_right_mono) auto
    then have "?q * b + b \<le> n * b" by (simp add: algebra_simps)
    then show ?thesis using 3 L assms by linarith
  qed
qed

definition acc_inv :: "int \<Rightarrow> int \<Rightarrow> u32 \<times> int \<Rightarrow> bool" where
  "acc_inv L n s \<longleftrightarrow> (if snd s < 0 then n > L else uint (fst s) = n \<and> n \<le> L)"

lemma add_digit_inv:
  assumes "acc_inv L n t" and "0 \<le> n" and "0 \<le> d" and "d < b" and "0 \<le> L" and "L < 2 ^ 32"
  shows "acc_inv L (n * b + d) (add_digit b (word_of_int (L div b)) (L mod b) d t) \<and>
    snd (add_digit b (word_of_int (L div b)) (L mod b) d t) \<in> {1, -1}"
proof -
  obtain acc any where t: "t = (acc, any)" by (cases t)
  have "L div b \<le> L" "0 \<le> L div b"
    using zdiv_mono2 [of L 1 b] assms(3-5) by (simp_all add: pos_imp_zdiv_nonneg_iff)
  then have q: "uint (word_of_int (L div b) :: u32) = L div b"
    using assms(6) by (simp add: uint_word_of_int take_bit_int_eq_self)
  let ?over = "any < 0 \<or> acc > word_of_int (L div b) \<or> acc = word_of_int (L div b) \<and> d > L mod b"
  note lim = over_limit [OF assms(2-5)]
  show ?thesis
  proof (cases "any < 0")
    case True
    have "n * 1 \<le> n * b" using assms by (intro mult_left_mono) auto
    then have "n * b + d > L" using True assms(1,3) t by (simp add: acc_inv_def)
    then show ?thesis using True t by (simp add: add_digit_def acc_inv_def)
  next
    case False
    then have acc: "uint acc = n" using assms(1) t by (simp add: acc_inv_def)
    have "acc > word_of_int (L div b) \<longleftrightarrow> n > L div b" using q acc by (simp add: word_less_def)
    moreover have "acc = word_of_int (L div b) \<longleftrightarrow> n = L div b" using q acc by (auto simp: word_uint_eq_iff)
    ultimately have o: "?over \<longleftrightarrow> n * b + d > L" using lim False by blast
    have "uint (acc * word_of_int b + word_of_int d) = n * b + d" if "n * b + d \<le> L"
    proof -
      have E: "acc * word_of_int b + word_of_int d = (word_of_int (n * b + d) :: u32)"
        by (simp flip: acc)
      have "0 \<le> n * b + d" using assms by simp
      then have "uint (word_of_int (n * b + d) :: u32) = n * b + d"
        unfolding uint_word_of_int using that assms(6) by simp
      then show ?thesis by (simp only: E)
    qed
    then show ?thesis using o t by (auto simp: add_digit_def acc_inv_def)
  qed
qed

lemma add_digits_inv:
  assumes "2 \<le> b" and "0 \<le> L" and "L < 2 ^ 32" and "\<forall>c \<in> set ds. is_digit b c"
  shows "let t = foldl (\<lambda>t c. add_digit b (word_of_int (L div b)) (L mod b) (dval c) t) (0, 0) ds in
    acc_inv L (numeral_value b ds) t \<and> (ds \<noteq> [] \<longrightarrow> snd t \<noteq> 0)"
  using assms(4)
proof (induction ds rule: rev_induct)
  case Nil
  then show ?case using assms(2) by (simp add: acc_inv_def numeral_value_def)
next
  case (snoc d ds)
  have d: "0 \<le> dval d" "dval d < b" using dval_range snoc.prems by auto
  have n: "0 \<le> numeral_value b ds" using numeral_value_nonneg assms(1) snoc.prems by auto
  let ?t = "foldl (\<lambda>t c. add_digit b (word_of_int (L div b)) (L mod b) (dval c) t) (0, 0) ds"
  have "acc_inv L (numeral_value b ds) ?t" using snoc by (simp add: Let_def)
  from add_digit_inv [OF this n d assms(2,3)] show ?case
    by (auto simp: numeral_value_def Let_def)
qed

text \<open>
  The texts the functions are specified on: blanks, a sign, digits of the base, a character
  that is none; and, for base 16, no \<open>0x\<close>.
\<close>

definition numeral_text :: "int \<Rightarrow> bytes \<Rightarrow> bytes \<Rightarrow> bytes \<Rightarrow> u8 \<Rightarrow> bool" where
  "numeral_text base ws sg ds e \<longleftrightarrow>
     2 \<le> base \<and> base \<le> 36 \<and> (\<forall>c \<in> set ws. isspace c) \<and> sg \<in> {[], [43], [45]} \<and> ds \<noteq> [] \<and>
     (\<forall>c \<in> set ds. is_digit base c) \<and> \<not> is_digit base e \<and>
     (base = 16 \<longrightarrow> ds = [48] \<longrightarrow> e \<noteq> 120 \<and> e \<noteq> 88)"

lemma skip_space_run:
  "\<forall>c \<in> set ws. isspace c \<Longrightarrow> \<not> isspace c \<Longrightarrow>
   skip_space (pre @ ws @ c # rest) (length pre) = Some (c, length pre + length ws + 1)"
proof (induction ws arbitrary: pre)
  case Nil
  then show ?case by (subst skip_space.simps) (simp add: rd_def)
next
  case (Cons w ws)
  then show ?case using Cons.IH [of "pre @ [w]"]
    by (subst skip_space.simps) (simp add: rd_def)
qed

lemma digit_not_space: "is_digit b c \<Longrightarrow> \<not> isspace c \<and> c \<noteq> 43 \<and> c \<noteq> 45"
  by (auto simp: is_digit_def digit_value_def isspace_def)

lemma prefix_run:
  assumes "numeral_text base ws sg ds e" and "s = pre @ ds @ e # rest"
  shows "skip_prefix s base (hd (ds @ [e])) (length pre + 1) = Some (base, hd (ds @ [e]), length pre + 1)"
proof -
  obtain d ds' where ds: "ds = d # ds'" using assms(1) by (cases ds) (auto simp: numeral_text_def)
  have "rd s (length pre + 1) = Some (hd (ds' @ [e]))"
    by (cases ds') (auto simp: rd_def assms(2) ds nth_append)
  moreover have "\<not> is_digit 16 120" "\<not> is_digit 16 88"
    by (simp_all add: is_digit_def digit_value_def)
  then have "base = 16 \<Longrightarrow> d = 48 \<Longrightarrow> hd (ds' @ [e]) \<noteq> 120 \<and> hd (ds' @ [e]) \<noteq> 88"
    using assms(1) ds by (cases ds') (auto simp: numeral_text_def)
  ultimately show ?thesis
    using assms(1) ds by (auto simp: skip_prefix_def numeral_text_def)
qed

lemma scan_run:
  assumes t: "numeral_text base ws sg ds e"
  shows "\<exists>c i. skip_space (ws @ sg @ ds @ e # rest) 0 = Some (c, i) \<and>
    skip_sign (ws @ sg @ ds @ e # rest) c i =
      Some (sg = [45], hd (ds @ [e]), length ws + length sg + 1)"
proof -
  obtain d ds' where ds: "ds = d # ds'" "is_digit base d"
    using t by (cases ds) (auto simp: numeral_text_def)
  note nd = digit_not_space [OF ds(2)]
  have ws: "\<forall>c \<in> set ws. isspace c" using t by (simp add: numeral_text_def)
  consider "sg = []" | "sg = [43]" | "sg = [45]" using t by (auto simp: numeral_text_def)
  then show ?thesis
  proof cases
    case 1
    then show ?thesis using skip_space_run [OF ws, of d "[]" "ds' @ e # rest"] nd ds(1)
      by (simp add: skip_sign_def)
  next
    case 2
    then show ?thesis using skip_space_run [OF ws, of 43 "[]" "ds @ e # rest"] ds(1)
      by (simp add: skip_sign_def isspace_def rd_def nth_append)
  next
    case 3
    then show ?thesis using skip_space_run [OF ws, of 45 "[]" "ds @ e # rest"] ds(1)
      by (simp add: skip_sign_def isspace_def rd_def nth_append)
  qed
qed

lemma sint_word_of_int32: "- (2 ^ 31) \<le> k \<Longrightarrow> k \<le> 2 ^ 31 - 1 \<Longrightarrow> sint (word_of_int k :: u32) = k"
  by (simp add: sint_sbintrunc' signed_take_bit_int_eq_self)

lemma strtol_ok:
  assumes "numeral_text base ws sg ds e"
  shows "\<exists>r. strtol (ws @ sg @ ds @ e # rest) base = Some (r, Some (length ws + length sg + length ds)) \<and>
    sint r = max (- (2 ^ 31)) (min (2 ^ 31 - 1)
      (if sg = [45] then - numeral_value base ds else numeral_value base ds))"
proof -
  let ?s = "ws @ sg @ ds @ e # rest" and ?neg = "sg = [45]"
  let ?lim = "if ?neg then LONG_MIN else LONG_MAX"
  have b: "2 \<le> base" "base \<le> 36" "\<forall>c \<in> set ds. is_digit base c" "\<not> is_digit base e" "ds \<noteq> []"
    using assms by (simp_all add: numeral_text_def)
  let ?t = "foldl (\<lambda>t c. add_digit base (word_of_int (uint ?lim div base)) (uint ?lim mod base) (dval c) t) (0, 0) ds"
  have L: "0 \<le> uint ?lim" "uint ?lim < 2 ^ 32" by simp_all
  obtain acc any where t: "?t = (acc, any)" by (cases ?t)
  then have inv: "acc_inv (uint ?lim) (numeral_value base ds) (acc, any)" "any \<noteq> 0"
    using add_digits_inv [OF b(1) L b(3)] b(5) by (simp_all add: Let_def)
  have run: "digit_loop ?s base (word_of_int (uint ?lim div base)) (uint ?lim mod base) (hd (ds @ [e]))
      (length ws + length sg + 1) (0, 0) = Some ((acc, any), length ws + length sg + length ds + 1)"
    using digit_loop_run [OF b(3,4), of ?s "ws @ sg" rest] t by simp
  have pre: "skip_prefix ?s base (hd (ds @ [e])) (length ws + length sg + 1) =
      Some (base, hd (ds @ [e]), length ws + length sg + 1)"
    using prefix_run [OF assms, of ?s "ws @ sg" rest] by simp
  let ?r = "if any < 0 then ?lim else if ?neg then - acc else acc"
  have "strtol ?s base = Some (?r, Some (length ws + length sg + length ds))"
    using scan_run [OF assms, of rest] pre run inv(2) b(1,2) by (auto simp: strtol_def Let_def)
  moreover have "sint ?r = max (- (2 ^ 31)) (min (2 ^ 31 - 1)
      (if ?neg then - numeral_value base ds else numeral_value base ds))"
    (is "_ = max _ (min _ ?v)")
  proof (cases "any < 0")
    case True
    then have "uint ?lim < numeral_value base ds" using inv(1) by (simp add: acc_inv_def)
    then show ?thesis using True by (auto simp: max_def min_def)
  next
    case False
    then have u: "uint acc = numeral_value base ds" "numeral_value base ds \<le> uint ?lim"
      using inv(1) by (simp_all add: acc_inv_def)
    have "0 \<le> numeral_value base ds" using numeral_value_nonneg [OF _ b(3)] b(1) by simp
    then have r: "- (2 ^ 31) \<le> ?v" "?v \<le> 2 ^ 31 - 1" using u(2) by (auto split: if_splits)
    have e: "?r = word_of_int ?v" using False by (auto simp flip: u(1))
    then have "sint ?r = ?v" unfolding e by (intro sint_word_of_int32 r)
    then show ?thesis using r by simp
  qed
  ultimately show ?thesis by blast
qed

text \<open>
  \<open>strtol\<close> reads the integer the text denotes, in any base from 2 to 36 and with any sign,
  clamped to the range of \<open>long\<close>, and leaves \<open>endptr\<close> right behind the last digit.
\<close>

lemma strtol_value:
  assumes "numeral_text base ws sg ds e"
  shows "\<exists>r. strtol (ws @ sg @ ds @ e # rest) base = Some (r, Some (length ws + length sg + length ds)) \<and>
    sint r = max (- (2 ^ 31)) (min (2 ^ 31 - 1)
      (if sg = [45] then - numeral_value base ds else numeral_value base ds))"
  using assms by (rule strtol_ok)

lemma strtoul_ok:
  assumes "numeral_text base ws sg ds e"
  shows "\<exists>r. strtoul (ws @ sg @ ds @ e # rest) base = Some (r, Some (length ws + length sg + length ds)) \<and>
    r = (if numeral_value base ds > 2 ^ 32 - 1 then ULONG_MAX
         else word_of_int (if sg = [45] then - numeral_value base ds else numeral_value base ds))"
proof -
  let ?s = "ws @ sg @ ds @ e # rest" and ?neg = "sg = [45]" and ?lim = "uint ULONG_MAX"
  have b: "2 \<le> base" "base \<le> 36" "\<forall>c \<in> set ds. is_digit base c" "\<not> is_digit base e" "ds \<noteq> []"
    using assms by (simp_all add: numeral_text_def)
  have ub: "uint (word_of_int base :: u32) = base" using b(1,2) by (simp add: uint_word_of_int)
  have cl: "sint (word_of_int (?lim mod base) :: u32) = ?lim mod base"
  proof -
    define m where "m = ?lim mod base"
    have "0 \<le> m" "m < base" using b(1) by (simp_all add: m_def)
    then have "sint (word_of_int m :: u32) = m" using b(2) by (intro sint_word_of_int32) simp_all
    then show ?thesis by (simp only: m_def)
  qed
  let ?t = "foldl (\<lambda>t c. add_digit base (word_of_int (?lim div base)) (?lim mod base) (dval c) t) (0, 0) ds"
  have L: "0 \<le> ?lim" "?lim < 2 ^ 32" by simp_all
  obtain acc any where t: "?t = (acc, any)" by (cases ?t)
  then have inv: "acc_inv ?lim (numeral_value base ds) (acc, any)" "any \<noteq> 0"
    using add_digits_inv [OF b(1) L b(3)] b(5) by (simp_all add: Let_def)
  have run: "digit_loop ?s base (word_of_int (?lim div base)) (?lim mod base) (hd (ds @ [e]))
      (length ws + length sg + 1) (0, 0) = Some ((acc, any), length ws + length sg + length ds + 1)"
    using digit_loop_run [OF b(3,4), of ?s "ws @ sg" rest] t by simp
  have pre: "skip_prefix ?s base (hd (ds @ [e])) (length ws + length sg + 1) =
      Some (base, hd (ds @ [e]), length ws + length sg + 1)"
    using prefix_run [OF assms, of ?s "ws @ sg" rest] by simp
  let ?r = "if any < 0 then ULONG_MAX else if ?neg then - acc else acc"
  obtain c i where sc: "skip_space ?s 0 = Some (c, i)"
    "skip_sign ?s c i = Some (?neg, hd (ds @ [e]), length ws + length sg + 1)"
    using scan_run [OF assms, of rest] by blast
  have "strtoul ?s base = Some (?r, Some (length ws + length sg + length ds))"
    unfolding strtoul_def sc bind.simps prod.case pre Let_def ub cl run using inv(2) by simp
  moreover have "?r = (if numeral_value base ds > 2 ^ 32 - 1 then ULONG_MAX
      else word_of_int (if ?neg then - numeral_value base ds else numeral_value base ds))"
  proof (cases "any < 0")
    case False
    then have u: "numeral_value base ds = uint acc" "uint acc \<le> ?lim" using inv(1) by (simp_all add: acc_inv_def)
    then show ?thesis using False by simp
  qed (use inv(1) in \<open>simp add: acc_inv_def\<close>)
  ultimately show ?thesis by blast
qed

subsection \<open>The digits of a number\<close>

lemma sint_eq: "sint a = sint b \<Longrightarrow> a = (b :: u32)"
  by (rule signed_word_eqI)

lemma digits_digit: "d < 36 \<Longrightarrow> digit_value (digits ! d) = Some (int d)"
proof -
  have "list_all (\<lambda>d. digit_value (digits ! d) = Some (int d)) [0..<36]" by code_simp
  then show "d < 36 \<Longrightarrow> digit_value (digits ! d) = Some (int d)" by (simp add: list_all_iff del: upt_rec_numeral)
qed

lemma numeral_value_snoc: "numeral_value b (ds @ [d]) = numeral_value b ds * b + dval d"
  by (simp add: numeral_value_def)

lemma utoa_loop_ok:
  assumes "2 \<le> b" and "b \<le> 36"
  shows "\<exists>ds. utoa_loop v b str = str @ ds \<and> ds \<noteq> [] \<and> (\<forall>c \<in> set ds. is_digit (int b) c) \<and>
    numeral_value (int b) (rev ds) = int v \<and> (length ds > 1 \<longrightarrow> last ds \<noteq> 48)"
  using assms
proof (induction v b str rule: utoa_loop.induct)
  case (1 v b str)
  let ?d = "digits ! (v mod b)"
  have lt: "v mod b < b" using 1(2) by simp
  then have d: "digit_value ?d = Some (int (v mod b))" using 1(3) by (intro digits_digit) simp
  then have dd: "is_digit (int b) ?d" "dval ?d = int (v mod b)" using lt by (simp_all add: is_digit_def dval_def)
  have split: "int (v div b) * int b + int (v mod b) = int v"
    by (simp flip: of_nat_mult of_nat_add)
  show ?case
  proof (cases "v div b = 0")
    case True
    then have "utoa_loop v b str = str @ [?d]" using 1(2) by (subst utoa_loop.simps) (simp add: Let_def)
    moreover have "numeral_value (int b) [?d] = int v"
      using dd(2) split True by (simp add: numeral_value_def)
    ultimately show ?thesis using dd(1) by (intro exI [of _ "[?d]"]) simp
  next
    case False
    then obtain ds where ds: "utoa_loop (v div b) b (str @ [?d]) = (str @ [?d]) @ ds" "ds \<noteq> []"
      "\<forall>c \<in> set ds. is_digit (int b) c" "numeral_value (int b) (rev ds) = int (v div b)"
      "length ds > 1 \<longrightarrow> last ds \<noteq> 48"
      using 1(1) [OF _ refl refl False] 1(2,3) by auto
    have "last ds \<noteq> 48"
    proof (cases "length ds > 1")
      case False
      then obtain c where "ds = [c]" using ds(2) by (cases ds) auto
      moreover have "dval 48 = 0" by (simp add: dval_def digit_value_def)
      ultimately show ?thesis using ds(4) \<open>v div b \<noteq> 0\<close> by (auto simp: numeral_value_def)
    qed (use ds(5) in simp)
    moreover have "utoa_loop v b str = str @ ?d # ds"
      using 1(2) False ds(1) by (subst utoa_loop.simps) (simp add: Let_def)
    moreover have "numeral_value (int b) (rev (?d # ds)) = int v"
      using numeral_value_snoc [of "int b" "rev ds" ?d] ds(4) dd(2) split by simp
    ultimately show ?thesis using ds(2,3) dd(1) by (intro exI [of _ "?d # ds"]) auto
  qed
qed

lemma reverse_loop_nth:
  "i < length xs \<Longrightarrow> length (reverse_loop xs j i) = length xs \<and>
   (\<forall>k < length xs. reverse_loop xs j i ! k = (if j \<le> k \<and> k \<le> i then xs ! (j + i - k) else xs ! k))"
proof (induction xs j i rule: reverse_loop.induct)
  case (1 xs j i)
  show ?case
  proof (cases "j < i")
    case True
    let ?ys = "xs[j := xs ! i, i := xs ! j]"
    have IH: "length (reverse_loop ?ys (j + 1) (i - 1)) = length xs"
      "\<And>k. k < length xs \<Longrightarrow> reverse_loop ?ys (j + 1) (i - 1) ! k =
        (if j + 1 \<le> k \<and> k \<le> i - 1 then ?ys ! (j + i - k) else ?ys ! k)"
      using 1(1) [OF True] 1(2) True by auto
    have e: "reverse_loop xs j i = reverse_loop ?ys (j + 1) (i - 1)"
      using True by (subst reverse_loop.simps) simp
    have "reverse_loop xs j i ! k = (if j \<le> k \<and> k \<le> i then xs ! (j + i - k) else xs ! k)"
      if k: "k < length xs" for k
    proof -
      consider "k = j" | "k = i" | "j < k" "k < i" | "k < j" | "i < k" by linarith
      then show ?thesis
        unfolding e IH(2) [OF k] using True 1(2) by cases (auto simp: nth_list_update)
    qed
    then show ?thesis using IH(1) e by auto
  next
    case False
    then have "reverse_loop xs j i = xs" by (subst reverse_loop.simps) simp
    then show ?thesis using False by (auto intro: arg_cong [of _ _ "\<lambda>k. xs ! k"])
  qed
qed

lemma reverse_loop_rev: "xs \<noteq> [] \<Longrightarrow> reverse_loop xs 0 (length xs - 1) = rev xs"
proof (rule nth_equalityI)
  assume "xs \<noteq> []"
  then have l: "length xs - 1 < length xs" by simp
  note rn = reverse_loop_nth [OF l, of 0]
  show "length (reverse_loop xs 0 (length xs - 1)) = length (rev xs)" using rn by simp
  show "reverse_loop xs 0 (length xs - 1) ! k = rev xs ! k"
    if "k < length (reverse_loop xs 0 (length xs - 1))" for k
    using that rn by (auto simp: rev_nth)
qed

lemma utoa_ok:
  assumes "2 \<le> base" and "base \<le> 36"
  shows "\<exists>ds. utoa v base = (ds @ [0], True) \<and> ds \<noteq> [] \<and> (\<forall>c \<in> set ds. is_digit base c) \<and>
    numeral_value base ds = int (unat v) \<and> (length ds > 1 \<longrightarrow> hd ds \<noteq> 48)"
proof -
  have n: "2 \<le> nat base" "nat base \<le> 36" "int (nat base) = base" using assms by simp_all
  obtain ds where ds: "utoa_loop (unat v) (nat base) [] = ds" "ds \<noteq> []"
    "\<forall>c \<in> set ds. is_digit base c" "numeral_value base (rev ds) = int (unat v)"
    "length ds > 1 \<longrightarrow> last ds \<noteq> 48"
    using utoa_loop_ok [OF n(1,2), of "unat v" "[]"] unfolding n(3) by auto
  then show ?thesis using assms reverse_loop_rev [OF ds(2)]
    by (intro exI [of _ "rev ds"]) (auto simp: utoa_def Let_def hd_rev)
qed

lemma numeral_text_utoa:
  "2 \<le> base \<Longrightarrow> base \<le> 36 \<Longrightarrow> ds \<noteq> [] \<Longrightarrow> \<forall>c \<in> set ds. is_digit base c \<Longrightarrow> sg \<in> {[], [45]} \<Longrightarrow>
   numeral_text base [] sg ds 0"
  by (auto simp: numeral_text_def is_digit_def digit_value_def)

text \<open>
  \<open>strtoul\<close> reads back what \<open>utoa\<close> prints, for every 32-bit number and every base from 2 to 36,
  and stops at the terminator.
\<close>

lemma strtoul_utoa:
  assumes "2 \<le> base" and "base \<le> 36"
  shows "strtoul (fst (utoa v base)) base = Some (v, Some (length (fst (utoa v base)) - 1))"
proof -
  obtain ds where ds: "utoa v base = (ds @ [0], True)" "ds \<noteq> []" "\<forall>c \<in> set ds. is_digit base c"
    "numeral_value base ds = int (unat v)"
    using utoa_ok [OF assms] by blast
  have "int (unat v) \<le> 2 ^ 32 - 1" using unsigned_less [of v, where 'a = int] by simp
  then show ?thesis
    using strtoul_ok [OF numeral_text_utoa [OF assms ds(2,3), of "[]"], of "[]"] ds(1,4) by auto
qed

text \<open>The magnitude both printers convert: every \<open>int\<close> but the most negative one is its sign and it.\<close>

lemma sint_magnitude:
  fixes v :: u32
  assumes "v \<noteq> LONG_MIN"
  shows "(if sint v < 0 then - int (unat (- v)) else int (unat v)) = sint v"
proof (cases "sint v < 0")
  case True
  have "sint v \<noteq> sint LONG_MIN" using assms sint_eq by blast
  then have range: "- (2 ^ 31) < sint v" using sint_ge [of v] by simp
  have "- v = word_of_int (- sint v)" by simp
  then have "sint (- v) = - sint v" using range True by (simp only: sint_word_of_int32)
  then show ?thesis using True sint_nonneg [of "- v"] by simp
qed (simp add: sint_nonneg)

lemma sint_clamp: "max (- (2 ^ 31)) (min (2 ^ 31 - 1) (sint (v :: u32))) = sint v"
  using sint_ge [of v] sint_lt [of v] by simp

text \<open>
  \<open>atoi\<close> reads back what \<open>itoa\<close> prints in decimal for every \<open>int\<close> but one: for the most negative
  \<open>int\<close>, which the comment in the code says the cast is there for, \<open>-value\<close> overflows before it
  is cast.
\<close>

lemma atoi_itoa:
  "case itoa v 10 of None \<Rightarrow> v = LONG_MIN | Some (str, _) \<Rightarrow> v \<noteq> LONG_MIN \<and> atoi str = Some v"
proof (cases "v = LONG_MIN")
  case False
  define m where "m = (if sint v < 0 then - v else v)"
  define sg :: bytes where "sg = (if sint v < 0 then [45] else [])"
  obtain ds where ds: "utoa m 10 = (ds @ [0], True)" "ds \<noteq> []" "\<forall>c \<in> set ds. is_digit 10 c"
    "numeral_value 10 ds = int (unat m)" using utoa_ok [of 10 m] by auto
  have "numeral_text 10 [] sg ds 0" using ds(2,3) by (intro numeral_text_utoa) (simp_all add: sg_def)
  from strtol_ok [OF this, of "[]"] obtain r where
    r: "strtol (sg @ ds @ [0]) 10 = Some (r, Some (length sg + length ds))"
      "sint r = max (- (2 ^ 31)) (min (2 ^ 31 - 1) (if sg = [45] then - int (unat m) else int (unat m)))"
    unfolding ds(4) by auto
  have "(if sg = [45] then - int (unat m) else int (unat m)) = sint v"
    using sint_magnitude [OF False] by (cases "sint v < 0") (simp_all add: m_def sg_def)
  then have "sint r = sint v" using r(2) by (simp only: sint_clamp)
  then have "r = v" by (rule sint_eq)
  then show ?thesis using False ds(1) r(1) by (simp add: itoa_def atoi_def m_def sg_def split: if_splits)
qed (simp add: itoa_def)

end
