(* ===== verification/Stdio.thy ===== *)
theory Stdio
  imports CString Stdlib
begin

text \<open>
  Formatted output, \<open>lib/src/stdio.c\<close>. A routine that writes through \<open>str\<close> gives the bytes it
  writes. \<open>va_list\<close> is the list of the 32-bit words that are left, a pointer among them is looked
  up in \<open>m\<close>, which gives the bytes from there to the end of its object. \<open>int\<close> is kept unbounded with
  its overflows checked: \<^term>\<open>None\<close> is an overflow or an access beyond an object.
\<close>

subsection \<open>Flags and helpers\<close>

text \<open>The bit numbers of the flags.\<close>

abbreviation (input) ZEROPAD :: nat where "ZEROPAD \<equiv> 0"
abbreviation (input) SIGN :: nat where "SIGN \<equiv> 1"
abbreviation (input) PLUS :: nat where "PLUS \<equiv> 2"
abbreviation (input) SPACE :: nat where "SPACE \<equiv> 3"
abbreviation (input) LEFT :: nat where "LEFT \<equiv> 4"
abbreviation (input) HEX_PREP :: nat where "HEX_PREP \<equiv> 5"
abbreviation (input) UPPERCASE :: nat where "UPPERCASE \<equiv> 6"

definition upper_digits :: bytes where
  "upper_digits = [48, 49, 50, 51, 52, 53, 54, 55, 56, 57, 65, 66, 67, 68, 69, 70, 71, 72, 73, 74, 75, 76,
     77, 78, 79, 80, 81, 82, 83, 84, 85, 86, 87, 88, 89, 90]"

definition int_ok :: "int \<Rightarrow> int option" where
  "int_ok n = (if - (2 ^ 31) \<le> n \<and> n < 2 ^ 31 then Some n else None)"

definition is_dec :: "u8 \<Rightarrow> bool" where
  "is_dec c \<longleftrightarrow> 48 \<le> c \<and> c \<le> 57"

text \<open>\<open>skip_atoi\<close> leaves the format at the first character that is no digit.\<close>

fun skip_atoi :: "bytes \<Rightarrow> int \<Rightarrow> (int \<times> bytes) option" where
  "skip_atoi [] i = None"
| "skip_atoi (c # s) i =
     (if is_dec c then do { t \<leftarrow> int_ok (i * 10); t \<leftarrow> int_ok (t + uint c); skip_atoi s (t - 48) }
      else Some (i, c # s))"

text \<open>
  The padding loops. \<open>while (size-- > 0)\<close> is \<open>pad 0 size\<close>, \<open>while (len < size--)\<close> is \<open>pad len size\<close> and
  \<open>while (--size > 0)\<close> is \<open>pad 1 size\<close>; with the characters comes the final value of \<open>size\<close>.
\<close>

function pad :: "int \<Rightarrow> int \<Rightarrow> u8 \<Rightarrow> (bytes \<times> int) option" where
  "pad lim sz c =
     (if lim < sz then map_option (\<lambda>(bs, n). (c # bs, n)) (pad lim (sz - 1) c)
      else map_option (\<lambda>n. ([], n)) (int_ok (sz - 1)))"
  by pat_completeness auto
termination by (relation "measure (\<lambda>(lim, sz, _). nat (sz - lim))") auto

declare pad.simps [simp del]

subsection \<open>Numbers\<close>

text \<open>The digits in \<open>tmp\<close>, the lowest first.\<close>

function num_digits :: "bytes \<Rightarrow> u32 \<Rightarrow> nat \<Rightarrow> bytes" where
  "num_digits dig num base =
     (if num = 0 \<or> base < 2 then []
      else dig ! (unat num mod base) # num_digits dig (of_nat (unat num div base)) base)"
  by pat_completeness auto
termination
proof (relation "measure (\<lambda>(_, num, _). unat num)")
  fix dig :: bytes and num :: u32 and base :: nat
  assume "\<not> (num = 0 \<or> base < 2)"
  then have "0 < unat num" "2 \<le> base" by (simp_all add: unat_gt_0)
  then have "unat num div base < unat num" by (intro div_less_dividend) simp_all
  moreover from this have "unat (of_nat (unat num div base) :: u32) = unat num div base"
    using unsigned_less [of num, where 'a = nat] by (intro unat_of_nat32) simp
  ultimately show "((dig, of_nat (unat num div base), base), (dig, num, base)) \<in>
      measure (\<lambda>(_, num, _). unat num)" by simp
qed simp

declare num_digits.simps [simp del]

text \<open>The sign character (0 for none), the number to print and the width that is left.\<close>

definition num_sign :: "u32 \<Rightarrow> int \<Rightarrow> u32 \<Rightarrow> (u8 \<times> u32 \<times> int) option" where
  "num_sign num sz type =
     (if bit type SIGN then
        (if sint num < 0 then (if num = LONG_MIN then None else Some (45, - num, sz - 1))
         else if bit type PLUS then Some (43, num, sz - 1)
         else if bit type SPACE then Some (32, num, sz - 1)
         else Some (0, num, sz))
      else Some (0, num, sz))"

definition num_prefix :: "int \<Rightarrow> u32 \<Rightarrow> bytes" where
  "num_prefix base type =
     (if bit type HEX_PREP then (if base = 8 then [48] else if base = 16 then [48, digits ! 33] else [])
      else [])"

text \<open>The inner \<^term>\<open>None\<close> is the \<open>NULL\<close> returned for a base that is not supported.\<close>

definition number :: "u32 \<Rightarrow> int \<Rightarrow> int \<Rightarrow> int \<Rightarrow> u32 \<Rightarrow> bytes option option" where
  "number num base sz precision type = do {
     let dig = (if bit type UPPERCASE then upper_digits else digits);
     let type = (if bit type LEFT then unset_bit ZEROPAD type else type);
     (if base < 2 \<or> base > 36 then Some None
      else do {
        let c = (if bit type ZEROPAD then 48 else 32);
        (sign, num, sz) \<leftarrow> num_sign num sz type;
        let sz = (if bit type HEX_PREP then (if base = 16 then sz - 2 else if base = 8 then sz - 1 else sz)
                    else sz);
        let tmp = (if num = 0 then [48] else num_digits dig num (nat base));
        let i = int (length tmp);
        let precision = (if i > precision then i else precision);
        sz \<leftarrow> int_ok (sz - precision);
        (blanks, sz) \<leftarrow> (if \<not> (bit type ZEROPAD \<or> bit type LEFT) then pad 0 sz 32 else Some ([], sz));
        (fill, sz) \<leftarrow> (if \<not> bit type LEFT then pad 0 sz c else Some ([], sz));
        (zeros, _) \<leftarrow> pad i precision 48;
        (trail, _) \<leftarrow> pad 0 sz 32;
        Some (Some (blanks @ (if sign \<noteq> 0 then [sign] else []) @ num_prefix base type @ fill @ zeros @ rev tmp @ trail))
      }) }"

subsection \<open>Addresses\<close>

definition pad_text :: "bytes \<Rightarrow> int \<Rightarrow> u32 \<Rightarrow> bytes option" where
  "pad_text tmp sz type = do {
     (before, sz) \<leftarrow> (if \<not> bit type LEFT then pad (int (length tmp)) sz 32 else Some ([], sz));
     (trail, _) \<leftarrow> pad (int (length tmp)) sz 32;
     Some (before @ tmp @ trail) }"

definition eaddr :: "bytes \<Rightarrow> int \<Rightarrow> u32 \<Rightarrow> bytes option" where
  "eaddr addr sz type = do {
     let dig = (if bit type UPPERCASE then upper_digits else digits);
     tmp \<leftarrow> foldM (\<lambda>tmp i. map_option (\<lambda>b. tmp @ (if i \<noteq> 0 then [58] else []) @
                [dig ! (unat b div 16), dig ! (unat b mod 16)]) (rd addr i)) [] [0..<6];
     pad_text tmp sz type }"

definition iaddr_byte :: "u8 \<Rightarrow> bytes" where
  "iaddr_byte b = (let n = unat b in
     if n = 0 then [digits ! 0]
     else if n \<ge> 100 then [digits ! (n div 100), digits ! (n mod 100 div 10), digits ! (n mod 100 mod 10)]
     else if n \<ge> 10 then [digits ! (n div 10), digits ! (n mod 10)]
     else [digits ! n])"

definition iaddr :: "bytes \<Rightarrow> int \<Rightarrow> u32 \<Rightarrow> bytes option" where
  "iaddr addr sz type = do {
     tmp \<leftarrow> foldM (\<lambda>tmp i. map_option (\<lambda>b. tmp @ (if i \<noteq> 0 then [46] else []) @ iaddr_byte b) (rd addr i)) []
        [0..<4];
     pad_text tmp sz type }"

subsection \<open>A directive\<close>

fun va_arg :: "u32 list \<Rightarrow> (u32 \<times> u32 list) option" where
  "va_arg [] = None"
| "va_arg (a # args) = Some (a, args)"

text \<open>The \<open>repeat:\<close> loop, entered behind the \<open>%\<close>.\<close>

fun fmt_flags :: "bytes \<Rightarrow> u32 \<Rightarrow> (u32 \<times> bytes) option" where
  "fmt_flags [] flags = None"
| "fmt_flags (c # s) flags =
     (if c = 45 then fmt_flags s (set_bit LEFT flags)
      else if c = 43 then fmt_flags s (set_bit PLUS flags)
      else if c = 32 then fmt_flags s (set_bit SPACE flags)
      else if c = 35 then fmt_flags s (set_bit HEX_PREP flags)
      else if c = 48 then fmt_flags s (set_bit ZEROPAD flags)
      else Some (flags, c # s))"

fun fmt_width :: "bytes \<Rightarrow> u32 \<Rightarrow> u32 list \<Rightarrow> (int \<times> u32 \<times> bytes \<times> u32 list) option" where
  "fmt_width [] flags args = None"
| "fmt_width (c # s) flags args =
     (if is_dec c then map_option (\<lambda>(w, s). (w, flags, s, args)) (skip_atoi (c # s) 0)
      else if c = 42 then do {
        (a, args) \<leftarrow> va_arg args;
        (if sint a < 0 then map_option (\<lambda>w. (w, set_bit LEFT flags, s, args)) (int_ok (- sint a))
         else Some (sint a, flags, s, args)) }
      else Some (- 1, flags, c # s, args))"

fun fmt_precision :: "bytes \<Rightarrow> u32 list \<Rightarrow> (int \<times> bytes \<times> u32 list) option" where
  "fmt_precision [] args = None"
| "fmt_precision (c # s) args =
     (if c \<noteq> 46 then Some (- 1, c # s, args)
      else case s of
          [] \<Rightarrow> None
        | d # t \<Rightarrow> do {
            (p, s, args) \<leftarrow>
              (if is_dec d then map_option (\<lambda>(p, s). (p, s, args)) (skip_atoi s 0)
               else if d = 42 then map_option (\<lambda>(a, args). (sint a, t, args)) (va_arg args)
               else Some (- 1, s, args));
            Some (if p < 0 then 0 else p, s, args) })"

text \<open>\<open>qualifier\<close>, 0 for none.\<close>

fun fmt_qualifier :: "bytes \<Rightarrow> (u8 \<times> bytes) option" where
  "fmt_qualifier [] = None"
| "fmt_qualifier (c # s) = (if c = 108 \<or> c = 76 then Some (c, s) else Some (0, c # s))"

definition fmt_char :: "u32 \<Rightarrow> int \<Rightarrow> u32 \<Rightarrow> bytes option" where
  "fmt_char flags width a = do {
     (before, width) \<leftarrow> (if \<not> bit flags LEFT then pad 1 width 32 else Some ([], width));
     (trail, _) \<leftarrow> pad 1 width 32;
     Some (before @ [ucast a] @ trail) }"

text \<open>
  \<open>"<NULL>"\<close> stands in for \<open>NULL\<close>. A precision of \<open>-1\<close> becomes the largest \<open>size_t\<close>, more than
  any object has, so \<open>strnlen\<close> runs to the end of the string.
\<close>

definition fmt_string :: "(u32 \<Rightarrow> bytes) \<Rightarrow> u32 \<Rightarrow> int \<Rightarrow> int \<Rightarrow> u32 \<Rightarrow> bytes option" where
  "fmt_string m flags width precision a = do {
     let s = (if a = 0 then [60, 78, 85, 76, 76, 62, 0] else m a);
     len \<leftarrow> (if precision = - 1 then strlen s else strnlen s (nat precision));
     pad_text (take len s) width flags }"

definition fmt_number :: "u32 \<Rightarrow> int \<Rightarrow> int \<Rightarrow> int \<Rightarrow> u32 \<Rightarrow> bytes option" where
  "fmt_number num base width precision flags = do {
     out \<leftarrow> number num base width precision flags;
     out }"

text \<open>
  The conversion: the characters written, the format behind it and the arguments left. For any
  other character the \<open>%\<close> is printed with it; at the end of the format \<open>--fmt\<close> undoes the step of
  the loop, so that the loop sees the end next.
\<close>

fun fmt_convert :: "(u32 \<Rightarrow> bytes) \<Rightarrow> u32 \<Rightarrow> int \<Rightarrow> int \<Rightarrow> u8 \<Rightarrow> bytes \<Rightarrow> u32 list \<Rightarrow> (bytes \<times> bytes \<times> u32 list) option"
where
  "fmt_convert m flags width precision qualifier [] args = None"
| "fmt_convert m flags width precision qualifier (c # s) args =
     (if c = 99 then do {
        (a, args) \<leftarrow> va_arg args; out \<leftarrow> fmt_char flags width a; Some (out, s, args) }
      else if c = 115 then do {
        (a, args) \<leftarrow> va_arg args; out \<leftarrow> fmt_string m flags width precision a; Some (out, s, args) }
      else if c = 112 then do {
        (a, args) \<leftarrow> va_arg args;
        out \<leftarrow> (if width = - 1 then fmt_number a 16 8 precision (set_bit ZEROPAD flags)
               else fmt_number a 16 width precision flags);
        Some (out, s, args) }
      else if c = 65 \<or> c = 97 then do {
        (a, args) \<leftarrow> va_arg args;
        let flags = (if c = 65 then set_bit UPPERCASE flags else flags);
        out \<leftarrow> (if qualifier = 108 then eaddr (m a) width flags else iaddr (m a) width flags);
        Some (out, s, args) }
      else if c = 111 \<or> c = 88 \<or> c = 120 \<or> c = 100 \<or> c = 105 \<or> c = 117 then do {
        let base = (if c = 111 then 8 else if c = 88 \<or> c = 120 then 16 else 10);
        let flags = (if c = 88 then set_bit UPPERCASE flags
                     else if c = 100 \<or> c = 105 then set_bit SIGN flags else flags);
        (num, args) \<leftarrow> va_arg args;
        out \<leftarrow> fmt_number num base width precision flags;
        Some (out, s, args) }
      else Some ((if c \<noteq> 37 then [37] else []) @ (if c \<noteq> 0 then [c] else []), if c \<noteq> 0 then s else c # s, args))"

definition directive :: "(u32 \<Rightarrow> bytes) \<Rightarrow> bytes \<Rightarrow> u32 list \<Rightarrow> (bytes \<times> bytes \<times> u32 list) option" where
  "directive m s args = do {
     (flags, s) \<leftarrow> fmt_flags s 0;
     (width, flags, s, args) \<leftarrow> fmt_width s flags args;
     (precision, s, args) \<leftarrow> fmt_precision s args;
     (qualifier, s) \<leftarrow> fmt_qualifier s;
     fmt_convert m flags width precision qualifier s args }"

subsection \<open>The format\<close>

lemma fmt_flags_len: "fmt_flags s f = Some (f', s') \<Longrightarrow> length s' \<le> length s"
  by (induction s f rule: fmt_flags.induct) (auto split: if_splits dest: sym)

lemma skip_atoi_len: "skip_atoi s i = Some (n, s') \<Longrightarrow> length s' \<le> length s"
  by (induction s i rule: skip_atoi.induct) (auto split: if_splits bind_splits intro: le_SucI)

lemma fmt_width_len: "fmt_width s f args = Some (w, f', s', args') \<Longrightarrow> length s' \<le> length s"
  by (cases "(s, f, args)" rule: fmt_width.cases)
    (auto simp del: skip_atoi.simps split: if_splits bind_splits dest: skip_atoi_len)

lemma fmt_precision_len: "fmt_precision s args = Some (p, s', args') \<Longrightarrow> length s' \<le> length s"
  by (cases "(s, args)" rule: fmt_precision.cases)
    (auto simp del: skip_atoi.simps split: if_splits bind_splits list.splits dest!: skip_atoi_len)

lemma fmt_qualifier_len: "fmt_qualifier s = Some (q, s') \<Longrightarrow> length s' \<le> length s"
  by (cases s) (auto split: if_splits)

lemma fmt_convert_len: "fmt_convert m f w p q s args = Some (out, s', args') \<Longrightarrow> length s' \<le> length s"
  by (cases s) (auto simp: Let_def split: if_splits bind_splits)

lemma directive_len: "directive m s args = Some (out, s', args') \<Longrightarrow> length s' \<le> length s"
  unfolding directive_def
  by (auto simp del: fmt_convert.simps fmt_flags.simps fmt_width.simps fmt_precision.simps fmt_qualifier.simps
      split: bind_splits
      dest!: fmt_flags_len fmt_width_len fmt_precision_len fmt_qualifier_len fmt_convert_len)

function vsprintf_loop :: "(u32 \<Rightarrow> bytes) \<Rightarrow> bytes \<Rightarrow> u32 list \<Rightarrow> bytes option" where
  "vsprintf_loop m fmt args =
     (case fmt of
        [] \<Rightarrow> None
      | c # s \<Rightarrow>
          if c = 0 then Some []
          else if c \<noteq> 37 then map_option ((#) c) (vsprintf_loop m s args)
          else (case directive m s args of
              None \<Rightarrow> None
            | Some (out, s, args) \<Rightarrow> map_option ((@) out) (vsprintf_loop m s args)))"
  by pat_completeness auto
termination
  by (relation "measure (\<lambda>(_, fmt, _). length fmt)") (auto dest: directive_len)

declare vsprintf_loop.simps [simp del]

text \<open>What is stored at \<open>buf\<close> and the number of characters before the terminator.\<close>

definition vsprintf :: "(u32 \<Rightarrow> bytes) \<Rightarrow> bytes \<Rightarrow> u32 list \<Rightarrow> (nat \<times> bytes) option" where
  "vsprintf m fmt args = map_option (\<lambda>out. (length out, out @ [0])) (vsprintf_loop m fmt args)"

text \<open>\<open>vcprintf\<close> formats into 512 bytes on its stack, whatever the length.\<close>

definition vcprintf :: "(bytes \<Rightarrow> 's \<Rightarrow> 's option) \<Rightarrow> (u32 \<Rightarrow> bytes) \<Rightarrow> bytes \<Rightarrow> u32 list \<Rightarrow> 's \<Rightarrow> (nat \<times> 's) option"
where
  "vcprintf putstr m fmt args st = do {
     (r, buf) \<leftarrow> vsprintf m fmt args;
     (if length buf > 512 then None else do { st \<leftarrow> putstr buf st; Some (r, st) }) }"

subsection \<open>The shape of a printed number\<close>

lemma pad_ok:
  assumes "0 \<le> lim" and "- (2 ^ 31) < sz" and "sz < 2 ^ 31"
  shows "pad lim sz c = Some (replicate (nat (sz - lim)) c, (if lim < sz then lim else sz) - 1)"
  using assms
proof (induction lim sz c rule: pad.induct)
  case (1 lim sz c)
  show ?case
  proof (cases "lim < sz")
    case True
    then have "nat (sz - lim) = Suc (nat (sz - 1 - lim))" by simp
    then show ?thesis using 1 True by (subst pad.simps) (auto simp: not_less)
  next
    case False
    then show ?thesis using 1(2-4) by (subst pad.simps) (simp add: int_ok_def)
  qed
qed

lemma digit_chars:
  assumes "dig \<in> {digits, upper_digits}" and "d < 36"
  shows "digit_value (dig ! d) = Some (int d)"
proof -
  have "list_all (\<lambda>d. digit_value (upper_digits ! d) = Some (int d)) [0..<36]" by code_simp
  then have "digit_value (upper_digits ! d) = Some (int d)"
    using assms(2) by (simp add: list_all_iff del: upt_rec_numeral)
  then show ?thesis using assms digits_digit by auto
qed

lemma num_digits_ok:
  assumes "dig \<in> {digits, upper_digits}" and "2 \<le> b" and "b \<le> 36"
  shows "(\<forall>c \<in> set (num_digits dig v b). is_digit (int b) c) \<and>
    numeral_value (int b) (rev (num_digits dig v b)) = int (unat v) \<and> (v \<noteq> 0 \<longrightarrow> num_digits dig v b \<noteq> [])"
  using assms
proof (induction dig v b rule: num_digits.induct)
  case (1 dig v b)
  show ?case
  proof (cases "v = 0")
    case True
    then show ?thesis by (subst (1 2 3) num_digits.simps) (simp add: numeral_value_def)
  next
    case False
    let ?q = "unat v div b" and ?d = "dig ! (unat v mod b)"
    have "?q < 2 ^ 32" using unsigned_less [of v, where 'a = nat] le_less_trans [of ?q "unat v"] by simp
    then have q: "unat (of_nat ?q :: u32) = ?q" by (rule unat_of_nat32)
    have lt: "unat v mod b < b" using 1(3) by simp
    then have "digit_value ?d = Some (int (unat v mod b))" using 1(2,4) by (intro digit_chars) auto
    then have d: "is_digit (int b) ?d" "dval ?d = int (unat v mod b)"
      using lt by (simp_all add: is_digit_def dval_def)
    have u: "num_digits dig v b = ?d # num_digits dig (of_nat ?q) b"
      using False 1(3) by (subst num_digits.simps) simp
    have split: "int ?q * int b + int (unat v mod b) = int (unat v)"
      by (simp flip: of_nat_mult of_nat_add)
    show ?thesis using 1(1) False 1(2-4) d split q unfolding u by (simp add: numeral_value_snoc)
  qed
qed

lemma num_digits_short: "2 \<le> b \<Longrightarrow> unat v < 2 ^ k \<Longrightarrow> k \<le> 32 \<Longrightarrow> length (num_digits dig v b) \<le> k"
proof (induction k arbitrary: v)
  case 0
  then show ?case by (subst num_digits.simps) (simp add: unat_eq_0)
next
  case (Suc k)
  let ?q = "unat v div b"
  have "?q \<le> unat v div 2" using Suc.prems(1) by (intro div_le_mono2) simp_all
  then have q: "?q < 2 ^ k" using Suc.prems(2) by simp
  moreover have "(2 :: nat) ^ k < 2 ^ 32" using Suc.prems(3) by (intro power_strict_increasing) simp_all
  ultimately have "unat (of_nat ?q :: u32) = ?q" by (intro unat_of_nat32) simp
  then show ?case using Suc q by (subst num_digits.simps) simp
qed

lemma num_sign_ok:
  assumes "bit type SIGN \<Longrightarrow> num \<noteq> LONG_MIN"
  shows "\<exists>c sg. num_sign num sz type = Some (c, if sg = [45] then - num else num, sz - int (length sg)) \<and>
    sg = (if c \<noteq> 0 then [c] else []) \<and>
    (if bit type SIGN then (sg = [45] \<longleftrightarrow> sint num < 0) \<and> sg \<in> {[], [45], [43], [32]} else sg = [])"
proof -
  let ?c = "if bit type SIGN then (if sint num < 0 then 45 else if bit type PLUS then 43
      else if bit type SPACE then 32 else 0) else 0 :: u8"
  show ?thesis using assms
    by (intro exI [of _ ?c] exI [of _ "if ?c \<noteq> 0 then [?c] else []"]) (simp add: num_sign_def)
qed

lemma num_sign_cong: "\<forall>k > 0. bit t k = bit t' k \<Longrightarrow> num_sign num sz t = num_sign num sz t'"
  by (simp add: num_sign_def)

text \<open>The layout: one of the three pads takes what the width leaves.\<close>

lemma layout:
  assumes "- (2 ^ 31) + 2 < sz" and "sz < 2 ^ 31"
  shows "\<exists>a z b s1 s2 s3.
    (if \<not> (zero \<or> left) then pad 0 sz 32 else Some ([], sz)) = Some (replicate a 32, s1) \<and>
    (if \<not> left then pad 0 s1 (if zero then 48 else 32) else Some ([], s1)) = Some (replicate z 48, s2) \<and>
    pad 0 s2 32 = Some (replicate b 32, s3) \<and> int (a + z + b) = max sz 0"
proof -
  have p: "pad 0 n c = Some (replicate (nat n) c, (if 0 < n then 0 else n) - 1)"
    if "- (2 ^ 31) < n" "n < 2 ^ 31" for n c using pad_ok [of 0 n c] that by simp
  define s1 where "s1 = (if 0 < sz then 0 else sz) - 1"
  define s2 where "s2 = (if 0 < s1 then 0 else s1) - 1"
  have s: "s1 < 0" "s2 < 0" "- (2 ^ 31) < s1" "- (2 ^ 31) < s2" "s1 < 2 ^ 31" "s2 < 2 ^ 31"
    using assms by (auto simp: s1_def s2_def)
  have P: "pad 0 sz c = Some (replicate (nat sz) c, s1)" "pad 0 s1 c = Some ([], s2)"
    "pad 0 s2 c = Some ([], s2 - 1)" for c
    using assms s p [of sz c] p [of s1 c] p [of s2 c] by (simp_all add: s1_def s2_def)
  have m: "int (nat sz) = max sz 0" by simp
  consider "left" | "\<not> left" "zero" | "\<not> left" "\<not> zero" by blast
  then show ?thesis
  proof cases
    case 1
    then show ?thesis using P m
      by (intro exI [of _ 0] exI [of _ 0] exI [of _ "nat sz"] exI [of _ sz] exI [of _ sz] exI [of _ s1]) simp
  next
    case 2
    then show ?thesis using P m
      by (intro exI [of _ 0] exI [of _ "nat sz"] exI [of _ 0] exI [of _ sz] exI [of _ s1] exI [of _ s2]) simp
  next
    case 3
    then show ?thesis using P m
      by (intro exI [of _ "nat sz"] exI [of _ 0] exI [of _ 0] exI [of _ s1] exI [of _ s2] exI [of _ "s2 - 1"]) simp
  qed
qed

lemma number_shape:
  assumes base: "2 \<le> base" "base \<le> 36" and sz: "- 1 \<le> sz" "sz < 2 ^ 31"
    and prec: "- 1 \<le> prec" "prec < 2 ^ 31 - 40"
    and num: "bit type SIGN \<longrightarrow> num \<noteq> LONG_MIN"
  shows "\<exists>a sg z ds b. number num base sz prec type =
      Some (Some (replicate a 32 @ sg @ num_prefix base type @ replicate z 48 @ ds @ replicate b 32)) \<and>
    ds \<noteq> [] \<and> (\<forall>c \<in> set ds. is_digit base c) \<and>
    (if bit type SIGN then (sg = [45] \<longleftrightarrow> sint num < 0) \<and> sg \<in> {[], [45], [43], [32]} else sg = []) \<and>
    numeral_value base ds = int (unat (if sg = [45] then - num else num)) \<and>
    prec \<le> int (z + length ds) \<and>
    int (a + length sg + length (num_prefix base type) + z + length ds + b) =
      max sz (int (length sg + length (num_prefix base type)) + max prec (int (length ds)))"
proof -
  define t where "t = (if bit type LEFT then unset_bit ZEROPAD type else type)"
  define dig where "dig = (if bit type UPPERCASE then upper_digits else digits)"
  have t: "bit t k \<longleftrightarrow> bit type k" if "0 < k" for k using that by (simp add: t_def bit_unset_bit_iff)
  obtain c sg where s: "num_sign num sz type = Some (c, if sg = [45] then - num else num, sz - int (length sg))"
    "sg = (if c \<noteq> 0 then [c] else [])"
    "if bit type SIGN then (sg = [45] \<longleftrightarrow> sint num < 0) \<and> sg \<in> {[], [45], [43], [32]} else sg = []"
    using num_sign_ok [of type num sz] num by blast
  define v where "v = (if sg = [45] then - num else num)"
  define tmp where "tmp = (if v = 0 then [48] else num_digits dig v (nat base))"
  define n where "n = int (length tmp)"
  define pre where "pre = num_prefix base type"
  have b: "2 \<le> nat base" "nat base \<le> 36" "int (nat base) = base" using base by simp_all
  have "dig \<in> {digits, upper_digits}" by (simp add: dig_def)
  note dg = num_digits_ok [OF this b(1,2), of v, unfolded b(3)]
  have "length (num_digits dig v (nat base)) \<le> 32"
    using unsigned_less [of v, where 'a = nat] b(1) by (intro num_digits_short) simp_all
  then have n: "0 \<le> n" "n \<le> 32" "tmp \<noteq> []" using dg by (auto simp: n_def tmp_def)
  have tmp: "\<forall>c \<in> set (rev tmp). is_digit base c" "numeral_value base (rev tmp) = int (unat v)"
    using dg base by (auto simp: tmp_def is_digit_def digit_value_def numeral_value_def dval_def)
  have sgl: "length sg \<le> 1" using s(2) by simp
  have prel: "length pre \<le> 2" by (simp add: pre_def num_prefix_def)
  define w where "w = sz - int (length sg) - int (length pre) - max n prec"
  have size: "- (2 ^ 31) + 2 < w" "w < 2 ^ 31" using sz prec n(1,2) sgl prel unfolding w_def by linarith+
  obtain a z b' s1 s2 s3 where L:
    "(if \<not> (bit t ZEROPAD \<or> bit t LEFT) then pad 0 w 32 else Some ([], w)) = Some (replicate a 32, s1)"
    "(if \<not> bit t LEFT then pad 0 s1 (if bit t ZEROPAD then 48 else 32) else Some ([], s1)) =
       Some (replicate z 48, s2)"
    "pad 0 s2 32 = Some (replicate b' 32, s3)" "int (a + z + b') = max w 0"
    using layout [OF size, of "bit t ZEROPAD" "bit t LEFT"] by blast
  have w: "(if bit t HEX_PREP then (if base = 16 then sz - int (length sg) - 2
      else if base = 8 then sz - int (length sg) - 1 else sz - int (length sg)) else sz - int (length sg)) =
      sz - int (length sg) - int (length pre)"
    using t [of HEX_PREP] by (simp add: pre_def num_prefix_def)
  have mx: "(if n > prec then n else prec) = max n prec" by simp
  have zeros: "pad n (max n prec) 48 =
      Some (replicate (nat (max n prec - n)) 48, (if n < max n prec then n else max n prec) - 1)"
    using prec n(1,2) by (intro pad_ok) auto
  have pre': "num_prefix base t = pre" using t [of HEX_PREP] by (simp add: pre_def num_prefix_def)
  have up: "bit t UPPERCASE = bit type UPPERCASE" by (rule t) simp
  have sn: "num_sign num sz t = num_sign num sz type" by (intro num_sign_cong) (simp add: t)
  have ok: "int_ok w = Some w" using size by (simp add: int_ok_def)
  have "number num base sz prec type = Some (Some (replicate a 32 @ sg @ pre @
      replicate (z + nat (max n prec - n)) 48 @ rev tmp @ replicate b' 32))"
    using base
    unfolding number_def Let_def t_def [symmetric] dig_def [symmetric] sn s(1) bind.simps prod.case
      v_def [symmetric] tmp_def [symmetric] n_def [symmetric] w mx pre' w_def [symmetric] ok L(1,2,3) zeros
      s(2) [symmetric]
    by (simp add: replicate_add)
  moreover have "prec \<le> int (z + nat (max n prec - n) + length (rev tmp))"
    by (simp add: n_def)
  moreover have "int (a + length sg + length pre + (z + nat (max n prec - n)) + length (rev tmp) + b') =
      max sz (int (length sg + length pre) + max prec (int (length (rev tmp))))"
    using L(4) by (simp add: n_def [symmetric] w_def)
  ultimately show ?thesis using n(3) tmp s(3) unfolding v_def pre_def by blast
qed

subsection \<open>Printing and reading\<close>

lemma numeral_value_zeros: "numeral_value base (replicate z 48 @ ds) = numeral_value base ds"
proof (induction z)
  case (Suc z)
  have "dval 48 = 0" by (simp add: dval_def digit_value_def)
  then show ?case using Suc by (simp add: numeral_value_def)
qed simp

text \<open>
  What \<open>number\<close> prints, the numbers of every \<open>%d\<close>, \<open>%i\<close>, \<open>%u\<close>, \<open>%o\<close>, \<open>%x\<close> and \<open>%X\<close>, \<open>strtol\<close> reads
  back, or \<open>strtoul\<close> for an unsigned number, whatever the base, the width, the precision and the flags
  other than the \<open>#\<close> prefix; and the text is at least as long as the width asks for.
\<close>

lemma number_reads_back:
  assumes "2 \<le> base" "base \<le> 36" and "- 1 \<le> width" "width < 2 ^ 31"
    and "- 1 \<le> prec" "prec < 2 ^ 31 - 40"
    and "\<not> bit type HEX_PREP" and "bit type SIGN \<Longrightarrow> num \<noteq> LONG_MIN"
  shows "\<exists>out n. number num base width prec type = Some (Some out) \<and>
    (if bit type SIGN then strtol else strtoul) (out @ [0]) base = Some (num, Some n) \<and>
    max width prec \<le> int (length out)"
proof -
  have pre: "num_prefix base type = []" using assms(7) by (simp add: num_prefix_def)
  have num: "bit type SIGN \<longrightarrow> num \<noteq> LONG_MIN" using assms(8) by blast
  obtain a sg z ds b where o: "number num base width prec type =
      Some (Some (replicate a 32 @ sg @ replicate z 48 @ ds @ replicate b 32))"
    and ds: "ds \<noteq> []" "\<forall>c \<in> set ds. is_digit base c"
    and sg: "if bit type SIGN then (sg = [45] \<longleftrightarrow> sint num < 0) \<and> sg \<in> {[], [45], [43], [32]} else sg = []"
    and val: "numeral_value base ds = int (unat (if sg = [45] then - num else num))"
    and len: "int (a + length sg + z + length ds + b) = max width (int (length sg) + max prec (int (length ds)))"
    using number_shape [OF assms(1-6) num] unfolding pre append_Nil list.size add_0_right by blast
  define ws :: bytes where "ws = replicate a 32 @ (if sg = [32] then [32] else [])"
  define sgn where "sgn = (if sg = [32] then [] else sg)"
  let ?ds = "replicate z 48 @ ds"
  obtain e :: u8 and tail where e: "replicate b 32 @ [0] = e # tail" "e = 0 \<or> e = 32" by (cases b) simp_all
  have dig: "is_digit base 48" "\<not> is_digit base 0" "\<not> is_digit base 32"
    using assms(1) by (simp_all add: is_digit_def digit_value_def)
  have sgn: "sgn \<in> {[], [43], [45]}" using sg by (auto simp: sgn_def split: if_splits)
  have "\<forall>c \<in> set ws. isspace c" by (auto simp: ws_def isspace_def split: if_splits)
  moreover have "\<forall>c \<in> set ?ds. is_digit base c" "?ds \<noteq> []" using ds dig by auto
  moreover have "\<not> is_digit base e" "e \<noteq> 120" "e \<noteq> 88" using e(2) dig by auto
  ultimately have t: "numeral_text base ws sgn ?ds e"
    using assms(1,2) sgn unfolding numeral_text_def by blast
  have flat: "(replicate a 32 @ sg @ replicate z 48 @ ds @ replicate b 32) @ [0] =
      ws @ sgn @ ?ds @ e # tail" using e(1) by (simp add: ws_def sgn_def)
  have v: "numeral_value base ?ds = int (unat (if sgn = [45] then - num else num))"
    using val by (simp add: numeral_value_zeros sgn_def)
  have "\<exists>n. (if bit type SIGN then strtol else strtoul)
      ((replicate a 32 @ sg @ replicate z 48 @ ds @ replicate b 32) @ [0]) base = Some (num, Some n)"
  proof (cases "bit type SIGN")
    case True
    obtain r n where r: "strtol (ws @ sgn @ ?ds @ e # tail) base = Some (r, Some n)"
      "sint r = max (- (2 ^ 31)) (min (2 ^ 31 - 1)
        (if sgn = [45] then - numeral_value base ?ds else numeral_value base ?ds))"
      using strtol_ok [OF t] by blast
    have "(if sgn = [45] then - numeral_value base ?ds else numeral_value base ?ds) = sint num"
    proof -
      have "sgn = [45] \<longleftrightarrow> sint num < 0" using sg True by (auto simp: sgn_def)
      then show ?thesis unfolding v using sint_magnitude [OF assms(8) [OF True]] by (cases "sint num < 0") simp_all
    qed
    then have "sint r = sint num" using r(2) by (simp only: sint_clamp)
    then have "r = num" by (rule sint_eq)
    then show ?thesis using r(1) True unfolding flat by auto
  next
    case False
    then have "sg = []" using sg by simp
    have "int (unat num) \<le> 2 ^ 32 - 1" using unsigned_less [of num, where 'a = int] by simp
    then show ?thesis using strtoul_ok [OF t, of tail] v False \<open>sg = []\<close>
      unfolding flat by (auto simp: sgn_def)
  qed
  then show ?thesis using o len by (intro exI [of _ "replicate a 32 @ sg @ replicate z 48 @ ds @ replicate b 32"]) auto
qed

end
