(* ===== verification/UserIo.thy ===== *)
theory UserIo
  imports CString Stdlib Stdio
begin

text \<open>
  Input and output of user programs, \<open>user/ulib/scanf.c\<close> and \<open>user/ulib/printf.c\<close>: characters of
  descriptor 0 through a buffer of 256 bytes, lines, \<open>scanf\<close>, \<open>printf\<close> and \<open>fprintf\<close>. What the system
  call \<open>read\<close> will return is the list \<open>sin_reads\<close>: the bytes of each call, none at the end of the file,
  \<^term>\<open>None\<close> for \<open>-1\<close>; when the list is used up, \<open>read\<close> is at the end of the file.
\<close>

subsection \<open>Characters\<close>

abbreviation (input) STDIN_SIZE :: nat where "STDIN_SIZE \<equiv> 256"

record stdin =
  sin_buf :: bytes
  sin_head :: int
  sin_tail :: int
  sin_reads :: "bytes option list"

definition refill :: "stdin \<Rightarrow> int \<times> stdin" where
  "refill s =
     (let (r, rest) = (case sin_reads s of [] \<Rightarrow> (Some [], []) | r # rest \<Rightarrow> (r, rest));
          s = s\<lparr>sin_head := 0, sin_reads := rest\<rparr>
      in case r of
        None \<Rightarrow> (- 1, s\<lparr>sin_tail := - 1\<rparr>)
      | Some xs \<Rightarrow> (int (length xs), s\<lparr>sin_buf := patch (sin_buf s) 0 xs, sin_tail := int (length xs)\<rparr>))"

text \<open>\<open>head == tail && refill() == 0\<close>.\<close>

definition at_eof :: "stdin \<Rightarrow> bool \<times> stdin" where
  "at_eof s = (if sin_head s = sin_tail s then let (r, s) = refill s in (r = 0, s) else (False, s))"

definition buf_char :: "stdin \<Rightarrow> u8 option" where
  "buf_char s = (if 0 \<le> sin_head s \<and> sin_head s < int STDIN_SIZE then Some (sin_buf s ! nat (sin_head s)) else None)"

definition u_getchar :: "stdin \<Rightarrow> (u8 \<times> stdin) option" where
  "u_getchar s =
     (let (e, s) = at_eof s in
      if e then Some (0, s)
      else do { c \<leftarrow> buf_char s; Some (c, s\<lparr>sin_head := sin_head s + 1\<rparr>) })"

definition peekchar :: "stdin \<Rightarrow> (u8 \<times> stdin) option" where
  "peekchar s =
     (let (e, s) = at_eof s in
      if e then Some (0, s) else do { c \<leftarrow> buf_char s; Some (c, s) })"

subsection \<open>Lines and words\<close>

partial_function (option) remove_space :: "stdin \<Rightarrow> stdin option" where
  "remove_space s = do {
     (ch, s) \<leftarrow> peekchar s;
     if ch \<noteq> 0 \<and> isspace ch then do { (_, s) \<leftarrow> u_getchar s; remove_space s } else Some s }"

text \<open>The loop of \<open>gets\<close>, \<open>n\<close> characters before the end of the space: what is stored, and whether it ended
  at \<open>fin\<close>.\<close>

function gets_loop :: "nat \<Rightarrow> bytes \<Rightarrow> bool \<Rightarrow> stdin \<Rightarrow> (bytes \<times> bool \<times> stdin) option" where
  "gets_loop n delim contain s =
     (if n = 0 then Some ([], False, s)
      else do {
        (ch, s) \<leftarrow> peekchar s;
        if ch = 0 then Some ([], True, s)
        else if ch \<in> set delim then
          (if contain then do { (c, s) \<leftarrow> u_getchar s; Some ([c], True, s) } else Some ([], True, s))
        else do {
          (c, s) \<leftarrow> u_getchar s;
          (cs, fin, s) \<leftarrow> gets_loop (n - 1) delim contain s;
          Some (c # cs, fin, s) } })"
  by pat_completeness auto
termination by (relation "measure fst") auto

declare gets_loop.simps [simp del]

partial_function (option) throw_loop :: "bytes \<Rightarrow> stdin \<Rightarrow> stdin option" where
  "throw_loop delim s = do {
     (ch, s) \<leftarrow> peekchar s;
     if ch = 0 \<or> ch \<in> set delim then Some s
     else do { (_, s) \<leftarrow> u_getchar s; throw_loop delim s } }"

text \<open>What \<open>gets\<close> stores, without the terminator it stores last.\<close>

definition gets :: "u32 \<Rightarrow> bytes \<Rightarrow> bool \<Rightarrow> bool \<Rightarrow> stdin \<Rightarrow> (bytes \<times> stdin) option" where
  "gets sz delim throw contain s = do {
     (cs, fin, s) \<leftarrow> gets_loop (unat (sz - 1)) delim contain s;
     if throw \<and> \<not> fin then do { s \<leftarrow> throw_loop delim s; Some (cs, s) } else Some (cs, s) }"

definition getline :: "u32 \<Rightarrow> stdin \<Rightarrow> (bytes \<times> stdin) option" where
  "getline sz s = gets sz [10] False True s"

subsection \<open>scanf\<close>

text \<open>What is stored through the pointers, in order.\<close>

datatype scanned = SChar u8 | SStr bytes | SNum u32

definition scan_delim :: bytes where
  "scan_delim = [32, 9, 10]"

definition scan_num :: "bool \<Rightarrow> int \<Rightarrow> stdin \<Rightarrow> (scanned \<times> stdin) option" where
  "scan_num sign base s = do {
     s \<leftarrow> remove_space s;
     (buf, s) \<leftarrow> gets 32 scan_delim True False s;
     (v, _) \<leftarrow> (if sign then strtol (buf @ [0]) base else strtoul (buf @ [0]) base);
     Some (SNum v, s) }"

text \<open>The loop over the format: the count \<open>res\<close> and what is stored.\<close>

fun scanf :: "bytes \<Rightarrow> stdin \<Rightarrow> (int \<times> scanned list \<times> stdin) option" where
  "scanf [] s = None"
| "scanf (p # ps) s =
     (if p = 0 then Some (0, [], s)
      else if isspace p then do { s \<leftarrow> remove_space s; scanf ps s }
      else if p = 37 then
        (case ps of
          [] \<Rightarrow> None
        | d # ps' \<Rightarrow>
            if d = 99 then do {
              (c, s) \<leftarrow> u_getchar s; (r, vs, s) \<leftarrow> scanf ps' s; Some (r + 1, SChar c # vs, s) }
            else if d = 115 then do {
              s \<leftarrow> remove_space s; (cs, s) \<leftarrow> gets (- 1) scan_delim True False s;
              (r, vs, s) \<leftarrow> scanf ps' s; Some (r + 1, SStr cs # vs, s) }
            else if d = 100 \<or> d = 117 \<or> d = 120 then do {
              (v, s) \<leftarrow> scan_num (d = 100) (if d = 120 then 16 else 10) s;
              (r, vs, s) \<leftarrow> scanf ps' s; Some (r + 1, v # vs, s) }
            else scanf ps s)
      else do {
        (ch, s) \<leftarrow> peekchar s;
        if p = ch then do { (_, s) \<leftarrow> u_getchar s; scanf ps s } else scanf ps s })"

subsection \<open>printf\<close>

text \<open>\<open>write\<close> is the system call on the state \<open>'s\<close>.\<close>

definition putstr :: "(u32 \<Rightarrow> bytes \<Rightarrow> 's \<Rightarrow> (u32 \<times> 's) option) \<Rightarrow> bytes \<Rightarrow> 's \<Rightarrow> 's option" where
  "putstr write str w = do {
     n \<leftarrow> strlen str;
     (_, w) \<leftarrow> write 1 (take n str) w;
     Some w }"

definition printf :: "(u32 \<Rightarrow> bytes \<Rightarrow> 's \<Rightarrow> (u32 \<times> 's) option) \<Rightarrow> (u32 \<Rightarrow> bytes) \<Rightarrow> bytes \<Rightarrow> u32 list \<Rightarrow> 's \<Rightarrow> (nat \<times> 's) option"
where
  "printf write m format args w = vcprintf (putstr write) m format args w"

definition fprintf :: "(u32 \<Rightarrow> bytes \<Rightarrow> 's \<Rightarrow> (u32 \<times> 's) option) \<Rightarrow> (u32 \<Rightarrow> bytes) \<Rightarrow> u32 \<Rightarrow> bytes \<Rightarrow> u32 list \<Rightarrow> 's \<Rightarrow> (u32 \<times> 's) option"
where
  "fprintf write m fd format args w = do {
     (r, str) \<leftarrow> vsprintf m format args;
     if length str > 512 then None else write fd (take r str) w }"

subsection \<open>The stream of characters\<close>

text \<open>The characters that can be read before the next call of \<open>read\<close> that is at the end of the file.\<close>

fun upcoming :: "bytes option list \<Rightarrow> bytes" where
  "upcoming (Some (x # xs) # rs) = x # xs @ upcoming rs"
| "upcoming rs = []"

definition stream :: "stdin \<Rightarrow> bytes" where
  "stream s = drop (nat (sin_head s)) (take (nat (sin_tail s)) (sin_buf s)) @ upcoming (sin_reads s)"

text \<open>What the calls of \<open>read\<close> leave: a buffer of 256 bytes with \<open>head \<le> tail\<close>; no call fails.\<close>

definition sin_ok :: "stdin \<Rightarrow> bool" where
  "sin_ok s \<longleftrightarrow> length (sin_buf s) = STDIN_SIZE \<and> 0 \<le> sin_head s \<and> sin_head s \<le> sin_tail s \<and>
     sin_tail s \<le> int STDIN_SIZE \<and> (\<forall>r \<in> set (sin_reads s). \<exists>xs. r = Some xs \<and> length xs \<le> STDIN_SIZE)"

lemma refill_ok:
  assumes "sin_ok s" and "sin_head s = sin_tail s"
  obtains s' where "at_eof s = (stream s = [], s')" and "sin_ok s'" and "stream s \<noteq> [] \<Longrightarrow> stream s' = stream s \<and> sin_head s' < sin_tail s'"
    and "stream s = [] \<Longrightarrow> sin_head s' = sin_tail s'"
proof -
  have st: "stream s = upcoming (sin_reads s)" using assms by (simp add: stream_def sin_ok_def)
  show thesis
  proof (cases "sin_reads s")
    case Nil
    then show thesis using assms st by (intro that [of "snd (refill s)"]) (auto simp: at_eof_def refill_def sin_ok_def)
  next
    case (Cons r rs)
    then obtain xs where r: "r = Some xs" "length xs \<le> STDIN_SIZE" using assms(1) by (auto simp: sin_ok_def)
    have l: "length (patch (sin_buf s) 0 xs) = STDIN_SIZE" using assms(1) r by (simp add: sin_ok_def)
    have t: "take (length xs) (patch (sin_buf s) 0 xs) = xs" by (simp add: patch_def)
    have st': "stream s = [] \<longleftrightarrow> xs = []" using Cons r st by (cases xs) auto
    show thesis
      by (rule that [of "snd (refill s)"])
        (use assms Cons r l t st st' in \<open>auto simp: at_eof_def refill_def sin_ok_def stream_def neq_Nil_conv\<close>)
  qed
qed

lemma stream_cases:
  assumes "sin_ok s"
  obtains (eof) s' where "stream s = []" and "at_eof s = (True, s')" and "sin_ok s'"
  | (char) c cs s' where "stream s = c # cs" and "at_eof s = (False, s')" and "sin_ok s'"
      and "buf_char s' = Some c" and "stream s' = c # cs" and "sin_ok (s'\<lparr>sin_head := sin_head s' + 1\<rparr>)"
      and "stream (s'\<lparr>sin_head := sin_head s' + 1\<rparr>) = cs"
proof -
  obtain s' where e: "at_eof s = (stream s = [], s')" "sin_ok s'" "stream s \<noteq> [] \<Longrightarrow> stream s' = stream s \<and> sin_head s' < sin_tail s'"
  proof (cases "sin_head s = sin_tail s")
    case True
    show thesis by (rule refill_ok [OF assms True]) (rule that, auto)
  next
    case False
    then have "sin_head s < sin_tail s" using assms by (simp add: sin_ok_def)
    moreover from this have "stream s \<noteq> []" using assms by (auto simp: stream_def sin_ok_def)
    ultimately show thesis using False assms by (intro that [of s]) (simp_all add: at_eof_def)
  qed
  show thesis
  proof (cases "stream s")
    case Nil
    then show thesis using e eof by simp
  next
    case (Cons c cs)
    then have s': "stream s' = c # cs" "sin_head s' < sin_tail s'" using e(3) by auto
    let ?h = "nat (sin_head s')" and ?t = "nat (sin_tail s')"
    have b: "0 \<le> sin_head s'" "?h < ?t" "?t \<le> length (sin_buf s')" "sin_head s' < int STDIN_SIZE"
      using e(2) s'(2) by (auto simp: sin_ok_def)
    have d: "drop ?h (take ?t (sin_buf s')) = sin_buf s' ! ?h # drop (Suc ?h) (take ?t (sin_buf s'))"
      using b by (subst Cons_nth_drop_Suc [symmetric]) auto
    have n: "nat (sin_head s' + 1) = Suc ?h" using b(1) by simp
    have c: "buf_char s' = Some c" "stream (s'\<lparr>sin_head := sin_head s' + 1\<rparr>) = cs"
      using s'(1) d n b(1,4) by (auto simp: stream_def buf_char_def)
    have "sin_ok (s'\<lparr>sin_head := sin_head s' + 1\<rparr>)" using e(2) s'(2) by (auto simp: sin_ok_def)
    then show thesis using char [OF Cons _ e(2) c(1) s'(1)] e(1) Cons c(2) by simp
  qed
qed

lemma peekchar_ok:
  assumes "sin_ok s"
  obtains s' where "peekchar s = Some (case stream s of [] \<Rightarrow> 0 | c # _ \<Rightarrow> c, s')" and "sin_ok s'"
    and "stream s \<noteq> [] \<longrightarrow> stream s' = stream s"
  by (rule stream_cases [OF assms]) (use that in \<open>auto simp: peekchar_def\<close>)

lemma getchar_ok:
  assumes "sin_ok s" and "stream s = c # cs"
  obtains s' where "u_getchar s = Some (c, s')" and "sin_ok s'" and "stream s' = cs"
  by (rule stream_cases [OF assms(1)]) (use assms(2) that in \<open>auto simp: u_getchar_def\<close>)

subsection \<open>Lines\<close>

text \<open>The first line of a text, with its newline, cut after \<open>n\<close> characters.\<close>

fun line_of :: "nat \<Rightarrow> bytes \<Rightarrow> bytes" where
  "line_of 0 xs = []"
| "line_of (Suc n) [] = []"
| "line_of (Suc n) (x # xs) = x # (if x = 10 then [] else line_of n xs)"

lemma line_of_prefix: "\<exists>rest. xs = line_of n xs @ rest"
  by (induction n xs rule: line_of.induct) auto

lemma line_of_Nil [simp]: "line_of n [] = []"
  by (cases n) auto

text \<open>The line is complete: it has its newline or as many characters as fit.\<close>

definition whole_line :: "nat \<Rightarrow> bytes \<Rightarrow> bool" where
  "whole_line n l \<longleftrightarrow> length l = n \<or> l \<noteq> [] \<and> last l = 10"

lemma gets_loop_line:
  assumes "sin_ok s" and "0 \<notin> set (stream s)"
  shows "\<exists>fin s'. gets_loop n [10] True s = Some (line_of n (stream s), fin, s') \<and> sin_ok s' \<and>
    (whole_line n (line_of n (stream s)) \<longrightarrow> stream s = line_of n (stream s) @ stream s')"
  using assms
proof (induction n arbitrary: s)
  case 0
  then show ?case by (intro exI [of _ False] exI [of _ s]) (simp add: gets_loop.simps)
next
  case (Suc n)
  obtain s1 where p: "peekchar s = Some (case stream s of [] \<Rightarrow> 0 | c # _ \<Rightarrow> c, s1)" "sin_ok s1"
    "stream s \<noteq> [] \<longrightarrow> stream s1 = stream s" by (rule peekchar_ok [OF Suc.prems(1)])
  show ?case
  proof (cases "stream s")
    case Nil
    then show ?thesis using p
      by (intro exI [of _ True] exI [of _ s1]) (subst gets_loop.simps, simp add: whole_line_def)
  next
    case (Cons c cs)
    then have c: "c \<noteq> 0" "stream s1 = c # cs" using Suc.prems(2) p(3) by auto
    obtain s2 where g: "u_getchar s1 = Some (c, s2)" "sin_ok s2" "stream s2 = cs" by (rule getchar_ok [OF p(2) c(2)])
    show ?thesis
    proof (cases "c = 10")
      case True
      then show ?thesis using p g Cons
        by (intro exI [of _ True] exI [of _ s2]) (subst gets_loop.simps, simp)
    next
      case False
      have "0 \<notin> set (stream s2)" using g(3) Cons Suc.prems(2) by simp
      from Suc.IH [OF g(2) this] obtain fin s' where r: "gets_loop n [10] True s2 = Some (line_of n cs, fin, s')" "sin_ok s'"
        "whole_line n (line_of n cs) \<longrightarrow> cs = line_of n cs @ stream s'" unfolding g(3) by blast
      have l: "gets_loop (Suc n) [10] True s = Some (c # line_of n cs, fin, s')"
        using p(1) g(1) r(1) c(1) Cons False by (subst gets_loop.simps) simp
      show ?thesis using l r(2,3) Cons False
        by (auto simp: whole_line_def split: if_splits)
    qed
  qed
qed

text \<open>
  \<open>getline\<close> stores the next line of the input with its newline, cut after the characters that fit
  before the terminator or at the end of the file, however the calls of \<open>read\<close> have cut the input into
  pieces; when the line is complete, the next reader starts right behind it.
\<close>

lemma getline_takes_line:
  assumes "sin_ok s" and "0 \<notin> set (stream s)"
  shows "\<exists>s'. getline n s = Some (line_of (unat (n - 1)) (stream s), s') \<and> sin_ok s' \<and>
    (whole_line (unat (n - 1)) (line_of (unat (n - 1)) (stream s)) \<longrightarrow>
      stream s = line_of (unat (n - 1)) (stream s) @ stream s')"
proof -
  obtain fin s' where "gets_loop (unat (n - 1)) [10] True s = Some (line_of (unat (n - 1)) (stream s), fin, s')" "sin_ok s'"
    "whole_line (unat (n - 1)) (line_of (unat (n - 1)) (stream s)) \<longrightarrow>
      stream s = line_of (unat (n - 1)) (stream s) @ stream s'"
    using gets_loop_line [OF assms] by blast
  then show ?thesis by (intro exI [of _ s']) (simp add: getline_def gets_def)
qed

text \<open>\<open>ab\<close> of one \<open>read\<close>, the rest of the line and more of the next.\<close>

definition typed_ab :: stdin where
  "typed_ab = \<lparr>sin_buf = replicate 256 0, sin_head = 0, sin_tail = 0, sin_reads = [Some [97, 98], Some [99, 10, 100]]\<rparr>"

subsection \<open>Numbers\<close>

lemma remove_space_ok:
  assumes "sin_ok s" and "stream s = ws @ c # xs" and "\<forall>w \<in> set ws. isspace w" and "\<not> isspace c"
  shows "\<exists>s'. remove_space s = Some s' \<and> sin_ok s' \<and> stream s' = c # xs"
  using assms
proof (induction ws arbitrary: s)
  case Nil
  obtain s1 where p: "peekchar s = Some (case stream s of [] \<Rightarrow> 0 | c # _ \<Rightarrow> c, s1)" "sin_ok s1"
    "stream s \<noteq> [] \<longrightarrow> stream s1 = stream s" by (rule peekchar_ok [OF Nil.prems(1)])
  then show ?case using Nil.prems by (subst remove_space.simps) auto
next
  case (Cons w ws)
  obtain s1 where p: "peekchar s = Some (case stream s of [] \<Rightarrow> 0 | c # _ \<Rightarrow> c, s1)" "sin_ok s1"
    "stream s \<noteq> [] \<longrightarrow> stream s1 = stream s" by (rule peekchar_ok [OF Cons.prems(1)])
  have st: "stream s1 = w # ws @ c # xs" using p(3) Cons.prems(2) by simp
  obtain s2 where g: "u_getchar s1 = Some (w, s2)" "sin_ok s2" "stream s2 = ws @ c # xs" by (rule getchar_ok [OF p(2) st])
  obtain s' where r: "remove_space s2 = Some s'" "sin_ok s'" "stream s' = c # xs"
    using Cons.IH [OF g(2,3)] Cons.prems(3,4) by auto
  have "w \<noteq> 0" "isspace w" using Cons.prems(3) by (auto simp: isspace_def)
  then have "remove_space s = Some s'" using p(1) g(1) r(1) Cons.prems(2) by (subst remove_space.simps) simp
  then show ?case using r(2,3) by blast
qed

lemma gets_loop_word:
  assumes "sin_ok s" and "stream s = cs @ d # xs" and "\<forall>c \<in> set cs. c \<noteq> 0 \<and> c \<notin> set delim" and "d \<in> set delim" and "d \<noteq> 0"
    and "length cs < n"
  shows "\<exists>s'. gets_loop n delim False s = Some (cs, True, s') \<and> sin_ok s' \<and> stream s' = d # xs"
  using assms
proof (induction cs arbitrary: s n)
  case Nil
  obtain s1 where p: "peekchar s = Some (case stream s of [] \<Rightarrow> 0 | c # _ \<Rightarrow> c, s1)" "sin_ok s1"
    "stream s \<noteq> [] \<longrightarrow> stream s1 = stream s" by (rule peekchar_ok [OF Nil.prems(1)])
  then show ?case using Nil.prems by (subst gets_loop.simps) auto
next
  case (Cons c cs)
  obtain s1 where p: "peekchar s = Some (case stream s of [] \<Rightarrow> 0 | c # _ \<Rightarrow> c, s1)" "sin_ok s1"
    "stream s \<noteq> [] \<longrightarrow> stream s1 = stream s" by (rule peekchar_ok [OF Cons.prems(1)])
  have st: "stream s1 = c # cs @ d # xs" using p(3) Cons.prems(2) by simp
  obtain s2 where g: "u_getchar s1 = Some (c, s2)" "sin_ok s2" "stream s2 = cs @ d # xs" by (rule getchar_ok [OF p(2) st])
  obtain s' where r: "gets_loop (n - 1) delim False s2 = Some (cs, True, s')" "sin_ok s'" "stream s' = d # xs"
    using Cons.IH [OF g(2,3) _ Cons.prems(4,5), of "n - 1"] Cons.prems(3,6) by fastforce
  have "gets_loop n delim False s = Some (c # cs, True, s')"
    using p(1) g(1) r(1) Cons.prems(2,3,6) by (subst gets_loop.simps) auto
  then show ?case using r(2,3) by blast
qed

lemma isspace_delim: "isspace c \<longleftrightarrow> c \<in> set scan_delim"
  by (simp add: isspace_def scan_delim_def)

lemma digit_plain: "is_digit 10 c \<Longrightarrow> c \<noteq> 0 \<and> \<not> isspace c"
  using digit_not_space [of 10 c] by (auto simp: is_digit_def digit_value_def)

lemma scan_num_ok:
  assumes "sin_ok s" and "stream s = ws @ sg @ ds @ e # xs" and ws: "\<forall>w \<in> set ws. isspace w" and e: "isspace e"
    and t: "numeral_text 10 [] sg ds 0" and len: "length (sg @ ds) < 31"
  shows "\<exists>v s'. scan_num True 10 s = Some (SNum v, s') \<and> sin_ok s' \<and> stream s' = e # xs \<and>
    sint v = max (- (2 ^ 31)) (min (2 ^ 31 - 1) (if sg = [45] then - numeral_value 10 ds else numeral_value 10 ds))"
proof -
  have d: "ds \<noteq> []" "\<forall>c \<in> set ds. is_digit 10 c" "sg \<in> {[], [43], [45]}" using t by (auto simp: numeral_text_def)
  have sp: "\<forall>c \<in> set (sg @ ds). c \<noteq> 0 \<and> \<not> isspace c"
    using d digit_plain by (auto simp: isspace_def)
  obtain c cs where cs: "sg @ ds = c # cs" using d(1) by (cases "sg @ ds") auto
  have st: "stream s = ws @ c # cs @ e # xs" using assms(2) cs by (metis append.assoc append_Cons)
  have "\<not> isspace c" using sp cs by simp
  then obtain s1 where s1: "remove_space s = Some s1" "sin_ok s1" "stream s1 = c # cs @ e # xs"
    using remove_space_ok [OF assms(1) st ws] by blast
  have st1: "stream s1 = (sg @ ds) @ e # xs" using s1(3) cs by simp
  have e: "e \<in> set scan_delim" "e \<noteq> 0" using e by (auto simp: isspace_delim scan_delim_def)
  have u: "unat (32 - 1 :: u32) = 31" by simp
  obtain s2 where s2: "gets_loop 31 scan_delim False s1 = Some (sg @ ds, True, s2)" "sin_ok s2" "stream s2 = e # xs"
    using gets_loop_word [OF s1(2) st1 _ e len] sp isspace_delim by blast
  then have g: "gets 32 scan_delim True False s1 = Some (sg @ ds, s2)" unfolding gets_def u by simp
  from strtol_ok [OF t, of "[]"] obtain v where "strtol ((sg @ ds) @ [0]) 10 = Some (v, Some (length sg + length ds))"
    "sint v = max (- (2 ^ 31)) (min (2 ^ 31 - 1) (if sg = [45] then - numeral_value 10 ds else numeral_value 10 ds))" by auto
  then show ?thesis using s1(1) g s2 by (intro exI [of _ v] exI [of _ s2]) (simp add: scan_num_def)
qed

text \<open>Numbers separated by blanks, as the triples of blanks, sign and digits, each with the blank behind it.\<close>

definition num_item :: "bytes \<times> bytes \<times> bytes \<times> u8 \<Rightarrow> bool" where
  "num_item t \<longleftrightarrow> (case t of (ws, sg, ds, e) \<Rightarrow>
     numeral_text 10 ws sg ds 0 \<and> isspace e \<and> length sg + length ds < 31)"

definition item_text :: "bytes \<times> bytes \<times> bytes \<times> u8 \<Rightarrow> bytes" where
  "item_text t = (case t of (ws, sg, ds, e) \<Rightarrow> ws @ sg @ ds @ [e])"

definition item_value :: "bytes \<times> bytes \<times> bytes \<times> u8 \<Rightarrow> int" where
  "item_value t = (case t of (ws, sg, ds, e) \<Rightarrow>
     max (- (2 ^ 31)) (min (2 ^ 31 - 1) (if sg = [45] then - numeral_value 10 ds else numeral_value 10 ds)))"

lemma scanf_numbers:
  assumes "sin_ok s" and "\<forall>t \<in> set ts. num_item t" and "\<forall>w \<in> set pre. isspace w"
    and "stream s = pre @ concat (map item_text ts) @ rest"
  shows "\<exists>vs s'. scanf (concat (replicate (length ts) [37, 100]) @ [0]) s = Some (int (length ts), map SNum vs, s') \<and>
    map sint vs = map item_value ts \<and> sin_ok s' \<and> (\<exists>pre'. (\<forall>w \<in> set pre'. isspace w) \<and> stream s' = pre' @ rest)"
  using assms
proof (induction ts arbitrary: s pre)
  case Nil
  then show ?case by (intro exI [of _ "[]"]) auto
next
  case (Cons t ts)
  obtain ws sg ds e where t: "t = (ws, sg, ds, e)" by (cases t)
  have n: "numeral_text 10 ws sg ds 0" "isspace e" "length (sg @ ds) < 31" using Cons.prems(2) t by (auto simp: num_item_def)
  have st: "stream s = (pre @ ws) @ sg @ ds @ e # concat (map item_text ts) @ rest"
    using Cons.prems(4) item_text_def [of t] by (simp add: t)
  have w: "\<forall>w \<in> set (pre @ ws). isspace w" using Cons.prems(3) n(1) by (auto simp: numeral_text_def)
  have t0: "numeral_text 10 [] sg ds 0" using n(1) by (simp add: numeral_text_def)
  obtain v s1 where v: "scan_num True 10 s = Some (SNum v, s1)" "sin_ok s1" "stream s1 = e # concat (map item_text ts) @ rest"
    "sint v = item_value t"
    using scan_num_ok [OF Cons.prems(1) st w n(2) t0 n(3)] t by (auto simp: item_value_def)
  have s1: "stream s1 = [e] @ concat (map item_text ts) @ rest" using v(3) by simp
  obtain vs s' where r: "scanf (concat (replicate (length ts) [37, 100]) @ [0]) s1 = Some (int (length ts), map SNum vs, s')"
    "map sint vs = map item_value ts" "sin_ok s'" "\<exists>pre'. (\<forall>w \<in> set pre'. isspace w) \<and> stream s' = pre' @ rest"
    using Cons.IH [OF v(2) _ _ s1] Cons.prems(2) n(2) by auto
  have "scanf (concat (replicate (length (t # ts)) [37, 100]) @ [0]) s = Some (int (length (t # ts)), map SNum (v # vs), s')"
    using v(1) r(1) by (simp add: isspace_def)
  then show ?case using r(2-4) v(4) by (intro exI [of _ "v # vs"] exI [of _ s']) simp
qed

text \<open>
  \<open>scanf\<close> with one \<open>%d\<close> for each of the numbers of the input, whatever blanks are between them and
  however \<open>read\<close> cuts the text into pieces, stores the integers the texts denote in order, clamped to the
  range of \<open>int\<close>, returns how many they are, and leaves the text behind them.
\<close>

lemma scanf_reads_numbers:
  assumes "sin_ok s" and "\<forall>t \<in> set ts. num_item t" and "stream s = concat (map item_text ts) @ rest"
  shows "\<exists>vs s'. scanf (concat (replicate (length ts) [37, 100]) @ [0]) s = Some (int (length ts), map SNum vs, s') \<and>
    map sint vs = map item_value ts \<and> (\<exists>pre. (\<forall>w \<in> set pre. isspace w) \<and> stream s' = pre @ rest)"
  using scanf_numbers [OF assms(1,2), of "[]" rest] assms(3) by auto

text \<open>\<open>12 -3\<close>, the second number in the next piece.\<close>

end
