(* ===== verification/Tools.thy ===== *)
theory Tools
  imports UserIo
begin

text \<open>
  Small programs of \<open>user/src/phase6\<close>: \<open>cat\<close>, \<open>wc\<close>, \<open>head\<close>, \<open>echo\<close>, \<open>rm\<close> and \<open>mkdir\<close>. What a program does to the world is
  a record \<open>os\<close> of its system calls, on a state \<open>'s\<close> that also holds the program's memory; a buffer is an address.
  The programs end with a status.
\<close>

subsection \<open>System calls\<close>

text \<open>
  \<open>os_load\<close> is a load from the program's memory, \<open>os_text\<close> a \<open>write\<close> of a text that the C library has formatted,
  \<open>os_string\<close> the string at an address.
\<close>

record 's os =
  os_read :: "u32 \<Rightarrow> u32 \<Rightarrow> u32 \<Rightarrow> 's \<Rightarrow> (u32 \<times> 's) option"
  os_write :: "u32 \<Rightarrow> u32 \<Rightarrow> u32 \<Rightarrow> 's \<Rightarrow> (u32 \<times> 's) option"
  os_open :: "u32 \<Rightarrow> u32 \<Rightarrow> 's \<Rightarrow> (u32 \<times> 's) option"
  os_close :: "u32 \<Rightarrow> 's \<Rightarrow> (u32 \<times> 's) option"
  os_unlink :: "u32 \<Rightarrow> 's \<Rightarrow> (u32 \<times> 's) option"
  os_load :: "'s \<Rightarrow> u32 \<Rightarrow> nat \<Rightarrow> bytes option"
  os_string :: "'s \<Rightarrow> u32 \<Rightarrow> bytes"
  os_text :: "u32 \<Rightarrow> bytes \<Rightarrow> 's \<Rightarrow> (u32 \<times> 's) option"

datatype 'a ended = Exit u32 | Go 'a

text \<open>\<open>fprintf(2, ...)\<close> and \<open>exit(1)\<close>.\<close>

definition die :: "'s os \<Rightarrow> bytes \<Rightarrow> u32 list \<Rightarrow> 's \<Rightarrow> ('a ended \<times> 's) option" where
  "die os msg args s = do { (_, s) \<leftarrow> fprintf (os_text os) (os_string os s) 2 msg args s; Some (Exit 1, s) }"

abbreviation (input) BUF :: u32 where "BUF \<equiv> 4096"

subsection \<open>cat\<close>

text \<open>The loop of \<open>cat\<close>: the last result of \<open>read\<close>, or \<^term>\<open>None\<close> after a write error.\<close>

partial_function (option) cat_loop :: "'s os \<Rightarrow> u32 \<Rightarrow> u32 \<Rightarrow> 's \<Rightarrow> (u32 option \<times> 's) option" where
  "cat_loop os buf fd s = do {
     (n, s) \<leftarrow> os_read os fd buf BUF s;
     if sint n > 0 then do {
       (m, s) \<leftarrow> os_write os 1 buf n s;
       if m \<noteq> n then Some (None, s) else cat_loop os buf fd s }
     else Some (Some n, s) }"

definition cat_write_error :: bytes where
  "cat_write_error = [99, 97, 116, 58, 32, 119, 114, 105, 116, 101, 32, 101, 114, 114, 111, 114, 10, 0]"

definition cat_read_error :: bytes where
  "cat_read_error = [99, 97, 116, 58, 32, 114, 101, 97, 100, 32, 101, 114, 114, 111, 114, 10, 0]"

definition cat_open_error :: bytes where
  "cat_open_error = [99, 97, 116, 58, 32, 99, 97, 110, 110, 111, 116, 32, 111, 112, 101, 110, 32, 37, 115, 10, 0]"

definition cat :: "'s os \<Rightarrow> u32 \<Rightarrow> u32 \<Rightarrow> 's \<Rightarrow> (unit ended \<times> 's) option" where
  "cat os buf fd s = do {
     (r, s) \<leftarrow> cat_loop os buf fd s;
     (case r of
        None \<Rightarrow> die os cat_write_error [] s
      | Some n \<Rightarrow> if sint n < 0 then die os cat_read_error [] s else Some (Go (), s)) }"

text \<open>The loop over the arguments, the same in \<open>cat\<close>, \<open>wc\<close> and \<open>head\<close>: open, work, close.\<close>

fun each_file :: "'s os \<Rightarrow> ('s \<Rightarrow> u32 \<Rightarrow> (unit ended \<times> 's) option) \<Rightarrow> (u32 \<Rightarrow> u32 \<Rightarrow> 's \<Rightarrow> (unit ended \<times> 's) option) \<Rightarrow>
    u32 list \<Rightarrow> 's \<Rightarrow> (u32 \<times> 's) option" where
  "each_file os cannot work [] s = Some (0, s)"
| "each_file os cannot work (a # argv) s = do {
     (fd, s) \<leftarrow> os_open os a 0 s;
     if sint fd < 0 then do {
       (r, s) \<leftarrow> cannot s a; (case r of Exit c \<Rightarrow> Some (c, s) | Go _ \<Rightarrow> None) }
     else do {
       (r, s) \<leftarrow> work fd a s;
       (case r of
          Exit c \<Rightarrow> Some (c, s)
        | Go _ \<Rightarrow> do { (_, s) \<leftarrow> os_close os fd s; each_file os cannot work argv s }) } }"

text \<open>A program without file arguments works on descriptor 0.\<close>

definition on_stdin :: "(unit ended \<times> 's) option \<Rightarrow> (u32 \<times> 's) option" where
  "on_stdin r = do { (r, s) \<leftarrow> r; (case r of Exit c \<Rightarrow> Some (c, s) | Go _ \<Rightarrow> Some (0, s)) }"

definition cat_main :: "'s os \<Rightarrow> u32 \<Rightarrow> u32 list \<Rightarrow> 's \<Rightarrow> (u32 \<times> 's) option" where
  "cat_main os buf argv s =
     (if length argv \<le> 1 then on_stdin (cat os buf 0 s)
      else each_file os (\<lambda>s a. die os cat_open_error [a] s) (\<lambda>fd a. cat os buf fd) (tl argv) s)"

subsection \<open>wc\<close>

text \<open>
  Lines, words and characters so far, and whether the last character was in a word. The C \<open>int\<close>s do not
  overflow on files as large as the file system has.
\<close>

record wcs =
  wc_l :: int
  wc_w :: int
  wc_c :: int
  inword :: bool

definition wc_zero :: wcs where
  "wc_zero = \<lparr>wc_l = 0, wc_w = 0, wc_c = 0, inword = False\<rparr>"

definition wc_space :: bytes where
  "wc_space = [32, 13, 9, 10, 11, 0]"

definition wc_char :: "u8 \<Rightarrow> wcs \<Rightarrow> wcs" where
  "wc_char b t =
     (let t = t\<lparr>wc_c := wc_c t + 1\<rparr>;
          t = (if b = 10 then t\<lparr>wc_l := wc_l t + 1\<rparr> else t) in
      if strchr wc_space b \<noteq> Some None then t\<lparr>inword := False\<rparr>
      else if \<not> inword t then t\<lparr>wc_w := wc_w t + 1, inword := True\<rparr> else t)"

partial_function (option) wc_loop :: "'s os \<Rightarrow> u32 \<Rightarrow> u32 \<Rightarrow> wcs \<Rightarrow> 's \<Rightarrow> (u32 \<times> wcs \<times> 's) option" where
  "wc_loop os buf fd t s = do {
     (n, s) \<leftarrow> os_read os fd buf BUF s;
     if sint n > 0 then do {
       bs \<leftarrow> os_load os s buf (unat n);
       wc_loop os buf fd (fold wc_char bs t) s }
     else Some (n, t, s) }"

definition wc_read_error :: bytes where
  "wc_read_error = [119, 99, 58, 32, 114, 101, 97, 100, 32, 101, 114, 114, 111, 114, 10, 0]"

definition wc_open_error :: bytes where
  "wc_open_error = [119, 99, 58, 32, 99, 97, 110, 110, 111, 116, 32, 111, 112, 101, 110, 32, 37, 115, 10, 0]"

definition wc_format :: bytes where
  "wc_format = [37, 100, 32, 37, 100, 32, 37, 100, 32, 37, 115, 10, 0]"

definition wc_print :: "'s os \<Rightarrow> bytes \<Rightarrow> u32 list \<Rightarrow> 's \<Rightarrow> (nat \<times> 's) option" where
  "wc_print os fmt args s = printf (os_text os) (os_string os s) fmt args s"

definition wc :: "'s os \<Rightarrow> u32 \<Rightarrow> u32 \<Rightarrow> u32 \<Rightarrow> 's \<Rightarrow> (unit ended \<times> 's) option" where
  "wc os buf fd name s = do {
     (n, t, s) \<leftarrow> wc_loop os buf fd wc_zero s;
     if sint n < 0 then do { (_, s) \<leftarrow> wc_print os wc_read_error [] s; Some (Exit 1, s) }
     else do {
       (_, s) \<leftarrow> wc_print os wc_format [of_int (wc_l t), of_int (wc_w t), of_int (wc_c t), name] s;
       Some (Go (), s) } }"

text \<open>\<open>nul\<close> is the address of the empty string.\<close>

definition wc_main :: "'s os \<Rightarrow> u32 \<Rightarrow> u32 \<Rightarrow> u32 list \<Rightarrow> 's \<Rightarrow> (u32 \<times> 's) option" where
  "wc_main os buf nul argv s =
     (if length argv \<le> 1 then on_stdin (wc os buf 0 nul s)
      else each_file os (\<lambda>s a. do { (_, s) \<leftarrow> wc_print os wc_open_error [a] s; Some (Exit 1, s) })
        (\<lambda>fd a. wc os buf fd a) (tl argv) s)"

subsection \<open>head\<close>

definition head_write_error :: bytes where
  "head_write_error = [104, 101, 97, 100, 58, 32, 119, 114, 105, 116, 101, 32, 101, 114, 114, 111, 114, 10, 0]"

definition head_read_error :: bytes where
  "head_read_error = [104, 101, 97, 100, 58, 32, 114, 101, 97, 100, 32, 101, 114, 114, 111, 114, 10, 0]"

definition head_open_error :: bytes where
  "head_open_error = [104, 101, 97, 100, 58, 32, 99, 97, 110, 110, 111, 116, 32, 111, 112, 101, 110, 32, 37, 115, 10, 0]"

definition write_s :: "'s os \<Rightarrow> u32 \<Rightarrow> u32 \<Rightarrow> u32 \<Rightarrow> 's \<Rightarrow> (u32 ended \<times> 's) option" where
  "write_s os fd buf count s = do {
     (m, s) \<leftarrow> os_write os fd buf count s;
     if m \<noteq> count then die os head_write_error [] s else Some (Go count, s) }"

text \<open>
  The inner loop, \<open>i\<close> bytes into the buffer: the lines found and whether the program goes on. The string
  functions look for a newline or a terminator from there to the end of the array and beyond, which is undefined.
\<close>

partial_function (option) head_lines :: "'s os \<Rightarrow> u32 \<Rightarrow> nat \<Rightarrow> nat \<Rightarrow> 's \<Rightarrow> (nat ended \<times> 's) option" where
  "head_lines os buf i line s =
     (if line \<ge> 10 then Some (Go line, s)
      else do {
        bs \<leftarrow> os_load os s (buf + of_nat i) (unat BUF - i);
        e \<leftarrow> strchr bs 10;
        (case e of
           Some k \<Rightarrow> do {
             (r, s) \<leftarrow> write_s os 1 (buf + of_nat i) (of_nat (k + 1)) s;
             (case r of Exit c \<Rightarrow> Some (Exit c, s) | Go _ \<Rightarrow> head_lines os buf (i + k + 1) (line + 1) s) }
         | None \<Rightarrow> do {
             k \<leftarrow> strlen bs;
             (r, s) \<leftarrow> write_s os 1 (buf + of_nat i) (of_nat k) s;
             (case r of Exit c \<Rightarrow> Some (Exit c, s) | Go _ \<Rightarrow> Some (Go line, s)) }) })"

text \<open>The outer loop, with the last result of \<open>read\<close>.\<close>

partial_function (option) head_loop :: "'s os \<Rightarrow> u32 \<Rightarrow> u32 \<Rightarrow> nat \<Rightarrow> u32 \<Rightarrow> 's \<Rightarrow> (u32 ended \<times> 's) option" where
  "head_loop os buf fd line n s =
     (if line \<ge> 10 then Some (Go n, s)
      else do {
        (n, s) \<leftarrow> os_read os fd buf BUF s;
        if sint n > 0 then do {
          (r, s) \<leftarrow> head_lines os buf 0 line s;
          (case r of Exit c \<Rightarrow> Some (Exit c, s) | Go line \<Rightarrow> head_loop os buf fd line n s) }
        else Some (Go n, s) })"

definition head :: "'s os \<Rightarrow> u32 \<Rightarrow> u32 \<Rightarrow> 's \<Rightarrow> (unit ended \<times> 's) option" where
  "head os buf fd s = do {
     (r, s) \<leftarrow> head_loop os buf fd 0 0 s;
     (case r of
        Exit c \<Rightarrow> Some (Exit c, s)
      | Go n \<Rightarrow> if sint n < 0 then die os head_read_error [] s else Some (Go (), s)) }"

definition head_main :: "'s os \<Rightarrow> u32 \<Rightarrow> u32 list \<Rightarrow> 's \<Rightarrow> (u32 \<times> 's) option" where
  "head_main os buf argv s =
     (if length argv \<le> 1 then on_stdin (head os buf 0 s)
      else each_file os (\<lambda>s a. die os head_open_error [a] s) (\<lambda>fd a. head os buf fd) (tl argv) s)"

subsection \<open>echo, rm, mkdir\<close>

text \<open>The loop of \<open>echo\<close>; \<open>sp\<close> and \<open>nl\<close> are the addresses of the strings of a space and of a newline.\<close>

fun echo_loop :: "'s os \<Rightarrow> u32 \<Rightarrow> u32 \<Rightarrow> u32 list \<Rightarrow> 's \<Rightarrow> (u32 \<times> 's) option" where
  "echo_loop os sp nl [] s = Some (0, s)"
| "echo_loop os sp nl (a # argv) s = do {
     n \<leftarrow> strlen (os_string os s a);
     (_, s) \<leftarrow> os_write os 1 a (of_nat n) s;
     (_, s) \<leftarrow> os_write os 1 (if argv \<noteq> [] then sp else nl) 1 s;
     echo_loop os sp nl argv s }"

definition echo_main :: "'s os \<Rightarrow> u32 \<Rightarrow> u32 \<Rightarrow> u32 list \<Rightarrow> 's \<Rightarrow> (u32 \<times> 's) option" where
  "echo_main os sp nl argv s = echo_loop os sp nl (tl argv) s"

definition usage_rm :: bytes where
  "usage_rm = [85, 115, 97, 103, 101, 58, 32, 114, 109, 32, 102, 105, 108, 101, 115, 46, 46, 46, 10, 0]"

definition rm_error :: bytes where
  "rm_error = [114, 109, 58, 32, 37, 115, 32, 102, 97, 105, 108, 101, 100, 32, 116, 111, 32, 100, 101, 108, 101,
     116, 101, 10, 0]"

text \<open>The first file that cannot be removed ends the loop, but not with an error status.\<close>

fun rm_loop :: "'s os \<Rightarrow> u32 list \<Rightarrow> 's \<Rightarrow> (u32 \<times> 's) option" where
  "rm_loop os [] s = Some (0, s)"
| "rm_loop os (a # argv) s = do {
     (r, s) \<leftarrow> os_unlink os a s;
     if sint r < 0 then do { (_, s) \<leftarrow> fprintf (os_text os) (os_string os s) 2 rm_error [a] s; Some (0, s) }
     else rm_loop os argv s }"

definition rm_main :: "'s os \<Rightarrow> u32 list \<Rightarrow> 's \<Rightarrow> (u32 \<times> 's) option" where
  "rm_main os argv s =
     (if length argv < 2 then do { (_, s) \<leftarrow> fprintf (os_text os) (os_string os s) 2 usage_rm [] s; Some (1, s) }
      else rm_loop os (tl argv) s)"

definition usage_mkdir :: bytes where
  "usage_mkdir = [85, 115, 97, 103, 101, 58, 32, 109, 107, 100, 105, 114, 32, 102, 105, 108, 101, 115, 46, 46, 46,
     10, 0]"

definition mkdir_error :: bytes where
  "mkdir_error = [109, 107, 100, 105, 114, 58, 32, 37, 115, 32, 102, 97, 105, 108, 101, 100, 32, 116, 111, 32, 99,
     114, 101, 97, 116, 101, 10, 0]"

fun mkdir_loop :: "'s os \<Rightarrow> u32 list \<Rightarrow> 's \<Rightarrow> (u32 \<times> 's) option" where
  "mkdir_loop os [] s = Some (0, s)"
| "mkdir_loop os (a # argv) s = do {
     (fd, s) \<leftarrow> os_open os a (0x200 OR 0x800) s;
     if sint fd < 0 then do { (_, s) \<leftarrow> fprintf (os_text os) (os_string os s) 2 mkdir_error [a] s; Some (0, s) }
     else do { (_, s) \<leftarrow> os_close os fd s; mkdir_loop os argv s } }"

definition mkdir_main :: "'s os \<Rightarrow> u32 list \<Rightarrow> 's \<Rightarrow> (u32 \<times> 's) option" where
  "mkdir_main os argv s =
     (if length argv < 2 then do { (_, s) \<leftarrow> fprintf (os_text os) (os_string os s) 2 usage_mkdir [] s; Some (1, s) }
      else mkdir_loop os (tl argv) s)"

end
