(* ===== verification/ToolsProps.thy ===== *)
theory ToolsProps
  imports Tools
begin

text \<open>
  What \<open>cat\<close>, \<open>wc\<close> and \<open>head\<close> do with a file, whatever the system calls run on: the interface \<open>file_source\<close> is what they need
  of \<open>read\<close>, \<open>file_to_output\<close> what \<open>cat\<close> needs of \<open>write\<close> as well, \<open>text_to_output\<close> what \<open>head\<close> needs of its buffer.
\<close>

subsection \<open>Words\<close>

text \<open>The words of a text, cut at white space.\<close>

definition wspace :: "u8 \<Rightarrow> bool" where
  "wspace b \<longleftrightarrow> b \<in> set wc_space"

function words :: "bytes \<Rightarrow> bytes list" where
  "words [] = []"
| "words (x # xs) = (if wspace x then words xs
     else (x # takeWhile (\<lambda>b. \<not> wspace b) xs) # words (dropWhile (\<lambda>b. \<not> wspace b) xs))"
  by pat_completeness auto
termination by (relation "measure length") (auto simp: length_dropWhile_le less_Suc_eq_le)

lemma strchr_space: "strchr wc_space b \<noteq> Some None \<longleftrightarrow> wspace b"
  by (auto simp: wc_space_def wspace_def)

definition counts_to :: "bytes \<Rightarrow> wcs \<Rightarrow> wcs" where
  "counts_to bs t = \<lparr>wc_l = wc_l t + int (count_list bs 10),
     wc_w = wc_w t + int (length (words (if inword t then dropWhile (\<lambda>b. \<not> wspace b) bs else bs))),
     wc_c = wc_c t + int (length bs),
     inword = (if bs = [] then inword t else \<not> wspace (last bs))\<rparr>"

lemma fold_wc_char: "fold wc_char bs t = counts_to bs t"
proof (induction bs arbitrary: t)
  case Nil
  show ?case by (simp add: counts_to_def)
next
  case (Cons b bs)
  have "wspace 10" by (simp add: wspace_def wc_space_def)
  then show ?case unfolding fold_Cons o_apply Cons.IH
    by (auto simp: counts_to_def wc_char_def strchr_space Let_def)
qed

lemma counts_to_append: "counts_to bs (counts_to as t) = counts_to (as @ bs) t"
  by (simp add: fold_wc_char [symmetric])

subsection \<open>Reading a file to its end\<close>

locale file_source =
  fixes os :: "'s os" and fd buf :: u32 and ok :: "'s \<Rightarrow> bool" and left :: "'s \<Rightarrow> bytes"
  assumes read_ok: "ok s \<Longrightarrow> \<exists>xs s'. os_read os fd buf BUF s = Some (of_nat (length xs), s') \<and> length xs \<le> unat BUF \<and>
      ok s' \<and> os_load os s' buf (length xs) = Some xs \<and> left s = xs @ left s' \<and> (xs = [] \<longrightarrow> left s = [])"
begin

lemma wc_loop_counts:
  "ok s \<Longrightarrow> \<exists>s'. wc_loop os buf fd t s = Some (0, counts_to (left s) t, s') \<and> ok s' \<and> left s' = []"
proof (induction "length (left s)" arbitrary: s t rule: less_induct)
  case less
  obtain xs s1 where r: "os_read os fd buf BUF s = Some (of_nat (length xs), s1)" "length xs \<le> unat BUF" "ok s1"
    "os_load os s1 buf (length xs) = Some xs" "left s = xs @ left s1" "xs = [] \<longrightarrow> left s = []"
    using read_ok [OF less.prems] by blast
  show ?case
  proof (cases "xs = []")
    case True
    then show ?thesis using r by (subst wc_loop.simps) (auto simp: counts_to_def)
  next
    case False
    have u: "unat (of_nat (length xs) :: u32) = length xs" using r(2) by (intro unat_of_nat32) simp
    then have p: "sint (of_nat (length xs) :: u32) > 0"
      using r(2) False sint_small [of "of_nat (length xs) :: u32"] by simp
    have "length (left s1) < length (left s)" using r(5) False by simp
    from less.hyps [OF this r(3), of "fold wc_char xs t"] obtain s' where
      "wc_loop os buf fd (fold wc_char xs t) s1 = Some (0, counts_to (left s1) (fold wc_char xs t), s')" "ok s'" "left s' = []"
      by blast
    then show ?thesis using r(1,4,5) u p by (subst wc_loop.simps) (simp add: fold_wc_char counts_to_append)
  qed
qed

end

locale file_to_output = file_source os fd buf ok left
  for os :: "'s os" and fd buf :: u32 and ok :: "'s \<Rightarrow> bool" and left :: "'s \<Rightarrow> bytes" +
  fixes out :: "'s \<Rightarrow> bytes"
  assumes read_silent: "ok s \<Longrightarrow> os_read os fd buf BUF s = Some (n, s') \<Longrightarrow> out s' = out s"
    and write_ok: "ok s \<Longrightarrow> os_load os s buf (length xs) = Some xs \<Longrightarrow> length xs \<le> unat BUF \<Longrightarrow>
      \<exists>s'. os_write os 1 buf (of_nat (length xs)) s = Some (of_nat (length xs), s') \<and> ok s' \<and> left s' = left s \<and>
        out s' = out s @ xs"
begin

lemma cat_loop_copies:
  "ok s \<Longrightarrow> \<exists>s'. cat_loop os buf fd s = Some (Some 0, s') \<and> ok s' \<and> left s' = [] \<and> out s' = out s @ left s"
proof (induction "length (left s)" arbitrary: s rule: less_induct)
  case less
  obtain xs s1 where r: "os_read os fd buf BUF s = Some (of_nat (length xs), s1)" "length xs \<le> unat BUF" "ok s1"
    "os_load os s1 buf (length xs) = Some xs" "left s = xs @ left s1" "xs = [] \<longrightarrow> left s = []"
    using read_ok [OF less.prems] by blast
  have o: "out s1 = out s" by (rule read_silent [OF less.prems r(1)])
  show ?case
  proof (cases "xs = []")
    case True
    then show ?thesis using r o by (subst cat_loop.simps) auto
  next
    case False
    have "unat (of_nat (length xs) :: u32) = length xs" using r(2) by (intro unat_of_nat32) simp
    then have p: "sint (of_nat (length xs) :: u32) > 0"
      using r(2) False sint_small [of "of_nat (length xs) :: u32"] by simp
    obtain s2 where w: "os_write os 1 buf (of_nat (length xs)) s1 = Some (of_nat (length xs), s2)" "ok s2"
      "left s2 = left s1" "out s2 = out s1 @ xs" using write_ok [OF r(3,4,2)] by blast
    have "length (left s2) < length (left s)" using r(5) w(3) False by simp
    from less.hyps [OF this w(2)] obtain s' where
      "cat_loop os buf fd s2 = Some (Some 0, s')" "ok s'" "left s' = []" "out s' = out s2 @ left s2" by blast
    then show ?thesis using r(1,5) w(1,3,4) p o by (subst cat_loop.simps) simp
  qed
qed

lemma cat_copies: "ok s \<Longrightarrow> \<exists>s'. cat os buf fd s = Some (Go (), s') \<and> ok s' \<and> left s' = [] \<and> out s' = out s @ left s"
  using cat_loop_copies [of s] by (auto simp: cat_def)

end

subsection \<open>head\<close>

text \<open>The first lines of a text, the last of them without a newline if the text ends before.\<close>

fun first_lines :: "nat \<Rightarrow> bytes \<Rightarrow> bytes" where
  "first_lines 0 t = []"
| "first_lines (Suc n) t =
     (if 10 \<in> set t then takeWhile (\<lambda>c. c \<noteq> 10) t @ [10] @ first_lines n (tl (dropWhile (\<lambda>c. c \<noteq> 10) t)) else t)"

text \<open>The C string at the start of some memory.\<close>

definition c_string :: "bytes \<Rightarrow> bytes" where
  "c_string bs = takeWhile (\<lambda>c. c \<noteq> 0) bs"

lemma c_string_append: "0 \<notin> set t \<Longrightarrow> c_string (t @ bs) = t @ c_string bs"
  by (induction t) (auto simp: c_string_def)

lemma c_string_split:
  assumes "0 \<in> set bs"
  obtains rest where "bs = c_string bs @ 0 # rest" and "0 \<notin> set (c_string bs)"
proof -
  have "dropWhile (\<lambda>c. c \<noteq> 0) bs \<noteq> []" using assms by (simp add: dropWhile_eq_Nil_conv)
  moreover have "hd (dropWhile (\<lambda>c. c \<noteq> 0) bs) = 0" using hd_dropWhile [OF calculation] by simp
  ultimately have "bs = c_string bs @ 0 # tl (dropWhile (\<lambda>c. c \<noteq> 0) bs)"
    unfolding c_string_def by (metis list.collapse takeWhile_dropWhile_id)
  moreover have "0 \<notin> set (c_string bs)" by (auto simp: c_string_def dest: set_takeWhileD)
  ultimately show thesis by (rule that)
qed

locale text_to_output = file_to_output os fd buf ok left out
  for os :: "'s os" and fd buf :: u32 and ok :: "'s \<Rightarrow> bool" and left :: "'s \<Rightarrow> bytes" and out :: "'s \<Rightarrow> bytes" +
  fixes mem :: "'s \<Rightarrow> bytes"
  assumes mem_length: "ok s \<Longrightarrow> length (mem s) = unat BUF"
    and mem_load: "ok s \<Longrightarrow> i + n \<le> unat BUF \<Longrightarrow> os_load os s (buf + of_nat i) n = Some (take n (drop i (mem s)))"
    and read_fills: "ok s \<Longrightarrow> os_read os fd buf BUF s = Some (r, s') \<Longrightarrow>
      r = of_nat (length (take (unat BUF) (left s))) \<and> left s' = drop (unat BUF) (left s) \<and>
      mem s' = take (unat BUF) (left s) @ drop (length (left s)) (mem s)"
    and write_part: "ok s \<Longrightarrow> i + n \<le> unat BUF \<Longrightarrow>
      \<exists>s'. os_write os 1 (buf + of_nat i) (of_nat n) s = Some (of_nat n, s') \<and> ok s' \<and> left s' = left s \<and> mem s' = mem s \<and>
        out s' = out s @ take n (drop i (mem s))"
begin

lemma head_lines_shows:
  "ok s \<Longrightarrow> i \<le> 4096 \<Longrightarrow> 0 \<in> set (drop i (mem s)) \<Longrightarrow> \<exists>line' s'. head_lines os buf i line s = Some (Go line', s') \<and> ok s' \<and>
    left s' = left s \<and> mem s' = mem s \<and> out s' = out s @ first_lines (10 - line) (c_string (drop i (mem s)))"
proof (induction "10 - line" arbitrary: line i s)
  case 0
  then show ?case by (subst head_lines.simps) simp
next
  case (Suc n)
  let ?m = "drop i (mem s)"
  obtain rest where m: "?m = c_string ?m @ 0 # rest" "0 \<notin> set (c_string ?m)" by (rule c_string_split [OF Suc.prems(3)])
  have len: "length ?m = 4096 - i" using mem_length [OF Suc.prems(1)] by simp
  have ld: "os_load os s (buf + of_nat i) (unat BUF - i) = Some ?m" using mem_load [OF Suc.prems(1), of i "4096 - i"] Suc.prems(2) len by simp
  have line: "line < 10" "10 - line = Suc n" using Suc.hyps(2) by simp_all
  show ?case
  proof (cases "10 \<in> set (c_string ?m)")
    case True
    then obtain l r where lr: "c_string ?m = l @ 10 # r" "10 \<notin> set l" using split_list_first by fastforce
    define mm where "mm = ?m"
    have mm: "mm = l @ 10 # r @ 0 # rest" "0 \<notin> set l" "0 \<notin> set r" using m lr(1) by (auto simp: mm_def)
    have e: "strchr ?m 10 = Some (Some (length l))" using strchr_found [OF lr(2) mm(2)] mm(1) by (simp add: mm_def)
    have il: "i + (length l + 1) \<le> 4096" using arg_cong [OF mm(1), of length] len Suc.prems(2) by (simp add: mm_def)
    obtain s1 where w: "os_write os 1 (buf + of_nat i) (of_nat (length l + 1)) s = Some (of_nat (length l + 1), s1)" "ok s1"
      "left s1 = left s" "mem s1 = mem s" "out s1 = out s @ take (length l + 1) ?m" using write_part [OF Suc.prems(1), of i "length l + 1"] il by auto
    have d: "drop (i + length l + 1) (mem s1) = r @ 0 # rest"
      using arg_cong [OF mm(1), of "drop (length l + 1)"] w(4) by (simp add: mm_def add.commute add.left_commute)
    have n9: "n = 10 - (line + 1)" using line(2) by simp
    obtain line' s' where ih: "head_lines os buf (i + length l + 1) (line + 1) s1 = Some (Go line', s')" "ok s'" "left s' = left s1"
      "mem s' = mem s1" "out s' = out s1 @ first_lines (10 - (line + 1)) (c_string (r @ 0 # rest))"
      using Suc.hyps(1) [OF n9 w(2), of "i + length l + 1"] il d by auto
    have "head_lines os buf i line s = Some (Go line', s')"
      using line(1) ld e w(1) ih(1) by (subst head_lines.simps) (simp add: write_s_def)
    moreover have "c_string (r @ 0 # rest) = r" using c_string_append [OF mm(3)] by (simp add: c_string_def)
    moreover have "takeWhile (\<lambda>c. c \<noteq> 10) (l @ 10 # r) = l" "dropWhile (\<lambda>c. c \<noteq> 10) (l @ 10 # r) = 10 # r"
      using lr(2) by (induction l) auto
    moreover have "take (length l + 1) ?m = l @ [10]" using mm(1) by (simp add: mm_def)
    ultimately show ?thesis using ih(2-5) w(3-5) line(2) lr(1) n9 [symmetric] by simp
  next
    case False
    let ?k = "length (c_string ?m)"
    have e: "strchr ?m 10 = Some None" "strlen ?m = Some ?k"
      using strchr_none [OF False m(2), of rest] strlen_ok [of ?m "c_string ?m"] m by (auto simp: cstr_def)
    have "i + ?k \<le> 4096" using arg_cong [OF m(1), of length] len Suc.prems(2) by simp
    then obtain s1 where w: "os_write os 1 (buf + of_nat i) (of_nat ?k) s = Some (of_nat ?k, s1)" "ok s1"
      "left s1 = left s" "mem s1 = mem s" "out s1 = out s @ take ?k ?m" using write_part [OF Suc.prems(1), of i ?k] by auto
    have "take ?k ?m = c_string ?m" using arg_cong [OF m(1), of "take ?k"] by simp
    then show ?thesis using line ld e w False by (subst head_lines.simps) (simp add: write_s_def)
  qed
qed

lemma short_read:
  assumes "ok s" and "length (left s) < unat BUF"
  shows "\<exists>s'. os_read os fd buf BUF s = Some (of_nat (length (left s)), s') \<and> ok s' \<and> left s' = [] \<and>
    mem s' = left s @ drop (length (left s)) (mem s) \<and> out s' = out s"
proof -
  obtain xs :: bytes and s' where r: "os_read os fd buf BUF s = Some (of_nat (length xs), s')" "ok s'" using read_ok [OF assms(1)] by blast
  have t: "take (unat BUF) (left s) = left s" "drop (unat BUF) (left s) = []" using assms(2) by simp_all
  show ?thesis using read_fills [OF assms(1) r(1)] read_silent [OF assms(1) r(1)] r unfolding t by auto
qed

lemma head_shows:
  assumes "ok s" and "length (left s) < unat BUF" and "left s \<noteq> []" and "0 \<in> set (drop (length (left s)) (mem s))"
  shows "\<exists>s'. head os buf fd s = Some (Go (), s') \<and> left s' = [] \<and>
    out s' = out s @ first_lines 10 (c_string (left s @ drop (length (left s)) (mem s)))"
proof -
  let ?n = "of_nat (length (left s)) :: u32"
  obtain s1 where r: "os_read os fd buf BUF s = Some (?n, s1)" "ok s1" "left s1 = []"
      "mem s1 = left s @ drop (length (left s)) (mem s)" "out s1 = out s"
    using short_read [OF assms(1,2)] by blast
  have "unat ?n = length (left s)" using assms(2) by (intro unat_of_nat32) simp
  then have p: "sint ?n > 0" using assms(2,3) sint_small [of ?n] by simp
  have "0 \<in> set (drop 0 (mem s1))" using assms(4) r(4) by simp
  then obtain line s2 where h: "head_lines os buf 0 0 s1 = Some (Go line, s2)" "ok s2" "left s2 = []"
    "out s2 = out s @ first_lines 10 (c_string (mem s1))"
    using head_lines_shows [OF r(2), of 0 0] r(3,5) by auto
  obtain s3 where r2: "os_read os fd buf BUF s2 = Some (0, s3)" "left s3 = []" "out s3 = out s2"
    using short_read [OF h(2)] h(3) by auto
  have "\<exists>n s'. head_loop os buf fd line ?n s2 = Some (Go n, s') \<and> \<not> sint n < 0 \<and> left s' = [] \<and> out s' = out s2"
    using r2 h(3) p by (cases "line \<ge> 10"; subst head_loop.simps) auto
  then obtain n s' where l: "head_loop os buf fd line ?n s2 = Some (Go n, s')" "\<not> sint n < 0" "left s' = []" "out s' = out s2"
    by blast
  have "head_loop os buf fd 0 0 s = Some (Go n, s')"
    using r(1) p h(1) l(1) by (subst head_loop.simps) simp
  then show ?thesis using l(2-4) h(4) r(4) by (simp add: head_def)
qed

end

end
