(* ===== verification/Ucall.thy ===== *)
theory Ucall
  imports Syscall FsInodeProofs ProcProps
begin

text \<open>
  The system calls as programs see them, \<open>user/ulib/syscall.c\<close> and \<open>start.c\<close>: \<open>int $0x80\<close> with the number and
  the arguments in registers, the entry of \<open>trap.S\<close>, the kernel, and the way back. A call that blocks, ends the
  process or starts another program in it has no result: the inner \<^term>\<open>None\<close>, with the state the kernel is in then.
\<close>

subsection \<open>The registers of a process in user mode\<close>

record uregs =
  r_ds :: u32
  r_ebp :: u32
  r_edi :: u32
  r_esi :: u32
  r_edx :: u32
  r_ecx :: u32
  r_ebx :: u32
  r_eax :: u32
  r_eip :: u32
  r_cs :: u32
  r_eflags :: u32
  r_esp :: u32
  r_ss :: u32

text \<open>
  What the processor, \<open>irqN\<close> and \<open>trap\<close> push, from the last word to the first: a \<open>Context\<close>. The word of \<open>ds\<close> is pushed
  from \<open>eax\<close>, of which \<open>movw\<close> has replaced the lower half.
\<close>

definition trap_frame :: "uregs \<Rightarrow> u32 \<Rightarrow> u32 list" where
  "trap_frame u irq = [(r_eax u AND 0xffff0000) OR (r_ds u AND 0xffff), r_ebp u, r_edi u, r_esi u, r_edx u, r_ecx u, r_ebx u, r_eax u, irq, 0,
     r_eip u, r_cs u, r_eflags u, r_esp u, r_ss u]"

definition trap :: "kern \<Rightarrow> uregs \<Rightarrow> u32 \<Rightarrow> kern" where
  "trap k u irq = k\<lparr>kvm := ctx_write (kvm k) (user_ctx_of k) (trap_frame u irq)\<rparr>"

definition call_regs :: "uregs \<Rightarrow> u32 \<Rightarrow> u32 \<Rightarrow> u32 \<Rightarrow> u32 \<Rightarrow> u32 \<Rightarrow> u32 \<Rightarrow> uregs" where
  "call_regs u num arg1 arg2 arg3 arg4 arg5 =
     u\<lparr>r_eax := num, r_ebx := arg1, r_ecx := arg2, r_edx := arg3, r_esi := arg4, r_edi := arg5\<rparr>"

text \<open>The process continues with \<open>eax\<close> of the context the kernel leaves, if it continues.\<close>

definition back_to_user :: "outcome \<times> kern \<Rightarrow> u32 option \<times> kern" where
  "back_to_user r =
     (let (out, k) = r; k = to_user k out in
      (case out of Ret _ \<Rightarrow> Some (ctx_get (kvm k) (user_ctx_of k) ctx_eax) | _ \<Rightarrow> None, k))"

definition syscall :: "kern \<Rightarrow> uregs \<Rightarrow> u32 \<Rightarrow> u32 \<Rightarrow> u32 \<Rightarrow> u32 \<Rightarrow> u32 \<Rightarrow> u32 \<Rightarrow> (u32 option \<times> kern) option" where
  "syscall k u num arg1 arg2 arg3 arg4 arg5 =
     map_option back_to_user
       (irq_handle (trap k (call_regs u num arg1 arg2 arg3 arg4 arg5) EX_SYSCALL) EX_SYSCALL [])"

subsection \<open>The stubs\<close>

abbreviation (input) SYS_write :: u32 where "SYS_write \<equiv> 0"
abbreviation (input) SYS_read :: u32 where "SYS_read \<equiv> 1"
abbreviation (input) SYS_brk :: u32 where "SYS_brk \<equiv> 2"
abbreviation (input) SYS_sleep :: u32 where "SYS_sleep \<equiv> 3"
abbreviation (input) SYS_exec :: u32 where "SYS_exec \<equiv> 4"
abbreviation (input) SYS_getpid :: u32 where "SYS_getpid \<equiv> 5"
abbreviation (input) SYS_yield :: u32 where "SYS_yield \<equiv> 6"
abbreviation (input) SYS_fork :: u32 where "SYS_fork \<equiv> 7"
abbreviation (input) SYS_exit :: u32 where "SYS_exit \<equiv> 8"
abbreviation (input) SYS_wait :: u32 where "SYS_wait \<equiv> 9"
abbreviation (input) SYS_sem_open :: u32 where "SYS_sem_open \<equiv> 10"
abbreviation (input) SYS_sem_p :: u32 where "SYS_sem_p \<equiv> 11"
abbreviation (input) SYS_sem_v :: u32 where "SYS_sem_v \<equiv> 12"
abbreviation (input) SYS_sem_close :: u32 where "SYS_sem_close \<equiv> 13"
abbreviation (input) SYS_open :: u32 where "SYS_open \<equiv> 14"
abbreviation (input) SYS_close :: u32 where "SYS_close \<equiv> 15"
abbreviation (input) SYS_dup :: u32 where "SYS_dup \<equiv> 16"
abbreviation (input) SYS_lseek :: u32 where "SYS_lseek \<equiv> 17"
abbreviation (input) SYS_fstat :: u32 where "SYS_fstat \<equiv> 18"
abbreviation (input) SYS_chdir :: u32 where "SYS_chdir \<equiv> 19"
abbreviation (input) SYS_unlink :: u32 where "SYS_unlink \<equiv> 20"
abbreviation (input) SYS_mmap :: u32 where "SYS_mmap \<equiv> 21"
abbreviation (input) SYS_munmap :: u32 where "SYS_munmap \<equiv> 22"
abbreviation (input) SYS_clone :: u32 where "SYS_clone \<equiv> 23"
abbreviation (input) SYS_kill :: u32 where "SYS_kill \<equiv> 24"
abbreviation (input) SYS_cv_open :: u32 where "SYS_cv_open \<equiv> 25"
abbreviation (input) SYS_cv_wait :: u32 where "SYS_cv_wait \<equiv> 26"
abbreviation (input) SYS_cv_sig :: u32 where "SYS_cv_sig \<equiv> 27"
abbreviation (input) SYS_cv_sigall :: u32 where "SYS_cv_sigall \<equiv> 28"
abbreviation (input) SYS_cv_close :: u32 where "SYS_cv_close \<equiv> 29"
abbreviation (input) SYS_pipe :: u32 where "SYS_pipe \<equiv> 30"
abbreviation (input) SYS_link :: u32 where "SYS_link \<equiv> 31"
abbreviation (input) SYS_symlink :: u32 where "SYS_symlink \<equiv> 32"

definition u_write :: "kern \<Rightarrow> uregs \<Rightarrow> u32 \<Rightarrow> u32 \<Rightarrow> u32 \<Rightarrow> (u32 option \<times> kern) option" where
  "u_write k u fd buf count = syscall k u SYS_write fd buf count 0 0"

definition u_read :: "kern \<Rightarrow> uregs \<Rightarrow> u32 \<Rightarrow> u32 \<Rightarrow> u32 \<Rightarrow> (u32 option \<times> kern) option" where
  "u_read k u fd buf count = syscall k u SYS_read fd buf count 0 0"

definition u_brk :: "kern \<Rightarrow> uregs \<Rightarrow> u32 \<Rightarrow> (u32 option \<times> kern) option" where
  "u_brk k u addr = syscall k u SYS_brk addr 0 0 0 0"

definition u_sleep :: "kern \<Rightarrow> uregs \<Rightarrow> u32 \<Rightarrow> (u32 option \<times> kern) option" where
  "u_sleep k u ticks = syscall k u SYS_sleep ticks 0 0 0 0"

definition u_exec :: "kern \<Rightarrow> uregs \<Rightarrow> u32 \<Rightarrow> u32 \<Rightarrow> (u32 option \<times> kern) option" where
  "u_exec k u path argv = syscall k u SYS_exec path argv 0 0 0"

definition u_getpid :: "kern \<Rightarrow> uregs \<Rightarrow> (u32 option \<times> kern) option" where
  "u_getpid k u = syscall k u SYS_getpid 0 0 0 0 0"

definition u_yield :: "kern \<Rightarrow> uregs \<Rightarrow> (u32 option \<times> kern) option" where
  "u_yield k u = syscall k u SYS_yield 0 0 0 0 0"

definition u_fork :: "kern \<Rightarrow> uregs \<Rightarrow> (u32 option \<times> kern) option" where
  "u_fork k u = syscall k u SYS_fork 0 0 0 0 0"

text \<open>A call of \<open>exit\<close> that returned would loop for ever.\<close>

definition u_exit :: "kern \<Rightarrow> uregs \<Rightarrow> u32 \<Rightarrow> kern option" where
  "u_exit k u stat = do {
     (r, k) \<leftarrow> syscall k u SYS_exit stat 0 0 0 0;
     (case r of None \<Rightarrow> Some k | Some _ \<Rightarrow> None) }"

definition u_wait :: "kern \<Rightarrow> uregs \<Rightarrow> u32 \<Rightarrow> (u32 option \<times> kern) option" where
  "u_wait k u stat = syscall k u SYS_wait stat 0 0 0 0"

definition u_sem_open :: "kern \<Rightarrow> uregs \<Rightarrow> u32 \<Rightarrow> (u32 option \<times> kern) option" where
  "u_sem_open k u value = syscall k u SYS_sem_open value 0 0 0 0"

definition u_sem_p :: "kern \<Rightarrow> uregs \<Rightarrow> u32 \<Rightarrow> (u32 option \<times> kern) option" where
  "u_sem_p k u sem_id = syscall k u SYS_sem_p sem_id 0 0 0 0"

definition u_sem_v :: "kern \<Rightarrow> uregs \<Rightarrow> u32 \<Rightarrow> (u32 option \<times> kern) option" where
  "u_sem_v k u sem_id = syscall k u SYS_sem_v sem_id 0 0 0 0"

definition u_sem_close :: "kern \<Rightarrow> uregs \<Rightarrow> u32 \<Rightarrow> (u32 option \<times> kern) option" where
  "u_sem_close k u sem_id = syscall k u SYS_sem_close sem_id 0 0 0 0"

definition u_open :: "kern \<Rightarrow> uregs \<Rightarrow> u32 \<Rightarrow> u32 \<Rightarrow> (u32 option \<times> kern) option" where
  "u_open k u path mode = syscall k u SYS_open path mode 0 0 0"

definition u_close :: "kern \<Rightarrow> uregs \<Rightarrow> u32 \<Rightarrow> (u32 option \<times> kern) option" where
  "u_close k u fd = syscall k u SYS_close fd 0 0 0 0"

definition u_dup :: "kern \<Rightarrow> uregs \<Rightarrow> u32 \<Rightarrow> (u32 option \<times> kern) option" where
  "u_dup k u fd = syscall k u SYS_dup fd 0 0 0 0"

definition u_lseek :: "kern \<Rightarrow> uregs \<Rightarrow> u32 \<Rightarrow> u32 \<Rightarrow> u32 \<Rightarrow> (u32 option \<times> kern) option" where
  "u_lseek k u fd off whence = syscall k u SYS_lseek fd off whence 0 0"

definition u_fstat :: "kern \<Rightarrow> uregs \<Rightarrow> u32 \<Rightarrow> u32 \<Rightarrow> (u32 option \<times> kern) option" where
  "u_fstat k u fd stat = syscall k u SYS_fstat fd stat 0 0 0"

definition u_chdir :: "kern \<Rightarrow> uregs \<Rightarrow> u32 \<Rightarrow> (u32 option \<times> kern) option" where
  "u_chdir k u path = syscall k u SYS_chdir path 0 0 0 0"

definition u_unlink :: "kern \<Rightarrow> uregs \<Rightarrow> u32 \<Rightarrow> (u32 option \<times> kern) option" where
  "u_unlink k u path = syscall k u SYS_unlink path 0 0 0 0"

definition u_mmap :: "kern \<Rightarrow> uregs \<Rightarrow> (u32 option \<times> kern) option" where
  "u_mmap k u = syscall k u SYS_mmap 0 0 0 0 0"

definition u_munmap :: "kern \<Rightarrow> uregs \<Rightarrow> u32 \<Rightarrow> (u32 option \<times> kern) option" where
  "u_munmap k u addr = syscall k u SYS_munmap addr 0 0 0 0"

definition u_clone :: "kern \<Rightarrow> uregs \<Rightarrow> u32 \<Rightarrow> u32 \<Rightarrow> u32 \<Rightarrow> (u32 option \<times> kern) option" where
  "u_clone k u func stack arg = syscall k u SYS_clone func stack arg 0 0"

definition u_kill :: "kern \<Rightarrow> uregs \<Rightarrow> u32 \<Rightarrow> (u32 option \<times> kern) option" where
  "u_kill k u pd = syscall k u SYS_kill pd 0 0 0 0"

definition u_cv_open :: "kern \<Rightarrow> uregs \<Rightarrow> (u32 option \<times> kern) option" where
  "u_cv_open k u = syscall k u SYS_cv_open 0 0 0 0 0"

definition u_cv_wait :: "kern \<Rightarrow> uregs \<Rightarrow> u32 \<Rightarrow> u32 \<Rightarrow> (u32 option \<times> kern) option" where
  "u_cv_wait k u cv_id sem_id = syscall k u SYS_cv_wait cv_id sem_id 0 0 0"

definition u_cv_sig :: "kern \<Rightarrow> uregs \<Rightarrow> u32 \<Rightarrow> (u32 option \<times> kern) option" where
  "u_cv_sig k u cv_id = syscall k u SYS_cv_sig cv_id 0 0 0 0"

definition u_cv_sigall :: "kern \<Rightarrow> uregs \<Rightarrow> u32 \<Rightarrow> (u32 option \<times> kern) option" where
  "u_cv_sigall k u cv_id = syscall k u SYS_cv_sigall cv_id 0 0 0 0"

definition u_cv_close :: "kern \<Rightarrow> uregs \<Rightarrow> u32 \<Rightarrow> (u32 option \<times> kern) option" where
  "u_cv_close k u cv_id = syscall k u SYS_cv_close cv_id 0 0 0 0"

definition u_pipe :: "kern \<Rightarrow> uregs \<Rightarrow> u32 \<Rightarrow> (u32 option \<times> kern) option" where
  "u_pipe k u fd = syscall k u SYS_pipe fd 0 0 0 0"

definition u_link :: "kern \<Rightarrow> uregs \<Rightarrow> u32 \<Rightarrow> u32 \<Rightarrow> (u32 option \<times> kern) option" where
  "u_link k u oldpath newpath = syscall k u SYS_link oldpath newpath 0 0 0"

definition u_symlink :: "kern \<Rightarrow> uregs \<Rightarrow> u32 \<Rightarrow> u32 \<Rightarrow> (u32 option \<times> kern) option" where
  "u_symlink k u oldpath newpath = syscall k u SYS_symlink oldpath newpath 0 0 0"

text \<open>\<open>_start\<close>: \<open>main\<close> is a program on its process's calls; it returns a status.\<close>

definition u_start :: "(kern \<Rightarrow> (u32 \<times> kern) option) \<Rightarrow> kern \<Rightarrow> uregs \<Rightarrow> kern option" where
  "u_start main k u = do { (r, k) \<leftarrow> main k; u_exit k u r }"

subsection \<open>What the kernel finds in the context\<close>

definition ctx_fits :: "kern \<Rightarrow> bool" where
  "ctx_fits k \<longleftrightarrow> unat (user_ctx_of k) + CTX_SIZE \<le> 2 ^ 32"

lemma length_trap_frame [simp]: "length (trap_frame u irq) = 15"
  by (simp add: trap_frame_def)

lemma ctx_get_write:
  assumes "unat c + CTX_SIZE \<le> 2 ^ 32" and "length ws = 15" and "i < 15"
  shows "ctx_get (ctx_write v c ws) c i = ws ! i"
proof -
  let ?bs = "concat (map le32 ws)"
  have a: "unat (c + of_nat (4 * i)) = unat c + 4 * i"
    using assms(1,3) by (simp add: unat_word_ariths unat_of_nat32)
  have l: "length ?bs = 60" using assms(2) by simp
  have "map (overlay (pmem v) (unat c) ?bs) [unat c + 4 * i..<unat c + 4 * i + 4] = take 4 (drop (4 * i) ?bs)"
    by (rule nth_equalityI) (use assms(3) l in \<open>auto simp: overlay_def\<close>)
  also have "\<dots> = le32 (ws ! i)"
  proof -
    have "drop i ws = ws ! i # drop (Suc i) ws" using assms(2,3) by (simp add: Cons_nth_drop_Suc)
    then have "drop (4 * i) ?bs = le32 (ws ! i) @ concat (map le32 (drop (Suc i) ws))"
      using drop_concat_le32 [of i ws] assms(2,3) by simp
    then show ?thesis by (simp only: take_append length_le32) simp
  qed
  finally have e: "of_le32 (map (overlay (pmem v) (unat c) ?bs) [unat c + 4 * i..<unat c + 4 * i + 4]) = ws ! i"
    by (simp only: of_le32_le32)
  show ?thesis unfolding ctx_get_def ctx_write_def ld_def fill_def word_at_def a using e by simp
qed

lemma user_ctx_kvm [simp]: "user_ctx_of (k\<lparr>kvm := v\<rparr>) = user_ctx_of k"
  by (simp add: user_ctx_of_def)

lemma user_ctx_trap [simp]: "user_ctx_of (trap k u irq) = user_ctx_of k"
  by (simp add: trap_def)

lemma back_to_user_simps [simp]:
  "back_to_user (Ret v, k) = (Some v, k\<lparr>kvm := ctx_set (kvm k) (user_ctx_of k) ctx_eax v\<rparr>)"
  "back_to_user (Switch c, k) = (None, k)" "back_to_user (Iret, k) = (None, k)"
  "back_to_user (Enter ctx, k) = (None, k\<lparr>kvm := ctx_write (kvm k) (user_ctx_of k) ctx\<rparr>)"
  by (simp_all add: back_to_user_def to_user_def Let_def ctx_get_def ctx_set_def ld_def st_def)

lemma syscall_dispatch:
  assumes "ctx_fits k"
  shows "syscall k u num a1 a2 a3 a4 a5 = map_option back_to_user
    (if sint num < 0 \<or> sint num \<ge> NR_SYS then Some (Ret (- 1), trap k (call_regs u num a1 a2 a3 a4 a5) EX_SYSCALL)
     else syscall_handle (nat (sint num)) (trap k (call_regs u num a1 a2 a3 a4 a5) EX_SYSCALL) a1 a2 a3)"
proof -
  let ?k = "trap k (call_regs u num a1 a2 a3 a4 a5) EX_SYSCALL"
  have g: "ctx_get (kvm ?k) (user_ctx_of k) i = trap_frame (call_regs u num a1 a2 a3 a4 a5) EX_SYSCALL ! i" if "i < 15" for i
    unfolding trap_def using ctx_get_write [OF _ length_trap_frame that] assms by (simp add: ctx_fits_def)
  show ?thesis
    unfolding syscall_def irq_handle_def do_syscall_def user_ctx_trap
    by (simp add: g Let_def) (simp add: trap_frame_def call_regs_def)
qed

definition demo_regs :: uregs where
  "demo_regs = \<lparr>r_ds = 0x23, r_ebp = 0, r_edi = 0, r_esi = 0, r_edx = 0, r_ecx = 0, r_ebx = 0, r_eax = 0, r_eip = 0x400000,
     r_cs = 0x1b, r_eflags = 0x202, r_esp = 0x1000, r_ss = 0x23\<rparr>"

lemma demo_fits: "ctx_fits (demo_kern {})"
  by (simp add: ctx_fits_def user_ctx_of_def ctx_at_def demo_kern_def boot_proc_def)

lemmas stub_defs = u_write_def u_read_def u_brk_def u_sleep_def u_exec_def u_getpid_def u_yield_def u_fork_def u_wait_def
  u_sem_open_def u_sem_p_def u_sem_v_def u_sem_close_def u_open_def u_close_def u_dup_def u_lseek_def
  u_fstat_def u_chdir_def u_unlink_def u_mmap_def u_munmap_def u_clone_def u_kill_def u_cv_open_def
  u_cv_wait_def u_cv_sig_def u_cv_sigall_def u_cv_close_def u_pipe_def u_link_def u_symlink_def

lemmas handle_simps = syscall_dispatch syscall_handle_def sint_small

lemma u_read_kernel: "ctx_fits k \<Longrightarrow> u_read k u fd buf n =
    map_option back_to_user (sys_read (trap k (call_regs u SYS_read fd buf n 0 0) EX_SYSCALL) fd buf n)"
  by (simp add: u_read_def handle_simps)

lemma u_write_kernel: "ctx_fits k \<Longrightarrow> u_write k u fd buf n =
    map_option back_to_user (sys_write (trap k (call_regs u SYS_write fd buf n 0 0) EX_SYSCALL) fd buf n)"
  by (simp add: u_write_def handle_simps)

lemma u_exit_kernel:
  assumes "ctx_fits k"
  shows "u_exit k u stat = map_option snd (sys_exit (trap k (call_regs u SYS_exit stat 0 0 0 0) EX_SYSCALL) stat)"
  using assms by (cases "proc_makezombie (trap k (call_regs u SYS_exit stat 0 0 0 0) EX_SYSCALL)
      (curr (trap k (call_regs u SYS_exit stat 0 0 0 0) EX_SYSCALL)) stat")
    (simp_all add: u_exit_def handle_simps sys_exit_def)

text \<open>
  C30: each stub of \<open>syscall.c\<close> that the kernel implements runs its handler in \<open>kernel/src/syscall.c\<close> on the arguments of the
  call, unchanged and in order, and what the handler returns is what the stub returns; \<open>exit\<close> runs \<open>sys_exit\<close> and does not
  return.
\<close>

theorem stubs_reach_handlers:
  assumes "ctx_fits k"
  shows
    "u_write k u fd buf count =
       map_option back_to_user (sys_write (trap k (call_regs u SYS_write fd buf count 0 0) EX_SYSCALL) fd buf count) \<and>
     u_read k u fd buf count =
       map_option back_to_user (sys_read (trap k (call_regs u SYS_read fd buf count 0 0) EX_SYSCALL) fd buf count) \<and>
     u_brk k u addr =
       map_option back_to_user (sys_brk (trap k (call_regs u SYS_brk addr 0 0 0 0) EX_SYSCALL) addr) \<and>
     u_sleep k u ticks =
       Some (back_to_user (sys_sleep (trap k (call_regs u SYS_sleep ticks 0 0 0 0) EX_SYSCALL) ticks)) \<and>
     u_exec k u path argv =
       map_option back_to_user (sys_exec (trap k (call_regs u SYS_exec path argv 0 0 0) EX_SYSCALL) path argv) \<and>
     u_getpid k u =
       Some (back_to_user (sys_getpid (trap k (call_regs u SYS_getpid 0 0 0 0 0) EX_SYSCALL))) \<and>
     u_yield k u =
       Some (back_to_user (sys_yield (trap k (call_regs u SYS_yield 0 0 0 0 0) EX_SYSCALL))) \<and>
     u_fork k u =
       map_option back_to_user (sys_fork (trap k (call_regs u SYS_fork 0 0 0 0 0) EX_SYSCALL)) \<and>
     u_exit k u stat =
       map_option snd (sys_exit (trap k (call_regs u SYS_exit stat 0 0 0 0) EX_SYSCALL) stat) \<and>
     u_wait k u stat =
       map_option back_to_user (sys_wait (trap k (call_regs u SYS_wait stat 0 0 0 0) EX_SYSCALL) stat) \<and>
     u_sem_open k u value =
       Some (back_to_user (sys_sem_open (trap k (call_regs u SYS_sem_open value 0 0 0 0) EX_SYSCALL) value)) \<and>
     u_sem_p k u sem_id =
       map_option back_to_user (sys_sem_p (trap k (call_regs u SYS_sem_p sem_id 0 0 0 0) EX_SYSCALL) sem_id) \<and>
     u_sem_v k u sem_id =
       map_option back_to_user (sys_sem_v (trap k (call_regs u SYS_sem_v sem_id 0 0 0 0) EX_SYSCALL) sem_id) \<and>
     u_sem_close k u sem_id =
       Some (back_to_user (sys_sem_close (trap k (call_regs u SYS_sem_close sem_id 0 0 0 0) EX_SYSCALL) sem_id)) \<and>
     u_open k u path mode =
       map_option back_to_user (sys_open (trap k (call_regs u SYS_open path mode 0 0 0) EX_SYSCALL) path mode) \<and>
     u_close k u fd =
       map_option back_to_user (sys_close (trap k (call_regs u SYS_close fd 0 0 0 0) EX_SYSCALL) fd) \<and>
     u_dup k u fd =
       map_option back_to_user (sys_dup (trap k (call_regs u SYS_dup fd 0 0 0 0) EX_SYSCALL) fd) \<and>
     u_lseek k u fd off whence =
       map_option back_to_user (sys_lseek (trap k (call_regs u SYS_lseek fd off whence 0 0) EX_SYSCALL) fd off whence) \<and>
     u_fstat k u fd stat =
       map_option back_to_user (sys_fstat (trap k (call_regs u SYS_fstat fd stat 0 0 0) EX_SYSCALL) fd stat) \<and>
     u_chdir k u path =
       map_option back_to_user (sys_chdir (trap k (call_regs u SYS_chdir path 0 0 0 0) EX_SYSCALL) path) \<and>
     u_unlink k u path =
       map_option back_to_user (sys_unlink (trap k (call_regs u SYS_unlink path 0 0 0 0) EX_SYSCALL) path)"
  using assms by (simp_all add: u_exit_kernel) (simp_all add: handle_simps stub_defs)

lemma stubs_reach_handlers_witness: "\<exists>k'. u_getpid (demo_kern {}) demo_regs = Some (Some 0, k')"
proof -
  have "u_getpid (demo_kern {}) demo_regs =
      Some (back_to_user (sys_getpid (trap (demo_kern {}) (call_regs demo_regs SYS_getpid 0 0 0 0 0) EX_SYSCALL)))"
    using stubs_reach_handlers [OF demo_fits] by blast
  then show ?thesis by (simp add: sys_getpid_def trap_def demo_kern_def boot_proc_def)
qed

text \<open>
  The calls that \<open>ulib.h\<close> offers beyond these stop the kernel, for every process and whatever the arguments.
\<close>

lemma optional_calls_stop_kernel:
  assumes "ctx_fits k"
  shows
    "u_mmap k u = None \<and>
     u_munmap k u addr = None \<and>
     u_clone k u func stack arg = None \<and>
     u_kill k u pd = None \<and>
     u_cv_open k u = None \<and>
     u_cv_wait k u cv_id sem_id = None \<and>
     u_cv_sig k u cv_id = None \<and>
     u_cv_sigall k u cv_id = None \<and>
     u_cv_close k u cv_id = None \<and>
     u_pipe k u fd = None \<and>
     u_link k u oldpath newpath = None \<and>
     u_symlink k u oldpath newpath = None"
  using assms by (simp_all add: handle_simps stub_defs)

end
