(* ===== verification/UserMem.thy ===== *)
theory UserMem
  imports Serial VmeProps
begin

text \<open>
  User memory as the kernel sees it: storing bytes through the page tables and loading them back,
  as long as the store does not hit the tables themselves.
\<close>

text \<open>\<open>tables v T\<close>: the bytes of physical memory that translation depends on lie in \<open>T\<close>.\<close>

definition tables :: "vm \<Rightarrow> nat set \<Rightarrow> bool" where
  "tables v T \<longleftrightarrow> (\<forall>v'. cr3 v' = cr3 v \<and> (\<forall>a \<in> T. pmem v' a = pmem v a) \<longrightarrow> translate v' = translate v)"

lemma tables_put:
  assumes "tables v T" and "putb v va b = Some v'" and "\<And>a. translate v va = Some a \<Longrightarrow> unat a \<notin> T"
  shows "tables v' T" and "translate v' = translate v"
proof -
  obtain a where a: "translate v va = Some a" "v' = v\<lparr>pmem := (pmem v)(unat a := b)\<rparr>"
    using assms(2) by (auto simp: putb_def)
  then have eq: "cr3 v' = cr3 v" "\<forall>x \<in> T. pmem v' x = pmem v x" using assms(3) by auto
  then show tr: "translate v' = translate v" using assms(1) unfolding tables_def by blast
  show "tables v' T"
    unfolding tables_def
  proof (intro allI impI)
    fix w :: vm assume w: "cr3 w = cr3 v' \<and> (\<forall>a \<in> T. pmem w a = pmem v' a)"
    then have "cr3 w = cr3 v \<and> (\<forall>a \<in> T. pmem w a = pmem v a)" using eq by auto
    then have "translate w = translate v" using assms(1) unfolding tables_def by blast
    then show "translate w = translate v'" using tr by simp
  qed
qed

text \<open>\<open>user_range v T va n\<close>: \<open>n\<close> mapped addresses from \<open>va\<close> on, with different frames' bytes, none of them in a table.\<close>

definition user_range :: "vm \<Rightarrow> nat set \<Rightarrow> u32 \<Rightarrow> nat \<Rightarrow> bool" where
  "user_range v T va n \<longleftrightarrow> tables v T \<and>
     (\<forall>i < n. \<exists>a. translate v (va + of_nat i) = Some a \<and> unat a \<notin> T) \<and>
     inj_on (\<lambda>i. translate v (va + of_nat i)) {..<n}"

lemma user_range_tail:
  assumes "user_range v T va (Suc n)" and "tables v' T" and "translate v' = translate v"
  shows "user_range v' T (va + 1) n"
  unfolding user_range_def
proof (intro conjI allI impI assms(2))
  fix i assume "i < n"
  then have "Suc i < Suc n" by simp
  then show "\<exists>a. translate v' (va + 1 + of_nat i) = Some a \<and> unat a \<notin> T"
    using assms(1,3) unfolding user_range_def by (metis add.assoc of_nat_Suc)
next
  have inj: "inj_on (\<lambda>i. translate v (va + of_nat i)) {..<Suc n}" using assms(1) by (simp add: user_range_def)
  have "inj_on (\<lambda>i. translate v (va + of_nat (Suc i))) {..<n}"
  proof (rule inj_onI)
    fix i j assume ij: "i \<in> {..<n}" "j \<in> {..<n}"
      and eq: "translate v (va + of_nat (Suc i)) = translate v (va + of_nat (Suc j))"
    show "i = j" using inj_onD [OF inj eq] ij by simp
  qed
  then show "inj_on (\<lambda>i. translate v' (va + 1 + of_nat i)) {..<n}"
    by (simp add: assms(3) add.assoc)
qed

lemma putbs_ok:
  "user_range v T va (length bs) \<Longrightarrow>
   \<exists>v'. putbs v va bs = Some v' \<and> tables v' T \<and> translate v' = translate v \<and> cr3 v' = cr3 v \<and>
     (\<forall>i < length bs. getb v' (va + of_nat i) = Some (bs ! i)) \<and>
     (\<forall>x. (\<forall>i < length bs. translate v (va + of_nat i) \<noteq> Some x) \<longrightarrow> pmem v' (unat x) = pmem v (unat x))"
proof (induction bs arbitrary: v va)
  case Nil
  then show ?case by (auto simp: user_range_def)
next
  case (Cons b bs)
  obtain a where a: "translate v va = Some a" "unat a \<notin> T"
    using Cons.prems unfolding user_range_def by fastforce
  let ?v = "v\<lparr>pmem := (pmem v)(unat a := b)\<rparr>"
  have p: "putb v va b = Some ?v" using a(1) by (simp add: putb_def)
  have t: "tables ?v T" "translate ?v = translate v"
    using tables_put [OF _ p] a Cons.prems by (auto simp: user_range_def)
  have "user_range ?v T (va + 1) (length bs)" using user_range_tail [OF _ t] Cons.prems by simp
  then obtain v' where v': "putbs ?v (va + 1) bs = Some v'" "tables v' T" "translate v' = translate ?v" "cr3 v' = cr3 v"
    "\<forall>i < length bs. getb v' (va + 1 + of_nat i) = Some (bs ! i)"
    "\<forall>x. (\<forall>i < length bs. translate ?v (va + 1 + of_nat i) \<noteq> Some x) \<longrightarrow> pmem v' (unat x) = pmem ?v (unat x)"
    using Cons.IH [of ?v "va + 1"] by auto
  have ne: "translate v (va + 1 + of_nat i) \<noteq> Some a" if "i < length bs" for i
  proof
    assume eq: "translate v (va + 1 + of_nat i) = Some a"
    have "inj_on (\<lambda>i. translate v (va + of_nat i)) {..<Suc (length bs)}"
      using Cons.prems by (simp add: user_range_def)
    from inj_onD [OF this, of 0 "Suc i"] show False using that eq a(1) by (simp add: add.assoc)
  qed
  have "getb v' (va + of_nat i) = Some ((b # bs) ! i)" if "i < length (b # bs)" for i
  proof (cases i)
    case 0
    have "pmem v' (unat a) = b" using v'(6) [rule_format, of a] ne t(2) by simp
    then show ?thesis using 0 a(1) v'(3) t(2) by (simp add: getb_def)
  next
    case (Suc j)
    then show ?thesis using v'(5) that by (simp add: add.assoc)
  qed
  moreover have "pmem v' (unat x) = pmem v (unat x)"
    if "\<forall>i < length (b # bs). translate v (va + of_nat i) \<noteq> Some x" for x
  proof -
    have "x \<noteq> a" using that [rule_format, of 0] a(1) by auto
    moreover have "translate v (va + 1 + of_nat i) \<noteq> Some x" if "i < length bs" for i
      using \<open>\<forall>i < length (b # bs). translate v (va + of_nat i) \<noteq> Some x\<close> [rule_format, of "Suc i"] that
      by (simp add: add.assoc)
    ultimately show ?thesis using v'(6) t(2) by (simp add: word_unat_eq_iff)
  qed
  ultimately show ?case using p v'(1-4) t(2) by auto
qed

lemma getbs_nth:
  "(\<forall>i < n. getb v (va + of_nat i) = Some (bs ! i)) \<Longrightarrow> length bs = n \<Longrightarrow> getbs v va n = Some bs"
proof (induction n arbitrary: va bs)
  case (Suc n)
  obtain b cs where bs: "bs = b # cs" "length cs = n" using Suc.prems(2) by (cases bs) auto
  have "getb v (va + 1 + of_nat i) = Some (cs ! i)" if "i < n" for i
    using Suc.prems(1) [rule_format, of "Suc i"] that bs by (simp add: add.assoc)
  then show ?case using Suc.IH [of "va + 1" cs] Suc.prems(1) [rule_format, of 0] bs by simp
qed simp

lemma getbs_some: "(\<forall>i < n. translate v (va + of_nat i) \<noteq> None) \<Longrightarrow> \<exists>bs. getbs v va n = Some bs \<and> length bs = n"
proof (induction n arbitrary: va)
  case (Suc n)
  have "\<forall>i < n. translate v (va + 1 + of_nat i) \<noteq> None"
    using Suc.prems by (metis add.assoc of_nat_Suc Suc_mono)
  then obtain bs where "getbs v (va + 1) n = Some bs" "length bs = n" using Suc.IH by blast
  moreover obtain b where "getb v va = Some b"
    using Suc.prems [rule_format, of 0] by (auto simp: getb_def)
  ultimately show ?case by simp
qed simp

text \<open>
  The kernel's copy to user memory is faithful. If the destination is mapped, injectively and
  away from the page tables, storing a buffer there succeeds, loading it gives the buffer back,
  and no other byte of physical memory has changed.
\<close>

lemma user_copy_roundtrip:
  assumes "user_range v T va (length bs)"
  shows "\<exists>v'. putbs v va bs = Some v' \<and> getbs v' va (length bs) = Some bs \<and>
    (\<forall>x. (\<forall>i < length bs. translate v (va + of_nat i) \<noteq> Some x) \<longrightarrow> pmem v' (unat x) = pmem v (unat x))"
  using putbs_ok [OF assms] getbs_nth by blast

subsection \<open>A small address space\<close>

text \<open>A directory in page 1 and a table in page 2 that map every page to page 5.\<close>

definition demo_mem :: "nat \<Rightarrow> u8" where
  "demo_mem a =
     (if 0x1000 \<le> a \<and> a < 0x3000 then
        if a mod 4 = 0 then 1 else if a mod 4 = 1 then (if a < 0x2000 then 0x20 else 0x50) else 0
      else 0)"

definition demo_vm :: vm where
  "demo_vm = boot_vm\<lparr>pmem := demo_mem, cr3 := 0x1000\<rparr>"

definition demo_tables :: "nat set" where
  "demo_tables = {0x1000..<0x3000}"

lemma word_at_demo:
  assumes "\<forall>a \<in> demo_tables. f a = demo_mem a" and "b mod 4 = 0" and "0x1000 \<le> b" and "b + 4 \<le> 0x3000"
  shows "word_at f b = (if b < 0x2000 then 0x2001 else 0x5001)"
proof -
  have m: "f b = demo_mem b" "f (b + 1) = demo_mem (b + 1)" "f (b + 2) = demo_mem (b + 2)" "f (b + 3) = demo_mem (b + 3)"
    using assms(1,3,4) by (simp_all add: demo_tables_def)
  have r: "b < 0x2000 \<longleftrightarrow> b + 1 < 0x2000" using assms(2) by presburger
  have "(b + 1) mod 4 = 1" "(b + 2) mod 4 = 2" "(b + 3) mod 4 = 3" using assms(2) by presburger+
  then have "demo_mem b = 1" "demo_mem (b + 1) = (if b < 0x2000 then 0x20 else 0x50)"
    "demo_mem (b + 2) = 0" "demo_mem (b + 3) = 0"
    using assms(2-4) r by (simp_all add: demo_mem_def)
  moreover have "[b..<b + 4] = [b, b + 1, b + 2, b + 3]" by (simp add: upt_conv_Cons)
  ultimately show ?thesis using m by (simp add: word_at_def)
qed

lemma demo_translate:
  assumes "cr3 v = 0x1000" and "\<forall>a \<in> demo_tables. pmem v a = demo_mem a"
  shows "translate v va = Some (0x5000 OR ADDR2OFF va)"
proof -
  have e: "unat (entry t i) = unat t + 4 * i" if "i < 1024" "unat t \<le> 0x2000" for t :: u32 and i
  proof -
    have "unat (of_nat (4 * i) :: u32) = 4 * i" using that by (intro unat_of_nat32) simp
    then show ?thesis using that by (simp add: entry_def unat_word_ariths)
  qed
  have p: "PTE2PG 0x1000 = 0x1000" "PTE2PG 0x2001 = 0x2000" "PTE2PG 0x5001 = 0x5000"
    by (simp_all add: PTE2PG_def)
  have "ld v (entry 0x1000 (unat (ADDR2DIR va))) = 0x2001"
    using word_at_demo [OF assms(2), of "0x1000 + 4 * unat (ADDR2DIR va)"]
      e [where t = "0x1000" and i = "unat (ADDR2DIR va)"]
      ADDR_bounds(3) [where va = va] by (simp add: ld_def)
  moreover have "ld v (entry 0x2000 (unat (ADDR2TBL va))) = 0x5001"
    using word_at_demo [OF assms(2), of "0x2000 + 4 * unat (ADDR2TBL va)"]
      e [where t = "0x2000" and i = "unat (ADDR2TBL va)"]
      ADDR_bounds(4) [where va = va] by (simp add: ld_def)
  ultimately show ?thesis by (simp add: translate_def assms(1) p present_def bit_numeral_rec)
qed

lemma demo_offset: "i < 4096 \<Longrightarrow> unat (0x5000 OR ADDR2OFF (of_nat i) :: u32) = 0x5000 + i"
proof -
  assume i: "i < 4096"
  have m: "0xFFF = (mask 12 :: u32)" by (simp add: mask_eq_exp_minus_1)
  have o: "ADDR2OFF (of_nat i) = take_bit 12 (of_nat i)" by (simp add: ADDR2OFF_def m take_bit_eq_mask)
  have u: "unat (of_nat i :: u32) = i" using i by (intro unat_of_nat32) simp
  have t: "take_bit 12 (of_nat i :: u32) = of_nat i"
    using i u by (simp add: word_unat_eq_iff unsigned_take_bit_eq take_bit_nat_eq_self)
  have "0x5000 AND (of_nat i :: u32) = 0x5000 AND (mask 12 AND of_nat i)"
    using t by (simp add: take_bit_eq_mask and.commute)
  also have "\<dots> = 0" by (simp add: and.assoc [symmetric] flip: m)
  finally have "(0x5000 OR (of_nat i :: u32)) = 0x5000 + of_nat i"
    using word_plus_and_or [of "0x5000 :: u32" "of_nat i"] by simp
  then show ?thesis unfolding o t using i u by (simp add: unat_word_ariths)
qed

lemma demo_user_range:
  assumes "n \<le> 4096" and "cr3 v = 0x1000" and "\<forall>a \<in> demo_tables. pmem v a = demo_mem a"
  shows "user_range v demo_tables 0 n"
proof -
  have off: "unat (0x5000 OR ADDR2OFF (of_nat i) :: u32) = 0x5000 + i" if "i < 4096" for i
    using that by (rule demo_offset)
  have "tables v demo_tables"
    unfolding tables_def
    by (intro allI impI ext) (use assms(2,3) in \<open>simp add: demo_translate\<close>)
  moreover have tr: "translate v (0 + of_nat i) = Some (0x5000 OR ADDR2OFF (of_nat i))" for i
    using demo_translate [OF assms(2,3)] by simp
  moreover have "\<exists>a. translate v (0 + of_nat i) = Some a \<and> unat a \<notin> demo_tables" if "i < n" for i
  proof -
    have "unat (0x5000 OR ADDR2OFF (of_nat i) :: u32) = 0x5000 + i" by (rule off) (use that assms(1) in simp)
    then have "unat (0x5000 OR ADDR2OFF (of_nat i) :: u32) \<notin> demo_tables" unfolding demo_tables_def by simp
    then show ?thesis using tr by blast
  qed
  moreover have "inj_on (\<lambda>i. translate v (0 + of_nat i)) {..<n}"
  proof (rule inj_onI)
    fix i j assume "i \<in> {..<n}" "j \<in> {..<n}" and eq: "translate v (0 + of_nat i) = translate v (0 + of_nat j)"
    then have "(0x5000 OR ADDR2OFF (of_nat i) :: u32) = 0x5000 OR ADDR2OFF (of_nat j)"
      unfolding tr by blast
    then have "unat (0x5000 OR ADDR2OFF (of_nat i) :: u32) = unat (0x5000 OR ADDR2OFF (of_nat j) :: u32)"
      by (rule arg_cong)
    moreover have "i < 4096" "j < 4096" using \<open>i \<in> {..<n}\<close> \<open>j \<in> {..<n}\<close> assms(1) by auto
    ultimately show "i = j" unfolding off [OF \<open>i < 4096\<close>] off [OF \<open>j < 4096\<close>] by simp
  qed
  ultimately show ?thesis unfolding user_range_def by blast
qed

end
