(* ===== verification/FileProps.thy ===== *)
theory FileProps
  imports File ProcProps UserMem
begin

text \<open>
  Reading and writing through an open file: the offset, over the file system's guarantees for
  \<open>iread\<close> and \<open>iwrite\<close>.
\<close>

definition disk_file :: "kern \<Rightarrow> nat \<Rightarrow> bool" where
  "disk_file k fp \<longleftrightarrow> f_type (files k fp) = TYPE_FILE \<and> fwf (kfs k) (f_inode (files k fp)) \<and>
     dense (kfs k) (f_inode (files k fp)) \<and> f_offset (files k fp) \<le> isize (kfs k) (f_inode (files k fp))"

definition data :: "kern \<Rightarrow> nat \<Rightarrow> bytes" where
  "data k fp = contents (kfs k) (f_inode (files k fp))"

definition pos :: "kern \<Rightarrow> nat \<Rightarrow> nat" where
  "pos k fp = unat (f_offset (files k fp))"

lemma pos_le: "disk_file k fp \<Longrightarrow> pos k fp \<le> length (data k fp)"
  by (simp add: disk_file_def pos_def data_def word_le_nat_alt)

lemma data_small: "disk_file k fp \<Longrightarrow> length (data k fp) \<le> FILE_MAX"
  by (simp add: disk_file_def data_def dense_def)

lemma same_file:
  assumes "same f f'"
  shows "isize f' p = isize f p" and "contents f' p = contents f p" and "dense f' p = dense f p"
proof -
  show sz: "isize f' p = isize f p" using assms by (simp add: isize_def same_def)
  show "contents f' p = contents f p" by (simp add: contents_def sz same_fbyte [OF assms])
  show "dense f' p = dense f p" by (simp add: dense_def sz same_mapped [OF assms])
qed

lemma disk_file_same:
  assumes "disk_file k fp" and "same (kfs k) f'" and "unat off \<le> length (data k fp)"
  shows "disk_file (upd_file (k\<lparr>kvm := v, kfs := f'\<rparr>) fp (\<lambda>f. f\<lparr>f_offset := off\<rparr>)) fp"
    and "data (upd_file (k\<lparr>kvm := v, kfs := f'\<rparr>) fp (\<lambda>f. f\<lparr>f_offset := off\<rparr>)) fp = data k fp"
    and "pos (upd_file (k\<lparr>kvm := v, kfs := f'\<rparr>) fp (\<lambda>f. f\<lparr>f_offset := off\<rparr>)) fp = unat off"
proof -
  let ?p = "f_inode (files k fp)"
  have s: "isize f' ?p = isize (kfs k) ?p" "contents f' ?p = contents (kfs k) ?p"
    using same_file [OF assms(2)] by simp_all
  show "disk_file (upd_file (k\<lparr>kvm := v, kfs := f'\<rparr>) fp (\<lambda>f. f\<lparr>f_offset := off\<rparr>)) fp"
    using assms s same_fwf [OF assms(2)] same_file(3) [OF assms(2)]
    by (auto simp: disk_file_def upd_file_def data_def word_le_nat_alt)
  show "data (upd_file (k\<lparr>kvm := v, kfs := f'\<rparr>) fp (\<lambda>f. f\<lparr>f_offset := off\<rparr>)) fp = data k fp"
    "pos (upd_file (k\<lparr>kvm := v, kfs := f'\<rparr>) fp (\<lambda>f. f\<lparr>f_offset := off\<rparr>)) fp = unat off"
    using s by (simp_all add: data_def pos_def upd_file_def)
qed

lemma same_keeps_wf: "same f f' \<Longrightarrow> fwf f p \<Longrightarrow> fwf f' p"
  using same_fwf by blast

lemma fread_exact:
  assumes od: "disk_file k fp" and rd: "readable (files k fp)" and nw: "pos k fp + unat n < 2 ^ 32"
    and buf: "putbs (kvm k) buf (take (unat n) (drop (pos k fp) (data k fp))) = Some v"
    and m: "m = min (unat n) (length (data k fp) - pos k fp)"
  shows "\<exists>f' off. fread k fp buf n =
      Some (Done (of_nat m), upd_file (k\<lparr>kvm := v, kfs := f'\<rparr>) fp (\<lambda>f. f\<lparr>f_offset := off\<rparr>)) \<and>
    same (kfs k) f' \<and> unat off = pos k fp + m"
proof -
  let ?p = "f_inode (files k fp)" and ?off = "f_offset (files k fp)"
  obtain f' where f': "iread (kfs k) ?p ?off n = Some (int m, take (unat n) (drop (pos k fp) (data k fp)), f')"
    "same (kfs k) f'"
    using iread_segment [of "kfs k" ?p ?off n] od nw by (auto simp: disk_file_def data_def pos_def m)
  have "length (data k fp) < 2 ^ 32" using data_small [OF od] by simp
  then have sum: "unat (?off + of_nat m) = pos k fp + m"
    using pos_le [OF od] m by (simp add: unat_word_ariths pos_def unat_of_nat32)
  have "fread k fp buf n =
      Some (Done (of_nat m), upd_file (k\<lparr>kvm := v, kfs := f'\<rparr>) fp (\<lambda>f. f\<lparr>f_offset := ?off + of_nat m\<rparr>))"
    using od rd f'(1) buf by (simp add: fread_def Let_def disk_file_def upd_file_def)
  then show ?thesis using f'(2) sum by blast
qed

lemma fread_ok:
  assumes od: "disk_file k fp" and rd: "readable (files k fp)" and nw: "pos k fp + unat n < 2 ^ 32"
    and buf: "putbs (kvm k) buf (take (unat n) (drop (pos k fp) (data k fp))) = Some v"
  shows "\<exists>k'. fread k fp buf n = Some (Done (of_nat (min (unat n) (length (data k fp) - pos k fp))), k') \<and>
    disk_file k' fp \<and> data k' fp = data k fp \<and> kvm k' = v \<and>
    pos k' fp = pos k fp + min (unat n) (length (data k fp) - pos k fp)"
proof -
  obtain f' off where f': "fread k fp buf n = Some (Done (of_nat (min (unat n) (length (data k fp) - pos k fp))),
      upd_file (k\<lparr>kvm := v, kfs := f'\<rparr>) fp (\<lambda>f. f\<lparr>f_offset := off\<rparr>))"
    "same (kfs k) f'" "unat off = pos k fp + min (unat n) (length (data k fp) - pos k fp)"
    using fread_exact [OF assms refl] by blast
  note os = disk_file_same [OF od f'(2), of off v]
  show ?thesis using f' os pos_le [OF od] by (auto simp: upd_file_def)
qed

lemma length_getbs: "getbs v a n = Some bs \<Longrightarrow> length bs = n"
  by (induction n arbitrary: a bs) (auto simp: bind_eq_Some_conv)

lemma fwrite_ok:
  assumes od: "disk_file k fp" and wr: "writable (files k fp)" and src: "getbs (kvm k) buf (unat n) = Some bs"
    and fits: "pos k fp + unat n \<le> FILE_MAX"
    and room: "2 * blocks (pos k fp mod BLK_SIZE) (unat n) \<le> nfree (kfs k)"
  shows "\<exists>k'. fwrite k fp buf n = Some (n, k') \<and> disk_file k' fp \<and> kvm k' = kvm k \<and>
    data k' fp = patch (data k fp) (pos k fp) bs \<and> pos k' fp = pos k fp + unat n \<and>
    readable (files k' fp) = readable (files k fp)"
proof -
  let ?p = "f_inode (files k fp)" and ?off = "f_offset (files k fp)"
  have len: "length bs = unat n" using src by (rule length_getbs)
  obtain f' where f': "iwrite (kfs k) ?p ?off bs = Some (int (length bs), f')" "fwf f' ?p" "dense f' ?p"
    "contents f' ?p = patch (contents (kfs k) ?p) (unat ?off) bs"
    using iwrite_segment [of "kfs k" ?p ?off bs] od fits room len by (auto simp: disk_file_def pos_def)
  let ?k = "upd_file (k\<lparr>kfs := f'\<rparr>) fp (\<lambda>f. f\<lparr>f_offset := ?off + n\<rparr>)"
  have sum: "unat (?off + n) = pos k fp + unat n"
    using fits by (simp add: unat_word_ariths pos_def)
  have "unat (isize f' ?p) = max (length (data k fp)) (pos k fp + length bs)"
    using arg_cong [OF f'(4), of length] pos_le [OF od]
    by (simp add: length_patch_gen data_def pos_def)
  then have "?off + n \<le> isize f' ?p" using sum len by (simp add: word_le_nat_alt)
  moreover have "fwrite k fp buf n = Some (n, ?k)"
    using od wr src f'(1) len by (simp add: fwrite_def Let_def disk_file_def upd_file_def not_less [symmetric])
  ultimately show ?thesis using f' od sum
    by (intro exI [of _ ?k]) (auto simp: disk_file_def upd_file_def data_def pos_def)
qed

subsection \<open>An open file\<close>

text \<open>The file with the contents \<open>hello\<close>, open for reading and writing, at offset \<open>off\<close>.\<close>

definition demo_io :: "u32 \<Rightarrow> kern" where
  "demo_io off = (demo_kern {})\<lparr>kvm := demo_vm, files := (\<lambda>_. \<lparr>f_type = TYPE_FILE, f_ref = 1, readable = True,
     writable = True, f_inode = 0, f_offset = off, dev_op = None\<rparr>)\<rparr>"

lemma demo_io_sel:
  "kvm (demo_io off) = demo_vm" "kfs (demo_io off) = demo_fs" "f_offset (files (demo_io off) fp) = off"
  "readable (files (demo_io off) fp)" "writable (files (demo_io off) fp)" "pos (demo_io off) fp = unat off"
  "data (demo_io off) fp = [104, 101, 108, 108, 111]"
  by (simp_all add: demo_io_def demo_kern_def pos_def data_def demo_contents)

lemma demo_io_on_disk: "off \<le> 5 \<Longrightarrow> disk_file (demo_io off) fp"
proof -
  assume "off \<le> 5"
  moreover have "isize demo_fs 0 = 5" by (simp add: isize_def demo_sel hello_di_def)
  ultimately show ?thesis
    using demo_fwf(1) demo_dense(1) by (simp add: disk_file_def demo_io_def demo_kern_def)
qed

lemma demo_put: "length bs \<le> 4096 \<Longrightarrow> \<exists>v. putbs demo_vm 0 bs = Some v \<and> getbs v 0 (length bs) = Some bs"
proof -
  assume "length bs \<le> 4096"
  then have "user_range demo_vm demo_tables 0 (length bs)"
    by (rule demo_user_range) (simp_all add: demo_vm_def)
  then show ?thesis using putbs_ok getbs_nth by blast
qed

text \<open>
  A read through an open file returns the bytes at its offset, as many as asked for and left,
  stores them in the user's buffer and advances the offset past them.
\<close>

lemma fread_continues_at_offset:
  assumes "disk_file k fp" and "readable (files k fp)" and "pos k fp + unat n < 2 ^ 32"
    and "putbs (kvm k) buf (take (unat n) (drop (pos k fp) (data k fp))) = Some v"
  shows "\<exists>k'. fread k fp buf n = Some (Done (of_nat (min (unat n) (length (data k fp) - pos k fp))), k') \<and>
    disk_file k' fp \<and> data k' fp = data k fp \<and> kvm k' = v \<and>
    pos k' fp = pos k fp + min (unat n) (length (data k fp) - pos k fp)"
  using assms by (rule fread_ok)

text \<open>
  What is written through an open file is read back: after \<open>fwrite\<close> and an \<open>fseek\<close> to the old
  offset, \<open>fread\<close> delivers the same bytes.
\<close>

lemma fread_after_fwrite:
  assumes "disk_file k fp" and "writable (files k fp)" and "readable (files k fp)"
    and "getbs (kvm k) src (unat n) = Some bs" and "pos k fp + unat n \<le> FILE_MAX"
    and "2 * blocks (pos k fp mod BLK_SIZE) (unat n) \<le> nfree (kfs k)"
    and "putbs (kvm k) dst bs = Some v"
  shows "\<exists>k1 k2 k3. fwrite k fp src n = Some (n, k1) \<and>
    fseek k1 fp (f_offset (files k fp)) SEEK_SET = Some (f_offset (files k fp), k2) \<and>
    fread k2 fp dst n = Some (Done n, k3) \<and> kvm k3 = v \<and> pos k3 fp = pos k fp + unat n"
proof -
  have len: "length bs = unat n" using assms(4) by (rule length_getbs)
  obtain k1 where k1: "fwrite k fp src n = Some (n, k1)" "disk_file k1 fp" "kvm k1 = kvm k"
    "data k1 fp = patch (data k fp) (pos k fp) bs" "readable (files k1 fp)"
    using fwrite_ok [OF assms(1,2,4-6)] assms(3) by auto
  let ?off = "f_offset (files k fp)"
  let ?k2 = "upd_file k1 fp (\<lambda>f. f\<lparr>f_offset := ?off\<rparr>)"
  have k2: "fseek k1 fp ?off SEEK_SET = Some (?off, ?k2)" using k1(2) by (simp add: fseek_def disk_file_def)
  have sel: "data ?k2 fp = data k1 fp" "pos ?k2 fp = pos k fp" "kvm ?k2 = kvm k" "readable (files ?k2 fp)"
    using k1(3,5) by (simp_all add: data_def pos_def upd_file_def)
  have le: "pos k fp + unat n \<le> length (data k1 fp)"
    using pos_le [OF assms(1)] len by (simp add: k1(4) length_patch_gen)
  then have od: "disk_file ?k2 fp"
    using k1(2) by (auto simp: disk_file_def upd_file_def data_def pos_def word_le_nat_alt)
  have seg: "take (unat n) (drop (pos k fp) (data k1 fp)) = bs"
    using pos_le [OF assms(1)] len by (simp add: k1(4) patch_def)
  have "\<exists>k3. fread ?k2 fp dst n = Some (Done (of_nat (unat n)), k3) \<and> kvm k3 = v \<and> pos k3 fp = pos k fp + unat n"
    using fread_ok [OF od sel(4), of n dst v] assms(5,7) sel seg le by (auto simp: min_absorb1)
  then show ?thesis using k1(1) k2 by auto
qed

end
