(* ===== verification/KTools.thy ===== *)
theory KTools
  imports ToolsProps Ucall FileProps
begin

text \<open>
  The programs of \<open>Tools\<close> on the kernel: their system calls are the stubs of \<open>Ucall\<close>, their memory is the memory of
  the process, a file is an open file of the kernel on its file system, and descriptor 1 is the console. The
  interfaces of \<open>ToolsProps\<close> hold there, so that \<open>cat\<close> prints the file.
\<close>

subsection \<open>The calls of a process\<close>

text \<open>A call whose process is not suspended; \<open>u\<close> holds the registers the call leaves alone.\<close>

definition completed :: "(u32 option \<times> kern) option \<Rightarrow> (u32 \<times> kern) option" where
  "completed r = do { (v, k) \<leftarrow> r; v \<leftarrow> v; Some (v, k) }"

text \<open>The string at an address: what is mapped from there on, at most a page.\<close>

definition string_at :: "kern \<Rightarrow> u32 \<Rightarrow> bytes" where
  "string_at k p = map (\<lambda>i. the (getb (kvm k) (p + of_nat i)))
     (takeWhile (\<lambda>i. getb (kvm k) (p + of_nat i) \<noteq> None) [0..<PGSIZE])"

text \<open>\<open>tmp\<close> is the buffer on the stack in which \<open>fprintf\<close> and \<open>printf\<close> format.\<close>

definition kernel_os :: "uregs \<Rightarrow> u32 \<Rightarrow> kern os" where
  "kernel_os u tmp = \<lparr>
     os_read = (\<lambda>fd buf count k. completed (u_read k u fd buf count)),
     os_write = (\<lambda>fd buf count k. completed (u_write k u fd buf count)),
     os_open = (\<lambda>path mode k. completed (u_open k u path mode)),
     os_close = (\<lambda>fd k. completed (u_close k u fd)),
     os_unlink = (\<lambda>path k. completed (u_unlink k u path)),
     os_load = (\<lambda>k a n. getbs (kvm k) a n),
     os_string = string_at,
     os_text = (\<lambda>fd bs k. do {
       v \<leftarrow> putbs (kvm k) tmp bs;
       completed (u_write (k\<lparr>kvm := v\<rparr>) u fd tmp (of_nat (length bs))) })\<rparr>"

subsection \<open>What a trap leaves alone\<close>

text \<open>The bytes of the context at the top of the kernel stack.\<close>

definition frame :: "kern \<Rightarrow> nat set" where
  "frame k = {unat (user_ctx_of k)..<unat (user_ctx_of k) + CTX_SIZE}"

definition only_in :: "nat set \<Rightarrow> vm \<Rightarrow> vm \<Rightarrow> bool" where
  "only_in R v v' \<longleftrightarrow> cr3 v' = cr3 v \<and> (\<forall>a. a \<notin> R \<longrightarrow> pmem v' a = pmem v a)"

lemma only_in_trans: "only_in R v v' \<Longrightarrow> only_in R v' v'' \<Longrightarrow> only_in R v v''"
  by (simp add: only_in_def)

lemma trap_only: "ctx_fits k \<Longrightarrow> only_in (frame k) (kvm k) (kvm (trap k u irq))"
  by (auto simp: only_in_def trap_def ctx_write_def fill_def frame_def overlay_def)

lemma ctx_set_only: "ctx_fits k \<Longrightarrow> only_in (frame k) v (ctx_set v (user_ctx_of k) ctx_eax r)"
proof -
  assume "ctx_fits k"
  then have "unat (user_ctx_of k + 28) = unat (user_ctx_of k) + 28"
    by (simp add: ctx_fits_def unat_word_ariths)
  then show ?thesis by (auto simp: only_in_def ctx_set_def st_def frame_def overlay_def)
qed

text \<open>Memory of the process that is mapped, and not on the page tables or the context; a buffer has 4096 bytes.\<close>

definition user_area :: "vm \<Rightarrow> nat set \<Rightarrow> nat set \<Rightarrow> u32 \<Rightarrow> nat \<Rightarrow> bool" where
  "user_area v T R a n \<longleftrightarrow> user_range v T a n \<and> T \<inter> R = {} \<and>
     (\<forall>i < n. \<forall>p. translate v (a + of_nat i) = Some p \<longrightarrow> unat p \<notin> R)"

abbreviation user_buf :: "vm \<Rightarrow> nat set \<Rightarrow> nat set \<Rightarrow> u32 \<Rightarrow> bool" where
  "user_buf v T R buf \<equiv> user_area v T R buf 4096"

lemma tables_only: "tables v T \<Longrightarrow> only_in R v v' \<Longrightarrow> T \<inter> R = {} \<Longrightarrow> tables v' T \<and> translate v' = translate v"
proof -
  assume t: "tables v T" and o: "only_in R v v'" and d: "T \<inter> R = {}"
  have e: "cr3 v' = cr3 v" "\<forall>a \<in> T. pmem v' a = pmem v a" using o d by (auto simp: only_in_def)
  then have tr: "translate v' = translate v" using t unfolding tables_def by blast
  have "translate w = translate v'" if "cr3 w = cr3 v'" "\<forall>a \<in> T. pmem w a = pmem v' a" for w
  proof -
    have "cr3 w = cr3 v \<and> (\<forall>a \<in> T. pmem w a = pmem v a)" using that e by auto
    then have "translate w = translate v" using t unfolding tables_def by blast
    then show ?thesis using tr by simp
  qed
  then show ?thesis using tr unfolding tables_def by blast
qed

lemma user_area_only: "user_area v T R a n \<Longrightarrow> only_in R v v' \<Longrightarrow> user_area v' T R a n"
proof -
  assume b: "user_area v T R a n" and o: "only_in R v v'"
  then have "tables v T" "T \<inter> R = {}" by (simp_all add: user_area_def user_range_def)
  from tables_only [OF this(1) o this(2)] b show ?thesis by (simp add: user_area_def user_range_def)
qed

lemma user_area_tables: "user_area v T R a n \<Longrightarrow> tables v' T \<Longrightarrow> translate v' = translate v \<Longrightarrow> user_area v' T R a n"
  by (simp add: user_area_def user_range_def)

lemma user_area_part:
  assumes "user_area v T R a n" and "i + m \<le> n"
  shows "user_area v T R (a + of_nat i) m"
proof -
  have idx: "a + of_nat i + of_nat j = a + of_nat (i + j)" for j by (simp add: add.assoc)
  have "inj_on (\<lambda>j. translate v (a + of_nat (i + j))) {..<m}"
  proof (rule inj_onI)
    fix j j' assume "j \<in> {..<m}" "j' \<in> {..<m}" and e: "translate v (a + of_nat (i + j)) = translate v (a + of_nat (i + j'))"
    then have "i + j \<in> {..<n}" "i + j' \<in> {..<n}" using assms(2) by auto
    then have "i + j = i + j'" using assms(1) e unfolding user_area_def user_range_def by (meson inj_onD)
    then show "j = j'" by simp
  qed
  moreover have "i + j < n" if "j < m" for j using that assms(2) by simp
  ultimately show ?thesis using assms(1) unfolding user_area_def user_range_def idx by blast
qed

lemma getbs_cong: "(\<forall>i < n. getb v' (va + of_nat i) = getb v (va + of_nat i)) \<Longrightarrow> getbs v' va n = getbs v va n"
proof (induction n arbitrary: va)
  case (Suc n)
  have "\<forall>i < n. getb v' (va + 1 + of_nat i) = getb v (va + 1 + of_nat i)"
    using Suc.prems by (metis Suc_mono add.assoc of_nat_Suc)
  then show ?case using Suc.IH [of "va + 1"] Suc.prems [rule_format, of 0] by simp
qed simp

lemma getbs_only:
  assumes "user_area v T R a n" and "only_in R v v'"
  shows "getbs v' a n = getbs v a n"
proof (rule getbs_cong, intro allI impI)
  fix i assume i: "i < n"
  have "tables v T" "T \<inter> R = {}" using assms(1) by (simp_all add: user_area_def user_range_def)
  then have tr: "translate v' = translate v" using tables_only [OF _ assms(2)] by blast
  obtain p where p: "translate v (a + of_nat i) = Some p" "unat p \<notin> R"
    using assms(1) i unfolding user_area_def user_range_def by blast
  then show "getb v' (a + of_nat i) = getb v (a + of_nat i)"
    using tr assms(2) by (simp add: getb_def only_in_def)
qed

lemma getbs_take: "getbs v a n = Some bs \<Longrightarrow> m \<le> n \<Longrightarrow> getbs v a m = Some (take m bs)"
proof (induction m arbitrary: a n bs)
  case (Suc m)
  then obtain n' b cs where n: "n = Suc n'" "getb v a = Some b" "getbs v (a + 1) n' = Some cs" "bs = b # cs"
    by (cases n) (auto simp: bind_eq_Some_conv)
  then show ?case using Suc.IH [OF n(3)] Suc.prems(2) by simp
qed simp

lemma getbs_drop: "getbs v a n = Some bs \<Longrightarrow> i \<le> n \<Longrightarrow> getbs v (a + of_nat i) (n - i) = Some (drop i bs)"
proof (induction i arbitrary: a n bs)
  case (Suc i)
  then obtain n' b cs where n: "n = Suc n'" "getb v a = Some b" "getbs v (a + 1) n' = Some cs" "bs = b # cs"
    by (cases n) (auto simp: bind_eq_Some_conv)
  then show ?case using Suc.IH [OF n(3)] Suc.prems(2) by (simp add: add.assoc)
qed simp

lemma getbs_getb: "getbs v a n = Some bs \<Longrightarrow> i < n \<Longrightarrow> getb v (a + of_nat i) = Some (bs ! i)"
  using getbs_drop [of v a n bs i] length_getbs [of v a n bs] by (cases "n - i") (auto simp: bind_eq_Some_conv Cons_nth_drop_Suc [symmetric])

subsection \<open>Reading a file of the kernel\<close>

definition unread :: "nat \<Rightarrow> kern \<Rightarrow> bytes" where
  "unread f k = drop (pos k f) (data k f)"

definition reading :: "nat set \<Rightarrow> nat set \<Rightarrow> u32 \<Rightarrow> u32 \<Rightarrow> nat \<Rightarrow> kern \<Rightarrow> bool" where
  "reading T R fd buf f k \<longleftrightarrow> ctx_fits k \<and> frame k = R \<and> fd_file k fd = Some f \<and> disk_file k f \<and> readable (files k f) \<and>
     user_buf (kvm k) T R buf"

text \<open>Memory that a store of \<open>n\<close> bytes at \<open>a\<close> and the context leave alone.\<close>

definition spared :: "nat set \<Rightarrow> u32 \<Rightarrow> nat \<Rightarrow> vm \<Rightarrow> vm \<Rightarrow> bool" where
  "spared R a n v v' \<longleftrightarrow> translate v' = translate v \<and>
     (\<forall>x. (\<forall>i < n. translate v (a + of_nat i) \<noteq> Some x) \<longrightarrow> unat x \<notin> R \<longrightarrow> pmem v' (unat x) = pmem v (unat x))"

lemma kvm_sel [simp]:
  "fd_file (k\<lparr>kvm := v\<rparr>) fd = fd_file k fd" "disk_file (k\<lparr>kvm := v\<rparr>) f = disk_file k f" "ctx_fits (k\<lparr>kvm := v\<rparr>) = ctx_fits k"
  "frame (k\<lparr>kvm := v\<rparr>) = frame k" "data (k\<lparr>kvm := v\<rparr>) f = data k f" "pos (k\<lparr>kvm := v\<rparr>) f = pos k f"
  by (simp_all add: fd_file_def proc_getfile_def disk_file_def ctx_fits_def frame_def data_def pos_def)

lemma trap_sel [simp]:
  "fd_file (trap k u i) fd = fd_file k fd" "disk_file (trap k u i) f = disk_file k f" "ctx_fits (trap k u i) = ctx_fits k"
  "frame (trap k u i) = frame k" "data (trap k u i) f = data k f" "pos (trap k u i) f = pos k f" "files (trap k u i) = files k"
  "kfs (trap k u i) = kfs k" "s_out (trap k u i) = s_out k"
  by (simp_all add: trap_def)

lemma file_sel [simp]:
  "fd_file (upd_file (k\<lparr>kvm := v, kfs := w\<rparr>) f g) fd = fd_file k fd"
  "ctx_fits (upd_file (k\<lparr>kvm := v, kfs := w\<rparr>) f g) = ctx_fits k" "frame (upd_file (k\<lparr>kvm := v, kfs := w\<rparr>) f g) = frame k"
  "user_ctx_of (upd_file (k\<lparr>kvm := v, kfs := w\<rparr>) f g) = user_ctx_of k"
  "kvm (upd_file k' f g) = kvm k'" "s_out (upd_file k' f g) = s_out k'" "files (upd_file k' f g) = (files k')(f := g (files k' f))"
  by (simp_all add: fd_file_def proc_getfile_def ctx_fits_def frame_def upd_file_def user_ctx_of_def)

text \<open>One call of \<open>read\<close>: the next bytes are in the buffer, and only the buffer, the file and the context have changed.\<close>

lemma read_step:
  assumes r: "reading T R fd buf f k"
  defines "xs \<equiv> take 4096 (unread f k)"
  shows "\<exists>v f' off. os_read (kernel_os u tmp) fd buf BUF k =
      Some (of_nat (length xs), upd_file (k\<lparr>kvm := v, kfs := f'\<rparr>) f (\<lambda>x. x\<lparr>f_offset := off\<rparr>)) \<and>
    same (kfs k) f' \<and> unat off = pos k f + length xs \<and> user_buf v T R buf \<and> getbs v buf (length xs) = Some xs \<and>
    spared R buf (length xs) (kvm k) v"
proof -
  let ?k = "trap k (call_regs u SYS_read fd buf BUF 0 0) EX_SYSCALL"
  have c: "ctx_fits k" "frame k = R" "fd_file k fd = Some f" "disk_file k f" "readable (files k f)" "user_buf (kvm k) T R buf"
    using r by (simp_all add: reading_def)
  have ub: "user_buf (kvm ?k) T R buf" using user_area_only [OF c(6)] trap_only [OF c(1)] c(2) by blast
  have l: "length xs \<le> 4096" "length xs = min 4096 (length (data k f) - pos k f)" by (simp_all add: xs_def unread_def)
  have "user_range (kvm ?k) T buf (length xs)" using user_area_part [OF ub, of 0 "length xs"] l(1) by (simp add: user_area_def)
  then obtain v where v: "putbs (kvm ?k) buf xs = Some v" "tables v T" "translate v = translate (kvm ?k)"
      "\<forall>i < length xs. getb v (buf + of_nat i) = Some (xs ! i)"
      "\<forall>x. (\<forall>i < length xs. translate (kvm ?k) (buf + of_nat i) \<noteq> Some x) \<longrightarrow> pmem v (unat x) = pmem (kvm ?k) (unat x)"
    using putbs_ok by blast
  have nw: "pos ?k f + unat BUF < 2 ^ 32" using pos_le [OF c(4)] data_small [OF c(4)] by simp
  obtain f' off where fr: "fread ?k f buf BUF =
      Some (Done (of_nat (length xs)), upd_file (?k\<lparr>kvm := v, kfs := f'\<rparr>) f (\<lambda>x. x\<lparr>f_offset := off\<rparr>))"
    "same (kfs ?k) f'" "unat off = pos ?k f + length xs"
    using fread_exact [of ?k f BUF buf v "length xs"] c v(1) nw l by (auto simp: xs_def unread_def)
  have uv: "user_buf v T R buf" by (rule user_area_tables [OF ub v(2,3)])
  let ?w = "ctx_set v (user_ctx_of k) ctx_eax (of_nat (length xs))"
  have o: "only_in R v ?w" using ctx_set_only [OF c(1)] c(2) by blast
  have e: "os_read (kernel_os u tmp) fd buf BUF k =
      Some (of_nat (length xs), upd_file (k\<lparr>kvm := ?w, kfs := f'\<rparr>) f (\<lambda>x. x\<lparr>f_offset := off\<rparr>))"
    using fr(1) c(1,3) by (simp add: kernel_os_def completed_def u_read_kernel sys_read_def of_step_def)
      (simp add: upd_file_def trap_def)
  have up: "user_area v T R buf (length xs)" using user_area_part [OF uv, of 0 "length xs"] l(1) by simp
  have "getbs ?w buf (length xs) = Some xs"
    using getbs_only [OF up o] getbs_nth [OF v(4)] by simp
  moreover have "spared R buf (length xs) (kvm k) ?w"
  proof -
    have t: "tables (kvm k) T" "T \<inter> R = {}" using c(6) by (simp_all add: user_area_def user_range_def)
    have k: "only_in R (kvm k) (kvm ?k)" using trap_only [OF c(1)] c(2) by blast
    have "translate (kvm ?k) = translate (kvm k)" using tables_only [OF t(1) k t(2)] by blast
    moreover have "translate ?w = translate v" using tables_only [OF v(2) o t(2)] by blast
    ultimately show ?thesis using v(3,5) k o unfolding spared_def only_in_def by metis
  qed
  ultimately show ?thesis using e fr(2,3) user_area_only [OF uv o] by (intro exI [of _ ?w] exI [of _ f'] exI [of _ off]) simp
qed

lemma drop_taken: "drop (p + length (take n (drop p d))) d = drop n (drop p d)"
  by (cases "n \<le> length d - p") (auto simp: add.commute)

lemma read_keeps:
  assumes "reading T R fd buf f k" and "same (kfs k) f'" and "unat off = pos k f + length (take 4096 (unread f k))"
    and "user_buf v T R buf"
  defines "k' \<equiv> upd_file (k\<lparr>kvm := v, kfs := f'\<rparr>) f (\<lambda>x. x\<lparr>f_offset := off\<rparr>)"
  shows "reading T R fd buf f k'" and "unread f k = take 4096 (unread f k) @ unread f k'"
    and "unread f k' = drop 4096 (unread f k)"
proof -
  have c: "disk_file k f" using assms(1) by (simp add: reading_def)
  have le: "unat off \<le> length (data k f)" using assms(3) pos_le [OF c] by (simp add: unread_def)
  note d = disk_file_same [OF c assms(2) le, of v]
  show "reading T R fd buf f k'" using assms(1,4) d(1) by (simp add: reading_def k'_def)
  show "unread f k = take 4096 (unread f k) @ unread f k'"
    using d(2,3) assms(3) drop_taken [of "pos k f" 4096 "data k f"] by (simp only: unread_def k'_def append_take_drop_id)
  then show "unread f k' = drop 4096 (unread f k)" by (metis append_take_drop_id same_append_eq)
qed

interpretation kfile: file_source "kernel_os u tmp" fd buf "reading T R fd buf f" "unread f"
  for u tmp fd buf T R f
proof (unfold_locales, goal_cases)
  case (1 k)
  obtain v f' off where s: "os_read (kernel_os u tmp) fd buf BUF k = Some (of_nat (length (take 4096 (unread f k))),
      upd_file (k\<lparr>kvm := v, kfs := f'\<rparr>) f (\<lambda>x. x\<lparr>f_offset := off\<rparr>))" "same (kfs k) f'"
    "unat off = pos k f + length (take 4096 (unread f k))" "user_buf v T R buf"
    "getbs v buf (length (take 4096 (unread f k))) = Some (take 4096 (unread f k))"
    using read_step [OF 1] by blast
  show ?case using s(1,5) read_keeps [OF 1 s(2-4)]
    by (intro exI [of _ "take 4096 (unread f k)"] exI) (auto simp: kernel_os_def)
qed

subsection \<open>Printing it on the console\<close>

definition console_out :: "nat \<Rightarrow> kern \<Rightarrow> bool" where
  "console_out g k \<longleftrightarrow> fd_file k 1 = Some g \<and> f_type (files k g) = TYPE_DEV \<and> dev_op (files k g) = Some 0 \<and> writable (files k g)"

definition printing :: "nat set \<Rightarrow> nat set \<Rightarrow> u32 \<Rightarrow> u32 \<Rightarrow> nat \<Rightarrow> nat \<Rightarrow> kern \<Rightarrow> bool" where
  "printing T R fd buf f g k \<longleftrightarrow> reading T R fd buf f k \<and> console_out g k"

lemma console_not_file: "printing T R fd buf f g k \<Longrightarrow> g \<noteq> f"
  by (auto simp: printing_def reading_def console_out_def disk_file_def)

lemma putstrn_out: "putstrn k bs = k\<lparr>s_out := s_out k @ bs\<rparr>"
  by (induction bs arbitrary: k) (simp_all add: putstrn_def putchar_def)

lemma out_sel [simp]:
  "fd_file (k\<lparr>s_out := x\<rparr>) fd = fd_file k fd" "disk_file (k\<lparr>s_out := x\<rparr>) f = disk_file k f" "ctx_fits (k\<lparr>s_out := x\<rparr>) = ctx_fits k"
  "frame (k\<lparr>s_out := x\<rparr>) = frame k" "data (k\<lparr>s_out := x\<rparr>) f = data k f" "pos (k\<lparr>s_out := x\<rparr>) f = pos k f"
  "user_ctx_of (k\<lparr>s_out := x\<rparr>) = user_ctx_of k"
  by (simp_all add: fd_file_def proc_getfile_def disk_file_def ctx_fits_def frame_def data_def pos_def user_ctx_of_def)

lemma write_area:
  assumes c: "ctx_fits k" "frame k = R" "console_out g k" and a: "user_area (kvm k) T R a n" and n: "n \<le> 4096"
    and x: "getbs (kvm k) a n = Some xs"
  shows "\<exists>v. os_write (kernel_os u tmp) 1 a (of_nat n) k = Some (of_nat n, k\<lparr>kvm := v, s_out := s_out k @ xs\<rparr>) \<and>
    only_in R (kvm k) v"
proof -
  let ?n = "of_nat n :: u32"
  let ?k = "trap k (call_regs u SYS_write 1 a ?n 0 0) EX_SYSCALL"
  have d: "fd_file k 1 = Some g" "f_type (files k g) = TYPE_DEV" "dev_op (files k g) = Some 0" "writable (files k g)"
    using c(3) by (simp_all add: console_out_def)
  have o: "only_in R (kvm k) (kvm ?k)" using trap_only [OF c(1)] c(2) by blast
  have u: "unat ?n = n" using n by (intro unat_of_nat32) simp
  have g: "getbs (kvm ?k) a (unat ?n) = Some xs" using getbs_only [OF a o] x u by simp
  let ?w = "ctx_set (kvm ?k) (user_ctx_of k) ctx_eax ?n"
  have "only_in R (kvm ?k) ?w" using ctx_set_only [OF c(1)] c(2) by blast
  then have "only_in R (kvm k) ?w" by (rule only_in_trans [OF o])
  moreover have "os_write (kernel_os u tmp) 1 a ?n k = Some (?n, k\<lparr>kvm := ?w, s_out := s_out k @ xs\<rparr>)"
    using c d g length_getbs [OF x] by (simp add: kernel_os_def completed_def u_write_kernel sys_write_def fwrite_def dev_write_def serial_write_def
      putstrn_out) (simp add: trap_def)
  ultimately show ?thesis by blast
qed

lemma printing_out:
  "printing T R fd buf f g k \<Longrightarrow> only_in R (kvm k) v \<Longrightarrow> printing T R fd buf f g (k\<lparr>kvm := v, s_out := x\<rparr>)"
  by (auto simp: printing_def reading_def console_out_def intro: user_area_only)

interpretation kcat: file_to_output "kernel_os u tmp" fd buf "printing T R fd buf f g" "unread f" s_out
  for u tmp fd buf T R f g
proof (unfold_locales, goal_cases)
  case (1 k)
  then have r: "reading T R fd buf f k" by (simp add: printing_def)
  obtain v f' off where s: "os_read (kernel_os u tmp) fd buf BUF k = Some (of_nat (length (take 4096 (unread f k))),
      upd_file (k\<lparr>kvm := v, kfs := f'\<rparr>) f (\<lambda>x. x\<lparr>f_offset := off\<rparr>))" "same (kfs k) f'"
    "unat off = pos k f + length (take 4096 (unread f k))" "user_buf v T R buf"
    "getbs v buf (length (take 4096 (unread f k))) = Some (take 4096 (unread f k))"
    using read_step [OF r] by blast
  have "console_out g (upd_file (k\<lparr>kvm := v, kfs := f'\<rparr>) f (\<lambda>x. x\<lparr>f_offset := off\<rparr>))"
    using 1 console_not_file [OF 1] by (simp add: console_out_def printing_def)
  then show ?case using s(1,5) read_keeps [OF r s(2-4)]
    by (intro exI [of _ "take 4096 (unread f k)"] exI) (auto simp: kernel_os_def printing_def)
next
  case (2 k n k')
  then have r: "reading T R fd buf f k" by (simp add: printing_def)
  show ?case using read_step [OF r, of u tmp] 2(2) by auto
next
  case (3 k xs)
  then have c: "ctx_fits k" "frame k = R" "console_out g k" "user_area (kvm k) T R buf (length xs)"
    using user_area_part [of "kvm k" T R buf 4096 0 "length xs"] by (simp_all add: printing_def reading_def)
  obtain v where v: "os_write (kernel_os u tmp) 1 buf (of_nat (length xs)) k =
      Some (of_nat (length xs), k\<lparr>kvm := v, s_out := s_out k @ xs\<rparr>)" "only_in R (kvm k) v"
    using write_area [OF c] 3(2,3) by (auto simp: kernel_os_def)
  then show ?case using printing_out [OF 3(1) v(2)]
    by (intro exI [of _ "k\<lparr>kvm := v, s_out := s_out k @ xs\<rparr>"]) (simp add: unread_def)
qed

subsection \<open>Properties\<close>

text \<open>
  C10: \<open>cat\<close> (\<open>user/src/phase6/cat.c\<close>) on a file prints the file. Run over the stubs of the system calls, the traps,
  the kernel's file system and the serial console, from any offset and whatever the length, \<open>cat\<close> ends without an
  error, has read the file to its end and has sent exactly the bytes that were left in the file to the console.
\<close>

theorem cat_prints_file:
  assumes "printing T R fd buf f g k"
  shows "\<exists>k'. cat (kernel_os u tmp) buf fd k = Some (Go (), k') \<and> unread f k' = [] \<and>
    s_out k' = s_out k @ drop (pos k f) (data k f)"
  using kcat.cat_copies [OF assms, of u tmp] by (auto simp: unread_def)

subsection \<open>The file \<open>hello\<close>\<close>

text \<open>Descriptor 3 is the file \<open>hello\<close>, descriptor 1 the console; the buffer is at address 0, in page 5.\<close>

definition demo_cat :: kern where
  "demo_cat = (demo_io 0)\<lparr>pcb := (\<lambda>_. boot_proc\<lparr>p_files := (replicate MAX_UFILE None)[1 := Some 1, 3 := Some 0]\<rparr>),
     files := (files (demo_io 0))(1 := \<lparr>f_type = TYPE_DEV, f_ref = 1, readable = True, writable = True, f_inode = 0,
       f_offset = 0, dev_op = Some 0\<rparr>)\<rparr>"

lemma demo_cat_frame: "frame demo_cat = {0xfc4..<0x1000}" "ctx_fits demo_cat"
  by (simp_all add: frame_def ctx_fits_def user_ctx_of_def ctx_at_def demo_cat_def boot_proc_def)

lemma demo_cat_buf: "user_buf (kvm demo_cat) demo_tables {0xfc4..<0x1000} 0"
proof -
  have v: "cr3 demo_vm = 0x1000" "\<forall>a \<in> demo_tables. pmem demo_vm a = demo_mem a" by (simp_all add: demo_vm_def)
  have "translate demo_vm (0 + of_nat i) = Some (0x5000 OR ADDR2OFF (of_nat i))" for i using demo_translate [OF v] by simp
  moreover have "unat (0x5000 OR ADDR2OFF (of_nat i) :: u32) \<notin> {0xfc4..<0x1000}" if "i < 4096" for i
    using demo_offset [OF that] by simp
  ultimately show ?thesis using demo_user_range [OF _ v, of 4096]
    by (auto simp: user_area_def demo_tables_def demo_cat_def demo_io_sel)
qed

lemma demo_cat_printing: "printing demo_tables {0xfc4..<0x1000} 3 0 0 1 demo_cat"
proof -
  have "disk_file demo_cat 0" using demo_io_on_disk [of 0 0] by (simp add: disk_file_def demo_cat_def)
  moreover have "fd_file demo_cat 3 = Some 0" "fd_file demo_cat 1 = Some 1" "readable (files demo_cat 0)"
    by (simp_all add: fd_file_def proc_getfile_def get_slot_def demo_cat_def demo_io_def sint_small)
  ultimately show ?thesis using demo_cat_buf demo_cat_frame
    by (simp add: printing_def reading_def console_out_def) (simp add: demo_cat_def)
qed

lemma demo_cat_data: "data demo_cat 0 = [104, 101, 108, 108, 111]" "pos demo_cat 0 = 0" "s_out demo_cat = []"
  using demo_io_sel(6,7) [of 0 0] by (simp_all add: demo_cat_def data_def pos_def) (simp_all add: demo_io_def demo_kern_def)

lemma cat_prints_file_witness:
  "\<exists>k'. cat (kernel_os demo_regs 0x800) 0 3 demo_cat = Some (Go (), k') \<and> s_out k' = [104, 101, 108, 108, 111]"
  using cat_prints_file [OF demo_cat_printing, of demo_regs "0x800"] by (auto simp: demo_cat_data)

end
