(* ===== verification/KPrint.thy ===== *)
theory KPrint
  imports KTools
begin

text \<open>
  What \<open>wc\<close> and \<open>head\<close> print on the kernel: \<open>wc\<close> its counts in decimal with the name of the file, through the formatted
  output of the C library, and \<open>head\<close> the first lines of what is in its buffer.
\<close>

subsection \<open>Decimal numbers\<close>

fun decimal :: "nat \<Rightarrow> bytes" where
  "decimal n = (if n < 10 then [48 + of_nat n] else decimal (n div 10) @ [48 + of_nat (n mod 10)])"

declare decimal.simps [simp del]

lemma decimal_small: "n < 10 \<Longrightarrow> decimal n = [48 + of_nat n]"
  by (subst decimal.simps) simp

lemma decimal_nonzero: "0 \<notin> set (decimal n)"
proof (induction n rule: decimal.induct)
  case (1 n)
  have z: "48 + of_nat d \<noteq> (0 :: u8)" if "d < 10" for d :: nat
  proof -
    have "unat (48 + of_nat d :: u8) = 48 + d" using that by (simp add: unat_word_ariths unat_of_nat take_bit_nat_eq_self)
    then show ?thesis by (metis add_is_0 unat_0 zero_neq_numeral)
  qed
  then show ?case using 1 z [of "n mod 10"] by (subst decimal.simps) auto
qed

lemma length_decimal: "n < 10 ^ k \<Longrightarrow> 0 < k \<Longrightarrow> length (decimal n) \<le> k"
proof (induction k arbitrary: n)
  case (Suc k)
  show ?case
  proof (cases "n < 10")
    case False
    then have "k \<noteq> 0" using Suc.prems(1) by (cases k) auto
    moreover have "n div 10 < 10 ^ k" using Suc.prems(1) by (simp add: less_mult_imp_div_less mult.commute)
    ultimately show ?thesis using Suc.IH [of "n div 10"] False by (subst decimal.simps) simp
  qed (simp add: decimal_small)
qed simp

lemma digits_decimal: "d < 10 \<Longrightarrow> digits ! d = 48 + of_nat d"
proof -
  have "list_all (\<lambda>d. digits ! d = 48 + of_nat d) [0..<10]" by code_simp
  then show "d < 10 \<Longrightarrow> digits ! d = 48 + of_nat d" by (simp add: list_all_iff del: upt_rec_numeral)
qed

lemma num_digits_decimal: "v \<noteq> 0 \<Longrightarrow> rev (num_digits digits v 10) = decimal (unat v)"
proof (induction digits v "10 :: nat" rule: num_digits.induct)
  case (1 v)
  let ?q = "of_nat (unat v div 10) :: u32"
  have "unat v div 10 < 2 ^ 32" using unsigned_less [of v, where 'a = nat] le_less_trans [of "unat v div 10" "unat v"] by simp
  then have q: "unat ?q = unat v div 10" by (rule unat_of_nat32)
  have u: "num_digits digits v 10 = digits ! (unat v mod 10) # num_digits digits ?q 10"
    using 1(2) by (subst num_digits.simps) simp
  have d: "digits ! (unat v mod 10) = 48 + of_nat (unat v mod 10)" by (rule digits_decimal) simp
  show ?case
  proof (cases "unat v < 10")
    case True
    then have "num_digits digits ?q 10 = []" by (subst num_digits.simps) simp
    then show ?thesis using True d by (simp add: u decimal_small)
  next
    case False
    then have "unat ?q \<noteq> 0" using q by simp
    then have "?q \<noteq> 0" by force
    then have "rev (num_digits digits ?q 10) = decimal (unat v div 10)" using 1(1) 1(2) q by simp
    then show ?thesis using False d by (subst decimal.simps) (simp add: u)
  qed
qed

lemma number_decimal:
  assumes "unat v < 2 ^ 31"
  shows "number v 10 (- 1) (- 1) (set_bit SIGN 0) = Some (Some (decimal (unat v)))"
proof -
  define t where "t = (set_bit SIGN 0 :: u32)"
  have b: "bit t i \<longleftrightarrow> i = SIGN" for i unfolding t_def by (auto simp: bit_simps)
  have s: "\<not> sint v < 0" using sint_small [OF assms] by simp
  define tmp where "tmp = (if v = 0 then [48] else num_digits digits v 10)"
  have r: "rev tmp = decimal (unat v)" using num_digits_decimal [of v] decimal_small [of 0] by (simp add: tmp_def)
  have "length (num_digits digits v 10) \<le> 32" using unsigned_less [of v, where 'a = nat] by (intro num_digits_short) simp_all
  then have l: "length tmp \<le> 32" by (simp add: tmp_def)
  have p: "pad lim sz c = Some ([], sz - 1)" if "sz \<le> lim" "- (2 ^ 31) < sz" "sz < 2 ^ 31" for lim sz and c :: u8
    using that by (subst pad.simps) (simp add: int_ok_def)
  have ns: "num_sign v (- 1) t = Some (0, v, - 1)" using s by (simp add: num_sign_def b)
  have k: "int_ok (- 1 - int (length tmp)) = Some (- 1 - int (length tmp))" using l by (simp add: int_ok_def)
  have ps: "pad 0 (- 1 - int (length tmp)) 32 = Some ([], - 2 - int (length tmp))"
    "pad 0 (- 2 - int (length tmp)) 32 = Some ([], - 3 - int (length tmp))"
    "pad 0 (- 3 - int (length tmp)) 32 = Some ([], - 4 - int (length tmp))"
    "pad (int (length tmp)) (int (length tmp)) 48 = Some ([], int (length tmp) - 1)"
    using l by (simp_all add: p)
  show ?thesis
    using ns k ps r [symmetric] unfolding number_def Let_def t_def [symmetric] tmp_def
    by (cases "v = 0") (simp_all add: b num_prefix_def)
qed

subsection \<open>What \<open>wc\<close> formats\<close>

lemma directive_number:
  assumes "unat v < 2 ^ 31"
  shows "directive m (100 # s) (v # args) = Some (decimal (unat v), s, args)"
  using number_decimal [OF assms] by (simp add: directive_def is_dec_def fmt_number_def)

lemma directive_string:
  assumes "a \<noteq> 0" and "strlen (m a) = Some (length w)" and "take (length w) (m a) = w" and "length w < 2 ^ 31"
  shows "directive m (115 # s) (a # args) = Some (w, s, args)"
proof -
  have "pad (int (length w)) (- 1) 32 = Some ([], - 2)" "pad (int (length w)) (- 2) 32 = Some ([], - 3)"
    by (subst pad.simps; simp add: int_ok_def)+
  moreover have "min (length (m a)) (length w) = length w" using arg_cong [OF assms(3), of length] by simp
  ultimately show ?thesis using assms by (simp add: directive_def is_dec_def fmt_string_def pad_text_def Let_def)
qed

definition wc_line :: "bytes \<Rightarrow> bytes \<Rightarrow> bytes" where
  "wc_line bs w = decimal (count_list bs 10) @ [32] @ decimal (length (words bs)) @ [32] @ decimal (length bs) @ [32] @ w @ [10]"

lemma vsprintf_wc:
  assumes "unat a < 2 ^ 31" and "unat b < 2 ^ 31" and "unat c < 2 ^ 31"
    and "p \<noteq> 0" and "strlen (m p) = Some (length w)" and "take (length w) (m p) = w" and "length w < 2 ^ 31"
  defines "out \<equiv> decimal (unat a) @ [32] @ decimal (unat b) @ [32] @ decimal (unat c) @ [32] @ w @ [10]"
  shows "vsprintf m wc_format [a, b, c, p] = Some (length out, out @ [0])"
proof -
  note d = directive_number [OF assms(1)] directive_number [OF assms(2)] directive_number [OF assms(3)]
    directive_string [of p m, OF assms(4-7)]
  have "vsprintf_loop m wc_format [a, b, c, p] = Some out"
    unfolding wc_format_def out_def
    by (subst vsprintf_loop.simps, simp add: d, subst vsprintf_loop.simps, simp, subst vsprintf_loop.simps, simp add: d,
      subst vsprintf_loop.simps, simp, subst vsprintf_loop.simps, simp add: d, subst vsprintf_loop.simps, simp,
      subst vsprintf_loop.simps, simp add: d, subst vsprintf_loop.simps, simp, subst vsprintf_loop.simps, simp)
  then show ?thesis by (simp add: vsprintf_def)
qed

lemma length_words: "length (words bs) \<le> length bs"
proof (induction bs rule: words.induct)
  case (2 x xs)
  then show ?case using length_dropWhile_le [of "\<lambda>b. \<not> wspace b" xs] by auto
qed simp

subsection \<open>Memory that a read leaves alone\<close>

lemma spared_getbs:
  assumes "spared R a n v v'" and "user_area v T R b m" and "\<forall>i < n. \<forall>j < m. translate v (a + of_nat i) \<noteq> translate v (b + of_nat j)"
  shows "getbs v' b m = getbs v b m"
proof (rule getbs_cong, intro allI impI)
  fix j assume j: "j < m"
  then obtain p where p: "translate v (b + of_nat j) = Some p" "unat p \<notin> R"
    using assms(2) unfolding user_area_def user_range_def by blast
  have "\<forall>i < n. translate v (a + of_nat i) \<noteq> Some p" using assms(3) j p(1) by metis
  then show "getb v' (b + of_nat j) = getb v (b + of_nat j)" using assms(1) p by (simp add: spared_def getb_def)
qed

lemma spared_area:
  assumes "spared R a n v v'" and "tables v' T" and "user_area v T R b m"
  shows "user_area v' T R b m"
  using user_area_tables [OF assms(3,2)] assms(1) by (simp add: spared_def)

subsection \<open>\<open>wc\<close>\<close>

text \<open>A string of the process, not the empty pointer, that the buffer does not overlap.\<close>

definition user_string :: "vm \<Rightarrow> nat set \<Rightarrow> nat set \<Rightarrow> u32 \<Rightarrow> u32 \<Rightarrow> bytes \<Rightarrow> bool" where
  "user_string v T R buf p w \<longleftrightarrow> p \<noteq> 0 \<and> 0 \<notin> set w \<and> user_area v T R p (length w + 1) \<and>
     getbs v p (length w + 1) = Some (w @ [0]) \<and>
     (\<forall>i < 4096. \<forall>j < length w + 1. translate v (buf + of_nat i) \<noteq> translate v (p + of_nat j))"

lemma user_string_spared:
  assumes "user_string v T R buf p w" and "spared R buf n v v'" and "n \<le> 4096" and "tables v' T"
  shows "user_string v' T R buf p w"
proof -
  have s: "user_area v T R p (length w + 1)" "\<forall>i < n. \<forall>j < length w + 1. translate v (buf + of_nat i) \<noteq> translate v (p + of_nat j)"
    using assms(1,3) by (auto simp: user_string_def)
  show ?thesis using assms(1) spared_getbs [OF assms(2) s] spared_area [OF assms(2,4) s(1)] assms(2)
    by (simp add: user_string_def spared_def)
qed

lemma take_while_prefix:
  assumes "\<And>i. i < n \<Longrightarrow> P i" and "n \<le> m"
  shows "\<exists>r. takeWhile P [0..<m] = [0..<n] @ r"
proof -
  have "[0..<m] = [0..<n] @ [n..<m]" using assms(2) by (metis le0 upt_add_eq_append le_add_diff_inverse)
  moreover have "takeWhile P ([0..<n] @ [n..<m]) = [0..<n] @ takeWhile P [n..<m]"
    by (rule takeWhile_append2) (simp add: assms(1))
  ultimately show ?thesis by (intro exI [of _ "takeWhile P [n..<m]"]) simp
qed

lemma string_at_user:
  assumes "user_string (kvm k) T R buf p w" and "length w < 4096"
  shows "\<exists>r. string_at k p = w @ 0 # r"
proof -
  define n where "n = length w + 1"
  have "getbs (kvm k) p n = Some (w @ [0])" using assms(1) by (simp add: user_string_def n_def)
  then have g: "getb (kvm k) (p + of_nat i) = Some ((w @ [0]) ! i)" if "i < n" for i using that by (rule getbs_getb)
  have "\<exists>r. takeWhile (\<lambda>i. getb (kvm k) (p + of_nat i) \<noteq> None) [0..<PGSIZE] = [0..<n] @ r"
    by (rule take_while_prefix) (use g assms(2) in \<open>simp_all add: n_def\<close>)
  then obtain r where r: "takeWhile (\<lambda>i. getb (kvm k) (p + of_nat i) \<noteq> None) [0..<PGSIZE] = [0..<n] @ r" by blast
  have m: "map (\<lambda>i. the (getb (kvm k) (p + of_nat i))) [0..<n] = w @ [0]"
    by (rule nth_equalityI) (use g in \<open>simp_all add: n_def del: upt_Suc\<close>)
  have "string_at k p = map (\<lambda>i. the (getb (kvm k) (p + of_nat i))) [0..<n] @ map (\<lambda>i. the (getb (kvm k) (p + of_nat i))) r"
    unfolding string_at_def r by (simp only: map_append)
  then show ?thesis unfolding m by simp
qed

lemma wc_line_bound:
  assumes "length bs < 2 ^ 31" and "length w \<le> 477"
  shows "length (wc_line bs w) < 512" and "0 \<notin> set w \<Longrightarrow> 0 \<notin> set (wc_line bs w)"
proof -
  have "n < 2 ^ 31 \<Longrightarrow> length (decimal n) \<le> 10" for n by (rule length_decimal) simp_all
  then have "length (decimal (count_list bs 10)) \<le> 10" "length (decimal (length (words bs))) \<le> 10" "length (decimal (length bs)) \<le> 10"
    using assms(1) count_le_length [of bs 10] length_words [of bs] by simp_all
  then show "length (wc_line bs w) < 512" using assms(2) by (simp add: wc_line_def)
  show "0 \<notin> set w \<Longrightarrow> 0 \<notin> set (wc_line bs w)" using decimal_nonzero by (simp add: wc_line_def)
qed

lemma wc_prints:
  assumes "ctx_fits k" "frame k = R" "console_out g k" and tmp: "user_area (kvm k) T R tmp 512"
    and p: "user_string (kvm k) T R buf p w" and w: "length w \<le> 477" and bs: "length bs < 2 ^ 31"
  shows "\<exists>n v. wc_print (kernel_os u tmp) wc_format [of_nat (count_list bs 10), of_nat (length (words bs)), of_nat (length bs), p] k =
      Some (n, k\<lparr>kvm := v, s_out := s_out k @ wc_line bs w\<rparr>)"
proof -
  let ?out = "wc_line bs w"
  have c: "count_list bs 10 < 2 ^ 31" "length (words bs) < 2 ^ 31" using bs count_le_length [of bs 10] length_words [of bs] by simp_all
  have un: "unat (of_nat n :: u32) = n" "unat (of_nat n :: u32) < 2 ^ 31" if "n < 2 ^ 31" for n
    using that unat_of_nat32 [of n] by simp_all
  obtain r where r: "string_at k p = w @ 0 # r" using string_at_user [OF p] w by auto
  have z: "0 \<notin> set w" "p \<noteq> 0" using p by (simp_all add: user_string_def)
  have sl: "strlen (string_at k p) = Some (length w)" using strlen_ok [of "string_at k p" w] r z(1) by (simp add: cstr_def)
  have vs: "vsprintf (string_at k) wc_format [of_nat (count_list bs 10), of_nat (length (words bs)), of_nat (length bs), p] =
      Some (length ?out, ?out @ [0])"
    using vsprintf_wc [of "of_nat (count_list bs 10)" "of_nat (length (words bs))" "of_nat (length bs)" p "string_at k" w]
      un [OF c(1)] un [OF c(2)] un [OF bs] z(2) sl r w by (simp add: wc_line_def)
  have ob: "length ?out < 512" "0 \<notin> set ?out" using wc_line_bound [OF bs w] z(1) by simp_all
  then have so: "strlen (?out @ [0]) = Some (length ?out)" by (intro strlen_ok) (simp add: cstr_def)
  have a: "user_area (kvm k) T R tmp (length ?out)" using user_area_part [OF tmp, of 0 "length ?out"] ob(1) by simp
  then have "user_range (kvm k) T tmp (length ?out)" by (simp add: user_area_def)
  then obtain v where v: "putbs (kvm k) tmp ?out = Some v" "tables v T" "translate v = translate (kvm k)"
      "\<forall>i < length ?out. getb v (tmp + of_nat i) = Some (?out ! i)" using putbs_ok by blast
  have g: "getbs v tmp (length ?out) = Some ?out" by (rule getbs_nth [OF v(4) refl])
  let ?k = "k\<lparr>kvm := v\<rparr>"
  have k: "ctx_fits ?k" "frame ?k = R" "console_out g ?k" "user_area (kvm ?k) T R tmp (length ?out)" "getbs (kvm ?k) tmp (length ?out) = Some ?out"
    using assms(1-3) user_area_tables [OF a v(2,3)] g by (simp_all add: console_out_def)
  have "length ?out \<le> 4096" using ob(1) by simp
  from write_area [OF k(1-4) this k(5), of u tmp] obtain v' where
    "os_write (kernel_os u tmp) 1 tmp (of_nat (length ?out)) ?k = Some (of_nat (length ?out), ?k\<lparr>kvm := v', s_out := s_out ?k @ ?out\<rparr>)" by blast
  then have "completed (u_write ?k u 1 tmp (of_nat (length ?out))) = Some (of_nat (length ?out), k\<lparr>kvm := v', s_out := s_out k @ ?out\<rparr>)"
    by (simp add: kernel_os_def)
  then show ?thesis using vs so v(1) ob(1)
    by (intro exI [of _ "length ?out"] exI [of _ v']) (simp add: wc_print_def printf_def vcprintf_def putstr_def kernel_os_def)
qed

text \<open>What stays as it is while \<open>wc\<close> reads.\<close>

definition counting :: "nat set \<Rightarrow> nat set \<Rightarrow> u32 \<Rightarrow> u32 \<Rightarrow> nat \<Rightarrow> nat \<Rightarrow> u32 \<Rightarrow> u32 \<Rightarrow> bytes \<Rightarrow> bytes \<Rightarrow> kern \<Rightarrow> bool" where
  "counting T R fd buf f g tmp p w out k \<longleftrightarrow> printing T R fd buf f g k \<and> user_area (kvm k) T R tmp 512 \<and>
     user_string (kvm k) T R buf p w \<and> s_out k = out"

interpretation kwc: file_source "kernel_os u tmp" fd buf "counting T R fd buf f g tmp p w out" "unread f"
  for u tmp fd buf T R f g p w out
proof (unfold_locales, goal_cases)
  case (1 k)
  then have c: "printing T R fd buf f g k" "user_area (kvm k) T R tmp 512" "user_string (kvm k) T R buf p w" "s_out k = out"
    by (simp_all add: counting_def)
  then have r: "reading T R fd buf f k" by (simp add: printing_def)
  obtain v f' off where s: "os_read (kernel_os u tmp) fd buf BUF k = Some (of_nat (length (take 4096 (unread f k))),
      upd_file (k\<lparr>kvm := v, kfs := f'\<rparr>) f (\<lambda>x. x\<lparr>f_offset := off\<rparr>))" "same (kfs k) f'"
    "unat off = pos k f + length (take 4096 (unread f k))" "user_buf v T R buf"
    "getbs v buf (length (take 4096 (unread f k))) = Some (take 4096 (unread f k))"
    "spared R buf (length (take 4096 (unread f k))) (kvm k) v"
    using read_step [OF r] by blast
  let ?k = "upd_file (k\<lparr>kvm := v, kfs := f'\<rparr>) f (\<lambda>x. x\<lparr>f_offset := off\<rparr>)"
  have t: "tables v T" using s(4) by (simp add: user_area_def user_range_def)
  have "console_out g ?k" using c(1) console_not_file [OF c(1)] by (simp add: console_out_def printing_def)
  then have "counting T R fd buf f g tmp p w out ?k"
    using read_keeps(1) [OF r s(2-4)] spared_area [OF s(6) t c(2)] user_string_spared [OF c(3) s(6) _ t] c(4)
    by (simp add: counting_def printing_def)
  then show ?case using s(1,5) read_keeps(2) [OF r s(2-4)]
    by (intro exI [of _ "take 4096 (unread f k)"] exI [of _ ?k]) (auto simp: kernel_os_def)
qed

text \<open>
  C29: \<open>wc\<close> (\<open>user/src/phase6/wc.c\<close>) on a file prints its counts. Run over the stubs, the traps, the kernel's file system, the
  formatted output of the C library and the serial console, from any offset and however the file is cut by the
  calls of \<open>read\<close>, it ends without an error, has read the file to its end and has sent one line to the console: the
  number of newlines, of words (the longest pieces without white space, as which \<open>strchr\<close> takes NUL too) and of
  bytes, in decimal, and the name it was given. The buffers and the name are mapped memory of the process, the
  name not in the buffer of \<open>read\<close> and of at most 477 characters, so that the line fits the 512 bytes of \<open>printf\<close>.
\<close>

theorem wc_counts_file:
  assumes "printing T R fd buf f g k" and "user_area (kvm k) T R tmp 512" and "user_string (kvm k) T R buf p w" and "length w \<le> 477"
  shows "\<exists>k'. wc (kernel_os u tmp) buf fd p k = Some (Go (), k') \<and> unread f k' = [] \<and>
    s_out k' = s_out k @ decimal (count_list (unread f k) 10) @ [32] @ decimal (length (words (unread f k))) @ [32] @
      decimal (length (unread f k)) @ [32] @ w @ [10]"
proof -
  have "counting T R fd buf f g tmp p w (s_out k) k" using assms(1-3) by (simp add: counting_def)
  from kwc.wc_loop_counts [OF this, of u wc_zero] obtain k1 where
    l: "wc_loop (kernel_os u tmp) buf fd wc_zero k = Some (0, counts_to (unread f k) wc_zero, k1)"
    and k1: "counting T R fd buf f g tmp p w (s_out k) k1" "unread f k1 = []" by blast
  have "disk_file k f" using assms(1) by (simp add: printing_def reading_def)
  then have "length (unread f k) < 2 ^ 31" using data_small by (force simp: unread_def)
  moreover have "ctx_fits k1" "frame k1 = R" "console_out g k1" "user_area (kvm k1) T R tmp 512" "user_string (kvm k1) T R buf p w" "s_out k1 = s_out k"
    using k1(1) by (simp_all add: counting_def printing_def reading_def)
  ultimately obtain n v where "wc_print (kernel_os u tmp) wc_format [of_nat (count_list (unread f k) 10),
      of_nat (length (words (unread f k))), of_nat (length (unread f k)), p] k1 = Some (n, k1\<lparr>kvm := v, s_out := s_out k @ wc_line (unread f k) w\<rparr>)"
    using wc_prints [of k1 R g T tmp buf p w "unread f k" u] assms(4) by auto
  then show ?thesis using l k1(2)
    by (intro exI [of _ "k1\<lparr>kvm := v, s_out := s_out k @ wc_line (unread f k) w\<rparr>"])
      (simp add: wc_def counts_to_def wc_zero_def wc_line_def unread_def)
qed

subsection \<open>\<open>head\<close>\<close>

lemma area_getbs: "user_area v T R a n \<Longrightarrow> \<exists>bs. getbs v a n = Some bs \<and> length bs = n"
proof -
  assume "user_area v T R a n"
  then have "getb v (a + of_nat i) = Some (the (getb v (a + of_nat i)))" if "i < n" for i
    using that unfolding user_area_def user_range_def by (fastforce simp: getb_def)
  then have "getbs v a n = Some (map (\<lambda>i. the (getb v (a + of_nat i))) [0..<n])" by (intro getbs_nth) simp_all
  then show ?thesis by simp
qed

text \<open>A read that stores fewer bytes than the buffer has leaves the rest of the buffer as it was.\<close>

lemma read_buffer:
  assumes "spared R buf (length xs) v v'" and b: "user_buf v T R buf" and "getbs v' buf (length xs) = Some xs"
    and "length xs \<le> 4096" and old: "getbs v buf 4096 = Some old"
  shows "getbs v' buf 4096 = Some (xs @ drop (length xs) old)"
proof (rule getbs_nth, intro allI impI)
  have lo: "length old = 4096" by (rule length_getbs [OF old])
  then show "length (xs @ drop (length xs) old) = 4096" using assms(4) by simp
  fix j assume j: "j < (4096 :: nat)"
  show "getb v' (buf + of_nat j) = Some ((xs @ drop (length xs) old) ! j)"
  proof (cases "j < length xs")
    case True
    then show ?thesis using getbs_getb [OF assms(3)] by (simp add: nth_append)
  next
    case False
    obtain p where p: "translate v (buf + of_nat j) = Some p" "unat p \<notin> R"
      using b j unfolding user_area_def user_range_def by blast
    have inj: "inj_on (\<lambda>i. translate v (buf + of_nat i)) {..<4096}" using b by (simp add: user_area_def user_range_def)
    have "translate v (buf + of_nat i) \<noteq> Some p" if i: "i < length xs" for i
    proof
      assume "translate v (buf + of_nat i) = Some p"
      then have "i = j" using inj_onD [OF inj, of i j] p(1) i j assms(4) by simp
      then show False using i False by simp
    qed
    then have "getb v' (buf + of_nat j) = getb v (buf + of_nat j)" using assms(1) p by (simp add: spared_def getb_def)
    then show ?thesis using getbs_getb [OF old j] False j lo by (simp add: nth_append)
  qed
qed

definition buffer :: "u32 \<Rightarrow> kern \<Rightarrow> bytes" where
  "buffer buf k = the (getbs (kvm k) buf 4096)"

lemma buffer_getbs: "printing T R fd buf f g k \<Longrightarrow> getbs (kvm k) buf 4096 = Some (buffer buf k) \<and> length (buffer buf k) = 4096"
  using area_getbs [of "kvm k" T R buf 4096] by (auto simp: printing_def reading_def buffer_def)

interpretation khead: text_to_output "kernel_os u tmp" fd buf "printing T R fd buf f g" "unread f" s_out "buffer buf"
  for u tmp fd buf T R f g
proof (unfold_locales, goal_cases)
  case (1 k)
  then show ?case using buffer_getbs [OF 1] by simp
next
  case (2 k i n)
  note b = conjunct1 [OF buffer_getbs [OF 2(1)]]
  have "getbs (kvm k) (buf + of_nat i) (4096 - i) = Some (drop i (buffer buf k))" using getbs_drop [OF b, of i] 2(2) by simp
  then show ?case using getbs_take [of "kvm k" "buf + of_nat i" "4096 - i" "drop i (buffer buf k)" n] 2(2) by (simp add: kernel_os_def)
next
  case (3 k r k')
  then have r: "reading T R fd buf f k" by (simp add: printing_def)
  let ?xs = "take 4096 (unread f k)"
  obtain v f' off where s: "os_read (kernel_os u tmp) fd buf BUF k = Some (of_nat (length ?xs),
      upd_file (k\<lparr>kvm := v, kfs := f'\<rparr>) f (\<lambda>x. x\<lparr>f_offset := off\<rparr>))" "same (kfs k) f'"
    "unat off = pos k f + length ?xs" "user_buf v T R buf" "getbs v buf (length ?xs) = Some ?xs" "spared R buf (length ?xs) (kvm k) v"
    using read_step [OF r] by blast
  have b: "user_buf (kvm k) T R buf" "length ?xs \<le> 4096" "length (buffer buf k) = 4096" "getbs (kvm k) buf 4096 = Some (buffer buf k)"
    using r buffer_getbs [OF 3(1)] by (simp_all add: reading_def)
  have "getbs v buf 4096 = Some (?xs @ drop (length ?xs) (buffer buf k))" by (rule read_buffer [OF s(6) b(1) s(5) b(2,4)])
  moreover have "drop (length ?xs) (buffer buf k) = drop (length (unread f k)) (buffer buf k)"
    using b(3) by (cases "length (unread f k) \<le> 4096") simp_all
  ultimately have "buffer buf (upd_file (k\<lparr>kvm := v, kfs := f'\<rparr>) f (\<lambda>x. x\<lparr>f_offset := off\<rparr>)) = ?xs @ drop (length (unread f k)) (buffer buf k)"
    by (simp add: buffer_def)
  then show ?case using 3(2) s(1) read_keeps(3) [OF r s(2-4)] by simp
next
  case (4 k i n)
  have b: "user_buf (kvm k) T R buf" using 4(1) by (simp add: printing_def reading_def)
  have c: "ctx_fits k" "frame k = R" "console_out g k" "user_area (kvm k) T R (buf + of_nat i) n"
    using 4 user_area_part [OF b] by (simp_all add: printing_def reading_def)
  note m = conjunct1 [OF buffer_getbs [OF 4(1)]]
  have "getbs (kvm k) (buf + of_nat i) (4096 - i) = Some (drop i (buffer buf k))" using getbs_drop [OF m, of i] 4(2) by simp
  then have "getbs (kvm k) (buf + of_nat i) n = Some (take n (drop i (buffer buf k)))"
    using 4(2) by (intro getbs_take [of _ _ "4096 - i"]) simp_all
  moreover have "n \<le> 4096" using 4(2) by simp
  ultimately obtain v where v: "os_write (kernel_os u tmp) 1 (buf + of_nat i) (of_nat n) k =
      Some (of_nat n, k\<lparr>kvm := v, s_out := s_out k @ take n (drop i (buffer buf k))\<rparr>)" "only_in R (kvm k) v"
    using write_area [OF c] by blast
  then show ?case using printing_out [OF 4(1) v(2)] getbs_only [OF b v(2)]
    by (intro exI [of _ "k\<lparr>kvm := v, s_out := s_out k @ take n (drop i (buffer buf k))\<rparr>"]) (simp add: unread_def buffer_def)
qed

text \<open>
  C40: \<open>head\<close> (\<open>user/src/phase6/head.c\<close>) prints its buffer, not the file. Over the same system as \<open>wc\<close>, with less than
  a buffer of the file left and some of it, \<open>head\<close> ends without an error, has read the file to its end, and what
  it sends to the console are the first ten lines of the C string that starts at the buffer: the rest of the
  file, and behind it whatever the buffer held before, up to the first NUL. The rest of the file is all of that
  string only if a NUL follows it in the buffer; nothing in \<open>head.c\<close> puts one there. There must be a NUL
  somewhere in the buffer behind the file (else the search leaves the buffer).
\<close>

theorem head_prints_buffer:
  assumes "printing T R fd buf f g k" and "unread f k \<noteq> []" and "length (unread f k) < 4096"
    and "getbs (kvm k) buf 4096 = Some old" and "0 \<in> set (drop (length (unread f k)) old)"
  shows "\<exists>k'. head (kernel_os u tmp) buf fd k = Some (Go (), k') \<and> unread f k' = [] \<and>
    s_out k' = s_out k @ first_lines 10 (c_string (unread f k @ drop (length (unread f k)) old))"
  using khead.head_shows [OF assms(1) _ assms(2), of u tmp] assms(3-5) by (simp add: buffer_def)

subsection \<open>An address space of four pages\<close>

text \<open>
  A directory in page 1 whose entries all name the table in page 2, and a table that maps page \<open>i\<close> to page
  \<open>5 + i mod 4\<close>. The buffer is at address 0, with \<open>0123456789\<close> and a newline in it, the buffer of \<open>printf\<close> at 0x1000,
  and the name \<open>hi\<close> at 0x2000.
\<close>

definition print_mem :: "nat \<Rightarrow> u8" where
  "print_mem a =
     (if 0x1000 \<le> a \<and> a < 0x3000 then
        if a mod 4 = 0 then 1 else if a mod 4 = 1 then (if a < 0x2000 then 0x20 else of_nat (16 * (5 + a div 4 mod 4))) else 0
      else if 0x5000 \<le> a \<and> a < 0x500b then [48, 49, 50, 51, 52, 53, 54, 55, 56, 57, 10] ! (a - 0x5000)
      else if a = 0x7000 then 104 else if a = 0x7001 then 105 else 0)"

definition print_pte :: "nat \<Rightarrow> u32" where
  "print_pte i = of_nat (0x1000 * (5 + i mod 4)) + 1"

lemma word_at_print:
  assumes "\<forall>a \<in> demo_tables. f a = print_mem a" and "i < 1024"
  shows "word_at f (0x1000 + 4 * i) = 0x2001" and "word_at f (0x2000 + 4 * i) = print_pte i"
proof -
  have l: "[b..<b + 4] = [b, b + 1, b + 2, b + 3]" for b :: nat by (simp add: upt_conv_Cons)
  have m: "f a = print_mem a" if "0x1000 \<le> a" "a < 0x3000" for a using assms(1) that by (simp add: demo_tables_def)
  define b where "b = 0x1000 + 4 * i"
  have b: "0x1000 \<le> b" "b + 4 \<le> 0x2000" "b mod 4 = 0" using assms(2) unfolding b_def by presburger+
  then have "(b + 1) mod 4 = 1" "(b + 2) mod 4 = 2" "(b + 3) mod 4 = 3" by presburger+
  then have "word_at f b = 0x2001" using b m [of b] m [of "b + 1"] m [of "b + 2"] m [of "b + 3"]
    by (simp add: word_at_def l print_mem_def)
  then show "word_at f (0x1000 + 4 * i) = 0x2001" by (simp only: b_def)
  define c where "c = 0x2000 + 4 * i"
  have c: "0x2000 \<le> c" "c + 4 \<le> 0x3000" "c mod 4 = 0" using assms(2) unfolding c_def by presburger+
  then have "(c + 1) mod 4 = 1" "(c + 2) mod 4 = 2" "(c + 3) mod 4 = 3" by presburger+
  moreover have "(c + 1) div 4 mod 4 = i mod 4"
  proof -
    have "(c + 1) div 4 = 0x800 + i" by (simp add: c_def)
    then show ?thesis by (simp add: mod_add_left_eq [of "0x800" 4 i, symmetric])
  qed
  ultimately have w: "f c = 1" "f (c + 1) = of_nat (16 * (5 + i mod 4))" "f (c + 2) = 0" "f (c + 3) = 0"
    using c m [of c] m [of "c + 1"] m [of "c + 2"] m [of "c + 3"] by (simp_all add: print_mem_def)
  have "word_at f c = of_le32 [1, of_nat (16 * (5 + i mod 4)), 0, 0]"
    unfolding word_at_def l by (simp only: list.map w)
  moreover have "i mod 4 = 0 \<or> i mod 4 = 1 \<or> i mod 4 = 2 \<or> i mod 4 = 3" by presburger
  ultimately have "word_at f c = print_pte i" by (elim disjE) (simp_all add: print_pte_def)
  then show "word_at f (0x2000 + 4 * i) = print_pte i" by (simp only: c_def)
qed

lemma page_offset:
  assumes "c AND 0xFFF = 0" and "unat c \<le> 0x8000"
  shows "unat (c OR ADDR2OFF va) = unat c + unat va mod 4096"
proof -
  have m: "0xFFF = (mask 12 :: u32)" by (simp add: mask_eq_exp_minus_1)
  have "c AND ADDR2OFF va = (c AND 0xFFF) AND va" by (simp add: ADDR2OFF_def ac_simps)
  then have "c OR ADDR2OFF va = c + ADDR2OFF va" using word_plus_and_or [of c "ADDR2OFF va"] assms(1) by simp
  moreover have u: "unat (ADDR2OFF va) = unat va mod 4096"
    unfolding ADDR2OFF_def m take_bit_eq_mask [symmetric] by (simp only: unsigned_take_bit_eq) (simp add: take_bit_eq_mod)
  moreover have "unat va mod 4096 < 4096" by simp
  ultimately show ?thesis using assms(2) by (simp add: unat_word_ariths)
qed

definition print_page :: "u32 \<Rightarrow> nat" where
  "print_page va = 0x1000 * (5 + unat va div 4096 mod 4) + unat va mod 4096"

lemma print_translate:
  assumes "cr3 v = 0x1000" and "\<forall>a \<in> demo_tables. pmem v a = print_mem a"
  shows "translate v va = Some (PTE2PG (print_pte (unat (ADDR2TBL va))) OR ADDR2OFF va)"
    and "translate v va = Some x \<Longrightarrow> unat x = print_page va"
proof -
  have e: "unat (entry t i) = unat t + 4 * i" if "i < 1024" "unat t \<le> 0x2000" for t :: u32 and i
  proof -
    have "unat (of_nat (4 * i) :: u32) = 4 * i" using that by (intro unat_of_nat32) simp
    then show ?thesis using that by (simp add: entry_def unat_word_ariths)
  qed
  have p: "PTE2PG 0x1000 = 0x1000" "PTE2PG 0x2001 = 0x2000" by (simp_all add: PTE2PG_def)
  let ?t = "unat (ADDR2TBL va)"
  have l: "ld v (entry 0x1000 (unat (ADDR2DIR va))) = 0x2001" "ld v (entry 0x2000 ?t) = print_pte ?t"
    using word_at_print [OF assms(2)] e [where t = "0x1000" and i = "unat (ADDR2DIR va)"]
      e [where t = "0x2000" and i = ?t] ADDR_bounds(3,4) [where va = va] by (simp_all add: ld_def)
  have c: "?t mod 4 \<in> {0, 1, 2, 3}" by auto
  have q: "present (print_pte ?t)" "PTE2PG (print_pte ?t) AND 0xFFF = 0" "unat (PTE2PG (print_pte ?t)) = 0x1000 * (5 + ?t mod 4)"
    using c by (auto simp: print_pte_def present_def bit_numeral_rec PTE2PG_def)
  have pd: "present (0x2001 :: u32)" by (simp add: present_def bit_numeral_rec)
  show tr: "translate v va = Some (PTE2PG (print_pte ?t) OR ADDR2OFF va)"
    using l q(1) pd by (simp add: translate_def assms(1) p)
  have "?t mod 4 = unat va div 4096 mod 4" by (simp add: ADDR_bounds mod_mod_cancel)
  moreover have "unat (PTE2PG (print_pte ?t)) \<le> 0x8000" using q(3) c by auto
  ultimately show "translate v va = Some x \<Longrightarrow> unat x = print_page va"
    using tr page_offset [OF q(2), of va] q(3) by (auto simp: print_page_def)
qed

lemma print_page_at:
  assumes "unat a mod 4096 = 0" and "i < 4096" and "unat a < 0x4000"
  shows "print_page (a + of_nat i) = 0x5000 + unat a + i"
proof -
  have "unat (a + of_nat i) = unat a + i" using assms(2,3) by (simp add: unat_word_ariths unat_of_nat take_bit_nat_eq_self)
  moreover obtain q where q: "unat a = 4096 * q" using assms(1) by auto
  moreover have "q < 4" using assms(3) q by simp
  ultimately show ?thesis using assms(2) by (simp add: print_page_def)
qed

definition print_vm :: vm where
  "print_vm = demo_vm\<lparr>pmem := print_mem\<rparr>"

lemma print_area:
  assumes "unat a mod 4096 = 0" and "unat a < 0x4000" and "n \<le> 4096"
  shows "user_area print_vm demo_tables {0xfc4..<0x1000} a n"
    and "i < n \<Longrightarrow> getb print_vm (a + of_nat i) = Some (print_mem (0x5000 + unat a + i))"
proof -
  have v: "cr3 print_vm = 0x1000" "\<forall>x \<in> demo_tables. pmem print_vm x = print_mem x" by (simp_all add: print_vm_def demo_vm_def)
  have t: "tables print_vm demo_tables"
    unfolding tables_def by (intro allI impI ext) (use v in \<open>simp add: print_translate(1)\<close>)
  have p: "\<exists>x. translate print_vm (a + of_nat i) = Some x \<and> unat x = 0x5000 + unat a + i" if "i < n" for i
    using print_translate [OF v, of "a + of_nat i"] print_page_at [OF assms(1) _ assms(2), of i] that assms(3) by auto
  have "inj_on (\<lambda>i. translate print_vm (a + of_nat i)) {..<n}"
  proof (rule inj_onI)
    fix i j assume ij: "i \<in> {..<n}" "j \<in> {..<n}" and e: "translate print_vm (a + of_nat i) = translate print_vm (a + of_nat j)"
    then show "i = j" using p [of i] p [of j] by auto
  qed
  moreover have "demo_tables \<inter> {0xfc4..<0x1000} = {}" by (auto simp: demo_tables_def)
  moreover have "unat x \<notin> demo_tables" "unat x \<notin> {0xfc4..<0x1000}" if "unat x = 0x5000 + unat a + i" for x :: u32 and i
    using that by (auto simp: demo_tables_def)
  moreover have "\<exists>x. translate print_vm (a + of_nat i) = Some x \<and> unat x \<notin> demo_tables" if "i < n" for i
    using p [OF that] calculation(3) by blast
  moreover have "unat x \<notin> {0xfc4..<0x1000}" if "i < n" "translate print_vm (a + of_nat i) = Some x" for i x
    using p [OF that(1)] that(2) by auto
  ultimately show "user_area print_vm demo_tables {0xfc4..<0x1000} a n" using t
    unfolding user_area_def user_range_def by blast
  show "i < n \<Longrightarrow> getb print_vm (a + of_nat i) = Some (print_mem (0x5000 + unat a + i))"
    using p [of i] by (auto simp: getb_def print_vm_def)
qed

definition demo_print :: kern where
  "demo_print = demo_cat\<lparr>kvm := print_vm\<rparr>"

lemma demo_printing: "printing demo_tables {0xfc4..<0x1000} 3 0 0 1 demo_print"
proof -
  have "printing demo_tables {0xfc4..<0x1000} 3 0 0 1 demo_cat" by (rule demo_cat_printing)
  moreover have "user_buf print_vm demo_tables {0xfc4..<0x1000} 0" by (rule print_area) simp_all
  ultimately show ?thesis by (simp add: demo_print_def printing_def reading_def console_out_def)
qed

lemma demo_print_unread: "unread 0 demo_print = [104, 101, 108, 108, 111]" "s_out demo_print = []" "kvm demo_print = print_vm"
  by (simp_all add: unread_def demo_print_def demo_cat_data)

lemma demo_print_string: "user_string print_vm demo_tables {0xfc4..<0x1000} 0 0x2000 [104, 105]"
proof -
  have a: "user_area print_vm demo_tables {0xfc4..<0x1000} 0x2000 3" by (rule print_area) simp_all
  have g: "getb print_vm (0x2000 + of_nat i) = Some (print_mem (0x7000 + i))" if "i < 3" for i
    using print_area(2) [of "0x2000" 3 i] that by simp
  have "getb print_vm 0x2000 = Some 104" "getb print_vm 0x2001 = Some 105" "getb print_vm 0x2002 = Some 0"
    using g [of 0] g [of 1] g [of 2] by (simp_all add: print_mem_def)
  then have "getbs print_vm 0x2000 3 = Some [104, 105, 0]" by (simp add: numeral_3_eq_3)
  moreover have "translate print_vm (0 + of_nat i) \<noteq> translate print_vm (0x2000 + of_nat j)" if "i < 4096" "j < 3" for i j
  proof -
    have v: "cr3 print_vm = 0x1000" "\<forall>x \<in> demo_tables. pmem print_vm x = print_mem x" by (simp_all add: print_vm_def demo_vm_def)
    have "print_page (0 + of_nat i) \<noteq> print_page (0x2000 + of_nat j)"
      using print_page_at [of 0 i] print_page_at [of "0x2000" j] that by simp
    then show ?thesis using print_translate [OF v, of "0 + of_nat i"] print_translate [OF v, of "0x2000 + of_nat j"] by metis
  qed
  moreover have "length [104, 105 :: u8] + 1 = 3" by simp
  ultimately show ?thesis using a unfolding user_string_def by (simp del: One_nat_def add: add.commute)
qed

lemma wc_counts_file_witness:
  "\<exists>k'. wc (kernel_os demo_regs 0x1000) 0 3 0x2000 demo_print = Some (Go (), k') \<and>
    s_out k' = [48, 32, 49, 32, 53, 32, 104, 105, 10]"
proof -
  have t: "user_area (kvm demo_print) demo_tables {0xfc4..<0x1000} 0x1000 512"
    unfolding demo_print_unread by (rule print_area) simp_all
  show ?thesis
    using wc_counts_file [OF demo_printing t, of "0x2000" "[104, 105]" demo_regs] demo_print_string
    by (auto simp: demo_print_unread decimal_small wspace_def wc_space_def)
qed

definition demo_old :: bytes where
  "demo_old = [48, 49, 50, 51, 52, 53, 54, 55, 56, 57, 10]"

lemma print_buffer: "getbs print_vm 0 4096 = Some (demo_old @ replicate 4085 0)"
proof (rule getbs_nth, intro allI impI)
  have l: "length demo_old = 11" by (simp add: demo_old_def)
  then show "length (demo_old @ replicate 4085 (0 :: u8)) = 4096" by simp
  fix i assume i: "i < (4096 :: nat)"
  have "getb print_vm (0 + of_nat i) = Some (print_mem (0x5000 + unat (0 :: u32) + i))" by (rule print_area(2)) (use i in simp_all)
  moreover have "print_mem (0x5000 + i) = (demo_old @ replicate 4085 0) ! i"
    using i l by (simp add: print_mem_def nth_append flip: demo_old_def)
  ultimately show "getb print_vm (0 + of_nat i) = Some ((demo_old @ replicate 4085 0) ! i)" by simp
qed

lemma demo_shown: "first_lines 10 (c_string ([104, 101, 108, 108, 111] @ drop 5 (demo_old @ replicate 4085 0))) =
    [104, 101, 108, 108, 111, 53, 54, 55, 56, 57, 10]"
proof -
  have "c_string (replicate (Suc n) 0) = []" for n by (simp add: c_string_def)
  from this [of 4084] have z: "c_string (replicate 4085 0) = []" by (simp del: replicate_Suc)
  let ?t = "[104, 101, 108, 108, 111, 53, 54, 55, 56, 57, 10] :: bytes"
  have "[104, 101, 108, 108, 111] @ drop 5 (demo_old @ replicate 4085 0) = ?t @ replicate 4085 0" by (simp add: demo_old_def)
  moreover have "c_string (?t @ replicate 4085 0) = ?t" using c_string_append [of ?t] z by simp
  moreover have "first_lines 10 ?t = ?t"
  proof -
    have "first_lines n [] = []" for n by (cases n) simp_all
    moreover have "(10 :: nat) = Suc 9" by simp
    ultimately show ?thesis by (simp only: first_lines.simps) simp
  qed
  ultimately show ?thesis by metis
qed

text \<open>The file is \<open>hello\<close>; what is printed is \<open>hello56789\<close>.\<close>

lemma head_prints_buffer_witness:
  "\<exists>k'. head (kernel_os demo_regs 0x1000) 0 3 demo_print = Some (Go (), k') \<and>
    s_out k' = [104, 101, 108, 108, 111, 53, 54, 55, 56, 57, 10]"
proof -
  let ?old = "demo_old @ replicate 4085 0"
  have u: "unread 0 demo_print = [104, 101, 108, 108, 111]" "length (unread 0 demo_print) = 5" by (simp_all add: demo_print_unread)
  have "length (demo_old @ replicate 4084 0) > 5" by (simp add: demo_old_def)
  moreover have "?old = (demo_old @ replicate 4084 0) @ [0]"
    using replicate_append_same [of 4084 "0 :: u8"] by (simp add: numeral_eq_Suc replicate_app_Cons_same del: replicate_append_same)
  ultimately have "0 \<in> set (drop 5 ?old)" by simp
  then have p: "unread 0 demo_print \<noteq> []" "length (unread 0 demo_print) < 4096" "getbs (kvm demo_print) 0 4096 = Some ?old"
    "0 \<in> set (drop (length (unread 0 demo_print)) ?old)"
    unfolding u(2) by (simp_all only: u(1) demo_print_unread print_buffer) simp_all
  obtain k' where k: "head (kernel_os demo_regs 0x1000) 0 3 demo_print = Some (Go (), k')"
    "s_out k' = s_out demo_print @ first_lines 10 (c_string (unread 0 demo_print @ drop (length (unread 0 demo_print)) ?old))"
    using head_prints_buffer [OF demo_printing p, of demo_regs "0x1000"] by blast
  have "s_out k' = [104, 101, 108, 108, 111, 53, 54, 55, 56, 57, 10]"
    using k(2) unfolding u(2) unfolding u(1) demo_shown demo_print_unread by simp
  then show ?thesis using k(1) by blast
qed

end
