(* ===== verification/Descr.thy ===== *)
theory Descr
  imports Syscall ProcProps
begin

unbundle bit_operations_syntax

text \<open>
  The descriptor tables: gates and segments as \<open>irq.h\<close> and \<open>memory.h\<close> lay them out, \<open>init_cte\<close> of \<open>cte.c\<close>, \<open>init_gdt\<close> of
  \<open>vme.c\<close>, and the entries of \<open>trap.S\<close>. What the processor reads in a descriptor is that of the processor's manual.
\<close>

subsection \<open>Bit fields\<close>

text \<open>A structure of bit fields, the first in the lowest bits: the width and the value of each.\<close>

fun bit_fields :: "(nat \<times> u32) list \<Rightarrow> 64 word" where
  "bit_fields [] = 0"
| "bit_fields ((n, w) # fs) = take_bit n (ucast w) OR push_bit n (bit_fields fs)"

definition fld :: "nat \<Rightarrow> nat \<Rightarrow> 64 word \<Rightarrow> u32" where
  "fld off n w = ucast (take_bit n (drop_bit off w))"

lemma fld_bit_fields_0: "n \<le> 32 \<Longrightarrow> m \<le> n \<Longrightarrow> fld 0 m (bit_fields ((n, w) # fs)) = take_bit m w"
  by (rule bit_eqI) (auto simp: fld_def bit_simps)

lemma fld_bit_fields_skip: "n \<le> off \<Longrightarrow> off + m \<le> 64 \<Longrightarrow> fld off m (bit_fields ((n, w) # fs)) = fld (off - n) m (bit_fields fs)"
  by (rule bit_eqI) (auto simp: fld_def bit_simps)

subsection \<open>Gates\<close>

abbreviation (input) DPL_KERN :: u32 where "DPL_KERN \<equiv> 0"
abbreviation (input) DPL_USER :: u32 where "DPL_USER \<equiv> 3"
abbreviation (input) STA_X :: u32 where "STA_X \<equiv> 8"
abbreviation (input) STA_W :: u32 where "STA_W \<equiv> 2"
abbreviation (input) STA_R :: u32 where "STA_R \<equiv> 2"
abbreviation (input) STS_T32A :: u32 where "STS_T32A \<equiv> 9"
abbreviation (input) STS_IG :: u32 where "STS_IG \<equiv> 14"
abbreviation (input) NR_SEG :: nat where "NR_SEG \<equiv> 6"
abbreviation (input) SEG_KCODE :: u32 where "SEG_KCODE \<equiv> 1"
abbreviation (input) SEG_KDATA :: u32 where "SEG_KDATA \<equiv> 2"
abbreviation (input) SEG_UCODE :: u32 where "SEG_UCODE \<equiv> 3"
abbreviation (input) SEG_UDATA :: u32 where "SEG_UDATA \<equiv> 4"
abbreviation (input) SEG_TSS :: u32 where "SEG_TSS \<equiv> 5"
abbreviation (input) NR_IRQ :: nat where "NR_IRQ \<equiv> 256"

definition KSEL :: "u32 \<Rightarrow> u32" where
  "KSEL seg = push_bit 3 seg OR DPL_KERN"

definition USEL :: "u32 \<Rightarrow> u32" where
  "USEL seg = push_bit 3 seg OR DPL_USER"

definition GATE32 :: "u32 \<Rightarrow> u32 \<Rightarrow> u32 \<Rightarrow> u32 \<Rightarrow> 64 word" where
  "GATE32 type cs handler dpl = bit_fields
     [(16, handler AND 0xffff), (16, cs), (5, 0), (3, 0), (4, type), (1, 0), (2, dpl), (1, 1), (16, drop_bit 16 handler)]"

text \<open>The handler a gate names, its selector, type, privilege level and whether it is present.\<close>

definition gate_handler :: "64 word \<Rightarrow> u32" where
  "gate_handler g = fld 0 16 g OR push_bit 16 (fld 48 16 g)"

definition gate_selector :: "64 word \<Rightarrow> u32" where
  "gate_selector g = fld 16 16 g"

definition gate_type :: "64 word \<Rightarrow> u32" where
  "gate_type g = fld 40 4 g"

definition gate_system :: "64 word \<Rightarrow> bool" where
  "gate_system g \<longleftrightarrow> fld 44 1 g = 0"

definition gate_dpl :: "64 word \<Rightarrow> u32" where
  "gate_dpl g = fld 45 2 g"

definition gate_present :: "64 word \<Rightarrow> bool" where
  "gate_present g \<longleftrightarrow> fld 47 1 g = 1"

lemma low_half: "w AND 0xffff = take_bit 16 (w :: u32)"
  by (simp add: take_bit_eq_mask mask_eq_exp_minus_1)

lemma split_word: "take_bit 16 w OR push_bit 16 (drop_bit 16 w) = (w :: u32)"
proof (rule bit_eqI)
  fix n
  show "bit (take_bit 16 w OR push_bit 16 (drop_bit 16 w)) n = bit w n" if "possible_bit TYPE(u32) n"
    using that by (cases "n < 16") (auto simp: bit_simps)
qed

lemma high_half: "take_bit 16 (drop_bit 16 w) = drop_bit 16 (w :: u32)"
  by (rule bit_eqI) (auto simp: bit_simps dest: bit_imp_le_length)

lemma low_bits: "unat w < 2 ^ n \<Longrightarrow> take_bit n w = (w :: u32)"
  by (simp add: word_unat_eq_iff unsigned_take_bit_eq take_bit_nat_eq_self)

lemma gate_fields:
  assumes "type < 16" and "dpl < 4" and "cs < 0x10000"
  shows "gate_handler (GATE32 type cs handler dpl) = handler" and "gate_selector (GATE32 type cs handler dpl) = cs"
    and "gate_type (GATE32 type cs handler dpl) = type" and "gate_system (GATE32 type cs handler dpl)"
    and "gate_dpl (GATE32 type cs handler dpl) = dpl" and "gate_present (GATE32 type cs handler dpl)"
proof -
  note f = fld_bit_fields_0 fld_bit_fields_skip
  show "gate_handler (GATE32 type cs handler dpl) = handler"
    by (simp add: gate_handler_def GATE32_def low_half f high_half split_word del: bit_fields.simps)
  show "gate_selector (GATE32 type cs handler dpl) = cs"
    using low_bits [of cs 16] assms(3) word_less_nat_alt [of cs] by (simp add: gate_selector_def GATE32_def f del: bit_fields.simps)
  show "gate_type (GATE32 type cs handler dpl) = type"
    using low_bits [of type 4] assms(1) word_less_nat_alt [of type] by (simp add: gate_type_def GATE32_def f del: bit_fields.simps)
  show "gate_dpl (GATE32 type cs handler dpl) = dpl"
    using low_bits [of dpl 2] assms(2) word_less_nat_alt [of dpl] by (simp add: gate_dpl_def GATE32_def f del: bit_fields.simps)
  show "gate_system (GATE32 type cs handler dpl)" "gate_present (GATE32 type cs handler dpl)"
    by (simp_all add: gate_system_def gate_present_def GATE32_def f del: bit_fields.simps)
qed

subsection \<open>The interrupt table\<close>

text \<open>
  The entries of \<open>trap.S\<close>: \<open>Some n\<close> is \<open>irq\<close>\<open>n\<close>, \<^term>\<open>None\<close> is \<open>irqall\<close>; \<open>addr\<close> gives their addresses. \<open>pushed\<close> has the
  words an entry pushes below what the processor pushed, which for some exceptions ends with an error code.
\<close>

definition entries :: "nat list" where
  "entries = [0..<17] @ [32..<48] @ [128, 129]"

definition pushed :: "nat option \<Rightarrow> u32 list" where
  "pushed e = (case e of
     Some n \<Rightarrow> if n = 8 \<or> 10 \<le> n \<and> n \<le> 14 then [of_nat n] else [0, of_nat n]
   | None \<Rightarrow> [0, - 1])"

definition init_cte :: "(nat option \<Rightarrow> u32) \<Rightarrow> 64 word list" where
  "init_cte addr =
     (let idt = replicate NR_IRQ (GATE32 STS_IG (KSEL SEG_KCODE) (addr None) DPL_KERN);
          idt = fold (\<lambda>n idt. idt[n := GATE32 STS_IG (KSEL SEG_KCODE) (addr (Some n)) DPL_KERN]) ([0..<17] @ [32..<48]) idt;
          idt = idt[128 := GATE32 STS_IG (KSEL SEG_KCODE) (addr (Some 128)) DPL_USER] in
      idt[129 := GATE32 STS_IG (KSEL SEG_KCODE) (addr (Some 129)) DPL_KERN])"

abbreviation (input) PORT_PIC_MASTER :: u32 where "PORT_PIC_MASTER \<equiv> 0x20"
abbreviation (input) PORT_PIC_SLAVE :: u32 where "PORT_PIC_SLAVE \<equiv> 0xA0"

text \<open>The limit and the base that \<open>set_idt\<close> and \<open>set_gdt\<close> load.\<close>

definition set_idt :: "u32 \<Rightarrow> u32 \<Rightarrow> 16 word \<times> u32" where
  "set_idt idt sz = (ucast sz, idt)"

definition set_gdt :: "u32 \<Rightarrow> u32 \<Rightarrow> 16 word \<times> u32" where
  "set_gdt gdt sz = (ucast sz, gdt)"

text \<open>The bytes that \<open>init_intr\<close> sends to the ports of the two interrupt controllers.\<close>

definition init_intr :: "(u32 \<times> u8) list" where
  "init_intr = [(PORT_PIC_MASTER, 0x11), (PORT_PIC_SLAVE, 0x11), (PORT_PIC_MASTER + 1, 32), (PORT_PIC_SLAVE + 1, 32 + 8),
     (PORT_PIC_MASTER + 1, push_bit 2 1), (PORT_PIC_SLAVE + 1, 2), (PORT_PIC_MASTER + 1, 0x3), (PORT_PIC_SLAVE + 1, 0x3)]"

definition entry_of :: "nat \<Rightarrow> nat option" where
  "entry_of n = (if n \<in> set entries then Some n else None)"

lemma fold_update_nth: "length xs = m \<Longrightarrow> n < m \<Longrightarrow> fold (\<lambda>i xs. xs[i := f i]) is xs ! n = (if n \<in> set is then f n else xs ! n)"
  by (induction "is" arbitrary: xs) (auto simp: nth_list_update)

lemma length_fold_update [simp]: "length (fold (\<lambda>i xs. xs[i := f i]) is xs) = length xs"
  by (induction "is" arbitrary: xs) auto

lemma init_cte_nth:
  assumes "n < NR_IRQ"
  shows "init_cte addr ! n = GATE32 STS_IG (KSEL SEG_KCODE) (addr (entry_of n)) (if n = 128 then DPL_USER else DPL_KERN)"
  using assms fold_update_nth [OF length_replicate, of n NR_IRQ "\<lambda>n. GATE32 STS_IG (KSEL SEG_KCODE) (addr (Some n)) DPL_KERN"
    "[0..<17] @ [32..<48]"]
  by (auto simp: init_cte_def Let_def nth_list_update entry_of_def entries_def simp del: fold_append)

text \<open>
  The software interrupt \<open>n\<close> at privilege level \<open>cpl\<close>: the vector the processor enters. Without the right to use
  the gate it is a general protection fault, without a gate a fault of its own.
\<close>

definition software_int :: "64 word list \<Rightarrow> u32 \<Rightarrow> nat \<Rightarrow> nat" where
  "software_int idt cpl n = (if gate_dpl (idt ! n) < cpl then 13 else if \<not> gate_present (idt ! n) then 11 else n)"

text \<open>The interrupt number a vector brings to \<open>irq_handle\<close>.\<close>

definition irq_number :: "nat \<Rightarrow> u32" where
  "irq_number n = last (pushed (entry_of n))"

text \<open>
  The interrupt table (\<open>init_cte\<close>, \<open>kernel/src/cte.c\<close>), as the processor decodes it, sends each of the 256 vectors to
  its entry in \<open>trap.S\<close>, \<open>irqall\<close> where there is none, through a present interrupt gate into the kernel's code
  segment, and the only gate a program may use is that of the system call.
\<close>

lemma idt_names_handlers:
  assumes "n < NR_IRQ"
  shows "gate_handler (init_cte addr ! n) = addr (entry_of n) \<and> gate_selector (init_cte addr ! n) = KSEL SEG_KCODE \<and>
    gate_type (init_cte addr ! n) = STS_IG \<and> gate_system (init_cte addr ! n) \<and> gate_present (init_cte addr ! n) \<and>
    (gate_dpl (init_cte addr ! n) \<ge> DPL_USER \<longleftrightarrow> n = 128)"
  using assms by (simp add: init_cte_nth gate_fields KSEL_def)

text \<open>
  C35: a program reaches the kernel with \<open>int $0x80\<close> only. With any other vector, \<open>0x81\<close> of the kernel's own switches among
  them, it stops the whole kernel: the fault the processor raises instead is one that \<open>irq_handle\<close> asserts away.
\<close>

theorem other_interrupts_stop_kernel:
  assumes "n < NR_IRQ"
  shows "irq_handle k (irq_number (software_int (init_cte addr) DPL_USER n)) input =
    (if n = 128 then do_syscall k else None)"
proof -
  have "gate_dpl (init_cte addr ! n) = (if n = 128 then DPL_USER else DPL_KERN)" "gate_present (init_cte addr ! n)"
    using assms by (simp_all add: init_cte_nth gate_fields KSEL_def)
  then have "software_int (init_cte addr) DPL_USER n = (if n = 128 then 128 else 13)" by (auto simp: software_int_def)
  moreover have "irq_number 13 = 13" "irq_number 128 = 128" by (simp_all add: irq_number_def entry_of_def entries_def pushed_def)
  ultimately show ?thesis by (simp add: irq_handle_def)
qed

lemma other_interrupts_stop_kernel_witness:
  "irq_handle (demo_kern {}) (irq_number (software_int (init_cte (\<lambda>_. 0x101000)) DPL_USER 129)) [] = None"
  using other_interrupts_stop_kernel [of 129 "demo_kern {}" "\<lambda>_. 0x101000" "[]"] by simp

text \<open>With the error code of the processor, for the exceptions that have one, each entry makes the same frame.\<close>

definition error_code :: "nat \<Rightarrow> bool" where
  "error_code n \<longleftrightarrow> n \<in> {8, 10, 11, 12, 13, 14, 17}"

lemma one_error_code: "n < 17 \<or> 32 \<le> n \<and> n < NR_IRQ \<Longrightarrow> length (pushed (entry_of n)) + (if error_code n then 1 else 0) = 2"
  by (auto simp: pushed_def entry_of_def entries_def error_code_def split: option.split)

subsection \<open>Segments\<close>

definition SEG16 :: "u32 \<Rightarrow> u32 \<Rightarrow> u32 \<Rightarrow> u32 \<Rightarrow> 64 word" where
  "SEG16 type base lim dpl = bit_fields
     [(16, lim AND 0xffff), (16, base AND 0xffff), (8, drop_bit 16 base AND 0xff), (4, type), (1, 0), (2, dpl), (1, 1),
      (4, drop_bit 16 lim), (1, 0), (1, 0), (1, 1), (1, 0), (8, drop_bit 24 base)]"

definition SEG32 :: "u32 \<Rightarrow> u32 \<Rightarrow> u32 \<Rightarrow> u32 \<Rightarrow> 64 word" where
  "SEG32 type base lim dpl = bit_fields
     [(16, drop_bit 12 lim AND 0xffff), (16, base AND 0xffff), (8, drop_bit 16 base AND 0xff), (4, type), (1, 1), (2, dpl), (1, 1),
      (4, drop_bit 28 lim), (1, 0), (1, 0), (1, 1), (1, 1), (8, drop_bit 24 base)]"

text \<open>The task state segment has three words and 23 of padding.\<close>

abbreviation (input) TSS_SIZE :: u32 where "TSS_SIZE \<equiv> 104"

definition init_gdt :: "u32 \<Rightarrow> 64 word list" where
  "init_gdt tss = (replicate NR_SEG 0)[
     unat SEG_KCODE := SEG32 (STA_X OR STA_R) 0 0xffffffff DPL_KERN,
     unat SEG_KDATA := SEG32 STA_W 0 0xffffffff DPL_KERN,
     unat SEG_UCODE := SEG32 (STA_X OR STA_R) 0 0xffffffff DPL_USER,
     unat SEG_UDATA := SEG32 STA_W 0 0xffffffff DPL_USER,
     unat SEG_TSS := SEG16 STS_T32A tss (TSS_SIZE - 1) DPL_KERN]"

text \<open>What the processor reads.\<close>

definition seg_base :: "64 word \<Rightarrow> u32" where
  "seg_base d = fld 16 16 d OR push_bit 16 (fld 32 8 d) OR push_bit 24 (fld 56 8 d)"

definition seg_limit :: "64 word \<Rightarrow> u32" where
  "seg_limit d = (let lim = fld 0 16 d OR push_bit 16 (fld 48 4 d) in if fld 55 1 d = 1 then push_bit 12 lim OR 0xfff else lim)"

definition seg_dpl :: "64 word \<Rightarrow> u32" where
  "seg_dpl d = fld 45 2 d"

lemma split_bytes:
  "take_bit 16 b OR push_bit 16 (take_bit 8 (drop_bit 16 b)) OR push_bit 24 (take_bit 8 (drop_bit 24 b)) = (b :: u32)"
proof (rule bit_eqI)
  fix n
  show "bit (take_bit 16 b OR push_bit 16 (take_bit 8 (drop_bit 16 b)) OR push_bit 24 (take_bit 8 (drop_bit 24 b))) n = bit b n"
    if "possible_bit TYPE(u32) n"
    using that by (cases "n < 16"; cases "n < 24") (auto simp: bit_simps)
qed

lemma low_byte: "w AND 0xff = take_bit 8 (w :: u32)"
  by (simp add: take_bit_eq_mask mask_eq_exp_minus_1)

lemma page_limit:
  "(push_bit 12 (take_bit 16 (drop_bit 12 w)) OR push_bit 28 (take_bit 4 (drop_bit 28 w))) OR 0xfff = w OR (0xfff :: u32)"
proof -
  have m: "0xfff = (mask 12 :: u32)" by (simp add: mask_eq_exp_minus_1)
  show ?thesis unfolding m
  proof (rule bit_eqI)
    fix n
    show "bit ((push_bit 12 (take_bit 16 (drop_bit 12 w)) OR push_bit 28 (take_bit 4 (drop_bit 28 w))) OR mask 12) n = bit (w OR mask 12) n"
      if "possible_bit TYPE(u32) n" using that by (cases "n < 12"; cases "n < 28") (auto simp: bit_simps)
  qed
qed

lemma byte_limit: "unat w < 2 ^ 20 \<Longrightarrow> take_bit 16 w OR push_bit 16 (take_bit 4 (drop_bit 16 w)) = (w :: u32)"
proof (rule bit_eqI)
  fix n
  assume l: "unat w < 2 ^ 20"
  have "bit w n = bit (take_bit 20 w) n" using low_bits [OF l] by simp
  then show "bit (take_bit 16 w OR push_bit 16 (take_bit 4 (drop_bit 16 w))) n = bit w n" if "possible_bit TYPE(u32) n"
    using that by (cases "n < 16") (auto simp: bit_simps)
qed

lemma seg_fields:
  "seg_base (SEG32 type base lim dpl) = base" "seg_base (SEG16 type base lim dpl) = base"
  "seg_limit (SEG32 type base lim dpl) = lim OR 0xfff" "unat lim < 2 ^ 20 \<Longrightarrow> seg_limit (SEG16 type base lim dpl) = lim"
  "seg_dpl (SEG32 type base lim dpl) = take_bit 2 dpl" "seg_dpl (SEG16 type base lim dpl) = take_bit 2 dpl"
proof -
  note f = fld_bit_fields_0 fld_bit_fields_skip low_half low_byte
  show "seg_base (SEG32 type base lim dpl) = base" "seg_base (SEG16 type base lim dpl) = base"
    by (simp_all add: seg_base_def SEG32_def SEG16_def f split_bytes del: bit_fields.simps)
  show "seg_limit (SEG32 type base lim dpl) = lim OR 0xfff"
    by (simp add: seg_limit_def SEG32_def f page_limit del: bit_fields.simps)
  show "unat lim < 2 ^ 20 \<Longrightarrow> seg_limit (SEG16 type base lim dpl) = lim"
    by (simp add: seg_limit_def SEG16_def f byte_limit del: bit_fields.simps)
  show "seg_dpl (SEG32 type base lim dpl) = take_bit 2 dpl" "seg_dpl (SEG16 type base lim dpl) = take_bit 2 dpl"
    by (simp_all add: seg_dpl_def SEG32_def SEG16_def f del: bit_fields.simps)
qed

text \<open>
  The segments of \<open>init_gdt\<close> (\<open>kernel/src/vme.c\<close>), as the processor decodes them: code and data of the kernel and of
  programs all start at 0 and span the whole address space, those of programs may be used at level 3, and the task
  state segment is exactly \<open>tss\<close>, so that protection rests on the page tables alone.
\<close>

lemma gdt_flat:
  "map (\<lambda>d. (seg_base d, seg_limit d, seg_dpl d)) (tl (init_gdt tss)) =
    [(0, 0xffffffff, DPL_KERN), (0, 0xffffffff, DPL_KERN), (0, 0xffffffff, DPL_USER), (0, 0xffffffff, DPL_USER), (tss, 103, DPL_KERN)]"
proof -
  have "replicate 6 (0 :: 64 word) = [0, 0, 0, 0, 0, 0]" by (simp add: numeral_eq_Suc)
  then show ?thesis by (simp add: init_gdt_def seg_fields)
qed

end
