(* ===== verification/Boot.thy ===== *)
theory Boot
  imports Loader
begin

text \<open>
  The boot loader, \<open>boot/boot.c\<close>: it reads the 255 sectors behind the boot sector, which hold the kernel's ELF file, to
  address \<open>0x8000\<close> and copies the segments to their addresses. Memory is a function from addresses to bytes, without
  paging; a C object does not wrap around the end of the address space.
\<close>

type_synonym mem = "nat \<Rightarrow> u8"

subsection \<open>boot.h\<close>

definition boot_read_disk :: "disk \<Rightarrow> mem \<Rightarrow> nat \<Rightarrow> u32 \<Rightarrow> mem" where
  "boot_read_disk d m buf sect = overlay m buf (map (\<lambda>i. d (SECTSIZE * ata_select sect + i)) [0..<SECTSIZE])"

function boot_copy_loop :: "disk \<Rightarrow> nat \<Rightarrow> nat \<Rightarrow> u32 \<Rightarrow> mem \<Rightarrow> mem" where
  "boot_copy_loop d at ed sect m =
     (if at < ed then boot_copy_loop d (at + SECTSIZE) ed (sect + 1) (boot_read_disk d m at sect) else m)"
  by pat_completeness auto
termination by (relation "measure (\<lambda>(d, at, ed, sect, m). ed - at)") auto

definition boot_copy_from_disk :: "disk \<Rightarrow> mem \<Rightarrow> nat \<Rightarrow> nat \<Rightarrow> u32 \<Rightarrow> mem" where
  "boot_copy_from_disk d m buf nbytes disk_offset = boot_copy_loop d buf (buf + nbytes) (c_div disk_offset 512) m"

lemma unat_inc: "w < fi \<Longrightarrow> unat (w + 1) = unat w + 1 \<and> unat w < unat fi" for w fi :: u32
  using take_bit_unat32 [of fi] by (auto simp: word_less_nat_alt unat_word_ariths take_bit_eq_mod)

function boot_memcpy_loop :: "u32 \<Rightarrow> u32 \<Rightarrow> u32 \<Rightarrow> mem \<Rightarrow> mem" where
  "boot_memcpy_loop dst fi src m =
     (if dst < fi then boot_memcpy_loop (dst + 1) fi (src + 1) (m(unat dst := m (unat src))) else m)"
  by pat_completeness auto
termination by (relation "measure (\<lambda>(dst, fi, src, m). unat fi - unat dst)") (auto dest: unat_inc)

definition boot_memcpy :: "mem \<Rightarrow> u32 \<Rightarrow> u32 \<Rightarrow> u32 \<Rightarrow> mem" where
  "boot_memcpy m dst src sz = boot_memcpy_loop dst (dst + sz) src m"

function boot_memset_loop :: "u32 \<Rightarrow> u32 \<Rightarrow> u8 \<Rightarrow> mem \<Rightarrow> mem" where
  "boot_memset_loop dst fi c m = (if dst < fi then boot_memset_loop (dst + 1) fi c (m(unat dst := c)) else m)"
  by pat_completeness auto
termination by (relation "measure (\<lambda>(dst, fi, c, m). unat fi - unat dst)") (auto dest: unat_inc)

definition boot_memset :: "mem \<Rightarrow> u32 \<Rightarrow> u8 \<Rightarrow> u32 \<Rightarrow> mem" where
  "boot_memset m dst c sz = boot_memset_loop dst (dst + sz) c m"

declare boot_copy_loop.simps [simp del] boot_memcpy_loop.simps [simp del] boot_memset_loop.simps [simp del]

subsection \<open>load_kernel\<close>

abbreviation (input) ELF_AT :: nat where "ELF_AT \<equiv> 0x8000"

definition boot_segment :: "mem \<Rightarrow> nat \<Rightarrow> mem" where
  "boot_segment m ph =
     (if word_at m ph = PT_LOAD then
        let m = boot_memcpy m (word_at m (ph + 8)) (of_nat ELF_AT + word_at m (ph + 4)) (word_at m (ph + 16)) in
        boot_memset m (of_nat ELF_AT + word_at m (ph + 4) + word_at m (ph + 16)) 0 (word_at m (ph + 20) - word_at m (ph + 16))
      else m)"

text \<open>Where it jumps to, and the memory the kernel starts with.\<close>

definition load_kernel :: "disk \<Rightarrow> mem \<Rightarrow> u32 \<times> mem" where
  "load_kernel d m =
     (let m = boot_copy_from_disk d m ELF_AT (255 * SECTSIZE) 512;
          ph = ELF_AT + unat (word_at m (ELF_AT + 28));
          n = unat (m (ELF_AT + 44)) + 256 * unat (m (ELF_AT + 45));
          m = fold (\<lambda>i m. boot_segment m (ph + PHDR_SIZE * i)) [0..<n] m in
      (word_at m (ELF_AT + 24), m))"

subsection \<open>The copies\<close>

lemma boot_memcpy_loop_eq:
  assumes "unat src + n < 2 ^ 32" and "unat fi = unat dst + n" and "unat src + n \<le> unat dst \<or> unat fi \<le> unat src"
  shows "boot_memcpy_loop dst fi src m =
    (\<lambda>k. if unat dst \<le> k \<and> k < unat dst + n then m (unat src + (k - unat dst)) else m k)"
  using assms
proof (induction n arbitrary: src dst m)
  case 0
  then have "\<not> dst < fi" by (simp add: word_less_nat_alt)
  then show ?case by (subst boot_memcpy_loop.simps) (auto simp: fun_eq_iff)
next
  case (Suc n)
  then have lt: "dst < fi" by (simp add: word_less_nat_alt)
  have s1: "unat (src + 1) = unat src + 1" using Suc.prems(1) by (simp add: unat_word_ariths)
  have d1: "unat (dst + 1) = unat dst + 1" using unat_inc [OF lt] by simp
  let ?m = "m(unat dst := m (unat src))"
  have "unat (src + 1) + n < 2 ^ 32" "unat fi = unat (dst + 1) + n" "unat (src + 1) + n \<le> unat (dst + 1) \<or> unat fi \<le> unat (src + 1)"
    using Suc.prems s1 d1 by auto
  from Suc.IH [OF this, of ?m]
  have "boot_memcpy_loop (dst + 1) fi (src + 1) ?m =
      (\<lambda>k. if unat dst + 1 \<le> k \<and> k < unat dst + 1 + n then ?m (unat src + 1 + (k - (unat dst + 1))) else ?m k)"
    by (simp only: s1 d1)
  also have "\<dots> = (\<lambda>k. if unat dst \<le> k \<and> k < unat dst + Suc n then m (unat src + (k - unat dst)) else m k)"
    using Suc.prems(2,3) by (auto simp: fun_eq_iff Suc_diff_Suc)
  finally show ?case using lt by (subst boot_memcpy_loop.simps) simp
qed

lemma boot_memset_loop_eq:
  "unat fi = unat dst + n \<Longrightarrow>
   boot_memset_loop dst fi c m = (\<lambda>k. if unat dst \<le> k \<and> k < unat dst + n then c else m k)"
proof (induction n arbitrary: dst m)
  case 0
  then have "\<not> dst < fi" by (simp add: word_less_nat_alt)
  then show ?case by (subst boot_memset_loop.simps) (auto simp: fun_eq_iff)
next
  case (Suc n)
  then have lt: "dst < fi" by (simp add: word_less_nat_alt)
  have d1: "unat (dst + 1) = unat dst + 1" using unat_inc [OF lt] by simp
  have "unat fi = unat (dst + 1) + n" using Suc.prems d1 by simp
  from Suc.IH [OF this, of "m(unat dst := c)"]
  have "boot_memset_loop (dst + 1) fi c (m(unat dst := c)) =
      (\<lambda>k. if unat dst + 1 \<le> k \<and> k < unat dst + 1 + n then c else (m(unat dst := c)) k)" by (simp only: d1)
  also have "\<dots> = (\<lambda>k. if unat dst \<le> k \<and> k < unat dst + Suc n then c else m k)" by (auto simp: fun_eq_iff)
  finally show ?case using lt by (subst boot_memset_loop.simps) simp
qed

lemma boot_copy_loop_sectors:
  "unat sect + n \<le> 2 ^ 28 \<Longrightarrow>
   boot_copy_loop d a (a + SECTSIZE * n) sect m =
     (\<lambda>k. if a \<le> k \<and> k < a + SECTSIZE * n then d (SECTSIZE * unat sect + (k - a)) else m k)"
proof (induction n arbitrary: a sect m)
  case 0
  then show ?case by (subst boot_copy_loop.simps) (auto simp: fun_eq_iff)
next
  case (Suc n)
  have sect: "unat (sect + 1) = unat sect + 1" using Suc.prems by (rule unat_Suc_sector)
  have lba: "ata_select sect = unat sect" using Suc.prems by (intro ata_select_eq) simp
  have "boot_copy_loop d a (a + SECTSIZE * Suc n) sect m =
      boot_copy_loop d (a + SECTSIZE) (a + SECTSIZE + SECTSIZE * n) (sect + 1) (boot_read_disk d m a sect)"
    by (subst boot_copy_loop.simps) (simp add: add.assoc)
  also note Suc.IH
  finally show ?case using Suc.prems by (auto simp: sect lba boot_read_disk_def overlay_def fun_eq_iff)
qed

subsection \<open>The kernel's file\<close>

abbreviation (input) IMAGE :: nat where "IMAGE \<equiv> 130560"

text \<open>The file on the disk, its program headers and their fields.\<close>

definition kernel_file :: "disk \<Rightarrow> nat \<Rightarrow> u8" where
  "kernel_file d o1 = d (SECTSIZE + o1)"

definition phnum :: "disk \<Rightarrow> nat" where
  "phnum d = unat (kernel_file d 44) + 256 * unat (kernel_file d 45)"

definition phoff :: "disk \<Rightarrow> nat" where
  "phoff d = unat (word_at (kernel_file d) 28)"

definition pfield :: "disk \<Rightarrow> nat \<Rightarrow> nat \<Rightarrow> nat" where
  "pfield d i x = unat (word_at (kernel_file d) (phoff d + 32 * i + x))"

definition loads :: "disk \<Rightarrow> nat \<Rightarrow> bool" where
  "loads d i \<longleftrightarrow> pfield d i 0 = 1"

abbreviation (input) "poffset d i \<equiv> pfield d i 4"
abbreviation (input) "pvaddr d i \<equiv> pfield d i 8"
abbreviation (input) "pfilesz d i \<equiv> pfield d i 16"
abbreviation (input) "pmemsz d i \<equiv> pfield d i 20"

definition target :: "disk \<Rightarrow> nat \<Rightarrow> nat set" where
  "target d i = {pvaddr d i..<pvaddr d i + pfilesz d i}"

text \<open>What the loader clears, as offsets from the start of the file in memory.\<close>

definition cleared :: "disk \<Rightarrow> nat \<Rightarrow> nat set" where
  "cleared d i = {poffset d i + pfilesz d i..<poffset d i + pmemsz d i}"

text \<open>What is left of the byte \<open>x\<close> of the file when the segments before number \<open>n\<close> have been loaded.\<close>

definition left_of :: "disk \<Rightarrow> nat \<Rightarrow> nat \<Rightarrow> u8" where
  "left_of d n x = (if \<exists>i < n. loads d i \<and> x \<in> cleared d i then 0 else kernel_file d x)"

text \<open>
  A file the loader can handle, with segments from address \<open>L\<close> on, behind everything the loader reads or clears: headers
  and segments are in the sectors read, the headers are not cleared, and targets are apart.
\<close>

definition bootable :: "disk \<Rightarrow> nat \<Rightarrow> bool" where
  "bootable d L \<longleftrightarrow> phoff d + 32 * phnum d \<le> IMAGE \<and> ELF_AT + IMAGE \<le> L \<and>
     (\<forall>i < phnum d. loads d i \<longrightarrow>
        poffset d i + pfilesz d i \<le> IMAGE \<and> pfilesz d i \<le> pmemsz d i \<and> ELF_AT + poffset d i + pmemsz d i \<le> L \<and>
        L \<le> pvaddr d i \<and> pvaddr d i + pfilesz d i < 2 ^ 32 \<and> cleared d i \<inter> {0..<52} = {} \<and>
        cleared d i \<inter> {phoff d..<phoff d + 32 * phnum d} = {} \<and>
        (\<forall>j. i < j \<longrightarrow> j < phnum d \<longrightarrow> loads d j \<longrightarrow> target d i \<inter> target d j = {}))"

lemma bootableD:
  assumes "bootable d L" and "i < phnum d" and "loads d i"
  shows "poffset d i + pfilesz d i \<le> IMAGE" and "pfilesz d i \<le> pmemsz d i" and "ELF_AT + poffset d i + pmemsz d i \<le> L"
    and "L \<le> pvaddr d i" and "pvaddr d i + pfilesz d i < 2 ^ 32" and "cleared d i \<inter> {0..<52} = {}"
    and "cleared d i \<inter> {phoff d..<phoff d + 32 * phnum d} = {}"
    and "i < j \<Longrightarrow> j < phnum d \<Longrightarrow> loads d j \<Longrightarrow> target d i \<inter> target d j = {}"
  using assms unfolding bootable_def by blast+

text \<open>After the first \<open>n\<close> headers.\<close>

definition boot_inv :: "disk \<Rightarrow> mem \<Rightarrow> nat \<Rightarrow> nat \<Rightarrow> mem \<Rightarrow> bool" where
  "boot_inv d m L n m' \<longleftrightarrow>
     (\<forall>x < IMAGE. m' (ELF_AT + x) = left_of d n x) \<and>
     (\<forall>i < n. loads d i \<longrightarrow> (\<forall>k < pfilesz d i. m' (pvaddr d i + k) = left_of d i (poffset d i + k))) \<and>
     (\<forall>a \<ge> L. (\<forall>i < n. loads d i \<longrightarrow> a \<notin> target d i) \<longrightarrow> m' a = m a)"

lemma boot_inv_header:
  assumes "bootable d L" and "boot_inv d m L n m'" and "n \<le> i" and "i < phnum d" and "x + 4 \<le> 32"
  shows "unat (word_at m' (ELF_AT + phoff d + 32 * i + x)) = pfield d i x"
proof -
  have "m' (ELF_AT + (phoff d + 32 * i + x + k)) = kernel_file d (phoff d + 32 * i + x + k)" if "k < 4" for k
  proof -
    let ?y = "phoff d + 32 * i + x + k"
    have y: "?y \<in> {phoff d..<phoff d + 32 * phnum d}" using assms(4,5) that by auto
    have "?y \<notin> cleared d j" if "j < n" "loads d j" for j
      using bootableD(7) [OF assms(1) _ that(2)] that(1) assms(3,4) y by fastforce
    then have "left_of d n ?y = kernel_file d ?y" by (auto simp: left_of_def)
    moreover have "?y < IMAGE" using assms(1) y by (auto simp: bootable_def)
    ultimately show ?thesis using assms(2) unfolding boot_inv_def by metis
  qed
  then have "word_at m' (ELF_AT + phoff d + 32 * i + x) = word_at (kernel_file d) (phoff d + 32 * i + x)"
    by (intro word_at_cong) (simp add: add.assoc)
  then show ?thesis by (simp add: pfield_def)
qed

text \<open>A segment that is loaded: what \<open>memcpy\<close> and \<open>memset\<close> make of the memory.\<close>

lemma boot_segment_eq:
  assumes b: "bootable d L" and inv: "boot_inv d m L n m'" and n: "n < phnum d" and l: "loads d n"
  shows "boot_segment m' (ELF_AT + phoff d + 32 * n) =
    (\<lambda>a. if a - ELF_AT \<in> cleared d n \<and> ELF_AT \<le> a then 0
      else if a \<in> target d n then m' (ELF_AT + poffset d n + (a - pvaddr d n)) else m' a)"
proof -
  define ph where "ph = ELF_AT + phoff d + 32 * n"
  note h = boot_inv_header [OF b inv order_refl n]
  note bd = bootableD [OF b n l]
  have hd: "unat (word_at m' ph) = pfield d n 0" "unat (word_at m' (ph + 4)) = poffset d n" "unat (word_at m' (ph + 8)) = pvaddr d n"
    "unat (word_at m' (ph + 16)) = pfilesz d n" "unat (word_at m' (ph + 20)) = pmemsz d n"
    using h [of 0] h [of 4] h [of 8] h [of 16] h [of 20] by (simp_all add: ph_def)
  have bounds: "ELF_AT + phoff d + 32 * phnum d \<le> L" "ELF_AT + IMAGE \<le> L" using b by (auto simp: bootable_def)
  let ?v = "word_at m' (ph + 8)" and ?o = "of_nat ELF_AT + word_at m' (ph + 4)" and ?f = "word_at m' (ph + 16)"
  have u: "unat ?o = ELF_AT + poffset d n" "unat (?v + ?f) = pvaddr d n + pfilesz d n"
    using bd(1,3,4,5) hd by (simp_all add: unat_word_ariths)
  let ?m1 = "\<lambda>k. if unat ?v \<le> k \<and> k < unat ?v + pfilesz d n then m' (unat ?o + (k - unat ?v)) else m' k"
  have m1: "boot_memcpy m' ?v ?o ?f = ?m1"
    unfolding boot_memcpy_def using bd(1-5) bounds(2) hd u by (intro boot_memcpy_loop_eq) auto
  have same: "word_at ?m1 (ph + x) = word_at m' (ph + x)" if "x + 4 \<le> 32" for x
  proof (rule word_at_cong)
    fix i :: nat assume "i < 4"
    then have "ph + x + i < L" using bounds(1) n that by (auto simp: less_eq_Suc_le ph_def)
    then show "?m1 (ph + x + i) = m' (ph + x + i)" using bd(4) hd(3) by simp
  qed
  let ?c = "?o + ?f" and ?s = "word_at m' (ph + 20) - ?f"
  have uc: "unat ?c = ELF_AT + poffset d n + pfilesz d n" "unat ?s = pmemsz d n - pfilesz d n"
    "unat (?c + ?s) = unat ?c + (pmemsz d n - pfilesz d n)"
    using bd(1-5) hd u by (simp_all add: unat_word_ariths unat_sub word_le_nat_alt)
  have "word_at m' ph = 1" using hd(1) l by (simp add: loads_def word_unat_eq_iff)
  then have "boot_segment m' ph = boot_memset ?m1 ?c 0 ?s"
    using same [of 4] same [of 16] same [of 20] by (simp only: boot_segment_def m1 Let_def if_True simp_thms)
  also have "\<dots> = (\<lambda>k. if unat ?c \<le> k \<and> k < unat ?c + (pmemsz d n - pfilesz d n) then 0 else ?m1 k)"
    unfolding boot_memset_def by (rule boot_memset_loop_eq) (rule uc(3))
  finally show ?thesis unfolding ph_def [symmetric] using bd(2) hd(3) u(1) uc(1) by (auto simp: fun_eq_iff cleared_def target_def)
qed

lemma boot_inv_step:
  assumes b: "bootable d L" and inv: "boot_inv d m L n m'" and n: "n < phnum d"
  shows "boot_inv d m L (Suc n) (boot_segment m' (ELF_AT + phoff d + 32 * n))"
proof (cases "loads d n")
  case False
  have "unat (word_at m' (ELF_AT + phoff d + 32 * n)) \<noteq> 1"
    using boot_inv_header [OF b inv order_refl n, of 0] False by (simp add: loads_def)
  then have "word_at m' (ELF_AT + phoff d + 32 * n) \<noteq> 1" by auto
  then have "boot_segment m' (ELF_AT + phoff d + 32 * n) = m'" by (simp add: boot_segment_def)
  moreover have "left_of d (Suc n) = left_of d n" using False by (auto simp: left_of_def fun_eq_iff less_Suc_eq)
  then have "boot_inv d m L (Suc n) m'" using inv False less_Suc_eq by (simp add: boot_inv_def)
  ultimately show ?thesis by simp
next
  case True
  note bd = bootableD [OF b n True]
  have AL: "ELF_AT + IMAGE \<le> L" using b by (simp add: bootable_def)
  let ?m = "\<lambda>a. if a - ELF_AT \<in> cleared d n \<and> ELF_AT \<le> a then 0
      else if a \<in> target d n then m' (ELF_AT + poffset d n + (a - pvaddr d n)) else m' a"
  have low: "\<not> (a - ELF_AT \<in> cleared d n \<and> ELF_AT \<le> a)" if "a \<ge> L" for a
    using that bd(3) by (auto simp: cleared_def)
  have i1: "m' (ELF_AT + x) = left_of d n x" if "x < IMAGE" for x
    using inv that by (simp add: boot_inv_def)
  have i2: "m' (pvaddr d i + k) = left_of d i (poffset d i + k)" if "i < n" "loads d i" "k < pfilesz d i" for i k
    using inv that by (simp add: boot_inv_def)
  have i3: "m' a = m a" if "a \<ge> L" "\<And>i. i < n \<Longrightarrow> loads d i \<Longrightarrow> a \<notin> target d i" for a
    using inv that by (simp add: boot_inv_def)
  have "?m (ELF_AT + x) = left_of d (Suc n) x" if "x < IMAGE" for x
  proof -
    have "ELF_AT + x \<notin> target d n" using that(1) AL bd(4) by (simp add: target_def)
    then show ?thesis using i1 [OF that] True by (auto simp: left_of_def less_Suc_eq)
  qed
  moreover have "?m (pvaddr d i + k) = left_of d i (poffset d i + k)" if i: "i < Suc n" "loads d i" "k < pfilesz d i" for i k
  proof (cases "i = n")
    case True
    have "m' (ELF_AT + (poffset d n + k)) = left_of d n (poffset d n + k)" using bd(1) i(3) True by (intro i1) auto
    moreover have "\<not> (pvaddr d n + k - ELF_AT \<in> cleared d n \<and> ELF_AT \<le> pvaddr d n + k)" by (rule low) (use bd(4) in simp)
    moreover have "pvaddr d n + k \<in> target d n" using True i(3) by (simp add: target_def)
    ultimately show ?thesis unfolding True by (simp only: if_True if_False add_diff_cancel_left' add.assoc)
  next
    case False
    then have lt: "i < n" using i(1) by simp
    note bi = bootableD [OF b less_trans [OF lt n] i(2)]
    have "pvaddr d i + k \<in> target d i" using i(3) by (simp add: target_def)
    then have "pvaddr d i + k \<notin> target d n" using bi(8) [OF lt n True] by blast
    moreover have "\<not> (pvaddr d i + k - ELF_AT \<in> cleared d n \<and> ELF_AT \<le> pvaddr d i + k)" by (rule low) (use bi(4) in simp)
    ultimately show ?thesis by (simp only: if_False i2 [OF lt i(2,3)])
  qed
  moreover have "?m a = m a" if "a \<ge> L" "\<forall>i < Suc n. loads d i \<longrightarrow> a \<notin> target d i" for a
  proof -
    have "a \<notin> target d n" "m' a = m a" using i3 [OF that(1)] that(2) True by auto
    then show ?thesis by (simp only: low [OF that(1)] if_False)
  qed
  ultimately show ?thesis unfolding boot_segment_eq [OF b inv n True] boot_inv_def by blast
qed

lemma boot_copy_file: "boot_copy_from_disk d m ELF_AT IMAGE 512 =
    (\<lambda>k. if ELF_AT \<le> k \<and> k < ELF_AT + IMAGE then kernel_file d (k - ELF_AT) else m k)"
proof -
  have u: "unat (c_div 512 512) = 1" by (subst c_div_nonneg) simp_all
  show ?thesis using boot_copy_loop_sectors [of "c_div 512 512" 255 d ELF_AT m]
    unfolding boot_copy_from_disk_def kernel_file_def u by (auto simp: fun_eq_iff)
qed

text \<open>
  C31: the boot loader (\<open>load_kernel\<close>, \<open>boot/boot.c\<close>) on an ELF file that begins at sector 1 of the disk, whose headers are not
  in a range the loader clears and whose segments go to separate places behind it (\<open>bootable\<close>): the loader jumps to the
  entry of the file, and every segment is at its address, byte for byte, except for the bytes that an earlier segment
  has cleared in the copy of the file: these arrive as 0. From the first segment on it writes nothing else: what a
  segment has in memory beyond the file (\<open>.bss\<close>) keeps what was there, since the \<open>memset\<close> clears the copy of the file
  instead.
\<close>

theorem boot_loads_segments:
  assumes "bootable d L" and "load_kernel d m = (start, m')"
  shows "start = word_at (kernel_file d) 24 \<and>
    (\<forall>i < phnum d. loads d i \<longrightarrow> (\<forall>k < pfilesz d i. m' (pvaddr d i + k) =
       (if \<exists>j < i. loads d j \<and> poffset d i + k \<in> cleared d j then 0 else kernel_file d (poffset d i + k)))) \<and>
    (\<forall>a \<ge> L. (\<forall>i < phnum d. loads d i \<longrightarrow> a \<notin> target d i) \<longrightarrow> m' a = m a)"
proof -
  let ?m0 = "boot_copy_from_disk d m ELF_AT IMAGE 512"
  have AL: "ELF_AT + IMAGE \<le> L" using assms(1) by (simp add: bootable_def)
  have hd: "word_at ?m0 (ELF_AT + x) = word_at (kernel_file d) x" if "x + 4 \<le> 52" for x
    by (rule word_at_cong) (use that in \<open>simp add: boot_copy_file\<close>)
  have "boot_inv d m L n (fold (\<lambda>i m. boot_segment m (ELF_AT + phoff d + 32 * i)) [0..<n] ?m0)" if "n \<le> phnum d" for n
    using that
  proof (induction n)
    case 0
    show ?case using AL by (simp add: boot_inv_def boot_copy_file left_of_def)
  next
    case (Suc n)
    then show ?case using boot_inv_step [OF assms(1)] by simp
  qed
  from this [of "phnum d"] have inv: "boot_inv d m L (phnum d) m'"
    using assms(2) hd [of 28] by (auto simp: load_kernel_def Let_def phoff_def phnum_def boot_copy_file)
  have e: "start = word_at m' (ELF_AT + 24)" using assms(2) by (auto simp: load_kernel_def Let_def)
  have "word_at m' (ELF_AT + 24) = word_at (kernel_file d) 24"
  proof (rule word_at_cong)
    fix i :: nat assume i: "i < 4"
    have "\<forall>j < phnum d. loads d j \<longrightarrow> 24 + i \<notin> cleared d j"
      using bootableD(6) [OF assms(1)] i by fastforce
    then have "left_of d (phnum d) (24 + i) = kernel_file d (24 + i)" by (auto simp: left_of_def)
    moreover have "\<forall>x < IMAGE. m' (ELF_AT + x) = left_of d (phnum d) x"
      using inv unfolding boot_inv_def by (rule conjunct1)
    from spec [OF this, of "24 + i"] have "m' (ELF_AT + (24 + i)) = left_of d (phnum d) (24 + i)" using i by simp
    ultimately have "m' (ELF_AT + (24 + i)) = kernel_file d (24 + i)" by simp
    then show "m' (ELF_AT + 24 + i) = kernel_file d (24 + i)" by (simp only: add.assoc)
  qed
  then show ?thesis using inv e by (simp add: boot_inv_def left_of_def)
qed

text \<open>
  A file with a segment of two bytes, to be followed by two that are zero, and a second segment whose two bytes come next
  in the file; memory is full of junk.
\<close>

definition demo_elf :: bytes where
  "demo_elf = [127, 69, 76, 70, 0, 0, 0, 0, 0, 0, 0, 0, 0, 0, 0, 0, 0, 0, 0, 0, 0, 0, 0, 0, 0, 16, 16, 0, 52, 0, 0, 0, 0, 0,
     0, 0, 0, 0, 0, 0, 52, 0, 32, 0, 2, 0, 0, 0, 0, 0, 0, 0,
     1, 0, 0, 0, 116, 0, 0, 0, 0, 16, 16, 0, 0, 16, 16, 0, 2, 0, 0, 0, 4, 0, 0, 0, 5, 0, 0, 0, 0, 16, 0, 0,
     1, 0, 0, 0, 118, 0, 0, 0, 0, 32, 16, 0, 0, 32, 16, 0, 2, 0, 0, 0, 2, 0, 0, 0, 6, 0, 0, 0, 0, 16, 0, 0,
     244, 235, 1, 2]"

definition demo_boot :: disk where
  "demo_boot = (\<lambda>a. if 512 \<le> a \<and> a - 512 < length demo_elf then demo_elf ! (a - 512) else 0)"

lemma demo_boot_file: "kernel_file demo_boot x = (if x < 120 then demo_elf ! x else 0)"
  by (simp add: kernel_file_def demo_boot_def) (simp add: demo_elf_def)

lemma demo_boot_fields:
  "phoff demo_boot = 52" "phnum demo_boot = 2" "loads demo_boot 0" "poffset demo_boot 0 = 116" "pvaddr demo_boot 0 = 0x101000"
  "pfilesz demo_boot 0 = 2" "pmemsz demo_boot 0 = 4"
  "loads demo_boot 1" "poffset demo_boot 1 = 118" "pvaddr demo_boot 1 = 0x102000" "pfilesz demo_boot 1 = 2" "pmemsz demo_boot 1 = 2"
proof -
  have p: "phoff demo_boot = 52" by (simp add: phoff_def word_at_def demo_boot_file upt_conv_Cons) (simp add: demo_elf_def)
  then show "phoff demo_boot = 52" .
  show "phnum demo_boot = 2" by (simp add: phnum_def demo_boot_file) (simp add: demo_elf_def)
  show "loads demo_boot 0" "poffset demo_boot 0 = 116" "pvaddr demo_boot 0 = 0x101000" "pfilesz demo_boot 0 = 2" "pmemsz demo_boot 0 = 4"
    unfolding loads_def pfield_def p by (simp_all add: word_at_def demo_boot_file upt_conv_Cons) (simp_all add: demo_elf_def)
  show "loads demo_boot 1" "poffset demo_boot 1 = 118" "pvaddr demo_boot 1 = 0x102000" "pfilesz demo_boot 1 = 2" "pmemsz demo_boot 1 = 2"
    unfolding loads_def pfield_def p by (simp_all add: word_at_def demo_boot_file upt_conv_Cons) (simp_all add: demo_elf_def)
qed

lemma demo_bootable: "bootable demo_boot 0x100000"
proof -
  note f = demo_boot_fields
  have c: "cleared demo_boot 0 = {118..<120}" "cleared demo_boot 1 = {}" "target demo_boot 0 = {0x101000..<0x101002}"
    "target demo_boot 1 = {0x102000..<0x102002}" by (simp_all add: cleared_def target_def f f [unfolded One_nat_def])
  show ?thesis unfolding bootable_def f(1,2)
  proof (intro conjI allI impI)
    fix i :: nat assume "i < 2"
    then have i: "i = 0 \<or> i = 1" by auto
    show "poffset demo_boot i + pfilesz demo_boot i \<le> IMAGE" "pfilesz demo_boot i \<le> pmemsz demo_boot i"
      "ELF_AT + poffset demo_boot i + pmemsz demo_boot i \<le> 0x100000" "0x100000 \<le> pvaddr demo_boot i"
      "pvaddr demo_boot i + pfilesz demo_boot i < 2 ^ 32"
      using i f by auto
    show "cleared demo_boot i \<inter> {0..<52} = {}" "cleared demo_boot i \<inter> {52..<52 + 32 * 2} = {}" using i c by auto
    fix j :: nat assume "i < j" "j < 2"
    then have "i = 0" "j = 1" by simp_all
    then show "target demo_boot i \<inter> target demo_boot j = {}" using c by simp
  qed simp_all
qed

lemma boot_loads_segments_witness:
  "\<exists>start m'. load_kernel demo_boot (\<lambda>_. 7) = (start, m') \<and> start = 0x101000 \<and>
    map m' [0x101000..<0x101004] = [244, 235, 7, 7] \<and> map m' [0x102000..<0x102002] = [0, 0]"
proof -
  obtain start m' where l: "load_kernel demo_boot (\<lambda>_. 7) = (start, m')" by fastforce
  have b: "start = word_at (kernel_file demo_boot) 24"
    "\<forall>i < 2. loads demo_boot i \<longrightarrow> (\<forall>k < pfilesz demo_boot i. m' (pvaddr demo_boot i + k) =
       (if \<exists>j < i. loads demo_boot j \<and> poffset demo_boot i + k \<in> cleared demo_boot j then 0
        else kernel_file demo_boot (poffset demo_boot i + k)))"
    "\<forall>a \<ge> 0x100000. (\<forall>i < 2. loads demo_boot i \<longrightarrow> a \<notin> target demo_boot i) \<longrightarrow> m' a = 7"
    using boot_loads_segments [OF demo_bootable l] unfolding demo_boot_fields(2) by blast+
  have c: "118 \<in> cleared demo_boot 0" "119 \<in> cleared demo_boot 0" by (simp_all add: cleared_def demo_boot_fields)
  have s0: "m' (0x101000 + k) = kernel_file demo_boot (116 + k)" if "k < 2" for k
    using b(2) [rule_format, of 0 k] that by (simp add: demo_boot_fields)
  have s1: "m' (0x102000 + k) = 0" if "k < 2" "118 + k \<in> cleared demo_boot 0" for k
    using b(2) [rule_format, of 1 k] that demo_boot_fields by auto
  have o: "m' a = 7" if "a \<in> {0x101002, 0x101003}" for a
  proof -
    have "a \<notin> target demo_boot i" if "i < 2" for i
      using that \<open>a \<in> {0x101002, 0x101003}\<close> demo_boot_fields by (auto simp: target_def less_Suc_eq numeral_2_eq_2)
    then show ?thesis using b(3) that by auto
  qed
  have "start = 0x101000"
    unfolding b(1) by (simp add: word_at_def demo_boot_file upt_conv_Cons) (simp add: demo_elf_def)
  moreover have "m' 0x101000 = 244" "m' 0x101001 = 235"
    using s0 [of 0] s0 [of 1] by (simp_all add: demo_boot_file demo_elf_def)
  moreover have "m' 0x102000 = 0" "m' 0x102001 = 0" using s1 [of 0] s1 [of 1] c by simp_all
  ultimately show ?thesis using l o by (simp add: upt_conv_Cons)
qed

end
