(* ===== verification/Mkfs.thy ===== *)
theory Mkfs
  imports FsDir
begin

text \<open>
  The tool that builds the file system the kernel starts with, \<open>utils/mkfs.c\<close>. It runs on the host:
  the output file is a byte array mapped into memory (\<open>mk_img\<close>, all zero at first), and a pointer
  into it is an offset. \<open>balloc\<close> and \<open>ialloc\<close> keep their counters in static variables. The host's
  files are an argument, a map from paths to bytes, and \<open>junk\<close> is what an uninitialised
  \<open>dirent_t\<close> on the stack holds, call by call. \<open>None\<close> is \<open>panic\<close>, a failed assertion, or C that is
  undefined (an access outside the image, a name that does not fit into a directory entry).
\<close>

abbreviation (input) IMG_SIZE :: nat where "IMG_SIZE \<equiv> 134086656"
abbreviation (input) INUM :: nat where "INUM \<equiv> 1920"

record mkfs =
  mk_img :: "nat \<Rightarrow> u8"
  sb_p :: nat
  bitmap_p :: nat
  root_p :: nat
  next_blk :: u32
  next_inode :: u32

definition mk_put :: "mkfs \<Rightarrow> nat \<Rightarrow> bytes \<Rightarrow> mkfs" where
  "mk_put m a bs = m\<lparr>mk_img := overlay (mk_img m) a bs\<rparr>"

definition mk_word :: "mkfs \<Rightarrow> nat \<Rightarrow> u32" where
  "mk_word m a = word_at (mk_img m) a"

text \<open>\<open>bget\<close> and \<open>iget\<close>: the address of a block and of an inode.\<close>

definition mk_bget :: "u32 \<Rightarrow> nat option" where
  "mk_bget no = (if 32 \<le> unat no \<and> unat no < BLK_NUM then Some ((unat no - 32) * BLK_SIZE) else None)"

definition mk_iget :: "u32 \<Rightarrow> nat option" where
  "mk_iget no = do {
     b \<leftarrow> mk_bget (no div 64 + 34);
     Some (b + unat (no mod 64) * DINODE_SIZE) }"

definition mk_balloc :: "mkfs \<Rightarrow> (u32 \<times> mkfs) option" where
  "mk_balloc m =
     (if unat (next_blk m) \<ge> BLK_NUM then None
      else
        let a = bitmap_p m + unat (next_blk m div 8);
            m = mk_put m a [mk_img m a OR push_bit (unat (next_blk m mod 8)) 1]
        in Some (next_blk m, m\<lparr>next_blk := next_blk m + 1\<rparr>))"

definition mk_ialloc :: "mkfs \<Rightarrow> u32 \<Rightarrow> (u32 \<times> mkfs) option" where
  "mk_ialloc m ty =
     (if unat (next_inode m) \<ge> INUM then None
      else do {
        ip \<leftarrow> mk_iget (next_inode m);
        let m = mk_put m ip (le32 ty);
        Some (next_inode m, m\<lparr>next_inode := next_inode m + 1\<rparr>) })"

text \<open>The step \<open>iwalk\<close> writes out three times: a block number stored at \<open>a\<close>, allocated when it is 0.\<close>

definition mk_entry :: "mkfs \<Rightarrow> nat \<Rightarrow> (u32 \<times> mkfs) option" where
  "mk_entry m a =
     (if mk_word m a = 0 then do {
        (blk, m) \<leftarrow> mk_balloc m;
        Some (blk, mk_put m a (le32 blk)) }
      else Some (mk_word m a, m))"

definition mk_iwalk :: "mkfs \<Rightarrow> nat \<Rightarrow> nat \<Rightarrow> (nat \<times> mkfs) option" where
  "mk_iwalk m ip blk_no =
     (if blk_no < NDIRECT then do {
        (blk, m) \<leftarrow> mk_entry m (ip + 12 + 4 * blk_no);
        b \<leftarrow> mk_bget blk;
        Some (b, m) }
      else if blk_no - NDIRECT < NINDIRECT then do {
        (indirect_blk, m) \<leftarrow> mk_entry m (ip + 12 + 4 * NDIRECT);
        indirect \<leftarrow> mk_bget indirect_blk;
        (blk, m) \<leftarrow> mk_entry m (indirect + 4 * (blk_no - NDIRECT));
        b \<leftarrow> mk_bget blk;
        Some (b, m) }
      else None)"

text \<open>\<open>iappend\<close>: offset 8 of an inode is its size.\<close>

partial_function (option) mk_iappend_loop :: "mkfs \<Rightarrow> nat \<Rightarrow> bytes \<Rightarrow> nat \<Rightarrow> nat \<Rightarrow> mkfs option" where
  "mk_iappend_loop m ip buf offset blk_no =
     (if length buf > 0 then do {
        (blk, m) \<leftarrow> mk_iwalk m ip blk_no;
        let write_size = min (length buf) (BLK_SIZE - offset);
        let m = mk_put m (blk + offset) (take write_size buf);
        let m = mk_put m (ip + 8) (le32 (mk_word m (ip + 8) + of_nat write_size));
        mk_iappend_loop m ip (drop write_size buf) 0 (blk_no + 1)
      } else Some m)"

definition mk_iappend :: "mkfs \<Rightarrow> nat \<Rightarrow> bytes \<Rightarrow> mkfs option" where
  "mk_iappend m ip buf =
     (let sz = unat (mk_word m (ip + 8)) in mk_iappend_loop m ip buf (sz mod BLK_SIZE) (sz div BLK_SIZE))"

text \<open>\<open>basename\<close> of the host's library: what follows the last slash that is not at the end.\<close>

definition basename :: "bytes \<Rightarrow> bytes" where
  "basename path =
     (if path = [] then [DOT]
      else
        let p = dropWhile (\<lambda>c. c = SLASH) (rev path) in
        if p = [] then [SLASH] else rev (takeWhile (\<lambda>c. c \<noteq> SLASH) p))"

text \<open>The loop of \<open>add_file\<close>: \<open>fread\<close> hands out the next 4096 bytes of the file, at its end what is left.\<close>

function mk_copy_loop :: "mkfs \<Rightarrow> nat \<Rightarrow> bytes \<Rightarrow> mkfs option" where
  "mk_copy_loop m ip data =
     (let buf = take BLK_SIZE data in
      if length buf = 0 then Some m
      else (case mk_iappend m ip buf of
              None \<Rightarrow> None
            | Some m \<Rightarrow> mk_copy_loop m ip (drop BLK_SIZE data)))"
  by pat_completeness auto
termination by (relation "measure (\<lambda>(_, _, data). length data)") auto

declare mk_copy_loop.simps [simp del]

definition mk_add_file :: "(bytes \<Rightarrow> bytes option) \<Rightarrow> mkfs \<Rightarrow> bytes \<Rightarrow> bytes \<Rightarrow> mkfs option" where
  "mk_add_file files m path junk = do {
     data \<leftarrow> files path;
     (no, m) \<leftarrow> mk_ialloc m TYPE_FILE;
     ip \<leftarrow> mk_iget no;
     d \<leftarrow> set_dirent (dirent_of junk) no (basename path);
     m \<leftarrow> mk_iappend m (root_p m) (dirent_bytes d);
     mk_copy_loop m ip data }"

definition mk_init_disk :: "mkfs \<Rightarrow> bytes \<Rightarrow> mkfs option" where
  "mk_init_disk m junk = do {
     sbp \<leftarrow> mk_bget 32;
     let m = mk_put (mk_put (mk_put (m\<lparr>sb_p := sbp\<rparr>) sbp (le32 33)) (sbp + 4) (le32 34)) (sbp + 8) (le32 1920);
     bm \<leftarrow> mk_bget 33;
     let m = mk_put (mk_put (m\<lparr>bitmap_p := bm\<rparr>) (bm + 4) (le32 0xffffffff)) bm (le32 0xffffffff);
     (no, m) \<leftarrow> mk_ialloc m TYPE_DIR;
     let m = mk_put m (sb_p m + 12) (le32 no);
     rp \<leftarrow> mk_iget (mk_word m (sb_p m + 12));
     let m = m\<lparr>root_p := rp\<rparr>;
     d \<leftarrow> set_dirent (dirent_of junk) (mk_word m (sb_p m + 12)) [DOT];
     m \<leftarrow> mk_iappend m (root_p m) (dirent_bytes d);
     d \<leftarrow> set_dirent d (mk_word m (sb_p m + 12)) [DOT, DOT];
     mk_iappend m (root_p m) (dirent_bytes d) }"

text \<open>\<open>main\<close> on the words of the command line: the program, the target, the files to add. Opening,
  truncating and mapping the target give an image of zeros.\<close>

definition mk_start :: mkfs where
  "mk_start = \<lparr>mk_img = (\<lambda>_. 0), sb_p = 0, bitmap_p = 0, root_p = 0, next_blk = 64, next_inode = 1\<rparr>"

definition mk_main :: "(bytes \<Rightarrow> bytes option) \<Rightarrow> (nat \<Rightarrow> bytes) \<Rightarrow> bytes list \<Rightarrow> mkfs option" where
  "mk_main files junk argv =
     (if length argv > 2 then do {
        m \<leftarrow> mk_init_disk mk_start (junk 0);
        foldM (\<lambda>m i. mk_add_file files m (argv ! i) (junk i)) m [2..<length argv]
      } else None)"

end
