(* ===== verification/EasyFs.thy ===== *)
theory EasyFs
  imports Mkfs CString
begin

text \<open>
  The file system of the stages before the last, the half of \<open>kernel/src/fs.c\<close> under \<open>EASY_FS\<close>, and the tool that builds
  its disk, \<open>utils/genuser.c\<close>: a table of 16 files in one sector, each file in consecutive sectors. A sector is
  read with \<open>read_disk\<close>, here a function from its number; the disk is never written.
\<close>

subsection \<open>On disk\<close>

abbreviation (input) EASY_MAX_NAME :: nat where "EASY_MAX_NAME \<equiv> 23"
abbreviation (input) MAX_FILE :: nat where "MAX_FILE \<equiv> 16"
abbreviation (input) MAX_DEV :: nat where "MAX_DEV \<equiv> 16"
abbreviation (input) MAX_INODE :: nat where "MAX_INODE \<equiv> 32"

record edinode =
  start_sect :: u32
  e_length :: u32
  e_name :: bytes

definition edinode_bytes :: "edinode \<Rightarrow> bytes" where
  "edinode_bytes d = le32 (start_sect d) @ le32 (e_length d) @ e_name d"

definition edinode_of :: "bytes \<Rightarrow> edinode" where
  "edinode_of bs = \<lparr>start_sect = of_le32 bs, e_length = of_le32 (drop 4 bs), e_name = take (EASY_MAX_NAME + 1) (drop 8 bs)\<rparr>"

subsection \<open>The kernel\<close>

text \<open>\<open>struct inode\<close> and the array \<open>inodes\<close>; a pointer to an inode is its index.\<close>

record einode =
  e_valid :: bool
  e_type :: nat
  e_dev :: int
  e_dinode :: edinode

abbreviation (input) E_FILE :: nat where "E_FILE \<equiv> 1"
abbreviation (input) E_DEV :: nat where "E_DEV \<equiv> 3"

definition easy_init_fs :: "(nat \<Rightarrow> bytes) \<Rightarrow> einode list \<Rightarrow> einode list" where
  "easy_init_fs sect ns =
     fold (\<lambda>i m. m[i := (m ! i)\<lparr>e_valid := True, e_type := E_FILE, e_dinode := edinode_of (drop (32 * i) (sect 256))\<rparr>])
       [0..<MAX_FILE] ns"

fun iopen_scan :: "bytes \<Rightarrow> einode list \<Rightarrow> nat \<Rightarrow> nat option option" where
  "iopen_scan path [] i = Some None"
| "iopen_scan path (n # ns) i =
     (if \<not> e_valid n then iopen_scan path ns (i + 1)
      else do { r \<leftarrow> strcmp path (e_name (e_dinode n)); if r = 0 then Some (Some i) else iopen_scan path ns (i + 1) })"

definition easy_iopen :: "einode list \<Rightarrow> bytes \<Rightarrow> nat option option" where
  "easy_iopen ns path = iopen_scan path (take MAX_INODE ns) 0"

text \<open>
  The loop of \<open>iread\<close> with \<open>n\<close> bytes to go; \<open>cur\<close> is the sector that \<open>dbuf\<close> holds. The number of bytes read is the
  length of the result; C counts it in an \<open>int\<close>, which differs only above 2 GB.
\<close>

fun easy_iread_loop :: "(nat \<Rightarrow> bytes) \<Rightarrow> u32 \<Rightarrow> u32 \<Rightarrow> nat \<Rightarrow> u32 \<Rightarrow> u32 \<Rightarrow> bytes \<Rightarrow> bytes" where
  "easy_iread_loop sect st0 total_len 0 off cur dbuf = []"
| "easy_iread_loop sect st0 total_len (Suc n) off cur dbuf =
     (if off < total_len then
        (let (cur, dbuf) = (if cur \<noteq> off div 512 then (off div 512, sect (unat (st0 + off div 512))) else (cur, dbuf)) in
         dbuf ! unat (off mod 512) # easy_iread_loop sect st0 total_len n (off + 1) cur dbuf)
      else [])"

text \<open>The bytes stored; their number is the result. \<open>junk\<close> is what the uninitialised buffer holds.\<close>

definition easy_iread :: "(nat \<Rightarrow> bytes) \<Rightarrow> bytes \<Rightarrow> einode list \<Rightarrow> nat \<Rightarrow> u32 \<Rightarrow> u32 \<Rightarrow> bytes" where
  "easy_iread sect junk ns i off len =
     (let d = e_dinode (ns ! i) in
      easy_iread_loop sect (start_sect d) (e_length d) (unat len) off (- 1) junk)"

definition easy_iadddev :: "einode list \<Rightarrow> bytes \<Rightarrow> nat \<Rightarrow> einode list option" where
  "easy_iadddev ns name d =
     (if d < MAX_DEV then do {
        let n = ns ! (MAX_FILE + d);
        nm \<leftarrow> strcpy (e_name (e_dinode n)) name;
        Some (ns[MAX_FILE + d := n\<lparr>e_valid := True, e_type := E_DEV, e_dev := int d,
          e_dinode := (e_dinode n)\<lparr>e_name := nm\<rparr>\<rparr>]) }
      else None)"

definition easy_isize :: "einode list \<Rightarrow> nat \<Rightarrow> u32" where
  "easy_isize ns i = e_length (e_dinode (ns ! i))"

definition easy_itype :: "einode list \<Rightarrow> nat \<Rightarrow> nat" where
  "easy_itype ns i = e_type (ns ! i)"

definition easy_ino :: "nat \<Rightarrow> nat" where
  "easy_ino i = i"

definition easy_idevid :: "einode list \<Rightarrow> nat \<Rightarrow> int" where
  "easy_idevid ns i = (if e_type (ns ! i) = E_DEV then e_dev (ns ! i) else - 1)"

text \<open>Writing, truncating and removing are not supported: they stop the kernel.\<close>

definition easy_iwrite :: "einode list \<Rightarrow> nat \<Rightarrow> u32 \<Rightarrow> bytes \<Rightarrow> (int \<times> einode list) option" where
  "easy_iwrite ns i off buf = None"

definition easy_itrunc :: "einode list \<Rightarrow> nat \<Rightarrow> einode list option" where
  "easy_itrunc ns i = None"

definition easy_iremove :: "einode list \<Rightarrow> bytes \<Rightarrow> (int \<times> einode list) option" where
  "easy_iremove ns path = None"

definition easy_idup :: "nat \<Rightarrow> nat" where
  "easy_idup i = i"

definition easy_iclose :: "einode list \<Rightarrow> nat \<Rightarrow> einode list" where
  "easy_iclose ns i = ns"

subsection \<open>genuser\<close>

text \<open>The globals and the contents of the file \<open>disk\<close>.\<close>

record genuser =
  g_inode :: "edinode list"
  file_num :: nat
  curr_sect :: nat
  g_disk :: bytes
  g_buf :: bytes

function copy_sectors :: "bytes \<Rightarrow> bytes \<Rightarrow> bytes \<times> bytes" where
  "copy_sectors data buf =
     (if data = [] then ([], buf)
      else
        let rd = take 512 data;
            buf = (if length rd < 512 then rd @ replicate (512 - length rd) 0 else rd);
            (out, buf') = copy_sectors (drop 512 data) buf
        in (buf @ out, buf'))"
  by pat_completeness auto
termination by (relation "measure (\<lambda>(data, _). length data)") auto

declare copy_sectors.simps [simp del]

text \<open>A file of the host is its name and its bytes; \<open>ftell\<close> is stored in 32 bits.\<close>

definition gen_add_file :: "genuser \<Rightarrow> bytes \<times> bytes \<Rightarrow> genuser option" where
  "gen_add_file g nd =
     (let (path, data) = nd; bsname = basename path in
      if \<not> file_num g < MAX_FILE then None
      else if \<not> length bsname \<le> EASY_MAX_NAME then None
      else do {
        let d = g_inode g ! file_num g;
        nm \<leftarrow> strcpy (e_name d) (bsname @ [0]);
        let d = d\<lparr>start_sect := of_nat (curr_sect g), e_name := nm, e_length := of_nat (length data)\<rparr>;
        let (out, buf) = copy_sectors data (g_buf g);
        Some (g\<lparr>g_inode := (g_inode g)[file_num g := d], file_num := file_num g + 1,
          curr_sect := curr_sect g + unat (e_length d + 511) div 512, g_disk := g_disk g @ out, g_buf := buf\<rparr>) })"

definition write_inode :: "genuser \<Rightarrow> genuser" where
  "write_inode g = g\<lparr>g_disk := patch (g_disk g) 0 (concat (map edinode_bytes (g_inode g)))\<rparr>"

fun add_files :: "genuser \<Rightarrow> (bytes \<times> bytes) list \<Rightarrow> genuser option" where
  "add_files g [] = Some g"
| "add_files g (f # fs) = do { g \<leftarrow> gen_add_file g f; add_files g fs }"

definition gen_start :: genuser where
  "gen_start = \<lparr>g_inode = replicate MAX_FILE \<lparr>start_sect = 0, e_length = 0, e_name = replicate 24 0\<rparr>,
     file_num = 0, curr_sect = 257, g_disk = [], g_buf = replicate 512 0\<rparr>"

text \<open>\<open>main\<close> with the files of the command line: the contents of the disk file at its end.\<close>

definition gen_main :: "(bytes \<times> bytes) list \<Rightarrow> bytes option" where
  "gen_main fs =
     (if fs = [] then None
      else do {
        g \<leftarrow> add_files (gen_start\<lparr>g_disk := g_buf gen_start\<rparr>) fs;
        Some (g_disk (write_inode g)) })"

end
