(* ===== verification/EasyFsProps.thy ===== *)
theory EasyFsProps
  imports EasyFs
begin

text \<open>
  The kernel of the stages with \<open>EASY_FS\<close> finds on the disk that \<open>genuser\<close> builds every file, with its bytes.
\<close>

subsection \<open>The tool\<close>

lemma copy_sectors_ok:
  "copy_sectors data buf = (out, buf') \<Longrightarrow> length out = 512 * ((length data + 511) div 512) \<and> take (length data) out = data"
proof (induction data buf arbitrary: out buf' rule: copy_sectors.induct)
  case (1 data buf)
  show ?case
  proof (cases "data = []")
    case True
    then show ?thesis using 1(2) by (simp add: copy_sectors.simps)
  next
    case False
    let ?rd = "take 512 data"
    let ?b = "if length ?rd < 512 then ?rd @ replicate (512 - length ?rd) 0 else ?rd"
    obtain o' b' where r: "copy_sectors (drop 512 data) ?b = (o', b')" by fastforce
    have o: "out = ?b @ o'" using 1(2) False r by (subst (asm) copy_sectors.simps) (simp only: Let_def if_False split, simp)
    have ih: "length o' = 512 * ((length (drop 512 data) + 511) div 512)" "take (length (drop 512 data)) o' = drop 512 data"
      using "1.IH" [OF False refl refl r] by blast+
    show ?thesis
    proof (cases "length data < 512")
      case True
      then have "length data + 511 = 512 + (length data - 1)" "length data - 1 < 512" using False by auto
      then have "(length data + 511) div 512 = 1" by (simp add: div_add_self1 del: One_nat_def)
      then show ?thesis using True o ih(1) by simp
    next
      case F: False
      then have "length data + 511 = 512 + (length (drop 512 data) + 511)" by simp
      then have "(length data + 511) div 512 = 1 + (length (drop 512 data) + 511) div 512" by (metis div_add_self1 add.commute zero_neq_numeral)
      then show ?thesis using F o ih by simp
    qed
  qed
qed

text \<open>File \<open>i\<close> is \<open>f\<close> in the table and on the disk.\<close>

definition held :: "genuser \<Rightarrow> nat \<Rightarrow> bytes \<times> bytes \<Rightarrow> bool" where
  "held g i f \<longleftrightarrow> (\<exists>s rest. start_sect (g_inode g ! i) = of_nat s \<and> 257 \<le> s \<and> s \<le> 257 + i * 2 ^ 23 \<and>
     e_length (g_inode g ! i) = of_nat (length (snd f)) \<and> e_name (g_inode g ! i) = basename (fst f) @ 0 # rest \<and>
     length (g_disk g) \<ge> 512 * (s - 256) \<and> take (length (snd f)) (drop (512 * (s - 256)) (g_disk g)) = snd f)"

definition gen_inv :: "genuser \<Rightarrow> (bytes \<times> bytes) list \<Rightarrow> bool" where
  "gen_inv g fs \<longleftrightarrow> file_num g = length fs \<and> length fs \<le> MAX_FILE \<and> length (g_inode g) = MAX_FILE \<and>
     (\<forall>d \<in> set (g_inode g). length (e_name d) = 24) \<and> length (g_disk g) = 512 * (curr_sect g - 256) \<and>
     257 \<le> curr_sect g \<and> curr_sect g \<le> 257 + length fs * 2 ^ 23 \<and> (\<forall>i < length fs. held g i (fs ! i))"

lemma held_keeps:
  assumes "held g i f" and "g_inode g' ! i = g_inode g ! i" and "g_disk g' = g_disk g @ out"
  shows "held g' i f"
proof -
  obtain s rest where h: "start_sect (g_inode g ! i) = of_nat s" "257 \<le> s" "s \<le> 257 + i * 2 ^ 23"
    "e_length (g_inode g ! i) = of_nat (length (snd f))" "e_name (g_inode g ! i) = basename (fst f) @ 0 # rest"
    "length (g_disk g) \<ge> 512 * (s - 256)" "take (length (snd f)) (drop (512 * (s - 256)) (g_disk g)) = snd f"
    using assms(1) unfolding held_def by blast
  have "length (snd f) = length (take (length (snd f)) (drop (512 * (s - 256)) (g_disk g)))" using h(7) by simp
  then have "length (snd f) \<le> length (drop (512 * (s - 256)) (g_disk g))" by (simp del: length_drop)
  then have "take (length (snd f)) (drop (512 * (s - 256)) (g_disk g')) = snd f"
    using h(6,7) assms(3) by simp
  moreover have "length (g_disk g') \<ge> 512 * (s - 256)" using h(6) assms(3) by simp
  ultimately show ?thesis unfolding held_def assms(2) using h by (intro exI [of _ s] exI [of _ rest]) blast
qed

lemma gen_add_file_inv:
  assumes inv: "gen_inv g fs" and a: "gen_add_file g (path, data) = Some g'"
    and nul: "0 \<notin> set (basename path)" and len: "length data \<le> 2 ^ 32 - 512"
  shows "gen_inv g' (fs @ [(path, data)])"
proof -
  let ?n = "length fs"
  have i: "file_num g = ?n" "length (g_inode g) = MAX_FILE" "\<forall>d \<in> set (g_inode g). length (e_name d) = 24"
    "length (g_disk g) = 512 * (curr_sect g - 256)" "257 \<le> curr_sect g" "curr_sect g \<le> 257 + ?n * 2 ^ 23"
    "\<And>j. j < ?n \<Longrightarrow> held g j (fs ! j)" using inv by (simp_all add: gen_inv_def)
  have n: "?n < MAX_FILE" "length (basename path) \<le> EASY_MAX_NAME"
    using a i(1) by (auto simp: gen_add_file_def Let_def split: if_splits)
  obtain out buf where c: "copy_sectors data (g_buf g) = (out, buf)" by fastforce
  note co = copy_sectors_ok [OF c]
  have l24: "length (e_name (g_inode g ! ?n)) = 24" using i(2,3) n(1) by simp
  define nm where "nm = patch (e_name (g_inode g ! ?n)) 0 (basename path @ [0])"
  have nm: "strcpy (e_name (g_inode g ! ?n)) (basename path @ [0]) = Some nm"
    using strcpy_ok [OF nul, of "e_name (g_inode g ! ?n)" "[]"] n(2) l24 by (simp add: nm_def)
  define d where "d = (g_inode g ! ?n)\<lparr>start_sect := of_nat (curr_sect g), e_name := nm, e_length := of_nat (length data)\<rparr>"
  have u: "unat (of_nat (length data) + 511 :: u32) = length data + 511" using len
    by (simp add: unat_word_ariths unat_of_nat32)
  have g': "g' = g\<lparr>g_inode := (g_inode g)[?n := d], file_num := Suc ?n,
      curr_sect := curr_sect g + (length data + 511) div 512, g_disk := g_disk g @ out, g_buf := buf\<rparr>"
    using a n i(1) c nm u by (simp add: gen_add_file_def Let_def d_def)
  have nl: "length nm = 24" "\<exists>rest. nm = basename path @ 0 # rest"
    using l24 n(2) by (simp_all add: nm_def patch_def)
  have q: "(length data + 511) div 512 \<le> 2 ^ 23" using len by simp
  have new: "held g' ?n (path, data)"
    unfolding held_def using i(4-6) n(1) i(2) nl(2) co
    by (intro exI [of _ "curr_sect g"]) (auto simp: g' d_def)
  have old: "held g' j (fs ! j)" if "j < ?n" for j
    by (rule held_keeps [OF i(7) [OF that]]) (use that in \<open>simp_all add: g'\<close>)
  have "held g' j ((fs @ [(path, data)]) ! j)" if "j < Suc ?n" for j
    using that new old by (cases "j = ?n") (auto simp: nth_append)
  moreover have "\<forall>e \<in> set (g_inode g'). length (e_name e) = 24"
    using i(3) nl(1) set_update_subset_insert [of "g_inode g" ?n d] by (auto simp: g' d_def)
  moreover have "length (g_disk g') = 512 * (curr_sect g' - 256)"
    using i(4,5) co by (simp add: g')
  ultimately show ?thesis using n i(2,5,6) q unfolding gen_inv_def by (simp add: g')
qed

lemma add_files_inv:
  assumes "gen_inv g dn" and "add_files g fs = Some g'"
    and "\<forall>(path, data) \<in> set fs. 0 \<notin> set (basename path) \<and> length data \<le> 2 ^ 32 - 512"
  shows "gen_inv g' (dn @ fs)"
  using assms
proof (induction fs arbitrary: g dn)
  case Nil
  then show ?case by simp
next
  case (Cons f fs)
  obtain path data where f: "f = (path, data)" by fastforce
  obtain g1 where g1: "gen_add_file g (path, data) = Some g1" "add_files g1 fs = Some g'"
    using Cons.prems(2) f by (auto split: Option.bind_splits)
  have "gen_inv g1 (dn @ [f])"
    using gen_add_file_inv [OF Cons.prems(1) g1(1)] Cons.prems(3) f by auto
  then show ?case using Cons.IH [of g1 "dn @ [f]"] g1(2) Cons.prems(3) f by auto
qed

lemma add_files_total:
  assumes "gen_inv g dn" and "length dn + length fs \<le> MAX_FILE"
    and "\<forall>(path, data) \<in> set fs. 0 \<notin> set (basename path) \<and> length (basename path) \<le> EASY_MAX_NAME \<and> length data \<le> 2 ^ 32 - 512"
  shows "\<exists>g'. add_files g fs = Some g'"
  using assms
proof (induction fs arbitrary: g dn)
  case Nil
  then show ?case by simp
next
  case (Cons f fs)
  obtain path data where f: "f = (path, data)" by fastforce
  have p: "0 \<notin> set (basename path)" "length (basename path) \<le> EASY_MAX_NAME" "length data \<le> 2 ^ 32 - 512"
    using Cons.prems(3) f by auto
  have n: "file_num g = length dn" "length dn < MAX_FILE" "length (e_name (g_inode g ! length dn)) = 24"
    using Cons.prems(1,2) by (simp_all add: gen_inv_def)
  have "strcpy (e_name (g_inode g ! length dn)) (basename path @ [0]) \<noteq> None"
    using strcpy_ok [OF p(1), of "e_name (g_inode g ! length dn)" "[]"] p(2) n(3) by simp
  then obtain g1 where g1: "gen_add_file g f = Some g1"
    using n(1,2) p(2) f by (cases "copy_sectors data (g_buf g)") (auto simp: gen_add_file_def Let_def)
  have "gen_inv g1 (dn @ [f])" using gen_add_file_inv [OF Cons.prems(1), of path data g1] g1 p f by simp
  then show ?case using Cons.IH [of g1 "dn @ [f]"] Cons.prems(2,3) g1 f by simp
qed

lemma gen_start_inv: "gen_inv (gen_start\<lparr>g_disk := g_buf gen_start\<rparr>) []"
  by (simp add: gen_inv_def gen_start_def)

subsection \<open>The table\<close>

lemma edinode_roundtrip: "length (e_name d) = 24 \<Longrightarrow> edinode_of (edinode_bytes d @ rest) = d"
  by (simp add: edinode_of_def edinode_bytes_def)

lemma table_nth:
  assumes "\<forall>d \<in> set ds. length (e_name d) = 24" and "i < length ds"
  shows "edinode_of (drop (32 * i) (concat (map edinode_bytes ds))) = ds ! i"
  using assms
proof (induction ds arbitrary: i)
  case Nil
  then show ?case by simp
next
  case (Cons d ds)
  have "length (edinode_bytes d) = 32" using Cons.prems(1) by (simp add: edinode_bytes_def)
  then show ?case using Cons edinode_roundtrip [of d] by (cases i) auto
qed

lemma length_table: "\<forall>d \<in> set ds. length (e_name d) = 24 \<Longrightarrow> length (concat (map edinode_bytes ds)) = 32 * length ds"
  by (induction ds) (auto simp: edinode_bytes_def)

text \<open>The disk with the image from sector 256 on, where the Makefile puts it.\<close>

definition image_sector :: "bytes \<Rightarrow> nat \<Rightarrow> bytes" where
  "image_sector img i = take 512 (drop (512 * (i - 256)) img)"

lemma easy_init_nth:
  assumes "length ns = MAX_INODE"
  shows "length (easy_init_fs sect ns) = MAX_INODE" and "i < MAX_FILE \<Longrightarrow> e_valid (easy_init_fs sect ns ! i)"
    and "i < MAX_FILE \<Longrightarrow> e_dinode (easy_init_fs sect ns ! i) = edinode_of (drop (32 * i) (sect 256))"
proof -
  let ?f = "\<lambda>i m. m[i := (m ! i)\<lparr>e_valid := True, e_type := E_FILE, e_dinode := edinode_of (drop (32 * i) (sect 256))\<rparr>]"
  have "length (fold ?f [0..<n] ns) = length ns \<and> (\<forall>i < n. e_valid (fold ?f [0..<n] ns ! i) \<and>
      e_dinode (fold ?f [0..<n] ns ! i) = edinode_of (drop (32 * i) (sect 256)))" if "n \<le> length ns" for n
    using that by (induction n) (auto simp: less_Suc_eq nth_list_update)
  from this [of MAX_FILE] assms
  show "length (easy_init_fs sect ns) = MAX_INODE" and "i < MAX_FILE \<Longrightarrow> e_valid (easy_init_fs sect ns ! i)"
    and "i < MAX_FILE \<Longrightarrow> e_dinode (easy_init_fs sect ns ! i) = edinode_of (drop (32 * i) (sect 256))"
    by (simp_all add: easy_init_fs_def)
qed

lemma iopen_scan_finds:
  assumes "i < length ns" and "\<And>j. j \<le> i \<Longrightarrow> e_valid (ns ! j)"
    and "\<And>j. j \<le> i \<Longrightarrow> cstr (e_name (e_dinode (ns ! j))) (nm j)" and "cstr path (nm i)"
    and "\<And>j. j < i \<Longrightarrow> nm j \<noteq> nm i"
  shows "iopen_scan path ns k = Some (Some (k + i))"
  using assms
proof (induction ns arbitrary: i k nm)
  case Nil
  then show ?case by simp
next
  case (Cons n ns)
  obtain r where r: "strcmp path (e_name (e_dinode n)) = Some r" "r = 0 \<longleftrightarrow> nm i = nm 0"
    using strcmp_ok [OF Cons.prems(4) Cons.prems(3) [of 0]] by auto
  have v: "e_valid n" using Cons.prems(2) [of 0] by simp
  show ?case
  proof (cases i)
    case 0
    then show ?thesis using r v by simp
  next
    case (Suc i')
    then have "r \<noteq> 0" using r(2) Cons.prems(5) [of 0] by auto
    moreover have "iopen_scan path ns (k + 1) = Some (Some (k + 1 + i'))"
      using Cons.prems Suc by (intro Cons.IH [of i' "\<lambda>j. nm (Suc j)"]) (force intro: Cons.prems)+
    ultimately show ?thesis using r(1) v Suc by simp
  qed
qed

subsection \<open>Reading\<close>

lemma easy_iread_loop_ok:
  assumes data: "\<And>b. b * 512 < length data \<Longrightarrow> take (min 512 (length data - b * 512)) (sect (s + b)) = take 512 (drop (b * 512) data)"
    and len: "length data < 2 ^ 32" and s: "s + 2 ^ 23 < 2 ^ 32"
  shows "(cur = - 1 \<or> dbuf = sect (s + unat cur)) \<Longrightarrow>
    easy_iread_loop sect (of_nat s) (of_nat (length data)) n off cur dbuf = take n (drop (unat off) data)"
proof (induction n arbitrary: off cur dbuf)
  case 0
  show ?case by simp
next
  case (Suc n)
  have tl: "unat (of_nat (length data) :: u32) = length data" using len by (intro unat_of_nat32) simp
  show ?case
  proof (cases "off < of_nat (length data)")
    case False
    then show ?thesis using tl by (simp add: word_less_nat_alt)
  next
    case True
    then have lt: "unat off < length data" using tl by (simp add: word_less_nat_alt)
    define b where "b = unat off div 512"
    have ub: "unat (off div 512) = b" by (simp add: b_def unat_div)
    have "unat off < 2 ^ LENGTH(32)" by (rule unsigned_less)
    then have b23: "b < 2 ^ 23" unfolding b_def by (simp add: less_mult_imp_div_less)
    have ne: "off div 512 \<noteq> - 1"
    proof
      assume "off div 512 = - 1"
      then have "b = 2 ^ 32 - 1" using ub by (simp add: unsigned_minus_1_eq_mask mask_eq_exp_minus_1)
      then show False using b23 by simp
    qed
    have us: "unat (of_nat s + off div 512 :: u32) = s + b"
      using s b23 ub by (simp add: unat_word_ariths unat_of_nat32)
    let ?d = "if cur \<noteq> off div 512 then sect (s + b) else dbuf"
    have d: "?d = sect (s + b)" using Suc.prems ne ub by auto
    have o1: "unat (off + 1) = unat off + 1" using lt len by (simp add: unat_word_ariths)
    have mb: "unat (off mod 512) = unat off mod 512" by (simp add: unat_mod)
    have "b * 512 + unat off mod 512 = unat off" by (simp add: b_def)
    then have bl: "b * 512 < length data" "unat off mod 512 < min 512 (length data - b * 512)" using lt by (simp_all add: less_diff_conv2)
    have "sect (s + b) ! (unat off mod 512) = take (min 512 (length data - b * 512)) (sect (s + b)) ! (unat off mod 512)"
      using bl(2) by simp
    also have "\<dots> = data ! unat off" unfolding data [OF bl(1)] using bl \<open>b * 512 + _ = _\<close> by simp
    finally have byte: "?d ! (unat off mod 512) = data ! unat off" using d by simp
    have "easy_iread_loop sect (of_nat s) (of_nat (length data)) n (off + 1) (off div 512) (sect (s + b)) =
        take n (drop (unat (off + 1)) data)" by (rule Suc.IH) (simp add: ub)
    then have "easy_iread_loop sect (of_nat s) (of_nat (length data)) (Suc n) off cur dbuf =
        data ! unat off # take n (drop (Suc (unat off)) data)"
      using True byte d us mb o1 by (cases "cur = off div 512") simp_all
    then show ?thesis using lt by (simp add: Cons_nth_drop_Suc [symmetric])
  qed
qed

subsection \<open>Properties\<close>

lemma gen_main_inv:
  assumes "fs \<noteq> []" and "length fs \<le> MAX_FILE"
    and "\<forall>(path, data) \<in> set fs. 0 \<notin> set (basename path) \<and> length (basename path) \<le> EASY_MAX_NAME \<and> length data \<le> 2 ^ 32 - 512"
  obtains g where "gen_inv g fs" and "gen_main fs = Some (patch (g_disk g) 0 (concat (map edinode_bytes (g_inode g))))"
proof -
  let ?g = "gen_start\<lparr>g_disk := g_buf gen_start\<rparr>"
  obtain g where g: "add_files ?g fs = Some g" using add_files_total [OF gen_start_inv, of fs] assms(2,3) by auto
  moreover have "gen_inv g fs" using add_files_inv [OF gen_start_inv g] assms(3) by fastforce
  ultimately show ?thesis using that [of g] assms(1) by (simp add: gen_main_def write_inode_def)
qed

text \<open>
  C9: the kernel of the stages with \<open>EASY_FS\<close> (the first half of \<open>kernel/src/fs.c\<close>) reads what \<open>utils/genuser.c\<close> wrote. On a disk with the image
  of \<open>genuser\<close> at sector 256 (it builds one for up to 16 files with names up to 23 characters), after \<open>init_fs\<close>, \<open>iopen\<close> with the name of a file finds its inode, and \<open>iread\<close> from any
  offset gives the bytes of the file from there on, as many as were asked for and the file has.
\<close>

theorem genuser_files_read_back:
  assumes "fs \<noteq> []" and "length fs \<le> MAX_FILE"
    and "\<forall>(path, data) \<in> set fs. 0 \<notin> set (basename path) \<and> length (basename path) \<le> EASY_MAX_NAME \<and> length data \<le> 2 ^ 32 - 512"
    and "distinct (map (basename \<circ> fst) fs)" and "length ns = MAX_INODE" and "i < length fs"
  shows "\<exists>img. gen_main fs = Some img \<and>
    easy_iopen (easy_init_fs (image_sector img) ns) (basename (fst (fs ! i)) @ [0]) = Some (Some i) \<and>
    easy_iread (image_sector img) junk (easy_init_fs (image_sector img) ns) i off len =
      take (unat len) (drop (unat off) (snd (fs ! i)))"
proof -
  obtain g where inv: "gen_inv g fs" and m: "gen_main fs = Some (patch (g_disk g) 0 (concat (map edinode_bytes (g_inode g))))"
    by (rule gen_main_inv [OF assms(1-3)])
  define img where "img = patch (g_disk g) 0 (concat (map edinode_bytes (g_inode g)))"
  let ?ns = "easy_init_fs (image_sector img) ns" and ?t = "concat (map edinode_bytes (g_inode g))"
  have g: "length fs \<le> MAX_FILE" "length (g_inode g) = MAX_FILE" "\<forall>d \<in> set (g_inode g). length (e_name d) = 24"
    "\<And>j. j < length fs \<Longrightarrow> held g j (fs ! j)" using inv by (simp_all add: gen_inv_def)
  have lt: "length ?t = 512" using length_table [OF g(3)] g(2) by simp
  have t: "image_sector img 256 = ?t" using lt by (simp add: image_sector_def img_def patch_def)
  have d: "e_dinode (?ns ! j) = g_inode g ! j" if "j < length fs" for j
    using easy_init_nth(3) [OF assms(5), of j "image_sector img"] that g(1,2) t table_nth [OF g(3), of j] by simp
  have nm: "cstr (e_name (e_dinode (?ns ! j))) (basename (fst (fs ! j)))" if "j < length fs" for j
    using g(4) [OF that] assms(3) nth_mem [OF that] d [OF that] unfolding held_def cstr_def by (cases "fs ! j") fastforce
  have "iopen_scan (basename (fst (fs ! i)) @ [0]) ?ns 0 = Some (Some (0 + i))"
  proof (rule iopen_scan_finds [where nm = "\<lambda>j. basename (fst (fs ! j))"])
    show "i < length ?ns" using easy_init_nth(1) [OF assms(5)] assms(6) g(1) by simp
    show "e_valid (?ns ! j)" if "j \<le> i" for j using easy_init_nth(2) [OF assms(5)] that assms(6) g(1) by simp
    show "cstr (e_name (e_dinode (?ns ! j))) (basename (fst (fs ! j)))" if "j \<le> i" for j using nm that assms(6) by simp
    show "cstr (basename (fst (fs ! i)) @ [0]) (basename (fst (fs ! i)))"
      using assms(3) nth_mem [OF assms(6)] by (cases "fs ! i") (fastforce simp: cstr_def)
    show "basename (fst (fs ! j)) \<noteq> basename (fst (fs ! i))" if "j < i" for j
      using assms(6,4) that nth_eq_iff_index_eq [of "map (basename \<circ> fst) fs" j i] by simp
  qed
  then have o: "easy_iopen ?ns (basename (fst (fs ! i)) @ [0]) = Some (Some i)"
    using easy_init_nth(1) [OF assms(5)] by (simp add: easy_iopen_def)
  let ?data = "snd (fs ! i)"
  obtain s where s: "start_sect (g_inode g ! i) = of_nat s" "257 \<le> s" "s \<le> 257 + i * 2 ^ 23"
    "e_length (g_inode g ! i) = of_nat (length ?data)" "take (length ?data) (drop (512 * (s - 256)) (g_disk g)) = ?data"
    using g(4) [OF assms(6)] unfolding held_def by blast
  have dl: "length ?data < 2 ^ 32" using assms(3) nth_mem [OF assms(6)] by (cases "fs ! i") fastforce
  have sect: "take (min 512 (length ?data - b * 512)) (image_sector img (s + b)) = take 512 (drop (b * 512) ?data)"
    if "b * 512 < length ?data" for b
  proof -
    have "drop (512 * (s + b - 256)) img = drop (512 * (s + b - 256)) (g_disk g)"
      using lt s(2) by (simp add: img_def patch_def drop_append)
    also have "\<dots> = drop (b * 512) (drop (512 * (s - 256)) (g_disk g))" using s(2) by (simp add: algebra_simps)
    finally have "take (min 512 (length ?data - b * 512)) (image_sector img (s + b)) =
        take 512 (take (length ?data - b * 512) (drop (b * 512) (drop (512 * (s - 256)) (g_disk g))))"
      by (simp add: image_sector_def min.commute)
    also have "\<dots> = take 512 (drop (b * 512) (take (length ?data) (drop (512 * (s - 256)) (g_disk g))))"
      by (simp only: drop_take)
    finally show ?thesis by (simp only: s(5))
  qed
  have "s + 2 ^ 23 < 2 ^ 32" using s(3) assms(6) g(1) by simp
  then have "easy_iread (image_sector img) junk ?ns i off len = take (unat len) (drop (unat off) ?data)"
    using easy_iread_loop_ok [OF sect dl] d [OF assms(6)] s(1,4) by (simp add: easy_iread_def)
  then show ?thesis using o m by (auto simp: img_def)
qed

text \<open>Two files, the second over a sector long; it is read from its byte 511 on.\<close>

definition demo_host :: "(bytes \<times> bytes) list" where
  "demo_host = [([98, 47, 97], [1, 2, 3]), ([99], replicate 511 7 @ [8, 9])]"

lemma genuser_files_read_back_witness:
  "\<exists>img. gen_main demo_host = Some img \<and> easy_iread (image_sector img) [] (easy_init_fs (image_sector img)
     (replicate MAX_INODE \<lparr>e_valid = False, e_type = 0, e_dev = 0, e_dinode = edinode_of []\<rparr>)) 1 511 100 = [8, 9]"
proof -
  have h: "demo_host \<noteq> []" "length demo_host \<le> MAX_FILE" "distinct (map (basename \<circ> fst) demo_host)" "1 < length demo_host"
    "\<forall>(path, data) \<in> set demo_host. 0 \<notin> set (basename path) \<and> length (basename path) \<le> EASY_MAX_NAME \<and> length data \<le> 2 ^ 32 - 512"
    by (simp_all add: demo_host_def basename_def)
  have "take (unat (100 :: u32)) (drop (unat (511 :: u32)) (snd (demo_host ! 1))) = [8, 9]" by (simp add: demo_host_def)
  with genuser_files_read_back [OF h(1,2,5,3) _ h(4), of
      "replicate MAX_INODE \<lparr>e_valid = False, e_type = 0, e_dev = 0, e_dinode = edinode_of []\<rparr>" "[]" 511 100]
  show ?thesis by auto
qed

end
