(* ===== verification/Grep.thy ===== *)
theory Grep
  imports CString
begin

text \<open>
  \<open>grep\<close>, \<open>user/src/phase6/grep.c\<close>: the matcher for \<open>^ . * $\<close> and the loop over the lines. The
  matcher is proved against the language of a pattern, the loop against the lines of the input.
\<close>

subsection \<open>The matcher\<close>

text \<open>\<open>re[0]\<close>, \<open>re[1]\<close> and \<open>*text\<close> are read in the order of the code.\<close>

function matchhere :: "bytes \<Rightarrow> bytes \<Rightarrow> bool option"
  and matchstar :: "u8 \<Rightarrow> bytes \<Rightarrow> bytes \<Rightarrow> bool option" where
  "matchhere re text =
     (case re of
        [] \<Rightarrow> None
      | r # re1 \<Rightarrow>
          if r = 0 then Some True
          else (case re1 of
              [] \<Rightarrow> None
            | r1 # re2 \<Rightarrow>
                if r1 = 42 then matchstar r re2 text
                else (case text of
                    [] \<Rightarrow> None
                  | t # text1 \<Rightarrow>
                      if r = 36 \<and> r1 = 0 then Some (t = 0)
                      else if t \<noteq> 0 \<and> (r = 46 \<or> r = t) then matchhere re1 text1
                      else Some False)))"
| "matchstar c re text =
     (case matchhere re text of
        None \<Rightarrow> None
      | Some r \<Rightarrow>
          if r then Some True
          else (case text of
              [] \<Rightarrow> None
            | t # text1 \<Rightarrow> if t \<noteq> 0 \<and> (t = c \<or> c = 46) then matchstar c re text1 else Some False))"
  by pat_completeness auto
termination
  by (relation "measure (case_sum (\<lambda>(re, text). 2 * (length re + length text))
      (\<lambda>(c, re, text). 2 * (length re + length text) + 1))") auto

declare matchhere.simps [simp del] matchstar.simps [simp del]

text \<open>The \<open>do\<close> loop of \<open>match\<close>.\<close>

fun match_loop :: "bytes \<Rightarrow> bytes \<Rightarrow> bool option" where
  "match_loop re [] = (case matchhere re [] of Some True \<Rightarrow> Some True | _ \<Rightarrow> None)"
| "match_loop re (t # text) =
     (case matchhere re (t # text) of
        None \<Rightarrow> None
      | Some r \<Rightarrow> if r then Some True else if t \<noteq> 0 then match_loop re text else Some False)"

definition match :: "bytes \<Rightarrow> bytes \<Rightarrow> bool option" where
  "match re text =
     (case re of
        [] \<Rightarrow> None
      | r # re1 \<Rightarrow> if r = 94 then matchhere re1 text else match_loop re text)"

subsection \<open>The loop over the input\<close>

text \<open>
  A descriptor with the bytes \<open>data\<close> left: a \<open>read\<close> gives at most what it is asked for and, as long
  as \<open>ks\<close> lasts, at most the next \<open>k + 1\<close> of it, so the pieces can be of any sizes.
\<close>

type_synonym fd = "nat list \<times> bytes"

definition read_fd :: "fd \<Rightarrow> nat \<Rightarrow> bytes \<times> fd" where
  "read_fd fd n = (case fd of
     ([], data) \<Rightarrow> (take n data, [], drop n data)
   | (k # ks, data) \<Rightarrow> (take (min n (k + 1)) data, ks, drop (min n (k + 1)) data))"

abbreviation (input) BUF_SIZE :: nat where "BUF_SIZE \<equiv> 1024"

text \<open>The inner loop: the output, the buffer and the offset \<open>p\<close> of the unfinished line.\<close>

function grep_lines :: "bytes \<Rightarrow> bytes \<Rightarrow> nat \<Rightarrow> (bytes \<times> bytes \<times> nat) option" where
  "grep_lines re buf p =
     (case strchr (drop p buf) 10 of
        None \<Rightarrow> None
      | Some None \<Rightarrow> Some ([], buf, p)
      | Some (Some k) \<Rightarrow>
          if p + k < length buf then
            (let buf = buf[p + k := 0] in
             case match re (drop p buf) of
               None \<Rightarrow> None
             | Some hit \<Rightarrow>
                 let buf = (if hit then buf[p + k := 10] else buf);
                     out = (if hit then take (k + 1) (drop p buf) else [])
                 in map_option (\<lambda>(o2, buf, p). (out @ o2, buf, p)) (grep_lines re buf (p + k + 1)))
          else None)"
  by pat_completeness auto
termination by (relation "measure (\<lambda>(re, buf, p). length buf - p)") auto

declare grep_lines.simps [simp del]

text \<open>\<open>buf\<close> is the static array, \<open>m\<close> the length of what it keeps of the unfinished line.\<close>

function grep_loop :: "bytes \<Rightarrow> fd \<Rightarrow> bytes \<Rightarrow> nat \<Rightarrow> bytes option" where
  "grep_loop re fd buf m =
     (let (c, fd') = read_fd fd (BUF_SIZE - m - 1) in
      if c = [] then Some []
      else (case grep_lines re ((patch buf m c)[m + length c := 0]) 0 of
          None \<Rightarrow> None
        | Some (out, buf, p) \<Rightarrow>
            (case memmove buf 0 p (m + length c - p) of
               None \<Rightarrow> None
             | Some buf \<Rightarrow> map_option ((@) out) (grep_loop re fd' buf (m + length c - p)))))"
  by pat_completeness auto
termination
  by (relation "measure (\<lambda>(re, fd, _). length (snd fd))")
    (auto simp: read_fd_def simp flip: length_greater_0_conv split: prod.splits list.splits)

declare grep_loop.simps [simp del]

definition grep :: "bytes \<Rightarrow> fd \<Rightarrow> bytes option" where
  "grep re fd = grep_loop re fd (replicate BUF_SIZE 0) 0"

subsection \<open>The language of a pattern\<close>

datatype item = One u8 | Many u8 | End

fun items :: "bytes \<Rightarrow> item list" where
  "items [] = []"
| "items [c] = [if c = 36 then End else One c]"
| "items (c # d # p) = (if d = 42 then Many c # items p else One c # items (d # p))"

definition char_ok :: "u8 \<Rightarrow> u8 \<Rightarrow> bool" where
  "char_ok c t \<longleftrightarrow> c = 46 \<or> c = t"

text \<open>\<open>accepts its t\<close>: some prefix of \<open>t\<close> is in the language of the items, all of \<open>t\<close> with \<open>$\<close>.\<close>

fun accepts :: "item list \<Rightarrow> bytes \<Rightarrow> bool" where
  "accepts [] t \<longleftrightarrow> True"
| "accepts (End # ps) t \<longleftrightarrow> t = []"
| "accepts (One c # ps) t \<longleftrightarrow> (\<exists>x u. t = x # u \<and> char_ok c x \<and> accepts ps u)"
| "accepts (Many c # ps) t \<longleftrightarrow> (\<exists>xs u. t = xs @ u \<and> (\<forall>x \<in> set xs. char_ok c x) \<and> accepts ps u)"

definition regex_matches :: "bytes \<Rightarrow> bytes \<Rightarrow> bool" where
  "regex_matches p t \<longleftrightarrow>
     (if p \<noteq> [] \<and> hd p = 94 then accepts (items (tl p)) t
      else (\<exists>u v. t = u @ v \<and> accepts (items p) v))"

lemma accepts_Many:
  "accepts (Many c # ps) t \<longleftrightarrow>
   accepts ps t \<or> (\<exists>x u. t = x # u \<and> char_ok c x \<and> accepts (Many c # ps) u)"
  (is "?l \<longleftrightarrow> ?r")
proof
  assume ?l
  then obtain xs u where x: "t = xs @ u" "\<forall>x \<in> set xs. char_ok c x" "accepts ps u" by auto
  then show ?r by (cases xs) auto
next
  assume ?r
  then show ?l
  proof
    assume "accepts ps t"
    then show ?l unfolding accepts.simps by (intro exI [of _ "[]"] exI [of _ t]) simp
  next
    assume "\<exists>x u. t = x # u \<and> char_ok c x \<and> accepts (Many c # ps) u"
    then obtain x xs u where "t = x # xs @ u" "char_ok c x" "\<forall>x \<in> set xs. char_ok c x" "accepts ps u" by auto
    then show ?l unfolding accepts.simps by (intro exI [of _ "x # xs"] exI [of _ u]) simp
  qed
qed

declare accepts.simps(4) [simp del]

lemma matcher_ok:
  "cstr re p \<Longrightarrow> cstr s t \<Longrightarrow> matchhere re s = Some (accepts (items p) t)"
  "cstr re p \<Longrightarrow> cstr s t \<Longrightarrow> matchstar c re s = Some (accepts (Many c # items p) t)"
proof (induction re s and c re s arbitrary: p t and p t rule: matchhere_matchstar.induct)
  case (1 re s)
  obtain x s1 where s: "s = x # s1" "x = 0 \<longleftrightarrow> t = []" "t \<noteq> [] \<Longrightarrow> x = hd t \<and> cstr s1 (tl t)"
    using 1(4) by (cases t) (auto simp: cstr_def)
  show ?case
  proof (cases p)
    case Nil
    then show ?thesis using 1(3) by (auto simp: cstr_def matchhere.simps)
  next
    case (Cons r p1)
    then obtain re1 where re: "re = r # re1" "cstr re1 p1" "r \<noteq> 0" using 1(3) by (auto simp: cstr_def)
    obtain r1 re2 where re1: "re1 = r1 # re2" "r1 = 0 \<longleftrightarrow> p1 = []" "p1 \<noteq> [] \<Longrightarrow> r1 = hd p1 \<and> cstr re2 (tl p1)"
      using re(2) by (cases p1) (auto simp: cstr_def)
    show ?thesis
    proof (cases "r1 = 42")
      case True
      then have "p1 \<noteq> []" "r1 = hd p1" using re1 by auto
      then have "items p = Many r # items (tl p1)" using True Cons by (cases p1) simp_all
      then show ?thesis using 1(1) [OF re(1) re(3) re1(1) True] True re re1 1(4) \<open>p1 \<noteq> []\<close>
        by (simp add: matchhere.simps)
    next
      case False
      then have it: "items p = (if p1 = [] \<and> r = 36 then [End] else One r # items p1)"
        using re1(3) Cons by (cases p1) auto
      have m: "matchhere re s = (if r = 36 \<and> r1 = 0 then Some (x = 0)
          else if x \<noteq> 0 \<and> (r = 46 \<or> r = x) then matchhere re1 s1 else Some False)"
        using re re1(1) s(1) False by (subst matchhere.simps) simp
      note IH = 1(2) [OF re(1) re(3) re1(1) False s(1) _ _ re(2)]
      show ?thesis unfolding it m using IH re1(2) s(2,3) by (cases t) (auto simp: char_ok_def)
    qed
  qed
next
  case (2 c re s)
  obtain x s1 where s: "s = x # s1" "x = 0 \<longleftrightarrow> t = []" "t \<noteq> [] \<Longrightarrow> x = hd t \<and> cstr s1 (tl t)"
    using 2(4) by (cases t) (auto simp: cstr_def)
  have h: "matchhere re s = Some (accepts (items p) t)" using 2(1,3,4) by blast
  have m: "matchstar c re s = (if accepts (items p) t then Some True
      else if x \<noteq> 0 \<and> (x = c \<or> c = 46) then matchstar c re s1 else Some False)"
    using h s(1) by (subst matchstar.simps) simp
  note IH = 2(2) [OF h _ s(1) _ 2(3)]
  show ?case unfolding m accepts_Many [of c "items p" t] using IH s(2,3) by (cases t) (auto simp: char_ok_def)
qed

lemma match_loop_ok:
  "cstr re p \<Longrightarrow> cstr s t \<Longrightarrow> match_loop re s = Some (\<exists>u v. t = u @ v \<and> accepts (items p) v)"
proof (induction s arbitrary: t)
  case (Cons x s)
  have h: "matchhere re (x # s) = Some (accepts (items p) t)" by (rule matcher_ok) fact+
  show ?case
  proof (cases t)
    case Nil
    then show ?thesis using h Cons.prems by (simp add: cstr_Nil)
  next
    case (Cons y t')
    then have "x = y" "x \<noteq> 0" "cstr s t'" using Cons.prems by (simp_all add: cstr_Cons)
    moreover have "(\<exists>u v. t = u @ v \<and> accepts (items p) v) \<longleftrightarrow>
        accepts (items p) t \<or> (\<exists>u v. t' = u @ v \<and> accepts (items p) v)"
      unfolding Cons by (auto simp: Cons_eq_append_conv)
    ultimately show ?thesis using h Cons.IH Cons.prems(1) by auto
  qed
qed (simp add: cstr_def)

lemma match_ok:
  assumes "cstr re p" and "cstr s t"
  shows "match re s = Some (regex_matches p t)"
proof (cases p)
  case Nil
  then obtain re1 where "re = 0 # re1" using assms(1) by (auto simp: cstr_def)
  then show ?thesis using match_loop_ok [OF assms] Nil by (simp add: match_def regex_matches_def)
next
  case (Cons r p1)
  then obtain re1 where "re = r # re1" "cstr re1 p1" using assms(1) by (auto simp: cstr_def)
  then show ?thesis using match_loop_ok [OF assms] matcher_ok(1) [of re1 p1 s t] assms(2) Cons
    by (simp add: match_def regex_matches_def)
qed

subsection \<open>The lines of the input\<close>

text \<open>The lines that end in a newline, and what follows the last newline, with \<open>cur\<close> in front.\<close>

fun lines_of :: "bytes \<Rightarrow> bytes \<Rightarrow> bytes list" where
  "lines_of cur [] = []"
| "lines_of cur (c # s) = (if c = 10 then cur # lines_of [] s else lines_of (cur @ [c]) s)"

fun tail_of :: "bytes \<Rightarrow> bytes \<Rightarrow> bytes" where
  "tail_of cur [] = cur"
| "tail_of cur (c # s) = (if c = 10 then tail_of [] s else tail_of (cur @ [c]) s)"

definition hits :: "bytes \<Rightarrow> bytes list \<Rightarrow> bytes" where
  "hits p ls = concat (map (\<lambda>l. l @ [10]) (filter (regex_matches p) ls))"

lemma hits_append [simp]: "hits p (xs @ ys) = hits p xs @ hits p ys"
  by (simp add: hits_def)

lemma lines_append [simp]: "lines_of cur (x @ y) = lines_of cur x @ lines_of (tail_of cur x) y"
  by (induction cur x rule: lines_of.induct) simp_all

lemma tail_append [simp]: "tail_of cur (x @ y) = tail_of (tail_of cur x) y"
  by (induction cur x rule: lines_of.induct) simp_all

lemma no_newline: "10 \<notin> set x \<Longrightarrow> lines_of cur x = [] \<and> tail_of cur x = cur @ x"
  by (induction cur x rule: lines_of.induct) auto

lemma tail_set: "10 \<notin> set cur \<Longrightarrow> 10 \<notin> set (tail_of cur x) \<and> set (tail_of cur x) \<subseteq> set cur \<union> set x"
  by (induction cur x rule: lines_of.induct) auto

lemma length_tail: "length (tail_of cur x) \<le> length cur + length x"
  by (induction cur x rule: lines_of.induct) (auto intro: le_trans)

definition short_lines :: "bytes \<Rightarrow> bytes \<Rightarrow> bool" where
  "short_lines cur s \<longleftrightarrow> (\<forall>l \<in> set (tail_of cur s # lines_of cur s). length l < BUF_SIZE - 1)"

lemma short_lines_cur: "short_lines cur s \<Longrightarrow> length cur < BUF_SIZE - 1"
  by (induction cur s rule: lines_of.induct) (auto simp: short_lines_def split: if_splits)

lemma short_lines_append: "short_lines cur (x @ y) \<Longrightarrow> short_lines (tail_of cur x) y"
  by (simp add: short_lines_def)

lemma grep_lines_ok:
  assumes "cstr re pat" and "0 \<notin> set x" and "drop p buf = x @ 0 # rest"
  shows "\<exists>buf'. grep_lines re buf p =
      Some (hits pat (lines_of [] x), buf', p + (length x - length (tail_of [] x))) \<and>
    length buf' = length buf \<and> drop (p + (length x - length (tail_of [] x))) buf' = tail_of [] x @ 0 # rest"
  using assms(2,3)
proof (induction "length x" arbitrary: x p buf rule: less_induct)
  case less
  show ?case
  proof (cases "10 \<in> set x")
    case False
    then have "strchr (drop p buf) 10 = Some None" using less.prems by (simp add: strchr_none)
    then show ?thesis using False less.prems
      by (subst grep_lines.simps) (simp add: no_newline hits_def)
  next
    case True
    then obtain l y where x: "x = l @ 10 # y" "10 \<notin> set l" by (meson split_list_first)
    then have z: "0 \<notin> set l" "0 \<notin> set y" using less.prems(1) by auto
    let ?k = "length l" and ?hit = "regex_matches pat l"
    have d: "drop p buf = l @ 10 # y @ 0 # rest" using less.prems(2) x(1) by simp
    then obtain pre where b: "buf = pre @ l @ 10 # y @ 0 # rest" "length pre = p"
      by (metis append_take_drop_id drop_eq_Nil2 append_is_Nil_conv length_take list.distinct(1) min.absorb4 not_le)
    have m: "match re (l @ 0 # y @ 0 # rest) = Some ?hit"
      using assms(1) z(1) by (intro match_ok) (auto simp: cstr_def)
    let ?buf = "pre @ l @ (if ?hit then 10 else 0) # y @ 0 # rest"
    have "drop (p + ?k + 1) ?buf = y @ 0 # rest" by (simp flip: b(2))
    then obtain buf' where IH: "grep_lines re ?buf (p + ?k + 1) =
        Some (hits pat (lines_of [] y), buf', p + ?k + 1 + (length y - length (tail_of [] y)))"
      "length buf' = length ?buf"
      "drop (p + ?k + 1 + (length y - length (tail_of [] y))) buf' = tail_of [] y @ 0 # rest"
      using less.hyps [of y "p + ?k + 1" ?buf] z(2) x(1) by auto
    have "grep_lines re buf p = map_option (\<lambda>(o2, buf, p). ((if ?hit then l @ [10] else []) @ o2, buf, p))
        (grep_lines re ?buf (p + ?k + 1))"
      using strchr_found [OF x(2) z(1)] m
      by (subst grep_lines.simps) (simp add: b Let_def list_update_append flip: b(2))
    moreover have xy: "lines_of [] x = l # lines_of [] y" "tail_of [] x = tail_of [] y"
      using no_newline [OF x(2)] by (simp_all add: x(1))
    moreover have "length (tail_of [] y) \<le> length y" using length_tail [of "[]" y] by simp
    ultimately have res: "grep_lines re buf p =
        Some (hits pat (lines_of [] x), buf', p + ?k + 1 + (length y - length (tail_of [] y)))"
      and pos: "p + (length x - length (tail_of [] x)) = p + ?k + 1 + (length y - length (tail_of [] y))"
      using IH(1) x(1) by (simp_all add: hits_def)
    show ?thesis
    proof (intro exI conjI)
      show "length buf' = length buf" using IH(2) by (simp add: b(1))
    qed (use res IH(3) in \<open>simp_all only: pos [unfolded xy(2)] xy(2)\<close>)
  qed
qed

lemma memmove_tail:
  assumes "drop p buf = t @ rest" and "p \<le> length buf" and "n = length t"
  shows "\<exists>buf'. memmove buf 0 p n = Some buf' \<and> length buf' = length buf \<and> take n buf' = t"
proof -
  have l: "p + length t \<le> length buf" using assms by (metis add_le_mono1 append_take_drop_id le_add1 length_append length_drop le_diff_conv2 le_add_diff_inverse nat_add_left_cancel_le)
  show ?thesis using l assms by (simp add: memmove_ok patch_def)
qed

lemma grep_loop_ok:
  assumes "cstr re pat"
  shows "0 \<notin> set (r @ data) \<Longrightarrow> 10 \<notin> set r \<Longrightarrow> short_lines r data \<Longrightarrow> length buf = BUF_SIZE \<Longrightarrow>
    take m buf = r \<Longrightarrow> m = length r \<Longrightarrow> grep_loop re (ks, data) buf m = Some (hits pat (lines_of r data))"
proof (induction "length data" arbitrary: data ks r buf m rule: less_induct)
  case less
  have m: "m < BUF_SIZE - 1" using short_lines_cur [OF less.prems(3)] less.prems(6) by simp
  obtain c ks' data' where rd: "read_fd (ks, data) (BUF_SIZE - m - 1) = (c, ks', data')"
    by (metis prod_cases3)
  have c: "data = c @ data'" "c = [] \<longleftrightarrow> data = []" "length c \<le> BUF_SIZE - m - 1"
    using rd m by (auto simp: read_fd_def split: list.splits)
  show ?case
  proof (cases "c = []")
    case True
    then show ?thesis using rd c(2) by (subst grep_loop.simps) (simp add: hits_def)
  next
    case False
    let ?b = "(patch buf m c)[m + length c := 0]" and ?t = "tail_of r c"
    have "drop (m + length c) buf = buf ! (m + length c) # drop (m + length c + 1) buf"
      using less.prems(4) c(3) m by (simp add: Cons_nth_drop_Suc)
    then have b: "drop 0 ?b = (r @ c) @ 0 # drop (m + length c + 1) buf"
      using less.prems(5,6) by (simp add: patch_def list_update_append)
    have z: "0 \<notin> set (r @ c)" "0 \<notin> set data'" using less.prems(1) c(1) by auto
    have t: "lines_of [] (r @ c) = lines_of r c" "tail_of [] (r @ c) = ?t"
      using no_newline [OF less.prems(2), of "[]"] by simp_all
    obtain b' where g: "grep_lines re ?b 0 = Some (hits pat (lines_of r c), b', length (r @ c) - length ?t)"
      "length b' = BUF_SIZE" "drop (length (r @ c) - length ?t) b' = ?t @ 0 # drop (m + length c + 1) buf"
      using grep_lines_ok [OF assms z(1) b] less.prems(4) c(3) m unfolding t by (auto simp: patch_def)
    have lt: "length ?t \<le> length (r @ c)" using length_tail by simp
    have "length (r @ c) - length ?t \<le> length b'" using g(2) c(3) m less.prems(6) by simp
    then obtain b2 where mv: "memmove b' 0 (length (r @ c) - length ?t) (length ?t) = Some b2"
      "length b2 = BUF_SIZE" "take (length ?t) b2 = ?t"
      using memmove_tail [OF g(3)] g(2) by auto
    have "grep_loop re (ks', data') b2 (length ?t) = Some (hits pat (lines_of ?t data'))"
    proof (rule less.hyps)
      show "length data' < length data" using False c(1) by simp
      show "0 \<notin> set (?t @ data')" "10 \<notin> set ?t"
        using tail_set [OF less.prems(2), of c] z by auto
      show "short_lines ?t data'" using less.prems(3) unfolding c(1) by (rule short_lines_append)
    qed (use mv in simp_all)
    moreover have "m + length c - (length (r @ c) - length ?t) = length ?t" using lt less.prems(6) by simp
    ultimately show ?thesis using rd False g(1) mv(1) less.prems(6) c(1)
      by (subst grep_loop.simps) simp
  qed
qed

text \<open>
  C32: \<open>match\<close> decides the language of a pattern: with \<open>^\<close> the text itself, without it some suffix
  of the text, must start with the characters the pattern asks for, where \<open>.\<close> is any character,
  \<open>c*\<close> any number of \<open>c\<close>, and a final \<open>$\<close> asks for the end of the text.
\<close>

theorem match_decides_language:
  assumes "cstr re p" and "cstr s t"
  shows "match re s = Some (regex_matches p t)"
  using assms by (rule match_ok)

theorem match_decides_language_witness: "match [97, 46, 42, 36, 0] [98, 97, 99, 0] = Some True"
proof -
  have "cstr [97, 46, 42, 36, 0] [97, 46, 42, 36]" "cstr [98, 97, 99, 0] [98, 97, 99]" by (simp_all add: cstr_def)
  moreover have "accepts (items [97, 46, 42, 36]) ([97] @ [99])"
    unfolding items.simps append.simps
    by (simp add: accepts.simps(4) char_ok_def)
  then have "\<exists>u v. [98, 97, 99] = u @ v \<and> accepts (items [97, 46, 42, 36]) v"
    by (intro exI [of _ "[98]"] exI [of _ "[97, 99]"]) simp
  then have "regex_matches [97, 46, 42, 36] [98, 97, 99]" by (simp add: regex_matches_def)
  ultimately show ?thesis using match_decides_language [of "[97, 46, 42, 36, 0]"] by simp
qed

text \<open>
  \<open>grep\<close> prints exactly the lines of its input that match, in order and complete, however the
  reads cut the input into pieces, if the input has no null byte and every line fits the buffer.
  What follows the last newline is not looked at.
\<close>

lemma grep_prints_matching_lines:
  assumes "cstr re p" and "0 \<notin> set data" and "short_lines [] data"
  shows "grep re (ks, data) = Some (concat (map (\<lambda>l. l @ [10]) (filter (regex_matches p) (lines_of [] data))))"
  using grep_loop_ok [OF assms(1), of "[]" data "replicate BUF_SIZE 0" 0 ks] assms(2,3)
  by (simp add: grep_def hits_def)

end
