(* ===== verification/GrepMain.thy ===== *)
theory GrepMain
  imports Grep UserIo
begin

text \<open>
  \<open>grep\<close> as a program: \<open>main\<close> over the files of the command line, and what it prints.
\<close>

definition grep_usage :: bytes where
  "grep_usage = [117, 115, 97, 103, 101, 58, 32, 103, 114, 101, 112, 32, 112, 97, 116, 116, 101, 114, 110, 32, 91, 102,
     105, 108, 101, 32, 46, 46, 46, 93, 10, 0]"

definition grep_open_error :: bytes where
  "grep_open_error = [103, 114, 101, 112, 58, 32, 99, 97, 110, 110, 111, 116, 32, 111, 112, 101, 110, 32, 37, 115, 10, 0]"

text \<open>
  \<open>open_file\<close> opens a file for reading. \<open>bufs\<close> has what \<open>buf\<close> holds at each call of \<open>grep\<close>: zeros, then what the file
  before has left. The result is the status and what went to descriptors 1 and 2.
\<close>

abbreviation (input) append_out :: "u32 \<Rightarrow> bytes \<Rightarrow> bytes \<Rightarrow> (u32 \<times> bytes) option" where
  "append_out \<equiv> (\<lambda>_ bs out. Some (of_nat (length bs), out @ bs))"

fun grep_files :: "(bytes \<Rightarrow> fd option) \<Rightarrow> bytes \<Rightarrow> bytes list \<Rightarrow> bytes list \<Rightarrow> bytes \<Rightarrow> (u32 \<times> bytes) option" where
  "grep_files open_file re (a # argv) (b # bufs) out =
     (case open_file a of
        None \<Rightarrow> do { (_, out) \<leftarrow> printf append_out (\<lambda>_. a) grep_open_error [0] out; Some (1, out) }
      | Some fd \<Rightarrow> do { o1 \<leftarrow> grep_loop re fd b 0; grep_files open_file re argv bufs (out @ o1) })"
| "grep_files open_file re [] bufs out = Some (0, out)"
| "grep_files open_file re argv [] out = None"

definition grep_main :: "(bytes \<Rightarrow> fd option) \<Rightarrow> fd \<Rightarrow> bytes list \<Rightarrow> bytes list \<Rightarrow> (u32 \<times> bytes \<times> bytes) option" where
  "grep_main open_file stdin argv bufs =
     (if length argv \<le> 1 then do {
        (_, err) \<leftarrow> fprintf append_out (\<lambda>_. []) 2 grep_usage [] [];
        Some (1, [], err) }
      else do {
        let pat = argv ! 1;
        (if length argv \<le> 2 then map_option (\<lambda>out. (0, out, [])) (grep pat stdin)
         else map_option (\<lambda>(c, out). (c, out, [])) (grep_files open_file pat (drop 2 argv) bufs [])) })"

text \<open>The lines of a text that match.\<close>

definition matching :: "bytes \<Rightarrow> bytes \<Rightarrow> bytes" where
  "matching p data = concat (map (\<lambda>l. l @ [10]) (filter (regex_matches p) (lines_of [] data)))"

lemma grep_files_ok:
  assumes "cstr re p"
    and "\<And>f. f \<in> set names \<Longrightarrow> \<exists>ks. open_file f = Some (ks, contents f) \<and> 0 \<notin> set (contents f) \<and> short_lines [] (contents f)"
    and "length names \<le> length bufs" and "\<forall>b \<in> set bufs. length b = BUF_SIZE"
  shows "grep_files open_file re names bufs out = Some (0, out @ concat (map (matching p \<circ> contents) names))"
  using assms(2-)
proof (induction names arbitrary: bufs out)
  case Nil
  then show ?case by (cases bufs) simp_all
next
  case (Cons f names)
  obtain b bs where b: "bufs = b # bs" using Cons.prems(2) by (cases bufs) auto
  obtain ks where f: "open_file f = Some (ks, contents f)" "0 \<notin> set (contents f)" "short_lines [] (contents f)"
    using Cons.prems(1) [of f] by auto
  have "grep_loop re (ks, contents f) b 0 = Some (matching p (contents f))"
    using grep_loop_ok [OF assms(1), of "[]" "contents f" b 0 ks] f(2,3) Cons.prems(3) b by (simp add: matching_def hits_def)
  then show ?case using Cons b f(1) by simp
qed

text \<open>
  C33: \<open>grep\<close> (\<open>main\<close>, \<open>user/src/phase6/grep.c\<close>) prints exactly the lines of the files named on its command line that match,
  file after file, in order and complete, however the reads cut the files into pieces, and ends with status 0; the
  files have no null byte and no line as long as the buffer. What follows the last newline of a file is not
  looked at.
\<close>

theorem grep_main_prints:
  assumes "cstr re p" and "names \<noteq> []"
    and "\<And>f. f \<in> set names \<Longrightarrow> \<exists>ks. open_file f = Some (ks, contents f) \<and> 0 \<notin> set (contents f) \<and> short_lines [] (contents f)"
    and "length names \<le> length bufs" and "\<forall>b \<in> set bufs. length b = BUF_SIZE"
  shows "grep_main open_file stdin (prog # re # names) bufs =
    Some (0, concat (map (\<lambda>f. concat (map (\<lambda>l. l @ [10]) (filter (regex_matches p) (lines_of [] (contents f))))) names), [])"
  using grep_files_ok [OF assms(1) assms(3-5), where out = "[]"] assms(2)
  by (cases names) (auto simp: grep_main_def matching_def comp_def)

text \<open>Two files, with one matching line in the second and text behind the last newline.\<close>

theorem grep_main_prints_witness:
  "grep_main (\<lambda>f. if f = [102, 0] then Some ([1, 0], [97, 10]) else Some ([0], [98, 99, 10, 98])) ([], []) [[103, 0], [98, 0], [102, 0], [104, 0]]
     (replicate 2 (replicate BUF_SIZE 0)) = Some (0, [98, 99, 10], [])"
proof -
  let ?c = "\<lambda>f :: bytes. if f = [102, 0] then [97, 10] else [98, 99, 10, 98] :: bytes"
  have "cstr [98, 0] [98]" by (simp add: cstr_def)
  moreover have "regex_matches [98] [98, 99]" "\<not> regex_matches [98] [97]"
    using exI [of "\<lambda>v. [98, 99] = [] @ v \<and> accepts [One 98] v" "[98, 99]"]
    by (auto simp: regex_matches_def char_ok_def Cons_eq_append_conv)
  ultimately show ?thesis
    using grep_main_prints [of "[98, 0]" "[98]" "[[102, 0], [104, 0]]" "\<lambda>f. if f = [102, 0] then Some ([1, 0], [97, 10]) else Some ([0], [98, 99, 10, 98])"
      ?c "replicate 2 (replicate BUF_SIZE 0)" "([], [])" "[103, 0]"]
    by (simp add: short_lines_def)
qed

end
