(* ===== verification/Xargs.thy ===== *)
theory Xargs
  imports CString Tools
begin

text \<open>
  \<open>user/src/phase6/xargs.c\<close>: the lines of the input become the arguments of a program. A pointer into the text is an
  offset, the static pointer of \<open>strtok\<close> is passed along.
\<close>

subsection \<open>The program\<close>

text \<open>
  What it does to the world: \<open>xs_run\<close> is a child that runs a program with its arguments and is waited for, or \<^term>\<open>None\<close>
  when \<open>fork\<close> failed; \<open>xs_say\<close> prints on descriptor 2; \<open>xs_read\<close> is \<open>read(0, ...)\<close>, \<^term>\<open>None\<close> for -1; \<open>xs_alloc\<close> is
  \<open>malloc\<close>, with what the block holds.
\<close>

record 's xs =
  xs_run :: "bytes \<Rightarrow> bytes list \<Rightarrow> 's \<Rightarrow> 's option"
  xs_say :: "bytes \<Rightarrow> 's \<Rightarrow> 's"
  xs_read :: "nat \<Rightarrow> 's \<Rightarrow> bytes option \<times> 's"
  xs_alloc :: "nat \<Rightarrow> 's \<Rightarrow> bytes option \<times> 's"

abbreviation (input) MAXARG :: nat where "MAXARG \<equiv> 31"
abbreviation (input) SBUFSIZE :: nat where "SBUFSIZE \<equiv> 4096"
abbreviation (input) blanks :: bytes where "blanks \<equiv> [32, 9, 0]"
abbreviation (input) newline :: bytes where "newline \<equiv> [10, 0]"

definition too_many :: bytes where
  "too_many = [120, 97, 114, 103, 115, 58, 32, 116, 111, 111, 32, 109, 97, 110, 121, 32, 97, 114, 103, 118, 10, 0]"

definition fork_failed :: bytes where
  "fork_failed = [120, 97, 114, 103, 115, 58, 32, 102, 111, 114, 107, 32, 102, 97, 105, 108, 101, 100, 10, 0]"

definition missing_operand :: bytes where
  "missing_operand = [120, 97, 114, 103, 115, 58, 32, 109, 105, 115, 115, 105, 110, 103, 32, 111, 112, 101, 114, 97, 110, 100,
     10, 0]"

definition malloc_failed :: bytes where
  "malloc_failed = [120, 97, 114, 103, 115, 58, 32, 109, 97, 108, 108, 111, 99, 32, 102, 97, 105, 108, 101, 100, 10, 0]"

definition string_of :: "bytes \<Rightarrow> nat \<Rightarrow> bytes" where
  "string_of buf p = takeWhile (\<lambda>c. c \<noteq> 0) (drop p buf)"

text \<open>The loop of \<open>parse_arg\<close>: \<open>argv[argc]\<close> is set to \<open>args\<close>, and so on, but no \<open>argv[MAXARG + 1]\<close> exists; the pointers it has set.\<close>

partial_function (option) arg_loop :: "nat \<Rightarrow> nat \<Rightarrow> bytes \<Rightarrow> nat option \<Rightarrow> (nat list ended \<times> nat option \<times> bytes) option" where
  "arg_loop args argc buf lasts =
     (if argc > MAXARG then None
      else if argc + 1 > MAXARG then Some (Exit 1, lasts, buf)
      else do {
        (t, lasts, buf) \<leftarrow> strtok buf lasts None blanks;
        (case t of
           None \<Rightarrow> Some (Go [args], lasts, buf)
         | Some p \<Rightarrow> do {
             (r, lasts, buf) \<leftarrow> arg_loop p (argc + 1) buf lasts;
             Some (case r of Go ps \<Rightarrow> Go (args # ps) | Exit c \<Rightarrow> Exit c, lasts, buf) }) })"

text \<open>\<open>prev\<close> is what \<open>argv\<close> has from \<open>argc\<close> on.\<close>

definition parse_arg :: "nat option \<Rightarrow> nat \<Rightarrow> nat list \<Rightarrow> bytes \<Rightarrow> nat option \<Rightarrow> (nat list ended \<times> nat option \<times> bytes) option" where
  "parse_arg args argc prev buf lasts =
     (case args of
        None \<Rightarrow> Some (Go prev, lasts, buf)
      | Some p \<Rightarrow>
          if buf ! p = 0 then Some (Go prev, lasts, buf)
          else do {
            (_, lasts, buf) \<leftarrow> strtok buf lasts (Some p) blanks;
            arg_loop p argc buf lasts })"

definition exec_another :: "'s xs \<Rightarrow> bytes \<Rightarrow> bytes list \<Rightarrow> 's \<Rightarrow> unit ended \<times> 's" where
  "exec_another X file argv s =
     (case xs_run X file argv s of None \<Rightarrow> (Exit 1, xs_say X fork_failed s) | Some s \<Rightarrow> (Go (), s))"

text \<open>The loop of \<open>exec_by_args\<close>; \<open>given\<close> are the arguments of the command line, the first in \<open>argv\<close>.\<close>

partial_function (option) line_loop :: "'s xs \<Rightarrow> bytes \<Rightarrow> bytes list \<Rightarrow> nat \<Rightarrow> nat option \<Rightarrow> nat \<Rightarrow> nat list \<Rightarrow> bytes \<Rightarrow>
    nat option \<Rightarrow> 's \<Rightarrow> (unit ended \<times> 's) option" where
  "line_loop X file given this_line next_line endp prev buf lasts s = do {
     (r, lasts, buf) \<leftarrow> parse_arg (Some this_line) (length given) prev buf lasts;
     (case r of
        Exit c \<Rightarrow> Some (Exit c, xs_say X too_many s)
      | Go ps \<Rightarrow>
          (case exec_another X file (given @ map (string_of buf) ps) s of
             (Exit c, s) \<Rightarrow> Some (Exit c, s)
           | (Go _, s) \<Rightarrow> do {
               (t, lasts, buf) \<leftarrow> strtok buf lasts next_line newline;
               (case t of
                  None \<Rightarrow> Some (Go (), s)
                | Some p \<Rightarrow> do {
                    n \<leftarrow> strlen (drop p buf);
                    line_loop X file given p (if p + n + 1 > endp then None else Some (p + n + 1)) endp ps buf lasts s }) })) }"

definition exec_by_args :: "'s xs \<Rightarrow> bytes \<Rightarrow> bytes \<Rightarrow> bytes list \<Rightarrow> 's \<Rightarrow> (unit ended \<times> 's) option" where
  "exec_by_args X args file given s = do {
     endp \<leftarrow> strlen args;
     (t, lasts, buf) \<leftarrow> strtok args None (Some 0) newline;
     (case t of
        None \<Rightarrow> Some (Go (), s)
      | Some p \<Rightarrow> do {
          n \<leftarrow> strlen (drop p buf);
          line_loop X file given p (if p + n + 1 > endp then None else Some (p + n + 1)) endp [] buf lasts s }) }"

text \<open>The buffer is doubled as long as a read fills its second half; what becomes of the blocks given to \<open>free\<close> does not matter.\<close>

partial_function (option) grow :: "'s xs \<Rightarrow> bytes \<Rightarrow> 's \<Rightarrow> (bytes \<times> 's) option" where
  "grow X buf s = (case xs_read X (length buf div 2) s of
     (None, s) \<Rightarrow> Some (buf, s)
   | (Some bs, s) \<Rightarrow>
       let buf = patch buf (length buf div 2) bs in
       if length bs = length buf div 2 then
         (case xs_alloc X (2 * length buf) s of
            (None, s) \<Rightarrow> None
          | (Some b, s) \<Rightarrow> grow X (patch b 0 buf) s)
       else Some (buf, s))"

definition xargs_main :: "'s xs \<Rightarrow> bytes list \<Rightarrow> 's \<Rightarrow> (u32 \<times> 's) option" where
  "xargs_main X argv s =
     (if length argv < 2 then Some (1, xs_say X missing_operand s)
      else if length argv - 1 > MAXARG + 1 then None
      else
        let given = tl argv;
            (r, s) = xs_read X SBUFSIZE s;
            static_buf = (case r of None \<Rightarrow> replicate SBUFSIZE 0 | Some bs \<Rightarrow> patch (replicate SBUFSIZE 0) 0 bs)
        in
          if (case r of None \<Rightarrow> True | Some bs \<Rightarrow> length bs < SBUFSIZE) then on_stdin (exec_by_args X static_buf (argv ! 1) given s)
          else (case xs_alloc X (SBUFSIZE * 2) s of
              (None, s) \<Rightarrow> Some (1, xs_say X malloc_failed s)
            | (Some b, s) \<Rightarrow> do {
                (buf, s) \<leftarrow> grow X (patch b 0 static_buf) s;
                on_stdin (exec_by_args X buf (argv ! 1) given s) }))"

end
