(* ===== verification/XargsProps.thy ===== *)
theory XargsProps
  imports Xargs
begin

text \<open>
  What \<open>xargs\<close> runs: one command for each line of its input, with the words of the line behind the given arguments.
\<close>

subsection \<open>Pieces of a text\<close>

text \<open>The longest pieces without a separator.\<close>

function pieces :: "bytes \<Rightarrow> bytes \<Rightarrow> bytes list" where
  "pieces ds [] = []"
| "pieces ds (x # xs) = (if x \<in> set ds then pieces ds xs
     else (x # takeWhile (\<lambda>b. b \<notin> set ds) xs) # pieces ds (dropWhile (\<lambda>b. b \<notin> set ds) xs))"
  by pat_completeness auto
termination by (relation "measure (\<lambda>(_, xs). length xs)") (auto simp: length_dropWhile_le less_Suc_eq_le)

text \<open>The arguments of a line: separators at its start stay in the first.\<close>

definition line_args :: "bytes \<Rightarrow> bytes list" where
  "line_args l =
     (let r = dropWhile (\<lambda>b. b \<in> set [32, 9]) l in
      (takeWhile (\<lambda>b. b \<in> set [32, 9]) l @ takeWhile (\<lambda>b. b \<notin> set [32, 9]) r) #
      pieces [32, 9] (dropWhile (\<lambda>b. b \<notin> set [32, 9]) r))"

lemma pieces_none: "set xs \<subseteq> set ds \<Longrightarrow> pieces ds xs = []"
  by (induction xs) auto

lemma pieces_skip: "set sp \<subseteq> set ds \<Longrightarrow> pieces ds (sp @ xs) = pieces ds xs"
  by (induction sp) auto

lemma pieces_token:
  assumes "set sp \<subseteq> set ds" and "set (t # tk) \<inter> set ds = {}" and "r = [] \<or> hd r \<in> set ds"
  shows "pieces ds (sp @ (t # tk) @ r) = (t # tk) # pieces ds r"
proof -
  have n: "b \<notin> set ds" if "b \<in> set tk" for b using assms(2) that by auto
  then have "takeWhile (\<lambda>b. b \<notin> set ds) (tk @ r) = tk" "dropWhile (\<lambda>b. b \<notin> set ds) (tk @ r) = r"
    using assms(3) by (cases r; simp add: takeWhile_append dropWhile_append)+
  then show ?thesis using pieces_skip [OF assms(1)] assms(2) by simp
qed

text \<open>A text has no piece, or a first one, which ends it or is closed by a separator.\<close>

lemma pieces_cases:
  obtains (none) "set xs \<subseteq> set ds"
  | (last) sp t tk where "xs = sp @ (t # tk)" "set sp \<subseteq> set ds" "set (t # tk) \<inter> set ds = {}"
  | (more) sp t tk x r where "xs = sp @ (t # tk) @ x # r" "set sp \<subseteq> set ds" "set (t # tk) \<inter> set ds = {}" "x \<in> set ds"
proof -
  let ?sp = "takeWhile (\<lambda>b. b \<in> set ds) xs" and ?r = "dropWhile (\<lambda>b. b \<in> set ds) xs"
  have x: "xs = ?sp @ ?r" by simp
  have sp: "set ?sp \<subseteq> set ds" by (auto dest: set_takeWhileD)
  show ?thesis
  proof (cases ?r)
    case Nil
    then show ?thesis using none sp x by (metis append_Nil2)
  next
    case (Cons t r)
    then have t: "t \<notin> set ds" using hd_dropWhile [of "\<lambda>b. b \<in> set ds" xs] by auto
    let ?tk = "takeWhile (\<lambda>b. b \<notin> set ds) r" and ?q = "dropWhile (\<lambda>b. b \<notin> set ds) r"
    have tk: "set (t # ?tk) \<inter> set ds = {}" using t by (auto dest: set_takeWhileD)
    have e: "xs = ?sp @ (t # ?tk) @ ?q" using x Cons by simp
    show ?thesis
    proof (cases ?q)
      case Nil
      then have "xs = ?sp @ (t # ?tk)" using e by (metis append_Nil2)
      then show ?thesis using last sp tk by blast
    next
      case (Cons y q)
      then have "y \<in> set ds" using hd_dropWhile [of "\<lambda>b. b \<notin> set ds" r] by auto
      then show ?thesis using more [of ?sp t ?tk y q] e sp tk Cons by simp
    qed
  qed
qed

subsection \<open>The arguments of a line\<close>

lemma strtok_None: "strtok buf None None ds = Some (None, None, buf)"
  by (simp add: strtok_def)

lemma arg_loop_last: "argc + 1 \<le> MAXARG \<Longrightarrow> arg_loop a argc buf None = Some (Go [a], None, buf)"
  by (subst arg_loop.simps) (simp add: strtok_None)

lemma string_of_at: "0 \<notin> set w \<Longrightarrow> string_of (pre @ w @ 0 # post) (length pre) = w"
proof -
  assume "0 \<notin> set w"
  then have "takeWhile (\<lambda>c. c \<noteq> 0) (w @ 0 # post) = w" by (induction w) auto
  then show ?thesis by (simp add: string_of_def)
qed

abbreviation (input) "ws \<equiv> [32, 9] :: bytes"

lemma arg_loop_ok:
  assumes "\<And>tl. string_of (pre @ tl) a = w" and "0 \<notin> set r" and "argc + 1 + length (pieces ws r) \<le> MAXARG"
  shows "\<exists>ps r'. arg_loop a argc (pre @ r @ 0 # post) (Some (length pre)) = Some (Go (a # ps), None, pre @ r' @ 0 # post) \<and>
    length r' = length r \<and> map (string_of (pre @ r' @ 0 # post)) (a # ps) = w # pieces ws r"
  using assms
proof (induction "length r" arbitrary: pre a w r argc rule: less_induct)
  case less
  have c: "argc + 1 \<le> MAXARG" using less.prems(3) by simp
  have z: "0 \<notin> set ws" by simp
  show ?case
  proof (cases rule: pieces_cases [of r ws])
    case none
    have "strtok (pre @ r @ 0 # post) (Some (length pre)) None (ws @ 0 # []) = Some (None, None, pre @ r @ 0 # post)"
      using strtok_end [OF z none refl, of pre post None "[]"] by (simp add: strtok_def)
    then show ?thesis using c less.prems(1) pieces_none [OF none] by (subst arg_loop.simps) (intro exI [of _ "[]"] exI [of _ r], simp)
  next
    case (last sp t tk)
    have tk0: "set (t # tk) \<inter> set (0 # ws) = {}" using last(1,3) less.prems(2) by auto
    have "strtok (pre @ r @ 0 # post) (Some (length pre)) None (ws @ 0 # []) =
        Some (Some (length pre + length sp), None, pre @ r @ 0 # post)"
      using strtok_token [OF z last(2) tk0, of 0 "pre @ r @ 0 # post" pre post None "[]"] last(1) by (simp add: strtok_def)
    moreover have "pieces ws r = [t # tk]" using pieces_token [OF last(2,3), of "[]"] last(1) by simp
    moreover have "string_of (pre @ r @ 0 # post) (length (pre @ sp)) = t # tk"
      using string_of_at [of "t # tk" "pre @ sp" post] tk0 last(1) by auto
    ultimately show ?thesis using c less.prems(1,3)
      by (subst arg_loop.simps) (intro exI [of _ "[length pre + length sp]"] exI [of _ r], simp add: arg_loop_last)
  next
    case (more sp t tk x r2)
    have tk0: "set (t # tk) \<inter> set (0 # ws) = {}" using more(1,3) less.prems(2) by auto
    have x0: "x \<noteq> 0" "x \<in> set (0 # ws)" using more(4) by auto
    let ?pre = "pre @ sp @ (t # tk) @ [0]"
    have st: "strtok (pre @ r @ 0 # post) (Some (length pre)) None (ws @ 0 # []) =
        Some (Some (length pre + length sp), Some (length ?pre), ?pre @ r2 @ 0 # post)"
      using strtok_token [OF z more(2) tk0 x0(2), of "pre @ r @ 0 # post" pre "r2 @ 0 # post" None "[]"] more(1) x0(1)
      by (simp add: strtok_def)
    have ps: "pieces ws r = (t # tk) # pieces ws r2" using pieces_token [OF more(2,3), of "x # r2"] more(1,4) by simp
    have str: "string_of (?pre @ tl) (length pre + length sp) = t # tk" for tl
      using string_of_at [of "t # tk" "pre @ sp" tl] tk0 by auto
    have "0 \<notin> set r2" "length r2 < length r" using less.prems(2) more(1) by auto
    then obtain ps' r' where ih: "arg_loop (length pre + length sp) (argc + 1) (?pre @ r2 @ 0 # post) (Some (length ?pre)) =
        Some (Go ((length pre + length sp) # ps'), None, ?pre @ r' @ 0 # post)" "length r' = length r2"
      "map (string_of (?pre @ r' @ 0 # post)) ((length pre + length sp) # ps') = (t # tk) # pieces ws r2"
      using less.hyps [of r2 ?pre "length pre + length sp" "t # tk" "argc + 1", OF _ str] less.prems(3) ps by auto
    have "arg_loop a argc (pre @ r @ 0 # post) (Some (length pre)) =
        Some (Go (a # (length pre + length sp) # ps'), None, ?pre @ r' @ 0 # post)"
      using c st ih(1) by (subst arg_loop.simps) simp
    then show ?thesis using ih(2,3) ps more(1) less.prems(1) 
      by (intro exI [of _ "(length pre + length sp) # ps'"] exI [of _ "sp @ (t # tk) @ 0 # r'"]) simp
  qed
qed

lemma span_append:
  assumes "\<And>b. b \<in> set w \<Longrightarrow> P b" and "r = [] \<or> \<not> P (hd r)"
  shows "takeWhile P (w @ r) = w" and "dropWhile P (w @ r) = r"
  using assms by (cases r; simp add: takeWhile_append dropWhile_append)+

lemma line_args_simps:
  "set sp \<subseteq> set ws \<Longrightarrow> line_args sp = [sp]"
  "set sp \<subseteq> set ws \<Longrightarrow> set (t # tk) \<inter> set ws = {} \<Longrightarrow> r = [] \<or> hd r \<in> set ws \<Longrightarrow>
     line_args (sp @ (t # tk) @ r) = (sp @ t # tk) # pieces ws r"
proof -
  assume sp: "set sp \<subseteq> set ws"
  then have a: "takeWhile (\<lambda>b. b \<in> set ws) sp = sp" "dropWhile (\<lambda>b. b \<in> set ws) sp = []" by auto
  show "line_args sp = [sp]" unfolding line_args_def a by simp
  assume tk: "set (t # tk) \<inter> set ws = {}" and r: "r = [] \<or> hd r \<in> set ws"
  have b: "takeWhile (\<lambda>b. b \<in> set ws) (sp @ (t # tk) @ r) = sp" "dropWhile (\<lambda>b. b \<in> set ws) (sp @ (t # tk) @ r) = (t # tk) @ r"
    using sp tk by (auto simp: takeWhile_append dropWhile_append)
  have n: "\<And>b. b \<in> set (t # tk) \<Longrightarrow> b \<notin> set ws" using tk by blast
  have r': "r = [] \<or> \<not> hd r \<notin> set ws" using r by blast
  have c: "takeWhile (\<lambda>b. b \<notin> set ws) ((t # tk) @ r) = t # tk" "dropWhile (\<lambda>b. b \<notin> set ws) ((t # tk) @ r) = r"
    by (rule span_append; (erule n | rule r'))+
  show "line_args (sp @ (t # tk) @ r) = (sp @ t # tk) # pieces ws r" unfolding line_args_def Let_def b c by simp
qed

lemma parse_arg_ok:
  assumes "l \<noteq> []" and "0 \<notin> set l" and "argc + length (line_args l) \<le> MAXARG"
  shows "\<exists>ps l'. parse_arg (Some (length pre)) argc prev (pre @ l @ 0 # post) lasts = Some (Go ps, None, pre @ l' @ 0 # post) \<and>
    length l' = length l \<and> map (string_of (pre @ l' @ 0 # post)) ps = line_args l"
proof -
  have z: "0 \<notin> set ws" by simp
  have nz: "(pre @ l @ 0 # post) ! length pre \<noteq> 0" using assms(1,2) by (cases l) (auto simp: nth_append)
  have argc: "argc + 1 \<le> MAXARG" using assms(3) by (simp add: line_args_def Let_def)
  show ?thesis
  proof (cases rule: pieces_cases [of l ws])
    case none
    have "strtok (pre @ l @ 0 # post) lasts (Some (length pre)) (ws @ 0 # []) = Some (None, None, pre @ l @ 0 # post)"
      by (rule strtok_end [OF z none refl])
    then show ?thesis using nz argc string_of_at [OF assms(2), of pre post] line_args_simps(1) [OF none]
      by (intro exI [of _ "[length pre]"] exI [of _ l]) (simp add: parse_arg_def arg_loop_last)
  next
    case (last sp t tk)
    have tk0: "set (t # tk) \<inter> set (0 # ws) = {}" using last(1,3) assms(2) by auto
    have "strtok (pre @ l @ 0 # post) lasts (Some (length pre)) (ws @ 0 # []) =
        Some (Some (length pre + length sp), None, pre @ l @ 0 # post)"
      using strtok_token [OF z last(2) tk0, of 0 "pre @ l @ 0 # post" pre post lasts "[]"] last(1) by simp
    then show ?thesis using nz argc string_of_at [OF assms(2), of pre post] line_args_simps(2) [OF last(2,3), of "[]"] last(1)
      by (intro exI [of _ "[length pre]"] exI [of _ l]) (simp add: parse_arg_def arg_loop_last)
  next
    case (more sp t tk x r)
    have tk0: "set (t # tk) \<inter> set (0 # ws) = {}" using more(1,3) assms(2) by auto
    have x0: "x \<noteq> 0" "x \<in> set (0 # ws)" using more(4) by auto
    let ?pre = "pre @ sp @ (t # tk) @ [0]"
    have st: "strtok (pre @ l @ 0 # post) lasts (Some (length pre)) (ws @ 0 # []) =
        Some (Some (length pre + length sp), Some (length ?pre), ?pre @ r @ 0 # post)"
      using strtok_token [OF z more(2) tk0 x0(2), of "pre @ l @ 0 # post" pre "r @ 0 # post" lasts "[]"] more(1) x0(1) by simp
    have la: "line_args l = (sp @ t # tk) # pieces ws r" using line_args_simps(2) [OF more(2,3), of "x # r"] more(1,4) by simp
    have str: "string_of (?pre @ tl) (length pre) = sp @ t # tk" for tl
      using string_of_at [of "sp @ t # tk" pre tl] assms(2) more(1) by simp
    have "0 \<notin> set r" using assms(2) more(1) by auto
    from arg_loop_ok [OF str this, of argc post] obtain ps r' where
      "arg_loop (length pre) argc (?pre @ r @ 0 # post) (Some (length ?pre)) = Some (Go (length pre # ps), None, ?pre @ r' @ 0 # post)"
      "length r' = length r" "map (string_of (?pre @ r' @ 0 # post)) (length pre # ps) = (sp @ t # tk) # pieces ws r"
      using assms(3) la by auto
    then show ?thesis using nz st la more(1)
      by (intro exI [of _ "length pre # ps"] exI [of _ "sp @ (t # tk) @ 0 # r'"]) (simp add: parse_arg_def)
  qed
qed

subsection \<open>The lines\<close>

text \<open>The commands of the lines, one after the other.\<close>

definition run_lines :: "'s xs \<Rightarrow> bytes \<Rightarrow> bytes list \<Rightarrow> 's \<Rightarrow> bytes list \<Rightarrow> 's option" where
  "run_lines X file given = foldM (\<lambda>s l. xs_run X file (given @ line_args l) s)"

lemma run_lines_simps [simp]:
  "run_lines X file given s [] = Some s"
  "run_lines X file given s (l # ls) = do { s \<leftarrow> xs_run X file (given @ line_args l) s; run_lines X file given s ls }"
  by (simp_all add: run_lines_def)

lemma strlen_token: "0 \<notin> set w \<Longrightarrow> strlen (w @ 0 # post) = Some (length w)"
  by (rule strlen_ok) (auto simp: cstr_def)

abbreviation (input) "nl \<equiv> [10] :: bytes"

lemma line_loop_last:
  assumes "l \<noteq> []" and "0 \<notin> set l" and "length given + length (line_args l) \<le> MAXARG"
    and "xs_run X file (given @ line_args l) s = Some s'"
  shows "line_loop X file given (length pre) None endp prev (pre @ l @ 0 # post) lasts s = Some (Go (), s')"
proof -
  obtain ps l' where p: "parse_arg (Some (length pre)) (length given) prev (pre @ l @ 0 # post) lasts = Some (Go ps, None, pre @ l' @ 0 # post)"
    "map (string_of (pre @ l' @ 0 # post)) ps = line_args l"
    using parse_arg_ok [OF assms(1-3), of pre prev post lasts] by blast
  show ?thesis using assms(4) by (subst line_loop.simps) (simp add: p exec_another_def strtok_None)
qed

lemma line_loop_ok:
  assumes "l \<noteq> []" and "0 \<notin> set l" and "0 \<notin> set rest"
    and "\<forall>k \<in> set (l # pieces nl rest). length given + length (line_args k) \<le> MAXARG"
    and "run_lines X file given s (l # pieces nl rest) = Some s'"
  shows "line_loop X file given (length pre) (Some (length pre + length l + 1)) (length pre + length l + 1 + length rest) prev
    (pre @ l @ 0 # rest @ 0 # junk) lasts s = Some (Go (), s')"
  using assms
proof (induction "length rest" arbitrary: pre l rest prev lasts s rule: less_induct)
  case less
  let ?lim = "length pre + length l + 1 + length rest"
  obtain ps l' where p: "parse_arg (Some (length pre)) (length given) prev (pre @ l @ 0 # rest @ 0 # junk) lasts =
      Some (Go ps, None, pre @ l' @ 0 # rest @ 0 # junk)" "length l' = length l"
    "map (string_of (pre @ l' @ 0 # rest @ 0 # junk)) ps = line_args l"
    using parse_arg_ok [OF less.prems(1,2), of "length given" pre prev "rest @ 0 # junk" lasts] less.prems(4) by auto
  obtain s1 where s1: "xs_run X file (given @ line_args l) s = Some s1" "run_lines X file given s1 (pieces nl rest) = Some s'"
    using less.prems(5) by (auto simp: bind_eq_Some_conv)
  let ?pre = "pre @ l' @ [0]"
  have z: "0 \<notin> set nl" by simp
  have step: "line_loop X file given (length pre) (Some (length pre + length l + 1)) ?lim prev (pre @ l @ 0 # rest @ 0 # junk) lasts s =
      do { (t, lasts, buf) \<leftarrow> strtok (?pre @ rest @ 0 # junk) None (Some (length ?pre)) (nl @ 0 # []);
           (case t of
              None \<Rightarrow> Some (Go (), s1)
            | Some p \<Rightarrow> do {
                n \<leftarrow> strlen (drop p buf);
                line_loop X file given p (if p + n + 1 > ?lim then None else Some (p + n + 1)) ?lim ps buf lasts s1 }) }"
    by (subst line_loop.simps) (simp add: p exec_another_def s1(1))
  show ?case
  proof (cases rule: pieces_cases [of rest nl])
    case none
    then show ?thesis unfolding step using s1(2) pieces_none [OF none] strtok_end [OF z none refl, of ?pre junk None "[]"] by simp
  next
    case (last sp t tk)
    have tk0: "set (t # tk) \<inter> set (0 # nl) = {}" "0 \<notin> set (t # tk)" using last(1,3) less.prems(3) by auto
    have st: "strtok (?pre @ rest @ 0 # junk) None (Some (length ?pre)) (nl @ 0 # []) =
        Some (Some (length (?pre @ sp)), None, (?pre @ sp) @ (t # tk) @ 0 # junk)"
      using strtok_token [OF z last(2) tk0(1), of 0 "?pre @ rest @ 0 # junk" ?pre junk None "[]"] last(1) by simp
    have len: "strlen (drop (length (?pre @ sp)) ((?pre @ sp) @ (t # tk) @ 0 # junk)) = Some (length (t # tk))"
      using strlen_token [OF tk0(2), of junk] by simp
    have pc: "pieces nl rest = [t # tk]" using pieces_token [OF last(2,3), of "[]"] last(1) by simp
    have gt: "length (?pre @ sp) + length (t # tk) + 1 > ?lim" using p(2) last(1) by simp
    have "line_loop X file given (length (?pre @ sp)) None ?lim ps ((?pre @ sp) @ (t # tk) @ 0 # junk) None s1 = Some (Go (), s')"
      using less.prems(4) s1(2) by (intro line_loop_last tk0(2)) (simp_all add: pc bind_eq_Some_conv)
    then show ?thesis unfolding step st using len gt by (simp del: append_assoc length_append drop_append)
  next
    case (more sp t tk x r)
    have tk0: "set (t # tk) \<inter> set (0 # nl) = {}" "0 \<notin> set (t # tk)" using more(1,3) less.prems(3) by auto
    have x: "x = 10" using more(4) by simp
    have st: "strtok (?pre @ rest @ 0 # junk) None (Some (length ?pre)) (nl @ 0 # []) =
        Some (Some (length (?pre @ sp)), Some (length (?pre @ sp) + length (t # tk) + 1), (?pre @ sp) @ (t # tk) @ 0 # r @ 0 # junk)"
      using strtok_token [OF z more(2) tk0(1), of 10 "?pre @ rest @ 0 # junk" ?pre "r @ 0 # junk" None "[]"] more(1) x by simp
    have len: "strlen (drop (length (?pre @ sp)) ((?pre @ sp) @ (t # tk) @ 0 # r @ 0 # junk)) = Some (length (t # tk))"
      using strlen_token [OF tk0(2), of "r @ 0 # junk"] by simp
    have pc: "pieces nl rest = (t # tk) # pieces nl r" using pieces_token [OF more(2,3), of "x # r"] more(1,4) by simp
    have e: "?lim = length (?pre @ sp) + length (t # tk) + 1 + length r" using p(2) more(1) by simp
    have "line_loop X file given (length (?pre @ sp)) (Some (length (?pre @ sp) + length (t # tk) + 1)) ?lim ps
        ((?pre @ sp) @ (t # tk) @ 0 # r @ 0 # junk) (Some (length (?pre @ sp) + length (t # tk) + 1)) s1 = Some (Go (), s')"
      unfolding e
    proof (intro less.hyps)
      show "length r < length rest" using more(1) by simp
      show "0 \<notin> set r" using less.prems(3) more(1) by auto
      show "\<forall>k \<in> set ((t # tk) # pieces nl r). length given + length (line_args k) \<le> MAXARG"
        using less.prems(4) unfolding pc by simp
      show "run_lines X file given s1 ((t # tk) # pieces nl r) = Some s'" using s1(2) unfolding pc .
    qed (use tk0(2) in simp_all)
    then show ?thesis unfolding step st using len e by (simp del: append_assoc length_append drop_append)
  qed
qed

subsection \<open>One command for each line\<close>

lemma exec_by_args_ok:
  assumes "0 \<notin> set inp"
    and "\<forall>l \<in> set (pieces [10] inp). length given + length (line_args l) \<le> 31"
    and "run_lines X file given s (pieces [10] inp) = Some s'"
  shows "exec_by_args X (inp @ 0 # junk) file given s = Some (Go (), s')"
proof -
  have z: "0 \<notin> set nl" by simp
  have e: "strlen (inp @ 0 # junk) = Some (length inp)" by (rule strlen_token [OF assms(1)])
  show ?thesis
  proof (cases rule: pieces_cases [of inp nl])
    case none
    then show ?thesis using assms(3) pieces_none [OF none] strtok_end [OF z none refl, of "[]" junk None "[]"] e
      by (simp add: exec_by_args_def)
  next
    case (last sp t tk)
    have tk0: "set (t # tk) \<inter> set (0 # nl) = {}" "0 \<notin> set (t # tk)" using last(1,3) assms(1) by auto
    have st: "strtok (inp @ 0 # junk) None (Some 0) (nl @ 0 # []) = Some (Some (length sp), None, sp @ (t # tk) @ 0 # junk)"
      using strtok_token [OF z last(2) tk0(1), of 0 "inp @ 0 # junk" "[]" junk None "[]"] last(1) by simp
    have len: "strlen (drop (length sp) (sp @ (t # tk) @ 0 # junk)) = Some (length (t # tk))"
      using strlen_token [OF tk0(2), of junk] by simp
    have pc: "pieces nl inp = [t # tk]" using pieces_token [OF last(2,3), of "[]"] last(1) by simp
    have gt: "length sp + length (t # tk) + 1 > length inp" using last(1) by simp
    have "line_loop X file given (length sp) None (length inp) [] (sp @ (t # tk) @ 0 # junk) None s = Some (Go (), s')"
      using assms(2,3) by (intro line_loop_last tk0(2)) (simp_all add: pc bind_eq_Some_conv)
    then show ?thesis using st len gt e by (simp add: exec_by_args_def del: append_assoc length_append drop_append)
  next
    case (more sp t tk x r)
    have tk0: "set (t # tk) \<inter> set (0 # nl) = {}" "0 \<notin> set (t # tk)" using more(1,3) assms(1) by auto
    have x: "x = 10" using more(4) by simp
    have st: "strtok (inp @ 0 # junk) None (Some 0) (nl @ 0 # []) =
        Some (Some (length sp), Some (length sp + length (t # tk) + 1), sp @ (t # tk) @ 0 # r @ 0 # junk)"
      using strtok_token [OF z more(2) tk0(1), of 10 "inp @ 0 # junk" "[]" "r @ 0 # junk" None "[]"] more(1) x by simp
    have len: "strlen (drop (length sp) (sp @ (t # tk) @ 0 # r @ 0 # junk)) = Some (length (t # tk))"
      using strlen_token [OF tk0(2), of "r @ 0 # junk"] by simp
    have pc: "pieces nl inp = (t # tk) # pieces nl r" using pieces_token [OF more(2,3), of "x # r"] more(1,4) by simp
    have l: "length inp = length sp + length (t # tk) + 1 + length r" using more(1) by simp
    have "line_loop X file given (length sp) (Some (length sp + length (t # tk) + 1)) (length inp) []
        (sp @ (t # tk) @ 0 # r @ 0 # junk) (Some (length sp + length (t # tk) + 1)) s = Some (Go (), s')"
      unfolding l
    proof (intro line_loop_ok)
      show "0 \<notin> set r" using assms(1) more(1) by auto
      show "\<forall>k \<in> set ((t # tk) # pieces nl r). length given + length (line_args k) \<le> MAXARG"
        using assms(2) unfolding pc by simp
      show "run_lines X file given s ((t # tk) # pieces nl r) = Some s'" using assms(3) unfolding pc .
    qed (use tk0(2) in simp_all)
    then show ?thesis using st len l e by (simp add: exec_by_args_def del: append_assoc length_append drop_append)
  qed
qed

text \<open>
  C34: xargs reads its input once when that is shorter than its buffer. For each line with something in it, in their order, it
  runs the program once, with the given arguments and then the words of that line; the first of them keeps the blanks the
  line starts with, and empty lines run nothing. When no line has more arguments than fit, and every \<open>fork\<close> succeeds,
  it exits with 0, and the world is what the commands have made of it.
\<close>
theorem xargs_runs_lines:
  assumes "2 \<le> length argv" and "length argv \<le> 32"
    and "xs_read X 4096 s = (Some bs, s1)" and "length bs < 4096" and "0 \<notin> set bs"
    and "\<forall>l \<in> set (pieces [10] bs). length argv - 1 + length (line_args l) \<le> 31"
    and "run_lines X (argv ! 1) (tl argv) s1 (pieces [10] bs) = Some s'"
  shows "xargs_main X argv s = Some (0, s')"
proof -
  have p: "patch (replicate SBUFSIZE 0) 0 bs = bs @ 0 # replicate (4096 - length bs - 1) 0"
    using assms(4) by (simp add: patch_def flip: replicate_Suc)
  have "exec_by_args X (bs @ 0 # replicate (4096 - length bs - 1) 0) (argv ! 1) (tl argv) s1 = Some (Go (), s')"
    using assms(5-7) by (intro exec_by_args_ok) simp_all
  then show ?thesis using assms(1-4) p by (simp add: xargs_main_def on_stdin_def)
qed

definition log_xs :: "bytes \<Rightarrow> bytes list list xs" where
  "log_xs inp = \<lparr>xs_run = \<lambda>file argv s. Some (s @ [argv]), xs_say = \<lambda>bs s. s, xs_read = \<lambda>n s. (Some inp, s),
     xs_alloc = \<lambda>n s. (None, s)\<rparr>"

theorem xargs_runs_lines_witness:
  "xargs_main (log_xs [97, 32, 98, 10, 10, 32, 99]) [[121], [120]] [] = Some (0, [[[120], [97], [98]], [[120], [32, 99]]])"
  by (rule xargs_runs_lines [where bs = "[97, 32, 98, 10, 10, 32, 99]" and ?s1.0 = "[]"])
    (simp_all add: log_xs_def line_args_def Let_def)

end
