(* ===== verification/Conc.thy ===== *)
theory Conc
  imports Prelude
begin

text \<open>
  Programs of several threads, as the exercises in \<open>lab/lab8\<close> and the programs of \<open>user/src/phase4\<close>
  are: a state, and a partial function that makes one action in it, a step of a thread, \<open>None\<close> where
  the thread is blocked or has no such step. What the components share: reachability, deadlock, counting
  semaphores as POSIX has them, and counting the threads at a program counter.
\<close>

subsection \<open>Runs\<close>

inductive reach :: "('s \<Rightarrow> 'a \<Rightarrow> 's option) \<Rightarrow> 'a set \<Rightarrow> 's \<Rightarrow> 's \<Rightarrow> bool" for f A s0 where
  init: "reach f A s0 s0"
| act: "reach f A s0 s'" if "reach f A s0 s" and "a \<in> A" and "f s a = Some s'"

definition stuck :: "('s \<Rightarrow> 'a \<Rightarrow> 's option) \<Rightarrow> 'a set \<Rightarrow> 's \<Rightarrow> bool" where
  "stuck f A s \<longleftrightarrow> (\<forall>a \<in> A. f s a = None)"

fun run :: "('s \<Rightarrow> 'a \<Rightarrow> 's option) \<Rightarrow> 's \<Rightarrow> 'a list \<Rightarrow> 's option" where
  "run f s [] = Some s"
| "run f s (a # as) = Option.bind (f s a) (\<lambda>s. run f s as)"

lemma run_append: "run f s (as @ bs) = Option.bind (run f s as) (\<lambda>s. run f s bs)"
  by (induction as arbitrary: s) (auto split: Option.bind_split)

lemma run_reach: "run f s as = Some s' \<Longrightarrow> reach f A s0 s \<Longrightarrow> set as \<subseteq> A \<Longrightarrow> reach f A s0 s'"
proof (induction as arbitrary: s)
  case (Cons a as)
  then obtain s1 where "f s a = Some s1" "run f s1 as = Some s'" by (auto simp: bind_eq_Some_conv)
  then show ?case using Cons.IH [of s1] Cons.prems reach.act [of f A s0 s a s1] by auto
qed simp

text \<open>
  What an invariant needs; interpreted on every program. \<open>B\<close> is the part of the actions that are the
  threads' own steps, when the library can act as well.
\<close>

locale threads =
  fixes f :: "'s \<Rightarrow> 'a \<Rightarrow> 's option" and A B :: "'a set" and I :: "'s \<Rightarrow> bool" and good :: "'s \<Rightarrow> bool"
  assumes kept: "I s \<Longrightarrow> a \<in> A \<Longrightarrow> f s a = Some s' \<Longrightarrow> I s'"
    and start_good: "good s \<Longrightarrow> I s"
    and not_stuck: "I s \<Longrightarrow> \<exists>a \<in> B. f s a \<noteq> None"
begin

lemma always: "reach f A s0 s \<Longrightarrow> good s0 \<Longrightarrow> I s"
  by (induction rule: reach.induct) (auto intro: kept start_good)

lemma no_deadlock: "reach f A s0 s \<Longrightarrow> good s0 \<Longrightarrow> \<not> stuck f B s"
  using always not_stuck by (fastforce simp: stuck_def)

end

subsection \<open>Semaphores and mutexes\<close>

text \<open>\<open>sem_wait\<close> blocks while the value is 0. A mutex of the exercises is a semaphore with value 1.\<close>

definition sem_wait :: "nat \<Rightarrow> nat option" where
  "sem_wait v = (if v = 0 then None else Some (v - 1))"

definition sem_post :: "nat \<Rightarrow> nat" where
  "sem_post v = v + 1"

lemma sem_wait_Some [simp]: "sem_wait v = Some v' \<longleftrightarrow> v = Suc v'"
  by (auto simp: sem_wait_def)

lemma sem_wait_None [simp]: "sem_wait v = None \<longleftrightarrow> v = 0"
  by (simp add: sem_wait_def)

subsection \<open>Counting threads\<close>

definition num :: "nat \<Rightarrow> (nat \<Rightarrow> 'p) \<Rightarrow> 'p set \<Rightarrow> int" where
  "num n at X = (\<Sum>t<n. if at t \<in> X then 1 else 0)"

lemma num_upd [simp]:
  assumes "t < n"
  shows "num n (at(t := p)) X = num n at X - (if at t \<in> X then 1 else 0) + (if p \<in> X then 1 else 0)"
proof -
  have r: "sum g {..<n} = g t + sum g ({..<n} - {t})" for g :: "nat \<Rightarrow> int"
    by (rule sum.remove) (use assms in auto)
  have "(\<Sum>u\<in>{..<n} - {t}. if (at(t := p)) u \<in> X then 1 else 0) = (\<Sum>u\<in>{..<n} - {t}. if at u \<in> X then 1 else (0 :: int))"
    by (rule sum.cong) auto
  then show ?thesis unfolding num_def r by simp
qed

lemma num_nonneg [simp]: "0 \<le> num n at X"
  unfolding num_def by (rule sum_nonneg) simp

lemma num_pos: "t < n \<Longrightarrow> at t \<in> X \<Longrightarrow> 1 \<le> num n at X"
proof -
  assume "t < n" "at t \<in> X"
  then have "(\<Sum>u\<in>{t}. if at u \<in> X then 1 else 0) \<le> num n at X" unfolding num_def by (intro sum_mono2) auto
  then show ?thesis using \<open>at t \<in> X\<close> by simp
qed

lemma num_zero: "num n at X = 0 \<longleftrightarrow> (\<forall>t < n. at t \<notin> X)"
  unfolding num_def by (subst sum_nonneg_eq_0_iff) auto

lemma num_one:
  assumes "num n at X \<le> 1" and "t < n" and "at t \<in> X" and "u < n" and "at u \<in> X"
  shows "u = t"
proof (rule ccontr)
  assume "u \<noteq> t"
  have "(\<Sum>v\<in>{t, u}. if at v \<in> X then 1 else 0) \<le> num n at X"
    unfolding num_def by (rule sum_mono2) (use assms in auto)
  then show False using assms \<open>u \<noteq> t\<close> by simp
qed

lemma num_exists: "num n at X \<noteq> 0 \<Longrightarrow> \<exists>t < n. at t \<in> X"
  using num_zero [of n at X] by auto

lemma num_mono: "X \<subseteq> Y \<Longrightarrow> num n at X \<le> num n at Y"
  unfolding num_def by (rule sum_mono) auto

lemma num_const: "num n (\<lambda>_. p) X = (if p \<in> X then int n else 0)"
  by (simp add: num_def)

text \<open>A local variable of the threads at certain places, where at most one is.\<close>

definition sum_at :: "nat \<Rightarrow> (nat \<Rightarrow> 'p) \<Rightarrow> 'p set \<Rightarrow> (nat \<Rightarrow> int) \<Rightarrow> int" where
  "sum_at n at X g = (\<Sum>t<n. if at t \<in> X then g t else 0)"

lemma sum_at_upd:
  assumes "t < n"
  shows "sum_at n (at(t := p)) X (g(t := y)) = sum_at n at X g - (if at t \<in> X then g t else 0) + (if p \<in> X then y else 0)"
proof -
  have r: "sum h {..<n} = h t + sum h ({..<n} - {t})" for h :: "nat \<Rightarrow> int"
    by (rule sum.remove) (use assms in auto)
  have "(\<Sum>u\<in>{..<n} - {t}. if (at(t := p)) u \<in> X then (g(t := y)) u else 0) = (\<Sum>u\<in>{..<n} - {t}. if at u \<in> X then g u else 0)"
    by (rule sum.cong) auto
  then show ?thesis unfolding sum_at_def r by simp
qed

lemma sum_at_upd1:
  "t < n \<Longrightarrow> sum_at n (at(t := p)) X g = sum_at n at X g - (if at t \<in> X then g t else 0) + (if p \<in> X then g t else 0)"
  using sum_at_upd [of t n at p X g "g t"] by simp

lemma sum_at_var:
  "t < n \<Longrightarrow> sum_at n at X (g(t := y)) = sum_at n at X g - (if at t \<in> X then g t else 0) + (if at t \<in> X then y else 0)"
  using sum_at_upd [of t n at "at t" X g y] by simp

lemma sum_at_one:
  assumes "num n at X \<le> 1" and "t < n" and "at t \<in> X"
  shows "sum_at n at X g = g t"
proof -
  have "sum_at n at X g = (if at t \<in> X then g t else 0) + (\<Sum>u\<in>{..<n} - {t}. if at u \<in> X then g u else 0)"
    unfolding sum_at_def by (rule sum.remove) (use assms in auto)
  moreover have "(\<Sum>u\<in>{..<n} - {t}. if at u \<in> X then g u else 0) = 0"
    by (rule sum.neutral) (use num_one [OF assms] in auto)
  ultimately show ?thesis using assms(3) by simp
qed

lemma sum_at_none: "num n at X = 0 \<Longrightarrow> sum_at n at X g = 0"
  by (auto simp: num_zero sum_at_def intro: sum.neutral)

end
