(* ===== verification/Cond.thy ===== *)
theory Cond
  imports Conc
begin

text \<open>
  \<open>lab/lab8/condition.c\<close> and \<open>condition_mutex.c\<close>: producers and consumers with the condition variables of
  the C library, and without any. A mutex of the library is locked or not; \<open>cnd_wait\<close> unlocks and sleeps
  in one action, is woken by \<open>cnd_broadcast\<close> or, as the C standard allows, for no reason, and then locks.
  Thread \<open>t\<close> is a producer if \<open>t < np\<close>. One step is one statement that touches shared state.
\<close>

subsection \<open>State\<close>

text \<open>Where a thread is: outside the loop body, at the lock, at the \<open>while\<close>, in \<open>cnd_wait\<close>, and so on.\<close>

datatype mpc = Away | Enter | Test | Call | Sleep | Wake | Assert | Change | Bcast | Leave | Broken

record cndsys =
  mat :: "nat \<Rightarrow> mpc"
  locked :: bool
  mcnt :: int

datatype act = Step nat | Spurious nat

definition goto :: "cndsys \<Rightarrow> nat \<Rightarrow> mpc \<Rightarrow> cndsys" where
  "goto s t p = s\<lparr>mat := (mat s)(t := p)\<rparr>"

definition mtx_lock :: "bool \<Rightarrow> bool option" where
  "mtx_lock l = (if l then None else Some True)"

definition cnd_wait :: "cndsys \<Rightarrow> nat \<Rightarrow> cndsys option" where
  "cnd_wait s t = (case mat s t of
       Call \<Rightarrow> Some (goto (s\<lparr>locked := False\<rparr>) t Sleep)
     | Wake \<Rightarrow> do { l \<leftarrow> mtx_lock (locked s); Some (goto (s\<lparr>locked := l\<rparr>) t Test) }
     | _ \<Rightarrow> None)"

definition cnd_broadcast :: "cndsys \<Rightarrow> cndsys" where
  "cnd_broadcast s = s\<lparr>mat := (\<lambda>u. if mat s u = Sleep then Wake else mat s u)\<rparr>"

definition spurious :: "cndsys \<Rightarrow> nat \<Rightarrow> cndsys option" where
  "spurious s t = (if mat s t = Sleep then Some (goto s t Wake) else None)"

subsection \<open>With the condition variable\<close>

definition can_produce :: "int \<Rightarrow> cndsys \<Rightarrow> bool" where
  "can_produce buf_size s \<longleftrightarrow> mcnt s < buf_size"

definition can_consume :: "cndsys \<Rightarrow> bool" where
  "can_consume s \<longleftrightarrow> mcnt s > 0"

definition cnd_producer :: "int \<Rightarrow> cndsys \<Rightarrow> nat \<Rightarrow> cndsys option" where
  "cnd_producer buf_size s t = (case mat s t of
       Away \<Rightarrow> Some (goto s t Enter)
     | Enter \<Rightarrow> do { l \<leftarrow> mtx_lock (locked s); Some (goto (s\<lparr>locked := l\<rparr>) t Test) }
     | Test \<Rightarrow> Some (goto s t (if \<not> can_produce buf_size s then Call else Assert))
     | Assert \<Rightarrow> Some (goto s t (if can_produce buf_size s then Change else Broken))
     | Change \<Rightarrow> Some (goto (s\<lparr>mcnt := mcnt s + 1\<rparr>) t Bcast)
     | Bcast \<Rightarrow> Some (goto (cnd_broadcast s) t Leave)
     | Leave \<Rightarrow> Some (goto (s\<lparr>locked := False\<rparr>) t Away)
     | Broken \<Rightarrow> None
     | _ \<Rightarrow> cnd_wait s t)"

definition cnd_consumer :: "cndsys \<Rightarrow> nat \<Rightarrow> cndsys option" where
  "cnd_consumer s t = (case mat s t of
       Away \<Rightarrow> Some (goto s t Enter)
     | Enter \<Rightarrow> do { l \<leftarrow> mtx_lock (locked s); Some (goto (s\<lparr>locked := l\<rparr>) t Test) }
     | Test \<Rightarrow> Some (goto s t (if \<not> can_consume s then Call else Assert))
     | Assert \<Rightarrow> Some (goto s t (if can_consume s then Change else Broken))
     | Change \<Rightarrow> Some (goto (s\<lparr>mcnt := mcnt s - 1\<rparr>) t Bcast)
     | Bcast \<Rightarrow> Some (goto (cnd_broadcast s) t Leave)
     | Leave \<Rightarrow> Some (goto (s\<lparr>locked := False\<rparr>) t Away)
     | Broken \<Rightarrow> None
     | _ \<Rightarrow> cnd_wait s t)"

definition cnd_step :: "nat \<Rightarrow> int \<Rightarrow> cndsys \<Rightarrow> act \<Rightarrow> cndsys option" where
  "cnd_step np buf_size s a = (case a of
       Step t \<Rightarrow> if t < np then cnd_producer buf_size s t else cnd_consumer s t
     | Spurious t \<Rightarrow> spurious s t)"

subsection \<open>With the mutex alone\<close>

text \<open>Where the condition does not hold, \<open>goto retry\<close>: unlock, and try to lock again.\<close>

definition mtx_producer :: "int \<Rightarrow> cndsys \<Rightarrow> nat \<Rightarrow> cndsys option" where
  "mtx_producer buf_size s t = (case mat s t of
       Away \<Rightarrow> Some (goto s t Enter)
     | Enter \<Rightarrow> do { l \<leftarrow> mtx_lock (locked s); Some (goto (s\<lparr>locked := l\<rparr>) t Test) }
     | Test \<Rightarrow> Some (goto s t (if \<not> can_produce buf_size s then Call else Assert))
     | Call \<Rightarrow> Some (goto (s\<lparr>locked := False\<rparr>) t Enter)
     | Assert \<Rightarrow> Some (goto s t (if can_produce buf_size s then Change else Broken))
     | Change \<Rightarrow> Some (goto (s\<lparr>mcnt := mcnt s + 1\<rparr>) t Leave)
     | Leave \<Rightarrow> Some (goto (s\<lparr>locked := False\<rparr>) t Away)
     | _ \<Rightarrow> None)"

definition mtx_consumer :: "cndsys \<Rightarrow> nat \<Rightarrow> cndsys option" where
  "mtx_consumer s t = (case mat s t of
       Away \<Rightarrow> Some (goto s t Enter)
     | Enter \<Rightarrow> do { l \<leftarrow> mtx_lock (locked s); Some (goto (s\<lparr>locked := l\<rparr>) t Test) }
     | Test \<Rightarrow> Some (goto s t (if \<not> can_consume s then Call else Assert))
     | Call \<Rightarrow> Some (goto (s\<lparr>locked := False\<rparr>) t Enter)
     | Assert \<Rightarrow> Some (goto s t (if can_consume s then Change else Broken))
     | Change \<Rightarrow> Some (goto (s\<lparr>mcnt := mcnt s - 1\<rparr>) t Leave)
     | Leave \<Rightarrow> Some (goto (s\<lparr>locked := False\<rparr>) t Away)
     | _ \<Rightarrow> None)"

definition mtx_step :: "nat \<Rightarrow> int \<Rightarrow> cndsys \<Rightarrow> nat \<Rightarrow> cndsys option" where
  "mtx_step np buf_size s t = (if t < np then mtx_producer buf_size s t else mtx_consumer s t)"

subsection \<open>The start\<close>

fun str2int_loop :: "int \<Rightarrow> int list \<Rightarrow> int" where
  "str2int_loop res [] = res"
| "str2int_loop res (c # cs) = (if c = 0 then res else str2int_loop (res * 10 + c - 48) cs)"

text \<open>On the characters of the argument; out of the range of \<open>int\<close> the C code is undefined.\<close>

definition str2int :: "int list \<Rightarrow> int" where
  "str2int str = (case str of
       [] \<Rightarrow> 0
     | c # p \<Rightarrow> if c = 45 then - str2int_loop 0 p else if c = 43 then str2int_loop 0 p else str2int_loop 0 str)"

text \<open>The number of producers, of consumers, and the size of the buffer.\<close>

definition pc_args :: "int list list \<Rightarrow> (nat \<times> nat \<times> int) option" where
  "pc_args argv =
     (if length argv \<noteq> 4 then None
      else
        let np = str2int (argv ! 1); nc = str2int (argv ! 2); buf_size = str2int (argv ! 3) in
        if np > 0 \<and> nc > 0 \<and> buf_size > 0 then Some (nat np, nat nc, buf_size) else None)"

text \<open>\<open>main\<close>: producers start at \<open>produce_one\<close>, consumers at the lock.\<close>

definition cnd_start :: "nat \<Rightarrow> cndsys" where
  "cnd_start np = \<lparr>mat = \<lambda>t. if t < np then Away else Enter, locked = False, mcnt = 0\<rparr>"

definition cnd_main :: "int list list \<Rightarrow> (nat \<times> nat \<times> int \<times> cndsys) option" where
  "cnd_main argv = do { (np, nc, buf_size) \<leftarrow> pc_args argv; Some (np, nc, buf_size, cnd_start np) }"

definition mtx_main :: "int list list \<Rightarrow> (nat \<times> nat \<times> int \<times> cndsys) option" where
  "mtx_main argv = do { (np, nc, buf_size) \<leftarrow> pc_args argv; Some (np, nc, buf_size, cnd_start np) }"

lemma pc_args_pos: "pc_args argv = Some (np, nc, b) \<Longrightarrow> 0 < np \<and> 0 < nc \<and> 0 < b"
  by (auto simp: pc_args_def Let_def split: if_splits)

end
