(* ===== verification/CondSem.thy ===== *)
theory CondSem
  imports Cond
begin

text \<open>
  \<open>lab/lab8/condition_sem.c\<close> and \<open>condition_sem_false.c\<close>: condition variables made of semaphores, and
  producers and consumers on top. Thread \<open>t\<close> is a producer if \<open>t < np\<close>. One step is one statement that
  touches shared state. The exercise's \<open>int\<close>s stay between 0 and the number of threads or the size of
  the buffer, which are \<open>int\<close>s themselves.
\<close>

subsection \<open>State\<close>

text \<open>
  Where a thread is: \<open>W\<close> in \<open>my_cv_wait\<close>, \<open>B\<close> in \<open>my_cv_broadcast\<close>, one place for each of their
  statements, and \<open>Failed\<close> after an \<open>assert\<close> that did not hold.
\<close>

datatype pc = Idle | LockM | Check | W1 | W2 | W3 | W4 | W5 | W6 | W7 | Asrt | Act
  | B1 | B2 | B3 | B4 | B5 | B6 | B7 | UnlockM | Failed

text \<open>\<open>my_mutex_t mutex\<close>, the parts of \<open>my_cv_t cv\<close>, \<open>cnt\<close>, and the local \<open>i\<close> of each thread.\<close>

record cvsys =
  at :: "nat \<Rightarrow> pc"
  var_i :: "nat \<Rightarrow> int"
  mutex :: nat
  nwait :: int
  sleep :: nat
  cvlock :: nat
  handshake :: nat
  cnt :: int

definition go :: "cvsys \<Rightarrow> nat \<Rightarrow> pc \<Rightarrow> cvsys" where
  "go s t p = s\<lparr>at := (at s)(t := p)\<rparr>"

abbreviation (input) my_mutex_lock :: "nat \<Rightarrow> nat option" where "my_mutex_lock \<equiv> sem_wait"
abbreviation (input) my_mutex_unlock :: "nat \<Rightarrow> nat" where "my_mutex_unlock \<equiv> sem_post"

subsection \<open>The condition variable\<close>

definition my_cv_wait :: "cvsys \<Rightarrow> nat \<Rightarrow> cvsys option" where
  "my_cv_wait s t = (case at s t of
       W1 \<Rightarrow> do { v \<leftarrow> my_mutex_lock (cvlock s); Some (go (s\<lparr>cvlock := v\<rparr>) t W2) }
     | W2 \<Rightarrow> Some (go (s\<lparr>nwait := nwait s + 1\<rparr>) t W3)
     | W3 \<Rightarrow> Some (go (s\<lparr>cvlock := my_mutex_unlock (cvlock s)\<rparr>) t W4)
     | W4 \<Rightarrow> Some (go (s\<lparr>mutex := my_mutex_unlock (mutex s)\<rparr>) t W5)
     | W5 \<Rightarrow> do { v \<leftarrow> sem_wait (sleep s); Some (go (s\<lparr>sleep := v\<rparr>) t W6) }
     | W6 \<Rightarrow> Some (go (s\<lparr>handshake := sem_post (handshake s)\<rparr>) t W7)
     | W7 \<Rightarrow> do { v \<leftarrow> my_mutex_lock (mutex s); Some (go (s\<lparr>mutex := v\<rparr>) t Check) }
     | _ \<Rightarrow> None)"

definition my_cv_broadcast :: "cvsys \<Rightarrow> nat \<Rightarrow> cvsys option" where
  "my_cv_broadcast s t = (case at s t of
       B1 \<Rightarrow> do { v \<leftarrow> my_mutex_lock (cvlock s); Some (go (s\<lparr>cvlock := v\<rparr>) t B2) }
     | B2 \<Rightarrow> Some (go (s\<lparr>var_i := (var_i s)(t := 0)\<rparr>) t B3)
     | B3 \<Rightarrow> Some (go s t (if var_i s t < nwait s then B4 else B6))
     | B4 \<Rightarrow> Some (go (s\<lparr>sleep := sem_post (sleep s)\<rparr>) t B5)
     | B5 \<Rightarrow> do { v \<leftarrow> sem_wait (handshake s); Some (go (s\<lparr>handshake := v, var_i := (var_i s)(t := var_i s t + 1)\<rparr>) t B3) }
     | B6 \<Rightarrow> Some (go (s\<lparr>nwait := 0\<rparr>) t B7)
     | B7 \<Rightarrow> Some (go (s\<lparr>cvlock := my_mutex_unlock (cvlock s)\<rparr>) t UnlockM)
     | _ \<Rightarrow> None)"

text \<open>The same without the handshake.\<close>

definition false_cv_wait :: "cvsys \<Rightarrow> nat \<Rightarrow> cvsys option" where
  "false_cv_wait s t = (case at s t of
       W1 \<Rightarrow> do { v \<leftarrow> my_mutex_lock (cvlock s); Some (go (s\<lparr>cvlock := v\<rparr>) t W2) }
     | W2 \<Rightarrow> Some (go (s\<lparr>nwait := nwait s + 1\<rparr>) t W3)
     | W3 \<Rightarrow> Some (go (s\<lparr>cvlock := my_mutex_unlock (cvlock s)\<rparr>) t W4)
     | W4 \<Rightarrow> Some (go (s\<lparr>mutex := my_mutex_unlock (mutex s)\<rparr>) t W5)
     | W5 \<Rightarrow> do { v \<leftarrow> sem_wait (sleep s); Some (go (s\<lparr>sleep := v\<rparr>) t W7) }
     | W7 \<Rightarrow> do { v \<leftarrow> my_mutex_lock (mutex s); Some (go (s\<lparr>mutex := v\<rparr>) t Check) }
     | _ \<Rightarrow> None)"

definition false_cv_broadcast :: "cvsys \<Rightarrow> nat \<Rightarrow> cvsys option" where
  "false_cv_broadcast s t = (case at s t of
       B1 \<Rightarrow> do { v \<leftarrow> my_mutex_lock (cvlock s); Some (go (s\<lparr>cvlock := v\<rparr>) t B2) }
     | B2 \<Rightarrow> Some (go (s\<lparr>var_i := (var_i s)(t := 0)\<rparr>) t B3)
     | B3 \<Rightarrow> Some (go s t (if var_i s t < nwait s then B4 else B6))
     | B4 \<Rightarrow> Some (go (s\<lparr>sleep := sem_post (sleep s), var_i := (var_i s)(t := var_i s t + 1)\<rparr>) t B3)
     | B6 \<Rightarrow> Some (go (s\<lparr>nwait := 0\<rparr>) t B7)
     | B7 \<Rightarrow> Some (go (s\<lparr>cvlock := my_mutex_unlock (cvlock s)\<rparr>) t UnlockM)
     | _ \<Rightarrow> None)"

subsection \<open>Producers and consumers\<close>

definition PRODUCER_COND :: "int \<Rightarrow> cvsys \<Rightarrow> bool" where
  "PRODUCER_COND buf_size s \<longleftrightarrow> cnt s < buf_size"

definition CONSUMER_COND :: "cvsys \<Rightarrow> bool" where
  "CONSUMER_COND s \<longleftrightarrow> cnt s > 0"

text \<open>\<open>wait\<close> and \<open>bcast\<close> are the operations of the condition variable.\<close>

definition producer :: "(cvsys \<Rightarrow> nat \<Rightarrow> cvsys option) \<Rightarrow> (cvsys \<Rightarrow> nat \<Rightarrow> cvsys option) \<Rightarrow>
    int \<Rightarrow> cvsys \<Rightarrow> nat \<Rightarrow> cvsys option" where
  "producer wait bcast buf_size s t = (case at s t of
       Idle \<Rightarrow> Some (go s t LockM)
     | LockM \<Rightarrow> do { v \<leftarrow> my_mutex_lock (mutex s); Some (go (s\<lparr>mutex := v\<rparr>) t Check) }
     | Check \<Rightarrow> Some (go s t (if \<not> PRODUCER_COND buf_size s then W1 else Asrt))
     | Asrt \<Rightarrow> Some (go s t (if PRODUCER_COND buf_size s then Act else Failed))
     | Act \<Rightarrow> Some (go (s\<lparr>cnt := cnt s + 1\<rparr>) t B1)
     | UnlockM \<Rightarrow> Some (go (s\<lparr>mutex := my_mutex_unlock (mutex s)\<rparr>) t Idle)
     | Failed \<Rightarrow> None
     | p \<Rightarrow> if p \<in> {B1, B2, B3, B4, B5, B6, B7} then bcast s t else wait s t)"

definition consumer :: "(cvsys \<Rightarrow> nat \<Rightarrow> cvsys option) \<Rightarrow> (cvsys \<Rightarrow> nat \<Rightarrow> cvsys option) \<Rightarrow>
    cvsys \<Rightarrow> nat \<Rightarrow> cvsys option" where
  "consumer wait bcast s t = (case at s t of
       Idle \<Rightarrow> Some (go s t LockM)
     | LockM \<Rightarrow> do { v \<leftarrow> my_mutex_lock (mutex s); Some (go (s\<lparr>mutex := v\<rparr>) t Check) }
     | Check \<Rightarrow> Some (go s t (if \<not> CONSUMER_COND s then W1 else Asrt))
     | Asrt \<Rightarrow> Some (go s t (if CONSUMER_COND s then Act else Failed))
     | Act \<Rightarrow> Some (go (s\<lparr>cnt := cnt s - 1\<rparr>) t B1)
     | UnlockM \<Rightarrow> Some (go (s\<lparr>mutex := my_mutex_unlock (mutex s)\<rparr>) t Idle)
     | Failed \<Rightarrow> None
     | p \<Rightarrow> if p \<in> {B1, B2, B3, B4, B5, B6, B7} then bcast s t else wait s t)"

text \<open>\<open>Idle\<close> is \<open>produce_one\<close>, before the lock, and \<open>consume_one\<close>, after the unlock.\<close>

definition cv_step :: "nat \<Rightarrow> int \<Rightarrow> cvsys \<Rightarrow> nat \<Rightarrow> cvsys option" where
  "cv_step np buf_size s t = (if t < np then producer my_cv_wait my_cv_broadcast buf_size s t
     else consumer my_cv_wait my_cv_broadcast s t)"

definition false_producer :: "int \<Rightarrow> cvsys \<Rightarrow> nat \<Rightarrow> cvsys option" where
  "false_producer = producer false_cv_wait false_cv_broadcast"

definition false_consumer :: "cvsys \<Rightarrow> nat \<Rightarrow> cvsys option" where
  "false_consumer = consumer false_cv_wait false_cv_broadcast"

definition false_step :: "nat \<Rightarrow> int \<Rightarrow> cvsys \<Rightarrow> nat \<Rightarrow> cvsys option" where
  "false_step np buf_size s t = (if t < np then false_producer buf_size s t else false_consumer s t)"

subsection \<open>The start\<close>

definition my_cv_init :: "cvsys \<Rightarrow> cvsys" where
  "my_cv_init s = s\<lparr>nwait := 0, sleep := 0, cvlock := 1, handshake := 0\<rparr>"

definition my_mutex_init :: "cvsys \<Rightarrow> cvsys" where
  "my_mutex_init s = s\<lparr>mutex := 1\<rparr>"

text \<open>\<open>main\<close>: producers start at \<open>produce_one\<close>, consumers at the lock.\<close>

definition cv_start :: "nat \<Rightarrow> cvsys \<Rightarrow> cvsys" where
  "cv_start np s0 = my_cv_init (my_mutex_init (s0\<lparr>at := \<lambda>t. if t < np then Idle else LockM, cnt := 0\<rparr>))"

definition cv_main :: "cvsys \<Rightarrow> int list list \<Rightarrow> (nat \<times> nat \<times> int \<times> cvsys) option" where
  "cv_main s0 argv = do { (np, nc, buf_size) \<leftarrow> pc_args argv; Some (np, nc, buf_size, cv_start np s0) }"

text \<open>\<open>condition_sem_false.c\<close>, where there is no handshake to set up.\<close>

definition false_start :: "nat \<Rightarrow> cvsys \<Rightarrow> cvsys" where
  "false_start np s0 = my_mutex_init (s0\<lparr>nwait := 0, sleep := 0, cvlock := 1, cnt := 0,
     at := \<lambda>t. if t < np then Idle else LockM\<rparr>)"

definition false_main :: "cvsys \<Rightarrow> int list list \<Rightarrow> (nat \<times> nat \<times> int \<times> cvsys) option" where
  "false_main s0 argv = do { (np, nc, buf_size) \<leftarrow> pc_args argv; Some (np, nc, buf_size, false_start np s0) }"

end
