(* ===== verification/CondProps.thy ===== *)
theory CondProps
  imports Cond
begin

text \<open>
  The producers and consumers of \<open>condition.c\<close>: no assertion fails, the buffer never overflows, no thread
  sleeps through a wake-up meant for it, and they never block each other for good. \<open>condition_mutex.c\<close>
  does nothing that \<open>condition.c\<close> could not do.
\<close>

subsection \<open>The invariant\<close>

definition in_mtx :: "mpc set" where
  "in_mtx = {Test, Call, Assert, Change, Bcast, Leave}"

definition ccond :: "nat \<Rightarrow> int \<Rightarrow> cndsys \<Rightarrow> nat \<Rightarrow> bool" where
  "ccond np b s t = (if t < np then can_produce b s else can_consume s)"

definition cplace :: "nat \<Rightarrow> int \<Rightarrow> cndsys \<Rightarrow> bool \<Rightarrow> nat \<Rightarrow> bool" where
  "cplace np b s quiet t \<longleftrightarrow>
     (mat s t \<in> {Assert, Change} \<longrightarrow> ccond np b s t) \<and> (mat s t = Call \<longrightarrow> \<not> ccond np b s t) \<and>
     (mat s t = Sleep \<and> quiet \<longrightarrow> \<not> ccond np b s t) \<and> mat s t \<noteq> Broken"

definition cnd_counts :: "nat \<Rightarrow> int \<Rightarrow> cndsys \<Rightarrow> bool" where
  "cnd_counts n b s \<longleftrightarrow> num n (mat s) in_mtx = (if locked s then 1 else 0) \<and> 0 \<le> mcnt s \<and> mcnt s \<le> b"

definition cnd_inv :: "nat \<Rightarrow> nat \<Rightarrow> int \<Rightarrow> cndsys \<Rightarrow> bool" where
  "cnd_inv n np b s \<longleftrightarrow> cnd_counts n b s \<and> (\<forall>t < n. cplace np b s (num n (mat s) {Bcast} = 0) t)"

lemma goto_sel [simp]:
  "mat (goto s t p) = (mat s)(t := p)" "locked (goto s t p) = locked s" "mcnt (goto s t p) = mcnt s"
  by (simp_all add: goto_def)

lemma ccond_sel [simp]:
  "ccond np b (goto s t p) = ccond np b s" "ccond np b (s\<lparr>locked := l\<rparr>) = ccond np b s" "ccond np b (s\<lparr>mat := g\<rparr>) = ccond np b s"
  by (simp_all add: ccond_def can_produce_def can_consume_def fun_eq_iff)

lemma cnd_step_cases:
  "cnd_step np b s (Step t) = (case mat s t of
       Away \<Rightarrow> Some (goto s t Enter)
     | Enter \<Rightarrow> if locked s then None else Some (goto (s\<lparr>locked := True\<rparr>) t Test)
     | Test \<Rightarrow> Some (goto s t (if ccond np b s t then Assert else Call))
     | Call \<Rightarrow> Some (goto (s\<lparr>locked := False\<rparr>) t Sleep)
     | Sleep \<Rightarrow> None
     | Wake \<Rightarrow> if locked s then None else Some (goto (s\<lparr>locked := True\<rparr>) t Test)
     | Assert \<Rightarrow> Some (goto s t (if ccond np b s t then Change else Broken))
     | Change \<Rightarrow> Some (goto (s\<lparr>mcnt := if t < np then mcnt s + 1 else mcnt s - 1\<rparr>) t Bcast)
     | Bcast \<Rightarrow> Some (goto (cnd_broadcast s) t Leave)
     | Leave \<Rightarrow> Some (goto (s\<lparr>locked := False\<rparr>) t Away)
     | Broken \<Rightarrow> None)"
  by (cases "mat s t")
    (simp_all add: cnd_step_def cnd_producer_def cnd_consumer_def cnd_wait_def mtx_lock_def ccond_def)

lemma cnd_step_spurious: "cnd_step np b s (Spurious t) = (if mat s t = Sleep then Some (goto s t Wake) else None)"
  by (simp add: cnd_step_def spurious_def)

lemma num_wake: "num n (\<lambda>u. if g u = Sleep then Wake else g u) X = num n g X" if "Sleep \<in> X \<longleftrightarrow> Wake \<in> X"
  unfolding num_def by (rule sum.cong) (use that in auto)

lemma cnd_free:
  assumes "cnd_inv n np b s" and "t < n" and "mat s t \<in> in_mtx" and "u < n" and "u \<noteq> t"
  shows "mat s u \<notin> in_mtx"
proof -
  have "num n (mat s) in_mtx \<le> 1" using assms(1) by (simp add: cnd_inv_def cnd_counts_def)
  then show ?thesis using num_one assms by blast
qed

lemma cnd_quiet: "cnd_inv n np b s \<Longrightarrow> t < n \<Longrightarrow> mat s t \<in> in_mtx \<Longrightarrow> mat s t \<noteq> Bcast \<Longrightarrow> num n (mat s) {Bcast} = 0"
  unfolding num_zero using cnd_free [of n np b s t] by (fastforce simp: in_mtx_def)

lemma cnd_place: "cnd_inv n np b s \<Longrightarrow> u < n \<Longrightarrow> cplace np b s (num n (mat s) {Bcast} = 0) u"
  by (simp add: cnd_inv_def)

lemma cnd_free_step:
  assumes i: "cnd_inv n np b s" and t: "t < n" and c: "cnd_counts n b s'" and a: "mat s' = (mat s)(t := p)"
    and nb: "mat s t \<noteq> Bcast" "p \<noteq> Bcast" and same: "ccond np b s' = ccond np b s"
    and me: "cplace np b s' (num n (mat s) {Bcast} = 0) t"
  shows "cnd_inv n np b s'"
proof -
  have q: "num n (mat s') {Bcast} = num n (mat s) {Bcast}" using a t nb by simp
  have "cplace np b s' (num n (mat s) {Bcast} = 0) u" if "u < n" for u
    using cnd_place [OF i that] me a same by (cases "u = t") (simp_all add: cplace_def)
  then show ?thesis using c q by (simp add: cnd_inv_def)
qed

lemma cnd_change_step:
  assumes i: "cnd_inv n np b s" and t: "t < n" and h: "mat s t = Change"
  shows "cnd_inv n np b (goto (s\<lparr>mcnt := if t < np then mcnt s + 1 else mcnt s - 1\<rparr>) t Bcast)" (is "cnd_inv n np b ?s")
proof -
  have pl: "cplace np b s (num n (mat s) {Bcast} = 0) t" by (rule cnd_place [OF i t])
  have c: "cnd_counts n b ?s" using i t h pl
    by (auto simp: cnd_inv_def cnd_counts_def in_mtx_def cplace_def ccond_def can_produce_def can_consume_def)
  have q: "(num n (mat ?s) {Bcast} = 0) = False" using num_pos [of t n "mat ?s" "{Bcast}"] t by auto
  have "cplace np b ?s False u" if u: "u < n" for u
  proof (cases "u = t")
    case False
    then show ?thesis using cnd_free [OF i t _ u False] cnd_place [OF i u] h by (simp add: cplace_def in_mtx_def)
  qed (simp add: cplace_def)
  then show ?thesis unfolding cnd_inv_def q using c by blast
qed

lemma cnd_bcast_step:
  assumes i: "cnd_inv n np b s" and t: "t < n" and h: "mat s t = Bcast"
  shows "cnd_inv n np b (goto (cnd_broadcast s) t Leave)" (is "cnd_inv n np b ?s")
proof -
  have c: "cnd_counts n b ?s" using i t h
    by (simp add: cnd_inv_def cnd_counts_def num_wake in_mtx_def cnd_broadcast_def)
  have "cplace np b ?s q u" if u: "u < n" for u q
  proof (cases "u = t")
    case False
    then show ?thesis using cnd_free [OF i t _ u False] cnd_place [OF i u] h
      by (auto simp: cplace_def in_mtx_def cnd_broadcast_def)
  qed (simp add: cplace_def)
  then show ?thesis using c by (simp add: cnd_inv_def)
qed

lemma cnd_step_inv:
  assumes i: "cnd_inv n np b s" and t: "t < n" and st: "cnd_step np b s (Step t) = Some s'"
  shows "cnd_inv n np b s'"
proof (cases "mat s t \<in> {Change, Bcast}")
  case True
  then show ?thesis using cnd_change_step [OF i t] cnd_bcast_step [OF i t] st by (auto simp: cnd_step_cases)
next
  case False
  have c: "cnd_counts n b s" using i by (simp add: cnd_inv_def)
  have pl: "cplace np b s (num n (mat s) {Bcast} = 0) t" by (rule cnd_place [OF i t])
  have l: "locked s" if "mat s t \<in> in_mtx"
    using num_pos [OF t, of "mat s" in_mtx] that c by (simp add: cnd_counts_def split: if_splits)
  have c': "cnd_counts n b s'" using c t st False l pl
    by (cases "mat s t") (auto simp: cnd_step_cases cnd_counts_def in_mtx_def cplace_def split: if_splits)
  obtain p where p: "mat s' = (mat s)(t := p)" "p \<noteq> Bcast" "ccond np b s' = ccond np b s"
    using st False by (cases "mat s t") (auto simp: cnd_step_cases split: if_splits)
  have "cplace np b s' (num n (mat s) {Bcast} = 0) t" using pl st False
    by (cases "mat s t") (auto simp: cnd_step_cases cplace_def split: if_splits)
  then show ?thesis using cnd_free_step [OF i t c' p(1) _ p(2,3)] False by simp
qed

lemma spurious_inv: "cnd_inv n np b s \<Longrightarrow> t < n \<Longrightarrow> cnd_step np b s (Spurious t) = Some s' \<Longrightarrow> cnd_inv n np b s'"
  by (rule cnd_free_step [of n np b s t s' Wake])
    (auto simp: cnd_step_def spurious_def cnd_inv_def cnd_counts_def in_mtx_def cplace_def split: if_splits)

lemma cnd_start_inv: "0 < b \<Longrightarrow> cnd_inv n np b (cnd_start np)"
proof -
  assume "0 < b"
  have "num n (mat (cnd_start np)) in_mtx = 0" unfolding num_zero by (simp add: cnd_start_def in_mtx_def)
  then show ?thesis using \<open>0 < b\<close> by (simp add: cnd_inv_def cnd_counts_def cplace_def) (simp add: cnd_start_def)
qed

lemma cnd_moves:
  assumes i: "cnd_inv n np b s" and n: "0 < np" "np < n" and b: "0 < b"
  shows "\<exists>t < n. cnd_step np b s (Step t) \<noteq> None"
proof (cases "num n (mat s) in_mtx = 0")
  case True
  then have out: "mat s u \<notin> in_mtx" if "u < n" for u using that by (simp add: num_zero)
  have l: "\<not> locked s" using i True by (simp add: cnd_inv_def cnd_counts_def split: if_splits)
  have q: "num n (mat s) {Bcast} = 0" using out unfolding num_zero by (fastforce simp: in_mtx_def)
  have asleep: "mat s u = Sleep" if "u < n" "cnd_step np b s (Step u) = None" for u
    using cnd_place [OF i that(1)] out [OF that(1)] that(2) l
    by (cases "mat s u") (auto simp: cplace_def in_mtx_def cnd_step_cases)
  have "cplace np b s True u" if "u < n" for u using cnd_place [OF i that] q by simp
  then have "\<not> ccond np b s u" if "u < n" "mat s u = Sleep" for u using that by (simp add: cplace_def)
  from this [of 0] this [of np] have "\<not> (mat s 0 = Sleep \<and> mat s np = Sleep)"
    using n b unfolding ccond_def can_produce_def can_consume_def by auto
  then show ?thesis using asleep n by (meson order.strict_trans)
next
  case False
  then obtain t where t: "t < n" "mat s t \<in> in_mtx" using num_exists by blast
  then have "cnd_step np b s (Step t) \<noteq> None" by (auto simp: in_mtx_def cnd_step_cases)
  then show ?thesis using t(1) by blast
qed

definition acts :: "nat \<Rightarrow> act set" where
  "acts n = Step ` {..<n} \<union> Spurious ` {..<n}"

interpretation cnd: threads "cnd_step np b" "acts n" "Step ` {..<n}" "\<lambda>s. 0 < np \<and> np < n \<and> 0 < b \<and> cnd_inv n np b s"
    "\<lambda>s. 0 < np \<and> np < n \<and> 0 < b \<and> s = cnd_start np" for np n :: nat and b :: int
proof (unfold_locales, goal_cases)
  case (1 s a s')
  then show ?case by (auto simp: acts_def intro: cnd_step_inv spurious_inv)
next
  case (3 s)
  then show ?case using cnd_moves by blast
qed (simp add: cnd_start_inv)

lemma cnd_main_start: "cnd_main argv = Some (np, nc, b, s) \<Longrightarrow> s = cnd_start np \<and> 0 < np \<and> 0 < nc \<and> 0 < b"
  using pc_args_pos [of argv] by (auto simp: cnd_main_def bind_eq_Some_conv)

subsection \<open>Without the condition variable\<close>

text \<open>A thread that tries again has, for \<open>condition.c\<close>, been woken without a reason.\<close>

definition retries :: "cndsys \<Rightarrow> cndsys \<Rightarrow> bool" where
  "retries c a \<longleftrightarrow> locked a = locked c \<and> mcnt a = mcnt c \<and>
     (\<forall>u. mat c u \<notin> {Sleep, Wake, Bcast} \<and> mat a u = mat c u \<or> mat c u = Enter \<and> mat a u = Wake)"

lemma retries_goto:
  assumes "retries c a" and "p \<notin> {Sleep, Wake, Bcast}" and "q = p \<or> p = Enter \<and> q = Wake"
  shows "retries (goto c t p) (goto a t q)"
  using assms by (auto simp: retries_def)

lemma retries_change: "retries c a \<Longrightarrow> retries (c\<lparr>mcnt := x\<rparr>) (a\<lparr>mcnt := x\<rparr>)"
  by (simp add: retries_def)

lemma retries_locked: "retries c a \<Longrightarrow> retries (c\<lparr>locked := x\<rparr>) (a\<lparr>locked := x\<rparr>)"
  by (simp add: retries_def)

lemma retries_awake: "retries c a \<Longrightarrow> mat a u \<noteq> Sleep"
  by (auto simp: retries_def elim!: allE [of _ u])

lemma broadcast_awake: "(\<And>u. mat a u \<noteq> Sleep) \<Longrightarrow> cnd_broadcast a = a"
  by (simp add: cnd_broadcast_def)

lemma retries_cond: "retries c a \<Longrightarrow> ccond np b a = ccond np b c"
  by (simp add: retries_def ccond_def can_produce_def can_consume_def fun_eq_iff)

lemma mtx_step_cases:
  "mtx_step np b s t = (case mat s t of
       Away \<Rightarrow> Some (goto s t Enter)
     | Enter \<Rightarrow> if locked s then None else Some (goto (s\<lparr>locked := True\<rparr>) t Test)
     | Test \<Rightarrow> Some (goto s t (if ccond np b s t then Assert else Call))
     | Call \<Rightarrow> Some (goto (s\<lparr>locked := False\<rparr>) t Enter)
     | Assert \<Rightarrow> Some (goto s t (if ccond np b s t then Change else Broken))
     | Change \<Rightarrow> Some (goto (s\<lparr>mcnt := if t < np then mcnt s + 1 else mcnt s - 1\<rparr>) t Leave)
     | Leave \<Rightarrow> Some (goto (s\<lparr>locked := False\<rparr>) t Away)
     | _ \<Rightarrow> None)"
  by (cases "mat s t") (simp_all add: mtx_step_def mtx_producer_def mtx_consumer_def mtx_lock_def ccond_def)

lemma mtx_sim:
  assumes r: "retries c a" and st: "mtx_step np b c t = Some c'" and t: "t < n"
  shows "\<exists>as a'. set as \<subseteq> acts n \<and> run (cnd_step np b) a as = Some a' \<and> retries c' a'"
proof -
  have mt: "mat a t = mat c t \<or> mat c t = Enter \<and> mat a t = Wake" and eq: "locked a = locked c" "mcnt a = mcnt c"
    using r by (auto simp: retries_def)
  consider "mat c t = Call" | "mat c t = Change" | "mat c t \<noteq> Call" "mat c t \<noteq> Change" by blast
  then show ?thesis
  proof cases
    case Call: 1
    then show ?thesis using st mt t r eq
      by (intro exI [of _ "[Step t, Spurious t]"])
        (auto simp: acts_def cnd_step_cases cnd_step_spurious mtx_step_cases goto_def retries_def)
  next
    case Change: 2
    have "cnd_broadcast (goto (a\<lparr>mcnt := x\<rparr>) t Bcast) = goto (a\<lparr>mcnt := x\<rparr>) t Bcast" for x
      by (rule broadcast_awake) (use retries_awake [OF r] in auto)
    then show ?thesis using st mt t Change r eq
      by (intro exI [of _ "[Step t, Step t]"]) (auto simp: acts_def cnd_step_cases mtx_step_cases goto_def retries_def)
  next
    case 3
    then have "\<exists>a'. cnd_step np b a (Step t) = Some a' \<and> retries c' a'"
      using st mt eq r retries_cond [OF r, of np b]
      by (cases "mat c t") (auto simp: mtx_step_cases cnd_step_cases split: if_splits intro!: retries_goto retries_locked)
    then show ?thesis using t by (elim exE, intro exI [of _ "[Step t]"]) (auto simp: acts_def)
  qed
qed

lemma mtx_reach:
  assumes "reach (mtx_step np b) {..<n} (cnd_start np) c"
  shows "\<exists>a. reach (cnd_step np b) (acts n) (cnd_start np) a \<and> retries c a"
  using assms
proof (induction rule: reach.induct)
  case init
  have "retries (cnd_start np) (cnd_start np)" by (simp add: retries_def cnd_start_def)
  then show ?case by (intro exI [of _ "cnd_start np"] conjI reach.init)
next
  case (act c t c')
  then obtain a where a: "reach (cnd_step np b) (acts n) (cnd_start np) a" "retries c a" by blast
  obtain as a' where "set as \<subseteq> acts n" "run (cnd_step np b) a as = Some a'" "retries c' a'"
    using mtx_sim [OF a(2) act(3), of n] act(2) by auto
  then show ?case using run_reach [OF _ a(1)] by auto
qed

subsection \<open>Results\<close>

text \<open>
  \<open>lab/lab8/condition.c\<close>: whatever the order of its threads, and even if \<open>cnd_wait\<close> returns without
  a reason, no assertion fails, the buffer never overflows, and some thread can always make its next step
  without such a wake-up.
\<close>

lemma condition_never_stuck:
  assumes "cnd_main argv = Some (np, nc, b, s0)" and "reach (cnd_step np b) (acts (np + nc)) s0 s"
  shows "(\<forall>t < np + nc. mat s t \<noteq> Broken) \<and> 0 \<le> mcnt s \<and> mcnt s \<le> b \<and>
    \<not> stuck (cnd_step np b) (Step ` {..<np + nc}) s"
proof -
  have m: "s0 = cnd_start np" "0 < np" "0 < nc" "0 < b" using cnd_main_start [OF assms(1)] by auto
  have "cnd_inv (np + nc) np b s" using cnd.always [OF assms(2)] m by auto
  then show ?thesis using cnd.no_deadlock [OF assms(2)] m by (auto simp: cnd_inv_def cnd_counts_def cplace_def)
qed

text \<open>
  \<open>lab/lab8/condition_mutex.c\<close>, which polls, does nothing that \<open>condition.c\<close> could not do: each state it
  reaches is one of \<open>condition.c\<close>, where a thread that tries again was woken by chance.
\<close>

lemma condition_mutex_refines:
  assumes "mtx_main argv = Some (np, nc, b, s0)" and "reach (mtx_step np b) {..<np + nc} s0 c"
  shows "\<exists>a. reach (cnd_step np b) (acts (np + nc)) s0 a \<and> retries c a"
proof -
  have "s0 = cnd_start np" using assms(1) by (auto simp: mtx_main_def bind_eq_Some_conv)
  then show ?thesis using mtx_reach assms(2) by blast
qed

definition demo_args :: "int list list" where
  "demo_args = [[99], [49], [49], [49]]"

lemma demo_pc: "pc_args demo_args = Some (1, 1, 1)"
  by (simp add: demo_args_def pc_args_def str2int_def)

text \<open>The consumer sleeps, the producer makes an item and wakes it.\<close>

lemma cnd_demo: "run (cnd_step 1 1) (cnd_start 1) (map Step ([1, 1, 1] @ replicate 7 0)) =
    Some \<lparr>mat = (\<lambda>t. if t < 1 then Away else Enter)(1 := Wake, 0 := Away), locked = False, mcnt = 1\<rparr>"
  by (simp add: eval_nat_numeral cnd_step_cases ccond_def can_produce_def can_consume_def cnd_start_def goto_def cnd_broadcast_def fun_eq_iff)

lemma condition_never_stuck_example:
  "\<exists>s. reach (cnd_step 1 1) (acts (1 + 1)) (cnd_start 1) s \<and> mcnt s = 1 \<and> \<not> stuck (cnd_step 1 1) (Step ` {..<1 + 1}) s"
proof -
  have r: "reach (cnd_step 1 1) (acts (1 + 1)) (cnd_start 1)
    \<lparr>mat = (\<lambda>t. if t < 1 then Away else Enter)(1 := Wake, 0 := Away), locked = False, mcnt = 1\<rparr>"
    by (rule run_reach [OF cnd_demo reach.init]) (auto simp: acts_def)
  show ?thesis using condition_never_stuck [OF _ r, of demo_args] r
    by (intro exI conjI) (auto simp: cnd_main_def demo_pc)
qed

text \<open>Polling: the consumer tries twice, then the producer makes an item.\<close>

lemma mtx_demo: "run (mtx_step 1 1) (cnd_start 1) ([1, 1, 1, 1, 1, 1] @ replicate 6 0) =
    Some \<lparr>mat = (\<lambda>t. if t < 1 then Away else Enter)(1 := Enter, 0 := Away), locked = False, mcnt = 1\<rparr>"
  by (simp add: eval_nat_numeral mtx_step_cases ccond_def can_produce_def can_consume_def cnd_start_def goto_def)

lemma condition_mutex_refines_example:
  "\<exists>a. reach (cnd_step 1 1) (acts (1 + 1)) (cnd_start 1) a \<and> mcnt a = 1"
proof -
  have r: "reach (mtx_step 1 1) {..<1 + 1} (cnd_start 1)
    \<lparr>mat = (\<lambda>t. if t < 1 then Away else Enter)(1 := Enter, 0 := Away), locked = False, mcnt = 1\<rparr>"
    by (rule run_reach [OF mtx_demo reach.init]) auto
  show ?thesis using condition_mutex_refines [OF _ r, of demo_args] by (auto simp: mtx_main_def demo_pc retries_def)
qed

end
