(* ===== verification/CondSemProps.thy ===== *)
theory CondSemProps
  imports CondSem CondProps
begin

text \<open>
  The condition variable with the handshake works: no assertion of the program fails, the buffer never
  overflows, a broadcast reaches everyone who waits, and the threads never block each other for good.
  Without the handshake, two threads can.
\<close>

subsection \<open>The invariant\<close>

definition in_mutex :: "pc set" where
  "in_mutex = {Check, W1, W2, W3, W4, Asrt, Act, B1, B2, B3, B4, B5, B6, B7, UnlockM}"

definition in_cvlock :: "pc set" where
  "in_cvlock = {W2, W3, B2, B3, B4, B5, B6, B7}"

definition cond :: "nat \<Rightarrow> int \<Rightarrow> cvsys \<Rightarrow> nat \<Rightarrow> bool" where
  "cond np buf_size s t = (if t < np then PRODUCER_COND buf_size s else CONSUMER_COND s)"

text \<open>\<open>nwait\<close> counts who is in \<open>wait\<close>, and those the current broadcast has already let go.\<close>

definition counts :: "nat \<Rightarrow> int \<Rightarrow> cvsys \<Rightarrow> bool" where
  "counts n buf_size s \<longleftrightarrow>
     int (mutex s) + num n (at s) in_mutex = 1 \<and> int (cvlock s) + num n (at s) in_cvlock = 1 \<and>
     nwait s = sum_at n (at s) {B3, B4, B5, B6} (var_i s) + num n (at s) {W3, W4, W5} + num n (at s) {W6} +
       int (handshake s) \<and>
     int (sleep s) + num n (at s) {W6} + int (handshake s) = num n (at s) {B5} \<and> 0 \<le> cnt s \<and> cnt s \<le> buf_size"

text \<open>Whoever waits has reason to, unless a broadcast is on its way.\<close>

definition place :: "nat \<Rightarrow> int \<Rightarrow> cvsys \<Rightarrow> bool \<Rightarrow> nat \<Rightarrow> bool" where
  "place np buf_size s quiet t \<longleftrightarrow>
     (at s t \<in> {Asrt, Act} \<longrightarrow> cond np buf_size s t) \<and>
     (at s t \<in> {W1, W2, W3, W4} \<longrightarrow> \<not> cond np buf_size s t) \<and>
     (at s t = W5 \<and> quiet \<longrightarrow> \<not> cond np buf_size s t) \<and>
     (at s t \<in> {B4, B5} \<longrightarrow> var_i s t < nwait s) \<and> (at s t = B6 \<longrightarrow> nwait s \<le> var_i s t) \<and> at s t \<noteq> Failed"

definition in_change :: "pc set" where
  "in_change = {B1, B2, B3, B4, B5, B6}"

definition cv_inv :: "nat \<Rightarrow> nat \<Rightarrow> int \<Rightarrow> cvsys \<Rightarrow> bool" where
  "cv_inv n np buf_size s \<longleftrightarrow> counts n buf_size s \<and>
     (\<forall>t < n. place np buf_size s (num n (at s) in_change = 0) t)"

lemma go_sel [simp]:
  "at (go s t p) = (at s)(t := p)" "var_i (go s t p) = var_i s" "mutex (go s t p) = mutex s" "nwait (go s t p) = nwait s"
  "sleep (go s t p) = sleep s" "cvlock (go s t p) = cvlock s" "handshake (go s t p) = handshake s" "cnt (go s t p) = cnt s"
  by (simp_all add: go_def)

lemma cond_sel [simp]:
  "cond np b (go s t p) = cond np b s" "cond np b (s\<lparr>mutex := v\<rparr>) = cond np b s" "cond np b (s\<lparr>nwait := w\<rparr>) = cond np b s"
  "cond np b (s\<lparr>sleep := v\<rparr>) = cond np b s" "cond np b (s\<lparr>cvlock := v\<rparr>) = cond np b s"
  "cond np b (s\<lparr>handshake := v\<rparr>) = cond np b s" "cond np b (s\<lparr>var_i := g\<rparr>) = cond np b s"
  by (simp_all add: cond_def PRODUCER_COND_def CONSUMER_COND_def fun_eq_iff)

text \<open>One step of a thread, by the place it is at.\<close>

lemma cv_step_cases:
  "cv_step np buf_size s t = (case at s t of
       Idle \<Rightarrow> Some (go s t LockM)
     | LockM \<Rightarrow> map_option (\<lambda>v. go (s\<lparr>mutex := v\<rparr>) t Check) (sem_wait (mutex s))
     | Check \<Rightarrow> Some (go s t (if cond np buf_size s t then Asrt else W1))
     | Asrt \<Rightarrow> Some (go s t (if cond np buf_size s t then Act else Failed))
     | Act \<Rightarrow> Some (go (s\<lparr>cnt := if t < np then cnt s + 1 else cnt s - 1\<rparr>) t B1)
     | UnlockM \<Rightarrow> Some (go (s\<lparr>mutex := mutex s + 1\<rparr>) t Idle)
     | Failed \<Rightarrow> None
     | p \<Rightarrow> if p \<in> {B1, B2, B3, B4, B5, B6, B7} then my_cv_broadcast s t else my_cv_wait s t)"
  by (cases "at s t")
    (auto simp: cv_step_def producer_def consumer_def cond_def sem_post_def map_option_case split: Option.bind_split option.splits)

lemmas step_simps = cv_step_cases my_cv_wait_def my_cv_broadcast_def sem_post_def bind_eq_Some_conv
lemmas count_simps = counts_def sum_at_upd1 sum_at_var in_mutex_def in_cvlock_def

lemma others_free:
  assumes "cv_inv n np b s" and "t < n" and "at s t \<in> in_mutex" and "u < n" and "u \<noteq> t"
  shows "at s u \<notin> in_mutex"
proof -
  have "num n (at s) in_mutex \<le> 1" using assms(1) unfolding cv_inv_def counts_def by linarith
  then show ?thesis using num_one assms by blast
qed

lemma in_change_mutex: "in_change \<subseteq> in_mutex"
  by (auto simp: in_mutex_def in_change_def)

lemma holder_quiet: "cv_inv n np b s \<Longrightarrow> t < n \<Longrightarrow> at s t \<in> in_mutex \<Longrightarrow> at s t \<notin> in_change \<Longrightarrow> num n (at s) in_change = 0"
  unfolding num_zero using others_free in_change_mutex by blast

lemma inv_place: "cv_inv n np b s \<Longrightarrow> u < n \<Longrightarrow> place np b s (num n (at s) in_change = 0) u"
  by (simp add: cv_inv_def)

text \<open>A step keeps the invariant if the thread does not hold the mutex; if it does and is not broadcasting; if it is.\<close>

lemma free_step:
  assumes i: "cv_inv n np b s" and t: "t < n" and c: "counts n b s'" and a: "at s' = (at s)(t := p)"
    and nch: "at s t \<notin> in_change" "p \<notin> in_change"
    and same: "cond np b s' = cond np b s" "var_i s' = var_i s" "nwait s' = nwait s"
    and me: "place np b s' (num n (at s) in_change = 0) t"
  shows "cv_inv n np b s'"
proof -
  have q: "num n (at s') in_change = num n (at s) in_change" using a t nch by simp
  have "place np b s' (num n (at s) in_change = 0) u" if "u < n" for u
    using inv_place [OF i that] me a same by (cases "u = t") (simp_all add: place_def)
  then show ?thesis using c q by (simp add: cv_inv_def)
qed

lemma place_out:
  assumes "at s u \<notin> in_mutex" and "place np b s q u" and "at s' u = at s u" and "at s u = W5 \<Longrightarrow> q' \<Longrightarrow> \<not> cond np b s' u"
  shows "place np b s' q' u"
  using assms by (auto simp: place_def in_mutex_def)

lemma quiet_step:
  assumes i: "cv_inv n np b s" and t: "t < n" and c: "counts n b s'" and a: "at s' = (at s)(t := p)"
    and h: "at s t \<in> in_mutex" "at s t \<notin> in_change" and nch: "p \<notin> in_change"
    and same: "cond np b s' = cond np b s" and me: "place np b s' True t"
  shows "cv_inv n np b s'"
proof -
  have q: "num n (at s) in_change = 0" by (rule holder_quiet [OF i t h])
  then have q': "num n (at s') in_change = 0" using a t nch h by simp
  have "place np b s' True u" if u: "u < n" for u
  proof (cases "u = t")
    case False
    have pl: "place np b s True u" using inv_place [OF i u] q by simp
    show ?thesis
      by (rule place_out [OF others_free [OF i t h(1) u False] pl]) (use a False same pl in \<open>auto simp: place_def\<close>)
  qed (use me in simp)
  then show ?thesis using c q' by (simp add: cv_inv_def)
qed

lemma change_step:
  assumes i: "cv_inv n np b s" and t: "t < n" and c: "counts n b s'" and a: "at s' = (at s)(t := p)"
    and h: "at s t \<in> in_mutex" and p: "p \<in> in_change \<or> (\<forall>u < n. at s u \<noteq> W5)"
    and me: "\<And>q. place np b s' q t"
  shows "cv_inv n np b s'"
proof -
  have "place np b s' (num n (at s') in_change = 0) u" if u: "u < n" for u
  proof (cases "u = t")
    case False
    have "num n (at s') in_change \<noteq> 0" if "p \<in> in_change" using that a t num_zero [of n "at s'" in_change] by auto
    then show ?thesis using p a False u
      by (intro place_out [OF others_free [OF i t h u False] inv_place [OF i u]]) auto
  qed (use me in simp)
  then show ?thesis using c by (simp add: cv_inv_def)
qed

lemmas places = place_def in_mutex_def in_change_def

lemma sum_at_loop:
  assumes i: "cv_inv n np b s" and t: "t < n" "at s t \<in> {B3, B4, B5, B6}"
  shows "sum_at n (at s) {B3, B4, B5, B6} (var_i s) = var_i s t"
proof -
  have "num n (at s) in_cvlock \<le> 1" using i unfolding cv_inv_def counts_def by linarith
  then have "num n (at s) {B3, B4, B5, B6} \<le> 1"
    by (rule order_trans [rotated]) (auto intro!: num_mono simp: in_cvlock_def)
  then show ?thesis by (rule sum_at_one) (use t in simp_all)
qed

text \<open>When the loop of \<open>my_cv_broadcast\<close> ends, nobody is left asleep.\<close>

lemma nobody_left:
  assumes i: "cv_inv n np b s" and t: "t < n" and p: "at s t = B6"
  shows "num n (at s) {W3, W4, W5} = 0 \<and> num n (at s) {W6} = 0 \<and> handshake s = 0 \<and>
    sum_at n (at s) {B3, B4, B5, B6} (var_i s) = var_i s t"
proof -
  have si: "sum_at n (at s) {B3, B4, B5, B6} (var_i s) = var_i s t" using sum_at_loop [OF i t] p by simp
  have "nwait s \<le> var_i s t" using inv_place [OF i t] p by (simp add: place_def)
  moreover have "nwait s = var_i s t + num n (at s) {W3, W4, W5} + num n (at s) {W6} + int (handshake s)"
    using i si by (simp add: cv_inv_def counts_def)
  ultimately have "num n (at s) {W3, W4, W5} = 0" "num n (at s) {W6} = 0" "handshake s = 0"
    using num_nonneg [of n "at s" "{W3, W4, W5}"] num_nonneg [of n "at s" "{W6}"] by linarith+
  then show ?thesis using si by simp
qed

lemma cv_step_inv:
  assumes i: "cv_inv n np b s" and t: "t < n" and st: "cv_step np b s t = Some s'"
  shows "cv_inv n np b s'"
proof -
  have c: "counts n b s" using i by (simp add: cv_inv_def)
  have pl: "place np b s (num n (at s) in_change = 0) t" by (rule inv_place [OF i t])
  show ?thesis
  proof (cases "at s t")
    case Idle
    then have s': "s' = go s t LockM" using st by (simp add: step_simps)
    have c': "counts n b s'" using c t Idle unfolding s' by (auto simp: count_simps)
    show ?thesis using pl Idle unfolding s'
      by (intro free_step [OF i t c' [unfolded s']]) (auto simp: places split: if_splits)
  next
    case LockM
    then obtain v where v: "mutex s = Suc v" and s': "s' = go (s\<lparr>mutex := v\<rparr>) t Check" using st by (auto simp: step_simps)
    have c': "counts n b s'" using c t LockM v unfolding s' by (auto simp: count_simps)
    show ?thesis using pl LockM unfolding s'
      by (intro free_step [OF i t c' [unfolded s']]) (auto simp: places split: if_splits)
  next
    case Check
    then have s': "s' = go s t (if cond np b s t then Asrt else W1)" using st by (simp add: step_simps)
    have c': "counts n b s'" using c t Check unfolding s' by (auto simp: count_simps)
    show ?thesis using pl Check unfolding s'
      by (intro quiet_step [OF i t c' [unfolded s']]) (auto simp: places split: if_splits)
  next
    case W1
    then obtain v where v: "cvlock s = Suc v" and s': "s' = go (s\<lparr>cvlock := v\<rparr>) t W2" using st by (auto simp: step_simps)
    have c': "counts n b s'" using c t W1 v unfolding s' by (auto simp: count_simps)
    show ?thesis using pl W1 unfolding s'
      by (intro quiet_step [OF i t c' [unfolded s']]) (auto simp: places split: if_splits)
  next
    case W2
    then have s': "s' = go (s\<lparr>nwait := nwait s + 1\<rparr>) t W3" using st by (simp add: step_simps)
    have c': "counts n b s'" using c t W2 unfolding s' by (auto simp: count_simps)
    show ?thesis using pl W2 unfolding s'
      by (intro quiet_step [OF i t c' [unfolded s']]) (auto simp: places split: if_splits)
  next
    case W3
    then have s': "s' = go (s\<lparr>cvlock := cvlock s + 1\<rparr>) t W4" using st by (simp add: step_simps)
    have c': "counts n b s'" using c t W3 unfolding s' by (auto simp: count_simps)
    show ?thesis using pl W3 unfolding s'
      by (intro quiet_step [OF i t c' [unfolded s']]) (auto simp: places split: if_splits)
  next
    case W4
    then have s': "s' = go (s\<lparr>mutex := mutex s + 1\<rparr>) t W5" using st by (simp add: step_simps)
    have c': "counts n b s'" using c t W4 unfolding s' by (auto simp: count_simps)
    show ?thesis using pl W4 unfolding s'
      by (intro quiet_step [OF i t c' [unfolded s']]) (auto simp: places split: if_splits)
  next
    case W5
    then obtain v where v: "sleep s = Suc v" and s': "s' = go (s\<lparr>sleep := v\<rparr>) t W6" using st by (auto simp: step_simps)
    have c': "counts n b s'" using c t W5 v unfolding s' by (auto simp: count_simps)
    show ?thesis using pl W5 unfolding s'
      by (intro free_step [OF i t c' [unfolded s']]) (auto simp: places split: if_splits)
  next
    case W6
    then have s': "s' = go (s\<lparr>handshake := handshake s + 1\<rparr>) t W7" using st by (simp add: step_simps)
    have c': "counts n b s'" using c t W6 unfolding s' by (auto simp: count_simps)
    show ?thesis using pl W6 unfolding s'
      by (intro free_step [OF i t c' [unfolded s']]) (auto simp: places split: if_splits)
  next
    case W7
    then obtain v where v: "mutex s = Suc v" and s': "s' = go (s\<lparr>mutex := v\<rparr>) t Check" using st by (auto simp: step_simps)
    have c': "counts n b s'" using c t W7 v unfolding s' by (auto simp: count_simps)
    show ?thesis using pl W7 unfolding s'
      by (intro free_step [OF i t c' [unfolded s']]) (auto simp: places split: if_splits)
  next
    case Asrt
    then have s': "s' = go s t (if cond np b s t then Act else Failed)" using st by (simp add: step_simps)
    have c': "counts n b s'" using c t Asrt pl unfolding s' by (auto simp: count_simps place_def)
    show ?thesis using pl Asrt unfolding s'
      by (intro quiet_step [OF i t c' [unfolded s']]) (auto simp: places split: if_splits)
  next
    case Act
    then have s': "s' = go (s\<lparr>cnt := if t < np then cnt s + 1 else cnt s - 1\<rparr>) t B1" using st by (simp add: step_simps)
    have c': "counts n b s'" using c t Act pl unfolding s' by (auto simp: count_simps place_def cond_def PRODUCER_COND_def CONSUMER_COND_def)
    show ?thesis using pl Act unfolding s'
      by (intro change_step [OF i t c' [unfolded s']]) (auto simp: places split: if_splits)
  next
    case B1
    then obtain v where v: "cvlock s = Suc v" and s': "s' = go (s\<lparr>cvlock := v\<rparr>) t B2" using st by (auto simp: step_simps)
    have c': "counts n b s'" using c t B1 v unfolding s' by (auto simp: count_simps)
    show ?thesis using pl B1 unfolding s'
      by (intro change_step [OF i t c' [unfolded s']]) (auto simp: places split: if_splits)
  next
    case B2
    then have s': "s' = go (s\<lparr>var_i := (var_i s)(t := 0)\<rparr>) t B3" using st by (simp add: step_simps)
    have c': "counts n b s'" using c t B2 unfolding s' by (auto simp: count_simps)
    show ?thesis using pl B2 unfolding s'
      by (intro change_step [OF i t c' [unfolded s']]) (auto simp: places split: if_splits)
  next
    case B3
    then have s': "s' = go s t (if var_i s t < nwait s then B4 else B6)" using st by (simp add: step_simps)
    have c': "counts n b s'" using c t B3 unfolding s' by (auto simp: count_simps)
    show ?thesis using pl B3 unfolding s'
      by (intro change_step [OF i t c' [unfolded s']]) (auto simp: places split: if_splits)
  next
    case B4
    then have s': "s' = go (s\<lparr>sleep := sleep s + 1\<rparr>) t B5" using st by (simp add: step_simps)
    have c': "counts n b s'" using c t B4 unfolding s' by (auto simp: count_simps)
    show ?thesis using pl B4 unfolding s'
      by (intro change_step [OF i t c' [unfolded s']]) (auto simp: places split: if_splits)
  next
    case B5
    then obtain v where v: "handshake s = Suc v" and s': "s' = go (s\<lparr>handshake := v, var_i := (var_i s)(t := var_i s t + 1)\<rparr>) t B3" using st by (auto simp: step_simps)
    have c': "counts n b s'" using c t B5 v unfolding s' by (auto simp: count_simps)
    show ?thesis using pl B5 unfolding s'
      by (intro change_step [OF i t c' [unfolded s']]) (auto simp: places split: if_splits)
  next
    case B6
    then have s': "s' = go (s\<lparr>nwait := 0\<rparr>) t B7" using st by (simp add: step_simps)
    have w: "num n (at s) {W3, W4, W5} = 0" "num n (at s) {W6} = 0" "handshake s = 0"
        "sum_at n (at s) {B3, B4, B5, B6} (var_i s) = var_i s t"
      using nobody_left [OF i t B6] by simp_all
    have c': "counts n b s'" using c t B6 w unfolding s' by (auto simp: count_simps)
    show ?thesis using pl B6 w(1) unfolding s'
      by (intro change_step [OF i t c' [unfolded s']]) (auto simp: places num_zero)
  next
    case B7
    then have s': "s' = go (s\<lparr>cvlock := cvlock s + 1\<rparr>) t UnlockM" using st by (simp add: step_simps)
    have c': "counts n b s'" using c t B7 unfolding s' by (auto simp: count_simps)
    show ?thesis using pl B7 unfolding s'
      by (intro quiet_step [OF i t c' [unfolded s']]) (auto simp: places split: if_splits)
  next
    case UnlockM
    then have s': "s' = go (s\<lparr>mutex := mutex s + 1\<rparr>) t Idle" using st by (simp add: step_simps)
    have c': "counts n b s'" using c t UnlockM unfolding s' by (auto simp: count_simps)
    show ?thesis using pl UnlockM unfolding s'
      by (intro quiet_step [OF i t c' [unfolded s']]) (auto simp: places split: if_splits)
  next
    case Failed
    then show ?thesis using st by (simp add: step_simps)
  qed
qed

lemma cv_start_inv: "0 < b \<Longrightarrow> cv_inv n np b (cv_start np s0)"
proof -
  assume "0 < b"
  have z: "num n (at (cv_start np s0)) X = 0" if "Idle \<notin> X" "LockM \<notin> X" for X
    unfolding num_zero using that by (simp add: cv_start_def my_cv_init_def my_mutex_init_def)
  have "sum_at n (at (cv_start np s0)) {B3, B4, B5, B6} g = 0" for g by (rule sum_at_none, rule z) simp_all
  then have "counts n b (cv_start np s0)"
    using z [of in_mutex] z [of in_cvlock] z [of "{W3, W4, W5}"] z [of "{W6}"] z [of "{B5}"] \<open>0 < b\<close>
    by (simp add: counts_def in_mutex_def in_cvlock_def) (simp add: cv_start_def my_cv_init_def my_mutex_init_def)
  then show ?thesis
    by (simp add: cv_inv_def place_def) (simp add: cv_start_def my_cv_init_def my_mutex_init_def)
qed

subsection \<open>Someone can always move\<close>

lemma holder_moves:
  assumes i: "cv_inv n np b s" and t: "t < n" and h: "at s t \<in> in_mutex"
  shows "\<exists>u < n. cv_step np b s u \<noteq> None"
proof -
  have c: "counts n b s" using i by (simp add: cv_inv_def)
  have free: "cvlock s \<noteq> 0" if "at s t \<notin> in_cvlock"
  proof -
    have "num n (at s) in_cvlock = 0"
      unfolding num_zero using others_free [OF i t h] that by (fastforce simp: in_mutex_def in_cvlock_def)
    then show ?thesis using c by (simp add: counts_def)
  qed
  show ?thesis
  proof (cases "at s t = B5")
    case B5: True
    have pos: "1 \<le> num n (at s) {B5}" using t B5 by (intro num_pos) auto
    have si: "sum_at n (at s) {B3, B4, B5, B6} (var_i s) = var_i s t" using sum_at_loop [OF i t] B5 by simp
    have lt: "var_i s t < nwait s" using inv_place [OF i t] B5 by (simp add: place_def)
    consider (h) "handshake s \<noteq> 0" | (w) "num n (at s) {W6} \<noteq> 0"
      | (s) "handshake s = 0" "num n (at s) {W6} = 0" "sleep s \<noteq> 0"
      using c pos unfolding counts_def by linarith
    then show ?thesis
    proof cases
      case h
      then show ?thesis using t B5 by (intro exI [of _ t]) (auto simp: step_simps gr0_conv_Suc split: Option.bind_split)
    next
      case w
      then obtain u where "u < n" "at s u = W6" using num_exists by fastforce
      then show ?thesis by (intro exI [of _ u]) (simp add: step_simps)
    next
      case s
      then have "num n (at s) {W3, W4, W5} \<noteq> 0" using c si lt by (simp add: counts_def)
      then obtain u where u: "u < n" "at s u \<in> {W3, W4, W5}" using num_exists by blast
      then have "u \<noteq> t" using B5 by auto
      then have "at s u = W5" using others_free [OF i t h u(1)] u(2) by (auto simp: in_mutex_def)
      then show ?thesis using u(1) s(3) by (intro exI [of _ u]) (auto simp: step_simps gr0_conv_Suc split: Option.bind_split)
    qed
  next
    case False
    then have "cv_step np b s t \<noteq> None" using h free
      by (cases "at s t") (auto simp: in_mutex_def in_cvlock_def step_simps gr0_conv_Suc split: Option.bind_split)
    then show ?thesis using t by blast
  qed
qed

lemma cv_moves:
  assumes i: "cv_inv n np b s" and n: "0 < np" "np < n" and b: "0 < b"
  shows "\<exists>u \<in> {..<n}. cv_step np b s u \<noteq> None"
proof (cases "num n (at s) in_mutex = 0")
  case True
  then have out: "at s u \<notin> in_mutex" if "u < n" for u using that by (simp add: num_zero)
  have m: "mutex s \<noteq> 0" using i True by (simp add: cv_inv_def counts_def)
  have q: "num n (at s) in_change = 0" using out in_change_mutex unfolding num_zero by blast
  have asleep: "at s u = W5" if "u < n" "cv_step np b s u = None" for u
    using inv_place [OF i that(1)] out [OF that(1)] that(2) m
    by (cases "at s u") (auto simp: place_def in_mutex_def step_simps split: Option.bind_splits)
  have "place np b s True u" if "u < n" for u using inv_place [OF i that] q by simp
  then have "\<not> cond np b s u" if "u < n" "at s u = W5" for u using that by (simp add: place_def)
  from this [of 0] this [of np] have "\<not> (at s 0 = W5 \<and> at s np = W5)"
    using n b unfolding cond_def PRODUCER_COND_def CONSUMER_COND_def by auto
  then show ?thesis using asleep n by (meson lessThan_iff order.strict_trans)
next
  case False
  then obtain t where "t < n" "at s t \<in> in_mutex" using num_exists by blast
  then show ?thesis using holder_moves [OF i] by (metis lessThan_iff)
qed

interpretation cv: threads "cv_step np b" "{..<n}" "{..<n}" "\<lambda>s. 0 < np \<and> np < n \<and> 0 < b \<and> cv_inv n np b s"
    "\<lambda>s. 0 < np \<and> np < n \<and> 0 < b \<and> (\<exists>s0. s = cv_start np s0)" for np n :: nat and b :: int
  by unfold_locales (auto simp: cv_start_inv cv_moves [simplified] intro: cv_step_inv)

lemma cv_main_start:
  "cv_main s0 argv = Some (np, nc, b, s1) \<Longrightarrow> s1 = cv_start np s0 \<and> 0 < np \<and> 0 < nc \<and> 0 < b"
  using pc_args_pos [of argv] by (auto simp: cv_main_def bind_eq_Some_conv)

subsection \<open>A condition variable it is\<close>

text \<open>
  Where the program is, for \<open>condition.c\<close>: \<open>my_cv_wait\<close> sleeps from the unlock of the mutex to the end of
  \<open>sem_wait\<close>; a thread the broadcast lets go has been woken, and the broadcast itself is over when \<open>nwait\<close>
  is reset.
\<close>

fun cv_place :: "pc \<Rightarrow> mpc" where
  "cv_place Idle = Away"
| "cv_place LockM = Enter"
| "cv_place Check = Test"
| "cv_place W1 = Call" | "cv_place W2 = Call" | "cv_place W3 = Call" | "cv_place W4 = Call"
| "cv_place W5 = Sleep"
| "cv_place W6 = Wake" | "cv_place W7 = Wake"
| "cv_place Asrt = Assert"
| "cv_place Act = Change"
| "cv_place B1 = Bcast" | "cv_place B2 = Bcast" | "cv_place B3 = Bcast" | "cv_place B4 = Bcast" | "cv_place B5 = Bcast"
| "cv_place B6 = Bcast"
| "cv_place B7 = Leave" | "cv_place UnlockM = Leave"
| "cv_place Failed = Broken"

definition cv_abs :: "cvsys \<Rightarrow> cndsys" where
  "cv_abs s = \<lparr>mat = (\<lambda>u. cv_place (at s u)), locked = (mutex s = 0), mcnt = cnt s\<rparr>"

lemma cv_abs_sel [simp]: "mat (cv_abs s) u = cv_place (at s u)" "locked (cv_abs s) = (mutex s = 0)" "mcnt (cv_abs s) = cnt s"
  by (simp_all add: cv_abs_def)

lemma cv_place_Sleep [simp]: "cv_place p = Sleep \<longleftrightarrow> p = W5"
  by (cases p) simp_all

lemma ccond_abs [simp]: "ccond np b (cv_abs s) t = cond np b s t"
  by (simp add: ccond_def cond_def can_produce_def can_consume_def PRODUCER_COND_def CONSUMER_COND_def)

lemma cndsys_eq: "mat a = mat b \<Longrightarrow> locked a = locked b \<Longrightarrow> mcnt a = mcnt b \<Longrightarrow> a = (b :: cndsys)"
  by simp

lemma cv_sim:
  assumes i: "cv_inv n np b s" and t: "t < n" and st: "cv_step np b s t = Some s'"
    and away: "\<forall>u \<ge> n. at s u \<noteq> W5"
  shows "cv_abs s' = cv_abs s \<or> cnd_step np b (cv_abs s) (Step t) = Some (cv_abs s') \<or>
    cnd_step np b (cv_abs s) (Spurious t) = Some (cv_abs s')"
proof (cases "at s t = B6")
  case True
  have "at s u \<noteq> W5" for u using nobody_left [OF i t True] away by (cases "u < n") (auto simp: num_zero)
  then show ?thesis using True st by (auto simp: step_simps cnd_step_cases broadcast_awake intro!: cndsys_eq)
next
  case False
  have "mutex s \<le> 1" using i num_nonneg [of n "at s" in_mutex] unfolding cv_inv_def counts_def by linarith
  then show ?thesis using st False
    by (cases "at s t") (auto simp: step_simps cnd_step_cases cnd_step_spurious fun_eq_iff intro!: cndsys_eq split: if_splits)
qed

lemma cv_step_at: "cv_step np b s t = Some s' \<Longrightarrow> u \<noteq> t \<Longrightarrow> at s' u = at s u"
  by (cases "at s t") (auto simp: step_simps split: if_splits)

lemma cv_refines:
  assumes "reach (cv_step np b) {..<n} (cv_start np s0) s" and "0 < np" "np < n" "0 < b"
  shows "reach (cnd_step np b) (acts n) (cnd_start np) (cv_abs s) \<and> (\<forall>u \<ge> n. at s u \<noteq> W5)"
  using assms(1)
proof (induction rule: reach.induct)
  case init
  have "cv_abs (cv_start np s0) = cnd_start np"
    by (auto simp: cv_abs_def cnd_start_def cv_start_def my_cv_init_def my_mutex_init_def)
  then show ?case by (auto intro: reach.init simp: cv_start_def my_cv_init_def my_mutex_init_def)
next
  case (act s t s')
  have "cv_inv n np b s" using cv.always [OF act(1)] assms by auto
  then have sim: "cv_abs s' = cv_abs s \<or> cnd_step np b (cv_abs s) (Step t) = Some (cv_abs s') \<or>
      cnd_step np b (cv_abs s) (Spurious t) = Some (cv_abs s')"
    using cv_sim act by blast
  have "Step t \<in> acts n" "Spurious t \<in> acts n" using act(2) by (auto simp: acts_def)
  then have "reach (cnd_step np b) (acts n) (cnd_start np) (cv_abs s')"
    using sim act(4) reach.act [of "cnd_step np b" "acts n" "cnd_start np" "cv_abs s"] by auto
  moreover have "at s' u \<noteq> W5" if "u \<ge> n" for u using act cv_step_at [OF act(3), of u] that by auto
  ultimately show ?case by blast
qed

subsection \<open>Properties\<close>

text \<open>
  \<open>lab/lab8/condition_sem.c\<close>: in every state the program can reach, whatever the order of its
  threads, no \<open>assert(PRODUCER_COND)\<close> or \<open>assert(CONSUMER_COND)\<close> has failed, and there are between 0 and
  \<open>BUF_SIZE\<close> items.
\<close>

lemma condition_sem_assertions_hold:
  assumes "cv_main s0 argv = Some (np, nc, b, s1)" and "reach (cv_step np b) {..<np + nc} s1 s"
  shows "(\<forall>t < np + nc. at s t \<noteq> Failed) \<and> 0 \<le> cnt s \<and> cnt s \<le> b"
proof -
  have "cv_inv (np + nc) np b s" using cv.always [OF assms(2)] cv_main_start [OF assms(1)] by auto
  then show ?thesis by (auto simp: cv_inv_def counts_def place_def)
qed

text \<open>
  C22: in every state \<open>lab/lab8/condition_sem.c\<close> can reach, whatever the order of its threads, some thread can
  make its next step: no sleeper misses the broadcast meant for it, none
  takes another one's wake-up, and \<open>my_cv_broadcast\<close> is answered whenever it waits for the handshake.
\<close>

theorem condition_sem_never_stuck:
  assumes "cv_main s0 argv = Some (np, nc, b, s1)" and "reach (cv_step np b) {..<np + nc} s1 s"
  shows "\<not> stuck (cv_step np b) {..<np + nc} s"
  using cv.no_deadlock [OF assms(2)] cv_main_start [OF assms(1)] by auto

lemma demo_main: "cv_main s0 demo_args = Some (1, 1, 1, cv_start 1 s0)"
  by (simp add: cv_main_def demo_pc)

lemma demo_false: "false_main s0 demo_args = Some (1, 1, 1, false_start 1 s0)"
  by (simp add: false_main_def demo_pc)

lemmas false_simps = false_step_def false_producer_def false_consumer_def producer_def consumer_def false_cv_wait_def false_cv_broadcast_def
  PRODUCER_COND_def CONSUMER_COND_def sem_wait_def sem_post_def go_def

text \<open>The consumer finds nothing and is about to sleep; the producer makes an item, wakes it, and sleeps first.\<close>

definition asleep :: "cvsys \<Rightarrow> cvsys" where
  "asleep s0 = false_start 1 s0\<lparr>cnt := 1, at := (at (false_start 1 s0))(1 := W5, 0 := W5),
     var_i := (var_i s0)(0 := 1), nwait := 2\<rparr>"

lemma false_demo: "run (false_step 1 1) (false_start 1 s0) (replicate 6 1 @ replicate 27 0) = Some (asleep s0)"
  by (simp add: asleep_def eval_nat_numeral false_simps false_start_def my_mutex_init_def)

lemma asleep_stuck: "stuck (false_step 1 1) {..<2} (asleep s0)"
  by (auto simp: stuck_def asleep_def less_2_cases_iff false_simps false_start_def my_mutex_init_def)

text \<open>
  C23: \<open>lab/lab8/condition_sem_false.c\<close>, without the handshake, does deadlock, with one producer, one
  consumer and a buffer of one item: the wake-up meant for the consumer can be taken by the producer, and
  both sleep for good although the consumer has an item to take.
\<close>

theorem condition_sem_false_deadlocks:
  "\<exists>s1 s. false_main s0 demo_args = Some (1, 1, 1, s1) \<and> reach (false_step 1 1) {..<2} s1 s \<and>
     stuck (false_step 1 1) {..<2} s \<and> at s 1 = W5 \<and> CONSUMER_COND s"
proof -
  have "reach (false_step 1 1) {..<2} (false_start 1 s0) (asleep s0)"
    by (rule run_reach [OF false_demo reach.init]) auto
  moreover have "at (asleep s0) 1 = W5 \<and> CONSUMER_COND (asleep s0)" by (simp add: asleep_def CONSUMER_COND_def)
  ultimately show ?thesis using demo_false asleep_stuck by blast
qed

text \<open>The start of the same schedule, with the handshake.\<close>

lemmas true_simps = cv_step_def producer_def consumer_def my_cv_wait_def my_cv_broadcast_def
  PRODUCER_COND_def CONSUMER_COND_def sem_wait_def sem_post_def go_def

lemma true_demo: "run (cv_step 1 1) (cv_start 1 s0) (replicate 6 1 @ replicate 9 0 @ [1, 1] @ replicate 5 0) =
    Some (cv_start 1 s0\<lparr>cnt := 1, at := (at (cv_start 1 s0))(1 := W7, 0 := Idle), var_i := (var_i s0)(0 := 1)\<rparr>)"
  by (simp add: eval_nat_numeral true_simps cv_start_def my_cv_init_def my_mutex_init_def)

lemma demo_reach: "reach (cv_step 1 1) {..<1 + 1} (cv_start 1 s0)
    (cv_start 1 s0\<lparr>cnt := 1, at := (at (cv_start 1 s0))(1 := W7, 0 := Idle), var_i := (var_i s0)(0 := 1)\<rparr>)"
  by (rule run_reach [OF true_demo reach.init]) auto

lemma condition_sem_assertions_hold_example:
  "\<exists>s. reach (cv_step 1 1) {..<1 + 1} (cv_start 1 (undefined :: cvsys)) s \<and> cnt s = 1 \<and> (\<forall>t < 1 + 1. at s t \<noteq> Failed)"
  using condition_sem_assertions_hold [OF demo_main demo_reach, of undefined] demo_reach [of undefined]
  by (intro exI conjI) auto

lemma condition_sem_never_stuck_witness:
  "\<exists>s. reach (cv_step 1 1) {..<1 + 1} (cv_start 1 (undefined :: cvsys)) s \<and> cnt s = 1 \<and> \<not> stuck (cv_step 1 1) {..<1 + 1} s"
  using condition_sem_never_stuck [OF demo_main demo_reach, of undefined] demo_reach [of undefined]
  by (intro exI conjI) auto

text \<open>
  C21: the condition variable made of semaphores is one: every state \<open>condition_sem.c\<close> reaches is, seen from
  outside \<open>my_cv_wait\<close> and \<open>my_cv_broadcast\<close>, one that \<open>condition.c\<close> reaches with the \<open>cnd_wait\<close> and
  \<open>cnd_broadcast\<close> of the C library.
\<close>

theorem condition_sem_refines_condition:
  assumes "cv_main s0 argv = Some (np, nc, b, s1)" and "reach (cv_step np b) {..<np + nc} s1 s"
  shows "reach (cnd_step np b) (acts (np + nc)) (cnd_start np) (cv_abs s)"
  using cv_refines [of np b "np + nc" s0 s] cv_main_start [OF assms(1)] assms(2) by auto

lemma condition_sem_refines_condition_witness:
  "\<exists>s. reach (cv_step 1 1) {..<1 + 1} (cv_start 1 (undefined :: cvsys)) s \<and> cnt s = 1 \<and>
     reach (cnd_step 1 1) (acts (1 + 1)) (cnd_start 1) (cv_abs s)"
  using condition_sem_refines_condition [OF demo_main demo_reach, of undefined] demo_reach [of undefined]
  by (intro exI conjI) auto

end
