(* ===== verification/PhilCnd.thy ===== *)
theory PhilCnd
  imports Cond
begin

text \<open>
  \<open>lab/lab8/philosopher_cnd.c\<close>: philosophers with a mutex and a condition variable of the C library. The
  steps are those of \<open>Cond\<close>; \<open>n\<close> is \<open>PHILOSOPHER_NUM\<close>. Because a philosopher keeps the mutex while it
  eats, no two ever eat at the same time, and none ever has to wait at the condition variable.
\<close>

subsection \<open>The program\<close>

datatype ppc = Think | PLock | PTest | PCall | PSleep | PWake | PAssert | Take | Eating | Put | PBcast | PUnlock | PBroken

record philsys =
  pat :: "nat \<Rightarrow> ppc"
  plocked :: bool
  avail :: "bool list"

definition pgo :: "philsys \<Rightarrow> nat \<Rightarrow> ppc \<Rightarrow> philsys" where
  "pgo s t p = s\<lparr>pat := (pat s)(t := p)\<rparr>"

definition PHILOSOPHER_COND :: "philsys \<Rightarrow> nat \<Rightarrow> nat \<Rightarrow> bool" where
  "PHILOSOPHER_COND s lhf rhf \<longleftrightarrow> avail s ! lhf \<and> avail s ! rhf"

definition phil_broadcast :: "philsys \<Rightarrow> philsys" where
  "phil_broadcast s = s\<lparr>pat := (\<lambda>u. if pat s u = PSleep then PWake else pat s u)\<rparr>"

definition TPhilosopher :: "nat \<Rightarrow> philsys \<Rightarrow> nat \<Rightarrow> philsys option" where
  "TPhilosopher n s t =
     (let lhf = t; rhf = (t + 1) mod n in
      case pat s t of
       Think \<Rightarrow> Some (pgo s t PLock)
     | PLock \<Rightarrow> do { l \<leftarrow> mtx_lock (plocked s); Some (pgo (s\<lparr>plocked := l\<rparr>) t PTest) }
     | PTest \<Rightarrow> Some (pgo s t (if \<not> PHILOSOPHER_COND s lhf rhf then PCall else PAssert))
     | PCall \<Rightarrow> Some (pgo (s\<lparr>plocked := False\<rparr>) t PSleep)
     | PSleep \<Rightarrow> None
     | PWake \<Rightarrow> do { l \<leftarrow> mtx_lock (plocked s); Some (pgo (s\<lparr>plocked := l\<rparr>) t PTest) }
     | PAssert \<Rightarrow> Some (pgo s t (if PHILOSOPHER_COND s lhf rhf then Take else PBroken))
     | Take \<Rightarrow> Some (pgo (s\<lparr>avail := (avail s)[rhf := False, lhf := False]\<rparr>) t Eating)
     | Eating \<Rightarrow> Some (pgo s t Put)
     | Put \<Rightarrow> Some (pgo (s\<lparr>avail := (avail s)[rhf := True, lhf := True]\<rparr>) t PBcast)
     | PBcast \<Rightarrow> Some (pgo (phil_broadcast s) t PUnlock)
     | PUnlock \<Rightarrow> Some (pgo (s\<lparr>plocked := False\<rparr>) t Think)
     | PBroken \<Rightarrow> None)"

definition phil_step :: "nat \<Rightarrow> philsys \<Rightarrow> act \<Rightarrow> philsys option" where
  "phil_step n s a = (case a of
       Step t \<Rightarrow> TPhilosopher n s t
     | Spurious t \<Rightarrow> if pat s t = PSleep then Some (pgo s t PWake) else None)"

definition phil_main :: "int list list \<Rightarrow> (nat \<times> philsys) option" where
  "phil_main argv =
     (if length argv \<noteq> 2 then None
      else
        let n = str2int (argv ! 1) in
        if n > 0 then Some (nat n, \<lparr>pat = \<lambda>_. Think, plocked = False, avail = replicate (nat n) True\<rparr>) else None)"

subsection \<open>The invariant\<close>

definition phil_mutex :: "ppc set" where
  "phil_mutex = {PTest, PAssert, Take, Eating, Put, PBcast, PUnlock}"

text \<open>The forks that are not available are those of the one philosopher that eats.\<close>

definition forks :: "nat \<Rightarrow> philsys \<Rightarrow> bool list" where
  "forks n s = map (\<lambda>i. \<forall>t < n. pat s t \<in> {Eating, Put} \<longrightarrow> i \<noteq> t \<and> i \<noteq> (t + 1) mod n) [0..<n]"

definition phil_inv :: "nat \<Rightarrow> philsys \<Rightarrow> bool" where
  "phil_inv n s \<longleftrightarrow> num n (pat s) phil_mutex = (if plocked s then 1 else 0) \<and> avail s = forks n s \<and>
     (\<forall>t < n. pat s t \<notin> {PCall, PSleep, PWake, PBroken})"

lemma pgo_sel [simp]: "pat (pgo s t p) = (pat s)(t := p)" "plocked (pgo s t p) = plocked s" "avail (pgo s t p) = avail s"
  by (simp_all add: pgo_def)

lemma phil_alone:
  assumes "phil_inv n s" and "t < n" and "pat s t \<in> phil_mutex" and "u < n" and "u \<noteq> t"
  shows "pat s u \<notin> phil_mutex"
proof -
  have "num n (pat s) phil_mutex \<le> 1" using assms(1) by (simp add: phil_inv_def)
  then show ?thesis using num_one assms by blast
qed

lemma forks_free: "(\<And>u. u < n \<Longrightarrow> pat s u \<notin> {Eating, Put}) \<Longrightarrow> forks n s = replicate n True"
  by (rule nth_equalityI) (auto simp: forks_def)

lemma forks_one:
  "t < n \<Longrightarrow> (\<And>u. u < n \<Longrightarrow> u \<noteq> t \<Longrightarrow> pat s u \<notin> {Eating, Put}) \<Longrightarrow> pat s t \<in> {Eating, Put} \<Longrightarrow>
   forks n s = (replicate n True)[(t + 1) mod n := False, t := False]"
  by (rule nth_equalityI) (auto simp: forks_def nth_list_update)

lemma forks_cong:
  "(\<And>u. u < n \<Longrightarrow> (pat s' u \<in> {Eating, Put}) = (pat s u \<in> {Eating, Put})) \<Longrightarrow> forks n s' = forks n s"
  by (auto simp: forks_def)

lemma num_phil_broadcast [simp]: "PSleep \<notin> X \<Longrightarrow> PWake \<notin> X \<Longrightarrow> num n (pat (phil_broadcast s)) X = num n (pat s) X"
  unfolding num_def by (rule sum.cong) (auto simp: phil_broadcast_def)

lemma phil_broadcast_sel [simp]: "plocked (phil_broadcast s) = plocked s" "avail (phil_broadcast s) = avail s"
  "pat (phil_broadcast s) u = (if pat s u = PSleep then PWake else pat s u)"
  by (simp_all add: phil_broadcast_def)

lemma all_free: "lhf < n \<Longrightarrow> rhf < n \<Longrightarrow> avail s = replicate n True \<Longrightarrow> PHILOSOPHER_COND s lhf rhf"
  by (simp add: PHILOSOPHER_COND_def)

lemma phil_free:
  assumes i: "phil_inv n s" and t: "t < n" and h: "pat s t \<in> phil_mutex - {Eating, Put}"
  shows "avail s = replicate n True"
proof -
  have "pat s u \<notin> {Eating, Put}" if "u < n" for u
    using phil_alone [OF i t _ that] h by (cases "u = t") (auto simp: phil_mutex_def)
  then show ?thesis using i forks_free [of n s] by (simp add: phil_inv_def)
qed

lemma phil_locked: "phil_inv n s \<Longrightarrow> t < n \<Longrightarrow> pat s t \<in> phil_mutex \<Longrightarrow> plocked s"
  using num_pos [of t n "pat s" phil_mutex] by (auto simp: phil_inv_def split: if_splits)

lemma phil_step_inv:
  assumes i: "phil_inv n s" and t: "t < n" and st: "TPhilosopher n s t = Some s'"
  shows "phil_inv n s'"
proof -
  have c: "num n (pat s) phil_mutex = (if plocked s then 1 else 0)" and f: "avail s = forks n s"
    and p: "\<forall>u < n. pat s u \<notin> {PCall, PSleep, PWake, PBroken}" using i by (auto simp: phil_inv_def)
  have m: "(t + 1) mod n < n" using t by simp
  have cnd: "PHILOSOPHER_COND s t ((t + 1) mod n)" if "pat s t \<in> {PTest, PAssert}"
    using all_free [OF t m phil_free [OF i t]] that by (auto simp: phil_mutex_def)
  note l = phil_locked [OF i t]
  have c': "num n (pat s') phil_mutex = (if plocked s' then 1 else 0)" using c t st l p cnd
    by (cases "pat s t") (auto simp: TPhilosopher_def Let_def mtx_lock_def phil_mutex_def split: if_splits)
  have p': "\<forall>u < n. pat s' u \<notin> {PCall, PSleep, PWake, PBroken}" using p t st cnd
    by (cases "pat s t") (auto simp: TPhilosopher_def Let_def mtx_lock_def split: if_splits)
  have alone: "pat s u \<notin> {Eating, Put}" if "pat s t \<in> {Take, Eating, Put}" "u < n" "u \<noteq> t" for u
    using phil_alone [OF i t _ that(2,3)] that(1) by (auto simp: phil_mutex_def)
  consider (take) "pat s t = Take" | (put) "pat s t = Put" | (other) "pat s t \<noteq> Take" "pat s t \<noteq> Put" by blast
  then have "avail s' = forks n s'"
  proof cases
    case take
    then have s': "s' = pgo (s\<lparr>avail := (avail s)[(t + 1) mod n := False, t := False]\<rparr>) t Eating"
      using st by (simp add: TPhilosopher_def Let_def)
    show ?thesis using alone take t phil_free [OF i t] unfolding s'
      by (subst forks_one [OF t]) (auto simp: phil_mutex_def)
  next
    case put
    then have s': "s' = pgo (s\<lparr>avail := (avail s)[(t + 1) mod n := True, t := True]\<rparr>) t PBcast"
      using st by (simp add: TPhilosopher_def Let_def)
    have "avail s = (replicate n True)[(t + 1) mod n := False, t := False]"
      unfolding f by (rule forks_one [OF t]) (use alone put in auto)
    moreover have "forks n s' = replicate n True" by (rule forks_free) (use alone put in \<open>auto simp: s'\<close>)
    ultimately show ?thesis using t m by (auto simp: s' nth_list_update intro!: nth_equalityI)
  next
    case other
    have "avail s' = avail s" using st other
      by (cases "pat s t") (auto simp: TPhilosopher_def Let_def mtx_lock_def split: if_splits)
    moreover have "forks n s' = forks n s" by (rule forks_cong, use st other in \<open>cases "pat s t"\<close>)
      (auto simp: TPhilosopher_def Let_def mtx_lock_def split: if_splits)
    ultimately show ?thesis using f by simp
  qed
  then show ?thesis using c' p' by (simp add: phil_inv_def)
qed

lemma phil_moves:
  assumes i: "phil_inv n s" and n: "0 < n"
  shows "\<exists>a \<in> Step ` {..<n}. phil_step n s a \<noteq> None"
proof (cases "plocked s")
  case True
  then have "num n (pat s) phil_mutex \<noteq> 0" using i by (simp add: phil_inv_def)
  then obtain t where "t < n" "pat s t \<in> phil_mutex" using num_exists [of n "pat s" phil_mutex] by blast
  then show ?thesis by (intro bexI [of _ "Step t"]) (auto simp: phil_step_def TPhilosopher_def Let_def phil_mutex_def)
next
  case False
  have "pat s 0 \<notin> {PCall, PSleep, PWake, PBroken}" using i n by (simp add: phil_inv_def)
  then have "TPhilosopher n s 0 \<noteq> None" using False
    by (cases "pat s 0") (simp_all add: TPhilosopher_def Let_def mtx_lock_def)
  then show ?thesis using n by (intro bexI [of _ "Step 0"]) (auto simp: phil_step_def)
qed

lemma phil_awake: "phil_inv n s \<Longrightarrow> t < n \<Longrightarrow> pat s t \<noteq> PSleep"
  by (simp add: phil_inv_def)

interpretation phil: threads "phil_step n" "Step ` {..<n} \<union> Spurious ` {..<n}" "Step ` {..<n}" "\<lambda>s. 0 < n \<and> phil_inv n s"
    "\<lambda>s. 0 < n \<and> s = \<lparr>pat = \<lambda>_. Think, plocked = False, avail = replicate n True\<rparr>" for n :: nat
proof (unfold_locales, goal_cases)
  case (1 s a s')
  then show ?case by (auto simp: phil_step_def split: if_splits intro: phil_step_inv dest: phil_awake)
next
  case (2 s)
  then show ?case using forks_free [of n s] num_const [of n Think phil_mutex] by (simp add: phil_inv_def phil_mutex_def)
next
  case (3 s)
  then show ?case using phil_moves by blast
qed

subsection \<open>Result\<close>

text \<open>
  \<open>lab/lab8/philosopher_cnd.c\<close>: in every state it reaches no two philosophers eat, not even two that
  share no fork; no assertion has failed; nobody is in \<open>cnd_wait\<close>, so that its \<open>while\<close> and its broadcast are
  never needed; and some philosopher can always make its next step.
\<close>

lemma philosopher_cnd_one_eats:
  assumes "phil_main argv = Some (n, s0)" and "reach (phil_step n) (Step ` {..<n} \<union> Spurious ` {..<n}) s0 s"
  shows "(\<forall>t < n. \<forall>u < n. pat s t = Eating \<longrightarrow> pat s u = Eating \<longrightarrow> t = u) \<and>
    (\<forall>t < n. pat s t \<notin> {PCall, PSleep, PWake, PBroken}) \<and> \<not> stuck (phil_step n) (Step ` {..<n}) s"
proof -
  have m: "0 < n" "s0 = \<lparr>pat = \<lambda>_. Think, plocked = False, avail = replicate n True\<rparr>"
    using assms(1) by (auto simp: phil_main_def Let_def split: if_splits)
  have i: "phil_inv n s" using phil.always [OF assms(2)] m by simp
  have "t = u" if "t < n" "u < n" "pat s t = Eating" "pat s u = Eating" for t u
    using phil_alone [OF i that(1) _ that(2)] that by (auto simp: phil_mutex_def)
  then show ?thesis using phil.no_deadlock [OF assms(2)] i m by (auto simp: phil_inv_def)
qed

text \<open>Five philosophers: number 1 eats while number 2 is at the lock.\<close>

abbreviation (input) table :: philsys where
  "table \<equiv> \<lparr>pat = \<lambda>_. Think, plocked = False, avail = [True, True, True, True, True]\<rparr>"

abbreviation (input) eats :: philsys where
  "eats \<equiv> \<lparr>pat = (\<lambda>_. Think)(2 := PLock, 1 := Eating), plocked = True, avail = [True, False, False, True, True]\<rparr>"

lemma phil_demo: "run (phil_step 5) table [Step 2, Step 1, Step 1, Step 1, Step 1, Step 1] = Some eats"
  by (simp add: phil_step_def TPhilosopher_def mtx_lock_def pgo_def PHILOSOPHER_COND_def)

lemma phil_demo_main: "phil_main [[99], [53]] = Some (5, table)"
  by (simp add: phil_main_def str2int_def eval_nat_numeral)

lemma phil_demo_reach: "reach (phil_step 5) (Step ` {..<5} \<union> Spurious ` {..<5}) table eats"
  by (rule run_reach [OF phil_demo reach.init]) simp

lemma philosopher_cnd_one_eats_example:
  "\<exists>s. reach (phil_step 5) (Step ` {..<5} \<union> Spurious ` {..<5}) table s \<and> pat s 1 = Eating \<and>
     \<not> stuck (phil_step 5) (Step ` {..<5}) s"
proof (rule exI [of _ eats], intro conjI)
  show "pat eats 1 = Eating" by simp
  show "\<not> stuck (phil_step 5) (Step ` {..<5}) eats"
    using philosopher_cnd_one_eats [OF phil_demo_main phil_demo_reach] by blast
qed (rule phil_demo_reach)

end
