(* ===== verification/Dining.thy ===== *)
theory Dining
  imports Conc
begin

text \<open>
  \<open>user/src/phase4/philosopher.c\<close>: five processes share six semaphores of the kernel, one for each fork and
  one that lets four of them at the table. \<open>P\<close> and \<open>V\<close> are \<open>sem_wait\<close> and \<open>sem_post\<close>; that the kernel's
  do this is in \<open>KProps\<close> and \<open>ProcProps\<close>. One step is one statement of \<open>philosopher\<close>.
\<close>

subsection \<open>The program\<close>

abbreviation (input) PHI_NUM :: nat where "PHI_NUM \<equiv> 5"

datatype dpc = DThink | DRoom | DLeft | DRight | DEat | DPutRight | DPutLeft | DLeave

record dinsys =
  dat :: "nat \<Rightarrow> dpc"
  phi_usem :: "nat \<Rightarrow> nat"
  max_eat_usem :: nat

definition dgo :: "dinsys \<Rightarrow> nat \<Rightarrow> dpc \<Rightarrow> dinsys" where
  "dgo s t p = s\<lparr>dat := (dat s)(t := p)\<rparr>"

definition phi_P :: "dinsys \<Rightarrow> nat \<Rightarrow> dinsys option" where
  "phi_P s i = do { v \<leftarrow> sem_wait (phi_usem s i); Some (s\<lparr>phi_usem := (phi_usem s)(i := v)\<rparr>) }"

definition phi_V :: "dinsys \<Rightarrow> nat \<Rightarrow> dinsys" where
  "phi_V s i = s\<lparr>phi_usem := (phi_usem s)(i := sem_post (phi_usem s i))\<rparr>"

definition right :: "nat \<Rightarrow> nat" where
  "right t = (t + 1) mod PHI_NUM"

definition phi_init :: dinsys where
  "phi_init = \<lparr>dat = \<lambda>_. DThink, phi_usem = \<lambda>_. 1, max_eat_usem = PHI_NUM - 1\<rparr>"

definition philosopher :: "dinsys \<Rightarrow> nat \<Rightarrow> dinsys option" where
  "philosopher s t = (case dat s t of
       DThink \<Rightarrow> Some (dgo s t DRoom)
     | DRoom \<Rightarrow> do { v \<leftarrow> sem_wait (max_eat_usem s); Some (dgo (s\<lparr>max_eat_usem := v\<rparr>) t DLeft) }
     | DLeft \<Rightarrow> do { s \<leftarrow> phi_P s t; Some (dgo s t DRight) }
     | DRight \<Rightarrow> do { s \<leftarrow> phi_P s (right t); Some (dgo s t DEat) }
     | DEat \<Rightarrow> Some (dgo s t DPutRight)
     | DPutRight \<Rightarrow> Some (dgo (phi_V s (right t)) t DPutLeft)
     | DPutLeft \<Rightarrow> Some (dgo (phi_V s t) t DLeave)
     | DLeave \<Rightarrow> Some (dgo (s\<lparr>max_eat_usem := sem_post (max_eat_usem s)\<rparr>) t DThink))"

subsection \<open>The invariant\<close>

definition in_room :: "dpc set" where
  "in_room = {DLeft, DRight, DEat, DPutRight, DPutLeft, DLeave}"

definition has_left :: "dinsys \<Rightarrow> nat \<Rightarrow> nat" where
  "has_left s t = (if dat s t \<in> {DRight, DEat, DPutRight, DPutLeft} then 1 else 0)"

definition has_right :: "dinsys \<Rightarrow> nat \<Rightarrow> nat" where
  "has_right s t = (if dat s t \<in> {DEat, DPutRight} then 1 else 0)"

text \<open>Each fork is on the table, in the right hand of one neighbour, or in the left hand of the other.\<close>

definition fork_ok :: "dinsys \<Rightarrow> nat \<Rightarrow> bool" where
  "fork_ok s i \<longleftrightarrow> phi_usem s (right i) + has_left s (right i) + has_right s i = 1"

definition din_inv :: "dinsys \<Rightarrow> bool" where
  "din_inv s \<longleftrightarrow> int (max_eat_usem s) + num PHI_NUM (dat s) in_room = 4 \<and> (\<forall>i < PHI_NUM. fork_ok s i)"

lemma dgo_sel [simp]: "dat (dgo s t p) = (dat s)(t := p)" "phi_usem (dgo s t p) = phi_usem s" "max_eat_usem (dgo s t p) = max_eat_usem s"
  by (simp_all add: dgo_def)

lemma below_five: "(t :: nat) < 5 \<longleftrightarrow> t = 0 \<or> t = 1 \<or> t = 2 \<or> t = 3 \<or> t = 4"
  by auto

lemmas phil_simps = philosopher_def phi_P_def phi_V_def sem_post_def bind_eq_Some_conv
lemmas fork_simps = fork_ok_def has_left_def has_right_def

lemma room_step:
  assumes "din_inv s" and "t < 5" and "philosopher s t = Some s'"
  shows "int (max_eat_usem s') + num PHI_NUM (dat s') in_room = 4"
  using assms by (cases "dat s t") (auto simp: phil_simps din_inv_def in_room_def)

lemma right_neq: "i < 5 \<Longrightarrow> right i \<noteq> i" "i < 5 \<Longrightarrow> i \<noteq> right i" "right i < 5"
  by (auto simp: below_five right_def)

lemma right_inj: "i < 5 \<Longrightarrow> t < 5 \<Longrightarrow> right t = right i \<longleftrightarrow> t = i"
  by (auto simp: below_five right_def)

lemma fork_step:
  assumes i: "fork_ok s i" "i < 5" and t: "t < 5" and st: "philosopher s t = Some s'"
  shows "fork_ok s' i"
proof -
  note r = right_neq(1,2) [OF i(2)] right_neq(1,2) [OF right_neq(3), of i] right_inj [OF i(2) t] right_inj [OF i(2) right_neq(3), of i]
  consider (left) "t = i" | (right) "t = right i" | (far) "t \<noteq> i" "t \<noteq> right i" by blast
  then show ?thesis
  proof cases
    case left
    show ?thesis using i(1) st unfolding left fork_simps
      by (cases "dat s i") (use r in \<open>auto simp: phil_simps\<close>)
  next
    case right
    show ?thesis using i(1) st unfolding right fork_simps
      by (cases "dat s (right i)") (use r in \<open>auto simp: phil_simps\<close>)
  next
    case far
    then show ?thesis using i(1) st r unfolding fork_simps
      by (cases "dat s t") (auto simp: phil_simps)
  qed
qed

lemma philosopher_inv: "din_inv s \<Longrightarrow> t < 5 \<Longrightarrow> philosopher s t = Some s' \<Longrightarrow> din_inv s'"
  unfolding din_inv_def using room_step [of s t s'] fork_step [of s _ t s'] by (auto simp: din_inv_def)

lemma din_start: "din_inv phi_init"
  using num_const [of 5 DThink in_room] by (simp add: din_inv_def phi_init_def fork_simps in_room_def)

lemma phil_waits:
  assumes "philosopher s t = None"
  shows "dat s t = DRoom \<and> max_eat_usem s = 0 \<or> dat s t = DLeft \<and> phi_usem s t = 0 \<or>
    dat s t = DRight \<and> phi_usem s (right t) = 0"
  using assms by (cases "dat s t") (auto simp: phil_simps split: Option.bind_splits)

text \<open>Whoever waits for a fork waits for one that eats, or for a neighbour that waits with a fork in the hand.\<close>

lemma waits_left: "fork_ok s t \<Longrightarrow> philosopher s t = None \<Longrightarrow> philosopher s (right t) = None \<Longrightarrow> dat s (right t) \<noteq> DLeft"
  using phil_waits [of s t] phil_waits [of s "right t"] by (auto simp: fork_simps split: if_splits)

lemma waits_right:
  "fork_ok s t \<Longrightarrow> philosopher s t = None \<Longrightarrow> philosopher s (right t) = None \<Longrightarrow> dat s t = DRight \<Longrightarrow> dat s (right t) = DRight"
  using phil_waits [of s "right t"] phil_waits [of s t] by (auto simp: fork_simps split: if_splits)

lemma right_five: "right 0 = 1" "right 1 = 2" "right 2 = 3" "right 3 = 4" "right 4 = 0"
  by (simp_all add: right_def)

lemma din_moves:
  assumes i: "din_inv s"
  shows "\<exists>t \<in> {..<5}. philosopher s t \<noteq> None"
proof (rule ccontr)
  assume "\<not> ?thesis"
  then have n: "philosopher s t = None" if "t < 5" for t using that by blast
  have f: "fork_ok s t" if "t < 5" for t using i that by (simp add: din_inv_def)
  have r: "int (max_eat_usem s) + num 5 (dat s) in_room = 4" using i by (simp add: din_inv_def)
  have rr: "dat s (right t) = DRight" if "t < 5" "dat s t = DRight" for t
    by (rule waits_right [OF f [OF that(1)] n [OF that(1)] n [OF right_neq(3)] that(2)])
  have nl: "dat s (right t) \<noteq> DLeft" if "t < 5" for t
    by (rule waits_left [OF f [OF that] n [OF that] n [OF right_neq(3)]])
  have all: "dat s t = DRight" if "t < 5" "u < 5" "dat s u = DRight" for t u
    using rr [of 0] rr [of 1] rr [of 2] rr [of 3] rr [of 4] that unfolding right_five below_five by fastforce
  show False
  proof (cases "\<exists>u < 5. dat s u = DRight")
    case True
    then have "dat s t = DRight" if "t < 5" for t using all that by blast
    then have "num 5 (dat s) in_room = num 5 (\<lambda>_. DRight) in_room" unfolding num_def by (intro sum.cong) auto
    then show False using r by (simp add: num_const in_room_def)
  next
    case False
    have no: "dat s t \<noteq> DLeft" if "t < 5" for t using nl [of 0] nl [of 1] nl [of 2] nl [of 3] nl [of 4] that
      unfolding right_five below_five by fastforce
    then have d: "dat s t = DRoom \<and> max_eat_usem s = 0" if "t < 5" for t using phil_waits [OF n [OF that]] False that by blast
    then have "num 5 (dat s) in_room = 0" by (simp add: num_zero in_room_def)
    then show False using r d [of 0] by simp
  qed
qed

interpretation din: threads philosopher "{..<5}" "{..<5}" din_inv "\<lambda>s. s = phi_init"
proof (unfold_locales, goal_cases)
  case (1 s a s')
  then show ?case using philosopher_inv by simp
next
  case (3 s)
  then show ?case by (rule din_moves)
qed (simp add: din_start)

subsection \<open>Property\<close>

text \<open>
  C24: \<open>user/src/phase4/philosopher.c\<close>: in every state the five processes reach, whatever their order, no two
  neighbours eat at the same time, at most four have entered, and some process can always make its next step.
\<close>

theorem philosophers_dine:
  assumes "reach philosopher {..<PHI_NUM} phi_init s"
  shows "(\<forall>t < PHI_NUM. \<not> (dat s t = DEat \<and> dat s (right t) = DEat)) \<and> num PHI_NUM (dat s) in_room \<le> 4 \<and>
    \<not> stuck philosopher {..<PHI_NUM} s"
proof -
  have i: "din_inv s" using din.always [OF assms] by simp
  then have "\<not> (dat s t = DEat \<and> dat s (right t) = DEat)" if "t < 5" for t
    using that by (auto simp: din_inv_def fork_simps)
  moreover have "num 5 (dat s) in_room \<le> 4" using i unfolding din_inv_def by linarith
  ultimately show ?thesis using din.no_deadlock [OF assms] by simp
qed

text \<open>Four have sat down and taken the fork to the left; the fifth waits.\<close>

lemma din_demo: "run philosopher phi_init [0, 0, 0, 1, 1, 1, 2, 2, 2, 3, 3, 3, 4] =
    Some \<lparr>dat = (\<lambda>_. DThink)(0 := DRight, 1 := DRight, 2 := DRight, 3 := DRight, 4 := DRoom),
      phi_usem = (\<lambda>_. 1)(0 := 0, 1 := 0, 2 := 0, 3 := 0), max_eat_usem = 0\<rparr>"
  by (simp add: phi_init_def philosopher_def phi_P_def dgo_def sem_wait_def)

lemma philosophers_dine_witness:
  "\<exists>s. reach philosopher {..<PHI_NUM} phi_init s \<and> max_eat_usem s = 0 \<and> \<not> stuck philosopher {..<PHI_NUM} s"
proof -
  have r: "reach philosopher {..<PHI_NUM} phi_init
    \<lparr>dat = (\<lambda>_. DThink)(0 := DRight, 1 := DRight, 2 := DRight, 3 := DRight, 4 := DRoom),
      phi_usem = (\<lambda>_. 1)(0 := 0, 1 := 0, 2 := 0, 3 := 0), max_eat_usem = 0\<rparr>"
    by (rule run_reach [OF din_demo reach.init]) simp
  have "max_eat_usem \<lparr>dat = (\<lambda>_. DThink)(0 := DRight, 1 := DRight, 2 := DRight, 3 := DRight, 4 := DRoom),
      phi_usem = (\<lambda>_. 1)(0 := 0, 1 := 0, 2 := 0, 3 := 0), max_eat_usem = 0\<rparr> = 0" by simp
  then show ?thesis using philosophers_dine [OF r] r by blast
qed

end
