(* ===== verification/Buffer.thy ===== *)
theory Buffer
  imports Conc
begin

text \<open>
  \<open>user/src/phase4/producer.c\<close>: four producers and two consumers, processes that share three semaphores of
  the kernel. The buffer itself is only imagined: what the program does with it is to print a line. One step
  is one statement of \<open>producer\<close> or \<open>consumer\<close>; processes 0 to 3 produce, 4 and 5 consume.
\<close>

subsection \<open>The program\<close>

abbreviation (input) PC_BUF_SIZE :: nat where "PC_BUF_SIZE \<equiv> 32"
abbreviation (input) PRODUCER_NUM :: nat where "PRODUCER_NUM \<equiv> 4"
abbreviation (input) COMSUMER_NUM :: nat where "COMSUMER_NUM \<equiv> 2"

datatype bpc = Make | Claim | Lock | Use | Unlock | Signal | Rest

datatype out_line = Produce nat | Consume nat

text \<open>\<open>out\<close> is what has been printed, the last line first.\<close>

record bufsys =
  bat :: "nat \<Rightarrow> bpc"
  empty :: nat
  full :: nat
  mutex :: nat
  out :: "out_line list"

definition bgo :: "bufsys \<Rightarrow> nat \<Rightarrow> bpc \<Rightarrow> bufsys" where
  "bgo s t p = s\<lparr>bat := (bat s)(t := p)\<rparr>"

definition ph4_producer :: "bufsys \<Rightarrow> nat \<Rightarrow> bufsys option" where
  "ph4_producer s t = (case bat s t of
       Make \<Rightarrow> Some (bgo s t Claim)
     | Claim \<Rightarrow> do { v \<leftarrow> sem_wait (empty s); Some (bgo (s\<lparr>empty := v\<rparr>) t Lock) }
     | Lock \<Rightarrow> do { v \<leftarrow> sem_wait (mutex s); Some (bgo (s\<lparr>mutex := v\<rparr>) t Use) }
     | Use \<Rightarrow> Some (bgo (s\<lparr>out := Produce t # out s\<rparr>) t Unlock)
     | Unlock \<Rightarrow> Some (bgo (s\<lparr>mutex := sem_post (mutex s)\<rparr>) t Signal)
     | Signal \<Rightarrow> Some (bgo (s\<lparr>full := sem_post (full s)\<rparr>) t Make)
     | Rest \<Rightarrow> None)"

definition ph4_consumer :: "bufsys \<Rightarrow> nat \<Rightarrow> bufsys option" where
  "ph4_consumer s t = (case bat s t of
       Claim \<Rightarrow> do { v \<leftarrow> sem_wait (full s); Some (bgo (s\<lparr>full := v\<rparr>) t Lock) }
     | Lock \<Rightarrow> do { v \<leftarrow> sem_wait (mutex s); Some (bgo (s\<lparr>mutex := v\<rparr>) t Use) }
     | Use \<Rightarrow> Some (bgo (s\<lparr>out := Consume (t - PRODUCER_NUM) # out s\<rparr>) t Unlock)
     | Unlock \<Rightarrow> Some (bgo (s\<lparr>mutex := sem_post (mutex s)\<rparr>) t Signal)
     | Signal \<Rightarrow> Some (bgo (s\<lparr>empty := sem_post (empty s)\<rparr>) t Rest)
     | Rest \<Rightarrow> Some (bgo s t Claim)
     | Make \<Rightarrow> None)"

definition buf_step :: "bufsys \<Rightarrow> nat \<Rightarrow> bufsys option" where
  "buf_step s t = (if t < PRODUCER_NUM then ph4_producer s t else ph4_consumer s t)"

definition buf_main :: bufsys where
  "buf_main = \<lparr>bat = \<lambda>t. if t < PRODUCER_NUM then Make else Claim, empty = PC_BUF_SIZE, full = 0, mutex = 1, out = []\<rparr>"

subsection \<open>The invariant\<close>

definition tag :: "bufsys \<Rightarrow> nat \<Rightarrow> bool \<times> bpc" where
  "tag s t = (t < PRODUCER_NUM, bat s t)"

definition produced :: "out_line list \<Rightarrow> nat" where
  "produced ls = length [l \<leftarrow> ls. \<exists>i. l = Produce i]"

definition consumed :: "out_line list \<Rightarrow> nat" where
  "consumed ls = length [l \<leftarrow> ls. \<exists>i. l = Consume i]"

definition buf_inv :: "bufsys \<Rightarrow> bool" where
  "buf_inv s \<longleftrightarrow>
     int (mutex s) + num 6 (bat s) {Use, Unlock} = 1 \<and>
     int (empty s) + int (full s) + num 6 (bat s) {Lock, Use, Unlock, Signal} = int PC_BUF_SIZE \<and>
     int (produced (out s)) - int (consumed (out s)) =
       int (full s) + num 6 (tag s) {(True, Unlock), (True, Signal), (False, Lock), (False, Use)} \<and>
     (\<forall>t < 6. bat s t = Make \<longrightarrow> t < PRODUCER_NUM) \<and> (\<forall>t < 6. bat s t = Rest \<longrightarrow> \<not> t < PRODUCER_NUM)"

lemma bgo_sel [simp]: "bat (bgo s t p) = (bat s)(t := p)" "empty (bgo s t p) = empty s" "full (bgo s t p) = full s"
  "mutex (bgo s t p) = mutex s" "out (bgo s t p) = out s"
  by (simp_all add: bgo_def)

lemma tag_bgo [simp]: "tag (bgo s t p) = (tag s)(t := (t < PRODUCER_NUM, p))"
  by (auto simp: tag_def)

lemma tag_sel [simp]: "tag (s\<lparr>empty := v\<rparr>) = tag s" "tag (s\<lparr>full := v\<rparr>) = tag s" "tag (s\<lparr>mutex := v\<rparr>) = tag s" "tag (s\<lparr>out := l\<rparr>) = tag s"
  by (simp_all add: tag_def fun_eq_iff)

lemma lines_out [simp]: "produced (Produce i # ls) = Suc (produced ls)" "produced (Consume i # ls) = produced ls"
  "consumed (Produce i # ls) = consumed ls" "consumed (Consume i # ls) = Suc (consumed ls)" "produced [] = 0" "consumed [] = 0"
  by (simp_all add: produced_def consumed_def)

lemma buf_step_inv:
  assumes i: "buf_inv s" and t: "t < 6" and st: "buf_step s t = Some s'"
  shows "buf_inv s'"
proof (cases "t < 4")
  case True
  have "tag s t = (True, bat s t)" using True by (simp add: tag_def)
  then show ?thesis using assms True
    by (cases "bat s t") (auto simp: buf_step_def ph4_producer_def sem_post_def bind_eq_Some_conv buf_inv_def split: if_splits)
next
  case False
  have "tag s t = (False, bat s t)" using False by (simp add: tag_def)
  then show ?thesis using assms False
    by (cases "bat s t") (auto simp: buf_step_def ph4_consumer_def sem_post_def bind_eq_Some_conv buf_inv_def split: if_splits)
qed

lemma buf_start: "buf_inv buf_main"
proof -
  have "num 6 (bat buf_main) X = 0" if "Make \<notin> X" "Claim \<notin> X" for X using that by (simp add: num_zero buf_main_def)
  moreover have "num 6 (tag buf_main) {(True, Unlock), (True, Signal), (False, Lock), (False, Use)} = 0"
    by (simp add: num_zero buf_main_def tag_def)
  ultimately show ?thesis by (simp add: buf_inv_def) (simp add: buf_main_def)
qed

lemma buf_moves:
  assumes i: "buf_inv s"
  shows "\<exists>t \<in> {..<6}. buf_step s t \<noteq> None"
proof (rule ccontr)
  assume "\<not> ?thesis"
  then have n: "buf_step s t = None" if "t < 6" for t using that by blast
  have w: "bat s t = Claim \<or> bat s t = Lock \<and> mutex s = 0" if "t < 6" for t
    using n [OF that] i that
    by (cases "bat s t") (auto simp: buf_step_def ph4_producer_def ph4_consumer_def buf_inv_def split: if_splits Option.bind_splits)
  then have "num 6 (bat s) {Use, Unlock} = 0" by (fastforce simp: num_zero)
  then have "mutex s = 1" using i by (simp add: buf_inv_def)
  then have c: "bat s t = Claim" if "t < 6" for t using w [OF that] by simp
  then have "num 6 (bat s) {Lock, Use, Unlock, Signal} = 0" by (simp add: num_zero)
  then have "empty s + full s = 32" using i by (simp add: buf_inv_def)
  moreover have "empty s = 0" using n [of 0] c [of 0] by (simp add: buf_step_def ph4_producer_def split: Option.bind_splits)
  moreover have "full s = 0" using n [of 4] c [of 4] by (simp add: buf_step_def ph4_consumer_def split: Option.bind_splits)
  ultimately show False by simp
qed

interpretation buf: threads buf_step "{..<6}" "{..<6}" buf_inv "\<lambda>s. s = buf_main"
proof (unfold_locales, goal_cases)
  case (1 s a s')
  then show ?case using buf_step_inv by simp
next
  case (3 s)
  then show ?case by (rule buf_moves)
qed (simp add: buf_start)

subsection \<open>Property\<close>

text \<open>
  C25: \<open>user/src/phase4/producer.c\<close>: in every state its processes reach, the lines printed so far never
  consume more than was produced and never leave more than \<open>BUF_SIZE\<close> items unconsumed, at most one process
  is at the buffer, and some process can always make its next step.
\<close>

theorem producer_buffer_bounds:
  assumes "reach buf_step {..<PRODUCER_NUM + COMSUMER_NUM} buf_main s"
  shows "consumed (out s) \<le> produced (out s) \<and> produced (out s) \<le> consumed (out s) + PC_BUF_SIZE \<and>
    (\<forall>t < 6. \<forall>u < 6. bat s t = Use \<longrightarrow> bat s u = Use \<longrightarrow> t = u) \<and> \<not> stuck buf_step {..<PRODUCER_NUM + COMSUMER_NUM} s"
proof -
  have r: "reach buf_step {..<6} buf_main s" using assms by simp
  have i: "buf_inv s" using buf.always [OF r] by simp
  have "num 6 (tag s) {(True, Unlock), (True, Signal), (False, Lock), (False, Use)} \<le> num 6 (bat s) {Lock, Use, Unlock, Signal}"
    unfolding num_def tag_def by (rule sum_mono) auto
  then have "consumed (out s) \<le> produced (out s)" "produced (out s) \<le> consumed (out s) + 32"
    using i num_nonneg [of 6 "tag s" "{(True, Unlock), (True, Signal), (False, Lock), (False, Use)}"]
    unfolding buf_inv_def by linarith+
  moreover have "t = u" if "t < 6" "u < 6" "bat s t = Use" "bat s u = Use" for t u
  proof -
    have "num 6 (bat s) {Use, Unlock} \<le> 1" using i unfolding buf_inv_def by linarith
    then show ?thesis using num_one [of 6 "bat s" "{Use, Unlock}" u t] that by simp
  qed
  ultimately show ?thesis using buf.no_deadlock [OF r] by simp
qed

text \<open>One item made and taken, and the other consumer waiting.\<close>

lemma buf_demo: "run buf_step buf_main [0, 0, 0, 0, 0, 0, 4, 4, 4] =
    Some \<lparr>bat = (\<lambda>t. if t < PRODUCER_NUM then Make else Claim)(0 := Make, 4 := Unlock), empty = 31, full = 0, mutex = 0,
      out = [Consume 0, Produce 0]\<rparr>"
  by (simp add: buf_main_def buf_step_def ph4_producer_def ph4_consumer_def bgo_def sem_wait_def sem_post_def)

lemma producer_buffer_bounds_witness:
  "\<exists>s. reach buf_step {..<PRODUCER_NUM + COMSUMER_NUM} buf_main s \<and> out s = [Consume 0, Produce 0] \<and>
     \<not> stuck buf_step {..<PRODUCER_NUM + COMSUMER_NUM} s"
proof -
  have r: "reach buf_step {..<PRODUCER_NUM + COMSUMER_NUM} buf_main
    \<lparr>bat = (\<lambda>t. if t < PRODUCER_NUM then Make else Claim)(0 := Make, 4 := Unlock), empty = 31, full = 0, mutex = 0,
      out = [Consume 0, Produce 0]\<rparr>"
    by (rule run_reach [OF buf_demo reach.init]) simp
  have "out \<lparr>bat = (\<lambda>t. if t < PRODUCER_NUM then Make else Claim)(0 := Make, 4 := Unlock), empty = 31, full = 0, mutex = 0,
      out = [Consume 0, Produce 0]\<rparr> = [Consume 0, Produce 0]" by simp
  then show ?thesis using producer_buffer_bounds [OF r] r by blast
qed

end
