(* ===== verification/MkfsProofs.thy ===== *)
theory MkfsProofs
  imports Mkfs
begin

text \<open>
  The image \<open>utils/mkfs.c\<close> writes, seen with the eyes of the kernel: \<open>as_fs m\<close> is the kernel's file
  system over the image, with an empty cache and, in slot \<open>p\<close>, the inode \<open>p\<close> as it lies on the
  disk. An operation of the tool is then a step of the kernel's file system (\<open>grew\<close>, \<open>extends\<close>,
  \<open>stored\<close>, \<open>slot_set\<close>), and the lemmas on those carry the proofs. \<open>mk_inv\<close> is the invariant of
  the image: which files there are, with which bytes, and that no two share a block.
\<close>

subsection \<open>The image as a file system\<close>

definition iaddr :: "nat \<Rightarrow> nat" where
  "iaddr p = 8192 + DINODE_SIZE * p"

definition baddr :: "u32 \<Rightarrow> nat" where
  "baddr b = (unat b - 32) * BLK_SIZE"

definition as_fs :: "mkfs \<Rightarrow> fs" where
  "as_fs m = \<lparr>dev = \<lparr>dsk = (\<lambda>a. if a < 131072 then 0 else mk_img m (a - 131072)),
       blk_cache = (\<lambda>_. \<lparr>bc_valid = False, bc_no = 0, bc_buf = (\<lambda>_. 0)\<rparr>)\<rparr>,
     sb = mkfs_sb,
     inodes = (\<lambda>p. \<lparr>i_no = of_nat p, i_ref = 0, i_del = False,
       i_di = (if p < INUM then dinode_of (map (mk_img m) [iaddr p..<iaddr p + DINODE_SIZE])
               else zero_dinode 0)\<rparr>)\<rparr>"

definition in_img :: "u32 \<Rightarrow> bool" where
  "in_img b \<longleftrightarrow> 32 \<le> unat b \<and> unat b < BLK_NUM"

lemma as_fs_sel [simp]:
  "sb (as_fs m) = mkfs_sb" "i_no (inodes (as_fs m) p) = of_nat p" "i_ref (inodes (as_fs m) p) = 0"
  "i_del (inodes (as_fs m) p) = False" "bdev_ok (dev (as_fs m))"
  by (simp_all add: as_fs_def bdev_ok_def)

lemma as_fs_upd [simp]:
  "as_fs (m\<lparr>next_blk := x\<rparr>) = as_fs m" "as_fs (m\<lparr>next_inode := x\<rparr>) = as_fs m"
  "as_fs (m\<lparr>sb_p := a\<rparr>) = as_fs m" "as_fs (m\<lparr>bitmap_p := a\<rparr>) = as_fs m" "as_fs (m\<lparr>root_p := a\<rparr>) = as_fs m"
  by (simp_all add: as_fs_def cong: if_cong)

lemma mk_put_sel [simp]:
  "sb_p (mk_put m a bs) = sb_p m" "bitmap_p (mk_put m a bs) = bitmap_p m" "root_p (mk_put m a bs) = root_p m"
  "next_blk (mk_put m a bs) = next_blk m" "next_inode (mk_put m a bs) = next_inode m"
  "mk_img (mk_put m a bs) = overlay (mk_img m) a bs"
  by (simp_all add: mk_put_def)

lemma fc_as_fs:
  "fc (as_fs m) b k = (if in_img b \<and> k < BLK_SIZE then mk_img m (baddr b + k) else 0)"
proof -
  have "BLK_SIZE * unat b + k - 131072 = (unat b - 32) * BLK_SIZE + k" if "32 \<le> unat b" using that by simp
  moreover have "BLK_SIZE * unat b + k < 131072 \<longleftrightarrow> unat b < 32" if "k < BLK_SIZE" using that by auto
  ultimately show ?thesis
    by (auto simp: fc_def bcontent_def as_fs_def on_disk_def in_img_def baddr_def)
qed

lemma di_as_fs:
  assumes "p < INUM"
  shows "di_of (as_fs m) p = \<lparr>di_type = mk_word m (iaddr p), di_device = mk_word m (iaddr p + 4),
     di_size = mk_word m (iaddr p + 8), di_addrs = map (\<lambda>i. mk_word m (iaddr p + 12 + 4 * i)) [0..<13]\<rparr>"
proof -
  have w: "of_le32 (drop k (map g [a..<a + 64])) = word_at g (a + k)" if "k + 4 \<le> 64" for g k a
  proof -
    have "drop k (map g [a..<a + 64]) = map g [a + k..<a + k + 4] @ map g [a + k + 4..<a + 64]"
      using that upt_split [of "a + k" "a + k + 4" "a + 64"] by (simp add: drop_map map_append [symmetric] del: map_append)
    moreover have "of_le32 (map g [x..<x + 4] @ ys) = word_at g x" for x ys
      by (simp add: word_at_def upt_conv_Cons)
    ultimately show ?thesis by simp
  qed
  have "of_le32 (map g [a..<a + 64]) = word_at g a" for g a using w [of 0 g a] by simp
  then show ?thesis using assms by (simp add: as_fs_def dinode_of_def w mk_word_def add.assoc del: upt_Suc)
qed

lemma iaddr_block:
  assumes "p < INUM"
  shows "I2BLKNO (as_fs m) (of_nat p) = of_nat (34 + p div 64)" and "in_img (of_nat (34 + p div 64))"
    and "baddr (of_nat (34 + p div 64)) + I2BLKOFF (of_nat p) = iaddr p"
    and "I2BLKOFF (of_nat p) = (p mod 64) * 64"
proof -
  have p: "unat (of_nat p :: u32) = p" using assms by (intro unat_of_nat32) simp
  have b: "unat (of_nat (34 + p div 64) :: u32) = 34 + p div 64" using assms by (intro unat_of_nat32) simp
  show off: "I2BLKOFF (of_nat p) = (p mod 64) * 64" by (simp add: I2BLKOFF_def unat_mod p)
  have "unat (of_nat p div 64 :: u32) = p div 64" by (simp add: unat_div p)
  moreover have "unat (of_nat (p div 64) :: u32) = p div 64" using assms by (intro unat_of_nat32) simp
  ultimately have "(of_nat p div 64 :: u32) = of_nat (p div 64)" by (simp only: word_unat_eq_iff)
  then show "I2BLKNO (as_fs m) (of_nat p) = of_nat (34 + p div 64)" by (simp add: I2BLKNO_def)
  have "p div 64 < 30" using assms by simp
  then show "in_img (of_nat (34 + p div 64))" unfolding in_img_def b by simp
  have "p div 64 * BLK_SIZE + p mod 64 * 64 = 64 * p" using div_mult_mod_eq [of p 64] by linarith
  then show "baddr (of_nat (34 + p div 64)) + I2BLKOFF (of_nat p) = iaddr p"
    unfolding off baddr_def b iaddr_def by simp
qed

lemma iblk_as_fs: "p < INUM \<Longrightarrow> iblk (as_fs m) p = of_nat (34 + p div 64)"
  by (simp add: iblk_def iaddr_block)

lemma disk_dinode_as_fs:
  assumes "p < INUM"
  shows "disk_dinode (as_fs m) (of_nat p) = di_of (as_fs m) p"
proof -
  note ib = iaddr_block [OF assms]
  have "p mod 64 < 64" by simp
  then have "I2BLKOFF (of_nat p) + 64 \<le> BLK_SIZE" unfolding ib(4) by linarith
  then have "map (fc (as_fs m) (of_nat (34 + p div 64))) [I2BLKOFF (of_nat p)..<I2BLKOFF (of_nat p) + 64] =
      map (mk_img m) [iaddr p..<iaddr p + 64]"
    unfolding ib(3) [symmetric]
    by (intro nth_equalityI) (simp_all add: fc_as_fs ib(2) add.assoc del: of_nat_add)
  then show ?thesis unfolding disk_dinode_def ib(1) using assms by (simp add: as_fs_def)
qed

text \<open>A write inside one block, and the inodes it leaves alone.\<close>

lemma fc_put:
  assumes b: "in_img b" and len: "off + length bs \<le> BLK_SIZE" and a: "a = baddr b + off"
  shows "fc (as_fs (mk_put m a bs)) = (fc (as_fs m))(b := overlay (fc (as_fs m) b) off bs)"
proof (intro ext)
  fix c k
  show "fc (as_fs (mk_put m a bs)) c k = ((fc (as_fs m))(b := overlay (fc (as_fs m) b) off bs)) c k"
  proof (cases "in_img c \<and> k < BLK_SIZE")
    case True
    have "c = b" if "a \<le> baddr c + k" "baddr c + k < a + length bs"
    proof -
      have "(unat b - 32) * BLK_SIZE \<le> (unat c - 32) * BLK_SIZE + k"
        "(unat c - 32) * BLK_SIZE + k < (unat b - 32) * BLK_SIZE + BLK_SIZE"
        using that len by (simp_all add: a baddr_def)
      then have "unat c - 32 = unat b - 32"
        using True block_addr_unique [of "unat b - 32" "(unat c - 32) * BLK_SIZE + k" "unat c - 32" k] by simp
      moreover have "32 \<le> unat c" "32 \<le> unat b" using True b by (simp_all add: in_img_def)
      ultimately have "unat c = unat b" by linarith
      then show ?thesis by (simp only: word_unat_eq_iff)
    qed
    then show ?thesis using True by (auto simp: fc_as_fs overlay_def a)
  next
    case False
    then show ?thesis using b len by (auto simp: fc_as_fs overlay_def)
  qed
qed

lemma inodes_put:
  assumes "a + length bs \<le> iaddr p \<or> iaddr p + DINODE_SIZE \<le> a"
  shows "inodes (as_fs (mk_put m a bs)) p = inodes (as_fs m) p"
proof -
  have "iaddr p + 64 \<le> a \<or> a + length bs \<le> iaddr p" using assms by blast
  from map_overlay_other [OF this, of "mk_img m"] show ?thesis by (simp add: as_fs_def del: map_eq_conv)
qed

lemma inodes_put_data:
  assumes "p < INUM" and "in_img b" and "unat b < 34 \<or> 64 \<le> unat b" and "off + length bs \<le> BLK_SIZE"
  shows "inodes (as_fs (mk_put m (baddr b + off) bs)) p = inodes (as_fs m) p"
proof (rule inodes_put)
  show "baddr b + off + length bs \<le> iaddr p \<or> iaddr p + DINODE_SIZE \<le> baddr b + off"
    using assms unfolding baddr_def iaddr_def in_img_def by linarith
qed

text \<open>A write of a word into an inode.\<close>

lemma mk_word_put [simp]: "mk_word (mk_put m a (le32 w)) a = w"
  by (simp add: mk_word_def)

lemma mk_word_put_other: "c + 4 \<le> a \<or> a + length bs \<le> c \<Longrightarrow> mk_word (mk_put m a bs) c = mk_word m c"
  by (simp add: mk_word_def word_at_overlay_other)

lemma inode_put:
  assumes p: "p < INUM" and k: "k + length bs \<le> DINODE_SIZE"
  shows "p' \<noteq> p \<Longrightarrow> inodes (as_fs (mk_put m (iaddr p + k) bs)) p' = inodes (as_fs m) p'"
    and "\<not> (b = iblk (as_fs m) p \<and> in_slot (of_nat p) l) \<Longrightarrow>
      fc (as_fs (mk_put m (iaddr p + k) bs)) b l = fc (as_fs m) b l"
proof -
  note ib = iaddr_block [OF p]
  show "inodes (as_fs (mk_put m (iaddr p + k) bs)) p' = inodes (as_fs m) p'" if "p' \<noteq> p"
  proof (rule inodes_put)
    have "p' < p \<or> p < p'" using that by linarith
    then show "iaddr p + k + length bs \<le> iaddr p' \<or> iaddr p' + DINODE_SIZE \<le> iaddr p + k"
      using k unfolding iaddr_def by linarith
  qed
  have "I2BLKOFF (of_nat p) + k + length bs \<le> BLK_SIZE"
    using k I2BLKOFF_bound [of "of_nat p"] by linarith
  then have "fc (as_fs (mk_put m (iaddr p + k) bs)) = (fc (as_fs m))(iblk (as_fs m) p :=
      overlay (fc (as_fs m) (iblk (as_fs m) p)) (I2BLKOFF (of_nat p) + k) bs)"
    unfolding iblk_as_fs [OF p] using ib(2) by (intro fc_put) (simp_all add: ib(3) [symmetric])
  then show "fc (as_fs (mk_put m (iaddr p + k) bs)) b l = fc (as_fs m) b l"
    if "\<not> (b = iblk (as_fs m) p \<and> in_slot (of_nat p) l)"
    using that k by (auto simp: overlay_def in_slot_def)
qed

lemma slot_set_put:
  assumes p: "p < INUM" and k: "k \<in> {0, 4, 8}"
  shows "slot_set (as_fs m) (as_fs (mk_put m (iaddr p + k) (le32 w))) p"
proof -
  let ?m = "mk_put m (iaddr p + k) (le32 w)"
  have "mk_word ?m (iaddr p + 12 + 4 * i) = mk_word m (iaddr p + 12 + 4 * i)" for i
    using k by (intro mk_word_put_other) auto
  then have "di_addrs (di_of (as_fs ?m) p) = di_addrs (di_of (as_fs m) p)"
    by (simp add: di_as_fs [OF p])
  then show ?thesis
    using inode_put [OF p, of k "le32 w"] k disk_dinode_as_fs [OF p, of ?m] by (auto simp: slot_set_def)
qed

subsection \<open>Allocating a block\<close>

text \<open>The bitmap has the bits below the counter, and nothing was ever written above it.\<close>

definition mk_ok :: "mkfs \<Rightarrow> bool" where
  "mk_ok m \<longleftrightarrow> bitmap_p m = BLK_SIZE \<and> 64 \<le> unat (next_blk m) \<and> unat (next_blk m) \<le> BLK_NUM \<and>
     (\<forall>k < BLK_NUM. used (as_fs m) k \<longleftrightarrow> k < unat (next_blk m)) \<and>
     (\<forall>b. unat (next_blk m) \<le> unat b \<longrightarrow> fc (as_fs m) b = (\<lambda>_. 0))"

definition ptrs_same :: "mkfs \<Rightarrow> mkfs \<Rightarrow> bool" where
  "ptrs_same m m' \<longleftrightarrow> sb_p m' = sb_p m \<and> bitmap_p m' = bitmap_p m \<and> root_p m' = root_p m \<and>
     next_inode m' = next_inode m \<and> fc (as_fs m') 32 = fc (as_fs m) 32"

lemma ptrs_same_refl [simp]: "ptrs_same m m"
  by (simp add: ptrs_same_def)

lemma ptrs_same_trans [trans]: "ptrs_same m m1 \<Longrightarrow> ptrs_same m1 m2 \<Longrightarrow> ptrs_same m m2"
  by (simp add: ptrs_same_def)

lemma mk_ok_fs_ok: "mk_ok m \<Longrightarrow> fs_ok (as_fs m)"
  by (simp add: mk_ok_def fs_ok_def)

lemma nfree_as_fs: "mk_ok m \<Longrightarrow> nfree (as_fs m) = BLK_NUM - unat (next_blk m)"
proof -
  assume ok: "mk_ok m"
  have "{k. k < BLK_NUM \<and> \<not> used (as_fs m) k} = {unat (next_blk m)..<BLK_NUM}"
    using ok by (auto simp: mk_ok_def)
  then show ?thesis by (simp add: nfree_def)
qed

text \<open>What a write below the counter and outside the bitmap keeps.\<close>

lemma mk_ok_put:
  assumes ok: "mk_ok m" and b: "in_img b" "b \<noteq> 33" "unat b < unat (next_blk m)"
    and fc': "\<forall>c. c \<noteq> b \<longrightarrow> fc (as_fs (mk_put m a bs)) c = fc (as_fs m) c"
  shows "mk_ok (mk_put m a bs)" and "b \<noteq> 32 \<Longrightarrow> ptrs_same m (mk_put m a bs)"
proof -
  have "used (as_fs (mk_put m a bs)) = used (as_fs m)"
    using fc' b(2) by (auto simp: used_def fun_eq_iff)
  moreover have "fc (as_fs (mk_put m a bs)) c = fc (as_fs m) c" if "unat (next_blk m) \<le> unat c" for c
    using fc' b(3) that by (metis leD)
  ultimately show "mk_ok (mk_put m a bs)" using ok by (simp add: mk_ok_def)
  show "b \<noteq> 32 \<Longrightarrow> ptrs_same m (mk_put m a bs)" using fc' by (auto simp: ptrs_same_def)
qed

lemma mk_balloc_ok:
  assumes ok: "mk_ok m" and free: "unat (next_blk m) < BLK_NUM"
  obtains m' where "mk_balloc m = Some (next_blk m, m')" and "mk_ok m'" and "ptrs_same m m'"
    and "unat (next_blk m') = unat (next_blk m) + 1"
    and "\<forall>k < BLK_NUM. used (as_fs m') k \<longleftrightarrow> used (as_fs m) k \<or> k = unat (next_blk m)"
    and "\<forall>c. c \<noteq> 33 \<longrightarrow> fc (as_fs m') c = fc (as_fs m) c" and "inodes (as_fs m') = inodes (as_fs m)"
proof -
  let ?n = "unat (next_blk m)" and ?F = "as_fs m"
  define x where "x = mk_img m (BLK_SIZE + ?n div 8)"
  define m1 where "m1 = mk_put m (BLK_SIZE + ?n div 8) [x OR push_bit (?n mod 8) 1]"
  define m' where "m' = m1\<lparr>next_blk := next_blk m + 1\<rparr>"
  have bm: "in_img 33" "baddr 33 = BLK_SIZE" by (simp_all add: in_img_def baddr_def)
  have n8: "?n div 8 < BLK_SIZE" using free by simp
  have fc1: "fc (as_fs m') = (fc ?F)(33 := overlay (fc ?F 33) (?n div 8) [x OR push_bit (?n mod 8) 1])"
    unfolding m'_def m1_def as_fs_upd using bm n8 by (intro fc_put) simp_all
  have x: "x = fc ?F 33 (?n div 8)" using bm n8 by (simp add: x_def fc_as_fs)
  have n': "unat (next_blk m') = ?n + 1" using free by (simp add: m'_def unat_word_ariths)
  have used': "used (as_fs m') k \<longleftrightarrow> used ?F k \<or> k = ?n" for k
  proof -
    have "bit (push_bit (?n mod 8) (1 :: u8)) (k mod 8) \<longleftrightarrow> k mod 8 = ?n mod 8"
      by (auto simp: bit_simps push_bit_of_1)
    moreover have "k = ?n \<longleftrightarrow> k div 8 = ?n div 8 \<and> k mod 8 = ?n mod 8" by (metis div_mult_mod_eq)
    ultimately show ?thesis
      by (cases "k div 8 = ?n div 8") (auto simp: used_def fc1 overlay_def x bit_or_iff)
  qed
  have inodes': "inodes (as_fs m') = inodes ?F"
    unfolding m'_def m1_def as_fs_upd
    using n8 by (intro ext inodes_put) (simp add: iaddr_def)
  have "fc (as_fs m') b = (\<lambda>_. 0)" if "?n + 1 \<le> unat b" for b
  proof -
    have "b \<noteq> 33" using that ok by (auto simp: mk_ok_def)
    then show ?thesis using that ok by (simp add: fc1 mk_ok_def)
  qed
  then have "mk_ok m'"
    using ok free by (auto simp: mk_ok_def n' used') (simp_all add: m'_def m1_def)
  moreover have "ptrs_same m m'"
    by (simp add: ptrs_same_def fc1) (simp add: m'_def m1_def)
  moreover have "mk_balloc m = Some (next_blk m, m')"
    using ok free by (simp add: mk_balloc_def mk_ok_def m'_def m1_def x_def unat_div unat_mod Let_def)
  ultimately show ?thesis using that n' used' inodes' by (simp add: fc1)
qed

subsection \<open>Walking to a block\<close>

lemma mk_word_block:
  assumes "in_img b" and "off + 4 \<le> BLK_SIZE"
  shows "mk_word m (baddr b + off) = word_at (fc (as_fs m) b) off"
proof -
  have "map (mk_img m) [baddr b + off..<baddr b + off + 4] = map (fc (as_fs m) b) [off..<off + 4]"
    using assms by (intro nth_equalityI) (simp_all add: fc_as_fs add.assoc del: upt_rec_numeral)
  then show ?thesis by (simp only: mk_word_def word_at_def)
qed

lemma ptr_as_fs: "p < INUM \<Longrightarrow> q < 13 \<Longrightarrow> ptr (as_fs m) p q = mk_word m (iaddr p + 12 + 4 * q)"
  by (simp add: ptr_def di_as_fs del: upt_Suc)

lemma ptr_indirect:
  "13 \<le> q \<Longrightarrow> ptr f p q = (if ptr f p 12 = 0 then 0 else word_at (fc f (ptr f p 12)) ((q - 13) * 4))"
  by (simp add: ptr_def Let_def)

lemma fwf_in_img:
  assumes "fwf f p" and "q < NPTR" and "ptr f p q \<noteq> 0"
  shows "in_img (ptr f p q)" "on_disk (ptr f p q)"
  using fwf_ptr [OF assms] by (simp_all add: in_img_def on_disk_def)

lemma fwf_below:
  assumes ok: "mk_ok m" and "fwf (as_fs m) p" and "q < NPTR" and "ptr (as_fs m) p q \<noteq> 0"
  shows "unat (ptr (as_fs m) p q) < unat (next_blk m)"
  using fwf_ptr [OF assms(2-4)] ok by (simp add: mk_ok_def)

lemma next_blk_facts:
  assumes "mk_ok m"
  shows "next_blk m \<noteq> 33" "next_blk m \<noteq> 0" "fc (as_fs m) (next_blk m) = (\<lambda>_. 0)"
    and "p < INUM \<Longrightarrow> next_blk m \<noteq> iblk (as_fs m) p"
proof -
  have n: "64 \<le> unat (next_blk m)" using assms by (simp add: mk_ok_def)
  then show "next_blk m \<noteq> 33" "next_blk m \<noteq> 0" by auto
  show "fc (as_fs m) (next_blk m) = (\<lambda>_. 0)" using assms by (simp add: mk_ok_def)
  have "unat (of_nat p :: u32) = p" if "p < INUM" using that by (intro unat_of_nat32) simp
  then show "p < INUM \<Longrightarrow> next_blk m \<noteq> iblk (as_fs m) p"
    using n iblk_range(3) [of "as_fs m" p] by force
qed

lemma iblk_facts:
  assumes "p < INUM"
  shows "in_img (iblk (as_fs m) p)" "34 \<le> unat (iblk (as_fs m) p)" "unat (iblk (as_fs m) p) < 64"
proof -
  have "unat (of_nat p :: u32) = p" using assms by (intro unat_of_nat32) simp
  then show "34 \<le> unat (iblk (as_fs m) p)" "unat (iblk (as_fs m) p) < 64"
    using iblk_range(2,3) [of "as_fs m" p] assms by simp_all
  then show "in_img (iblk (as_fs m) p)" by (simp add: in_img_def)
qed

text \<open>A write into an inode keeps the rest of the image in order.\<close>

lemma mk_ok_inode_put:
  assumes ok: "mk_ok m" and p: "p < INUM" and k: "k + length bs \<le> DINODE_SIZE"
  shows "mk_ok (mk_put m (iaddr p + k) bs)" and "ptrs_same m (mk_put m (iaddr p + k) bs)"
proof -
  note ib = iblk_facts [OF p, of m]
  have ne: "iblk (as_fs m) p \<noteq> 33" "iblk (as_fs m) p \<noteq> 32" using ib by auto
  have lt: "unat (iblk (as_fs m) p) < unat (next_blk m)" using ib ok by (simp add: mk_ok_def)
  have "\<forall>c. c \<noteq> iblk (as_fs m) p \<longrightarrow> fc (as_fs (mk_put m (iaddr p + k) bs)) c = fc (as_fs m) c"
    using inode_put(2) [OF p k] by blast
  from mk_ok_put [OF ok ib(1) ne(1) lt this] ne(2)
  show "mk_ok (mk_put m (iaddr p + k) bs)" "ptrs_same m (mk_put m (iaddr p + k) bs)" by simp_all
qed

text \<open>\<open>walked m m' p q\<close>: the file has a block behind pointer \<open>q\<close>, allocated or there before.\<close>

definition walked :: "mkfs \<Rightarrow> mkfs \<Rightarrow> nat \<Rightarrow> nat \<Rightarrow> bool" where
  "walked m m' p q \<longleftrightarrow> mk_ok m' \<and> ptrs_same m m' \<and> extends (as_fs m) (as_fs m') p \<and>
     ptr (as_fs m') p q \<noteq> 0 \<and> unat (next_blk m') \<le> unat (next_blk m) + 1"

lemma mk_entry_direct:
  assumes ok: "mk_ok m" and p: "p < INUM" and wf: "fwf (as_fs m) p" and q: "q < 13"
    and free: "unat (next_blk m) < BLK_NUM"
  obtains m' where "mk_entry m (iaddr p + 12 + 4 * q) = Some (ptr (as_fs m') p q, m')" and "walked m m' p q"
proof (cases "ptr (as_fs m) p q = 0")
  case False
  then show ?thesis
    using that [of m] ok fwf_refl_extends [OF wf] by (simp add: mk_entry_def ptr_as_fs [OF p q] walked_def)
next
  case True
  let ?n = "next_blk m"
  obtain m1 where m1: "mk_balloc m = Some (?n, m1)" "mk_ok m1" "ptrs_same m m1"
    "unat (next_blk m1) = unat ?n + 1"
    and fc1: "\<forall>c. c \<noteq> 33 \<longrightarrow> fc (as_fs m1) c = fc (as_fs m) c" and i1: "inodes (as_fs m1) = inodes (as_fs m)"
    by (rule mk_balloc_ok [OF ok free])
  define m' where "m' = mk_put m1 (iaddr p + (12 + 4 * q)) (le32 ?n)"
  note put = inode_put [OF p, of "12 + 4 * q" "le32 ?n" _ m1, folded m'_def]
  have k: "12 + 4 * q + length (le32 ?n) \<le> DINODE_SIZE" using q by simp
  note ok' = mk_ok_inode_put [OF m1(2) p k, folded m'_def]
  have n': "next_blk m' = next_blk m1" by (simp add: m'_def)
  have di1: "di_of (as_fs m1) p = di_of (as_fs m) p" by (simp add: i1)
  have di': "di_of (as_fs m') p = (di_of (as_fs m) p)\<lparr>di_addrs := (di_addrs (di_of (as_fs m) p))[q := ?n]\<rparr>"
  proof -
    have "map (\<lambda>i. mk_word m' (iaddr p + 12 + 4 * i)) [0..<13] =
        (map (\<lambda>i. mk_word m1 (iaddr p + 12 + 4 * i)) [0..<13])[q := ?n]"
    proof (rule nth_equalityI)
      fix i assume "i < length (map (\<lambda>i. mk_word m' (iaddr p + 12 + 4 * i)) [0..<13])"
      then have i: "i < 13" by simp
      have "mk_word m' (iaddr p + 12 + 4 * i) = (if i = q then ?n else mk_word m1 (iaddr p + 12 + 4 * i))"
        by (auto simp: m'_def add.assoc intro!: mk_word_put_other)
      then show "map (\<lambda>i. mk_word m' (iaddr p + 12 + 4 * i)) [0..<13] ! i =
          (map (\<lambda>i. mk_word m1 (iaddr p + 12 + 4 * i)) [0..<13])[q := ?n] ! i"
        using i by (auto simp: nth_list_update simp del: upt_Suc)
    qed simp
    moreover have other: "mk_word m' (iaddr p + c) = mk_word m1 (iaddr p + c)" if "c \<le> 8" for c
      unfolding m'_def using that by (intro mk_word_put_other) simp
    ultimately show ?thesis
      using other [of 0] other [of 4] other [of 8] unfolding di1 [symmetric] unfolding di_as_fs [OF p] by simp
  qed
  have len: "length (di_addrs (di_of (as_fs m) p)) = 13" using wf by (simp add: fwf_def)
  have ib: "iblk (as_fs m1) p = iblk (as_fs m) p" by (simp add: iblk_as_fs [OF p])
  have fc': "fc (as_fs m') b = fc (as_fs m) b" if "b \<noteq> 33" "b \<noteq> iblk (as_fs m) p" for b
    using put(2) [OF k] fc1 that ib by (auto simp: fun_eq_iff)
  have new: "ptr (as_fs m') p r = (if r = q then ?n else ptr (as_fs m) p r)" if "r < NPTR" for r
  proof (cases "r < 13 \<or> q = 12 \<or> ptr (as_fs m) p 12 = 0")
    case True
    then show ?thesis
      using q len \<open>ptr (as_fs m) p q = 0\<close> next_blk_facts [OF ok] fc' p
      by (auto simp: ptr_def Let_def di' nth_list_update)
  next
    case False
    then have "ptr (as_fs m) p 12 \<noteq> 33" "ptr (as_fs m) p 12 \<noteq> iblk (as_fs m) p"
      using fwf_ptr(1) [OF wf, of 12] iblk_facts [OF p, of m] by force+
    then show ?thesis
      using False q len fc' [of "ptr (as_fs m) p 12"] by (auto simp: ptr_def Let_def di' nth_list_update)
  qed
  have "grew (as_fs m) (as_fs m') p q"
  proof (rule grewI [OF wf _ True free])
    show "q < NPTR" using q by simp
    show "\<not> used (as_fs m) (unat ?n)" using ok free by (simp add: mk_ok_def)
    show "fs_ok (as_fs m')" using mk_ok_fs_ok [OF ok'(1)] .
    show "\<forall>k < BLK_NUM. used (as_fs m') k \<longleftrightarrow> used (as_fs m) k \<or> k = unat ?n"
      using ok ok'(1) m1(4) by (auto simp: mk_ok_def n')
    show "\<forall>b. b \<noteq> 33 \<and> b \<noteq> iblk (as_fs m) p \<and> (b \<noteq> ptr (as_fs m) p 12 \<or> b = 0) \<longrightarrow>
        fc (as_fs m') b = (if b = of_nat (unat ?n) then \<lambda>_. 0 else fc (as_fs m) b)"
      using fc' next_blk_facts(3) [OF ok] by simp
    show "\<forall>k. \<not> in_slot (i_no (inodes (as_fs m) p)) k \<longrightarrow>
        fc (as_fs m') (iblk (as_fs m) p) k = fc (as_fs m) (iblk (as_fs m) p) k"
      using put(2) [OF k] fc1 iblk_not_bitmap [OF wf] ib by auto
    show "meta_same (as_fs m) (as_fs m') p"
      using put(1) [OF k] di' by (simp add: meta_same_def i1)
    show "\<forall>r < NPTR. ptr (as_fs m') p r = (if r = q then of_nat (unat ?n) else ptr (as_fs m) p r)"
      using new by simp
    show "disk_dinode (as_fs m') (i_no (inodes (as_fs m') p)) = di_of (as_fs m') p"
      using disk_dinode_as_fs [OF p] by simp
  qed (use len in \<open>simp_all add: di'\<close>)
  then have "walked m m' p q"
    using ok' m1(3,4) grew_extends [OF wf _ _ True] q ptrs_same_trans
    by (auto simp: walked_def grew_def n')
  moreover have "mk_entry m (iaddr p + 12 + 4 * q) = Some (ptr (as_fs m') p q, m')"
    using True m1(1) new [of q] q by (simp add: mk_entry_def ptr_as_fs [OF p q, symmetric]) (simp add: m'_def add.assoc)
  ultimately show ?thesis using that by blast
qed

lemma mk_entry_indirect:
  assumes ok: "mk_ok m" and p: "p < INUM" and wf: "fwf (as_fs m) p" and j: "j < NINDIRECT"
    and ind: "ptr (as_fs m) p 12 \<noteq> 0" and free: "unat (next_blk m) < BLK_NUM"
  obtains m' where "mk_entry m (baddr (ptr (as_fs m) p 12) + 4 * j) = Some (ptr (as_fs m') p (13 + j), m')"
    and "walked m m' p (13 + j)"
proof (cases "ptr (as_fs m) p (13 + j) = 0")
  case False
  have w: "mk_word m (baddr (ptr (as_fs m) p 12) + 4 * j) = ptr (as_fs m) p (13 + j)"
    using mk_word_block [OF fwf_in_img(1) [OF wf _ ind], of "4 * j" m] j ind
    by (simp add: ptr_indirect [of "13 + j"] mult.commute)
  then show ?thesis
    using that [of m] ok False fwf_refl_extends [OF wf] by (simp add: mk_entry_def w walked_def)
next
  case True
  let ?n = "next_blk m" and ?ind = "ptr (as_fs m) p 12" and ?q = "13 + j"
  have w: "mk_word m (baddr ?ind + 4 * j) = 0"
    using mk_word_block [OF fwf_in_img(1) [OF wf _ ind], of "4 * j" m] j ind True
    by (simp add: ptr_indirect [of "13 + j"] mult.commute)
  obtain m1 where m1: "mk_balloc m = Some (?n, m1)" "mk_ok m1" "ptrs_same m m1"
    "unat (next_blk m1) = unat ?n + 1"
    and fc1: "\<forall>c. c \<noteq> 33 \<longrightarrow> fc (as_fs m1) c = fc (as_fs m) c" and i1: "inodes (as_fs m1) = inodes (as_fs m)"
    by (rule mk_balloc_ok [OF ok free])
  define m' where "m' = mk_put m1 (baddr ?ind + 4 * j) (le32 ?n)"
  have img: "in_img ?ind" and lt: "unat ?ind < unat ?n" and i64: "64 \<le> unat ?ind"
    using fwf_in_img [OF wf _ ind] fwf_below [OF ok wf _ ind] fwf_ptr(1) [OF wf _ ind] by simp_all
  have len: "4 * j + length (le32 ?n) \<le> BLK_SIZE" using j by simp
  have ne: "?ind \<noteq> 33" "?ind \<noteq> 32" "?ind \<noteq> ?n" "?ind \<noteq> iblk (as_fs m) p"
    using i64 lt iblk_facts(3) [OF p, of m] by force+
  have fc': "fc (as_fs m') = (fc (as_fs m1))(?ind := overlay (fc (as_fs m) ?ind) (4 * j) (le32 ?n))"
    unfolding m'_def using fc_put [OF img len refl, of m1] fc1 ne(1) by simp
  have i': "inodes (as_fs m') p' = inodes (as_fs m) p'" for p'
  proof (cases "p' < INUM")
    case True
    then show ?thesis unfolding m'_def using inodes_put_data [OF True img _ len, of m1] i64 i1 by simp
  next
    case False
    then show ?thesis by (simp add: as_fs_def)
  qed
  have ok': "mk_ok m'" "ptrs_same m1 m'"
    using mk_ok_put [OF m1(2) img ne(1), of "baddr ?ind + 4 * j" "le32 ?n", folded m'_def] fc' lt m1(4) ne(2)
    by simp_all
  have n': "next_blk m' = next_blk m1" by (simp add: m'_def)
  have new: "ptr (as_fs m') p r = (if r = ?q then ?n else ptr (as_fs m) p r)" if "r < NPTR" for r
  proof (cases "r < 13")
    case True
    then show ?thesis by (simp add: ptr_def i')
  next
    case False
    have p12: "ptr (as_fs m') p 12 = ?ind" by (simp add: ptr_def i')
    have "r \<noteq> ?q \<longrightarrow> (r - 13) * 4 + 4 \<le> 4 * j \<or> 4 * j + length (le32 ?n) \<le> (r - 13) * 4" using False by auto
    then have "word_at (overlay (fc (as_fs m) ?ind) (4 * j) (le32 ?n)) ((r - 13) * 4) =
        (if r = ?q then ?n else word_at (fc (as_fs m) ?ind) ((r - 13) * 4))"
      using word_at_overlay_other [of "(r - 13) * 4" "4 * j" "le32 ?n" "fc (as_fs m) ?ind"]
      by (auto simp: mult.commute)
    then show ?thesis using False ind by (simp add: ptr_indirect [of r] p12 fc')
  qed
  have "grew (as_fs m) (as_fs m') p ?q"
  proof (rule grewI [OF wf _ True free])
    show "?q < NPTR" using j by simp
    show "\<not> used (as_fs m) (unat ?n)" using ok free by (simp add: mk_ok_def)
    show "fs_ok (as_fs m')" using mk_ok_fs_ok [OF ok'(1)] .
    show "\<forall>k < BLK_NUM. used (as_fs m') k \<longleftrightarrow> used (as_fs m) k \<or> k = unat ?n"
      using ok ok'(1) m1(4) by (auto simp: mk_ok_def n')
    show "\<forall>r < NPTR. ptr (as_fs m') p r = (if r = ?q then of_nat (unat ?n) else ptr (as_fs m) p r)"
      using new by simp
    show "\<forall>b. b \<noteq> 33 \<and> b \<noteq> iblk (as_fs m) p \<and> (b \<noteq> ptr (as_fs m) p 12 \<or> b = 0) \<longrightarrow>
        fc (as_fs m') b = (if b = of_nat (unat ?n) then \<lambda>_. 0 else fc (as_fs m) b)"
      using fc1 next_blk_facts(3) [OF ok] ind by (auto simp: fc')
    show "\<forall>k. \<not> in_slot (i_no (inodes (as_fs m) p)) k \<longrightarrow>
        fc (as_fs m') (iblk (as_fs m) p) k = fc (as_fs m) (iblk (as_fs m) p) k"
      using fc1 iblk_not_bitmap [OF wf] ne(4) by (auto simp: fc')
    show "meta_same (as_fs m) (as_fs m') p" by (simp add: meta_same_def i')
    show "di_size (di_of (as_fs m') p) = di_size (di_of (as_fs m) p)" "length (di_addrs (di_of (as_fs m') p)) = 13"
      using wf by (simp_all add: i' fwf_def)
    show "disk_dinode (as_fs m') (i_no (inodes (as_fs m') p)) = di_of (as_fs m') p"
      using disk_dinode_as_fs [OF p] by simp
  qed
  then have "walked m m' p ?q"
    using ok' m1(3,4) grew_extends [OF wf _ _ True] j ptrs_same_trans
    by (auto simp: walked_def grew_def n')
  moreover have "mk_entry m (baddr ?ind + 4 * j) = Some (ptr (as_fs m') p ?q, m')"
    using w m1(1) new [of ?q] j by (simp add: mk_entry_def) (simp add: m'_def)
  ultimately show ?thesis using that by blast
qed

lemma mk_bget_img: "in_img b \<Longrightarrow> mk_bget b = Some (baddr b)"
  by (simp add: mk_bget_def in_img_def baddr_def)

lemma walked_fwf: "walked m m' p q \<Longrightarrow> fwf (as_fs m') p"
  by (simp add: walked_def extends_def)

text \<open>\<open>iwalk\<close> finds or allocates the file's block \<open>i\<close>; at most two blocks are taken.\<close>

lemma mk_iwalk_ok:
  assumes ok: "mk_ok m" and p: "p < INUM" and wf: "fwf (as_fs m) p" and i: "i < FILE_BLKS"
    and free: "unat (next_blk m) + 2 \<le> BLK_NUM"
  obtains m' where "mk_iwalk m (iaddr p) i = Some (baddr (ptr (as_fs m') p (dq i)), m')"
    and "mk_ok m'" and "ptrs_same m m'" and "extends (as_fs m) (as_fs m') p" and "ptr (as_fs m') p (dq i) \<noteq> 0"
    and "unat (next_blk m') \<le> unat (next_blk m) + 2"
proof (cases "i < NDIRECT")
  case True
  have dq: "dq i = i" using True by (simp add: dq_def)
  obtain m' where m': "mk_entry m (iaddr p + 12 + 4 * i) = Some (ptr (as_fs m') p i, m')" "walked m m' p i"
    using mk_entry_direct [OF ok p wf, of i] True free by auto
  have "in_img (ptr (as_fs m') p i)"
    using fwf_in_img(1) [OF walked_fwf [OF m'(2)], of i] m'(2) i by (simp add: walked_def)
  then have "mk_iwalk m (iaddr p) i = Some (baddr (ptr (as_fs m') p i), m')"
    using True by (simp add: mk_iwalk_def m'(1) mk_bget_img)
  then show ?thesis using that [of m'] m'(2) by (simp add: walked_def dq)
next
  case False
  let ?j = "i - NDIRECT"
  have j: "?j < NINDIRECT" and dq: "dq i = 13 + ?j" using False i by (simp_all add: dq_def)
  obtain m1 where m1: "mk_entry m (iaddr p + 12 + 4 * 12) = Some (ptr (as_fs m1) p 12, m1)" "walked m m1 p 12"
    using mk_entry_direct [OF ok p wf, of 12] free by auto
  note w1 = m1(2) [unfolded walked_def] and wf1 = walked_fwf [OF m1(2)]
  obtain m2 where m2: "mk_entry m1 (baddr (ptr (as_fs m1) p 12) + 4 * ?j) = Some (ptr (as_fs m2) p (13 + ?j), m2)"
    "walked m1 m2 p (13 + ?j)"
    using mk_entry_indirect [OF _ p wf1 j, of thesis] w1 free by auto
  note w2 = m2(2) [unfolded walked_def]
  have "in_img (ptr (as_fs m1) p 12)" "in_img (ptr (as_fs m2) p (13 + ?j))"
    using fwf_in_img(1) [OF wf1, of 12] fwf_in_img(1) [OF walked_fwf [OF m2(2)], of "13 + ?j"] w1 w2 j by simp_all
  then have "mk_iwalk m (iaddr p) i = Some (baddr (ptr (as_fs m2) p (dq i)), m2)"
    using False j m1(1) m2(1) by (simp add: mk_iwalk_def mk_bget_img dq)
  moreover have "extends (as_fs m) (as_fs m2) p" using w1 w2 extends_trans by blast
  ultimately show ?thesis using that [of m2] w1 w2 ptrs_same_trans by (auto simp: dq)
qed

end
