(* ===== verification/MkfsImage.thy ===== *)
theory MkfsImage
  imports MkfsProofs
begin

text \<open>
  The invariant of the image \<open>utils/mkfs.c\<close> builds, and appending to one of its files: \<open>mk_inv m C T\<close>
  says that inode \<open>p\<close> holds the bytes \<open>C p\<close> and has the type \<open>T p\<close>, for every inode of the disk.
\<close>

definition mk_inv :: "mkfs \<Rightarrow> (nat \<Rightarrow> bytes) \<Rightarrow> (nat \<Rightarrow> u32) \<Rightarrow> bool" where
  "mk_inv m C T \<longleftrightarrow> mk_ok m \<and>
     (\<forall>p < INUM. fwf (as_fs m) p \<and> dense (as_fs m) p \<and> contents (as_fs m) p = C p \<and>
        itype (as_fs m) p = T p) \<and>
     (\<forall>p < INUM. \<forall>q < INUM. p \<noteq> q \<longrightarrow> own (as_fs m) p \<inter> own (as_fs m) q = {})"

lemma mk_invD:
  assumes "mk_inv m C T"
  shows "mk_ok m" and "p < INUM \<Longrightarrow> fwf (as_fs m) p" and "p < INUM \<Longrightarrow> dense (as_fs m) p"
    and "p < INUM \<Longrightarrow> contents (as_fs m) p = C p" and "p < INUM \<Longrightarrow> itype (as_fs m) p = T p"
    and "p < INUM \<Longrightarrow> q < INUM \<Longrightarrow> p \<noteq> q \<Longrightarrow> own (as_fs m) p \<inter> own (as_fs m) q = {}"
  using assms by (simp_all add: mk_inv_def)

lemma isize_as_fs: "p < INUM \<Longrightarrow> isize (as_fs m) p = mk_word m (iaddr p + 8)"
  by (simp add: isize_def di_as_fs del: upt_Suc)

lemma itype_as_fs: "p < INUM \<Longrightarrow> itype (as_fs m) p = mk_word m (iaddr p)"
  by (simp add: itype_def di_as_fs del: upt_Suc)

lemma mk_inv_size:
  assumes "mk_inv m C T" and "p < INUM"
  shows "unat (mk_word m (iaddr p + 8)) = length (C p)"
  using mk_invD(4) [OF assms] length_contents [of "as_fs m" p] isize_as_fs [OF assms(2), of m] by simp

lemma of_nat_inode: "p < INUM \<Longrightarrow> q < INUM \<Longrightarrow> (of_nat p :: u32) = of_nat q \<longleftrightarrow> p = q"
proof -
  assume "p < INUM" "q < INUM"
  then have "unat (of_nat p :: u32) = p" "unat (of_nat q :: u32) = q" by (intro unat_of_nat32, simp)+
  then show ?thesis by metis
qed

text \<open>A step that is confined to one inode, by the frame \<open>kept\<close>.\<close>

lemma mk_inv_step:
  assumes inv: "mk_inv m C T" and p: "p < INUM" and ok': "mk_ok m'" and k: "kept (as_fs m) (as_fs m') p"
    and wf': "fwf (as_fs m') p" and d': "dense (as_fs m') p" and c': "contents (as_fs m') p = D"
  shows "mk_inv m' (C(p := D)) T"
proof -
  note wf = mk_invD(2) [OF inv]
  have other: "fwf (as_fs m') q" "contents (as_fs m') q = contents (as_fs m) q"
    "own (as_fs m') p \<inter> own (as_fs m') q = {}" "own (as_fs m') q = own (as_fs m) q"
    "dense (as_fs m') q" "itype (as_fs m') q = itype (as_fs m) q"
    if q: "q < INUM" "q \<noteq> p" for q
  proof -
    have no: "i_no (inodes (as_fs m) q) \<noteq> i_no (inodes (as_fs m) p)" using of_nat_inode [OF q(1) p] q(2) by simp
    have dj: "own (as_fs m) p \<inter> own (as_fs m) q = {}" using mk_invD(6) [OF inv p q(1)] q(2) by simp
    note o = kept_other [OF k mk_ok_fs_ok [OF ok'] wf [OF p] wf [OF q(1)] q(2) no dj]
    have i: "inodes (as_fs m') q = inodes (as_fs m) q" using k q(2) by (simp add: kept_def meta_same_def)
    show "fwf (as_fs m') q" "own (as_fs m') p \<inter> own (as_fs m') q = {}"
      "contents (as_fs m') q = contents (as_fs m) q"
      using o mk_invD(3) [OF inv q(1)] by simp_all
    show "own (as_fs m') q = own (as_fs m) q" using o(4) by (auto simp: own_def)
    show "itype (as_fs m') q = itype (as_fs m) q" by (simp add: itype_def i)
    have "ptr (as_fs m') q (dq (pos div BLK_SIZE)) = ptr (as_fs m) q (dq (pos div BLK_SIZE))"
      if "pos < FILE_MAX" for pos
      using o(4) div_blk_bound [OF that] by blast
    then show "dense (as_fs m') q"
      using mk_invD(3) [OF inv q(1)] by (simp add: dense_def isize_def i mapped_def)
  qed
  have "itype (as_fs m') p = itype (as_fs m) p" using k by (simp add: kept_def meta_same_def itype_def)
  then have "fwf (as_fs m') q \<and> dense (as_fs m') q \<and> contents (as_fs m') q = (C(p := D)) q \<and>
      itype (as_fs m') q = T q" if "q < INUM" for q
    using other [OF that] wf' d' c' mk_invD(4,5) [OF inv that] by (cases "q = p") simp_all
  moreover have "own (as_fs m') q \<inter> own (as_fs m') r = {}" if "q < INUM" "r < INUM" "q \<noteq> r" for q r
    using other(3) [of r] other(3) [of q] other(4) [of q] other(4) [of r] that mk_invD(6) [OF inv that]
    by (cases "q = p"; cases "r = p") auto
  ultimately show ?thesis using ok' by (simp add: mk_inv_def)
qed

lemma slot_set_kept:
  assumes s: "slot_set f f' p" and wf: "fwf f p"
    and t: "di_type (di_of f' p) = di_type (di_of f p)" "di_device (di_of f' p) = di_device (di_of f p)"
    and r: "i_ref (inodes f' p) = i_ref (inodes f p)" "i_del (inodes f' p) = i_del (inodes f p)"
  shows "kept f f' p"
proof -
  have "meta_same f f' p" using s t r by (simp add: meta_same_def slot_set_def)
  then show ?thesis
    using s by (auto simp: kept_def own_def slot_set_ptr [OF s wf wf] slot_set_used [OF s wf] slot_set_def)
qed

text \<open>The three steps of a round of \<open>iappend\<close>'s loop: walk to the block, copy, bump the size.\<close>

lemma mk_data_put:
  assumes ok: "mk_ok m" and wf: "fwf (as_fs m) p" and i: "no < FILE_BLKS"
    and nz: "ptr (as_fs m) p (dq no) \<noteq> 0" and bs: "off + length bs \<le> BLK_SIZE"
    and m': "m' = mk_put m (baddr (ptr (as_fs m) p (dq no)) + off) bs"
  shows "mk_ok m'" and "ptrs_same m m'" and "stored (as_fs m) (as_fs m') p (no * BLK_SIZE + off) bs"
proof -
  let ?b = "ptr (as_fs m) p (dq no)"
  note dqi = dq_bounds(1) [OF i]
  have b: "in_img ?b" "unat ?b < unat (next_blk m)" "64 \<le> unat ?b" "?b \<noteq> 33" "?b \<noteq> 32"
    using fwf_in_img(1) [OF wf dqi nz] fwf_below [OF ok wf dqi nz] fwf_ptr(1) [OF wf dqi nz] by auto
  have fc': "fc (as_fs m') = (fc (as_fs m))(?b := overlay (fc (as_fs m) ?b) off bs)"
    unfolding m' by (rule fc_put [OF b(1) bs refl])
  have i': "inodes (as_fs m') = inodes (as_fs m)"
  proof
    fix q show "inodes (as_fs m') q = inodes (as_fs m) q"
      unfolding m' using inodes_put_data [OF _ b(1) _ bs, of q m] b(3)
      by (cases "q < INUM") (simp_all add: as_fs_def)
  qed
  show "mk_ok m'" "ptrs_same m m'"
    using mk_ok_put [OF ok b(1,4,2), of "baddr ?b + off" bs, folded m'] fc' b(5) by simp_all
  have "wrote (as_fs m) (as_fs m') ?b (overlay (fc (as_fs m) ?b) off bs)"
    by (simp add: wrote_def i' fc')
  then show "stored (as_fs m) (as_fs m') p (no * BLK_SIZE + off) bs"
    by (rule data_stored(1) [OF wf i nz bs])
qed

lemma mk_size_put:
  assumes inv: "mk_inv m C T" and p: "p < INUM" and ok2: "mk_ok m2"
    and st: "stored (as_fs m) (as_fs m2) p (length (C p)) bs" and max: "length (C p) + length bs \<le> FILE_MAX"
    and m3: "m3 = mk_put m2 (iaddr p + 8) (le32 (mk_word m2 (iaddr p + 8) + of_nat (length bs)))"
  shows "mk_inv m3 (C(p := C p @ bs)) T" and "ptrs_same m2 m3"
proof -
  have wf2: "fwf (as_fs m2) p" using st by (simp add: stored_def)
  have sz: "unat (isize (as_fs m) p) = length (C p)" using mk_inv_size [OF inv p] by (simp add: isize_as_fs [OF p])
  have "isize (as_fs m2) p = isize (as_fs m) p" using st by (simp add: stored_def isize_def)
  then have s: "unat (mk_word m2 (iaddr p + 8)) = length (C p)" using sz by (simp add: isize_as_fs [OF p])
  have ss: "slot_set (as_fs m2) (as_fs m3) p" unfolding m3 by (rule slot_set_put [OF p]) simp
  have ok3: "mk_ok m3" and "ptrs_same m2 m3" unfolding m3 using mk_ok_inode_put [OF ok2 p, of 8] by simp_all
  then show "ptrs_same m2 m3" by blast
  note wf3 = slot_set_fwf [OF ss wf2 wf2] and p3 = slot_set_ptr [OF ss wf2 wf2]
  have s3: "unat (isize (as_fs m3) p) = length (C p) + length bs"
    using max s by (simp add: isize_as_fs [OF p] m3 unat_word_ariths unat_of_nat32)
  have "kept (as_fs m2) (as_fs m3) p"
    using slot_set_kept [OF ss wf2] by (simp add: di_as_fs [OF p] m3 mk_word_put_other)
  then have k3: "kept (as_fs m) (as_fs m3) p" using kept_trans [of "as_fs m" "as_fs m2"] st by (simp add: stored_def)
  have "ptr (as_fs m2) p (dq (pos div BLK_SIZE)) \<noteq> 0" if "pos < length (C p) + length bs" for pos
  proof (cases "pos < length (C p)")
    case True
    then have "ptr (as_fs m) p (dq (pos div BLK_SIZE)) \<noteq> 0" "pos < FILE_MAX"
      using mk_invD(3) [OF inv p] sz max by (simp_all add: dense_def mapped_def)
    then show ?thesis using st div_blk_bound [of pos] by (simp add: stored_def)
  next
    case False
    then show ?thesis using st that by (simp add: stored_def)
  qed
  then have d3: "dense (as_fs m3) p" using max by (simp add: dense_def mapped_def s3 p3)
  have "contents (as_fs m3) p = C p @ bs"
  proof (rule contents_eqI)
    fix pos assume pos: "pos < length (C p @ bs)"
    then have "fbyte (as_fs m3) p pos = overlay (fbyte (as_fs m) p) (length (C p)) bs pos"
      using st max slot_set_fbyte [OF ss wf2 wf2] by (simp add: stored_def)
    moreover have "fbyte (as_fs m) p pos = C p ! pos" if "pos < length (C p)"
      unfolding mk_invD(4) [OF inv p, symmetric] using that sz by (simp add: contents_def)
    ultimately show "fbyte (as_fs m3) p pos = (C p @ bs) ! pos"
      using pos by (auto simp: overlay_def nth_append)
  qed (simp add: s3)
  then show "mk_inv m3 (C(p := C p @ bs)) T"
    using mk_inv_step [OF inv p ok3 k3 _ d3] wf3 by simp
qed

text \<open>\<open>appended m m' C T p bs k\<close>: \<open>bs\<close> was appended to inode \<open>p\<close>, for at most \<open>k\<close> new blocks.\<close>

definition appended :: "mkfs \<Rightarrow> mkfs \<Rightarrow> (nat \<Rightarrow> bytes) \<Rightarrow> (nat \<Rightarrow> u32) \<Rightarrow> nat \<Rightarrow> bytes \<Rightarrow> nat \<Rightarrow> bool" where
  "appended m m' C T p bs k \<longleftrightarrow>
     mk_inv m' (C(p := C p @ bs)) T \<and> ptrs_same m m' \<and> unat (next_blk m') \<le> unat (next_blk m) + k"

lemma mk_append_piece:
  assumes inv: "mk_inv m C T" and p: "p < INUM" and pos: "length (C p) = no * BLK_SIZE + off" "off < BLK_SIZE"
    and bs: "off + length bs \<le> BLK_SIZE" and n: "0 < length bs" and max: "length (C p) + length bs \<le> FILE_MAX"
    and free: "unat (next_blk m) + 2 \<le> BLK_NUM"
  shows "\<exists>b m1. mk_iwalk m (iaddr p) no = Some (b, m1) \<and>
    appended m (let m2 = mk_put m1 (b + off) bs in
      mk_put m2 (iaddr p + 8) (le32 (mk_word m2 (iaddr p + 8) + of_nat (length bs)))) C T p bs 2"
proof -
  have i: "no < FILE_BLKS" using pos max n by linarith
  obtain m1 where m1: "mk_iwalk m (iaddr p) no = Some (baddr (ptr (as_fs m1) p (dq no)), m1)"
    "mk_ok m1" "ptrs_same m m1" "extends (as_fs m) (as_fs m1) p" and nz: "ptr (as_fs m1) p (dq no) \<noteq> 0"
    and nb: "unat (next_blk m1) \<le> unat (next_blk m) + 2"
    using mk_iwalk_ok [OF mk_invD(1) [OF inv] p mk_invD(2) [OF inv p] i free] by metis
  have wf1: "fwf (as_fs m1) p" using m1(4) by (simp add: extends_def)
  define m2 where "m2 = mk_put m1 (baddr (ptr (as_fs m1) p (dq no)) + off) bs"
  note d2 = mk_data_put [OF m1(2) wf1 i nz bs m2_def]
  have "stored (as_fs m) (as_fs m2) p (length (C p)) bs"
    using stored_trans [OF extends_stored [OF m1(4)], of "as_fs m2" "length (C p)" bs] d2(3) max pos(1) by simp
  note d3 = mk_size_put [OF inv p d2(1) this max refl]
  have "ptrs_same m (mk_put m2 (iaddr p + 8) (le32 (mk_word m2 (iaddr p + 8) + of_nat (length bs))))"
    using m1(3) d2(2) d3(2) ptrs_same_trans by blast
  then have "appended m (mk_put m2 (iaddr p + 8) (le32 (mk_word m2 (iaddr p + 8) + of_nat (length bs)))) C T p bs 2"
    using d3(1) nb by (simp add: appended_def) (simp add: m2_def)
  then show ?thesis using m1(1) by (simp add: m2_def Let_def)
qed

lemma appended_trans:
  assumes "appended m m1 C T p xs k" and "appended m1 m2 (C(p := C p @ xs)) T p ys l"
  shows "appended m m2 C T p (xs @ ys) (k + l)"
  using assms ptrs_same_trans by (auto simp: appended_def)

text \<open>The loop, and \<open>iappend\<close>: it succeeds while the file is not too big and blocks are left.\<close>

lemma mk_iappend_loop_ok:
  assumes "mk_inv m C T" and p: "p < INUM" and "length (C p) = no * BLK_SIZE + off" "off < BLK_SIZE"
    and "length (C p) + length buf \<le> FILE_MAX"
    and "unat (next_blk m) + 2 * blocks off (length buf) \<le> BLK_NUM"
  shows "\<exists>m'. mk_iappend_loop m (iaddr p) buf off no = Some m' \<and>
    appended m m' C T p buf (2 * blocks off (length buf))"
  using assms
proof (induction "length buf" arbitrary: m C no off buf rule: less_induct)
  case less
  show ?case
  proof (cases "buf = []")
    case True
    then show ?thesis using less.prems(1) by (subst mk_iappend_loop.simps) (simp add: appended_def fun_upd_idem)
  next
    case False
    define n where "n = min (length buf) (BLK_SIZE - off)"
    have n: "0 < n" "n \<le> length buf" "off + n \<le> BLK_SIZE"
      using False less.prems(4) by (auto simp: n_def min_def)
    have len: "length (take n buf) = n" using n(2) by simp
    have more: "1 \<le> blocks off (length buf)" using False by (intro blocks_pos) simp
    obtain b m1 m2 where m1: "mk_iwalk m (iaddr p) no = Some (b, m1)"
      and m2: "m2 = (let m2 = mk_put m1 (b + off) (take n buf) in
        mk_put m2 (iaddr p + 8) (le32 (mk_word m2 (iaddr p + 8) + of_nat n)))"
      and ap: "appended m m2 C T p (take n buf) 2"
      using mk_append_piece [OF less.prems(1,2,3,4), of "take n buf"] n len less.prems(5,6) more by auto
    let ?C = "C(p := C p @ take n buf)" and ?rest = "drop n buf"
    have unroll: "mk_iappend_loop m (iaddr p) buf off no = mk_iappend_loop m2 (iaddr p) ?rest 0 (no + 1)"
      using False m1 m2 by (subst mk_iappend_loop.simps) (simp add: n_def [symmetric] Let_def)
    have inv2: "mk_inv m2 ?C T" using ap by (simp add: appended_def)
    show ?thesis
    proof (cases "?rest = []")
      case True
      then have "take n buf = buf" using n(2) by simp
      moreover have "mk_iappend_loop m (iaddr p) buf off no = Some m2"
        unfolding unroll True by (subst mk_iappend_loop.simps) simp
      ultimately show ?thesis using ap more by (auto simp: appended_def)
    next
      case rest: False
      then have full: "n = BLK_SIZE - off" and "length buf - min (BLK_SIZE - off) (length buf) \<noteq> 0"
        by (auto simp: n_def min_def split: if_splits)
      then have bl: "blocks 0 (length ?rest) + 1 = blocks off (length buf)"
        using blocks_next [OF less.prems(4), of "length buf"] by (simp add: n_def min.commute)
      have "length ?rest < length buf" "length (?C p) = (no + 1) * BLK_SIZE + 0"
        "length (?C p) + length ?rest \<le> FILE_MAX" "unat (next_blk m2) + 2 * blocks 0 (length ?rest) \<le> BLK_NUM"
        using n full less.prems(3-6) ap bl by (simp_all add: appended_def)
      from less.hyps [OF this(1) inv2 p this(2) zero_less_numeral this(3,4)]
      obtain m' where "mk_iappend_loop m2 (iaddr p) ?rest 0 (no + 1) = Some m'"
        "appended m2 m' ?C T p ?rest (2 * blocks 0 (length ?rest))" by blast
      moreover from appended_trans [OF ap this(2)]
      have "appended m m' C T p buf (2 * blocks off (length buf))" by (simp flip: bl)
      ultimately show ?thesis using unroll by auto
    qed
  qed
qed

lemma mk_iappend_ok:
  assumes "mk_inv m C T" and "p < INUM" and "length (C p) + length buf \<le> FILE_MAX"
    and "unat (next_blk m) + 2 * blocks (length (C p) mod BLK_SIZE) (length buf) \<le> BLK_NUM"
  obtains m' where "mk_iappend m (iaddr p) buf = Some m'"
    and "appended m m' C T p buf (2 * blocks (length (C p) mod BLK_SIZE) (length buf))"
proof -
  have "length (C p) = length (C p) div BLK_SIZE * BLK_SIZE + length (C p) mod BLK_SIZE" by simp
  from mk_iappend_loop_ok [OF assms(1,2) this _ assms(3,4)] show ?thesis
    using that by (auto simp: mk_iappend_def mk_inv_size [OF assms(1,2)])
qed

end
