(* ===== verification/MkfsRun.thy ===== *)
theory MkfsRun
  imports MkfsImage
begin

text \<open>
  A run of \<open>utils/mkfs.c\<close>: the super block and the root directory are written, then every file is
  added. \<open>mk_holds m names datas\<close> is what holds after each file: the root directory lists exactly
  the names, in order, behind \<open>.\<close> and \<open>..\<close>, and inode \<open>2 + i\<close> holds the bytes of file \<open>i\<close>.
\<close>

subsection \<open>Copying a file\<close>

lemma blocks_chunk: "BLK_SIZE < n \<Longrightarrow> blocks 0 n = 1 + blocks 0 (n - BLK_SIZE)"
  by (simp add: blocks_def)

lemma blocks_small: "0 < n \<Longrightarrow> off + n \<le> BLK_SIZE \<Longrightarrow> blocks off n = 1"
  by (simp add: blocks_def)

lemma mk_copy_loop_ok:
  assumes "mk_inv m C T" and p: "p < INUM" and "length (C p) mod BLK_SIZE = 0"
    and "length (C p) + length data \<le> FILE_MAX" and "unat (next_blk m) + 2 * blocks 0 (length data) \<le> BLK_NUM"
  shows "\<exists>m'. mk_copy_loop m (iaddr p) data = Some m' \<and> appended m m' C T p data (2 * blocks 0 (length data))"
  using assms
proof (induction "length data" arbitrary: m C data rule: less_induct)
  case less
  note inv = less.prems(1)
  show ?case
  proof (cases "length data \<le> BLK_SIZE")
    case True
    obtain m' where m': "mk_iappend m (iaddr p) data = Some m'" "appended m m' C T p data (2 * blocks 0 (length data))"
      using mk_iappend_ok [OF inv p less.prems(4)] less.prems(3,5) by auto
    show ?thesis
    proof (cases "data = []")
      case True
      then show ?thesis using inv by (subst mk_copy_loop.simps) (simp add: appended_def fun_upd_idem)
    next
      case False
      then have "mk_copy_loop m (iaddr p) data = mk_copy_loop m' (iaddr p) []"
        using True m'(1) by (subst mk_copy_loop.simps) simp
      also have "\<dots> = Some m'" by (subst mk_copy_loop.simps) simp
      finally show ?thesis using m'(2) by blast
    qed
  next
    case False
    let ?xs = "take BLK_SIZE data" and ?ys = "drop BLK_SIZE data"
    have bl: "blocks 0 (length data) = 1 + blocks 0 (length ?ys)" and b1: "blocks 0 (length ?xs) = 1"
      using False blocks_chunk [of "length data"] blocks_small [of "length ?xs" 0] by simp_all
    have "length (C p) + length ?xs \<le> FILE_MAX" "unat (next_blk m) + 2 * blocks (length (C p) mod BLK_SIZE) (length ?xs) \<le> BLK_NUM"
      using less.prems(3-5) False bl b1 by simp_all
    then obtain m1 where m1: "mk_iappend m (iaddr p) ?xs = Some m1" "appended m m1 C T p ?xs 2"
      using mk_iappend_ok [OF inv p, of ?xs] less.prems(3) b1 by auto
    let ?C = "C(p := C p @ ?xs)"
    have "length ?ys < length data" "mk_inv m1 ?C T" "length (?C p) mod BLK_SIZE = 0"
      "length (?C p) + length ?ys \<le> FILE_MAX" "unat (next_blk m1) + 2 * blocks 0 (length ?ys) \<le> BLK_NUM"
      using False m1(2) less.prems(3-5) bl by (auto simp: appended_def)
    from less.hyps [OF this(1,2) p this(3-)] obtain m' where m': "mk_copy_loop m1 (iaddr p) ?ys = Some m'"
      "appended m1 m' ?C T p ?ys (2 * blocks 0 (length ?ys))" by blast
    have "mk_copy_loop m (iaddr p) data = Some m'"
      using False m1(1) m'(1) by (subst mk_copy_loop.simps) auto
    then show ?thesis using appended_trans [OF m1(2) m'(2)] bl by (simp only: append_take_drop_id) auto
  qed
qed

subsection \<open>Allocating an inode\<close>

lemma mk_iget_ok:
  assumes "p < INUM"
  shows "mk_iget (of_nat p) = Some (iaddr p)"
proof -
  note ib = iaddr_block [OF assms]
  have "(of_nat p :: u32) div 64 + 34 = of_nat (34 + p div 64)"
    using ib(1) [of undefined] by (simp add: I2BLKNO_def add.commute)
  then show ?thesis
    using mk_bget_img [OF ib(2)] ib(3) by (simp add: mk_iget_def I2BLKOFF_def del: of_nat_add)
qed

lemma mk_ialloc_ok:
  assumes inv: "mk_inv m C T" and n: "next_inode m = of_nat n" "n < INUM"
  obtains m' where "mk_ialloc m ty = Some (of_nat n, m')" and "mk_inv m' C (T(n := ty))"
    and "ptrs_same m (m'\<lparr>next_inode := next_inode m\<rparr>)" and "next_inode m' = of_nat (Suc n)"
    and "next_blk m' = next_blk m"
proof -
  define m1 where "m1 = mk_put m (iaddr n + 0) (le32 ty)"
  define m' where "m' = m1\<lparr>next_inode := next_inode m + 1\<rparr>"
  have un: "unat (of_nat n :: u32) = n" using n(2) by (intro unat_of_nat32) simp
  note ok1 = mk_ok_inode_put [OF mk_invD(1) [OF inv] n(2), of 0 "le32 ty", folded m1_def]
  have as: "as_fs m' = as_fs m1" by (simp add: m'_def)
  have ok': "mk_ok m'" "ptrs_same m (m'\<lparr>next_inode := next_inode m\<rparr>)"
    using ok1 by (simp_all add: mk_ok_def ptrs_same_def as) (simp_all add: m'_def)
  have ss: "slot_set (as_fs m) (as_fs m') n" unfolding as m1_def by (rule slot_set_put [OF n(2)]) simp
  note wf = mk_invD(2) [OF inv]
  have w: "mk_word m' (iaddr q + 8) = mk_word m (iaddr q + 8)" "mk_word m' (iaddr q) = (if q = n then ty else mk_word m (iaddr q))" for q
  proof -
    have "q = n \<or> iaddr q + 64 \<le> iaddr n \<or> iaddr n + 64 \<le> iaddr q" unfolding iaddr_def by linarith
    then show "mk_word m' (iaddr q + 8) = mk_word m (iaddr q + 8)" "mk_word m' (iaddr q) = (if q = n then ty else mk_word m (iaddr q))"
      by (auto simp: m'_def m1_def mk_word_def intro!: word_at_overlay_other)
  qed
  have "fwf (as_fs m') q \<and> dense (as_fs m') q \<and> contents (as_fs m') q = C q \<and> itype (as_fs m') q = (T(n := ty)) q"
    if q: "q < INUM" for q
  proof -
    have sz: "isize (as_fs m') q = isize (as_fs m) q" by (simp add: isize_as_fs [OF q] w)
    have "ino (as_fs m) q = ino (as_fs m) n \<longleftrightarrow> q = n" using of_nat_inode [OF q n(2)] by (simp add: ino_def)
    then have "fwf (as_fs m') q" using slot_set_fwf [OF ss wf [OF n(2)] wf [OF q]] by blast
    moreover have p: "ptr (as_fs m') q = ptr (as_fs m) q" by (rule slot_set_ptr [OF ss wf [OF n(2)] wf [OF q]])
    moreover have "dense (as_fs m') q" using mk_invD(3) [OF inv q] by (simp add: dense_def mapped_def sz p)
    moreover have "contents (as_fs m') q = contents (as_fs m) q"
      using slot_set_fbyte [OF ss wf [OF n(2)] wf [OF q]] mk_invD(3) [OF inv q]
      by (auto simp: contents_def sz dense_def)
    ultimately show ?thesis
      using mk_invD(4,5) [OF inv q] by (simp add: itype_as_fs [OF q] w)
  qed
  moreover have "own (as_fs m') q = own (as_fs m) q" if "q < INUM" for q
    using slot_set_ptr [OF ss wf [OF n(2)] wf [OF that]] by (simp add: own_def)
  ultimately have "mk_inv m' C (T(n := ty))"
    using ok'(1) mk_invD(6) [OF inv] by (simp add: mk_inv_def)
  moreover have "mk_ialloc m ty = Some (of_nat n, m')"
    using n un by (simp add: mk_ialloc_def mk_iget_ok [OF n(2)] m'_def m1_def Let_def)
  ultimately show ?thesis using that ok'(2) n(1) by (simp add: m'_def m1_def)
qed

subsection \<open>The super block and the empty file system\<close>

text \<open>Block 32 is outside everything \<open>mk_inv\<close> speaks of.\<close>

lemma mk_inv_super:
  assumes inv: "mk_inv m C T" and ok': "mk_ok m'" and i: "inodes (as_fs m') = inodes (as_fs m)"
    and fc': "\<forall>b. b \<noteq> 32 \<longrightarrow> fc (as_fs m') b = fc (as_fs m) b"
  shows "mk_inv m' C T"
proof -
  have p: "ptr (as_fs m') q = ptr (as_fs m) q" and wf: "fwf (as_fs m') q"
    and fb: "\<forall>pos < FILE_MAX. fbyte (as_fs m') q pos = fbyte (as_fs m) q pos" if q: "q < INUM" for q
  proof -
    note wf = mk_invD(2) [OF inv q]
    have data: "fc (as_fs m') b = fc (as_fs m) b" if "64 \<le> unat b" for b
    proof -
      have "b \<noteq> 32" using that by auto
      then show ?thesis using fc' by blast
    qed
    have addr: "ptr (as_fs m) q 12 = di_addrs (di_of (as_fs m) q) ! 12" by (simp add: ptr_def)
    show p: "ptr (as_fs m') q = ptr (as_fs m) q"
      using data fwf_ptr(1) [OF wf, of 12] by (intro ext) (simp add: ptr_def Let_def i addr)
    show "\<forall>pos < FILE_MAX. fbyte (as_fs m') q pos = fbyte (as_fs m) q pos"
      using data fwf_ptr(1) [OF wf div_blk_bound] by (simp add: fbyte_def p Let_def)
    have "used (as_fs m') = used (as_fs m)" using fc' by (simp add: used_def fun_eq_iff)
    then show "fwf (as_fs m') q"
      using wf mk_ok_fs_ok [OF ok'] disk_dinode_as_fs [OF q, of m'] by (simp add: fwf_def p i)
  qed
  have sz: "isize (as_fs m') q = isize (as_fs m) q" "itype (as_fs m') q = itype (as_fs m) q" for q
    by (simp_all add: isize_def itype_def i)
  have "dense (as_fs m') q \<and> contents (as_fs m') q = contents (as_fs m) q" if "q < INUM" for q
    using mk_invD(3) [OF inv that] fb [OF that] by (auto simp: dense_def mapped_def sz p [OF that] contents_def)
  then show ?thesis
    using inv ok' wf by (simp add: mk_inv_def sz own_def p)
qed

definition mk_blank :: mkfs where
  "mk_blank = (let m = mk_put (mk_put (mk_put (mk_start\<lparr>sb_p := 0\<rparr>) 0 (le32 33)) 4 (le32 34)) 8 (le32 1920)
     in mk_put (mk_put (m\<lparr>bitmap_p := BLK_SIZE\<rparr>) (BLK_SIZE + 4) (le32 0xffffffff)) BLK_SIZE (le32 0xffffffff))"

lemma mk_blank_sel [simp]:
  "sb_p mk_blank = 0" "bitmap_p mk_blank = BLK_SIZE" "next_blk mk_blank = 64" "next_inode mk_blank = 1"
  by (simp_all add: mk_blank_def mk_start_def Let_def)

lemma mk_blank_img:
  "mk_img mk_blank k = (if k < 12 then (le32 33 @ le32 34 @ le32 1920) ! k
     else if BLK_SIZE \<le> k \<and> k < BLK_SIZE + 8 then 255 else 0)"
proof -
  have ff: "le32 0xffffffff = [255, 255, 255, 255]" by code_simp
  have "[255, 255, 255, 255 :: u8] ! i = 255" if "i < 4" for i
    using that by (auto simp: nth_Cons' less_Suc_eq numeral_eq_Suc)
  then show ?thesis
    by (auto simp: mk_blank_def mk_start_def Let_def overlay_def ff nth_append)
qed

lemma mk_blank_fc:
  assumes "b \<noteq> 32"
  shows "fc (as_fs mk_blank) b k = (if b = 33 \<and> k < 8 then 255 else 0)"
proof (cases "in_img b \<and> k < BLK_SIZE")
  case True
  have "unat b \<noteq> 32" using assms by (simp add: word_unat_eq_iff)
  then have b: "33 \<le> unat b" using True by (simp add: in_img_def)
  have "b = 33 \<longleftrightarrow> unat b = 33" by (simp add: word_unat_eq_iff)
  moreover have "\<not> baddr b + k < 12" using b by (simp add: baddr_def)
  moreover have "BLK_SIZE \<le> baddr b + k \<and> baddr b + k < BLK_SIZE + 8 \<longleftrightarrow> unat b = 33 \<and> k < 8"
    using b True by (auto simp: baddr_def)
  ultimately show ?thesis using True by (simp add: fc_as_fs mk_blank_img)
next
  case False
  moreover have "in_img 33" by (simp add: in_img_def)
  ultimately show ?thesis by (auto simp: fc_as_fs)
qed

lemma mk_blank_word: "8192 \<le> a \<Longrightarrow> mk_word mk_blank a = 0"
proof -
  assume "8192 \<le> a"
  then have "map (mk_img mk_blank) [a..<a + 4] = map (\<lambda>_. 0) [a..<a + 4]"
    by (simp add: mk_blank_img)
  then show ?thesis using word_at_zero [of a] by (simp only: mk_word_def word_at_def)
qed

lemma mk_blank_inv: "mk_inv mk_blank (\<lambda>_. []) (\<lambda>_. 0)"
proof -
  have ff: "bit (255 :: u8) r" if "r < 8" for r
  proof -
    have "(255 :: u8) = - 1" by simp
    then show ?thesis using that by (simp only: bit_minus_1_iff) simp
  qed
  have used: "used (as_fs mk_blank) k \<longleftrightarrow> k < 64" for k
    using ff [of "k mod 8"] by (auto simp: used_def mk_blank_fc)
  have "b \<noteq> 32 \<and> b \<noteq> 33" if "64 \<le> unat b" for b :: u32 using that by auto
  then have ok: "mk_ok mk_blank"
    by (auto simp: mk_ok_def used mk_blank_fc fun_eq_iff)
  have di: "di_of (as_fs mk_blank) p = zero_dinode 0" if "p < INUM" for p
    using that by (simp add: di_as_fs mk_blank_word iaddr_def zero_dinode_def map_replicate_const del: upt_Suc)
  have ptr: "ptr (as_fs mk_blank) p q = 0" if "p < INUM" "q < NPTR" for p q
    by (simp add: ptr_def di [OF that(1)] zero_dinode_def Let_def nth_Cons')
  have "unat (of_nat p :: u32) = p" if "p < INUM" for p using that by (intro unat_of_nat32) simp
  then have "fwf (as_fs mk_blank) p" if "p < INUM" for p
    using that mk_ok_fs_ok [OF ok] ptr [OF that] disk_dinode_as_fs [OF that]
    by (auto simp: fwf_def inj_on_def) (simp add: di [OF that] zero_dinode_def)
  moreover have "isize (as_fs mk_blank) p = 0" "itype (as_fs mk_blank) p = 0" if "p < INUM" for p
    by (simp_all add: isize_def itype_def di [OF that] zero_dinode_def)
  moreover have "own (as_fs mk_blank) p = {}" if "p < INUM" for p using ptr [OF that] by (auto simp: own_def)
  ultimately show ?thesis using ok by (simp add: mk_inv_def dense_def mapped_def contents_def)
qed

subsection \<open>Files and names\<close>

definition mk_holds :: "mkfs \<Rightarrow> dirent list \<Rightarrow> bytes list \<Rightarrow> bool" where
  "mk_holds m es datas \<longleftrightarrow>
     root_p m = iaddr 1 \<and> length es = length datas + 2 \<and> next_inode m = of_nat (length es) \<and> length es \<le> INUM \<and>
     map (fc (as_fs m) 32) [0..<16] = le32 33 @ le32 34 @ le32 1920 @ le32 1 \<and>
     (\<forall>d \<in> set es. entry_ok d) \<and> (\<forall>i. 2 \<le> i \<and> i < length es \<longrightarrow> d_inode (es ! i) = of_nat i) \<and>
     (\<exists>C T. mk_inv m C T \<and> T 1 = TYPE_DIR \<and> C 1 = concat (map dirent_bytes es) \<and>
        (\<forall>i < length datas. C (i + 2) = datas ! i) \<and> (\<forall>p \<ge> length es. C p = []))"

lemma set_dirent_ok:
  assumes "length (d_name d) = 28" and "length name \<le> MAX_NAME" and "0 \<notin> set name"
  obtains d' where "set_dirent d no name = Some d'" and "entry_ok d'" and "dname d' = name" and "d_inode d' = no"
proof -
  have "strcpy (d_name d) (name @ 0 # []) = Some (patch (d_name d) 0 (name @ [0]))"
    using assms by (intro strcpy_ok) simp_all
  then have s: "set_dirent d no name = Some \<lparr>d_inode = no, d_name = patch (d_name d) 0 (name @ [0])\<rparr>"
    by (simp add: set_dirent_def)
  have "takeWhile (\<lambda>c. c \<noteq> 0) (name @ 0 # rest) = name" for rest
    using assms(3) by (induction name) auto
  then show ?thesis
    using s assms by (intro that [OF s]) (auto simp: entry_ok_def dname_def patch_def)
qed

text \<open>One more entry of the root directory.\<close>

lemma mk_append_dirent:
  assumes inv: "mk_inv m C T" and c: "C 1 = concat (map dirent_bytes es)" "\<forall>d \<in> set es. entry_ok d"
    and d: "entry_ok d" and n: "length es < INUM" and free: "unat (next_blk m) + 2 \<le> BLK_NUM"
  obtains m' where "mk_iappend m (iaddr 1) (dirent_bytes d) = Some m'" and "appended m m' C T 1 (dirent_bytes d) 2"
proof -
  have len: "length (C 1) = 32 * length es" "length (dirent_bytes d) = 32"
    using length_entries [OF c(2)] length_dirent [OF d] unfolding c(1) by simp_all
  have "32 * length es mod BLK_SIZE = 32 * (length es mod 128)" by (simp add: mult_mod_right)
  moreover have "length es mod 128 \<le> 127" by simp
  ultimately have "length (C 1) mod BLK_SIZE + 32 \<le> BLK_SIZE" unfolding len(1) by linarith
  then have "blocks (length (C 1) mod BLK_SIZE) (length (dirent_bytes d)) = 1"
    unfolding len(2) by (intro blocks_small) simp_all
  then show ?thesis
    using mk_iappend_ok [OF inv, of 1 "dirent_bytes d"] that len n free by auto
qed

lemma mk_super_put:
  assumes inv: "mk_inv m C T" and len: "off + length bs \<le> BLK_SIZE"
  shows "mk_inv (mk_put m off bs) C T" and "fc (as_fs (mk_put m off bs)) 32 = overlay (fc (as_fs m) 32) off bs"
proof -
  have b: "in_img 32" "baddr 32 = 0" by (simp_all add: in_img_def baddr_def)
  have fc': "fc (as_fs (mk_put m off bs)) = (fc (as_fs m))(32 := overlay (fc (as_fs m) 32) off bs)"
    using fc_put [OF b(1) len, of off m] b(2) by simp
  have i': "inodes (as_fs (mk_put m off bs)) = inodes (as_fs m)"
    using len by (intro ext inodes_put) (simp add: iaddr_def)
  have "unat (32 :: u32) < unat (next_blk m)" using mk_invD(1) [OF inv] by (simp add: mk_ok_def)
  then have "mk_ok (mk_put m off bs)"
    using mk_ok_put(1) [OF mk_invD(1) [OF inv] b(1), of off bs] fc' by simp
  then show "mk_inv (mk_put m off bs) C T" using mk_inv_super [OF inv _ i'] fc' by simp
  show "fc (as_fs (mk_put m off bs)) 32 = overlay (fc (as_fs m) 32) off bs" by (simp add: fc')
qed

lemma mk_inv_upd [simp]: "mk_inv (m\<lparr>root_p := a\<rparr>) C T = mk_inv m C T"
  by (simp add: mk_inv_def mk_ok_def)

lemma mk_init_disk_ok:
  assumes "length junk = 32"
  obtains m d1 d2 where "mk_init_disk mk_start junk = Some m" and "mk_holds m [d1, d2] []"
    and "dname d1 = [DOT]" and "dname d2 = [DOT, DOT]" and "unat (next_blk m) \<le> 68"
proof -
  obtain m1 where m1: "mk_ialloc mk_blank TYPE_DIR = Some (1, m1)" "mk_inv m1 (\<lambda>_. []) ((\<lambda>_. 0)(1 := 2))"
    "ptrs_same mk_blank (m1\<lparr>next_inode := 1\<rparr>)" "next_inode m1 = 2" "next_blk m1 = 64"
    using mk_ialloc_ok [OF mk_blank_inv, of 1 TYPE_DIR] by auto
  have sb1: "sb_p m1 = 0" using m1(3) by (simp add: ptrs_same_def)
  define m2 where "m2 = (mk_put m1 12 (le32 1))\<lparr>root_p := iaddr 1\<rparr>"
  have inv2: "mk_inv m2 (\<lambda>_. []) ((\<lambda>_. 0)(1 := 2))"
    using mk_super_put(1) [OF m1(2), of 12 "le32 1"] by (simp add: m2_def)
  obtain d1 where d1: "set_dirent (dirent_of junk) 1 [DOT] = Some d1" "entry_ok d1" "dname d1 = [DOT]" "d_inode d1 = 1"
    using assms set_dirent_ok [of "dirent_of junk" "[DOT]" 1] by (auto simp: dirent_of_def)
  obtain d2 where d2: "set_dirent d1 1 [DOT, DOT] = Some d2" "entry_ok d2" "dname d2 = [DOT, DOT]" "d_inode d2 = 1"
    using d1(2) set_dirent_ok [of d1 "[DOT, DOT]" 1] by (auto simp: entry_ok_def)
  obtain m3 where m3: "mk_iappend m2 (iaddr 1) (dirent_bytes d1) = Some m3"
    "appended m2 m3 (\<lambda>_. []) ((\<lambda>_. 0)(1 := 2)) 1 (dirent_bytes d1) 2"
    using mk_append_dirent [OF inv2, of "[]" d1] d1(2) m1(5) by (auto simp: m2_def)
  let ?C = "(\<lambda>_. [])(1 := dirent_bytes d1)"
  have inv3: "mk_inv m3 ?C ((\<lambda>_. 0)(1 := 2))" and n3: "unat (next_blk m3) \<le> 66"
    using m3(2) m1(5) by (simp_all add: appended_def m2_def)
  obtain m4 where m4: "mk_iappend m3 (iaddr 1) (dirent_bytes d2) = Some m4"
    "appended m3 m4 ?C ((\<lambda>_. 0)(1 := 2)) 1 (dirent_bytes d2) 2"
    using mk_append_dirent [OF inv3, of "[d1]" d2] d1(2) d2(2) n3 by auto
  have ps: "ptrs_same m2 m4" using m3(2) m4(2) ptrs_same_trans by (auto simp: appended_def)
  have sb0: "sb_p m2 = 0" "mk_word m2 12 = 1" "root_p m2 = iaddr 1"
    using sb1 by (simp_all add: m2_def mk_word_def)
  have "mk_init_disk mk_start junk = Some m4"
  proof -
    have g: "mk_bget 32 = Some 0" "mk_bget 33 = Some BLK_SIZE" "mk_iget 1 = Some (iaddr 1)"
      using mk_iget_ok [of 1] by (simp_all add: mk_bget_def)
    have b: "in_img 32" "baddr 32 = 0" by (simp_all add: in_img_def baddr_def)
    have r: "root_p m3 = iaddr 1" "sb_p m3 = 0" "fc (as_fs m3) 32 = fc (as_fs m2) 32"
      using m3(2) sb0 by (simp_all add: appended_def ptrs_same_def)
    then have w3: "mk_word m3 12 = 1"
      using mk_word_block [OF b(1), of 12 m3] mk_word_block [OF b(1), of 12 m2] sb0(2) b(2) by simp
    have m2': "(mk_put m1 12 (le32 1))\<lparr>root_p := iaddr 1\<rparr> = m2" by (simp add: m2_def)
    have w2: "mk_word (mk_put m1 12 (le32 1)) 12 = 1" by simp
    note blank = m1(1) [unfolded mk_blank_def Let_def]
    show ?thesis
      using blank by (simp add: mk_init_disk_def g Let_def sb1 w2 m2' sb0 d1(1) m3(1) r w3 d2(1) m4(1) del: One_nat_def)
  qed
  moreover have "map (fc (as_fs m4) 32) [0..<16] = le32 33 @ le32 34 @ le32 1920 @ le32 1"
  proof -
    have "fc (as_fs m4) 32 = overlay (fc (as_fs mk_blank) 32) 12 (le32 1)"
      using ps m1(3) mk_super_put(2) [OF m1(2), of 12 "le32 1"] by (simp add: ptrs_same_def m2_def)
    moreover have "map (fc (as_fs mk_blank) 32) [0..<12] = le32 33 @ le32 34 @ le32 1920"
      by (rule nth_equalityI) (simp_all add: fc_as_fs in_img_def baddr_def mk_blank_img)
    moreover have "[0..<16] = [0..<12] @ [12..<16::nat]" using upt_split [of 0 12 16] by simp
    ultimately show ?thesis
      using map_overlay_same [of "fc (as_fs mk_blank) 32" 12 "le32 1"]
        map_overlay_other [of 0 12 12 "le32 1" "fc (as_fs mk_blank) 32"]
      by (simp only: map_append) simp
  qed
  moreover have "mk_inv m4 (?C(1 := dirent_bytes d1 @ dirent_bytes d2)) ((\<lambda>_. 0)(1 := 2))"
    using m4(2) by (simp add: appended_def)
  ultimately have "mk_holds m4 [d1, d2] []"
    using ps sb0(3) m1(4) d1(2) d2(2)
    by (auto simp: mk_holds_def ptrs_same_def m2_def intro!: exI [of _ "?C(1 := dirent_bytes d1 @ dirent_bytes d2)"]
        exI [of _ "(\<lambda>_. 0)(1 := 2)"])
  moreover have "unat (next_blk m4) \<le> 68" using m4(2) n3 by (simp add: appended_def)
  ultimately show ?thesis
    using that d1(3) d2(3) \<open>mk_init_disk mk_start junk = Some m4\<close> by blast
qed

subsection \<open>Adding a file\<close>

text \<open>A file the tool can take: it exists, is not too big, and its name fits into an entry.\<close>

definition mk_takes :: "(bytes \<Rightarrow> bytes option) \<Rightarrow> bytes \<Rightarrow> bool" where
  "mk_takes files path \<longleftrightarrow>
     (\<exists>data. files path = Some data \<and> length data \<le> FILE_MAX) \<and>
     length (basename path) \<le> MAX_NAME \<and> 0 \<notin> set (basename path)"

definition mk_cost :: "(bytes \<Rightarrow> bytes option) \<Rightarrow> bytes \<Rightarrow> nat" where
  "mk_cost files path = 2 + 2 * blocks 0 (length (the (files path)))"

lemma mk_add_file_ok:
  assumes h: "mk_holds m es datas" and t: "mk_takes files path" and j: "length junk = 32"
    and n: "length es < INUM" and free: "unat (next_blk m) + mk_cost files path \<le> BLK_NUM"
  obtains m' d where "mk_add_file files m path junk = Some m'"
    and "mk_holds m' (es @ [d]) (datas @ [the (files path)])" and "dname d = basename path"
    and "unat (next_blk m') \<le> unat (next_blk m) + mk_cost files path"
proof -
  let ?n = "length es"
  obtain data where data: "files path = Some data" "length data \<le> FILE_MAX" using t by (auto simp: mk_takes_def)
  obtain C T where inv: "mk_inv m C T" and CT: "T 1 = TYPE_DIR" "C 1 = concat (map dirent_bytes es)"
    "\<forall>i < length datas. C (i + 2) = datas ! i" "\<forall>p \<ge> ?n. C p = []"
    using h unfolding mk_holds_def by blast
  have es: "length es = length datas + 2" "\<forall>d \<in> set es. entry_ok d" and rp: "root_p m = iaddr 1"
    and ni: "next_inode m = of_nat ?n"
    using h by (simp_all add: mk_holds_def)
  obtain m1 where m1: "mk_ialloc m TYPE_FILE = Some (of_nat ?n, m1)" "mk_inv m1 C (T(?n := TYPE_FILE))"
    "ptrs_same m (m1\<lparr>next_inode := next_inode m\<rparr>)" "next_inode m1 = of_nat (Suc ?n)" "next_blk m1 = next_blk m"
    by (rule mk_ialloc_ok [OF inv ni n])
  obtain d where d: "set_dirent (dirent_of junk) (of_nat ?n) (basename path) = Some d" "entry_ok d"
    "dname d = basename path" "d_inode d = of_nat ?n"
    using j t set_dirent_ok [of "dirent_of junk" "basename path" "of_nat ?n"] by (auto simp: dirent_of_def mk_takes_def)
  have free1: "unat (next_blk m1) + 2 \<le> BLK_NUM" using free by (simp add: m1(5) mk_cost_def)
  let ?T = "T(?n := TYPE_FILE)"
  obtain m2 where m2: "mk_iappend m1 (iaddr 1) (dirent_bytes d) = Some m2" "appended m1 m2 C ?T 1 (dirent_bytes d) 2"
    by (rule mk_append_dirent [OF m1(2) CT(2) es(2) d(2) n free1])
  let ?C = "C(1 := C 1 @ dirent_bytes d)"
  have Cn: "?C ?n = []" using CT(4) es(1) by simp
  have inv2: "mk_inv m2 ?C ?T" and n2: "unat (next_blk m2) \<le> unat (next_blk m) + 2"
    using m2(2) m1(5) by (simp_all add: appended_def)
  have free2: "unat (next_blk m2) + 2 * blocks 0 (length data) \<le> BLK_NUM"
    using free n2 data(1) by (simp add: mk_cost_def)
  have "length (?C ?n) mod BLK_SIZE = 0" "length (?C ?n) + length data \<le> FILE_MAX"
    unfolding Cn using data(2) by simp_all
  from mk_copy_loop_ok [OF inv2 n this free2]
  obtain m3 where m3: "mk_copy_loop m2 (iaddr ?n) data = Some m3" "appended m2 m3 ?C ?T ?n data (2 * blocks 0 (length data))"
    by blast
  have "mk_add_file files m path junk = Some m3"
    using data(1) m1(1,3) d(1) m2(1) m3(1) rp
    by (simp add: mk_add_file_def mk_iget_ok [OF n] ptrs_same_def)
  moreover have "mk_holds m3 (es @ [d]) (datas @ [data])"
    unfolding mk_holds_def
  proof (intro conjI exI)
    have ps: "ptrs_same m1 m3" using m2(2) m3(2) ptrs_same_trans by (auto simp: appended_def)
    then show "root_p m3 = iaddr 1" "next_inode m3 = of_nat (length (es @ [d]))"
      using rp m1(3,4) by (simp_all add: ptrs_same_def)
    show "map (fc (as_fs m3) 32) [0..<16] = le32 33 @ le32 34 @ le32 1920 @ le32 1"
      using h ps m1(3) by (simp add: mk_holds_def ptrs_same_def)
    show "mk_inv m3 (?C(?n := data)) ?T" using m3(2) unfolding appended_def Cn by simp
    show "\<forall>i. 2 \<le> i \<and> i < length (es @ [d]) \<longrightarrow> d_inode ((es @ [d]) ! i) = of_nat i"
      using h d(4) by (auto simp: mk_holds_def nth_append less_Suc_eq)
    show "\<forall>i < length (datas @ [data]). (?C(?n := data)) (i + 2) = (datas @ [data]) ! i"
      using CT(3) es(1) by (auto simp: nth_append less_Suc_eq)
    show "\<forall>p \<ge> length (es @ [d]). (?C(?n := data)) p = []" using CT(4) es(1) by auto
  qed (use es n d(2) CT in auto)
  moreover have "unat (next_blk m3) \<le> unat (next_blk m) + mk_cost files path"
    using m3(2) n2 data(1) by (simp add: appended_def mk_cost_def)
  ultimately show ?thesis using that d(3) data(1) by simp
qed

subsection \<open>The whole run\<close>

lemma mk_add_all_ok:
  assumes "mk_holds m es datas" and "\<forall>path \<in> set (drop 2 argv). mk_takes files path"
    and "\<forall>i. length (junk i) = 32" and "length es + k \<le> INUM" and "i + k \<le> length argv" and "2 \<le> i"
    and "unat (next_blk m) + sum_list (map (mk_cost files) (take k (drop i argv))) \<le> BLK_NUM"
  shows "\<exists>m' ds. foldM (\<lambda>m i. mk_add_file files m (argv ! i) (junk i)) m [i..<i + k] = Some m' \<and>
    mk_holds m' (es @ ds) (datas @ map (the \<circ> files) (take k (drop i argv))) \<and>
    map dname ds = map basename (take k (drop i argv))"
  using assms
proof (induction k arbitrary: m es datas i)
  case 0
  then show ?case by (intro exI [of _ m] exI [of _ "[]"]) simp
next
  case (Suc k)
  have i: "i < length argv" using Suc.prems(5) by simp
  have tk: "take (Suc k) (drop i argv) = argv ! i # take k (drop (Suc i) argv)"
    using i by (simp add: Cons_nth_drop_Suc [symmetric])
  have "drop 2 argv ! (i - 2) \<in> set (drop 2 argv)" using i Suc.prems(6) by (intro nth_mem) simp
  moreover have "drop 2 argv ! (i - 2) = argv ! i"
    using i Suc.prems(6) by (simp only: nth_drop le_add_diff_inverse)
  ultimately have t: "mk_takes files (argv ! i)" using Suc.prems(2) by metis
  obtain m1 d where m1: "mk_add_file files m (argv ! i) (junk i) = Some m1"
    "mk_holds m1 (es @ [d]) (datas @ [the (files (argv ! i))])" "dname d = basename (argv ! i)"
    "unat (next_blk m1) \<le> unat (next_blk m) + mk_cost files (argv ! i)"
    using mk_add_file_ok [OF Suc.prems(1) t, of "junk i"] Suc.prems(3,4,7) by (auto simp: tk)
  have "length (es @ [d]) + k \<le> INUM" "Suc i + k \<le> length argv" "2 \<le> Suc i"
    "unat (next_blk m1) + sum_list (map (mk_cost files) (take k (drop (Suc i) argv))) \<le> BLK_NUM"
    using Suc.prems(4-7) m1(4) by (simp_all add: tk)
  from Suc.IH [OF m1(2) Suc.prems(2,3) this]
  obtain m' ds where "foldM (\<lambda>m i. mk_add_file files m (argv ! i) (junk i)) m1 [Suc i..<Suc i + k] = Some m'"
    "mk_holds m' ((es @ [d]) @ ds) ((datas @ [the (files (argv ! i))]) @ map (the \<circ> files) (take k (drop (Suc i) argv)))"
    "map dname ds = map basename (take k (drop (Suc i) argv))"
    by blast
  moreover have "[i..<i + Suc k] = i # [Suc i..<Suc i + k]" by (simp add: upt_conv_Cons)
  ultimately show ?case
    using m1(1,3) by (intro exI [of _ m'] exI [of _ "d # ds"]) (simp add: tk comp_def del: upt_Suc)
qed

lemma mk_main_ok:
  assumes paths: "paths \<noteq> []" "\<forall>path \<in> set paths. mk_takes files path" "length paths < 1919"
    and j: "\<forall>i. length (junk i) = 32" and cost: "68 + sum_list (map (mk_cost files) paths) \<le> BLK_NUM"
  obtains m es where "mk_main files junk (prog # target # paths) = Some m"
    and "mk_holds m es (map (the \<circ> files) paths)"
    and "map dname es = [DOT] # [DOT, DOT] # map basename paths"
proof -
  obtain m0 d1 d2 where m0: "mk_init_disk mk_start (junk 0) = Some m0" "mk_holds m0 [d1, d2] []"
    "dname d1 = [DOT]" "dname d2 = [DOT, DOT]" "unat (next_blk m0) \<le> 68"
    using mk_init_disk_ok j by metis
  let ?argv = "prog # target # paths"
  obtain m ds where "foldM (\<lambda>m i. mk_add_file files m (?argv ! i) (junk i)) m0 [2..<2 + length paths] = Some m"
    "mk_holds m ([d1, d2] @ ds) (map (the \<circ> files) paths)" "map dname ds = map basename paths"
    using mk_add_all_ok [OF m0(2), of ?argv files junk "length paths" 2] paths j cost m0(5) by auto
  then show ?thesis
    using that [of m "d1 # d2 # ds"] m0(1,3,4) paths(1) by (simp add: mk_main_def)
qed

end
