(* ===== verification/MkfsProps.thy ===== *)
theory MkfsProps
  imports MkfsRun
begin

text \<open>
  The kernel on the disk \<open>utils/mkfs.c\<close> built: \<open>init_fs\<close> finds the super block, \<open>iopen\<close> finds every
  file by its name in the root directory and \<open>iread\<close> returns its bytes. The tool and the kernel are
  two programs that only share the layout of the disk; the property is that they agree on it.
\<close>

subsection \<open>The disk behind the kernel's file system\<close>

definition mounts :: "fs \<Rightarrow> mkfs \<Rightarrow> bool" where
  "mounts g m \<longleftrightarrow> bdev_ok (dev g) \<and> sb g = mkfs_sb \<and> (\<forall>b. in_img b \<longrightarrow> fc g b = fc (as_fs m) b)"

definition opens :: "fs \<Rightarrow> nat \<Rightarrow> mkfs \<Rightarrow> nat \<Rightarrow> bool" where
  "opens g s m p \<longleftrightarrow> i_no (inodes g s) = of_nat p \<and> di_of g s = di_of (as_fs m) p"

text \<open>The image starts at block 32 of the disk, behind the boot block and the kernel.\<close>

definition holds_image :: "fs \<Rightarrow> mkfs \<Rightarrow> bool" where
  "holds_image f m \<longleftrightarrow> bdev_ok (dev f) \<and> (\<forall>k < IMG_SIZE. dsk (dev f) (131072 + k) = mk_img m k)"

lemma holds_image_fc:
  assumes "holds_image f m" and "in_img b"
  shows "fc f b = fc (as_fs m) b"
proof
  fix k
  have b: "32 \<le> unat b" "unat b < BLK_NUM" using assms(2) by (simp_all add: in_img_def)
  have "BLK_SIZE * unat b + k = 131072 + (baddr b + k)" using b(1) by (simp add: baddr_def)
  moreover have "baddr b + k < IMG_SIZE" if "k < BLK_SIZE" using b that by (simp add: baddr_def)
  ultimately have "dsk (dev f) (BLK_SIZE * unat b + k) = mk_img m (baddr b + k)" if "k < BLK_SIZE"
    using assms(1) that unfolding holds_image_def by metis
  then show "fc f b k = fc (as_fs m) b k"
    unfolding fc_as_fs using assms(2) b by (simp add: fc_def bcontent_def on_disk_def)
qed

lemma same_mounts: "same g g' \<Longrightarrow> mounts g m \<Longrightarrow> mounts g' m"
  by (simp add: mounts_def same_def)

lemma same_opens: "same g g' \<Longrightarrow> opens g s m p \<Longrightarrow> opens g' s m p"
  by (simp add: opens_def same_def)

lemma opened_file:
  assumes g: "mounts g m" "opens g s m p" and inv: "mk_inv m C T" and p: "p < INUM"
  shows "fwf g s" and "dense g s" and "contents g s = C p" and "itype g s = T p" and "unat (isize g s) = length (C p)"
proof -
  note wf = mk_invD(2) [OF inv p]
  have data: "fc g b = fc (as_fs m) b" if "b = ptr (as_fs m) p q" "b \<noteq> 0" "q < NPTR" for b q
    using g(1) fwf_in_img(1) [OF wf] that by (simp add: mounts_def)
  have addr: "ptr (as_fs m) p 12 = di_addrs (di_of (as_fs m) p) ! 12" by (simp add: ptr_def)
  have ptr: "ptr g s = ptr (as_fs m) p"
    using g(2) data [of _ 12] by (intro ext) (simp add: ptr_def Let_def opens_def addr)
  have "in_img 33" by (simp add: in_img_def)
  then have used: "used g = used (as_fs m)" using g(1) by (simp add: used_def mounts_def fun_eq_iff)
  have ok: "fs_ok g" using fwf_fs_ok [OF wf] g(1) by (simp add: fs_ok_def used mounts_def)
  have "I2BLKNO g (of_nat p) = iblk (as_fs m) p" using g(1) by (simp add: I2BLKNO_def iblk_def mounts_def)
  then have "disk_dinode g (of_nat p) = disk_dinode (as_fs m) (of_nat p)"
    using g(1) iblk_facts(1) [OF p, of m] by (simp add: disk_dinode_def mounts_def iblk_def)
  then show wf': "fwf g s"
    using wf ok g(2) by (simp add: fwf_def ptr used opens_def)
  have sz: "isize g s = isize (as_fs m) p" and ty: "itype g s = itype (as_fs m) p"
    using g(2) by (simp_all add: isize_def itype_def opens_def)
  show d: "dense g s" using mk_invD(3) [OF inv p] by (simp add: dense_def mapped_def ptr sz)
  show "itype g s = T p" using ty mk_invD(5) [OF inv p] by simp
  have "fbyte g s pos = fbyte (as_fs m) p pos" if "pos < FILE_MAX" for pos
    using data [OF refl _ div_blk_bound [OF that]] by (simp add: fbyte_def ptr Let_def)
  then show c: "contents g s = C p"
    using mk_invD(4) [OF inv p, symmetric] d by (simp add: contents_def sz dense_def)
  show "unat (isize g s) = length (C p)" using length_contents [of g s] c by simp
qed

text \<open>\<open>iget\<close> of an inode that is not active loads it into the first free slot.\<close>

lemma iget_fresh:
  assumes g: "mounts g m" and p: "p < INUM" and s: "s < INODE_NUM" "\<forall>i < s. i_ref (inodes g i) \<noteq> 0"
    "i_ref (inodes g s) = 0" and no: "\<forall>i < INODE_NUM. i_ref (inodes g i) > 0 \<longrightarrow> i_no (inodes g i) \<noteq> of_nat p"
  obtains g' where "iget g (of_nat p) = Some (s, g')" and "mounts g' m" and "opens g' s m p"
    and "\<forall>i. i \<noteq> s \<longrightarrow> inodes g' i = inodes g i" and "i_ref (inodes g' s) = 1" and "\<not> i_del (inodes g' s)"
proof -
  have f1: "find (\<lambda>i. i_ref (inodes g i) > 0 \<and> i_no (inodes g i) = of_nat p) [0..<INODE_NUM] = None"
    using no by (auto simp: find_None_iff)
  have f2: "find (\<lambda>i. i_ref (inodes g i) = 0) [0..<INODE_NUM] = Some s"
    unfolding find_Some_iff using s by (intro exI [of _ s]) auto
  define h where "h = upd_inode g s (\<lambda>ip. ip\<lparr>i_ref := 1, i_no := of_nat p, i_del := False\<rparr>)"
  have hs: "dev h = dev g" "sb h = mkfs_sb" "fc h = fc g" using g by (simp_all add: h_def mounts_def)
  have blk: "I2BLKNO h (of_nat p) = iblk (as_fs m) p" by (simp add: I2BLKNO_def iblk_def hs)
  have "on_disk (iblk (as_fs m) p)" using iblk_facts(1) [OF p] by (simp add: in_img_def on_disk_def)
  then obtain h' where h': "fs_bread h DINODE_SIZE (I2BLKNO h (of_nat p)) (I2BLKOFF (of_nat p)) =
      Some (map (fc g (iblk (as_fs m) p)) [I2BLKOFF (of_nat p)..<I2BLKOFF (of_nat p) + DINODE_SIZE], h')" "same h h'"
    using fs_bread_ok [of h "iblk (as_fs m) p" "I2BLKOFF (of_nat p)" DINODE_SIZE] I2BLKOFF_bound [of "of_nat p"] g
    by (auto simp: blk hs mounts_def)
  have "dinode_of (map (fc g (iblk (as_fs m) p)) [I2BLKOFF (of_nat p)..<I2BLKOFF (of_nat p) + DINODE_SIZE]) =
      disk_dinode (as_fs m) (of_nat p)"
    using g iblk_facts(1) [OF p, of m] by (simp add: disk_dinode_def mounts_def iblk_def)
  then have di: "diread h (of_nat p) = Some (di_of (as_fs m) p, h')"
    using h'(1) disk_dinode_as_fs [OF p, of m] by (simp add: diread_def)
  define g' where "g' = upd_inode h' s (\<lambda>ip. ip\<lparr>i_di := di_of (as_fs m) p\<rparr>)"
  have "iget g (of_nat p) = Some (s, g')"
    using di by (simp add: iget_def f1 f2 h_def [symmetric] g'_def del: upt_rec_numeral)
  moreover have "mounts g' m" using h'(2) g hs by (simp add: mounts_def same_def g'_def)
  moreover have "inodes h' = inodes h" using h'(2) by (simp add: same_def)
  ultimately show ?thesis using that by (simp add: g'_def opens_def h_def)
qed

subsection \<open>Mounting and reading\<close>

lemma init_fs_mounts:
  assumes img: "holds_image f m" and h: "mk_holds m es datas"
  obtains g where "init_fs f = Some g" and "mounts g m" and "inodes g = inodes f"
proof -
  have b: "in_img 32" "on_disk 32" by (simp_all add: in_img_def on_disk_def)
  obtain f1 where f1: "fs_bread f 16 32 0 = Some (map (fc f 32) [0..<0 + 16], f1)" "same f f1"
    using fs_bread_ok [of f 32 0 16] img b(2) by (auto simp: holds_image_def)
  have "map (fc f 32) [0..<0 + 16] = le32 33 @ le32 34 @ le32 1920 @ le32 1"
    using holds_image_fc [OF img b(1)] h by (simp add: mk_holds_def del: upt_rec_numeral)
  then have "init_fs f = Some (f1\<lparr>sb := mkfs_sb\<rparr>)"
    using f1(1) sb_roundtrip [of 33 34 1920 1] by (simp add: init_fs_def mkfs_sb_def del: upt_rec_numeral)
  moreover have "mounts (f1\<lparr>sb := mkfs_sb\<rparr>) m"
    using f1(2) holds_image_fc [OF img] by (simp add: mounts_def same_def fc_def)
  ultimately show ?thesis using that f1(2) by (simp add: same_def)
qed

lemma mk_holdsD:
  assumes "mk_holds m es datas"
  obtains C T where "mk_inv m C T" and "T 1 = TYPE_DIR" and "C 1 = concat (map dirent_bytes es)"
    and "\<And>i. i < length datas \<Longrightarrow> C (i + 2) = datas ! i" and "\<forall>d \<in> set es. entry_ok d"
    and "length es = length datas + 2" and "length es \<le> INUM"
    and "\<And>i. i < length datas \<Longrightarrow> d_inode (es ! (i + 2)) = of_nat (i + 2)"
  using assms unfolding mk_holds_def by auto

text \<open>When the names are different the first match is the only one.\<close>

lemma first_match_distinct:
  assumes dist: "distinct (map dname es)" and k: "k < length es" and nz: "d_inode (es ! k) \<noteq> 0"
  shows "first_match es (dname (es ! k)) 0 = Some k"
proof -
  have "\<not> matches (dname (es ! k)) (es ! l)" if "l < k" for l
    using nth_eq_iff_index_eq [OF dist, of l k] that k by (auto simp: matches_def)
  then show ?thesis
    unfolding first_match_def find_Some_iff using k nz by (intro exI [of _ k]) (auto simp: matches_def)
qed

text \<open>\<open>iopen\<close> of a name in the root directory, on a freshly mounted disk.\<close>

lemma iopen_root_file:
  assumes g: "mounts g m" and free: "\<forall>i < INODE_NUM. i_ref (inodes g i) = 0"
    and h: "mk_holds m es datas" and i: "i < length datas" and name: "dname (es ! (i + 2)) = name"
    and dist: "distinct (map dname es)" and ok: "name \<noteq> []" "SLASH \<notin> set name" "length name \<le> MAX_NAME"
    and j: "length junk = 32"
  obtains p g' C T where "iopen g cwd (SLASH # name) 0 junk = Some (Some p, g')" and "mounts g' m"
    and "opens g' p m (i + 2)" and "mk_inv m C T" and "C (i + 2) = datas ! i"
proof -
  obtain C T where C: "mk_inv m C T" "T 1 = TYPE_DIR" "C 1 = concat (map dirent_bytes es)"
    "C (i + 2) = datas ! i" "\<forall>d \<in> set es. entry_ok d" "length es = length datas + 2" "length es \<le> INUM"
    "d_inode (es ! (i + 2)) = of_nat (i + 2)"
    by (rule mk_holdsD [OF h]) (use i in blast)
  obtain g1 where g1: "iget g 1 = Some (0, g1)" "mounts g1 m" "opens g1 0 m 1"
    "\<forall>i. i \<noteq> 0 \<longrightarrow> inodes g1 i = inodes g i" "i_ref (inodes g1 0) = 1" "\<not> i_del (inodes g1 0)"
    using iget_fresh [OF g, of 1 0] free by auto
  note root = opened_file [OF g1(2,3) C(1)]
  have dir: "dir_at g1 0 es" using root C(2,3,5) by (simp add: dir_at_def)
  have "0 \<notin> set name" using name by (auto simp: dname_def dest: set_takeWhileD)
  then obtain g2 de spare where g2: "same g1 g2" "ilookup_loop g1 0 name (isize g1 0) 0 (isize g1 0) junk =
      Some (map_option (\<lambda>j. (of_nat (32 * j), d_inode (es ! j))) (first_match es name 0), spare, de, g2)"
    using ilookup_loop_ok [OF dir _ _ j, of name 0 "isize g1 0"] by auto
  have ne: "(of_nat (i + 2) :: u32) \<noteq> of_nat 0" "(of_nat (i + 2) :: u32) \<noteq> of_nat 1"
    using of_nat_inode [of "i + 2" 0] of_nat_inode [of "i + 2" 1] i C(6,7) by (simp_all del: of_nat_add)
  have m: "first_match es name 0 = Some (i + 2)"
    using first_match_distinct [OF dist, of "i + 2"] ne(1) i C(6) name unfolding C(8) by simp
  have i2: "inodes g2 = inodes g1" using g2(1) by (simp add: same_def)
  have "i_no (inodes g2 k) \<noteq> of_nat (i + 2)" if "k < INODE_NUM" "i_ref (inodes g2 k) > 0" for k
  proof -
    have "k = 0" using that g1(4) free by (cases "k = 0") (simp_all add: i2)
    then show ?thesis using g1(3) ne(2) by (metis i2 opens_def)
  qed
  then have no: "\<forall>k < INODE_NUM. i_ref (inodes g2 k) > 0 \<longrightarrow> i_no (inodes g2 k) \<noteq> of_nat (i + 2)" by blast
  have slot: "(1 :: nat) < INODE_NUM" "\<forall>k < 1. i_ref (inodes g2 k) \<noteq> 0" "i_ref (inodes g2 1) = 0"
    using g1(4,5) free by (simp_all add: i2)
  have "i + 2 < INUM" using i C(6,7) by simp
  then obtain g3 where g3: "iget g2 (of_nat (i + 2)) = Some (1, g3)" "mounts g3 m" "opens g3 1 m (i + 2)"
    "\<forall>k. k \<noteq> 1 \<longrightarrow> inodes g3 k = inodes g2 k"
    by (rule iget_fresh [OF same_mounts [OF g2(1) g1(2)] _ slot no])
  define g4 where "g4 = upd_inode g3 0 (\<lambda>ip. ip\<lparr>i_ref := i_ref ip - 1\<rparr>)"
  have g4: "iclose g3 0 = Some g4" "mounts g4 m" "opens g4 1 m (i + 2)"
    using g3 g1(6) by (simp_all add: iclose_def g4_def i2 mounts_def opens_def)
  have look: "ilookup g1 0 name 0 junk = Some ((Some 1, Some (of_nat (32 * (i + 2)))), g3)"
    using root(4) C(2) g2(2) m g3(1) [folded C(8)] by (simp add: ilookup_def)
  have sk: "skipelem (SLASH # name) = Some ([], name)"
    using skipelem_element [of "[SLASH]" name "[]"] ok by simp
  have "iopen g cwd (SLASH # name) 0 junk = Some (Some 1, g4)"
    using sk g1(1) root(4) C(2) look g4(1) g
    by (simp add: iopen_def iopen_parent_def iopen_parent_loop.simps mounts_def)
  then show ?thesis using that g4(2,3) C(1,4) by blast
qed

text \<open>C7: \<open>mkfs\<close> and the kernel agree on the disk. When the files given to \<open>mkfs\<close> are fewer than 1919, exist, are not
  bigger than a file may be, have different base names of at most 27 characters other than \<open>.\<close> and
  \<open>..\<close>, and half the disk has room for them, \<open>mkfs\<close> completes. A kernel that is started with the image
  at block 32 of its disk and no inode in use then mounts it, opens every one of the files by its
  name in the root directory, and reads back exactly its bytes.\<close>

theorem mkfs_files_read_back:
  assumes "\<forall>path \<in> set paths. mk_takes files path" and "\<forall>i. length (junk i) = 32"
    and "length paths < 1919" and "68 + sum_list (map (mk_cost files) paths) \<le> BLK_NUM"
    and "distinct ([DOT] # [DOT, DOT] # map basename paths)"
    and "k < length paths" and "SLASH \<notin> set (basename (paths ! k))" and "basename (paths ! k) \<noteq> []"
  shows "\<exists>m. mk_main files junk (prog # target # paths) = Some m \<and>
    (\<forall>f. holds_image f m \<and> (\<forall>i < INODE_NUM. i_ref (inodes f i) = 0) \<longrightarrow>
      (\<exists>f1 p f2 f3. init_fs f = Some f1 \<and>
         iopen f1 cwd (SLASH # basename (paths ! k)) 0 (junk 0) = Some (Some p, f2) \<and>
         unat (isize f2 p) = length (the (files (paths ! k))) \<and>
         iread f2 p 0 (isize f2 p) =
           Some (int (length (the (files (paths ! k)))), the (files (paths ! k)), f3)))"
proof -
  let ?datas = "map (the \<circ> files) paths" and ?name = "basename (paths ! k)"
  have "paths \<noteq> []" using assms(6) by auto
  then obtain m es where m: "mk_main files junk (prog # target # paths) = Some m" "mk_holds m es ?datas"
    "map dname es = [DOT] # [DOT, DOT] # map basename paths"
    by (rule mk_main_ok [OF _ assms(1,3,2,4)])
  have es: "k < length ?datas" "k + 2 < length es" using assms(6) m(2) by (simp_all add: mk_holds_def)
  have "dname (es ! (k + 2)) = map dname es ! (k + 2)" using es(2) by simp
  then have name: "dname (es ! (k + 2)) = ?name" unfolding m(3) using assms(6) by simp
  have "length ?name \<le> MAX_NAME" using assms(1,6) by (simp add: mk_takes_def)
  note nm = assms(8,7) this
  have j: "length (junk 0) = 32" using assms(2) by blast
  have "\<exists>f1 p f2 f3. init_fs f = Some f1 \<and> iopen f1 cwd (SLASH # ?name) 0 (junk 0) = Some (Some p, f2) \<and>
      unat (isize f2 p) = length (?datas ! k) \<and>
      iread f2 p 0 (isize f2 p) = Some (int (length (?datas ! k)), ?datas ! k, f3)"
    if f: "holds_image f m" "\<forall>i < INODE_NUM. i_ref (inodes f i) = 0" for f
  proof -
    obtain f1 where f1: "init_fs f = Some f1" "mounts f1 m" "inodes f1 = inodes f"
      by (rule init_fs_mounts [OF f(1) m(2)])
    have free: "\<forall>i < INODE_NUM. i_ref (inodes f1 i) = 0" using f(2) f1(3) by simp
    have dist: "distinct (map dname es)" unfolding m(3) by (rule assms(5))
    obtain p f2 C T where f2: "iopen f1 cwd (SLASH # ?name) 0 (junk 0) = Some (Some p, f2)" "mounts f2 m"
      "opens f2 p m (k + 2)" "mk_inv m C T" "C (k + 2) = ?datas ! k"
      by (rule iopen_root_file [OF f1(2) free m(2) es(1) name dist nm j])
    have "k + 2 < INUM" using es(2) m(2) by (simp add: mk_holds_def)
    note o = opened_file [OF f2(2-4) this]
    obtain f3 where "iread f2 p 0 (isize f2 p) =
        Some (int (min (unat (isize f2 p)) (unat (isize f2 p))), take (unat (isize f2 p)) (contents f2 p), f3)"
      using iread_segment [OF o(1,2), of 0 "isize f2 p"] unsigned_less [of "isize f2 p", where 'a = nat] by auto
    then show ?thesis using f1(1) f2(1,5) o(3,5) by auto
  qed
  then show ?thesis using m(1) assms(6) by auto
qed

definition demo_files :: "bytes \<Rightarrow> bytes option" where
  "demo_files path = (if path = [117, 47, 97] then Some [104, 105] else None)"

lemma holds_image_as_fs: "holds_image (as_fs m) m"
  by (simp add: holds_image_def) (simp add: as_fs_def)

theorem mkfs_files_read_back_witness:
  "\<exists>m f1 p f2 f3. mk_main demo_files (\<lambda>_. replicate 32 7) [[109], [116], [117, 47, 97]] = Some m \<and>
    init_fs (as_fs m) = Some f1 \<and> iopen f1 None [47, 97] 0 (replicate 32 7) = Some (Some p, f2) \<and>
    iread f2 p 0 (isize f2 p) = Some (2, [104, 105], f3)"
proof -
  have b: "basename [117, 47, 97] = [97]" by (simp add: basename_def)
  obtain m where m: "mk_main demo_files (\<lambda>_. replicate 32 7) [[109], [116], [117, 47, 97]] = Some m"
    "\<forall>f. holds_image f m \<and> (\<forall>i < INODE_NUM. i_ref (inodes f i) = 0) \<longrightarrow>
      (\<exists>f1 p f2 f3. init_fs f = Some f1 \<and>
         iopen f1 None [47, 97] 0 (replicate 32 7) = Some (Some p, f2) \<and> unat (isize f2 p) = Suc (Suc 0) \<and>
         iread f2 p 0 (isize f2 p) = Some (2, [104, 105], f3))"
    using mkfs_files_read_back [of "[[117, 47, 97]]" demo_files "\<lambda>_. replicate 32 7" 0 "[109]" "[116]" None]
    by (auto simp: b demo_files_def mk_takes_def mk_cost_def blocks_def)
  moreover from m(2) [rule_format, of "as_fs m"] holds_image_as_fs [of m]
  have "\<exists>f1 p f2 f3. init_fs (as_fs m) = Some f1 \<and>
      iopen f1 None [47, 97] 0 (replicate 32 7) = Some (Some p, f2) \<and>
      iread f2 p 0 (isize f2 p) = Some (2, [104, 105], f3)" by auto
  ultimately show ?thesis by blast
qed

text \<open>C18: The disk \<open>mkfs\<close> leaves is in order: seen by the kernel, every inode is well-formed (its block
  numbers are data blocks the bitmap has as used, none occurs twice), no file has holes, no two
  inodes share a block, and the bitmap has no used block above the last one that was allocated. This
  is what the kernel's reads and writes need to start from.\<close>

theorem mkfs_disk_in_order:
  assumes "paths \<noteq> []" and "\<forall>path \<in> set paths. mk_takes files path" and "\<forall>i. length (junk i) = 32"
    and "length paths < 1919" and "68 + sum_list (map (mk_cost files) paths) \<le> BLK_NUM"
    and "p < INUM" and "q < INUM" and "p \<noteq> q"
  shows "\<exists>m. mk_main files junk (prog # target # paths) = Some m \<and> fwf (as_fs m) p \<and> dense (as_fs m) p \<and>
    own (as_fs m) p \<inter> own (as_fs m) q = {} \<and>
    (\<forall>b < BLK_NUM. used (as_fs m) b \<longleftrightarrow> b < unat (next_blk m))"
proof -
  obtain m es where m: "mk_main files junk (prog # target # paths) = Some m" "mk_holds m es (map (the \<circ> files) paths)"
    by (rule mk_main_ok [OF assms(1,2,4,3,5)])
  obtain C T where inv: "mk_inv m C T" by (rule mk_holdsD [OF m(2)])
  show ?thesis
    using m(1) mk_invD(1-3) [OF inv] mk_invD(6) [OF inv assms(6-8)] assms(6) by (auto simp: mk_ok_def)
qed

theorem mkfs_disk_in_order_witness:
  "\<exists>m. mk_main demo_files (\<lambda>_. replicate 32 7) [[109], [116], [117, 47, 97]] = Some m \<and>
    fwf (as_fs m) 2 \<and> dense (as_fs m) 2 \<and> own (as_fs m) 2 \<inter> own (as_fs m) 1 = {}"
  using mkfs_disk_in_order [of "[[117, 47, 97]]" demo_files "\<lambda>_. replicate 32 7" 2 1 "[109]" "[116]"]
  by (auto simp: basename_def demo_files_def mk_takes_def mk_cost_def blocks_def)

end
