(* ===== verification/Shell.thy ===== *)
theory Shell
  imports CString
begin

text \<open>
  The shell, \<open>user/src/phase6/sh.c\<close>: tokens, the recursive-descent parser, the termination of the
  words in place, and what a command does. A \<open>char *\<close> into the command line \<open>b\<close> is an offset; \<open>es\<close>
  is the offset of its terminator, and no offset goes beyond it. \<open>panic\<close>, which ends the process,
  is an error value. The parser has a bound on the depth of its calls (the length of the line plus 3), \<open>OutOfFuel\<close>, which
  is shown never to be reached.
\<close>

subsection \<open>Commands\<close>

text \<open>A word is the pair \<open>q, eq\<close> of its offsets; \<open>'w\<close> is also used for the words themselves.\<close>

datatype 'w cmd =
    Exec "'w list"
  | Redir "'w cmd" 'w u32 u32 u32
  | Pipe "'w cmd" "'w cmd"
  | Seq "'w cmd" "'w cmd"
  | Back "'w cmd"

abbreviation (input) MAXARGS :: nat where "MAXARGS \<equiv> 10"

text \<open>The constructors (\<open>malloc\<close> gives memory here: \<open>cmd\<close> is never \<open>NULL\<close>).\<close>

definition execcmd :: "'w cmd" where
  [simp]: "execcmd = Exec []"

definition redircmd :: "'w cmd \<Rightarrow> 'w \<Rightarrow> u32 \<Rightarrow> u32 \<Rightarrow> u32 \<Rightarrow> 'w cmd" where
  [simp]: "redircmd subcmd file mode fd whence = Redir subcmd file mode fd whence"

definition pipecmd :: "'w cmd \<Rightarrow> 'w cmd \<Rightarrow> 'w cmd" where
  [simp]: "pipecmd left right = Pipe left right"

definition listcmd :: "'w cmd \<Rightarrow> 'w cmd \<Rightarrow> 'w cmd" where
  [simp]: "listcmd left right = Seq left right"

definition backcmd :: "'w cmd \<Rightarrow> 'w cmd" where
  [simp]: "backcmd subcmd = Back subcmd"

datatype perr = OutOfFuel | Panic string

fun andThen :: "perr + 'a \<Rightarrow> ('a \<Rightarrow> perr + 'b) \<Rightarrow> perr + 'b" where
  "andThen (Inl e) f = Inl e"
| "andThen (Inr x) f = f x"

subsection \<open>Tokens\<close>

definition whitespace :: bytes where
  "whitespace = [32, 9, 13, 10, 11]"

definition symbols :: bytes where
  "symbols = [60, 124, 62, 38, 59, 40, 41]"

text \<open>\<open>strchr(cs, c)\<close> as a truth value; it finds the terminator too.\<close>

definition has :: "bytes \<Rightarrow> u8 \<Rightarrow> bool" where
  "has cs c \<longleftrightarrow> c = 0 \<or> c \<in> set cs"

function skip_ws :: "bytes \<Rightarrow> nat \<Rightarrow> nat \<Rightarrow> nat" where
  "skip_ws b es s = (if s < es \<and> has whitespace (b ! s) then skip_ws b es (s + 1) else s)"
  by pat_completeness auto
termination by (relation "measure (\<lambda>(_, es, s). es - s)") auto

function skip_word :: "bytes \<Rightarrow> nat \<Rightarrow> nat \<Rightarrow> nat" where
  "skip_word b es s =
     (if s < es \<and> \<not> has whitespace (b ! s) \<and> \<not> has symbols (b ! s) then skip_word b es (s + 1) else s)"
  by pat_completeness auto
termination by (relation "measure (\<lambda>(_, es, s). es - s)") auto

declare skip_ws.simps [simp del] skip_word.simps [simp del]

text \<open>The token (\<open>'+'\<close> for \<open>>>\<close>, \<open>'a'\<close> for a word, 0 for the end), \<open>q\<close>, \<open>eq\<close> and the new offset.\<close>

definition gettoken :: "bytes \<Rightarrow> nat \<Rightarrow> nat \<Rightarrow> u8 \<times> nat \<times> nat \<times> nat" where
  "gettoken b es s =
     (let q = skip_ws b es s; c = b ! q;
          (ret, eq) =
            (if c = 0 then (c, q)
             else if c = 124 \<or> c = 40 \<or> c = 41 \<or> c = 59 \<or> c = 38 \<or> c = 60 then (c, q + 1)
             else if c = 62 then (if b ! (q + 1) = 62 then (43, q + 2) else (c, q + 1))
             else (97, skip_word b es q))
      in (ret, q, eq, skip_ws b es eq))"

definition peek :: "bytes \<Rightarrow> nat \<Rightarrow> bytes \<Rightarrow> nat \<Rightarrow> bool \<times> nat" where
  "peek b es toks s = (let s = skip_ws b es s in (b ! s \<noteq> 0 \<and> has toks (b ! s), s))"

subsection \<open>The parser\<close>

abbreviation (input) O_RDONLY :: u32 where "O_RDONLY \<equiv> 0x000"

text \<open>\<open>cmd->argv\<close> is filled in while \<open>ret\<close> already wraps \<open>cmd\<close> in redirections.\<close>

fun set_argv :: "'w list \<Rightarrow> 'w cmd \<Rightarrow> 'w cmd" where
  "set_argv argv (Exec ws) = Exec argv"
| "set_argv argv (Redir c f m fd wh) = Redir (set_argv argv c) f m fd wh"
| "set_argv argv c = c"

fun parse_redirs :: "nat \<Rightarrow> bytes \<Rightarrow> nat \<Rightarrow> (nat \<times> nat) cmd \<Rightarrow> nat \<Rightarrow> perr + (nat \<times> nat) cmd \<times> nat" where
  "parse_redirs 0 b es c s = Inl OutOfFuel"
| "parse_redirs (Suc n) b es c s =
     (let (y, s) = peek b es [60, 62] s in
      if \<not> y then Inr (c, s)
      else
        let (tok, _, _, s) = gettoken b es s;
            (t, q, eq, s) = gettoken b es s
        in if t \<noteq> 97 then Inl (Panic ''missing file for redirection'')
           else parse_redirs n b es
             (if tok = 60 then redircmd c (q, eq) O_RDONLY 0 0
              else if tok = 62 then redircmd c (q, eq) (0x001 OR 0x200 OR 0x400) 1 0
              else if tok = 43 then redircmd c (q, eq) (0x001 OR 0x200) 1 2
              else c) s)"

text \<open>The loop of \<open>parseexec\<close> over the arguments.\<close>

fun parse_args :: "nat \<Rightarrow> bytes \<Rightarrow> nat \<Rightarrow> (nat \<times> nat) cmd \<Rightarrow> (nat \<times> nat) list \<Rightarrow> nat \<Rightarrow>
    perr + (nat \<times> nat) cmd \<times> nat" where
  "parse_args 0 b es ret argv s = Inl OutOfFuel"
| "parse_args (Suc n) b es ret argv s =
     (let (y, s) = peek b es [124, 41, 38, 59] s in
      if y then Inr (set_argv argv ret, s)
      else
        let (tok, q, eq, s) = gettoken b es s in
        if tok = 0 then Inr (set_argv argv ret, s)
        else if tok \<noteq> 97 then Inl (Panic ''syntax'')
        else
          let argv = argv @ [(q, eq)] in
          if length argv \<ge> MAXARGS then Inl (Panic ''too many args'')
          else andThen (parse_redirs n b es ret s) (\<lambda>(ret, s). parse_args n b es ret argv s))"

fun parse_backs :: "nat \<Rightarrow> bytes \<Rightarrow> nat \<Rightarrow> (nat \<times> nat) cmd \<Rightarrow> nat \<Rightarrow> perr + (nat \<times> nat) cmd \<times> nat" where
  "parse_backs 0 b es c s = Inl OutOfFuel"
| "parse_backs (Suc n) b es c s =
     (let (y, s) = peek b es [38] s in
      if y then let (_, _, _, s) = gettoken b es s in parse_backs n b es (backcmd c) s
      else Inr (c, s))"

text \<open>\<open>parseline\<close> calls itself through the others, which get it as \<open>pl\<close>.\<close>

definition parseblock :: "nat \<Rightarrow> (bytes \<Rightarrow> nat \<Rightarrow> nat \<Rightarrow> perr + (nat \<times> nat) cmd \<times> nat) \<Rightarrow> bytes \<Rightarrow> nat \<Rightarrow> nat \<Rightarrow>
    perr + (nat \<times> nat) cmd \<times> nat" where
  "parseblock n pl b es s =
     (let (y, s) = peek b es [40] s in
      if \<not> y then Inl (Panic ''parseblock'')
      else
        let (_, _, _, s) = gettoken b es s in
        andThen (pl b es s) (\<lambda>(c, s).
          let (y, s) = peek b es [41] s in
          if \<not> y then Inl (Panic ''syntax - missing )'')
          else let (_, _, _, s) = gettoken b es s in parse_redirs n b es c s))"

definition parseexec :: "nat \<Rightarrow> (bytes \<Rightarrow> nat \<Rightarrow> nat \<Rightarrow> perr + (nat \<times> nat) cmd \<times> nat) \<Rightarrow> bytes \<Rightarrow> nat \<Rightarrow> nat \<Rightarrow>
    perr + (nat \<times> nat) cmd \<times> nat" where
  "parseexec n pl b es s =
     (let (y, s) = peek b es [40] s in
      if y then parseblock n pl b es s
      else andThen (parse_redirs n b es execcmd s) (\<lambda>(ret, s). parse_args n b es ret [] s))"

fun parsepipe :: "nat \<Rightarrow> (bytes \<Rightarrow> nat \<Rightarrow> nat \<Rightarrow> perr + (nat \<times> nat) cmd \<times> nat) \<Rightarrow> bytes \<Rightarrow> nat \<Rightarrow> nat \<Rightarrow>
    perr + (nat \<times> nat) cmd \<times> nat" where
  "parsepipe 0 pl b es s = Inl OutOfFuel"
| "parsepipe (Suc n) pl b es s =
     andThen (parseexec n pl b es s) (\<lambda>(c, s).
       let (y, s) = peek b es [124] s in
       if y then
         let (_, _, _, s) = gettoken b es s in
         andThen (parsepipe n pl b es s) (\<lambda>(r, s). Inr (pipecmd c r, s))
       else Inr (c, s))"

fun parseline :: "nat \<Rightarrow> bytes \<Rightarrow> nat \<Rightarrow> nat \<Rightarrow> perr + (nat \<times> nat) cmd \<times> nat" where
  "parseline 0 b es s = Inl OutOfFuel"
| "parseline (Suc n) b es s =
     andThen (parsepipe n (parseline n) b es s) (\<lambda>(c, s).
     andThen (parse_backs n b es c s) (\<lambda>(c, s).
       let (y, s) = peek b es [59] s in
       if y then
         let (_, _, _, s) = gettoken b es s in
         andThen (parseline n b es s) (\<lambda>(r, s). Inr (listcmd c r, s))
       else Inr (c, s)))"

subsection \<open>The words in place\<close>

fun nulterminate :: "(nat \<times> nat) cmd \<Rightarrow> bytes \<Rightarrow> bytes" where
  "nulterminate (Exec argv) b = fold (\<lambda>(q, eq) b. b[eq := 0]) argv b"
| "nulterminate (Redir c f m fd wh) b = (nulterminate c b)[snd f := 0]"
| "nulterminate (Pipe l r) b = nulterminate r (nulterminate l b)"
| "nulterminate (Seq l r) b = nulterminate r (nulterminate l b)"
| "nulterminate (Back c) b = nulterminate c b"

text \<open>\<open>parsecmd\<close> gives the command and the line with its words terminated.\<close>

definition parsecmd :: "bytes \<Rightarrow> nat \<Rightarrow> perr + (nat \<times> nat) cmd \<times> bytes" where
  "parsecmd b es =
     andThen (parseline (es + 3) b es 0) (\<lambda>(c, s).
       let (_, s) = peek b es [] s in
       if s \<noteq> es then Inl (Panic ''syntax'') else Inr (c, nulterminate c b))"

subsection \<open>Running a command\<close>

text \<open>
  What \<open>runcmd\<close> does, as the system calls it makes; \<open>Fork\<close> holds what the child does, and a call
  whose failure ends the process is marked \<open>OrExit\<close>. \<open>P0\<close>, \<open>P1\<close> are the descriptors of the pipe.
\<close>

datatype fdesc = Fd u32 | P0 | P1

datatype 'w act =
    ExecProg "'w list" | Close fdesc | OpenOrExit 'w u32 | Lseek u32 u32 u32 | Fork "'w act list" | Wait
  | PipeOrExit | Dup fdesc | Exit u32

fun runcmd :: "'w cmd \<Rightarrow> 'w act list" where
  "runcmd (Exec argv) = (if argv = [] then [Exit 1] else [ExecProg argv, Exit 0])"
| "runcmd (Redir c f m fd wh) = [Close (Fd fd), OpenOrExit f m, Lseek fd 0 wh] @ runcmd c"
| "runcmd (Seq l r) = [Fork (runcmd l), Wait] @ runcmd r"
| "runcmd (Pipe l r) =
     [PipeOrExit, Fork ([Close (Fd 1), Dup P1, Close P0, Close P1] @ runcmd l),
      Fork ([Close (Fd 0), Dup P0, Close P0, Close P1] @ runcmd r),
      Close P0, Close P1, Wait, Wait, Exit 0]"
| "runcmd (Back c) = [Fork (runcmd c), Exit 0]"

subsection \<open>Tokens, proved\<close>

definition line_ok :: "bytes \<Rightarrow> nat \<Rightarrow> bool" where
  "line_ok b es \<longleftrightarrow> es < length b \<and> b ! es = 0 \<and> (\<forall>i < es. b ! i \<noteq> 0)"

definition word_char :: "u8 \<Rightarrow> bool" where
  "word_char c \<longleftrightarrow> \<not> has whitespace c \<and> \<not> has symbols c"

definition word_ok :: "bytes \<Rightarrow> nat \<Rightarrow> nat \<times> nat \<Rightarrow> bool" where
  "word_ok b es w \<longleftrightarrow> (case w of (q, eq) \<Rightarrow>
     q < eq \<and> eq \<le> es \<and> (\<forall>i. q \<le> i \<and> i < eq \<longrightarrow> word_char (b ! i)) \<and> \<not> word_char (b ! eq))"

lemma skip_ws_bounds: "s \<le> es \<Longrightarrow> s \<le> skip_ws b es s \<and> skip_ws b es s \<le> es \<and>
    (skip_ws b es s < es \<longrightarrow> \<not> has whitespace (b ! skip_ws b es s))"
proof (induction b es s rule: skip_ws.induct)
  case (1 b es s)
  show ?case
  proof (cases "s < es \<and> has whitespace (b ! s)")
    case True
    then show ?thesis using 1 by (subst (1 2 3 4) skip_ws.simps) auto
  next
    case False
    then show ?thesis using 1(2) by (subst (1 2 3 4) skip_ws.simps) auto
  qed
qed

lemma skip_word_bounds: "s \<le> es \<Longrightarrow> s \<le> skip_word b es s \<and> skip_word b es s \<le> es \<and>
    (\<forall>i. s \<le> i \<and> i < skip_word b es s \<longrightarrow> word_char (b ! i)) \<and>
    (skip_word b es s < es \<longrightarrow> \<not> word_char (b ! skip_word b es s))"
proof (induction b es s rule: skip_word.induct)
  case (1 b es s)
  show ?case
  proof (cases "s < es \<and> word_char (b ! s)")
    case True
    then have u: "skip_word b es s = skip_word b es (s + 1)" by (subst skip_word.simps) (simp add: word_char_def)
    have IH: "s + 1 \<le> skip_word b es (s + 1) \<and> skip_word b es (s + 1) \<le> es \<and>
        (\<forall>i. s + 1 \<le> i \<and> i < skip_word b es (s + 1) \<longrightarrow> word_char (b ! i)) \<and>
        (skip_word b es (s + 1) < es \<longrightarrow> \<not> word_char (b ! skip_word b es (s + 1)))"
      by (rule 1(1)) (use True in \<open>simp_all add: word_char_def\<close>)
    have "word_char (b ! i)" if "s \<le> i" "i < skip_word b es (s + 1)" for i
      using IH True that by (cases "i = s") auto
    then show ?thesis unfolding u using IH by simp
  next
    case False
    then have "skip_word b es s = s" by (subst skip_word.simps) (auto simp: word_char_def)
    then show ?thesis using False 1(2) by auto
  qed
qed

lemma word_char_simps: "c \<noteq> 0 \<Longrightarrow> \<not> has whitespace c \<Longrightarrow> c \<notin> {124, 40, 41, 59, 38, 60, 62} \<Longrightarrow> word_char c"
  by (auto simp: word_char_def has_def symbols_def)

lemma gettoken_ok:
  assumes "line_ok b es" and "s \<le> es" and "gettoken b es s = (t, q, eq, s')"
  shows "s \<le> q \<and> q \<le> eq \<and> eq \<le> s' \<and> s' \<le> es \<and> (q < es \<longrightarrow> q < eq \<and> t \<noteq> 0) \<and>
    (t = 97 \<longrightarrow> word_ok b es (q, eq))"
proof -
  have q: "q = skip_ws b es s" and s': "s' = skip_ws b es eq" using assms(3) by (auto simp: gettoken_def Let_def split: if_splits prod.splits)
  have qb: "s \<le> q" "q \<le> es" "q < es \<Longrightarrow> \<not> has whitespace (b ! q)" using skip_ws_bounds [OF assms(2)] q by auto
  have z: "b ! q = 0 \<longleftrightarrow> q = es" using assms(1) qb(2) by (auto simp: line_ok_def le_less)
  have te: "(t, eq) =
            (if b ! q = 0 then (b ! q, q)
             else if b ! q = 124 \<or> b ! q = 40 \<or> b ! q = 41 \<or> b ! q = 59 \<or> b ! q = 38 \<or> b ! q = 60 then (b ! q, q + 1)
             else if b ! q = 62 then (if b ! (q + 1) = 62 then (43, q + 2) else (b ! q, q + 1))
             else (97, skip_word b es q))"
    using assms(3) unfolding q by (auto simp: gettoken_def Let_def split: if_splits prod.splits)
  have eq: "q \<le> eq \<and> eq \<le> es \<and> (q < es \<longrightarrow> q < eq \<and> t \<noteq> 0) \<and> (t = 97 \<longrightarrow> word_ok b es (q, eq))"
  proof (cases "b ! q \<in> {0, 124, 40, 41, 59, 38, 60, 62}")
    case True
    have "b ! (q + 1) = 62 \<Longrightarrow> q < es \<Longrightarrow> q + 2 \<le> es"
      using assms(1) by (cases "q + 1 = es") (auto simp: line_ok_def)
    then show ?thesis using True te qb(2) z by (auto split: if_splits)
  next
    case False
    then have l: "q < es" using z qb(2) by auto
    have w: "word_char (b ! q)" using False qb(3) [OF l] by (intro word_char_simps) auto
    have t: "t = 97" "eq = skip_word b es q" using te False by (auto split: if_splits)
    note b = skip_word_bounds [OF qb(2), of b]
    have "\<not> word_char (b ! eq)" using b t(2) assms(1) by (cases "eq = es") (auto simp: line_ok_def word_char_def has_def)
    moreover from this w have "q \<noteq> eq" by auto
    ultimately show ?thesis using b t by (auto simp: word_ok_def)
  qed
  then show ?thesis using qb skip_ws_bounds [of eq es b] s' by auto
qed

lemma peek_ok:
  assumes "line_ok b es" and "s \<le> es" and "peek b es toks s = (y, s')"
  shows "s \<le> s' \<and> s' \<le> es \<and> (y \<longrightarrow> s' < es)"
proof -
  have "s' = skip_ws b es s" "y \<longrightarrow> b ! s' \<noteq> 0" using assms(3) by (auto simp: peek_def Let_def)
  then show ?thesis using skip_ws_bounds [OF assms(2), of b] assms(1)
    by (auto simp: line_ok_def) (metis le_neq_implies_less)
qed

lemma skip_ws_id: "s < es \<longrightarrow> \<not> has whitespace (b ! s) \<Longrightarrow> skip_ws b es s = s"
  by (subst skip_ws.simps) auto

lemma peek_then_token:
  assumes "line_ok b es" and "s \<le> es" and "peek b es toks s = (True, s1)" and "gettoken b es s1 = (t, q, eq, s2)"
  shows "s < s2 \<and> s2 \<le> es"
proof -
  note p = peek_ok [OF assms(1-3)]
  have "s1 = skip_ws b es s" using assms(3) by (simp add: peek_def Let_def)
  then have "skip_ws b es s1 = s1" using skip_ws_bounds [OF assms(2), of b] by (intro skip_ws_id) auto
  then have "q = s1" using assms(4) by (auto simp: gettoken_def Let_def split: if_splits prod.splits)
  then show ?thesis using gettoken_ok [OF assms(1) _ assms(4)] p by auto
qed

subsection \<open>Every line is parsed or refused\<close>

definition words_ok :: "bytes \<Rightarrow> nat \<Rightarrow> (nat \<times> nat) cmd \<Rightarrow> bool" where
  "words_ok b es c \<longleftrightarrow> (\<forall>w \<in> set_cmd c. word_ok b es w)"

definition res_ok :: "bytes \<Rightarrow> nat \<Rightarrow> nat \<Rightarrow> perr + (nat \<times> nat) cmd \<times> nat \<Rightarrow> bool" where
  "res_ok b es s r \<longleftrightarrow> (case r of Inl e \<Rightarrow> e \<noteq> OutOfFuel
     | Inr (c, s') \<Rightarrow> s \<le> s' \<and> s' \<le> es \<and> words_ok b es c)"

lemma res_ok_mono: "res_ok b es s' r \<Longrightarrow> s \<le> s' \<Longrightarrow> res_ok b es s r"
  by (auto simp: res_ok_def split: sum.splits)

lemma res_ok_Panic [simp]: "res_ok b es s (Inl (Panic m))"
  by (simp add: res_ok_def)

lemma res_ok_Inr [simp]: "res_ok b es s (Inr (c, s')) \<longleftrightarrow> s \<le> s' \<and> s' \<le> es \<and> words_ok b es c"
  by (simp add: res_ok_def)

lemma res_ok_andThen:
  assumes "res_ok b es s m"
    and "\<And>c s'. m = Inr (c, s') \<Longrightarrow> s \<le> s' \<Longrightarrow> s' \<le> es \<Longrightarrow> words_ok b es c \<Longrightarrow> res_ok b es s (f (c, s'))"
  shows "res_ok b es s (andThen m f)"
  using assms by (cases m) (auto simp: res_ok_def split: sum.splits)

lemma words_ok_simps [simp]:
  "words_ok b es (Exec ws) \<longleftrightarrow> (\<forall>w \<in> set ws. word_ok b es w)"
  "words_ok b es (Redir c w m fd wh) \<longleftrightarrow> words_ok b es c \<and> word_ok b es w"
  "words_ok b es (Pipe l r) \<longleftrightarrow> words_ok b es l \<and> words_ok b es r"
  "words_ok b es (Seq l r) \<longleftrightarrow> words_ok b es l \<and> words_ok b es r"
  "words_ok b es (Back c) \<longleftrightarrow> words_ok b es c"
  by (auto simp: words_ok_def)

lemma words_ok_set_argv: "words_ok b es c \<Longrightarrow> \<forall>w \<in> set argv. word_ok b es w \<Longrightarrow> words_ok b es (set_argv argv c)"
  by (induction argv c rule: set_argv.induct) auto

lemma parse_redirs_ok:
  assumes l: "line_ok b es"
  shows "s \<le> es \<Longrightarrow> es - s < n \<Longrightarrow> words_ok b es c \<Longrightarrow> res_ok b es s (parse_redirs n b es c s)"
proof (induction n arbitrary: c s)
  case (Suc n)
  obtain y s1 where p: "peek b es [60, 62] s = (y, s1)" by (metis surj_pair)
  note b1 = peek_ok [OF l Suc.prems(1) p]
  obtain tok q eq s2 where t: "gettoken b es s1 = (tok, q, eq, s2)" by (metis prod_cases4)
  obtain tk q2 e2 s3 where u: "gettoken b es s2 = (tk, q2, e2, s3)" by (metis prod_cases4)
  show ?case
  proof (cases "y \<and> tk = 97")
    case True
    then have b2: "s < s2" "s2 \<le> es" using peek_then_token [OF l Suc.prems(1) _ t] p by auto
    have w: "word_ok b es (q2, e2)" "s2 \<le> s3" "s3 \<le> es" using gettoken_ok [OF l b2(2) u] True by auto
    let ?c = "if tok = 60 then Redir c (q2, e2) O_RDONLY 0 0
              else if tok = 62 then Redir c (q2, e2) (0x001 OR 0x200 OR 0x400) 1 0
              else if tok = 43 then Redir c (q2, e2) (0x001 OR 0x200) 1 2 else c"
    have "res_ok b es s3 (parse_redirs n b es ?c s3)"
      using Suc.prems b2 w by (intro Suc.IH) auto
    then show ?thesis using True p t u b2 w by (auto simp: Let_def intro: res_ok_mono)
  qed (use p t u b1 Suc.prems in \<open>auto simp: Let_def\<close>)
qed simp

lemma parse_args_ok:
  assumes l: "line_ok b es"
  shows "s \<le> es \<Longrightarrow> es - s < n \<Longrightarrow> words_ok b es c \<Longrightarrow> \<forall>w \<in> set argv. word_ok b es w \<Longrightarrow>
    res_ok b es s (parse_args n b es c argv s)"
proof (induction n arbitrary: c argv s)
  case (Suc n)
  obtain y s1 where p: "peek b es [124, 41, 38, 59] s = (y, s1)" by (metis surj_pair)
  note b1 = peek_ok [OF l Suc.prems(1) p]
  obtain tok q eq s2 where t: "gettoken b es s1 = (tok, q, eq, s2)" by (metis prod_cases4)
  have b2: "s1 \<le> s2" "s2 \<le> es" "tok = 97 \<Longrightarrow> word_ok b es (q, eq) \<and> s1 < s2"
    using gettoken_ok [OF l _ t] b1 by (auto simp: word_ok_def)
  have fin: "words_ok b es (set_argv argv c)" using Suc.prems by (intro words_ok_set_argv)
  show ?case
  proof (cases "\<not> y \<and> tok = 97 \<and> length (argv @ [(q, eq)]) < MAXARGS")
    case True
    have "res_ok b es s (andThen (parse_redirs n b es c s2) (\<lambda>(ret, s). parse_args n b es ret (argv @ [(q, eq)]) s))"
    proof (rule res_ok_andThen)
      show "res_ok b es s (parse_redirs n b es c s2)"
        using Suc.prems b1 b2 True by (intro res_ok_mono [OF parse_redirs_ok [OF l]]) auto
      fix c' s' assume "parse_redirs n b es c s2 = Inr (c', s')" "s' \<le> es" "words_ok b es c'"
      moreover from this have "s2 \<le> s'"
        using parse_redirs_ok [OF l b2(2), of n c] Suc.prems b1 b2 True by auto
      ultimately show "res_ok b es s (case (c', s') of (ret, s) \<Rightarrow> parse_args n b es ret (argv @ [(q, eq)]) s)"
        using Suc.prems b1 b2 True by (auto intro!: res_ok_mono [OF Suc.IH])
    qed
    then show ?thesis using True p t by (auto simp: Let_def)
  qed (use p t b1 b2 fin Suc.prems in \<open>auto simp: Let_def\<close>)
qed simp

lemma parse_backs_ok:
  assumes l: "line_ok b es"
  shows "s \<le> es \<Longrightarrow> es - s < n \<Longrightarrow> words_ok b es c \<Longrightarrow> res_ok b es s (parse_backs n b es c s)"
proof (induction n arbitrary: c s)
  case (Suc n)
  obtain y s1 where p: "peek b es [38] s = (y, s1)" by (metis surj_pair)
  note b1 = peek_ok [OF l Suc.prems(1) p]
  obtain tok q eq s2 where t: "gettoken b es s1 = (tok, q, eq, s2)" by (metis prod_cases4)
  show ?case
  proof (cases y)
    case True
    then have b2: "s < s2" "s2 \<le> es" using peek_then_token [OF l Suc.prems(1) _ t] p by auto
    have "res_ok b es s2 (parse_backs n b es (Back c) s2)" using Suc.prems b2 by (intro Suc.IH) auto
    then show ?thesis using True p t b2 by (auto intro: res_ok_mono)
  qed (use p b1 Suc.prems in auto)
qed simp

lemma parseexec_ok:
  assumes l: "line_ok b es" and s: "s \<le> es" and n: "es - s < n"
    and pl: "\<And>s'. s < s' \<Longrightarrow> s' \<le> es \<Longrightarrow> res_ok b es s' (pl b es s')"
  shows "res_ok b es s (parseexec n pl b es s)"
proof -
  obtain y s1 where p: "peek b es [40] s = (y, s1)" by (metis surj_pair)
  note b1 = peek_ok [OF l s p]
  show ?thesis
  proof (cases y)
    case True
    have s1: "skip_ws b es s1 = s1" "peek b es [40] s1 = (True, s1)"
      using p True skip_ws_bounds [OF s, of b] skip_ws_id [of s1 es b] by (auto simp: peek_def Let_def)
    obtain tok q eq s2 where t: "gettoken b es s1 = (tok, q, eq, s2)" by (metis prod_cases4)
    have b2: "s < s2" "s2 \<le> es" using peek_then_token [OF l s _ t] p True by auto
    have "res_ok b es s (andThen (pl b es s2) (\<lambda>(c, s).
          let (y, s) = peek b es [41] s in
          if \<not> y then Inl (Panic ''syntax - missing )'')
          else let (_, _, _, s) = gettoken b es s in parse_redirs n b es c s))"
    proof (rule res_ok_andThen)
      show "res_ok b es s (pl b es s2)" using pl [OF b2] b2(1) by (auto intro: res_ok_mono)
      fix c s' assume h: "pl b es s2 = Inr (c, s')" "s' \<le> es" "words_ok b es c"
      then have "s2 \<le> s'" using pl [OF b2] by simp
      obtain y3 s3 where p3: "peek b es [41] s' = (y3, s3)" by (metis surj_pair)
      obtain tok4 q4 eq4 s4 where t4: "gettoken b es s3 = (tok4, q4, eq4, s4)" by (metis prod_cases4)
      have "y3 \<Longrightarrow> s' < s4 \<and> s4 \<le> es" using peek_then_token [OF l h(2) _ t4] p3 by auto
      then show "res_ok b es s (case (c, s') of (c, s) \<Rightarrow>
          let (y, s) = peek b es [41] s in
          if \<not> y then Inl (Panic ''syntax - missing )'')
          else let (_, _, _, s) = gettoken b es s in parse_redirs n b es c s)"
        using p3 t4 h(3) n b2 \<open>s2 \<le> s'\<close> by (auto intro!: res_ok_mono [OF parse_redirs_ok [OF l]])
    qed
    then show ?thesis using True p s1 t by (simp add: parseexec_def parseblock_def)
  next
    case False
    have "res_ok b es s (andThen (parse_redirs n b es (Exec []) s1) (\<lambda>(ret, s). parse_args n b es ret [] s))"
    proof (rule res_ok_andThen)
      show "res_ok b es s (parse_redirs n b es (Exec []) s1)"
        using b1 n by (intro res_ok_mono [OF parse_redirs_ok [OF l]]) auto
      fix c s' assume "s \<le> s'" "s' \<le> es" "words_ok b es c"
      then show "res_ok b es s (case (c, s') of (ret, s) \<Rightarrow> parse_args n b es ret [] s)"
        using n by (auto intro!: res_ok_mono [OF parse_args_ok [OF l]])
    qed
    then show ?thesis using False p by (simp add: parseexec_def)
  qed
qed

lemma parsepipe_ok:
  assumes l: "line_ok b es"
  shows "s \<le> es \<Longrightarrow> es - s + 1 < n \<Longrightarrow> (\<And>s'. s < s' \<Longrightarrow> s' \<le> es \<Longrightarrow> res_ok b es s' (pl b es s')) \<Longrightarrow>
    res_ok b es s (parsepipe n pl b es s)"
proof (induction n arbitrary: s)
  case (Suc n)
  have "res_ok b es s (andThen (parseexec n pl b es s) (\<lambda>(c, s).
       let (y, s) = peek b es [124] s in
       if y then
         let (_, _, _, s) = gettoken b es s in
         andThen (parsepipe n pl b es s) (\<lambda>(r, s). Inr (pipecmd c r, s))
       else Inr (c, s)))"
  proof (rule res_ok_andThen)
    show "res_ok b es s (parseexec n pl b es s)" using Suc.prems by (intro parseexec_ok [OF l]) auto
    fix c s' assume h: "s \<le> s'" "s' \<le> es" "words_ok b es c"
    obtain y s1 where p: "peek b es [124] s' = (y, s1)" by (metis surj_pair)
    note b1 = peek_ok [OF l h(2) p]
    obtain tok q eq s2 where t: "gettoken b es s1 = (tok, q, eq, s2)" by (metis prod_cases4)
    have b2: "y \<Longrightarrow> s' < s2 \<and> s2 \<le> es" using peek_then_token [OF l h(2) _ t] p by auto
    have "res_ok b es s (andThen (parsepipe n pl b es s2) (\<lambda>(r, s). Inr (pipecmd c r, s)))" if y
    proof (rule res_ok_andThen)
      show "res_ok b es s (parsepipe n pl b es s2)"
        using Suc.prems h b2 [OF that] by (auto intro!: res_ok_mono [OF Suc.IH])
    qed (use h in auto)
    then show "res_ok b es s (case (c, s') of (c, s) \<Rightarrow> let (y, s) = peek b es [124] s in
       if y then
         let (_, _, _, s) = gettoken b es s in
         andThen (parsepipe n pl b es s) (\<lambda>(r, s). Inr (pipecmd c r, s))
       else Inr (c, s))"
      using p t b1 h by auto
  qed
  then show ?case by simp
qed simp

lemma parseline_ok:
  assumes l: "line_ok b es"
  shows "s \<le> es \<Longrightarrow> es - s + 2 < n \<Longrightarrow> res_ok b es s (parseline n b es s)"
proof (induction n arbitrary: s)
  case (Suc n)
  have "res_ok b es s (andThen (parsepipe n (parseline n) b es s) (\<lambda>(c, s).
     andThen (parse_backs n b es c s) (\<lambda>(c, s).
       let (y, s) = peek b es [59] s in
       if y then
         let (_, _, _, s) = gettoken b es s in
         andThen (parseline n b es s) (\<lambda>(r, s). Inr (listcmd c r, s))
       else Inr (c, s))))"
  proof (rule res_ok_andThen)
    show "res_ok b es s (parsepipe n (parseline n) b es s)"
      using Suc.prems by (intro parsepipe_ok [OF l] Suc.IH) auto
    fix c s' assume h: "s \<le> s'" "s' \<le> es" "words_ok b es c"
    have "res_ok b es s (andThen (parse_backs n b es c s') (\<lambda>(c, s).
       let (y, s) = peek b es [59] s in
       if y then
         let (_, _, _, s) = gettoken b es s in
         andThen (parseline n b es s) (\<lambda>(r, s). Inr (listcmd c r, s))
       else Inr (c, s)))"
    proof (rule res_ok_andThen)
      show "res_ok b es s (parse_backs n b es c s')"
        using Suc.prems h by (intro res_ok_mono [OF parse_backs_ok [OF l]]) auto
      fix c s' assume h: "s \<le> s'" "s' \<le> es" "words_ok b es c"
      obtain y s1 where p: "peek b es [59] s' = (y, s1)" by (metis surj_pair)
      note b1 = peek_ok [OF l h(2) p]
      obtain tok q eq s2 where t: "gettoken b es s1 = (tok, q, eq, s2)" by (metis prod_cases4)
      have b2: "y \<Longrightarrow> s' < s2 \<and> s2 \<le> es" using peek_then_token [OF l h(2) _ t] p by auto
      have "res_ok b es s (andThen (parseline n b es s2) (\<lambda>(r, s). Inr (listcmd c r, s)))" if y
      proof (rule res_ok_andThen)
        show "res_ok b es s (parseline n b es s2)"
          using Suc.prems h b2 [OF that] by (auto intro!: res_ok_mono [OF Suc.IH])
      qed (use h in auto)
      then show "res_ok b es s (case (c, s') of (c, s) \<Rightarrow> let (y, s) = peek b es [59] s in
         if y then
           let (_, _, _, s) = gettoken b es s in
           andThen (parseline n b es s) (\<lambda>(r, s). Inr (listcmd c r, s))
         else Inr (c, s))"
        using p t b1 h by auto
    qed
    then show "res_ok b es s (case (c, s') of (c, s) \<Rightarrow> andThen (parse_backs n b es c s) (\<lambda>(c, s).
       let (y, s) = peek b es [59] s in
       if y then
         let (_, _, _, s) = gettoken b es s in
         andThen (parseline n b es s) (\<lambda>(r, s). Inr (listcmd c r, s))
       else Inr (c, s)))" by simp
  qed
  then show ?case by simp
qed simp

lemma nulterminate_nth:
  "length (nulterminate c b) = length b \<and>
   (\<forall>i < length b. nulterminate c b ! i = (if \<exists>w \<in> set_cmd c. snd w = i then 0 else b ! i))"
proof (induction c b rule: nulterminate.induct)
  case (1 argv b)
  show ?case
  proof (induction argv arbitrary: b)
    case (Cons w argv)
    note IH = Cons.IH [of "b[snd w := 0]"]
    have "nulterminate (Exec (w # argv)) b = nulterminate (Exec argv) (b[snd w := 0])"
      by (simp add: case_prod_beta)
    then show ?case using IH by (auto simp: nth_list_update)
  qed simp
next
  case (2 c f m fd wh b)
  then show ?case by (cases "snd f < length b") (auto simp: nth_list_update)
qed auto

text \<open>A word of the parsed line is a C string of the terminated line.\<close>

lemma word_terminated:
  assumes l: "line_ok b es" and c: "words_ok b es c" and w: "(q, eq) \<in> set_cmd c"
  shows "q < eq \<and> eq \<le> es \<and> cstr (drop q (nulterminate c b)) (map ((!) b) [q..<eq])"
proof -
  let ?b = "nulterminate c b"
  note n = nulterminate_nth [of c b]
  have wk: "word_ok b es (q, eq)" using c w by (auto simp: words_ok_def)
  then have q: "q < eq" "eq \<le> es" "\<And>i. q \<le> i \<Longrightarrow> i < eq \<Longrightarrow> word_char (b ! i)" by (auto simp: word_ok_def)
  have len: "es < length b" using l by (simp add: line_ok_def)
  have "?b ! i = b ! i" if "q \<le> i" "i < eq" for i
  proof -
    have "word_char (b ! i)" using q that by blast
    then have "\<not> (\<exists>w \<in> set_cmd c. snd w = i)" using c by (auto simp: words_ok_def word_ok_def)
    then show ?thesis using n that q(2) len by auto
  qed
  then have "map ((!) ?b) [q..<eq] = map ((!) b) [q..<eq]" by simp
  moreover have "?b ! eq = 0" using n w q(2) len by force
  moreover have "drop q ?b = map ((!) ?b) [q..<eq] @ ?b ! eq # drop (Suc eq) ?b"
  proof (rule nth_equalityI)
    show "length (drop q ?b) = length (map ((!) ?b) [q..<eq] @ ?b ! eq # drop (Suc eq) ?b)"
      using n q(1,2) len by simp
    fix i assume "i < length (drop q ?b)"
    then show "drop q ?b ! i = (map ((!) ?b) [q..<eq] @ ?b ! eq # drop (Suc eq) ?b) ! i"
      using n q(1,2) len by (auto simp: nth_append nth_Cons' less_diff_conv add.commute [of q])
  qed
  moreover have "0 \<notin> set (map ((!) b) [q..<eq])" using q(3) by (force simp: word_char_def has_def)
  ultimately show ?thesis using q by (auto simp: cstr_def)
qed

lemma parsecmd_ok:
  assumes "line_ok b es"
  shows "case parsecmd b es of
      Inl e \<Rightarrow> e \<noteq> OutOfFuel
    | Inr (c, b') \<Rightarrow> words_ok b es c \<and> b' = nulterminate c b"
proof -
  have "res_ok b es 0 (parseline (es + 3) b es 0)" using assms by (intro parseline_ok) auto
  then show ?thesis by (auto simp: parsecmd_def res_ok_def Let_def split: sum.splits prod.splits)
qed

text \<open>
  C27: the parser ends on every line: it is either refused with an error or parsed, without running out of the
  bound on the depth of the parser, and after \<open>nulterminate\<close> each word of the command, whatever its
  neighbours are, is the C string of its characters, in place.
\<close>

theorem parsecmd_terminates_words:
  assumes "line_ok b es"
  shows "case parsecmd b es of
      Inl e \<Rightarrow> e \<noteq> OutOfFuel
    | Inr (c, b') \<Rightarrow> length b' = length b \<and>
        (\<forall>(q, eq) \<in> set_cmd c. q < eq \<and> eq \<le> es \<and> cstr (drop q b') (map ((!) b) [q..<eq]))"
  using parsecmd_ok [OF assms] word_terminated [OF assms] nulterminate_nth
  by (auto split: sum.splits prod.splits)

text \<open>The line \<open>ls|wc\<close>.\<close>

lemma parsecmd_terminates_words_witness:
  "case parsecmd [108, 115, 124, 119, 99, 0] 5 of
      Inl e \<Rightarrow> e \<noteq> OutOfFuel
    | Inr (c, b') \<Rightarrow> length b' = length ([108, 115, 124, 119, 99, 0] :: bytes) \<and>
        (\<forall>(q, eq) \<in> set_cmd c. q < eq \<and> eq \<le> 5 \<and> cstr (drop q b') (map ((!) [108, 115, 124, 119, 99, 0]) [q..<eq]))"
proof (rule parsecmd_terminates_words)
  have "i \<in> {0, 1, 2, 3, 4}" if "i < 5" for i :: nat using that by auto
  then show "line_ok [108, 115, 124, 119, 99, 0] 5" by (fastforce simp: line_ok_def)
qed

end
