(* ===== verification/ShellProps.thy ===== *)
theory ShellProps
  imports Shell
begin

text \<open>
  The parser of the shell against the grammar of its commands: a printer of commands, with brackets only
  where the levels of the grammar need them, and the round trip \<open>parsecmd_show_cmd\<close>.
\<close>

subsection \<open>Printing a command\<close>

definition redir_op :: "u32 \<Rightarrow> u32 \<Rightarrow> bytes" where
  "redir_op fd wh = (if fd = 0 then [60] else if wh = 0 then [62] else [62, 62])"

definition bracket :: "bool \<Rightarrow> bytes \<Rightarrow> bytes" where
  "bracket p xs = (if p then [40] @ xs @ [41] else xs)"

text \<open>The levels: 0 is \<open>parseline\<close>, 1 its pipe with \<open>&\<close>, 2 \<open>parsepipe\<close>, 3 \<open>parseexec\<close>.\<close>

fun show_cmd :: "nat \<Rightarrow> bytes cmd \<Rightarrow> bytes" where
  "show_cmd p (Exec ws) = concat (map (\<lambda>w. w @ [32]) ws)"
| "show_cmd p (Redir c f m fd wh) = show_cmd 3 c @ redir_op fd wh @ f @ [32]"
| "show_cmd p (Pipe l r) = bracket (2 < p) (show_cmd 3 l @ [124] @ show_cmd 2 r)"
| "show_cmd p (Back c) = bracket (1 < p) (show_cmd 1 c @ [38])"
| "show_cmd p (Seq l r) = bracket (0 < p) (show_cmd 1 l @ [59] @ show_cmd 0 r)"

definition is_word :: "bytes \<Rightarrow> bool" where
  "is_word w \<longleftrightarrow> w \<noteq> [] \<and> list_all word_char w"

text \<open>Words are words, an \<open>Exec\<close> has fewer than \<open>MAXARGS\<close> of them, and the modes of a redirection are
  those of the three operators.\<close>

fun wf_cmd :: "bytes cmd \<Rightarrow> bool" where
  "wf_cmd (Exec ws) \<longleftrightarrow> list_all is_word ws \<and> length ws < MAXARGS"
| "wf_cmd (Redir c f m fd wh) \<longleftrightarrow> wf_cmd c \<and> is_word f \<and>
     (m, fd, wh) \<in> {(O_RDONLY, 0, 0), (0x001 OR 0x200 OR 0x400, 1, 0), (0x001 OR 0x200, 1, 2)}"
| "wf_cmd (Pipe l r) \<longleftrightarrow> wf_cmd l \<and> wf_cmd r"
| "wf_cmd (Back c) \<longleftrightarrow> wf_cmd c"
| "wf_cmd (Seq l r) \<longleftrightarrow> wf_cmd l \<and> wf_cmd r"

subsection \<open>Reading at a position\<close>

abbreviation blank :: "u8 \<Rightarrow> bool" where "blank \<equiv> has whitespace"

text \<open>What is left of the line at \<open>s\<close>, up to blanks, is \<open>xs\<close>.\<close>

definition at :: "bytes \<Rightarrow> nat \<Rightarrow> nat \<Rightarrow> bytes \<Rightarrow> bool" where
  "at b es s xs \<longleftrightarrow> s \<le> es \<and> dropWhile blank (drop s (take es b)) = dropWhile blank xs"

lemma drop_skip_ws:
  "line_ok b es \<Longrightarrow> s \<le> es \<Longrightarrow> drop (skip_ws b es s) (take es b) = dropWhile blank (drop s (take es b))"
proof (induction b es s rule: skip_ws.induct)
  case (1 b es s)
  show ?case
  proof (cases "s < es")
    case True
    then have "drop s (take es b) = b ! s # drop (s + 1) (take es b)"
      using 1(2) by (simp add: Cons_nth_drop_Suc [symmetric] line_ok_def)
    then show ?thesis using 1 True by (subst skip_ws.simps) auto
  next
    case False
    then show ?thesis using 1(3) by (subst skip_ws.simps) auto
  qed
qed

lemma at_le: "at b es s xs \<Longrightarrow> s \<le> es"
  by (simp add: at_def)

lemma at_blanks: "list_all blank ys \<Longrightarrow> at b es s (ys @ xs) \<longleftrightarrow> at b es s xs"
  by (simp add: at_def dropWhile_append list_all_iff dropWhile_eq_Nil_conv [THEN iffD2])

lemma dropWhile_idem_blank: "dropWhile blank (dropWhile blank xs) = dropWhile blank xs"
  by (simp add: dropWhile_idem)

text \<open>After the blanks, the line is exactly \<open>xs\<close>.\<close>

lemma at_skip:
  assumes l: "line_ok b es" and a: "at b es s xs" and xs: "xs = [] \<or> \<not> blank (hd xs)"
  shows "drop (skip_ws b es s) (take es b) = xs" "s \<le> skip_ws b es s" "skip_ws b es s + length xs = es"
proof -
  have w: "dropWhile blank xs = xs" using xs by (cases xs) auto
  show d: "drop (skip_ws b es s) (take es b) = xs" using a w drop_skip_ws [OF l] by (simp add: at_def)
  show "s \<le> skip_ws b es s" using skip_ws_bounds at_le [OF a] by auto
  have "skip_ws b es s \<le> es" using skip_ws_bounds at_le [OF a] by auto
  then show "skip_ws b es s + length xs = es" using arg_cong [OF d, of length] l by (simp add: line_ok_def)
qed

lemma at_drop: "line_ok b es \<Longrightarrow> drop s (take es b) = xs \<Longrightarrow> s \<le> es \<Longrightarrow> at b es (skip_ws b es s) xs"
  using skip_ws_bounds [of s es b] by (simp add: at_def drop_skip_ws dropWhile_idem_blank)

lemma nth_of_drop: "drop q (take es b) = c # xs \<Longrightarrow> b ! q = c"
  by (metis drop_eq_Nil list.discI list.sel(1) hd_drop_conv_nth length_take min.strict_boundedE
      not_le nth_take)

lemma peek_at:
  assumes l: "line_ok b es" and a: "at b es s xs"
  obtains s1 where "peek b es toks s = ((case dropWhile blank xs of [] \<Rightarrow> False | c # _ \<Rightarrow> c \<in> set toks), s1)"
    and "at b es s1 xs" and "s \<le> s1"
proof
  have a': "at b es s (dropWhile blank xs)" using a by (simp add: at_def dropWhile_idem_blank)
  have h: "dropWhile blank xs = [] \<or> \<not> blank (hd (dropWhile blank xs))" by (metis hd_dropWhile)
  note k = at_skip [OF l a' h]
  show "s \<le> skip_ws b es s" by (fact k(2))
  show "at b es (skip_ws b es s) xs" using k(1) k(3) by (auto simp: at_def dropWhile_idem_blank)
  show "peek b es toks s = ((case dropWhile blank xs of [] \<Rightarrow> False | c # _ \<Rightarrow> c \<in> set toks), skip_ws b es s)"
  proof (cases "dropWhile blank xs")
    case Nil
    have "skip_ws b es s = es" using k(3) unfolding Nil by simp
    then show ?thesis unfolding Nil using l by (simp add: peek_def Let_def line_ok_def)
  next
    case (Cons c ys)
    then have "b ! skip_ws b es s = c" using k(1) nth_of_drop by metis
    moreover have "skip_ws b es s < es" using k(3) Cons by simp
    ultimately show ?thesis using Cons l by (auto simp: peek_def Let_def line_ok_def has_def)
  qed
qed

text \<open>The tokens.\<close>

lemma drop_step: "line_ok b es \<Longrightarrow> drop q (take es b) = ys @ xs \<Longrightarrow> q \<le> es \<Longrightarrow>
    drop (q + length ys) (take es b) = xs \<and> q + length ys \<le> es"
proof
  assume l: "line_ok b es" and d: "drop q (take es b) = ys @ xs" and q: "q \<le> es"
  have "drop (length ys) (drop q (take es b)) = xs" unfolding d by simp
  then show "drop (q + length ys) (take es b) = xs" by (simp add: add.commute)
  show "q + length ys \<le> es" using arg_cong [OF d, of length] q l by (simp add: line_ok_def)
qed

lemma token_symbol:
  assumes l: "line_ok b es" and a: "at b es s (c # xs)"
    and c: "c \<in> {124, 40, 41, 59, 38, 60} \<or> c = 62 \<and> (case xs of [] \<Rightarrow> True | d # _ \<Rightarrow> d \<noteq> 62)"
  obtains q e s2 where "gettoken b es s = (c, q, e, s2)" and "at b es s2 xs" and "s < s2"
proof
  let ?q = "skip_ws b es s"
  have nb: "\<not> blank c" using c by (auto simp: has_def whitespace_def)
  note k = at_skip [OF l a]
  have d: "drop ?q (take es b) = [c] @ xs" and q: "?q \<le> es" "s \<le> ?q" using k nb by auto
  note d1 = drop_step [OF l d q(1)]
  have bq: "b ! ?q = c" using nth_of_drop d by fastforce
  have b1: "b ! (?q + 1) \<noteq> 62" if "c = 62"
  proof (cases xs)
    case Nil
    then have "?q + 1 = es" using k(3) nb by simp
    then show ?thesis using l by (simp add: line_ok_def)
  next
    case (Cons d ys)
    then show ?thesis using nth_of_drop d1 c that by fastforce
  qed
  show "gettoken b es s = (c, ?q, ?q + 1, skip_ws b es (?q + 1))"
    using c b1 by (auto simp: gettoken_def Let_def bq)
  show "at b es (skip_ws b es (?q + 1)) xs" using d1 by (intro at_drop [OF l]) auto
  show "s < skip_ws b es (?q + 1)" using skip_ws_bounds [of "?q + 1" es b] d1 q by auto
qed

lemma token_append:
  assumes l: "line_ok b es" and a: "at b es s (62 # 62 # xs)"
  obtains q e s2 where "gettoken b es s = (43, q, e, s2)" and "at b es s2 xs" and "s < s2"
proof
  let ?q = "skip_ws b es s"
  note k = at_skip [OF l a]
  have nb: "\<not> blank 62" by (auto simp: has_def whitespace_def)
  have d: "drop ?q (take es b) = [62, 62] @ xs" and q: "?q \<le> es" "s \<le> ?q" using k nb by auto
  note d1 = drop_step [OF l d q(1)]
  have bq: "b ! ?q = 62" using nth_of_drop d by fastforce
  have bq1: "b ! (?q + 1) = 62"
    using drop_step [OF l _ q(1), of "[62]"] d nth_of_drop [of "?q + 1" es b] by auto
  show "gettoken b es s = (43, ?q, ?q + 2, skip_ws b es (?q + 2))"
    using bq bq1 by (simp add: gettoken_def Let_def)
  show "at b es (skip_ws b es (?q + 2)) xs" using d1 by (intro at_drop [OF l]) auto
  show "s < skip_ws b es (?q + 2)" using skip_ws_bounds [of "?q + 2" es b] d1 q by auto
qed

lemma token_end:
  assumes l: "line_ok b es" and a: "at b es s []"
  obtains q e s2 where "gettoken b es s = (0, q, e, s2)" and "at b es s2 []" and "s \<le> s2"
proof
  have "skip_ws b es s = es" using at_skip [OF l a] by simp
  then show "gettoken b es s = (0, es, es, es)"
    using l by (simp add: gettoken_def Let_def line_ok_def skip_ws_id)
  show "at b es es []" by (simp add: at_def)
  show "s \<le> es" by (rule at_le [OF a])
qed

lemma skip_word_at:
  assumes l: "line_ok b es"
  shows "drop q (take es b) = w @ xs \<Longrightarrow> q \<le> es \<Longrightarrow> list_all word_char w \<Longrightarrow>
    xs = [] \<or> \<not> word_char (hd xs) \<Longrightarrow> skip_word b es q = q + length w"
proof (induction w arbitrary: q)
  case Nil
  show ?case
  proof (cases xs)
    case Nil
    then have "q = es" using Nil.prems(1,2) l by (simp add: line_ok_def)
    then show ?thesis by (subst skip_word.simps) simp
  next
    case (Cons c ys)
    then have "b ! q = c" using Nil.prems(1) nth_of_drop by fastforce
    then show ?thesis using Cons Nil.prems(4) by (subst skip_word.simps) (auto simp: word_char_def)
  qed
next
  case (Cons c w)
  have bq: "b ! q = c" using Cons.prems(1) nth_of_drop by fastforce
  have d: "drop (q + 1) (take es b) = w @ xs" "q + 1 \<le> es"
    using drop_step [OF l, of q "[c]"] Cons.prems by auto
  have "skip_word b es (q + 1) = q + 1 + length w" using d Cons.prems by (intro Cons.IH) auto
  then show ?case using bq Cons.prems(3) d by (subst skip_word.simps) (auto simp: word_char_def)
qed

lemma map_nth_drop:
  "line_ok b es \<Longrightarrow> drop q (take es b) = w @ xs \<Longrightarrow> q \<le> es \<Longrightarrow> map ((!) b) [q..<q + length w] = w"
proof (rule nth_equalityI)
  assume l: "line_ok b es" and d: "drop q (take es b) = w @ xs" and q: "q \<le> es"
  fix i assume "i < length (map ((!) b) [q..<q + length w])"
  then have i: "i < length w" by simp
  have "q + length w \<le> es" using drop_step [OF l d q] by simp
  then have "drop q (take es b) ! i = b ! (q + i)" using i l by (simp add: line_ok_def)
  then show "map ((!) b) [q..<q + length w] ! i = w ! i" using i unfolding d by (simp add: nth_append)
qed simp

lemma token_word:
  assumes l: "line_ok b es" and a: "at b es s (w @ xs)" and w: "is_word w"
    and xs: "xs = [] \<or> \<not> word_char (hd xs)"
  obtains q e s2 where "gettoken b es s = (97, q, e, s2)" and "at b es s2 xs" and "s < s2"
    and "map ((!) b) [q..<e] = w"
proof
  let ?q = "skip_ws b es s"
  obtain c w' where cw: "w = c # w'" "word_char c" using w by (cases w) (auto simp: is_word_def)
  note k = at_skip [OF l a]
  have nb: "\<not> blank c" using cw by (simp add: word_char_def)
  have d: "drop ?q (take es b) = w @ xs" and q: "?q \<le> es" "s \<le> ?q" using k nb cw by auto
  note d1 = drop_step [OF l d q(1)]
  have bq: "b ! ?q = c" using nth_of_drop d cw by fastforce
  have sw: "skip_word b es ?q = ?q + length w"
    using w by (intro skip_word_at [OF l d q(1) _ xs]) (simp add: is_word_def)
  have "c \<notin> {0, 124, 40, 41, 59, 38, 60, 62}" using cw(2) by (auto simp: word_char_def has_def symbols_def)
  then show "gettoken b es s = (97, ?q, ?q + length w, skip_ws b es (?q + length w))"
    using bq sw by (auto simp: gettoken_def Let_def)
  show "at b es (skip_ws b es (?q + length w)) xs" using d1 by (intro at_drop [OF l]) auto
  show "s < skip_ws b es (?q + length w)" using skip_ws_bounds [of "?q + length w" es b] d1 q cw by auto
  show "map ((!) b) [?q..<?q + length w] = w" by (rule map_nth_drop [OF l d q(1)])
qed

text \<open>What may follow.\<close>

definition starts :: "bytes \<Rightarrow> bytes \<Rightarrow> bool" where
  "starts xs cs \<longleftrightarrow> (case dropWhile blank xs of [] \<Rightarrow> True | c # _ \<Rightarrow> c \<in> set cs)"

lemma starts_Nil [simp]: "starts [] cs"
  by (simp add: starts_def)

lemma starts_Cons: "\<not> blank c \<Longrightarrow> starts (c # xs) cs \<longleftrightarrow> c \<in> set cs"
  by (simp add: starts_def)

lemma starts_mono: "starts xs cs \<Longrightarrow> set cs \<subseteq> set ds \<Longrightarrow> starts xs ds"
  by (auto simp: starts_def simp del: dropWhile_eq_Nil_conv split: list.splits)

lemma symbol_not_blank [simp]:
  "\<not> blank 40" "\<not> blank 41" "\<not> blank 124" "\<not> blank 38" "\<not> blank 59" "\<not> blank 60" "\<not> blank 62"
  by (simp_all add: has_def whitespace_def)

lemma blank_space [simp]: "blank 32"
  by (simp add: has_def whitespace_def)

lemma peek_no:
  assumes "line_ok b es" and "at b es s xs" and "starts xs cs" and "set cs \<inter> set toks = {}"
  obtains s1 where "peek b es toks s = (False, s1)" and "at b es s1 xs" and "s \<le> s1"
proof -
  obtain s1 where p: "peek b es toks s = ((case dropWhile blank xs of [] \<Rightarrow> False | c # _ \<Rightarrow> c \<in> set toks), s1)"
    "at b es s1 xs" "s \<le> s1" by (rule peek_at [OF assms(1,2)])
  have "\<not> (case dropWhile blank xs of [] \<Rightarrow> False | c # _ \<Rightarrow> c \<in> set toks)"
    using assms(3,4) by (auto simp: starts_def simp del: dropWhile_eq_Nil_conv split: list.splits)
  with p show thesis by (auto intro: that)
qed

lemma peek_yes:
  assumes "line_ok b es" and "at b es s (c # xs)" and "\<not> blank c" and "c \<in> set toks"
  obtains s1 where "peek b es toks s = (True, s1)" and "at b es s1 (c # xs)" and "s \<le> s1"
  by (rule peek_at [OF assms(1,2), of toks]) (use assms(3,4) in \<open>auto intro: that\<close>)

lemma is_word_hd: "is_word w \<Longrightarrow> w \<noteq> [] \<and> word_char (hd w)"
  by (cases w) (auto simp: is_word_def)

lemma word_char_not_symbol: "word_char c \<Longrightarrow> \<not> blank c \<and> c \<notin> {40, 41, 124, 38, 59, 60, 62}"
  by (auto simp: word_char_def has_def symbols_def)

subsection \<open>Parsing what was printed\<close>

definition reads :: "bytes \<Rightarrow> (nat \<times> nat) cmd \<Rightarrow> bytes cmd \<Rightarrow> bool" where
  "reads b = rel_cmd (\<lambda>(q, e) w. map ((!) b) [q..<e] = w)"

lemma andThen_Inr [simp]: "andThen m Inr = m"
  by (cases m) auto

lemma parse_redirs_none:
  assumes "line_ok b es" and "at b es s xs" and "starts xs cs" and "set cs \<inter> {60, 62} = {}"
  obtains s1 where "parse_redirs (Suc n) b es c s = Inr (c, s1)" and "at b es s1 xs" and "s \<le> s1"
proof -
  obtain s1 where "peek b es [60, 62] s = (False, s1)" "at b es s1 xs" "s \<le> s1"
    by (rule peek_no [OF assms(1,2,3)]) (use assms(4) in auto)
  then show thesis by (auto intro: that)
qed

text \<open>One redirection.\<close>

lemma parse_redirs_one:
  assumes l: "line_ok b es" and a: "at b es s (redir_op fd wh @ f @ 32 # xs)" and f: "is_word f"
    and m: "(m, fd, wh) \<in> {(O_RDONLY, 0, 0), (0x001 OR 0x200 OR 0x400, 1, 0), (0x001 OR 0x200, 1, 2)}"
  obtains q e s1 where "parse_redirs (Suc n) b es c s = parse_redirs n b es (Redir c (q, e) m fd wh) s1"
    and "at b es s1 xs" and "s < s1" and "map ((!) b) [q..<e] = f"
proof -
  let ?op = "redir_op fd wh"
  have "\<exists>o1 o2. ?op = o1 # o2 \<and> o1 \<in> {60, 62} \<and> (o2 = [] \<or> o1 = 62 \<and> o2 = [62])"
    by (simp add: redir_op_def)
  then obtain o1 o2 where o: "?op = o1 # o2" "o1 \<in> {60, 62}" "o2 = [] \<or> o1 = 62 \<and> o2 = [62]" by blast
  have nb: "\<not> blank o1" using o(2) by auto
  obtain s1 where p: "peek b es [60, 62] s = (True, s1)" "at b es s1 (?op @ f @ 32 # xs)" "s \<le> s1"
    using peek_yes [OF l, of s o1 "o2 @ f @ 32 # xs" "[60, 62]"] a o nb by auto
  have hd_f: "\<exists>d ds. f @ 32 # xs = d # ds \<and> d \<noteq> 62" using is_word_hd [OF f] word_char_not_symbol
    by (cases f) fastforce+
  obtain tok q0 e0 s2 where t: "gettoken b es s1 = (tok, q0, e0, s2)" "at b es s2 (f @ 32 # xs)" "s1 < s2"
      "tok = (if o2 = [] then o1 else 43)"
  proof (cases "o2 = []")
    case True
    then have a1: "at b es s1 (o1 # f @ 32 # xs)" using p(2) o by simp
    have c: "o1 \<in> {124, 40, 41, 59, 38, 60} \<or> o1 = 62 \<and> (case f @ 32 # xs of [] \<Rightarrow> True | d # _ \<Rightarrow> d \<noteq> 62)"
      using o(2) hd_f by auto
    show thesis by (rule token_symbol [OF l a1 c]) (use True in \<open>simp add: that\<close>)
  next
    case False
    then have a1: "at b es s1 (62 # 62 # f @ 32 # xs)" using p(2) o by auto
    show thesis by (rule token_append [OF l a1]) (use False in \<open>simp add: that\<close>)
  qed
  obtain q e s3 where u: "gettoken b es s2 = (97, q, e, s3)" "at b es s3 (32 # xs)" "s2 < s3" "map ((!) b) [q..<e] = f"
    by (rule token_word [OF l t(2) f]) (auto simp: word_char_def)
  have "at b es s3 xs" using u(2) by (simp add: at_def)
  moreover have "parse_redirs (Suc n) b es c s = parse_redirs n b es (Redir c (q, e) m fd wh) s3"
    using p(1) t(1,4) u(1) m o by (auto simp: redir_op_def split: if_splits)
  ultimately show thesis using p(3) t(3) u(3,4) by (intro that) auto
qed

text \<open>The words of an \<open>Exec\<close>.\<close>

abbreviation words_then :: "bytes list \<Rightarrow> bytes \<Rightarrow> bytes" where
  "words_then ws xs \<equiv> concat (map (\<lambda>w. w @ [32]) ws) @ xs"

abbreviation reads_word :: "bytes \<Rightarrow> nat \<times> nat \<Rightarrow> bytes \<Rightarrow> bool" where
  "reads_word b \<equiv> \<lambda>(q, e) w. map ((!) b) [q..<e] = w"

lemma parse_args_words:
  assumes l: "line_ok b es"
  shows "at b es s (words_then ws xs) \<Longrightarrow> es - s < m \<Longrightarrow> list_all is_word ws \<Longrightarrow>
    length argv + length ws < MAXARGS \<Longrightarrow>
    \<exists>m' s' argv'. andThen (parse_redirs m b es (Exec []) s) (\<lambda>(ret, s). parse_args m b es ret argv s) =
        andThen (parse_redirs m' b es (Exec []) s') (\<lambda>(ret, s). parse_args m' b es ret (argv @ argv') s) \<and>
      es - s' < m' \<and> s \<le> s' \<and> at b es s' xs \<and> list_all2 (reads_word b) argv' ws"
proof (induction ws arbitrary: s m argv)
  case Nil
  then show ?case by (intro exI [of _ m] exI [of _ s] exI [of _ "[]"]) auto
next
  case (Cons w ws)
  obtain n where n: "m = Suc n" using Cons.prems(2) by (cases m) auto
  obtain c w' where cw: "w = c # w'" "word_char c" "is_word w" using Cons.prems(3)
    by (cases w) (auto dest: is_word_hd)
  have nc: "\<not> blank c" "c \<notin> {40, 41, 124, 38, 59, 60, 62}" using cw(2) word_char_not_symbol by auto
  have a: "at b es s (w @ 32 # words_then ws xs)" using Cons.prems(1) by simp
  have st: "starts (w @ 32 # words_then ws xs) [c]" using nc cw(1) by (simp add: starts_Cons)
  obtain s1 where p: "parse_redirs (Suc n) b es (Exec []) s = Inr (Exec [], s1)" "at b es s1 (w @ 32 # words_then ws xs)" "s \<le> s1"
    by (rule parse_redirs_none [OF l a st]) (use nc in auto)
  obtain s2 where k: "peek b es [124, 41, 38, 59] s1 = (False, s2)" "at b es s2 (w @ 32 # words_then ws xs)" "s1 \<le> s2"
    by (rule peek_no [OF l p(2) st, of "[124, 41, 38, 59]"]) (use nc in auto)
  obtain q e s3 where t: "gettoken b es s2 = (97, q, e, s3)" "at b es s3 (32 # words_then ws xs)" "s2 < s3" "map ((!) b) [q..<e] = w"
    by (rule token_word [OF l k(2) cw(3)]) (auto simp: word_char_def)
  have a3: "at b es s3 (words_then ws xs)" using t(2) by (simp add: at_def)
  have s3: "s3 \<le> es" using at_le t(2) by blast
  have "andThen (parse_redirs m b es (Exec []) s) (\<lambda>(ret, s). parse_args m b es ret argv s) =
      andThen (parse_redirs n b es (Exec []) s3) (\<lambda>(ret, s). parse_args n b es ret (argv @ [(q, e)]) s)"
    using p(1) k(1) t(1) Cons.prems(4) by (simp add: n)
  moreover have "es - s3 < n" using Cons.prems(2) n p(3) k(3) t(3) s3 by simp
  ultimately obtain m' s' argv' where
    "andThen (parse_redirs m b es (Exec []) s) (\<lambda>(ret, s). parse_args m b es ret argv s) =
        andThen (parse_redirs m' b es (Exec []) s') (\<lambda>(ret, s). parse_args m' b es ret (argv @ (q, e) # argv') s)"
    "es - s' < m'" "s3 \<le> s'" "at b es s' xs" "list_all2 (reads_word b) argv' ws"
    using Cons.IH [OF a3, of n "argv @ [(q, e)]"] Cons.prems(3,4) by auto
  then show ?case using p(3) k(3) t(3,4)
    by (intro exI [of _ m'] exI [of _ s'] exI [of _ "(q, e) # argv'"]) auto
qed

lemma parse_args_stop:
  assumes l: "line_ok b es" and a: "at b es s xs" and x: "starts xs [124, 41, 38, 59]"
  shows "\<exists>s2. parse_args (Suc n) b es ret argv s = Inr (set_argv argv ret, s2) \<and> at b es s2 xs \<and> s \<le> s2"
proof (cases "dropWhile blank xs")
  case Nil
  then have st: "starts xs []" and e: "\<And>s. at b es s xs \<longleftrightarrow> at b es s []" unfolding starts_def at_def Nil by simp_all
  obtain s1 where p: "peek b es [124, 41, 38, 59] s = (False, s1)" "at b es s1 xs" "s \<le> s1"
    by (rule peek_no [OF l a st, of "[124, 41, 38, 59]"]) auto
  obtain q f s2 where "gettoken b es s1 = (0, q, f, s2)" "at b es s2 []" "s1 \<le> s2"
    using token_end [OF l] p(2) e by metis
  then show ?thesis using p e by auto
next
  case (Cons c ys)
  then have c: "\<not> blank c" "c \<in> {124, 41, 38, 59}" using x hd_dropWhile [of blank xs]
    by (auto simp: starts_def)
  have e: "\<And>s. at b es s xs \<longleftrightarrow> at b es s (c # ys)" using Cons c(1) by (simp add: at_def)
  obtain s1 where "peek b es [124, 41, 38, 59] s = (True, s1)" "at b es s1 (c # ys)" "s \<le> s1"
    using peek_yes [OF l, of s c ys "[124, 41, 38, 59]"] a e c by auto
  then show ?thesis using e by auto
qed

text \<open>
  What each level of the parser does with the text of a command at its level: \<open>parseexec\<close> reads it up to
  its next redirection, which the rest of the call then wraps around it; \<open>parse_backs\<close> is left likewise.
\<close>

definition exec_reads :: "bytes \<Rightarrow> nat \<Rightarrow> bytes cmd \<Rightarrow> bool" where
  "exec_reads b es c \<longleftrightarrow> (\<forall>n k s xs. at b es s (show_cmd 3 c @ xs) \<longrightarrow> starts xs [60, 62, 124, 41, 38, 59] \<longrightarrow>
     es - s < n \<longrightarrow> es - s + 1 < k \<longrightarrow>
     (\<exists>m c' s' g f. parseexec n (parseline k) b es s = andThen (parse_redirs m b es c' s') f \<and>
        es - s' < m \<and> s \<le> s' \<and> at b es s' xs \<and> reads b (g c') c \<and>
        (\<forall>c w md fd wh. g (Redir c w md fd wh) = Redir (g c) w md fd wh) \<and>
        (\<forall>ret s1 ys. s' \<le> s1 \<longrightarrow> at b es s1 ys \<longrightarrow> starts ys [124, 41, 38, 59] \<longrightarrow>
           (\<exists>s2. f (ret, s1) = Inr (g ret, s2) \<and> at b es s2 ys \<and> s1 \<le> s2))))"

definition pipe_reads :: "bytes \<Rightarrow> nat \<Rightarrow> bytes cmd \<Rightarrow> bool" where
  "pipe_reads b es c \<longleftrightarrow> (\<forall>n k s xs. at b es s (show_cmd 2 c @ xs) \<longrightarrow> starts xs [41, 38, 59] \<longrightarrow>
     es - s + 1 < n \<longrightarrow> es - s + 1 < k \<longrightarrow>
     (\<exists>c' s'. parsepipe n (parseline k) b es s = Inr (c', s') \<and> s \<le> s' \<and> at b es s' xs \<and> reads b c' c))"

definition back_reads :: "bytes \<Rightarrow> nat \<Rightarrow> bytes cmd \<Rightarrow> bool" where
  "back_reads b es c \<longleftrightarrow> (\<forall>n s xs. at b es s (show_cmd 1 c @ xs) \<longrightarrow> starts xs [41, 38, 59] \<longrightarrow>
     es - s + 1 < n \<longrightarrow>
     (\<exists>c0 s0 m c' s'. parsepipe n (parseline n) b es s = Inr (c0, s0) \<and>
        parse_backs n b es c0 s0 = parse_backs m b es c' s' \<and>
        es - s' < m \<and> s \<le> s' \<and> at b es s' xs \<and> reads b c' c))"

definition line_reads :: "bytes \<Rightarrow> nat \<Rightarrow> bytes cmd \<Rightarrow> bool" where
  "line_reads b es c \<longleftrightarrow> (\<forall>n s xs. at b es s (show_cmd 0 c @ xs) \<longrightarrow> starts xs [41] \<longrightarrow> es - s + 2 < n \<longrightarrow>
     (\<exists>c' s'. parseline n b es s = Inr (c', s') \<and> s \<le> s' \<and> at b es s' xs \<and> reads b c' c))"

lemma exec_reads_Exec:
  assumes l: "line_ok b es" and ws: "list_all is_word ws" "length ws < MAXARGS"
  shows "exec_reads b es (Exec ws)"
  unfolding exec_reads_def
proof (intro allI impI, goal_cases)
  case (1 n k s xs)
  have a: "at b es s (words_then ws xs)" using 1 by simp
  have "starts (words_then ws xs) [60, 62, 124, 41, 38, 59] \<or>
      (\<exists>c. starts (words_then ws xs) [c] \<and> word_char c)"
  proof (cases ws)
    case (Cons w ws')
    then obtain c w' where "w = c # w'" "word_char c" using ws by (cases w) (auto dest: is_word_hd)
    then show ?thesis using Cons word_char_not_symbol by (auto simp: starts_Cons)
  qed (use 1 in simp)
  then obtain cs where cs: "starts (words_then ws xs) cs" "set cs \<inter> {40} = {}"
    using word_char_not_symbol by fastforce
  obtain s1 where p: "peek b es [40] s = (False, s1)" "at b es s1 (words_then ws xs)" "s \<le> s1"
    by (rule peek_no [OF l a cs(1), of "[40]"]) (use cs(2) in auto)
  have s1: "es - s1 < n" using 1 p(3) by simp
  obtain m' s' argv' where r: "andThen (parse_redirs n b es (Exec []) s1) (\<lambda>(ret, s). parse_args n b es ret [] s) =
        andThen (parse_redirs m' b es (Exec []) s') (\<lambda>(ret, s). parse_args m' b es ret argv' s)"
      "es - s' < m'" "s1 \<le> s'" "at b es s' xs" "list_all2 (reads_word b) argv' ws"
    using parse_args_words [OF l p(2) s1 ws(1), of "[]"] ws(2) by auto
  show ?case
  proof (intro exI conjI)
    show "parseexec n (parseline k) b es s =
        andThen (parse_redirs m' b es (Exec []) s') (\<lambda>(ret, s). parse_args m' b es ret argv' s)"
      using p(1) r(1) by (simp add: parseexec_def)
    show "es - s' < m'" "s \<le> s'" "at b es s' xs" using r p(3) by auto
    show "reads b (set_argv argv' (Exec [])) (Exec ws)" using r(5) by (simp add: reads_def)
    show "\<forall>c w md fd wh. set_argv argv' (Redir c w md fd wh) = Redir (set_argv argv' c) w md fd wh" by simp
    show "\<forall>ret s1 ys. s' \<le> s1 \<longrightarrow> at b es s1 ys \<longrightarrow> starts ys [124, 41, 38, 59] \<longrightarrow>
           (\<exists>s2. (case (ret, s1) of (ret, s) \<Rightarrow> parse_args m' b es ret argv' s) = Inr (set_argv argv' ret, s2) \<and>
              at b es s2 ys \<and> s1 \<le> s2)"
      using parse_args_stop [OF l] r(2) by (cases m') auto
  qed
qed

lemma exec_reads_Redir:
  assumes l: "line_ok b es" and c: "exec_reads b es c" and f: "is_word w"
    and m: "(md, fd, wh) \<in> {(O_RDONLY, 0, 0), (0x001 OR 0x200 OR 0x400, 1, 0), (0x001 OR 0x200, 1, 2)}"
  shows "exec_reads b es (Redir c w md fd wh)"
  unfolding exec_reads_def
proof (intro allI impI, goal_cases)
  case (1 n k s xs)
  let ?xs = "redir_op fd wh @ w @ 32 # xs"
  have a: "at b es s (show_cmd 3 c @ ?xs)" using 1 by simp
  have st: "starts ?xs [60, 62, 124, 41, 38, 59]" by (simp add: redir_op_def starts_Cons)
  obtain m c' s' g f where r: "parseexec n (parseline k) b es s = andThen (parse_redirs m b es c' s') f"
      "es - s' < m" "s \<le> s'" "at b es s' ?xs" "reads b (g c') c"
      "\<And>c w md fd wh. g (Redir c w md fd wh) = Redir (g c) w md fd wh"
      "\<And>ret s1 ys. s' \<le> s1 \<Longrightarrow> at b es s1 ys \<Longrightarrow> starts ys [124, 41, 38, 59] \<Longrightarrow>
           \<exists>s2. f (ret, s1) = Inr (g ret, s2) \<and> at b es s2 ys \<and> s1 \<le> s2"
    using c [unfolded exec_reads_def, rule_format, OF a st 1(3,4)] by metis
  obtain m1 where m1: "m = Suc m1" using r(2) by (cases m) auto
  obtain q e s3 where p: "parse_redirs (Suc m1) b es c' s' = parse_redirs m1 b es (Redir c' (q, e) md fd wh) s3"
      "at b es s3 xs" "s' < s3" "map ((!) b) [q..<e] = w"
    by (rule parse_redirs_one [OF l r(4) f m])
  show ?case
  proof (intro exI conjI)
    show "parseexec n (parseline k) b es s = andThen (parse_redirs m1 b es (Redir c' (q, e) md fd wh) s3) f"
      using r(1) p(1) m1 by simp
    show "es - s3 < m1" "s \<le> s3" "at b es s3 xs" using r(2,3) p(2,3) m1 at_le [OF p(2)] by auto
    show "reads b (g (Redir c' (q, e) md fd wh)) (Redir c w md fd wh)"
      using r(5,6) p(4) by (simp add: reads_def)
  qed (use r(6,7) p(3) in auto)
qed

lemma exec_reads_block:
  assumes l: "line_ok b es" and c: "line_reads b es c" and sh: "show_cmd 3 c = [40] @ show_cmd 0 c @ [41]"
  shows "exec_reads b es c"
  unfolding exec_reads_def
proof (intro allI impI, goal_cases)
  case (1 n k s xs)
  have a: "at b es s (40 # show_cmd 0 c @ 41 # xs)" using 1(1) sh by simp
  obtain s1 where p: "peek b es [40] s = (True, s1)" "at b es s1 (40 # show_cmd 0 c @ 41 # xs)" "s \<le> s1"
    by (rule peek_yes [OF l a, of "[40]"]) auto
  obtain s2 where p2: "peek b es [40] s1 = (True, s2)" "at b es s2 (40 # show_cmd 0 c @ 41 # xs)" "s1 \<le> s2"
    by (rule peek_yes [OF l p(2), of "[40]"]) auto
  obtain q e s3 where t: "gettoken b es s2 = (40, q, e, s3)" "at b es s3 (show_cmd 0 c @ 41 # xs)" "s2 < s3"
    by (rule token_symbol [OF l p2(2)]) auto
  have k3: "es - s3 + 2 < k" using 1(4) p(3) p2(3) t(3) at_le [OF t(2)] by simp
  obtain c' s4 where r: "parseline k b es s3 = Inr (c', s4)" "s3 \<le> s4" "at b es s4 (41 # xs)" "reads b c' c"
    using c [unfolded line_reads_def, rule_format, OF t(2) _ k3] by (auto simp: starts_Cons)
  obtain s5 where p5: "peek b es [41] s4 = (True, s5)" "at b es s5 (41 # xs)" "s4 \<le> s5"
    by (rule peek_yes [OF l r(3), of "[41]"]) auto
  obtain q' e' s6 where t6: "gettoken b es s5 = (41, q', e', s6)" "at b es s6 xs" "s5 < s6"
    by (rule token_symbol [OF l p5(2)]) auto
  show ?case
  proof (intro exI conjI)
    show "parseexec n (parseline k) b es s = andThen (parse_redirs n b es c' s6) Inr"
      using p(1) p2(1) t(1) r(1) p5(1) t6(1) by (simp add: parseexec_def parseblock_def)
    show "es - s6 < n" "s \<le> s6" "at b es s6 xs" using 1(3) p(3) p2(3) t(3) r(2) p5(3) t6 by auto
    show "reads b ((\<lambda>c. c) c') c" by (rule r(4))
  qed auto
qed

text \<open>The whole of an exec-level command, when no redirection follows.\<close>

lemma exec_reads_end:
  assumes l: "line_ok b es" and c: "exec_reads b es c" and a: "at b es s (show_cmd 3 c @ xs)"
    and x: "starts xs [124, 41, 38, 59]" and n: "es - s < n" "es - s + 1 < k"
  obtains c' s' where "parseexec n (parseline k) b es s = Inr (c', s')" and "s \<le> s'" and "at b es s' xs"
    and "reads b c' c"
proof -
  have x': "starts xs [60, 62, 124, 41, 38, 59]" by (rule starts_mono [OF x]) auto
  obtain m c' s' g f where r: "parseexec n (parseline k) b es s = andThen (parse_redirs m b es c' s') f"
      "es - s' < m" "s \<le> s'" "at b es s' xs" "reads b (g c') c"
      "\<And>ret s1 ys. s' \<le> s1 \<Longrightarrow> at b es s1 ys \<Longrightarrow> starts ys [124, 41, 38, 59] \<Longrightarrow>
           \<exists>s2. f (ret, s1) = Inr (g ret, s2) \<and> at b es s2 ys \<and> s1 \<le> s2"
    using c [unfolded exec_reads_def, rule_format, OF a x' n] by metis
  obtain m1 where m1: "m = Suc m1" using r(2) by (cases m) auto
  obtain s1 where p: "parse_redirs (Suc m1) b es c' s' = Inr (c', s1)" "at b es s1 xs" "s' \<le> s1"
    by (rule parse_redirs_none [OF l r(4) x]) auto
  obtain s2 where "f (c', s1) = Inr (g c', s2)" "at b es s2 xs" "s1 \<le> s2"
    using r(6) [OF p(3,2) x] by blast
  then show thesis using r p m1 by (intro that) auto
qed

lemma pipe_reads_exec:
  assumes l: "line_ok b es" and c: "exec_reads b es c" and sh: "show_cmd 2 c = show_cmd 3 c"
  shows "pipe_reads b es c"
  unfolding pipe_reads_def
proof (intro allI impI, goal_cases)
  case (1 n k s xs)
  obtain n1 where n1: "n = Suc n1" using 1(3) by (cases n) auto
  have a: "at b es s (show_cmd 3 c @ xs)" using 1(1) sh by simp
  have x: "starts xs [124, 41, 38, 59]" by (rule starts_mono [OF 1(2)]) auto
  have f: "es - s < n1" using 1(3) n1 by simp
  obtain c' s' where r: "parseexec n1 (parseline k) b es s = Inr (c', s')" "s \<le> s'" "at b es s' xs" "reads b c' c"
    by (rule exec_reads_end [OF l c a x f 1(4)])
  obtain s1 where "peek b es [124] s' = (False, s1)" "at b es s1 xs" "s' \<le> s1"
    by (rule peek_no [OF l r(3) 1(2), of "[124]"]) auto
  then show ?case using r n1 by auto
qed

lemma pipe_reads_Pipe:
  assumes l: "line_ok b es" and c: "exec_reads b es c" and d: "pipe_reads b es d"
  shows "pipe_reads b es (Pipe c d)"
  unfolding pipe_reads_def
proof (intro allI impI, goal_cases)
  case (1 n k s xs)
  obtain n1 where n1: "n = Suc n1" using 1(3) by (cases n) auto
  have a: "at b es s (show_cmd 3 c @ 124 # show_cmd 2 d @ xs)" using 1(1) by (simp add: bracket_def)
  have f: "es - s < n1" using 1(3) n1 by simp
  obtain c' s' where r: "parseexec n1 (parseline k) b es s = Inr (c', s')" "s \<le> s'"
      "at b es s' (124 # show_cmd 2 d @ xs)" "reads b c' c"
    by (rule exec_reads_end [OF l c a _ f 1(4)]) (auto simp: starts_Cons)
  obtain s1 where p: "peek b es [124] s' = (True, s1)" "at b es s1 (124 # show_cmd 2 d @ xs)" "s' \<le> s1"
    by (rule peek_yes [OF l r(3), of "[124]"]) auto
  obtain q e s2 where t: "gettoken b es s1 = (124, q, e, s2)" "at b es s2 (show_cmd 2 d @ xs)" "s1 < s2"
    by (rule token_symbol [OF l p(2)]) auto
  have n2: "es - s2 + 1 < n1" "es - s2 + 1 < k" using 1(3,4) n1 r(2) p(3) t(3) at_le [OF t(2)] by auto
  obtain d' s3 where "parsepipe n1 (parseline k) b es s2 = Inr (d', s3)" "s2 \<le> s3" "at b es s3 xs" "reads b d' d"
    using d [unfolded pipe_reads_def, rule_format, OF t(2) 1(2) n2] by blast
  then show ?case using r n1 p t by (auto simp: reads_def)
qed

lemma back_reads_pipe:
  assumes l: "line_ok b es" and c: "pipe_reads b es c" and sh: "show_cmd 1 c = show_cmd 2 c"
  shows "back_reads b es c"
  unfolding back_reads_def
proof (intro allI impI, goal_cases)
  case (1 n s xs)
  have a: "at b es s (show_cmd 2 c @ xs)" using 1(1) sh by simp
  obtain c' s' where "parsepipe n (parseline n) b es s = Inr (c', s')" "s \<le> s'" "at b es s' xs" "reads b c' c"
    using c [unfolded pipe_reads_def, rule_format, OF a 1(2,3,3)] by blast
  then show ?case using 1(3)
    by (intro exI [of _ c'] exI [of _ s'] exI [of _ n]) auto
qed

lemma back_reads_Back:
  assumes l: "line_ok b es" and c: "back_reads b es c"
  shows "back_reads b es (Back c)"
  unfolding back_reads_def
proof (intro allI impI, goal_cases)
  case (1 n s xs)
  have a: "at b es s (show_cmd 1 c @ 38 # xs)" using 1(1) by (simp add: bracket_def)
  obtain c0 s0 m c' s' where r: "parsepipe n (parseline n) b es s = Inr (c0, s0)"
      "parse_backs n b es c0 s0 = parse_backs m b es c' s'" "es - s' < m" "s \<le> s'" "at b es s' (38 # xs)" "reads b c' c"
    using c [unfolded back_reads_def, rule_format, OF a _ 1(3)] by (auto simp: starts_Cons)
  obtain m1 where m1: "m = Suc m1" using r(3) by (cases m) auto
  obtain s1 where p: "peek b es [38] s' = (True, s1)" "at b es s1 (38 # xs)" "s' \<le> s1"
    by (rule peek_yes [OF l r(5), of "[38]"]) auto
  obtain q e s2 where t: "gettoken b es s1 = (38, q, e, s2)" "at b es s2 xs" "s1 < s2"
    by (rule token_symbol [OF l p(2)]) auto
  show ?case
  proof (intro exI conjI)
    show "parsepipe n (parseline n) b es s = Inr (c0, s0)" by (rule r(1))
    show "parse_backs n b es c0 s0 = parse_backs m1 b es (Back c') s2" using r(2) m1 p(1) t(1) by simp
    show "es - s2 < m1" "s \<le> s2" "at b es s2 xs" using r(3,4) m1 p(3) t(2,3) at_le [OF t(2)] by auto
    show "reads b (Back c') (Back c)" using r(6) by (simp add: reads_def)
  qed
qed

text \<open>A line up to its \<open>;\<close> or its end.\<close>

lemma back_reads_end:
  assumes l: "line_ok b es" and c: "back_reads b es c" and a: "at b es s (show_cmd 1 c @ xs)"
    and x: "starts xs [41, 59]" and n: "es - s + 1 < n"
  obtains c0 s0 c' s' where "parsepipe n (parseline n) b es s = Inr (c0, s0)"
    and "parse_backs n b es c0 s0 = Inr (c', s')" and "s \<le> s'" and "at b es s' xs" and "reads b c' c"
proof -
  have x': "starts xs [41, 38, 59]" by (rule starts_mono [OF x]) auto
  obtain c0 s0 m c' s' where r: "parsepipe n (parseline n) b es s = Inr (c0, s0)"
      "parse_backs n b es c0 s0 = parse_backs m b es c' s'" "es - s' < m" "s \<le> s'" "at b es s' xs" "reads b c' c"
    using c [unfolded back_reads_def, rule_format, OF a x' n] by blast
  obtain m1 where m1: "m = Suc m1" using r(3) by (cases m) auto
  obtain s1 where "peek b es [38] s' = (False, s1)" "at b es s1 xs" "s' \<le> s1"
    by (rule peek_no [OF l r(5) x, of "[38]"]) auto
  then show thesis using r m1 by (intro that [of c0 s0 c' s1]) auto
qed

lemma line_reads_back:
  assumes l: "line_ok b es" and c: "back_reads b es c" and sh: "show_cmd 0 c = show_cmd 1 c"
  shows "line_reads b es c"
  unfolding line_reads_def
proof (intro allI impI, goal_cases)
  case (1 n s xs)
  obtain n1 where n1: "n = Suc n1" using 1(3) by (cases n) auto
  have a: "at b es s (show_cmd 1 c @ xs)" using 1(1) sh by simp
  have x: "starts xs [41, 59]" by (rule starts_mono [OF 1(2)]) auto
  have f: "es - s + 1 < n1" using 1(3) n1 by simp
  obtain c0 s0 c' s' where r: "parsepipe n1 (parseline n1) b es s = Inr (c0, s0)"
      "parse_backs n1 b es c0 s0 = Inr (c', s')" "s \<le> s'" "at b es s' xs" "reads b c' c"
    by (rule back_reads_end [OF l c a x f])
  obtain s1 where "peek b es [59] s' = (False, s1)" "at b es s1 xs" "s' \<le> s1"
    by (rule peek_no [OF l r(4) 1(2), of "[59]"]) auto
  then show ?case using r n1 by auto
qed

lemma line_reads_Seq:
  assumes l: "line_ok b es" and c: "back_reads b es c" and d: "line_reads b es d"
  shows "line_reads b es (Seq c d)"
  unfolding line_reads_def
proof (intro allI impI, goal_cases)
  case (1 n s xs)
  obtain n1 where n1: "n = Suc n1" using 1(3) by (cases n) auto
  have a: "at b es s (show_cmd 1 c @ 59 # show_cmd 0 d @ xs)" using 1(1) by (simp add: bracket_def)
  have f: "es - s + 1 < n1" using 1(3) n1 by simp
  obtain c0 s0 c' s' where r: "parsepipe n1 (parseline n1) b es s = Inr (c0, s0)"
      "parse_backs n1 b es c0 s0 = Inr (c', s')" "s \<le> s'" "at b es s' (59 # show_cmd 0 d @ xs)" "reads b c' c"
    by (rule back_reads_end [OF l c a _ f]) (auto simp: starts_Cons)
  obtain s1 where p: "peek b es [59] s' = (True, s1)" "at b es s1 (59 # show_cmd 0 d @ xs)" "s' \<le> s1"
    by (rule peek_yes [OF l r(4), of "[59]"]) auto
  obtain q e s2 where t: "gettoken b es s1 = (59, q, e, s2)" "at b es s2 (show_cmd 0 d @ xs)" "s1 < s2"
    by (rule token_symbol [OF l p(2)]) auto
  have f2: "es - s2 + 2 < n1" using 1(3) n1 r(3) p(3) t(3) at_le [OF t(2)] by simp
  obtain d' s3 where "parseline n1 b es s2 = Inr (d', s3)" "s2 \<le> s3" "at b es s3 xs" "reads b d' d"
    using d [unfolded line_reads_def, rule_format, OF t(2) 1(2) f2] by blast
  then show ?case using r n1 p t by (auto simp: reads_def)
qed

lemma all_levels:
  assumes "line_ok b es"
  shows "wf_cmd c \<Longrightarrow> exec_reads b es c \<and> pipe_reads b es c \<and> back_reads b es c \<and> line_reads b es c"
proof (induction c)
  case (Exec ws)
  then have e: "exec_reads b es (Exec ws)" by (intro exec_reads_Exec assms) auto
  note p = pipe_reads_exec [OF assms e] note k = back_reads_pipe [OF assms p]
  show ?case using e p k line_reads_back [OF assms k] by simp
next
  case (Redir c f m fd wh)
  then have e: "exec_reads b es (Redir c f m fd wh)" by (intro exec_reads_Redir assms) auto
  note p = pipe_reads_exec [OF assms e] note k = back_reads_pipe [OF assms p]
  show ?case using e p k line_reads_back [OF assms k] by simp
next
  case (Pipe c d)
  then have p: "pipe_reads b es (Pipe c d)" by (intro pipe_reads_Pipe assms) auto
  note k = back_reads_pipe [OF assms p] note r = line_reads_back [OF assms k]
  show ?case using p k r exec_reads_block [OF assms r] by (simp add: bracket_def)
next
  case (Seq c d)
  then have r: "line_reads b es (Seq c d)" by (intro line_reads_Seq assms) auto
  note e = exec_reads_block [OF assms r] note p = pipe_reads_exec [OF assms e]
  show ?case using e p r back_reads_pipe [OF assms p] by (simp add: bracket_def)
next
  case (Back c)
  then have k: "back_reads b es (Back c)" by (intro back_reads_Back assms) auto
  note r = line_reads_back [OF assms k] note e = exec_reads_block [OF assms r]
  show ?case using e k r pipe_reads_exec [OF assms e] by (simp add: bracket_def)
qed

subsection \<open>The round trip\<close>

lemma word_char_nonzero: "list_all word_char w \<Longrightarrow> 0 \<notin> set w"
  by (auto simp: list_all_iff word_char_def has_def)

lemma show_cmd_nonzero: "wf_cmd c \<Longrightarrow> 0 \<notin> set (show_cmd p c)"
proof (induction c arbitrary: p)
  case (Exec ws)
  then show ?case using word_char_nonzero by (auto simp: list_all_iff is_word_def)
qed (auto simp: bracket_def redir_op_def is_word_def dest: word_char_nonzero)

text \<open>The line may end in blanks, and the buffer be longer than the line.\<close>

lemma show_cmd_line_ok:
  assumes "wf_cmd c" and "list_all blank ws" and "0 \<notin> set ws"
  shows "line_ok (show_cmd p c @ ws @ 0 # rest) (length (show_cmd p c @ ws))"
proof -
  let ?l = "show_cmd p c @ ws"
  have z: "0 \<notin> set ?l" using show_cmd_nonzero [OF assms(1)] assms(3) by simp
  have "(?l @ 0 # rest) ! i \<noteq> 0" if "i < length ?l" for i
    using that z nth_mem [OF that] by (auto simp: nth_append)
  moreover have "(?l @ 0 # rest) ! length ?l = 0" by (rule nth_append_length)
  ultimately have "line_ok (?l @ 0 # rest) (length ?l)" unfolding line_ok_def by simp
  then show ?thesis by simp
qed

lemma parsecmd_reads:
  assumes "wf_cmd c" and ws: "list_all blank ws" "0 \<notin> set ws"
    and b: "b = show_cmd 0 c @ ws @ 0 # rest" and es: "es = length (show_cmd 0 c @ ws)"
  obtains c' where "parsecmd b es = Inr (c', nulterminate c' b)" and "reads b c' c"
proof -
  have l: "line_ok b es" using show_cmd_line_ok [OF assms(1) ws] b es by simp
  have d: "dropWhile blank ws = []" using ws(1) by (simp add: list_all_iff)
  have a: "at b es 0 (show_cmd 0 c @ ws)" using b es by (simp add: at_def)
  have "starts ws [41]" unfolding starts_def d by simp
  then obtain c' s' where r: "parseline (es + 3) b es 0 = Inr (c', s')" "at b es s' ws" "reads b c' c"
    using all_levels [OF l assms(1), THEN conjunct2, THEN conjunct2, THEN conjunct2,
        unfolded line_reads_def, rule_format, OF a, of "es + 3"] by auto
  have e: "at b es s' []" using r(2) by (simp add: at_def d del: dropWhile_eq_Nil_conv)
  have "peek b es [] s' = (False, es)"
    using at_skip [OF l e] l by (simp add: peek_def Let_def line_ok_def)
  then show thesis using r(1,3) by (intro that) (auto simp: parsecmd_def)
qed

lemma parsecmd_words:
  assumes "wf_cmd c" and "list_all blank ws" "0 \<notin> set ws"
  shows "\<exists>c' b'. parsecmd (show_cmd 0 c @ ws @ 0 # rest) (length (show_cmd 0 c @ ws)) = Inr (c', b') \<and>
    rel_cmd (\<lambda>(q, _) w. cstr (drop q b') w) c' c"
proof -
  let ?b = "show_cmd 0 c @ ws @ 0 # rest" and ?es = "length (show_cmd 0 c @ ws)"
  have l: "line_ok ?b ?es" by (rule show_cmd_line_ok [OF assms])
  obtain c' where c': "parsecmd ?b ?es = Inr (c', nulterminate c' ?b)" "reads ?b c' c"
    by (rule parsecmd_reads [OF assms refl refl])
  then have w: "words_ok ?b ?es c'" using parsecmd_ok [OF l] by simp
  have "rel_cmd (\<lambda>(q, _) w. cstr (drop q (nulterminate c' ?b)) w) c' c"
    by (rule cmd.rel_mono_strong [OF c'(2) [unfolded reads_def]])
      (use word_terminated [OF l w] in auto)
  then show ?thesis using c'(1) by blast
qed

text \<open>
  C28: the parser reads the text of every well-formed command back as that command, with its pipes, lists,
  background jobs, brackets and redirections in the same places, and in the line it leaves each word of
  the command is the C string at the place the parsed command points to.
\<close>

theorem parsecmd_show_cmd:
  assumes "wf_cmd c"
  shows "\<exists>c' b'. parsecmd (show_cmd 0 c @ [0]) (length (show_cmd 0 c)) = Inr (c', b') \<and>
    rel_cmd (\<lambda>(q, _) w. cstr (drop q b') w) c' c"
  using parsecmd_words [OF assms, of "[]" "[]"] by simp

text \<open>\<open>grep a b < f | wc & ; (ls ; ls) > o\<close>\<close>

lemma parsecmd_show_cmd_witness:
  "\<exists>c' b'. parsecmd (show_cmd 0 (Seq (Back (Pipe (Redir (Exec [[103], [97], [98]]) [102] 0 0 0) (Exec [[119, 99]])))
      (Redir (Seq (Exec [[108]]) (Exec [[108]])) [111] (0x001 OR 0x200 OR 0x400) 1 0)) @ [0])
      (length (show_cmd 0 (Seq (Back (Pipe (Redir (Exec [[103], [97], [98]]) [102] 0 0 0) (Exec [[119, 99]])))
      (Redir (Seq (Exec [[108]]) (Exec [[108]])) [111] (0x001 OR 0x200 OR 0x400) 1 0)))) = Inr (c', b') \<and>
    rel_cmd (\<lambda>(q, _) w. cstr (drop q b') w) c'
      (Seq (Back (Pipe (Redir (Exec [[103], [97], [98]]) [102] 0 0 0) (Exec [[119, 99]])))
      (Redir (Seq (Exec [[108]]) (Exec [[108]])) [111] (0x001 OR 0x200 OR 0x400) 1 0))"
  by (rule parsecmd_show_cmd) (simp add: is_word_def word_char_def has_def whitespace_def symbols_def)

end
