(* ===== verification/ShellRun.thy ===== *)
theory ShellRun
  imports ShellProps
begin

text \<open>
  What the system calls of \<open>runcmd\<close> do: which programs run, when, what their descriptors stand for, and who waits for them; and what a
  command of a shell is to mean, stated on the command. The two agree.
\<close>

subsection \<open>Processes and descriptors\<close>

text \<open>
  What a descriptor stands for: an open file with the mode of \<open>open\<close> and where \<open>lseek\<close> has put its offset, or an end of
  a pipe; the pipes are numbered as they are made.
\<close>

datatype 'w chan = OpenFile 'w u32 "u32 \<times> u32" | ReadEnd nat | WriteEnd nat

type_synonym 'w descs = "'w chan option list"

text \<open>
  The world: how long a program that is started at a time with some words and descriptors runs, \<^term>\<open>None\<close> when \<open>exec\<close>
  fails, and which files can be opened at a time.
\<close>

record 'w world =
  runs_for :: "nat \<Rightarrow> 'w list \<Rightarrow> 'w descs \<Rightarrow> nat option"
  can_open :: "nat \<Rightarrow> 'w \<Rightarrow> u32 \<Rightarrow> bool"

text \<open>
  What happens: a program is run, since when, with which words and descriptors; a process waits, with which descriptors
  (what reads from a pipe sees its end only when no process, waiting ones included, holds an end to write to).
\<close>

datatype 'w run = Ran nat "'w list" "'w descs" | Waits "'w descs"

fun lowest_free :: "'w descs \<Rightarrow> nat option" where
  "lowest_free [] = None"
| "lowest_free (None # t) = Some 0"
| "lowest_free (Some x # t) = map_option Suc (lowest_free t)"

definition open_file :: "'w \<Rightarrow> u32 \<Rightarrow> 'w descs \<Rightarrow> 'w descs option" where
  "open_file w m t = map_option (\<lambda>i. t[i := Some (OpenFile w m (0, 0))]) (lowest_free t)"

definition dup_desc :: "nat \<Rightarrow> 'w descs \<Rightarrow> 'w descs" where
  "dup_desc i t = (if i < length t \<and> t ! i \<noteq> None then (case lowest_free t of None \<Rightarrow> t | Some j \<Rightarrow> t[j := t ! i]) else t)"

definition seek_desc :: "nat \<Rightarrow> u32 \<Rightarrow> u32 \<Rightarrow> 'w descs \<Rightarrow> 'w descs" where
  "seek_desc i off wh t =
     (if i < length t then t[i := (case t ! i of Some (OpenFile w m _) \<Rightarrow> Some (OpenFile w m (off, wh)) | x \<Rightarrow> x)] else t)"

definition make_pipe :: "nat \<Rightarrow> 'w descs \<Rightarrow> ((nat \<times> nat) \<times> 'w descs) option" where
  "make_pipe n t = do {
     i \<leftarrow> lowest_free t;
     let t = t[i := Some (ReadEnd n)];
     j \<leftarrow> lowest_free t;
     Some ((i, j), t[j := Some (WriteEnd n)]) }"

text \<open>\<open>p0\<close> and \<open>p1\<close> of \<open>runcmd\<close> are the descriptors that the last \<open>pipe\<close> of the process returned.\<close>

fun desc_no :: "nat \<times> nat \<Rightarrow> fdesc \<Rightarrow> nat" where
  "desc_no p (Fd i) = unat i"
| "desc_no p P0 = fst p"
| "desc_no p P1 = snd p"

text \<open>\<open>wait\<close> takes the child that ends first; it returns at once when there is none.\<close>

definition wait_child :: "nat \<Rightarrow> nat list \<Rightarrow> nat \<times> nat list" where
  "wait_child now ends = (if ends = [] then (now, []) else (max now (Min (set ends)), remove1 (Min (set ends)) ends))"

text \<open>
  A process that starts its calls at \<open>now\<close>, when the number of pipes so far is \<open>n\<close> and its children end at \<open>ends\<close>: the
  programs it and its children run and their waits, when it ends, the number of pipes. A child starts with the descriptors of its parent at the same time; only programs and
  \<open>wait\<close> take time.
\<close>

fun run_acts :: "'w world \<Rightarrow> nat \<Rightarrow> 'w descs \<Rightarrow> nat \<times> nat \<Rightarrow> nat \<Rightarrow> nat list \<Rightarrow> 'w act list \<Rightarrow> 'w run list \<times> nat \<times> nat" where
  "run_acts W now t p n ends [] = ([], now, n)"
| "run_acts W now t p n ends (Exit c # as) = ([], now, n)"
| "run_acts W now t p n ends (ExecProg ws # as) =
     (case runs_for W now ws t of
        None \<Rightarrow> run_acts W now t p n ends as
      | Some d \<Rightarrow> ([Ran now ws t], now + d, n))"
| "run_acts W now t p n ends (Close i # as) = run_acts W now (t[desc_no p i := None]) p n ends as"
| "run_acts W now t p n ends (OpenOrExit w m # as) =
     (case (if can_open W now w m then open_file w m t else None) of
        None \<Rightarrow> ([], now, n)
      | Some t \<Rightarrow> run_acts W now t p n ends as)"
| "run_acts W now t p n ends (Lseek i off wh # as) = run_acts W now (seek_desc (unat i) off wh t) p n ends as"
| "run_acts W now t p n ends (Dup i # as) = run_acts W now (dup_desc (desc_no p i) t) p n ends as"
| "run_acts W now t p n ends (PipeOrExit # as) =
     (case make_pipe n t of
        None \<Rightarrow> ([], now, n)
      | Some (p, t) \<Rightarrow> run_acts W now t p (n + 1) ends as)"
| "run_acts W now t p n ends (Fork child # as) =
     (let (r, e, n) = run_acts W now t p n [] child; (r', e', n) = run_acts W now t p n (e # ends) as in (r @ r', e', n))"
| "run_acts W now t p n ends (Wait # as) =
     (let (now, ends) = wait_child now ends; (r, e, n) = run_acts W now t p n ends as in (Waits t # r, e, n))"

subsection \<open>What a command means\<close>

text \<open>
  A command begun at \<open>now\<close> with descriptors \<open>t\<close>: what happens, when it ends, the number of pipes. A program runs with
  the descriptors as they are. A redirection replaces one of them for its command. Both sides of a pipe start at
  once, the left one writing to the pipe and the right one reading from it, each without the other end; two waits,
  that hold no end of the pipe, and it ends with the later of the two. The second command of a list starts when
  the first has ended. A background command ends at once while what it has started goes on.
\<close>

fun means :: "'w world \<Rightarrow> nat \<Rightarrow> 'w descs \<Rightarrow> nat \<Rightarrow> 'w cmd \<Rightarrow> 'w run list \<times> nat \<times> nat" where
  "means W now t n (Exec ws) =
     (case if ws = [] then None else runs_for W now ws t of
        None \<Rightarrow> ([], now, n)
      | Some d \<Rightarrow> ([Ran now ws t], now + d, n))"
| "means W now t n (Redir c f m fd wh) =
     (if can_open W now f m then means W now (t[unat fd := Some (OpenFile f m (0, wh))]) n c else ([], now, n))"
| "means W now t n (Pipe l r) =
     (let (rl, el, n') = means W now (t[1 := Some (WriteEnd n)]) (n + 1) l;
          (rr, er, n') = means W now (t[0 := Some (ReadEnd n)]) n' r
      in (rl @ rr @ [Waits t, Waits t], max el er, n'))"
| "means W now t n (Seq l r) =
     (let (rl, el, n) = means W now t n l; (rr, er, n) = means W el t n r in (rl @ Waits t # rr, er, n))"
| "means W now t n (Back c) = (let (r, e, n) = means W now t n c in (r, now, n))"

subsection \<open>The calls implement the meaning\<close>

lemma means_ends: "means W now t n c = (r, e, n') \<Longrightarrow> now \<le> e"
proof (induction W now t n c arbitrary: r e n' rule: means.induct)
  case (4 W now t n l r)
  then show ?case by (auto split: prod.splits intro: le_trans)
qed (auto split: prod.splits option.splits if_splits simp: le_max_iff_disj)

text \<open>Descriptors 0 to 2 are open, 3 and 4 are free.\<close>

definition std_descs :: "'w descs \<Rightarrow> bool" where
  "std_descs t \<longleftrightarrow> (\<exists>a b c r. t = Some a # Some b # Some c # None # None # r)"

lemma std_descsE:
  assumes "std_descs t"
  obtains a b c r where "t = Some a # Some b # Some c # None # None # r"
  using assms by (auto simp: std_descs_def)

lemma std_descs_set: "std_descs t \<Longrightarrow> i < 3 \<Longrightarrow> std_descs (t[i := Some x])"
  by (auto simp: std_descs_def less_Suc_eq numeral_3_eq_3)

text \<open>Closing a standard descriptor and opening a file gives that descriptor again.\<close>

lemma redirected:
  assumes "std_descs t" and "i < 3"
  shows "open_file w m (t[i := None]) = Some (t[i := Some (OpenFile w m (0, 0))])"
    and "seek_desc i 0 wh (t[i := Some (OpenFile w m (0, 0))]) = t[i := Some (OpenFile w m (0, wh))]"
proof -
  have "i = 0 \<or> i = 1 \<or> i = 2" using assms(2) by auto
  then show "open_file w m (t[i := None]) = Some (t[i := Some (OpenFile w m (0, 0))])"
    and "seek_desc i 0 wh (t[i := Some (OpenFile w m (0, 0))]) = t[i := Some (OpenFile w m (0, wh))]"
    using assms(1) by (auto simp: std_descs_def open_file_def seek_desc_def numeral_2_eq_2)
qed

text \<open>The ends of a pipe, and what the two children and the parent make of them.\<close>

lemma piped:
  assumes "std_descs t"
  shows "make_pipe n t = Some ((3, 4), t[3 := Some (ReadEnd n), 4 := Some (WriteEnd n)])"
    and "t[3 := Some (ReadEnd n), 4 := Some (WriteEnd n), 3 := None, 4 := None] = t"
    and "(dup_desc 4 (t[3 := Some (ReadEnd n), 4 := Some (WriteEnd n), 1 := None]))[3 := None, 4 := None] = t[1 := Some (WriteEnd n)]"
    and "(dup_desc 3 (t[3 := Some (ReadEnd n), 4 := Some (WriteEnd n), 0 := None]))[3 := None, 4 := None] = t[0 := Some (ReadEnd n)]"
  using assms by (auto simp: std_descs_def make_pipe_def dup_desc_def eval_nat_numeral)

lemma wait_child_simps [simp]:
  "now \<le> e \<Longrightarrow> wait_child now [e] = (e, [])"
  "wait_child now [e, e'] = (max now (min e e'), [max e e'])"
  by (auto simp: wait_child_def max_def min_def)

lemma run_acts_means:
  assumes "std_descs t" and "wf_cmd c"
  shows "run_acts W now t p n [] (runcmd c) = means W now t n c"
  using assms
proof (induction c arbitrary: now t p n)
  case (Exec ws)
  then show ?case by (simp split: option.split)
next
  case (Redir c f m fd wh)
  have fd: "unat fd < 3" using Redir.prems(2) by auto
  show ?case using Redir.IH [OF std_descs_set [OF Redir.prems(1) fd]] Redir.prems(2) redirected [OF Redir.prems(1) fd] by simp
next
  case (Pipe l r)
  note pp = piped [OF Pipe.prems(1), of n]
  have "std_descs (t[1 := Some (WriteEnd n)])" "std_descs (t[0 := Some (ReadEnd n)])"
    using std_descs_set [OF Pipe.prems(1)] by simp_all
  note l = Pipe.IH(1) [OF this(1)] and r = Pipe.IH(2) [OF this(2)]
  obtain rl el n1 where ml: "means W now (t[1 := Some (WriteEnd n)]) (n + 1) l = (rl, el, n1)" by (metis prod_cases3)
  obtain rr er n2 where mr: "means W now (t[0 := Some (ReadEnd n)]) n1 r = (rr, er, n2)" by (metis prod_cases3)
  have "now \<le> el" "now \<le> er" using means_ends [OF ml] means_ends [OF mr] by simp_all
  then show ?case using Pipe.prems(2) pp l r ml mr by (simp add: max.absorb2 min_def max_def)
next
  case (Seq l r)
  obtain rl el n1 where ml: "means W now t n l = (rl, el, n1)" by (metis prod_cases3)
  then show ?case using Seq.IH Seq.prems means_ends [OF ml] by (simp split: prod.split)
next
  case (Back c)
  then show ?case by (simp split: prod.split)
qed

end
