(* ===== verification/ShellMain.thy ===== *)
theory ShellMain
  imports ShellRun UserIo
begin

text \<open>
  \<open>getcmd\<close> and the loop of \<open>main\<close> of the shell (\<open>user/src/phase6/sh.c\<close>) over the lines of its input, and
  what the whole shell does with the text of a sequence of lines: the programs it runs, when and with which descriptors.
\<close>

subsection \<open>The loop\<close>

abbreviation (input) CMD_SIZE :: nat where "CMD_SIZE \<equiv> 100"

text \<open>
  What the shell does, in order: the prompt, a change of directory with its result, a child, which ends in an error
  of the parser or runs the actions of its command on the line it parsed, and \<open>wait(0)\<close>.
\<close>

datatype shell_event = Prompt | Cd bytes bool | Child "perr + (nat \<times> nat) act list \<times> bytes" | WaitChild

text \<open>The buffer is cleared before the line is stored.\<close>

definition getcmd :: "stdin \<Rightarrow> (bytes \<times> stdin) option" where
  "getcmd s = do {
     (l, s) \<leftarrow> getline (of_nat CMD_SIZE) s;
     Some (patch (replicate CMD_SIZE 0) 0 (l @ [0]), s) }"

definition shell_child :: "bytes \<Rightarrow> nat \<Rightarrow> perr + (nat \<times> nat) act list \<times> bytes" where
  "shell_child buf n = andThen (parsecmd buf n) (\<lambda>(c, b). Inr (runcmd c, b))"

text \<open>
  \<open>chdir\<close> says for which paths the system call returns 0, after the changes of directory \<open>cwd\<close> that succeeded so far.
\<close>

partial_function (option) shell_loop :: "(bytes list \<Rightarrow> bytes \<Rightarrow> bool) \<Rightarrow> bytes list \<Rightarrow> stdin \<Rightarrow> shell_event list option" where
  "shell_loop chdir cwd s = do {
     (buf, s) \<leftarrow> getcmd s;
     if buf ! 0 = 0 then Some [Prompt]
     else do {
       n \<leftarrow> strlen buf;
       if buf ! 0 = 99 \<and> buf ! 1 = 100 \<and> buf ! 2 = 32 then do {
         let buf = buf[n - 1 := 0];
         m \<leftarrow> strlen (drop 3 buf);
         let path = take m (drop 3 buf);
         es \<leftarrow> shell_loop chdir (if chdir cwd path then cwd @ [path] else cwd) s;
         Some ([Prompt, Cd path (chdir cwd path)] @ es) }
       else do {
         es \<leftarrow> shell_loop chdir cwd s;
         Some ([Prompt, Child (shell_child buf n), WaitChild] @ es) } } }"

subsection \<open>One line\<close>

definition line_cwd :: "(bytes list \<Rightarrow> bytes \<Rightarrow> bool) \<Rightarrow> bytes list \<Rightarrow> bytes \<Rightarrow> bytes list" where
  "line_cwd chdir cwd w = (if take 3 w = [99, 100, 32] \<and> chdir cwd (drop 3 w) then cwd @ [drop 3 w] else cwd)"

definition line_events :: "(bytes list \<Rightarrow> bytes \<Rightarrow> bool) \<Rightarrow> bytes list \<Rightarrow> bytes \<Rightarrow> shell_event list" where
  "line_events chdir cwd w =
     Prompt # (if take 3 w = [99, 100, 32] then [Cd (drop 3 w) (chdir cwd (drop 3 w))]
      else [Child (shell_child (w @ [10] @ 0 # replicate (CMD_SIZE - length w - 2) 0) (length w + 1)), WaitChild])"

text \<open>A line the shell takes whole.\<close>

definition shell_line :: "bytes \<Rightarrow> bool" where
  "shell_line w \<longleftrightarrow> 0 \<notin> set w \<and> 10 \<notin> set w \<and> length w < CMD_SIZE - 1"

lemma line_of_line: "10 \<notin> set w \<Longrightarrow> length w < n \<Longrightarrow> line_of n (w @ 10 # xs) = w @ [10]"
  by (induction w arbitrary: n) (case_tac n; auto)+

lemma getcmd_line:
  assumes "sin_ok s" and "stream s = w @ 10 # xs" and "shell_line w" and "0 \<notin> set xs"
  obtains s' where "getcmd s = Some (w @ [10] @ 0 # replicate (CMD_SIZE - length w - 2) 0, s')" and "sin_ok s'"
    and "stream s' = xs"
proof -
  have u: "unat (of_nat CMD_SIZE - 1 :: u32) = 99" by simp
  have w: "10 \<notin> set w" "length w < 99" "0 \<notin> set w" using assms(3) by (auto simp: shell_line_def)
  have z: "0 \<notin> set (stream s)" using assms(2,4) w(3) by simp
  have l: "line_of 99 (stream s) = w @ [10]" unfolding assms(2) by (rule line_of_line [OF w(1,2)])
  obtain fin s' where g: "gets_loop 99 [10] True s = Some (w @ [10], fin, s')" "sin_ok s'" "stream s = (w @ [10]) @ stream s'"
    using gets_loop_line [OF assms(1) z, of 99] unfolding l by (auto simp: whole_line_def)
  have gl: "getline (of_nat CMD_SIZE) s = Some (w @ [10], s')" unfolding getline_def gets_def u by (simp add: g(1))
  have p: "patch (replicate CMD_SIZE 0) 0 ((w @ [10]) @ [0]) = w @ [10] @ 0 # replicate (CMD_SIZE - length w - 2) (0 :: u8)"
    using w(2) by (simp add: patch_def)
  show thesis
  proof (rule that)
    show "getcmd s = Some (w @ [10] @ 0 # replicate (CMD_SIZE - length w - 2) 0, s')"
      unfolding getcmd_def gl by (simp add: p [simplified])
  qed (use g assms(2) in auto)
qed

lemma getcmd_eof:
  assumes "sin_ok s" and "stream s = []"
  obtains s' where "getcmd s = Some (replicate CMD_SIZE 0, s')"
proof -
  have u: "unat (of_nat CMD_SIZE - 1 :: u32) = 99" by simp
  obtain fin s' where "gets_loop 99 [10] True s = Some ([], fin, s')"
    using gets_loop_line [OF assms(1), of 99] assms(2) by auto
  then have gl: "getline (of_nat CMD_SIZE) s = Some ([], s')" unfolding getline_def gets_def u by simp
  have p: "patch (replicate CMD_SIZE 0) 0 [0] = replicate CMD_SIZE (0 :: u8)"
    by (simp add: patch_def flip: replicate_Suc)
  show thesis by (rule that [of s']) (unfold getcmd_def gl, simp add: p)
qed

lemma not_cd:
  assumes "take 3 w \<noteq> [99, 100, 32 :: u8]"
  shows "\<not> ((w @ [10] @ ys) ! 0 = 99 \<and> (w @ [10] @ ys) ! 1 = 100 \<and> (w @ [10] @ ys) ! 2 = 32)"
proof (cases w)
  case (Cons a u)
  then show ?thesis
  proof (cases u)
    case (Cons b v)
    then show ?thesis using assms \<open>w = a # u\<close> by (cases v) (auto simp: nth_Cons' take_Cons')
  qed simp
qed simp

lemma shell_loop_line:
  assumes "sin_ok s" and "stream s = w @ 10 # xs" and w: "shell_line w" and "0 \<notin> set xs"
  obtains s' where "shell_loop chdir cwd s = do { es \<leftarrow> shell_loop chdir (line_cwd chdir cwd w) s'; Some (line_events chdir cwd w @ es) }"
    and "sin_ok s'" and "stream s' = xs"
proof -
  let ?buf = "w @ [10] @ 0 # replicate (CMD_SIZE - length w - 2) 0"
  obtain s' where g: "getcmd s = Some (?buf, s')" "sin_ok s'" "stream s' = xs" by (rule getcmd_line [OF assms])
  have z: "0 \<notin> set (w @ [10])" using w by (simp add: shell_line_def)
  have "cstr ?buf (w @ [10])" using z by (simp add: cstr_def)
  then have n: "strlen ?buf = Some (length w + 1)" by (auto dest: strlen_ok)
  have h: "?buf ! 0 \<noteq> 0" using z by (cases w) auto
  show thesis
  proof (cases "take 3 w = [99, 100, 32]")
    case True
    then obtain p where p: "w = [99, 100, 32] @ p" by (metis append_take_drop_id)
    have b: "?buf[length w + 1 - 1 := 0] = w @ [0] @ 0 # replicate (CMD_SIZE - length w - 2) 0"
      by (simp add: list_update_append)
    have m: "strlen (drop 3 (w @ [0] @ 0 # replicate (CMD_SIZE - length w - 2) 0)) = Some (length p)"
    proof (rule strlen_ok)
      show "cstr (drop 3 (w @ [0] @ 0 # replicate (CMD_SIZE - length w - 2) 0)) p"
        using z p by (simp add: cstr_def numeral_3_eq_3)
    qed
    have "?buf ! 0 = 99 \<and> ?buf ! 1 = 100 \<and> ?buf ! 2 = 32" unfolding p by (simp add: numeral_2_eq_2)
    then have "shell_loop chdir cwd s = do { es \<leftarrow> shell_loop chdir (line_cwd chdir cwd w) s'; Some (line_events chdir cwd w @ es) }"
      using h n m b True by (subst shell_loop.simps) (simp add: g(1) line_events_def line_cwd_def p numeral_3_eq_3)
    then show thesis using g(2,3) by (rule that)
  next
    case False
    have "\<not> (?buf ! 0 = 99 \<and> ?buf ! 1 = 100 \<and> ?buf ! 2 = 32)"
      by (rule not_cd [OF False])
    then have "shell_loop chdir cwd s = do { es \<leftarrow> shell_loop chdir (line_cwd chdir cwd w) s'; Some (line_events chdir cwd w @ es) }"
      using h n False by (subst shell_loop.simps) (auto simp add: g(1) line_events_def line_cwd_def)
    then show thesis using g(2,3) by (rule that)
  qed
qed

subsection \<open>The whole shell\<close>

text \<open>The events of all lines; where there is a change of directory, it holds for the lines behind it.\<close>

fun all_events :: "(bytes list \<Rightarrow> bytes \<Rightarrow> bool) \<Rightarrow> bytes list \<Rightarrow> bytes list \<Rightarrow> shell_event list" where
  "all_events chdir cwd [] = [Prompt]"
| "all_events chdir cwd (w # ws) = line_events chdir cwd w @ all_events chdir (line_cwd chdir cwd w) ws"

lemma shell_loop_lines:
  assumes "sin_ok s" and "\<forall>w \<in> set ws. shell_line w" and "stream s = concat (map (\<lambda>w. w @ [10]) ws)"
  shows "shell_loop chdir cwd s = Some (all_events chdir cwd ws)"
  using assms
proof (induction ws arbitrary: s cwd)
  case Nil
  obtain s' where "getcmd s = Some (replicate CMD_SIZE 0, s')" by (rule getcmd_eof [OF Nil.prems(1)]) (use Nil.prems(3) in simp)
  then show ?case by (subst shell_loop.simps) simp
next
  case (Cons w ws)
  have z: "0 \<notin> set (concat (map (\<lambda>w. w @ [10]) ws))" using Cons.prems(2) by (auto simp: shell_line_def)
  obtain s' where r: "shell_loop chdir cwd s = do { es \<leftarrow> shell_loop chdir (line_cwd chdir cwd w) s'; Some (line_events chdir cwd w @ es) }"
    "sin_ok s'" "stream s' = concat (map (\<lambda>w. w @ [10]) ws)"
    by (rule shell_loop_line [OF Cons.prems(1) _ _ z]) (use Cons.prems(2,3) in auto)
  then show ?case using Cons.IH [OF r(2) _ r(3)] Cons.prems(2) by simp
qed

subsection \<open>What is run\<close>

text \<open>The string at the place a word of the parsed command points to.\<close>

definition word_at_line :: "bytes \<Rightarrow> nat \<times> nat \<Rightarrow> bytes" where
  "word_at_line b w = takeWhile (\<lambda>c. c \<noteq> 0) (drop (fst w) b)"

text \<open>What the child of a line runs from \<open>now\<close> on; the child that the parser ends runs nothing.\<close>

definition run_child :: "bytes world \<Rightarrow> nat \<Rightarrow> bytes descs \<Rightarrow> nat \<Rightarrow> perr + (nat \<times> nat) act list \<times> bytes \<Rightarrow>
    bytes run list \<times> nat \<times> nat" where
  "run_child W now t n r = (case r of
     Inl e \<Rightarrow> ([], now, n)
   | Inr (acts, b) \<Rightarrow> run_acts W now t (0, 0) n [] (map (map_act (word_at_line b)) acts))"

text \<open>
  The events in time: what happens, each with the directory it happens in, and when the shell ends. \<open>W\<close> is the world
  as seen from a directory.
\<close>

fun run_events :: "(bytes list \<Rightarrow> bytes world) \<Rightarrow> bytes list \<Rightarrow> nat \<Rightarrow> bytes descs \<Rightarrow> nat \<Rightarrow> nat list \<Rightarrow> shell_event list \<Rightarrow>
    (bytes list \<times> bytes run) list \<times> nat" where
  "run_events W cwd now t n ends [] = ([], now)"
| "run_events W cwd now t n ends (Prompt # es) = run_events W cwd now t n ends es"
| "run_events W cwd now t n ends (Cd path ok # es) = run_events W (if ok then cwd @ [path] else cwd) now t n ends es"
| "run_events W cwd now t n ends (Child r # es) =
     (let (rs, e, n) = run_child (W cwd) now t n r; (rs', e') = run_events W cwd now t n (e # ends) es
      in (map (Pair cwd) rs @ rs', e'))"
| "run_events W cwd now t n ends (WaitChild # es) =
     (let (now, ends) = wait_child now ends; (rs, e) = run_events W cwd now t n ends es in ((cwd, Waits t) # rs, e))"

text \<open>The descriptors \<open>main\<close> starts with: it opens the console and duplicates it twice.\<close>

definition console :: bytes where
  "console = [47, 100, 101, 118, 47, 115, 101, 114, 105, 97, 108]"

definition shell_descs :: "bytes descs option" where
  "shell_descs = map_option (dup_desc 0 \<circ> dup_desc 0) (open_file console 0x002 (replicate 32 None))"

text \<open>
  And what the lines mean: a change of directory holds from there on if it succeeds, and a command begins when the one
  before it has ended, with the console as its three descriptors.
\<close>

abbreviation (input) on_console :: "bytes descs" where
  "on_console \<equiv> replicate 3 (Some (OpenFile console 0x002 (0, 0))) @ replicate 29 None"

fun lines_mean :: "(bytes list \<Rightarrow> bytes world) \<Rightarrow> (bytes list \<Rightarrow> bytes \<Rightarrow> bool) \<Rightarrow> bytes list \<Rightarrow> nat \<Rightarrow> nat \<Rightarrow> (bytes + bytes cmd) list \<Rightarrow>
    (bytes list \<times> bytes run) list \<times> nat" where
  "lines_mean W chdir cwd now n [] = ([], now)"
| "lines_mean W chdir cwd now n (Inl path # ls) =
     lines_mean W chdir (if chdir cwd path then cwd @ [path] else cwd) now n ls"
| "lines_mean W chdir cwd now n (Inr c # ls) =
     (let (rs, now, n) = means (W cwd) now on_console n c; (rs', e) = lines_mean W chdir cwd now n ls
      in (map (Pair cwd) rs @ (cwd, Waits on_console) # rs', e))"

text \<open>The text of a line, and the lines that fit the buffer; a command whose text begins like a change of directory is one.\<close>

fun line_text :: "bytes + bytes cmd \<Rightarrow> bytes" where
  "line_text (Inl path) = [99, 100, 32] @ path"
| "line_text (Inr c) = show_cmd 0 c"

fun line_fits :: "bytes + bytes cmd \<Rightarrow> bool" where
  "line_fits (Inl path) \<longleftrightarrow> shell_line ([99, 100, 32] @ path)"
| "line_fits (Inr c) \<longleftrightarrow> wf_cmd c \<and> shell_line (show_cmd 0 c) \<and> take 3 (show_cmd 0 c) \<noteq> [99, 100, 32]"

text \<open>Running a command and running what was parsed of it.\<close>

lemma runcmd_rel: "rel_cmd R c d \<Longrightarrow> list_all2 (rel_act R) (runcmd c) (runcmd d)"
proof (induction c d rule: cmd.rel_induct)
  case (Exec ws vs)
  then show ?case by (cases ws; cases vs) auto
qed (auto simp: list_all2_appendI)

lemma cstr_word: "cstr (drop q b) w \<Longrightarrow> word_at_line b (q, e) = w"
proof (elim cstrE)
  fix rest assume "drop q b = w @ 0 # rest" "0 \<notin> set w"
  moreover from this(2) have "takeWhile (\<lambda>c. c \<noteq> 0) (w @ 0 # rest) = w" by (induction w) auto
  ultimately show ?thesis by (simp add: word_at_line_def)
qed

lemma shell_child_show:
  assumes "wf_cmd c"
  shows "\<exists>acts b. shell_child (show_cmd 0 c @ [10] @ 0 # rest) (length (show_cmd 0 c) + 1) = Inr (acts, b) \<and>
    map (map_act (word_at_line b)) acts = runcmd c"
proof -
  have "list_all blank [10]" "0 \<notin> set [10 :: u8]" by (simp_all add: has_def whitespace_def)
  then obtain c' b where c': "parsecmd (show_cmd 0 c @ [10] @ 0 # rest) (length (show_cmd 0 c @ [10])) = Inr (c', b)"
    "rel_cmd (\<lambda>(q, _) w. cstr (drop q b) w) c' c"
    using parsecmd_words [OF assms(1)] by blast
  have "rel_cmd (\<lambda>x y. word_at_line b x = y) c' c"
    by (rule cmd.rel_mono_strong [OF c'(2)]) (auto simp: cstr_word split: prod.splits)
  then have "list_all2 (rel_act (\<lambda>x y. word_at_line b x = y)) (runcmd c') (runcmd c)" by (rule runcmd_rel)
  then have "list_all2 (\<lambda>x y. map_act (word_at_line b) x = y) (runcmd c') (runcmd c)"
    by (rule list_all2_mono) (simp add: act.rel_map(1) [of "(=)", symmetric] act.rel_eq)
  then have "map (map_act (word_at_line b)) (runcmd c') = runcmd c"
    by (simp add: list_all2_conv_all_nth list_eq_iff_nth_eq)
  then show ?thesis using c'(1) by (intro exI [of _ "runcmd c'"] exI [of _ b]) (simp add: shell_child_def)
qed

lemma run_lines_mean:
  assumes "\<forall>l \<in> set ls. line_fits l"
  shows "run_events W cwd now on_console n [] (all_events chdir cwd (map line_text ls)) = lines_mean W chdir cwd now n ls"
  using assms
proof (induction ls arbitrary: cwd now n)
  case (Cons l ls)
  show ?case
  proof (cases l)
    case (Inl path)
    then show ?thesis using Cons by (simp add: line_events_def line_cwd_def)
  next
    case (Inr c)
    then have c: "wf_cmd c" "take 3 (show_cmd 0 c) \<noteq> [99, 100, 32]" using Cons.prems by simp_all
    let ?buf = "show_cmd 0 c @ [10] @ 0 # replicate (CMD_SIZE - length (show_cmd 0 c) - 2) 0"
    obtain acts b where a: "shell_child ?buf (length (show_cmd 0 c) + 1) = Inr (acts, b)" "map (map_act (word_at_line b)) acts = runcmd c"
      using shell_child_show [OF c(1)] by blast
    have "std_descs (on_console)" by (simp add: std_descs_def numeral_eq_Suc)
    then have "run_child (W cwd) now on_console n (shell_child ?buf (length (show_cmd 0 c) + 1)) = means (W cwd) now on_console n c"
      using run_acts_means [OF _ c(1)] unfolding run_child_def a by (simp add: a(2))
    moreover obtain rs e n' where m: "means (W cwd) now on_console n c = (rs, e, n')" by (metis prod_cases3)
    ultimately show ?thesis using Cons means_ends [OF m] Inr c(2) by (simp add: line_events_def line_cwd_def split: prod.split)
  qed
qed simp

text \<open>
  C26: the shell runs what is typed. For every sequence of lines that fit its buffer, commands and changes of directory, however
  \<open>read\<close> cuts them, it reads, parses and runs them and stops at the end of the input, and what is run is what the
  commands mean: the system calls of \<open>runcmd\<close>, on the words that are C strings in the parsed line, start the same
  programs with the same words and descriptors, at the same times and in the same directories, as \<open>means\<close> says of the
  commands: a redirection replaces one descriptor, the programs of a pipe are joined by it, and neither they nor the
  process that waits for them hold another end of it, the second command of a list starts when the first has ended, the next line when the command before it has, a
  background command is not waited for. Programs run for any time, \<open>exec\<close> and \<open>open\<close> succeed or fail as they like; \<open>fork\<close> and
  \<open>pipe\<close> (which the kernel does not have, C30) succeed.
\<close>

theorem shell_runs_commands:
  assumes "sin_ok s" and "\<forall>l \<in> set ls. line_fits l" and "stream s = concat (map (\<lambda>l. line_text l @ [10]) ls)"
  shows "\<exists>es t. shell_loop chdir [] s = Some es \<and> shell_descs = Some t \<and>
    run_events W [] now t 0 [] es = lines_mean W chdir [] now 0 ls"
proof (intro exI conjI)
  have "\<forall>l \<in> set ls. shell_line (line_text l)"
    using assms(2) by (metis line_fits.simps line_text.simps sum.exhaust)
  then show "shell_loop chdir [] s = Some (all_events chdir [] (map line_text ls))"
    using shell_loop_lines [OF assms(1), of "map line_text ls"] assms(3) by (simp add: comp_def)
  show "shell_descs = Some on_console" by (simp add: shell_descs_def open_file_def dup_desc_def numeral_eq_Suc)
  show "run_events W [] now on_console 0 [] (all_events chdir [] (map line_text ls)) = lines_mean W chdir [] now 0 ls"
    by (rule run_lines_mean [OF assms(2)])
qed

text \<open>\<open>ls | wc\<close>, \<open>cd a\<close> and \<open>ls > a &\<close>; every program runs for 5.\<close>

definition demo_world :: "bytes world" where
  "demo_world = \<lparr>runs_for = (\<lambda>now ws t. Some 5), can_open = (\<lambda>now f m. True)\<rparr>"

theorem shell_runs_commands_witness:
  "\<exists>es t. shell_loop (\<lambda>_ _. True) [] \<lparr>sin_buf = replicate 256 0, sin_head = 0, sin_tail = 0,
      sin_reads = [Some [108, 115, 32, 124, 119, 99, 32, 10, 99], Some [100, 32, 97, 10, 108, 115, 32, 62, 97, 32, 38, 10]]\<rparr> = Some es \<and>
    shell_descs = Some t \<and>
    [(cwd, now, ws, take 4 d). (cwd, Ran now ws d) \<leftarrow> fst (run_events (\<lambda>_. demo_world) [] 0 t 0 [] es)] =
      [([], 0, [[108, 115]], [t ! 0, Some (WriteEnd 0), t ! 0, None]), ([], 0, [[119, 99]], [Some (ReadEnd 0), t ! 0, t ! 0, None]),
       ([[97]], 5, [[108, 115]], [t ! 0, Some (OpenFile [97] (0x001 OR 0x200 OR 0x400) (0, 0)), t ! 0, None])]"
proof -
  let ?s = "\<lparr>sin_buf = replicate 256 0, sin_head = 0, sin_tail = 0,
      sin_reads = [Some [108, 115, 32, 124, 119, 99, 32, 10, 99], Some [100, 32, 97, 10, 108, 115, 32, 62, 97, 32, 38, 10]]\<rparr>"
  let ?c1 = "Pipe (Exec [[108, 115]]) (Exec [[119, 99]]) :: bytes cmd"
  let ?c2 = "Back (Redir (Exec [[108, 115]]) [97] (0x001 OR 0x200 OR 0x400) 1 0) :: bytes cmd"
  let ?ls = "[Inr ?c1, Inl [97], Inr ?c2]"
  have ok: "sin_ok ?s" by (simp add: sin_ok_def)
  have fits: "\<forall>l \<in> set ?ls. line_fits l"
    by (simp add: shell_line_def bracket_def redir_op_def is_word_def word_char_def has_def whitespace_def symbols_def)
  have st: "stream ?s = concat (map (\<lambda>l. line_text l @ [10]) ?ls)" by (simp add: stream_def bracket_def redir_op_def)
  obtain es t where es: "shell_loop (\<lambda>_ _. True) [] ?s = Some es" "shell_descs = Some t"
    "run_events (\<lambda>_. demo_world) [] 0 t 0 [] es = lines_mean (\<lambda>_. demo_world) (\<lambda>_ _. True) [] 0 0 ?ls"
    using shell_runs_commands [OF ok fits st, of "\<lambda>_ _. True" "\<lambda>_. demo_world" 0] by blast
  have "t = on_console" using es(2) by (simp add: shell_descs_def open_file_def dup_desc_def numeral_eq_Suc)
  then show ?thesis using es by (intro exI [of _ es] exI [of _ t]) (simp add: demo_world_def numeral_eq_Suc)
qed

end
