(* ===== verification/UHeap.thy ===== *)
theory UHeap
  imports Prelude
begin

text \<open>
  The heap of a user program, \<open>user/ulib/stdlib.c\<close>: \<open>sbrk\<close>, and \<open>malloc\<close> and \<open>free\<close> over a ring of
  free blocks in address order. A block is a header of two words, the next block and the size in
  units of 8 bytes (header included), and its data; \<open>base\<close>, in the data of the program, is the block of
  size 0 that closes the ring. Memory is a function from addresses to words, as every access of these
  routines is to a whole word of a header. \<open>brk_ok\<close> says for which addresses the system call \<open>brk\<close>
  returns 0; \<open>base_at\<close> and \<open>end_at\<close> are where the linker put \<open>base\<close> and \<open>end\<close>.
\<close>

subsection \<open>Memory and the break\<close>

record uheap =
  mem :: "u32 \<Rightarrow> u32"
  freep :: u32
  old_brk :: u32
  brk_ok :: "u32 \<Rightarrow> bool"
  base_at :: u32
  end_at :: u32

definition hptr :: "uheap \<Rightarrow> u32 \<Rightarrow> u32" where
  "hptr s p = mem s p"

definition hsize :: "uheap \<Rightarrow> u32 \<Rightarrow> u32" where
  "hsize s p = mem s (p + 4)"

definition set_hptr :: "u32 \<Rightarrow> u32 \<Rightarrow> uheap \<Rightarrow> uheap" where
  "set_hptr p v s = s\<lparr>mem := (mem s)(p := v)\<rparr>"

definition set_hsize :: "u32 \<Rightarrow> u32 \<Rightarrow> uheap \<Rightarrow> uheap" where
  "set_hsize p v s = s\<lparr>mem := (mem s)(p + 4 := v)\<rparr>"

definition sbrk :: "u32 \<Rightarrow> uheap \<Rightarrow> (u32 \<times> uheap) option" where
  "sbrk increment s = do {
     s \<leftarrow> (if old_brk s = 0 then
             let s = s\<lparr>old_brk := (end_at s + 4095) AND 0xfffff000\<rparr> in
             if brk_ok s (old_brk s) then Some s else None
           else Some s);
     if brk_ok s (old_brk s + increment)
     then Some (old_brk s, s\<lparr>old_brk := old_brk s + increment\<rparr>)
     else Some (-1, s) }"

subsection \<open>free\<close>

definition free_stop :: "(u32 \<Rightarrow> u32) \<Rightarrow> u32 \<Rightarrow> u32 \<Rightarrow> bool" where
  "free_stop m bp p \<longleftrightarrow> (bp > p \<and> bp < m p) \<or> (p \<ge> m p \<and> (bp > p \<or> bp < m p))"

text \<open>The search; \<open>NULL\<close> cannot be read.\<close>

partial_function (option) free_find :: "uheap \<Rightarrow> u32 \<Rightarrow> u32 \<Rightarrow> u32 option" where
  "free_find s bp p =
     (if p = 0 then None
      else if free_stop (hptr s) bp p then Some p else free_find s bp (hptr s p))"

definition free_link :: "u32 \<Rightarrow> u32 \<Rightarrow> uheap \<Rightarrow> uheap" where
  "free_link bp p s =
     (let s = (if bp + 8 * hsize s bp = hptr s p
               then let s = set_hsize bp (hsize s bp + hsize s (hptr s p)) s in set_hptr bp (hptr s (hptr s p)) s
               else set_hptr bp (hptr s p) s);
          s = (if p + 8 * hsize s p = bp
               then let s = set_hsize p (hsize s p + hsize s bp) s in set_hptr p (hptr s bp) s
               else set_hptr p bp s)
      in s\<lparr>freep := p\<rparr>)"

definition free :: "u32 \<Rightarrow> uheap \<Rightarrow> uheap option" where
  "free ap s = do {
     let bp = ap - 8;
     p \<leftarrow> free_find s bp (freep s);
     Some (free_link bp p s) }"

subsection \<open>malloc\<close>

definition morecore :: "u32 \<Rightarrow> uheap \<Rightarrow> (u32 \<times> uheap) option" where
  "morecore nu s = do {
     let nu = (if nu < 4096 then 4096 else nu);
     (p, s) \<leftarrow> sbrk (nu * 8) s;
     if p = -1 then Some (0, s)
     else do {
       s \<leftarrow> free (p + 8) (set_hsize p nu s);
       Some (freep s, s) } }"

text \<open>The block \<open>p\<close> behind \<open>prevp\<close> is taken, or its tail.\<close>

definition carve :: "u32 \<Rightarrow> u32 \<Rightarrow> u32 \<Rightarrow> uheap \<Rightarrow> u32 \<times> uheap" where
  "carve nunits prevp p s =
     (let (p, s) =
        (if hsize s p = nunits then (p, set_hptr prevp (hptr s p) s)
         else
           let s = set_hsize p (hsize s p - nunits) s;
               p = p + 8 * hsize s p
           in (p, set_hsize p nunits s))
      in (p + 8, s\<lparr>freep := prevp\<rparr>))"

partial_function (option) malloc_loop :: "u32 \<Rightarrow> u32 \<Rightarrow> u32 \<Rightarrow> uheap \<Rightarrow> (u32 \<times> uheap) option" where
  "malloc_loop nunits prevp p s =
     (if hsize s p \<ge> nunits then Some (carve nunits prevp p s)
      else if p = freep s then do {
        (p, s) \<leftarrow> morecore nunits s;
        if p = 0 then Some (0, s) else malloc_loop nunits p (hptr s p) s }
      else malloc_loop nunits p (hptr s p) s)"

definition nunits_of :: "u32 \<Rightarrow> u32" where
  "nunits_of nbytes = (nbytes + 8 - 1) div 8 + 1"

definition malloc :: "u32 \<Rightarrow> uheap \<Rightarrow> (u32 \<times> uheap) option" where
  "malloc nbytes s = do {
     let s = (if freep s = 0 then set_hsize (base_at s) 0 (set_hptr (base_at s) (base_at s) (s\<lparr>freep := base_at s\<rparr>)) else s);
     malloc_loop (nunits_of nbytes) (freep s) (hptr s (freep s)) s }"

declare free_find.simps [code] malloc_loop.simps [code]

subsection \<open>Paths\<close>

text \<open>\<open>xs\<close> are the blocks one passes from \<open>x\<close> before one is at \<open>y\<close>.\<close>

primrec path :: "(u32 \<Rightarrow> u32) \<Rightarrow> u32 \<Rightarrow> u32 list \<Rightarrow> u32 \<Rightarrow> bool" where
  "path m x [] y \<longleftrightarrow> x = y"
| "path m x (a # xs) y \<longleftrightarrow> x = a \<and> path m (m a) xs y"

lemma path_append [simp]: "path m x (xs @ ys) y \<longleftrightarrow> (\<exists>z. path m x xs z \<and> path m z ys y)"
  by (induction xs arbitrary: x) auto

lemma path_upd [simp]: "a \<notin> set xs \<Longrightarrow> path (m(a := v)) x xs y \<longleftrightarrow> path m x xs y"
  by (induction xs arbitrary: x) auto

lemma path_cong: "(\<And>a. a \<in> set xs \<Longrightarrow> m a = m' a) \<Longrightarrow> path m x xs y \<longleftrightarrow> path m' x xs y"
  by (induction xs arbitrary: x) auto

text \<open>A ring can be read from each of its blocks.\<close>

lemma path_rotate: "path m b (us @ f # vs) b \<Longrightarrow> path m f (f # vs @ us) f"
  by auto

lemma path_next: "path m b (us @ a # c # vs) y \<Longrightarrow> m a = c"
  by auto

lemma path_map: "path m x xs y \<Longrightarrow> x # map m xs = xs @ [y]"
  by (induction xs arbitrary: x) auto

lemma path_inj:
  assumes p: "path m b (b # F) b" and d: "distinct (b # F)"
  shows "inj_on m (set (b # F))"
proof -
  have "map m (b # F) = F @ [b]" using path_map [OF p] by simp
  then have "distinct (map m (b # F))" using d by simp
  then show ?thesis by (simp only: distinct_map)
qed

lemma free_find_walk:
  "path (hptr s) x xs y \<Longrightarrow> \<forall>a \<in> set xs. a \<noteq> 0 \<and> \<not> free_stop (hptr s) bp a \<Longrightarrow>
    free_find s bp x = free_find s bp y"
proof (induction xs arbitrary: x)
  case (Cons a xs)
  then show ?case by (subst free_find.simps) auto
qed simp

lemma malloc_loop_walk:
  "path (hptr s) x xs (freep s) \<Longrightarrow> freep s \<notin> set xs \<Longrightarrow> hptr s prevp = x \<Longrightarrow>
    \<exists>prevp' p. malloc_loop n prevp x s = malloc_loop n prevp' p s \<and> hptr s prevp' = p \<and>
      prevp' \<in> set (prevp # xs) \<and> (p = freep s \<or> p \<in> set xs \<and> n \<le> hsize s p)"
proof (induction xs arbitrary: x prevp)
  case (Cons a xs)
  show ?case
  proof (cases "n \<le> hsize s a")
    case True
    then show ?thesis using Cons.prems by (intro exI [of _ prevp] exI [of _ x]) auto
  next
    case False
    have "path (hptr s) (hptr s a) xs (freep s)" "freep s \<notin> set xs" using Cons.prems by auto
    then obtain prevp' p where "malloc_loop n a (hptr s a) s = malloc_loop n prevp' p s" "hptr s prevp' = p"
        "prevp' \<in> set (a # xs)" "p = freep s \<or> p \<in> set xs \<and> n \<le> hsize s p"
      using Cons.IH by blast
    moreover have "malloc_loop n prevp x s = malloc_loop n a (hptr s a) s"
      using Cons.prems False by (subst malloc_loop.simps) auto
    ultimately show ?thesis by (intro exI [of _ prevp'] exI [of _ p]) auto
  qed
qed auto

end
