(* ===== verification/UHeapFree.thy ===== *)
theory UHeapFree
  imports UHeap
begin

text \<open>
  The invariant of the heap of \<open>UHeap\<close>: the free blocks are a ring in address order without neighbours,
  and together with the blocks in use they tile the memory between the end of the program and the break;
  and \<open>free\<close>, which joins the block it is given with the free blocks it touches.
\<close>

subsection \<open>Tilings\<close>

definition blk :: "(u32 \<Rightarrow> nat) \<Rightarrow> u32 \<Rightarrow> nat set" where
  "blk f a = {unat a ..< unat a + 8 * f a}"

definition tiles :: "(u32 \<Rightarrow> nat) \<Rightarrow> u32 set \<Rightarrow> nat \<Rightarrow> nat \<Rightarrow> bool" where
  "tiles f B lo hi \<longleftrightarrow> (\<forall>a \<in> B. 0 < f a) \<and> (\<forall>a \<in> B. \<forall>b \<in> B. a \<noteq> b \<longrightarrow> blk f a \<inter> blk f b = {}) \<and>
     (\<Union>a \<in> B. blk f a) = {lo..<hi}"

lemma tiles_cong:
  assumes "\<And>a. a \<in> B \<Longrightarrow> f a = g a" and "tiles f B lo hi"
  shows "tiles g B lo hi"
proof -
  have "\<And>a. a \<in> B \<Longrightarrow> blk g a = blk f a" using assms(1) by (simp add: blk_def)
  then show ?thesis using assms by (simp add: tiles_def)
qed

lemma tiles_bounds:
  assumes "tiles f B lo hi" and "a \<in> B"
  shows "0 < f a" "lo \<le> unat a" "unat a + 8 * f a \<le> hi"
proof -
  show f: "0 < f a" using assms by (simp add: tiles_def)
  have s: "blk f a \<subseteq> {lo..<hi}" using assms by (auto simp: tiles_def)
  moreover have "unat a \<in> blk f a" "unat a + 8 * f a - 1 \<in> blk f a" using f by (auto simp: blk_def)
  ultimately show "lo \<le> unat a" "unat a + 8 * f a \<le> hi" by fastforce+
qed

lemma tiles_disjoint: "tiles f B lo hi \<Longrightarrow> a \<in> B \<Longrightarrow> b \<in> B \<Longrightarrow> a \<noteq> b \<Longrightarrow> blk f a \<inter> blk f b = {}"
  by (simp add: tiles_def)

lemma tiles_before:
  assumes "tiles f B lo hi" and "a \<in> B" and "b \<in> B" and "a < b"
  shows "unat a + 8 * f a \<le> unat b"
proof (rule ccontr)
  assume "\<not> ?thesis"
  then have "unat b \<in> blk f a \<inter> blk f b"
    using assms tiles_bounds(1) [OF assms(1,3)] by (auto simp: blk_def word_less_nat_alt)
  moreover have "blk f a \<inter> blk f b = {}" using assms by (auto simp: tiles_def)
  ultimately show False by blast
qed

text \<open>Two neighbours joined, a block cut in two, a block added at the end.\<close>

lemma tiles_merge:
  assumes t: "tiles f B lo hi" and ab: "a \<in> B" "b \<in> B" and adj: "unat b = unat a + 8 * f a"
  shows "tiles (f(a := f a + f b)) (B - {b}) lo hi"
proof -
  let ?f = "f(a := f a + f b)"
  have ne: "a \<noteq> b" using adj tiles_bounds(1) [OF t ab(1)] by auto
  have u: "blk ?f a = blk f a \<union> blk f b" using adj by (auto simp: blk_def)
  have o: "blk ?f c = blk f c" if "c \<noteq> a" for c using that by (simp add: blk_def)
  have "blk ?f c \<inter> blk ?f d = {}" if "c \<in> B - {b}" "d \<in> B - {b}" "c \<noteq> d" for c d
  proof -
    have D: "\<And>x y. x \<in> B \<Longrightarrow> y \<in> B \<Longrightarrow> x \<noteq> y \<Longrightarrow> blk f x \<inter> blk f y = {}" using t by (simp add: tiles_def)
    consider "c = a" | "d = a" | "c \<noteq> a" "d \<noteq> a" by blast
    then show ?thesis
      by cases (use that ab u o D [of a d] D [of b d] D [of c a] D [of c b] D [of c d] in auto)
  qed
  moreover have "(\<Union>c \<in> B - {b}. blk ?f c) = {lo..<hi}"
  proof -
    have "(\<Union>c \<in> B - {b}. blk ?f c) = blk ?f a \<union> (\<Union>c \<in> B - {b} - {a}. blk ?f c)" using ab ne by blast
    also have "\<dots> = blk f a \<union> blk f b \<union> (\<Union>c \<in> B - {b} - {a}. blk f c)" using o u by simp
    also have "\<dots> = (\<Union>c \<in> B. blk f c)" using ab by blast
    finally show ?thesis using t by (simp add: tiles_def)
  qed
  ultimately show ?thesis using t ab by (auto simp: tiles_def)
qed

lemma tiles_split:
  assumes t: "tiles f B lo hi" and a: "a \<in> B" and n: "0 < n" "n < f a" and hi: "hi < 2 ^ 32"
    and b: "unat b = unat a + 8 * (f a - n)"
  shows "tiles (f(a := f a - n, b := n)) (insert b B) lo hi \<and> b \<notin> B"
proof
  let ?f = "f(a := f a - n, b := n)"
  have ne: "a \<noteq> b" using b n by auto
  have ba: "unat b \<in> blk f a" using b n by (auto simp: blk_def)
  show nB: "b \<notin> B"
  proof
    assume bB: "b \<in> B"
    then have "unat b \<in> blk f b" using tiles_bounds(1) [OF t bB] by (auto simp: blk_def)
    then show False using ba bB ne t a unfolding tiles_def by blast
  qed
  have u: "blk f a = blk ?f a \<union> blk ?f b" using b n ne by (auto simp: blk_def)
  have d0: "blk ?f a \<inter> blk ?f b = {}" using b n ne by (auto simp: blk_def)
  have o: "blk ?f c = blk f c" if "c \<in> B" "c \<noteq> a" for c using that nB by (auto simp: blk_def)
  have "blk ?f c \<inter> blk ?f d = {}" if "c \<in> insert b B" "d \<in> insert b B" "c \<noteq> d" for c d
  proof -
    have D: "\<And>x y. x \<in> B \<Longrightarrow> y \<in> B \<Longrightarrow> x \<noteq> y \<Longrightarrow> blk f x \<inter> blk f y = {}" using t by (simp add: tiles_def)
    have A: "blk ?f a \<inter> blk ?f x = {}" "blk ?f b \<inter> blk ?f x = {}" if "x \<in> B" "x \<noteq> a" for x
      using D [OF a that(1)] that o [OF that] u by auto
    note cd = that
    consider "c \<in> {a, b}" "d \<in> {a, b}" | "c \<in> {a, b}" "d \<in> B - {a}" | "c \<in> B - {a}" "d \<in> {a, b}"
      | "c \<in> B - {a}" "d \<in> B - {a}" using cd by blast
    then show ?thesis
    proof cases
      case 4
      then show ?thesis using D [of c d] o [of c] o [of d] cd(3) by auto
    qed (use cd(3) A d0 in blast)+
  qed
  moreover have "(\<Union>c \<in> insert b B. blk ?f c) = {lo..<hi}"
  proof -
    have "(\<Union>c \<in> insert b B. blk ?f c) = blk ?f a \<union> blk ?f b \<union> (\<Union>c \<in> B - {a}. blk ?f c)" using a by blast
    also have "\<dots> = blk f a \<union> (\<Union>c \<in> B - {a}. blk f c)" using o u by simp
    also have "\<dots> = (\<Union>c \<in> B. blk f c)" using a by blast
    finally show ?thesis using t by (simp add: tiles_def)
  qed
  ultimately show "tiles ?f (insert b B) lo hi" using t n by (auto simp: tiles_def)
qed

lemma tiles_extend:
  assumes t: "tiles f B lo hi" and h: "unat a = hi" "lo \<le> hi" and n: "0 < n"
  shows "tiles (f(a := n)) (insert a B) lo (hi + 8 * n) \<and> a \<notin> B"
proof
  show nB: "a \<notin> B" using tiles_bounds [OF t, of a] h by auto
  have o: "blk (f(a := n)) c = blk f c" if "c \<in> B" for c using that nB by (auto simp: blk_def)
  have s: "blk f c \<subseteq> {lo..<hi}" if "c \<in> B" for c using t that by (auto simp: tiles_def)
  have x: "blk (f(a := n)) a = {hi..<hi + 8 * n}" using h by (simp add: blk_def)
  have "(\<Union>c \<in> insert a B. blk (f(a := n)) c) = {hi..<hi + 8 * n} \<union> (\<Union>c \<in> B. blk f c)" using o x by simp
  also have "\<dots> = {lo..<hi + 8 * n}" using t h by (auto simp: tiles_def)
  finally have U: "(\<Union>c \<in> insert a B. blk (f(a := n)) c) = {lo..<hi + 8 * n}" .
  have P: "blk (f(a := n)) c \<inter> blk (f(a := n)) d = {}" if "c \<in> insert a B" "d \<in> insert a B" "c \<noteq> d" for c d
  proof -
    have S: "blk (f(a := n)) a \<inter> blk f c = {}" if "c \<in> B" for c using s [OF that] x by fastforce
    have "\<And>x y. x \<in> B \<Longrightarrow> y \<in> B \<Longrightarrow> x \<noteq> y \<Longrightarrow> blk f x \<inter> blk f y = {}" using t by (simp add: tiles_def)
    then show ?thesis using that S o by (metis Int_commute insert_iff)
  qed
  show "tiles (f(a := n)) (insert a B) lo (hi + 8 * n)" unfolding tiles_def
    using U P t n by (auto simp: tiles_def)
qed

subsection \<open>The invariant\<close>

definition sz :: "uheap \<Rightarrow> u32 \<Rightarrow> nat" where
  "sz s a = unat (hsize s a)"

definition heap_lo :: "uheap \<Rightarrow> nat" where
  "heap_lo s = unat ((end_at s + 4095) AND 0xfffff000)"

definition heap_hi :: "uheap \<Rightarrow> nat" where
  "heap_hi s = (if old_brk s = 0 then heap_lo s else unat (old_brk s))"

text \<open>The free blocks \<open>F\<close> and the blocks in use \<open>L\<close>, each by the address of its header.\<close>

definition hinv :: "uheap \<Rightarrow> u32 list \<Rightarrow> u32 set \<Rightarrow> bool" where
  "hinv s F L \<longleftrightarrow>
     base_at s \<noteq> 0 \<and> unat (base_at s) + 8 \<le> heap_lo s \<and>
     path (hptr s) (base_at s) (base_at s # F) (base_at s) \<and> hsize s (base_at s) = 0 \<and>
     freep s \<in> set (base_at s # F) \<and> sorted_wrt (<) F \<and>
     (\<forall>a \<in> set F. \<forall>b \<in> set F. unat a + 8 * sz s a \<noteq> unat b) \<and>
     set F \<inter> L = {} \<and> heap_lo s \<le> heap_hi s \<and> tiles (sz s) (set F \<union> L) (heap_lo s) (heap_hi s)"

lemma heap_hi_less: "heap_hi s < 2 ^ 32"
  using unsigned_less [of "old_brk s", where 'a = nat] unsigned_less [of "(end_at s + 4095) AND 0xfffff000", where 'a = nat]
  by (simp add: heap_hi_def heap_lo_def)

lemma hinvD:
  assumes "hinv s F L"
  shows "base_at s \<noteq> 0" "unat (base_at s) + 8 \<le> heap_lo s"
    "path (hptr s) (base_at s) (base_at s # F) (base_at s)" "hsize s (base_at s) = 0"
    "freep s \<in> set (base_at s # F)" "sorted_wrt (<) F"
    "\<And>a b. a \<in> set F \<Longrightarrow> b \<in> set F \<Longrightarrow> unat a + 8 * sz s a \<noteq> unat b"
    "set F \<inter> L = {}" "heap_lo s \<le> heap_hi s" "tiles (sz s) (set F \<union> L) (heap_lo s) (heap_hi s)"
  using assms by (auto simp: hinv_def)

lemma hinv_base_less: "hinv s F L \<Longrightarrow> a \<in> set F \<union> L \<Longrightarrow> base_at s < a"
  using hinvD(2) [of s F L] tiles_bounds(2) [OF hinvD(10)] by (fastforce simp: word_less_nat_alt)

lemma hinv_distinct: "hinv s F L \<Longrightarrow> distinct (base_at s # F)"
  using hinvD(6) [of s F L] hinv_base_less [of s F L] by (auto simp: strict_sorted_iff)

lemma hinv_end:
  assumes "hinv s F L" and "a \<in> set F \<union> L"
  shows "unat (a + 8 * hsize s a) = unat a + 8 * sz s a" "unat (8 * hsize s a) = 8 * sz s a"
proof -
  have e: "unat a + 8 * sz s a < 2 ^ 32"
    using tiles_bounds(3) [OF hinvD(10) [OF assms(1)] assms(2)] heap_hi_less [of s] by linarith
  then show m: "unat (8 * hsize s a) = 8 * sz s a"
    by (simp add: sz_def unat_word_ariths)
  show "unat (a + 8 * hsize s a) = unat a + 8 * sz s a"
    using e m by (subst unat_plus_if_size) (simp add: word_size)
qed

text \<open>The words of the headers are all different.\<close>

lemma hinv_sep:
  assumes h: "hinv s F L" and a: "a \<in> insert (base_at s) (set F \<union> L)" and b: "b \<in> insert (base_at s) (set F \<union> L)"
  shows "a \<noteq> b + 4"
proof
  assume e: "a = b + 4"
  note t = tiles_bounds [OF hinvD(10) [OF h]]
  have "unat b + 8 \<le> heap_hi s" using b t(1,3) [of b] hinvD(2,9) [OF h] by fastforce
  then have u: "unat a = unat b + 4" using e heap_hi_less [of s]
    by (simp add: unat_word_ariths)
  have *: "\<not> (a \<in> set F \<union> L \<and> b \<in> set F \<union> L)"
    using tiles_before [OF hinvD(10) [OF h], of b a] t(1) [of b] u by (fastforce simp: word_less_nat_alt)
  then show False using a b t(2) [of a] t(2) [of b] hinvD(2) [OF h] u by auto
qed

subsection \<open>free\<close>

lemma free_link_effect:
  fixes s bp p
  defines "nx \<equiv> hptr s p"
  defines "r \<equiv> bp + 8 * hsize s bp = nx"
  defines "q \<equiv> (if r then hptr s nx else nx)"
  defines "l \<equiv> p + 8 * hsize s p = bp"
  assumes sep0: "\<forall>a \<in> N. \<forall>c \<in> N. a \<noteq> c + 4" and N: "p \<in> N" "bp \<in> N" "nx \<in> N" and ne: "p \<noteq> bp" "nx \<noteq> bp"
  shows "a \<in> N \<Longrightarrow> hptr (free_link bp p s) a =
      (if a = p then if l then q else bp else if a = bp then q else hptr s a)"
    and "a \<in> N \<Longrightarrow> hsize (free_link bp p s) a =
      (let sb = (if r then hsize s bp + hsize s nx else hsize s bp) in
       if a = p then if l then hsize s p + sb else hsize s p else if a = bp then sb else hsize s a)"
    and "x \<notin> {bp, bp + 4, p, p + 4} \<Longrightarrow> mem (free_link bp p s) x = mem s x"
    and "freep (free_link bp p s) = p" "old_brk (free_link bp p s) = old_brk s"
    and "base_at (free_link bp p s) = base_at s" "end_at (free_link bp p s) = end_at s"
    and "brk_ok (free_link bp p s) = brk_ok s"
proof -
  have sep: "a \<noteq> c + 4" if "a \<in> N" "c \<in> N" for a c using sep0 that by blast
  note S = sep [OF N(1,1)] sep [OF N(1,2)] sep [OF N(1,3)] sep [OF N(2,1)] sep [OF N(2,2)] sep [OF N(2,3)]
    sep [OF N(3,1)] sep [OF N(3,2)] sep [OF N(3,3)]
  note T = S S [THEN not_sym] ne ne [THEN not_sym]
  note D = free_link_def Let_def set_hptr_def set_hsize_def hptr_def hsize_def
  {
    assume a: "a \<in> N"
    note A = sep [OF a N(1)] sep [OF a N(2)] sep [OF a N(3)] sep [OF N(1) a] sep [OF N(2) a] sep [OF N(3) a]
    note A' = A A [THEN not_sym]
    show "hptr (free_link bp p s) a = (if a = p then if l then q else bp else if a = bp then q else hptr s a)"
      using T A' unfolding q_def l_def r_def nx_def by (simp add: D)
    show "hsize (free_link bp p s) a =
      (let sb = (if r then hsize s bp + hsize s nx else hsize s bp) in
       if a = p then if l then hsize s p + sb else hsize s p else if a = bp then sb else hsize s a)"
      using T A' unfolding q_def l_def r_def nx_def by (simp add: D)
  }
qed (simp_all add: free_link_def Let_def set_hptr_def set_hsize_def)

text \<open>The search finds the last block before \<open>bp\<close>.\<close>

lemma free_find_ok:
  assumes h: "hinv s F L" and F: "F = xs @ ys" and xs: "\<forall>x \<in> set xs. x < bp" and ys: "\<forall>y \<in> set ys. bp < y"
    and bp: "base_at s < bp"
  shows "free_find s bp (freep s) = Some (last (base_at s # xs))"
proof -
  let ?b = "base_at s" and ?m = "hptr s"
  define p where "p = last (?b # xs)"
  obtain zs where zs: "?b # xs = zs @ [p]" unfolding p_def by (metis append_butlast_last_id list.distinct(1))
  have ring: "path ?m ?b (zs @ p # ys) ?b" using hinvD(3) [OF h] F zs by (metis append.assoc append_Cons append_Nil)
  have srt: "sorted_wrt (<) (?b # F)" using hinvD(6) [OF h] hinv_base_less [OF h] by auto
  then have srt': "sorted_wrt (<) (zs @ p # ys)" using F zs by (metis append.assoc append_Cons append_Nil)
  have nz: "a \<noteq> 0" if "a \<in> set (?b # F)" for a
    using that hinvD(1) [OF h] hinv_base_less [OF h, of a] by auto
  have pbp: "p < bp" using xs bp unfolding p_def by auto
  have pin: "p \<in> set (?b # F)" using F by (auto simp: p_def)
  have bp': "?b \<le> p" using pin hinv_base_less [OF h, of p] by auto
  have stop: "free_stop ?m bp p"
  proof (cases ys)
    case Nil
    then have "?m p = ?b" using ring by auto
    then show ?thesis using pbp bp' by (simp add: free_stop_def)
  next
    case (Cons y ys')
    then have "?m p = y" using ring by auto
    then show ?thesis using pbp ys Cons by (auto simp: free_stop_def)
  qed
  have found: "free_find s bp p = Some p"
    using stop nz [OF pin] by (subst free_find.simps) simp
  have before: "\<not> free_stop ?m bp a" if a: "a \<in> set zs" for a
  proof -
    obtain us vs where u: "zs = us @ a # vs" using a by (meson split_list)
    obtain c cs where c: "vs @ [p] = c # cs" by (cases vs) auto
    have "vs @ p # ys = c # cs @ ys" using arg_cong [OF c, of "\<lambda>t. t @ ys"] by simp
    then have e: "zs @ p # ys = us @ a # c # cs @ ys" using u by simp
    have "?m a = c" by (rule path_next [OF ring [unfolded e]])
    moreover have "a < c" using srt' unfolding e by (simp add: sorted_wrt_append)
    moreover have "p \<in> set (c # cs)" unfolding c [symmetric] by simp
    then have "c \<le> p" using srt' unfolding e by (auto simp: sorted_wrt_append intro: less_imp_le)
    ultimately show ?thesis using pbp by (auto simp: free_stop_def)
  qed
  have after: "\<not> free_stop ?m bp a" if a: "a \<in> set ys" for a
  proof -
    obtain us vs where u: "ys = us @ a # vs" using a by (meson split_list)
    have "?m a = hd (vs @ [?b])" using ring u by (cases vs) auto
    moreover have "bp < a" using ys a by auto
    moreover have "hd (vs @ [?b]) = ?b \<or> a < hd (vs @ [?b])" using srt' u by (cases vs) (auto simp: sorted_wrt_append)
    ultimately show ?thesis using bp by (auto simp: free_stop_def)
  qed
  have "set zs \<subseteq> set (?b # xs)" unfolding zs by auto
  then have sub: "set zs \<subseteq> set (?b # F)" "set ys \<subseteq> set (?b # F)" using F by auto
  have zs0: "\<forall>a \<in> set zs. a \<noteq> 0 \<and> \<not> free_stop ?m bp a" and ys0: "\<forall>a \<in> set ys. a \<noteq> 0 \<and> \<not> free_stop ?m bp a"
    using before after nz sub by blast+
  have pz: "path ?m ?b zs p" and py: "path ?m p (p # ys) ?b" using ring by auto
  have from_base: "free_find s bp ?b = Some p"
    using free_find_walk [OF pz zs0] found by simp
  have "freep s \<in> set (zs @ p # ys)"
    using hinvD(5) [OF h] F zs by (metis append.assoc append_Cons append_Nil)
  then consider (below) "freep s \<in> set zs" | (at_p) "freep s = p" | (above) "freep s \<in> set ys" by auto
  then have "free_find s bp (freep s) = Some p"
  proof cases
    case below
    then obtain us vs where u: "zs = us @ freep s # vs" by (meson split_list)
    have A: "path ?m (freep s) (freep s # vs) p" using pz unfolding u by auto
    have B: "\<forall>a \<in> set (freep s # vs). a \<noteq> 0 \<and> \<not> free_stop ?m bp a" using zs0 unfolding u by simp
    show "free_find s bp (freep s) = Some p" using free_find_walk [OF A B] found by simp
  next
    case above
    then obtain us vs where u: "ys = us @ freep s # vs" by (meson split_list)
    have A: "path ?m (freep s) (freep s # vs) ?b" using py unfolding u by auto
    have B: "\<forall>a \<in> set (freep s # vs). a \<noteq> 0 \<and> \<not> free_stop ?m bp a" using ys0 unfolding u by simp
    show "free_find s bp (freep s) = Some p" using free_find_walk [OF A B] from_base by simp
  qed (use found in simp)
  then show ?thesis by (simp only: p_def)
qed

text \<open>What no operation changes: the place of the heap and the contents of the blocks in use.\<close>

definition same_place :: "uheap \<Rightarrow> uheap \<Rightarrow> bool" where
  "same_place s s' \<longleftrightarrow> base_at s' = base_at s \<and> end_at s' = end_at s \<and> brk_ok s' = brk_ok s"

definition keeps :: "u32 set \<Rightarrow> uheap \<Rightarrow> uheap \<Rightarrow> bool" where
  "keeps L s s' \<longleftrightarrow> same_place s s' \<and> (\<forall>a \<in> L. sz s' a = sz s a \<and>
     (\<forall>x. unat x \<in> blk (sz s) a \<longrightarrow> mem s' x = mem s x))"

text \<open>The tiling after the two joins.\<close>

lemma tiles_link:
  fixes f :: "u32 \<Rightarrow> nat"
  assumes t: "tiles f B lo hi" and B: "bp \<in> B" "r \<Longrightarrow> nx \<in> B" "l \<Longrightarrow> p \<in> B" and ne: "p \<noteq> bp" "nx \<noteq> bp" "r \<Longrightarrow> l \<Longrightarrow> nx \<noteq> p"
    and r: "r \<Longrightarrow> unat bp + 8 * f bp = unat nx" and l: "l \<Longrightarrow> unat p + 8 * f p = unat bp"
  shows "tiles (\<lambda>a. let sb = (if r then f bp + f nx else f bp) in
      if a = p then if l then f p + sb else f p else if a = bp then sb else f a)
    (B - (if r then {nx} else {}) - (if l then {bp} else {})) lo hi"
proof -
  let ?g = "if r then f(bp := f bp + f nx) else f" and ?B = "B - (if r then {nx} else {})"
  have g: "tiles ?g ?B lo hi" using t tiles_merge [OF t B(1) B(2)] r by auto
  have "tiles (if l then ?g(p := ?g p + ?g bp) else ?g) (?B - (if l then {bp} else {})) lo hi"
  proof (cases l)
    case True
    then have "p \<in> ?B" "bp \<in> ?B" "unat bp = unat p + 8 * ?g p" using B ne l by auto
    then show ?thesis using tiles_merge [OF g] True by simp
  qed (use g in simp)
  then show ?thesis by (rule tiles_cong [rotated]) (use ne in \<open>auto simp: Let_def\<close>)
qed

lemma hinv_header:
  assumes h: "hinv s F L" and a: "a \<in> L" and c: "c \<in> insert (base_at s) (set F \<union> L)" "c \<noteq> a"
    and x: "unat x \<in> blk (sz s) a"
  shows "x \<noteq> c \<and> x \<noteq> c + 4"
proof -
  note t = tiles_bounds [OF hinvD(10) [OF h]]
  have "unat c + 8 \<le> heap_hi s" using c t(1,3) [of c] hinvD(2,9) [OF h] by fastforce
  then have u: "unat (c + 4) = unat c + 4" using heap_hi_less [of s] by (simp add: unat_word_ariths)
  show ?thesis
  proof (cases "c = base_at s")
    case True
    then show ?thesis using x u t(2) [of a] a hinvD(2) [OF h] by (auto simp: blk_def)
  next
    case False
    then have B: "c \<in> set F \<union> L" using c by auto
    then have "unat c \<in> blk (sz s) c" "unat (c + 4) \<in> blk (sz s) c" using t(1) [OF B] u by (auto simp: blk_def)
    moreover have "blk (sz s) a \<inter> blk (sz s) c = {}" using hinvD(10) [OF h] a B c(2) unfolding tiles_def by auto
    ultimately show ?thesis using x by auto
  qed
qed

text \<open>The shape of the ring around the place of \<open>bp\<close>.\<close>

lemma ring_split:
  assumes h: "hinv s F L" and F: "F = xs @ ys"
  obtains zs where "base_at s # xs = zs @ [last (base_at s # xs)]"
    and "path (hptr s) (base_at s) zs (last (base_at s # xs))"
    and "hptr s (last (base_at s # xs)) = hd (ys @ [base_at s])"
    and "path (hptr s) (hd (ys @ [base_at s])) ys (base_at s)"
proof -
  let ?b = "base_at s" and ?p = "last (base_at s # xs)"
  obtain zs where zs: "?b # xs = zs @ [?p]" by (metis append_butlast_last_id list.distinct(1))
  have "?b # F = zs @ ?p # ys" using F zs by (metis append.assoc append_Cons append_Nil)
  then have ring: "path (hptr s) ?b (zs @ ?p # ys) ?b" using hinvD(3) [OF h] by simp
  have "hptr s ?p = hd (ys @ [?b])" using ring by (cases ys) (auto split: if_splits)
  then show thesis using ring zs by (intro that [of zs]) (auto split: if_splits)
qed

lemma unat_mul8: "8 * unat (a :: u32) < 2 ^ 32 \<Longrightarrow> unat (8 * a) = 8 * unat a"
  by (simp add: unat_word_ariths)

lemma unat_add_small: "unat (a :: u32) + unat b < 2 ^ 32 \<Longrightarrow> unat (a + b) = unat a + unat b"
  by (simp add: unat_word_ariths)

text \<open>The place of \<open>bp\<close>: \<open>p\<close> before it, \<open>nx\<close> behind it, and whether they touch it.\<close>

definition link_at :: "uheap \<Rightarrow> u32 list \<Rightarrow> u32 set \<Rightarrow> u32 \<Rightarrow> u32 list \<Rightarrow> u32 list \<Rightarrow> u32 \<Rightarrow> u32 \<Rightarrow> bool \<Rightarrow> bool \<Rightarrow> bool" where
  "link_at s F L bp xs ys p nx r l \<longleftrightarrow>
     hinv s F L \<and> bp \<in> L \<and> F = xs @ ys \<and> (\<forall>x \<in> set xs. x < bp) \<and> (\<forall>y \<in> set ys. bp < y) \<and>
     p = last (base_at s # xs) \<and> nx = hptr s p \<and>
     (r \<longleftrightarrow> bp + 8 * hsize s bp = nx) \<and> (l \<longleftrightarrow> p + 8 * hsize s p = bp)"

abbreviation ring_below :: "bool \<Rightarrow> u32 list \<Rightarrow> u32 \<Rightarrow> u32 list" where
  "ring_below l xs bp \<equiv> (if l then xs else xs @ [bp])"

abbreviation ring_above :: "bool \<Rightarrow> u32 list \<Rightarrow> u32 list" where
  "ring_above r ys \<equiv> (if r then tl ys else ys)"

lemma link_atD:
  assumes "link_at s F L bp xs ys p nx r l"
  shows "hinv s F L" "bp \<in> L" "F = xs @ ys" "\<forall>x \<in> set xs. x < bp" "\<forall>y \<in> set ys. bp < y"
    "p = last (base_at s # xs)" "nx = hptr s p" "r \<longleftrightarrow> bp + 8 * hsize s bp = nx" "l \<longleftrightarrow> p + 8 * hsize s p = bp"
  using assms unfolding link_at_def by blast+

lemma link_at_order:
  assumes K: "link_at s F L bp xs ys p nx r l"
  shows "bp \<notin> set F" "base_at s < bp" "p \<in> set (base_at s # xs)" "p < bp"
    and "nx = base_at s \<and> ys = [] \<or> nx \<in> set ys \<and> ys = nx # tl ys" and "p \<noteq> bp" and "nx \<noteq> bp"
    and "nx \<notin> set xs" and "x \<in> set xs \<Longrightarrow> x < p \<or> x = p"
proof -
  note k = link_atD [OF K] note D = hinvD [OF k(1)]
  show b: "bp \<notin> set F" "base_at s < bp" using k(2) D(8) hinv_base_less [OF k(1), of bp] by auto
  show p: "p \<in> set (base_at s # xs)" by (simp add: k(6))
  then show "p < bp" "p \<noteq> bp" using k(4) b(2) by auto
  obtain zs where zs: "base_at s # xs = zs @ [p]" "hptr s p = hd (ys @ [base_at s])"
    by (rule ring_split [OF k(1,3)]) (simp add: k(6))
  show n: "nx = base_at s \<and> ys = [] \<or> nx \<in> set ys \<and> ys = nx # tl ys" using zs(2) k(7) by (cases ys) auto
  then show "nx \<noteq> bp" "nx \<notin> set xs" using b k(3) hinv_distinct [OF k(1)] by auto
  assume x: "x \<in> set xs"
  have "sorted_wrt (<) (base_at s # xs)" using D(6) hinv_base_less [OF k(1)] k(3) by (auto simp: sorted_wrt_append)
  then have "sorted_wrt (<) (zs @ [p])" unfolding zs(1) .
  moreover have "x \<in> set (zs @ [p])" using x zs(1) by (metis list.set_intros(2))
  ultimately show "x < p \<or> x = p" by (auto simp: sorted_wrt_append)
qed

text \<open>The tests of the code, on numbers.\<close>

lemma link_at_touch:
  assumes K: "link_at s F L bp xs ys p nx r l"
  shows "r \<longleftrightarrow> nx \<in> set ys \<and> unat bp + 8 * sz s bp = unat nx"
    and "l \<longleftrightarrow> p \<in> set xs \<and> unat p + 8 * sz s p = unat bp"
    and "r \<Longrightarrow> nx \<in> set ys \<and> ys = nx # tl ys" and "l \<Longrightarrow> p \<in> set xs"
proof -
  note k = link_atD [OF K] note D = hinvD [OF k(1)] note o = link_at_order [OF K]
  have e: "unat (bp + 8 * hsize s bp) = unat bp + 8 * sz s bp" using k(2) by (intro hinv_end(1) [OF k(1)]) simp
  have "unat bp + 8 * sz s bp = unat nx \<Longrightarrow> nx \<in> set ys" using o(2,5) by (auto simp: word_less_nat_alt)
  moreover have "r \<longleftrightarrow> unat bp + 8 * sz s bp = unat nx" unfolding k(8) word_unat_eq_iff e ..
  ultimately show r: "r \<longleftrightarrow> nx \<in> set ys \<and> unat bp + 8 * sz s bp = unat nx" by blast
  show l: "l \<longleftrightarrow> p \<in> set xs \<and> unat p + 8 * sz s p = unat bp"
  proof (cases "p \<in> set xs")
    case True
    then have e: "unat (p + 8 * hsize s p) = unat p + 8 * sz s p" using k(3) by (intro hinv_end(1) [OF k(1)]) simp
    show ?thesis unfolding k(9) word_unat_eq_iff e using True by simp
  next
    case False
    then have "p = base_at s" using o(3) by auto
    then have "p + 8 * hsize s p \<noteq> bp" using D(4) o(2) by auto
    then show ?thesis using False k(9) by blast
  qed
  show "r \<Longrightarrow> nx \<in> set ys \<and> ys = nx # tl ys" using r o(5) by auto
  show "l \<Longrightarrow> p \<in> set xs" using l by simp
qed

text \<open>No size overflows.\<close>

lemma link_at_sums:
  assumes K: "link_at s F L bp xs ys p nx r l"
  defines "sb \<equiv> (if r then hsize s bp + hsize s nx else hsize s bp)"
  shows "unat sb = (if r then sz s bp + sz s nx else sz s bp)" and "l \<Longrightarrow> unat (hsize s p + sb) = sz s p + unat sb"
proof -
  note k = link_atD [OF K] note t = tiles_bounds [OF hinvD(10) [OF k(1)]] and c = link_at_touch [OF K]
  have e: "unat bp + 8 * (if r then sz s bp + sz s nx else sz s bp) \<le> heap_hi s"
    using c(1) t(3) [of nx] t(3) [of bp] k(2,3) by auto
  then show u: "unat sb = (if r then sz s bp + sz s nx else sz s bp)"
    using heap_hi_less [of s] by (auto simp: sb_def sz_def intro!: unat_add_small)
  then show "unat (hsize s p + sb) = sz s p + unat sb" if l
    using e c(2) that heap_hi_less [of s] unfolding sz_def by (intro unat_add_small) linarith
qed

lemma link_at_effect:
  fixes s bp p
  defines "s' \<equiv> free_link bp p s"
  assumes K: "link_at s F L bp xs ys p nx r l" and N: "a \<in> insert (base_at s) (set F \<union> L)"
  shows "hptr s' a = (let q = (if r then hptr s nx else nx) in if a = p then if l then q else bp else if a = bp then q else hptr s a)"
    and "sz s' a = (let sb = (if r then sz s bp + sz s nx else sz s bp) in
      if a = p then if l then sz s p + sb else sz s p else if a = bp then sb else sz s a)"
proof -
  note k = link_atD [OF K] note o = link_at_order [OF K] and u = link_at_sums [OF K]
  have M: "p \<in> insert (base_at s) (set F \<union> L)" "bp \<in> insert (base_at s) (set F \<union> L)" "hptr s p \<in> insert (base_at s) (set F \<union> L)"
    using o(3,5) k(2,3,7) by auto
  have sep: "\<forall>a \<in> insert (base_at s) (set F \<union> L). \<forall>c \<in> insert (base_at s) (set F \<union> L). a \<noteq> c + 4"
    using hinv_sep [OF k(1)] by blast
  note E = free_link_effect [OF sep M o(6) o(7) [unfolded k(7)], folded k(7), folded k(8) k(9) s'_def]
  show "hptr s' a = (let q = (if r then hptr s nx else nx) in if a = p then if l then q else bp else if a = bp then q else hptr s a)"
    using E(1) [OF N] by (simp add: Let_def)
  show "sz s' a = (let sb = (if r then sz s bp + sz s nx else sz s bp) in
      if a = p then if l then sz s p + sb else sz s p else if a = bp then sb else sz s a)"
    using E(2) [OF N] u by (simp add: sz_def Let_def split: if_splits)
qed

lemma link_at_set:
  assumes K: "link_at s F L bp xs ys p nx r l"
  shows "set (ring_below l xs bp @ ring_above r ys) \<union> (L - {bp}) =
      (set F \<union> L) - (if r then {nx} else {}) - (if l then {bp} else {})"
    and "set (ring_above r ys) \<subseteq> set ys"
proof -
  note k = link_atD [OF K] note o = link_at_order [OF K] and c = link_at_touch [OF K]
  have A: "nx \<notin> set (tl ys) \<and> nx \<notin> L \<and> set ys = insert nx (set (tl ys))" if r
  proof -
    note n = c(3) [OF that]
    obtain y0 where y: "ys = nx # y0" "tl ys = y0" using n by blast
    then have "nx \<in> set F" "nx \<notin> set y0" using k(3) hinv_distinct [OF k(1)] by auto
    then show ?thesis using y hinvD(8) [OF k(1)] by auto
  qed
  show "set (ring_above r ys) \<subseteq> set ys" using A by auto
  show "set (ring_below l xs bp @ ring_above r ys) \<union> (L - {bp}) =
      (set F \<union> L) - (if r then {nx} else {}) - (if l then {bp} else {})"
  proof (cases r)
    case True
    then show ?thesis using A [OF True] k(2,3) o(1,7,8) by auto
  next
    case False
    then show ?thesis using k(2,3) o(1) by auto
  qed
qed

lemma link_at_tiles:
  assumes K: "link_at s F L bp xs ys p nx r l"
  shows "tiles (sz (free_link bp p s)) (set (ring_below l xs bp @ ring_above r ys) \<union> (L - {bp})) (heap_lo s) (heap_hi s)"
proof -
  note k = link_atD [OF K] note o = link_at_order [OF K] and c = link_at_touch [OF K]
  have "nx \<noteq> p" if r using c(3) [OF that] o(3,8) k(3) hinv_base_less [OF k(1), of nx] by auto
  then have "tiles (\<lambda>a. let sb = (if r then sz s bp + sz s nx else sz s bp) in
        if a = p then if l then sz s p + sb else sz s p else if a = bp then sb else sz s a)
      (set F \<union> L - (if r then {nx} else {}) - (if l then {bp} else {})) (heap_lo s) (heap_hi s)"
    by (intro tiles_link [OF hinvD(10) [OF k(1)]]) (use k(2,3) c o(6,7) in auto)
  then show ?thesis unfolding link_at_set(1) [OF K]
    by (rule tiles_cong [rotated]) (auto simp: link_at_effect(2) [OF K])
qed

lemma link_at_ring:
  assumes K: "link_at s F L bp xs ys p nx r l"
  defines "s' \<equiv> free_link bp p s"
  shows "path (hptr s') (base_at s) (base_at s # ring_below l xs bp @ ring_above r ys) (base_at s)"
proof -
  let ?b = "base_at s" and ?m = "hptr s" and ?ys = "ring_above r ys"
  define q where "q = (if r then ?m nx else nx)"
  note k = link_atD [OF K] note o = link_at_order [OF K] and c = link_at_touch [OF K] and E = link_at_effect(1) [OF K]
  obtain zs where zs: "?b # xs = zs @ [p]" "path ?m ?b zs p" "nx = hd (ys @ [?b])" "path ?m nx ys ?b"
    by (rule ring_split [OF k(1,3)]) (use k(6,7) in auto)
  have py: "path ?m q ?ys ?b"
  proof (cases r)
    case True
    then obtain y0 where "ys = nx # y0" using c(3) by blast
    then show ?thesis using zs(4) True by (simp add: q_def)
  qed (use zs(4) in \<open>simp add: q_def\<close>)
  have "distinct ((?b # xs) @ ys)" using hinv_distinct [OF k(1)] k(3) by simp
  then have dist: "distinct (zs @ p # ys)" unfolding zs(1) by simp
  have zsub: "set zs \<subseteq> insert ?b (set xs)" using arg_cong [OF zs(1), of set] by auto
  have off: "p \<notin> set zs" "bp \<notin> set zs" "p \<notin> set ?ys" "bp \<notin> set ?ys"
    using dist zsub link_at_set(2) [OF K] o(1,2) k(3) by auto
  have "path (hptr s') ?b zs p \<longleftrightarrow> path ?m ?b zs p"
    using off zsub k(3) unfolding s'_def by (intro path_cong) (auto simp: E)
  moreover have "path (hptr s') q ?ys ?b \<longleftrightarrow> path ?m q ?ys ?b"
    using off link_at_set(2) [OF K] k(3) unfolding s'_def by (intro path_cong) (auto simp: E)
  moreover have "hptr s' p = (if l then q else bp)" "\<not> l \<Longrightarrow> hptr s' bp = q"
    using E [of p] E [of bp] o(3,6) k(2,3) unfolding s'_def q_def by (auto simp: Let_def)
  ultimately have "path (hptr s') ?b (zs @ p # (if l then [] else [bp]) @ ?ys) ?b" using zs(2) py by auto
  moreover have "?b # ring_below l xs bp @ ?ys = zs @ p # (if l then [] else [bp]) @ ?ys" using zs(1) by auto
  ultimately show ?thesis by (simp only:)
qed

text \<open>The end of the block at \<open>bp\<close> is not the start of a free block any more.\<close>

lemma link_at_end:
  assumes K: "link_at s F L bp xs ys p nx r l" and c: "c \<in> set (ring_above r ys)"
  shows "unat bp + 8 * (if r then sz s bp + sz s nx else sz s bp) \<noteq> unat c"
proof -
  note k = link_atD [OF K] note o = link_at_order [OF K] and t = link_at_touch [OF K] and D = hinvD [OF k(1)]
  have cy: "c \<in> set ys" using c link_at_set(2) [OF K] by blast
  show ?thesis
  proof (cases r)
    case True
    then show ?thesis using t(1) D(7) [of nx c] cy k(3) by auto
  next
    case False
    obtain y0 where y: "ys = nx # y0" using o(5) cy by auto
    have "sorted_wrt (<) ys" using D(6) k(3) by (simp add: sorted_wrt_append)
    then have "nx = c \<or> nx < c" using cy y by auto
    moreover have "unat bp + 8 * sz s bp \<le> unat nx"
      using tiles_before [OF D(10), of bp nx] k(2,3,5) y by auto
    moreover have "unat bp + 8 * sz s bp \<noteq> unat nx" using t(1) False y by auto
    ultimately show ?thesis using False by (auto simp: word_less_nat_alt)
  qed
qed

lemma link_at_separate:
  assumes K: "link_at s F L bp xs ys p nx r l"
    and a: "a \<in> set (ring_below l xs bp @ ring_above r ys)" and c: "c \<in> set (ring_below l xs bp @ ring_above r ys)"
  shows "unat a + 8 * sz (free_link bp p s) a \<noteq> unat c"
proof
  let ?f = "sz s" and ?g = "sz (free_link bp p s)"
  note k = link_atD [OF K] note o = link_at_order [OF K] and t = link_at_touch [OF K] and D = hinvD [OF k(1)]
  note up = link_at_set(2) [OF K] and G = link_at_effect(2) [OF K] and B = link_at_end [OF K]
  assume e: "unat a + 8 * ?g a = unat c"
  moreover have "0 < ?g a" using tiles_bounds(1) [OF link_at_tiles [OF K]] a by auto
  ultimately have ac: "a < c" unfolding word_less_nat_alt by linarith
  have go: "?g x = ?f x" if "x \<in> set F" "x \<noteq> p" for x using G [of x] that o(1) by auto
  have low: "a \<in> set xs" if "a < bp"
    using a up k(5) that by (auto dest: less_asym split: if_splits)
  consider "c \<in> set xs" | "c = bp" "\<not> l" | "c \<in> set (ring_above r ys)" using c by (auto split: if_splits)
  then show False
  proof cases
    case 1
    then have "a \<in> set xs" using low k(4) ac by (meson less_trans)
    moreover have "a \<noteq> p" using ac o(9) [OF 1] by (auto dest: less_asym)
    ultimately show False using 1 e go [of a] D(7) [of a c] k(3) by auto
  next
    case 2
    then have ax: "a \<in> set xs" using low ac by simp
    then have px: "p \<in> set xs" by (auto simp: k(6))
    show False
    proof (cases "a = p")
      case True
      then show False using 2 e G [of p] t(2) px k(3) o(6) by auto
    next
      case False
      then have "unat a + 8 * ?f a \<le> unat p" "?g a = ?f a"
        using o(9) [OF ax] tiles_before [OF D(10), of a p] go [of a] ax px k(3) by auto
      then show False using 2 e o(4) by (simp add: word_less_nat_alt)
    qed
  next
    case 3
    then have cF: "c \<in> set F" using up k(3) by auto
    consider "a = bp" "\<not> l" | "a = p" "l" | "a = p" "\<not> l" "a \<in> set F" | "a \<noteq> p" "a \<in> set F"
      using a up t(4) k(3) by (auto split: if_splits)
    then show False
      by cases (use e B [OF 3] G [of bp] G [of p] go [of a] k(2,3) o(3,6) t(2) cF D(7) [of a c] in
          \<open>auto simp: Let_def split: if_splits\<close>)
  qed
qed

lemma link_at_sorted:
  assumes K: "link_at s F L bp xs ys p nx r l"
  shows "sorted_wrt (<) (ring_below l xs bp @ ring_above r ys)"
proof -
  note k = link_atD [OF K] and up = link_at_set(2) [OF K]
  have s: "sorted_wrt (<) (xs @ ys)" using hinvD(6) [OF k(1)] k(3) by simp
  then have "sorted_wrt (<) (ring_above r ys)" by (cases ys) (auto simp: sorted_wrt_append)
  then show ?thesis using s up k(4,5) by (auto simp: sorted_wrt_append)
qed

lemma free_link_place:
  "base_at (free_link bp p s) = base_at s" "end_at (free_link bp p s) = end_at s"
  "old_brk (free_link bp p s) = old_brk s" "freep (free_link bp p s) = p" "brk_ok (free_link bp p s) = brk_ok s"
  "x \<notin> {bp, bp + 4, p, p + 4} \<Longrightarrow> mem (free_link bp p s) x = mem s x"
  by (simp_all add: free_link_def Let_def set_hptr_def set_hsize_def)

lemma link_at_keeps:
  assumes K: "link_at s F L bp xs ys p nx r l"
  shows "keeps (L - {bp}) s (free_link bp p s)"
  unfolding keeps_def
proof (intro conjI ballI allI impI)
  note k = link_atD [OF K] and o = link_at_order [OF K]
  show "same_place s (free_link bp p s)" by (simp add: same_place_def free_link_place)
  fix a assume a: "a \<in> L - {bp}"
  then have ap: "a \<noteq> p" using o(3) hinvD(8) [OF k(1)] k(3) hinv_base_less [OF k(1), of a] by auto
  then show "sz (free_link bp p s) a = sz s a" using link_at_effect(2) [OF K, of a] a by auto
  fix x :: u32 assume x: "unat x \<in> blk (sz s) a"
  show "mem (free_link bp p s) x = mem s x"
    using hinv_header [OF k(1) _ _ _ x, of bp] hinv_header [OF k(1) _ _ _ x, of p] a ap k(2,3) o(3)
    by (intro free_link_place) auto
qed

lemma free_link_ok:
  assumes K: "link_at s F L bp xs ys p nx r l"
  defines "s' \<equiv> free_link bp p s"
  shows "hinv s' (ring_below l xs bp @ ring_above r ys) (L - {bp})"
    and "hsize s bp \<le> hsize s' p \<or> hptr s' p = bp \<and> hsize s bp \<le> hsize s' bp"
proof -
  note k = link_atD [OF K] note o = link_at_order [OF K] and t = link_at_touch [OF K] and D = hinvD [OF k(1)]
  note G = link_at_effect [OF K, folded s'_def]
  have N: "p \<in> insert (base_at s) (set F \<union> L)" "bp \<in> insert (base_at s) (set F \<union> L)" using o(3) k(2,3) by auto
  have "l \<Longrightarrow> p \<noteq> base_at s" using t(4) hinv_base_less [OF k(1), of p] k(3) by auto
  then have "sz s' (base_at s) = 0" using G(2) [of "base_at s"] D(4) o(2) by (auto simp: sz_def Let_def)
  then have b0: "hsize s' (base_at s) = 0" by (simp add: sz_def unat_eq_0)
  have "heap_lo s' = heap_lo s" "heap_hi s' = heap_hi s" by (simp_all add: heap_lo_def heap_hi_def s'_def free_link_place)
  moreover have "set (ring_below l xs bp @ ring_above r ys) \<inter> (L - {bp}) = {}"
    using D(8) k(3) link_at_set(2) [OF K] by auto
  moreover have "p \<in> set (base_at s # ring_below l xs bp @ ring_above r ys)" using o(3) by auto
  ultimately show "hinv s' (ring_below l xs bp @ ring_above r ys) (L - {bp})"
    unfolding hinv_def using D(1,2,9) b0 link_at_ring [OF K] link_at_sorted [OF K] link_at_separate [OF K] link_at_tiles [OF K]
    by (simp add: s'_def free_link_place)
  show "hsize s bp \<le> hsize s' p \<or> hptr s' p = bp \<and> hsize s bp \<le> hsize s' bp"
  proof (cases l)
    case True
    then have "sz s bp \<le> sz s' p" using G(2) [OF N(1)] by (simp add: Let_def)
    then show ?thesis by (simp add: sz_def word_le_nat_alt)
  next
    case False
    then have "sz s bp \<le> sz s' bp" "hptr s' p = bp" using G(2) [OF N(2)] G(1) [OF N(1)] o(6) by (simp_all add: Let_def)
    then show ?thesis by (simp add: sz_def word_le_nat_alt)
  qed
qed

lemma sorted_split:
  "sorted_wrt (<) F \<Longrightarrow> a \<notin> set F \<Longrightarrow> F = filter (\<lambda>x. x < a) F @ filter (\<lambda>x. a < x) F" for a :: u32
proof (induction F)
  case (Cons x F)
  show ?case
  proof (cases "x < a")
    case False
    then have "a < x" using Cons.prems(2) by auto
    then have "\<forall>y \<in> set F. a < y \<and> \<not> y < a" using Cons.prems(1) by auto
    then show ?thesis using \<open>a < x\<close> False by (simp add: filter_id_conv)
  qed (use Cons in auto)
qed simp

lemma keeps_trans: "keeps L s s1 \<Longrightarrow> keeps L s1 s2 \<Longrightarrow> keeps L s s2"
  unfolding keeps_def same_place_def blk_def by auto

lemma free_ok:
  assumes h: "hinv s F L" and bp: "bp \<in> L"
  obtains s' F' where "free (bp + 8) s = Some s'" and "hinv s' F' (L - {bp})" and "keeps (L - {bp}) s s'"
    and "old_brk s' = old_brk s"
    and "hsize s bp \<le> hsize s' (freep s') \<or> hptr s' (freep s') = bp \<and> hsize s bp \<le> hsize s' bp"
proof -
  have n: "bp \<notin> set F" and b: "base_at s < bp" using hinvD(8) [OF h] hinv_base_less [OF h] bp by auto
  define xs ys where "xs = filter (\<lambda>x. x < bp) F" and "ys = filter (\<lambda>x. bp < x) F"
  have F: "F = xs @ ys" using sorted_split [OF hinvD(6) [OF h] n] by (simp add: xs_def ys_def)
  have o: "\<forall>x \<in> set xs. x < bp" "\<forall>y \<in> set ys. bp < y" by (simp_all add: xs_def ys_def)
  have "free (bp + 8) s = Some (free_link bp (last (base_at s # xs)) s)"
    using free_find_ok [OF h F o b] by (simp add: free_def)
  moreover obtain p nx r l where K: "link_at s F L bp xs ys p nx r l" "p = last (base_at s # xs)"
    using h bp F o by (auto simp: link_at_def)
  ultimately show thesis
    using free_link_ok [OF K(1)] link_at_keeps [OF K(1)] by (intro that [of "free_link bp p s"]) (auto simp: free_link_place)
qed

end
