(* ===== verification/UHeapProps.thy ===== *)
theory UHeapProps
  imports UHeapFree
begin

text \<open>
  \<open>malloc\<close> on the heap of \<open>UHeapFree\<close>, the growth of the heap at the break, and the properties of the two
  operations.
\<close>

subsection \<open>malloc\<close>

text \<open>The memory added at the break is a block in use until it is freed.\<close>

lemma grow_ok:
  assumes h: "hinv s F L" and p: "unat p = heap_hi s" and n: "0 < n" and room: "heap_hi s + 8 * unat n < 2 ^ 32"
    and s': "s' = set_hsize p n (s\<lparr>old_brk := p + n * 8\<rparr>)"
  shows "hinv s' F (insert p L)" and "keeps L s s'" and "p \<notin> L"
proof -
  note D = hinvD [OF h] note t = tiles_bounds [OF D(10)]
  have n': "0 < unat n" using n by (simp add: word_less_nat_alt)
  have un: "unat (n * 8) = 8 * unat n" using room by (simp add: unat_word_ariths)
  have ub: "unat (p + n * 8) = heap_hi s + 8 * unat n" using un room p by (subst unat_add_small) auto
  then have hi: "heap_hi s' = heap_hi s + 8 * unat n" "heap_lo s' = heap_lo s"
    using n' by (auto simp: s' heap_hi_def heap_lo_def set_hsize_def)
  have te: "tiles ((sz s)(p := unat n)) (insert p (set F \<union> L)) (heap_lo s) (heap_hi s + 8 * unat n)" "p \<notin> set F \<union> L"
    using tiles_extend [OF D(10) p D(9) n'] by auto
  then show "p \<notin> L" by simp
  have up: "unat (p + 4) = heap_hi s + 4" using p room n' by (subst unat_add_small) auto
  have lt: "unat a < heap_hi s" if "a \<in> insert (base_at s) (set F \<union> L)" for a
    using that t(1,3) [of a] D(2,9) by fastforce
  have hp: "hptr s' a = hptr s a" if "a \<in> insert (base_at s) (set F \<union> L)" for a
  proof -
    have "a \<noteq> p + 4" using lt [OF that] up by auto
    then show ?thesis by (simp add: s' hptr_def set_hsize_def)
  qed
  have szs: "sz s' = (sz s)(p := unat n)" by (auto simp: s' sz_def hsize_def set_hsize_def)
  have "p \<noteq> base_at s" using D(2,9) p by auto
  then have b0: "hsize s' (base_at s) = 0" using D(4) by (simp add: s' hsize_def set_hsize_def)
  have ring: "path (hptr s') (base_at s) (base_at s # F) (base_at s)"
    using D(3) path_cong [of "base_at s # F" "hptr s'" "hptr s"] hp by auto
  have pl: "base_at s' = base_at s" "freep s' = freep s" "same_place s s'"
    by (simp_all add: s' set_hsize_def same_place_def)
  have adj: "unat a + 8 * sz s' a \<noteq> unat c" if "a \<in> set F" "c \<in> set F" for a c
    using that D(7) [OF that] te(2) by (auto simp: szs)
  show "hinv s' F (insert p L)" unfolding hinv_def
    using D ring b0 pl adj hi te by (auto simp: szs)
  have "mem s' x = mem s x" if "a \<in> L" "unat x \<in> blk (sz s) a" for a x
  proof -
    have "unat x < heap_hi s" using that t(3) [of a] by (auto simp: blk_def)
    then have "x \<noteq> p + 4" using up by auto
    then show ?thesis by (simp add: s' set_hsize_def)
  qed
  then show "keeps L s s'" using pl(3) te(2) by (auto simp: keeps_def szs)
qed

definition units_for :: "u32 \<Rightarrow> u32" where
  "units_for n = (if n < 4096 then 4096 else n)"

lemma morecore_ok:
  assumes h: "hinv s F L" and ok: "\<forall>x. brk_ok s x" and room: "heap_hi s + 8 * unat (units_for n) < 2 ^ 32"
  obtains s' F' where "morecore n s = Some (freep s', s')" and "hinv s' F' L" and "keeps L s s'"
    and "n \<le> hsize s' (freep s') \<or> n \<le> hsize s' (hptr s' (freep s'))"
proof -
  define p where "p = (if old_brk s = 0 then (end_at s + 4095) AND 0xfffff000 else old_brk s)"
  have p: "unat p = heap_hi s" by (simp add: p_def heap_hi_def heap_lo_def)
  have pm: "p \<noteq> -1"
  proof
    assume "p = -1"
    then have "unat p = 2 ^ 32 - 1" by (simp add: unsigned_minus_1_eq_mask mask_eq_exp_minus_1)
    moreover have "1 \<le> unat (units_for n)" by (auto simp: units_for_def word_le_nat_alt word_less_nat_alt)
    ultimately show False using p room by simp
  qed
  define s1 where "s1 = set_hsize p (units_for n) (s\<lparr>old_brk := p + units_for n * 8\<rparr>)"
  have sb: "sbrk (units_for n * 8) s = Some (p, s\<lparr>old_brk := p + units_for n * 8\<rparr>)"
    using ok by (simp add: sbrk_def p_def)
  have m: "morecore n s = do { s \<leftarrow> free (p + 8) s1; Some (freep s, s) }"
    unfolding morecore_def units_for_def [symmetric] Let_def sb using pm by (simp add: s1_def)
  have "0 < units_for n" by (auto simp: units_for_def word_less_nat_alt word_le_nat_alt)
  note g = grow_ok [OF h p this room s1_def]
  obtain s' F' where f: "free (p + 8) s1 = Some s'" "hinv s' F' (insert p L - {p})" "keeps (insert p L - {p}) s1 s'"
    "hsize s1 p \<le> hsize s' (freep s') \<or> hptr s' (freep s') = p \<and> hsize s1 p \<le> hsize s' p"
    by (rule free_ok [OF g(1), of p]) auto
  have L: "insert p L - {p} = L" using g(3) by simp
  have "n \<le> units_for n" by (auto simp: units_for_def)
  then have n: "n \<le> hsize s1 p" by (simp add: s1_def hsize_def set_hsize_def)
  show thesis
  proof (rule that)
    show "morecore n s = Some (freep s', s')" unfolding m f(1) by simp
    show "hinv s' F' L" using f(2) unfolding L .
    show "keeps L s s'" using keeps_trans [OF g(2)] f(3) unfolding L .
    show "n \<le> hsize s' (freep s') \<or> n \<le> hsize s' (hptr s' (freep s'))"
      using f(4) n by (auto intro: order_trans)
  qed
qed

text \<open>The successor determines the block.\<close>

lemma ring_pred:
  assumes h: "hinv s F L" and prev: "prev \<in> set (base_at s # F)" and p: "hptr s prev = p" "p \<in> set F"
  obtains xs ys where "F = xs @ p # ys" and "prev = last (base_at s # xs)"
proof -
  obtain xs ys where F: "F = xs @ p # ys" using p(2) by (meson split_list)
  obtain zs where "hptr s (last (base_at s # xs)) = hd ((p # ys) @ [base_at s])" by (rule ring_split [OF h F])
  then have "hptr s (last (base_at s # xs)) = hptr s prev" using p by simp
  moreover have "last (base_at s # xs) \<in> set (base_at s # F)" using F by auto
  ultimately have "prev = last (base_at s # xs)"
    using inj_onD [OF path_inj [OF hinvD(3) [OF h] hinv_distinct [OF h]]] prev by metis
  then show thesis using F that by blast
qed

lemma carve_whole:
  assumes h: "hinv s F L" and F: "F = xs @ p # ys" and prev: "prev = last (base_at s # xs)" and s': "s' = (set_hptr prev (hptr s p) s)\<lparr>freep := prev\<rparr>"
  shows "hinv s' (xs @ ys) (insert p L)" and "keeps L s s'" and "sz s' p = sz s p" and "p \<notin> L"
proof -
  let ?b = "base_at s"
  note D = hinvD [OF h]
  obtain zs where zs: "?b # xs = zs @ [prev]" "path (hptr s) ?b zs prev" "path (hptr s) p (p # ys) ?b"
    by (rule ring_split [OF h F]) (use prev in auto)
  have pin: "prev \<in> insert ?b (set F \<union> L)" using prev F by auto
  have hs: "hsize s' a = hsize s a" if "a \<in> insert ?b (set F \<union> L)" for a
    using hinv_sep [OF h pin that] by (simp add: s' hsize_def set_hptr_def)
  then have szs: "sz s' a = sz s a" if "a \<in> insert ?b (set F \<union> L)" for a using that by (simp add: sz_def)
  have hp: "hptr s' = (hptr s)(prev := hptr s p)" by (auto simp: s' hptr_def set_hptr_def)
  have pl: "base_at s' = ?b" "freep s' = prev" "same_place s s'" "heap_lo s' = heap_lo s" "heap_hi s' = heap_hi s"
    by (simp_all add: s' set_hptr_def same_place_def heap_lo_def heap_hi_def)
  have d: "distinct (zs @ prev # p # ys)" using hinv_distinct [OF h] F zs(1) by (metis append.assoc append_Cons append_Nil)
  have "path (hptr s') ?b (zs @ prev # ys) ?b" using zs(2,3) d by (auto simp: hp)
  moreover have "?b # xs @ ys = zs @ prev # ys" using zs(1) by simp
  ultimately have ring: "path (hptr s') ?b (?b # xs @ ys) ?b" by (simp only:)
  have pL: "p \<notin> L" "set (xs @ ys) \<inter> insert p L = {}" using D(8) F hinv_distinct [OF h] by auto
  have B: "set (xs @ ys) \<union> insert p L = set F \<union> L" using F by auto
  have "tiles (sz s') (set F \<union> L) (heap_lo s) (heap_hi s)" by (rule tiles_cong [OF _ D(10)]) (simp add: szs)
  moreover have "sorted_wrt (<) (xs @ ys)" using D(6) F by (auto simp: sorted_wrt_append)
  moreover have "prev \<in> set (?b # xs @ ys)" using prev by auto
  moreover have "unat a + 8 * sz s' a \<noteq> unat c" if "a \<in> set (xs @ ys)" "c \<in> set (xs @ ys)" for a c
    using that D(7) [of a c] szs [of a] F by auto
  ultimately show "hinv s' (xs @ ys) (insert p L)"
    unfolding hinv_def B pl using D(1,2,4,9) ring pL(2) hs [of ?b] by auto
  show "p \<notin> L" by (rule pL(1))
  show "sz s' p = sz s p" using szs F by simp
  have "mem s' x = mem s x" if "a \<in> L" "unat x \<in> blk (sz s) a" for a x
  proof -
    have "prev \<in> set (?b # xs)" unfolding prev by (rule last_in_set) simp
    then have "prev \<noteq> a" using that(1) F D(8) hinv_base_less [OF h, of a] by auto
    then show ?thesis using hinv_header [OF h that(1) pin _ that(2)] by (simp add: s' set_hptr_def)
  qed
  then show "keeps L s s'" using pl(3) szs by (auto simp: keeps_def)
qed

lemma carve_tail:
  assumes h: "hinv s F L" and p: "p \<in> set F" and n: "0 < n" "n < hsize s p"
    and a: "a = p + 8 * (hsize s p - n)" and s': "s' = set_hsize a n (set_hsize p (hsize s p - n) s)\<lparr>freep := prev\<rparr>"
    and prev: "prev \<in> set (base_at s # F)"
  shows "hinv s' F (insert a L)" and "keeps L s s'" and "sz s' a = unat n" and "a \<notin> L"
proof -
  let ?b = "base_at s" and ?B = "set F \<union> L"
  note D = hinvD [OF h] note t = tiles_bounds [OF D(10)]
  have n': "0 < unat n" "unat n < sz s p" using n by (simp_all add: sz_def word_less_nat_alt)
  have d: "unat (hsize s p - n) = sz s p - unat n" using n by (simp add: sz_def unat_sub less_imp_le)
  have e: "unat p + 8 * sz s p < 2 ^ 32" using t(3) [of p] p heap_hi_less [of s] by simp
  have m: "unat (8 * (hsize s p - n)) = 8 * (sz s p - unat n)"
    using unat_mul8 [of "hsize s p - n"] unfolding d using e by simp
  have ua: "unat a = unat p + 8 * (sz s p - unat n)" unfolding a
    using m e n' by (subst unat_add_small) auto
  have ua4: "unat (a + 4) = unat a + 4" using ua e n' by (subst unat_add_small) auto
  have up4: "unat (p + 4) = unat p + 4" using e n' by (subst unat_add_small) auto
  note sp = tiles_split [OF D(10) _ n' heap_hi_less ua]
  have aB: "a \<notin> ?B" using sp p by blast
  have pa: "p \<noteq> a" using ua n' by auto
  have szs: "sz s' = (sz s)(p := sz s p - unat n, a := unat n)"
    using d pa by (auto simp: s' sz_def hsize_def set_hsize_def fun_eq_iff)
  have tl': "tiles (sz s') (insert a ?B) (heap_lo s) (heap_hi s)" using sp p unfolding szs by blast
  have inp: "unat (a + 4) \<in> blk (sz s) p" "unat (p + 4) \<in> blk (sz s) p"
    using ua ua4 up4 n' by (auto simp: blk_def)
  have hp: "hptr s' c = hptr s c" if "c \<in> insert ?b ?B" for c
  proof -
    have "c \<noteq> p + 4" using hinv_sep [OF h that] p by blast
    moreover have "c \<noteq> a + 4"
    proof
      assume c: "c = a + 4"
      then have "c \<noteq> p" "c \<noteq> ?b" using ua ua4 n' D(2) t(2) [of p] p by auto
      then have "c \<in> ?B" using that by auto
      then have "unat c \<in> blk (sz s) c" using t(1) [of c] by (auto simp: blk_def)
      moreover have "blk (sz s) c \<inter> blk (sz s) p = {}" using D(10) \<open>c \<in> ?B\<close> \<open>c \<noteq> p\<close> p unfolding tiles_def by blast
      ultimately show False using inp(1) c by auto
    qed
    ultimately show ?thesis by (simp add: s' hptr_def set_hsize_def)
  qed
  have ring: "path (hptr s') ?b (?b # F) ?b"
    using D(3) path_cong [of "?b # F" "hptr s'" "hptr s"] hp by auto
  have pl: "base_at s' = ?b" "freep s' = prev" "same_place s s'" "heap_lo s' = heap_lo s" "heap_hi s' = heap_hi s"
    by (simp_all add: s' set_hsize_def same_place_def heap_lo_def heap_hi_def)
  have "a \<noteq> ?b" "p \<noteq> ?b" using ua D(2) t(2) [of p] p by auto
  then have b0: "hsize s' ?b = 0" using D(4) by (simp add: s' hsize_def set_hsize_def)
  have adj: "unat c + 8 * sz s' c \<noteq> unat x" if "c \<in> set F" "x \<in> set F" for c x
  proof (cases "c = p")
    case True
    show ?thesis
    proof
      assume "unat c + 8 * sz s' c = unat x"
      then have "unat x = unat a" using True ua pa by (simp add: szs)
      then show False using aB that(2) by (auto simp: word_unat_eq_iff [symmetric])
    qed
  qed (use that D(7) [OF that] aB in \<open>auto simp: szs\<close>)
  show "hinv s' F (insert a L)" unfolding hinv_def pl
    using D ring b0 adj prev tl' aB by auto
  show "sz s' a = unat n" by (simp add: szs)
  show "a \<notin> L" using aB by simp
  have "mem s' x = mem s x" if "c \<in> L" "unat x \<in> blk (sz s) c" for c x
  proof -
    have "c \<noteq> p" using D(8) that(1) p by auto
    then have "blk (sz s) c \<inter> blk (sz s) p = {}" using that(1) p by (intro tiles_disjoint [OF D(10)]) auto
    then have "x \<noteq> p + 4" "x \<noteq> a + 4" using inp that(2) by auto
    then show ?thesis by (simp add: s' set_hsize_def)
  qed
  moreover have "sz s' c = sz s c" if "c \<in> L" for c using that aB D(8) p by (auto simp: szs)
  ultimately show "keeps L s s'" using pl(3) by (auto simp: keeps_def)
qed

lemma carve_ok:
  assumes h: "hinv s F L" and prev: "prev \<in> set (base_at s # F)" and p: "hptr s prev = p" and n: "0 < n" "n \<le> hsize s p"
    and pin: "p \<in> set (base_at s # F)"
  obtains a s' F' where "carve n prev p s = (a + 8, s')" and "hinv s' F' (insert a L)" and "keeps L s s'"
    and "sz s' a = unat n" and "a \<notin> L"
proof -
  have pF: "p \<in> set F" using pin n hinvD(4) [OF h] by auto
  show thesis
  proof (cases "hsize s p = n")
    case True
    obtain xs ys where F: "F = xs @ p # ys" "prev = last (base_at s # xs)" by (rule ring_pred [OF h prev p pF])
    show thesis
      by (rule that [of p "(set_hptr prev (hptr s p) s)\<lparr>freep := prev\<rparr>" "xs @ ys"])
        (use True carve_whole [OF h F refl] in \<open>simp_all add: carve_def sz_def\<close>)
  next
    case False
    then have l: "n < hsize s p" using n by simp
    note c = carve_tail [OF h pF n(1) l refl refl prev]
    have "carve n prev p s = (p + 8 * (hsize s p - n) + 8,
        set_hsize (p + 8 * (hsize s p - n)) n (set_hsize p (hsize s p - n) s)\<lparr>freep := prev\<rparr>)"
      using False by (simp add: carve_def Let_def hsize_def set_hsize_def)
    then show thesis using c by (intro that) auto
  qed
qed

text \<open>The search ends at a block that is large enough, or back at \<open>freep\<close>.\<close>

lemma malloc_search:
  assumes h: "hinv s F L"
  obtains prev p where "malloc_loop n (freep s) (hptr s (freep s)) s = malloc_loop n prev p s"
    and "hptr s prev = p" and "prev \<in> set (base_at s # F)" and "p \<in> set (base_at s # F)"
    and "p = freep s \<or> n \<le> hsize s p"
proof -
  let ?b = "base_at s" and ?f = "freep s"
  obtain us vs where u: "?b # F = us @ ?f # vs" using hinvD(5) [OF h] by (meson split_list)
  have "path (hptr s) ?b (us @ ?f # vs) ?b" using hinvD(3) [OF h] unfolding u .
  then have "path (hptr s) ?f (?f # vs @ us) ?f" by (rule path_rotate)
  then have w: "path (hptr s) (hptr s ?f) (vs @ us) ?f" by simp
  have "distinct (us @ ?f # vs)" using hinv_distinct [OF h] u by simp
  then have "?f \<notin> set (vs @ us)" by auto
  from malloc_loop_walk [OF w this refl, of n]
  obtain prev p where r: "malloc_loop n ?f (hptr s ?f) s = malloc_loop n prev p s" "hptr s prev = p"
    "prev \<in> set (?f # vs @ us)" "p = ?f \<or> p \<in> set (vs @ us) \<and> n \<le> hsize s p" by blast
  have "set (?f # vs @ us) = set (?b # F)" unfolding u by auto
  then show thesis using r by (intro that [of prev p]) auto
qed

lemma malloc_loop_found: "n \<le> hsize s p \<Longrightarrow> malloc_loop n prev p s = Some (carve n prev p s)"
  by (subst malloc_loop.simps) simp

lemma malloc_loop_ok:
  assumes h: "hinv s F L" and ok: "\<forall>x. brk_ok s x" and n: "0 < n" and room: "heap_hi s + 8 * unat (units_for n) < 2 ^ 32"
  obtains a s' F' where "malloc_loop n (freep s) (hptr s (freep s)) s = Some (a + 8, s')" and "hinv s' F' (insert a L)"
    and "keeps L s s'" and "sz s' a = unat n" and "a \<notin> L"
proof -
  obtain prev p where w: "malloc_loop n (freep s) (hptr s (freep s)) s = malloc_loop n prev p s"
    "hptr s prev = p" "prev \<in> set (base_at s # F)" "p \<in> set (base_at s # F)" "p = freep s \<or> n \<le> hsize s p"
    by (rule malloc_search [OF h])
  show thesis
  proof (cases "n \<le> hsize s p")
    case True
    show thesis by (rule carve_ok [OF h w(3,2) n True w(4)]) (use w(1) malloc_loop_found [OF True] in \<open>simp add: that\<close>)
  next
    case False
    obtain s1 F1 where m: "morecore n s = Some (freep s1, s1)" "hinv s1 F1 L" "keeps L s s1"
      "n \<le> hsize s1 (freep s1) \<or> n \<le> hsize s1 (hptr s1 (freep s1))"
      by (rule morecore_ok [OF h ok room])
    have "freep s1 \<noteq> 0" using hinvD(1,5) [OF m(2)] hinv_base_less [OF m(2), of "freep s1"] by auto
    then have l: "malloc_loop n prev p s = malloc_loop n (freep s1) (hptr s1 (freep s1)) s1"
      using False w(5) m(1) by (subst malloc_loop.simps) simp
    obtain prev' p' where w': "malloc_loop n (freep s1) (hptr s1 (freep s1)) s1 = malloc_loop n prev' p' s1"
      "hptr s1 prev' = p'" "prev' \<in> set (base_at s1 # F1)" "p' \<in> set (base_at s1 # F1)" "n \<le> hsize s1 p'"
    proof (cases "n \<le> hsize s1 (freep s1)")
      case True
      show thesis by (rule malloc_search [OF m(2), of n]) (use True that in auto)
    next
      case False
      then have "n \<le> hsize s1 (hptr s1 (freep s1))" using m(4) by simp
      moreover have "hptr s1 (freep s1) \<in> set (base_at s1 # F1)"
      proof -
        have "map (hptr s1) (base_at s1 # F1) = F1 @ [base_at s1]" using path_map [OF hinvD(3) [OF m(2)]] by simp
        then have "hptr s1 ` set (base_at s1 # F1) = set (F1 @ [base_at s1])" by (metis list.set_map)
        then show ?thesis using hinvD(5) [OF m(2)] by auto
      qed
      ultimately show thesis using hinvD(5) [OF m(2)] by (intro that [OF refl refl]) auto
    qed
    show thesis
    proof (rule carve_ok [OF m(2) w'(3,2) n w'(5,4)])
      fix a s' F' assume c: "carve n prev' p' s1 = (a + 8, s')" "hinv s' F' (insert a L)" "keeps L s1 s'" "sz s' a = unat n" "a \<notin> L"
      show thesis by (rule that [OF _ c(2) keeps_trans [OF m(3) c(3)] c(4,5)])
        (use w(1) l w'(1) malloc_loop_found [OF w'(5)] c(1) in simp)
    qed
  qed
qed

text \<open>The heap of a program that has not called \<open>malloc\<close> yet, and any later one.\<close>

definition fresh_heap :: "uheap \<Rightarrow> bool" where
  "fresh_heap s \<longleftrightarrow> freep s = 0 \<and> old_brk s = 0 \<and> base_at s \<noteq> 0 \<and> unat (base_at s) + 8 \<le> heap_lo s"

definition heap_ok :: "uheap \<Rightarrow> u32 set \<Rightarrow> bool" where
  "heap_ok s L \<longleftrightarrow> fresh_heap s \<and> L = {} \<or> (\<exists>F. hinv s F L)"

lemma fresh_hinv:
  assumes "fresh_heap s"
  defines "s1 \<equiv> set_hsize (base_at s) 0 (set_hptr (base_at s) (base_at s) (s\<lparr>freep := base_at s\<rparr>))"
  shows "hinv s1 [] {}" and "brk_ok s1 = brk_ok s" and "heap_hi s1 = heap_hi s" and "same_place s s1"
  using assms(1) by (auto simp: s1_def fresh_heap_def hinv_def tiles_def set_hsize_def set_hptr_def hptr_def hsize_def
      heap_hi_def heap_lo_def same_place_def)

lemma nunits_of_ok:
  assumes "unat nbytes + 8 < 2 ^ 32"
  shows "0 < nunits_of nbytes" "unat (nunits_of nbytes) = (unat nbytes + 7) div 8 + 1"
proof -
  have "unat (nbytes + 8 - 1) = unat nbytes + 7"
  proof -
    have "nbytes + 8 - 1 = 7 + nbytes" by simp
    then show ?thesis using assms unat_add_small [of 7 nbytes] by simp
  qed
  then have d: "unat ((nbytes + 8 - 1) div 8) = (unat nbytes + 7) div 8" by (simp add: unat_div)
  have "(unat nbytes + 7) div 8 < 2 ^ 29" using assms by simp
  then show u: "unat (nunits_of nbytes) = (unat nbytes + 7) div 8 + 1"
    unfolding nunits_of_def using d by (subst unat_add_small) auto
  then show "0 < nunits_of nbytes" by (simp add: word_less_nat_alt)
qed

lemma malloc_units:
  assumes "heap_ok s L" and ok: "\<forall>x. brk_ok s x" and n: "0 < nunits_of nbytes"
    and room: "heap_hi s + 8 * unat (units_for (nunits_of nbytes)) < 2 ^ 32"
  obtains a s' where "malloc nbytes s = Some (a + 8, s')" and "heap_ok s' (insert a L)" and "keeps L s s'"
    and "a \<notin> L" and "sz s' a = unat (nunits_of nbytes)"
proof -
  obtain s1 F where s1: "hinv s1 F L" "brk_ok s1 = brk_ok s" "heap_hi s1 = heap_hi s" "keeps L s s1"
    "malloc nbytes s = malloc_loop (nunits_of nbytes) (freep s1) (hptr s1 (freep s1)) s1"
  proof (cases "fresh_heap s \<and> L = {}")
    case True
    then show thesis using fresh_hinv [of s]
      by (intro that [of "set_hsize (base_at s) 0 (set_hptr (base_at s) (base_at s) (s\<lparr>freep := base_at s\<rparr>))" "[]"])
        (auto simp: malloc_def keeps_def fresh_heap_def Let_def)
  next
    case False
    then obtain F where h: "hinv s F L" using assms(1) by (auto simp: heap_ok_def)
    then have "freep s \<noteq> 0" using hinvD(1,5) [OF h] hinv_base_less [OF h, of "freep s"] by auto
    then show thesis using h by (intro that [of s F]) (auto simp: malloc_def keeps_def same_place_def)
  qed
  obtain a s' F' where c: "malloc_loop (nunits_of nbytes) (freep s1) (hptr s1 (freep s1)) s1 = Some (a + 8, s')"
    "hinv s' F' (insert a L)" "keeps L s1 s'" "sz s' a = unat (nunits_of nbytes)" "a \<notin> L"
    by (rule malloc_loop_ok [OF s1(1) _ n]) (use ok room s1(2,3) in auto)
  show thesis
  proof (rule that)
    show "malloc nbytes s = Some (a + 8, s')" using s1(5) c(1) by simp
    show "heap_ok s' (insert a L)" using c(2) by (auto simp: heap_ok_def)
    show "keeps L s s'" by (rule keeps_trans [OF s1(4) c(3)])
  qed (rule c(5,4))+
qed

lemma malloc_ok:
  assumes "heap_ok s L" and "\<forall>x. brk_ok s x" and nb: "unat nbytes + 8 < 2 ^ 32"
    and room: "heap_hi s + 8 * max 4096 ((unat nbytes + 7) div 8 + 1) < 2 ^ 32"
  obtains a s' where "malloc nbytes s = Some (a + 8, s')" and "heap_ok s' (insert a L)" and "keeps L s s'"
    and "a \<notin> L" and "unat nbytes + 8 \<le> 8 * sz s' a"
proof -
  note n = nunits_of_ok [OF nb]
  have "8 * unat (units_for (nunits_of nbytes)) \<le> 8 * max 4096 ((unat nbytes + 7) div 8 + 1)"
    using n(2) by (auto simp: units_for_def)
  then have r: "heap_hi s + 8 * unat (units_for (nunits_of nbytes)) < 2 ^ 32" using room by simp
  show thesis by (rule malloc_units [OF assms(1,2) n(1) r]) (use n(2) in \<open>auto intro: that\<close>)
qed

subsection \<open>The properties\<close>

text \<open>The data of a block, behind its header, is disjoint from every other block of the heap.\<close>

lemma heap_ok_disjoint:
  assumes "heap_ok s L" and "a \<in> L" and "c \<in> L" and "a \<noteq> c"
  shows "blk (sz s) a \<inter> blk (sz s) c = {}"
proof -
  obtain F where "hinv s F L" using assms(1,2) by (auto simp: heap_ok_def)
  from tiles_disjoint [OF hinvD(10) [OF this]] show ?thesis using assms(2-) by auto
qed

text \<open>
  C19: while \<open>brk\<close> gives memory, \<open>malloc\<close> returns a block of at least the size asked for that lies
  between the end of the program and the break and overlaps no block in use, and no word of a block in
  use, nor of its header, changes: the heap is again a sorted ring of separate free blocks that tiles the
  memory together with the blocks in use.
\<close>

theorem malloc_gives_block:
  assumes "heap_ok s L" and "\<forall>x. brk_ok s x" and "unat nbytes + 8 < 2 ^ 32"
    and "heap_hi s + 8 * max 4096 ((unat nbytes + 7) div 8 + 1) < 2 ^ 32"
  shows "\<exists>a s'. malloc nbytes s = Some (a + 8, s') \<and> heap_ok s' (insert a L) \<and> a \<notin> L \<and>
    unat nbytes + 8 \<le> 8 * sz s' a \<and> (\<forall>c \<in> L. blk (sz s') a \<inter> blk (sz s') c = {}) \<and>
    (\<forall>c \<in> L. sz s' c = sz s c \<and> (\<forall>x. unat x \<in> blk (sz s) c \<longrightarrow> mem s' x = mem s x))"
proof -
  obtain a s' where m: "malloc nbytes s = Some (a + 8, s')" "heap_ok s' (insert a L)" "keeps L s s'" "a \<notin> L"
    "unat nbytes + 8 \<le> 8 * sz s' a"
    by (rule malloc_ok [OF assms])
  have "blk (sz s') a \<inter> blk (sz s') c = {}" if "c \<in> L" for c
    using heap_ok_disjoint [OF m(2)] that m(4) by auto
  then show ?thesis using m by (intro exI [of _ a] exI [of _ s']) (auto simp: keeps_def)
qed

text \<open>
  C20: \<open>free\<close> of a block in use returns, for every order in which blocks are given back: the heap without
  that block is well-formed again, its memory free, and no word of another block in use has changed.
\<close>

theorem free_gives_back:
  assumes "heap_ok s L" and "a \<in> L"
  shows "\<exists>s'. free (a + 8) s = Some s' \<and> heap_ok s' (L - {a}) \<and>
    (\<forall>c \<in> L - {a}. sz s' c = sz s c \<and> (\<forall>x. unat x \<in> blk (sz s) c \<longrightarrow> mem s' x = mem s x))"
proof -
  obtain F where h: "hinv s F L" using assms by (auto simp: heap_ok_def)
  obtain s' F' where "free (a + 8) s = Some s'" "hinv s' F' (L - {a})" "keeps (L - {a}) s s'"
    by (rule free_ok [OF h assms(2)])
  then show ?thesis by (intro exI [of _ s']) (auto simp: heap_ok_def keeps_def)
qed

text \<open>A program whose data ends at \<open>0x0804a010\<close>.\<close>

definition new_heap :: uheap where
  "new_heap = \<lparr>mem = \<lambda>_. 0, freep = 0, old_brk = 0, brk_ok = \<lambda>_. True, base_at = 0x0804a000, end_at = 0x0804a010\<rparr>"

lemma new_heap_ok: "heap_ok new_heap {}" "\<forall>x. brk_ok new_heap x" "heap_hi new_heap = 0x0804b000"
proof -
  have "((0x0804a010 :: u32) + 4095) AND 0xfffff000 = 0x0804b000" by simp
  then have l: "heap_lo new_heap = 0x0804b000" by (simp add: heap_lo_def new_heap_def)
  then show "heap_hi new_heap = 0x0804b000" by (simp add: heap_hi_def new_heap_def)
  have b: "base_at new_heap = 0x0804a000" "freep new_heap = 0" "old_brk new_heap = 0" by (simp_all add: new_heap_def)
  show "heap_ok new_heap {}" unfolding heap_ok_def fresh_heap_def b l by simp
qed (simp add: new_heap_def)

theorem malloc_gives_block_witness:
  "\<exists>a s'. malloc 100 new_heap = Some (a + 8, s') \<and> heap_ok s' {a} \<and> 108 \<le> 8 * sz s' a"
  using malloc_gives_block [OF new_heap_ok(1,2), of 100] new_heap_ok(3) by auto

theorem free_gives_back_witness:
  "\<exists>a s' s''. malloc 100 new_heap = Some (a + 8, s') \<and> free (a + 8) s' = Some s'' \<and> heap_ok s'' {}"
proof -
  obtain a s' where "malloc 100 new_heap = Some (a + 8, s')" "heap_ok s' {a}"
    by (rule malloc_ok [OF new_heap_ok(1,2), of 100]) (use new_heap_ok(3) in auto)
  then show ?thesis using free_gives_back [of s' "{a}" a] by auto
qed

text \<open>
  The computation of the units wraps around: a request for 4294967295 bytes succeeds and returns a block
  of one unit, all of which is its header, so there is no room for a single byte of data.
\<close>

lemma malloc_wraps:
  assumes "heap_ok s L" and "\<forall>x. brk_ok s x" and "heap_hi s + 8 * 4096 < 2 ^ 32"
  shows "\<exists>a s'. malloc 0xffffffff s = Some (a + 8, s') \<and> a \<notin> L \<and> sz s' a = 1 \<and> heap_ok s' (insert a L)"
proof -
  have n: "nunits_of 0xffffffff = 1" by code_simp
  obtain a s' where "malloc 0xffffffff s = Some (a + 8, s')" "heap_ok s' (insert a L)" "a \<notin> L"
    "sz s' a = unat (nunits_of 0xffffffff)"
    by (rule malloc_units [OF assms(1,2), of "0xffffffff"]) (use assms(3) n in \<open>auto simp: units_for_def\<close>)
  then show ?thesis using n by auto
qed

end
