(* ===== verification/KRun.thy ===== *)
theory KRun
  imports KFork
begin

text \<open>
  Every step of the kernel keeps the invariant, from the state \<open>main\<close> leaves: the handlers, the
  scheduler, and the start.
\<close>

subsection \<open>Semaphores from a handler\<close>

lemma sem_p_takes_kinv:
  assumes "kinv_at k t d" and "live k s" and "sem_p k s = Some (False, k')"
  shows "kinv_at k' t (d(s := d s + 1))" and "k' = k\<lparr>sems := (sems k)(s := sems k s - 1)\<rparr>" and "steady k k'"
proof -
  obtain n q w where s: "sync_ok k t d n q w" using assms(1) by (auto simp: kinv_at_def)
  note tk = sem_p_takes [OF s assms(2,3)]
  show k': "k' = k\<lparr>sems := (sems k)(s := sems k s - 1)\<rparr>" by (rule tk(1))
  show "kinv_at k' t (d(s := d s + 1))" using tk(2) assms(1) unfolding kinv_at_def by (auto simp: k')
  show "steady k k'" by (simp add: k' steady_def)
qed

lemma sem_p_blocks_kinv:
  assumes "settled k" and "live k s" and "sem_p k s = Some (True, k')" and "stands_at (usems (cur k)) (curr k) c s"
    and "s = ZombieSem (curr k) \<Longrightarrow> children k (curr k) \<noteq> {}"
  shows "kinv (k', Switch c)"
proof -
  let ?t = "\<lambda>p. cont (pcb k p)" and ?p = "curr k"
  have run: "status (cur k) = RUNNING" and ki: "kinv_at k ?t (\<lambda>_. 0)" using assms(1) by simp_all
  obtain n q w where s: "sync_ok k ?t (\<lambda>_. 0) n q w" using ki by (auto simp: kinv_at_def)
  obtain l n' q' where k': "k' = set_status (k\<lparr>sems := (sems k)(s := sems k s - 1), lists := l\<rparr>) ?p BLOCKED"
    and s': "sync_ok k' (?t(?p := c)) (\<lambda>_. 0) n' q' (w(?p := s))"
    using sem_p_blocks [OF s assms(2) run assms(3,4)] by blast
  define k1 where "k1 = k\<lparr>sems := (sems k)(s := sems k s - 1), lists := l\<rparr>"
  have a: "active k1 ?p" using run by (simp add: k1_def active_def)
  have ch: "children k ?p \<noteq> {}" if "waits_on ?p c = Some (ZombieSem ?p)"
    using that assms(4,5) by (auto simp: stands_at_def waits_on_def split: sem_id.splits)
  have "tree_ok k' (?t(?p := c))" unfolding k' k1_def [symmetric]
  proof (rule tree_status [OF a])
    show "tree_ok k1 ?t" using ki by (simp add: k1_def kinv_at_def)
    show "b \<in> pending k1 ?t (ZombieSem b) \<or> children k1 b \<noteq> {}"
      if "b \<in> pending (set_status k1 ?p BLOCKED) (?t(?p := c)) (ZombieSem b)" for b
      using that ch by (cases "b = ?p") (auto simp: k1_def pending_def)
  qed simp
  moreover have "tables_ok k'" "input_ok k'"
    using ki unfolding k' k1_def [symmetric] rest_status [OF a, of BLOCKED, simplified] by (simp_all add: k1_def kinv_at_def)
  ultimately have "kinv_at k' (?t(?p := c)) (\<lambda>_. 0)" using s' by (auto simp: kinv_at_def)
  moreover have "curr k' = ?p" "status (cur k') = BLOCKED" "(\<lambda>p. cont (pcb k' p)) = ?t"
    by (auto simp: k' set_status_def upd_proc_def)
  ultimately show ?thesis by (simp add: kinv_switch)
qed

lemma live_console [simp]: "live k SerialSem"
  by (simp add: live_def)

lemma held_live: "settled k \<Longrightarrow> proc_getusem k (curr k) i = Some u \<Longrightarrow> live k (UserSem u) \<and> Some u \<in> set (usems (cur k))"
proof -
  assume a: "settled k" "proc_getusem k (curr k) i = Some u"
  then obtain n q w where s: "sync_ok k (\<lambda>p. cont (pcb k p)) (\<lambda>_. 0) n q w" and tb: "tables_ok k"
    by (auto simp: kinv_at_def)
  have ap: "active k (curr k)" using a(1) by (simp add: active_def)
  then have "length (usems (cur k)) = MAX_USEM" using tb by (simp add: tables_ok_def)
  then have "Some u \<in> set (usems (cur k))"
    using get_slot_some [of "usems (cur k)" MAX_USEM i u] a(2) unfolding proc_getusem_def by (metis nth_mem)
  then show ?thesis using held_ref [OF tb syncD(1) [OF s] ap] by (simp add: live_def)
qed

subsection \<open>System calls\<close>

lemma quiet_kinv: "core_state k' = core_state k \<Longrightarrow> settled k \<Longrightarrow> \<forall>c. out \<noteq> Switch c \<Longrightarrow> kinv (k', out)"
  using settled_cong [of k' k] by (simp add: kinv_settled)

lemma sys_sem_p_kinv:
  assumes "sys_sem_p k i = Some (out, k')" and "settled k"
  shows "kinv (k', out)"
proof (cases "proc_getusem k (curr k) i")
  case None
  then show ?thesis using assms by (auto simp: sys_sem_p_def kinv_settled)
next
  case (Some u)
  note h = held_live [OF assms(2) Some]
  obtain b where b: "sem_p k (UserSem u) = Some (b, k')" "out = (if b then Switch KSemP else Ret 0)"
    using assms(1) Some by (auto simp: sys_sem_p_def bind_eq_Some_conv)
  show ?thesis
  proof (cases b)
    case True
    then show ?thesis using sem_p_blocks_kinv [OF assms(2) conjunct1 [OF h], of k' KSemP] b h by (simp add: stands_at_def)
  next
    case False
    have b': "sem_p k (UserSem u) = Some (False, k')" using b(1) False by simp
    note t = sem_p_takes_kinv [OF conjunct1 [OF assms(2)] conjunct1 [OF h] b']
    have "kinv_at k' (\<lambda>p. cont (pcb k p)) (\<lambda>_. 0)" using t(1) by simp
    then have "settled k'" by (rule steady_settled [OF _ t(3)]) (use assms(2) in simp)
    then show ?thesis using b(2) False by (simp add: kinv_settled)
  qed
qed

lemma sys_sem_v_kinv:
  assumes "sys_sem_v k i = Some (out, k')" and "settled k"
  shows "kinv (k', out)"
proof (cases "proc_getusem k (curr k) i")
  case None
  then show ?thesis using assms by (auto simp: sys_sem_v_def kinv_settled)
next
  case (Some u)
  note h = held_live [OF assms(2) Some]
  have v: "sem_v k (UserSem u) = Some k'" "out = Ret 0"
    using assms(1) Some by (auto simp: sys_sem_v_def bind_eq_Some_conv)
  note g = sem_v_kinv_at [OF conjunct1 [OF assms(2)] conjunct1 [OF h] v(1)]
  have "kinv_at k' (\<lambda>p. cont (pcb k p)) (\<lambda>_. 0)" using g by simp
  then have "settled k'" by (rule steady_settled) (use g woken_steady assms(2) in auto)
  then show ?thesis using v(2) by (simp add: kinv_settled)
qed

lemma sys_wait_kinv:
  assumes "sys_wait k a = Some (out, k')" and "settled k"
  shows "kinv (k', out)"
proof (cases "child_num (cur k) = 0")
  case True
  then show ?thesis using assms by (auto simp: sys_wait_def kinv_settled)
next
  case False
  have ap: "active k (curr k)" using assms(2) by (simp add: active_def)
  then have ch: "children k (curr k) \<noteq> {}" using assms(2) False by (auto simp: kinv_at_def tree_ok_def)
  have lv: "live k (ZombieSem (curr k))" using ap by (simp add: live_def)
  obtain b k1 where b: "sem_p k (ZombieSem (curr k)) = Some (b, k1)"
    "(if b then Some (Switch (KWait a), k1) else wait_tail k1 a) = Some (out, k')"
    using assms(1) False by (auto simp: sys_wait_def bind_eq_Some_conv)
  show ?thesis
  proof (cases b)
    case True
    then show ?thesis using sem_p_blocks_kinv [OF assms(2) lv, of k1 "KWait a"] b ch
      by (auto simp: stands_at_def waits_on_def)
  next
    case False
    have b': "sem_p k (ZombieSem (curr k)) = Some (False, k1)" using b(1) False by simp
    note t = sem_p_takes_kinv [OF conjunct1 [OF assms(2)] lv b']
    have "kinv_at k1 (\<lambda>p. cont (pcb k1 p)) ((\<lambda>_. 0)(ZombieSem (curr k1) := 1))" "status (cur k1) = RUNNING"
      using t(1) assms(2) by (simp_all add: t(2))
    then show ?thesis using wait_tail_kinv [of k1 a out k'] b(2) False by simp
  qed
qed

lemma serial_loop_kinv: "serial_loop k buf n i ch = Some y \<Longrightarrow> settled k \<longrightarrow> kinv (snd y, of_step (fst y))"
proof (rule serial_loop.raw_induct [where P = "\<lambda>k buf n i ch y. settled k \<longrightarrow> kinv (snd y, of_step (fst y))"], goal_cases)
  case (1 loop k buf n i ch y)
  show ?case
  proof (intro impI)
    assume se: "settled k"
    show "kinv (snd y, of_step (fst y))"
    proof (cases "i < n \<and> ch \<noteq> NEWLINE")
      case True
      then obtain b k1 where p: "sem_p k SerialSem = Some (b, k1)" using 1(3) by (cases "sem_p k SerialSem") auto
      show ?thesis
      proof (cases b)
        case b: True
        then show ?thesis using True 1(3) p sem_p_blocks_kinv [OF se, of SerialSem k1 "KSerial buf n i"]
          by (auto simp: of_step_def stands_at_def waits_on_def)
      next
        case False
        have p': "sem_p k SerialSem = Some (False, k1)" using p False by simp
        note tk = sem_p_takes_kinv [OF conjunct1 [OF se] live_console p']
        obtain c k2 where g: "getchar_tail k1 = Some (c, k2)" "k2 = k1\<lparr>s_head := s_head k1 + 1\<rparr>"
          "kinv_at k2 (\<lambda>p. cont (pcb k p)) ((\<lambda>_. 0)(SerialSem := 0 + 1, SerialSem := ((\<lambda>_. 0)(SerialSem := 0 + 1)) SerialSem - 1))"
          using getchar_tail_ok [OF tk(1)] by auto
        have "((\<lambda>_. 0)(SerialSem := 0 + 1, SerialSem := ((\<lambda>_. 0)(SerialSem := 0 + 1)) SerialSem - 1)) = (\<lambda>_. 0 :: int)" by auto
        then have k2: "settled k2" using g(3) tk(3) se by (simp add: g(2) steady_def tk(2))
        obtain v where v: "loop (k2\<lparr>kvm := v\<rparr>) buf n (i + 1) c = Some y"
          using True 1(3) p False g(1) by (auto simp: bind_eq_Some_conv)
        have "settled (k2\<lparr>kvm := v\<rparr>)" using k2 settled_cong [of "k2\<lparr>kvm := v\<rparr>" k2] by simp
        then show ?thesis using 1(2) [OF v] by blast
      qed
    next
      case False
      then have "y = (Done i, k)" using 1(3) by (auto split: if_splits)
      then show ?thesis using se by (simp add: of_step_def kinv_settled)
    qed
  qed
qed

lemma serial_resume_kinv:
  assumes "serial_resume k buf n i = Some (s, k')" and "kinv_at k (\<lambda>p. cont (pcb k p)) ((\<lambda>_. 0)(SerialSem := 1))"
    and "status (cur k) = RUNNING"
  shows "kinv (k', of_step s)"
proof -
  obtain c k2 where g: "getchar_tail k = Some (c, k2)" "k2 = k\<lparr>s_head := s_head k + 1\<rparr>"
    "kinv_at k2 (\<lambda>p. cont (pcb k p)) ((\<lambda>_. 0)(SerialSem := 1, SerialSem := ((\<lambda>_. 0)(SerialSem := 1)) SerialSem - 1))"
    using getchar_tail_ok [OF assms(2)] by auto
  have "((\<lambda>_. 0)(SerialSem := 1, SerialSem := ((\<lambda>_. 0)(SerialSem := 1)) SerialSem - 1)) = (\<lambda>_. 0 :: int)" by auto
  then have k2: "settled k2" using g(3) assms(3) by (simp add: g(2))
  obtain v where v: "serial_loop (k2\<lparr>kvm := v\<rparr>) buf n (i + 1) c = Some (s, k')"
    using assms(1) g(1) by (auto simp: serial_resume_def bind_eq_Some_conv)
  have "settled (k2\<lparr>kvm := v\<rparr>)" using k2 settled_cong [of "k2\<lparr>kvm := v\<rparr>" k2] by simp
  then show ?thesis using serial_loop_kinv [OF v] by simp
qed

lemma fread_shape:
  "fread k f buf n = Some (s, k') \<Longrightarrow>
   (\<exists>r. s = Done r) \<and> core_state k' = core_state k \<or> serial_loop k buf n 0 0 = Some (s, k')"
  by (auto simp: fread_def dev_read_def serial_read_def bind_eq_Some_conv Let_def split: if_splits option.splits)

lemma sys_read_kinv:
  assumes "sys_read k fd buf n = Some (out, k')" and "settled k"
  shows "kinv (k', out)"
proof (cases "fd_file k fd")
  case None
  then show ?thesis using assms by (auto simp: sys_read_def kinv_settled)
next
  case (Some f)
  then obtain s where s: "fread k f buf n = Some (s, k')" "out = of_step s"
    using assms(1) by (auto simp: sys_read_def bind_eq_Some_conv)
  show ?thesis using fread_shape [OF s(1)]
  proof
    assume "(\<exists>r. s = Done r) \<and> core_state k' = core_state k"
    then show ?thesis using assms(2) by (auto simp: s(2) of_step_def intro: quiet_kinv)
  next
    assume "serial_loop k buf n 0 0 = Some (s, k')"
    then show ?thesis using serial_loop_kinv [of k buf n 0 0 "(s, k')"] assms(2) by (simp add: s(2))
  qed
qed

lemma no_switch:
  "sys_write k a1 a2 a3 = Some (out, k') \<Longrightarrow> \<forall>c. out \<noteq> Switch c"
  "sys_open k a1 a2 = Some (out, k') \<Longrightarrow> \<forall>c. out \<noteq> Switch c"
  "sys_close k a1 = Some (out, k') \<Longrightarrow> \<forall>c. out \<noteq> Switch c"
  "sys_dup k a1 = Some (out, k') \<Longrightarrow> \<forall>c. out \<noteq> Switch c"
  "sys_lseek k a1 a2 a3 = Some (out, k') \<Longrightarrow> \<forall>c. out \<noteq> Switch c"
  "sys_fstat k a1 a2 = Some (out, k') \<Longrightarrow> \<forall>c. out \<noteq> Switch c"
  "sys_chdir k a1 = Some (out, k') \<Longrightarrow> \<forall>c. out \<noteq> Switch c"
  "sys_unlink k a1 = Some (out, k') \<Longrightarrow> \<forall>c. out \<noteq> Switch c"
  "sys_brk k a1 = Some (out, k') \<Longrightarrow> \<forall>c. out \<noteq> Switch c"
  "sys_exec k a1 a2 = Some (out, k') \<Longrightarrow> \<forall>c. out \<noteq> Switch c"
  by (auto simp: sys_write_def sys_open_def sys_close_def sys_dup_def sys_lseek_def sys_fstat_def sys_chdir_def
      sys_unlink_def sys_brk_def sys_exec_def bind_eq_Some_conv Let_def split: option.splits if_splits)

lemma sys_sleep_kinv: "sleep_loop k since ticks = (out, k') \<Longrightarrow> settled k \<Longrightarrow> kinv (k', out)"
  by (auto simp: sleep_loop_def waits_on_def kinv_settled intro: yield_kinv split: if_splits)

lemma sys_getpid_kinv: "(out, k') = sys_getpid k \<Longrightarrow> settled k \<Longrightarrow> kinv (k', out)"
  by (auto simp: sys_getpid_def kinv_settled)

lemma sys_yield_kinv: "(out, k') = sys_yield k \<Longrightarrow> settled k \<Longrightarrow> kinv (k', out)"
  by (auto simp: sys_yield_def waits_on_def intro: yield_kinv)

lemma do_syscall_kinv:
  assumes "do_syscall k = Some (out, k')" and "settled k"
  shows "kinv (k', out)"
proof -
  have q: "core_state k' = core_state k \<Longrightarrow> \<forall>c. out \<noteq> Switch c \<Longrightarrow> kinv (k', out)"
    using quiet_kinv assms(2) by blast
  have h: "syscall_handle n k a b c = Some (out, k') \<Longrightarrow> kinv (k', out)" for n a b c
    unfolding syscall_handle_def
    by (auto split: if_split_asm simp: sys_sleep_def
        intro: q sys_sleep_kinv [OF _ assms(2)] sys_getpid_kinv [OF _ assms(2)] sys_yield_kinv [OF _ assms(2)] sys_read_kinv [OF _ assms(2)] sys_fork_kinv [OF _ assms(2)] sys_exit_kinv [OF _ assms(2)]
          sys_wait_kinv [OF _ assms(2)] sys_sem_open_kinv [OF _ assms(2)] sys_sem_p_kinv [OF _ assms(2)]
          sys_sem_v_kinv [OF _ assms(2)] sys_sem_close_kinv [OF _ assms(2)]
        dest: no_switch kq.sys_write_quiet kq.sys_open_quiet kq.sys_close_quiet kq.sys_dup_quiet kq.sys_lseek_quiet
          kq.sys_fstat_quiet kq.sys_chdir_quiet kq.sys_unlink_quiet kq.sys_brk_quiet kq.sys_exec_quiet)
  show ?thesis using assms h q by (auto simp: do_syscall_def Let_def split: if_splits)
qed

subsection \<open>Interrupts and the scheduler\<close>

lemma irq_handle_kinv:
  assumes "irq_handle k irq input = Some (out, k')" and "irq \<noteq> INT_SWITCH" and "settled k"
  shows "kinv (k', out)"
proof -
  from assms(1,2) show ?thesis
  proof (cases rule: irq_handle_cases)
    case serial
    have "kinv_at k' (\<lambda>p. cont (pcb k p)) (\<lambda>_. 0)" "steady k k'"
      using serial_handle_kinv [OF serial(1)] assms(3) by auto
    then have "settled k'" using assms(3) by (intro steady_settled) auto
    then show ?thesis using serial(2) by (simp add: kinv_settled)
  next
    case timer
    have "settled (k\<lparr>tick := tick k + 1\<rparr>)" using assms(3) settled_cong [of "k\<lparr>tick := tick k + 1\<rparr>" k] by simp
    then show ?thesis using yield_kinv [of "k\<lparr>tick := tick k + 1\<rparr>" KTimer] timer
      by (auto simp: timer_handle_def waits_on_def)
  qed (use assms(3) do_syscall_kinv in \<open>auto simp: kinv_settled\<close>)
qed

text \<open>What the scheduler hands over to \<open>resume\<close>.\<close>

definition resumed :: "kern \<Rightarrow> bool" where
  "resumed k \<longleftrightarrow> kinv_at k (\<lambda>p. cont (pcb k p)) (\<lambda>s. if waits_on (curr k) (cont (cur k)) = Some s then 1 else 0) \<and>
     status (cur k) = RUNNING"

lemma schedule_resumed:
  assumes "schedule k c = Some k1" and "kinv (k, Switch c)"
  shows "resumed k1"
proof -
  let ?k = "upd_proc k (curr k) (\<lambda>pr. pr\<lparr>cont := c\<rparr>)"
  obtain p where p: "sched_loop ?k (curr k) = Some p" "k1 = proc_run ?k p"
    using assms(1) by (auto simp: schedule_def bind_eq_Some_conv upd_proc_def Let_def)
  have i: "kinv_at k ((\<lambda>p. cont (pcb k p))(curr k := c)) (\<lambda>_. 0)" "status (cur k) \<noteq> RUNNING"
    using assms(2) by (simp_all add: kinv_switch)
  have t: "(\<lambda>p. cont (pcb ?k p)) = (\<lambda>p. cont (pcb k p))(curr k := c)" by (auto simp: upd_proc_def)
  have "curr k < PROC_NUM" using i(1) by (auto simp: kinv_at_def sync_ok_def procs_ok_def)
  then have rp: "status (pcb ?k p) = READY" "p < PROC_NUM" using sched_loop_some [OF p(1)] by (auto simp: ready_def)
  have "kinv_at ?k (\<lambda>p. cont (pcb ?k p)) (\<lambda>_. 0)" using i(1) unfolding t by (simp add: kinv_at_cont)
  then have "kinv_at k1 (\<lambda>p. cont (pcb ?k p)) (\<lambda>s. if waits_on p (cont (pcb ?k p)) = Some s then 1 else 0)"
    unfolding p(2) by (rule kinv_at_run) (use rp i(2) in \<open>simp_all add: upd_proc_def\<close>)
  moreover have "curr k1 = p" "status (cur k1) = RUNNING" "\<And>q. cont (pcb k1 q) = cont (pcb ?k q)"
    unfolding p(2) by (simp_all add: proc_run_def Let_def set_status_def upd_proc_def)
  ultimately show ?thesis by (simp add: resumed_def)
qed

lemma resume_kinv:
  assumes "resume k = Some (out, k')" and "resumed k"
  shows "kinv (k', out)"
proof -
  have run: "status (cur k) = RUNNING" using assms(2) by (simp add: resumed_def)
  have se: "settled k" if "\<And>s. waits_on (curr k) (cont (cur k)) \<noteq> Some s" using assms(2) that by (simp add: resumed_def)
  have d: "(\<lambda>s. if waits_on (curr k) (cont (cur k)) = Some s then 1 else 0) = (\<lambda>_. 0)(s := 1 :: int)"
    if "waits_on (curr k) (cont (cur k)) = Some s" for s using that by auto
  show ?thesis
  proof (cases "cont (cur k)")
    case (KSleep since ticks)
    then show ?thesis using assms(1) se sys_sleep_kinv [of k since ticks out k'] by (auto simp: resume_def waits_on_def)
  next
    case (KWait a)
    then show ?thesis using assms(1,2) wait_tail_kinv [of k a out k'] d [of "ZombieSem (curr k)"] run
      by (simp add: resume_def resumed_def waits_on_def)
  next
    case (KSerial buf n i)
    then obtain s where "serial_resume k buf n i = Some (s, k')" "out = of_step s"
      using assms(1) by (auto simp: resume_def bind_eq_Some_conv)
    then show ?thesis using assms(2) serial_resume_kinv [of k buf n i s k'] d [of SerialSem] run KSerial
      by (simp add: resumed_def waits_on_def)
  qed (use assms(1) se in \<open>auto simp: resume_def waits_on_def kinv_settled\<close>)
qed

lemma step_kinv:
  assumes "step s s'" and "kinv s"
  shows "kinv s'"
  using assms
proof cases
  case (trap out k k1 irq input out' k2)
  have "settled k" using assms(2) trap(1,3) by (simp add: kinv_settled)
  moreover have "core_state k1 = core_state k"
    using trap(4) by (auto simp: user_effect_def to_user_def split: outcome.splits)
  ultimately have "settled k1" using settled_cong by blast
  then show ?thesis unfolding trap(2) by (rule irq_handle_kinv [OF trap(7,6)])
next
  case (switch k c k1 out' k2)
  then show ?thesis using schedule_resumed [OF switch(3)] resume_kinv [OF switch(4)] assms(2) by blast
qed

lemma reachable_kinv: "reachable k0 s \<Longrightarrow> kinv (k0, Iret) \<Longrightarrow> kinv s"
  by (induction rule: reachable.induct) (auto intro: step_kinv)

subsection \<open>The start\<close>

text \<open>The kernel's static variables before \<open>main\<close>: all zero.\<close>

definition zeroed :: "kern \<Rightarrow> bool" where
  "zeroed k \<longleftrightarrow> curr k = 0 \<and> (\<forall>p. status (pcb k p) = UNUSED \<and> parent (pcb k p) = None \<and> child_num (pcb k p) = 0 \<and>
       usems (pcb k p) = replicate MAX_USEM None \<and> p_files (pcb k p) = replicate MAX_UFILE None) \<and>
     (\<forall>u. usem_ref k u = 0) \<and> \<not> inited (lists k) \<and> s_head k = 0 \<and> s_clap k = 0 \<and> s_tail k = 0"

lemma first_process:
  assumes "zeroed k"
    and "core_state k' = core_state (sem_init (set_status (init_serial k) 0 RUNNING) (ZombieSem 0) 0)" (is "_ = core_state ?k")
  shows "settled k'"
proof -
  have z: "curr k = 0" "\<And>p. status (pcb k p) = UNUSED" "\<And>p. parent (pcb k p) = None" "\<And>p. child_num (pcb k p) = 0"
    "\<And>p. usems (pcb k p) = replicate MAX_USEM None" "\<And>p. p_files (pcb k p) = replicate MAX_UFILE None"
    "\<And>u. usem_ref k u = 0" "\<not> inited (lists k)" "s_head k = 0" "s_clap k = 0" "s_tail k = 0"
    using assms(1) by (auto simp: zeroed_def)
  let ?l = "list_init (list_init (lists k) (Head 0)) (Head 2)"
  have l: "pool_abs ?l 256 [0 \<mapsto> [], 2 \<mapsto> []]" by (rule wq.init_law [OF list_init_first [OF z(8)]])
  have f: "curr ?k = 0" "\<And>p. status (pcb ?k p) = (if p = 0 then RUNNING else UNUSED)" "\<And>p. parent (pcb ?k p) = None"
    "\<And>p. child_num (pcb ?k p) = 0" "\<And>p. usems (pcb ?k p) = replicate MAX_USEM None"
    "\<And>p. p_files (pcb ?k p) = replicate MAX_UFILE None" "\<And>u. usem_ref ?k u = 0" "lists ?k = ?l"
    "sems ?k SerialSem = 0" "sems ?k (ZombieSem 0) = 0" "s_head ?k = 0" "s_clap ?k = 0" "s_tail ?k = 0"
    using z by (simp_all add: sem_init_def init_serial_def putchar_def set_status_def upd_proc_def)
  have a: "\<And>p. active ?k p \<longleftrightarrow> p = 0" "blocked ?k = {}" "\<And>t s. pending ?k t s = {}" "\<And>p. children ?k p = {}" "\<And>p. zombies ?k p = {}"
    by (auto simp: sets_defs f)
  have dbl: "2 * x \<noteq> Suc 0" for x :: nat by presburger
  have q: "[0 \<mapsto> [], 2 \<mapsto> []] (head_no s) = Some xs \<longleftrightarrow> (s = SerialSem \<or> s = ZombieSem 0) \<and> xs = []" for s and xs :: "nat list"
    by (cases s) (auto simp: dbl)
  have "queues_ok ?k 256 [0 \<mapsto> [], 2 \<mapsto> []] w" for w
    unfolding queues_ok_def q using l by (auto simp: a f in_line_def live_def split: sem_id.splits)
  moreover have "waits_ok ?k t w" "counts_ok ?k t (\<lambda>_. 0)" "procs_ok ?k" for t w
    by (auto simp: waits_ok_def counts_ok_def procs_ok_def a f avail_def counted_def split: sem_id.splits)
  ultimately have "sync_ok ?k t (\<lambda>_. 0) 256 [0 \<mapsto> [], 2 \<mapsto> []] w" for t w by (simp add: sync_ok_def)
  moreover have "tree_ok ?k t" "input_ok ?k" for t by (auto simp: tree_ok_def input_ok_def a f)
  moreover have "tables_ok ?k" by (auto simp: tables_ok_def holders_def a f count_list_0_iff)
  ultimately have "kinv_at ?k t (\<lambda>_. 0)" for t unfolding kinv_at_def by blast
  then have "settled ?k" by (simp add: f(1,2))
  then show ?thesis using settled_cong [OF assms(2)] by simp
qed

lemma main_kinv:
  assumes "zeroed k0" and "kernel_main k0 argv = Some k"
  shows "kinv (k, Iret)"
proof -
  obtain k1 k2 k3 where k: "fs_op (init_serial k0) (init_fs (kfs (init_serial k0))) = Some k1"
    "init_proc (k1\<lparr>kvm := init_page (kvm k1)\<rparr>) = Some k2" "init_dev k2 = Some k3"
    "init_user_and_go (putstrn k3 hello) argv = Some k"
    using assms(2) by (auto simp: kernel_main_def bind_eq_Some_conv Let_def)
  have c1: "core_state k1 = core_state (init_serial k0)" using kq.fs_op_quiet [OF k(1)] .
  have "settled k2"
  proof (rule first_process [OF assms(1)])
    obtain v ks w f where k2: "k2 = upd_proc ((sem_init (upd_proc (k1\<lparr>kvm := v\<rparr>) 0 (\<lambda>pr. pr\<lparr>status := RUNNING,
        pgdir := vm_curr v, kstack := ks\<rparr>)) (ZombieSem 0) 0)\<lparr>kfs := f\<rparr>) 0 (\<lambda>pr. pr\<lparr>cwd := w\<rparr>)"
      using k(2) by (auto simp: init_proc_def bind_eq_Some_conv Let_def)
    show "core_state k2 = core_state (sem_init (set_status (init_serial k0) 0 RUNNING) (ZombieSem 0) 0)"
      using c1 unfolding k2 core_state_eq by (simp add: upd_proc_def set_status_def sem_init_def same_core_def)
  qed
  moreover have "core_state k3 = core_state k2" using k(3) by (rule kq.init_dev_quiet)
  ultimately have s3: "settled (putstrn k3 hello)" using settled_cong [of "putstrn k3 hello" k2] by simp
  let ?k = "putstrn k3 hello"
  obtain p k4 where a: "proc_alloc ?k = Some (Some p, k4)"
    using k(4) by (auto simp: init_user_and_go_def bind_eq_Some_conv split: option.splits)
  then obtain k5 where k5: "k = proc_addready k5 p" "core_state k5 = core_state k4"
    using k(4) by (auto simp: init_user_and_go_def bind_eq_Some_conv Let_def split: if_splits
        dest!: kq.kopen_quiet kq.load_user_quiet intro: that)
  let ?t = "(\<lambda>c. cont (pcb ?k c))(p := InUser)"
  note al = proc_alloc_core [OF a]
  have p: "p \<noteq> curr ?k" using al(1) s3 by auto
  have "kinv_at ?k ?t (\<lambda>_. 0) = kinv_at ?k (\<lambda>c. cont (pcb ?k c)) (\<lambda>_. 0)"
    by (rule kinv_at_agenda) (use al(1) in auto)
  then have "kinv_at (upd_proc (sem_init ?k (ZombieSem p) 0) p blank) ?t (\<lambda>_. 0)"
    by (intro kinv_at_alloc) (use s3 al p in auto)
  then have "kinv_at k5 ?t (\<lambda>_. 0)" using kinv_at_cong [OF trans [OF k5(2) al(4)]] by simp
  moreover have f: "status (pcb k5 p) = UNINIT" "curr k5 = curr ?k" "status (cur k5) = RUNNING" "\<And>c. cont (pcb k5 c) = ?t c"
    using trans [OF k5(2) al(4)] s3 p by (auto simp: core_state_eq same_core_def upd_proc_def sem_init_def)
  ultimately have "kinv_at k ?t (\<lambda>_. 0)" unfolding k5(1) by (intro kinv_at_addready) simp_all
  moreover have "(\<lambda>c. cont (pcb k c)) = ?t" "status (cur k) = RUNNING"
    using f p unfolding k5(1) by (auto simp: proc_addready_def set_status_def upd_proc_def)
  ultimately show ?thesis by (simp add: kinv_settled)
qed

end
