(* ===== verification/KProps.thy ===== *)
theory KProps
  imports KRun
begin

text \<open>
  What the global invariant gives: the theorems about the kernel as a whole, each with a small family
  of processes (\<open>main\<close> at 0, a parent at 1, its child at 2) as its witness.
\<close>

subsection \<open>A family\<close>

definition family :: "pool \<Rightarrow> (nat \<Rightarrow> status) \<Rightarrow> nat \<Rightarrow> kcont \<Rightarrow> nat \<Rightarrow> int \<Rightarrow> int \<Rightarrow> kern" where
  "family l sts c c1 m vs v = (demo_kern {})\<lparr>
     pcb := (\<lambda>p. boot_proc\<lparr>status := if p \<le> 2 then sts p else UNUSED, cont := if p = 1 then c1 else KTimer,
       parent := if p = 2 then Some 1 else None, child_num := if p = 1 then 1 else 0\<rparr>),
     curr := c, sems := (\<lambda>_. 0)(SerialSem := vs, ZombieSem 1 := v), lists := l,
     s_buffer := (\<lambda>_. 65), s_clap := m, s_tail := m\<rparr>"

lemma family_sel [simp]:
  "curr (family l sts c c1 m vs v) = c" "sems (family l sts c c1 m vs v) = (\<lambda>_. 0)(SerialSem := vs, ZombieSem 1 := v)"
  "lists (family l sts c c1 m vs v) = l" "usem_ref (family l sts c c1 m vs v) u = 0" "s_head (family l sts c c1 m vs v) = 0"
  "s_clap (family l sts c c1 m vs v) = m" "s_tail (family l sts c c1 m vs v) = m" "s_buffer (family l sts c c1 m vs v) i = 65"
  "status (pcb (family l sts c c1 m vs v) p) = (if p \<le> 2 then sts p else UNUSED)"
  "parent (pcb (family l sts c c1 m vs v) p) = (if p = 2 then Some 1 else None)"
  "child_num (pcb (family l sts c c1 m vs v) p) = (if p = 1 then 1 else 0)"
  "cont (pcb (family l sts c c1 m vs v) p) = (if p = 1 then c1 else KTimer)"
  "usems (pcb (family l sts c c1 m vs v) p) = replicate MAX_USEM None"
  "p_files (pcb (family l sts c c1 m vs v) p) = replicate MAX_UFILE None"
  by (simp_all add: family_def demo_kern_def boot_proc_def)

lemma family_heads: "[0 \<mapsto> zs, 2 \<mapsto> [], 4 \<mapsto> xs, 6 \<mapsto> []] (head_no s) = Some ys \<longleftrightarrow>
    (s \<in> {ZombieSem 0, ZombieSem 2} \<and> ys = []) \<or> (s = SerialSem \<and> ys = zs) \<or> (s = ZombieSem 1 \<and> ys = xs)"
  for xs ys zs :: "nat list"
proof -
  have "2 * x \<noteq> Suc 0" "2 * x \<noteq> 3" "2 * x \<noteq> 5" for x :: nat by presburger+
  then show ?thesis by (cases s) auto
qed

lemma family_lists:
  obtains l where "pool_abs l 256 [0 \<mapsto> [], 2 \<mapsto> [], 4 \<mapsto> [], 6 \<mapsto> []]"
proof -
  let ?l = "list_init (lists (demo_kern {})) (Head 2)"
  have "pool_abs ?l 256 [0 \<mapsto> [], 2 \<mapsto> []]"
    using demo_sems [of "{}"] by (intro wq.init_law) (simp add: sems_ok_def)
  from wq.init_law [OF wq.init_law [OF this, of 4], of 6] show ?thesis by (rule that)
qed

text \<open>The child has ended and the parent runs; and: the parent waits for the child, \<open>main\<close> runs.\<close>

abbreviation (input) dead_child :: "nat \<Rightarrow> status" where
  "dead_child \<equiv> \<lambda>p. if p = 0 then READY else if p = 1 then RUNNING else ZOMBIE"

abbreviation (input) waiting_parent :: "nat \<Rightarrow> status" where
  "waiting_parent \<equiv> \<lambda>p. if p = 0 then RUNNING else if p = 1 then BLOCKED else READY"

lemma le2: "p \<le> 2 \<longleftrightarrow> p = 0 \<or> p = 1 \<or> p = (2 :: nat)"
  by auto

lemma family_dead:
  assumes "pool_abs l 256 [0 \<mapsto> [], 2 \<mapsto> [], 4 \<mapsto> [], 6 \<mapsto> []]"
  shows "kinv (family l dead_child 1 KTimer 1 1 1, Iret)"
proof -
  define k where "k = family l dead_child 1 KTimer 1 1 1"
  define t where "t = (\<lambda>p. cont (pcb k p))"
  note sel = family_sel [of l dead_child 1 KTimer 1 1 1, folded k_def]
  have t: "t 0 = KTimer" by (simp add: t_def sel)
  have a: "\<And>p. active k p \<longleftrightarrow> p = 0 \<or> p = 1" "blocked k = {}" "\<And>s. pending k t s = {}"
    "\<And>p. children k p = (if p = 1 then {2} else {})" "\<And>p. zombies k p = (if p = 1 then {2} else {})"
    using t by (auto simp: sets_defs sel le2 waits_on_def split: if_splits)
  have "queues_ok k 256 [0 \<mapsto> [], 2 \<mapsto> [], 4 \<mapsto> [], 6 \<mapsto> []] w" for w
    unfolding queues_ok_def family_heads using assms
    by (auto simp: a sel in_line_def live_def split: sem_id.splits)
  moreover have "waits_ok k t w" "procs_ok k" for w by (auto simp: waits_ok_def a procs_ok_def sel le2 split: if_splits)
  moreover have "counts_ok k t (\<lambda>_. 0)"
    by (auto simp: counts_ok_def a sel avail_def counted_def split: sem_id.splits)
  ultimately have "sync_ok k t (\<lambda>_. 0) 256 [0 \<mapsto> [], 2 \<mapsto> [], 4 \<mapsto> [], 6 \<mapsto> []] w" for w
    by (simp add: sync_ok_def)
  moreover have "tree_ok k t" "input_ok k" by (auto simp: tree_ok_def input_ok_def a sel)
  moreover have "tables_ok k" by (auto simp: tables_ok_def holders_def a sel count_list_0_iff)
  ultimately have "kinv_at k t (\<lambda>_. 0)" unfolding kinv_at_def by blast
  then have "kinv (k, Iret)" by (simp add: kinv_settled t_def sel)
  then show ?thesis by (simp only: k_def)
qed

lemma family_waiting:
  assumes "pool_abs l 255 [0 \<mapsto> [], 2 \<mapsto> [], 4 \<mapsto> [1], 6 \<mapsto> []]"
  shows "kinv (family l waiting_parent 0 (KWait 0) 1 1 (- 1), Iret)"
proof -
  define k where "k = family l waiting_parent 0 (KWait 0) 1 1 (- 1)"
  define t where "t = (\<lambda>p. cont (pcb k p))"
  define w where "w = (\<lambda>_ :: nat. ZombieSem 1)"
  note sel = family_sel [of l waiting_parent 0 "KWait 0" 1 1 "- 1", folded k_def]
  have t: "t 0 = KTimer" "t 1 = KWait 0" "t 2 = KTimer" by (simp_all add: t_def sel)
  have a: "\<And>p. active k p \<longleftrightarrow> p \<le> 2" "blocked k = {1}" "\<And>s. pending k t s = (if s = ZombieSem 1 then {1} else {})"
    "\<And>p. children k p = (if p = 1 then {2} else {})" "\<And>p. zombies k p = {}"
    using t by (auto simp: sets_defs sel le2 waits_on_def split: if_splits)
  have "queues_ok k 255 [0 \<mapsto> [], 2 \<mapsto> [], 4 \<mapsto> [1], 6 \<mapsto> []] w"
    unfolding queues_ok_def family_heads using assms
    by (auto simp: a sel in_line_def live_def le2 w_def split: sem_id.splits)
  moreover have "waits_ok k t w" "procs_ok k"
    using t by (auto simp: waits_ok_def a procs_ok_def sel le2 stands_at_def waits_on_def w_def split: if_splits)
  moreover have "counts_ok k t (\<lambda>_. 0)"
    by (auto simp: counts_ok_def a sel avail_def counted_def split: sem_id.splits)
  ultimately have "sync_ok k t (\<lambda>_. 0) 255 [0 \<mapsto> [], 2 \<mapsto> [], 4 \<mapsto> [1], 6 \<mapsto> []] w"
    by (simp add: sync_ok_def)
  moreover have "tree_ok k t" "input_ok k"
    by (auto simp: tree_ok_def input_ok_def a sel split: if_splits)
  moreover have "tables_ok k" by (auto simp: tables_ok_def holders_def a sel count_list_0_iff)
  ultimately have "kinv_at k t (\<lambda>_. 0)" unfolding kinv_at_def by blast
  then have "kinv (k, Iret)" by (simp add: kinv_settled t_def sel)
  then show ?thesis by (simp only: k_def)
qed

lemma family_reading:
  assumes "pool_abs l 255 [0 \<mapsto> [1], 2 \<mapsto> [], 4 \<mapsto> [], 6 \<mapsto> []]"
  shows "kinv (family l waiting_parent 0 (KSerial 0 1 0) 0 (- 1) 0, Iret)"
proof -
  define k where "k = family l waiting_parent 0 (KSerial 0 1 0) 0 (- 1) 0"
  define t where "t = (\<lambda>p. cont (pcb k p))"
  define w where "w = (\<lambda>_ :: nat. SerialSem)"
  note sel = family_sel [of l waiting_parent 0 "KSerial 0 1 0" 0 "- 1" 0, folded k_def]
  have t: "t 0 = KTimer" "t 1 = KSerial 0 1 0" "t 2 = KTimer" by (simp_all add: t_def sel)
  have a: "\<And>p. active k p \<longleftrightarrow> p \<le> 2" "blocked k = {1}" "\<And>s. pending k t s = (if s = SerialSem then {1} else {})"
    "\<And>p. children k p = (if p = 1 then {2} else {})" "\<And>p. zombies k p = {}"
    using t by (auto simp: sets_defs sel le2 waits_on_def split: if_splits)
  have "queues_ok k 255 [0 \<mapsto> [1], 2 \<mapsto> [], 4 \<mapsto> [], 6 \<mapsto> []] w"
    unfolding queues_ok_def family_heads using assms
    by (auto simp: a sel in_line_def live_def le2 w_def split: sem_id.splits)
  moreover have "waits_ok k t w" "procs_ok k"
    using t by (auto simp: waits_ok_def a procs_ok_def sel le2 stands_at_def waits_on_def w_def split: if_splits)
  moreover have "counts_ok k t (\<lambda>_. 0)"
    by (auto simp: counts_ok_def a sel avail_def counted_def split: sem_id.splits)
  ultimately have "sync_ok k t (\<lambda>_. 0) 255 [0 \<mapsto> [1], 2 \<mapsto> [], 4 \<mapsto> [], 6 \<mapsto> []] w"
    by (simp add: sync_ok_def)
  moreover have "tree_ok k t" "input_ok k"
    by (auto simp: tree_ok_def input_ok_def a sel split: if_splits)
  moreover have "tables_ok k" by (auto simp: tables_ok_def holders_def a sel count_list_0_iff)
  ultimately have "kinv_at k t (\<lambda>_. 0)" unfolding kinv_at_def by blast
  then have "kinv (k, Iret)" by (simp add: kinv_settled t_def sel)
  then show ?thesis by (simp only: k_def)
qed

subsection \<open>Inside handlers\<close>

text \<open>The states in which a handler starts, and in which a process goes on after \<open>proc_run\<close>.\<close>

definition handler_entry :: "kern \<Rightarrow> kern \<Rightarrow> bool" where
  "handler_entry k0 k \<longleftrightarrow>
     (\<exists>k' out. reachable k0 (k', out) \<and> (\<forall>c. out \<noteq> Switch c) \<and> user_effect (to_user k' out) k)"

definition goes_on :: "kern \<Rightarrow> kern \<Rightarrow> bool" where
  "goes_on k0 k \<longleftrightarrow> (\<exists>k' c. reachable k0 (k', Switch c) \<and> schedule k' c = Some k)"

lemma handler_settled: "kinv (k0, Iret) \<Longrightarrow> handler_entry k0 k \<Longrightarrow> settled k"
proof -
  assume a: "kinv (k0, Iret)" "handler_entry k0 k"
  then obtain k' out where r: "reachable k0 (k', out)" "\<forall>c. out \<noteq> Switch c" "user_effect (to_user k' out) k"
    by (auto simp: handler_entry_def)
  have "core_state k = core_state k'" using r(3) by (auto simp: user_effect_def to_user_def split: outcome.splits)
  then show "settled k" using reachable_kinv [OF r(1) a(1)] r(2) settled_cong by (metis kinv_settled)
qed

lemma goes_on_resumed: "kinv (k0, Iret) \<Longrightarrow> goes_on k0 k \<Longrightarrow> resumed k"
  unfolding goes_on_def using reachable_kinv schedule_resumed by blast

text \<open>A process that is past \<open>sem_p\<close> on the semaphore of its children.\<close>

inductive past_wait :: "kern \<Rightarrow> kern \<Rightarrow> bool" for k0 where
  at_once: "past_wait k0 k'" if "handler_entry k0 k" and "sem_p k (ZombieSem (curr k)) = Some (False, k')"
| later: "past_wait k0 k" if "goes_on k0 k" and "cont (cur k) = KWait a"

text \<open>A process in the loop of \<open>serial_read\<close>, and past its \<open>sem_p\<close>.\<close>

inductive past_getchar :: "kern \<Rightarrow> kern \<Rightarrow> bool" and reading :: "kern \<Rightarrow> kern \<Rightarrow> bool" for k0 where
  first: "reading k0 k" if "handler_entry k0 k"
| more: "reading k0 (k'\<lparr>kvm := v\<rparr>)" if "past_getchar k0 k" and "getchar_tail k = Some (ch, k')"
| past: "past_getchar k0 k'" if "reading k0 k" and "sem_p k SerialSem = Some (False, k')"
| woken: "past_getchar k0 k" if "goes_on k0 k" and "cont (cur k) = KSerial buf n i"

lemma past_wait_debt:
  assumes "kinv (k0, Iret)" and "past_wait k0 k"
  shows "\<exists>t d. kinv_at k t d \<and> d (ZombieSem (curr k)) = 1 \<and> active k (curr k)"
  using assms(2)
proof cases
  case (at_once k1)
  have se: "settled k1" using handler_settled [OF assms(1) at_once(1)] .
  then have "active k1 (curr k1)" by (simp add: active_def)
  then have "live k1 (ZombieSem (curr k1))" by (simp add: live_def)
  note t = sem_p_takes_kinv [OF conjunct1 [OF se] this at_once(2)]
  have c: "curr k = curr k1" "active k (curr k)" using \<open>active k1 (curr k1)\<close> by (simp_all add: t(2))
  then have "kinv_at k (\<lambda>p. cont (pcb k1 p)) ((\<lambda>_. 0)(ZombieSem (curr k) := 1))" using t(1) by simp
  then show ?thesis using c(2) by (metis fun_upd_same)
next
  case (later a)
  then have "resumed k" using goes_on_resumed [OF assms(1)] by blast
  then have r: "kinv_at k (\<lambda>p. cont (pcb k p)) (\<lambda>s. if Some (ZombieSem (curr k)) = Some s then 1 else 0)" "active k (curr k)"
    using later(2) by (auto simp: resumed_def waits_on_def active_def)
  show ?thesis by (intro exI conjI, rule r(1)) (simp_all add: r(2))
qed

lemma reading_ok:
  assumes "kinv (k0, Iret)"
  shows "past_getchar k0 k \<Longrightarrow> kinv_at k (\<lambda>p. cont (pcb k p)) ((\<lambda>_. 0)(SerialSem := 1)) \<and> status (cur k) = RUNNING"
    and "reading k0 k' \<Longrightarrow> settled k'"
proof (induction rule: past_getchar_reading.inducts)
  case (first k)
  then show ?case using handler_settled [OF assms] by blast
next
  case (more k ch k' v)
  have m: "kinv_at k (\<lambda>p. cont (pcb k p)) ((\<lambda>_. 0)(SerialSem := 1))" "status (cur k) = RUNNING" "getchar_tail k = Some (ch, k')"
    using more by blast+
  have g: "k' = k\<lparr>s_head := s_head k + 1\<rparr>" "kinv_at k' (\<lambda>p. cont (pcb k p)) ((\<lambda>_. 0)(SerialSem := 1, SerialSem := ((\<lambda>_. 0)(SerialSem := 1)) SerialSem - 1))"
    using getchar_tail_ok [OF m(1)] m(3) by auto
  have "((\<lambda>_. 0)(SerialSem := 1, SerialSem := ((\<lambda>_. 0)(SerialSem := 1)) SerialSem - 1)) = (\<lambda>_. 0 :: int)" by auto
  then have "settled k'" using g(2) m(2) by (simp add: g(1))
  then show ?case using settled_cong [of "k'\<lparr>kvm := v\<rparr>" k'] by simp
next
  case (past k k')
  have m: "settled k" "sem_p k SerialSem = Some (False, k')" using past by blast+
  note t = sem_p_takes_kinv [OF conjunct1 [OF m(1)] live_console m(2)]
  have "(\<lambda>_. 0)(SerialSem := 0 + 1) = (\<lambda>_. 0)(SerialSem := 1 :: int)" by simp
  then show ?case using t(1) m(1) unfolding t(2) by (simp del: fun_upd_apply)
next
  case (woken k buf n i)
  then have "resumed k" using goes_on_resumed [OF assms] by blast
  moreover have "(\<lambda>s. if Some SerialSem = Some s then 1 else 0) = (\<lambda>_. 0)(SerialSem := 1 :: int)" by auto
  ultimately show ?case using woken(2) by (simp add: resumed_def waits_on_def del: fun_upd_apply)
qed

lemma stands_waits: "stands_at us p c s \<Longrightarrow> waits_on p c = Some s' \<Longrightarrow> s = s'"
  by (auto simp: stands_at_def waits_on_def split: sem_id.splits kcont.splits)

lemma waits_zombie: "waits_on r c = Some (ZombieSem p) \<longleftrightarrow> r = p \<and> (\<exists>a. c = KWait a)"
  by (auto simp: waits_on_def split: kcont.splits)

subsection \<open>The theorems\<close>

text \<open>
  C1: the kernel's invariant. Whatever programs, devices and the timer do, in every configuration the
  kernel reaches from one that satisfies \<open>kinv\<close>, as the one \<open>main\<close> leaves does (\<open>main_kinv\<close>): at most
  one process runs; every blocked process stands in exactly one wait list, once, that of the semaphore
  it has called \<open>sem_p\<close> on; the counter of \<open>serial_sem\<close> is the number of characters ready to be read,
  that of a \<open>zombie_sem\<close> the number of ended children, each less the processes that still wait in its list
  and those served but not yet run; parents are alive and count their children; every user semaphore counts its holders.
\<close>

theorem kernel_invariant:
  assumes "kinv (k0, Iret)" and "reachable k0 s"
  shows "kinv s"
  using reachable_kinv [OF assms(2,1)] .

lemma timer_step: "step (k, Iret) (proc_yield (k\<lparr>tick := tick k + 1\<rparr>), Switch KTimer)"
proof (rule step.trap)
  show "user_effect (to_user k Iret) k"
    unfolding user_effect_def
    by (intro exI [of _ "kvm k"] exI [of _ "junk k"] exI [of _ "eax_junk k"]) (simp add: to_user_def)
  show "irq_handle k T_IRQ0 [] = Some (Switch KTimer, proc_yield (k\<lparr>tick := tick k + 1\<rparr>))"
    by (simp add: irq_handle_def timer_handle_def)
qed simp_all

lemma entry_now: "handler_entry k k"
proof -
  have "user_effect (to_user k Iret) k"
    unfolding user_effect_def
    by (intro exI [of _ "kvm k"] exI [of _ "junk k"] exI [of _ "eax_junk k"]) (simp add: to_user_def)
  then show ?thesis unfolding handler_entry_def using reachable.start by blast
qed

theorem kernel_invariant_witness:
  "\<exists>l. let k = family l dead_child 1 KTimer 1 1 1 in kinv (proc_yield (k\<lparr>tick := tick k + 1\<rparr>), Switch KTimer)"
proof -
  obtain l where l: "pool_abs l 256 [0 \<mapsto> [], 2 \<mapsto> [], 4 \<mapsto> [], 6 \<mapsto> []]" by (rule family_lists)
  let ?k = "family l dead_child 1 KTimer 1 1 1"
  have "reachable ?k (proc_yield (?k\<lparr>tick := tick ?k + 1\<rparr>), Switch KTimer)"
    by (rule reachable.step [OF reachable.start timer_step])
  then show ?thesis using kernel_invariant [OF family_dead [OF l]] by (auto simp: Let_def)
qed

text \<open>
  C2: \<open>wait\<close> never fails its assertion: whenever a process is past the \<open>sem_p\<close> of \<open>sys_wait\<close>, at once or
  after having been blocked, \<open>proc_findzombie\<close> finds a child of it that has ended.
\<close>

theorem wait_finds_child:
  assumes "kinv (k0, Iret)" and "past_wait k0 k"
  shows "\<exists>z. proc_findzombie k (curr k) = Some z \<and> parent (pcb k z) = Some (curr k) \<and> status (pcb k z) = ZOMBIE"
proof -
  obtain t d where d: "kinv_at k t d" "d (ZombieSem (curr k)) = 1" "active k (curr k)"
    using past_wait_debt [OF assms] by blast
  then obtain z where z: "proc_findzombie k (curr k) = Some z" using zombie_found [of k t d "curr k"] by auto
  then show ?thesis by (auto simp: proc_findzombie_def find_Some_iff)
qed

theorem wait_finds_child_witness:
  "\<exists>k0 k. sem_p k0 (ZombieSem (curr k0)) = Some (False, k) \<and> proc_findzombie k (curr k) \<noteq> None"
proof -
  obtain l where l: "pool_abs l 256 [0 \<mapsto> [], 2 \<mapsto> [], 4 \<mapsto> [], 6 \<mapsto> []]" by (rule family_lists)
  define k0 where "k0 = family l dead_child 1 KTimer 1 1 1"
  note sel = family_sel [of l dead_child 1 KTimer 1 1 1, folded k0_def]
  let ?k = "k0\<lparr>sems := (sems k0)(ZombieSem 1 := 0)\<rparr>"
  have p: "sem_p k0 (ZombieSem (curr k0)) = Some (False, ?k)" by (simp add: sem_p_def set_value_def sel)
  have "past_wait k0 ?k" by (rule past_wait.at_once [OF entry_now p])
  then have "\<exists>z. proc_findzombie ?k (curr ?k) = Some z"
    using wait_finds_child [of k0 ?k] family_dead [OF l, folded k0_def] by blast
  then show ?thesis using p by blast
qed

text \<open>
  C4: \<open>getchar\<close> never fails its assertion: whenever a reader is past the \<open>sem_p\<close> on \<open>serial_sem\<close>, the
  buffer has a character of a finished line for it, and it is not \<open>NUL\<close>.
\<close>

theorem reader_finds_character:
  assumes "kinv (k0, Iret)" and "past_getchar k0 k"
  shows "\<exists>ch k'. getchar_tail k = Some (ch, k') \<and> ch \<noteq> 0 \<and> s_head k' = s_head k + 1 \<and> s_head k' \<le> s_clap k'"
proof -
  have "kinv_at k (\<lambda>p. cont (pcb k p)) ((\<lambda>_. 0)(SerialSem := 1))" using reading_ok(1) [OF assms] by blast
  from getchar_tail_ok [OF this] obtain ch k' where g: "getchar_tail k = Some (ch, k')" "k' = k\<lparr>s_head := s_head k + 1\<rparr>"
    "kinv_at k' (\<lambda>p. cont (pcb k p)) ((\<lambda>_. 0)(SerialSem := 1, SerialSem := ((\<lambda>_. 0)(SerialSem := 1)) SerialSem - 1))" by auto
  have "ch \<noteq> 0" using g(1) by (auto simp: getchar_tail_def Let_def split: prod.splits if_splits)
  moreover have "s_head k' \<le> s_clap k'" using g(3) by (simp add: kinv_at_def input_ok_def)
  ultimately show ?thesis using g by auto
qed

theorem reader_finds_character_witness:
  "\<exists>k0 k ch k'. sem_p k0 SerialSem = Some (False, k) \<and> getchar_tail k = Some (ch, k') \<and> ch \<noteq> 0"
proof -
  obtain l where l: "pool_abs l 256 [0 \<mapsto> [], 2 \<mapsto> [], 4 \<mapsto> [], 6 \<mapsto> []]" by (rule family_lists)
  define k0 where "k0 = family l dead_child 1 KTimer 1 1 1"
  note sel = family_sel [of l dead_child 1 KTimer 1 1 1, folded k0_def]
  let ?k = "k0\<lparr>sems := (sems k0)(SerialSem := 0)\<rparr>"
  have p: "sem_p k0 SerialSem = Some (False, ?k)" by (simp add: sem_p_def set_value_def sel)
  have "past_getchar k0 ?k" by (rule past_getchar_reading.past [OF past_getchar_reading.first [OF entry_now] p])
  then have "\<exists>ch k'. getchar_tail ?k = Some (ch, k') \<and> ch \<noteq> 0"
    using reader_finds_character [of k0 ?k] family_dead [OF l, folded k0_def] by blast
  then show ?thesis using p by blast
qed

text \<open>
  C3: a process that waits for a child is not waiting in vain: as long as it is blocked in \<open>wait\<close>, it has
  a child that is still alive, whose end will wake it.
\<close>

theorem waiting_parent_has_child:
  assumes "kinv (k0, Iret)" and "reachable k0 (k, out)" and "status (pcb k p) = BLOCKED" and "agenda k out p = KWait a"
  shows "\<exists>c. parent (pcb k c) = Some p \<and> status (pcb k c) \<notin> {UNUSED, ZOMBIE}"
proof -
  let ?t = "agenda k out" and ?s = "ZombieSem p"
  have ki: "kinv_at k ?t (\<lambda>_. 0)" using reachable_kinv [OF assms(2,1)] by (simp add: kinv_def)
  then obtain n q w where s: "sync_ok k ?t (\<lambda>_. 0) n q w" and tr: "tree_ok k ?t" by (auto simp: kinv_at_def)
  note d = syncD [OF s]
  have p: "p \<in> blocked k" "active k p" using assms(3) by (simp_all add: blocked_def active_def)
  have wp: "w p = ?s"
    using d(3) p(1) assms(4) stands_waits [of "usems (pcb k p)" p "?t p" "w p" ?s] by (auto simp: waits_ok_def waits_on_def)
  have pe: "pending k ?t ?s = {p}"
    using assms(3,4) by (auto simp: pending_def waits_zombie)
  have cnt: "counted k ?s" "live k ?s" using p(2) by (simp_all add: counted_def live_def)
  obtain xs where xs: "in_line k w ?s xs" using queueD [OF d(2) cnt(2)] .
  then have "p \<in> set xs" "int (length xs) = max 0 (- sems k ?s)" using p(1) wp cnt(1) by (auto simp: in_line_def)
  then have "sems k ?s < 0" by (cases xs) auto
  moreover have "sems k ?s = int (card (zombies k p)) - 1"
    using d(4) cnt(1) by (simp add: counts_ok_def avail_def pe)
  ultimately have z: "zombies k p = {}" using finite_sets(5) [OF d(1), of p] by simp
  have "p \<in> pending k ?t ?s" using pe by simp
  then have "children k p \<noteq> {}" using tr by (simp add: tree_ok_def)
  then show ?thesis using z by (auto simp: children_def zombies_def)
qed

theorem waiting_parent_has_child_witness:
  "\<exists>(k :: kern) c. status (pcb k 1) = BLOCKED \<and> parent (pcb k c) = Some 1 \<and> status (pcb k c) \<notin> {UNUSED, ZOMBIE}"
proof -
  obtain l0 where "pool_abs l0 256 [0 \<mapsto> [], 2 \<mapsto> [], 4 \<mapsto> [], 6 \<mapsto> []]" by (rule family_lists)
  then have "pool_abs l0 (Suc 255) [0 \<mapsto> [], 2 \<mapsto> [], 4 \<mapsto> [], 6 \<mapsto> []]" by simp
  from wq.enq_law [OF this, of 4 "[]" 1] obtain l where l: "pool_abs l 255 ([0 \<mapsto> [], 2 \<mapsto> [], 4 \<mapsto> [], 6 \<mapsto> []](4 \<mapsto> [] @ [1]))"
    by auto
  have "[0 \<mapsto> [], 2 \<mapsto> [], 4 \<mapsto> [], 6 \<mapsto> []](4 \<mapsto> [] @ [1]) =
      ([0 \<mapsto> [], 2 \<mapsto> [], 4 \<mapsto> [1], 6 \<mapsto> []] :: nat \<rightharpoonup> nat list)" by (auto simp: fun_eq_iff)
  then have l1: "pool_abs l 255 [0 \<mapsto> [], 2 \<mapsto> [], 4 \<mapsto> [1], 6 \<mapsto> []]" using l by simp
  define k where "k = family l waiting_parent 0 (KWait 0) 1 1 (- 1)"
  note sel = family_sel [of l waiting_parent 0 "KWait 0" 1 1 "- 1", folded k_def]
  have "\<exists>c. parent (pcb k c) = Some 1 \<and> status (pcb k c) \<notin> {UNUSED, ZOMBIE}"
    by (rule waiting_parent_has_child [OF family_waiting [OF l1, folded k_def] reachable.start])
      (simp_all add: sel agenda_def)
  moreover have "status (pcb k 1) = BLOCKED" by (simp add: sel)
  ultimately show ?thesis by blast
qed

text \<open>
  C5: no wake-up of a reader is lost: when a process is blocked on \<open>serial_sem\<close> and no reader has been
  woken that has not run yet, then no character of a finished line is waiting in the buffer.
\<close>

theorem blocked_reader_no_input:
  assumes "kinv (k0, Iret)" and "reachable k0 (k, out)" and "status (pcb k p) = BLOCKED" and "agenda k out p = KSerial b n i"
    and "\<forall>r. status (pcb k r) = READY \<longrightarrow> waits_on r (agenda k out r) \<noteq> Some SerialSem"
  shows "s_head k = s_clap k"
proof -
  let ?t = "agenda k out" and ?s = "SerialSem"
  have ki: "kinv_at k ?t (\<lambda>_. 0)" using reachable_kinv [OF assms(2,1)] by (simp add: kinv_def)
  then obtain m q w where s: "sync_ok k ?t (\<lambda>_. 0) m q w" and io: "input_ok k" by (auto simp: kinv_at_def)
  note d = syncD [OF s]
  have wp: "w r = ?s \<longleftrightarrow> waits_on r (?t r) = Some ?s" if "r \<in> blocked k" for r
  proof -
    have st: "stands_at (usems (pcb k r)) r (?t r) (w r)" using d(3) that by (simp add: waits_ok_def)
    then show ?thesis using stands_waits [OF st, of ?s] by (auto simp: stands_at_def)
  qed
  have pe: "pending k ?t ?s = {r \<in> blocked k. w r = ?s}"
    using assms(5) wp by (auto simp: pending_def blocked_def)
  obtain xs where xs: "in_line k w ?s xs" using queueD [OF d(2) live_console] .
  then have len: "int (length xs) = max 0 (- sems k ?s)" "distinct xs" "set xs = pending k ?t ?s"
    by (auto simp: in_line_def counted_def pe)
  have "p \<in> set xs" using assms(3,4) len(3) by (simp add: pending_def waits_on_def)
  then have "0 < length xs" by (cases xs) auto
  then have neg: "int (length xs) = - sems k ?s" using len(1) by (cases "sems k ?s < 0") auto
  have "sems k ?s = int (avail k ?s) - int (card (pending k ?t ?s))"
    using d(4) by (simp add: counts_ok_def counted_def)
  moreover have "card (pending k ?t ?s) = length xs" using distinct_card [OF len(2)] unfolding len(3) .
  ultimately have "avail k ?s = 0" using neg by linarith
  then show ?thesis using io by (simp add: avail_def input_ok_def)
qed

theorem blocked_reader_no_input_witness:
  "\<exists>k :: kern. status (pcb k 1) = BLOCKED \<and> cont (pcb k 1) = KSerial 0 1 0 \<and> s_head k = s_clap k"
proof -
  obtain l0 where "pool_abs l0 256 [0 \<mapsto> [], 2 \<mapsto> [], 4 \<mapsto> [], 6 \<mapsto> []]" by (rule family_lists)
  then have "pool_abs l0 (Suc 255) [0 \<mapsto> [], 2 \<mapsto> [], 4 \<mapsto> [], 6 \<mapsto> []]" by simp
  from wq.enq_law [OF this, of 0 "[]" 1] obtain l where l: "pool_abs l 255 ([0 \<mapsto> [], 2 \<mapsto> [], 4 \<mapsto> [], 6 \<mapsto> []](0 \<mapsto> [] @ [1]))"
    by auto
  have "[0 \<mapsto> [], 2 \<mapsto> [], 4 \<mapsto> [], 6 \<mapsto> []](0 \<mapsto> [] @ [1]) =
      ([0 \<mapsto> [1], 2 \<mapsto> [], 4 \<mapsto> [], 6 \<mapsto> []] :: nat \<rightharpoonup> nat list)" by (auto simp: fun_eq_iff)
  then have l1: "pool_abs l 255 [0 \<mapsto> [1], 2 \<mapsto> [], 4 \<mapsto> [], 6 \<mapsto> []]" using l by simp
  define k where "k = family l waiting_parent 0 (KSerial 0 1 0) 0 (- 1) 0"
  note sel = family_sel [of l waiting_parent 0 "KSerial 0 1 0" 0 "- 1" 0, folded k_def]
  have "s_head k = s_clap k"
    by (rule blocked_reader_no_input [OF family_reading [OF l1, folded k_def] reachable.start, of 1 0 1 0])
      (auto simp: sel agenda_def waits_on_def le2)
  moreover have "status (pcb k 1) = BLOCKED" "cont (pcb k 1) = KSerial 0 1 0" by (simp_all add: sel)
  ultimately show ?thesis by blast
qed

text \<open>
  C17: the pool of 256 list nodes never runs out and a wait list that should hold a process is never
  empty: \<open>sem_p\<close> on a semaphore that is in use, and \<open>sem_v\<close> on the console's or a process's, come back
  as long as the counter does not overflow.
\<close>

theorem wait_lists_suffice:
  assumes "kinv (k0, Iret)" and "handler_entry k0 k" and "live k s" and "- (2 ^ 31) < sems k s" and "sems k s < 2 ^ 31 - 1"
  shows "(\<exists>b k'. sem_p k s = Some (b, k')) \<and> (counted k s \<longrightarrow> (\<exists>k'. sem_v k s = Some k'))"
proof -
  have se: "settled k" by (rule handler_settled [OF assms(1,2)])
  then obtain n q w where s: "sync_ok k (\<lambda>p. cont (pcb k p)) (\<lambda>_. 0) n q w" by (auto simp: kinv_at_def)
  note d = syncD [OF s]
  obtain xs where xs: "q (head_no s) = Some xs" "in_line k w s xs" using queueD [OF d(2) assms(3)] .
  have pa: "pool_abs (lists k) n q" "n + card (blocked k) = LIST_NUM" using d(2) by (simp_all add: queues_ok_def)
  have n: "n = Suc (n - 1)" using pa(2) card_blocked [OF d(1)] by simp
  obtain l where "list_enqueue (lists k) (Head (head_no s)) (curr k) = Some l"
    using wq.enq_law [of "lists k" "n - 1" q "head_no s" xs "curr k"] pa(1) n xs(1) by auto
  then have "\<exists>b k'. sem_p k s = Some (b, k')"
    using assms(4,5) by (auto simp: sem_p_def set_value_def sem_head_no)
  moreover have "\<exists>k'. sem_v k s = Some k'" if "counted k s"
  proof (cases xs)
    case Nil
    then have "max 0 (- sems k s) = 0" using xs(2) that by (simp add: in_line_def)
    then have "0 \<le> sems k s" by linarith
    then show ?thesis using assms(4,5) by (simp add: sem_v_def set_value_def)
  next
    case (Cons p ys)
    then obtain l where "list_dequeue (lists k) (Head (head_no s)) = Some (Some p, l)"
      using wq.deq_some [OF pa(1), of "head_no s" p ys] xs(1) by auto
    then show ?thesis using assms(4,5) by (auto simp: sem_v_def set_value_def sem_head_no)
  qed
  ultimately show ?thesis by blast
qed

theorem wait_lists_suffice_witness:
  "\<exists>k b k'. sem_p k (ZombieSem 1) = Some (b, k') \<and> sem_v k (ZombieSem 1) \<noteq> None"
proof -
  obtain l where l: "pool_abs l 256 [0 \<mapsto> [], 2 \<mapsto> [], 4 \<mapsto> [], 6 \<mapsto> []]" by (rule family_lists)
  define k where "k = family l dead_child 1 KTimer 1 1 1"
  note sel = family_sel [of l dead_child 1 KTimer 1 1 1, folded k_def]
  have "active k 1" by (simp add: active_def sel)
  then have a: "live k (ZombieSem 1)" "counted k (ZombieSem 1)" by (simp_all add: live_def counted_def)
  have "(\<exists>b k'. sem_p k (ZombieSem 1) = Some (b, k')) \<and> (counted k (ZombieSem 1) \<longrightarrow> (\<exists>k'. sem_v k (ZombieSem 1) = Some k'))"
    by (rule wait_lists_suffice [OF family_dead [OF l, folded k_def] entry_now a(1)]) (simp_all add: sel)
  then show ?thesis using a(2) by blast
qed

text \<open>
  C38: \<open>sem_open\<close> takes any initial value: one below zero makes the counter disagree with the wait list
  from the start, and the first \<open>sem_v\<close> takes a process from the empty list and stores through \<open>NULL\<close>.
\<close>

theorem negative_semaphore_stops_kernel:
  assumes "sys_sem_open k v = (Ret i, k1)" and "i \<noteq> - 1" and "sint v < 0" and "length (usems (cur k)) = MAX_USEM"
  shows "sys_sem_v k1 i = None"
proof -
  have i: "i = free_slot (usems (cur k)) MAX_USEM"
    using assms(1,2) by (auto simp: sys_sem_open_def proc_allocusem_def Let_def split: if_splits option.splits prod.splits)
  obtain u where u: "find (\<lambda>i. usem_ref k i = 0) [0..<USER_SEM_NUM] = Some u"
    "k1 = set_usem ((sem_init k (UserSem u) (sint v))\<lparr>usem_ref := (usem_ref k)(u := 1)\<rparr>) i (Some u)"
    using assms(1,2) unfolding sys_sem_open_def usem_alloc_def i
    by (auto simp: Let_def proc_allocusem_def split: if_splits option.splits)
  have "unat i < MAX_USEM" "i = of_nat (unat i)" using free_slot_some [of "usems (cur k)" MAX_USEM] assms(2) i by auto
  have "proc_getusem k1 (curr k1) i = get_slot ((usems (cur k))[unat i := Some u]) MAX_USEM i"
    unfolding u(2) by (simp add: proc_getusem_def set_usem_def upd_proc_def sem_init_def)
  also have "\<dots> = Some u"
  proof -
    have "sint i = int (unat i)" using \<open>unat i < MAX_USEM\<close> by (intro sint_small) simp
    moreover have "int (unat i) < int MAX_USEM" using \<open>unat i < MAX_USEM\<close> by (simp only: of_nat_less_iff)
    ultimately have "\<not> (sint i < 0 \<or> sint i \<ge> int MAX_USEM)" by linarith
    then show ?thesis using \<open>unat i < MAX_USEM\<close> assms(4) by (simp only: get_slot_def if_False) simp
  qed
  finally have g: "proc_getusem k1 (curr k1) i = Some u" .
  have s: "sems k1 (UserSem u) = sint v" "lists k1 = list_init (lists k) (sem_head (UserSem u))"
    unfolding u(2) by (simp_all add: set_usem_def upd_proc_def sem_init_def)
  have "list_dequeue (lists k1) (sem_head (UserSem u)) = Some (None, lists k1)"
    unfolding s(2) by (simp add: list_dequeue_def list_empty_def list_init_def self_loop_def Let_def)
  moreover have "- (2 ^ 31) \<le> sint v" using sint_ge [of v] by simp
  ultimately have "sem_v k1 (UserSem u) = None"
    using assms(3) s(1) by (simp add: sem_v_def set_value_def)
  then show ?thesis using g by (simp add: sys_sem_v_def)
qed

theorem negative_semaphore_stops_kernel_witness:
  "\<exists>i k1. sys_sem_open (demo_kern {}) (- 1) = (Ret i, k1) \<and> sys_sem_v k1 i = None"
proof -
  define k where "k = demo_kern {}"
  have f: "find (\<lambda>i. usem_ref k i = 0) [0..<USER_SEM_NUM] = Some 0" "proc_allocusem k (curr k) = 0"
    "length (usems (cur k)) = MAX_USEM"
    by (simp_all add: k_def demo_kern_def boot_proc_def proc_allocusem_def free_slot_def upt_conv_Cons)
  have "sys_sem_open k (- 1) = (Ret 0, set_usem ((sem_init k (UserSem 0) (sint (- 1 :: u32)))\<lparr>usem_ref := (usem_ref k)(0 := 1)\<rparr>) 0 (Some 0))"
    using f by (simp add: sys_sem_open_def usem_alloc_def)
  moreover from this have "sys_sem_v (set_usem ((sem_init k (UserSem 0) (sint (- 1 :: u32)))\<lparr>usem_ref := (usem_ref k)(0 := 1)\<rparr>) 0 (Some 0)) 0 = None"
    by (rule negative_semaphore_stops_kernel) (simp_all add: f)
  ultimately show ?thesis unfolding k_def by blast
qed

text \<open>
  C16: the tables are well formed in every configuration: the current process and all used slots are in
  \<open>pcb[]\<close>, the tables of a live process keep their 32 entries, an entry for a user semaphore is one of the
  128 of \<open>user_sem[]\<close>, the reference count of a user semaphore is the number of entries of live processes
  for it, and so \<open>usem_alloc\<close> never hands out one that a process still holds.
\<close>

theorem tables_well_formed:
  assumes "kinv (k0, Iret)" and "reachable k0 (k, out)"
  shows "curr k < PROC_NUM \<and> (\<forall>p. status (pcb k p) \<noteq> UNUSED \<longrightarrow> p < PROC_NUM) \<and>
    (\<forall>p. active k p \<longrightarrow> length (usems (pcb k p)) = MAX_USEM \<and> length (p_files (pcb k p)) = MAX_UFILE) \<and>
    (\<forall>p u v. active k p \<and> Some u \<in> set (usems (pcb k p)) \<longrightarrow> u < USER_SEM_NUM \<and> fst (usem_alloc k v) \<noteq> Some u) \<and>
    (\<forall>u. usem_ref k u = int (\<Sum>p | active k p. count_list (usems (pcb k p)) (Some u)))"
proof -
  have ki: "kinv_at k (agenda k out) (\<lambda>_. 0)" using reachable_kinv [OF assms(2,1)] by (simp add: kinv_def)
  then obtain n q w where s: "sync_ok k (agenda k out) (\<lambda>_. 0) n q w" and t: "tables_ok k" by (auto simp: kinv_at_def)
  note po = syncD(1) [OF s]
  have "curr k < PROC_NUM \<and> (\<forall>p. status (pcb k p) \<noteq> UNUSED \<longrightarrow> p < PROC_NUM)" using po by (simp add: procs_ok_def)
  moreover have "\<forall>p. active k p \<longrightarrow> length (usems (pcb k p)) = MAX_USEM \<and> length (p_files (pcb k p)) = MAX_UFILE"
    "\<forall>u. usem_ref k u = int (\<Sum>p | active k p. count_list (usems (pcb k p)) (Some u))"
    using t by (simp_all add: tables_ok_def holders_def)
  moreover have "u < USER_SEM_NUM \<and> fst (usem_alloc k v) \<noteq> Some u"
    if a: "active k p" "Some u \<in> set (usems (pcb k p))" for p u v
  proof
    show "u < USER_SEM_NUM" using t a unfolding tables_ok_def by blast
    have "0 < usem_ref k u" by (rule held_ref [OF t po a])
    then show "fst (usem_alloc k v) \<noteq> Some u"
      by (auto simp: usem_alloc_def find_Some_iff split: option.splits)
  qed
  ultimately show ?thesis by blast
qed

theorem tables_well_formed_witness:
  "\<exists>k :: kern. active k 1 \<and> length (usems (pcb k 1)) = MAX_USEM \<and> curr k < PROC_NUM"
proof -
  obtain l where l: "pool_abs l 256 [0 \<mapsto> [], 2 \<mapsto> [], 4 \<mapsto> [], 6 \<mapsto> []]" by (rule family_lists)
  define k where "k = family l dead_child 1 KTimer 1 1 1"
  note sel = family_sel [of l dead_child 1 KTimer 1 1 1, folded k_def]
  note w = tables_well_formed [OF family_dead [OF l, folded k_def] reachable.start]
  have "active k 1" by (simp add: active_def sel)
  then show ?thesis using w by blast
qed

end
