(* ===== verification/SyscallProps.thy ===== *)
theory SyscallProps
  imports Syscall RefTable FileProps
begin

text \<open>
  What single system calls guarantee: numbers out of range, descriptors, and the state a failed
  \<open>exec\<close> leaves.
\<close>

subsection \<open>Dispatch\<close>

text \<open>
  A system call number outside the table, negative ones included, yields \<open>- 1\<close> in the
  caller's \<open>eax\<close> and changes nothing else in the kernel.
\<close>

lemma unknown_syscall_rejected:
  assumes "sint (ctx_get (kvm k) (user_ctx_of k) ctx_eax) \<notin> {0..<NR_SYS}"
  shows "\<exists>k'. map_option (\<lambda>(out, k). to_user k out) (do_syscall k) = Some k' \<and>
    k' = k\<lparr>kvm := ctx_set (kvm k) (user_ctx_of k) ctx_eax (- 1)\<rparr> \<and>
    ctx_get (kvm k') (user_ctx_of k') ctx_eax = - 1"
proof -
  have "do_syscall k = Some (Ret (- 1), k)" using assms by (auto simp: do_syscall_def Let_def)
  then show ?thesis
    by (simp add: to_user_def user_ctx_of_def ctx_get_def ctx_set_def ld_def st_def)
qed

subsection \<open>Descriptors\<close>

definition table_ok :: "kern \<Rightarrow> bool" where
  "table_ok k \<longleftrightarrow> length (p_files (cur k)) = MAX_UFILE \<and>
     (\<forall>i < MAX_UFILE. \<forall>f. p_files (cur k) ! i = Some f \<longrightarrow> 0 < f_ref (files k f))"

lemma set_fd_sel [simp]:
  "pcb (set_fd k fd f) = (pcb k)(curr k := (cur k)\<lparr>p_files := (p_files (cur k))[unat fd := f]\<rparr>)" "files (set_fd k fd f) = files k"
  "curr (set_fd k fd f) = curr k" "kfs (set_fd k fd f) = kfs k"
  by (simp_all add: set_fd_def upd_proc_def)

lemma fdup_sel [simp]:
  "pcb (fdup k f) = pcb k" "curr (fdup k f) = curr k" "kfs (fdup k f) = kfs k"
  "files (fdup k f) = (files k)(f := (files k f)\<lparr>f_ref := f_ref (files k f) + 1\<rparr>)"
  by (simp_all add: fdup_def upd_file_def)

lemma fd_file_bound:
  "fd_file k fd = Some f \<Longrightarrow> unat fd < MAX_UFILE \<and> p_files (cur k) ! unat fd = Some f"
proof -
  assume a: "fd_file k fd = Some f"
  then have s: "0 \<le> sint fd" "sint fd < int MAX_UFILE" "p_files (cur k) ! unat fd = Some f"
    by (auto simp: fd_file_def proc_getfile_def get_slot_def split: if_splits)
  then show ?thesis using sint_nonneg [of fd] by linarith
qed

lemma fd_file_small: "i < MAX_UFILE \<Longrightarrow> fd_file k (of_nat i) = p_files (cur k) ! i"
proof -
  assume i: "i < MAX_UFILE"
  then have u: "unat (of_nat i :: u32) = i" by (intro unat_of_nat32) simp
  then have "sint (of_nat i :: u32) = int i" using i by (subst sint_small) simp_all
  then show ?thesis using i u by (simp add: fd_file_def proc_getfile_def get_slot_def)
qed

lemma proc_allocfile_cases:
  assumes "length (p_files (cur k)) = MAX_UFILE"
  obtains (full) "proc_allocfile k (curr k) = - 1" "None \<notin> set (p_files (cur k))"
    | (free) i where "i < MAX_UFILE" "proc_allocfile k (curr k) = of_nat i" "p_files (cur k) ! i = None"
        "\<forall>j < i. p_files (cur k) ! j \<noteq> None" "(of_nat i :: u32) \<noteq> - 1"
proof (cases "find (\<lambda>i. p_files (cur k) ! i = None) [0..<MAX_UFILE]")
  case None
  then have "proc_allocfile k (curr k) = - 1" by (simp add: proc_allocfile_def free_slot_def)
  moreover have "None \<notin> set (p_files (cur k))"
    using None assms by (auto simp: find_None_iff in_set_conv_nth)
  ultimately show ?thesis by (rule full)
next
  case (Some i)
  then have i: "i < MAX_UFILE" "p_files (cur k) ! i = None" "\<forall>j < i. p_files (cur k) ! j \<noteq> None"
    by (auto simp: find_Some_iff)
  have "unat (of_nat i :: u32) = i" using i(1) by (intro unat_of_nat32) simp
  moreover have "unat (- 1 :: u32) = 2 ^ 32 - 1" by (simp add: unsigned_minus_1_eq_mask mask_eq_exp_minus_1)
  ultimately have "(of_nat i :: u32) \<noteq> - 1" using i(1) by auto
  then show ?thesis using i Some by (intro free [of i]) (simp_all add: proc_allocfile_def free_slot_def)
qed

text \<open>
  \<open>dup\<close> gives the lowest free descriptor the same open file, so both share one offset, and
  closing the new descriptor undoes it: the file stays open through the old one, the table and
  the reference counts are as before.
\<close>

lemma dup_close_undo:
  assumes "table_ok k" and "fd_file k fd = Some f" and "None \<in> set (p_files (cur k))"
  shows "\<exists>i k1 k2. sys_dup k fd = Some (Ret (of_nat i), k1) \<and> i < MAX_UFILE \<and>
    p_files (cur k) ! i = None \<and> (\<forall>j < i. p_files (cur k) ! j \<noteq> None) \<and>
    fd_file k1 (of_nat i) = Some f \<and> fd_file k1 fd = Some f \<and>
    sys_close k1 (of_nat i) = Some (Ret 0, k2) \<and> p_files (cur k2) = p_files (cur k) \<and>
    files k2 = files k \<and> kfs k2 = kfs k"
proof -
  have len: "length (p_files (cur k)) = MAX_UFILE" using assms(1) by (simp add: table_ok_def)
  show ?thesis
  proof (cases rule: proc_allocfile_cases [OF len])
    case 1
    then show ?thesis using assms(3) by simp
  next
    case (2 i)
    note fb = fd_file_bound [OF assms(2)]
    have ref: "0 < f_ref (files k f)" using assms(1) fb by (auto simp: table_ok_def)
    have u: "unat (of_nat i :: u32) = i" using 2(1) by (intro unat_of_nat32) simp
    let ?k1 = "set_fd (fdup k f) (of_nat i) (Some f)"
    have d: "sys_dup k fd = Some (Ret (of_nat i), ?k1)"
      using 2 assms(2) by (simp add: sys_dup_def Let_def)
    have f1: "fd_file ?k1 (of_nat i) = Some f" using 2(1) len u by (simp add: fd_file_small)
    have "fd_file ?k1 fd = Some f"
      using assms(2) fb 2(1,3) u len
      by (auto simp: fd_file_def proc_getfile_def get_slot_def nth_list_update split: if_splits)
    moreover have "fclose ?k1 f = Some (upd_file ?k1 f (\<lambda>x. x\<lparr>f_ref := f_ref x - 1\<rparr>))"
      using ref by (simp add: fclose_def Let_def upd_file_def)
    then have "sys_close ?k1 (of_nat i) =
        Some (Ret 0, set_fd (upd_file ?k1 f (\<lambda>x. x\<lparr>f_ref := f_ref x - 1\<rparr>)) (of_nat i) None)"
      using f1 by (simp add: sys_close_def)
    moreover have "(p_files (cur k))[i := None] = p_files (cur k)"
      using 2(1,3) len by (metis list_update_id)
    ultimately show ?thesis using d f1 2 u
      by (intro exI [of _ i] exI [of _ ?k1]
          exI [of _ "set_fd (upd_file ?k1 f (\<lambda>x. x\<lparr>f_ref := f_ref x - 1\<rparr>)) (of_nat i) None"])
        (auto simp: upd_file_def)
  qed
qed

definition one_open :: kern where
  "one_open = (demo_io 0)\<lparr>pcb := (\<lambda>p. boot_proc\<lparr>p_files := (replicate MAX_UFILE None)[0 := Some 5]\<rparr>)\<rparr>"

subsection \<open>A failed \<open>exec\<close>\<close>

text \<open>
  C37: \<open>sys_exec\<close> switches the process's \<open>pgdir\<close> to the new page directory before it knows
  whether the program can be loaded. When the file does not exist, the new directory is freed
  and \<open>- 1\<close> is returned, but \<open>pgdir\<close> keeps pointing to the freed page, which is at the head of the
  free list: the next time the process is scheduled it runs on a page directory that may have
  been given to somebody else.
\<close>

theorem failed_exec_dangling_pgdir:
  assumes "heap (kvm k) (pd # x # xs)" and "vm_alloc (kvm k) = Some (pd, v)"
    and "getstr v path = Some name"
    and "iopen (kfs k) (cwd (cur k)) name TYPE_NONE (dirent_junk k) = Some (None, f)"
  shows "\<exists>k'. sys_exec k path argv = Some (Ret (- 1), k') \<and> cr3 (kvm k') = cr3 (kvm k) \<and>
    heap (kvm k') (pd # x # xs) \<and> pgdir (cur k') = pd"
proof -
  let ?k = "upd_proc (k\<lparr>kvm := v\<rparr>) (curr k) (\<lambda>pr. pr\<lparr>pgdir := pd\<rparr>)"
  have v: "heap v (x # xs)" "cr3 v = cr3 (kvm k)"
    using vm_alloc_ok [OF assms(1)] assms(2) by (auto simp: kept_out_def)
  have "heap_page pd" "pd \<notin> set (x # xs)" using assms(1) heap_pages [OF assms(1)] by (auto simp: heap_def)
  then obtain v' where v': "kfree v pd = Some v'" "heap v' (pd # x # xs)" "cr3 v' = cr3 v"
    using kfree_ok [OF v(1), of pd] unfolding outside_def by blast
  have "kopen ?k name TYPE_NONE = Some (None, ?k\<lparr>kfs := f\<rparr>)"
    using assms(4) by (simp add: kopen_def upd_proc_def dirent_junk_def)
  then have "load_user ?k pd ctx name argv = Some (- 1, ctx, ?k\<lparr>kfs := f\<rparr>)" for ctx
    by (simp add: load_user_def load_elf_def)
  then have "sys_exec k path argv = Some (Ret (- 1), ?k\<lparr>kfs := f, kvm := v'\<rparr>)"
    using assms(2,3) v'(1) by (simp add: sys_exec_def vm_op_def upd_proc_def)
  then show ?thesis using v v' by (simp add: upd_proc_def)
qed

text \<open>The boot heap, under page tables that map page 5 everywhere; it holds empty strings only.\<close>

definition exec_vm :: vm where
  "exec_vm = boot_vm\<lparr>pmem := (\<lambda>a. if a < 0x6000 then demo_mem a else pmem boot_vm a), cr3 := 0x1000\<rparr>"

lemma exec_heap: "heap exec_vm (pg 0 # pg 1 # heap_from 2)"
proof -
  have "heap exec_vm (heap_from 0) = heap boot_vm (heap_from 0)"
  proof (rule heap_cong)
    fix x assume "x \<in> set (heap_from 0)"
    then have "heap_page x" using boot_heap heap_pages by blast
    then have "\<forall>a \<in> set [unat x..<unat x + 4]. pmem exec_vm a = pmem boot_vm a"
      using heap_page_bounds [of x] by (auto simp: exec_vm_def)
    then have "map (pmem exec_vm) [unat x..<unat x + 4] = map (pmem boot_vm) [unat x..<unat x + 4]"
      by (intro map_cong) auto
    then show "pw exec_vm x 0 = pw boot_vm x 0" by (simp add: pw_def ld_def entry_def word_at_def del: map_eq_conv)
  qed (simp add: exec_vm_def)
  then show ?thesis using boot_heap heap_from_Cons [of 0] heap_from_Cons [of 1]
    by (simp add: numeral_2_eq_2)
qed

theorem failed_exec_dangling_pgdir_witness:
  "\<exists>k k'. sys_exec k 0 0 = Some (Ret (- 1), k') \<and> heap (kvm k') (pg 0 # pg 1 # heap_from 2) \<and> pgdir (cur k') = pg 0"
proof -
  let ?k = "(demo_kern {})\<lparr>kvm := exec_vm\<rparr>"
  obtain v where v: "vm_alloc exec_vm = Some (pg 0, v)" "kept_out exec_vm v {pg 0}"
    using vm_alloc_ok [OF exec_heap] by blast
  have low: "pmem v a = demo_mem a" if "a < 0x6000" for a
  proof -
    have "\<not> in_page (pg 0) a" using that heap_page_bounds [OF pg_heap [of 0]] by (auto simp: in_page_def)
    then have "pmem v a = pmem exec_vm a" using v(2) by (simp add: kept_out_def)
    then show ?thesis using that by (simp add: exec_vm_def)
  qed
  have "translate v 0 = Some (0x5000 OR ADDR2OFF 0)"
    by (rule demo_translate) (use v(2) low in \<open>auto simp: kept_out_def exec_vm_def demo_tables_def\<close>)
  then have "getb v 0 = Some 0" using low [of "0x5000"] by (simp add: getb_def ADDR2OFF_def demo_mem_def)
  then have g: "getstr v 0 = Some []" by (subst getstr.simps) simp
  have io: "iopen (kfs ?k) (cwd (cur ?k)) [] TYPE_NONE (dirent_junk ?k) = Some (None, kfs ?k)"
    by (simp add: iopen_def skipelem_def)
  have h: "heap (kvm ?k) (pg 0 # pg 1 # heap_from 2)" and a: "vm_alloc (kvm ?k) = Some (pg 0, v)"
    using exec_heap v(1) by simp_all
  show ?thesis using failed_exec_dangling_pgdir [OF h a g io, of 0] by blast
qed

end
