(* ===== verification/Spec2Isabelle.thy ===== *)
theory Spec2Isabelle
  imports Fork KPrint Descr Boot EasyFsProps Stdlib Stdio GrepMain XargsProps CondSemProps PhilCnd Dining Buffer MkfsProps ShellMain UHeapProps KProps SyscallProps SerialProps ProcProps VmeProps FsProps FsDir CString Loader
begin

text \<open>
  tinyOS: a model of a small x86 kernel in C, its C library and some of its programs, and what makes
  them correct. The configuration is the one the Makefile builds, phase 6 (\<open>STAGE=phase6\<close>) with the
  inode file system; the half of \<open>fs.c\<close> under \<open>EASY_FS\<close>, which the earlier stages compile, is a theory of its own.

  \<^bold>\<open>The program.\<close> The kernel has one page heap and page tables (\<open>vme.c\<close>), a table of processes with
  a round-robin scheduler and semaphores (\<open>proc.c\<close>, \<open>sem.c\<close>) whose wait lists share one pool of list
  nodes (\<open>list.c\<close>), a disk driver with a write-through block cache (\<open>disk.c\<close>) under a file system of
  inodes and directories (\<open>fs.c\<close>), open files and devices (\<open>file.c\<close>, \<open>dev.c\<close>), a serial console with
  line editing (\<open>serial.c\<close>), an ELF loader (\<open>loader.c\<close>) and the system calls over all of them
  (\<open>syscall.c\<close>), entered through \<open>irq_handle\<close> (\<open>cte.c\<close>). Programs use the string and number routines
  and the formatted output of \<open>lib/src\<close>.

  \<^bold>\<open>Conventions.\<close> A C structure is a record, an enumeration a datatype, \<open>uint32_t\<close> a 32-bit word,
  a byte array a list of 8-bit words or a function from indices to bytes. A pointer into a static
  array is the index, \<open>NULL\<close> an inner \<open>None\<close>. The outer \<^term>\<open>None\<close> is a run that has no result: a
  failed assertion, a panic, a fault, a loop without end, or C that is undefined. State is passed
  explicitly. Where C leaves memory or a register uninitialised, the state has an arbitrary value
  (\<open>junk\<close>, \<open>eax_junk\<close>). Loops are structural recursion, \<open>function\<close> with a measure, or
  \<open>partial_function (option)\<close> where they can run for ever (the scheduler's search, the loops over a
  file, strings in user memory, the blocking read); no model uses fuel unless it says so.

  \<^bold>\<open>The theories.\<close>
  \<^item> \<open>Prelude\<close>: words, segments of lists and arrays, little-endian words, the fallible fold.
  \<^item> \<open>Disk\<close> (\<open>disk.c\<close>): sectors, block copies and the cache; the interface \<open>block_store\<close>, which the
    file system uses, is interpreted on the cache.
  \<^item> \<open>FsInode\<close> (\<open>fs.c\<close>): super block, bitmap, inodes, \<open>iwalk\<close>, \<open>iread\<close>, \<open>iwrite\<close>, \<open>itrunc\<close>;
    \<open>FsInodeProofs\<close>, \<open>FsFile\<close> and \<open>FsRw\<close> prove the layout, allocation, the address of a block and the
    loops; \<open>FsProps\<close> states what a read and a write do to the contents of files. \<open>FsDir\<close>: paths and
    directories.
  \<^item> \<open>Mkfs\<close> (\<open>utils/mkfs.c\<close>): the host tool that writes the disk the kernel starts with. \<open>MkfsProofs\<close>
    sees its image as a file system of the kernel, \<open>MkfsImage\<close> has the invariant of the image and
    \<open>iappend\<close>, \<open>MkfsRun\<close> a whole run, and \<open>MkfsProps\<close> shows that the kernel mounts the image, finds
    every file and reads its bytes. The bound on the files there counts two blocks for each block of
    data, which is what the last block of a file may need.
  \<^item> \<open>EasyFs\<close>: the file system of the earlier stages (\<open>fs.c\<close> under \<open>EASY_FS\<close>) and the tool that writes its disk
    (\<open>utils/genuser.c\<close>); \<open>EasyFsProps\<close> shows that the kernel finds and reads every file the tool was given.
  \<^item> \<open>Boot\<close> (\<open>boot/boot.c\<close>, \<open>boot.h\<close>): the boot loader on physical memory, and which memory the kernel starts with.
    \<open>Descr\<close> (\<open>irq.h\<close>, \<open>memory.h\<close>, \<open>init_cte\<close>, \<open>init_gdt\<close>, the entries of \<open>trap.S\<close>): descriptors down to their bits, and
    what the processor reads in them; this is what justifies that \<open>irq_handle\<close> of \<open>Syscall\<close> is entered from a
    program by the system call and faults alone.
  \<^item> \<open>ListPool\<close> (\<open>list.c\<close>): the rings and their pool; the interface \<open>fifo\<close> with its laws, interpreted on
    them.
  \<^item> \<open>Vme\<close> (\<open>vme.c\<close>, \<open>memory.h\<close>): heap, page directories, mapping, copying. \<open>VmeHeap\<close> has the interface
    \<open>page_heap\<close> of the free list, \<open>VmeSpace\<close> the invariant of an address space and what a map does,
    \<open>VmeCopy\<close> the copy \<open>fork\<close> makes, \<open>VmeProps\<close> the results.
  \<^item> \<open>Proc\<close> (\<open>proc.c\<close>, \<open>sem.c\<close>): the kernel's state \<open>kern\<close>, processes, semaphores. What a blocked
    process still has to do in the kernel, on its kernel stack in C, is the continuation \<open>kcont\<close> in
    its slot. \<open>ProcProps\<close>: the scheduler's choice, bounded waiting, counters against wait lists.
    \<open>RefTable\<close>: the interface \<open>ref_table\<close> of reference counts, interpreted on user semaphores and on
    open files.
  \<^item> \<open>Serial\<close> (\<open>serial.c\<close>) with the kernel's access to user memory, \<open>SerialProps\<close>; \<open>File\<close> (\<open>file.c\<close>,
    \<open>dev.c\<close>), \<open>UserMem\<close> and \<open>FileProps\<close>; \<open>Loader\<close> (\<open>loader.c\<close>).
  \<^item> \<open>Syscall\<close> (\<open>syscall.c\<close>, \<open>timer.c\<close>, \<open>cte.c\<close>, \<open>main.c\<close>): every system call, the dispatch and the
    start; \<open>SyscallProps\<close>. \<open>Quiet\<close> has the frame (the locale \<open>quiet\<close>, interpreted on what the scheduler
    works on and on what the global invariant is about) that files, memory and the loader stay out of,
    and \<open>System\<close> puts handlers, scheduler and continuations together as a step relation, with the
    invariant that the scheduler always finds a process.
  \<^item> \<open>KInv\<close>: the global invariant of the kernel, which ties process states, wait lists, semaphore counters,
    the family tree, the tables of user semaphores and the console's buffer together. \<open>KSync\<close> and \<open>KOps\<close>
    show it for the semaphores, the scheduler and the console, \<open>KTree\<close> and \<open>KFork\<close> for \<open>wait\<close>, user
    semaphores, \<open>fork\<close> and \<open>exit\<close>, \<open>KRun\<close> for every step and the start, and \<open>KProps\<close> draws the
    consequences: the assertions of \<open>wait\<close> and \<open>getchar\<close> never fail, no wake-up is lost, the list nodes
    suffice, a waiting parent has a living child.
  \<^item> \<open>Fork\<close>: the whole of \<open>fork\<close>, from the free slot through the address space and the kernel stack to the tables
    that parent and child share.
  \<^item> \<open>CString\<close>, \<open>Stdlib\<close>, \<open>Stdio\<close> (\<open>lib/src\<close>): strings, numbers, formatted output.
  \<^item> \<open>Grep\<close> (\<open>user/src/phase6/grep.c\<close>): the pattern matcher and the loop over the lines; \<open>GrepMain\<close>: the program.
  \<^item> \<open>Xargs\<close> (\<open>user/src/phase6/xargs.c\<close>): the program over \<open>strtok\<close>; \<open>XargsProps\<close>: it runs one command for each line.
  \<^item> \<open>Shell\<close> (\<open>user/src/phase6/sh.c\<close>): tokens, the recursive-descent parser, the termination of the words
    in place, \<open>runcmd\<close>; the parser has a bound on the depth of its calls, the length of the line plus 3,
    which is shown never to be reached. \<open>ShellProps\<close>: what it reads back of a printed command.
    \<open>ShellRun\<close> has what a command means, on its structure (which programs run, when, with which descriptors), and
    what the system calls that \<open>runcmd\<close> makes do, as they are documented (\<open>pipe\<close> is not in this kernel); the two
    agree. \<open>ShellMain\<close>: the loop over the lines, and the whole shell on the text of commands.
  \<^item> \<open>UserIo\<close> (\<open>user/ulib/scanf.c\<close>, \<open>printf.c\<close>): the buffer of descriptor 0, lines, \<open>scanf\<close>, \<open>printf\<close>;
    what \<open>read\<close> returns is a list in the state, and lines and numbers are those of the stream of
    characters it makes, however it is cut.
  \<^item> \<open>Ucall\<close> (\<open>user/ulib/syscall.c\<close>, \<open>start.c\<close>): the stubs of the system calls, from the registers through the
    trap and the kernel back to \<open>eax\<close>. \<open>Tools\<close> (\<open>cat.c\<close>, \<open>wc.c\<close>, \<open>head.c\<close>, \<open>echo.c\<close>, \<open>rm.c\<close>, \<open>mkdir.c\<close> of
    \<open>user/src/phase6\<close>): the programs over a record of system calls; \<open>ToolsProps\<close> proves their loops over the
    interfaces \<open>file_source\<close>, \<open>file_to_output\<close> and \<open>text_to_output\<close>, which \<open>KTools\<close> (for \<open>cat\<close>) and \<open>KPrint\<close>
    (for \<open>wc\<close>, whose line goes through the formatted output, and \<open>head\<close>) interpret on the stubs and the kernel, so
    that a program's result is a statement about the files of the kernel and its console.
  \<^item> \<open>UHeap\<close> (\<open>user/ulib/stdlib.c\<close>): \<open>malloc\<close> and \<open>free\<close> on the words of the headers; \<open>UHeapFree\<close> has the
    invariant (a sorted ring of separate free blocks, which tile the heap together with the blocks in
    use) and \<open>free\<close>, \<open>UHeapProps\<close> has \<open>malloc\<close>.
  \<^item> \<open>Conc\<close>: programs of several threads, each step of a thread an action on the shared state: runs,
    deadlock, the locale \<open>threads\<close> of what an invariant needs, and counting the threads at a place.
    \<open>Cond\<close> and \<open>CondProps\<close> (\<open>lab/lab8/condition.c\<close>, \<open>condition_mutex.c\<close>): producers and consumers with the
    condition variables of the C library, and with a mutex alone; \<open>CondSem\<close> and \<open>CondSemProps\<close>
    (\<open>condition_sem.c\<close>, \<open>condition_sem_false.c\<close>): with condition variables made of semaphores, which
    refine those of the library, and a version without the handshake, which deadlocks. \<open>PhilCnd\<close>
    (\<open>philosopher_cnd.c\<close>), \<open>Dining\<close> and \<open>Buffer\<close> (\<open>user/src/phase4/philosopher.c\<close>, \<open>producer.c\<close>): dining
    philosophers and a bounded buffer. Threads of \<open>lab\<close> run on the host; POSIX semaphores, mutexes and
    condition variables are modelled by what the standard says of them.

  \<^bold>\<open>What is not modelled.\<close> The port and control instructions of \<open>cpu.h\<close> and the switch to protected mode
  (\<open>start.S\<close>): their effect is in the state (the current page directory, the saved context, the disk). The
  exception report (\<open>kfault.c\<close>), which this configuration does not compile; a fault has no result here. The
  other programs of \<open>user/src\<close>: tests, and the versions of earlier phases of programs that are modelled.
  Concurrency inside the kernel does not arise: handlers run with interrupts off. The kernel checks no pointer it
  gets from a program; what it stores through one changes physical memory here, so that page tables and saved
  contexts can be overwritten, but the kernel's own variables are fields of a record that no such store
  reaches. The counter of the loop of \<open>iread\<close> under \<open>EASY_FS\<close>, an \<open>int\<close>, is a natural number, which differs for
  reads of more than 2 GB only.
\<close>

end
